(* ===== verification/Prelude.thy ===== *)
theory Prelude
  imports Main "HOL-Library.Word" "HOL-Library.Monad_Syntax"
begin

text \<open>
  Shared vocabulary of the development: the machine integer types of
  \<^verbatim>\<open>libs/defs.h\<close>, the kernel's error codes (\<^verbatim>\<open>libs/error.h\<close>), the convention for code
  that may not return, and the generic lemmas the components use.

  Conventions.
  \<^item> \<open>uint8_t\<close>, \<open>uint32_t\<close>, \<open>size_t\<close>, \<open>uintptr_t\<close> are words of their width; a C \<open>int\<close>
    whose overflow matters is a 32-bit word read with \<open>sint\<close>, other C integers are \<open>int\<close> or
    \<open>nat\<close>.
  \<^item> A failed \<^verbatim>\<open>assert\<close> and a \<^verbatim>\<open>panic\<close> stop the kernel for good (\<^verbatim>\<open>kern/debug/panic.c\<close> loops in the
    monitor), and a loop over a broken list never ends: in each case the C function does not
    return. A function that may not return has a result of type \<open>'a option\<close>, and \<open>None\<close> is
    "does not return". Error codes the code returns are values: \<open>Some (- E_INVAL)\<close>.
\<close>

unbundle bit_operations_syntax

type_synonym u8 = "8 word"
type_synonym u16 = "16 word"
type_synonym u32 = "32 word"
type_synonym u64 = "64 word"

section \<open>Error codes and rounding\<close>

definition E_BAD_PROC :: int where "E_BAD_PROC = 2"
definition E_INVAL :: int where "E_INVAL = 3"
definition E_NO_MEM :: int where "E_NO_MEM = 4"
definition E_NO_FREE_PROC :: int where "E_NO_FREE_PROC = 5"
definition E_KILLED :: int where "E_KILLED = 9"
definition E_BUSY :: int where "E_BUSY = 15"
definition E_NOENT :: int where "E_NOENT = 16"
definition E_TOO_BIG :: int where "E_TOO_BIG = 12"
definition E_NO_DEV :: int where "E_NO_DEV = 13"
definition E_NA_DEV :: int where "E_NA_DEV = 14"
definition E_ISDIR :: int where "E_ISDIR = 17"
definition E_NOTDIR :: int where "E_NOTDIR = 18"
definition E_UNIMP :: int where "E_UNIMP = 20"
definition E_MAX_OPEN :: int where "E_MAX_OPEN = 22"
definition E_EXISTS :: int where "E_EXISTS = 23"

text \<open>\<open>ROUNDDOWN\<close> and \<open>ROUNDUP\<close> compute in \<open>size_t\<close>, so \<open>ROUNDUP\<close> wraps near the top.\<close>

definition ROUNDDOWN :: "u32 \<Rightarrow> u32 \<Rightarrow> u32" where
  "ROUNDDOWN a n = a - a mod n"

definition ROUNDUP :: "u32 \<Rightarrow> u32 \<Rightarrow> u32" where
  "ROUNDUP a n = ROUNDDOWN (a + n - 1) n"

definition ROUNDUP_DIV :: "u32 \<Rightarrow> u32 \<Rightarrow> u32" where
  "ROUNDUP_DIV a n = (a + n - 1) div n"

section \<open>Code that may not return\<close>

text \<open>\<open>kassert\<close> is the kernel's \<open>assert\<close>: it returns nothing when the condition fails.\<close>

definition kassert :: "bool \<Rightarrow> unit option" where
  "kassert b = (if b then Some () else None)"

lemma kassert_simps [simp]:
  "kassert True = Some ()" "kassert False = None"
  by (simp_all add: kassert_def)

lemma kassert_eq_Some [simp]: "kassert b = Some u \<longleftrightarrow> b"
  by (simp add: kassert_def)

lemma kassert_bind_eq_Some [simp]:
  "(kassert b \<bind> f) = Some x \<longleftrightarrow> b \<and> f () = Some x"
  by (simp add: kassert_def)

lemma kassert_bind [simp]: "b \<Longrightarrow> (kassert b \<bind> f) = f ()"
  by simp

lemma option_bind_Some [simp]: "(Some x \<bind> f) = f x"
  by simp

section \<open>Words\<close>

lemma unat_word_mod: "unat (a mod b) = unat a mod unat (b :: 'a::len word)"
  by (rule unat_mod)

lemma unat_word_div: "unat (a div b) = unat a div unat (b :: 'a::len word)"
  by (rule unat_div)

lemma unat_sub_mod: "unat (a - a mod n) = unat a - unat a mod unat (n :: 'a::len word)"
proof -
  have "a mod n \<le> a"
    by (simp add: word_le_nat_alt unat_word_mod)
  then show ?thesis
    by (simp add: unat_sub unat_word_mod)
qed

lemma unat_ROUNDDOWN: "unat (ROUNDDOWN a n) = unat a - unat a mod unat n"
  by (simp add: ROUNDDOWN_def unat_sub_mod)

lemma unat_add_no_wrap:
  "unat a + unat b < 2 ^ LENGTH('a) \<Longrightarrow> unat (a + b :: 'a::len word) = unat a + unat b"
  by (simp add: unat_word_ariths)

lemma unat_ucast_mod: "unat (ucast w :: 'b::len word) = unat w mod 2 ^ LENGTH('b)"
  by (simp add: unsigned_ucast_eq take_bit_eq_mod)

lemma unat_ucast_up: "LENGTH('a) \<le> LENGTH('b) \<Longrightarrow> unat (ucast (w :: 'a::len word) :: 'b::len word) = unat w"
proof -
  assume le: "LENGTH('a) \<le> LENGTH('b)"
  have "unat w < 2 ^ LENGTH('a)" by (rule unsigned_less)
  also have "\<dots> \<le> (2::nat) ^ LENGTH('b)" using le by (simp add: power_increasing)
  finally show ?thesis by (simp add: unat_ucast_mod)
qed

lemma unat_drop: "unat (drop_bit k w) = unat (w :: 'a::len word) div 2 ^ k"
  unfolding unat_drop_bit_eq by (simp add: drop_bit_eq_div)

lemma push_bit_or_bit:
  "b \<in> {0, 1} \<Longrightarrow> push_bit 1 r OR b = 2 * r + (b :: 'a::len word)"
proof -
  assume b: "b \<in> {0, 1}"
  have "push_bit 1 r AND 1 = (0 :: 'a word)"
    by (rule bit_word_eqI) (auto simp: bit_simps simp del: push_bit_of_1 push_bit_eq_mult One_nat_def push_bit_Suc)
  with b have "push_bit 1 r AND b = 0" by auto
  then have "push_bit 1 r OR b = push_bit 1 r + b" by (rule disjunctive_add_eq_or [symmetric])
  then show ?thesis by (simp add: push_bit_eq_mult mult.commute)
qed

text \<open>A word below \<open>2 ^ 31\<close> has the same value signed and unsigned.\<close>

lemma sint_u32_small: "unat w < 2 ^ 31 \<Longrightarrow> sint (w :: u32) = int (unat w)"
proof -
  assume a: "unat w < 2 ^ 31"
  have "int (unat w) < 2 ^ 31" using a by (simp only: of_nat_less_numeral_power_cancel_iff)
  moreover have "- (2 ^ 31) \<le> int (unat w)" by (rule order_trans [of _ 0]) simp_all
  ultimately have "signed_take_bit 31 (int (unat w)) = int (unat w)"
    by (intro signed_take_bit_int_eq_self)
  moreover have "sint w = signed_take_bit 31 (uint w)"
    unfolding sint_uint by simp
  ultimately show ?thesis by (simp only: of_nat_unat)
qed

lemma sint_u32_shift: "sint (w :: u32) = (int (unat w) + 2 ^ 31) mod 2 ^ 32 - 2 ^ 31"
proof -
  have "sint w = signed_take_bit 31 (uint w)" unfolding sint_uint by simp
  also have "\<dots> = take_bit 32 (uint w + 2 ^ 31) - 2 ^ 31"
    by (simp only: signed_take_bit_eq_take_bit_shift Suc_nat_number_of_add) simp
  finally show ?thesis by (simp only: take_bit_eq_mod of_nat_unat)
qed

lemma unat_u32_nonneg: "0 \<le> sint w \<Longrightarrow> unat (w :: u32) = nat (sint w)"
proof -
  assume nn: "0 \<le> sint w"
  have lt: "unat w < 2 ^ 32" using unsigned_less [of w, where ?'a = nat] by simp
  show ?thesis
  proof (cases "unat w < 2 ^ 31")
    case True
    then show ?thesis by (simp only: sint_u32_small nat_int)
  next
    case False
    define k where "k = int (unat w)"
    from False lt have k: "2 ^ 31 \<le> k" "k < 2 ^ 32" by (simp_all add: k_def del: of_nat_unat)
    have "(k + 2 ^ 31) mod 2 ^ 32 = (k - 2 ^ 31) mod 2 ^ 32"
      using mod_add_self2 [of "k - 2 ^ 31" "2 ^ 32"] by (simp add: add.commute)
    also have "\<dots> = k - 2 ^ 31" using k by (intro mod_pos_pos_trivial) simp_all
    finally have "sint w = k - 2 ^ 32" unfolding sint_u32_shift k_def by simp
    with nn k show ?thesis by simp
  qed
qed

lemma sint_u32_uminus: "sint w \<noteq> - (2 ^ 31) \<Longrightarrow> sint (- w :: u32) = - sint w"
proof -
  assume "sint w \<noteq> - (2 ^ 31)"
  with sint_ge [of w] sint_lt [of w] show ?thesis
    by (simp add: sint_word_ariths signed_take_bit_int_eq_self)
qed

lemma sint_eq_0_iff: "sint w = 0 \<longleftrightarrow> (w :: u32) = 0"
  by (metis sint_0 signed_word_eqI)

lemma uint_pos_iff: "0 < uint w \<longleftrightarrow> w \<noteq> 0"
  by (metis uint_0_iff uint_ge_0 order_le_less order_less_irrefl)

lemma unat_of_nat_small: "n < 2 ^ LENGTH('a) \<Longrightarrow> unat (of_nat n :: 'a::len word) = n"
  by (simp add: unsigned_of_nat take_bit_nat_eq_self)

lemma len32: "LENGTH(32) = 32"
  by simp

lemma unat_minus_nonzero_u32: "w \<noteq> 0 \<Longrightarrow> unat (- w :: u32) = 2 ^ 32 - unat w"
proof -
  assume w: "w \<noteq> 0"
  have lt: "unat w < 2 ^ 32" using unsigned_less [of w, where ?'a = nat] by simp
  have "of_nat (2 ^ 32 - unat w) = (- w :: u32)"
  proof -
    have "(of_nat (2 ^ 32) :: u32) = 0" by simp
    then show ?thesis using lt by (simp only: of_nat_diff less_imp_le) simp
  qed
  moreover have "2 ^ 32 - unat w < 2 ^ 32" using w by (simp add: unat_gt_0)
  then have "unat (of_nat (2 ^ 32 - unat w) :: u32) = 2 ^ 32 - unat w"
    by (intro unat_of_nat_small) (simp only: len32)
  ultimately show ?thesis by (simp only:)
qed

lemma unat_minus_1_u32: "unat (- 1 :: u32) = 4294967295"
  by (simp add: unsigned_minus_1_eq_mask mask_eq_exp_minus_1)

lemma unat_lt_u32: "unat (a :: u32) < 4294967296"
  using unsigned_less [of a, where ?'a = nat] by simp

section \<open>Single bits\<close>

text \<open>\<open>1 << k\<close>, and what testing, setting, clearing and flipping with it do to a word.\<close>

definition bit_mask :: "nat \<Rightarrow> 'a::len word" where
  "bit_mask k = push_bit k 1"

lemma bit_bit_mask: "bit (bit_mask k :: 'a::len word) j \<longleftrightarrow> j = k \<and> k < LENGTH('a)"
  by (auto simp: bit_mask_def push_bit_eq_mult bit_exp_iff)

lemma and_bit_mask_eq_0: "(w :: 'a::len word) AND bit_mask k = 0 \<longleftrightarrow> \<not> bit w k"
proof -
  have "w AND bit_mask k = w AND 2 ^ k" by (simp add: bit_mask_def push_bit_eq_mult)
  then show ?thesis by (simp add: and_exp_eq_0_iff_not_bit)
qed

lemma bit_xor_mask:
  "bit (w XOR bit_mask k :: 'a::len word) j \<longleftrightarrow> (if j = k \<and> k < LENGTH('a) then \<not> bit w j else bit w j)"
  by (auto simp: bit_xor_iff bit_bit_mask)

lemma bit_or_mask:
  "bit (w OR bit_mask k :: 'a::len word) j \<longleftrightarrow> bit w j \<or> (j = k \<and> k < LENGTH('a))"
  by (auto simp: bit_or_iff bit_bit_mask)

lemma bit_clear_mask:
  "bit (w AND NOT (bit_mask k) :: 'a::len word) j \<longleftrightarrow> bit w j \<and> j \<noteq> k"
  by (auto simp: bit_and_iff bit_not_iff bit_bit_mask dest: bit_imp_le_length)

lemma word_neq_0_bit: "(w :: 'a::len word) \<noteq> 0 \<longleftrightarrow> (\<exists>k < LENGTH('a). bit w k)"
  by (metis bit_imp_le_length bit_0_eq bot_apply bot_bool_def bit_word_eqI)

end
