(* ===== verification/ListH.thy ===== *)
theory ListH
  imports Prelude
begin

text \<open>
  \<^verbatim>\<open>libs/list.h\<close>: circular doubly linked lists embedded in other structures.

  The memory is a function from link addresses to \<open>list_entry\<close> records. The address type is a
  parameter \<open>'l\<close>: a client instantiates it with a datatype that has one constructor per kind of
  embedded link (the head of a wait queue, the \<open>run_link\<close> of a process, ...), so the macros
  \<^verbatim>\<open>le2proc\<close>, \<^verbatim>\<open>le2page\<close>, ... which go from a link to the structure that embeds it are
  constructor matches. \<open>ring h head xs\<close> says that \<open>head\<close> heads a well-formed circular list whose
  entries are \<open>xs\<close> in order; every operation is proved against it.
\<close>

record 'l list_entry =
  le_prev :: 'l
  le_next :: 'l

type_synonym 'l lheap = "'l \<Rightarrow> 'l list_entry"

section \<open>The operations of list.h\<close>

definition list_init :: "'l \<Rightarrow> 'l lheap \<Rightarrow> 'l lheap" where
  "list_init elm h = h(elm := (h elm)\<lparr>le_next := elm, le_prev := elm\<rparr>)"

definition list_add_raw :: "'l \<Rightarrow> 'l \<Rightarrow> 'l \<Rightarrow> 'l lheap \<Rightarrow> 'l lheap" where
  "list_add_raw elm prv nxt h =
    (let h1 = h(nxt := (h nxt)\<lparr>le_prev := elm\<rparr>);
         h2 = h1(prv := (h1 prv)\<lparr>le_next := elm\<rparr>);
         h3 = h2(elm := (h2 elm)\<lparr>le_next := nxt\<rparr>)
     in h3(elm := (h3 elm)\<lparr>le_prev := prv\<rparr>))"

definition list_del_raw :: "'l \<Rightarrow> 'l \<Rightarrow> 'l lheap \<Rightarrow> 'l lheap" where
  "list_del_raw prv nxt h =
    (let h1 = h(prv := (h prv)\<lparr>le_next := nxt\<rparr>)
     in h1(nxt := (h1 nxt)\<lparr>le_prev := prv\<rparr>))"

definition list_add_before :: "'l \<Rightarrow> 'l \<Rightarrow> 'l lheap \<Rightarrow> 'l lheap" where
  "list_add_before listelm elm h = list_add_raw elm (le_prev (h listelm)) listelm h"

definition list_add_after :: "'l \<Rightarrow> 'l \<Rightarrow> 'l lheap \<Rightarrow> 'l lheap" where
  "list_add_after listelm elm h = list_add_raw elm listelm (le_next (h listelm)) h"

definition list_add :: "'l \<Rightarrow> 'l \<Rightarrow> 'l lheap \<Rightarrow> 'l lheap" where
  "list_add listelm elm h = list_add_after listelm elm h"

definition list_del :: "'l \<Rightarrow> 'l lheap \<Rightarrow> 'l lheap" where
  "list_del listelm h = list_del_raw (le_prev (h listelm)) (le_next (h listelm)) h"

definition list_del_init :: "'l \<Rightarrow> 'l lheap \<Rightarrow> 'l lheap" where
  "list_del_init listelm h = list_init listelm (list_del listelm h)"

definition list_empty :: "'l \<Rightarrow> 'l lheap \<Rightarrow> bool" where
  "list_empty lst h \<longleftrightarrow> le_next (h lst) = lst"

definition list_next :: "'l \<Rightarrow> 'l lheap \<Rightarrow> 'l" where
  "list_next listelm h = le_next (h listelm)"

definition list_prev :: "'l \<Rightarrow> 'l lheap \<Rightarrow> 'l" where
  "list_prev listelm h = le_prev (h listelm)"

section \<open>Abstraction: segments and rings\<close>

text \<open>\<open>dseg h a xs b\<close>: following \<open>next\<close> from \<open>a\<close> visits \<open>xs\<close> and then \<open>b\<close>, and
  \<open>prev\<close> goes back the same way.\<close>

fun dseg :: "'l lheap \<Rightarrow> 'l \<Rightarrow> 'l list \<Rightarrow> 'l \<Rightarrow> bool" where
  "dseg h a [] b \<longleftrightarrow> le_next (h a) = b \<and> le_prev (h b) = a"
| "dseg h a (x # xs) b \<longleftrightarrow> le_next (h a) = x \<and> le_prev (h x) = a \<and> dseg h x xs b"

definition ring :: "'l lheap \<Rightarrow> 'l \<Rightarrow> 'l list \<Rightarrow> bool" where
  "ring h head xs \<longleftrightarrow> distinct (head # xs) \<and> dseg h head xs head"

text \<open>An entry that is in no list, as \<open>list_init\<close> and \<open>list_del_init\<close> leave it.\<close>

definition unlinked :: "'l lheap \<Rightarrow> 'l \<Rightarrow> bool" where
  "unlinked h e \<longleftrightarrow> le_next (h e) = e \<and> le_prev (h e) = e"

lemmas list_raw_defs = list_add_raw_def list_del_raw_def Let_def

lemma dseg_append [simp]:
  "dseg h a (xs @ x # ys) b \<longleftrightarrow> dseg h a xs x \<and> dseg h x ys b"
  by (induction xs arbitrary: a) auto

lemma dseg_next: "dseg h a xs b \<Longrightarrow> le_next (h a) = (case xs of [] \<Rightarrow> b | x # _ \<Rightarrow> x)"
  by (cases xs) auto

lemma dseg_prev: "dseg h a xs b \<Longrightarrow> le_prev (h b) = (if xs = [] then a else last xs)"
  by (induction xs arbitrary: a) auto

lemma dseg_cong:
  "(\<And>x. x \<in> set (a # xs) \<Longrightarrow> le_next (h' x) = le_next (h x)) \<Longrightarrow>
   (\<And>x. x \<in> set (b # xs) \<Longrightarrow> le_prev (h' x) = le_prev (h x)) \<Longrightarrow>
   dseg h' a xs b = dseg h a xs b"
proof (induction xs arbitrary: a)
  case Nil
  then show ?case by simp
next
  case (Cons x xs)
  have "dseg h' x xs b = dseg h x xs b"
    by (rule Cons.IH) (auto intro: Cons.prems)
  with Cons.prems show ?case by simp
qed

lemma ring_frame:
  "ring h head xs \<Longrightarrow> (\<And>x. x \<in> set (head # xs) \<Longrightarrow> h' x = h x) \<Longrightarrow> ring h' head xs"
proof -
  assume r: "ring h head xs" and eq: "\<And>x. x \<in> set (head # xs) \<Longrightarrow> h' x = h x"
  have "dseg h' head xs head = dseg h head xs head"
    using eq by (intro dseg_cong) auto
  with r show "ring h' head xs" by (simp add: ring_def)
qed

lemma dseg_next_in: "dseg h a xs b \<Longrightarrow> le_next (h a) \<in> insert b (set xs)"
  by (cases xs) auto

lemma dseg_prev_in: "dseg h a xs b \<Longrightarrow> le_prev (h b) \<in> insert a (set xs)"
  by (simp add: dseg_prev)

lemma ring_rotate: "ring h head (xs @ x # ys) \<longleftrightarrow> ring h x (ys @ head # xs)"
  by (auto simp: ring_def)

lemma ring_neighbours_in:
  assumes "ring h head xs" "x \<in> set (head # xs)"
  shows "le_next (h x) \<in> set (head # xs)" "le_prev (h x) \<in> set (head # xs)"
proof -
  obtain zs where zs: "ring h x zs" "set (x # zs) = set (head # xs)"
  proof (cases "x = head")
    case True
    with assms(1) that show thesis by blast
  next
    case False
    with assms(2) obtain as bs where "xs = as @ x # bs" by (auto dest: split_list)
    with assms(1) ring_rotate [of h head as x bs] that [of "bs @ head # as"] show thesis by auto
  qed
  then have "dseg h x zs x" by (simp add: ring_def)
  from dseg_next_in [OF this] dseg_prev_in [OF this] zs(2)
  show "le_next (h x) \<in> set (head # xs)" "le_prev (h x) \<in> set (head # xs)" by auto
qed

lemma ring_neighbours_neq:
  assumes "ring h head xs" "x \<in> set xs"
  shows "le_next (h x) \<noteq> x" "le_prev (h x) \<noteq> x"
proof -
  from assms(2) obtain as bs where "xs = as @ x # bs" by (auto dest: split_list)
  with assms(1) have r: "ring h x (bs @ head # as)" by (simp add: ring_rotate)
  then have d: "dseg h x (bs @ head # as) x" and n: "x \<notin> set (bs @ head # as)"
    by (simp_all add: ring_def)
  show "le_next (h x) \<noteq> x" using dseg_next [OF d] n by (cases bs) auto
  show "le_prev (h x) \<noteq> x" using dseg_prev [OF d] n last_in_set [of "bs @ head # as"]
    by (auto simp del: last_append last_in_set)
qed

lemma ring_distinct: "ring h head xs \<Longrightarrow> distinct (head # xs)"
  by (simp add: ring_def)

lemma ring_Nil: "ring h head [] \<longleftrightarrow> unlinked h head"
  by (auto simp: ring_def unlinked_def)

lemma ring_next_head:
  "ring h head xs \<Longrightarrow> list_next head h = (case xs of [] \<Rightarrow> head | x # _ \<Rightarrow> x)"
  by (auto simp: ring_def list_next_def dest: dseg_next)

lemma ring_prev_head:
  "ring h head xs \<Longrightarrow> list_prev head h = (if xs = [] then head else last xs)"
  by (auto simp: ring_def list_prev_def dest: dseg_prev)

lemma ring_next_elem:
  "ring h head (xs @ x # ys) \<Longrightarrow> list_next x h = (case ys of [] \<Rightarrow> head | y # _ \<Rightarrow> y)"
  by (auto simp: ring_def list_next_def dest: dseg_next)

lemma ring_prev_elem:
  "ring h head (xs @ x # ys) \<Longrightarrow> list_prev x h = (if xs = [] then head else last xs)"
  by (auto simp: ring_def list_prev_def dest: dseg_prev)

lemma ring_list_empty: "ring h head xs \<Longrightarrow> list_empty head h \<longleftrightarrow> xs = []"
  by (cases xs) (auto simp: ring_def list_empty_def)

lemma ring_elem_not_empty: "ring h head xs \<Longrightarrow> x \<in> set xs \<Longrightarrow> \<not> list_empty x h"
proof -
  assume r: "ring h head xs" and "x \<in> set xs"
  then obtain as bs where xs: "xs = as @ x # bs" by (meson split_list)
  with r show ?thesis
    by (cases bs) (auto simp: ring_def list_empty_def)
qed

lemma ring_unique: "ring h head xs \<Longrightarrow> ring h head ys \<Longrightarrow> xs = ys"
proof -
  have "dseg h a xs b \<Longrightarrow> dseg h a ys b \<Longrightarrow> b \<notin> set xs \<Longrightarrow> b \<notin> set ys \<Longrightarrow> xs = ys" for a b
  proof (induction xs arbitrary: a ys)
    case Nil
    then show ?case by (cases ys) auto
  next
    case (Cons x xs)
    then show ?case by (cases ys) auto
  qed
  then show "ring h head xs \<Longrightarrow> ring h head ys \<Longrightarrow> xs = ys"
    by (auto simp: ring_def)
qed

section \<open>The operations refine list insertion and deletion\<close>

lemma list_init_other [simp]: "x \<noteq> e \<Longrightarrow> list_init e h x = h x"
  by (simp add: list_init_def)

lemma ring_init: "ring (list_init head h) head []"
  by (simp add: ring_def list_init_def)

lemma unlinked_init: "unlinked (list_init e h) e"
  by (simp add: unlinked_def list_init_def)

lemma unlinked_list_empty: "unlinked h e \<Longrightarrow> list_empty e h"
  by (simp add: unlinked_def list_empty_def)

lemma dseg_insert:
  assumes "dseg h a [] b" "e \<noteq> a" "e \<noteq> b"
  shows "dseg (list_add_raw e a b h) a [e] b"
  using assms by (auto simp: list_raw_defs)

lemma list_add_raw_other:
  "x \<noteq> e \<Longrightarrow> x \<noteq> a \<Longrightarrow> le_next (list_add_raw e a b h x) = le_next (h x)"
  "x \<noteq> e \<Longrightarrow> x \<noteq> b \<Longrightarrow> le_prev (list_add_raw e a b h x) = le_prev (h x)"
  "x \<noteq> e \<Longrightarrow> x \<noteq> a \<Longrightarrow> x \<noteq> b \<Longrightarrow> list_add_raw e a b h x = h x"
  by (auto simp: list_raw_defs)

lemma list_del_raw_other:
  "x \<noteq> a \<Longrightarrow> le_next (list_del_raw a b h x) = le_next (h x)"
  "x \<noteq> b \<Longrightarrow> le_prev (list_del_raw a b h x) = le_prev (h x)"
  "x \<noteq> a \<Longrightarrow> x \<noteq> b \<Longrightarrow> list_del_raw a b h x = h x"
  by (auto simp: list_raw_defs)

lemma ring_head_as_elem:
  "ring h head (x # xs) \<longleftrightarrow> ring h x (xs @ [head])"
  by (auto simp: ring_def)

text \<open>Inserting between the head's two neighbours; every other position follows by rotation.\<close>

lemma ring_add_after_head:
  assumes r: "ring h head xs" and e: "e \<notin> set (head # xs)"
  shows "ring (list_add_after head e h) head (e # xs)"
proof (cases xs)
  case Nil
  with r e show ?thesis
    by (auto simp: ring_def list_add_after_def list_raw_defs)
next
  case (Cons x ys)
  let ?h = "list_add_raw e head x h"
  from r Cons have "dseg h x ys head" "le_next (h head) = x"
    by (auto simp: ring_def)
  moreover have "dseg ?h x ys head = dseg h x ys head"
    using r e Cons by (intro dseg_cong list_add_raw_other) (auto simp: ring_def)
  ultimately show ?thesis
    using r e Cons by (auto simp: ring_def list_add_after_def list_raw_defs)
qed

lemma ring_add_after_elem:
  assumes "ring h head (xs @ x # ys)" "e \<notin> set (head # xs @ x # ys)"
  shows "ring (list_add_after x e h) head (xs @ x # e # ys)"
proof -
  from assms(1) have "ring h x (ys @ head # xs)" by (simp add: ring_rotate)
  then have "ring (list_add_after x e h) x (e # ys @ head # xs)"
    using assms(2) by (intro ring_add_after_head) auto
  then show ?thesis using ring_rotate [of _ head xs x "e # ys"] by simp
qed

lemma list_add_before_after:
  "dseg h p [] x \<Longrightarrow> list_add_before x e h = list_add_after p e h"
  by (simp add: list_add_before_def list_add_after_def)

lemma ring_add_before_head:
  assumes r: "ring h head xs" and e: "e \<notin> set (head # xs)"
  shows "ring (list_add_before head e h) head (xs @ [e])"
proof (cases xs rule: rev_cases)
  case Nil
  with r have "dseg h head [] head" by (simp add: ring_def)
  from list_add_before_after [OF this] Nil ring_add_after_head [OF r e] show ?thesis by simp
next
  case (snoc ys y)
  with r have "dseg h y [] head" by (simp add: ring_def)
  from list_add_before_after [OF this] ring_add_after_elem [of h head ys y "[]" e] r e snoc
  show ?thesis by simp
qed

lemma ring_add_before_elem:
  assumes "ring h head (xs @ x # ys)" "e \<notin> set (head # xs @ x # ys)"
  shows "ring (list_add_before x e h) head (xs @ e # x # ys)"
proof -
  from assms(1) have "ring h x (ys @ head # xs)" by (simp add: ring_rotate)
  then have "ring (list_add_before x e h) x ((ys @ head # xs) @ [e])"
    using assms(2) by (intro ring_add_before_head) auto
  then show ?thesis using ring_rotate [of _ head "xs @ [e]" x ys] by simp
qed

lemma ring_del_next_head:
  assumes "ring h head (x # xs)"
  shows "ring (list_del x h) head xs"
proof (cases xs)
  case Nil
  with assms show ?thesis
    by (auto simp: ring_def list_del_def list_raw_defs)
next
  case (Cons y ys)
  from assms Cons have "dseg h y ys head" by (simp add: ring_def)
  moreover have "dseg (list_del_raw head y h) y ys head = dseg h y ys head"
    using assms Cons by (intro dseg_cong list_del_raw_other) (auto simp: ring_def)
  ultimately show ?thesis
    using assms Cons by (auto simp: ring_def list_del_def list_raw_defs)
qed

lemma ring_del:
  assumes "ring h head (xs @ x # ys)"
  shows "ring (list_del x h) head (xs @ ys)"
proof (cases xs rule: rev_cases)
  case Nil
  with assms ring_del_next_head show ?thesis by fastforce
next
  case (snoc zs z)
  with assms have "ring h z (x # ys @ head # zs)"
    using ring_rotate [of h head zs z "x # ys"] by simp
  then have "ring (list_del x h) z (ys @ head # zs)"
    by (rule ring_del_next_head)
  with snoc show ?thesis
    using ring_rotate [of "list_del x h" head zs z ys] by simp
qed

lemma list_del_self: "ring h head xs \<Longrightarrow> x \<in> set xs \<Longrightarrow> list_del x h x = h x"
  using ring_neighbours_neq [of h head xs x] by (simp add: list_del_def list_del_raw_other)

lemma ring_del_init:
  assumes "ring h head (xs @ x # ys)"
  shows "ring (list_del_init x h) head (xs @ ys)"
proof (rule ring_frame)
  show "ring (list_del x h) head (xs @ ys)" by (rule ring_del [OF assms])
qed (use assms in \<open>auto simp: ring_def list_del_init_def list_init_def\<close>)

lemma unlinked_del_init: "unlinked (list_del_init x h) x"
  by (simp add: list_del_init_def unlinked_init)

section \<open>Positions in a ring\<close>

text \<open>A walk from the head has visited \<open>xs\<close> and has \<open>ys\<close> still to go: it stands at
  \<open>last (head # xs)\<close>.\<close>

lemma ring_next_last:
  "ring h head (xs @ ys) \<Longrightarrow> list_next (last (head # xs)) h = (case ys of [] \<Rightarrow> head | y # _ \<Rightarrow> y)"
proof (cases xs rule: rev_cases)
  case (snoc zs z)
  then show "ring h head (xs @ ys) \<Longrightarrow> ?thesis" using ring_next_elem [of h head zs z ys] by simp
qed (simp add: ring_next_head)

lemma ring_prev_last: "ring h head (xs @ x # ys) \<Longrightarrow> list_prev x h = last (head # xs)"
  by (simp add: ring_prev_elem)

lemma ring_add_after_last:
  assumes "ring h head (xs @ ys)" "e \<notin> set (head # xs @ ys)"
  shows "ring (list_add (last (head # xs)) e h) head (xs @ e # ys)"
proof (cases xs rule: rev_cases)
  case Nil
  with assms ring_add_after_head show ?thesis by (simp add: list_add_def)
next
  case (snoc zs z)
  with assms ring_add_after_elem [of h head zs z ys e] show ?thesis by (simp add: list_add_def)
qed

section \<open>Operations leave other links alone\<close>

lemma list_add_before_frame:
  "ring h head xs \<Longrightarrow> x \<in> set (head # xs) \<Longrightarrow> y \<notin> set (head # xs) \<Longrightarrow> y \<noteq> e \<Longrightarrow>
   list_add_before x e h y = h y"
  unfolding list_add_before_def
  by (rule list_add_raw_other(3)) (auto dest: ring_neighbours_in(2))

lemma list_add_after_frame:
  "ring h head xs \<Longrightarrow> x \<in> set (head # xs) \<Longrightarrow> y \<notin> set (head # xs) \<Longrightarrow> y \<noteq> e \<Longrightarrow>
   list_add_after x e h y = h y"
  unfolding list_add_after_def
  by (rule list_add_raw_other(3)) (auto dest: ring_neighbours_in(1))

lemma list_del_frame:
  "ring h head xs \<Longrightarrow> x \<in> set xs \<Longrightarrow> y \<notin> set (head # xs) \<Longrightarrow> list_del x h y = h y"
  unfolding list_del_def
  by (rule list_del_raw_other(3)) (use ring_neighbours_in [of h head xs x] in auto)

lemma list_del_init_frame:
  "ring h head xs \<Longrightarrow> x \<in> set xs \<Longrightarrow> y \<notin> set (head # xs) \<Longrightarrow> list_del_init x h y = h y"
  by (auto simp: list_del_init_def list_init_def intro: list_del_frame)

section \<open>Properties\<close>

text \<open>The circular lists of \<^verbatim>\<open>list.h\<close>: inserting before or after a linked entry puts the new entry
  exactly there and nowhere else, and deleting an entry takes out exactly that entry.\<close>

theorem list_operations_refine:
  assumes "ring h head (xs @ x # ys)" "e \<notin> set (head # xs @ x # ys)"
  shows "ring (list_add_before x e h) head (xs @ e # x # ys) \<and> ring (list_add_after x e h) head (xs @ x # e # ys) \<and>
    ring (list_del x h) head (xs @ ys) \<and> ring (list_del_init x h) head (xs @ ys) \<and>
    list_empty x (list_del_init x h)"
  using ring_add_before_elem [OF assms] ring_add_after_elem [OF assms] ring_del [OF assms(1)]
    ring_del_init [OF assms(1)] unlinked_list_empty [OF unlinked_del_init [of x h]] by simp

definition example_ring :: "nat lheap" where
  "example_ring = list_add_after 0 1 (list_init 0 (\<lambda>_. \<lparr>le_prev = 9, le_next = 9\<rparr>))"

theorem list_operations_refine_witness: "ring (list_add_before 1 2 example_ring) 0 [2, 1 :: nat]"
proof -
  have "ring example_ring 0 ([] @ 1 # [])"
    by (simp add: example_ring_def ring_def list_init_def list_add_after_def list_add_raw_def)
  from list_operations_refine [OF this, of 2] show ?thesis by simp
qed

end
