(* ===== verification/SkewHeap.thy ===== *)
theory SkewHeap
  imports Prelude "HOL-Library.Tree_Multiset"
begin

text \<open>
  The skew heap of \<^verbatim>\<open>libs/skew_heap.h\<close>, the priority queue kept for the stride scheduler: entries are numbers, a heap of entries maps them to
  their three pointers, and NULL is \<open>None\<close>. The comparison of the user is an argument. The tree that a heap of entries
  represents is the predicate \<open>shape\<close>.
\<close>

section \<open>The operations\<close>

record skew_heap_entry =
  se_parent :: "nat option"
  se_left :: "nat option"
  se_right :: "nat option"

type_synonym skews = "nat \<Rightarrow> skew_heap_entry"

definition upd_entry :: "nat \<Rightarrow> (skew_heap_entry \<Rightarrow> skew_heap_entry) \<Rightarrow> skews \<Rightarrow> skews" where
  "upd_entry n f h = h(n := f (h n))"

definition set_parent :: "nat option \<Rightarrow> nat option \<Rightarrow> skews \<Rightarrow> skews" where
  "set_parent p a h = (case p of None \<Rightarrow> h | Some z \<Rightarrow> upd_entry z (se_parent_update (\<lambda>_. a)) h)"

definition skew_heap_init :: "nat \<Rightarrow> skews \<Rightarrow> skews" where
  "skew_heap_init a h = h(a := \<lparr>se_parent = None, se_left = None, se_right = None\<rparr>)"

partial_function (option) skew_heap_merge ::
  "(nat \<Rightarrow> nat \<Rightarrow> int) \<Rightarrow> nat option \<Rightarrow> nat option \<Rightarrow> skews \<Rightarrow> (nat option \<times> skews) option" where
  "skew_heap_merge cmp a b h =
     (case a of None \<Rightarrow> Some (b, h)
      | Some x \<Rightarrow>
        (case b of None \<Rightarrow> Some (a, h)
         | Some y \<Rightarrow>
           if cmp x y = - 1 then do {
             let r = se_left (h x);
             (l, h) \<leftarrow> skew_heap_merge cmp (se_right (h x)) b h;
             let h = upd_entry x (\<lambda>e. e\<lparr>se_left := l, se_right := r\<rparr>) h;
             Some (a, set_parent l (Some x) h) }
           else do {
             let r = se_left (h y);
             (l, h) \<leftarrow> skew_heap_merge cmp a (se_right (h y)) h;
             let h = upd_entry y (\<lambda>e. e\<lparr>se_left := l, se_right := r\<rparr>) h;
             Some (b, set_parent l (Some y) h) }))"

definition skew_heap_insert :: "(nat \<Rightarrow> nat \<Rightarrow> int) \<Rightarrow> nat option \<Rightarrow> nat \<Rightarrow> skews \<Rightarrow> (nat option \<times> skews) option" where
  "skew_heap_insert cmp a b h = skew_heap_merge cmp a (Some b) (skew_heap_init b h)"

definition skew_heap_remove :: "(nat \<Rightarrow> nat \<Rightarrow> int) \<Rightarrow> nat option \<Rightarrow> nat \<Rightarrow> skews \<Rightarrow> (nat option \<times> skews) option" where
  "skew_heap_remove cmp a b h = do {
     let p = se_parent (h b);
     (rep, h) \<leftarrow> skew_heap_merge cmp (se_left (h b)) (se_right (h b)) h;
     let h = set_parent rep p h;
     Some (case p of
             Some q \<Rightarrow>
               (a, if se_left (h q) = Some b then upd_entry q (se_left_update (\<lambda>_. rep)) h
                   else upd_entry q (se_right_update (\<lambda>_. rep)) h)
           | None \<Rightarrow> (rep, h)) }"

section \<open>The trees they represent\<close>

fun shape :: "skews \<Rightarrow> nat option \<Rightarrow> nat tree \<Rightarrow> bool" where
  "shape h p Leaf \<longleftrightarrow> p = None"
| "shape h p (Node l n r) \<longleftrightarrow> p = Some n \<and> shape h (se_left (h n)) l \<and> shape h (se_right (h n)) r \<and>
     (\<forall>z. se_left (h n) = Some z \<or> se_right (h n) = Some z \<longrightarrow> se_parent (h z) = Some n)"

fun smerge :: "(nat \<Rightarrow> nat \<Rightarrow> int) \<Rightarrow> nat tree \<Rightarrow> nat tree \<Rightarrow> nat tree" where
  "smerge cmp Leaf t = t"
| "smerge cmp t Leaf = t"
| "smerge cmp (Node l1 x r1) (Node l2 y r2) =
     (if cmp x y = - 1 then Node (smerge cmp r1 (Node l2 y r2)) x l1
      else Node (smerge cmp (Node l1 x r1) r2) y l2)"

fun subtree_at :: "nat \<Rightarrow> nat tree \<Rightarrow> nat tree" where
  "subtree_at b Leaf = Leaf"
| "subtree_at b (Node l n r) = (if n = b then Node l n r else if b \<in> set_tree l then subtree_at b l else subtree_at b r)"

fun replace_at :: "nat \<Rightarrow> nat tree \<Rightarrow> nat tree \<Rightarrow> nat tree" where
  "replace_at b u Leaf = Leaf"
| "replace_at b u (Node l n r) =
     (if n = b then u else if b \<in> set_tree l then Node (replace_at b u l) n r else Node l n (replace_at b u r))"

definition sremove :: "(nat \<Rightarrow> nat \<Rightarrow> int) \<Rightarrow> nat \<Rightarrow> nat tree \<Rightarrow> nat tree" where
  "sremove cmp b t = replace_at b (smerge cmp (left (subtree_at b t)) (right (subtree_at b t))) t"

text \<open>Heap order: no entry comes before one above it.\<close>

fun ordered :: "(nat \<Rightarrow> nat \<Rightarrow> int) \<Rightarrow> nat tree \<Rightarrow> bool" where
  "ordered cmp Leaf \<longleftrightarrow> True"
| "ordered cmp (Node l n r) \<longleftrightarrow> (\<forall>m \<in> set_tree l \<union> set_tree r. cmp m n \<noteq> - 1) \<and> ordered cmp l \<and> ordered cmp r"

lemma mset_smerge: "mset_tree (smerge cmp t u) = mset_tree t + mset_tree u"
  by (induction cmp t u rule: smerge.induct) (auto simp: ac_simps)

lemma set_smerge: "set_tree (smerge cmp t u) = set_tree t \<union> set_tree u"
  by (induction cmp t u rule: smerge.induct) auto

lemma distinct_smerge: "distinct (inorder (smerge cmp t u)) \<longleftrightarrow> distinct (inorder t @ inorder u)"
proof -
  have "mset (inorder (smerge cmp t u)) = mset (inorder t @ inorder u)" by (simp add: mset_smerge)
  then show ?thesis by (rule mset_eq_imp_distinct_iff)
qed

section \<open>Merging\<close>

lemma upd_entry_other [simp]: "m \<noteq> n \<Longrightarrow> upd_entry n f h m = h m" "upd_entry n f h n = f (h n)"
  by (simp_all add: upd_entry_def)

lemma set_parent_sel [simp]:
  "se_left (set_parent p a h n) = se_left (h n)" "se_right (set_parent p a h n) = se_right (h n)"
  "p \<noteq> Some n \<Longrightarrow> set_parent p a h n = h n" "p = Some n \<Longrightarrow> se_parent (set_parent p a h n) = a"
  by (auto simp: set_parent_def upd_entry_def split: option.split)

lemma shape_root: "shape h p t \<Longrightarrow> p = Some n \<Longrightarrow> n \<in> set_tree t"
  by (cases t) auto

text \<open>Only the pointers of the entries of a tree matter, and not the parent of its root.\<close>

lemma shape_cong:
  "shape h p t \<Longrightarrow> distinct (inorder t) \<Longrightarrow>
   \<forall>n \<in> set_tree t. se_left (h' n) = se_left (h n) \<and> se_right (h' n) = se_right (h n) \<and> (p = Some n \<or> se_parent (h' n) = se_parent (h n)) \<Longrightarrow>
   shape h' p t"
proof (induction t arbitrary: p)
  case (Node l n r)
  have k: "z \<noteq> n" if "se_left (h n) = Some z \<or> se_right (h n) = Some z" for z
    using that Node.prems(1,2) shape_root by fastforce
  have s: "se_left (h' m) = se_left (h m) \<and> se_right (h' m) = se_right (h m) \<and> se_parent (h' m) = se_parent (h m)"
    if "m \<in> set_tree l \<union> set_tree r" for m
  proof -
    have "p \<noteq> Some m" using that Node.prems(1,2) by auto
    then show ?thesis using that Node.prems(3) by auto
  qed
  have "shape h' (se_left (h n)) l" "shape h' (se_right (h n)) r"
    using Node.prems(1,2) by (auto intro!: Node.IH simp: s)
  moreover have "se_parent (h' z) = Some n" if "se_left (h n) = Some z \<or> se_right (h n) = Some z" for z
  proof -
    have "z \<in> set_tree l \<union> set_tree r" using that Node.prems(1) shape_root by fastforce
    then show ?thesis using that Node.prems k [OF that] by auto
  qed
  ultimately show ?case using Node.prems by auto
qed simp

lemma merge_shape:
  "shape h a t \<Longrightarrow> shape h b u \<Longrightarrow> distinct (inorder t @ inorder u) \<Longrightarrow>
   \<exists>c h'. skew_heap_merge cmp a b h = Some (c, h') \<and> shape h' c (smerge cmp t u) \<and>
     (\<forall>n. n \<notin> set_tree t \<union> set_tree u \<longrightarrow> h' n = h n) \<and> (\<forall>z. c = Some z \<longrightarrow> se_parent (h' z) = se_parent (h z))"
proof (induction cmp t u arbitrary: a b h rule: smerge.induct)
  case (1 cmp t)
  then show ?case by (simp add: skew_heap_merge.simps)
next
  case (2 cmp l n r)
  then show ?case by (simp add: skew_heap_merge.simps)
next
  case (3 cmp l1 x r1 l2 y r2)
  have ab: "a = Some x" "b = Some y" using 3(3,4) by simp_all
  text \<open>The step, for the root \<open>m\<close> whose right subtree is merged with the other tree.\<close>
  have step: "\<exists>h2. h2 = set_parent c (Some m) (upd_entry m (\<lambda>e. e\<lparr>se_left := c, se_right := se_left (h m)\<rparr>) h1) \<and>
      shape h2 (Some m) (Node v m l) \<and> (\<forall>n. n \<notin> insert m (set_tree v) \<longrightarrow> h2 n = h n) \<and> se_parent (h2 m) = se_parent (h m)"
    if s: "shape h (Some m) (Node l m r)" "shape h1 c v" "distinct (m # inorder l @ inorder v)"
      "\<forall>n. n \<notin> set_tree v \<longrightarrow> h1 n = h n" for m l r v c h1
  proof -
    let ?h = "set_parent c (Some m) (upd_entry m (\<lambda>e. e\<lparr>se_left := c, se_right := se_left (h m)\<rparr>) h1)"
    have c: "c \<noteq> Some m" "\<And>z. c = Some z \<Longrightarrow> z \<in> set_tree v" using s(2,3) shape_root by (fastforce, blast)
    have m: "se_left (?h m) = c" "se_right (?h m) = se_left (h m)" "se_parent (?h m) = se_parent (h m)"
      using c(1) s(3,4) by simp_all
    have o: "?h n = h n" if "n \<notin> insert m (set_tree v)" for n
      using that c(2) s(4) by (subst set_parent_sel(3)) auto
    have "shape ?h c v"
    proof (rule shape_cong [OF s(2)])
      show "\<forall>n \<in> set_tree v. se_left (?h n) = se_left (h1 n) \<and> se_right (?h n) = se_right (h1 n) \<and>
          (c = Some n \<or> se_parent (?h n) = se_parent (h1 n))"
      proof
        fix n assume "n \<in> set_tree v"
        then have "n \<noteq> m" using s(3) by auto
        then show "se_left (?h n) = se_left (h1 n) \<and> se_right (?h n) = se_right (h1 n) \<and> (c = Some n \<or> se_parent (?h n) = se_parent (h1 n))"
          by (cases "c = Some n") simp_all
      qed
    qed (use s(3) in simp)
    moreover have "shape ?h (se_left (h m)) l"
    proof (rule shape_cong [of h])
      show "\<forall>n \<in> set_tree l. se_left (?h n) = se_left (h n) \<and> se_right (?h n) = se_right (h n) \<and>
          (se_left (h m) = Some n \<or> se_parent (?h n) = se_parent (h n))"
      proof
        fix n assume "n \<in> set_tree l"
        then have "?h n = h n" using s(3) by (intro o) auto
        then show "se_left (?h n) = se_left (h n) \<and> se_right (?h n) = se_right (h n) \<and>
          (se_left (h m) = Some n \<or> se_parent (?h n) = se_parent (h n))" by simp
      qed
    qed (use s(1,3) in auto)
    moreover have "se_parent (?h z) = Some m" if "se_left (h m) = Some z" for z
    proof -
      have "z \<in> set_tree l" using that s(1) shape_root by auto
      then have "?h z = h z" using s(3) by (intro o) auto
      then show ?thesis using that s(1) by simp
    qed
    moreover have "se_parent (?h z) = Some m" if "c = Some z" for z using that by simp
    ultimately have "shape ?h (Some m) (Node v m l)" using m by auto
    then show ?thesis using o m(3) by blast
  qed
  show ?case
  proof (cases "cmp x y = - 1")
    case True
    obtain c h1 where IH: "skew_heap_merge cmp (se_right (h x)) b h = Some (c, h1)" "shape h1 c (smerge cmp r1 (Node l2 y r2))"
      "\<forall>n. n \<notin> set_tree r1 \<union> set_tree (Node l2 y r2) \<longrightarrow> h1 n = h n"
      using 3(1) [OF True, of h "se_right (h x)" b] 3(3-5) by fastforce
    have "\<exists>h2. h2 = set_parent c (Some x) (upd_entry x (\<lambda>e. e\<lparr>se_left := c, se_right := se_left (h x)\<rparr>) h1) \<and>
      shape h2 (Some x) (Node (smerge cmp r1 (Node l2 y r2)) x l1) \<and>
      (\<forall>n. n \<notin> insert x (set_tree (smerge cmp r1 (Node l2 y r2))) \<longrightarrow> h2 n = h n) \<and> se_parent (h2 x) = se_parent (h x)"
      using 3(3,5) IH(2,3) distinct_smerge [of cmp r1 "Node l2 y r2"] ab(1)
      by (intro step [where m = x and l = l1 and r = r1]) (auto simp: set_smerge)
    then show ?thesis
      using True IH(1) by (subst skew_heap_merge.simps) (auto simp: ab set_smerge Let_def)
  next
    case False
    obtain c h1 where IH: "skew_heap_merge cmp a (se_right (h y)) h = Some (c, h1)" "shape h1 c (smerge cmp (Node l1 x r1) r2)"
      "\<forall>n. n \<notin> set_tree (Node l1 x r1) \<union> set_tree r2 \<longrightarrow> h1 n = h n"
      using 3(2) [OF False, of h a "se_right (h y)"] 3(3-5) by fastforce
    have "\<exists>h2. h2 = set_parent c (Some y) (upd_entry y (\<lambda>e. e\<lparr>se_left := c, se_right := se_left (h y)\<rparr>) h1) \<and>
      shape h2 (Some y) (Node (smerge cmp (Node l1 x r1) r2) y l2) \<and>
      (\<forall>n. n \<notin> insert y (set_tree (smerge cmp (Node l1 x r1) r2)) \<longrightarrow> h2 n = h n) \<and> se_parent (h2 y) = se_parent (h y)"
      using 3(4,5) IH(2,3) distinct_smerge [of cmp "Node l1 x r1" r2] ab(2)
      by (intro step [where m = y and l = l2 and r = r2]) (auto simp: set_smerge)
    then show ?thesis
      using False IH(1) by (subst skew_heap_merge.simps) (auto simp: ab set_smerge Let_def)
  qed
qed

section \<open>Removing\<close>

text \<open>\<open>relinked h b p c h' A\<close>: \<open>h'\<close> agrees with \<open>h\<close> on \<open>A\<close> but for the pointer from \<open>p\<close> to \<open>b\<close>, which is \<open>c\<close>.\<close>

definition relinked :: "skews \<Rightarrow> nat \<Rightarrow> nat \<Rightarrow> nat option \<Rightarrow> skews \<Rightarrow> nat set \<Rightarrow> bool" where
  "relinked h b p c h' A \<longleftrightarrow> (\<forall>n \<in> A - {p}. h' n = h n) \<and> (\<forall>z. c = Some z \<longrightarrow> se_parent (h' z) = Some p) \<and>
     h' p = (if se_left (h p) = Some b then (h p)\<lparr>se_left := c\<rparr> else (h p)\<lparr>se_right := c\<rparr>)"

text \<open>\<open>hole h q t b p l r\<close>: below its parent \<open>p\<close>, the entry \<open>b\<close> of the tree \<open>t\<close> has the subtrees \<open>l\<close> and \<open>r\<close>, and relinking puts
  another tree in their place.\<close>

definition hole :: "skews \<Rightarrow> nat option \<Rightarrow> nat tree \<Rightarrow> nat \<Rightarrow> nat \<Rightarrow> nat tree \<Rightarrow> nat tree \<Rightarrow> bool" where
  "hole h q t b p l r \<longleftrightarrow> se_parent (h b) = Some p \<and> p \<in> set_tree t \<and> subtree_at b t = Node l b r \<and> shape h (Some b) (Node l b r) \<and>
     set_tree (Node l b r) \<subseteq> set_tree t - {p} \<and> (\<forall>z. q = Some z \<longrightarrow> z \<notin> set_tree (Node l b r)) \<and>
     (\<forall>h' c u. shape h' c u \<longrightarrow> relinked h b p c h' (set_tree t - set_tree (Node l b r)) \<longrightarrow> shape h' q (replace_at b u t))"

lemma shape_keep: "shape h p t \<Longrightarrow> distinct (inorder t) \<Longrightarrow> \<forall>n \<in> set_tree t. h' n = h n \<Longrightarrow> shape h' p t"
  by (rule shape_cong) auto

lemma hole_here:
  assumes s: "shape h q (Node t1 n t2)" and d: "distinct (inorder (Node t1 n t2))"
    and b: "se_left (h n) = Some b \<and> t = t1 \<or> se_right (h n) = Some b \<and> t = t2"
  shows "\<exists>l r. hole h q (Node t1 n t2) b n l r"
proof -
  have sh: "shape h (se_left (h n)) t1" "shape h (se_right (h n)) t2" "q = Some n" using s by simp_all
  have par: "\<And>z. se_left (h n) = Some z \<or> se_right (h n) = Some z \<Longrightarrow> se_parent (h z) = Some n" using s by auto
  have "shape h (Some b) t" using b sh by auto
  then obtain l r where t: "t = Node l b r" by (cases t) auto
  then have lr: "t1 = Node l b r \<and> se_left (h n) = Some b \<or> t2 = Node l b r \<and> se_right (h n) = Some b \<and> b \<notin> set_tree t1 \<and> se_left (h n) \<noteq> Some b"
    using b d sh(1) shape_root by fastforce
  have "shape h' q (replace_at b u (Node t1 n t2))"
    if a: "shape h' c u" "relinked h b n c h' (set_tree (Node t1 n t2) - set_tree (Node l b r))" for h' c u
    using lr
  proof
    assume l: "t1 = Node l b r \<and> se_left (h n) = Some b"
    have o: "h' m = h m" if "m \<in> set_tree t2" for m using that d l a(2) by (auto simp: relinked_def)
    have "shape h' (se_right (h n)) t2" using d o by (intro shape_keep [OF sh(2)]) auto
    then show ?thesis using a l d sh par o shape_root [OF sh(2)] by (auto simp: relinked_def)
  next
    assume r: "t2 = Node l b r \<and> se_right (h n) = Some b \<and> b \<notin> set_tree t1 \<and> se_left (h n) \<noteq> Some b"
    have o: "h' m = h m" if "m \<in> set_tree t1" for m using that d r a(2) by (auto simp: relinked_def)
    have "shape h' (se_left (h n)) t1" using d o by (intro shape_keep [OF sh(1)]) auto
    then show ?thesis using a r d sh par o shape_root [OF sh(1)] by (auto simp: relinked_def)
  qed
  moreover have "se_parent (h b) = Some n" using b par by auto
  ultimately have "hole h q (Node t1 n t2) b n l r" using lr d sh by (auto simp: hole_def)
  then show ?thesis by blast
qed

lemma hole_left:
  assumes s: "shape h q (Node t1 n t2)" and d: "distinct (inorder (Node t1 n t2))" and x: "hole h (se_left (h n)) t1 b p l r"
  shows "hole h q (Node t1 n t2) b p l r"
proof -
  have sh: "shape h (se_left (h n)) t1" "shape h (se_right (h n)) t2" "q = Some n" using s by simp_all
  have par: "\<And>z. se_left (h n) = Some z \<or> se_right (h n) = Some z \<Longrightarrow> se_parent (h z) = Some n" using s by auto
  have p: "p \<in> set_tree t1" "set_tree (Node l b r) \<subseteq> set_tree t1 - {p}" "\<forall>z. se_left (h n) = Some z \<longrightarrow> z \<notin> set_tree (Node l b r)"
    using x by (simp_all add: hole_def)
  have "shape h' q (replace_at b u (Node t1 n t2))"
    if a: "shape h' c u" "relinked h b p c h' (set_tree (Node t1 n t2) - set_tree (Node l b r))" for h' c u
  proof -
    have o: "h' m = h m" if "m \<in> insert n (set_tree t2)" for m
    proof -
      have "m \<in> set_tree (Node t1 n t2) - set_tree (Node l b r) - {p}" using that d p by auto
      then show ?thesis using a(2) unfolding relinked_def by blast
    qed
    have "relinked h b p c h' (set_tree t1 - set_tree (Node l b r))" using a(2) by (auto simp: relinked_def)
    then have "shape h' (se_left (h n)) (replace_at b u t1)" using x a(1) by (simp add: hole_def)
    moreover have "shape h' (se_right (h n)) t2" using d o by (intro shape_keep [OF sh(2)]) auto
    moreover have "se_parent (h' z) = Some n" if "se_right (h n) = Some z" for z using that o par shape_root [OF sh(2)] by simp
    moreover have "se_parent (h' z) = Some n" if z: "se_left (h n) = Some z" for z
    proof (cases "z = p")
      case True
      then show ?thesis using a(2) par z by (auto simp: relinked_def)
    next
      case False
      then have "h' z = h z" using a(2) p(3) z shape_root [OF sh(1) z] by (auto simp: relinked_def)
      then show ?thesis using par z by simp
    qed
    ultimately show ?thesis using p o sh(3) d by auto
  qed
  then show ?thesis using x d p sh(3) by (auto simp: hole_def)
qed

lemma hole_right:
  assumes s: "shape h q (Node t1 n t2)" and d: "distinct (inorder (Node t1 n t2))" and x: "hole h (se_right (h n)) t2 b p l r"
  shows "hole h q (Node t1 n t2) b p l r"
proof -
  have sh: "shape h (se_left (h n)) t1" "shape h (se_right (h n)) t2" "q = Some n" using s by simp_all
  have par: "\<And>z. se_left (h n) = Some z \<or> se_right (h n) = Some z \<Longrightarrow> se_parent (h z) = Some n" using s by auto
  have p: "p \<in> set_tree t2" "set_tree (Node l b r) \<subseteq> set_tree t2 - {p}" "\<forall>z. se_right (h n) = Some z \<longrightarrow> z \<notin> set_tree (Node l b r)"
    using x by (simp_all add: hole_def)
  have "shape h' q (replace_at b u (Node t1 n t2))"
    if a: "shape h' c u" "relinked h b p c h' (set_tree (Node t1 n t2) - set_tree (Node l b r))" for h' c u
  proof -
    have o: "h' m = h m" if "m \<in> insert n (set_tree t1)" for m
    proof -
      have "m \<in> set_tree (Node t1 n t2) - set_tree (Node l b r) - {p}" using that d p by auto
      then show ?thesis using a(2) unfolding relinked_def by blast
    qed
    have "relinked h b p c h' (set_tree t2 - set_tree (Node l b r))" using a(2) by (auto simp: relinked_def)
    then have "shape h' (se_right (h n)) (replace_at b u t2)" using x a(1) by (simp add: hole_def)
    moreover have "shape h' (se_left (h n)) t1" using d o by (intro shape_keep [OF sh(1)]) auto
    moreover have "se_parent (h' z) = Some n" if "se_left (h n) = Some z" for z using that o par shape_root [OF sh(1)] by simp
    moreover have "se_parent (h' z) = Some n" if z: "se_right (h n) = Some z" for z
    proof (cases "z = p")
      case True
      then show ?thesis using a(2) par z by (auto simp: relinked_def)
    next
      case False
      then have "h' z = h z" using a(2) p(3) z shape_root [OF sh(2) z] by (auto simp: relinked_def)
      then show ?thesis using par z by simp
    qed
    ultimately show ?thesis using p o sh(3) d by auto
  qed
  then show ?thesis using x d p sh(3) by (auto simp: hole_def)
qed

lemma hole_exists:
  "shape h q t \<Longrightarrow> distinct (inorder t) \<Longrightarrow> b \<in> set_tree t \<Longrightarrow> q \<noteq> Some b \<Longrightarrow> \<exists>p l r. hole h q t b p l r"
proof (induction t arbitrary: q)
  case (Node t1 n t2)
  have sh: "shape h (se_left (h n)) t1" "shape h (se_right (h n)) t2" "n \<noteq> b" "distinct (inorder t1)" "distinct (inorder t2)"
    using Node.prems by auto
  consider "se_left (h n) = Some b \<or> se_right (h n) = Some b" | "b \<in> set_tree t1" "se_left (h n) \<noteq> Some b"
    | "b \<in> set_tree t2" "se_right (h n) \<noteq> Some b" using Node.prems(3) sh(3) by auto
  then show ?case
  proof cases
    case 1
    then show ?thesis using hole_here [OF Node.prems(1,2)] by blast
  next
    case 2
    then show ?thesis using Node.IH(1) [OF sh(1,4)] hole_left [OF Node.prems(1,2)] by blast
  next
    case 3
    then show ?thesis using Node.IH(2) [OF sh(2,5)] hole_right [OF Node.prems(1,2)] by blast
  qed
qed simp

lemma subtree_at_in: "b \<in> set_tree t \<Longrightarrow> \<exists>l r. subtree_at b t = Node l b r"
  by (induction t) auto

lemma distinct_subtree:
  "distinct (inorder t) \<Longrightarrow> b \<in> set_tree t \<Longrightarrow> subtree_at b t = s \<Longrightarrow> distinct (inorder s)"
  by (induction t) (auto split: if_splits)

lemma remove_shape:
  assumes s: "shape h a t" and d: "distinct (inorder t)" and b: "b \<in> set_tree t" and root: "\<forall>z. a = Some z \<longrightarrow> se_parent (h z) = None"
  shows "\<exists>c h'. skew_heap_remove cmp a b h = Some (c, h') \<and> shape h' c (sremove cmp b t) \<and> (\<forall>z. c = Some z \<longrightarrow> se_parent (h' z) = None)"
proof (cases "a = Some b")
  case True
  then obtain l r where t: "t = Node l b r" using s by (cases t) auto
  then obtain c h1 where m: "skew_heap_merge cmp (se_left (h b)) (se_right (h b)) h = Some (c, h1)" "shape h1 c (smerge cmp l r)"
    using merge_shape [of h "se_left (h b)" l "se_right (h b)" r cmp] s d by auto
  have "shape (set_parent c None h1) c (smerge cmp l r)"
  proof (rule shape_cong [OF m(2)])
    show "distinct (inorder (smerge cmp l r))" using d t by (simp add: distinct_smerge)
    show "\<forall>n \<in> set_tree (smerge cmp l r). se_left (set_parent c None h1 n) = se_left (h1 n) \<and>
        se_right (set_parent c None h1 n) = se_right (h1 n) \<and> (c = Some n \<or> se_parent (set_parent c None h1 n) = se_parent (h1 n))"
      by (metis set_parent_sel(1-3))
  qed
  then show ?thesis using m(1) True root t by (auto simp: skew_heap_remove_def sremove_def)
next
  case False
  obtain p l r where hole: "hole h a t b p l r" using hole_exists [OF s d b False] by blast
  then have p: "se_parent (h b) = Some p" "p \<in> set_tree t" "subtree_at b t = Node l b r" "shape h (se_left (h b)) l" "shape h (se_right (h b)) r"
    "set_tree (Node l b r) \<subseteq> set_tree t - {p}" "\<forall>z. a = Some z \<longrightarrow> z \<notin> set_tree (Node l b r)" by (simp_all add: hole_def)
  have dl: "distinct (inorder l @ inorder r)" using distinct_subtree [OF d b p(3)] by simp
  obtain c h1 where m: "skew_heap_merge cmp (se_left (h b)) (se_right (h b)) h = Some (c, h1)" "shape h1 c (smerge cmp l r)"
    "\<forall>n. n \<notin> set_tree l \<union> set_tree r \<longrightarrow> h1 n = h n"
    using merge_shape [OF p(4,5) dl, of cmp] by blast
  define h2 where "h2 = set_parent c (Some p) h1"
  define h3 where "h3 = (if se_left (h2 p) = Some b then upd_entry p (se_left_update (\<lambda>_. c)) h2 else upd_entry p (se_right_update (\<lambda>_. c)) h2)"
  have c: "z \<in> set_tree l \<union> set_tree r" if "c = Some z" for z using shape_root [OF m(2) that] by (simp add: set_smerge)
  have h2: "h2 n = h n" if n: "n \<notin> set_tree l \<union> set_tree r" for n
  proof -
    have "c \<noteq> Some n" using n c by blast
    then show ?thesis using m(3) n by (simp add: h2_def)
  qed
  have np: "n \<noteq> p" if "n \<in> set_tree l \<union> set_tree r" for n using that p(6) by auto
  have h3: "h3 n = h2 n" if "n \<noteq> p" for n using that by (simp add: h3_def)
  have run: "skew_heap_remove cmp a b h = Some (a, h3)"
    using m(1) by (simp add: skew_heap_remove_def p(1) h2_def h3_def Let_def)
  have hp: "h2 p = h p" using np by (intro h2) blast
  have "se_parent (h3 z) = Some p" if "c = Some z" for z
  proof -
    have "z \<noteq> p" using np c that by blast
    then show ?thesis using h3 that by (simp add: h2_def)
  qed
  moreover have "h3 n = h n" if "n \<in> set_tree t - set_tree (Node l b r) - {p}" for n
    using that h3 h2 by simp
  moreover have "h3 p = (if se_left (h p) = Some b then (h p)\<lparr>se_left := c\<rparr> else (h p)\<lparr>se_right := c\<rparr>)"
    by (simp add: h3_def hp)
  ultimately have "relinked h b p c h3 (set_tree t - set_tree (Node l b r))" unfolding relinked_def by blast
  moreover have "shape h3 c (smerge cmp l r)"
  proof (rule shape_cong [OF m(2)])
    show "distinct (inorder (smerge cmp l r))" using dl by (simp add: distinct_smerge)
    show "\<forall>n \<in> set_tree (smerge cmp l r). se_left (h3 n) = se_left (h1 n) \<and> se_right (h3 n) = se_right (h1 n) \<and>
        (c = Some n \<or> se_parent (h3 n) = se_parent (h1 n))"
    proof
      fix n assume n: "n \<in> set_tree (smerge cmp l r)"
      then have "h3 n = h2 n" using np by (intro h3) (auto simp: set_smerge)
      then show "se_left (h3 n) = se_left (h1 n) \<and> se_right (h3 n) = se_right (h1 n) \<and> (c = Some n \<or> se_parent (h3 n) = se_parent (h1 n))"
        by (cases "c = Some n") (simp_all add: h2_def)
    qed
  qed
  ultimately have "shape h3 a (replace_at b (smerge cmp l r) t)" using hole by (simp add: hole_def)
  moreover have "se_parent (h3 z) = None" if "a = Some z" for z
  proof -
    have "h2 z = h z" using that p(7) by (intro h2) auto
    then show ?thesis using that root by (auto simp: h3_def upd_entry_def)
  qed
  ultimately show ?thesis using run p(3) by (auto simp: sremove_def)
qed

section \<open>Order\<close>

lemma set_subtree_at: "set_tree (subtree_at b t) \<subseteq> set_tree t"
  by (induction t) auto

lemma ordered_subtree: "ordered cmp t \<Longrightarrow> ordered cmp (subtree_at b t)"
  by (induction t) auto

lemma mset_replace: "b \<in> set_tree t \<Longrightarrow> mset_tree (replace_at b u t) + mset_tree (subtree_at b t) = mset_tree t + mset_tree u"
  by (induction t) (auto simp: ac_simps)

lemma mset_sremove:
  assumes "b \<in> set_tree t"
  shows "mset_tree t = add_mset b (mset_tree (sremove cmp b t))"
proof -
  obtain l r where s: "subtree_at b t = Node l b r" using subtree_at_in [OF assms] by blast
  show ?thesis using mset_replace [OF assms, of "smerge cmp l r"] by (simp add: s sremove_def mset_smerge)
qed

lemma ordered_replace:
  "ordered cmp t \<Longrightarrow> ordered cmp u \<Longrightarrow> set_tree u \<subseteq> set_tree (subtree_at b t) \<Longrightarrow>
   ordered cmp (replace_at b u t) \<and> set_tree (replace_at b u t) \<subseteq> set_tree t"
proof (induction t)
  case (Node l n r)
  show ?case
  proof (cases "n = b")
    case True
    then show ?thesis using Node.prems by auto
  next
    case False
    then show ?thesis using Node by (auto split: if_splits)
  qed
qed simp

lemma ordered_smerge:
  "(\<And>x y. cmp x y = - 1 \<longleftrightarrow> key x < (key y :: int)) \<Longrightarrow> ordered cmp t \<Longrightarrow> ordered cmp u \<Longrightarrow> ordered cmp (smerge cmp t u)"
proof (induction cmp t u rule: smerge.induct)
  case (3 cmp l1 x r1 l2 y r2)
  note key = 3(3)
  show ?case
  proof (cases "key x < key y")
    case True
    have "ordered cmp (smerge cmp r1 (Node l2 y r2))" using 3(1) [OF _ key] True 3(4,5) by (simp add: key)
    moreover have "key x \<le> key m" if "m \<in> set_tree l2 \<union> set_tree r2" for m
    proof -
      have "key y \<le> key m" using 3(5) that by (auto simp: key not_less)
      then show ?thesis using True by linarith
    qed
    ultimately show ?thesis using True 3(4) by (auto simp: key set_smerge not_less)
  next
    case False
    have "ordered cmp (smerge cmp (Node l1 x r1) r2)" using 3(2) [OF _ key] False 3(4,5) by (simp add: key)
    moreover have "key y \<le> key m" if "m \<in> set_tree l1 \<union> set_tree r1" for m
    proof -
      have "key x \<le> key m" using 3(4) that by (auto simp: key not_less)
      then show ?thesis using False by linarith
    qed
    ultimately show ?thesis using False 3(5) by (auto simp: key set_smerge not_less)
  qed
qed simp_all

text \<open>\<open>pqueue cmp h a S\<close>: the entry \<open>a\<close> is the root of a heap of the entries \<open>S\<close>.\<close>

definition pqueue :: "(nat \<Rightarrow> nat \<Rightarrow> int) \<Rightarrow> skews \<Rightarrow> nat option \<Rightarrow> nat set \<Rightarrow> bool" where
  "pqueue cmp h a S \<longleftrightarrow> (\<exists>t. shape h a t \<and> distinct (inorder t) \<and> ordered cmp t \<and> set_tree t = S \<and> (\<forall>z. a = Some z \<longrightarrow> se_parent (h z) = None))"


lemma insert_pqueue:
  assumes key: "\<And>x y. cmp x y = - 1 \<longleftrightarrow> key x < (key y :: int)" and q: "pqueue cmp h a S" and b: "b \<notin> S"
  shows "\<exists>c h'. skew_heap_insert cmp a b h = Some (c, h') \<and> pqueue cmp h' c (insert b S)"
proof -
  obtain t where t: "shape h a t" "distinct (inorder t)" "ordered cmp t" "set_tree t = S" "\<forall>z. a = Some z \<longrightarrow> se_parent (h z) = None"
    using q by (auto simp: pqueue_def)
  let ?h = "skew_heap_init b h" and ?u = "Node Leaf b Leaf"
  have o: "?h n = h n" if "n \<in> S" for n using that b by (auto simp: skew_heap_init_def)
  have s: "shape ?h a t" "shape ?h (Some b) ?u" "distinct (inorder t @ inorder ?u)"
    using t o b by (auto intro: shape_keep simp: skew_heap_init_def)
  obtain c h' where m: "skew_heap_merge cmp a (Some b) ?h = Some (c, h')" "shape h' c (smerge cmp t ?u)"
    "\<forall>z. c = Some z \<longrightarrow> se_parent (h' z) = se_parent (?h z)" using merge_shape [OF s] by blast
  have "se_parent (h' z) = None" if z: "c = Some z" for z
  proof -
    have "c = a \<or> c = Some b" using m(1) by (subst (asm) skew_heap_merge.simps) (auto simp: Let_def bind_eq_Some_conv split: if_splits option.splits)
    then show ?thesis using m(3) z t(5) by (auto simp: skew_heap_init_def)
  qed
  then have "pqueue cmp h' c (insert b S)" unfolding pqueue_def using m(2) s(3) t(3,4)
    by (intro exI [of _ "smerge cmp t ?u"]) (simp add: distinct_smerge set_smerge ordered_smerge [OF key])
  then show ?thesis using m(1) by (simp add: skew_heap_insert_def)
qed

lemma remove_pqueue:
  assumes key: "\<And>x y. cmp x y = - 1 \<longleftrightarrow> key x < (key y :: int)" and q: "pqueue cmp h a S" and b: "b \<in> S"
  shows "\<exists>c h'. skew_heap_remove cmp a b h = Some (c, h') \<and> pqueue cmp h' c (S - {b})"
proof -
  obtain t where t: "shape h a t" "distinct (inorder t)" "ordered cmp t" "set_tree t = S" "\<forall>z. a = Some z \<longrightarrow> se_parent (h z) = None"
    using q by (auto simp: pqueue_def)
  have bt: "b \<in> set_tree t" using b t(4) by simp
  obtain c h' where m: "skew_heap_remove cmp a b h = Some (c, h')" "shape h' c (sremove cmp b t)" "\<forall>z. c = Some z \<longrightarrow> se_parent (h' z) = None"
    using remove_shape [OF t(1,2) bt t(5), of cmp] by blast
  have ms: "mset (inorder t) = add_mset b (mset (inorder (sremove cmp b t)))" using mset_sremove [OF bt, of cmp] by simp
  have "distinct (b # inorder (sremove cmp b t))" using t(2) mset_eq_imp_distinct_iff [of "inorder t" "b # inorder (sremove cmp b t)"] ms by simp
  moreover have "set_tree t = insert b (set_tree (sremove cmp b t))" using arg_cong [OF ms, of set_mset] by simp
  moreover have "ordered cmp (sremove cmp b t)"
  proof -
    obtain l r where s: "subtree_at b t = Node l b r" using subtree_at_in [OF bt] by blast
    have "ordered cmp l \<and> ordered cmp r" using ordered_subtree [OF t(3), of b] s by simp
    then show ?thesis using ordered_replace [OF t(3), of "smerge cmp l r" b] by (auto simp: s sremove_def set_smerge ordered_smerge [OF key])
  qed
  ultimately have "pqueue cmp h' c (S - {b})" unfolding pqueue_def using m(2,3) t(4)
    by (intro exI [of _ "sremove cmp b t"]) auto
  then show ?thesis using m(1) by blast
qed


text \<open>C30. The skew heap is a priority queue: when the comparison is by a key, \<open>a\<close> is the least of the entries, and NULL only when there is none;
  inserting an entry that is not in the heap and removing one that is, its parent, children and place anywhere in the heap, both
  return the heap of exactly the entries that should be there.\<close>

theorem skew_heap_is_priority_queue:
  assumes key: "\<forall>x y. cmp x y = - 1 \<longleftrightarrow> key x < (key y :: int)" and q: "pqueue cmp h a S"
  shows "(a = None \<longleftrightarrow> S = {}) \<and> (\<forall>m. a = Some m \<longrightarrow> m \<in> S \<and> (\<forall>x \<in> S. key m \<le> key x)) \<and>
    (b \<notin> S \<longrightarrow> (\<exists>c h'. skew_heap_insert cmp a b h = Some (c, h') \<and> pqueue cmp h' c (insert b S))) \<and>
    (b \<in> S \<longrightarrow> (\<exists>c h'. skew_heap_remove cmp a b h = Some (c, h') \<and> pqueue cmp h' c (S - {b})))"
proof -
  obtain t where t: "shape h a t" "distinct (inorder t)" "ordered cmp t" "set_tree t = S" "\<forall>z. a = Some z \<longrightarrow> se_parent (h z) = None"
    using q by (auto simp: pqueue_def)
  have k: "\<And>x y. cmp x y = - 1 \<longleftrightarrow> key x < key y" using key by blast
  have top: "(a = None \<longleftrightarrow> S = {}) \<and> (\<forall>m. a = Some m \<longrightarrow> m \<in> S \<and> (\<forall>x \<in> S. key m \<le> key x))"
    using t(1,3,4) by (cases t) (auto simp: k not_less)
  show ?thesis using top insert_pqueue [OF k q] remove_pqueue [OF k q] by blast
qed

theorem skew_heap_is_priority_queue_witness:
  "\<exists>c h'. skew_heap_remove (\<lambda>x y. if x < y then - 1 else 1) (Some 1) 4
      ((\<lambda>_. \<lparr>se_parent = None, se_left = None, se_right = None\<rparr>)
         (1 := \<lparr>se_parent = None, se_left = Some 4, se_right = None\<rparr>, 4 := \<lparr>se_parent = Some 1, se_left = None, se_right = None\<rparr>)) = Some (c, h') \<and>
    pqueue (\<lambda>x y. if x < y then - 1 else 1) h' c {1}"
proof -
  let ?h = "(\<lambda>_. \<lparr>se_parent = None, se_left = None, se_right = None\<rparr>)
         (1 := \<lparr>se_parent = None, se_left = Some 4, se_right = None\<rparr>, 4 := \<lparr>se_parent = Some 1, se_left = None, se_right = None\<rparr>)"
  let ?c = "\<lambda>x y :: nat. if x < y then - 1 else 1 :: int"
  have "pqueue ?c ?h (Some 1) {1, 4}"
    unfolding pqueue_def by (rule exI [of _ "Node (Node Leaf 4 Leaf) 1 Leaf"]) auto
  moreover have "({1, 4} - {4} :: nat set) = {1}" by auto
  ultimately show ?thesis
    using skew_heap_is_priority_queue [where cmp = ?c and key = int and h = ?h and a = "Some 1" and S = "{1, 4}" and b = 4] by simp
qed

end
