(* ===== verification/IntArith.thy ===== *)
theory IntArith
  imports Prelude "HOL-Library.Signed_Division"
begin

text \<open>
  Integer helpers: the division macro \<^verbatim>\<open>do_div\<close> of \<^verbatim>\<open>libs/mips32s.h\<close>, the shift-and-subtract
  division of \<^verbatim>\<open>kern/libs/divmod.h\<close>, the multiplicative hash of \<^verbatim>\<open>libs/hash.c\<close> and the
  generator of \<^verbatim>\<open>libs/rand.c\<close>. Intermediate values keep the C type's width, so the places
  where the code wraps or truncates do so here.
\<close>

section \<open>do_div\<close>

text \<open>
  \<open>n\<close> is an \<open>unsigned long long\<close>, \<open>q\<close> and \<open>__mod\<close> are \<open>unsigned\<close>: the sum of the two
  shifted \<open>n\<close> is truncated to 32 bits. The result is the new \<open>n\<close> and the value of the macro.
\<close>

definition do_div10_q :: "u64 \<Rightarrow> u32" where
  "do_div10_q n =
     (let q = ucast (drop_bit 1 n + drop_bit 2 n);
          q = q + drop_bit 4 q;
          q = q + drop_bit 8 q;
          q = q + drop_bit 16 q
      in drop_bit 3 q)"

definition do_div10_mod :: "u64 \<Rightarrow> u32 \<Rightarrow> u32" where
  "do_div10_mod n q = ucast (n - ucast (push_bit 1 (push_bit 2 q + q)))"

definition do_div :: "u64 \<Rightarrow> u32 \<Rightarrow> u64 \<times> u32" where
  "do_div n base =
     (if base = 10 then
        let q = do_div10_q n;
            md = do_div10_mod n q;
            q = q + drop_bit 4 (md + 6);
            md = do_div10_mod n q
        in (ucast q, md)
      else if base = 16 then (drop_bit 4 n, ucast (n AND 0xf))
      else if base = 8 then (drop_bit 3 n, ucast (n AND 0x7))
      else if base = 2147483648 then (drop_bit 31 n, ucast (n AND 0x7fffffff))
      else (1, 3))"

lemma div10_estimate:
  fixes n :: nat
  assumes n: "n < 2 ^ 32"
    and q0: "q0 = n div 2 + n div 4" and q1: "q1 = q0 + q0 div 16"
    and q2: "q2 = q1 + q1 div 256" and q3: "q3 = q2 + q2 div 65536" and q4: "q4 = q3 div 8"
  shows "10 * q4 \<le> n" "n \<le> 10 * q4 + 19" "q3 < 2 ^ 32"
proof -
  have lo: "4 * q0 \<le> 3 * n" "16 * q1 \<le> 17 * q0" "256 * q2 \<le> 257 * q1"
    "65536 * q3 \<le> 65537 * q2" "8 * q4 \<le> q3"
    using q0 q1 q2 q3 q4 by linarith+
  have hi: "3 * n \<le> 4 * q0 + 5" "17 * q0 \<le> 16 * q1 + 15" "257 * q1 \<le> 256 * q2 + 255"
    "65537 * q2 \<le> 65536 * q3 + 65535" "q3 \<le> 8 * q4 + 7"
    using q0 q1 q2 q3 q4 by linarith+
  show "10 * q4 \<le> n" "q3 < 2 ^ 32" using lo n by simp_all
  show "n \<le> 10 * q4 + 19" using hi n by simp
qed

lemma unat_do_div10_q:
  assumes "unat n < 2 ^ 32"
  shows "10 * unat (do_div10_q n) \<le> unat n" "unat n \<le> 10 * unat (do_div10_q n) + 19"
proof -
  define q0 where "q0 = unat n div 2 + unat n div 4"
  define q1 where "q1 = q0 + q0 div 16"
  define q2 where "q2 = q1 + q1 div 256"
  define q3 where "q3 = q2 + q2 div 65536"
  note e = div10_estimate [OF assms q0_def q1_def q2_def q3_def refl]
  have le: "q0 \<le> q1" "q1 \<le> q2" "q2 \<le> q3" by (simp_all add: q1_def q2_def q3_def)
  with e(3) have lt: "q0 < 2 ^ 32" "q1 < 2 ^ 32" "q2 < 2 ^ 32" by linarith+
  have u0: "unat (ucast (drop_bit 1 n + drop_bit 2 n) :: u32) = q0"
    using lt(1) by (simp add: unat_ucast_mod unat_word_ariths unat_drop q0_def)
  have step: "unat (q + drop_bit k q) = m + m div 2 ^ k"
    if "unat q = m" "m + m div 2 ^ k < 2 ^ 32" for q :: u32 and m k
    using that by (simp add: unat_word_ariths unat_drop)
  have u3: "unat (do_div10_q n) = q3 div 8"
  proof -
    let ?q = "ucast (drop_bit 1 n + drop_bit 2 n) :: u32"
    let ?q1 = "?q + drop_bit 4 ?q"
    let ?q2 = "?q1 + drop_bit 8 ?q1"
    have a: "unat ?q1 = q1" using step [OF u0, of 4] lt(2) by (simp add: q1_def)
    have b: "unat ?q2 = q2" using step [OF a, of 8] lt(3) by (simp add: q2_def)
    have "unat (?q2 + drop_bit 16 ?q2) = q3" using step [OF b, of 16] e(3) by (simp add: q3_def)
    then show ?thesis
      by (simp add: do_div10_q_def Let_def unat_drop)
  qed
  show "10 * unat (do_div10_q n) \<le> unat n" "unat n \<le> 10 * unat (do_div10_q n) + 19"
    using e(1,2) u3 by simp_all
qed

lemma unat_do_div10_mod:
  assumes "unat n < 2 ^ 32" "10 * unat q \<le> unat n"
  shows "unat (do_div10_mod n q) = unat n - 10 * unat q"
proof -
  have "unat (push_bit 1 (push_bit 2 q + q)) = 10 * unat q"
    using assms by (simp add: unat_word_ariths push_bit_eq_mult)
  then have "unat (ucast (push_bit 1 (push_bit 2 q + q)) :: u64) = 10 * unat q"
    by (simp add: unat_ucast_up)
  then have "unat (n - ucast (push_bit 1 (push_bit 2 q + q))) = unat n - 10 * unat q"
    using assms(2) by (simp add: unat_sub word_le_nat_alt)
  then show ?thesis
    using assms(1) by (simp add: do_div10_mod_def unat_ucast_mod)
qed

lemma do_div10_correct:
  assumes n: "unat n < 2 ^ 32"
  shows "unat (fst (do_div n 10)) = unat n div 10 \<and> unat (snd (do_div n 10)) = unat n mod 10"
proof -
  let ?q = "do_div10_q n"
  let ?m = "do_div10_mod n ?q"
  let ?q' = "?q + drop_bit 4 (?m + 6)"
  note b = unat_do_div10_q [OF n]
  have m: "unat ?m = unat n - 10 * unat ?q" by (rule unat_do_div10_mod [OF n b(1)])
  then have m19: "unat ?m \<le> 19" using b by simp
  have c: "unat (drop_bit 4 (?m + 6)) = (if unat ?m < 10 then 0 else 1)"
    using m19 by (auto simp: unat_drop unat_word_ariths)
  have q': "unat ?q' = unat n div 10"
  proof -
    have "unat ?q \<le> unat n div 10" using b(1) by simp
    then have "unat ?q + 1 < 2 ^ 32" using n by (simp add: less_mult_imp_div_less)
    then have "unat ?q' = unat ?q + (if unat ?m < 10 then 0 else 1)"
      using c by (simp add: unat_word_ariths)
    with m m19 b show ?thesis by (auto split: if_splits)
  qed
  then have "unat (do_div10_mod n ?q') = unat n mod 10"
    by (subst unat_do_div10_mod [OF n]) (simp_all add: minus_mult_div_eq_mod)
  moreover have "unat (ucast ?q' :: u64) = unat n div 10"
    using q' by (simp add: unat_ucast_up)
  ultimately show ?thesis by (simp add: do_div_def Let_def)
qed

lemma do_div_pow2:
  "unat (fst (do_div n 16)) = unat n div 16" "unat (snd (do_div n 16)) = unat n mod 16"
  "unat (fst (do_div n 8)) = unat n div 8" "unat (snd (do_div n 8)) = unat n mod 8"
proof -
  have m: "n AND 0xf = take_bit 4 n" "n AND 0x7 = take_bit 3 n"
    by (simp_all add: take_bit_eq_mask mask_eq_exp_minus_1)
  have "unat n mod 16 < 16" "unat n mod 8 < 8" by simp_all
  then have "unat n mod 16 < 4294967296" "unat n mod 8 < 4294967296"
    by (auto intro: order.strict_trans)
  then show "unat (fst (do_div n 16)) = unat n div 16" "unat (snd (do_div n 16)) = unat n mod 16"
    "unat (fst (do_div n 8)) = unat n div 8" "unat (snd (do_div n 8)) = unat n mod 8"
    by (simp_all add: do_div_def m unat_drop unat_ucast_mod unsigned_take_bit_eq take_bit_eq_mod unat_mod)
qed

section \<open>divmod\<close>

text \<open>\<open>a >> 31\<close> of an \<open>int\<close> is an arithmetic shift; \<open>& 1\<close> leaves the sign bit.\<close>

definition divmod_step :: "u32 \<Rightarrow> u32 \<times> u32 \<times> u32 \<Rightarrow> u32 \<times> u32 \<times> u32" where
  "divmod_step b s =
     (case s of (a, q, r) \<Rightarrow>
        let r = push_bit 1 r OR (signed_drop_bit 31 a AND 1);
            a = push_bit 1 a;
            q = push_bit 1 q
        in if sint r \<ge> sint b then (a, q OR 1, r - b) else (a, q, r))"

fun divmod_loop :: "nat \<Rightarrow> u32 \<Rightarrow> u32 \<times> u32 \<times> u32 \<Rightarrow> u32 \<times> u32 \<times> u32" where
  "divmod_loop 0 b s = s"
| "divmod_loop (Suc n) b s = divmod_loop n b (divmod_step b s)"

definition divmod :: "u32 \<Rightarrow> u32 \<Rightarrow> int + (u32 \<times> u32)" where
  "divmod a b =
     (if b = 0 then Inl (-1)
      else
        let sign_div = (sint a < 0) \<noteq> (sint b < 0);
            sign_mod = sint a < 0;
            a = (if sint a < 0 then - a else a);
            b = (if sint b < 0 then - b else b);
            (_, q, r) = divmod_loop 32 b (a, 0, 0)
        in Inr (if sign_div then - q else q, if sign_mod then - r else r))"

lemma sign_bit_and_1: "signed_drop_bit 31 a AND 1 = drop_bit 31 (a :: u32)"
proof (rule bit_word_eqI)
  fix n
  show "bit (signed_drop_bit 31 a AND 1) n = bit (drop_bit 31 a) n"
    using bit_imp_le_length [of a "31 + n"] by (cases n) (auto simp: bit_simps)
qed

lemma unat_sign_bit: "unat (drop_bit 31 (a :: u32)) = unat a div 2 ^ 31"
  by (rule unat_drop)

text \<open>
  The loop invariant, for \<open>n\<close> iterations to go: \<open>a\<close> holds the \<open>n\<close> low bits \<open>X\<close> of the
  dividend in its top bits; \<open>q\<close> and \<open>r\<close> are quotient and remainder of the bits already seen.
\<close>

lemma divmod_step_inv:
  assumes n: "n < 32" and b: "0 < unat b" "unat b < 2 ^ 31"
    and T: "P * 2 ^ Suc n + X < 2 ^ 31" and X: "X < 2 ^ Suc n"
    and a: "unat a = X * 2 ^ (31 - n)" and q: "unat q = P div unat b" and r: "unat r = P mod unat b"
  obtains a' q' r' where "divmod_step b (a, q, r) = (a', q', r')"
    "unat a' = (X mod 2 ^ n) * 2 ^ (32 - n)"
    "unat q' = (2 * P + X div 2 ^ n) div unat b" "unat r' = (2 * P + X div 2 ^ n) mod unat b"
proof -
  define t where "t = X div 2 ^ n"
  define B where "B = unat b"
  have t01: "t < 2" using X by (simp add: t_def less_mult_imp_div_less)
  have pw: "(2::nat) ^ 31 = 2 ^ n * 2 ^ (31 - n)" using n by (simp flip: power_add)
  have sb: "unat (drop_bit 31 a) = t"
    unfolding unat_drop a t_def pw by simp
  have Xs: "X = t * 2 ^ n + X mod 2 ^ n" unfolding t_def by (rule div_mult_mod_eq [symmetric])
  have "(2 * P + t) * 2 ^ n \<le> P * 2 ^ Suc n + X"
    using Xs by (simp add: algebra_simps)
  moreover have "2 * P + t \<le> (2 * P + t) * 2 ^ n"
    using mult_le_mono2 [of 1 "2 ^ n" "2 * P + t"] by simp
  ultimately have P': "2 * P + t < 2 ^ 31" using T by linarith
  have "drop_bit 31 a \<in> {0, 1}"
  proof -
    have "unat (drop_bit 31 a) \<in> {0, 1}" using sb t01 by auto
    then show ?thesis by (auto simp: word_unat_eq_iff)
  qed
  then have rb: "push_bit 1 r OR (signed_drop_bit 31 a AND 1) = 2 * r + drop_bit 31 a" (is "?r = _")
    unfolding sign_bit_and_1 by (rule push_bit_or_bit)
  have rP: "2 * unat r + t \<le> 2 * P + t" using r by simp
  then have ur: "unat ?r = 2 * unat r + t"
    unfolding rb using P' sb by (simp add: unat_word_ariths)
  have sr: "sint ?r = int (2 * unat r + t)" "sint b = int B"
    using sint_u32_small [of ?r] sint_u32_small [OF b(2)] ur rP P'
    by (simp_all add: B_def del: of_nat_unat)
  have qP: "unat q \<le> P" using q by simp
  have uq2: "unat (push_bit 1 q) = 2 * unat q"
    using qP P' by (simp add: push_bit_eq_mult unat_word_ariths)
  have ua: "unat (push_bit 1 a) = (X mod 2 ^ n) * 2 ^ (32 - n)"
  proof -
    have "32 - n = Suc (31 - n)" using n by simp
    then have e: "unat a * 2 = X * 2 ^ (32 - n)" by (simp add: a)
    have "(2::nat) ^ 32 = 2 ^ n * 2 ^ (32 - n)" using n by (simp flip: power_add)
    then have "X * 2 ^ (32 - n) mod 2 ^ 32 = (X mod 2 ^ n) * 2 ^ (32 - n)"
      by (simp add: mult_mod_left)
    then show ?thesis using e by (simp add: push_bit_eq_mult unat_word_ariths mult.commute)
  qed
  have dm: "2 * P + t = 2 * (P div B) * B + (2 * (P mod B) + t)"
    by (metis add.assoc distrib_left div_mult_mod_eq mult.assoc)
  show thesis
  proof (cases "2 * unat r + t \<ge> B")
    case True
    have lt: "2 * unat r + t < 2 * B" using r b t01 mod_less_divisor [of B P] unfolding B_def by linarith
    have "(2 * P + t) div B = 2 * (P div B) + 1 \<and> (2 * P + t) mod B = 2 * unat r + t - B"
    proof -
      have e: "2 * P + t = (2 * unat r + t - B) + B * (2 * (P div B) + 1)"
        using dm True r by (simp add: B_def algebra_simps)
      have x: "2 * unat r + t - B < B" using lt b(1) by (simp add: B_def)
      have B0: "B \<noteq> 0" using b(1) by (simp add: B_def)
      from x show ?thesis unfolding e by (simp only: div_mult_self2 [OF B0] mod_mult_self2 div_less mod_less add_0_right simp_thms)
    qed
    moreover have "unat (push_bit 1 q OR 1) = 2 * unat q + 1"
      using push_bit_or_bit [of 1 q] qP P' by (simp add: unat_word_ariths)
    moreover have "unat (?r - b) = 2 * unat r + t - B"
      using True ur by (simp add: unat_sub word_le_nat_alt B_def)
    moreover have "sint b \<le> sint ?r" using True unfolding sr by (simp only: of_nat_le_iff)
    then have "divmod_step b (a, q, r) = (push_bit 1 a, push_bit 1 q OR 1, ?r - b)"
      by (simp only: divmod_step_def Let_def prod.case if_True)
    ultimately show thesis
      using that [of "push_bit 1 a" "push_bit 1 q OR 1" "?r - b"] ua q
      by (simp only: t_def B_def simp_thms)
  next
    case False
    have "(2 * P + t) div B = 2 * (P div B) \<and> (2 * P + t) mod B = 2 * unat r + t"
    proof -
      have e: "2 * P + t = (2 * unat r + t) + B * (2 * (P div B))"
        using dm r by (simp add: B_def algebra_simps)
      have B0: "B \<noteq> 0" using b(1) by (simp add: B_def)
      from False show ?thesis unfolding e by (simp only: div_mult_self2 [OF B0] mod_mult_self2 div_less mod_less not_le add_0_right simp_thms)
    qed
    moreover have "\<not> sint b \<le> sint ?r" using False unfolding sr by (simp only: of_nat_le_iff simp_thms)
    then have "divmod_step b (a, q, r) = (push_bit 1 a, push_bit 1 q, ?r)"
      by (simp only: divmod_step_def Let_def prod.case if_False)
    ultimately show thesis
      using that [of "push_bit 1 a" "push_bit 1 q" ?r] ua q ur uq2
      by (simp only: t_def B_def simp_thms)
  qed
qed

lemma divmod_loop_correct:
  assumes "n \<le> 32" "0 < unat b" "unat b < 2 ^ 31" "P * 2 ^ n + X < 2 ^ 31" "X < 2 ^ n"
    and "unat a = X * 2 ^ (32 - n)" "unat q = P div unat b" "unat r = P mod unat b"
  shows "\<exists>a' q' r'. divmod_loop n b (a, q, r) = (a', q', r') \<and>
           unat q' = (P * 2 ^ n + X) div unat b \<and> unat r' = (P * 2 ^ n + X) mod unat b"
  using assms
proof (induction n arbitrary: P X a q r)
  case 0
  then show ?case by simp
next
  case (Suc n)
  obtain a' q' r' where st: "divmod_step b (a, q, r) = (a', q', r')"
    "unat a' = (X mod 2 ^ n) * 2 ^ (32 - n)"
    "unat q' = (2 * P + X div 2 ^ n) div unat b" "unat r' = (2 * P + X div 2 ^ n) mod unat b"
    by (rule divmod_step_inv [of n b P X a q r]) (use Suc.prems in auto)
  have T: "(2 * P + X div 2 ^ n) * 2 ^ n + X mod 2 ^ n = P * 2 ^ Suc n + X"
    by (simp add: algebra_simps)
  have "\<exists>a'' q'' r''. divmod_loop n b (a', q', r') = (a'', q'', r'') \<and>
      unat q'' = ((2 * P + X div 2 ^ n) * 2 ^ n + X mod 2 ^ n) div unat b \<and>
      unat r'' = ((2 * P + X div 2 ^ n) * 2 ^ n + X mod 2 ^ n) mod unat b"
    by (rule Suc.IH) (use Suc.prems st T in auto)
  then show ?case unfolding T using st(1) by simp
qed

lemma divmod_loop_32:
  assumes "unat a < 2 ^ 31" "0 < unat b" "unat b < 2 ^ 31"
  obtains a' q r where "divmod_loop 32 b (a, 0, 0) = (a', q, r)"
    "unat q = unat a div unat b" "unat r = unat a mod unat b"
  using divmod_loop_correct [of 32 b 0 "unat a" a 0 0] assms by auto

lemma sdiv_smod_abs:
  "x sdiv y = (if (x < 0) \<noteq> (y < 0) then - (\<bar>x\<bar> div \<bar>y\<bar>) else \<bar>x\<bar> div \<bar>y\<bar>)"
  "y \<noteq> 0 \<Longrightarrow> x smod y = (if x < 0 then - (\<bar>x\<bar> mod \<bar>y\<bar>) else \<bar>x\<bar> mod \<bar>y\<bar>)" for x y :: int
proof -
  show d: "x sdiv y = (if (x < 0) \<noteq> (y < 0) then - (\<bar>x\<bar> div \<bar>y\<bar>) else \<bar>x\<bar> div \<bar>y\<bar>)"
    by (auto simp: signed_divide_int_def sgn_if)
  show "x smod y = (if x < 0 then - (\<bar>x\<bar> mod \<bar>y\<bar>) else \<bar>x\<bar> mod \<bar>y\<bar>)" if "y \<noteq> 0"
    using that by (cases "x = 0") (auto simp: signed_modulo_int_def d minus_div_mult_eq_mod [symmetric] abs_if)
qed

lemma divmod_mag:
  assumes "sint (w :: u32) \<noteq> - (2 ^ 31)"
  shows "unat (if sint w < 0 then - w else w) = nat \<bar>sint w\<bar>" "nat \<bar>sint w\<bar> < 2 ^ 31"
proof -
  have r: "- (2 ^ 31) \<le> sint w" "sint w < 2 ^ 31"
    using sint_ge [of w] sint_lt [of w] by simp_all
  with assms show "nat \<bar>sint w\<bar> < 2 ^ 31" by (simp add: nat_less_iff)
  show "unat (if sint w < 0 then - w else w) = nat \<bar>sint w\<bar>"
    using unat_u32_nonneg [of w] unat_u32_nonneg [of "- w"] sint_u32_uminus [OF assms] by auto
qed

text \<open>\<open>sdiv\<close> and \<open>smod\<close> are the division of C: quotients rounded towards zero.\<close>

lemma divmod_correct:
  assumes a: "sint a \<noteq> - (2 ^ 31)" and b: "b \<noteq> 0" "sint b \<noteq> - (2 ^ 31)"
  shows "\<exists>q r. divmod a b = Inr (q, r) \<and>
           sint q = sint a sdiv sint b \<and> sint r = sint a smod sint b"
proof -
  let ?m = "if sint a < 0 then - a else a" and ?d = "if sint b < 0 then - b else b"
  have b0: "sint b \<noteq> 0" using b(1) by (simp add: sint_eq_0_iff)
  note ma = divmod_mag [OF a] and mb = divmod_mag [OF b(2)]
  have um: "unat ?m < 2 ^ 31" unfolding ma(1) by (rule ma(2))
  have ud: "unat ?d < 2 ^ 31" "0 < unat ?d" unfolding mb(1) by (rule mb(2)) (simp add: b0)
  obtain a' q r where l: "divmod_loop 32 ?d (?m, 0, 0) = (a', q, r)"
    "unat q = unat ?m div unat ?d" "unat r = unat ?m mod unat ?d"
    by (rule divmod_loop_32 [OF um ud(2,1)])
  have q: "unat q = nat (\<bar>sint a\<bar> div \<bar>sint b\<bar>)" and r: "unat r = nat (\<bar>sint a\<bar> mod \<bar>sint b\<bar>)"
    using l(2,3) unfolding ma(1) mb(1) by (simp_all add: nat_div_distrib nat_mod_distrib)
  have "unat q < 2 ^ 31" unfolding l(2) by (rule le_less_trans [OF div_le_dividend um])
  moreover have "unat r < 2 ^ 31" unfolding l(3) by (rule le_less_trans [OF mod_less_eq_dividend um])
  ultimately have sq: "sint q = int (unat q)" "sint r = int (unat r)"
    by (simp_all only: sint_u32_small)
  have "0 \<le> \<bar>sint a\<bar> div \<bar>sint b\<bar>" "0 \<le> \<bar>sint a\<bar> mod \<bar>sint b\<bar>"
    using b0 by (simp_all add: pos_imp_zdiv_nonneg_iff)
  then have s: "sint q = \<bar>sint a\<bar> div \<bar>sint b\<bar>" "sint r = \<bar>sint a\<bar> mod \<bar>sint b\<bar>"
    unfolding sq q r by (simp_all only: nat_0_le)
  have "0 \<le> sint q" "0 \<le> sint r" unfolding sq by (simp_all only: of_nat_0_le_iff)
  then have s34: "sint q \<noteq> - (2 ^ 31)" "sint r \<noteq> - (2 ^ 31)" by auto
  have "divmod a b = Inr (if (sint a < 0) \<noteq> (sint b < 0) then - q else q, if sint a < 0 then - r else r)"
    using b(1) by (simp only: divmod_def Let_def l(1) prod.case if_False)
  moreover have "sint (if (sint a < 0) \<noteq> (sint b < 0) then - q else q) = sint a sdiv sint b"
    unfolding sdiv_smod_abs(1) by (simp only: if_distrib [of sint] sint_u32_uminus [OF s34(1)] s(1))
  moreover have "sint (if sint a < 0 then - r else r) = sint a smod sint b"
    unfolding sdiv_smod_abs(2) [OF b0] by (simp only: if_distrib [of sint] sint_u32_uminus [OF s34(2)] s(2))
  ultimately show ?thesis by blast
qed

section \<open>hash32 and rand\<close>

definition hash32 :: "u32 \<Rightarrow> nat \<Rightarrow> u32" where
  "hash32 val bits = drop_bit (32 - bits) (val * 0x9e370001)"

lemma hash32_bound: "bits \<le> 32 \<Longrightarrow> unat (hash32 val bits) < 2 ^ bits"
proof -
  assume "bits \<le> 32"
  then have "(2::nat) ^ 32 = 2 ^ bits * 2 ^ (32 - bits)" by (simp flip: power_add)
  moreover have "unat (val * 0x9e370001) < 2 ^ 32" using unat_lt_u32 by simp
  ultimately show "unat (hash32 val bits) < 2 ^ bits"
    unfolding hash32_def unat_drop by (metis less_mult_imp_div_less)
qed

text \<open>\<open>RAND_MAX\<close> is \<open>2147483647UL\<close>; \<open>unsigned long\<close> has 32 bits on MIPS32.\<close>

definition rand :: "u64 \<Rightarrow> u32 \<times> u64" where
  "rand nxt =
     (let nxt' = ucast ((ucast nxt :: u32) * 1103515245 + 12345) :: u64
      in ((ucast nxt' :: u32) mod (2147483647 + 1), nxt'))"

definition srand :: "u32 \<Rightarrow> u64" where
  "srand seed = ucast seed"

section \<open>Properties\<close>

text \<open>The shift-and-subtract division of \<^verbatim>\<open>divmod.h\<close> computes C's quotient and remainder (rounded
  towards zero) for all 32-bit operands but the smallest integer, and refuses a zero divisor.\<close>

theorem divmod_is_C_division:
  assumes "sint a \<noteq> - (2 ^ 31)" "sint b \<noteq> - (2 ^ 31)"
  shows "if b = 0 then divmod a b = Inl (- 1)
    else \<exists>q r. divmod a b = Inr (q, r) \<and> sint q = sint a sdiv sint b \<and> sint r = sint a smod sint b"
proof (cases "b = 0")
  case True
  then show ?thesis by (simp add: divmod_def)
next
  case False
  with divmod_correct [OF assms(1) False assms(2)] show ?thesis by simp
qed

theorem divmod_is_C_division_witness: "\<exists>q r. divmod 7 2 = Inr (q, r) \<and> sint q = 3 \<and> sint r = 1"
  using divmod_is_C_division [of 7 2] by simp

text \<open>The multiplication-free division by ten of \<^verbatim>\<open>do_div\<close> is exact for every value below
  \<open>2 ^ 32\<close>.\<close>

theorem do_div_decimal:
  assumes "unat n < 2 ^ 32"
  shows "unat (fst (do_div n 10)) = unat n div 10 \<and> unat (snd (do_div n 10)) = unat n mod 10"
  by (rule do_div10_correct [OF assms])

theorem do_div_decimal_witness:
  "unat (fst (do_div 4294967295 10)) = 429496729 \<and> unat (snd (do_div 4294967295 10)) = 5"
  using do_div_decimal [of 4294967295] by simp

end
