(* ===== verification/CString.thy ===== *)
theory CString
  imports Prelude
begin

text \<open>
  \<^verbatim>\<open>libs/string.c\<close>: the string and memory routines, over a byte memory with 32-bit
  addresses. A scan for the terminating NUL is unbounded in C; here it is a partial function
  whose result \<open>None\<close> means that it never finds one. Loops with a byte count recurse on it.
  The generic C versions are modelled (\<^verbatim>\<open>__HAVE_ARCH_...\<close> is defined nowhere in the repository).
\<close>

type_synonym mem = "u32 \<Rightarrow> u8"

section \<open>The routines\<close>

partial_function (option) strlen_loop :: "mem \<Rightarrow> u32 \<Rightarrow> u32 \<Rightarrow> u32 option" where
  "strlen_loop m s cnt = (if m s \<noteq> 0 then strlen_loop m (s + 1) (cnt + 1) else Some cnt)"

definition strlen :: "mem \<Rightarrow> u32 \<Rightarrow> u32 option" where
  "strlen m s = strlen_loop m s 0"

text \<open>\<open>strnlen_loop m s k cnt\<close>: \<open>k\<close> bytes of the limit are left when \<open>cnt\<close> are counted.\<close>

fun strnlen_loop :: "mem \<Rightarrow> u32 \<Rightarrow> nat \<Rightarrow> u32 \<Rightarrow> u32" where
  "strnlen_loop m s 0 cnt = cnt"
| "strnlen_loop m s (Suc k) cnt = (if m s \<noteq> 0 then strnlen_loop m (s + 1) k (cnt + 1) else cnt)"

definition strnlen :: "mem \<Rightarrow> u32 \<Rightarrow> u32 \<Rightarrow> u32" where
  "strnlen m s len = strnlen_loop m s (unat len) 0"

partial_function (option) strcpy :: "mem \<Rightarrow> u32 \<Rightarrow> u32 \<Rightarrow> mem option" where
  "strcpy m dst src =
     (let m' = m(dst := m src)
      in if m src \<noteq> 0 then strcpy m' (dst + 1) (src + 1) else Some m')"

definition strcat :: "mem \<Rightarrow> u32 \<Rightarrow> u32 \<Rightarrow> mem option" where
  "strcat m dst src = do { n \<leftarrow> strlen m dst; strcpy m (dst + n) src }"

fun strncpy_loop :: "mem \<Rightarrow> u32 \<Rightarrow> u32 \<Rightarrow> nat \<Rightarrow> mem" where
  "strncpy_loop m p src 0 = m"
| "strncpy_loop m p src (Suc n) =
     strncpy_loop (m(p := m src)) (p + 1) (if m src \<noteq> 0 then src + 1 else src) n"

definition strncpy :: "mem \<Rightarrow> u32 \<Rightarrow> u32 \<Rightarrow> u32 \<Rightarrow> mem" where
  "strncpy m dst src len = strncpy_loop m dst src (unat len)"

partial_function (option) strcmp :: "mem \<Rightarrow> u32 \<Rightarrow> u32 \<Rightarrow> int option" where
  "strcmp m s1 s2 =
     (if m s1 \<noteq> 0 \<and> m s1 = m s2 then strcmp m (s1 + 1) (s2 + 1)
      else Some (int (unat (m s1)) - int (unat (m s2))))"

fun strncmp_loop :: "mem \<Rightarrow> u32 \<Rightarrow> u32 \<Rightarrow> nat \<Rightarrow> int" where
  "strncmp_loop m s1 s2 0 = 0"
| "strncmp_loop m s1 s2 (Suc n) =
     (if m s1 \<noteq> 0 \<and> m s1 = m s2 then strncmp_loop m (s1 + 1) (s2 + 1) n
      else int (unat (m s1)) - int (unat (m s2)))"

definition strncmp :: "mem \<Rightarrow> u32 \<Rightarrow> u32 \<Rightarrow> u32 \<Rightarrow> int" where
  "strncmp m s1 s2 n = strncmp_loop m s1 s2 (unat n)"

text \<open>The NULL pointer that \<open>strchr\<close> returns is the address \<open>0\<close>.\<close>

partial_function (option) strchr :: "mem \<Rightarrow> u32 \<Rightarrow> u8 \<Rightarrow> u32 option" where
  "strchr m s c =
     (if m s \<noteq> 0 then (if m s = c then Some s else strchr m (s + 1) c) else Some 0)"

partial_function (option) strfind :: "mem \<Rightarrow> u32 \<Rightarrow> u8 \<Rightarrow> u32 option" where
  "strfind m s c =
     (if m s \<noteq> 0 then (if m s = c then Some s else strfind m (s + 1) c) else Some s)"

text \<open>
  \<open>strtol\<close>: \<open>char\<close> is signed; \<open>long\<close> is 32 bits and the accumulator wraps. The digit loop
  returns the value and the address of the first character that is no digit of the base.
\<close>

partial_function (option) strtol_space :: "mem \<Rightarrow> u32 \<Rightarrow> u32 option" where
  "strtol_space m s = (if m s = 32 \<or> m s = 9 then strtol_space m (s + 1) else Some s)"

definition strtol_dig :: "u8 \<Rightarrow> int option" where
  "strtol_dig c =
     (if sint c \<ge> 48 \<and> sint c \<le> 57 then Some (sint c - 48)
      else if sint c \<ge> 97 \<and> sint c \<le> 122 then Some (sint c - 97 + 10)
      else if sint c \<ge> 65 \<and> sint c \<le> 90 then Some (sint c - 65 + 10)
      else None)"

partial_function (option) strtol_loop :: "mem \<Rightarrow> u32 \<Rightarrow> int \<Rightarrow> u32 \<Rightarrow> (u32 \<times> u32) option" where
  "strtol_loop m s base val =
     (case strtol_dig (m s) of
        None \<Rightarrow> Some (val, s)
      | Some dig \<Rightarrow>
          if dig \<ge> base then Some (val, s)
          else strtol_loop m (s + 1) base (val * word_of_int base + word_of_int dig))"

definition strtol :: "mem \<Rightarrow> u32 \<Rightarrow> int \<Rightarrow> (u32 \<times> u32) option" where
  "strtol m s base = do {
     s \<leftarrow> strtol_space m s;
     let (s, neg) = (if m s = 43 then (s + 1, False) else if m s = 45 then (s + 1, True) else (s, False));
     let (s, base) =
       (if (base = 0 \<or> base = 16) \<and> m s = 48 \<and> m (s + 1) = 120 then (s + 2, 16)
        else if base = 0 \<and> m s = 48 then (s + 1, 8)
        else if base = 0 then (s, 10)
        else (s, base));
     (val, s) \<leftarrow> strtol_loop m s base 0;
     Some (if neg then - val else val, s) }"

fun memset_loop :: "mem \<Rightarrow> u32 \<Rightarrow> u8 \<Rightarrow> nat \<Rightarrow> mem" where
  "memset_loop m p c 0 = m"
| "memset_loop m p c (Suc n) = memset_loop (m(p := c)) (p + 1) c n"

definition memset :: "mem \<Rightarrow> u32 \<Rightarrow> u8 \<Rightarrow> u32 \<Rightarrow> mem" where
  "memset m s c n = memset_loop m s c (unat n)"

fun copy_fwd :: "mem \<Rightarrow> u32 \<Rightarrow> u32 \<Rightarrow> nat \<Rightarrow> mem" where
  "copy_fwd m d s 0 = m"
| "copy_fwd m d s (Suc n) = copy_fwd (m(d := m s)) (d + 1) (s + 1) n"

fun copy_bwd :: "mem \<Rightarrow> u32 \<Rightarrow> u32 \<Rightarrow> nat \<Rightarrow> mem" where
  "copy_bwd m d s 0 = m"
| "copy_bwd m d s (Suc n) = copy_bwd (m(d - 1 := m (s - 1))) (d - 1) (s - 1) n"

definition memmove :: "mem \<Rightarrow> u32 \<Rightarrow> u32 \<Rightarrow> u32 \<Rightarrow> mem" where
  "memmove m dst src n =
     (if src < dst \<and> src + n > dst then copy_bwd m (dst + n) (src + n) (unat n)
      else copy_fwd m dst src (unat n))"

definition memcpy :: "mem \<Rightarrow> u32 \<Rightarrow> u32 \<Rightarrow> u32 \<Rightarrow> mem" where
  "memcpy m dst src n = copy_fwd m dst src (unat n)"

fun memcmp_loop :: "mem \<Rightarrow> u32 \<Rightarrow> u32 \<Rightarrow> nat \<Rightarrow> int" where
  "memcmp_loop m s1 s2 0 = 0"
| "memcmp_loop m s1 s2 (Suc n) =
     (if m s1 \<noteq> m s2 then int (unat (m s1)) - int (unat (m s2))
      else memcmp_loop m (s1 + 1) (s2 + 1) n)"

definition memcmp :: "mem \<Rightarrow> u32 \<Rightarrow> u32 \<Rightarrow> u32 \<Rightarrow> int" where
  "memcmp m v1 v2 n = memcmp_loop m v1 v2 (unat n)"

section \<open>Strings in memory\<close>

text \<open>\<open>cstr m s bs\<close>: the NUL-terminated string at \<open>s\<close> has the characters \<open>bs\<close>.
  \<open>bytes_at m s n\<close>: the \<open>n\<close> bytes from \<open>s\<close> on.\<close>

fun cstr :: "mem \<Rightarrow> u32 \<Rightarrow> u8 list \<Rightarrow> bool" where
  "cstr m s [] \<longleftrightarrow> m s = 0"
| "cstr m s (b # bs) \<longleftrightarrow> m s = b \<and> b \<noteq> 0 \<and> cstr m (s + 1) bs"

fun bytes_at :: "mem \<Rightarrow> u32 \<Rightarrow> nat \<Rightarrow> u8 list" where
  "bytes_at m s 0 = []"
| "bytes_at m s (Suc n) = m s # bytes_at m (s + 1) n"

text \<open>\<open>outside a p n\<close>: the address \<open>a\<close> is none of \<open>p, \<dots>, p + n - 1\<close>.\<close>

definition outside :: "u32 \<Rightarrow> u32 \<Rightarrow> nat \<Rightarrow> bool" where
  "outside a p n \<longleftrightarrow> n \<le> unat (a - p)"

lemma outside_0 [simp]: "outside a p 0"
  by (simp add: outside_def)

lemma unat_diff_Suc:
  "unat (a - (p + 1)) < n \<or> a = p \<longleftrightarrow> unat (a - p) < Suc n" if "n < 2 ^ 32" for a p :: u32
proof (cases "a = p")
  case False
  then have "a - p \<noteq> 0" by simp
  then have "unat (a - p - 1) = unat (a - p) - 1" "0 < unat (a - p)"
    by (simp_all add: unat_minus_one unat_gt_0)
  with False show ?thesis by (auto simp: diff_diff_eq)
qed simp

lemma outside_Suc:
  "n < 2 ^ 32 \<Longrightarrow> outside a p (Suc n) \<longleftrightarrow> a \<noteq> p \<and> outside a (p + 1) n"
  using unat_diff_Suc [of n a p] by (auto simp: outside_def not_le [symmetric])

lemma outside_prev: "n < 2 ^ 32 \<Longrightarrow> outside p (p + 1) n"
  by (simp add: outside_def unat_minus_1_u32)

lemma strlen_loop_cstr: "cstr m s bs \<Longrightarrow> strlen_loop m s cnt = Some (cnt + of_nat (length bs))"
  by (induction bs arbitrary: s cnt) (subst strlen_loop.simps; simp add: add.assoc)+

lemma strlen_cstr: "cstr m s bs \<Longrightarrow> strlen m s = Some (of_nat (length bs))"
  by (simp add: strlen_def strlen_loop_cstr)

lemma cstr_unique: "cstr m s bs \<Longrightarrow> cstr m s bs' \<Longrightarrow> bs = bs'"
proof (induction bs arbitrary: s bs')
  case Nil
  then show ?case by (cases bs') auto
next
  case (Cons b bs)
  then show ?case by (cases bs') auto
qed

lemma strnlen_loop_cstr:
  "cstr m s bs \<Longrightarrow> strnlen_loop m s k cnt = cnt + of_nat (min k (length bs))"
proof (induction bs arbitrary: s cnt k)
  case Nil
  then show ?case by (cases k) auto
next
  case (Cons b bs)
  then show ?case by (cases k) (auto simp: add.assoc)
qed

lemma strnlen_cstr: "cstr m s bs \<Longrightarrow> strnlen m s len = of_nat (min (unat len) (length bs))"
  by (simp add: strnlen_def strnlen_loop_cstr)

lemma strcmp_cstr:
  "cstr m s as \<Longrightarrow> cstr m t bs \<Longrightarrow>
   \<exists>r. strcmp m s t = Some r \<and> (r = 0 \<longleftrightarrow> as = bs) \<and> (r < 0 \<longleftrightarrow> ord_class.lexordp as bs)"
proof (induction as arbitrary: s t bs)
  case Nil
  then show ?case
    by (cases bs) (subst strcmp.simps, auto simp: uint_pos_iff uint_0_iff)+
next
  case (Cons a as)
  show ?case
  proof (cases bs)
    case Nil
    with Cons.prems show ?thesis by (subst strcmp.simps) (auto simp: uint_pos_iff uint_0_iff)
  next
    case (Cons b bs')
    show ?thesis
    proof (cases "a = b")
      case True
      with Cons Cons.prems Cons.IH [of "s + 1" "t + 1" bs'] show ?thesis
        by (subst strcmp.simps) auto
    next
      case False
      with Cons Cons.prems show ?thesis
        by (subst strcmp.simps) (auto simp: word_less_def word_uint_eq_iff)
    qed
  qed
qed

lemma memset_loop_eq:
  "n \<le> 2 ^ 32 \<Longrightarrow> memset_loop m p c n = (\<lambda>a. if outside a p n then m a else c)"
proof (induction n arbitrary: m p)
  case (Suc n)
  then show ?case by (auto simp: outside_Suc fun_eq_iff)
qed simp

lemma memset_eq: "memset m s c n = (\<lambda>a. if outside a s (unat n) then m a else c)"
  using unsigned_less [of n, where ?'a = nat] by (simp add: memset_def memset_loop_eq)

text \<open>
  A forward copy is right unless the destination starts inside the source, behind its first
  byte; a backward copy unless the source starts inside the destination.
\<close>

lemma copy_fwd_eq:
  assumes "n \<le> 2 ^ 32" "\<And>i. 0 < i \<Longrightarrow> i < n \<Longrightarrow> unat (d - s) \<noteq> i"
  shows "copy_fwd m d s n = (\<lambda>a. if outside a d n then m a else m (s + (a - d)))"
  using assms
proof (induction n arbitrary: m d s)
  case (Suc n)
  have eq: "(d + 1) - (s + 1) = d - s" by simp
  have IH: "copy_fwd (m(d := m s)) (d + 1) (s + 1) n =
      (\<lambda>a. if outside a (d + 1) n then (m(d := m s)) a else (m(d := m s)) ((s + 1) + (a - (d + 1))))"
    by (rule Suc.IH) (use Suc.prems eq in auto)
  show ?case
  proof (rule ext)
    fix a
    have "s + (a - d) \<noteq> d" if "a \<noteq> d" "\<not> outside a (d + 1) n"
    proof
      assume "s + (a - d) = d"
      then have "d - s = a - d" by (simp add: algebra_simps)
      with that Suc.prems(2) [of "unat (a - d)"] unat_diff_Suc [of n a d] Suc.prems(1)
      show False by (auto simp: outside_def unat_gt_0)
    qed
    moreover have arr: "(s + 1) + (a - (d + 1)) = s + (a - d)" by (simp add: algebra_simps)
    moreover have "outside a d (Suc n) \<longleftrightarrow> a \<noteq> d \<and> outside a (d + 1) n"
      using Suc.prems(1) by (intro outside_Suc) simp
    ultimately show "copy_fwd m d s (Suc n) a = (if outside a d (Suc n) then m a else m (s + (a - d)))"
      unfolding copy_fwd.simps IH by (cases "a = d") auto
  qed
qed simp

lemma copy_bwd_eq:
  assumes "n \<le> 2 ^ 32" "\<And>i. 0 < i \<Longrightarrow> i < n \<Longrightarrow> unat (s - d) \<noteq> i"
  shows "copy_bwd m (d + of_nat n) (s + of_nat n) n =
    (\<lambda>a. if outside a d n then m a else m (s + (a - d)))"
  using assms
proof (induction n arbitrary: m)
  case (Suc n)
  let ?e = "d + of_nat n" and ?f = "s + of_nat n"
  have n: "n < 2 ^ 32" using Suc.prems(1) by simp
  have un: "unat (of_nat n :: u32) = n" using n by (simp add: unat_of_nat_small)
  have split: "outside a d (Suc n) \<longleftrightarrow> a \<noteq> ?e \<and> outside a d n" for a
  proof -
    have "a = ?e \<longleftrightarrow> unat (a - d) = n"
    proof
      assume "unat (a - d) = n"
      then have "a - d = of_nat n" by (metis un word_unat_eq_iff)
      then show "a = ?e" by (simp add: algebra_simps)
    qed (simp only: add_diff_cancel_left' un)
    then show ?thesis by (auto simp: outside_def)
  qed
  have IH: "copy_bwd (m(?e := m ?f)) ?e ?f n =
      (\<lambda>a. if outside a d n then (m(?e := m ?f)) a else (m(?e := m ?f)) (s + (a - d)))"
    by (rule Suc.IH) (use Suc.prems in auto)
  show ?case
  proof (rule ext)
    fix a
    have "s + (a - d) \<noteq> ?e" if a: "\<not> outside a d n"
    proof
      assume e: "s + (a - d) = ?e"
      have lt: "unat (a - d) < n" using a by (simp add: outside_def)
      have "s - d = of_nat n - (a - d)" using e by (simp add: algebra_simps)
      moreover have "a - d \<le> of_nat n" unfolding word_le_nat_alt un using lt by (rule less_imp_le)
      ultimately have "unat (s - d) = n - unat (a - d)" by (simp only: unat_sub un)
      then have "0 < unat (s - d)" using lt by linarith
      moreover have "unat (s - d) < Suc n" using \<open>unat (s - d) = n - unat (a - d)\<close> by linarith
      ultimately show False using Suc.prems(2) by blast
    qed
    moreover have "d + of_nat (Suc n) - 1 = ?e" "s + of_nat (Suc n) - 1 = ?f" by simp_all
    moreover have "s + (?e - d) = ?f" by simp
    ultimately show "copy_bwd m (d + of_nat (Suc n)) (s + of_nat (Suc n)) (Suc n) a =
        (if outside a d (Suc n) then m a else m (s + (a - d)))"
      using split [of a] unfolding copy_bwd.simps by (simp only: IH) auto
  qed
qed simp

text \<open>With source and destination inside the address space, \<open>memmove\<close> copies as if through a
  temporary buffer, whatever the overlap; \<open>memcpy\<close> does so where the two do not overlap.\<close>

lemma unat_diff_u32:
  "unat (a - b) = (if unat b \<le> unat a then unat a - unat b else 2 ^ 32 + unat a - unat b)"
  for a b :: u32
proof (cases "unat b \<le> unat a")
  case True
  then show ?thesis by (simp only: unat_sub word_le_nat_alt if_True)
next
  case False
  then have "unat (b - a) = unat b - unat a" "b - a \<noteq> 0"
    by (auto simp only: unat_sub word_le_nat_alt nat_le_linear right_minus_eq not_le less_imp_le)
  moreover have "a - b = - (b - a)" by simp
  ultimately have "unat (a - b) = 2 ^ 32 - (unat b - unat a)"
    using unat_minus_nonzero_u32 [of "b - a"] by (simp only: simp_thms)
  with False unat_lt_u32 [of b] show ?thesis by simp
qed

lemma memmove_eq:
  assumes s: "unat src + unat n < 2 ^ 32" and d: "unat dst + unat n < 2 ^ 32"
  shows "memmove m dst src n =
    (\<lambda>a. if outside a dst (unat n) then m a else m (src + (a - dst)))"
proof -
  have n32: "unat n \<le> 2 ^ 32" using s by linarith
  have sn: "src + n > dst \<longleftrightarrow> unat src + unat n > unat dst"
    using s by (simp add: word_less_nat_alt unat_add_no_wrap)
  show ?thesis
  proof (cases "src < dst \<and> src + n > dst")
    case True
    then have lt: "unat src < unat dst" by (simp add: word_less_nat_alt)
    have "copy_bwd m (dst + of_nat (unat n)) (src + of_nat (unat n)) (unat n) =
        (\<lambda>a. if outside a dst (unat n) then m a else m (src + (a - dst)))"
    proof (rule copy_bwd_eq [OF n32])
      fix i assume "0 < i" "i < unat n"
      then show "unat (src - dst) \<noteq> i" using lt d unat_diff_u32 [of src dst] by simp
    qed
    with True show ?thesis by (simp add: memmove_def)
  next
    case False
    then have c: "unat dst \<le> unat src \<or> unat src + unat n \<le> unat dst"
      unfolding sn by (auto simp: word_less_nat_alt)
    have "copy_fwd m dst src (unat n) =
        (\<lambda>a. if outside a dst (unat n) then m a else m (src + (a - dst)))"
    proof (rule copy_fwd_eq [OF n32])
      fix i assume "0 < i" "i < unat n"
      then show "unat (dst - src) \<noteq> i" using c s unat_diff_u32 [of dst src] by (auto split: if_splits)
    qed
    then show ?thesis unfolding memmove_def if_not_P [OF False] .
  qed
qed

lemma memcpy_eq:
  assumes "unat n \<le> unat (dst - src)"
  shows "memcpy m dst src n = (\<lambda>a. if outside a dst (unat n) then m a else m (src + (a - dst)))"
  unfolding memcpy_def
  by (rule copy_fwd_eq) (use assms unat_lt_u32 [of n] in auto)

lemma memcmp_loop_bytes:
  "memcmp_loop m p q n = 0 \<longleftrightarrow> bytes_at m p n = bytes_at m q n"
  "memcmp_loop m p q n < 0 \<longleftrightarrow> ord_class.lexordp (bytes_at m p n) (bytes_at m q n)"
  by (induction n arbitrary: p q) (auto simp: word_less_def word_uint_eq_iff)

section \<open>Copies of strings\<close>

lemma cstr_cong:
  "cstr m s bs \<Longrightarrow> (\<And>i. i \<le> length bs \<Longrightarrow> m' (s + of_nat i) = m (s + of_nat i)) \<Longrightarrow> cstr m' s bs"
proof (induction bs arbitrary: s)
  case Nil
  then show ?case using Nil.prems(2) [of 0] by simp
next
  case (Cons b bs)
  have "cstr m' (s + 1) bs"
  proof (rule Cons.IH)
    show "cstr m (s + 1) bs" using Cons.prems(1) by simp
    fix i assume "i \<le> length bs"
    then show "m' (s + 1 + of_nat i) = m (s + 1 + of_nat i)"
      using Cons.prems(2) [of "Suc i"] by (simp add: add.assoc)
  qed
  then show ?case using Cons.prems(1) Cons.prems(2) [of 0] by simp
qed

lemma outside_addI: "k \<le> i \<Longrightarrow> i < 2 ^ 32 \<Longrightarrow> outside (p + of_nat i) p k"
  by (simp add: outside_def unat_of_nat_small del: of_nat_unat)

text \<open>\<open>strcpy\<close> copies the string with its NUL and writes nothing else, if the source (NUL
  included) does not meet the destination.\<close>

lemma strcpy_cstr:
  assumes "cstr m src bs" "length bs < 2 ^ 32 - 1"
    and "\<And>i. i \<le> length bs \<Longrightarrow> outside (src + of_nat i) dst (Suc (length bs))"
  shows "\<exists>m'. strcpy m dst src = Some m' \<and> cstr m' dst bs \<and>
           (\<forall>a. outside a dst (Suc (length bs)) \<longrightarrow> m' a = m a)"
  using assms
proof (induction bs arbitrary: m dst src)
  case Nil
  then show ?case
    by (subst strcpy.simps) (auto simp: Let_def outside_Suc)
next
  case (Cons b bs)
  define mm where "mm = m(dst := m src)"
  have out: "outside a dst (Suc (length (b # bs))) \<longleftrightarrow> a \<noteq> dst \<and> outside a (dst + 1) (Suc (length bs))" for a
    using Cons.prems(2) outside_Suc [of "Suc (length bs)" a dst] by simp
  have o: "src + 1 + of_nat i \<noteq> dst" "outside (src + 1 + of_nat i) (dst + 1) (Suc (length bs))"
    if "i \<le> length bs" for i
    using Cons.prems(3) [of "Suc i"] that unfolding out by (simp_all add: add.assoc)
  have "cstr mm (src + 1) bs"
    by (rule cstr_cong [of m]) (use Cons.prems(1) o(1) in \<open>auto simp: mm_def\<close>)
  then obtain m' where m': "strcpy mm (dst + 1) (src + 1) = Some m'" "cstr m' (dst + 1) bs"
    "\<And>a. outside a (dst + 1) (Suc (length bs)) \<Longrightarrow> m' a = mm a"
    using Cons.IH [of mm "src + 1" "dst + 1"] o(2) Cons.prems(2) by fastforce
  have "outside dst (dst + 1) (Suc (length bs))"
    using Cons.prems(2) by (intro outside_prev) simp
  then have "m' dst = b" using m'(3) Cons.prems(1) by (simp add: mm_def)
  moreover have "m' a = m a" if "outside a dst (Suc (length (b # bs)))" for a
    using that m'(3) unfolding out by (simp add: mm_def)
  moreover have "strcpy m dst src = strcpy mm (dst + 1) (src + 1)"
    using Cons.prems(1) by (subst strcpy.simps) (simp add: Let_def mm_def)
  ultimately show ?case using m'(1,2) Cons.prems(1) by auto
qed

text \<open>\<open>strncpy\<close> writes exactly \<open>len\<close> bytes: the string, cut off or padded with NULs.\<close>

lemma strncpy_loop_bytes:
  assumes "cstr m src bs" "n \<le> 2 ^ 32" "length bs < 2 ^ 32"
    and "\<And>i. i \<le> length bs \<Longrightarrow> outside (src + of_nat i) p n"
  shows "bytes_at (strncpy_loop m p src n) p n = take n (bs @ replicate n 0) \<and>
    (\<forall>a. outside a p n \<longrightarrow> strncpy_loop m p src n a = m a)"
  using assms
proof (induction n arbitrary: m p src bs)
  case (Suc n)
  define mm where "mm = m(p := m src)"
  define src' where "src' = (if m src \<noteq> 0 then src + 1 else src)"
  have out: "outside a p (Suc n) \<longleftrightarrow> a \<noteq> p \<and> outside a (p + 1) n" for a
    using Suc.prems(2) by (intro outside_Suc) simp
  have o: "src + of_nat i \<noteq> p" "outside (src + of_nat i) (p + 1) n" if "i \<le> length bs" for i
    using Suc.prems(4) [OF that] unfolding out by simp_all
  have st: "cstr mm src' (tl bs)"
  proof (rule cstr_cong [of m])
    show "cstr m src' (tl bs)" using Suc.prems(1) by (cases bs) (auto simp: src'_def)
    fix i assume "i \<le> length (tl bs)"
    then show "mm (src' + of_nat i) = m (src' + of_nat i)"
      using o(1) [of i] o(1) [of "Suc i"] Suc.prems(1)
      by (cases bs) (auto simp: add.assoc src'_def mm_def)
  qed
  have o': "outside (src' + of_nat i) (p + 1) n" if "i \<le> length (tl bs)" for i
    using that o(2) [of i] o(2) [of "Suc i"] Suc.prems(1)
    by (cases bs) (auto simp: add.assoc src'_def)
  have IH: "bytes_at (strncpy_loop mm (p + 1) src' n) (p + 1) n = take n (tl bs @ replicate n 0)"
    "\<And>a. outside a (p + 1) n \<Longrightarrow> strncpy_loop mm (p + 1) src' n a = mm a"
    using Suc.IH [OF st _ _ o'] Suc.prems(2,3) by (simp_all add: less_imp_diff_less)
  have "outside p (p + 1) n" using Suc.prems(2) by (intro outside_prev) simp
  then have "strncpy_loop mm (p + 1) src' n p = m src" using IH(2) by (simp add: mm_def)
  moreover have "strncpy_loop m p src (Suc n) = strncpy_loop mm (p + 1) src' n"
    by (simp add: mm_def src'_def)
  moreover have "m src # take n (tl bs @ replicate n 0) = take (Suc n) (bs @ replicate (Suc n) 0)"
    using Suc.prems(1) by (cases bs) (auto simp flip: replicate_Suc)
  ultimately show ?case using IH by (auto simp: out mm_def)
qed simp

section \<open>Properties\<close>

text \<open>C36. \<^verbatim>\<open>memmove\<close> copies as if all bytes were read before any is written, also when the two
  ranges overlap, and changes nothing outside the destination.\<close>

theorem memmove_simultaneous:
  assumes "unat src + unat n < 2 ^ 32" "unat dst + unat n < 2 ^ 32"
  shows "memmove m dst src n = (\<lambda>a. if outside a dst (unat n) then m a else m (src + (a - dst)))"
  by (rule memmove_eq [OF assms])

theorem memmove_simultaneous_witness: "memmove (\<lambda>a. ucast a) 2 0 4 5 = (3 :: u8)"
  using memmove_simultaneous [of 0 4 2 "\<lambda>a. ucast a"] by (simp add: outside_def)

text \<open>\<^verbatim>\<open>strcmp\<close> returns on NUL-terminated strings, gives 0 exactly on equal strings and a negative
  number exactly when the first string comes first in the lexicographic order of unsigned bytes.\<close>

theorem strcmp_lexicographic:
  assumes "cstr m s as" "cstr m t bs"
  shows "\<exists>r. strcmp m s t = Some r \<and> (r = 0 \<longleftrightarrow> as = bs) \<and> (r < 0 \<longleftrightarrow> ord_class.lexordp as bs)"
  by (rule strcmp_cstr [OF assms])

theorem strcmp_lexicographic_witness:
  "\<exists>r. strcmp ((\<lambda>_. 0)(0 := 97, 2 := 97, 3 := 200)) 0 2 = Some r \<and> r < 0"
  using strcmp_lexicographic [of "(\<lambda>_. 0)(0 := 97, 2 := 97, 3 := 200)" 0 "[97]" 2 "[97, 200]"] by auto

end
