(* ===== verification/Printfmt.thy ===== *)
theory Printfmt
  imports CString IntArith
begin

text \<open>
  \<^verbatim>\<open>libs/printfmt.c\<close>: formatted output. The output function \<^verbatim>\<open>putch\<close> is a parameter that
  steps a sink state, and \<open>rd\<close> reads the byte memory out of that state, so a sink that writes
  memory (\<open>sprintputch\<close>) and a format string or argument in the same memory may alias as they
  do in C. A character pointer is an address or points into a string literal of the file.
  A \<^verbatim>\<open>va_list\<close> is the list of the arguments still to come; taking one of the wrong size is
  undefined behaviour and has no result.
\<close>

datatype cptr = CMem u32 | CLit "u8 list" int

definition cread :: "mem \<Rightarrow> cptr \<Rightarrow> u8" where
  "cread m p = (case p of CMem a \<Rightarrow> m a
     | CLit s i \<Rightarrow> if 0 \<le> i \<and> i < int (length s) then s ! nat i else 0)"

definition cplus :: "cptr \<Rightarrow> int \<Rightarrow> cptr" where
  "cplus p k = (case p of CMem a \<Rightarrow> CMem (a + of_int k) | CLit s i \<Rightarrow> CLit s (i + k))"

datatype varg = VWord u32 | VDWord u64 | VLit "u8 list"

definition va_word :: "varg list \<Rightarrow> (u32 \<times> varg list) option" where
  "va_word ap = (case ap of VWord w # ap' \<Rightarrow> Some (w, ap') | _ \<Rightarrow> None)"

definition va_dword :: "varg list \<Rightarrow> (u64 \<times> varg list) option" where
  "va_dword ap = (case ap of VDWord w # ap' \<Rightarrow> Some (w, ap') | _ \<Rightarrow> None)"

definition va_string :: "varg list \<Rightarrow> (cptr \<times> varg list) option" where
  "va_string ap = (case ap of VWord w # ap' \<Rightarrow> Some (CMem w, ap')
     | VLit s # ap' \<Rightarrow> Some (CLit s 0, ap') | _ \<Rightarrow> None)"

text \<open>Character codes: \<open>chars s\<close> is the byte string of a literal.\<close>

definition chars :: "string \<Rightarrow> u8 list" where
  "chars s = map (\<lambda>c. word_of_nat (of_char c)) s"

section \<open>Error messages and numbers\<close>

definition MAXERROR :: int where "MAXERROR = 24"

definition error_string :: "string option list" where
  "error_string = [None,
     Some ''unspecified error'', Some ''bad process'', Some ''invalid parameter'',
     Some ''out of memory'', Some ''out of processes'', Some ''segmentation fault'',
     None, Some ''invalid elf file'', Some ''process is killed'', Some ''panic failure'',
     None, None, Some ''no such device'', Some ''device not available'',
     Some ''device/file is busy'', Some ''no such file or directory'', Some ''is a directory'',
     Some ''not a directory'', Some ''cross device link'', Some ''unimplemented feature'',
     Some ''illegal seek'', Some ''too many files are open'',
     Some ''file or directory already exists'', Some ''directory is not empty'']"

partial_function (option) printnum ::
  "(u32 \<Rightarrow> 's \<Rightarrow> 's) \<Rightarrow> u64 \<Rightarrow> u32 \<Rightarrow> int \<Rightarrow> u32 \<Rightarrow> 's \<Rightarrow> 's option" where
  "printnum putch num base width padc st =
     (let (result, md) = do_div num base in do {
        st \<leftarrow> (if num \<ge> ucast base then printnum putch result base (width - 1) padc st
               else Some ((putch padc ^^ nat (width - 1)) st));
        Some (putch (ucast (chars ''0123456789abcdef'' ! unat md)) st) })"


definition getuint :: "varg list \<Rightarrow> nat \<Rightarrow> (u64 \<times> varg list) option" where
  "getuint ap lflag =
     (if lflag \<ge> 2 then va_dword ap
      else do { (w, ap) \<leftarrow> va_word ap; Some (ucast w, ap) })"

definition getint :: "varg list \<Rightarrow> nat \<Rightarrow> (u64 \<times> varg list) option" where
  "getint ap lflag =
     (if lflag \<ge> 2 then va_dword ap
      else do { (w, ap) \<leftarrow> va_word ap; Some (scast w, ap) })"

section \<open>The directive after a percent sign\<close>

record fmtspec =
  padc :: u8
  width :: int
  precision :: int
  lflag :: nat
  altflag :: bool

definition fmtspec0 :: fmtspec where
  "fmtspec0 = \<lparr>padc = 32, width = - 1, precision = - 1, lflag = 0, altflag = False\<rparr>"

partial_function (option) fmt_width :: "mem \<Rightarrow> cptr \<Rightarrow> int \<Rightarrow> int \<Rightarrow> (int \<times> cptr) option" where
  "fmt_width m fmt ch prec =
     (let prec = prec * 10 + ch - 48;
          ch = sint (cread m fmt)
      in if ch < 48 \<or> ch > 57 then Some (prec, fmt) else fmt_width m (cplus fmt 1) ch prec)"

definition process_precision :: "fmtspec \<Rightarrow> fmtspec" where
  "process_precision sp =
     (if width sp < 0 then sp\<lparr>width := precision sp, precision := - 1\<rparr> else sp)"

text \<open>\<open>vfmt_switch\<close>: the \<open>reswitch\<close> loop, up to the conversion character.\<close>

partial_function (option) vfmt_switch ::
  "mem \<Rightarrow> cptr \<Rightarrow> varg list \<Rightarrow> fmtspec \<Rightarrow> (u8 \<times> cptr \<times> varg list \<times> fmtspec) option" where
  "vfmt_switch m fmt ap sp =
     (let ch = cread m fmt; fmt = cplus fmt 1 in
      if ch = 45 then vfmt_switch m fmt ap (sp\<lparr>padc := 45\<rparr>)
      else if ch = 48 then vfmt_switch m fmt ap (sp\<lparr>padc := 48\<rparr>)
      else if 49 \<le> ch \<and> ch \<le> 57 then do {
        (prec, fmt) \<leftarrow> fmt_width m fmt (int (unat ch)) 0;
        vfmt_switch m fmt ap (process_precision (sp\<lparr>precision := prec\<rparr>)) }
      else if ch = 42 then do {
        (w, ap) \<leftarrow> va_word ap;
        vfmt_switch m fmt ap (process_precision (sp\<lparr>precision := sint w\<rparr>)) }
      else if ch = 46 then vfmt_switch m fmt ap (if width sp < 0 then sp\<lparr>width := 0\<rparr> else sp)
      else if ch = 35 then vfmt_switch m fmt ap (sp\<lparr>altflag := True\<rparr>)
      else if ch = 108 then vfmt_switch m fmt ap (sp\<lparr>lflag := lflag sp + 1\<rparr>)
      else Some (ch, fmt, ap, sp))"

partial_function (option) fmt_strnlen :: "mem \<Rightarrow> cptr \<Rightarrow> u32 \<Rightarrow> u32 \<Rightarrow> u32 option" where
  "fmt_strnlen m p len cnt =
     (if cnt < len \<and> cread m p \<noteq> 0 then fmt_strnlen m (cplus p 1) len (cnt + 1) else Some cnt)"

text \<open>The loop that prints the characters of a \<open>%s\<close> argument; \<open>char\<close> is signed.\<close>

partial_function (option) fmt_str ::
  "('s \<Rightarrow> mem) \<Rightarrow> (u32 \<Rightarrow> 's \<Rightarrow> 's) \<Rightarrow> cptr \<Rightarrow> bool \<Rightarrow> int \<Rightarrow> int \<Rightarrow> 's \<Rightarrow> (int \<times> 's) option" where
  "fmt_str rd putch p alt prec wd st =
     (let ch = cread (rd st) p in
      if ch \<noteq> 0 \<and> (prec < 0 \<or> prec - 1 \<ge> 0) then
        fmt_str rd putch (cplus p 1) alt (if prec < 0 then prec else prec - 1) (wd - 1)
          (putch (if alt \<and> (sint ch < 32 \<or> sint ch > 126) then 63 else scast ch) st)
      else Some (wd, st))"

definition fmt_conv_s ::
  "('s \<Rightarrow> mem) \<Rightarrow> (u32 \<Rightarrow> 's \<Rightarrow> 's) \<Rightarrow> cptr \<Rightarrow> fmtspec \<Rightarrow> 's \<Rightarrow> 's option" where
  "fmt_conv_s rd putch p sp st = do {
     let p = (if p = CMem 0 then CLit (chars ''(null)'') 0 else p);
     (wd, st) \<leftarrow>
       (if width sp > 0 \<and> padc sp \<noteq> 45 then do {
          n \<leftarrow> fmt_strnlen (rd st) p (of_int (precision sp)) 0;
          let wd = width sp - int (unat n);
          Some (if wd > 0 then 0 else wd, (putch (scast (padc sp)) ^^ nat wd) st) }
        else Some (width sp, st));
     (wd, st) \<leftarrow> fmt_str rd putch p (altflag sp) (precision sp) wd st;
     Some ((putch 32 ^^ nat wd) st) }"

text \<open>The signed, unsigned, octal, pointer and hexadecimal conversions.\<close>

definition fmt_number ::
  "(u32 \<Rightarrow> 's \<Rightarrow> 's) \<Rightarrow> u8 \<Rightarrow> varg list \<Rightarrow> fmtspec \<Rightarrow> 's \<Rightarrow> (varg list \<times> 's) option" where
  "fmt_number putch ch ap sp st = do {
     (st, num, base, ap) \<leftarrow>
       (if ch = 100 then do {
          (num, ap) \<leftarrow> getint ap (lflag sp);
          Some (if sint num < 0 then (putch 45 st, - num, 10, ap) else (st, num, 10, ap)) }
        else if ch = 117 then do { (num, ap) \<leftarrow> getuint ap (lflag sp); Some (st, num, 10, ap) }
        else if ch = 111 then do { (num, ap) \<leftarrow> getuint ap (lflag sp); Some (st, num, 8, ap) }
        else if ch = 112 then do {
          (w, ap) \<leftarrow> va_word ap;
          Some (putch 120 (putch 48 st), ucast w, 16, ap) }
        else do { (num, ap) \<leftarrow> getuint ap (lflag sp); Some (st, num, 16, ap) });
     st \<leftarrow> printnum putch num base (width sp) (scast (padc sp)) st;
     Some (ap, st) }"

text \<open>An unrecognized escape rewinds to just behind its percent sign.\<close>

partial_function (option) fmt_back :: "mem \<Rightarrow> cptr \<Rightarrow> cptr option" where
  "fmt_back m fmt = (if cread m (cplus fmt (- 1)) \<noteq> 37 then fmt_back m (cplus fmt (- 1)) else Some fmt)"

section \<open>vprintfmt\<close>

text \<open>One directive. For \<open>%e\<close> the code calls \<open>printfmt\<close>; the call it makes (format and
  argument) is the first component of the result, and \<open>vprintfmt\<close> carries it out.\<close>

definition fmt_error :: "u32 \<Rightarrow> (u8 list \<times> varg list) option" where
  "fmt_error w = do {
     let err = (if sint w < 0 then - w else w);
     kassert (0 \<le> sint err);
     (case if sint err > MAXERROR then None else error_string ! nat (sint err) of
        None \<Rightarrow> Some (chars ''error %d'', [VWord err])
      | Some msg \<Rightarrow> Some (chars ''%s'', [VLit (chars msg)])) }"

definition fmt_directive ::
  "('s \<Rightarrow> mem) \<Rightarrow> (u32 \<Rightarrow> 's \<Rightarrow> 's) \<Rightarrow> cptr \<Rightarrow> 's \<Rightarrow> varg list \<Rightarrow>
   ((u8 list \<times> varg list) option \<times> cptr \<times> 's \<times> varg list) option" where
  "fmt_directive rd putch fmt st ap = do {
     (ch, fmt, ap, sp) \<leftarrow> vfmt_switch (rd st) fmt ap fmtspec0;
     if ch = 99 then do {
       (w, ap) \<leftarrow> va_word ap;
       Some (None, fmt, putch w st, ap) }
     else if ch = 101 then do {
       (w, ap) \<leftarrow> va_word ap;
       call \<leftarrow> fmt_error w;
       Some (Some call, fmt, st, ap) }
     else if ch = 115 then do {
       (p, ap) \<leftarrow> va_string ap;
       st \<leftarrow> fmt_conv_s rd putch p sp st;
       Some (None, fmt, st, ap) }
     else if ch = 100 \<or> ch = 117 \<or> ch = 111 \<or> ch = 112 \<or> ch = 120 then do {
       (ap, st) \<leftarrow> fmt_number putch ch ap sp st;
       Some (None, fmt, st, ap) }
     else if ch = 37 then Some (None, fmt, putch 37 st, ap)
     else do {
       let st = putch 37 st;
       fmt \<leftarrow> fmt_back (rd st) (cplus fmt (- 1));
       Some (None, fmt, st, ap) } }"

partial_function (option) vprintfmt ::
  "('s \<Rightarrow> mem) \<Rightarrow> (u32 \<Rightarrow> 's \<Rightarrow> 's) \<Rightarrow> cptr \<Rightarrow> 's \<Rightarrow> varg list \<Rightarrow> 's option" where
  "vprintfmt rd putch fmt st ap =
     (let ch = cread (rd st) fmt; fmt = cplus fmt 1 in
      if ch = 0 then Some st
      else if ch \<noteq> 37 then vprintfmt rd putch fmt (putch (ucast ch) st) ap
      else do {
        (call, fmt, st, ap) \<leftarrow> fmt_directive rd putch fmt st ap;
        st \<leftarrow> (case call of None \<Rightarrow> Some st
               | Some (f, args) \<Rightarrow> vprintfmt rd putch (CLit f 0) st args);
        vprintfmt rd putch fmt st ap })"

definition printfmt ::
  "('s \<Rightarrow> mem) \<Rightarrow> (u32 \<Rightarrow> 's \<Rightarrow> 's) \<Rightarrow> cptr \<Rightarrow> 's \<Rightarrow> varg list \<Rightarrow> 's option" where
  "printfmt rd putch fmt st args = vprintfmt rd putch fmt st args"

section \<open>Printing into a buffer\<close>

record sprintbuf =
  sb_buf :: u32
  sb_ebuf :: u32
  sb_cnt :: u32
  sb_mem :: mem

definition sprintputch :: "u32 \<Rightarrow> sprintbuf \<Rightarrow> sprintbuf" where
  "sprintputch ch b =
     (let b = b\<lparr>sb_cnt := sb_cnt b + 1\<rparr>
      in if sb_buf b < sb_ebuf b
         then b\<lparr>sb_mem := (sb_mem b)(sb_buf b := ucast ch), sb_buf := sb_buf b + 1\<rparr> else b)"

definition vsnprintf :: "mem \<Rightarrow> u32 \<Rightarrow> u32 \<Rightarrow> cptr \<Rightarrow> varg list \<Rightarrow> (int \<times> mem) option" where
  "vsnprintf m str sz fmt ap =
     (let b = \<lparr>sb_buf = str, sb_ebuf = str + sz - 1, sb_cnt = 0, sb_mem = m\<rparr> in
      if str = 0 \<or> sb_buf b > sb_ebuf b then Some (- E_INVAL, m)
      else do {
        b \<leftarrow> vprintfmt sb_mem sprintputch fmt b ap;
        Some (sint (sb_cnt b), (sb_mem b)(sb_buf b := 0)) })"

definition snprintf :: "mem \<Rightarrow> u32 \<Rightarrow> u32 \<Rightarrow> cptr \<Rightarrow> varg list \<Rightarrow> (int \<times> mem) option" where
  "snprintf m str sz fmt args = vsnprintf m str sz fmt args"

section \<open>Numbers\<close>

text \<open>The digits of a number, most significant first, and the characters of a digit list.\<close>

function digits :: "nat \<Rightarrow> nat \<Rightarrow> nat list" where
  "digits b n = (if b < 2 \<or> n < b then [n] else digits b (n div b) @ [n mod b])"
  by auto
termination
  by (relation "measure snd") auto

declare digits.simps [simp del]

definition digit_char :: "nat \<Rightarrow> u8" where
  "digit_char d = (if d < 10 then word_of_nat (48 + d) else word_of_nat (87 + d))"

definition put_all :: "(u32 \<Rightarrow> 's \<Rightarrow> 's) \<Rightarrow> u32 list \<Rightarrow> 's \<Rightarrow> 's" where
  "put_all putch cs st = fold putch cs st"

lemma put_all_simps [simp]:
  "put_all putch [] st = st"
  "put_all putch (c # cs) st = put_all putch cs (putch c st)"
  "put_all putch (cs @ ds) st = put_all putch ds (put_all putch cs st)"
  by (simp_all add: put_all_def)

lemma funpow_put_all: "(putch c ^^ n) st = put_all putch (replicate n c) st"
  by (induction n arbitrary: st) (simp_all add: funpow_Suc_right del: funpow.simps(2))

lemma do_div_spec:
  assumes "base \<in> {8, 10, 16}" "base = 10 \<longrightarrow> unat n < 2 ^ 32"
  shows "unat (fst (do_div n base)) = unat n div unat base"
    "unat (snd (do_div n base)) = unat n mod unat base"
  using assms do_div10_correct [of n] do_div_pow2 [of n] by auto

lemma digit_char_chars:
  "d < 16 \<Longrightarrow> chars ''0123456789abcdef'' ! d = digit_char d"
proof -
  assume "d < 16"
  moreover have "\<forall>d \<in> set [0..<16]. chars ''0123456789abcdef'' ! d = digit_char d" by code_simp
  ultimately show ?thesis by simp
qed

lemma length_digits_pos: "0 < length (digits b n)"
  by (subst digits.simps) auto

lemma printnum_eq:
  assumes base: "base \<in> {8, 10, 16}" and n: "base = 10 \<longrightarrow> unat num < 2 ^ 32"
  shows "printnum putch num base wd pc st =
     Some (put_all putch
       (replicate (nat (wd - int (length (digits (unat base) (unat num))))) pc @
        map (\<lambda>d. ucast (digit_char d)) (digits (unat base) (unat num))) st)"
  using n
proof (induction "unat num" arbitrary: num wd rule: less_induct)
  case less
  let ?q = "fst (do_div num base)" and ?r = "snd (do_div num base)"
  have b: "2 \<le> unat base" "unat base \<le> 16" using base by auto
  note d = do_div_spec [OF base less.prems]
  have r: "chars ''0123456789abcdef'' ! unat ?r = digit_char (unat num mod unat base)"
    using b d(2) digit_char_chars [of "unat ?r"] pos_mod_bound
    by (metis (no_types) less_le_trans mod_less_divisor not_gr_zero not_numeral_le_zero)
  have cmp: "num \<ge> ucast base \<longleftrightarrow> unat base \<le> unat num"
    by (simp add: word_le_nat_alt unat_ucast_up)
  show ?case
  proof (cases "unat base \<le> unat num")
    case True
    have lt: "unat ?q < unat num" using True b unfolding d(1) by (intro div_less_dividend) auto
    have n': "base = 10 \<longrightarrow> unat ?q < 2 ^ 32" using less.prems lt by auto
    have ds: "digits (unat base) (unat num) =
        digits (unat base) (unat ?q) @ [unat num mod unat base]"
      using b True by (subst digits.simps) (simp add: d(1))
    show ?thesis
      by (subst printnum.simps)
         (simp add: case_prod_beta Let_def cmp True less.hyps [OF lt n'] ds r diff_diff_eq)
  next
    case False
    then have ds: "digits (unat base) (unat num) = [unat num]" by (subst digits.simps) simp
    show ?thesis using False r
      by (subst printnum.simps) (simp add: case_prod_beta Let_def cmp ds funpow_put_all)
  qed
qed

section \<open>What every sink sees\<close>

text \<open>A property of the sink that \<open>putch\<close> keeps is kept by the whole of \<open>vprintfmt\<close>,
  whatever the format and the arguments are.\<close>

lemma funpow_inv:
  "(\<And>c st. P st \<Longrightarrow> P (putch c st)) \<Longrightarrow> P st \<Longrightarrow> P ((putch c ^^ n) st)"
  by (induction n) auto

lemma printnum_inv:
  assumes P: "\<And>c st. P st \<Longrightarrow> P (putch c st)"
  shows "printnum putch num base wd pc st = Some st' \<Longrightarrow> P st \<Longrightarrow> P st'"
proof -
  have "printnum p num base wd pc st = Some st' \<Longrightarrow> p = putch \<longrightarrow> P st \<longrightarrow> P st'" for p
  proof (erule printnum.raw_induct [where P = "\<lambda>p num base wd pc st st'. p = putch \<longrightarrow> P st \<longrightarrow> P st'", rotated],
      goal_cases)
    case (1 printnum p num base wd pc st st')
    from 1(2) show ?case
      by (auto simp: Let_def case_prod_beta bind_eq_Some_conv split: if_splits
          intro!: P funpow_inv [of P] dest: 1(1))
  qed
  then show "printnum putch num base wd pc st = Some st' \<Longrightarrow> P st \<Longrightarrow> P st'" by blast
qed

lemma fmt_str_inv:
  assumes P: "\<And>c st. P st \<Longrightarrow> P (putch c st)"
  shows "fmt_str rd putch p alt prec wd st = Some (wd', st') \<Longrightarrow> P st \<Longrightarrow> P st'"
proof -
  have "fmt_str rd pu p alt prec wd st = Some r \<Longrightarrow> pu = putch \<longrightarrow> P st \<longrightarrow> P (snd r)" for pu r
  proof (erule fmt_str.raw_induct [where P = "\<lambda>rd p q alt prec wd st r. p = putch \<longrightarrow> P st \<longrightarrow> P (snd r)", rotated],
      goal_cases)
    case (1 fmt_str rd pu p alt prec wd st r)
    from 1(2) show ?case by (auto simp: Let_def split: if_splits intro!: P dest: 1(1))
  qed
  then show "fmt_str rd putch p alt prec wd st = Some (wd', st') \<Longrightarrow> P st \<Longrightarrow> P st'" by fastforce
qed

lemma fmt_directive_inv:
  assumes P: "\<And>c st. P st \<Longrightarrow> P (putch c st)"
  shows "fmt_directive rd putch fmt st ap = Some (call, fmt', st', ap') \<Longrightarrow> P st \<Longrightarrow> P st'"
proof -
  have s: "fmt_conv_s rd putch p sp st = Some st' \<Longrightarrow> P st \<Longrightarrow> P st'" for p sp st st'
    by (auto simp: fmt_conv_s_def Let_def bind_eq_Some_conv split: if_splits
        intro!: funpow_inv [of P] P dest!: fmt_str_inv [of P putch, OF P, rotated])
  have n: "fmt_number putch ch ap sp st = Some (ap', st') \<Longrightarrow> P st \<Longrightarrow> P st'" for ch ap sp st ap' st'
    by (auto simp: fmt_number_def bind_eq_Some_conv split: if_splits
        intro!: P dest!: printnum_inv [of P putch, OF P, rotated])
  show "fmt_directive rd putch fmt st ap = Some (call, fmt', st', ap') \<Longrightarrow> P st \<Longrightarrow> P st'"
    by (auto simp: fmt_directive_def Let_def bind_eq_Some_conv split: if_splits intro: P s n)
qed

lemma vprintfmt_inv:
  assumes P: "\<And>c st. P st \<Longrightarrow> P (putch c st)"
  shows "vprintfmt rd putch fmt st ap = Some st' \<Longrightarrow> P st \<Longrightarrow> P st'"
proof -
  have "vprintfmt rd pu fmt st ap = Some st' \<Longrightarrow> pu = putch \<longrightarrow> P st \<longrightarrow> P st'" for pu
  proof (erule vprintfmt.raw_induct [where P = "\<lambda>rd p fmt st ap st'. p = putch \<longrightarrow> P st \<longrightarrow> P st'", rotated],
      goal_cases)
    case (1 vpf rd pu fmt st ap st')
    note vpf = 1(1)
    show ?case
    proof (intro impI)
      assume pu: "pu = putch" and st: "P st"
      let ?ch = "cread (rd st) fmt"
      show "P st'"
      proof (cases "?ch = 0 \<or> ?ch \<noteq> 37")
        case True
        with 1(2) have "st' = st \<or> vpf rd pu (cplus fmt 1) (pu (ucast ?ch) st) ap = Some st'"
          by (auto simp: Let_def split: if_splits)
        then show ?thesis using st P [OF st] pu vpf by metis
      next
        case False
        with 1(2) obtain call fmt2 st2 st3 ap2 where
            d: "fmt_directive rd pu (cplus fmt 1) st ap = Some (call, fmt2, st2, ap2)"
            "(case call of None \<Rightarrow> Some st2 | Some (f, args) \<Rightarrow> vpf rd pu (CLit f 0) st2 args) = Some st3"
            "vpf rd pu fmt2 st3 ap2 = Some st'"
          by (force simp: Let_def bind_eq_Some_conv)
        have "P st2" using fmt_directive_inv [of P putch, OF P, OF _ d(1) [unfolded pu] st] .
        then have "P st3" using d(2) pu vpf by (auto split: option.splits)
        with vpf [OF d(3)] pu show ?thesis by simp
      qed
    qed
  qed
  then show "vprintfmt rd putch fmt st ap = Some st' \<Longrightarrow> P st \<Longrightarrow> P st'" by blast
qed

section \<open>Two sinks side by side\<close>

text \<open>If \<open>h\<close> maps the states of one sink to those of another and commutes with \<open>putch\<close> and with reading the
  memory, formatting into the first is formatting into the second.\<close>

definition sink_hom :: "('s \<Rightarrow> 't) \<Rightarrow> (u32 \<Rightarrow> 's \<Rightarrow> 's) \<Rightarrow> (u32 \<Rightarrow> 't \<Rightarrow> 't) \<Rightarrow> bool" where
  "sink_hom h pu pu' \<longleftrightarrow> (\<forall>c s. h (pu c s) = pu' c (h s))"

lemma sink_homD: "sink_hom h pu pu' \<Longrightarrow> h (pu c s) = pu' c (h s)"
  by (simp add: sink_hom_def)

lemma funpow_hom: "sink_hom h pu pu' \<Longrightarrow> h ((pu c ^^ n) s) = (pu' c ^^ n) (h s)"
  by (induction n) (simp_all add: sink_homD)

lemma printnum_hom:
  assumes H: "sink_hom h pu pu'"
  shows "printnum pu' num base wd pc (h s) = map_option h (printnum pu num base wd pc s)"
proof -
  have down: "printnum p num base wd pc s = Some r \<Longrightarrow> p = pu \<longrightarrow> printnum pu' num base wd pc (h s) = Some (h r)"
    for p num base wd pc s r
  proof (erule printnum.raw_induct [where P = "\<lambda>p num base wd pc s r. p = pu \<longrightarrow> printnum pu' num base wd pc (h s) = Some (h r)", rotated], goal_cases)
    case (1 rec p num base wd pc s r)
    show ?case
    proof
      assume p: "p = pu"
      from 1(2) show "printnum pu' num base wd pc (h s) = Some (h r)"
        by (subst printnum.simps) (auto simp: Let_def case_prod_beta bind_eq_Some_conv p sink_homD [OF H] funpow_hom [OF H]
            split: if_splits dest: 1(1))
    qed
  qed
  have up: "printnum p num base wd pc t = Some r \<Longrightarrow> \<forall>s. p = pu' \<and> t = h s \<longrightarrow> (\<exists>r'. printnum pu num base wd pc s = Some r')"
    for p num base wd pc t r
  proof (erule printnum.raw_induct [where P = "\<lambda>p num base wd pc t r. \<forall>s. p = pu' \<and> t = h s \<longrightarrow> (\<exists>r'. printnum pu num base wd pc s = Some r')", rotated], goal_cases)
    case (1 rec p num base wd pc t r)
    show ?case
    proof (intro allI impI)
      fix s assume p: "p = pu' \<and> t = h s"
      from 1(2) p show "\<exists>r'. printnum pu num base wd pc s = Some r'"
        by (subst printnum.simps) (fastforce simp: Let_def case_prod_beta bind_eq_Some_conv split: if_splits dest: 1(1))
    qed
  qed
  show ?thesis
  proof (cases "printnum pu num base wd pc s")
    case None
    then show ?thesis using up [of pu' num base wd pc "h s"] by (cases "printnum pu' num base wd pc (h s)") auto
  next
    case (Some r)
    then show ?thesis using down by simp
  qed
qed

lemma fmt_str_hom:
  assumes H: "sink_hom h pu pu'" and R: "\<And>s. rd' (h s) = rd s"
  shows "fmt_str rd' pu' p alt prec wd (h s) = map_option (\<lambda>(w, s). (w, h s)) (fmt_str rd pu p alt prec wd s)"
proof -
  let ?f = "\<lambda>(w, s). (w, h s)"
  have down: "fmt_str rd0 q p alt prec wd s = Some r \<Longrightarrow> rd0 = rd \<and> q = pu \<longrightarrow> fmt_str rd' pu' p alt prec wd (h s) = Some (?f r)"
    for rd0 q p alt prec wd s r
  proof (erule fmt_str.raw_induct [where P = "\<lambda>rd0 q p alt prec wd s r. rd0 = rd \<and> q = pu \<longrightarrow> fmt_str rd' pu' p alt prec wd (h s) = Some (?f r)", rotated], goal_cases)
    case (1 rec rd0 q p alt prec wd s r)
    show ?case
    proof
      assume p: "rd0 = rd \<and> q = pu"
      from 1(2) show "fmt_str rd' pu' p alt prec wd (h s) = Some (?f r)"
        by (subst fmt_str.simps) (auto simp: Let_def p R sink_homD [OF H] split: if_splits dest!: 1(1))
    qed
  qed
  have up: "fmt_str rd0 q p alt prec wd t = Some r \<Longrightarrow> \<forall>s. rd0 = rd' \<and> q = pu' \<and> t = h s \<longrightarrow> (\<exists>r'. fmt_str rd pu p alt prec wd s = Some r')"
    for rd0 q p alt prec wd t r
  proof (erule fmt_str.raw_induct [where P = "\<lambda>rd0 q p alt prec wd t r. \<forall>s. rd0 = rd' \<and> q = pu' \<and> t = h s \<longrightarrow> (\<exists>r'. fmt_str rd pu p alt prec wd s = Some r')", rotated], goal_cases)
    case (1 rec rd0 q p alt prec wd t r)
    show ?case
    proof (intro allI impI)
      fix s assume p: "rd0 = rd' \<and> q = pu' \<and> t = h s"
      from 1(2) p show "\<exists>r'. fmt_str rd pu p alt prec wd s = Some r'"
        by (subst fmt_str.simps) (fastforce simp: Let_def R sink_homD [OF H, symmetric] split: if_splits dest!: 1(1))
    qed
  qed
  show ?thesis
  proof (cases "fmt_str rd pu p alt prec wd s")
    case None
    then show ?thesis using up [of rd' pu' p alt prec wd "h s"] by (cases "fmt_str rd' pu' p alt prec wd (h s)") auto
  next
    case (Some r)
    then show ?thesis using down by (auto split: prod.splits)
  qed
qed

lemma fmt_number_hom:
  assumes H: "sink_hom h pu pu'"
  shows "fmt_number pu' ch ap sp (h s) = map_option (\<lambda>(ap, s). (ap, h s)) (fmt_number pu ch ap sp s)"
  unfolding fmt_number_def
  by (auto simp: sink_homD [OF H, symmetric] printnum_hom [OF H] map_option_case split: option.splits bind_split prod.splits)

lemma fmt_conv_s_hom:
  assumes H: "sink_hom h pu pu'" and R: "\<And>s. rd' (h s) = rd s"
  shows "fmt_conv_s rd' pu' p sp (h s) = map_option h (fmt_conv_s rd pu p sp s)"
proof -
  let ?p = "if p = CMem 0 then CLit (chars ''(null)'') 0 else p"
  let ?n = "fmt_strnlen (rd s) ?p (of_int (precision sp)) 0"
  have pre: "fmt_conv_s r q p sp x =
      do { (wd, st) \<leftarrow> (if width sp > 0 \<and> padc sp \<noteq> 45
             then do { n \<leftarrow> fmt_strnlen (r x) ?p (of_int (precision sp)) 0;
                  let wd = width sp - int (unat n);
                  Some (if wd > 0 then 0 else wd, (q (scast (padc sp)) ^^ nat wd) x) }
             else Some (width sp, x));
           (wd, st) \<leftarrow> fmt_str r q ?p (altflag sp) (precision sp) wd st;
           Some ((q 32 ^^ nat wd) st) }" for r :: "'x \<Rightarrow> mem" and q x
    by (simp add: fmt_conv_s_def Let_def)
  have rest: "do { (wd, st) \<leftarrow> fmt_str rd' pu' ?p (altflag sp) (precision sp) wd (h x); Some ((pu' 32 ^^ nat wd) st) } =
      map_option h (do { (wd, st) \<leftarrow> fmt_str rd pu ?p (altflag sp) (precision sp) wd x; Some ((pu 32 ^^ nat wd) st) })" for wd x
    unfolding fmt_str_hom [of h pu pu' rd' rd, OF H R]
    by (cases "fmt_str rd pu ?p (altflag sp) (precision sp) wd x") (auto simp: funpow_hom [OF H])
  show ?thesis
  proof (cases "width sp > 0 \<and> padc sp \<noteq> 45")
    case False
    have "fmt_conv_s rd' pu' p sp (h s) = do { (wd, st) \<leftarrow> fmt_str rd' pu' ?p (altflag sp) (precision sp) (width sp) (h s); Some ((pu' 32 ^^ nat wd) st) }"
      "fmt_conv_s rd pu p sp s = do { (wd, st) \<leftarrow> fmt_str rd pu ?p (altflag sp) (precision sp) (width sp) s; Some ((pu 32 ^^ nat wd) st) }"
      unfolding pre if_not_P [OF False] by simp_all
    then show ?thesis using rest by simp
  next
    case True
    show ?thesis
    proof (cases ?n)
      case None
      then show ?thesis unfolding pre R using True by simp
    next
      case (Some n)
      let ?wd = "width sp - int (unat n)"
      let ?k = "nat ?wd" and ?w = "if ?wd > 0 then 0 else ?wd" and ?c = "scast (padc sp)"
      have "fmt_conv_s rd' pu' p sp (h s) = do { (wd, st) \<leftarrow> fmt_str rd' pu' ?p (altflag sp) (precision sp) ?w ((pu' ?c ^^ ?k) (h s)); Some ((pu' 32 ^^ nat wd) st) }"
        "fmt_conv_s rd pu p sp s = do { (wd, st) \<leftarrow> fmt_str rd pu ?p (altflag sp) (precision sp) ?w ((pu ?c ^^ ?k) s); Some ((pu 32 ^^ nat wd) st) }"
        unfolding pre R using True Some by (simp_all add: Let_def)
      then show ?thesis unfolding funpow_hom [OF H, symmetric] using rest by simp
    qed
  qed
qed

lemma fmt_directive_hom:
  assumes H: "sink_hom h pu pu'" and R: "\<And>s. rd' (h s) = rd s"
  shows "fmt_directive rd' pu' fmt (h s) ap =
    map_option (\<lambda>(call, fmt, s, ap). (call, fmt, h s, ap)) (fmt_directive rd pu fmt s ap)"
proof (cases "vfmt_switch (rd s) fmt ap fmtspec0")
  case None
  then show ?thesis by (simp add: fmt_directive_def R)
next
  case (Some r)
  obtain ch fmt2 ap2 sp where r: "r = (ch, fmt2, ap2, sp)" by (cases r)
  note S = Some [unfolded r]
  note H' = sink_homD [OF H, symmetric]
  show ?thesis
  proof (cases "ch = 99 \<or> ch = 101 \<or> ch = 37")
    case True
    then consider "ch = 99" | "ch = 101" | "ch = 37" by blast
    then show ?thesis
    proof cases
      case 1
      then show ?thesis by (cases "va_word ap2") (auto simp: fmt_directive_def R S H')
    next
      case 2
      then show ?thesis
        by (cases "va_word ap2", simp add: fmt_directive_def R S, cases "fmt_error (fst (the (va_word ap2)))")
          (auto simp: fmt_directive_def R S)
    next
      case 3
      then show ?thesis by (simp add: fmt_directive_def R S H')
    qed
  next
    case nc: False
    show ?thesis
    proof (cases "ch = 115")
      case True
      show ?thesis
      proof (cases "va_string ap2")
        case None
        then show ?thesis using True by (simp add: fmt_directive_def R S)
      next
        case (Some q)
        then show ?thesis using True
          by (cases q, cases "fmt_conv_s rd pu (fst q) sp s")
            (simp_all add: fmt_directive_def R S fmt_conv_s_hom [of h pu pu' rd' rd, OF H R])
      qed
    next
      case ns: False
      show ?thesis
      proof (cases "ch = 100 \<or> ch = 117 \<or> ch = 111 \<or> ch = 112 \<or> ch = 120")
        case True
        have "fmt_directive rd pu fmt s ap = do { (ap, st) \<leftarrow> fmt_number pu ch ap2 sp s; Some (None, fmt2, st, ap) }"
          "fmt_directive rd' pu' fmt (h s) ap = do { (ap, st) \<leftarrow> fmt_number pu' ch ap2 sp (h s); Some (None, fmt2, st, ap) }"
          using True nc ns by (simp_all add: fmt_directive_def R S del: disj_not1)
        then show ?thesis
          by (cases "fmt_number pu ch ap2 sp s") (auto simp: fmt_number_hom [OF H])
      next
        case no: False
        have "fmt_directive rd pu fmt s ap = map_option (\<lambda>fmt. (None, fmt, pu 37 s, ap2)) (fmt_back (rd (pu 37 s)) (cplus fmt2 (- 1)))"
          "fmt_directive rd' pu' fmt (h s) ap = map_option (\<lambda>fmt. (None, fmt, pu' 37 (h s), ap2)) (fmt_back (rd' (pu' 37 (h s))) (cplus fmt2 (- 1)))"
          using no nc ns by (simp_all add: fmt_directive_def R S map_option_case split: bind_split option.split)
        then show ?thesis unfolding H' R by (simp add: option.map_comp o_def)
      qed
    qed
  qed
qed

lemma vprintfmt_hom:
  assumes H: "sink_hom h pu pu'" and R: "\<And>s. rd' (h s) = rd s"
  shows "vprintfmt rd' pu' fmt (h s) ap = map_option h (vprintfmt rd pu fmt s ap)"
proof -
  note D = fmt_directive_hom [of h pu pu' rd' rd, OF H R]
  have down: "vprintfmt rd0 p fmt s ap = Some r \<Longrightarrow> rd0 = rd \<and> p = pu \<longrightarrow> vprintfmt rd' pu' fmt (h s) ap = Some (h r)"
    for rd0 p fmt s ap r
  proof (erule vprintfmt.raw_induct [where P = "\<lambda>rd0 p fmt s ap r. rd0 = rd \<and> p = pu \<longrightarrow> vprintfmt rd' pu' fmt (h s) ap = Some (h r)", rotated], goal_cases)
    case (1 rec rd0 p fmt s ap r)
    show ?case
    proof
      assume p: "rd0 = rd \<and> p = pu"
      have IH: "vprintfmt rd' pu' fmt (h s) ap = Some (h r)" if "rec rd pu fmt s ap = Some r" for fmt s ap r
        using 1(1) [OF that] by blast
      let ?ch = "cread (rd s) fmt"
      show "vprintfmt rd' pu' fmt (h s) ap = Some (h r)"
      proof (cases "?ch = 37")
        case False
        then show ?thesis using 1(2) p
          by (subst vprintfmt.simps) (auto simp: Let_def R sink_homD [OF H, symmetric] split: if_splits dest!: IH)
      next
        case True
        with 1(2) p obtain call fmt2 s2 s3 ap2 where
            d: "fmt_directive rd pu (cplus fmt 1) s ap = Some (call, fmt2, s2, ap2)"
            "(case call of None \<Rightarrow> Some s2 | Some (f, args) \<Rightarrow> rec rd pu (CLit f 0) s2 args) = Some s3"
            "rec rd pu fmt2 s3 ap2 = Some r"
          by (force simp: Let_def bind_eq_Some_conv)
        have d2: "(case call of None \<Rightarrow> Some (h s2) | Some (f, args) \<Rightarrow> vprintfmt rd' pu' (CLit f 0) (h s2) args) = Some (h s3)"
          using d(2) IH p by (auto split: option.splits)
        have d3: "vprintfmt rd' pu' fmt2 (h s3) ap2 = Some (h r)" using IH d(3) p by blast
        show ?thesis using True d(1) d2 d3
          by (subst vprintfmt.simps) (simp add: Let_def R D)
      qed
    qed
  qed
  have up: "vprintfmt rd0 p fmt t ap = Some r \<Longrightarrow> \<forall>s. rd0 = rd' \<and> p = pu' \<and> t = h s \<longrightarrow> (\<exists>r'. vprintfmt rd pu fmt s ap = Some r' \<and> h r' = r)"
    for rd0 p fmt t ap r
  proof (erule vprintfmt.raw_induct [where P = "\<lambda>rd0 p fmt t ap r. \<forall>s. rd0 = rd' \<and> p = pu' \<and> t = h s \<longrightarrow> (\<exists>r'. vprintfmt rd pu fmt s ap = Some r' \<and> h r' = r)", rotated], goal_cases)
    case (1 rec rd0 p fmt t ap r)
    show ?case
    proof (intro allI impI)
      fix s assume p: "rd0 = rd' \<and> p = pu' \<and> t = h s"
      have IH: "\<exists>r'. vprintfmt rd pu fmt s ap = Some r' \<and> h r' = r" if "rec rd' pu' fmt (h s) ap = Some r" for fmt s ap r
        using 1(1) [OF that] by blast
      let ?ch = "cread (rd s) fmt"
      show "\<exists>r'. vprintfmt rd pu fmt s ap = Some r' \<and> h r' = r"
      proof (cases "?ch = 37")
        case False
        then have "?ch = 0 \<and> r = h s \<or> ?ch \<noteq> 0 \<and> rec rd' pu' (cplus fmt 1) (h (pu (ucast ?ch) s)) ap = Some r"
          using 1(2) p by (auto simp: Let_def R sink_homD [OF H] split: if_splits)
        then show ?thesis
        proof (elim disjE conjE)
          assume "?ch = 0" "r = h s"
          then show ?thesis by (subst vprintfmt.simps) simp
        next
          assume z: "?ch \<noteq> 0" and c: "rec rd' pu' (cplus fmt 1) (h (pu (ucast ?ch) s)) ap = Some r"
          show ?thesis using IH [OF c] z False by (subst vprintfmt.simps) (simp add: Let_def)
        qed
      next
        case True
        with 1(2) p obtain call fmt2 t2 t3 ap2 where
            d: "fmt_directive rd' pu' (cplus fmt 1) (h s) ap = Some (call, fmt2, t2, ap2)"
            "(case call of None \<Rightarrow> Some t2 | Some (f, args) \<Rightarrow> rec rd' pu' (CLit f 0) t2 args) = Some t3"
            "rec rd' pu' fmt2 t3 ap2 = Some r"
          by (force simp: Let_def bind_eq_Some_conv R)
        obtain s2 where s2: "fmt_directive rd pu (cplus fmt 1) s ap = Some (call, fmt2, s2, ap2)" "t2 = h s2"
          using d(1) unfolding D by auto
        obtain s3 where s3: "(case call of None \<Rightarrow> Some s2 | Some (f, args) \<Rightarrow> vprintfmt rd pu (CLit f 0) s2 args) = Some s3" "t3 = h s3"
        proof (cases call)
          case None
          then show ?thesis using d(2) that s2(2) by simp
        next
          case (Some c)
          then have "rec rd' pu' (CLit (fst c) 0) (h s2) (snd c) = Some t3" using d(2) s2(2) by (simp add: case_prod_beta)
          from IH [OF this] obtain s3 where "vprintfmt rd pu (CLit (fst c) 0) s2 (snd c) = Some s3" "h s3 = t3" by blast
          then show ?thesis using Some that by (simp add: case_prod_beta)
        qed
        obtain s4 where s4: "vprintfmt rd pu fmt2 s3 ap2 = Some s4" "r = h s4"
          using IH d(3) unfolding s3(2) by blast
        show ?thesis using True s2(1) s3(1) s4
          by (subst vprintfmt.simps) (simp add: Let_def)
      qed
    qed
  qed
  show ?thesis
  proof (cases "vprintfmt rd pu fmt s ap")
    case None
    then show ?thesis using up [of rd' pu' fmt "h s" ap] by (cases "vprintfmt rd' pu' fmt (h s) ap") auto
  next
    case (Some r)
    then show ?thesis using down by simp
  qed
qed

section \<open>What vsnprintf leaves in its buffer\<close>

text \<open>The sink of \<^verbatim>\<open>vsnprintf\<close> with a log of the characters that it is handed.\<close>

definition logged_putch :: "u32 \<Rightarrow> sprintbuf \<times> u32 list \<Rightarrow> sprintbuf \<times> u32 list" where
  "logged_putch c = (\<lambda>(b, t). (sprintputch c b, t @ [c]))"

definition logged_format :: "mem \<Rightarrow> u32 \<Rightarrow> u32 \<Rightarrow> cptr \<Rightarrow> varg list \<Rightarrow> (sprintbuf \<times> u32 list) option" where
  "logged_format m str sz fmt ap = vprintfmt (sb_mem \<circ> fst) logged_putch fmt
     (\<lparr>sb_buf = str, sb_ebuf = str + sz - 1, sb_cnt = 0, sb_mem = m\<rparr>, []) ap"

definition sprint_inv :: "mem \<Rightarrow> u32 \<Rightarrow> nat \<Rightarrow> sprintbuf \<times> u32 list \<Rightarrow> bool" where
  "sprint_inv m str n = (\<lambda>(b, t). sb_ebuf b = str + of_nat n \<and>
     sb_buf b = str + of_nat (min (length t) n) \<and> sb_cnt b = of_nat (length t) \<and>
     sb_mem b = (\<lambda>a. if unat (a - str) < min (length t) n then ucast (t ! unat (a - str)) else m a))"

lemma sprint_inv_putch:
  assumes n: "unat str + n < 2 ^ 32" and inv: "sprint_inv m str n s"
  shows "sprint_inv m str n (logged_putch c s)"
proof -
  obtain b t where s: "s = (b, t)" by (cases s)
  let ?k = "min (length t) n"
  have b: "sb_ebuf b = str + of_nat n" "sb_buf b = str + of_nat ?k" "sb_cnt b = of_nat (length t)"
      "sb_mem b = (\<lambda>a. if unat (a - str) < ?k then ucast (t ! unat (a - str)) else m a)"
    using inv unfolding s sprint_inv_def by simp_all
  have u: "unat (str + of_nat j) = unat str + j" if "j \<le> n" for j
    using that n by (simp add: unat_word_ariths unsigned_of_nat take_bit_nat_eq_self)
  have lt: "sb_buf b < sb_ebuf b \<longleftrightarrow> length t < n"
    unfolding b word_less_nat_alt using u [of ?k] u [of n] by auto
  show ?thesis
  proof (cases "length t < n")
    case True
    have off: "unat (a - str) = length t \<longleftrightarrow> a = str + of_nat (length t)" for a
    proof
      assume e: "unat (a - str) = length t"
      moreover have "a - str = of_nat (unat (a - str))" by simp
      ultimately have "a - str = of_nat (length t)" by (simp only:)
      then show "a = str + of_nat (length t)" by (simp add: algebra_simps)
    next
      assume "a = str + of_nat (length t)"
      then show "unat (a - str) = length t" using True n by (simp add: unsigned_of_nat take_bit_nat_eq_self)
    qed
    have ul: "unat (of_nat (length t) :: u32) = length t" using True n by (simp add: unsigned_of_nat take_bit_nat_eq_self)
    have mem: "(\<lambda>a. if unat (a - str) < length t then ucast (t ! unat (a - str)) else m a)(str + of_nat (length t) := ucast c) =
        (\<lambda>a. if unat (a - str) < Suc (length t) then ucast ((t @ [c]) ! unat (a - str)) else m a)"
      by (intro ext) (auto simp: nth_append less_Suc_eq off ul fun_upd_apply simp del: of_nat_unat)
    show ?thesis
      using True lt b mem by (simp add: s logged_putch_def sprint_inv_def sprintputch_def Let_def min_def add_ac)
  next
    case False
    have "unat (a - str) < n \<Longrightarrow> (t @ [c]) ! unat (a - str) = t ! unat (a - str)" for a
      using False by (simp add: nth_append)
    then show ?thesis
      using False lt b by (auto simp: s logged_putch_def sprint_inv_def sprintputch_def Let_def min_def fun_eq_iff)
  qed
qed

lemma vsnprintf_logged:
  assumes "str \<noteq> 0" "\<not> str > str + sz - 1"
  shows "vsnprintf m str sz fmt ap =
    map_option (\<lambda>(b, t). (sint (sb_cnt b), (sb_mem b)(sb_buf b := 0))) (logged_format m str sz fmt ap)"
proof -
  have H: "sink_hom fst logged_putch sprintputch" by (simp add: sink_hom_def logged_putch_def case_prod_beta)
  have "vprintfmt sb_mem sprintputch fmt \<lparr>sb_buf = str, sb_ebuf = str + sz - 1, sb_cnt = 0, sb_mem = m\<rparr> ap =
      map_option fst (logged_format m str sz fmt ap)"
    using vprintfmt_hom [OF H, of sb_mem "sb_mem \<circ> fst" fmt "(\<lparr>sb_buf = str, sb_ebuf = str + sz - 1, sb_cnt = 0, sb_mem = m\<rparr>, [])" ap]
    by (simp add: logged_format_def)
  then show ?thesis using assms
    by (cases "logged_format m str sz fmt ap") (auto simp: vsnprintf_def Let_def)
qed

lemma logged_format_inv:
  assumes size: "0 < sz" "unat str + unat sz \<le> 2 ^ 32"
  shows "logged_format m str sz fmt ap = Some s \<Longrightarrow> sprint_inv m str (unat sz - 1) s" "\<not> str > str + sz - 1"
proof -
  define n where "n = unat sz - 1"
  have sz: "unat sz = Suc n" using size(1) by (simp add: n_def word_less_nat_alt del: of_nat_unat)
  have nlt: "unat str + n < 2 ^ 32" using size(2) sz by linarith
  have "sz = of_nat (Suc n)" unfolding sz [symmetric] by simp
  then have eb: "str + sz - 1 = str + of_nat n" by simp
  have u: "unat (str + of_nat n) = unat str + n"
    using nlt by (simp add: unat_word_ariths unsigned_of_nat take_bit_nat_eq_self)
  show "\<not> str > str + sz - 1" unfolding eb word_less_nat_alt u by simp
  have "sprint_inv m str n (\<lparr>sb_buf = str, sb_ebuf = str + sz - 1, sb_cnt = 0, sb_mem = m\<rparr>, [])"
    by (simp add: sprint_inv_def eb)
  then have "sprint_inv m str n s" if "logged_format m str sz fmt ap = Some s"
    using vprintfmt_inv [where P = "sprint_inv m str n", OF sprint_inv_putch [OF nlt] that [unfolded logged_format_def]] by blast
  then show "logged_format m str sz fmt ap = Some s \<Longrightarrow> sprint_inv m str (unat sz - 1) s" by (simp only: n_def)
qed

lemma vsnprintf_invalid:
  "str = 0 \<or> str + sz - 1 < str \<Longrightarrow> vsnprintf m str sz fmt ap = Some (- E_INVAL, m)"
  by (auto simp: vsnprintf_def Let_def)

section \<open>strtol reads back what printnum prints\<close>

lemma digits_lt: "2 \<le> b \<Longrightarrow> \<forall>d \<in> set (digits b n). d < b"
proof (induction b n rule: digits.induct)
  case (1 b n)
  then show ?case by (subst digits.simps) auto
qed

lemma digits_value: "2 \<le> b \<Longrightarrow> foldl (\<lambda>v d. v * b + d) 0 (digits b n) = n"
proof (induction b n rule: digits.induct)
  case (1 b n)
  then show ?case by (subst digits.simps) auto
qed

lemma strtol_dig_digit_char: "d < 16 \<Longrightarrow> strtol_dig (digit_char d) = Some (int d)"
proof -
  assume "d < 16"
  moreover have "\<forall>d \<in> set [0..<16]. strtol_dig (digit_char d) = Some (int d)" by code_simp
  ultimately show ?thesis by simp
qed

lemma digit_char_not:
  "d < 16 \<Longrightarrow> digit_char d \<notin> {0, 9, 32, 43, 45, 120}"
proof -
  assume "d < 16"
  moreover have "\<forall>d \<in> set [0..<16]. digit_char d \<notin> {0, 9, 32, 43, 45, 120}" by code_simp
  ultimately show ?thesis by simp
qed

lemma strtol_loop_digits:
  assumes b: "b \<le> 16"
  shows "\<forall>d \<in> set ds. d < b \<Longrightarrow> cstr m s (map digit_char ds) \<Longrightarrow>
    strtol_loop m s (int b) (of_nat v) =
      Some (of_nat (foldl (\<lambda>v d. v * b + d) v ds), s + of_nat (length ds))"
proof (induction ds arbitrary: s v)
  case Nil
  then have "strtol_dig (m s) = None" by (simp add: strtol_dig_def)
  then show ?case by (subst strtol_loop.simps) simp
next
  case (Cons d ds)
  then have "strtol_dig (m s) = Some (int d)" using b by (simp add: strtol_dig_digit_char)
  moreover have "strtol_loop m (s + 1) (int b) (of_nat (v * b + d)) =
      Some (of_nat (foldl (\<lambda>v d. v * b + d) (v * b + d) ds), s + 1 + of_nat (length ds))"
    using Cons.prems by (intro Cons.IH) auto
  ultimately show ?case
    using Cons.prems by (subst strtol_loop.simps) (simp add: add.assoc)
qed

lemma strtol_digits:
  assumes b: "0 < b" "b \<le> 16" and ds: "ds \<noteq> []" "\<forall>d \<in> set ds. d < b"
    and m: "cstr m s (map digit_char ds)"
  shows "strtol m s (int b) =
    Some (of_nat (foldl (\<lambda>v d. v * b + d) 0 ds), s + of_nat (length ds))"
proof -
  obtain d es where e: "ds = d # es" using ds(1) by (cases ds) auto
  then have ms: "m s = digit_char d" "d < 16" using m ds b by auto
  have "m (s + 1) \<noteq> 120"
  proof (cases es)
    case Nil
    then show ?thesis using m e by simp
  next
    case (Cons d' fs)
    then have "m (s + 1) = digit_char d'" "d' < 16" using m e ds b by auto
    then show ?thesis using digit_char_not [of d'] by auto
  qed
  moreover have "strtol_space m s = Some s"
    using ms digit_char_not [of d] by (subst strtol_space.simps) auto
  moreover have "m s \<noteq> 43" "m s \<noteq> 45" using ms digit_char_not [of d] by auto
  ultimately show ?thesis
    using b strtol_loop_digits [OF b(2) ds(2) m, of 0] by (simp add: strtol_def)
qed

lemma collect_put_all: "put_all (\<lambda>c st. st @ [ucast c :: u8]) cs st = st @ map ucast cs"
  by (induction cs arbitrary: st) simp_all

lemma printnum_strtol:
  assumes base: "base \<in> {8, 10, 16}" and n: "base = 10 \<longrightarrow> unat num < 2 ^ 32"
    and p: "printnum (\<lambda>c st. st @ [ucast c :: u8]) num base wd pc [] = Some bs" and wd: "wd \<le> 0"
    and m: "cstr m s bs"
  shows "strtol m s (int (unat base)) = Some (ucast num, s + of_nat (length bs))"
proof -
  let ?ds = "digits (unat base) (unat num)"
  have b: "2 \<le> unat base" "unat base \<le> 16" using base by auto
  have "ucast (ucast (digit_char d) :: u32) = digit_char d" for d
    using unsigned_less [of "digit_char d", where ?'a = nat]
    by (simp add: word_unat_eq_iff unat_ucast_mod unat_ucast_up del: of_nat_unat)
  then have "bs = map digit_char ?ds"
    using p wd by (simp add: printnum_eq [OF base n] collect_put_all o_def)
  moreover have "of_nat (unat num) = (ucast num :: u32)"
    by (simp add: word_unat_eq_iff unat_ucast_mod unsigned_of_nat take_bit_eq_mod)
  ultimately show ?thesis
    using strtol_digits [of "unat base" ?ds m s] b m digits_lt [OF b(1)] length_digits_pos
    by (simp add: digits_value [OF b(1)] del: of_nat_unat)
qed

section \<open>Properties\<close>

text \<open>C19. What \<^verbatim>\<open>vsnprintf\<close> does with a buffer of \<open>sz > 0\<close> bytes that does not wrap around, for every format and
  arguments: let \<open>t\<close> be the characters that the formatting hands to \<^verbatim>\<open>sprintputch\<close> (\<open>logged_format\<close>, the same
  formatting with a log; it has no result only if the formatting itself has none). Then the buffer holds the
  first \<open>sz - 1\<close> of them, or all if there are fewer, followed by a NUL; no byte but these is written, and the
  result is the number of all of them, those that were cut off included.\<close>

theorem vsnprintf_bounded:
  assumes "str \<noteq> 0" "0 < sz" "unat str + unat sz \<le> 2 ^ 32"
  shows "vsnprintf m str sz fmt ap = map_option (\<lambda>(_, t). let k = min (length t) (unat sz - 1) in
     (sint (of_nat (length t) :: u32),
      \<lambda>a. if unat (a - str) < k then ucast (t ! unat (a - str)) else if unat (a - str) = k then 0 else m a))
     (logged_format m str sz fmt ap)"
proof (cases "logged_format m str sz fmt ap")
  case None
  then show ?thesis using vsnprintf_logged [OF assms(1) logged_format_inv(2) [OF assms(2,3)]] by simp
next
  case (Some s)
  obtain b t where s: "s = (b, t)" by (cases s)
  let ?n = "unat sz - 1"
  let ?k = "min (length t) ?n"
  have inv: "sb_buf b = str + of_nat ?k" "sb_cnt b = of_nat (length t)"
      "sb_mem b = (\<lambda>a. if unat (a - str) < ?k then ucast (t ! unat (a - str)) else m a)"
    using logged_format_inv(1) [OF assms(2,3) Some] unfolding s sprint_inv_def by simp_all
  have "(0 :: nat) < 2 ^ 32" by simp
  with assms(3) have "?n < 2 ^ 32" by linarith
  then have k: "?k < 2 ^ LENGTH(32)" by simp
  have off: "a = str + of_nat ?k \<longleftrightarrow> unat (a - str) = ?k" for a
  proof
    assume "a = str + of_nat ?k"
    then have "a - str = of_nat ?k" by simp
    then show "unat (a - str) = ?k" using k by (simp only: unat_of_nat_small)
  next
    assume e: "unat (a - str) = ?k"
    have "a - str = of_nat (unat (a - str))" by simp
    then have "a - str = of_nat ?k" unfolding e .
    then show "a = str + of_nat ?k" by (simp add: algebra_simps)
  qed
  have excl: "(if x = k then p else if x < k then q else r) = (if x < k then q else if x = k then p else r)"
    for x k :: nat and p q r :: u8 by simp
  have "(sb_mem b)(sb_buf b := 0) =
      (\<lambda>a. if unat (a - str) < ?k then ucast (t ! unat (a - str)) else if unat (a - str) = ?k then 0 else m a)"
    using excl unfolding inv by (intro ext) (simp only: fun_upd_apply off)
  then show ?thesis
    using vsnprintf_logged [OF assms(1) logged_format_inv(2) [OF assms(2,3)], of m fmt ap] unfolding Some s
    by (simp add: Let_def inv(2) del: One_nat_def)
qed

text \<open>\<open>"n=%d"\<close> with 42 into a buffer of four bytes: \<open>"n=4"\<close>, and the result is 4.\<close>

theorem vsnprintf_bounded_witness:
  "\<exists>m'. vsnprintf (\<lambda>_. 7) 16 4 (CLit [110, 61, 37, 100] 0) [VWord 42] = Some (4, m') \<and>
     m' 16 = 110 \<and> m' 17 = 61 \<and> m' 18 = 52 \<and> m' 19 = 0 \<and> m' 20 = 7"
proof -
  have p: "printnum logged_putch 42 10 (- 1) 32 st = Some (logged_putch 50 (logged_putch 52 st))" for st
    by (simp add: printnum_eq digits.simps digit_char_def put_all_def)
  have "map_option snd (logged_format (\<lambda>_. 7) 16 4 (CLit [110, 61, 37, 100] 0) [VWord 42]) = Some [110, 61, 52, 50]"
    unfolding logged_format_def
    by (simp add: vprintfmt.simps vfmt_switch.simps fmt_directive_def fmt_number_def cread_def cplus_def Let_def getint_def
        va_word_def fmtspec0_def p logged_putch_def case_prod_beta)
  then obtain b where "logged_format (\<lambda>_. 7) 16 4 (CLit [110, 61, 37, 100] 0) [VWord 42] = Some (b, [110, 61, 52, 50])" by auto
  then show ?thesis
    using vsnprintf_bounded [of 16 4 "\<lambda>_. 7" "CLit [110, 61, 37, 100] 0" "[VWord 42]"] by (simp add: Let_def)
qed

text \<open>A NULL buffer or an empty or wrapping one is refused with \<open>-E_INVAL\<close> and nothing is written.\<close>

theorem vsnprintf_refuses:
  assumes "str = 0 \<or> str + sz - 1 < str"
  shows "vsnprintf m str sz fmt ap = Some (- E_INVAL, m)"
  by (rule vsnprintf_invalid [OF assms])

theorem vsnprintf_refuses_witness: "vsnprintf (\<lambda>_. 7) 16 0 (CLit [65] 0) [] = Some (- E_INVAL, \<lambda>_. 7)"
  by (rule vsnprintf_refuses) simp

text \<open>C37. Printing a number without padding and reading it back with \<^verbatim>\<open>strtol\<close> in the same base, 8, 10
  or 16: printing always ends, and reading stops at the end of the digits with the number modulo \<open>2 ^ 32\<close>
  (\<^verbatim>\<open>long\<close> has 32 bits), which is the number itself when it is below \<open>2 ^ 32\<close>. In base 10 only such numbers
  are covered: beyond them \<^verbatim>\<open>do_div\<close> divides the low word alone.\<close>

theorem printnum_strtol_roundtrip:
  assumes "base \<in> {8, 10, 16}" "base = 10 \<longrightarrow> unat num < 2 ^ 32" "wd \<le> 0"
  shows "\<exists>bs. printnum (\<lambda>c st. st @ [ucast c :: u8]) num base wd pc [] = Some bs \<and>
    (\<forall>m s. cstr m s bs \<longrightarrow>
       strtol m s (int (unat base)) = Some (of_nat (unat num mod 2 ^ 32), s + of_nat (length bs))) \<and>
    (unat num < 2 ^ 32 \<longrightarrow> unat (of_nat (unat num mod 2 ^ 32) :: u32) = unat num)"
proof -
  obtain bs where bs: "printnum (\<lambda>c st. st @ [ucast c :: u8]) num base wd pc [] = Some bs"
    by (rule that [OF printnum_eq [OF assms(1,2)]])
  have c: "(ucast num :: u32) = of_nat (unat num mod 2 ^ 32)"
    by (simp add: word_unat_eq_iff unat_ucast_mod unsigned_of_nat take_bit_eq_mod del: of_nat_unat)
  have "unat (of_nat (unat num mod 2 ^ 32) :: u32) = unat num" if "unat num < 2 ^ 32"
    using that by (simp add: unsigned_of_nat take_bit_nat_eq_self del: of_nat_unat)
  then show ?thesis using bs printnum_strtol [OF assms(1,2) bs assms(3)] unfolding c by blast
qed

theorem printnum_strtol_roundtrip_witness: "strtol ((\<lambda>_. 0)(0 := 50, 1 := 97)) 0 16 = Some (42, 2)"
proof -
  have p: "printnum (\<lambda>c st. st @ [ucast c :: u8]) 42 16 0 0 [] = Some [50, 97]"
    by (simp add: printnum_eq digits.simps put_all_def digit_char_def)
  have "cstr ((\<lambda>_. 0)(0 := 50, 1 := 97)) 0 [50, 97]" by simp
  with printnum_strtol_roundtrip [of 16 42 0 0] p show ?thesis by simp
qed

end
