(* ===== verification/Bitmap.thy ===== *)
theory Bitmap
  imports Prelude
begin

text \<open>
  \<^verbatim>\<open>kern/fs/sfs/bitmap.c\<close>: the bitmap of free blocks. A bit that is 1 is free, a bit that is 0
  is in use (\<open>bitmap_create\<close> sets all bits, \<open>bitmap_alloc\<close> clears one). The abstraction is the
  set of free indices; the operations are shown to be those of an allocator that always hands
  out the least free index (locale \<open>index_allocator\<close>).
\<close>

record bitmap =
  nbits :: u32
  nwords :: u32
  bm_map :: "u32 list"

definition WORD_BITS :: u32 where "WORD_BITS = 32"

section \<open>The operations of bitmap.c\<close>

text \<open>The loop of \<open>bitmap_create\<close> that marks the leftover bits: \<open>k\<close> iterations to go.\<close>

fun bitmap_mark_tail :: "u32 \<Rightarrow> nat \<Rightarrow> nat \<Rightarrow> u32" where
  "bitmap_mark_tail w overbits 0 = w"
| "bitmap_mark_tail w overbits (Suc k) = bitmap_mark_tail (w XOR bit_mask overbits) (Suc overbits) k"

text \<open>
  \<open>bitmap_create\<close> calls \<open>kmalloc\<close> twice; \<open>m1\<close> and \<open>m2\<close> say whether each call succeeds.
  The inner \<open>None\<close> is the NULL result, the outer one a failed assertion.
\<close>

definition bitmap_create :: "bool \<Rightarrow> bool \<Rightarrow> u32 \<Rightarrow> bitmap option option" where
  "bitmap_create m1 m2 nb = do {
     kassert (nb \<noteq> 0 \<and> nb + WORD_BITS > nb);
     if \<not> m1 then Some None
     else do {
       let nw = ROUNDUP_DIV nb WORD_BITS;
       if \<not> m2 then Some None
       else do {
         let mp = replicate (unat nw) 0xFFFFFFFF;
         if nb \<noteq> nw * WORD_BITS then do {
           let ix = nw - 1;
           let overbits = nb - ix * WORD_BITS;
           kassert (nb div WORD_BITS = ix);
           kassert (overbits > 0 \<and> overbits < WORD_BITS);
           let mp = mp[unat ix := bitmap_mark_tail (mp ! unat ix) (unat overbits) (32 - unat overbits)];
           Some (Some \<lparr>nbits = nb, nwords = nw, bm_map = mp\<rparr>)
         }
         else Some (Some \<lparr>nbits = nb, nwords = nw, bm_map = mp\<rparr>)
       }
     }
   }"

text \<open>\<open>bitmap_find_offset w o k\<close>: the inner loop of \<open>bitmap_alloc\<close> from offset \<open>o\<close> on.\<close>

fun bitmap_find_offset :: "u32 \<Rightarrow> nat \<Rightarrow> nat \<Rightarrow> nat option" where
  "bitmap_find_offset w off 0 = None"
| "bitmap_find_offset w off (Suc k) =
     (if w AND bit_mask off \<noteq> 0 then Some off else bitmap_find_offset w (Suc off) k)"

text \<open>The outer loop: \<open>k\<close> words from index \<open>ix\<close> on. \<open>Some (0, Some i, b)\<close> stores the index
  \<open>i\<close>; a word that is not zero but has no bit would fail \<open>assert(0)\<close>.\<close>

fun bitmap_alloc_loop :: "bitmap \<Rightarrow> nat \<Rightarrow> nat \<Rightarrow> (int \<times> u32 option \<times> bitmap) option" where
  "bitmap_alloc_loop b ix 0 = Some (- E_NO_MEM, None, b)"
| "bitmap_alloc_loop b ix (Suc k) =
     (if bm_map b ! ix \<noteq> 0 then
        (case bitmap_find_offset (bm_map b ! ix) 0 32 of
           Some off \<Rightarrow>
             Some (0, Some (of_nat ix * WORD_BITS + of_nat off),
               b\<lparr>bm_map := (bm_map b)[ix := bm_map b ! ix XOR bit_mask off]\<rparr>)
         | None \<Rightarrow> None)
      else bitmap_alloc_loop b (Suc ix) k)"

definition bitmap_alloc :: "bitmap \<Rightarrow> (int \<times> u32 option \<times> bitmap) option" where
  "bitmap_alloc b = bitmap_alloc_loop b 0 (unat (nwords b))"

definition bitmap_translate :: "bitmap \<Rightarrow> u32 \<Rightarrow> (nat \<times> u32) option" where
  "bitmap_translate b index = do {
     kassert (index < nbits b);
     let ix = index div WORD_BITS;
     let offset = index mod WORD_BITS;
     Some (unat ix, bit_mask (unat offset)) }"

definition bitmap_test :: "bitmap \<Rightarrow> u32 \<Rightarrow> bool option" where
  "bitmap_test b index = do {
     (ix, mask) \<leftarrow> bitmap_translate b index;
     Some (bm_map b ! ix AND mask \<noteq> 0) }"

definition bitmap_free :: "bitmap \<Rightarrow> u32 \<Rightarrow> bitmap option" where
  "bitmap_free b index = do {
     (ix, mask) \<leftarrow> bitmap_translate b index;
     kassert (bm_map b ! ix AND mask = 0);
     Some (b\<lparr>bm_map := (bm_map b)[ix := bm_map b ! ix OR mask]\<rparr>) }"

definition bitmap_getdata :: "bitmap \<Rightarrow> u32 list \<times> u32" where
  "bitmap_getdata b = (bm_map b, 4 * nwords b)"

section \<open>Invariant and abstraction\<close>

definition bm_bit :: "u32 list \<Rightarrow> nat \<Rightarrow> bool" where
  "bm_bit mp i \<longleftrightarrow> bit (mp ! (i div 32)) (i mod 32)"

definition bitmap_ok :: "bitmap \<Rightarrow> bool" where
  "bitmap_ok b \<longleftrightarrow>
     0 < unat (nbits b) \<and> unat (nwords b) = (unat (nbits b) + 31) div 32 \<and>
     length (bm_map b) = unat (nwords b) \<and> unat (nbits b) + 32 < 2 ^ 32 \<and>
     (\<forall>i < 32 * length (bm_map b). bm_bit (bm_map b) i \<longrightarrow> i < unat (nbits b))"

definition bm_free :: "bitmap \<Rightarrow> nat set" where
  "bm_free b = {i. i < unat (nbits b) \<and> bm_bit (bm_map b) i}"

lemma finite_bm_free [simp]: "finite (bm_free b)"
  by (simp add: bm_free_def)

lemma bm_bit_update:
  "ix < length mp \<Longrightarrow>
   bm_bit (mp[ix := w]) i \<longleftrightarrow> (if i div 32 = ix then bit w (i mod 32) else bm_bit mp i)"
  by (auto simp: bm_bit_def)

lemma bitmap_mark_tail_bit:
  "r + k \<le> 32 \<Longrightarrow>
   bit (bitmap_mark_tail w r k) j \<longleftrightarrow> (if r \<le> j \<and> j < r + k then \<not> bit w j else bit w j)"
  by (induction k arbitrary: w r) (auto simp: bit_xor_mask)

lemma bit_ones_u32: "bit (0xFFFFFFFF :: u32) j \<longleftrightarrow> j < 32"
proof -
  have "(0xFFFFFFFF :: u32) = - 1" by simp
  then show ?thesis by (simp only: bit_minus_1_iff possible_bit_word len32)
qed

lemma bitmap_find_offset_Some:
  "bitmap_find_offset w off k = Some o' \<Longrightarrow>
   off \<le> o' \<and> o' < off + k \<and> bit w o' \<and> (\<forall>j. off \<le> j \<and> j < o' \<longrightarrow> \<not> bit w j)"
proof (induction k arbitrary: off)
  case (Suc k)
  show ?case
  proof (cases "bit w off")
    case True
    with Suc.prems show ?thesis by (auto simp: and_bit_mask_eq_0)
  next
    case False
    with Suc.prems have "bitmap_find_offset w (Suc off) k = Some o'"
      by (simp add: and_bit_mask_eq_0)
    from Suc.IH [OF this] False show ?thesis
      by (auto simp: Suc_le_eq) (metis le_neq_implies_less)
  qed
qed simp

lemma bitmap_find_offset_None:
  "bitmap_find_offset w off k = None \<Longrightarrow> off \<le> j \<Longrightarrow> j < off + k \<Longrightarrow> \<not> bit w j"
proof (induction k arbitrary: off)
  case (Suc k)
  then show ?case
    by (cases "j = off") (auto simp: and_bit_mask_eq_0 split: if_splits)
qed simp

lemma bitmap_alloc_loop_cases:
  assumes "ix + k = length (bm_map b)" "\<forall>j < ix. bm_map b ! j = 0"
  obtains
    (full) "bitmap_alloc_loop b ix k = Some (- E_NO_MEM, None, b)"
      "\<forall>j < length (bm_map b). bm_map b ! j = 0"
  | (found) x off where
      "bitmap_alloc_loop b ix k = Some (0, Some (of_nat x * WORD_BITS + of_nat off),
         b\<lparr>bm_map := (bm_map b)[x := bm_map b ! x XOR bit_mask off]\<rparr>)"
      "x < length (bm_map b)" "off < 32" "bit (bm_map b ! x) off"
      "\<forall>j < x. bm_map b ! j = 0" "\<forall>j < off. \<not> bit (bm_map b ! x) j"
  using assms
proof (induction k arbitrary: ix thesis)
  case 0
  then show ?case by simp
next
  case (Suc k)
  show ?case
  proof (cases "bm_map b ! ix = 0")
    case True
    show ?thesis
    proof (rule Suc.IH [of "Suc ix"])
      show "\<forall>j < Suc ix. bm_map b ! j = 0" using True Suc.prems(4) by (auto simp: less_Suc_eq)
    qed (use True Suc.prems in auto)
  next
    case False
    show ?thesis
    proof (cases "bitmap_find_offset (bm_map b ! ix) 0 32")
      case None
      from False obtain j where "j < 32" "bit (bm_map b ! ix) j" by (auto simp: word_neq_0_bit)
      with bitmap_find_offset_None [OF None, of j] show ?thesis by simp
    next
      case (Some off)
      from bitmap_find_offset_Some [OF Some]
      show ?thesis
        by (intro Suc.prems(2) [of ix off]) (use False Some Suc.prems in auto)
    qed
  qed
qed

lemma bm_bit_zero: "\<forall>j < x. mp ! j = 0 \<Longrightarrow> i div 32 < x \<Longrightarrow> \<not> bm_bit mp i"
  by (simp add: bm_bit_def)

text \<open>\<open>bitmap_alloc\<close> gives the least free index and takes it out of the free set; it reports
  \<open>E_NO_MEM\<close> exactly when nothing is free, and its \<open>assert(0)\<close> is never reached.\<close>

lemma bitmap_alloc_spec:
  assumes ok: "bitmap_ok b"
  shows "if bm_free b = {} then bitmap_alloc b = Some (- E_NO_MEM, None, b)
    else \<exists>i b'. bitmap_alloc b = Some (0, Some i, b') \<and> unat i = Min (bm_free b) \<and>
           bm_free b' = bm_free b - {unat i} \<and> bitmap_ok b' \<and> nbits b' = nbits b"
proof -
  have len: "length (bm_map b) = unat (nwords b)" using ok by (simp add: bitmap_ok_def)
  show ?thesis
  proof (rule bitmap_alloc_loop_cases [of 0 "unat (nwords b)" b])
    assume *: "bitmap_alloc_loop b 0 (unat (nwords b)) = Some (- E_NO_MEM, None, b)"
      "\<forall>j < length (bm_map b). bm_map b ! j = 0"
    have "\<not> bm_bit (bm_map b) i" if "i < unat (nbits b)" for i
      by (rule bm_bit_zero [OF *(2)]) (use that ok in \<open>auto simp: bitmap_ok_def\<close>)
    then have "bm_free b = {}" by (auto simp: bm_free_def)
    with *(1) show ?thesis by (simp add: bitmap_alloc_def)
  next
    fix x off
    let ?i = "32 * x + off" and ?w = "of_nat x * WORD_BITS + of_nat off :: u32"
    let ?b = "b\<lparr>bm_map := (bm_map b)[x := bm_map b ! x XOR bit_mask off]\<rparr>"
    assume *: "bitmap_alloc_loop b 0 (unat (nwords b)) = Some (0, Some ?w, ?b)"
      "x < length (bm_map b)" "off < 32" "bit (bm_map b ! x) off"
      "\<forall>j < x. bm_map b ! j = 0" "\<forall>j < off. \<not> bit (bm_map b ! x) j"
    have dm: "?i div 32 = x" "?i mod 32 = off" using *(3) by simp_all
    then have b_i: "bm_bit (bm_map b) ?i" using *(4) by (simp add: bm_bit_def)
    have "?i < 32 * length (bm_map b)" using *(2,3) by linarith
    with b_i ok have i_lt: "?i < unat (nbits b)" by (auto simp: bitmap_ok_def)
    then have w: "unat ?w = ?i"
      using ok unat_of_nat_small [of "?i", where ?'a = 32]
      by (simp add: WORD_BITS_def bitmap_ok_def mult.commute del: of_nat_unat)
    have iff32: "j = ?i \<longleftrightarrow> j div 32 = x \<and> j mod 32 = off" for j
      using dm mult_div_mod_eq [of 32 j] by metis
    have bit': "bm_bit (bm_map ?b) j \<longleftrightarrow> j \<noteq> ?i \<and> bm_bit (bm_map b) j" for j
    proof -
      have "bm_bit (bm_map ?b) j \<longleftrightarrow> \<not> (j div 32 = x \<and> j mod 32 = off) \<and> bm_bit (bm_map b) j"
        using *(2,3,4) by (auto simp: bm_bit_def nth_list_update bit_xor_mask)
      then show ?thesis unfolding iff32 .
    qed
    have least: "?i \<le> j" if "bm_bit (bm_map b) j" for j
    proof (rule ccontr)
      assume lt: "\<not> ?i \<le> j"
      show False
      proof (cases "j div 32 < x")
        case True
        with bm_bit_zero [OF *(5)] that show False by blast
      next
        case False
        have "32 * (j div 32) + j mod 32 = j" "j mod 32 < 32" by simp_all
        with lt False *(3) have "j div 32 = x" "j mod 32 < off" by linarith+
        with that *(6) show False by (simp add: bm_bit_def)
      qed
    qed
    have free: "?i \<in> bm_free b" using b_i i_lt by (simp add: bm_free_def)
    moreover have "Min (bm_free b) = ?i"
      by (rule Min_eqI) (use free least in \<open>auto simp: bm_free_def\<close>)
    moreover have "bm_free ?b = bm_free b - {?i}" using bit' by (auto simp: bm_free_def)
    moreover have "bitmap_ok ?b" using ok bit' by (auto simp: bitmap_ok_def)
    ultimately show ?thesis using *(1) w by (auto simp: bitmap_alloc_def)
  qed (use len in auto)
qed

lemma bitmap_translate_spec:
  "bitmap_translate b i =
     (if unat i < unat (nbits b) then Some (unat i div 32, bit_mask (unat i mod 32)) else None)"
  by (auto simp: bitmap_translate_def WORD_BITS_def Let_def word_less_nat_alt unat_word_div unat_word_mod
      kassert_def simp del: of_nat_unat)

lemma bitmap_test_spec:
  "bitmap_test b i = (if unat i < unat (nbits b) then Some (unat i \<in> bm_free b) else None)"
  by (simp add: bitmap_test_def bitmap_translate_spec and_bit_mask_eq_0 bm_free_def bm_bit_def)

lemma bitmap_free_spec:
  assumes ok: "bitmap_ok b"
  shows "if unat i < unat (nbits b) \<and> unat i \<notin> bm_free b
    then \<exists>b'. bitmap_free b i = Some b' \<and> bm_free b' = insert (unat i) (bm_free b) \<and>
           bitmap_ok b' \<and> nbits b' = nbits b
    else bitmap_free b i = None"
proof (cases "unat i < unat (nbits b) \<and> unat i \<notin> bm_free b")
  case False
  then show ?thesis
    by (auto simp: bitmap_free_def bitmap_translate_spec and_bit_mask_eq_0 bm_free_def bm_bit_def
        kassert_def simp del: of_nat_unat)
next
  case True
  let ?x = "unat i div 32" and ?off = "unat i mod 32"
  let ?b = "b\<lparr>bm_map := (bm_map b)[?x := bm_map b ! ?x OR bit_mask ?off]\<rparr>"
  have lt: "?x < length (bm_map b)" using True ok by (auto simp: bitmap_ok_def)
  have nb: "\<not> bit (bm_map b ! ?x) ?off" using True by (auto simp: bm_free_def bm_bit_def)
  have iff32: "j = unat i \<longleftrightarrow> j div 32 = ?x \<and> j mod 32 = ?off" for j
    using mult_div_mod_eq [of 32 j] mult_div_mod_eq [of 32 "unat i"] by metis
  have bit': "bm_bit (bm_map ?b) j \<longleftrightarrow> j = unat i \<or> bm_bit (bm_map b) j" for j
  proof -
    have "bm_bit (bm_map ?b) j \<longleftrightarrow> (j div 32 = ?x \<and> j mod 32 = ?off) \<or> bm_bit (bm_map b) j"
      using lt by (auto simp: bm_bit_def nth_list_update bit_or_mask)
    then show ?thesis unfolding iff32 .
  qed
  have "bitmap_free b i = Some ?b"
    using True nb by (simp add: bitmap_free_def bitmap_translate_spec and_bit_mask_eq_0)
  moreover have "bm_free ?b = insert (unat i) (bm_free b)" using True bit' by (auto simp: bm_free_def)
  moreover have "bitmap_ok ?b" using ok True bit' by (auto simp: bitmap_ok_def)
  ultimately show ?thesis using True by auto
qed

lemma round_up_32:
  assumes q: "q = (n + 31) div 32" and n: "n \<noteq> 32 * (q :: nat)"
  shows "q - 1 = n div 32" "0 < n mod 32"
proof -
  define a r where "a = n div 32" and "r = n mod 32"
  have n_eq: "n = 32 * a + r" and r: "r < 32" by (simp_all add: a_def r_def)
  have r0: "0 < r"
  proof (rule ccontr)
    assume "\<not> 0 < r"
    then have "q = a" using q n_eq by simp
    with n n_eq \<open>\<not> 0 < r\<close> show False by simp
  qed
  then have "32 * a + r + 31 = 32 * (a + 1) + (r - 1)" by simp
  then have "q = (32 * (a + 1) + (r - 1)) div 32" using q n_eq by (simp only:)
  also have "\<dots> = a + 1" using r by simp
  finally show "q - 1 = n div 32" by (simp add: a_def)
  show "0 < n mod 32" using r0 by (simp add: r_def)
qed

text \<open>A new bitmap has every index free; \<open>nbits\<close> is refused (an assertion fails) when it is zero or
  when rounding it up to whole words would wrap.\<close>

lemma bitmap_create_spec:
  "if nb = 0 \<or> 2 ^ 32 \<le> unat nb + 32 then bitmap_create m1 m2 nb = None
   else if \<not> (m1 \<and> m2) then bitmap_create m1 m2 nb = Some None
   else \<exists>b. bitmap_create m1 m2 nb = Some (Some b) \<and> bitmap_ok b \<and> nbits b = nb \<and>
          bm_free b = {..< unat nb}"
proof -
  have wrap: "nb + WORD_BITS > nb \<longleftrightarrow> unat nb + 32 < 2 ^ 32"
  proof (cases "unat nb + 32 < 2 ^ 32")
    case True
    then have "unat (nb + WORD_BITS) = unat nb + 32"
      using unat_add_no_wrap [of nb WORD_BITS] by (simp add: WORD_BITS_def)
    with True show ?thesis by (simp add: word_less_nat_alt del: of_nat_unat)
  next
    case False
    have "unat (nb + WORD_BITS) = (unat nb + 32) mod 2 ^ 32"
      by (simp add: WORD_BITS_def unat_word_ariths)
    also have "\<dots> = unat nb + 32 - 2 ^ 32"
      using False unat_lt_u32 [of nb] by (simp add: mod_if)
    finally show ?thesis using False unat_lt_u32 [of nb] by (simp add: word_less_nat_alt del: of_nat_unat)
  qed
  show ?thesis
  proof (cases "nb = 0 \<or> 2 ^ 32 \<le> unat nb + 32")
    case True
    then have "\<not> (nb \<noteq> 0 \<and> nb + WORD_BITS > nb)" using wrap by auto
    with True show ?thesis by (auto simp: bitmap_create_def kassert_def)
  next
    case False
    then have pre: "nb \<noteq> 0 \<and> nb + WORD_BITS > nb" and small: "unat nb + 32 < 2 ^ 32"
      using wrap by auto
    have pos: "0 < unat nb" using pre by (simp add: unat_gt_0)
    define nw where "nw = ROUNDUP_DIV nb WORD_BITS"
    have "unat (nb + 32 - 1) = unat nb + 31"
    proof -
      have e: "nb + 32 - 1 = nb + 31" by simp
      have "unat (nb + 31) = unat nb + unat (31 :: u32)"
        by (rule unat_add_no_wrap) (use small in simp)
      then show ?thesis unfolding e by simp
    qed
    then have unw: "unat nw = (unat nb + 31) div 32"
      by (simp add: nw_def ROUNDUP_DIV_def WORD_BITS_def unat_word_div)
    have um: "unat (nw * WORD_BITS) = 32 * unat nw"
      using small unw by (simp add: WORD_BITS_def unat_word_ariths)
    show ?thesis
    proof (cases "m1 \<and> m2")
      case False
      with pre small show ?thesis by (auto simp: bitmap_create_def Let_def)
    next
      case m: True
      show ?thesis
      proof (cases "nb = nw * WORD_BITS")
        case True
        let ?b = "\<lparr>nbits = nb, nwords = nw, bm_map = replicate (unat nw) 0xFFFFFFFF\<rparr>"
        have "unat nb = 32 * unat nw" using True um by simp
        then have bits: "bm_bit (bm_map ?b) i \<longleftrightarrow> i < unat nb" if "i < 32 * unat nw" for i
          using that bit_ones_u32 [of "i mod 32"] by (simp add: bm_bit_def)
        have le: "unat nb \<le> 32 * unat nw" using unw by linarith
        have "bitmap_ok ?b"
          unfolding bitmap_ok_def using small pos unw bits by (simp del: of_nat_unat)
        moreover have "bm_free ?b = {..< unat nb}"
          unfolding bm_free_def using less_le_trans [OF _ le] bits by (auto simp del: of_nat_unat)
        moreover have "bitmap_create m1 m2 nb = Some (Some ?b)"
        proof -
          have "ROUNDUP_DIV nb WORD_BITS = nw" by (rule nw_def [symmetric])
          moreover have "(nb \<noteq> nw * WORD_BITS) = False" using True by blast
          ultimately show ?thesis
            using m pre by (simp only: bitmap_create_def Let_def kassert_bind simp_thms if_False)
        qed
        ultimately show ?thesis using small m pre by auto
      next
        case ne: False
        define ix where "ix = nw - 1"
        define ov where "ov = nb - ix * WORD_BITS"
        have nw1: "1 \<le> nw" using unw pos by (simp add: word_le_nat_alt)
        have uix: "unat ix = unat nw - 1" using nw1 by (simp add: ix_def unat_sub)
        have ne': "unat nb \<noteq> 32 * unat nw" using ne um by (metis word_unat_eq_iff)
        have ix_div: "unat ix = unat nb div 32" using round_up_32(1) [OF unw ne'] uix by (simp only:)
        have uixw: "unat (ix * WORD_BITS) = 32 * unat ix"
          using small ix_div by (simp add: WORD_BITS_def unat_word_ariths)
        have uov: "unat ov = unat nb mod 32"
          using uixw ix_div by (simp add: ov_def unat_sub word_le_nat_alt minus_mult_div_eq_mod del: of_nat_unat)
        have ov0: "0 < unat nb mod 32" by (rule round_up_32(2) [OF unw ne'])
        have "nb div WORD_BITS = ix"
          using ix_div by (simp add: word_unat_eq_iff unat_word_div WORD_BITS_def del: of_nat_unat)
        moreover have "ov > 0 \<and> ov < WORD_BITS"
          using uov ov0 by (simp add: word_less_nat_alt WORD_BITS_def del: of_nat_unat)
        moreover define mp where
          "mp = (replicate (unat nw) 0xFFFFFFFF)[unat ix := bitmap_mark_tail 0xFFFFFFFF (unat ov) (32 - unat ov)]"
        moreover have "replicate (unat nw) 0xFFFFFFFF ! unat ix = (0xFFFFFFFF :: u32)"
          using uix nw1 by (simp add: word_le_nat_alt del: of_nat_unat)
        ultimately have cr: "bitmap_create m1 m2 nb =
            Some (Some \<lparr>nbits = nb, nwords = nw, bm_map = mp\<rparr>)"
          using m pre ne by (simp add: bitmap_create_def Let_def nw_def [symmetric] ix_def [symmetric] ov_def [symmetric])
        let ?b = "\<lparr>nbits = nb, nwords = nw, bm_map = mp\<rparr>"
        have len: "length mp = unat nw" by (simp add: mp_def)
        have tail: "bit (bitmap_mark_tail 0xFFFFFFFF (unat ov) (32 - unat ov)) j \<longleftrightarrow> j < unat ov"
          if "j < 32" for j
          using that uov bit_ones_u32 [of j] bitmap_mark_tail_bit [of "unat ov" "32 - unat ov" "0xFFFFFFFF" j]
          by (simp del: of_nat_unat)
        have bits: "bm_bit mp i \<longleftrightarrow> i < unat nb" if "i < 32 * unat nw" for i
        proof (cases "i div 32 = unat ix")
          case True
          then have "bm_bit mp i \<longleftrightarrow> i mod 32 < unat ov"
            using that tail by (simp add: mp_def bm_bit_def)
          also have "\<dots> \<longleftrightarrow> i < unat nb"
            using True ix_div uov div_mult_mod_eq [of i 32] div_mult_mod_eq [of "unat nb" 32] by linarith
          finally show ?thesis .
        next
          case False
          then have "bm_bit mp i" using that bit_ones_u32 [of "i mod 32"] by (simp add: mp_def bm_bit_def)
          moreover have "i div 32 < unat ix" using False that uix by linarith
          then have "i < unat nb" using ix_div by linarith
          ultimately show ?thesis by simp
        qed
        have le: "unat nb \<le> 32 * unat nw" using unw by linarith
        have "bitmap_ok ?b" using small pos unw len bits by (auto simp: bitmap_ok_def)
        moreover have "bm_free ?b = {..< unat nb}" using bits le by (auto simp: bm_free_def)
        ultimately show ?thesis using cr pre small m by auto
      qed
    qed
  qed
qed

text \<open>\<open>bitmap_destroy\<close> gives both allocations back: the word array, then the record.\<close>

datatype bm_alloc = BmMap | BmRecord

definition bitmap_destroy :: "bitmap \<Rightarrow> bm_alloc list" where
  "bitmap_destroy b = [BmMap, BmRecord]"

section \<open>The allocator interface\<close>

text \<open>
  What the file system asks of its free map: \<open>alloc\<close> takes the least free index or fails when there
  is none, \<open>release\<close> gives an index back and stops the kernel on an index that is not in use.
\<close>

locale index_allocator =
  fixes ok :: "'s \<Rightarrow> bool"
    and cap :: "'s \<Rightarrow> nat"
    and free :: "'s \<Rightarrow> nat set"
    and alloc :: "'s \<Rightarrow> (nat \<times> 's) option"
    and release :: "'s \<Rightarrow> nat \<Rightarrow> 's option"
  assumes free_bound: "ok s \<Longrightarrow> free s \<subseteq> {..< cap s}"
    and alloc_none: "ok s \<Longrightarrow> alloc s = None \<longleftrightarrow> free s = {}"
    and alloc_some: "ok s \<Longrightarrow> alloc s = Some (i, s') \<Longrightarrow>
      i = Min (free s) \<and> free s' = free s - {i} \<and> ok s' \<and> cap s' = cap s"
    and release_some: "ok s \<Longrightarrow> i < cap s \<Longrightarrow> i \<notin> free s \<Longrightarrow>
      \<exists>s'. release s i = Some s' \<and> free s' = insert i (free s) \<and> ok s' \<and> cap s' = cap s"
begin

lemma free_finite: "ok s \<Longrightarrow> finite (free s)"
  using free_bound finite_subset by blast

text \<open>\<open>allocs n s\<close>: \<open>n\<close> allocations in a row.\<close>

primrec allocs :: "nat \<Rightarrow> 's \<Rightarrow> (nat list \<times> 's) option" where
  "allocs 0 s = Some ([], s)"
| "allocs (Suc n) s = (case alloc s of None \<Rightarrow> None | Some (i, s') \<Rightarrow>
     (case allocs n s' of None \<Rightarrow> None | Some (is, s'') \<Rightarrow> Some (i # is, s'')))"

lemma alloc_in_free: "ok s \<Longrightarrow> alloc s = Some (i, s') \<Longrightarrow> i \<in> free s"
  using alloc_some alloc_none free_finite Min_in by (metis option.distinct(1))

lemma allocs_ok:
  "ok s \<Longrightarrow> allocs n s = Some (is, s') \<Longrightarrow>
   ok s' \<and> distinct is \<and> set is \<subseteq> free s \<and> free s' = free s - set is \<and> cap s' = cap s \<and> length is = n"
proof (induction n arbitrary: s "is")
  case 0
  then show ?case by simp
next
  case (Suc n)
  from Suc.prems(2) obtain i t js where a: "alloc s = Some (i, t)" "allocs n t = Some (js, s')" "is = i # js"
    by (auto split: option.splits)
  from alloc_some [OF Suc.prems(1) a(1)] have t: "ok t" "free t = free s - {i}" "cap t = cap s" by auto
  from Suc.IH [OF t(1) a(2)] t a(3) alloc_in_free [OF Suc.prems(1) a(1)] show ?case by auto
qed

lemma allocs_complete:
  "ok s \<Longrightarrow> n \<le> card (free s) \<Longrightarrow> \<exists>is s'. allocs n s = Some (is, s')"
proof (induction n arbitrary: s)
  case 0
  then show ?case by simp
next
  case (Suc n)
  then have "free s \<noteq> {}" by auto
  with alloc_none [OF Suc.prems(1)] obtain i t where a: "alloc s = Some (i, t)" by fastforce
  from alloc_some [OF Suc.prems(1) a] alloc_in_free [OF Suc.prems(1) a]
  have t: "ok t" "free t = free s - {i}" "i \<in> free s" by auto
  then have "n \<le> card (free t)"
    using Suc.prems(2) free_finite [OF Suc.prems(1)] by (simp add: card_Diff_singleton)
  from Suc.IH [OF t(1) this] a show ?case by force
qed

lemma allocs_exactly:
  "ok s \<Longrightarrow> (\<exists>is s'. allocs n s = Some (is, s')) \<longleftrightarrow> n \<le> card (free s)"
  using allocs_complete allocs_ok free_finite by (metis card_mono distinct_card)

lemma release_alloc_least:
  "ok s \<Longrightarrow> i < cap s \<Longrightarrow> i \<notin> free s \<Longrightarrow> (\<forall>j \<in> free s. i < j) \<Longrightarrow> release s i = Some s' \<Longrightarrow>
   \<exists>s''. alloc s' = Some (i, s'')"
proof -
  assume a: "ok s" "i < cap s" "i \<notin> free s" "\<forall>j \<in> free s. i < j" "release s i = Some s'"
  from release_some [OF a(1-3)] a(5) have s': "free s' = insert i (free s)" "ok s'" by auto
  with alloc_none obtain j s'' where al: "alloc s' = Some (j, s'')" by fastforce
  from alloc_some [OF s'(2) al] s'(1) have "j = Min (insert i (free s))" by simp
  also have "\<dots> = i" using a(4) free_finite [OF a(1)] by (intro Min_eqI) auto
  finally show ?thesis using al by blast
qed

end

text \<open>The operations of the file, read as functions on indices.\<close>

definition bm_alloc_index :: "bitmap \<Rightarrow> (nat \<times> bitmap) option" where
  "bm_alloc_index b = (case bitmap_alloc b of Some (e, Some i, b') \<Rightarrow> Some (unat i, b') | _ \<Rightarrow> None)"

definition bm_release_index :: "bitmap \<Rightarrow> nat \<Rightarrow> bitmap option" where
  "bm_release_index b i = bitmap_free b (of_nat i)"

lemma bm_alloc_index_empty: "bitmap_ok b \<Longrightarrow> bm_free b = {} \<Longrightarrow> bm_alloc_index b = None"
  using bitmap_alloc_spec [of b] by (simp add: bm_alloc_index_def)

lemma bm_alloc_index_some:
  assumes "bitmap_ok b" "bm_free b \<noteq> {}"
  obtains b' where "bm_alloc_index b = Some (Min (bm_free b), b')" "bm_free b' = bm_free b - {Min (bm_free b)}"
    "bitmap_ok b'" "nbits b' = nbits b"
proof -
  obtain i b' where "bitmap_alloc b = Some (0, Some i, b')" "unat i = Min (bm_free b)"
      "bm_free b' = bm_free b - {unat i}" "bitmap_ok b'" "nbits b' = nbits b"
    using bitmap_alloc_spec [OF assms(1)] assms(2) by (auto simp del: of_nat_unat)
  then show thesis using that [of b'] by (simp add: bm_alloc_index_def)
qed

lemma bm_release_index_spec:
  assumes "bitmap_ok b" "i < unat (nbits b)" "i \<notin> bm_free b"
  shows "\<exists>b'. bm_release_index b i = Some b' \<and> bm_free b' = insert i (bm_free b) \<and> bitmap_ok b' \<and>
    nbits b' = nbits b"
proof -
  have u: "unat (of_nat i :: u32) = i"
    using assms(2) unat_lt_u32 [of "nbits b"] by (intro unat_of_nat_small) simp
  show ?thesis
    using bitmap_free_spec [OF assms(1), of "of_nat i", unfolded u] assms(2,3)
    by (simp only: bm_release_index_def simp_thms if_True)
qed

interpretation bm: index_allocator bitmap_ok "\<lambda>b. unat (nbits b)" bm_free bm_alloc_index bm_release_index
proof
  fix b i b'
  assume ok: "bitmap_ok b"
  show "bm_free b \<subseteq> {..< unat (nbits b)}" unfolding bm_free_def by blast
  show "bm_alloc_index b = None \<longleftrightarrow> bm_free b = {}"
    using bm_alloc_index_empty [OF ok] bm_alloc_index_some [OF ok] by (metis option.distinct(1))
  show "i = Min (bm_free b) \<and> bm_free b' = bm_free b - {i} \<and> bitmap_ok b' \<and> unat (nbits b') = unat (nbits b)"
    if al: "bm_alloc_index b = Some (i, b')"
  proof (cases "bm_free b = {}")
    case True
    with al bm_alloc_index_empty [OF ok] show ?thesis by simp
  next
    case False
    with al show ?thesis by (elim bm_alloc_index_some [OF ok]) simp
  qed
next
  fix b i
  assume "bitmap_ok b" "i < unat (nbits b)" "i \<notin> bm_free b"
  from bm_release_index_spec [OF this]
  show "\<exists>b'. bm_release_index b i = Some b' \<and> bm_free b' = insert i (bm_free b) \<and> bitmap_ok b' \<and>
     unat (nbits b') = unat (nbits b)"
    by metis
qed

section \<open>Properties\<close>

text \<open>\<open>n\<close> allocations in a row, and the indices they give.\<close>

primrec bitmap_allocs :: "nat \<Rightarrow> bitmap \<Rightarrow> (nat list \<times> bitmap) option" where
  "bitmap_allocs 0 b = Some ([], b)"
| "bitmap_allocs (Suc n) b = (case bitmap_alloc b of
     Some (e, Some i, b') \<Rightarrow> (case bitmap_allocs n b' of None \<Rightarrow> None | Some (is, b'') \<Rightarrow> Some (unat i # is, b''))
   | _ \<Rightarrow> None)"

lemma bitmap_allocs_eq: "bitmap_allocs n b = bm.allocs n b"
  by (induction n arbitrary: b) (auto simp: bm_alloc_index_def split: option.splits)

text \<open>C25. A bitmap with \<open>k\<close> free bits serves exactly \<open>k\<close> allocations: a run of \<open>n\<close> calls of
  \<^verbatim>\<open>bitmap_alloc\<close> succeeds if and only if \<open>n \<le> k\<close>, and the indices it gives are distinct, were free and
  are in use afterwards.\<close>

theorem bitmap_serves_free_bits:
  assumes "bitmap_ok b"
  shows "((\<exists>is b'. bitmap_allocs n b = Some (is, b')) \<longleftrightarrow> n \<le> card (bm_free b)) \<and>
    (\<forall>is b'. bitmap_allocs n b = Some (is, b') \<longrightarrow>
       bitmap_ok b' \<and> distinct is \<and> set is \<subseteq> bm_free b \<and> bm_free b' = bm_free b - set is)"
  unfolding bitmap_allocs_eq using bm.allocs_exactly [OF assms] bm.allocs_ok [OF assms] by blast

definition example_bitmap :: bitmap where
  "example_bitmap = \<lparr>nbits = 2, nwords = 1, bm_map = [3]\<rparr>"

lemma bit_3: "bit (3 :: int) i \<longleftrightarrow> i < 2"
proof -
  have "(3 :: int) = mask 2" by (simp add: mask_eq_exp_minus_1)
  then show ?thesis by (simp only: bit_mask_iff) simp
qed

lemma example_bitmap_ok: "bitmap_ok example_bitmap"
  by (auto simp: bitmap_ok_def example_bitmap_def bm_bit_def bit_3)

lemma example_bitmap_free: "bm_free example_bitmap = {0, 1}"
  by (auto simp: bm_free_def example_bitmap_def bm_bit_def bit_3 less_2_cases_iff)

theorem bitmap_serves_free_bits_witness:
  "(\<exists>is b'. bitmap_allocs 2 example_bitmap = Some (is, b')) \<and> bitmap_allocs 3 example_bitmap = None"
  using bitmap_serves_free_bits [OF example_bitmap_ok, of 2] bitmap_serves_free_bits [OF example_bitmap_ok, of 3]
  by (cases "bitmap_allocs 3 example_bitmap") (auto simp: example_bitmap_free)

text \<open>\<^verbatim>\<open>bitmap_free\<close> gives an index in use back, and the next \<^verbatim>\<open>bitmap_alloc\<close> returns it when it is
  the least free one; freeing an index that is free or out of range stops the kernel.\<close>

theorem bitmap_free_then_alloc:
  assumes ok: "bitmap_ok b"
  shows "if unat i < unat (nbits b) \<and> unat i \<notin> bm_free b
    then \<exists>b'. bitmap_free b i = Some b' \<and> bm_free b' = insert (unat i) (bm_free b) \<and>
      ((\<forall>j \<in> bm_free b. unat i < j) \<longrightarrow> (\<exists>b''. bitmap_alloc b' = Some (0, Some i, b'')))
    else bitmap_free b i = None"
proof (cases "unat i < unat (nbits b) \<and> unat i \<notin> bm_free b")
  case True
  then obtain b' where b': "bitmap_free b i = Some b'" "bm_free b' = insert (unat i) (bm_free b)" "bitmap_ok b'"
    using bitmap_free_spec [OF ok, of i] by (auto simp del: of_nat_unat)
  have "bm_release_index b (unat i) = Some b'" using b'(1) by (simp add: bm_release_index_def)
  then have "\<exists>b''. bm_alloc_index b' = Some (unat i, b'')" if "\<forall>j \<in> bm_free b. unat i < j"
    using bm.release_alloc_least [OF ok _ _ that] True by blast
  moreover have "bitmap_alloc b' = Some (0, Some i, b'')" if a: "bm_alloc_index b' = Some (unat i, b'')" for b''
  proof -
    have "bm_free b' \<noteq> {}" using b'(2) by blast
    then obtain k c where k: "bitmap_alloc b' = Some (0, Some k, c)"
      using bitmap_alloc_spec [OF b'(3)] by (auto simp del: of_nat_unat)
    with a show ?thesis by (simp add: bm_alloc_index_def word_unat_eq_iff del: of_nat_unat)
  qed
  ultimately show ?thesis using True b' by auto
next
  case False
  then show ?thesis using bitmap_free_spec [OF ok, of i] by auto
qed

theorem bitmap_free_then_alloc_witness: "bitmap_free example_bitmap 1 = None"
  using bitmap_free_then_alloc [OF example_bitmap_ok, of 1] by (simp add: example_bitmap_free)

text \<open>\<^verbatim>\<open>bitmap_create\<close> makes a bitmap with every bit of the requested length free and none beyond,
  fails cleanly when memory is short, and stops the kernel on a length of 0 or one that overflows.\<close>

theorem bitmap_create_all_free:
  "if nb = 0 \<or> 2 ^ 32 \<le> unat nb + 32 then bitmap_create m1 m2 nb = None
   else if \<not> (m1 \<and> m2) then bitmap_create m1 m2 nb = Some None
   else \<exists>b. bitmap_create m1 m2 nb = Some (Some b) \<and> bitmap_ok b \<and> nbits b = nb \<and> bm_free b = {..< unat nb}"
  by (rule bitmap_create_spec)

end
