(* ===== verification/Iobuf.thy ===== *)
theory Iobuf
  imports CString
begin

text \<open>
  \<^verbatim>\<open>kern/fs/iobuf.c\<close>: the cursor that every file read and write carries. \<open>iobuf_move\<close> copies as
  much as fits between the buffer and a data area, in either direction, and advances the cursor.
\<close>

record iobuf =
  io_base :: u32
  io_offset :: u32
  io_len :: u32
  io_resid :: u32

definition iobuf_used :: "iobuf \<Rightarrow> u32" where
  "iobuf_used iob = io_len iob - io_resid iob"

definition iobuf_init :: "u32 \<Rightarrow> u32 \<Rightarrow> u32 \<Rightarrow> iobuf" where
  "iobuf_init base len offset = \<lparr>io_base = base, io_offset = offset, io_len = len, io_resid = len\<rparr>"

definition iobuf_skip :: "iobuf \<Rightarrow> u32 \<Rightarrow> iobuf option" where
  "iobuf_skip iob n = do {
     kassert (io_resid iob \<ge> n);
     Some (iob\<lparr>io_base := io_base iob + n, io_offset := io_offset iob + n, io_resid := io_resid iob - n\<rparr>) }"

text \<open>The results are the return value, \<open>*copiedp\<close>, the cursor and the memory.\<close>

definition iobuf_move ::
  "iobuf \<Rightarrow> mem \<Rightarrow> u32 \<Rightarrow> u32 \<Rightarrow> bool \<Rightarrow> (int \<times> u32 \<times> iobuf \<times> mem) option" where
  "iobuf_move iob m data len m2b = do {
     let alen = (if io_resid iob > len then len else io_resid iob);
     (iob, m, len) \<leftarrow>
       (if alen > 0 then do {
          let (src, dst) = (if m2b then (data, io_base iob) else (io_base iob, data));
          let m = memmove m dst src alen;
          iob \<leftarrow> iobuf_skip iob alen;
          Some (iob, m, len - alen) }
        else Some (iob, m, len));
     Some (if len = 0 then 0 else - E_NO_MEM, alen, iob, m) }"

definition iobuf_move_zeros :: "iobuf \<Rightarrow> mem \<Rightarrow> u32 \<Rightarrow> (int \<times> u32 \<times> iobuf \<times> mem) option" where
  "iobuf_move_zeros iob m len = do {
     let alen = (if io_resid iob > len then len else io_resid iob);
     (iob, m, len) \<leftarrow>
       (if alen > 0 then do {
          let m = memset m (io_base iob) 0 alen;
          iob \<leftarrow> iobuf_skip iob alen;
          Some (iob, m, len - alen) }
        else Some (iob, m, len));
     Some (if len = 0 then 0 else - E_NO_MEM, alen, iob, m) }"

section \<open>What a transfer does\<close>

text \<open>The part of a cursor that no transfer changes: where the buffer starts, which file offset
  that is, and how long it is.\<close>

definition iob_origin :: "iobuf \<Rightarrow> u32 \<times> u32 \<times> u32" where
  "iob_origin iob = (io_base iob - iobuf_used iob, io_offset iob - iobuf_used iob, io_len iob)"

definition iob_advance :: "iobuf \<Rightarrow> u32 \<Rightarrow> iobuf" where
  "iob_advance iob n =
     iob\<lparr>io_base := io_base iob + n, io_offset := io_offset iob + n, io_resid := io_resid iob - n\<rparr>"

lemma iobuf_skip_eq: "iobuf_skip iob n = (if n \<le> io_resid iob then Some (iob_advance iob n) else None)"
  by (simp add: iobuf_skip_def iob_advance_def kassert_def)

lemma iob_origin_advance: "iob_origin (iob_advance iob n) = iob_origin iob"
  by (simp add: iob_origin_def iob_advance_def iobuf_used_def)

lemma iob_used_advance: "iobuf_used (iob_advance iob n) = iobuf_used iob + n"
  by (simp add: iob_advance_def iobuf_used_def)

lemma memmove_0 [simp]: "memmove m d s 0 = m" and memset_0 [simp]: "memset m s c 0 = m"
  by (simp_all add: memmove_def memset_def)

lemma iobuf_move_spec:
  "iobuf_move iob m data len m2b =
     (let alen = min (io_resid iob) len;
          (src, dst) = (if m2b then (data, io_base iob) else (io_base iob, data))
      in Some (if len \<le> io_resid iob then 0 else - E_NO_MEM, alen, iob_advance iob alen,
           memmove m dst src alen))"
proof (cases "min (io_resid iob) len = 0")
  case True
  then have "iob_advance iob 0 = iob" "(if io_resid iob > len then len else io_resid iob) = 0"
    by (auto simp: iob_advance_def min_def not_less split: if_splits)
  with True show ?thesis
    by (auto simp: iobuf_move_def Let_def min_def not_less split: if_splits)
next
  case False
  then have "0 < min (io_resid iob) len" by (simp add: word_neq_0_conv)
  moreover have "(if io_resid iob > len then len else io_resid iob) = min (io_resid iob) len"
    by (auto simp: min_def)
  moreover have "len - min (io_resid iob) len = 0 \<longleftrightarrow> len \<le> io_resid iob"
    by (auto simp: min_def)
  ultimately show ?thesis
    by (simp add: iobuf_move_def Let_def iobuf_skip_eq case_prod_beta)
qed

lemma iobuf_move_zeros_spec:
  "iobuf_move_zeros iob m len =
     (let alen = min (io_resid iob) len
      in Some (if len \<le> io_resid iob then 0 else - E_NO_MEM, alen, iob_advance iob alen,
           memset m (io_base iob) 0 alen))"
proof (cases "min (io_resid iob) len = 0")
  case True
  then have "iob_advance iob 0 = iob" "(if io_resid iob > len then len else io_resid iob) = 0"
    by (auto simp: iob_advance_def min_def not_less split: if_splits)
  with True show ?thesis
    by (auto simp: iobuf_move_zeros_def Let_def min_def not_less split: if_splits)
next
  case False
  then have "0 < min (io_resid iob) len" by (simp add: word_neq_0_conv)
  moreover have "(if io_resid iob > len then len else io_resid iob) = min (io_resid iob) len"
    by (auto simp: min_def)
  moreover have "len - min (io_resid iob) len = 0 \<longleftrightarrow> len \<le> io_resid iob"
    by (auto simp: min_def)
  ultimately show ?thesis
    by (simp add: iobuf_move_zeros_def Let_def iobuf_skip_eq)
qed

section \<open>Properties\<close>

text \<open>A transfer moves as many bytes as fit, advances the cursor by exactly that many, keeps the
  origin and length of the buffer, and reports \<open>-E_NO_MEM\<close> exactly when not all bytes fitted.\<close>

theorem iobuf_move_advances:
  "iobuf_move iob m data len m2b =
     (let alen = min (io_resid iob) len;
          (src, dst) = (if m2b then (data, io_base iob) else (io_base iob, data))
      in Some (if len \<le> io_resid iob then 0 else - E_NO_MEM, alen, iob_advance iob alen, memmove m dst src alen)) \<and>
   iob_origin (iob_advance iob (min (io_resid iob) len)) = iob_origin iob"
  using iobuf_move_spec [of iob m data len m2b] iob_origin_advance by blast

end
