(* ===== verification/DefaultPmm.thy ===== *)
theory DefaultPmm
  imports ListH
begin

text \<open>
  \<^verbatim>\<open>kern/mm/default_pmm.c\<close>: the first-fit physical page allocator, over the page descriptors of
  \<^verbatim>\<open>kern/mm/memlayout.h\<close>. A \<open>struct Page *\<close> is an index into the \<open>pages\<close> array; the free list is
  a list of \<^verbatim>\<open>libs/list.h\<close> through \<open>page_link\<close>. The state is abstracted to the list of free blocks
  (first page, number of pages) in address order, and from there to the set of free pages.
\<close>

datatype plink = FreeList | PageLink nat

record page =
  pg_ref :: int
  pg_flags :: u32
  pg_property :: u32

record pmm =
  pm_pages :: "nat \<Rightarrow> page"
  pm_links :: "plink lheap"
  pm_nr_free :: u32

section \<open>Page flags (memlayout.h)\<close>

definition PG_reserved :: nat where "PG_reserved = 0"
definition PG_property :: nat where "PG_property = 1"

definition upd_page :: "nat \<Rightarrow> (page \<Rightarrow> page) \<Rightarrow> pmm \<Rightarrow> pmm" where
  "upd_page p f s = s\<lparr>pm_pages := (pm_pages s)(p := f (pm_pages s p))\<rparr>"

definition SetPageReserved :: "nat \<Rightarrow> pmm \<Rightarrow> pmm" where
  "SetPageReserved p = upd_page p (\<lambda>pg. pg\<lparr>pg_flags := pg_flags pg OR bit_mask PG_reserved\<rparr>)"

definition PageReserved :: "pmm \<Rightarrow> nat \<Rightarrow> bool" where
  "PageReserved s p \<longleftrightarrow> bit (pg_flags (pm_pages s p)) PG_reserved"

definition SetPageProperty :: "nat \<Rightarrow> pmm \<Rightarrow> pmm" where
  "SetPageProperty p = upd_page p (\<lambda>pg. pg\<lparr>pg_flags := pg_flags pg OR bit_mask PG_property\<rparr>)"

definition ClearPageProperty :: "nat \<Rightarrow> pmm \<Rightarrow> pmm" where
  "ClearPageProperty p = upd_page p (\<lambda>pg. pg\<lparr>pg_flags := pg_flags pg AND NOT (bit_mask PG_property)\<rparr>)"

definition PageProperty :: "pmm \<Rightarrow> nat \<Rightarrow> bool" where
  "PageProperty s p \<longleftrightarrow> bit (pg_flags (pm_pages s p)) PG_property"

definition property :: "pmm \<Rightarrow> nat \<Rightarrow> nat" where
  "property s p = unat (pg_property (pm_pages s p))"

definition set_property :: "nat \<Rightarrow> u32 \<Rightarrow> pmm \<Rightarrow> pmm" where
  "set_property p n = upd_page p (\<lambda>pg. pg\<lparr>pg_property := n\<rparr>)"

definition set_page_ref :: "nat \<Rightarrow> int \<Rightarrow> pmm \<Rightarrow> pmm" where
  "set_page_ref p v = upd_page p (\<lambda>pg. pg\<lparr>pg_ref := v\<rparr>)"

section \<open>The operations\<close>

definition default_init :: "pmm \<Rightarrow> pmm" where
  "default_init s = s\<lparr>pm_links := list_init FreeList (pm_links s), pm_nr_free := 0\<rparr>"

text \<open>\<open>default_list_add\<close>: walk from \<open>le\<close> to the place of block \<open>base\<close> and link it in.\<close>

partial_function (option) default_list_add_loop :: "plink \<Rightarrow> nat \<Rightarrow> pmm \<Rightarrow> pmm option" where
  "default_list_add_loop le base s =
     (case list_next le (pm_links s) of
        FreeList \<Rightarrow> Some (s\<lparr>pm_links := list_add_before FreeList (PageLink base) (pm_links s)\<rparr>)
      | PageLink p \<Rightarrow> do {
          kassert (base \<noteq> p);
          if base < p then do {
            kassert (base + property s base \<le> p);
            Some (s\<lparr>pm_links := list_add_before (PageLink p) (PageLink base) (pm_links s)\<rparr>) }
          else do {
            kassert (p + property s p \<le> base);
            default_list_add_loop (PageLink p) base s } })"

definition default_list_add :: "nat \<Rightarrow> pmm \<Rightarrow> pmm option" where
  "default_list_add base s = default_list_add_loop FreeList base s"

fun init_memmap_loop :: "nat \<Rightarrow> nat \<Rightarrow> pmm \<Rightarrow> pmm option" where
  "init_memmap_loop p 0 s = Some s"
| "init_memmap_loop p (Suc k) s = do {
     kassert (PageReserved s p);
     let s = upd_page p (\<lambda>pg. pg\<lparr>pg_flags := 0, pg_property := 0\<rparr>) s;
     let s = set_page_ref p 0 s;
     init_memmap_loop (Suc p) k s }"

definition default_init_memmap :: "nat \<Rightarrow> u32 \<Rightarrow> pmm \<Rightarrow> pmm option" where
  "default_init_memmap base n s = do {
     kassert (n > 0);
     s \<leftarrow> init_memmap_loop base (unat n) s;
     let s = set_property base n s;
     let s = SetPageProperty base s;
     let s = s\<lparr>pm_nr_free := pm_nr_free s + n\<rparr>;
     default_list_add base s }"

text \<open>The search loop of \<open>default_alloc_pages\<close>: the inner \<open>None\<close> is a NULL page.\<close>

partial_function (option) default_alloc_find :: "plink \<Rightarrow> u32 \<Rightarrow> pmm \<Rightarrow> nat option option" where
  "default_alloc_find le n s =
     (case list_next le (pm_links s) of
        FreeList \<Rightarrow> Some None
      | PageLink p \<Rightarrow>
          if pg_property (pm_pages s p) \<ge> n then Some (Some p)
          else default_alloc_find (PageLink p) n s)"

definition default_alloc_pages :: "u32 \<Rightarrow> pmm \<Rightarrow> (nat option \<times> pmm) option" where
  "default_alloc_pages n s = do {
     kassert (n > 0);
     if n > pm_nr_free s then Some (None, s)
     else do {
       found \<leftarrow> default_alloc_find FreeList n s;
       (case found of
          None \<Rightarrow> Some (None, s)
        | Some page \<Rightarrow> do {
            let s = s\<lparr>pm_links := list_del (PageLink page) (pm_links s)\<rparr>;
            let s =
              (if pg_property (pm_pages s page) > n then
                 let p = page + unat n;
                     s = set_property p (pg_property (pm_pages s page) - n) s;
                     s = SetPageProperty p s
                 in s\<lparr>pm_links :=
                        list_add (list_prev (PageLink page) (pm_links s)) (PageLink p) (pm_links s)\<rparr>
               else s);
            let s = s\<lparr>pm_nr_free := pm_nr_free s - n\<rparr>;
            Some (Some page, ClearPageProperty page s) }) } }"

fun free_pages_loop :: "nat \<Rightarrow> nat \<Rightarrow> pmm \<Rightarrow> pmm option" where
  "free_pages_loop p 0 s = Some s"
| "free_pages_loop p (Suc k) s = do {
     kassert (\<not> PageReserved s p \<and> \<not> PageProperty s p);
     let s = upd_page p (\<lambda>pg. pg\<lparr>pg_flags := 0\<rparr>) s;
     let s = set_page_ref p 0 s;
     free_pages_loop (Suc p) k s }"

text \<open>The merging loop of \<open>default_free_pages\<close>; it returns the final \<open>base\<close>.\<close>

partial_function (option) free_merge_loop :: "plink \<Rightarrow> nat \<Rightarrow> pmm \<Rightarrow> (nat \<times> pmm) option" where
  "free_merge_loop le base s =
     (case le of
        FreeList \<Rightarrow> Some (base, s)
      | PageLink p \<Rightarrow>
          let le = list_next le (pm_links s) in
          if base + property s base = p then
            let s = set_property base (pg_property (pm_pages s base) + pg_property (pm_pages s p)) s;
                s = ClearPageProperty p s
            in free_merge_loop le base (s\<lparr>pm_links := list_del (PageLink p) (pm_links s)\<rparr>)
          else if p + property s p = base then
            let s = set_property p (pg_property (pm_pages s p) + pg_property (pm_pages s base)) s;
                s = ClearPageProperty base s
            in free_merge_loop le p (s\<lparr>pm_links := list_del (PageLink p) (pm_links s)\<rparr>)
          else free_merge_loop le base s)"

definition default_free_pages :: "nat \<Rightarrow> u32 \<Rightarrow> pmm \<Rightarrow> pmm option" where
  "default_free_pages base n s = do {
     kassert (n > 0);
     s \<leftarrow> free_pages_loop base (unat n) s;
     let s = set_property base n s;
     let s = SetPageProperty base s;
     (base, s) \<leftarrow> free_merge_loop (list_next FreeList (pm_links s)) base s;
     let s = s\<lparr>pm_nr_free := pm_nr_free s + n\<rparr>;
     default_list_add base s }"

definition default_nr_free_pages :: "pmm \<Rightarrow> u32" where
  "default_nr_free_pages s = pm_nr_free s"

section \<open>Free blocks\<close>

text \<open>A free list as a list of blocks (first page, length), in address order and disjoint.\<close>

type_synonym block = "nat \<times> nat"

definition block_pages :: "block \<Rightarrow> nat set" where
  "block_pages b = {fst b ..< fst b + snd b}"

fun blocks_sep :: "block list \<Rightarrow> bool" where
  "blocks_sep [] \<longleftrightarrow> True"
| "blocks_sep (b # bs) \<longleftrightarrow> 0 < snd b \<and> (\<forall>c \<in> set bs. fst b + snd b \<le> fst c) \<and> blocks_sep bs"

definition bpages :: "block list \<Rightarrow> nat set" where
  "bpages bs = \<Union> (block_pages ` set bs)"

definition bsum :: "block list \<Rightarrow> nat" where
  "bsum bs = sum_list (map snd bs)"

definition blinks :: "block list \<Rightarrow> plink list" where
  "blinks bs = map (PageLink \<circ> fst) bs"

text \<open>\<open>pmm_inv s bs\<close>: the allocator's state holds exactly the blocks \<open>bs\<close>: they are linked in
  order, each head carries its length and the property flag, no other free page carries it, and
  \<open>nr_free\<close> counts the free pages.\<close>

definition pmm_inv :: "pmm \<Rightarrow> block list \<Rightarrow> bool" where
  "pmm_inv s bs \<longleftrightarrow>
     ring (pm_links s) FreeList (blinks bs) \<and> blocks_sep bs \<and>
     (\<forall>b \<in> set bs. property s (fst b) = snd b) \<and>
     (\<forall>p \<in> bpages bs. \<not> PageReserved s p \<and> (PageProperty s p \<longleftrightarrow> p \<in> fst ` set bs)) \<and>
     bpages bs \<subseteq> {..< 2 ^ 32 - 1} \<and> unat (pm_nr_free s) = bsum bs"

lemma bpages_simps [simp]:
  "bpages [] = {}" "bpages (b # bs) = block_pages b \<union> bpages bs" "bpages (bs @ cs) = bpages bs \<union> bpages cs"
  by (auto simp: bpages_def)

lemma bsum_simps [simp]:
  "bsum [] = 0" "bsum (b # bs) = snd b + bsum bs" "bsum (bs @ cs) = bsum bs + bsum cs"
  by (simp_all add: bsum_def)

lemma blinks_simps [simp]:
  "blinks [] = []" "blinks (b # bs) = PageLink (fst b) # blinks bs" "blinks (bs @ cs) = blinks bs @ blinks cs"
  by (simp_all add: blinks_def)

lemma blocks_sep_append:
  "blocks_sep (bs @ cs) \<longleftrightarrow>
   blocks_sep bs \<and> blocks_sep cs \<and> (\<forall>b \<in> set bs. \<forall>c \<in> set cs. fst b + snd b \<le> fst c)"
  by (induction bs) auto

lemma finite_block_pages [simp]: "finite (block_pages b)"
  by (simp add: block_pages_def)

lemma finite_bpages [simp]: "finite (bpages bs)"
  by (simp add: bpages_def)

lemma card_bpages: "blocks_sep bs \<Longrightarrow> card (bpages bs) = bsum bs"
proof (induction bs)
  case (Cons b bs)
  have "block_pages b \<inter> bpages bs = {}"
    using Cons.prems by (fastforce simp: block_pages_def bpages_def)
  with Cons show ?case by (simp add: card_Un_disjoint) (simp add: block_pages_def)
qed simp

lemma blocks_sep_pos: "blocks_sep bs \<Longrightarrow> b \<in> set bs \<Longrightarrow> 0 < snd b"
  by (induction bs) auto

lemma blocks_sep_head: "blocks_sep bs \<Longrightarrow> b \<in> set bs \<Longrightarrow> fst b \<in> bpages bs"
  using blocks_sep_pos by (fastforce simp: bpages_def block_pages_def)

lemma blocks_sep_disjoint:
  "blocks_sep bs \<Longrightarrow> b \<in> set bs \<Longrightarrow> c \<in> set bs \<Longrightarrow> b \<noteq> c \<Longrightarrow> fst b + snd b \<le> fst c \<or> fst c + snd c \<le> fst b"
  by (induction bs) auto

lemma blocks_sep_distinct: "blocks_sep bs \<Longrightarrow> distinct (blinks bs)"
proof (induction bs)
  case (Cons b bs)
  then show ?case by (auto simp: blinks_def)
qed simp

lemma bsum_bound: "blocks_sep bs \<Longrightarrow> bpages bs \<subseteq> {..< n} \<Longrightarrow> bsum bs \<le> n"
  using card_mono [of "{..< n}" "bpages bs"] by (simp add: card_bpages)

section \<open>Reading the state after a field update\<close>

lemmas page_op_defs = SetPageReserved_def SetPageProperty_def ClearPageProperty_def set_property_def
  set_page_ref_def upd_page_def

lemma pm_links_ops [simp]:
  "pm_links (SetPageReserved q s) = pm_links s" "pm_links (SetPageProperty q s) = pm_links s"
  "pm_links (ClearPageProperty q s) = pm_links s" "pm_links (set_property q n s) = pm_links s"
  "pm_links (set_page_ref q v s) = pm_links s" "pm_links (upd_page q f s) = pm_links s"
  by (simp_all add: page_op_defs)

lemma pm_nr_free_ops [simp]:
  "pm_nr_free (SetPageReserved q s) = pm_nr_free s" "pm_nr_free (SetPageProperty q s) = pm_nr_free s"
  "pm_nr_free (ClearPageProperty q s) = pm_nr_free s" "pm_nr_free (set_property q n s) = pm_nr_free s"
  "pm_nr_free (set_page_ref q v s) = pm_nr_free s" "pm_nr_free (upd_page q f s) = pm_nr_free s"
  by (simp_all add: page_op_defs)

lemma property_ops [simp]:
  "property (SetPageReserved q s) p = property s p" "property (SetPageProperty q s) p = property s p"
  "property (ClearPageProperty q s) p = property s p"
  "property (set_property q n s) p = (if p = q then unat n else property s p)"
  "property (set_page_ref q v s) p = property s p"
  "property (s\<lparr>pm_links := h\<rparr>) p = property s p" "property (s\<lparr>pm_nr_free := k\<rparr>) p = property s p"
  by (simp_all add: property_def page_op_defs)

lemma PageProperty_ops [simp]:
  "PageProperty (SetPageProperty q s) p \<longleftrightarrow> p = q \<or> PageProperty s p"
  "PageProperty (ClearPageProperty q s) p \<longleftrightarrow> p \<noteq> q \<and> PageProperty s p"
  "PageProperty (set_property q n s) p = PageProperty s p"
  "PageProperty (set_page_ref q v s) p = PageProperty s p"
  "PageProperty (s\<lparr>pm_links := h\<rparr>) p = PageProperty s p"
  "PageProperty (s\<lparr>pm_nr_free := k\<rparr>) p = PageProperty s p"
  by (auto simp: PageProperty_def page_op_defs bit_or_mask bit_clear_mask PG_property_def)

lemma PageReserved_ops [simp]:
  "PageReserved (SetPageReserved q s) p \<longleftrightarrow> p = q \<or> PageReserved s p"
  "PageReserved (SetPageProperty q s) p = PageReserved s p"
  "PageReserved (ClearPageProperty q s) p = PageReserved s p"
  "PageReserved (set_property q n s) p = PageReserved s p"
  "PageReserved (set_page_ref q v s) p = PageReserved s p"
  "PageReserved (s\<lparr>pm_links := h\<rparr>) p = PageReserved s p"
  "PageReserved (s\<lparr>pm_nr_free := k\<rparr>) p = PageReserved s p"
  by (auto simp: PageReserved_def page_op_defs bit_or_mask bit_clear_mask PG_property_def PG_reserved_def)

lemma pg_property_unat: "unat (pg_property (pm_pages s p)) = property s p"
  by (simp add: property_def)

section \<open>Allocation\<close>

lemma default_alloc_find_eq:
  assumes "ring (pm_links s) FreeList (blinks (xs @ ys))" "\<forall>b \<in> set ys. property s (fst b) = snd b"
  shows "default_alloc_find (last (FreeList # blinks xs)) n s =
    Some (map_option fst (find (\<lambda>b. unat n \<le> snd b) ys))"
  using assms
proof (induction ys arbitrary: xs)
  case Nil
  from ring_next_last [of _ _ "blinks xs" "[]"] Nil show ?case
    by (subst default_alloc_find.simps) simp
next
  case (Cons y ys)
  have nx: "list_next (last (FreeList # blinks xs)) (pm_links s) = PageLink (fst y)"
    using Cons.prems(1) ring_next_last [of _ _ "blinks xs" "blinks (y # ys)"] by simp
  have py: "pg_property (pm_pages s (fst y)) \<ge> n \<longleftrightarrow> unat n \<le> snd y"
    using Cons.prems(2) by (simp add: word_le_nat_alt property_def del: of_nat_unat)
  have "default_alloc_find (last (FreeList # blinks (xs @ [y]))) n s =
      Some (map_option fst (find (\<lambda>b. unat n \<le> snd b) ys))"
    using Cons.prems by (intro Cons.IH) simp_all
  then show ?case using py by (subst default_alloc_find.simps, subst nx) simp
qed

definition alloc_blocks :: "nat \<Rightarrow> block \<Rightarrow> block list" where
  "alloc_blocks n b = (if n < snd b then [(fst b + n, snd b - n)] else [])"

definition pmm_alloc_step :: "nat \<Rightarrow> u32 \<Rightarrow> pmm \<Rightarrow> pmm" where
  "pmm_alloc_step page n s =
    (let s = s\<lparr>pm_links := list_del (PageLink page) (pm_links s)\<rparr>;
         s = (if pg_property (pm_pages s page) > n then
                 let p = page + unat n;
                     s = set_property p (pg_property (pm_pages s page) - n) s;
                     s = SetPageProperty p s
                 in s\<lparr>pm_links :=
                        list_add (list_prev (PageLink page) (pm_links s)) (PageLink p) (pm_links s)\<rparr>
               else s);
         s = s\<lparr>pm_nr_free := pm_nr_free s - n\<rparr>
     in ClearPageProperty page s)"

lemma default_alloc_pages_eq:
  assumes inv: "pmm_inv s bs" and n: "0 < n"
  shows "default_alloc_pages n s = Some
    (case find (\<lambda>b. unat n \<le> snd b) bs of None \<Rightarrow> (None, s) | Some b \<Rightarrow> (Some (fst b), pmm_alloc_step (fst b) n s))"
proof (cases "n > pm_nr_free s")
  case True
  have "snd b < unat n" if "b \<in> set bs" for b
  proof -
    have "snd b \<le> bsum bs" using that by (auto simp: bsum_def intro: member_le_sum_list)
    also have "\<dots> < unat n" using inv True by (simp add: pmm_inv_def word_less_nat_alt del: of_nat_unat)
    finally show ?thesis .
  qed
  then have "find (\<lambda>b. unat n \<le> snd b) bs = None" by (auto simp: find_None_iff not_le)
  with True n show ?thesis by (simp add: default_alloc_pages_def)
next
  case False
  have "default_alloc_find FreeList n s = Some (map_option fst (find (\<lambda>b. unat n \<le> snd b) bs))"
    using inv default_alloc_find_eq [of s "[]" bs n] by (simp add: pmm_inv_def)
  with False n show ?thesis
    by (simp add: default_alloc_pages_def pmm_alloc_step_def Let_def split: option.splits)
qed

lemma pmm_alloc_step_inv:
  assumes inv: "pmm_inv s (xs @ b # ys)" and n: "0 < n" "unat n \<le> snd b"
  shows "pmm_inv (pmm_alloc_step (fst b) n s) (xs @ alloc_blocks (unat n) b @ ys)"
    and "bpages (xs @ alloc_blocks (unat n) b @ ys) =
      bpages (xs @ b # ys) - {fst b ..< fst b + unat n}"
    and "p \<in> {fst b ..< fst b + unat n} \<Longrightarrow>
      \<not> PageReserved (pmm_alloc_step (fst b) n s) p \<and> \<not> PageProperty (pmm_alloc_step (fst b) n s) p"
proof -
  have sep: "blocks_sep (xs @ b # ys)"
    and r: "ring (pm_links s) FreeList (blinks xs @ PageLink (fst b) # blinks ys)"
    and len: "\<forall>c \<in> set (xs @ b # ys). property s (fst c) = snd c"
    and flags: "\<forall>p \<in> bpages (xs @ b # ys). \<not> PageReserved s p \<and> (PageProperty s p \<longleftrightarrow> p \<in> fst ` set (xs @ b # ys))"
    and bound: "bpages (xs @ b # ys) \<subseteq> {..< 2 ^ 32 - 1}"
    and nr: "unat (pm_nr_free s) = bsum (xs @ b # ys)"
    using inv by (simp_all add: pmm_inv_def)
  have un: "0 < unat n" using n(1) by (simp add: word_less_nat_alt)
  have before: "fst c + snd c \<le> fst b" if "c \<in> set xs" for c
    using sep that by (auto simp: blocks_sep_append)
  have after: "fst b + snd b \<le> fst c" if "c \<in> set ys" for c
    using sep that by (auto simp: blocks_sep_append)
  show pages: "bpages (xs @ alloc_blocks (unat n) b @ ys) =
      bpages (xs @ b # ys) - {fst b ..< fst b + unat n}"
  proof -
    have x: "bpages xs \<inter> {fst b ..< fst b + unat n} = {}"
      using before by (fastforce simp: bpages_def block_pages_def)
    have y: "bpages ys \<inter> {fst b ..< fst b + unat n} = {}"
      using after n(2) by (fastforce simp: bpages_def block_pages_def)
    have m: "bpages (alloc_blocks (unat n) b) = block_pages b - {fst b ..< fst b + unat n}"
      using n(2) by (auto simp: alloc_blocks_def block_pages_def)
    show ?thesis using x y m by auto
  qed
  let ?s = "s\<lparr>pm_links := list_del (PageLink (fst b)) (pm_links s)\<rparr>"
  have rd: "ring (pm_links ?s) FreeList (blinks xs @ blinks ys)" using ring_del [OF r] by simp
  have prv: "list_prev (PageLink (fst b)) (pm_links ?s) = last (FreeList # blinks xs)"
    using ring_prev_last [OF r] list_del_self [OF r, of "PageLink (fst b)"] by (simp add: list_prev_def)
  have pb: "property s (fst b) = snd b" using len by simp
  have ge: "pg_property (pm_pages s (fst b)) \<ge> n" using n(2) pb
    by (simp add: word_le_nat_alt property_def del: of_nat_unat)
  then have psub: "unat (pg_property (pm_pages s (fst b)) - n) = snd b - unat n"
    using pb by (simp add: unat_sub property_def)
  have gt: "pg_property (pm_pages s (fst b)) > n \<longleftrightarrow> unat n < snd b"
    using pb by (simp add: word_less_nat_alt property_def del: of_nat_unat)
  have nle: "n \<le> pm_nr_free s" using nr n(2) by (simp add: word_le_nat_alt del: of_nat_unat)
  then have nr': "unat (pm_nr_free s - n) = bsum (xs @ alloc_blocks (unat n) b @ ys)"
    using nr n(2) by (simp add: unat_sub alloc_blocks_def)
  have sep': "blocks_sep (xs @ alloc_blocks (unat n) b @ ys)"
    using sep n(2) un by (auto simp: blocks_sep_append alloc_blocks_def)
  have fb: "fst b \<in> bpages (xs @ b # ys)" using blocks_sep_head [OF sep, of b] by simp
  have nb: "fst c \<noteq> fst b" if "c \<in> set (xs @ ys)" for c
    using that before after blocks_sep_pos [OF sep] n(2) un by fastforce
  have nq: "fst c \<noteq> fst b + unat n" if "c \<in> set (xs @ ys)" "unat n < snd b" for c
    using that before after blocks_sep_pos [OF sep] by fastforce
  have npb: "PageLink (fst b + unat n) \<notin> set (FreeList # blinks xs @ blinks ys)" if "unat n < snd b"
    using nq that by (fastforce simp: blinks_def)
  show "pmm_inv (pmm_alloc_step (fst b) n s) (xs @ alloc_blocks (unat n) b @ ys)"
  proof (cases "unat n < snd b")
    case True
    let ?q = "fst b + unat n"
    have q: "?q \<in> bpages (xs @ b # ys)" using True by (simp add: block_pages_def)
    have nqb: "?q \<noteq> fst b" using un by simp
    have st: "pmm_alloc_step (fst b) n s = ClearPageProperty (fst b)
        ((SetPageProperty ?q (set_property ?q (pg_property (pm_pages s (fst b)) - n) ?s))
         \<lparr>pm_links := list_add (last (FreeList # blinks xs)) (PageLink ?q) (pm_links ?s),
          pm_nr_free := pm_nr_free s - n\<rparr>)"
      using True gt prv by (simp add: pmm_alloc_step_def Let_def)
    show ?thesis unfolding pmm_inv_def
      using sep' rd True psub nr' nb nq nqb len bound flags q pages ring_add_after_last [OF rd npb [OF True]]
      by (auto simp: st alloc_blocks_def)
  next
    case False
    then have st: "pmm_alloc_step (fst b) n s =
        ClearPageProperty (fst b) (?s\<lparr>pm_nr_free := pm_nr_free s - n\<rparr>)"
      using gt by (simp add: pmm_alloc_step_def Let_def)
    show ?thesis unfolding pmm_inv_def
      using sep' rd False nr' nb len bound flags pages
      by (auto simp: st alloc_blocks_def)
  qed
  show "\<not> PageReserved (pmm_alloc_step (fst b) n s) p \<and> \<not> PageProperty (pmm_alloc_step (fst b) n s) p"
    if p: "p \<in> {fst b ..< fst b + unat n}"
  proof -
    have pin: "p \<in> bpages (xs @ b # ys)" using p n(2) by (auto simp: block_pages_def)
    have "p \<notin> fst ` set (xs @ ys)"
    proof
      assume "p \<in> fst ` set (xs @ ys)"
      then obtain c where c: "c \<in> set (xs @ ys)" "fst c = p" by auto
      then have "0 < snd c" using blocks_sep_pos [OF sep, of c] by auto
      with c p n(2) before [of c] after [of c] show False by auto
    qed
    then have "\<not> PageReserved s p" "PageProperty s p \<longrightarrow> p = fst b"
      using flags pin by auto
    then show ?thesis using p by (auto simp: pmm_alloc_step_def Let_def)
  qed
qed

section \<open>Freeing\<close>

text \<open>What the merging loop does to the list of blocks: the block \<open>c\<close> absorbs its neighbours; the
  result is the blocks that stay and the grown block.\<close>

fun merge_blocks :: "block \<Rightarrow> block list \<Rightarrow> block list \<times> block" where
  "merge_blocks c [] = ([], c)"
| "merge_blocks c (b # bs) =
     (if fst c + snd c = fst b then merge_blocks (fst c, snd c + snd b) bs
      else if fst b + snd b = fst c then merge_blocks (fst b, snd b + snd c) bs
      else (b # fst (merge_blocks c bs), snd (merge_blocks c bs)))"

fun insert_block :: "block \<Rightarrow> block list \<Rightarrow> block list" where
  "insert_block c [] = [c]"
| "insert_block c (b # bs) = (if fst c < fst b then c # b # bs else b # insert_block c bs)"

lemma set_insert_block [simp]: "set (insert_block c bs) = insert c (set bs)"
  by (induction bs) auto

lemma bpages_insert_block: "bpages (insert_block c bs) = block_pages c \<union> bpages bs"
  by (simp add: bpages_def)

lemma bsum_insert_block: "bsum (insert_block c bs) = snd c + bsum bs"
  by (induction bs) auto

lemma block_apart:
  assumes "block_pages c \<inter> block_pages b = {}" "0 < snd c" "0 < snd b"
  shows "if fst c < fst b then fst c + snd c \<le> fst b else fst b + snd b \<le> fst c"
proof -
  have "fst c \<in> block_pages c" "fst b \<in> block_pages b" using assms by (simp_all add: block_pages_def)
  with assms(1) have "fst c \<notin> block_pages b" "fst b \<notin> block_pages c" by blast+
  then show ?thesis by (auto simp: block_pages_def)
qed

lemma blocks_sep_insert:
  "blocks_sep bs \<Longrightarrow> 0 < snd c \<Longrightarrow> block_pages c \<inter> bpages bs = {} \<Longrightarrow> blocks_sep (insert_block c bs)"
proof (induction bs)
  case (Cons b bs)
  then have "if fst c < fst b then fst c + snd c \<le> fst b else fst b + snd b \<le> fst c"
    by (intro block_apart) auto
  with Cons show ?case by (fastforce split: if_splits)
qed simp

lemma merge_blocks_pages:
  "block_pages (snd (merge_blocks c bs)) \<union> bpages (fst (merge_blocks c bs)) = block_pages c \<union> bpages bs"
proof (induction c bs rule: merge_blocks.induct)
  case (2 c b bs)
  have j: "fst c + snd c = fst b \<Longrightarrow> block_pages (fst c, snd c + snd b) = block_pages c \<union> block_pages b"
    and j': "fst b + snd b = fst c \<Longrightarrow> block_pages (fst b, snd b + snd c) = block_pages c \<union> block_pages b"
    by (auto simp: block_pages_def)
  show ?case using 2 by (auto simp: j j')
qed simp

lemma merge_blocks_sum:
  "snd (snd (merge_blocks c bs)) + bsum (fst (merge_blocks c bs)) = snd c + bsum bs"
  by (induction c bs rule: merge_blocks.induct) auto

lemma merge_blocks_subset: "set (fst (merge_blocks c bs)) \<subseteq> set bs"
  by (induction c bs rule: merge_blocks.induct) auto

lemma merge_blocks_pos: "0 < snd c \<Longrightarrow> 0 < snd (snd (merge_blocks c bs))"
  by (induction c bs rule: merge_blocks.induct) auto

lemma merge_blocks_sep: "blocks_sep bs \<Longrightarrow> blocks_sep (fst (merge_blocks c bs))"
proof (induction c bs rule: merge_blocks.induct)
  case (2 c b bs)
  then show ?case using merge_blocks_subset [of c bs] by auto
qed simp

lemma merge_blocks_disjoint:
  assumes sep: "blocks_sep bs" and disj: "block_pages c \<inter> bpages bs = {}"
  shows "block_pages (snd (merge_blocks c bs)) \<inter> bpages (fst (merge_blocks c bs)) = {}"
proof (rule ccontr)
  let ?ks = "fst (merge_blocks c bs)" and ?c = "snd (merge_blocks c bs)"
  assume ne: "\<not> ?thesis"
  have "card (block_pages ?c \<union> bpages ?ks) + card (block_pages ?c \<inter> bpages ?ks) =
      card (block_pages ?c) + card (bpages ?ks)"
    by (rule card_Un_Int [symmetric]) simp_all
  moreover have "0 < card (block_pages ?c \<inter> bpages ?ks)" using ne by (simp add: card_gt_0_iff)
  moreover have "card (block_pages ?c \<union> bpages ?ks) = snd c + bsum bs"
    using disj card_bpages [OF sep] by (simp add: merge_blocks_pages card_Un_disjoint) (simp add: block_pages_def)
  moreover have "card (block_pages ?c) + card (bpages ?ks) = snd c + bsum bs"
    using merge_blocks_sum [of c bs] card_bpages [OF merge_blocks_sep [OF sep]]
    by (simp add: block_pages_def)
  ultimately show False by simp
qed

lemma default_list_add_loop_eq:
  assumes "ring (pm_links s) FreeList (blinks (xs @ ys))" "PageLink base \<notin> set (blinks (xs @ ys))"
    and "\<forall>b \<in> set ys. property s (fst b) = snd b" "property s base = k"
    and "\<forall>b \<in> set ys. if base < fst b then base + k \<le> fst b else fst b + snd b \<le> base"
  shows "\<exists>h. default_list_add_loop (last (FreeList # blinks xs)) base s = Some (s\<lparr>pm_links := h\<rparr>) \<and>
    ring h FreeList (blinks (xs @ insert_block (base, k) ys))"
  using assms
proof (induction ys arbitrary: xs)
  case Nil
  from ring_next_last [of _ _ "blinks xs" "[]"] Nil
  have nx: "list_next (last (FreeList # blinks xs)) (pm_links s) = FreeList" by simp
  have "ring (list_add_before FreeList (PageLink base) (pm_links s)) FreeList (blinks xs @ [PageLink base])"
    using Nil by (intro ring_add_before_head) (auto simp: blinks_def)
  then show ?case by (subst default_list_add_loop.simps, subst nx) auto
next
  case (Cons y ys)
  have nx: "list_next (last (FreeList # blinks xs)) (pm_links s) = PageLink (fst y)"
    using Cons.prems(1) ring_next_last [of _ _ "blinks xs" "blinks (y # ys)"] by simp
  have ne: "base \<noteq> fst y" using Cons.prems(2) by auto
  show ?case
  proof (cases "base < fst y")
    case True
    have "ring (list_add_before (PageLink (fst y)) (PageLink base) (pm_links s)) FreeList
        (blinks xs @ PageLink base # PageLink (fst y) # blinks ys)"
      using Cons.prems by (intro ring_add_before_elem) (auto simp: blinks_def)
    then show ?thesis using True Cons.prems ne
      by (subst default_list_add_loop.simps, subst nx) auto
  next
    case False
    from Cons.IH [of "xs @ [y]"] Cons.prems obtain h where
      "default_list_add_loop (last (FreeList # blinks (xs @ [y]))) base s = Some (s\<lparr>pm_links := h\<rparr>)"
      "ring h FreeList (blinks ((xs @ [y]) @ insert_block (base, k) ys))" by auto
    then show ?thesis using False Cons.prems ne
      by (subst default_list_add_loop.simps, subst nx) auto
  qed
qed

lemma unat_add_u32: "unat a + unat b < 2 ^ 32 \<Longrightarrow> unat (a + b :: u32) = unat a + unat b"
  by (rule unat_add_no_wrap) simp

definition block_start :: "block list \<Rightarrow> plink" where
  "block_start ys = (case ys of [] \<Rightarrow> FreeList | y # _ \<Rightarrow> PageLink (fst y))"

definition heads :: "block list \<Rightarrow> nat set" where
  "heads bs = fst ` set bs"

lemma heads_simps [simp]:
  "heads [] = {}" "heads (b # bs) = insert (fst b) (heads bs)" "heads (bs @ cs) = heads bs \<union> heads cs"
  by (auto simp: heads_def)

lemma headsI: "b \<in> set bs \<Longrightarrow> fst b \<in> heads bs"
  by (simp add: heads_def)

lemma blinks_heads: "PageLink p \<in> set (blinks bs) \<longleftrightarrow> p \<in> heads bs"
  by (force simp: blinks_def heads_def)

text \<open>\<open>merge_state s c xs ys\<close>: \<open>xs\<close> are the blocks the loop has passed, \<open>ys\<close> those to come, \<open>c\<close> is
  the block being freed, which is in no list.\<close>

definition merge_state :: "pmm \<Rightarrow> block \<Rightarrow> block list \<Rightarrow> block list \<Rightarrow> bool" where
  "merge_state s c xs ys \<longleftrightarrow>
     ring (pm_links s) FreeList (blinks (xs @ ys)) \<and>
     (\<forall>b \<in> set (c # xs @ ys). property s (fst b) = snd b) \<and>
     fst c \<notin> heads (xs @ ys) \<and> snd c + bsum ys < 2 ^ 32"

lemma merge_state_distinct:
  "merge_state s c xs (y # ys) \<Longrightarrow> fst y \<notin> heads (xs @ ys)"
proof -
  assume "merge_state s c xs (y # ys)"
  then have "ring (pm_links s) FreeList (blinks xs @ PageLink (fst y) # blinks ys)"
    by (simp add: merge_state_def)
  from ring_distinct [OF this] show ?thesis by (auto simp: blinks_heads)
qed

definition absorb :: "nat \<Rightarrow> nat \<Rightarrow> nat \<Rightarrow> pmm \<Rightarrow> pmm" where
  "absorb into gone unlink s =
     (let s = set_property into (pg_property (pm_pages s into) + pg_property (pm_pages s gone)) s;
          s = ClearPageProperty gone s
      in s\<lparr>pm_links := list_del (PageLink unlink) (pm_links s)\<rparr>)"

lemma absorb_simps [simp]:
  "PageReserved (absorb a b u s) p = PageReserved s p"
  "PageProperty (absorb a b u s) p \<longleftrightarrow> p \<noteq> b \<and> PageProperty s p"
  "pm_nr_free (absorb a b u s) = pm_nr_free s"
  "pm_links (absorb a b u s) = list_del (PageLink u) (pm_links s)"
  "p \<noteq> a \<Longrightarrow> property (absorb a b u s) p = property s p"
  "property s a + property s b < 2 ^ 32 \<Longrightarrow> property (absorb a b u s) a = property s a + property s b"
  by (simp_all add: absorb_def Let_def) (simp add: property_def unat_add_u32)

lemma merge_state_absorb:
  assumes st: "merge_state s c xs (y # ys)"
  shows "merge_state (absorb (fst c) (fst y) (fst y) s) (fst c, snd c + snd y) xs ys"
    and "merge_state (absorb (fst y) (fst c) (fst y) s) (fst y, snd y + snd c) xs ys"
proof -
  note d = merge_state_distinct [OF st]
  have r: "ring (list_del (PageLink (fst y)) (pm_links s)) FreeList (blinks xs @ blinks ys)"
    using st by (intro ring_del) (simp add: merge_state_def)
  have ps: "property s (fst c) = snd c" "property s (fst y) = snd y" "snd c + (snd y + bsum ys) < 2 ^ 32"
    and nc: "fst c \<notin> heads (xs @ ys)" and po: "\<forall>b \<in> set (xs @ ys). property s (fst b) = snd b"
    using st by (auto simp: merge_state_def)
  have ot: "\<forall>b \<in> set (xs @ ys). property (absorb u v w s) (fst b) = snd b"
    if "u \<in> {fst c, fst y}" for u v w
  proof
    fix b assume b: "b \<in> set (xs @ ys)"
    then have "fst b \<noteq> u" using headsI [OF b] nc d that by auto
    with po b show "property (absorb u v w s) (fst b) = snd b" by simp
  qed
  show "merge_state (absorb (fst c) (fst y) (fst y) s) (fst c, snd c + snd y) xs ys"
    using r ps nc ot [of "fst c"] unfolding merge_state_def by simp
  show "merge_state (absorb (fst y) (fst c) (fst y) s) (fst y, snd y + snd c) xs ys"
    using r ps d ot [of "fst y"] unfolding merge_state_def by (simp add: add.commute)
qed

lemma merge_state_skip: "merge_state s c xs (y # ys) \<Longrightarrow> merge_state s c (xs @ [y]) ys"
  by (auto simp: merge_state_def)

lemma merge_state_next:
  "merge_state s c xs (y # ys) \<Longrightarrow> list_next (PageLink (fst y)) (pm_links s) = block_start ys"
proof -
  assume "merge_state s c xs (y # ys)"
  then have "ring (pm_links s) FreeList (blinks xs @ PageLink (fst y) # blinks ys)"
    by (simp add: merge_state_def)
  from ring_next_elem [OF this] show ?thesis by (cases ys) (simp_all add: block_start_def)
qed

lemma free_merge_loop_eq:
  assumes "merge_state s c xs ys" and "\<forall>p \<in> insert (fst c) (heads ys). PageProperty s p"
  shows "\<exists>s'. free_merge_loop (block_start ys) (fst c) s = Some (fst (snd (merge_blocks c ys)), s') \<and>
    merge_state s' (snd (merge_blocks c ys)) (xs @ fst (merge_blocks c ys)) [] \<and>
    (\<forall>p. PageReserved s' p = PageReserved s p) \<and> pm_nr_free s' = pm_nr_free s \<and>
    (\<forall>p. PageProperty s' p \<longleftrightarrow>
       p \<in> insert (fst (snd (merge_blocks c ys))) (heads (fst (merge_blocks c ys))) \<or>
       p \<notin> insert (fst c) (heads ys) \<and> PageProperty s p)"
  using assms
proof (induction c ys arbitrary: xs s rule: merge_blocks.induct)
  case (1 c)
  then show ?case by (subst free_merge_loop.simps) (auto simp: block_start_def merge_state_def)
next
  case (2 c y ys)
  note st = "2.prems"(1) and fl = "2.prems"(2)
  note nx = merge_state_next [OF st] and d = merge_state_distinct [OF st]
  have lens: "property s (fst c) = snd c" "property s (fst y) = snd y" and cy: "fst c \<noteq> fst y"
    and cn: "fst c \<notin> heads ys"
    using st by (auto simp: merge_state_def)
  have unfold: "free_merge_loop (block_start (y # ys)) (fst c) s =
      (if fst c + snd c = fst y then free_merge_loop (block_start ys) (fst c) (absorb (fst c) (fst y) (fst y) s)
       else if fst y + snd y = fst c then free_merge_loop (block_start ys) (fst y) (absorb (fst y) (fst c) (fst y) s)
       else free_merge_loop (block_start ys) (fst c) s)"
    using nx lens by (subst free_merge_loop.simps) (simp add: block_start_def absorb_def Let_def)
  consider (up) "fst c + snd c = fst y"
    | (down) "fst c + snd c \<noteq> fst y" "fst y + snd y = fst c"
    | (skip) "fst c + snd c \<noteq> fst y" "fst y + snd y \<noteq> fst c" by blast
  then show ?case
  proof cases
    case up
    let ?c = "(fst c, snd c + snd y)"
    have m: "merge_blocks c (y # ys) = merge_blocks ?c ys" using up by simp
    have "\<forall>p \<in> insert (fst ?c) (heads ys). PageProperty (absorb (fst c) (fst y) (fst y) s) p"
      using fl d cy by auto
    from 2(1) [OF up merge_state_absorb(1) [OF st] this] up show ?thesis
      unfolding unfold m by (elim ex_forward) (use d in auto)
  next
    case down
    let ?c = "(fst y, snd y + snd c)"
    have m: "merge_blocks c (y # ys) = merge_blocks ?c ys" using down by simp
    have "\<forall>p \<in> insert (fst ?c) (heads ys). PageProperty (absorb (fst y) (fst c) (fst y) s) p"
      using fl d cy cn by auto
    from 2(2) [OF down merge_state_absorb(2) [OF st] this] down show ?thesis
      unfolding unfold m by (elim ex_forward) auto
  next
    case skip
    have m: "merge_blocks c (y # ys) = (y # fst (merge_blocks c ys), snd (merge_blocks c ys))"
      using skip by simp
    have "\<forall>p \<in> insert (fst c) (heads ys). PageProperty s p" using fl by auto
    from 2(3) [OF skip merge_state_skip [OF st] this] skip show ?thesis
      unfolding unfold m by (elim ex_forward) (use d fl cy in auto)
  qed
qed

text \<open>The loops over the pages that are freed or handed over at boot.\<close>

definition pages_cleared :: "nat \<Rightarrow> nat \<Rightarrow> pmm \<Rightarrow> pmm \<Rightarrow> bool" where
  "pages_cleared base k s s' \<longleftrightarrow> pm_links s' = pm_links s \<and> pm_nr_free s' = pm_nr_free s \<and>
     (\<forall>p. if p \<in> {base ..< base + k} then pg_flags (pm_pages s' p) = 0 \<and> pg_ref (pm_pages s' p) = 0
          else pm_pages s' p = pm_pages s p)"

lemma free_pages_loop_eq:
  assumes "\<forall>p \<in> {base ..< base + k}. \<not> PageReserved s p \<and> \<not> PageProperty s p"
  shows "\<exists>s'. free_pages_loop base k s = Some s' \<and> pages_cleared base k s s'"
  using assms
proof (induction k arbitrary: base s)
  case 0
  then show ?case by (simp add: pages_cleared_def)
next
  case (Suc k)
  let ?s = "set_page_ref base 0 (upd_page base (\<lambda>pg. pg\<lparr>pg_flags := 0\<rparr>) s)"
  have "\<forall>p \<in> {Suc base ..< Suc base + k}. \<not> PageReserved ?s p \<and> \<not> PageProperty ?s p"
    using Suc.prems by (auto simp: PageReserved_def PageProperty_def set_page_ref_def upd_page_def)
  from Suc.IH [OF this] obtain s' where s': "free_pages_loop (Suc base) k ?s = Some s'"
    "pages_cleared (Suc base) k ?s s'" by blast
  have "pages_cleared base (Suc k) s s'"
    using s'(2) by (auto simp: pages_cleared_def set_page_ref_def upd_page_def split: if_splits)
  with s'(1) Suc.prems show ?case by simp
qed

lemma init_memmap_loop_eq:
  assumes "\<forall>p \<in> {base ..< base + k}. PageReserved s p"
  shows "\<exists>s'. init_memmap_loop base k s = Some s' \<and> pages_cleared base k s s'"
  using assms
proof (induction k arbitrary: base s)
  case 0
  then show ?case by (simp add: pages_cleared_def)
next
  case (Suc k)
  let ?s = "set_page_ref base 0 (upd_page base (\<lambda>pg. pg\<lparr>pg_flags := 0, pg_property := 0\<rparr>) s)"
  have "\<forall>p \<in> {Suc base ..< Suc base + k}. PageReserved ?s p"
    using Suc.prems by (auto simp: PageReserved_def set_page_ref_def upd_page_def)
  from Suc.IH [OF this] obtain s' where s': "init_memmap_loop (Suc base) k ?s = Some s'"
    "pages_cleared (Suc base) k ?s s'" by blast
  have "pages_cleared base (Suc k) s s'"
    using s'(2) by (auto simp: pages_cleared_def set_page_ref_def upd_page_def split: if_splits)
  with s'(1) Suc.prems show ?case by simp
qed

lemma pages_cleared_other:
  "pages_cleared base k s s' \<Longrightarrow> p \<notin> {base ..< base + k} \<Longrightarrow>
   property s' p = property s p \<and> PageProperty s' p = PageProperty s p \<and> PageReserved s' p = PageReserved s p"
  unfolding pages_cleared_def property_def PageProperty_def PageReserved_def by presburger

lemma pages_cleared_in:
  "pages_cleared base k s s' \<Longrightarrow> p \<in> {base ..< base + k} \<Longrightarrow> \<not> PageProperty s' p \<and> \<not> PageReserved s' p"
  unfolding pages_cleared_def PageProperty_def PageReserved_def by (metis bit_0_eq bot_apply bot_bool_def)

text \<open>The state just before the new block \<open>c\<close> is linked in, and linking it in.\<close>

lemma pmm_inv_insert:
  assumes st: "ring (pm_links s) FreeList (blinks ks)" "blocks_sep ks" "0 < snd c"
      "\<forall>b \<in> set (c # ks). property s (fst b) = snd b"
    and disj: "block_pages c \<inter> bpages ks = {}"
    and flags: "\<forall>p \<in> block_pages c \<union> bpages ks. \<not> PageReserved s p \<and> (PageProperty s p \<longleftrightarrow> p \<in> insert (fst c) (heads ks))"
    and bound: "block_pages c \<union> bpages ks \<subseteq> {..< 2 ^ 32 - 1}"
    and nr: "unat (pm_nr_free s) = snd c + bsum ks"
  shows "\<exists>s'. default_list_add (fst c) s = Some s' \<and> pmm_inv s' (insert_block c ks)"
proof -
  have nin: "fst c \<notin> heads ks"
  proof
    assume "fst c \<in> heads ks"
    then obtain b where b: "b \<in> set ks" "fst b = fst c" by (auto simp: heads_def)
    have "fst c \<in> block_pages c" using st(3) by (simp add: block_pages_def)
    with blocks_sep_head [OF st(2) b(1)] b(2) disj show False by auto
  qed
  have "\<forall>b \<in> set ks. if fst c < fst b then fst c + snd c \<le> fst b else fst b + snd b \<le> fst c"
  proof
    fix b assume b: "b \<in> set ks"
    have "block_pages c \<inter> block_pages b = {}" using disj b by (auto simp: bpages_def)
    from block_apart [OF this st(3) blocks_sep_pos [OF st(2) b]]
    show "if fst c < fst b then fst c + snd c \<le> fst b else fst b + snd b \<le> fst c" .
  qed
  then obtain h where h: "default_list_add (fst c) s = Some (s\<lparr>pm_links := h\<rparr>)"
    "ring h FreeList (blinks (insert_block c ks))"
    using default_list_add_loop_eq [of s "[]" ks "fst c" "snd c"] st nin
    by (auto simp: default_list_add_def blinks_heads)
  moreover have "pmm_inv (s\<lparr>pm_links := h\<rparr>) (insert_block c ks)"
    using h(2) st flags bound nr blocks_sep_insert [OF st(2,3) disj]
    by (simp add: pmm_inv_def bpages_insert_block bsum_insert_block heads_def)
  ultimately show ?thesis by blast
qed

definition free_blocks :: "nat \<Rightarrow> nat \<Rightarrow> block list \<Rightarrow> block list" where
  "free_blocks base n bs = insert_block (snd (merge_blocks (base, n) bs)) (fst (merge_blocks (base, n) bs))"

lemma bpages_free_blocks: "bpages (free_blocks base n bs) = {base ..< base + n} \<union> bpages bs"
  by (simp add: free_blocks_def bpages_insert_block merge_blocks_pages) (simp add: block_pages_def)

lemma pmm_inv_base_notin:
  assumes "pmm_inv s bs" "0 < n" "{base ..< base + n} \<inter> bpages bs = {}"
  shows "base \<notin> heads bs"
proof
  assume "base \<in> heads bs"
  then obtain b where b: "b \<in> set bs" "fst b = base" by (auto simp: heads_def)
  have "base \<in> {base ..< base + n}" using assms(2) by simp
  moreover have "base \<in> bpages bs" using blocks_sep_head [OF _ b(1)] b(2) assms(1) by (simp add: pmm_inv_def)
  ultimately show False using assms(3) by blast
qed

lemma unat_nr_free_add:
  assumes "pmm_inv s bs" "{base ..< base + unat n} \<inter> bpages bs = {}" "{base ..< base + unat n} \<subseteq> {..< 2 ^ 32 - 1}"
  shows "unat n + bsum bs < 2 ^ 32" "unat (pm_nr_free s + n) = unat n + bsum bs"
proof -
  have "unat n + bsum bs = card ({base ..< base + unat n} \<union> bpages bs)"
    using assms by (simp add: card_Un_disjoint card_bpages pmm_inv_def)
  also have "\<dots> \<le> card {..< 2 ^ 32 - 1 :: nat}"
    using assms by (intro card_mono) (auto simp: pmm_inv_def)
  finally show lt: "unat n + bsum bs < 2 ^ 32" by simp
  have "unat (pm_nr_free s) = bsum bs" using assms(1) by (simp add: pmm_inv_def)
  with lt show "unat (pm_nr_free s + n) = unat n + bsum bs"
    by (subst unat_add_u32) (simp_all del: of_nat_unat)
qed

lemma block_start_next:
  "ring h FreeList (blinks bs) \<Longrightarrow> list_next FreeList h = block_start bs"
  by (cases bs) (auto simp: block_start_def dest: ring_next_head)

lemma default_free_pages_inv:
  assumes inv: "pmm_inv s bs" and n: "0 < n" and range: "{base ..< base + unat n} \<inter> bpages bs = {}"
      "{base ..< base + unat n} \<subseteq> {..< 2 ^ 32 - 1}"
    and flags: "\<forall>p \<in> {base ..< base + unat n}. \<not> PageReserved s p \<and> \<not> PageProperty s p"
  shows "\<exists>s'. default_free_pages base n s = Some s' \<and> pmm_inv s' (free_blocks base (unat n) bs)"
proof -
  let ?c = "(base, unat n)"
  let ?ks = "fst (merge_blocks ?c bs)" and ?c' = "snd (merge_blocks ?c bs)"
  have un: "0 < unat n" using n by (simp add: word_less_nat_alt)
  note nb = pmm_inv_base_notin [OF inv un range(1)]
  note nr = unat_nr_free_add [OF inv range]
  have disj: "block_pages ?c \<inter> bpages bs = {}" using range by (simp add: block_pages_def)
  obtain s1 where s1: "free_pages_loop base (unat n) s = Some s1" "pages_cleared base (unat n) s s1"
    using free_pages_loop_eq [OF flags] by blast
  define s2 where "s2 = SetPageProperty base (set_property base n s1)"
  note o = pages_cleared_other [OF s1(2)] and c = pages_cleared_in [OF s1(2)]
  have hb: "fst b \<notin> {base ..< base + unat n}" if "b \<in> set bs" for b
    using blocks_sep_head [of bs b] that inv range(1) by (auto simp: pmm_inv_def)
  have lens: "property s2 (fst b) = snd b" if "b \<in> set bs" for b
  proof -
    have "fst b \<noteq> base" using headsI [OF that] nb by metis
    then have "property s2 (fst b) = property s (fst b)" using o [OF hb [OF that]] by (simp add: s2_def)
    then show ?thesis using inv that by (simp add: pmm_inv_def)
  qed
  have st: "merge_state s2 ?c [] bs"
  proof -
    have "pm_links s2 = pm_links s" using s1(2) by (simp add: s2_def pages_cleared_def)
    moreover have "property s2 base = unat n" by (simp add: s2_def)
    moreover have "ring (pm_links s) FreeList (blinks bs)" using inv by (simp add: pmm_inv_def)
    ultimately show ?thesis using lens nb nr(1) by (simp add: merge_state_def)
  qed
  have fl: "\<forall>p \<in> insert (fst ?c) (heads bs). PageProperty s2 p"
  proof
    fix p assume "p \<in> insert (fst ?c) (heads bs)"
    then consider "p = base" | b where "b \<in> set bs" "p = fst b" by (auto simp: heads_def)
    then show "PageProperty s2 p"
    proof cases
      case (2 b)
      then have "PageProperty s p" using inv blocks_sep_head [of bs b] by (simp add: pmm_inv_def)
      then show ?thesis using o [OF hb [OF 2(1)]] 2 by (simp add: s2_def)
    qed (simp add: s2_def)
  qed
  obtain s3 where s3: "free_merge_loop (block_start bs) base s2 = Some (fst ?c', s3)"
    "merge_state s3 ?c' ?ks []" "\<forall>p. PageReserved s3 p = PageReserved s2 p" "pm_nr_free s3 = pm_nr_free s2"
    "\<forall>p. PageProperty s3 p \<longleftrightarrow> p \<in> insert (fst ?c') (heads ?ks) \<or> p \<notin> insert base (heads bs) \<and> PageProperty s2 p"
    using free_merge_loop_eq [OF st fl] by auto
  have start: "list_next FreeList (pm_links s2) = block_start bs"
    using inv s1(2) by (intro block_start_next) (simp add: s2_def pmm_inv_def pages_cleared_def)
  have pages: "block_pages ?c' \<union> bpages ?ks = {base ..< base + unat n} \<union> bpages bs"
    by (simp add: merge_blocks_pages) (simp add: block_pages_def)
  have old: "\<not> PageReserved s2 p \<and> (p \<in> insert base (heads bs) \<or> \<not> PageProperty s2 p)"
    if "p \<in> {base ..< base + unat n} \<union> bpages bs" for p
  proof (cases "p \<in> {base ..< base + unat n}")
    case True
    from c [OF this] show ?thesis by (auto simp: s2_def)
  next
    case False
    with that inv o [OF False] show ?thesis by (auto simp: s2_def pmm_inv_def heads_def)
  qed
  have "\<exists>s'. default_list_add (fst ?c') (s3\<lparr>pm_nr_free := pm_nr_free s3 + n\<rparr>) = Some s' \<and>
      pmm_inv s' (insert_block ?c' ?ks)"
  proof (rule pmm_inv_insert)
    show "blocks_sep ?ks" "0 < snd ?c'" "block_pages ?c' \<inter> bpages ?ks = {}"
      using inv un disj by (simp_all add: merge_blocks_sep merge_blocks_pos merge_blocks_disjoint pmm_inv_def)
    show "ring (pm_links (s3\<lparr>pm_nr_free := pm_nr_free s3 + n\<rparr>)) FreeList (blinks ?ks)"
      "\<forall>b \<in> set (?c' # ?ks). property (s3\<lparr>pm_nr_free := pm_nr_free s3 + n\<rparr>) (fst b) = snd b"
      using s3(2) by (auto simp: merge_state_def)
    show "\<forall>p \<in> block_pages ?c' \<union> bpages ?ks. \<not> PageReserved (s3\<lparr>pm_nr_free := pm_nr_free s3 + n\<rparr>) p \<and>
        (PageProperty (s3\<lparr>pm_nr_free := pm_nr_free s3 + n\<rparr>) p \<longleftrightarrow> p \<in> insert (fst ?c') (heads ?ks))"
      unfolding pages
    proof
      fix p assume "p \<in> {base ..< base + unat n} \<union> bpages bs"
      from old [OF this] s3(3,5)
      show "\<not> PageReserved (s3\<lparr>pm_nr_free := pm_nr_free s3 + n\<rparr>) p \<and>
        (PageProperty (s3\<lparr>pm_nr_free := pm_nr_free s3 + n\<rparr>) p \<longleftrightarrow> p \<in> insert (fst ?c') (heads ?ks))" by auto
    qed
    show "block_pages ?c' \<union> bpages ?ks \<subseteq> {..< 2 ^ 32 - 1}"
      unfolding pages using range(2) inv by (auto simp: pmm_inv_def)
    have "pm_nr_free s3 = pm_nr_free s" using s3(4) s1(2) by (simp add: s2_def pages_cleared_def)
    then show "unat (pm_nr_free (s3\<lparr>pm_nr_free := pm_nr_free s3 + n\<rparr>)) = snd ?c' + bsum ?ks"
      using nr(2) by (simp add: merge_blocks_sum)
  qed
  moreover have "list_next FreeList (pm_links s1) = block_start bs" using start by (simp add: s2_def)
  ultimately show ?thesis
    using n s1(1) s3(1) by (simp add: default_free_pages_def s2_def [symmetric] free_blocks_def)
qed

lemma default_init_memmap_inv:
  assumes inv: "pmm_inv s bs" and n: "0 < n" and range: "{base ..< base + unat n} \<inter> bpages bs = {}"
      "{base ..< base + unat n} \<subseteq> {..< 2 ^ 32 - 1}"
    and flags: "\<forall>p \<in> {base ..< base + unat n}. PageReserved s p"
  shows "\<exists>s'. default_init_memmap base n s = Some s' \<and> pmm_inv s' (insert_block (base, unat n) bs)"
proof -
  let ?c = "(base, unat n)"
  have un: "0 < unat n" using n by (simp add: word_less_nat_alt)
  note nb = pmm_inv_base_notin [OF inv un range(1)]
  note nr = unat_nr_free_add [OF inv range]
  have disj: "block_pages ?c \<inter> bpages bs = {}" using range by (simp add: block_pages_def)
  obtain s1 where s1: "init_memmap_loop base (unat n) s = Some s1" "pages_cleared base (unat n) s s1"
    using init_memmap_loop_eq [OF flags] by blast
  define s2 where "s2 = (SetPageProperty base (set_property base n s1))\<lparr>pm_nr_free := pm_nr_free s1 + n\<rparr>"
  note o = pages_cleared_other [OF s1(2)] and c = pages_cleared_in [OF s1(2)]
  have links: "pm_links s2 = pm_links s" "pm_nr_free s1 = pm_nr_free s"
    using s1(2) by (simp_all add: s2_def pages_cleared_def)
  have hb: "fst b \<notin> {base ..< base + unat n}" if "b \<in> set bs" for b
    using blocks_sep_head [of bs b] that inv range(1) by (auto simp: pmm_inv_def)
  have lens: "property s2 (fst b) = snd b" if "b \<in> set bs" for b
  proof -
    have "fst b \<noteq> base" using headsI [OF that] nb by metis
    then have "property s2 (fst b) = property s (fst b)" using o [OF hb [OF that]] by (simp add: s2_def)
    then show ?thesis using inv that by (simp add: pmm_inv_def)
  qed
  have "\<exists>s'. default_list_add (fst ?c) s2 = Some s' \<and> pmm_inv s' (insert_block ?c bs)"
  proof (rule pmm_inv_insert)
    show "ring (pm_links s2) FreeList (blinks bs)" "blocks_sep bs"
      using inv links by (simp_all add: pmm_inv_def)
    show "0 < snd ?c" using un by simp
    have "property s2 base = unat n" by (simp add: s2_def)
    then show "\<forall>b \<in> set (?c # bs). property s2 (fst b) = snd b" using lens by simp
    show "block_pages ?c \<inter> bpages bs = {}" by (rule disj)
    show "\<forall>p \<in> block_pages ?c \<union> bpages bs. \<not> PageReserved s2 p \<and>
        (PageProperty s2 p \<longleftrightarrow> p \<in> insert (fst ?c) (heads bs))"
    proof
      fix p assume p: "p \<in> block_pages ?c \<union> bpages bs"
      show "\<not> PageReserved s2 p \<and> (PageProperty s2 p \<longleftrightarrow> p \<in> insert (fst ?c) (heads bs))"
      proof (cases "p \<in> {base ..< base + unat n}")
        case True
        have "p \<notin> heads bs" using hb True by (auto simp: heads_def)
        with c [OF True] show ?thesis by (auto simp: s2_def)
      next
        case False
        with p inv o [OF False] show ?thesis
          by (auto simp: s2_def pmm_inv_def heads_def block_pages_def)
      qed
    qed
    show "block_pages ?c \<union> bpages bs \<subseteq> {..< 2 ^ 32 - 1}"
      using range(2) inv by (auto simp: pmm_inv_def block_pages_def)
    show "unat (pm_nr_free s2) = snd ?c + bsum bs" using nr(2) links(2) by (simp add: s2_def)
  qed
  then show ?thesis
    using n s1(1) by (simp add: default_init_memmap_def s2_def)
qed

section \<open>Maximal blocks\<close>

text \<open>As long as pages come only from \<open>default_free_pages\<close> and one \<open>default_init_memmap\<close>, no two
  free blocks touch, so a run of free pages lies in one block.\<close>

definition blocks_apart :: "block list \<Rightarrow> bool" where
  "blocks_apart bs \<longleftrightarrow> (\<forall>a \<in> set bs. \<forall>b \<in> set bs. fst a + snd a \<noteq> fst b)"

definition no_touch :: "block \<Rightarrow> block \<Rightarrow> bool" where
  "no_touch a b \<longleftrightarrow> fst a + snd a \<noteq> fst b \<and> fst b + snd b \<noteq> fst a"

lemma merge_blocks_no_touch:
  "blocks_sep (b # ys) \<Longrightarrow> (\<forall>y \<in> set ys. no_touch b y) \<Longrightarrow> no_touch b c \<Longrightarrow>
   no_touch b (snd (merge_blocks c ys))"
proof (induction c ys rule: merge_blocks.induct)
  case (2 c y ys)
  then show ?case by (auto simp: no_touch_def)
qed simp

lemma merge_blocks_apart:
  "blocks_sep ys \<Longrightarrow> blocks_apart ys \<Longrightarrow> \<forall>k \<in> set (fst (merge_blocks c ys)). no_touch k (snd (merge_blocks c ys))"
proof (induction c ys rule: merge_blocks.induct)
  case (2 c y ys)
  have "\<forall>z \<in> set ys. no_touch y z" using "2.prems" by (auto simp: blocks_apart_def no_touch_def)
  with 2 merge_blocks_no_touch [of y ys c] show ?case
    by (auto simp: blocks_apart_def no_touch_def)
qed simp

lemma blocks_apart_free:
  assumes "blocks_sep bs" "blocks_apart bs" "0 < n"
  shows "blocks_apart (free_blocks base n bs)"
proof -
  let ?ks = "fst (merge_blocks (base, n) bs)" and ?c = "snd (merge_blocks (base, n) bs)"
  have pos: "0 < snd ?c" using assms(3) by (intro merge_blocks_pos) simp
  have nt: "no_touch k ?c" if "k \<in> set ?ks" for k
    using merge_blocks_apart [OF assms(1,2)] that by blast
  have ks: "fst a + snd a \<noteq> fst b" if "a \<in> set ?ks" "b \<in> set ?ks" for a b
    using that merge_blocks_subset [of "(base, n)" bs] assms(2) unfolding blocks_apart_def by blast
  show ?thesis
    unfolding blocks_apart_def free_blocks_def set_insert_block
  proof (intro ballI)
    fix a b assume "a \<in> insert ?c (set ?ks)" "b \<in> insert ?c (set ?ks)"
    then consider "a = ?c" "b = ?c" | "a = ?c" "b \<in> set ?ks" | "a \<in> set ?ks" "b = ?c" | "a \<in> set ?ks" "b \<in> set ?ks"
      by blast
    then show "fst a + snd a \<noteq> fst b"
      by cases (use pos nt ks in \<open>auto simp: no_touch_def\<close>)
  qed
qed

lemma blocks_apart_alloc:
  assumes "blocks_sep (xs @ b # ys)" "blocks_apart (xs @ b # ys)" "0 < n" "n \<le> snd b"
  shows "blocks_apart (xs @ alloc_blocks n b @ ys)"
proof -
  let ?r = "(fst b + n, snd b - n)"
  have old: "fst a + snd a \<noteq> fst c" if "a \<in> set (xs @ b # ys)" "c \<in> set (xs @ b # ys)" for a c
    using assms(2) that unfolding blocks_apart_def by blast
  have "fst a + snd a \<noteq> fst c" if "n < snd b" "a \<in> insert ?r (set (xs @ ys))" "c \<in> insert ?r (set (xs @ ys))" for a c
  proof -
    consider "a = ?r" "c = ?r" | "a = ?r" "c \<in> set (xs @ ys)" | "a \<in> set xs" "c = ?r" | "a \<in> set ys" "c = ?r"
      | "a \<in> set (xs @ ys)" "c \<in> set (xs @ ys)" using \<open>a \<in> _\<close> \<open>c \<in> _\<close> by auto
    then show ?thesis
    proof cases
      case 2
      then show ?thesis using old [of b c] that(1) by auto
    next
      case 3
      then have "fst a + snd a \<le> fst b" using assms(1) by (simp add: blocks_sep_append)
      with 3 assms(3) show ?thesis by simp
    next
      case 4
      then have "fst b + snd b \<le> fst a" using assms(1) by (simp add: blocks_sep_append)
      with 4 that(1) show ?thesis by simp
    qed (use old that(1) in auto)
  qed
  note new = this
  show ?thesis
  proof (cases "n < snd b")
    case True
    then have eq: "set (xs @ alloc_blocks n b @ ys) = insert ?r (set (xs @ ys))" by (auto simp: alloc_blocks_def)
    show ?thesis unfolding blocks_apart_def eq using new [OF True] by blast
  next
    case False
    then have eq: "set (xs @ alloc_blocks n b @ ys) = set (xs @ ys)" by (auto simp: alloc_blocks_def)
    show ?thesis unfolding blocks_apart_def eq using old by auto
  qed
qed

lemma run_in_block:
  assumes "blocks_sep bs" "blocks_apart bs"
  shows "0 < n \<Longrightarrow> {p ..< p + n} \<subseteq> bpages bs \<Longrightarrow> \<exists>b \<in> set bs. {p ..< p + n} \<subseteq> block_pages b"
proof (induction n)
  case (Suc n)
  show ?case
  proof (cases "n = 0")
    case True
    with Suc.prems show ?thesis by (auto simp: bpages_def)
  next
    case False
    from Suc obtain b where b: "b \<in> set bs" "{p ..< p + n} \<subseteq> block_pages b"
      using False by (auto simp: subset_iff)
    have "p + n \<in> bpages bs" using Suc.prems(2) by auto
    then obtain c where c: "c \<in> set bs" "p + n \<in> block_pages c" by (auto simp: bpages_def)
    have pn: "p + n - 1 \<in> block_pages b" using b(2) False by auto
    have "b = c"
    proof (rule ccontr)
      assume "b \<noteq> c"
      from blocks_sep_disjoint [OF assms(1) b(1) c(1) this] pn c(2) False
      have "fst b + snd b = fst c" by (auto simp: block_pages_def)
      with assms(2) b(1) c(1) show False by (auto simp: blocks_apart_def)
    qed
    with b c have "{p ..< p + Suc n} \<subseteq> block_pages b" by (auto simp: less_Suc_eq)
    with b(1) show ?thesis by blast
  qed
qed simp

section \<open>The pmm_manager interface\<close>

text \<open>
  \<^verbatim>\<open>struct pmm_manager\<close> of \<^verbatim>\<open>kern/mm/pmm.h\<close>. \<open>inv s F\<close>: the manager is in a consistent state
  whose free pages are \<open>F\<close>; \<open>idle s p\<close>: page \<open>p\<close> may be given back. Allocation is first fit: the
  lowest run of \<open>n\<close> free pages, and it fails only if there is no such run.
\<close>

locale pmm_manager =
  fixes inv :: "'s \<Rightarrow> nat set \<Rightarrow> bool"
    and idle :: "'s \<Rightarrow> nat \<Rightarrow> bool"
    and alloc :: "u32 \<Rightarrow> 's \<Rightarrow> (nat option \<times> 's) option"
    and free :: "nat \<Rightarrow> u32 \<Rightarrow> 's \<Rightarrow> 's option"
    and nr_free :: "'s \<Rightarrow> u32"
  assumes finite_free: "inv s F \<Longrightarrow> finite F \<and> F \<subseteq> {..< 2 ^ 32 - 1}"
    and nr_free_card: "inv s F \<Longrightarrow> unat (nr_free s) = card F"
    and alloc_total: "inv s F \<Longrightarrow> 0 < n \<Longrightarrow> alloc n s \<noteq> None"
    and alloc_fail: "inv s F \<Longrightarrow> 0 < n \<Longrightarrow> alloc n s = Some (None, s') \<Longrightarrow>
      s' = s \<and> (\<forall>p. \<not> {p ..< p + unat n} \<subseteq> F)"
    and alloc_ok: "inv s F \<Longrightarrow> 0 < n \<Longrightarrow> alloc n s = Some (Some p, s') \<Longrightarrow>
      {p ..< p + unat n} \<subseteq> F \<and> (\<forall>q < p. \<not> {q ..< q + unat n} \<subseteq> F) \<and>
      inv s' (F - {p ..< p + unat n}) \<and> (\<forall>q \<in> {p ..< p + unat n}. idle s' q)"
    and free_ok: "inv s F \<Longrightarrow> 0 < n \<Longrightarrow> {p ..< p + unat n} \<inter> F = {} \<Longrightarrow>
      {p ..< p + unat n} \<subseteq> {..< 2 ^ 32 - 1} \<Longrightarrow> (\<forall>q \<in> {p ..< p + unat n}. idle s q) \<Longrightarrow>
      \<exists>s'. free p n s = Some s' \<and> inv s' (F \<union> {p ..< p + unat n})"
begin

lemma alloc_succeeds_iff:
  "inv s F \<Longrightarrow> 0 < n \<Longrightarrow> (\<exists>p s'. alloc n s = Some (Some p, s')) \<longleftrightarrow> (\<exists>p. {p ..< p + unat n} \<subseteq> F)"
proof
  assume i: "inv s F" and n: "0 < n"
  show "\<exists>p. {p ..< p + unat n} \<subseteq> F" if "\<exists>p s'. alloc n s = Some (Some p, s')"
    using that alloc_ok [OF i n] by blast
  show "\<exists>p s'. alloc n s = Some (Some p, s')" if "\<exists>p. {p ..< p + unat n} \<subseteq> F"
  proof -
    obtain r s' where r: "alloc n s = Some (r, s')" using alloc_total [OF i n] by auto
    with alloc_fail [OF i n] that have "r \<noteq> None" by auto
    with r show ?thesis by auto
  qed
qed

lemma alloc_free_restores:
  assumes i: "inv s F" and n: "0 < n" and a: "alloc n s = Some (Some p, s')"
  shows "\<exists>s''. free p n s' = Some s'' \<and> inv s'' F"
proof -
  note ok = alloc_ok [OF i n a]
  have "\<exists>s''. free p n s' = Some s'' \<and> inv s'' ((F - {p ..< p + unat n}) \<union> {p ..< p + unat n})"
    using ok finite_free [OF i] by (intro free_ok) (auto simp: n)
  moreover have "(F - {p ..< p + unat n}) \<union> {p ..< p + unat n} = F" using ok by auto
  ultimately show ?thesis by simp
qed

lemma alloc_twice_disjoint:
  assumes i: "inv s F" and n: "0 < n" "0 < m"
    and a: "alloc n s = Some (Some p, s')" "alloc m s' = Some (Some q, s'')"
  shows "{p ..< p + unat n} \<inter> {q ..< q + unat m} = {}"
  using alloc_ok [OF i n(1) a(1)] alloc_ok [OF _ n(2) a(2)] by blast

lemma nr_free_after_alloc:
  assumes i: "inv s F" and n: "0 < n" and a: "alloc n s = Some (Some p, s')"
  shows "unat (nr_free s') + unat n = unat (nr_free s)"
proof -
  note ok = alloc_ok [OF i n a]
  have "card (F - {p ..< p + unat n}) + card {p ..< p + unat n} = card F"
    using ok finite_free [OF i] by (metis card_Diff_subset card_mono finite_atLeastLessThan le_add_diff_inverse2)
  moreover have "inv s' (F - {p ..< p + unat n})" using ok by blast
  ultimately show ?thesis using nr_free_card [OF i] nr_free_card [of s'] by (simp del: of_nat_unat)
qed

end

definition default_inv :: "pmm \<Rightarrow> nat set \<Rightarrow> bool" where
  "default_inv s F \<longleftrightarrow> (\<exists>bs. pmm_inv s bs \<and> blocks_apart bs \<and> F = bpages bs)"

definition page_idle :: "pmm \<Rightarrow> nat \<Rightarrow> bool" where
  "page_idle s p \<longleftrightarrow> \<not> PageReserved s p \<and> \<not> PageProperty s p"

lemma find_split:
  "find P xs = Some x \<Longrightarrow> \<exists>as bs. xs = as @ x # bs \<and> P x \<and> (\<forall>a \<in> set as. \<not> P a)"
proof (induction xs)
  case (Cons y ys)
  then show ?case
  proof (cases "P y")
    case False
    with Cons obtain as bs where "ys = as @ x # bs \<and> P x \<and> (\<forall>a \<in> set as. \<not> P a)" by auto
    then show ?thesis using False by (intro exI [of _ "y # as"] exI [of _ bs]) auto
  qed (use Cons in force)
qed simp

lemma default_alloc_cases:
  assumes inv: "pmm_inv s bs" and n: "0 < n"
  obtains "default_alloc_pages n s = Some (None, s)" "\<forall>b \<in> set bs. snd b < unat n"
  | xs b ys where "bs = xs @ b # ys" "default_alloc_pages n s = Some (Some (fst b), pmm_alloc_step (fst b) n s)"
      "unat n \<le> snd b" "\<forall>a \<in> set xs. snd a < unat n"
proof (cases "find (\<lambda>b. unat n \<le> snd b) bs")
  case None
  with default_alloc_pages_eq [OF assms] that(1) show ?thesis by (fastforce simp: find_None_iff not_le)
next
  case (Some b)
  from find_split [OF Some] obtain xs ys where
    "bs = xs @ b # ys" "unat n \<le> snd b" "\<forall>a \<in> set xs. snd a < unat n"
    by (auto simp: not_le)
  with that(2) [of xs b ys] default_alloc_pages_eq [OF assms] Some show ?thesis by simp
qed

lemma run_too_long:
  assumes "pmm_inv s bs" "blocks_apart bs" "0 < n" "{p ..< p + n} \<subseteq> bpages bs"
  obtains b where "b \<in> set bs" "n \<le> snd b" "fst b \<le> p"
proof -
  from run_in_block [of bs n p] assms obtain b where b: "b \<in> set bs" "{p ..< p + n} \<subseteq> block_pages b"
    by (auto simp: pmm_inv_def)
  then have "p \<in> block_pages b" "p + n - 1 \<in> block_pages b" using assms(3) by auto
  then have "n \<le> snd b" "fst b \<le> p" using assms(3) by (auto simp: block_pages_def)
  with that b(1) show ?thesis by blast
qed

interpretation default: pmm_manager default_inv page_idle default_alloc_pages default_free_pages
  default_nr_free_pages
proof
  fix s F assume "default_inv s F"
  then obtain bs where bs: "pmm_inv s bs" "blocks_apart bs" "F = bpages bs" by (auto simp: default_inv_def)
  then show "finite F \<and> F \<subseteq> {..< 2 ^ 32 - 1}" by (simp add: pmm_inv_def)
  show "unat (default_nr_free_pages s) = card F"
    using bs by (simp add: pmm_inv_def card_bpages default_nr_free_pages_def)
next
  fix s F and n :: u32 assume i: "default_inv s F" and n: "0 < n"
  then obtain bs where bs: "pmm_inv s bs" "blocks_apart bs" "F = bpages bs" by (auto simp: default_inv_def)
  have un: "0 < unat n" using n by (simp add: word_less_nat_alt)
  show "default_alloc_pages n s \<noteq> None" by (simp add: default_alloc_pages_eq [OF bs(1) n])
  show "s' = s \<and> (\<forall>p. \<not> {p ..< p + unat n} \<subseteq> F)" if "default_alloc_pages n s = Some (None, s')" for s'
  proof (rule default_alloc_cases [OF bs(1) n])
    assume "default_alloc_pages n s = Some (None, s)" "\<forall>b \<in> set bs. snd b < unat n"
    with that run_too_long [OF bs(1,2) un] bs(3) show ?thesis by (metis option.inject prod.inject not_less)
  qed (use that in simp)
  show "{p ..< p + unat n} \<subseteq> F \<and> (\<forall>q < p. \<not> {q ..< q + unat n} \<subseteq> F) \<and>
      default_inv s' (F - {p ..< p + unat n}) \<and> (\<forall>q \<in> {p ..< p + unat n}. page_idle s' q)"
    if a: "default_alloc_pages n s = Some (Some p, s')" for p s'
  proof (rule default_alloc_cases [OF bs(1) n])
    fix xs b ys
    assume b: "bs = xs @ b # ys" "default_alloc_pages n s = Some (Some (fst b), pmm_alloc_step (fst b) n s)"
      "unat n \<le> snd b" "\<forall>a \<in> set xs. snd a < unat n"
    have ps: "p = fst b" "s' = pmm_alloc_step (fst b) n s" using a b(2) by auto
    note st = pmm_alloc_step_inv [OF bs(1) [unfolded b(1)] n b(3)]
    have sep: "blocks_sep (xs @ b # ys)" using bs(1) b(1) by (simp add: pmm_inv_def)
    have "blocks_apart (xs @ alloc_blocks (unat n) b @ ys)"
      using blocks_apart_alloc [OF sep _ un b(3)] bs(2) b(1) by simp
    with st have "default_inv s' (F - {p ..< p + unat n})"
      unfolding default_inv_def ps bs(3) b(1) by metis
    moreover have "{p ..< p + unat n} \<subseteq> F"
      using b(3) by (auto simp: bs(3) b(1) ps block_pages_def)
    moreover have "\<not> {q ..< q + unat n} \<subseteq> F" if "q < p" for q
    proof
      assume "{q ..< q + unat n} \<subseteq> F"
      then obtain c where c: "c \<in> set bs" "unat n \<le> snd c" "fst c \<le> q"
        using run_too_long [OF bs(1,2) un] bs(3) by metis
      have "c \<notin> set xs" using b(4) c(2) by auto
      then have "c = b \<or> c \<in> set ys" using c(1) b(1) by auto
      then have "fst b \<le> fst c" using sep by (auto simp: blocks_sep_append)
      with c(3) that ps show False by simp
    qed
    ultimately show ?thesis using st(3) ps by (auto simp: page_idle_def)
  qed (use a in simp)
next
  fix s F and n :: u32 and p
  assume i: "default_inv s F" and n: "0 < n" and r: "{p ..< p + unat n} \<inter> F = {}"
    "{p ..< p + unat n} \<subseteq> {..< 2 ^ 32 - 1}" "\<forall>q \<in> {p ..< p + unat n}. page_idle s q"
  then obtain bs where bs: "pmm_inv s bs" "blocks_apart bs" "F = bpages bs" by (auto simp: default_inv_def)
  have un: "0 < unat n" using n by (simp add: word_less_nat_alt)
  have "\<exists>s'. default_free_pages p n s = Some s' \<and> pmm_inv s' (free_blocks p (unat n) bs)"
    using r bs(3) by (intro default_free_pages_inv [OF bs(1) n]) (simp_all add: page_idle_def)
  then obtain s' where s': "default_free_pages p n s = Some s'" "pmm_inv s' (free_blocks p (unat n) bs)"
    by blast
  have "blocks_sep bs" using bs(1) by (simp add: pmm_inv_def)
  from blocks_apart_free [OF this bs(2) un] s' bs(3)
  show "\<exists>s'. default_free_pages p n s = Some s' \<and> default_inv s' (F \<union> {p ..< p + unat n})"
    unfolding default_inv_def by (metis bpages_free_blocks sup_commute)
qed

section \<open>Properties\<close>

text \<open>C3. First fit: a request for \<open>n\<close> pages succeeds exactly when some run of \<open>n\<close> consecutive pages is
  free; it then gets the lowest such run, the count of free pages goes down by \<open>n\<close>, and the invariant
  of the free list holds for the pages that remain.\<close>

theorem alloc_pages_first_fit:
  assumes "default_inv s F" "0 < n"
  shows "((\<exists>p s'. default_alloc_pages n s = Some (Some p, s')) \<longleftrightarrow> (\<exists>p. {p ..< p + unat n} \<subseteq> F)) \<and>
    (\<forall>p s'. default_alloc_pages n s = Some (Some p, s') \<longrightarrow>
       {p ..< p + unat n} \<subseteq> F \<and> (\<forall>q < p. \<not> {q ..< q + unat n} \<subseteq> F) \<and>
       default_inv s' (F - {p ..< p + unat n}) \<and>
       unat (default_nr_free_pages s') + unat n = unat (default_nr_free_pages s))"
  using default.alloc_succeeds_iff [OF assms] default.alloc_ok [OF assms] default.nr_free_after_alloc [OF assms] by blast

text \<open>Pages 4 to 9 are one free block.\<close>

definition example_pmm :: pmm where
  "example_pmm = \<lparr>
     pm_pages = (\<lambda>p. \<lparr>pg_ref = 0, pg_flags = (if p = 4 then bit_mask PG_property else if 4 \<le> p \<and> p < 10 then 0 else bit_mask PG_reserved),
       pg_property = (if p = 4 then 6 else 0)\<rparr>),
     pm_links = list_add_before FreeList (PageLink 4) (list_init FreeList (\<lambda>l. \<lparr>le_prev = l, le_next = l\<rparr>)),
     pm_nr_free = 6\<rparr>"

lemma example_pmm_inv: "default_inv example_pmm {4 ..< 10}"
proof -
  have "pmm_inv example_pmm [(4, 6)]"
    by (auto simp: pmm_inv_def example_pmm_def ring_def list_init_def list_add_before_def list_add_raw_def property_def
        PageReserved_def PageProperty_def block_pages_def bit_bit_mask PG_reserved_def PG_property_def blinks_def bsum_def)
  then show ?thesis unfolding default_inv_def
    by (intro exI [of _ "[(4, 6)]"]) (simp add: blocks_apart_def block_pages_def)
qed

theorem alloc_pages_first_fit_witness: "\<exists>p s'. default_alloc_pages 3 example_pmm = Some (Some p, s')"
proof -
  have "{4 ..< 4 + unat (3 :: u32)} \<subseteq> {4 ..< 10}" by auto
  then show ?thesis using alloc_pages_first_fit [OF example_pmm_inv, of 3] by auto
qed

text \<open>Allocating and freeing again restores the set of free pages, with no fragmentation left behind:
  the freed run is merged with its free neighbours.\<close>

theorem alloc_free_roundtrip:
  assumes "default_inv s F" "0 < n" "default_alloc_pages n s = Some (Some p, s')"
  shows "\<exists>s''. default_free_pages p n s' = Some s'' \<and> default_inv s'' F"
  by (rule default.alloc_free_restores [OF assms])

theorem alloc_free_roundtrip_witness:
  "\<exists>p s' s''. default_alloc_pages 3 example_pmm = Some (Some p, s') \<and> default_free_pages p 3 s' = Some s'' \<and>
    default_inv s'' {4 ..< 10}"
proof -
  have "\<exists>p. {p ..< p + unat (3 :: u32)} \<subseteq> {4 ..< 10}" by (intro exI [of _ 4]) auto
  then obtain p s' where a: "default_alloc_pages 3 example_pmm = Some (Some p, s')"
    using default.alloc_succeeds_iff [OF example_pmm_inv, of 3] by auto
  from alloc_free_roundtrip [OF example_pmm_inv _ a] a show ?thesis by auto
qed

text \<open>C18. \<^verbatim>\<open>default_free_pages\<close> accepts any run of idle pages that is not free, wherever it lies, and the
  free list afterwards holds exactly those pages more, in maximal blocks in address order.\<close>

theorem free_pages_coalesces:
  assumes "default_inv s F" "0 < n" "{p ..< p + unat n} \<inter> F = {}" "{p ..< p + unat n} \<subseteq> {..< 2 ^ 32 - 1}"
    "\<forall>q \<in> {p ..< p + unat n}. page_idle s q"
  shows "\<exists>s'. default_free_pages p n s = Some s' \<and> default_inv s' (F \<union> {p ..< p + unat n})"
  by (rule default.free_ok [OF assms])

theorem free_pages_coalesces_witness:
  "\<exists>s'. default_free_pages 4 2 (set_page_ref 4 1 (example_pmm\<lparr>pm_links := list_init FreeList (pm_links example_pmm),
     pm_pages := (\<lambda>_. \<lparr>pg_ref = 1, pg_flags = 0, pg_property = 0\<rparr>), pm_nr_free := 0\<rparr>)) = Some s' \<and> default_inv s' {4, 5}"
proof -
  let ?s = "set_page_ref 4 1 (example_pmm\<lparr>pm_links := list_init FreeList (pm_links example_pmm),
     pm_pages := (\<lambda>_. \<lparr>pg_ref = 1, pg_flags = 0, pg_property = 0\<rparr>), pm_nr_free := 0\<rparr>)"
  have "pmm_inv ?s []"
    by (simp add: pmm_inv_def set_page_ref_def upd_page_def ring_def list_init_def bsum_def)
  then have "default_inv ?s {}" unfolding default_inv_def by (intro exI [of _ "[]"]) (simp add: blocks_apart_def)
  moreover have "\<forall>q \<in> {4 ..< 4 + unat (2 :: u32)}. page_idle ?s q"
    by (simp add: page_idle_def PageReserved_def PageProperty_def set_page_ref_def upd_page_def)
  moreover have "{4 ..< 4 + unat (2 :: u32)} = {4, 5}" by auto
  ultimately show ?thesis using free_pages_coalesces [of ?s "{}" 2 4] by auto
qed

end
