(* ===== verification/Fifo.thy ===== *)
theory Fifo
  imports ListH
begin

text \<open>
  The contract of the kernel's intrusive queues (the run queue of \<^verbatim>\<open>kern/schedule\<close>, the wait queues
  of \<^verbatim>\<open>kern/sync/wait.c\<close>): append at the tail, unlink anywhere, look at the head; the code asserts
  that what it appends is in no queue and that what it unlinks is in this one. \<open>inv s xs\<close>: the
  queue holds \<open>xs\<close> in order; \<open>idle s x\<close>: \<open>x\<close> is linked nowhere. \<open>None\<close> is a failed assertion.
\<close>

locale fifo =
  fixes inv :: "'s \<Rightarrow> nat list \<Rightarrow> bool"
    and idle :: "'s \<Rightarrow> nat \<Rightarrow> bool"
    and enq :: "nat \<Rightarrow> 's \<Rightarrow> 's option"
    and unlink :: "nat \<Rightarrow> 's \<Rightarrow> 's option"
    and first :: "'s \<Rightarrow> nat option"
  assumes inv_distinct: "inv s xs \<Longrightarrow> distinct xs"
    and enq_ok: "inv s xs \<Longrightarrow> x \<notin> set xs \<Longrightarrow> idle s x \<Longrightarrow> \<exists>s'. enq x s = Some s' \<and> inv s' (xs @ [x])"
    and enq_refused: "inv s xs \<Longrightarrow> x \<in> set xs \<Longrightarrow> enq x s = None"
    and unlink_ok: "inv s (xs @ x # ys) \<Longrightarrow> \<exists>s'. unlink x s = Some s' \<and> inv s' (xs @ ys) \<and> idle s' x"
    and unlink_refused: "inv s xs \<Longrightarrow> idle s x \<Longrightarrow> unlink x s = None"
    and first_eq: "inv s xs \<Longrightarrow> first s = (case xs of [] \<Rightarrow> None | x # _ \<Rightarrow> Some x)"
begin

text \<open>Taking the head off the queue; \<open>turn\<close> takes it and appends it again.\<close>

definition take_first :: "'s \<Rightarrow> (nat \<times> 's) option" where
  "take_first s = (case first s of None \<Rightarrow> None | Some x \<Rightarrow> map_option (Pair x) (unlink x s))"

definition turn :: "'s \<Rightarrow> (nat \<times> 's) option" where
  "turn s = (case take_first s of None \<Rightarrow> None | Some (x, s') \<Rightarrow> map_option (Pair x) (enq x s'))"

primrec turns :: "nat \<Rightarrow> 's \<Rightarrow> (nat list \<times> 's) option" where
  "turns 0 s = Some ([], s)"
| "turns (Suc n) s = (case turn s of None \<Rightarrow> None | Some (x, s') \<Rightarrow>
     (case turns n s' of None \<Rightarrow> None | Some (xs, s'') \<Rightarrow> Some (x # xs, s'')))"

lemma take_first_Cons:
  "inv s (x # xs) \<Longrightarrow> \<exists>s'. take_first s = Some (x, s') \<and> inv s' xs \<and> idle s' x"
  using unlink_ok [of s "[]" x xs] first_eq [of s "x # xs"] by (auto simp: take_first_def)

lemma take_first_Nil: "inv s [] \<Longrightarrow> take_first s = None"
  using first_eq [of s "[]"] by (simp add: take_first_def)

lemma turn_rotates: "inv s (x # xs) \<Longrightarrow> \<exists>s'. turn s = Some (x, s') \<and> inv s' (xs @ [x])"
proof -
  assume i: "inv s (x # xs)"
  obtain s' where s': "take_first s = Some (x, s')" "inv s' xs" "idle s' x"
    using take_first_Cons [OF i] by blast
  have "x \<notin> set xs" using inv_distinct [OF i] by simp
  from enq_ok [OF s'(2) this s'(3)] s'(1) show ?thesis by (auto simp: turn_def)
qed

text \<open>In \<open>n\<close> turns the first \<open>n\<close> entries are served in order, whatever follows them.\<close>

lemma turns_prefix:
  "inv s (xs @ ys) \<Longrightarrow> \<exists>s'. turns (length xs) s = Some (xs, s') \<and> inv s' (ys @ xs)"
proof (induction xs arbitrary: s ys)
  case Nil
  then show ?case by simp
next
  case (Cons x xs)
  then obtain s' where s': "turn s = Some (x, s')" "inv s' (xs @ (ys @ [x]))"
    using turn_rotates [of s x "xs @ ys"] by auto
  from Cons.IH [OF s'(2)] s'(1) show ?case by auto
qed

lemma turns_all: "inv s xs \<Longrightarrow> \<exists>s'. turns (length xs) s = Some (xs, s') \<and> inv s' xs"
  using turns_prefix [of s xs "[]"] by simp

lemma served_within_length:
  "inv s xs \<Longrightarrow> x \<in> set xs \<Longrightarrow> \<exists>ts s'. turns (length xs) s = Some (ts, s') \<and> x \<in> set ts"
  using turns_all by blast

end

end
