(* ===== verification/ProcState.thy ===== *)
theory ProcState
  imports ListH
begin

text \<open>
  The process table of \<^verbatim>\<open>kern/process/proc.h\<close> and the state the scheduler, the timers, the wait
  queues and the semaphores share. A pointer to a process, timer, wait entry or semaphore is a
  number; NULL is \<open>None\<close>. All the list links embedded in these structures live in one link
  memory, whose addresses are the constructors of \<open>klink\<close>.

  The code brackets each of these operations with \<open>local_intr_save\<close> and \<open>local_intr_restore\<close>
  on a single CPU: an operation is one step of the state.
\<close>

datatype klink =
    TimerList | RunList | ProcList | HashList nat | WaitHead nat
  | TimerLink nat | RunLink nat | ListLink nat | HashLink nat | WaitLink nat

datatype proc_state = PROC_UNINIT | PROC_SLEEPING | PROC_RUNNABLE | PROC_ZOMBIE

datatype reg = R_zero | R_at | R_v0 | R_v1 | R_a0 | R_a1 | R_a2 | R_a3
  | R_t0 | R_t1 | R_t2 | R_t3 | R_t4 | R_t5 | R_t6 | R_t7
  | R_s0 | R_s1 | R_s2 | R_s3 | R_s4 | R_s5 | R_s6 | R_s7
  | R_t8 | R_t9 | R_k0 | R_k1 | R_gp | R_sp | R_fp | R_ra

record trapframe =
  tf_regs :: "reg \<Rightarrow> u32"
  tf_Status :: u32
  tf_Cause :: u32
  tf_EPC :: u32
  tf_BadVAddr :: u32
  tf_LO :: u32
  tf_HI :: u32

record proc_context =
  ctx_ra :: u32
  ctx_sp :: u32

record proc_struct =
  pr_state :: proc_state
  pr_pid :: int
  pr_runs :: int
  pr_kstack :: u32
  pr_need_resched :: bool
  pr_parent :: "nat option"
  pr_mm :: "nat option"
  pr_context :: proc_context
  pr_tf :: trapframe
  pr_pgdir :: u32
  pr_flags :: u32
  pr_name :: "u8 list"
  pr_exit_code :: int
  pr_wait_state :: u32
  pr_cptr :: "nat option"
  pr_yptr :: "nat option"
  pr_optr :: "nat option"
  pr_in_rq :: bool
  pr_time_slice :: int
  pr_lab6_priority :: u32
  pr_filesp :: "nat option"

record timer =
  tm_expires :: u32
  tm_proc :: "nat option"

record wait =
  w_proc :: "nat option"
  w_wakeup_flags :: u32
  w_queue :: "nat option"

definition PF_EXITING :: u32 where "PF_EXITING = 0x00000001"
definition WT_INTERRUPTED :: u32 where "WT_INTERRUPTED = 0x80000000"
definition WT_CHILD :: u32 where "WT_CHILD = 0x00000001 OR WT_INTERRUPTED"
definition WT_KSEM :: u32 where "WT_KSEM = 0x00000100"
definition WT_TIMER :: u32 where "WT_TIMER = 0x00000002 OR WT_INTERRUPTED"
definition WT_KBD :: u32 where "WT_KBD = 0x00000004 OR WT_INTERRUPTED"

definition MAX_PROCESS :: int where "MAX_PROCESS = 4096"
definition MAX_PID :: int where "MAX_PID = MAX_PROCESS * 2"

text \<open>\<open>proc->rq == rq\<close> can only ask for the one run queue there is: \<open>pr_in_rq\<close> says that the
  field points to it.\<close>

record kstate =
  k_links :: "klink lheap"
  k_procs :: "nat \<Rightarrow> proc_struct"
  k_timers :: "nat \<Rightarrow> timer"
  k_waits :: "nat \<Rightarrow> wait"
  k_sems :: "nat \<Rightarrow> int"
  k_current :: nat
  k_idleproc :: nat
  k_initproc :: nat
  k_proc_num :: u32
  k_max_time_slice :: int
  k_nr_process :: int
  k_next_safe :: int
  k_last_pid :: int

definition upd_proc :: "nat \<Rightarrow> (proc_struct \<Rightarrow> proc_struct) \<Rightarrow> kstate \<Rightarrow> kstate" where
  "upd_proc p f s = s\<lparr>k_procs := (k_procs s)(p := f (k_procs s p))\<rparr>"

lemma upd_proc_sel [simp]:
  "k_procs (upd_proc p f s) q = (if q = p then f (k_procs s p) else k_procs s q)"
  "k_links (upd_proc p f s) = k_links s" "k_timers (upd_proc p f s) = k_timers s"
  "k_waits (upd_proc p f s) = k_waits s" "k_sems (upd_proc p f s) = k_sems s"
  "k_current (upd_proc p f s) = k_current s" "k_idleproc (upd_proc p f s) = k_idleproc s"
  "k_initproc (upd_proc p f s) = k_initproc s" "k_proc_num (upd_proc p f s) = k_proc_num s"
  "k_max_time_slice (upd_proc p f s) = k_max_time_slice s"
  "k_nr_process (upd_proc p f s) = k_nr_process s"
  "k_next_safe (upd_proc p f s) = k_next_safe s" "k_last_pid (upd_proc p f s) = k_last_pid s"
  by (simp_all add: upd_proc_def)

section \<open>A small concrete state\<close>

text \<open>Process 0 is the idle process, process 1 runs, processes 2 and 3 wait in the run queue.\<close>

definition example_proc :: "proc_state \<Rightarrow> int \<Rightarrow> bool \<Rightarrow> proc_struct" where
  "example_proc st pid rq = \<lparr>pr_state = st, pr_pid = pid, pr_runs = 0, pr_kstack = 0, pr_need_resched = False,
     pr_parent = None, pr_mm = None, pr_context = \<lparr>ctx_ra = 0, ctx_sp = 0\<rparr>,
     pr_tf = \<lparr>tf_regs = (\<lambda>_. 0), tf_Status = 0, tf_Cause = 0, tf_EPC = 0, tf_BadVAddr = 0, tf_LO = 0, tf_HI = 0\<rparr>,
     pr_pgdir = 0, pr_flags = 0, pr_name = [], pr_exit_code = 0, pr_wait_state = 0, pr_cptr = None,
     pr_yptr = None, pr_optr = None, pr_in_rq = rq, pr_time_slice = 5, pr_lab6_priority = 0, pr_filesp = None\<rparr>"

definition example_kstate :: kstate where
  "example_kstate = \<lparr>
     k_links = list_add_before RunList (RunLink 3) (list_add_before RunList (RunLink 2)
       (list_init RunList (\<lambda>l. \<lparr>le_prev = l, le_next = l\<rparr>))),
     k_procs = (\<lambda>p. example_proc PROC_RUNNABLE (int p) (p = 2 \<or> p = 3)),
     k_timers = (\<lambda>t. \<lparr>tm_expires = 4, tm_proc = Some t\<rparr>),
     k_waits = (\<lambda>w. \<lparr>w_proc = None, w_wakeup_flags = 0, w_queue = None\<rparr>),
     k_sems = (\<lambda>_. 1), k_current = 1, k_idleproc = 0, k_initproc = 1, k_proc_num = 2, k_max_time_slice = 20,
     k_nr_process = 4, k_next_safe = MAX_PID, k_last_pid = MAX_PID\<rparr>"

lemma example_kstate_sel [simp]:
  "k_current example_kstate = 1" "k_idleproc example_kstate = 0" "k_sems example_kstate = (\<lambda>_. 1)"
  "k_procs example_kstate p = example_proc PROC_RUNNABLE (int p) (p = 2 \<or> p = 3)"
  "pr_state (example_proc st pid rq) = st" "pr_pid (example_proc st pid rq) = pid"
  "pr_parent (example_proc st pid rq) = None" "pr_cptr (example_proc st pid rq) = None"
  "k_next_safe example_kstate = MAX_PID" "k_last_pid example_kstate = MAX_PID"
  "k_timers example_kstate t = \<lparr>tm_expires = 4, tm_proc = Some t\<rparr>"
  by (simp_all add: example_kstate_def example_proc_def)

lemma example_kstate_links:
  "ring (k_links example_kstate) RunList [RunLink 2, RunLink 3]" "ring (k_links example_kstate) TimerList []"
  "ring (k_links example_kstate) (WaitHead q) []" "ring (k_links example_kstate) ProcList []"
  "ring (k_links example_kstate) (HashList b) []" "unlinked (k_links example_kstate) (TimerLink t)"
  "unlinked (k_links example_kstate) (HashLink p)" "unlinked (k_links example_kstate) (RunLink 1)"
  by (simp_all add: example_kstate_def ring_def list_init_def list_add_before_def list_add_raw_def unlinked_def)

end
