(* ===== verification/Sched.thy ===== *)
theory Sched
  imports ProcState Fifo
begin

text \<open>
  \<^verbatim>\<open>kern/schedule\<close>: the round-robin class \<^verbatim>\<open>default_sched.c\<close> and the scheduler and timer list of
  \<^verbatim>\<open>sched.c\<close>. The run queue is shown to be a FIFO queue (locale \<open>fifo\<close>); the timer list, which
  stores differences of expiry times, is abstracted to absolute expiry times.
\<close>

section \<open>default_sched.c\<close>

definition RR_init :: "kstate \<Rightarrow> kstate" where
  "RR_init s = s\<lparr>k_links := list_init RunList (k_links s), k_proc_num := 0\<rparr>"

definition RR_enqueue :: "nat \<Rightarrow> kstate \<Rightarrow> kstate option" where
  "RR_enqueue p s = do {
     kassert (list_empty (RunLink p) (k_links s));
     let s = s\<lparr>k_links := list_add_before RunList (RunLink p) (k_links s)\<rparr>;
     let ts = pr_time_slice (k_procs s p);
     let s = (if ts = 0 \<or> ts > k_max_time_slice s
              then upd_proc p (pr_time_slice_update (\<lambda>_. k_max_time_slice s)) s else s);
     let s = upd_proc p (pr_in_rq_update (\<lambda>_. True)) s;
     Some (s\<lparr>k_proc_num := k_proc_num s + 1\<rparr>) }"

definition RR_dequeue :: "nat \<Rightarrow> kstate \<Rightarrow> kstate option" where
  "RR_dequeue p s = do {
     kassert (\<not> list_empty (RunLink p) (k_links s) \<and> pr_in_rq (k_procs s p));
     let s = s\<lparr>k_links := list_del_init (RunLink p) (k_links s)\<rparr>;
     Some (s\<lparr>k_proc_num := k_proc_num s - 1\<rparr>) }"

definition RR_pick_next :: "kstate \<Rightarrow> nat option" where
  "RR_pick_next s = (case list_next RunList (k_links s) of RunLink p \<Rightarrow> Some p | _ \<Rightarrow> None)"

definition RR_proc_tick :: "nat \<Rightarrow> kstate \<Rightarrow> kstate" where
  "RR_proc_tick p s =
     (let s = (if pr_time_slice (k_procs s p) > 0
               then upd_proc p (pr_time_slice_update (\<lambda>t. t - 1)) s else s)
      in if pr_time_slice (k_procs s p) = 0
         then upd_proc p (pr_need_resched_update (\<lambda>_. True)) s else s)"

section \<open>sched.c\<close>

definition MAX_TIME_SLICE :: int where "MAX_TIME_SLICE = 20"

definition sched_class_enqueue :: "nat \<Rightarrow> kstate \<Rightarrow> kstate option" where
  "sched_class_enqueue p s = (if p \<noteq> k_idleproc s then RR_enqueue p s else Some s)"

definition sched_class_dequeue :: "nat \<Rightarrow> kstate \<Rightarrow> kstate option" where
  "sched_class_dequeue p s = RR_dequeue p s"

definition sched_class_pick_next :: "kstate \<Rightarrow> nat option" where
  "sched_class_pick_next s = RR_pick_next s"

definition sched_class_proc_tick :: "nat \<Rightarrow> kstate \<Rightarrow> kstate" where
  "sched_class_proc_tick p s =
     (if p \<noteq> k_idleproc s then RR_proc_tick p s
      else upd_proc p (pr_need_resched_update (\<lambda>_. True)) s)"

definition sched_init :: "kstate \<Rightarrow> kstate" where
  "sched_init s =
     (let s = s\<lparr>k_links := list_init TimerList (k_links s)\<rparr>;
          s = s\<lparr>k_max_time_slice := MAX_TIME_SLICE\<rparr>
      in RR_init s)"

definition wakeup_proc :: "nat \<Rightarrow> kstate \<Rightarrow> kstate option" where
  "wakeup_proc p s = do {
     kassert (pr_state (k_procs s p) \<noteq> PROC_ZOMBIE);
     if pr_state (k_procs s p) \<noteq> PROC_RUNNABLE then do {
       let s = upd_proc p (pr_state_update (\<lambda>_. PROC_RUNNABLE)) s;
       let s = upd_proc p (pr_wait_state_update (\<lambda>_. 0)) s;
       if p \<noteq> k_current s then sched_class_enqueue p s else Some s }
     else Some s }"

text \<open>\<open>proc_run\<close> (\<^verbatim>\<open>process/proc.c\<close>): the page directory and the kernel stack pointer it loads are
  those of the new current process; \<^verbatim>\<open>switch_to\<close> is assembly and switches the registers.\<close>

definition proc_run :: "nat \<Rightarrow> kstate \<Rightarrow> kstate" where
  "proc_run p s = (if p \<noteq> k_current s then s\<lparr>k_current := p\<rparr> else s)"

definition schedule :: "kstate \<Rightarrow> kstate option" where
  "schedule s = do {
     let s = upd_proc (k_current s) (pr_need_resched_update (\<lambda>_. False)) s;
     s \<leftarrow> (if pr_state (k_procs s (k_current s)) = PROC_RUNNABLE
           then sched_class_enqueue (k_current s) s else Some s);
     let nx = sched_class_pick_next s;
     s \<leftarrow> (case nx of Some n \<Rightarrow> sched_class_dequeue n s | None \<Rightarrow> Some s);
     let n = (case nx of Some n \<Rightarrow> n | None \<Rightarrow> k_idleproc s);
     let s = upd_proc n (pr_runs_update (\<lambda>r. r + 1)) s;
     Some (if n \<noteq> k_current s then proc_run n s else s) }"

section \<open>Timers\<close>

definition upd_timer :: "nat \<Rightarrow> (timer \<Rightarrow> timer) \<Rightarrow> kstate \<Rightarrow> kstate" where
  "upd_timer t f s = s\<lparr>k_timers := (k_timers s)(t := f (k_timers s t))\<rparr>"

definition timer_init :: "nat \<Rightarrow> nat \<Rightarrow> u32 \<Rightarrow> kstate \<Rightarrow> kstate" where
  "timer_init t p expires s =
     (upd_timer t (\<lambda>_. \<lparr>tm_expires = expires, tm_proc = Some p\<rparr>) s)
       \<lparr>k_links := list_init (TimerLink t) (k_links s)\<rparr>"

text \<open>The loop of \<open>add_timer\<close>, with \<open>le\<close> as in the code; it ends in the insertion.\<close>

partial_function (option) add_timer_loop :: "klink \<Rightarrow> nat \<Rightarrow> kstate \<Rightarrow> kstate option" where
  "add_timer_loop le t s =
     (case le of
        TimerLink n \<Rightarrow>
          if tm_expires (k_timers s t) < tm_expires (k_timers s n) then
            let s = upd_timer n (tm_expires_update (\<lambda>e. e - tm_expires (k_timers s t))) s
            in Some (s\<lparr>k_links := list_add_before le (TimerLink t) (k_links s)\<rparr>)
          else
            let s = upd_timer t (tm_expires_update (\<lambda>e. e - tm_expires (k_timers s n))) s
            in add_timer_loop (list_next le (k_links s)) t s
      | _ \<Rightarrow> Some (s\<lparr>k_links := list_add_before le (TimerLink t) (k_links s)\<rparr>))"

definition add_timer :: "nat \<Rightarrow> kstate \<Rightarrow> kstate option" where
  "add_timer t s = do {
     kassert (tm_expires (k_timers s t) > 0 \<and> tm_proc (k_timers s t) \<noteq> None);
     kassert (list_empty (TimerLink t) (k_links s));
     add_timer_loop (list_next TimerList (k_links s)) t s }"

definition del_timer :: "nat \<Rightarrow> kstate \<Rightarrow> kstate" where
  "del_timer t s =
     (if \<not> list_empty (TimerLink t) (k_links s) then
        let s = (if tm_expires (k_timers s t) \<noteq> 0 then
                   (case list_next (TimerLink t) (k_links s) of
                      TimerLink n \<Rightarrow> upd_timer n (tm_expires_update (\<lambda>e. e + tm_expires (k_timers s t))) s
                    | _ \<Rightarrow> s)
                 else s)
        in s\<lparr>k_links := list_del_init (TimerLink t) (k_links s)\<rparr>
      else s)"

text \<open>The \<open>while\<close> loop of \<open>run_timer_list\<close> at timer \<open>t\<close>; a timer without a process would be a
  NULL dereference.\<close>

partial_function (option) run_timer_loop :: "nat \<Rightarrow> kstate \<Rightarrow> kstate option" where
  "run_timer_loop t s =
     (if tm_expires (k_timers s t) = 0 then do {
        let le = list_next (TimerLink t) (k_links s);
        p \<leftarrow> tm_proc (k_timers s t);
        kassert (pr_wait_state (k_procs s p) = 0 \<or> pr_wait_state (k_procs s p) AND WT_INTERRUPTED \<noteq> 0);
        s \<leftarrow> wakeup_proc p s;
        let s = del_timer t s;
        (case le of TimerLink n \<Rightarrow> run_timer_loop n s | _ \<Rightarrow> Some s) }
      else Some s)"

definition run_timer_list :: "kstate \<Rightarrow> kstate option" where
  "run_timer_list s = do {
     s \<leftarrow> (case list_next TimerList (k_links s) of
             TimerLink t \<Rightarrow> do {
               kassert (tm_expires (k_timers s t) \<noteq> 0);
               let s = upd_timer t (tm_expires_update (\<lambda>e. e - 1)) s;
               run_timer_loop t s }
           | _ \<Rightarrow> Some s);
     Some (sched_class_proc_tick (k_current s) s) }"

section \<open>The run queue is a FIFO queue\<close>

definition rq_inv :: "kstate \<Rightarrow> nat list \<Rightarrow> bool" where
  "rq_inv s xs \<longleftrightarrow> ring (k_links s) RunList (map RunLink xs) \<and> (\<forall>x \<in> set xs. pr_in_rq (k_procs s x)) \<and>
     k_proc_num s = of_nat (length xs)"

definition rq_idle :: "kstate \<Rightarrow> nat \<Rightarrow> bool" where
  "rq_idle s x \<longleftrightarrow> unlinked (k_links s) (RunLink x)"

text \<open>The state after \<open>RR_enqueue\<close>.\<close>

definition rr_slice :: "kstate \<Rightarrow> nat \<Rightarrow> int" where
  "rr_slice s p =
     (let ts = pr_time_slice (k_procs s p)
      in if ts = 0 \<or> ts > k_max_time_slice s then k_max_time_slice s else ts)"

definition rr_enqueued :: "nat \<Rightarrow> kstate \<Rightarrow> kstate" where
  "rr_enqueued p s = s\<lparr>k_links := list_add_before RunList (RunLink p) (k_links s),
     k_procs := (k_procs s)(p := (k_procs s p)\<lparr>pr_time_slice := rr_slice s p, pr_in_rq := True\<rparr>),
     k_proc_num := k_proc_num s + 1\<rparr>"

lemma RR_enqueue_eq:
  "RR_enqueue p s = (if list_empty (RunLink p) (k_links s) then Some (rr_enqueued p s) else None)"
  by (simp add: RR_enqueue_def rr_enqueued_def rr_slice_def Let_def kassert_def upd_proc_def)

lemma rq_inv_enqueued:
  assumes "rq_inv s xs" "x \<notin> set xs"
  shows "rq_inv (rr_enqueued x s) (xs @ [x])"
proof -
  have "ring (list_add_before RunList (RunLink x) (k_links s)) RunList (map RunLink xs @ [RunLink x])"
    using assms by (intro ring_add_before_head) (auto simp: rq_inv_def)
  with assms show ?thesis by (auto simp: rq_inv_def rr_enqueued_def)
qed

lemma rq_inv_dequeued:
  assumes "rq_inv s (xs @ x # ys)"
  shows "RR_dequeue x s = Some (s\<lparr>k_links := list_del_init (RunLink x) (k_links s), k_proc_num := k_proc_num s - 1\<rparr>)"
    and "rq_inv (s\<lparr>k_links := list_del_init (RunLink x) (k_links s), k_proc_num := k_proc_num s - 1\<rparr>) (xs @ ys)"
proof -
  have r: "ring (k_links s) RunList (map RunLink xs @ RunLink x # map RunLink ys)" "pr_in_rq (k_procs s x)"
    using assms by (simp_all add: rq_inv_def)
  have "\<not> list_empty (RunLink x) (k_links s)"
    by (rule ring_elem_not_empty [OF r(1)]) simp
  with r(2) show "RR_dequeue x s = Some (s\<lparr>k_links := list_del_init (RunLink x) (k_links s), k_proc_num := k_proc_num s - 1\<rparr>)"
    by (simp add: RR_dequeue_def)
  show "rq_inv (s\<lparr>k_links := list_del_init (RunLink x) (k_links s), k_proc_num := k_proc_num s - 1\<rparr>) (xs @ ys)"
    using assms ring_del_init [OF r(1)] by (auto simp: rq_inv_def)
qed

lemma RR_pick_next_eq: "rq_inv s xs \<Longrightarrow> RR_pick_next s = (case xs of [] \<Rightarrow> None | x # _ \<Rightarrow> Some x)"
  using ring_next_head [of "k_links s" RunList "map RunLink xs"]
  by (cases xs) (simp_all add: RR_pick_next_def rq_inv_def)

interpretation rr: fifo rq_inv rq_idle RR_enqueue RR_dequeue RR_pick_next
proof
  fix s xs x ys
  show "rq_inv s xs \<Longrightarrow> distinct xs"
    by (auto simp: rq_inv_def distinct_map dest: ring_distinct)
  show "rq_inv s xs \<Longrightarrow> x \<notin> set xs \<Longrightarrow> rq_idle s x \<Longrightarrow> \<exists>s'. RR_enqueue x s = Some s' \<and> rq_inv s' (xs @ [x])"
    using rq_inv_enqueued [of s xs x] by (simp add: RR_enqueue_eq rq_idle_def unlinked_list_empty)
  show "rq_inv s xs \<Longrightarrow> x \<in> set xs \<Longrightarrow> RR_enqueue x s = None"
    using ring_elem_not_empty [of "k_links s" RunList "map RunLink xs" "RunLink x"]
    by (simp add: RR_enqueue_eq rq_inv_def)
  show "rq_inv s (xs @ x # ys) \<Longrightarrow> \<exists>s'. RR_dequeue x s = Some s' \<and> rq_inv s' (xs @ ys) \<and> rq_idle s' x"
    using rq_inv_dequeued [of s xs x ys] by (simp add: rq_idle_def unlinked_del_init)
  show "rq_inv s xs \<Longrightarrow> rq_idle s x \<Longrightarrow> RR_dequeue x s = None"
    by (simp add: RR_dequeue_def rq_idle_def unlinked_list_empty kassert_def)
  show "rq_inv s xs \<Longrightarrow> RR_pick_next s = (case xs of [] \<Rightarrow> None | x # _ \<Rightarrow> Some x)"
    by (rule RR_pick_next_eq)
qed

section \<open>schedule\<close>

text \<open>The queue as \<open>schedule\<close> sees it when it picks: the current process is appended if it can
  still run and is not the idle process.\<close>

definition sched_queue :: "kstate \<Rightarrow> nat list \<Rightarrow> nat list" where
  "sched_queue s xs =
     (if pr_state (k_procs s (k_current s)) = PROC_RUNNABLE \<and> k_current s \<noteq> k_idleproc s
      then xs @ [k_current s] else xs)"

lemma rq_inv_upd_proc:
  "(\<And>pr. pr_in_rq (f pr) = pr_in_rq pr) \<Longrightarrow> rq_inv (upd_proc p f s) xs = rq_inv s xs"
  by (auto simp: rq_inv_def)

lemma rr_enqueued_sel [simp]:
  "k_current (rr_enqueued p s) = k_current s" "k_idleproc (rr_enqueued p s) = k_idleproc s"
  "pr_state (k_procs (rr_enqueued p s) q) = pr_state (k_procs s q)"
  "k_timers (rr_enqueued p s) = k_timers s" "k_waits (rr_enqueued p s) = k_waits s"
  "k_sems (rr_enqueued p s) = k_sems s"
  "pr_wait_state (k_procs (rr_enqueued p s) q) = pr_wait_state (k_procs s q)"
  by (simp_all add: rr_enqueued_def)

lemma rq_idle_after_enqueue:
  assumes "rq_inv s xs" "p \<notin> set xs" "p \<noteq> x" "rq_idle s p"
  shows "rq_idle (rr_enqueued x s) p"
proof -
  have "list_add_before RunList (RunLink x) (k_links s) (RunLink p) = k_links s (RunLink p)"
    using assms by (intro list_add_before_frame [where xs = "map RunLink xs"]) (auto simp: rq_inv_def)
  with assms(4) show ?thesis by (simp add: rq_idle_def rr_enqueued_def unlinked_def)
qed

lemma schedule_spec:
  assumes inv: "rq_inv s xs" and cur: "rq_idle s (k_current s)" "k_current s \<notin> set xs"
  shows "\<exists>s'. schedule s = Some s' \<and>
    k_current s' = (case sched_queue s xs of [] \<Rightarrow> k_idleproc s | x # _ \<Rightarrow> x) \<and>
    rq_inv s' (tl (sched_queue s xs)) \<and> k_idleproc s' = k_idleproc s \<and>
    (\<forall>p. pr_state (k_procs s' p) = pr_state (k_procs s p)) \<and>
    (sched_queue s xs \<noteq> [] \<longrightarrow> rq_idle s' (k_current s'))"
proof -
  let ?s0 = "upd_proc (k_current s) (pr_need_resched_update (\<lambda>_. False)) s"
  let ?q = "sched_queue s xs"
  have i0: "rq_inv ?s0 xs" using inv by (simp add: rq_inv_upd_proc)
  define s1 where "s1 = (if ?q = xs then ?s0 else rr_enqueued (k_current s) ?s0)"
  have ne: "xs @ [k_current s] \<noteq> xs" by simp
  have e1: "(if pr_state (k_procs ?s0 (k_current ?s0)) = PROC_RUNNABLE
             then sched_class_enqueue (k_current ?s0) ?s0 else Some ?s0) = Some s1"
    using cur(1) by (auto simp: s1_def sched_queue_def sched_class_enqueue_def RR_enqueue_eq rq_idle_def
        unlinked_list_empty)
  have i1: "rq_inv s1 ?q"
    using i0 cur(2) rq_inv_enqueued [OF i0 cur(2)] by (auto simp: s1_def sched_queue_def)
  have sel1: "k_current s1 = k_current s" "k_idleproc s1 = k_idleproc s"
    "\<forall>p. pr_state (k_procs s1 p) = pr_state (k_procs s p)"
    by (auto simp: s1_def)
  show ?thesis
  proof (cases ?q)
    case Nil
    then have "schedule s = Some (let s = upd_proc (k_idleproc s) (pr_runs_update (\<lambda>r. r + 1)) s1
        in if k_idleproc s \<noteq> k_current s then proc_run (k_idleproc s) s else s)"
      using e1 i1 RR_pick_next_eq [OF i1] sel1
      by (simp add: schedule_def Let_def sched_class_pick_next_def)
    then show ?thesis
      using i1 Nil sel1 by (auto simp: Let_def proc_run_def rq_inv_def)
  next
    case (Cons x ys)
    note d = rq_inv_dequeued [of s1 "[]" x ys, simplified, OF i1 [unfolded Cons]]
    let ?s2 = "s1\<lparr>k_links := list_del_init (RunLink x) (k_links s1), k_proc_num := k_proc_num s1 - 1\<rparr>"
    let ?s3 = "upd_proc x (pr_runs_update (\<lambda>r. r + 1)) ?s2"
    have "schedule s = Some (if x \<noteq> k_current s then proc_run x ?s3 else ?s3)"
      using e1 d(1) RR_pick_next_eq [OF i1] Cons sel1
      by (simp add: schedule_def Let_def sched_class_pick_next_def sched_class_dequeue_def)
    moreover have "rq_inv ?s3 ys" using d(2) by (simp add: rq_inv_upd_proc)
    ultimately show ?thesis
      using Cons sel1 unlinked_del_init [of "RunLink x" "k_links s1"]
      by (auto simp: proc_run_def rq_inv_def rq_idle_def)
  qed
qed

text \<open>\<open>schedules n s\<close>: \<open>n\<close> reschedulings in a row, and the processes that get the CPU.\<close>

primrec schedules :: "nat \<Rightarrow> kstate \<Rightarrow> (nat list \<times> kstate) option" where
  "schedules 0 s = Some ([], s)"
| "schedules (Suc n) s = do {
     s \<leftarrow> schedule s;
     (ps, s') \<leftarrow> schedules n s;
     Some (k_current s # ps, s') }"

lemma schedules_round_robin:
  assumes "rq_inv s (xs @ ys)" "rq_idle s (k_current s)" "k_current s \<notin> set (xs @ ys)"
    and "\<forall>p \<in> set (k_current s # xs @ ys). pr_state (k_procs s p) = PROC_RUNNABLE \<and> p \<noteq> k_idleproc s"
  shows "\<exists>s'. schedules (length xs) s = Some (xs, s') \<and> k_current s' = last (k_current s # xs) \<and>
    rq_inv s' (ys @ butlast (k_current s # xs))"
  using assms
proof (induction xs arbitrary: s ys)
  case Nil
  then show ?case by simp
next
  case (Cons x xs)
  have q: "sched_queue s (x # xs @ ys) = x # xs @ ys @ [k_current s]"
    using Cons.prems(4) by (simp add: sched_queue_def)
  obtain s1 where s1: "schedule s = Some s1" "k_current s1 = x" "rq_inv s1 (xs @ (ys @ [k_current s]))"
      "k_idleproc s1 = k_idleproc s" "\<forall>p. pr_state (k_procs s1 p) = pr_state (k_procs s p)" "rq_idle s1 (k_current s1)"
    using schedule_spec [of s "x # xs @ ys"] Cons.prems q by auto
  have nin: "k_current s1 \<notin> set (xs @ (ys @ [k_current s]))"
    using rr.inv_distinct [OF Cons.prems(1)] Cons.prems(3) s1(2) by auto
  have run: "\<forall>p \<in> set (k_current s1 # xs @ (ys @ [k_current s])).
      pr_state (k_procs s1 p) = PROC_RUNNABLE \<and> p \<noteq> k_idleproc s1"
    using Cons.prems(4) s1 by auto
  from Cons.IH [OF s1(3) s1(6) nin run] s1(1,2) show ?case by auto
qed

section \<open>The timer list stores differences\<close>

text \<open>\<open>abs_from f a ts\<close>: the timers \<open>ts\<close> with their absolute expiry times, when \<open>a\<close> ticks pass
  before the first difference counts.\<close>

fun abs_from :: "(nat \<Rightarrow> timer) \<Rightarrow> nat \<Rightarrow> nat list \<Rightarrow> (nat \<times> nat) list" where
  "abs_from f a [] = []"
| "abs_from f a (t # ts) = (t, a + unat (tm_expires (f t))) # abs_from f (a + unat (tm_expires (f t))) ts"

definition timer_inv :: "kstate \<Rightarrow> nat list \<Rightarrow> bool" where
  "timer_inv s ts \<longleftrightarrow> ring (k_links s) TimerList (map TimerLink ts)"

definition expiries :: "kstate \<Rightarrow> nat list \<Rightarrow> (nat \<times> nat) list" where
  "expiries s ts = abs_from (k_timers s) 0 ts"

text \<open>Insertion behind the timers that expire no later.\<close>

fun ins_expiry :: "nat \<times> nat \<Rightarrow> (nat \<times> nat) list \<Rightarrow> (nat \<times> nat) list" where
  "ins_expiry te [] = [te]"
| "ins_expiry te (u # us) = (if snd te < snd u then te # u # us else u # ins_expiry te us)"

lemma abs_from_cong: "(\<And>t. t \<in> set ts \<Longrightarrow> f t = g t) \<Longrightarrow> abs_from f a ts = abs_from g a ts"
  by (induction ts arbitrary: a) auto

lemma abs_from_append:
  "abs_from f a (xs @ ys) = abs_from f a xs @ abs_from f (last (a # map snd (abs_from f a xs))) ys"
  by (induction xs arbitrary: a) auto

lemma abs_from_ge: "x \<in> set (abs_from f a ts) \<Longrightarrow> a \<le> snd x"
  by (induction ts arbitrary: a) (auto dest: add_leD1)

lemma abs_from_fst: "map fst (abs_from f a ts) = ts"
  by (induction ts arbitrary: a) auto

lemma upd_timer_sel [simp]:
  "k_timers (upd_timer t f s) u = (if u = t then f (k_timers s t) else k_timers s u)"
  "k_links (upd_timer t f s) = k_links s" "k_procs (upd_timer t f s) = k_procs s"
  "k_current (upd_timer t f s) = k_current s" "k_idleproc (upd_timer t f s) = k_idleproc s"
  "k_proc_num (upd_timer t f s) = k_proc_num s"
  by (simp_all add: upd_timer_def)

lemma unat_sub_le_u32: "b \<le> a \<Longrightarrow> unat (a - b :: u32) = unat a - unat b"
  by (simp add: unat_sub)

lemma timer_inv_distinct: "timer_inv s ts \<Longrightarrow> distinct ts"
  by (auto simp: timer_inv_def distinct_map dest!: ring_distinct)

lemma add_timer_loop_spec:
  assumes "timer_inv s (xs @ ys)" "t \<notin> set (xs @ ys)" "a + unat (tm_expires (k_timers s t)) = e"
  shows "\<exists>s' zs. add_timer_loop (case ys of [] \<Rightarrow> TimerList | y # _ \<Rightarrow> TimerLink y) t s = Some s' \<and>
    timer_inv s' (xs @ zs) \<and> abs_from (k_timers s') a zs = ins_expiry (t, e) (abs_from (k_timers s) a ys) \<and>
    (\<forall>u. u \<notin> set (t # ys) \<longrightarrow> k_timers s' u = k_timers s u)"
  using assms
proof (induction ys arbitrary: xs s a)
  case Nil
  have "ring (list_add_before TimerList (TimerLink t) (k_links s)) TimerList (map TimerLink xs @ [TimerLink t])"
    using Nil by (intro ring_add_before_head) (auto simp: timer_inv_def)
  then show ?case using Nil
    by (subst add_timer_loop.simps) (auto simp: timer_inv_def intro!: exI [of _ "[t]"])
next
  case (Cons y ys)
  have r: "ring (k_links s) TimerList (map TimerLink xs @ TimerLink y # map TimerLink ys)"
    using Cons.prems(1) by (simp add: timer_inv_def)
  have ty: "t \<noteq> y" "t \<notin> set ys" using Cons.prems(2) by auto
  have dist: "distinct (xs @ y # ys)"
    by (rule timer_inv_distinct [OF Cons.prems(1)])
  let ?et = "tm_expires (k_timers s t)" and ?ey = "tm_expires (k_timers s y)"
  show ?case
  proof (cases "?et < ?ey")
    case True
    let ?s = "(upd_timer y (tm_expires_update (\<lambda>e. e - ?et)) s)
        \<lparr>k_links := list_add_before (TimerLink y) (TimerLink t) (k_links s)\<rparr>"
    have "ring (list_add_before (TimerLink y) (TimerLink t) (k_links s)) TimerList
        (map TimerLink xs @ TimerLink t # TimerLink y # map TimerLink ys)"
      using Cons.prems(2) by (intro ring_add_before_elem [OF r]) auto
    then have inv': "timer_inv ?s (xs @ t # y # ys)" by (simp add: timer_inv_def)
    have loop: "add_timer_loop (TimerLink y) t s = Some ?s"
      using True by (subst add_timer_loop.simps) simp
    have "unat (?ey - ?et) = unat ?ey - unat ?et"
      using True by (intro unat_sub_le_u32) simp
    moreover have "unat ?et < unat ?ey" using True by (simp add: word_less_nat_alt)
    ultimately have "abs_from (k_timers ?s) a (t # y # ys) = ins_expiry (t, e) (abs_from (k_timers s) a (y # ys))"
      using Cons.prems(3) ty dist
      by (auto simp del: of_nat_unat intro!: abs_from_cong)
    note abs = this
    from loop inv' abs show ?thesis by (auto intro!: exI [of _ "t # y # ys"])
  next
    case False
    let ?s = "upd_timer t (tm_expires_update (\<lambda>e. e - ?ey)) s"
    have nx: "list_next (TimerLink y) (k_links s) = (case ys of [] \<Rightarrow> TimerList | y # _ \<Rightarrow> TimerLink y)"
      using ring_next_elem [OF r] by (cases ys) simp_all
    have le: "unat ?ey \<le> unat ?et" using False by (simp add: word_le_nat_alt not_less)
    have "(a + unat ?ey) + unat (tm_expires (k_timers ?s t)) = e"
      using Cons.prems(3) le False by (simp add: unat_sub_le_u32 del: of_nat_unat)
    moreover have "timer_inv ?s ((xs @ [y]) @ ys)" "t \<notin> set ((xs @ [y]) @ ys)"
      using Cons.prems by (simp_all add: timer_inv_def)
    ultimately obtain s' zs where s': "add_timer_loop (case ys of [] \<Rightarrow> TimerList | y # _ \<Rightarrow> TimerLink y) t ?s = Some s'"
      "timer_inv s' ((xs @ [y]) @ zs)"
      "abs_from (k_timers s') (a + unat ?ey) zs = ins_expiry (t, e) (abs_from (k_timers ?s) (a + unat ?ey) ys)"
      "\<forall>u. u \<notin> set (t # ys) \<longrightarrow> k_timers s' u = k_timers ?s u"
      using Cons.IH [of ?s "xs @ [y]" "a + unat ?ey"] by blast
    have "add_timer_loop (TimerLink y) t s = Some s'"
      using False s'(1) nx by (subst add_timer_loop.simps) simp
    moreover have "k_timers s' y = k_timers s y" using s'(4) ty dist by auto
    moreover have "abs_from (k_timers ?s) (a + unat ?ey) ys = abs_from (k_timers s) (a + unat ?ey) ys"
      using ty by (intro abs_from_cong) auto
    ultimately show ?thesis using s' le Cons.prems(3) ty
      by (auto intro!: exI [of _ "y # zs"])
  qed
qed

lemma add_timer_spec:
  assumes "timer_inv s ts" "t \<notin> set ts" "unlinked (k_links s) (TimerLink t)"
    and "0 < tm_expires (k_timers s t)" "tm_proc (k_timers s t) \<noteq> None"
  shows "\<exists>s' us. add_timer t s = Some s' \<and> timer_inv s' us \<and>
    expiries s' us = ins_expiry (t, unat (tm_expires (k_timers s t))) (expiries s ts)"
proof -
  have nx: "list_next TimerList (k_links s) = (case ts of [] \<Rightarrow> TimerList | y # _ \<Rightarrow> TimerLink y)"
    using assms(1) ring_next_head [of "k_links s" TimerList "map TimerLink ts"]
    by (cases ts) (simp_all add: timer_inv_def)
  show ?thesis
    using add_timer_loop_spec [of s "[]" ts t 0 "unat (tm_expires (k_timers s t))"] assms nx
    by (auto simp: add_timer_def unlinked_list_empty expiries_def)
qed

lemma del_timer_spec:
  assumes inv: "timer_inv s (xs @ t # ys)"
    and bound: "\<forall>x \<in> set (expiries s (xs @ t # ys)). snd x < 2 ^ 32"
  shows "timer_inv (del_timer t s) (xs @ ys) \<and>
    expiries (del_timer t s) (xs @ ys) = filter (\<lambda>x. fst x \<noteq> t) (expiries s (xs @ t # ys)) \<and>
    unlinked (k_links (del_timer t s)) (TimerLink t)"
proof -
  have r: "ring (k_links s) TimerList (map TimerLink xs @ TimerLink t # map TimerLink ys)"
    using inv by (simp add: timer_inv_def)
  have ne: "\<not> list_empty (TimerLink t) (k_links s)" by (rule ring_elem_not_empty [OF r]) simp
  have dist: "distinct (xs @ t # ys)"
    by (rule timer_inv_distinct [OF inv])
  have nx: "list_next (TimerLink t) (k_links s) = (case ys of [] \<Rightarrow> TimerList | y # _ \<Rightarrow> TimerLink y)"
    using ring_next_elem [OF r] by (cases ys) simp_all
  have links: "k_links (del_timer t s) = list_del_init (TimerLink t) (k_links s)"
    using ne nx by (auto simp: del_timer_def Let_def split: list.splits)
  have "timer_inv (del_timer t s) (xs @ ys)"
    using ring_del_init [OF r] links by (simp add: timer_inv_def)
  moreover have "unlinked (k_links (del_timer t s)) (TimerLink t)"
    using links by (simp add: unlinked_del_init)
  moreover have "expiries (del_timer t s) (xs @ ys) = filter (\<lambda>x. fst x \<noteq> t) (expiries s (xs @ t # ys))"
  proof -
    let ?a = "last (0 # map snd (abs_from (k_timers s) 0 xs))"
    have keep: "filter (\<lambda>x. fst x \<noteq> t) (abs_from f a zs) = abs_from f a zs" if "t \<notin> set zs" for f a zs
      using that by (induction zs arbitrary: a) auto
    have "abs_from (k_timers (del_timer t s)) 0 xs = abs_from (k_timers s) 0 xs"
      using ne nx dist by (intro abs_from_cong) (auto simp: del_timer_def Let_def split: list.splits)
    moreover have "abs_from (k_timers (del_timer t s)) ?a ys =
        abs_from (k_timers s) (?a + unat (tm_expires (k_timers s t))) ys"
    proof (cases ys)
      case (Cons y zs)
      let ?et = "tm_expires (k_timers s t)" and ?ey = "tm_expires (k_timers s y)"
      have ty: "t \<noteq> y" "y \<notin> set zs" using dist Cons by auto
      have "?a + unat ?et + unat ?ey < 2 ^ 32"
        using bound Cons by (simp add: expiries_def abs_from_append)
      then have add: "unat (?ey + ?et) = unat ?ey + unat ?et" by (intro unat_add_no_wrap) simp
      have fy: "tm_expires (k_timers (del_timer t s) y) = ?ey + ?et"
        using ne nx Cons by (simp add: del_timer_def Let_def)
      have "abs_from (k_timers (del_timer t s)) b zs = abs_from (k_timers s) b zs" for b
        using ne nx Cons ty by (intro abs_from_cong) (auto simp: del_timer_def Let_def)
      then show ?thesis using Cons fy add by (simp add: add_ac)
    qed simp
    ultimately show ?thesis
      using dist by (simp add: expiries_def abs_from_append keep)
  qed
  ultimately show ?thesis by blast
qed

section \<open>Properties\<close>

lemma example_rq: "rq_inv example_kstate [2, 3]" "rq_idle example_kstate 1"
  using example_kstate_links(1,8)
  by (simp_all add: rq_inv_def rq_idle_def example_proc_def) (simp add: example_kstate_def)

text \<open>\<^verbatim>\<open>schedule\<close> runs the first process of the run queue, after the current process has been appended
  if it can still run, and the idle process when the queue is empty; the rest of the queue keeps its
  order and no process changes its state.\<close>

theorem schedule_picks_first:
  assumes "rq_inv s xs" "rq_idle s (k_current s)" "k_current s \<notin> set xs"
  shows "\<exists>s'. schedule s = Some s' \<and>
    k_current s' = (case sched_queue s xs of [] \<Rightarrow> k_idleproc s | x # _ \<Rightarrow> x) \<and>
    rq_inv s' (tl (sched_queue s xs)) \<and> (\<forall>p. pr_state (k_procs s' p) = pr_state (k_procs s p))"
  using schedule_spec [OF assms] by blast

theorem schedule_picks_first_witness: "\<exists>s'. schedule example_kstate = Some s' \<and> k_current s' = 2 \<and> rq_inv s' [3, 1]"
  using schedule_picks_first [OF example_rq(1)] example_rq(2) by (auto simp: sched_queue_def)

text \<open>C9. Round robin: among runnable processes, \<open>n\<close> consecutive reschedulings give the CPU to the first
  \<open>n\<close> waiting ones in queue order, and those that ran queue up behind the others: nobody starves.\<close>

theorem schedule_round_robin:
  assumes "rq_inv s (xs @ ys)" "rq_idle s (k_current s)" "k_current s \<notin> set (xs @ ys)"
    and "\<forall>p \<in> set (k_current s # xs @ ys). pr_state (k_procs s p) = PROC_RUNNABLE \<and> p \<noteq> k_idleproc s"
  shows "\<exists>s'. schedules (length xs) s = Some (xs, s') \<and> k_current s' = last (k_current s # xs) \<and>
    rq_inv s' (ys @ butlast (k_current s # xs))"
  by (rule schedules_round_robin [OF assms])

theorem schedule_round_robin_witness: "\<exists>s'. schedules 2 example_kstate = Some ([2, 3], s') \<and> rq_inv s' [1, 2]"
  using schedule_round_robin [of example_kstate "[2, 3]" "[]"] example_rq by (auto simp: numeral_2_eq_2)

text \<open>Adding a timer to the difference-coded list inserts it, with its own expiry time, behind the
  timers that expire no later, and leaves every other expiry time as it was.\<close>

theorem add_timer_absolute:
  assumes "timer_inv s ts" "t \<notin> set ts" "unlinked (k_links s) (TimerLink t)"
    and "0 < tm_expires (k_timers s t)" "tm_proc (k_timers s t) \<noteq> None"
  shows "\<exists>s' us. add_timer t s = Some s' \<and> timer_inv s' us \<and>
    expiries s' us = ins_expiry (t, unat (tm_expires (k_timers s t))) (expiries s ts)"
  by (rule add_timer_spec [OF assms])

theorem add_timer_absolute_witness:
  "\<exists>s' us. add_timer 7 example_kstate = Some s' \<and> timer_inv s' us \<and> expiries s' us = [(7, 4)]"
  using add_timer_absolute [of example_kstate "[]" 7] example_kstate_links(2,6)
  by (auto simp: timer_inv_def expiries_def)

text \<open>Deleting a timer removes it and keeps the expiry times of all others, because its difference
  goes to the next timer.\<close>

theorem del_timer_absolute:
  assumes "timer_inv s (xs @ t # ys)" "\<forall>x \<in> set (expiries s (xs @ t # ys)). snd x < 2 ^ 32"
  shows "timer_inv (del_timer t s) (xs @ ys) \<and>
    expiries (del_timer t s) (xs @ ys) = filter (\<lambda>x. fst x \<noteq> t) (expiries s (xs @ t # ys)) \<and>
    unlinked (k_links (del_timer t s)) (TimerLink t)"
  by (rule del_timer_spec [OF assms])

definition example_timers :: kstate where
  "example_timers = example_kstate\<lparr>k_links := list_add_before TimerList (TimerLink 8)
     (list_add_before TimerList (TimerLink 7) (k_links example_kstate))\<rparr>"

theorem del_timer_absolute_witness: "expiries (del_timer 7 example_timers) [8] = [(8, 8)]"
proof -
  have "timer_inv example_timers ([] @ 7 # [8])"
    by (simp add: timer_inv_def example_timers_def example_kstate_def ring_def list_init_def list_add_before_def
        list_add_raw_def)
  from del_timer_absolute [OF this] show ?thesis
    by (simp add: expiries_def example_timers_def)
qed

end
