(* ===== verification/Sync.thy ===== *)
theory Sync
  imports Sched
begin

text \<open>
  \<^verbatim>\<open>kern/sync\<close>: wait queues (\<^verbatim>\<open>wait.c\<close>), semaphores (\<^verbatim>\<open>sem.c\<close>) and monitors (\<^verbatim>\<open>monitor.c\<close>). The
  wait queue embedded in semaphore \<open>i\<close> is queue \<open>i\<close>. A blocking operation calls \<open>schedule\<close> and
  goes on when the process is switched to again; what the other processes do in between is the
  parameter \<open>others\<close> of the blocking operations.
\<close>

definition upd_wait :: "nat \<Rightarrow> (wait \<Rightarrow> wait) \<Rightarrow> kstate \<Rightarrow> kstate" where
  "upd_wait w f s = s\<lparr>k_waits := (k_waits s)(w := f (k_waits s w))\<rparr>"

section \<open>wait.c\<close>

definition wait_init :: "nat \<Rightarrow> nat \<Rightarrow> kstate \<Rightarrow> kstate" where
  "wait_init w p s =
     (let s = upd_wait w (w_proc_update (\<lambda>_. Some p)) s;
          s = upd_wait w (w_wakeup_flags_update (\<lambda>_. WT_INTERRUPTED)) s
      in s\<lparr>k_links := list_init (WaitLink w) (k_links s)\<rparr>)"

definition wait_queue_init :: "nat \<Rightarrow> kstate \<Rightarrow> kstate" where
  "wait_queue_init q s = s\<lparr>k_links := list_init (WaitHead q) (k_links s)\<rparr>"

definition wait_queue_add :: "nat \<Rightarrow> nat \<Rightarrow> kstate \<Rightarrow> kstate option" where
  "wait_queue_add q w s = do {
     kassert (list_empty (WaitLink w) (k_links s) \<and> w_proc (k_waits s w) \<noteq> None);
     let s = upd_wait w (w_queue_update (\<lambda>_. Some q)) s;
     Some (s\<lparr>k_links := list_add_before (WaitHead q) (WaitLink w) (k_links s)\<rparr>) }"

definition wait_queue_del :: "nat \<Rightarrow> nat \<Rightarrow> kstate \<Rightarrow> kstate option" where
  "wait_queue_del q w s = do {
     kassert (\<not> list_empty (WaitLink w) (k_links s) \<and> w_queue (k_waits s w) = Some q);
     Some (s\<lparr>k_links := list_del_init (WaitLink w) (k_links s)\<rparr>) }"

definition le2wait :: "klink \<Rightarrow> nat option" where
  "le2wait le = (case le of WaitLink w \<Rightarrow> Some w | _ \<Rightarrow> None)"

definition wait_queue_next :: "nat \<Rightarrow> nat \<Rightarrow> kstate \<Rightarrow> nat option option" where
  "wait_queue_next q w s = do {
     kassert (\<not> list_empty (WaitLink w) (k_links s) \<and> w_queue (k_waits s w) = Some q);
     let le = list_next (WaitLink w) (k_links s);
     Some (if le \<noteq> WaitHead q then le2wait le else None) }"

definition wait_queue_prev :: "nat \<Rightarrow> nat \<Rightarrow> kstate \<Rightarrow> nat option option" where
  "wait_queue_prev q w s = do {
     kassert (\<not> list_empty (WaitLink w) (k_links s) \<and> w_queue (k_waits s w) = Some q);
     let le = list_prev (WaitLink w) (k_links s);
     Some (if le \<noteq> WaitHead q then le2wait le else None) }"

definition wait_queue_first :: "nat \<Rightarrow> kstate \<Rightarrow> nat option" where
  "wait_queue_first q s =
     (let le = list_next (WaitHead q) (k_links s) in if le \<noteq> WaitHead q then le2wait le else None)"

definition wait_queue_last :: "nat \<Rightarrow> kstate \<Rightarrow> nat option" where
  "wait_queue_last q s =
     (let le = list_prev (WaitHead q) (k_links s) in if le \<noteq> WaitHead q then le2wait le else None)"

definition wait_queue_empty :: "nat \<Rightarrow> kstate \<Rightarrow> bool" where
  "wait_queue_empty q s = list_empty (WaitHead q) (k_links s)"

definition wait_in_queue :: "nat \<Rightarrow> kstate \<Rightarrow> bool" where
  "wait_in_queue w s \<longleftrightarrow> \<not> list_empty (WaitLink w) (k_links s)"

definition wakeup_wait :: "nat \<Rightarrow> nat \<Rightarrow> u32 \<Rightarrow> bool \<Rightarrow> kstate \<Rightarrow> kstate option" where
  "wakeup_wait q w flags del s = do {
     s \<leftarrow> (if del then wait_queue_del q w s else Some s);
     let s = upd_wait w (w_wakeup_flags_update (\<lambda>_. flags)) s;
     p \<leftarrow> w_proc (k_waits s w);
     wakeup_proc p s }"

definition wakeup_first :: "nat \<Rightarrow> u32 \<Rightarrow> bool \<Rightarrow> kstate \<Rightarrow> kstate option" where
  "wakeup_first q flags del s =
     (case wait_queue_first q s of Some w \<Rightarrow> wakeup_wait q w flags del s | None \<Rightarrow> Some s)"

text \<open>The two loops of \<open>wakeup_queue\<close>, entered at entry \<open>w\<close>.\<close>

partial_function (option) wakeup_queue_del :: "nat \<Rightarrow> nat \<Rightarrow> u32 \<Rightarrow> kstate \<Rightarrow> kstate option" where
  "wakeup_queue_del q w flags s = do {
     s \<leftarrow> wakeup_wait q w flags True s;
     (case wait_queue_first q s of Some w \<Rightarrow> wakeup_queue_del q w flags s | None \<Rightarrow> Some s) }"

partial_function (option) wakeup_queue_keep :: "nat \<Rightarrow> nat \<Rightarrow> u32 \<Rightarrow> kstate \<Rightarrow> kstate option" where
  "wakeup_queue_keep q w flags s = do {
     s \<leftarrow> wakeup_wait q w flags False s;
     nx \<leftarrow> wait_queue_next q w s;
     (case nx of Some w \<Rightarrow> wakeup_queue_keep q w flags s | None \<Rightarrow> Some s) }"

definition wakeup_queue :: "nat \<Rightarrow> u32 \<Rightarrow> bool \<Rightarrow> kstate \<Rightarrow> kstate option" where
  "wakeup_queue q flags del s =
     (case wait_queue_first q s of
        Some w \<Rightarrow> if del then wakeup_queue_del q w flags s else wakeup_queue_keep q w flags s
      | None \<Rightarrow> Some s)"

definition wait_current_set :: "nat \<Rightarrow> nat \<Rightarrow> u32 \<Rightarrow> kstate \<Rightarrow> kstate option" where
  "wait_current_set q w ws s = do {
     let s = wait_init w (k_current s) s;
     let s = upd_proc (k_current s) (pr_state_update (\<lambda>_. PROC_SLEEPING)) s;
     let s = upd_proc (k_current s) (pr_wait_state_update (\<lambda>_. ws)) s;
     wait_queue_add q w s }"

definition wait_current_del :: "nat \<Rightarrow> nat \<Rightarrow> kstate \<Rightarrow> kstate option" where
  "wait_current_del q w s = (if wait_in_queue w s then wait_queue_del q w s else Some s)"

section \<open>sem.c\<close>

definition upd_sem :: "nat \<Rightarrow> (int \<Rightarrow> int) \<Rightarrow> kstate \<Rightarrow> kstate" where
  "upd_sem i f s = s\<lparr>k_sems := (k_sems s)(i := f (k_sems s i))\<rparr>"

definition sem_init :: "nat \<Rightarrow> int \<Rightarrow> kstate \<Rightarrow> kstate" where
  "sem_init i v s = wait_queue_init i (upd_sem i (\<lambda>_. v) s)"

definition up_sem :: "nat \<Rightarrow> u32 \<Rightarrow> kstate \<Rightarrow> kstate option" where
  "up_sem i ws s =
     (case wait_queue_first i s of
        None \<Rightarrow> Some (upd_sem i (\<lambda>v. v + 1) s)
      | Some w \<Rightarrow> do {
          p \<leftarrow> w_proc (k_waits s w);
          kassert (pr_wait_state (k_procs s p) = ws);
          wakeup_wait i w ws True s })"

text \<open>\<open>__down\<close> up to its call of \<open>schedule\<close>: \<open>True\<close> means that it returned before it. \<open>w\<close> is the
  \<^verbatim>\<open>wait_t\<close> on the stack of the calling process.\<close>

definition down_enter :: "nat \<Rightarrow> nat \<Rightarrow> u32 \<Rightarrow> kstate \<Rightarrow> (bool \<times> kstate) option" where
  "down_enter i w ws s =
     (if k_sems s i > 0 then Some (True, upd_sem i (\<lambda>v. v - 1) s)
      else do {
        s \<leftarrow> wait_current_set i w ws s;
        Some (False, s) })"

definition down_leave :: "nat \<Rightarrow> nat \<Rightarrow> u32 \<Rightarrow> kstate \<Rightarrow> (u32 \<times> kstate) option" where
  "down_leave i w ws s = do {
     s \<leftarrow> wait_current_del i w s;
     Some (if w_wakeup_flags (k_waits s w) \<noteq> ws then w_wakeup_flags (k_waits s w) else 0, s) }"

definition down_sem :: "(kstate \<Rightarrow> kstate option) \<Rightarrow> nat \<Rightarrow> nat \<Rightarrow> u32 \<Rightarrow> kstate \<Rightarrow> (u32 \<times> kstate) option" where
  "down_sem others i w ws s = do {
     (done, s) \<leftarrow> down_enter i w ws s;
     if done then Some (0, s)
     else do {
       s \<leftarrow> schedule s;
       s \<leftarrow> others s;
       down_leave i w ws s } }"

definition up :: "nat \<Rightarrow> kstate \<Rightarrow> kstate option" where
  "up i s = up_sem i WT_KSEM s"

definition down :: "(kstate \<Rightarrow> kstate option) \<Rightarrow> nat \<Rightarrow> nat \<Rightarrow> kstate \<Rightarrow> kstate option" where
  "down others i w s = do {
     (flags, s) \<leftarrow> down_sem others i w WT_KSEM s;
     kassert (flags = 0);
     Some s }"

definition try_down :: "nat \<Rightarrow> kstate \<Rightarrow> bool \<times> kstate" where
  "try_down i s = (if k_sems s i > 0 then (True, upd_sem i (\<lambda>v. v - 1) s) else (False, s))"

section \<open>monitor.c\<close>

record condvar =
  cv_count :: int
  cv_sem :: nat

record monitor =
  mt_mutex :: nat
  mt_next :: nat
  mt_next_count :: int
  mt_cv :: "condvar list"

text \<open>The semaphores of the monitor's condition variables are \<open>cvs\<close>; \<open>ok\<close> says whether
  \<open>kmalloc\<close> found room for them.\<close>

definition monitor_init :: "nat \<Rightarrow> nat \<Rightarrow> nat list \<Rightarrow> bool \<Rightarrow> kstate \<Rightarrow> (monitor \<times> kstate) option" where
  "monitor_init mutex nxt cvs ok s = do {
     kassert (length cvs > 0);
     let s = sem_init mutex 1 s;
     let s = sem_init nxt 0 s;
     kassert ok;
     let s = fold (\<lambda>i s. sem_init i 0 s) cvs s;
     Some (\<lparr>mt_mutex = mutex, mt_next = nxt, mt_next_count = 0,
            mt_cv = map (\<lambda>i. \<lparr>cv_count = 0, cv_sem = i\<rparr>) cvs\<rparr>, s) }"

definition upd_cv :: "nat \<Rightarrow> (int \<Rightarrow> int) \<Rightarrow> monitor \<Rightarrow> monitor" where
  "upd_cv j f m = m\<lparr>mt_cv := (mt_cv m)[j := (mt_cv m ! j)\<lparr>cv_count := f (cv_count (mt_cv m ! j))\<rparr>]\<rparr>"

text \<open>While the process sleeps the others may use the monitor too: here \<open>others\<close> acts on both.\<close>

definition mt_down ::
  "(monitor \<times> kstate \<Rightarrow> (monitor \<times> kstate) option) \<Rightarrow> nat \<Rightarrow> nat \<Rightarrow> monitor \<times> kstate \<Rightarrow>
   (monitor \<times> kstate) option" where
  "mt_down others i w ms = do {
     let (m, s) = ms;
     (done, s) \<leftarrow> down_enter i w WT_KSEM s;
     if done then Some (m, s)
     else do {
       s \<leftarrow> schedule s;
       (m, s) \<leftarrow> others (m, s);
       (flags, s) \<leftarrow> down_leave i w WT_KSEM s;
       kassert (flags = 0);
       Some (m, s) } }"

definition cond_signal ::
  "(monitor \<times> kstate \<Rightarrow> (monitor \<times> kstate) option) \<Rightarrow> nat \<Rightarrow> nat \<Rightarrow> monitor \<times> kstate \<Rightarrow>
   (monitor \<times> kstate) option" where
  "cond_signal others w j ms = do {
     let (m, s) = ms;
     if cv_count (mt_cv m ! j) > 0 then do {
       let m = m\<lparr>mt_next_count := mt_next_count m + 1\<rparr>;
       s \<leftarrow> up (cv_sem (mt_cv m ! j)) s;
       (m, s) \<leftarrow> mt_down others (mt_next m) w (m, s);
       Some (m\<lparr>mt_next_count := mt_next_count m - 1\<rparr>, s) }
     else Some (m, s) }"

definition cond_wait ::
  "(monitor \<times> kstate \<Rightarrow> (monitor \<times> kstate) option) \<Rightarrow> nat \<Rightarrow> nat \<Rightarrow> monitor \<times> kstate \<Rightarrow>
   (monitor \<times> kstate) option" where
  "cond_wait others w j ms = do {
     let (m, s) = ms;
     let m = upd_cv j (\<lambda>c. c + 1) m;
     s \<leftarrow> (if mt_next_count m > 0 then up (mt_next m) s else up (mt_mutex m) s);
     (m, s) \<leftarrow> mt_down others (cv_sem (mt_cv m ! j)) w (m, s);
     Some (upd_cv j (\<lambda>c. c - 1) m, s) }"

section \<open>A wait queue is a FIFO queue\<close>

definition wq_inv :: "nat \<Rightarrow> kstate \<Rightarrow> nat list \<Rightarrow> bool" where
  "wq_inv q s ws \<longleftrightarrow> ring (k_links s) (WaitHead q) (map WaitLink ws) \<and>
     (\<forall>w \<in> set ws. w_queue (k_waits s w) = Some q \<and> w_proc (k_waits s w) \<noteq> None)"

definition wq_idle :: "kstate \<Rightarrow> nat \<Rightarrow> bool" where
  "wq_idle s w \<longleftrightarrow> unlinked (k_links s) (WaitLink w) \<and> w_proc (k_waits s w) \<noteq> None"

lemma upd_wait_sel [simp]:
  "k_waits (upd_wait w f s) v = (if v = w then f (k_waits s w) else k_waits s v)"
  "k_links (upd_wait w f s) = k_links s" "k_procs (upd_wait w f s) = k_procs s"
  "k_sems (upd_wait w f s) = k_sems s" "k_current (upd_wait w f s) = k_current s"
  "k_idleproc (upd_wait w f s) = k_idleproc s" "k_proc_num (upd_wait w f s) = k_proc_num s"
  "k_max_time_slice (upd_wait w f s) = k_max_time_slice s"
  by (simp_all add: upd_wait_def)

lemma upd_sem_sel [simp]:
  "k_sems (upd_sem i f s) j = (if j = i then f (k_sems s i) else k_sems s j)"
  "k_links (upd_sem i f s) = k_links s" "k_procs (upd_sem i f s) = k_procs s"
  "k_waits (upd_sem i f s) = k_waits s" "k_current (upd_sem i f s) = k_current s"
  "k_proc_num (upd_sem i f s) = k_proc_num s" "k_idleproc (upd_sem i f s) = k_idleproc s"
  by (simp_all add: upd_sem_def)

lemma wq_inv_upd [simp]:
  "wq_inv q (upd_proc p f s) ws = wq_inv q s ws" "wq_inv q (upd_sem i g s) ws = wq_inv q s ws"
  by (simp_all add: wq_inv_def)

lemma wait_queue_first_eq: "wq_inv q s ws \<Longrightarrow> wait_queue_first q s = (case ws of [] \<Rightarrow> None | w # _ \<Rightarrow> Some w)"
  using ring_next_head [of "k_links s" "WaitHead q" "map WaitLink ws"]
  by (cases ws) (simp_all add: wait_queue_first_def wq_inv_def le2wait_def)

lemma wait_queue_add_inv:
  assumes "wq_inv q s ws" "w \<notin> set ws" "wq_idle s w"
  shows "\<exists>s'. wait_queue_add q w s = Some s' \<and> wq_inv q s' (ws @ [w]) \<and> k_procs s' = k_procs s \<and>
    k_sems s' = k_sems s"
proof -
  have "ring (list_add_before (WaitHead q) (WaitLink w) (k_links s)) (WaitHead q) (map WaitLink ws @ [WaitLink w])"
    using assms by (intro ring_add_before_head) (auto simp: wq_inv_def)
  with assms show ?thesis
    by (auto simp: wait_queue_add_def wq_inv_def wq_idle_def unlinked_list_empty)
qed

lemma wait_queue_del_inv:
  assumes "wq_inv q s (vs @ w # ws)"
  shows "\<exists>s'. wait_queue_del q w s = Some s' \<and> wq_inv q s' (vs @ ws) \<and> wq_idle s' w \<and> k_procs s' = k_procs s \<and>
    k_sems s' = k_sems s"
proof -
  have r: "ring (k_links s) (WaitHead q) (map WaitLink vs @ WaitLink w # map WaitLink ws)"
    using assms by (simp add: wq_inv_def)
  have "\<not> list_empty (WaitLink w) (k_links s)" by (rule ring_elem_not_empty [OF r]) simp
  with assms ring_del_init [OF r] unlinked_del_init [of "WaitLink w" "k_links s"] show ?thesis
    by (auto simp: wait_queue_del_def wq_inv_def wq_idle_def)
qed

interpretation wq: fifo "wq_inv q" wq_idle "wait_queue_add q" "wait_queue_del q" "wait_queue_first q" for q
proof
  fix s xs x ys
  show "wq_inv q s xs \<Longrightarrow> distinct xs"
    by (auto simp: wq_inv_def distinct_map dest: ring_distinct)
  show "wq_inv q s xs \<Longrightarrow> x \<notin> set xs \<Longrightarrow> wq_idle s x \<Longrightarrow> \<exists>s'. wait_queue_add q x s = Some s' \<and> wq_inv q s' (xs @ [x])"
    using wait_queue_add_inv by blast
  show "wq_inv q s xs \<Longrightarrow> x \<in> set xs \<Longrightarrow> wait_queue_add q x s = None"
    using ring_elem_not_empty [of "k_links s" "WaitHead q" "map WaitLink xs" "WaitLink x"]
    by (simp add: wait_queue_add_def wq_inv_def kassert_def)
  show "wq_inv q s (xs @ x # ys) \<Longrightarrow> \<exists>s'. wait_queue_del q x s = Some s' \<and> wq_inv q s' (xs @ ys) \<and> wq_idle s' x"
    using wait_queue_del_inv by blast
  show "wq_inv q s xs \<Longrightarrow> wq_idle s x \<Longrightarrow> wait_queue_del q x s = None"
    by (simp add: wait_queue_del_def wq_idle_def unlinked_list_empty kassert_def)
  show "wq_inv q s xs \<Longrightarrow> wait_queue_first q s = (case xs of [] \<Rightarrow> None | x # _ \<Rightarrow> Some x)"
    by (rule wait_queue_first_eq)
qed

section \<open>Waking a process\<close>

lemma wq_inv_enqueued:
  assumes rq: "rq_inv s rs" and wq: "wq_inv q s ws"
  shows "wq_inv q (rr_enqueued p s) ws"
proof -
  have r: "ring (k_links s) RunList (map RunLink rs)" using rq by (simp add: rq_inv_def)
  have "ring (list_add_before RunList (RunLink p) (k_links s)) (WaitHead q) (map WaitLink ws)"
  proof (rule ring_frame)
    show "ring (k_links s) (WaitHead q) (map WaitLink ws)" using wq by (simp add: wq_inv_def)
    show "list_add_before RunList (RunLink p) (k_links s) x = k_links s x"
      if "x \<in> set (WaitHead q # map WaitLink ws)" for x
      using that by (intro list_add_before_frame [OF r]) auto
  qed
  with wq show ?thesis by (simp add: wq_inv_def rr_enqueued_def)
qed

lemma wakeup_proc_spec:
  assumes rq: "rq_inv s rs" and p: "p \<notin> set rs" "rq_idle s p" "p \<noteq> k_current s" "p \<noteq> k_idleproc s"
    and st: "pr_state (k_procs s p) \<notin> {PROC_ZOMBIE, PROC_RUNNABLE}"
  shows "\<exists>s'. wakeup_proc p s = Some s' \<and> rq_inv s' (rs @ [p]) \<and>
    pr_state (k_procs s' p) = PROC_RUNNABLE \<and> pr_wait_state (k_procs s' p) = 0 \<and>
    (\<forall>q ws. wq_inv q s ws \<longrightarrow> wq_inv q s' ws) \<and> k_sems s' = k_sems s \<and> k_waits s' = k_waits s \<and>
    (\<forall>q. q \<noteq> p \<longrightarrow> k_procs s' q = k_procs s q)"
proof -
  let ?s = "upd_proc p (pr_wait_state_update (\<lambda>_. 0)) (upd_proc p (pr_state_update (\<lambda>_. PROC_RUNNABLE)) s)"
  have rq': "rq_inv ?s rs" using rq by (simp add: rq_inv_upd_proc)
  have "wakeup_proc p s = Some (rr_enqueued p ?s)"
    using p st by (simp add: wakeup_proc_def Let_def sched_class_enqueue_def RR_enqueue_eq rq_idle_def
        unlinked_list_empty)
  moreover have "rq_inv (rr_enqueued p ?s) (rs @ [p])" by (rule rq_inv_enqueued [OF rq' p(1)])
  moreover have "\<forall>q ws. wq_inv q s ws \<longrightarrow> wq_inv q (rr_enqueued p ?s) ws"
    using wq_inv_enqueued [OF rq'] by simp
  ultimately show ?thesis by (auto simp: rr_enqueued_def)
qed

section \<open>Semaphores\<close>

text \<open>\<open>up\<close> with a waiter hands the unit over: the first waiter leaves the queue and becomes
  runnable, and the value does not change.\<close>

lemma up_wakes_first:
  assumes wq: "wq_inv i s (w # ws)" and rq: "rq_inv s rs"
    and w: "w_proc (k_waits s w) = Some p" "pr_wait_state (k_procs s p) = WT_KSEM"
      "pr_state (k_procs s p) = PROC_SLEEPING"
    and p: "p \<notin> set rs" "rq_idle s p" "p \<noteq> k_current s" "p \<noteq> k_idleproc s"
  shows "\<exists>s'. up i s = Some s' \<and> wq_inv i s' ws \<and> rq_inv s' (rs @ [p]) \<and> k_sems s' = k_sems s \<and>
    pr_state (k_procs s' p) = PROC_RUNNABLE \<and> w_wakeup_flags (k_waits s' w) = WT_KSEM"
proof -
  have nw: "w \<notin> set ws" using wq.inv_distinct [OF wq] by simp
  have r: "ring (k_links s) (WaitHead i) (WaitLink w # map WaitLink ws)" using wq by (simp add: wq_inv_def)
  have ne: "\<not> list_empty (WaitLink w) (k_links s)" by (rule ring_elem_not_empty [OF r]) simp
  have qi: "w_queue (k_waits s w) = Some i" using wq by (simp add: wq_inv_def)
  let ?h = "list_del_init (WaitLink w) (k_links s)"
  let ?s1 = "s\<lparr>k_links := ?h\<rparr>"
  let ?s2 = "upd_wait w (w_wakeup_flags_update (\<lambda>_. WT_KSEM)) ?s1"
  have d: "wait_queue_del i w s = Some ?s1" using ne qi by (simp add: wait_queue_del_def)
  have frame: "?h x = k_links s x" if "x \<notin> set (WaitHead i # WaitLink w # map WaitLink ws)" for x
    using that by (intro list_del_init_frame [OF r]) auto
  have r2: "ring ?h (WaitHead i) (map WaitLink ws)"
    using ring_del_init [of "k_links s" "WaitHead i" "[]" "WaitLink w" "map WaitLink ws"] r by simp
  have rq2: "rq_inv ?s2 rs"
  proof -
    have "ring ?h RunList (map RunLink rs)"
      by (rule ring_frame [of "k_links s"]) (use rq frame in \<open>auto simp: rq_inv_def\<close>)
    then show ?thesis using rq by (simp add: rq_inv_def upd_wait_def)
  qed
  have p2: "rq_idle ?s2 p" using p(2) frame [of "RunLink p"] by (simp add: rq_idle_def unlinked_def image_iff)
  have st2: "pr_state (k_procs ?s2 p) \<notin> {PROC_ZOMBIE, PROC_RUNNABLE}" using w(3) by simp
  have cur2: "p \<noteq> k_current ?s2" "p \<noteq> k_idleproc ?s2" using p by simp_all
  obtain s' where s': "wakeup_proc p ?s2 = Some s'" "rq_inv s' (rs @ [p])"
    "pr_state (k_procs s' p) = PROC_RUNNABLE" "\<forall>q ws. wq_inv q ?s2 ws \<longrightarrow> wq_inv q s' ws"
    "k_sems s' = k_sems ?s2" "k_waits s' = k_waits ?s2"
    using wakeup_proc_spec [OF rq2 p(1) p2 cur2 st2] by blast
  have "wq_inv i ?s2 ws" using wq r2 nw by (auto simp: wq_inv_def)
  with s' have "wq_inv i s' ws" by blast
  moreover have "up i s = Some s'"
    using wait_queue_first_eq [OF wq] w d s'(1)
    by (simp add: up_def up_sem_def wakeup_wait_def)
  ultimately show ?thesis using s' by auto
qed

lemma up_no_waiter: "wq_inv i s [] \<Longrightarrow> up i s = Some (upd_sem i (\<lambda>v. v + 1) s)"
  by (simp add: up_def up_sem_def wait_queue_first_eq)

lemma down_blocks:
  assumes wq: "wq_inv i s ws" "w \<notin> set ws" and v: "k_sems s i \<le> 0"
  shows "\<exists>s'. down_enter i w WT_KSEM s = Some (False, s') \<and> wq_inv i s' (ws @ [w]) \<and>
    w_proc (k_waits s' w) = Some (k_current s) \<and> pr_state (k_procs s' (k_current s)) = PROC_SLEEPING \<and>
    pr_wait_state (k_procs s' (k_current s)) = WT_KSEM \<and> k_sems s' = k_sems s"
proof -
  let ?s1 = "upd_proc (k_current s) (pr_wait_state_update (\<lambda>_. WT_KSEM))
      (upd_proc (k_current s) (pr_state_update (\<lambda>_. PROC_SLEEPING)) (wait_init w (k_current s) s))"
  have links: "k_links ?s1 = list_init (WaitLink w) (k_links s)" by (simp add: wait_init_def Let_def)
  have "ring (k_links ?s1) (WaitHead i) (map WaitLink ws)"
    unfolding links
    by (rule ring_frame [of "k_links s"]) (use wq in \<open>auto simp: wq_inv_def list_init_def\<close>)
  then have q1: "wq_inv i ?s1 ws" using wq by (auto simp: wq_inv_def wait_init_def)
  have i1: "wq_idle ?s1 w" using unlinked_init [of "WaitLink w" "k_links s"] links
    by (simp add: wq_idle_def) (simp add: wait_init_def Let_def)
  obtain s' where s': "wait_queue_add i w ?s1 = Some s'" "wq_inv i s' (ws @ [w])" "k_procs s' = k_procs ?s1"
      "k_sems s' = k_sems ?s1"
    using wait_queue_add_inv [OF q1 wq(2) i1] by blast
  have "k_waits s' w = (k_waits ?s1 w)\<lparr>w_queue := Some i\<rparr>"
    using s'(1) by (auto simp: wait_queue_add_def)
  then have wp: "w_proc (k_waits s' w) = Some (k_current s)" by (simp add: wait_init_def Let_def)
  have cur: "k_current (wait_init w (k_current s) s) = k_current s" by (simp add: wait_init_def Let_def)
  have "down_enter i w WT_KSEM s = Some (False, s')"
    using v s'(1) by (simp add: down_enter_def wait_current_set_def Let_def cur)
  with s' wp show ?thesis by (auto simp: wait_init_def Let_def)
qed

text \<open>
  All the interleavings of the operations on semaphore \<open>i\<close>, by whichever processes, with any other
  steps of the kernel that leave it alone. The second component counts the units that processes
  hold: \<open>down\<close>s that got through (at once, or handed over by an \<open>up\<close>) minus \<open>up\<close>s.
\<close>

inductive sem_step :: "nat \<Rightarrow> kstate \<times> int \<Rightarrow> kstate \<times> int \<Rightarrow> bool" for i where
  acquire: "down_enter i w ws s = Some (True, s') \<Longrightarrow> sem_step i (s, h) (s', h + 1)"
| block: "down_enter i w ws s = Some (False, s') \<Longrightarrow> sem_step i (s, h) (s', h)"
| try_ok: "try_down i s = (True, s') \<Longrightarrow> sem_step i (s, h) (s', h + 1)"
| try_fail: "try_down i s = (False, s') \<Longrightarrow> sem_step i (s, h) (s', h)"
| release: "up i s = Some s' \<Longrightarrow> wait_queue_first i s = None \<Longrightarrow> sem_step i (s, h) (s', h - 1)"
| hand_over: "up i s = Some s' \<Longrightarrow> wait_queue_first i s = Some w \<Longrightarrow> sem_step i (s, h) (s', h)"
| other: "k_sems s' i = k_sems s i \<Longrightarrow> wait_queue_first i s' = wait_queue_first i s \<Longrightarrow> sem_step i (s, h) (s', h)"

inductive sem_reach :: "nat \<Rightarrow> kstate \<Rightarrow> kstate \<times> int \<Rightarrow> bool" for i s0 where
  start: "sem_reach i s0 (s0, 0)"
| step: "sem_reach i s0 c \<Longrightarrow> sem_step i c c' \<Longrightarrow> sem_reach i s0 c'"

lemma down_enter_cases:
  assumes "down_enter i w ws s = Some (b, s')"
  shows "b \<longleftrightarrow> 0 < k_sems s i" "k_sems s' i = (if b then k_sems s i - 1 else k_sems s i)"
    "b \<Longrightarrow> wait_queue_first i s' = wait_queue_first i s"
  using assms
  by (auto simp: down_enter_def wait_current_set_def wait_queue_add_def wait_init_def Let_def bind_eq_Some_conv
      wait_queue_first_def upd_sem_def upd_proc_def upd_wait_def split: if_splits)

lemma wakeup_proc_sems: "wakeup_proc p s = Some s' \<Longrightarrow> k_sems s' = k_sems s"
  by (auto simp: wakeup_proc_def sched_class_enqueue_def RR_enqueue_eq Let_def split: if_splits)

lemma up_sems:
  "up i s = Some s' \<Longrightarrow> wait_queue_first i s = None \<Longrightarrow> k_sems s' i = k_sems s i + 1 \<and> wait_queue_first i s' = None"
  "up i s = Some s' \<Longrightarrow> wait_queue_first i s = Some w \<Longrightarrow> k_sems s' = k_sems s"
proof -
  show "up i s = Some s' \<Longrightarrow> wait_queue_first i s = None \<Longrightarrow> k_sems s' i = k_sems s i + 1 \<and> wait_queue_first i s' = None"
    by (auto simp: up_def up_sem_def wait_queue_first_def)
  show "up i s = Some s' \<Longrightarrow> wait_queue_first i s = Some w \<Longrightarrow> k_sems s' = k_sems s"
    by (auto simp: up_def up_sem_def wakeup_wait_def wait_queue_del_def bind_eq_Some_conv upd_wait_def
        dest!: wakeup_proc_sems)
qed

definition sem_ok :: "nat \<Rightarrow> int \<Rightarrow> kstate \<times> int \<Rightarrow> bool" where
  "sem_ok i v c \<longleftrightarrow> k_sems (fst c) i + snd c = v \<and> 0 \<le> k_sems (fst c) i \<and>
    (wait_queue_first i (fst c) \<noteq> None \<longrightarrow> k_sems (fst c) i = 0)"

lemma sem_step_ok: "sem_step i c c' \<Longrightarrow> sem_ok i v c \<Longrightarrow> sem_ok i v c'"
proof (induction rule: sem_step.induct)
  case (acquire w ws s s' h)
  with down_enter_cases [OF acquire(1)] show ?case by (auto simp: sem_ok_def)
next
  case (block w ws s s' h)
  with down_enter_cases [OF block(1)] show ?case by (auto simp: sem_ok_def)
next
  case (try_ok s s' h)
  then show ?case by (auto simp: sem_ok_def try_down_def wait_queue_first_def split: if_splits)
next
  case (try_fail s s' h)
  then show ?case by (auto simp: sem_ok_def try_down_def split: if_splits)
next
  case (release s s' h)
  with up_sems(1) [OF release(1,2)] show ?case by (auto simp: sem_ok_def)
next
  case (hand_over s s' w h)
  with up_sems(2) [OF hand_over(1,2)] show ?case by (auto simp: sem_ok_def)
next
  case (other s' s h)
  then show ?case by (auto simp: sem_ok_def)
qed

lemma sem_reach_ok:
  "sem_reach i s0 c \<Longrightarrow> 0 \<le> k_sems s0 i \<Longrightarrow> wait_queue_first i s0 = None \<Longrightarrow> sem_ok i (k_sems s0 i) c"
proof (induction rule: sem_reach.induct)
  case start
  then show ?case by (simp add: sem_ok_def)
next
  case (step c c')
  then show ?case using sem_step_ok by blast
qed

section \<open>Waking all that wait\<close>

text \<open>\<open>waiting q ws rs k\<close>: \<open>ws\<close> wait in queue \<open>q\<close> for different sleeping processes, \<open>rs\<close> are ready to run. The running
  process may be one of those that wait, as long as it has not given up the processor.\<close>

definition owner :: "kstate \<Rightarrow> nat \<Rightarrow> nat" where
  "owner k w = the (w_proc (k_waits k w))"

definition waiting :: "nat \<Rightarrow> nat list \<Rightarrow> nat list \<Rightarrow> kstate \<Rightarrow> bool" where
  "waiting q ws rs k \<longleftrightarrow> wq_inv q k ws \<and> rq_inv k rs \<and> distinct (map (owner k) ws) \<and>
     (\<forall>w \<in> set ws. pr_state (k_procs k (owner k w)) = PROC_SLEEPING \<and>
        (owner k w \<noteq> k_current k \<longrightarrow> owner k w \<notin> set rs \<and> rq_idle k (owner k w) \<and> owner k w \<noteq> k_idleproc k))"

lemma wakeup_wait_first:
  assumes wq: "wq_inv q s (w # ws)" and rq: "rq_inv s rs"
    and st: "pr_state (k_procs s (owner s w)) = PROC_SLEEPING"
    and p: "owner s w \<noteq> k_current s \<longrightarrow> owner s w \<notin> set rs \<and> rq_idle s (owner s w) \<and> owner s w \<noteq> k_idleproc s"
  shows "\<exists>s'. wakeup_wait q w flags True s = Some s' \<and> wq_inv q s' ws \<and>
    rq_inv s' (rs @ (if owner s w = k_current s then [] else [owner s w])) \<and>
    pr_state (k_procs s' (owner s w)) = PROC_RUNNABLE \<and> (\<forall>p. p \<noteq> owner s w \<longrightarrow> k_procs s' p = k_procs s p) \<and>
    k_waits s' = (k_waits s)(w := (k_waits s w)\<lparr>w_wakeup_flags := flags\<rparr>) \<and> k_sems s' = k_sems s \<and>
    k_current s' = k_current s \<and> k_idleproc s' = k_idleproc s \<and>
    (\<forall>p. p \<noteq> owner s w \<and> p \<notin> set rs \<and> rq_idle s p \<longrightarrow> rq_idle s' p)"
proof -
  let ?p = "owner s w"
  have w: "w_proc (k_waits s w) = Some ?p" using wq by (auto simp: wq_inv_def owner_def)
  have nw: "w \<notin> set ws" using wq.inv_distinct [OF wq] by simp
  have r: "ring (k_links s) (WaitHead q) (WaitLink w # map WaitLink ws)" using wq by (simp add: wq_inv_def)
  have ne: "\<not> list_empty (WaitLink w) (k_links s)" by (rule ring_elem_not_empty [OF r]) simp
  have qi: "w_queue (k_waits s w) = Some q" using wq by (simp add: wq_inv_def)
  let ?h = "list_del_init (WaitLink w) (k_links s)"
  let ?s1 = "s\<lparr>k_links := ?h\<rparr>"
  let ?s2 = "upd_wait w (w_wakeup_flags_update (\<lambda>_. flags)) ?s1"
  let ?s3 = "upd_proc ?p (pr_wait_state_update (\<lambda>_. 0)) (upd_proc ?p (pr_state_update (\<lambda>_. PROC_RUNNABLE)) ?s2)"
  have d: "wait_queue_del q w s = Some ?s1" using ne qi by (simp add: wait_queue_del_def)
  have frame: "?h x = k_links s x" if "x \<notin> set (WaitHead q # WaitLink w # map WaitLink ws)" for x
    using that by (intro list_del_init_frame [OF r]) auto
  have r2: "ring ?h (WaitHead q) (map WaitLink ws)"
    using ring_del_init [of "k_links s" "WaitHead q" "[]" "WaitLink w" "map WaitLink ws"] r by simp
  have rr: "ring ?h RunList (map RunLink rs)"
    by (rule ring_frame [of "k_links s"]) (use rq frame in \<open>auto simp: rq_inv_def\<close>)
  then have rq3: "rq_inv ?s3 rs" using rq by (simp add: rq_inv_def upd_wait_def upd_proc_def)
  have wq3: "wq_inv q ?s3 ws" using wq r2 nw by (auto simp: wq_inv_def)
  have idle3: "rq_idle ?s3 x" if "rq_idle s x" for x using that frame [of "RunLink x"] by (simp add: rq_idle_def unlinked_def image_iff)
  have kw: "k_waits ?s3 = (k_waits s)(w := (k_waits s w)\<lparr>w_wakeup_flags := flags\<rparr>)" by (auto simp: upd_wait_def)
  have step: "wakeup_wait q w flags True s = (if ?p \<noteq> k_current s then sched_class_enqueue ?p ?s3 else Some ?s3)"
    using d w st by (simp add: wakeup_wait_def wakeup_proc_def Let_def)
  have oth: "k_procs ?s3 x = k_procs s x" if "x \<noteq> ?p" for x using that by simp
  have own: "pr_state (k_procs ?s3 ?p) = PROC_RUNNABLE" by simp
  show ?thesis
  proof (cases "?p = k_current s")
    case True
    have "wakeup_wait q w flags True s = Some ?s3" using step True by simp
    then show ?thesis using True rq3 wq3 kw oth own idle3 by (intro exI [of _ ?s3]) simp
  next
    case False
    with p have pn: "?p \<notin> set rs" "rq_idle ?s3 ?p" "?p \<noteq> k_idleproc s" using idle3 by blast+
    let ?s4 = "rr_enqueued ?p ?s3"
    have "wakeup_wait q w flags True s = Some ?s4"
      unfolding step using False pn by (simp add: sched_class_enqueue_def RR_enqueue_eq rq_idle_def unlinked_list_empty)
    moreover have "rq_inv ?s4 (rs @ [?p])" by (rule rq_inv_enqueued [OF rq3 pn(1)])
    moreover have "wq_inv q ?s4 ws" by (rule wq_inv_enqueued [OF rq3 wq3])
    moreover have "rq_idle ?s4 x" if x: "x \<noteq> ?p" "x \<notin> set rs" "rq_idle s x" for x
    proof -
      have "ring (k_links ?s3) RunList (map RunLink rs)" using rq3 by (simp add: rq_inv_def)
      then have "list_add_before RunList (RunLink ?p) (k_links ?s3) (RunLink x) = k_links ?s3 (RunLink x)"
        using x by (intro list_add_before_frame) auto
      then show ?thesis using idle3 [OF x(3)] by (simp add: rq_idle_def unlinked_def rr_enqueued_def)
    qed
    moreover have "pr_state (k_procs ?s4 ?p) = PROC_RUNNABLE" "\<forall>x. x \<noteq> ?p \<longrightarrow> k_procs ?s4 x = k_procs s x"
      "k_waits ?s4 = (k_waits s)(w := (k_waits s w)\<lparr>w_wakeup_flags := flags\<rparr>)" "k_sems ?s4 = k_sems s"
      "k_current ?s4 = k_current s" "k_idleproc ?s4 = k_idleproc s"
      using kw by (auto simp: rr_enqueued_def)
    ultimately show ?thesis using False by (intro exI [of _ ?s4]) (simp only: if_False, blast)
  qed
qed

lemma wakeup_queue_del_all:
  assumes "waiting q (w # ws) rs s"
  shows "\<exists>s'. wakeup_queue_del q w flags s = Some s' \<and> wq_inv q s' [] \<and>
    rq_inv s' (rs @ filter (\<lambda>p. p \<noteq> k_current s) (map (owner s) (w # ws))) \<and>
    (\<forall>v \<in> set (w # ws). pr_state (k_procs s' (owner s v)) = PROC_RUNNABLE \<and> w_wakeup_flags (k_waits s' v) = flags) \<and>
    (\<forall>p. p \<notin> owner s ` set (w # ws) \<longrightarrow> k_procs s' p = k_procs s p) \<and>
    (\<forall>v. v \<notin> set (w # ws) \<longrightarrow> k_waits s' v = k_waits s v) \<and> k_sems s' = k_sems s \<and> k_current s' = k_current s"
  using assms
proof (induction ws arbitrary: w rs s)
  case Nil
  then have h: "wq_inv q s [w]" "rq_inv s rs" "pr_state (k_procs s (owner s w)) = PROC_SLEEPING"
    "owner s w \<noteq> k_current s \<longrightarrow> owner s w \<notin> set rs \<and> rq_idle s (owner s w) \<and> owner s w \<noteq> k_idleproc s"
    by (simp_all add: waiting_def)
  from wakeup_wait_first [OF h, of flags] obtain s' where s': "wakeup_wait q w flags True s = Some s'" "wq_inv q s' []"
    "rq_inv s' (rs @ (if owner s w = k_current s then [] else [owner s w]))" "pr_state (k_procs s' (owner s w)) = PROC_RUNNABLE"
    "\<forall>p. p \<noteq> owner s w \<longrightarrow> k_procs s' p = k_procs s p" "k_waits s' = (k_waits s)(w := (k_waits s w)\<lparr>w_wakeup_flags := flags\<rparr>)"
    "k_sems s' = k_sems s" "k_current s' = k_current s" by blast
  have "wakeup_queue_del q w flags s = Some s'"
    using s'(1) wait_queue_first_eq [OF s'(2)] by (subst wakeup_queue_del.simps) simp
  then show ?case using s' by (intro exI [of _ s']) (cases "owner s w = k_current s", simp_all)
next
  case (Cons w2 ws)
  then have h: "wq_inv q s (w # w2 # ws)" "rq_inv s rs" "pr_state (k_procs s (owner s w)) = PROC_SLEEPING"
    "owner s w \<noteq> k_current s \<longrightarrow> owner s w \<notin> set rs \<and> rq_idle s (owner s w) \<and> owner s w \<noteq> k_idleproc s"
    by (simp_all add: waiting_def)
  from wakeup_wait_first [OF h, of flags] obtain t where t: "wakeup_wait q w flags True s = Some t" "wq_inv q t (w2 # ws)"
    "rq_inv t (rs @ (if owner s w = k_current s then [] else [owner s w]))" "pr_state (k_procs t (owner s w)) = PROC_RUNNABLE"
    "\<forall>p. p \<noteq> owner s w \<longrightarrow> k_procs t p = k_procs s p" "k_waits t = (k_waits s)(w := (k_waits s w)\<lparr>w_wakeup_flags := flags\<rparr>)"
    "k_sems t = k_sems s" "k_current t = k_current s" "k_idleproc t = k_idleproc s"
    "\<forall>p. p \<noteq> owner s w \<and> p \<notin> set rs \<and> rq_idle s p \<longrightarrow> rq_idle t p" by blast
  have ow: "owner t = owner s" using t(6) by (auto simp: owner_def fun_eq_iff)
  have nw: "w \<notin> set (w2 # ws)" using wq.inv_distinct [OF h(1)] by simp
  have d: "owner s w \<notin> owner s ` set (w2 # ws)" "distinct (map (owner s) (w2 # ws))"
    using Cons.prems by (auto simp: waiting_def)
  let ?rs = "rs @ (if owner s w = k_current s then [] else [owner s w])"
  have sl: "\<forall>v \<in> set (w2 # ws). pr_state (k_procs s (owner s v)) = PROC_SLEEPING \<and>
        (owner s v \<noteq> k_current s \<longrightarrow> owner s v \<notin> set rs \<and> rq_idle s (owner s v) \<and> owner s v \<noteq> k_idleproc s)"
    using Cons.prems by (simp add: waiting_def)
  have "waiting q (w2 # ws) ?rs t"
    unfolding waiting_def ow
  proof (intro conjI ballI impI t(2,3) d(2))
    fix v assume v: "v \<in> set (w2 # ws)"
    have ne: "owner s v \<noteq> owner s w" using d(1) imageI [OF v, of "owner s"] by metis
    note sv = bspec [OF sl v]
    show "pr_state (k_procs t (owner s v)) = PROC_SLEEPING" using sv t(5) ne by simp
    assume c: "owner s v \<noteq> k_current t"
    then show "owner s v \<notin> set ?rs" "rq_idle t (owner s v)" "owner s v \<noteq> k_idleproc t"
      using sv t(8,9,10) ne by auto
  qed
  from Cons.IH [OF this] obtain s' where s': "wakeup_queue_del q w2 flags t = Some s'" "wq_inv q s' []"
    "rq_inv s' (?rs @ filter (\<lambda>p. p \<noteq> k_current s) (map (owner s) (w2 # ws)))"
    "\<forall>v \<in> set (w2 # ws). pr_state (k_procs s' (owner s v)) = PROC_RUNNABLE \<and> w_wakeup_flags (k_waits s' v) = flags"
    "\<forall>p. p \<notin> owner s ` set (w2 # ws) \<longrightarrow> k_procs s' p = k_procs t p"
    "\<forall>v. v \<notin> set (w2 # ws) \<longrightarrow> k_waits s' v = k_waits t v" "k_sems s' = k_sems t" "k_current s' = k_current t"
    unfolding ow t(8) by blast
  have run: "wakeup_queue_del q w flags s = Some s'"
    using t(1) s'(1) wait_queue_first_eq [OF t(2)] by (subst wakeup_queue_del.simps) simp
  have q: "rq_inv s' (rs @ filter (\<lambda>p. p \<noteq> k_current s) (map (owner s) (w # w2 # ws)))"
    using s'(3) by (cases "owner s w = k_current s") simp_all
  have "k_procs s' (owner s w) = k_procs t (owner s w)" "k_waits s' w = k_waits t w"
    using s'(5,6) d(1) nw by blast+
  then have w: "pr_state (k_procs s' (owner s w)) = PROC_RUNNABLE" "w_wakeup_flags (k_waits s' w) = flags"
    using t(4,6) by simp_all
  have "\<forall>p. p \<notin> owner s ` set (w # w2 # ws) \<longrightarrow> k_procs s' p = k_procs s p" using s'(5) t(5) by simp
  moreover have "\<forall>v. v \<notin> set (w # w2 # ws) \<longrightarrow> k_waits s' v = k_waits s v" using s'(6) t(6) by simp
  moreover have "\<forall>v \<in> set (w # w2 # ws). pr_state (k_procs s' (owner s v)) = PROC_RUNNABLE \<and> w_wakeup_flags (k_waits s' v) = flags"
    using s'(4) w by simp
  ultimately show ?case using run s'(2,7,8) q t(7,8) by (intro exI [of _ s']) simp
qed

text \<open>\<open>woken\<close>: all that waited in \<open>q\<close> are ready to run in their order, with the reason \<open>flags\<close>;
  the other processes, the semaphores and the running process are as before.\<close>

definition woken :: "nat \<Rightarrow> nat list \<Rightarrow> nat list \<Rightarrow> u32 \<Rightarrow> kstate \<Rightarrow> kstate \<Rightarrow> bool" where
  "woken q ws rs flags k k' \<longleftrightarrow> wq_inv q k' [] \<and> rq_inv k' (rs @ filter (\<lambda>p. p \<noteq> k_current k) (map (owner k) ws)) \<and>
     (\<forall>w \<in> set ws. pr_state (k_procs k' (owner k w)) = PROC_RUNNABLE \<and> w_wakeup_flags (k_waits k' w) = flags) \<and>
     (\<forall>p. p \<notin> owner k ` set ws \<longrightarrow> k_procs k' p = k_procs k p) \<and> k_sems k' = k_sems k \<and> k_current k' = k_current k"

lemma wakeup_queue_all:
  assumes "waiting q ws rs k"
  shows "\<exists>k'. wakeup_queue q flags True k = Some k' \<and> woken q ws rs flags k k'"
proof (cases ws)
  case Nil
  then have "wq_inv q k []" "rq_inv k rs" using assms by (simp_all add: waiting_def)
  then show ?thesis using wait_queue_first_eq [of q k "[]"] Nil by (simp add: wakeup_queue_def woken_def)
next
  case (Cons w vs)
  then have "wq_inv q k (w # vs)" using assms by (simp add: waiting_def)
  then have f: "wakeup_queue q flags True k = wakeup_queue_del q w flags k"
    using wait_queue_first_eq by (simp add: wakeup_queue_def)
  show ?thesis using wakeup_queue_del_all [of q w vs rs k flags] assms unfolding f Cons woken_def by blast
qed

lemma wait_queue_empty_eq: "wq_inv q k ws \<Longrightarrow> wait_queue_empty q k \<longleftrightarrow> ws = []"
  using ring_next_head [of "k_links k" "WaitHead q" "map WaitLink ws"]
  by (cases ws) (simp_all add: wait_queue_empty_def wq_inv_def list_empty_def list_next_def)

section \<open>Properties\<close>

text \<open>\<^verbatim>\<open>up\<close> on a semaphore with waiters hands its unit to the one that waits longest: that process,
  and no other, becomes runnable at the tail of the run queue, and the value does not change.\<close>

theorem up_hands_over:
  assumes "wq_inv i s (w # ws)" "rq_inv s rs"
    and "w_proc (k_waits s w) = Some p" "pr_wait_state (k_procs s p) = WT_KSEM" "pr_state (k_procs s p) = PROC_SLEEPING"
    and "p \<notin> set rs" "rq_idle s p" "p \<noteq> k_current s" "p \<noteq> k_idleproc s"
  shows "\<exists>s'. up i s = Some s' \<and> wq_inv i s' ws \<and> rq_inv s' (rs @ [p]) \<and> k_sems s' = k_sems s \<and>
    pr_state (k_procs s' p) = PROC_RUNNABLE \<and> w_wakeup_flags (k_waits s' w) = WT_KSEM"
  by (rule up_wakes_first [OF assms])

definition example_waiter :: kstate where
  "example_waiter = example_kstate\<lparr>
     k_links := list_add_before (WaitHead 0) (WaitLink 6) (k_links example_kstate),
     k_procs := (\<lambda>p. if p = 4 then (example_proc PROC_SLEEPING 4 False)\<lparr>pr_wait_state := WT_KSEM\<rparr> else k_procs example_kstate p),
     k_waits := (\<lambda>w. \<lparr>w_proc = Some 4, w_wakeup_flags = 0, w_queue = Some 0\<rparr>), k_sems := (\<lambda>_. 0)\<rparr>"

theorem up_hands_over_witness: "\<exists>s'. up 0 example_waiter = Some s' \<and> wq_inv 0 s' [] \<and> rq_inv s' [2, 3, 4]"
proof -
  have "wq_inv 0 example_waiter [6]" "rq_inv example_waiter [2, 3]" "rq_idle example_waiter 4"
    by (simp_all add: wq_inv_def rq_inv_def rq_idle_def example_waiter_def example_kstate_def ring_def list_init_def
        list_add_before_def list_add_raw_def unlinked_def example_proc_def)
  from up_hands_over [OF this(1,2) _ _ _ _ this(3)] show ?thesis by (auto simp: example_waiter_def)
qed

text \<open>C2. Mutual exclusion: however the operations of all processes interleave, the number of units of
  a semaphore held at once never exceeds its initial value, the value never becomes negative, and
  nobody waits while a unit is free.\<close>

theorem semaphore_bounds_holders:
  assumes "sem_reach i s0 (s, h)" "0 \<le> k_sems s0 i" "wait_queue_first i s0 = None"
  shows "h \<le> k_sems s0 i \<and> 0 \<le> k_sems s i \<and> (wait_queue_first i s \<noteq> None \<longrightarrow> h = k_sems s0 i)"
  using sem_reach_ok [OF assms] by (auto simp: sem_ok_def)

text \<open>A run: the only unit is taken by \<^verbatim>\<open>try_down\<close>, then a \<^verbatim>\<open>down\<close> has to wait.\<close>

theorem semaphore_bounds_holders_witness:
  "\<exists>s h. sem_reach 0 example_kstate (s, h) \<and> wait_queue_first 0 s = Some 5 \<and> h = k_sems example_kstate 0 \<and> h = 1"
proof -
  define s1 where "s1 = upd_sem 0 (\<lambda>v. v - 1) example_kstate"
  have t: "try_down 0 example_kstate = (True, s1)" by (simp add: try_down_def s1_def)
  have r1: "sem_reach 0 example_kstate (s1, 0 + 1)"
    by (rule sem_reach.step [OF sem_reach.start sem_step.try_ok [OF t]])
  have q0: "wq_inv 0 example_kstate []" using example_kstate_links(3) [of 0] by (simp add: wq_inv_def)
  then have q1: "wq_inv 0 s1 []" by (simp add: wq_inv_def s1_def upd_sem_def)
  have z: "k_sems s1 0 \<le> 0" by (simp add: s1_def upd_sem_def)
  obtain s2 where s2: "down_enter 0 5 WT_KSEM s1 = Some (False, s2)" "wq_inv 0 s2 ([] @ [5])"
    using down_blocks [OF q1 _ z, of 5] by auto
  have r2: "sem_reach 0 example_kstate (s2, 0 + 1)"
    by (rule sem_reach.step [OF r1 sem_step.block [OF s2(1)]])
  have f: "wait_queue_first 0 s2 = Some 5" using wait_queue_first_eq [OF s2(2)] by simp
  have e: "wait_queue_first 0 example_kstate = None" using wait_queue_first_eq [OF q0] by simp
  have "0 + 1 = k_sems example_kstate 0"
    using semaphore_bounds_holders [OF r2 _ e] f by auto
  then show ?thesis using r2 f by auto
qed

text \<open>\<^verbatim>\<open>down\<close> on a semaphore without a free unit appends the caller to the wait queue and puts it to
  sleep with the wait reason of semaphores.\<close>

theorem down_puts_to_sleep:
  assumes "wq_inv i s ws" "w \<notin> set ws" "k_sems s i \<le> 0"
  shows "\<exists>s'. down_enter i w WT_KSEM s = Some (False, s') \<and> wq_inv i s' (ws @ [w]) \<and>
    w_proc (k_waits s' w) = Some (k_current s) \<and> pr_state (k_procs s' (k_current s)) = PROC_SLEEPING \<and>
    pr_wait_state (k_procs s' (k_current s)) = WT_KSEM \<and> k_sems s' = k_sems s"
  by (rule down_blocks [OF assms])

theorem down_puts_to_sleep_witness: "\<exists>s'. down_enter 0 5 WT_KSEM example_waiter = Some (False, s') \<and> wq_inv 0 s' [6, 5]"
proof -
  have "wq_inv 0 example_waiter [6]" "k_sems example_waiter 0 \<le> 0"
    by (simp_all add: wq_inv_def example_waiter_def example_kstate_def ring_def list_init_def
        list_add_before_def list_add_raw_def)
  from down_puts_to_sleep [OF this(1) _ this(2), of 5] show ?thesis by auto
qed

end
