(* ===== verification/Phil.thy ===== *)
theory Phil
  imports Sync
begin

text \<open>
  \<^verbatim>\<open>kern/sync/check_sync.c\<close>: five philosophers that share forks, once with semaphores and once with the monitor. A
  semaphore is its value and the queue of the philosophers that wait for it, the view of \<open>sem_abs\<close> that \<^verbatim>\<open>up\<close> and
  \<^verbatim>\<open>down\<close> of \<^verbatim>\<open>sem.c\<close> implement. A philosopher is where it stands in the code; one step takes it from one operation on a
  semaphore to the next, and any philosopher that is not blocked may take it. Sleeping and printing change nothing here.
\<close>

section \<open>Semaphores as a value and a queue\<close>

type_synonym psem = "int \<times> nat list"

definition sem_down :: "nat \<Rightarrow> psem \<Rightarrow> bool \<times> psem" where
  "sem_down i m = (case m of (v, q) \<Rightarrow> if v > 0 then (True, v - 1, q) else (False, v, q @ [i]))"

definition sem_up :: "psem \<Rightarrow> nat option \<times> psem" where
  "sem_up m = (case m of (v, []) \<Rightarrow> (None, v + 1, []) | (v, w # q) \<Rightarrow> (Some w, v, q))"

text \<open>Semaphore \<open>i\<close> of the kernel has the value \<open>v\<close> and the processes \<open>ps\<close> wait for it.\<close>

definition sem_abs :: "nat \<Rightarrow> kstate \<Rightarrow> nat list \<Rightarrow> psem \<Rightarrow> bool" where
  "sem_abs i s ws m \<longleftrightarrow> k_sems s i = fst m \<and> wq_inv i s ws \<and> map (\<lambda>w. w_proc (k_waits s w)) ws = map Some (snd m)"

section \<open>The table\<close>

definition PHI_N :: nat where "PHI_N = 5"
definition THINKING :: int where "THINKING = 0"
definition HUNGRY :: int where "HUNGRY = 1"
definition EATING :: int where "EATING = 2"
definition TIMES :: nat where "TIMES = 4"
definition LEFT :: "nat \<Rightarrow> nat" where "LEFT i = (i + PHI_N - 1) mod PHI_N"
definition RIGHT :: "nat \<Rightarrow> nat" where "RIGHT i = (i + 1) mod PHI_N"

section \<open>Philosophers with semaphores\<close>

text \<open>\<open>PThinking\<close>: before \<open>down(&mutex)\<close> of \<open>phi_take_forks_sema\<close>; \<open>PWaitTake\<close>: blocked in it; \<open>PInTake\<close>: behind it;
  \<open>PLeaveTake\<close>: before \<open>up(&mutex)\<close>; \<open>PTakeFork\<close>: before \<open>down(&s[i])\<close>; \<open>PWaitFork\<close>: blocked in it; \<open>PEating\<close>: before
  \<open>down(&mutex)\<close> of \<open>phi_put_forks_sema\<close>, and so on.\<close>

datatype ppc = PThinking | PWaitTake | PInTake | PLeaveTake | PTakeFork | PWaitFork | PEating | PWaitPut | PInPut | PLeavePut | PQuit

record psema =
  ps_state :: "nat \<Rightarrow> int"
  ps_mutex :: psem
  ps_s :: "nat \<Rightarrow> psem"
  ps_pc :: "nat \<Rightarrow> ppc"
  ps_iter :: "nat \<Rightarrow> nat"

definition ps_goto :: "nat \<Rightarrow> ppc \<Rightarrow> psema \<Rightarrow> psema" where
  "ps_goto i c t = t\<lparr>ps_pc := (ps_pc t)(i := c)\<rparr>"

definition ps_set_state :: "nat \<Rightarrow> int \<Rightarrow> psema \<Rightarrow> psema" where
  "ps_set_state i v t = t\<lparr>ps_state := (ps_state t)(i := v)\<rparr>"

text \<open>Where a blocked philosopher goes on when the semaphore is handed to it.\<close>

fun ps_granted :: "ppc \<Rightarrow> ppc" where
  "ps_granted PWaitTake = PInTake"
| "ps_granted PWaitFork = PEating"
| "ps_granted PWaitPut = PInPut"
| "ps_granted c = c"

definition ps_wake :: "nat option \<Rightarrow> psema \<Rightarrow> psema" where
  "ps_wake r t = (case r of None \<Rightarrow> t | Some w \<Rightarrow> ps_goto w (ps_granted (ps_pc t w)) t)"

definition ps_up_mutex :: "psema \<Rightarrow> psema" where
  "ps_up_mutex t = (case sem_up (ps_mutex t) of (r, m) \<Rightarrow> ps_wake r (t\<lparr>ps_mutex := m\<rparr>))"

definition ps_down_mutex :: "nat \<Rightarrow> ppc \<Rightarrow> ppc \<Rightarrow> psema \<Rightarrow> psema" where
  "ps_down_mutex i got blocked t =
     (case sem_down i (ps_mutex t) of (done, m) \<Rightarrow> ps_goto i (if done then got else blocked) (t\<lparr>ps_mutex := m\<rparr>))"

definition ps_up_s :: "nat \<Rightarrow> psema \<Rightarrow> psema" where
  "ps_up_s i t = (case sem_up (ps_s t i) of (r, m) \<Rightarrow> ps_wake r (t\<lparr>ps_s := (ps_s t)(i := m)\<rparr>))"

definition phi_test_sema :: "nat \<Rightarrow> psema \<Rightarrow> psema" where
  "phi_test_sema i t =
     (if ps_state t i = HUNGRY \<and> ps_state t (LEFT i) \<noteq> EATING \<and> ps_state t (RIGHT i) \<noteq> EATING
      then ps_up_s i (ps_set_state i EATING t) else t)"

definition phi_take_forks_sema :: "nat \<Rightarrow> psema \<Rightarrow> psema option" where
  "phi_take_forks_sema i t =
     (case ps_pc t i of
        PThinking \<Rightarrow> Some (ps_down_mutex i PInTake PWaitTake t)
      | PInTake \<Rightarrow> Some (ps_goto i PLeaveTake (phi_test_sema i (ps_set_state i HUNGRY t)))
      | PLeaveTake \<Rightarrow> Some (ps_goto i PTakeFork (ps_up_mutex t))
      | PTakeFork \<Rightarrow>
          (case sem_down i (ps_s t i) of (done, m) \<Rightarrow>
             Some (ps_goto i (if done then PEating else PWaitFork) (t\<lparr>ps_s := (ps_s t)(i := m)\<rparr>)))
      | _ \<Rightarrow> None)"

text \<open>The last step of \<open>phi_put_forks_sema\<close> goes to \<open>next\<close>.\<close>

definition phi_put_forks_sema :: "nat \<Rightarrow> ppc \<Rightarrow> psema \<Rightarrow> psema option" where
  "phi_put_forks_sema i nxt t =
     (case ps_pc t i of
        PEating \<Rightarrow> Some (ps_down_mutex i PInPut PWaitPut t)
      | PInPut \<Rightarrow> Some (ps_goto i PLeavePut (phi_test_sema (RIGHT i) (phi_test_sema (LEFT i) (ps_set_state i THINKING t))))
      | PLeavePut \<Rightarrow> Some (ps_goto i nxt (ps_up_mutex t))
      | _ \<Rightarrow> None)"

text \<open>One step of philosopher \<open>i\<close>, \<open>None\<close> when it is blocked or has quit. \<open>ps_iter\<close> counts the meals.\<close>

definition philosopher_using_semaphore :: "nat \<Rightarrow> psema \<Rightarrow> psema option" where
  "philosopher_using_semaphore i t =
     (if ps_pc t i \<in> {PThinking, PInTake, PLeaveTake, PTakeFork} then phi_take_forks_sema i t
      else if ps_pc t i = PLeavePut then
        map_option (\<lambda>t. t\<lparr>ps_iter := (ps_iter t)(i := ps_iter t i + 1)\<rparr>)
          (phi_put_forks_sema i (if ps_iter t i + 1 < TIMES then PThinking else PQuit) t)
      else phi_put_forks_sema i PQuit t)"

definition check_sync_sema :: psema where
  "check_sync_sema = \<lparr>ps_state = (\<lambda>_. THINKING), ps_mutex = (1, []), ps_s = (\<lambda>_. (0, [])), ps_pc = (\<lambda>_. PThinking), ps_iter = (\<lambda>_. 0)\<rparr>"

text \<open>\<open>sema_run n t\<close>: the philosophers, in some order, can take \<open>n\<close> steps to \<open>t\<close>.\<close>

inductive sema_run :: "nat \<Rightarrow> psema \<Rightarrow> bool" where
  start: "sema_run 0 check_sync_sema"
| step: "sema_run n t \<Longrightarrow> i < PHI_N \<Longrightarrow> philosopher_using_semaphore i t = Some t' \<Longrightarrow> sema_run (Suc n) t'"

section \<open>The invariant\<close>

lemma less_N: "i < PHI_N \<longleftrightarrow> i = 0 \<or> i = 1 \<or> i = 2 \<or> i = 3 \<or> i = 4"
  by (auto simp: PHI_N_def)

lemma neighbours:
  assumes "i < PHI_N"
  shows "LEFT i < PHI_N" "RIGHT i < PHI_N" "LEFT i \<noteq> i" "RIGHT i \<noteq> i" "LEFT i \<noteq> RIGHT i" "RIGHT (LEFT i) = i" "LEFT (RIGHT i) = i"
    "LEFT (LEFT i) \<noteq> i" "RIGHT (RIGHT i) \<noteq> i" "LEFT (LEFT i) \<noteq> RIGHT i" "RIGHT (RIGHT i) \<noteq> LEFT i"
  using assms unfolding less_N by (elim disjE; simp add: LEFT_def RIGHT_def PHI_N_def)+

lemma neighbour_eq: "i < PHI_N \<Longrightarrow> j < PHI_N \<Longrightarrow> LEFT i = j \<longleftrightarrow> i = RIGHT j"
  using neighbours by metis

lemma states_distinct [simp]: "THINKING \<noteq> HUNGRY" "HUNGRY \<noteq> THINKING" "THINKING \<noteq> EATING" "EATING \<noteq> THINKING" "HUNGRY \<noteq> EATING" "EATING \<noteq> HUNGRY"
  by (simp_all add: THINKING_def HUNGRY_def EATING_def)

definition critical :: "ppc \<Rightarrow> bool" where
  "critical c \<longleftrightarrow> c \<in> {PInTake, PLeaveTake, PInPut, PLeavePut}"

text \<open>What the place of a philosopher says of its state and its semaphore.\<close>

fun ps_place :: "ppc \<Rightarrow> nat \<Rightarrow> int \<Rightarrow> psem \<Rightarrow> bool" where
  "ps_place PTakeFork i v m \<longleftrightarrow> v = HUNGRY \<and> m = (0, []) \<or> v = EATING \<and> m = (1, [])"
| "ps_place PLeaveTake i v m \<longleftrightarrow> v = HUNGRY \<and> m = (0, []) \<or> v = EATING \<and> m = (1, [])"
| "ps_place PWaitFork i v m \<longleftrightarrow> v = HUNGRY \<and> m = (0, [i])"
| "ps_place PEating i v m \<longleftrightarrow> v = EATING \<and> m = (0, [])"
| "ps_place PWaitPut i v m \<longleftrightarrow> v = EATING \<and> m = (0, [])"
| "ps_place PInPut i v m \<longleftrightarrow> v = EATING \<and> m = (0, [])"
| "ps_place c i v m \<longleftrightarrow> v = THINKING \<and> m = (0, [])"

definition ps_places :: "psema \<Rightarrow> bool" where
  "ps_places t \<longleftrightarrow> (\<forall>i < PHI_N. ps_place (ps_pc t i) i (ps_state t i) (ps_s t i))"

text \<open>\<open>h\<close> is the philosopher in the critical section.\<close>

definition ps_mutex_ok :: "nat option \<Rightarrow> psema \<Rightarrow> bool" where
  "ps_mutex_ok h t \<longleftrightarrow> (\<forall>i < PHI_N. critical (ps_pc t i) \<longleftrightarrow> h = Some i) \<and> fst (ps_mutex t) = (if h = None then 1 else 0) \<and>
     (h = None \<longrightarrow> snd (ps_mutex t) = []) \<and> distinct (snd (ps_mutex t)) \<and> (\<forall>i. i \<in> set (snd (ps_mutex t)) \<longleftrightarrow> i < PHI_N \<and> ps_pc t i \<in> {PWaitTake, PWaitPut}) \<and>
     (\<forall>i. h = Some i \<longrightarrow> i < PHI_N)"

definition no_shared_fork :: "(nat \<Rightarrow> int) \<Rightarrow> bool" where
  "no_shared_fork st \<longleftrightarrow> (\<forall>i < PHI_N. st i = EATING \<longrightarrow> st (RIGHT i) \<noteq> EATING)"

definition starving :: "(nat \<Rightarrow> int) \<Rightarrow> nat \<Rightarrow> bool" where
  "starving st i \<longleftrightarrow> st i = HUNGRY \<and> st (LEFT i) \<noteq> EATING \<and> st (RIGHT i) \<noteq> EATING"

definition forks_ok :: "(nat \<Rightarrow> int) \<Rightarrow> bool" where
  "forks_ok st \<longleftrightarrow> no_shared_fork st \<and> (\<forall>i < PHI_N. \<not> starving st i)"

definition ps_iters :: "psema \<Rightarrow> bool" where
  "ps_iters t \<longleftrightarrow> (\<forall>i < PHI_N. if ps_pc t i = PQuit then ps_iter t i = TIMES else ps_iter t i < TIMES)"

definition ps_inv :: "psema \<Rightarrow> bool" where
  "ps_inv t \<longleftrightarrow> ps_places t \<and> (\<exists>h. ps_mutex_ok h t) \<and> forks_ok (ps_state t) \<and> ps_iters t"

text \<open>\<open>phi_test\<close> changes the states like this function.\<close>

definition test_states :: "nat \<Rightarrow> (nat \<Rightarrow> int) \<Rightarrow> nat \<Rightarrow> int" where
  "test_states i st = (if starving st i then st(i := EATING) else st)"

lemma test_no_shared:
  assumes "no_shared_fork st" "i < PHI_N"
  shows "no_shared_fork (test_states i st)"
  using assms neighbours by (auto simp: no_shared_fork_def test_states_def starving_def)

lemma test_starving: "starving (test_states i st) j \<Longrightarrow> starving st j \<and> j \<noteq> i"
  by (auto simp: test_states_def starving_def split: if_splits)

lemma forks_take:
  assumes "forks_ok st" "i < PHI_N" "st i = THINKING"
  shows "forks_ok (test_states i (st(i := HUNGRY)))"
proof -
  have "no_shared_fork (st(i := HUNGRY))" using assms by (auto simp: forks_ok_def no_shared_fork_def)
  moreover have "j = i" if "starving (st(i := HUNGRY)) j" "j < PHI_N" for j
    using that assms by (auto simp: forks_ok_def starving_def split: if_splits)
  ultimately show ?thesis using test_no_shared [OF _ assms(2)] by (auto simp: forks_ok_def dest: test_starving)
qed

lemma forks_put:
  assumes "forks_ok st" "i < PHI_N"
  shows "forks_ok (test_states (RIGHT i) (test_states (LEFT i) (st(i := THINKING))))"
proof -
  have "no_shared_fork (st(i := THINKING))" using assms by (auto simp: forks_ok_def no_shared_fork_def)
  moreover have "j = LEFT i \<or> j = RIGHT i" if "starving (st(i := THINKING)) j" "j < PHI_N" for j
    using that assms neighbours [of j] by (auto simp: forks_ok_def starving_def split: if_splits)
  ultimately show ?thesis
    using neighbours(1,2) [OF assms(2)] by (auto simp: forks_ok_def intro!: test_no_shared dest!: test_starving)
qed

section \<open>Every step keeps it\<close>

lemma ps_goto_sel [simp]:
  "ps_state (ps_goto i c t) = ps_state t" "ps_mutex (ps_goto i c t) = ps_mutex t" "ps_s (ps_goto i c t) = ps_s t"
  "ps_pc (ps_goto i c t) = (ps_pc t)(i := c)" "ps_iter (ps_goto i c t) = ps_iter t"
  by (simp_all add: ps_goto_def)

lemma ps_set_state_sel [simp]:
  "ps_state (ps_set_state i v t) = (ps_state t)(i := v)" "ps_mutex (ps_set_state i v t) = ps_mutex t" "ps_s (ps_set_state i v t) = ps_s t"
  "ps_pc (ps_set_state i v t) = ps_pc t" "ps_iter (ps_set_state i v t) = ps_iter t"
  by (simp_all add: ps_set_state_def)

lemma ps_mutex_cong:
  assumes "ps_mutex_ok h t" "ps_mutex t' = ps_mutex t"
    and "\<And>j. j < PHI_N \<Longrightarrow> critical (ps_pc t' j) = critical (ps_pc t j)"
    and "\<And>j. j < PHI_N \<Longrightarrow> (ps_pc t' j \<in> {PWaitTake, PWaitPut}) = (ps_pc t j \<in> {PWaitTake, PWaitPut})"
  shows "ps_mutex_ok h t'"
  using assms unfolding ps_mutex_ok_def by (simp cong: conj_cong)

lemma ps_down_mutex_ok:
  assumes m: "ps_mutex_ok h t" and i: "i < PHI_N" "\<not> critical (ps_pc t i)" "ps_pc t i \<notin> {PWaitTake, PWaitPut}"
    and c: "critical got" "blocked \<in> {PWaitTake, PWaitPut}"
  shows "\<exists>h. ps_mutex_ok h (ps_down_mutex i got blocked t)"
proof -
  have nc: "\<not> critical blocked" "got \<notin> {PWaitTake, PWaitPut}" using c by (auto simp: critical_def)
  obtain v q where q: "ps_mutex t = (v, q)" by (cases "ps_mutex t")
  have iq: "i \<notin> set q" using m i(3) q by (simp add: ps_mutex_ok_def)
  have "ps_mutex_ok (Some i) (ps_down_mutex i got blocked t)" if "h = None"
  proof -
    have e: "q = []" "v = 1" "\<forall>j < PHI_N. \<not> critical (ps_pc t j)" using m q that by (simp_all add: ps_mutex_ok_def)
    have "\<forall>j < PHI_N. ps_pc t j \<noteq> PWaitTake \<and> ps_pc t j \<noteq> PWaitPut" using m q e(1) by (simp add: ps_mutex_ok_def)
    then show ?thesis using e i c(1) nc(2) q by (simp add: ps_mutex_ok_def ps_down_mutex_def sem_down_def)
  qed
  moreover have "ps_mutex_ok h (ps_down_mutex i got blocked t)" if "h \<noteq> None"
  proof -
    have "h \<noteq> Some i" using m i by (simp add: ps_mutex_ok_def)
    then show ?thesis using m i c(2) nc q that iq by (simp add: ps_mutex_ok_def ps_down_mutex_def sem_down_def)
  qed
  ultimately show ?thesis by blast
qed

lemma ps_up_mutex_ok:
  assumes m: "ps_mutex_ok (Some i) t" and c: "\<not> critical c" "c \<notin> {PWaitTake, PWaitPut}"
  shows "\<exists>h. ps_mutex_ok h (ps_goto i c (ps_up_mutex t))"
proof -
  obtain q where q: "ps_mutex t = (0, q)" "distinct q" "\<forall>j. j \<in> set q \<longleftrightarrow> j < PHI_N \<and> ps_pc t j \<in> {PWaitTake, PWaitPut}" "i < PHI_N"
      "\<forall>j < PHI_N. critical (ps_pc t j) \<longleftrightarrow> j = i"
    using m by (cases "ps_mutex t") (auto simp: ps_mutex_ok_def)
  show ?thesis
  proof (cases q)
    case Nil
    then show ?thesis using q c
      by (intro exI [of _ None]) (auto simp: ps_mutex_ok_def ps_up_mutex_def sem_up_def ps_wake_def)
  next
    case (Cons w ws)
    have w: "w < PHI_N" "ps_pc t w = PWaitTake \<or> ps_pc t w = PWaitPut" using q(3) Cons by auto
    have "critical (ps_pc t i)" using q(4,5) by blast
    then have wi: "w \<noteq> i" using w by (auto simp: critical_def)
    have e: "ps_goto i c (ps_up_mutex t) = ps_goto i c (ps_goto w (ps_granted (ps_pc t w)) (t\<lparr>ps_mutex := (0, ws)\<rparr>))"
      using q(1) Cons by (simp add: ps_up_mutex_def sem_up_def ps_wake_def)
    have g: "critical (ps_granted (ps_pc t w))" "ps_granted (ps_pc t w) \<notin> {PWaitTake, PWaitPut}" using w(2) by (auto simp: critical_def)
    have ws: "\<forall>j. j \<in> set ws \<longleftrightarrow> j < PHI_N \<and> j \<noteq> w \<and> ps_pc t j \<in> {PWaitTake, PWaitPut}" "distinct ws" using q(2,3) Cons w(1) by auto
    have nw: "ps_pc t i \<notin> {PWaitTake, PWaitPut}" using \<open>critical (ps_pc t i)\<close> by (auto simp: critical_def)
    have "ps_mutex_ok (Some w) (ps_goto i c (ps_goto w (ps_granted (ps_pc t w)) (t\<lparr>ps_mutex := (0, ws)\<rparr>)))"
      unfolding ps_mutex_ok_def using ws q(4,5) c w(1) wi g nw by simp
    then show ?thesis unfolding e by blast
  qed
qed

lemma ps_up_mutex_keeps:
  assumes "ps_mutex_ok h t"
  shows "ps_state (ps_up_mutex t) = ps_state t" "ps_s (ps_up_mutex t) = ps_s t" "ps_iter (ps_up_mutex t) = ps_iter t"
    "ps_places t \<Longrightarrow> ps_places (ps_up_mutex t)"
    "ps_pc (ps_up_mutex t) j = ps_pc t j \<or> ps_pc t j = PWaitTake \<and> ps_pc (ps_up_mutex t) j = PInTake \<or> ps_pc t j = PWaitPut \<and> ps_pc (ps_up_mutex t) j = PInPut"
proof -
  have w: "ps_pc t w = PWaitTake \<or> ps_pc t w = PWaitPut" if "snd (ps_mutex t) = w # ws" for w ws
    using assms that unfolding ps_mutex_ok_def by (metis insertE list.set_intros(1) singletonD)
  show "ps_state (ps_up_mutex t) = ps_state t" "ps_s (ps_up_mutex t) = ps_s t" "ps_iter (ps_up_mutex t) = ps_iter t"
    by (auto simp: ps_up_mutex_def ps_wake_def sem_up_def split: prod.splits list.splits option.splits)
  show "ps_pc (ps_up_mutex t) j = ps_pc t j \<or> ps_pc t j = PWaitTake \<and> ps_pc (ps_up_mutex t) j = PInTake \<or> ps_pc t j = PWaitPut \<and> ps_pc (ps_up_mutex t) j = PInPut"
    using w by (auto simp: ps_up_mutex_def ps_wake_def sem_up_def split: prod.splits list.splits)
  show "ps_places (ps_up_mutex t)" if p: "ps_places t"
  proof (cases "snd (ps_mutex t)")
    case Nil
    then show ?thesis using p by (auto simp: ps_up_mutex_def ps_wake_def sem_up_def ps_places_def split: prod.splits)
  next
    case (Cons x xs)
    have "ps_place (ps_granted (ps_pc t i)) i (ps_state t i) (ps_s t i)" if "i < PHI_N" "i = x" for i
      using p w [OF Cons] that by (auto simp: ps_places_def dest!: spec [of _ x])
    moreover obtain v where "ps_mutex t = (v, x # xs)" using Cons by (cases "ps_mutex t") simp
    ultimately show ?thesis using p by (simp add: ps_up_mutex_def ps_wake_def sem_up_def ps_places_def)
  qed
qed

text \<open>A test of a philosopher whose place is as the invariant says.\<close>

lemma phi_test_spec:
  assumes "ps_place (ps_pc t j) j (ps_state t j) (ps_s t j)"
  defines "t' \<equiv> phi_test_sema j t"
  shows "ps_state t' = test_states j (ps_state t)" "ps_mutex t' = ps_mutex t" "ps_iter t' = ps_iter t"
    "ps_place (ps_pc t' j) j (ps_state t' j) (ps_s t' j)" "k \<noteq> j \<Longrightarrow> ps_pc t' k = ps_pc t k \<and> ps_s t' k = ps_s t k"
    "ps_pc t' j = ps_pc t j \<or> ps_pc t j = PWaitFork \<and> ps_pc t' j = PEating"
proof -
  have d: "t' = (if starving (ps_state t) j then ps_up_s j (ps_set_state j EATING t) else t)"
    by (simp add: t'_def phi_test_sema_def starving_def)
  show "ps_state t' = test_states j (ps_state t)" "ps_mutex t' = ps_mutex t" "ps_iter t' = ps_iter t"
    by (auto simp: d test_states_def ps_up_s_def ps_wake_def split: prod.splits option.splits)
  show "ps_place (ps_pc t' j) j (ps_state t' j) (ps_s t' j)" "k \<noteq> j \<Longrightarrow> ps_pc t' k = ps_pc t k \<and> ps_s t' k = ps_s t k"
    "ps_pc t' j = ps_pc t j \<or> ps_pc t j = PWaitFork \<and> ps_pc t' j = PEating"
    using assms(1) by (cases "ps_pc t j"; auto simp: d starving_def ps_up_s_def ps_wake_def sem_up_def)+
qed

fun ps_rank :: "ppc \<Rightarrow> nat" where
  "ps_rank PThinking = 10" | "ps_rank PWaitTake = 9" | "ps_rank PInTake = 8" | "ps_rank PLeaveTake = 7" | "ps_rank PTakeFork = 6"
| "ps_rank PWaitFork = 5" | "ps_rank PEating = 4" | "ps_rank PWaitPut = 3" | "ps_rank PInPut = 2" | "ps_rank PLeavePut = 1" | "ps_rank PQuit = 0"

text \<open>How many steps philosopher \<open>i\<close> still needs at most, the steps that the others do for it included.\<close>

definition ps_work :: "psema \<Rightarrow> nat \<Rightarrow> nat" where
  "ps_work t i = (if ps_pc t i = PQuit then 0 else (TIMES - ps_iter t i - 1) * 10 + ps_rank (ps_pc t i))"

definition ps_good :: "nat \<Rightarrow> psema \<Rightarrow> psema \<Rightarrow> bool" where
  "ps_good i t t' \<longleftrightarrow> ps_inv t' \<and> (\<forall>j < PHI_N. ps_work t' j \<le> ps_work t j) \<and> ps_work t' i < ps_work t i"

lemma ps_down_mutex_sel:
  "ps_state (ps_down_mutex i got blocked t) = ps_state t" "ps_s (ps_down_mutex i got blocked t) = ps_s t"
  "ps_iter (ps_down_mutex i got blocked t) = ps_iter t"
  "ps_pc (ps_down_mutex i got blocked t) = (ps_pc t)(i := if fst (sem_down i (ps_mutex t)) then got else blocked)"
  by (simp_all add: ps_down_mutex_def split: prod.splits)

lemma down_mutex_good:
  assumes inv: "ps_inv t" and i: "i < PHI_N"
    and c: "ps_pc t i = PThinking \<and> got = PInTake \<and> blocked = PWaitTake \<or> ps_pc t i = PEating \<and> got = PInPut \<and> blocked = PWaitPut"
  shows "ps_good i t (ps_down_mutex i got blocked t)"
proof -
  obtain h where h: "ps_mutex_ok h t" using inv by (auto simp: ps_inv_def)
  have "\<exists>h. ps_mutex_ok h (ps_down_mutex i got blocked t)" using c by (intro ps_down_mutex_ok [OF h i]) (auto simp: critical_def)
  moreover have "ps_place (ps_pc t i) i (ps_state t i) (ps_s t i)" using inv i by (simp add: ps_inv_def ps_places_def)
  then have "ps_places (ps_down_mutex i got blocked t)"
    using inv c by (auto simp: ps_inv_def ps_places_def ps_down_mutex_sel)
  moreover have "ps_iters (ps_down_mutex i got blocked t)" using inv c i by (auto simp: ps_inv_def ps_iters_def ps_down_mutex_sel)
  ultimately have "ps_inv (ps_down_mutex i got blocked t)" using inv by (simp add: ps_inv_def ps_down_mutex_sel)
  then show ?thesis using c by (auto simp: ps_good_def ps_work_def ps_down_mutex_sel)
qed

lemma work_up_mutex: "ps_mutex_ok h t \<Longrightarrow> ps_work (ps_up_mutex t) j \<le> ps_work t j"
  using ps_up_mutex_keeps(5) [of h t j] by (auto simp: ps_work_def ps_up_mutex_keeps(3) [of h])

text \<open>Leaving the critical section; \<open>u\<close> changes the number of meals only.\<close>

lemma leave_good:
  assumes inv: "ps_inv t" and i: "i < PHI_N" "critical (ps_pc t i)" and c: "\<not> critical c" "c \<notin> {PWaitTake, PWaitPut}"
    and place: "ps_place c i (ps_state t i) (ps_s t i)"
    and iter: "if c = PQuit then n = TIMES else n < TIMES"
    and work: "(if c = PQuit then 0 else (TIMES - n - 1) * 10 + ps_rank c) < ps_work t i"
  shows "ps_good i t ((ps_goto i c (ps_up_mutex t))\<lparr>ps_iter := (ps_iter t)(i := n)\<rparr>)" (is "ps_good i t ?t")
proof -
  have m: "ps_mutex_ok (Some i) t" using inv i by (auto simp: ps_inv_def ps_mutex_ok_def)
  note k = ps_up_mutex_keeps [OF m]
  obtain h where "ps_mutex_ok h (ps_goto i c (ps_up_mutex t))" using ps_up_mutex_ok [OF m c] by blast
  then have "ps_mutex_ok h ?t" by (rule ps_mutex_cong) simp_all
  moreover have "ps_places (ps_up_mutex t)" using k(4) inv by (simp add: ps_inv_def)
  then have "ps_places ?t" using place by (simp add: ps_places_def k(1,2))
  moreover have "ps_iters ?t"
  proof -
    have "(ps_pc (ps_up_mutex t) j = PQuit) = (ps_pc t j = PQuit)" for j using k(5) [of j] by auto
    then show ?thesis using inv iter by (simp add: ps_inv_def ps_iters_def)
  qed
  ultimately have "ps_inv ?t" using inv by (auto simp: ps_inv_def k(1))
  moreover have "ps_work ?t j \<le> ps_work t j" if "j \<noteq> i" for j
  proof -
    have "ps_work ?t j = ps_work (ps_up_mutex t) j" using that by (simp add: ps_work_def k(3))
    then show ?thesis using work_up_mutex [OF m, of j] by simp
  qed
  moreover have "ps_work ?t i < ps_work t i" using work by (auto simp: ps_work_def split: if_splits)
  ultimately have "\<forall>j. ps_work ?t j \<le> ps_work t j" by (metis less_imp_le)
  with \<open>ps_inv ?t\<close> \<open>ps_work ?t i < ps_work t i\<close> show ?thesis by (simp add: ps_good_def)
qed

lemma test_self:
  "ps_s t i = (0, []) \<Longrightarrow> phi_test_sema i t =
     (if starving (ps_state t) i then t\<lparr>ps_state := (ps_state t)(i := EATING), ps_s := (ps_s t)(i := (1, []))\<rparr> else t)"
  by (simp add: phi_test_sema_def starving_def ps_up_s_def sem_up_def ps_wake_def ps_set_state_def)

lemma ps_placeD: "ps_inv t \<Longrightarrow> i < PHI_N \<Longrightarrow> ps_place (ps_pc t i) i (ps_state t i) (ps_s t i)"
  by (simp add: ps_inv_def ps_places_def)

lemma take_good:
  assumes inv: "ps_inv t" and i: "i < PHI_N" "ps_pc t i = PInTake"
  shows "ps_good i t (ps_goto i PLeaveTake (phi_test_sema i (ps_set_state i HUNGRY t)))" (is "ps_good i t ?t")
proof -
  have p: "ps_state t i = THINKING" "ps_s t i = (0, [])" using ps_placeD [OF inv i(1)] i(2) by auto
  let ?u = "phi_test_sema i (ps_set_state i HUNGRY t)"
  have u: "?u = (if starving ((ps_state t)(i := HUNGRY)) i then t\<lparr>ps_state := (ps_state t)(i := EATING), ps_s := (ps_s t)(i := (1, []))\<rparr>
      else ps_set_state i HUNGRY t)"
    using p(2) by (simp add: test_self ps_set_state_def)
  have s: "ps_state ?t = test_states i ((ps_state t)(i := HUNGRY))" "ps_pc ?t = (ps_pc t)(i := PLeaveTake)" "ps_mutex ?t = ps_mutex t"
      "ps_iter ?t = ps_iter t" "\<And>j. j \<noteq> i \<Longrightarrow> ps_s ?t j = ps_s t j" "\<And>j. j \<noteq> i \<Longrightarrow> ps_state ?t j = ps_state t j"
      "ps_place PLeaveTake i (ps_state ?t i) (ps_s ?t i)"
    using p by (auto simp: u test_states_def)
  obtain h where h: "ps_mutex_ok h t" using inv by (auto simp: ps_inv_def)
  have "ps_mutex_ok h ?t" using i(2) s(2,3) by (intro ps_mutex_cong [OF h]) (auto simp: critical_def)
  moreover have "ps_places ?t" unfolding ps_places_def
  proof (intro allI impI)
    fix j assume "j < PHI_N"
    then show "ps_place (ps_pc ?t j) j (ps_state ?t j) (ps_s ?t j)"
      using s(2,7) s(5,6) [of j] ps_placeD [OF inv, of j] by (cases "j = i") simp_all
  qed
  moreover have "forks_ok (ps_state ?t)" unfolding s(1) using inv p(1) i(1) by (intro forks_take) (auto simp: ps_inv_def)
  moreover have "ps_iters ?t" using inv s(2,4) i by (auto simp: ps_inv_def ps_iters_def)
  ultimately have "ps_inv ?t" by (auto simp: ps_inv_def)
  then show ?thesis using s(2,4) i(2) by (auto simp: ps_good_def ps_work_def)
qed

lemma put_good:
  assumes inv: "ps_inv t" and i: "i < PHI_N" "ps_pc t i = PInPut"
  shows "ps_good i t (ps_goto i PLeavePut (phi_test_sema (RIGHT i) (phi_test_sema (LEFT i) (ps_set_state i THINKING t))))" (is "ps_good i t ?t")
proof -
  note n = neighbours [OF i(1)]
  have p: "ps_state t i = EATING" "ps_s t i = (0, [])" using ps_placeD [OF inv i(1)] i(2) by auto
  let ?a = "ps_set_state i THINKING t"
  let ?b = "phi_test_sema (LEFT i) ?a"
  let ?c = "phi_test_sema (RIGHT i) ?b"
  have pa: "ps_place (ps_pc ?a j) j (ps_state ?a j) (ps_s ?a j)" if "j < PHI_N" "j \<noteq> i" for j using ps_placeD [OF inv that(1)] that(2) by simp
  note b = phi_test_spec [OF pa [OF n(1,3)]]
  have sb: "ps_state ?b j = ps_state ?a j" if "j \<noteq> LEFT i" for j using that by (simp add: b(1) test_states_def)
  have pb: "ps_place (ps_pc ?b j) j (ps_state ?b j) (ps_s ?b j)" if "j < PHI_N" "j \<noteq> i" for j
    using pa [OF that] b(4) b(5) [of j] sb [of j] by (cases "j = LEFT i") simp_all
  note c = phi_test_spec [OF pb [OF n(2,4)]]
  have sc: "ps_state ?c j = ps_state ?b j" if "j \<noteq> RIGHT i" for j using that by (simp add: c(1) test_states_def)
  have pc: "ps_place (ps_pc ?c j) j (ps_state ?c j) (ps_s ?c j)" if "j < PHI_N" "j \<noteq> i" for j
    using pb [OF that] c(4) c(5) [of j] sc [of j] by (cases "j = RIGHT i") simp_all
  have moved: "ps_pc ?c j = ps_pc t j \<or> ps_pc t j = PWaitFork \<and> ps_pc ?c j = PEating" for j
    using b(5) [of j] b(6) c(5) [of j] c(6) n(5) by (cases "j = LEFT i"; cases "j = RIGHT i") auto
  have si: "ps_state ?c i = THINKING" "ps_s ?c i = (0, [])"
    using sc [of i] sb [of i] b(5) [of i] c(5) [of i] n(3,4) p(2) by auto
  have same: "ps_mutex ?t = ps_mutex t" "ps_iter ?t = ps_iter t" by (simp_all add: b c)
  obtain h where h: "ps_mutex_ok h t" using inv by (auto simp: ps_inv_def)
  have "ps_mutex_ok h ?t"
  proof (rule ps_mutex_cong [OF h same(1)])
    fix j show "critical (ps_pc ?t j) = critical (ps_pc t j)" using moved [of j] i(2) by (auto simp: critical_def)
    show "(ps_pc ?t j \<in> {PWaitTake, PWaitPut}) = (ps_pc t j \<in> {PWaitTake, PWaitPut})" using moved [of j] i(2) by auto
  qed
  moreover have "ps_places ?t" using pc si by (auto simp: ps_places_def)
  moreover have "forks_ok (ps_state ?t)" using forks_put [OF _ i(1)] inv by (simp add: b(1) c(1) ps_inv_def)
  moreover have "ps_iters ?t"
  proof -
    have "(ps_pc ?t j = PQuit) = (ps_pc t j = PQuit)" for j using moved [of j] i(2) by auto
    then show ?thesis using inv same(2) by (simp add: ps_inv_def ps_iters_def)
  qed
  ultimately have "ps_inv ?t" by (auto simp: ps_inv_def)
  moreover have "ps_work ?t j \<le> ps_work t j" for j using moved [of j] i(2) same(2) by (auto simp: ps_work_def)
  moreover have "ps_work ?t i < ps_work t i" using i(2) same(2) by (simp add: ps_work_def)
  ultimately show ?thesis by (simp add: ps_good_def)
qed

lemma fork_good:
  assumes inv: "ps_inv t" and i: "i < PHI_N" "ps_pc t i = PTakeFork"
  shows "\<exists>t'. phi_take_forks_sema i t = Some t' \<and> ps_good i t t'"
proof -
  have p: "ps_state t i = HUNGRY \<and> ps_s t i = (0, []) \<or> ps_state t i = EATING \<and> ps_s t i = (1, [])"
    using ps_placeD [OF inv i(1)] i(2) by simp
  obtain c m where t': "phi_take_forks_sema i t = Some (ps_goto i c (t\<lparr>ps_s := (ps_s t)(i := m)\<rparr>))" "ps_place c i (ps_state t i) m"
      "c = PEating \<or> c = PWaitFork"
    using p i(2) by (auto simp: phi_take_forks_sema_def sem_down_def)
  let ?t = "ps_goto i c (t\<lparr>ps_s := (ps_s t)(i := m)\<rparr>)"
  obtain h where h: "ps_mutex_ok h t" using inv by (auto simp: ps_inv_def)
  have "ps_mutex_ok h ?t" using i(2) t'(3) by (intro ps_mutex_cong [OF h]) (auto simp: critical_def)
  moreover have "ps_places ?t" using inv t'(2) by (simp add: ps_inv_def ps_places_def)
  moreover have "ps_iters ?t" using inv i(2) t'(3) by (auto simp: ps_inv_def ps_iters_def)
  ultimately have "ps_inv ?t" using inv by (auto simp: ps_inv_def)
  then have "ps_good i t ?t" using i(2) t'(3) by (auto simp: ps_good_def ps_work_def)
  with t'(1) show ?thesis by blast
qed

text \<open>The philosophers that can step are those that are neither blocked nor done.\<close>

lemma sema_step_good:
  assumes inv: "ps_inv t" and i: "i < PHI_N"
  shows "if ps_pc t i \<in> {PWaitTake, PWaitFork, PWaitPut, PQuit} then philosopher_using_semaphore i t = None
    else \<exists>t'. philosopher_using_semaphore i t = Some t' \<and> ps_good i t t'"
proof -
  note p = ps_placeD [OF inv i]
  have it: "ps_pc t i \<noteq> PQuit \<Longrightarrow> ps_iter t i < TIMES" using inv i by (auto simp: ps_inv_def ps_iters_def)
  note d = philosopher_using_semaphore_def phi_take_forks_sema_def phi_put_forks_sema_def
  show ?thesis
  proof (cases "ps_pc t i")
    case PThinking
    then show ?thesis using down_mutex_good [OF inv i, of PInTake PWaitTake] by (simp add: d)
  next
    case PInTake
    then show ?thesis using take_good [OF inv i] by (simp add: d)
  next
    case PLeaveTake
    have "ps_good i t ((ps_goto i PTakeFork (ps_up_mutex t))\<lparr>ps_iter := (ps_iter t)(i := ps_iter t i)\<rparr>)"
      using PLeaveTake p it by (intro leave_good [OF inv i]) (auto simp: critical_def ps_work_def)
    moreover have "ps_iter (ps_goto i PTakeFork (ps_up_mutex t)) = ps_iter t"
      using inv by (auto simp: ps_inv_def ps_up_mutex_keeps(3))
    then have "(ps_goto i PTakeFork (ps_up_mutex t))\<lparr>ps_iter := (ps_iter t)(i := ps_iter t i)\<rparr> = ps_goto i PTakeFork (ps_up_mutex t)"
      by (metis fun_upd_triv psema.surjective psema.update_convs(5) psema.select_convs)
    ultimately show ?thesis using PLeaveTake by (simp add: d)
  next
    case PTakeFork
    then show ?thesis using fork_good [OF inv i] by (simp add: philosopher_using_semaphore_def)
  next
    case PEating
    then show ?thesis using down_mutex_good [OF inv i, of PInPut PWaitPut] by (simp add: d)
  next
    case PInPut
    then show ?thesis using put_good [OF inv i] by (simp add: d)
  next
    case PLeavePut
    let ?c = "if ps_iter t i + 1 < TIMES then PThinking else PQuit"
    have "ps_good i t ((ps_goto i ?c (ps_up_mutex t))\<lparr>ps_iter := (ps_iter t)(i := ps_iter t i + 1)\<rparr>)"
      using PLeavePut p it by (intro leave_good [OF inv i]) (auto simp: critical_def ps_work_def)
    moreover have "ps_iter (ps_goto i ?c (ps_up_mutex t)) = ps_iter t"
      using inv by (auto simp: ps_inv_def ps_up_mutex_keeps(3))
    ultimately show ?thesis using PLeavePut by (auto simp: d)
  qed (simp_all add: d)
qed

lemma start_inv: "ps_inv check_sync_sema" "(\<Sum>i < PHI_N. ps_work check_sync_sema i) = 200"
  by (auto simp: ps_inv_def ps_places_def ps_mutex_ok_def forks_ok_def no_shared_fork_def starving_def ps_iters_def critical_def check_sync_sema_def
      TIMES_def ps_work_def PHI_N_def intro!: exI [of _ None])

lemma sema_run_inv: "sema_run n t \<Longrightarrow> ps_inv t \<and> n + (\<Sum>i < PHI_N. ps_work t i) \<le> 200"
proof (induction rule: sema_run.induct)
  case start
  show ?case using start_inv by simp
next
  case (step n t i t')
  then have g: "ps_good i t t'" using sema_step_good [of t i] by (auto split: if_splits)
  then have "(\<Sum>j < PHI_N. ps_work t' j) < (\<Sum>j < PHI_N. ps_work t j)"
    using step.hyps(2) by (intro sum_strict_mono_ex1) (auto simp: ps_good_def)
  then show ?case using step.IH g by (auto simp: ps_good_def)
qed

lemma ps_no_deadlock:
  assumes inv: "ps_inv t" and stuck: "\<forall>i < PHI_N. philosopher_using_semaphore i t = None" and i: "i < PHI_N"
  shows "ps_pc t i = PQuit \<and> ps_iter t i = TIMES"
proof -
  have s: "ps_pc t j \<in> {PWaitTake, PWaitFork, PWaitPut, PQuit}" if "j < PHI_N" for j
    using sema_step_good [OF inv that] stuck that by (auto split: if_splits)
  obtain h where h: "ps_mutex_ok h t" using inv by (auto simp: ps_inv_def)
  have "h = None"
  proof (rule ccontr)
    assume "h \<noteq> None"
    then obtain j where "j < PHI_N" "critical (ps_pc t j)" using h by (auto simp: ps_mutex_ok_def)
    with s [of j] show False by (auto simp: critical_def)
  qed
  then have nm: "ps_pc t j \<notin> {PWaitTake, PWaitPut}" if "j < PHI_N" for j using h that by (auto simp: ps_mutex_ok_def)
  have ne: "ps_state t j \<noteq> EATING" if "j < PHI_N" for j using ps_placeD [OF inv that] s [OF that] nm [OF that] by auto
  have "\<not> starving (ps_state t) i" using inv i by (auto simp: ps_inv_def forks_ok_def)
  then have "ps_state t i \<noteq> HUNGRY" using ne neighbours(1,2) [OF i] by (auto simp: starving_def)
  then have "ps_pc t i = PQuit" using ps_placeD [OF inv i] s [OF i] nm [OF i] by auto
  then show ?thesis using inv i by (auto simp: ps_inv_def ps_iters_def)
qed

section \<open>Semaphores of the kernel\<close>

lemma down_enter_waits:
  "down_enter i w ws s = Some (b, s') \<Longrightarrow> v \<noteq> w \<Longrightarrow> k_waits s' v = k_waits s v"
  by (auto simp: down_enter_def wait_current_set_def wait_queue_add_def wait_init_def Let_def bind_eq_Some_conv split: if_splits)

lemma wakeup_proc_waits: "wakeup_proc p s = Some s' \<Longrightarrow> k_waits s' = k_waits s"
  by (auto simp: wakeup_proc_def sched_class_enqueue_def RR_enqueue_eq rr_enqueued_def Let_def upd_proc_def split: if_splits)

lemma up_waits: "up i s = Some s' \<Longrightarrow> w_proc (k_waits s' v) = w_proc (k_waits s v)"
  by (auto simp: up_def up_sem_def wakeup_wait_def wait_queue_del_def bind_eq_Some_conv split: option.splits dest!: wakeup_proc_waits)

lemma down_refines:
  assumes abs: "sem_abs i s ws m" and w: "w \<notin> set ws"
  shows "\<exists>s'. down_enter i w WT_KSEM s = Some (fst (sem_down (k_current s) m), s') \<and>
    sem_abs i s' (if fst (sem_down (k_current s) m) then ws else ws @ [w]) (snd (sem_down (k_current s) m))"
proof (cases "k_sems s i > 0")
  case True
  then show ?thesis using abs by (auto simp: sem_abs_def sem_down_def down_enter_def split: prod.splits)
next
  case False
  have q: "wq_inv i s ws" using abs by (simp add: sem_abs_def)
  obtain s' where s': "down_enter i w WT_KSEM s = Some (False, s')" "wq_inv i s' (ws @ [w])" "w_proc (k_waits s' w) = Some (k_current s)"
      "k_sems s' = k_sems s" using down_blocks [OF q w] False by auto
  have "map (\<lambda>v. w_proc (k_waits s' v)) ws = map (\<lambda>v. w_proc (k_waits s v)) ws"
    by (rule map_cong [OF refl]) (use down_enter_waits [OF s'(1)] w in metis)
  then show ?thesis using s' abs False by (auto simp: sem_abs_def sem_down_def simp del: map_eq_conv split: prod.splits)
qed

text \<open>C13. The semaphores of the kernel are counters with a queue: on a semaphore whose waiters are the processes of the queue, \<^verbatim>\<open>down\<close> by the
  running process, up to its call of \<^verbatim>\<open>schedule\<close>, does what \<open>sem_down\<close> does, and \<^verbatim>\<open>up\<close>
  what \<open>sem_up\<close> does, which makes exactly the first waiter runnable. (A waiter is asleep for the semaphore and in no run queue.)\<close>

theorem semaphore_refines_queue:
  assumes abs: "sem_abs i s ws m" and w: "w \<notin> set ws" and rq: "rq_inv s rs"
    and sleeping: "\<forall>p \<in> set (snd m). pr_wait_state (k_procs s p) = WT_KSEM \<and> pr_state (k_procs s p) = PROC_SLEEPING \<and>
      p \<notin> set rs \<and> rq_idle s p \<and> p \<noteq> k_current s \<and> p \<noteq> k_idleproc s"
  shows "(\<exists>s'. down_enter i w WT_KSEM s = Some (fst (sem_down (k_current s) m), s') \<and>
      sem_abs i s' (if fst (sem_down (k_current s) m) then ws else ws @ [w]) (snd (sem_down (k_current s) m))) \<and>
    (\<exists>s'. up i s = Some s' \<and> sem_abs i s' (tl ws) (snd (sem_up m)) \<and>
      (\<forall>p. fst (sem_up m) = Some p \<longrightarrow> pr_state (k_procs s' p) = PROC_RUNNABLE \<and> rq_inv s' (rs @ [p])))"
proof
  show "\<exists>s'. down_enter i w WT_KSEM s = Some (fst (sem_down (k_current s) m), s') \<and>
      sem_abs i s' (if fst (sem_down (k_current s) m) then ws else ws @ [w]) (snd (sem_down (k_current s) m))"
    by (rule down_refines [OF abs w])
  have q: "wq_inv i s ws" and procs: "map (\<lambda>w. w_proc (k_waits s w)) ws = map Some (snd m)" and v: "k_sems s i = fst m"
    using abs by (auto simp: sem_abs_def)
  show "\<exists>s'. up i s = Some s' \<and> sem_abs i s' (tl ws) (snd (sem_up m)) \<and>
      (\<forall>p. fst (sem_up m) = Some p \<longrightarrow> pr_state (k_procs s' p) = PROC_RUNNABLE \<and> rq_inv s' (rs @ [p]))"
  proof (cases ws)
    case Nil
    then have "m = (fst m, [])" using procs by (cases m) simp
    then have "sem_up m = (None, fst m + 1, [])" by (metis (mono_tags) sem_up_def case_prod_conv list.simps(4))
    then show ?thesis using Nil q v up_no_waiter [of i s] by (simp add: sem_abs_def)
  next
    case (Cons w' ws')
    then obtain p ps where ps: "snd m = p # ps" "w_proc (k_waits s w') = Some p" "map (\<lambda>w. w_proc (k_waits s w)) ws' = map Some ps"
      using procs by (cases "snd m") auto
    have u: "sem_up m = (Some p, fst m, ps)" using ps(1) by (cases m) (simp add: sem_up_def)
    obtain s' where s': "up i s = Some s'" "wq_inv i s' ws'" "rq_inv s' (rs @ [p])" "k_sems s' = k_sems s" "pr_state (k_procs s' p) = PROC_RUNNABLE"
      using up_wakes_first [OF q [unfolded Cons] rq ps(2)] sleeping ps(1) by auto
    then show ?thesis using Cons ps(3) v up_waits [OF s'(1)] by (auto simp: u sem_abs_def)
  qed
qed

theorem semaphore_refines_queue_witness:
  "\<exists>s'. up 0 example_waiter = Some s' \<and> sem_abs 0 s' [] (0, []) \<and> pr_state (k_procs s' 4) = PROC_RUNNABLE"
proof -
  have h: "wq_inv 0 example_waiter [6]" "rq_inv example_waiter [2, 3]" "rq_idle example_waiter 4"
    by (simp_all add: wq_inv_def rq_inv_def rq_idle_def example_waiter_def example_kstate_def ring_def list_init_def
        list_add_before_def list_add_raw_def unlinked_def example_proc_def)
  then have "sem_abs 0 example_waiter [6] (0, [4])" by (simp add: sem_abs_def) (simp add: example_waiter_def)
  moreover have "\<forall>p \<in> set (snd ((0 :: int), [4])). pr_wait_state (k_procs example_waiter p) = WT_KSEM \<and> pr_state (k_procs example_waiter p) = PROC_SLEEPING \<and>
      p \<notin> set [2, 3] \<and> rq_idle example_waiter p \<and> p \<noteq> k_current example_waiter \<and> p \<noteq> k_idleproc example_waiter"
    using h(3) by (simp add: example_waiter_def example_proc_def)
  ultimately have "\<exists>s'. up 0 example_waiter = Some s' \<and> sem_abs 0 s' (tl [6]) (snd (sem_up (0, [4]))) \<and>
      (\<forall>p. fst (sem_up (0, [4])) = Some p \<longrightarrow> pr_state (k_procs s' p) = PROC_RUNNABLE \<and> rq_inv s' ([2, 3] @ [p]))"
    using semaphore_refines_queue [of 0 example_waiter "[6]" "(0, [4])" 7 "[2, 3]"] h(2) by simp
  then show ?thesis by (auto simp: sem_up_def)
qed

text \<open>C11. The philosophers with semaphores are safe: however their steps interleave, two neighbours never eat at the same time (between the return of
  \<^verbatim>\<open>phi_take_forks_sema\<close> and the reset of the state in \<^verbatim>\<open>phi_put_forks_sema\<close>), at most one is in the critical section, and a
  philosopher whose state is hungry has a neighbour whose state is eating.\<close>

theorem philosophers_share_forks:
  assumes "sema_run n t" "i < PHI_N"
  shows "(ps_pc t i \<in> {PEating, PWaitPut, PInPut} \<longrightarrow> ps_pc t (RIGHT i) \<notin> {PEating, PWaitPut, PInPut}) \<and>
    (\<forall>j < PHI_N. critical (ps_pc t i) \<and> critical (ps_pc t j) \<longrightarrow> i = j) \<and>
    (ps_state t i = HUNGRY \<longrightarrow> ps_state t (LEFT i) = EATING \<or> ps_state t (RIGHT i) = EATING)"
proof -
  have inv: "ps_inv t" using sema_run_inv [OF assms(1)] by blast
  have e: "ps_state t j = EATING" if "j < PHI_N" "ps_pc t j \<in> {PEating, PWaitPut, PInPut}" for j using ps_placeD [OF inv that(1)] that(2) by auto
  have "forks_ok (ps_state t)" and "\<exists>h. ps_mutex_ok h t" using inv by (auto simp: ps_inv_def)
  then show ?thesis using e [OF assms(2)] e [OF neighbours(2) [OF assms(2)]] assms(2)
    by (auto simp: forks_ok_def no_shared_fork_def starving_def ps_mutex_ok_def)
qed

theorem philosophers_share_forks_witness:
  "\<exists>t. sema_run 1 t \<and> ps_pc t 0 = PInTake \<and> \<not> critical (ps_pc t 1)"
proof -
  have "\<exists>t. philosopher_using_semaphore 0 check_sync_sema = Some t \<and> ps_pc t 0 = PInTake"
    by (simp add: philosopher_using_semaphore_def phi_take_forks_sema_def check_sync_sema_def ps_down_mutex_def sem_down_def)
  then obtain t where t: "philosopher_using_semaphore 0 check_sync_sema = Some t" "ps_pc t 0 = PInTake" by blast
  have r: "sema_run (Suc 0) t" by (rule sema_run.step [OF sema_run.start _ t(1)]) (simp add: PHI_N_def)
  have "\<forall>j < PHI_N. critical (ps_pc t 0) \<and> critical (ps_pc t j) \<longrightarrow> 0 = j"
    using philosophers_share_forks [OF r, of 0] by (simp add: PHI_N_def)
  then have "\<not> critical (ps_pc t 1)" using t(2) by (auto simp: PHI_N_def critical_def dest!: spec [of _ 1])
  with r t(2) show ?thesis by auto
qed

text \<open>C12. All philosophers finish: no run is longer than 200 steps, and when nobody can take a step any more, everybody has eaten
  four times and quit. So there is no deadlock, and no philosopher starves.\<close>

theorem philosophers_finish:
  assumes "sema_run n t"
  shows "n \<le> 200 \<and> ((\<forall>i < PHI_N. philosopher_using_semaphore i t = None) \<longrightarrow> (\<forall>i < PHI_N. ps_pc t i = PQuit \<and> ps_iter t i = TIMES))"
  using sema_run_inv [OF assms] ps_no_deadlock [of t] by auto

text \<open>A longest run: it ends with everybody fed.\<close>

theorem philosophers_finish_witness:
  "\<exists>n t. sema_run n t \<and> n \<le> 200 \<and> (\<forall>i < PHI_N. ps_pc t i = PQuit \<and> ps_iter t i = TIMES)"
proof -
  have "\<exists>n. (\<exists>t. sema_run n t) \<and> (\<forall>m. (\<exists>t. sema_run m t) \<longrightarrow> m \<le> n)"
  proof (rule Nat.ex_has_greatest_nat)
    show "\<exists>t. sema_run 0 t" using sema_run.start by blast
    show "\<forall>n. (\<exists>t. sema_run n t) \<longrightarrow> n \<le> 200" using philosophers_finish by blast
  qed
  then obtain n t where n: "sema_run n t" "\<And>m u. sema_run m u \<Longrightarrow> m \<le> n" by blast
  have "philosopher_using_semaphore i t = None" if "i < PHI_N" for i
  proof (cases "philosopher_using_semaphore i t")
    case (Some u)
    then show ?thesis using n(2) [OF sema_run.step [OF n(1) that Some]] by simp
  qed
  with philosophers_finish [OF n(1)] n(1) show ?thesis by blast
qed

end
