(* ===== verification/PhilMon.thy ===== *)
theory PhilMon
  imports Phil
begin

text \<open>
  The second half of \<^verbatim>\<open>kern/sync/check_sync.c\<close>: the philosophers with the monitor of \<^verbatim>\<open>monitor.c\<close>, whose \<^verbatim>\<open>cond_wait\<close> and
  \<^verbatim>\<open>cond_signal\<close> are written out step by step. As in \<^verbatim>\<open>Phil\<close>, one step takes a philosopher from one operation on a
  semaphore to the next.
\<close>

section \<open>Philosophers with the monitor\<close>

text \<open>A philosopher in \<open>phi_take_forks_condvar\<close> passes \<open>MThinking\<close> (before \<open>down(&mtp->mutex)\<close>), \<open>MWaitTake\<close>, \<open>MInTake\<close>, \<open>MTested\<close>, then
  \<open>MLeaveTake\<close> or, in \<open>cond_wait\<close>, \<open>MCondWait\<close>, \<open>MDownCv\<close> (before \<open>down\<close> on the semaphore of the condition), \<open>MWaitCv\<close> and \<open>MResume\<close>. In
  \<open>phi_put_forks_condvar\<close> it passes \<open>MEating\<close>, \<open>MWaitPut\<close> and \<open>MInPut\<close>, and, when it signals the left neighbour, in \<open>cond_signal\<close>
  \<open>MDownNextL\<close> (before \<open>down\<close> on the semaphore \<open>next\<close>), \<open>MWaitNextL\<close> and \<open>MBackL\<close>; then \<open>MTestRight\<close>, the same for the right neighbour, and
  \<open>MLeavePut\<close>.\<close>

datatype mpc = MThinking | MWaitTake | MInTake | MDownNextT | MWaitNextT | MBackT | MTested | MLeaveTake | MCondWait | MDownCv | MWaitCv | MResume
  | MEating | MWaitPut | MInPut | MDownNextL | MWaitNextL | MBackL | MTestRight | MDownNextR | MWaitNextR | MBackR | MLeavePut | MQuit

record pmon =
  pm_state :: "nat \<Rightarrow> int"
  pm_mutex :: psem
  pm_next :: psem
  pm_next_count :: int
  pm_cv_count :: "nat \<Rightarrow> int"
  pm_cv_sem :: "nat \<Rightarrow> psem"
  pm_pc :: "nat \<Rightarrow> mpc"
  pm_iter :: "nat \<Rightarrow> nat"

definition pm_goto :: "nat \<Rightarrow> mpc \<Rightarrow> pmon \<Rightarrow> pmon" where
  "pm_goto i c t = t\<lparr>pm_pc := (pm_pc t)(i := c)\<rparr>"

definition pm_set_state :: "nat \<Rightarrow> int \<Rightarrow> pmon \<Rightarrow> pmon" where
  "pm_set_state i v t = t\<lparr>pm_state := (pm_state t)(i := v)\<rparr>"

fun pm_granted :: "mpc \<Rightarrow> mpc" where
  "pm_granted MWaitTake = MInTake"
| "pm_granted MWaitCv = MResume"
| "pm_granted MWaitPut = MInPut"
| "pm_granted MWaitNextT = MBackT"
| "pm_granted MWaitNextL = MBackL"
| "pm_granted MWaitNextR = MBackR"
| "pm_granted c = c"

definition pm_wake :: "nat option \<Rightarrow> pmon \<Rightarrow> pmon" where
  "pm_wake r t = (case r of None \<Rightarrow> t | Some w \<Rightarrow> pm_goto w (pm_granted (pm_pc t w)) t)"

definition pm_up_mutex :: "pmon \<Rightarrow> pmon" where
  "pm_up_mutex t = (case sem_up (pm_mutex t) of (r, m) \<Rightarrow> pm_wake r (t\<lparr>pm_mutex := m\<rparr>))"

definition pm_up_next :: "pmon \<Rightarrow> pmon" where
  "pm_up_next t = (case sem_up (pm_next t) of (r, m) \<Rightarrow> pm_wake r (t\<lparr>pm_next := m\<rparr>))"

definition pm_up_cv :: "nat \<Rightarrow> pmon \<Rightarrow> pmon" where
  "pm_up_cv j t = (case sem_up (pm_cv_sem t j) of (r, m) \<Rightarrow> pm_wake r (t\<lparr>pm_cv_sem := (pm_cv_sem t)(j := m)\<rparr>))"

definition pm_down_mutex :: "nat \<Rightarrow> mpc \<Rightarrow> mpc \<Rightarrow> pmon \<Rightarrow> pmon" where
  "pm_down_mutex i got blocked t =
     (case sem_down i (pm_mutex t) of (done, m) \<Rightarrow> pm_goto i (if done then got else blocked) (t\<lparr>pm_mutex := m\<rparr>))"

definition pm_down_next :: "nat \<Rightarrow> mpc \<Rightarrow> mpc \<Rightarrow> pmon \<Rightarrow> pmon" where
  "pm_down_next i got blocked t =
     (case sem_down i (pm_next t) of (done, m) \<Rightarrow> pm_goto i (if done then got else blocked) (t\<lparr>pm_next := m\<rparr>))"

text \<open>Leaving the monitor: to the one that signalled, or to the next that wants to enter.\<close>

definition pm_leave :: "pmon \<Rightarrow> pmon" where
  "pm_leave t = (if pm_next_count t > 0 then pm_up_next t else pm_up_mutex t)"

text \<open>\<open>phi_test_condvar\<close> by philosopher \<open>p\<close>, who goes on at \<open>signalled\<close> when \<open>cond_signal\<close> finds a waiter and at \<open>cont\<close> otherwise.\<close>

definition phi_test_condvar :: "nat \<Rightarrow> nat \<Rightarrow> mpc \<Rightarrow> mpc \<Rightarrow> pmon \<Rightarrow> pmon" where
  "phi_test_condvar p i signalled cont t =
     (if pm_state t i = HUNGRY \<and> pm_state t (LEFT i) \<noteq> EATING \<and> pm_state t (RIGHT i) \<noteq> EATING then
        let t = pm_set_state i EATING t in
        if pm_cv_count t i > 0 then
          pm_goto p signalled (pm_up_cv i (t\<lparr>pm_next_count := pm_next_count t + 1\<rparr>))
        else pm_goto p cont t
      else pm_goto p cont t)"

definition phi_take_forks_condvar :: "nat \<Rightarrow> pmon \<Rightarrow> pmon option" where
  "phi_take_forks_condvar i t =
     (case pm_pc t i of
        MThinking \<Rightarrow> Some (pm_down_mutex i MInTake MWaitTake t)
      | MInTake \<Rightarrow> Some (phi_test_condvar i i MDownNextT MTested (pm_set_state i HUNGRY t))
      | MDownNextT \<Rightarrow> Some (pm_down_next i MBackT MWaitNextT t)
      | MBackT \<Rightarrow> Some (pm_goto i MTested (t\<lparr>pm_next_count := pm_next_count t - 1\<rparr>))
      | MTested \<Rightarrow> Some (pm_goto i (if pm_state t i \<noteq> EATING then MCondWait else MLeaveTake) t)
      | MCondWait \<Rightarrow> Some (pm_goto i MDownCv (pm_leave (t\<lparr>pm_cv_count := (pm_cv_count t)(i := pm_cv_count t i + 1)\<rparr>)))
      | MDownCv \<Rightarrow>
          (case sem_down i (pm_cv_sem t i) of (done, m) \<Rightarrow>
             Some (pm_goto i (if done then MResume else MWaitCv) (t\<lparr>pm_cv_sem := (pm_cv_sem t)(i := m)\<rparr>)))
      | MResume \<Rightarrow> Some (pm_goto i MEating (pm_leave (t\<lparr>pm_cv_count := (pm_cv_count t)(i := pm_cv_count t i - 1)\<rparr>)))
      | MLeaveTake \<Rightarrow> Some (pm_goto i MEating (pm_leave t))
      | _ \<Rightarrow> None)"

definition phi_put_forks_condvar :: "nat \<Rightarrow> mpc \<Rightarrow> pmon \<Rightarrow> pmon option" where
  "phi_put_forks_condvar i nxt t =
     (case pm_pc t i of
        MEating \<Rightarrow> Some (pm_down_mutex i MInPut MWaitPut t)
      | MInPut \<Rightarrow> Some (phi_test_condvar i (LEFT i) MDownNextL MTestRight (pm_set_state i THINKING t))
      | MDownNextL \<Rightarrow> Some (pm_down_next i MBackL MWaitNextL t)
      | MBackL \<Rightarrow> Some (pm_goto i MTestRight (t\<lparr>pm_next_count := pm_next_count t - 1\<rparr>))
      | MTestRight \<Rightarrow> Some (phi_test_condvar i (RIGHT i) MDownNextR MLeavePut t)
      | MDownNextR \<Rightarrow> Some (pm_down_next i MBackR MWaitNextR t)
      | MBackR \<Rightarrow> Some (pm_goto i MLeavePut (t\<lparr>pm_next_count := pm_next_count t - 1\<rparr>))
      | MLeavePut \<Rightarrow> Some (pm_goto i nxt (pm_leave t))
      | _ \<Rightarrow> None)"

text \<open>One step of philosopher \<open>i\<close>, \<open>None\<close> when it is blocked or has quit. \<open>pm_iter\<close> counts the meals.\<close>

definition philosopher_using_condvar :: "nat \<Rightarrow> pmon \<Rightarrow> pmon option" where
  "philosopher_using_condvar i t =
     (if pm_pc t i \<in> {MEating, MInPut, MDownNextL, MBackL, MTestRight, MDownNextR, MBackR} then phi_put_forks_condvar i MQuit t
      else if pm_pc t i = MLeavePut then
        map_option (\<lambda>t. t\<lparr>pm_iter := (pm_iter t)(i := pm_iter t i + 1)\<rparr>)
          (phi_put_forks_condvar i (if pm_iter t i + 1 < TIMES then MThinking else MQuit) t)
      else phi_take_forks_condvar i t)"

definition check_sync_condvar :: pmon where
  "check_sync_condvar = \<lparr>pm_state = (\<lambda>_. THINKING), pm_mutex = (1, []), pm_next = (0, []), pm_next_count = 0, pm_cv_count = (\<lambda>_. 0),
     pm_cv_sem = (\<lambda>_. (0, [])), pm_pc = (\<lambda>_. MThinking), pm_iter = (\<lambda>_. 0)\<rparr>"

inductive condvar_run :: "nat \<Rightarrow> pmon \<Rightarrow> bool" where
  start: "condvar_run 0 check_sync_condvar"
| step: "condvar_run n t \<Longrightarrow> i < PHI_N \<Longrightarrow> philosopher_using_condvar i t = Some t' \<Longrightarrow> condvar_run (Suc n) t'"

section \<open>The invariant\<close>

text \<open>Who is in the monitor: nobody; one philosopher; one that was signalled while the signaller \<open>p\<close> waits for it; or the signaller
  again, which may go on.\<close>

datatype mmode = Free | Held nat | Signal nat nat | Back nat

definition m_active :: "mpc \<Rightarrow> bool" where
  "m_active c \<longleftrightarrow> c \<in> {MInTake, MTested, MLeaveTake, MCondWait, MInPut, MBackL, MTestRight, MBackR, MLeavePut}"

definition m_signalling :: "mpc \<Rightarrow> bool" where
  "m_signalling c \<longleftrightarrow> c \<in> {MDownNextL, MWaitNextL, MDownNextR, MWaitNextR}"

text \<open>What the place of a philosopher says of its state, and of the count and the semaphore of its condition; \<open>g\<close>: it has been signalled.\<close>

fun m_place :: "bool \<Rightarrow> mpc \<Rightarrow> nat \<Rightarrow> int \<Rightarrow> int \<Rightarrow> psem \<Rightarrow> bool" where
  "m_place g MDownCv j v n m \<longleftrightarrow> n = 1 \<and> (if g then v = EATING \<and> m = (1, []) else v = HUNGRY \<and> m = (0, []))"
| "m_place g MWaitCv j v n m \<longleftrightarrow> n = 1 \<and> v = HUNGRY \<and> m = (0, [j])"
| "m_place g MResume j v n m \<longleftrightarrow> n = 1 \<and> v = EATING \<and> m = (0, [])"
| "m_place g MCondWait j v n m \<longleftrightarrow> n = 0 \<and> v = HUNGRY \<and> m = (0, [])"
| "m_place g MTested j v n m \<longleftrightarrow> n = 0 \<and> (v = HUNGRY \<or> v = EATING) \<and> m = (0, [])"
| "m_place g MLeaveTake j v n m \<longleftrightarrow> n = 0 \<and> v = EATING \<and> m = (0, [])"
| "m_place g MEating j v n m \<longleftrightarrow> n = 0 \<and> v = EATING \<and> m = (0, [])"
| "m_place g MWaitPut j v n m \<longleftrightarrow> n = 0 \<and> v = EATING \<and> m = (0, [])"
| "m_place g MInPut j v n m \<longleftrightarrow> n = 0 \<and> v = EATING \<and> m = (0, [])"
| "m_place g MDownNextT j v n m \<longleftrightarrow> False"
| "m_place g MWaitNextT j v n m \<longleftrightarrow> False"
| "m_place g MBackT j v n m \<longleftrightarrow> False"
| "m_place g c j v n m \<longleftrightarrow> n = 0 \<and> v = THINKING \<and> m = (0, [])"

text \<open>\<open>q\<close>: the philosopher is in the queue of the mutex.\<close>

definition m_loc :: "mmode \<Rightarrow> nat \<Rightarrow> mpc \<Rightarrow> int \<Rightarrow> int \<Rightarrow> psem \<Rightarrow> bool \<Rightarrow> bool" where
  "m_loc M j c v n m q \<longleftrightarrow> (m_active c \<longleftrightarrow> M = Held j) \<and> (m_signalling c \<longleftrightarrow> (\<exists>k. M = Signal j k) \<or> M = Back j) \<and>
     (c = MResume \<longrightarrow> (\<exists>p. M = Signal p j)) \<and> ((\<exists>p. M = Signal p j) \<longrightarrow> c = MDownCv \<or> c = MResume) \<and>
     (M = Back j \<longrightarrow> c = MDownNextL \<or> c = MDownNextR) \<and> (q \<longleftrightarrow> c = MWaitTake \<or> c = MWaitPut) \<and> m_place (\<exists>p. M = Signal p j) c j v n m"

abbreviation m_local :: "mmode \<Rightarrow> pmon \<Rightarrow> nat \<Rightarrow> bool" where
  "m_local M t j \<equiv> m_loc M j (pm_pc t j) (pm_state t j) (pm_cv_count t j) (pm_cv_sem t j) (j \<in> set (snd (pm_mutex t)))"

definition m_role :: "mmode \<Rightarrow> nat \<Rightarrow> bool" where
  "m_role M j \<longleftrightarrow> M = Held j \<or> M = Back j \<or> (\<exists>k. M = Signal j k \<or> M = Signal k j)"

definition m_mutex :: "mmode \<Rightarrow> psem \<Rightarrow> bool" where
  "m_mutex M m \<longleftrightarrow> (if M = Free then m = (1, []) else fst m = 0 \<and> distinct (snd m) \<and> set (snd m) \<subseteq> {..< PHI_N})"

definition m_next :: "mmode \<Rightarrow> (nat \<Rightarrow> mpc) \<Rightarrow> psem \<Rightarrow> int \<Rightarrow> bool" where
  "m_next M pc m n \<longleftrightarrow>
     (case M of
        Free \<Rightarrow> m = (0, []) \<and> n = 0
      | Held i \<Rightarrow> i < PHI_N \<and> m = (0, []) \<and> n = (if pc i = MBackL \<or> pc i = MBackR then 1 else 0)
      | Signal p j \<Rightarrow> p < PHI_N \<and> j < PHI_N \<and> p \<noteq> j \<and> m = (0, if pc p = MWaitNextL \<or> pc p = MWaitNextR then [p] else []) \<and> n = 1
      | Back p \<Rightarrow> p < PHI_N \<and> m = (1, []) \<and> n = 1)"

definition m_untested :: "(nat \<Rightarrow> mpc) \<Rightarrow> nat \<Rightarrow> bool" where
  "m_untested pc j \<longleftrightarrow> pc (LEFT j) \<in> {MDownNextL, MWaitNextL, MBackL, MTestRight}"

definition m_forks :: "pmon \<Rightarrow> bool" where
  "m_forks t \<longleftrightarrow> no_shared_fork (pm_state t) \<and> (\<forall>j < PHI_N. starving (pm_state t) j \<longrightarrow> m_untested (pm_pc t) j)"

definition m_iters :: "pmon \<Rightarrow> bool" where
  "m_iters t \<longleftrightarrow> (\<forall>i < PHI_N. if pm_pc t i = MQuit then pm_iter t i = TIMES else pm_iter t i < TIMES)"

definition m_inv :: "mmode \<Rightarrow> pmon \<Rightarrow> bool" where
  "m_inv M t \<longleftrightarrow> (\<forall>j < PHI_N. m_local M t j) \<and> m_mutex M (pm_mutex t) \<and> m_next M (pm_pc t) (pm_next t) (pm_next_count t) \<and> m_forks t \<and> m_iters t"

lemma m_loc_other: "\<not> m_role M j \<Longrightarrow> \<not> m_role M' j \<Longrightarrow> m_loc M j = m_loc M' j"
  by (intro ext) (auto simp: m_loc_def m_role_def)

lemma m_loc_free:
  "\<not> m_role M j \<Longrightarrow> m_loc M j c v n m q \<longleftrightarrow> \<not> m_active c \<and> \<not> m_signalling c \<and> c \<noteq> MResume \<and> (q \<longleftrightarrow> c = MWaitTake \<or> c = MWaitPut) \<and> m_place False c j v n m"
  by (auto simp: m_loc_def m_role_def)

lemma m_loc_role: "m_loc M j c v n m q \<Longrightarrow> m_role M j \<Longrightarrow> m_active c \<or> m_signalling c \<or> c = MDownCv \<or> c = MResume"
  unfolding m_loc_def m_role_def by blast

lemma m_role_simps [simp]:
  "m_role Free j = False" "m_role (Held i) j = (j = i)" "m_role (Back i) j = (j = i)" "m_role (Signal p k) j = (j = p \<or> j = k)"
  by (auto simp: m_role_def)

fun m_rank :: "mpc \<Rightarrow> nat" where
  "m_rank MThinking = 22" | "m_rank MWaitTake = 21" | "m_rank MInTake = 20" | "m_rank MDownNextT = 19" | "m_rank MWaitNextT = 18"
| "m_rank MBackT = 17" | "m_rank MTested = 16" | "m_rank MLeaveTake = 15" | "m_rank MCondWait = 15" | "m_rank MDownCv = 14"
| "m_rank MWaitCv = 13" | "m_rank MResume = 12" | "m_rank MEating = 11" | "m_rank MWaitPut = 10" | "m_rank MInPut = 9" | "m_rank MDownNextL = 8"
| "m_rank MWaitNextL = 7" | "m_rank MBackL = 6" | "m_rank MTestRight = 5" | "m_rank MDownNextR = 4" | "m_rank MWaitNextR = 3" | "m_rank MBackR = 2"
| "m_rank MLeavePut = 1" | "m_rank MQuit = 0"

definition m_work :: "(nat \<Rightarrow> mpc) \<Rightarrow> (nat \<Rightarrow> nat) \<Rightarrow> nat \<Rightarrow> nat" where
  "m_work pc it i = (if pc i = MQuit then 0 else (TIMES - it i - 1) * 22 + m_rank (pc i))"

definition m_good :: "nat \<Rightarrow> pmon \<Rightarrow> pmon \<Rightarrow> bool" where
  "m_good i t t' \<longleftrightarrow> (\<exists>M. m_inv M t') \<and> (\<forall>j < PHI_N. m_work (pm_pc t') (pm_iter t') j \<le> m_work (pm_pc t) (pm_iter t) j) \<and>
     m_work (pm_pc t') (pm_iter t') i < m_work (pm_pc t) (pm_iter t) i"

section \<open>Every step keeps it\<close>

lemma pm_goto_sel [simp]:
  "pm_state (pm_goto i c t) = pm_state t" "pm_mutex (pm_goto i c t) = pm_mutex t" "pm_next (pm_goto i c t) = pm_next t"
  "pm_next_count (pm_goto i c t) = pm_next_count t" "pm_cv_count (pm_goto i c t) = pm_cv_count t" "pm_cv_sem (pm_goto i c t) = pm_cv_sem t"
  "pm_pc (pm_goto i c t) = (pm_pc t)(i := c)" "pm_iter (pm_goto i c t) = pm_iter t"
  by (simp_all add: pm_goto_def)

lemma pm_set_state_sel [simp]:
  "pm_state (pm_set_state i v t) = (pm_state t)(i := v)" "pm_mutex (pm_set_state i v t) = pm_mutex t" "pm_next (pm_set_state i v t) = pm_next t"
  "pm_next_count (pm_set_state i v t) = pm_next_count t" "pm_cv_count (pm_set_state i v t) = pm_cv_count t"
  "pm_cv_sem (pm_set_state i v t) = pm_cv_sem t" "pm_pc (pm_set_state i v t) = pm_pc t" "pm_iter (pm_set_state i v t) = pm_iter t"
  by (simp_all add: pm_set_state_def)

text \<open>The other philosophers stay where they are, or a semaphore is handed to them.\<close>

definition m_moved :: "nat \<Rightarrow> (nat \<Rightarrow> mpc) \<Rightarrow> (nat \<Rightarrow> mpc) \<Rightarrow> bool" where
  "m_moved i pc pc' \<longleftrightarrow> (\<forall>j. j \<noteq> i \<longrightarrow> pc' j = pc j \<or> pc j = MWaitTake \<and> pc' j = MInTake \<or> pc j = MWaitPut \<and> pc' j = MInPut \<or>
     pc j = MWaitCv \<and> pc' j = MResume \<or> pc j = MWaitNextL \<and> pc' j = MBackL \<or> pc j = MWaitNextR \<and> pc' j = MBackR)"

lemma m_goodI:
  assumes inv: "m_inv M t" and inv': "\<forall>j < PHI_N. m_local M' t' j" "m_mutex M' (pm_mutex t')" "m_next M' (pm_pc t') (pm_next t') (pm_next_count t')"
      "m_forks t'"
    and i: "i < PHI_N" "pm_pc t i \<noteq> MQuit" and moved: "m_moved i (pm_pc t) (pm_pc t')"
    and iter: "pm_iter t' = (pm_iter t)(i := n)" "if pm_pc t' i = MQuit then n = TIMES else n < TIMES"
    and work: "m_work (pm_pc t') (pm_iter t') i < m_work (pm_pc t) (pm_iter t) i"
  shows "m_good i t t'"
proof -
  have mv: "(pm_pc t' j = MQuit) = (pm_pc t j = MQuit) \<and> m_rank (pm_pc t' j) \<le> m_rank (pm_pc t j)" if "j \<noteq> i" for j
    using moved that unfolding m_moved_def by (elim allE [of _ j]) auto
  have "m_iters t'" unfolding m_iters_def
  proof (intro allI impI)
    fix j assume "j < PHI_N"
    then show "if pm_pc t' j = MQuit then pm_iter t' j = TIMES else pm_iter t' j < TIMES"
      using inv iter mv [of j] by (cases "j = i") (auto simp: m_inv_def m_iters_def)
  qed
  then have "m_inv M' t'" using inv' by (simp add: m_inv_def)
  moreover have "m_work (pm_pc t') (pm_iter t') j \<le> m_work (pm_pc t) (pm_iter t) j" if "j \<noteq> i" for j
    using mv [OF that] that iter(1) by (simp add: m_work_def)
  moreover have "\<forall>j. m_work (pm_pc t') (pm_iter t') j \<le> m_work (pm_pc t) (pm_iter t) j" using calculation(2) work by (metis less_imp_le)
  ultimately show ?thesis using work by (auto simp: m_good_def)
qed

lemma m_workI:
  "pm_pc t i \<noteq> MQuit \<Longrightarrow> it i = pm_iter t i \<Longrightarrow> pc i \<noteq> MQuit \<Longrightarrow> m_rank (pc i) < m_rank (pm_pc t i) \<Longrightarrow>
    m_work pc it i < m_work (pm_pc t) (pm_iter t) i"
  by (simp add: m_work_def)

lemma m_forks_same:
  assumes "m_forks t" "pm_state t' = pm_state t" "\<And>j. j < PHI_N \<Longrightarrow> m_untested (pm_pc t) j \<Longrightarrow> m_untested (pm_pc t') j"
  shows "m_forks t'"
  using assms by (auto simp: m_forks_def)

lemma m_invD:
  assumes "m_inv M t" "i < PHI_N"
  shows "m_local M t i" "m_mutex M (pm_mutex t)" "m_next M (pm_pc t) (pm_next t) (pm_next_count t)" "m_forks t"
    "pm_pc t i \<noteq> MQuit \<Longrightarrow> pm_iter t i < TIMES"
  using assms by (auto simp: m_inv_def m_iters_def)

text \<open>\<open>down\<close> on the mutex.\<close>

lemma m_down_mutex_good:
  assumes inv: "m_inv M t" and i: "i < PHI_N"
    and c: "pm_pc t i = MThinking \<and> got = MInTake \<and> blocked = MWaitTake \<or> pm_pc t i = MEating \<and> got = MInPut \<and> blocked = MWaitPut"
  shows "m_good i t (pm_down_mutex i got blocked t)"
proof -
  note d = m_invD [OF inv i]
  have it: "pm_iter t i < TIMES" using d(5) c by auto
  have nr: "\<not> m_role M i" using m_loc_role [OF d(1)] c by (auto simp: m_active_def m_signalling_def)
  have loc: "m_local M t j" if "j < PHI_N" for j using m_invD(1) [OF inv that] .
  show ?thesis
  proof (cases "M = Free")
    case True
    then have m: "pm_mutex t = (1, [])" using d(2) by (simp add: m_mutex_def)
    let ?t = "pm_goto i got (t\<lparr>pm_mutex := (0, [])\<rparr>)"
    have e: "pm_down_mutex i got blocked t = ?t" using m by (simp add: pm_down_mutex_def sem_down_def)
    have "m_local (Held i) ?t j" if j: "j < PHI_N" for j
    proof (cases "j = i")
      case True
      then show ?thesis using d(1) c m by (auto simp: m_loc_def m_active_def m_signalling_def)
    next
      case False
      then show ?thesis using loc [OF j] m_loc_other [of Free j "Held i"] \<open>M = Free\<close> m by simp
    qed
    moreover have "m_mutex (Held i) (pm_mutex ?t)" by (simp add: m_mutex_def)
    moreover have "m_next (Held i) (pm_pc ?t) (pm_next ?t) (pm_next_count ?t)" using d(3) \<open>M = Free\<close> i c by (auto simp: m_next_def)
    moreover have "m_forks ?t" using c by (intro m_forks_same [OF d(4)]) (auto simp: m_untested_def)
    ultimately show ?thesis unfolding e using c it
      by (intro m_goodI [OF inv, of "Held i" _ i "pm_iter t i"] m_workI) (auto simp: i m_moved_def)
  next
    case False
    then obtain q where q: "pm_mutex t = (0, q)" "distinct q" "set q \<subseteq> {..< PHI_N}" using d(2) by (cases "pm_mutex t") (auto simp: m_mutex_def)
    have iq: "i \<notin> set q" using d(1) q c by (auto simp: m_loc_def)
    let ?t = "pm_goto i blocked (t\<lparr>pm_mutex := (0, q @ [i])\<rparr>)"
    have e: "pm_down_mutex i got blocked t = ?t" using q by (simp add: pm_down_mutex_def sem_down_def)
    have "m_local M ?t j" if j: "j < PHI_N" for j
    proof (cases "j = i")
      case True
      then show ?thesis using d(1) c nr by (auto simp: m_loc_free m_active_def m_signalling_def)
    next
      case False
      then show ?thesis using loc [OF j] q by simp
    qed
    moreover have "m_mutex M (pm_mutex ?t)" using q iq i False by (auto simp: m_mutex_def)
    moreover have "m_next M (pm_pc ?t) (pm_next ?t) (pm_next_count ?t)" using d(3) nr by (cases M) (auto simp: m_next_def)
    moreover have "m_forks ?t" using c by (intro m_forks_same [OF d(4)]) (auto simp: m_untested_def)
    ultimately show ?thesis unfolding e using c it
      by (intro m_goodI [OF inv, of M _ i "pm_iter t i"] m_workI) (auto simp: i m_moved_def)
  qed
qed

text \<open>Philosopher \<open>i\<close> leaves the monitor and nobody waits to come back: the next in the queue of the mutex enters. \<open>t\<close> is the state
  before \<open>pm_leave\<close>, in which the place \<open>c\<close> fits.\<close>

lemma m_leave_mutex:
  assumes loc: "\<And>j. j < PHI_N \<Longrightarrow> j \<noteq> i \<Longrightarrow> m_local (Held i) t j" and m: "m_mutex (Held i) (pm_mutex t)"
    and i: "i < PHI_N" "i \<notin> set (snd (pm_mutex t))" and n: "pm_next t = (0, [])" "pm_next_count t = 0"
    and c: "\<not> m_active c" "\<not> m_signalling c" "c \<noteq> MResume" "c \<noteq> MWaitTake" "c \<noteq> MWaitPut"
    and p: "m_place False c i (pm_state t i) (pm_cv_count t i) (pm_cv_sem t i)"
  defines "t' \<equiv> pm_goto i c (pm_leave t)"
  shows "\<exists>M. (\<forall>j < PHI_N. m_local M t' j) \<and> m_mutex M (pm_mutex t') \<and> m_next M (pm_pc t') (pm_next t') (pm_next_count t') \<and>
    pm_state t' = pm_state t \<and> pm_iter t' = pm_iter t \<and> m_moved i (pm_pc t) (pm_pc t') \<and> pm_pc t' i = c"
proof -
  obtain q where q: "pm_mutex t = (0, q)" "distinct q" "set q \<subseteq> {..< PHI_N}" using m by (cases "pm_mutex t") (auto simp: m_mutex_def)
  have l: "pm_leave t = pm_up_mutex t" using n by (simp add: pm_leave_def)
  show ?thesis
  proof (cases q)
    case Nil
    have e: "t' = pm_goto i c (t\<lparr>pm_mutex := (1, [])\<rparr>)" using q(1) Nil by (simp add: t'_def l pm_up_mutex_def sem_up_def pm_wake_def)
    have "m_local Free t' j" if "j < PHI_N" for j
    proof (cases "j = i")
      case True
      then show ?thesis using c p by (simp add: e m_loc_free)
    next
      case False
      then show ?thesis using loc [OF that] m_loc_other [of "Held i" j Free] q(1) Nil by (simp add: e)
    qed
    moreover have "m_mutex Free (pm_mutex t')" "m_next Free (pm_pc t') (pm_next t') (pm_next_count t')"
      using n by (simp_all add: e m_mutex_def m_next_def)
    ultimately show ?thesis by (intro exI [of _ Free]) (auto simp: e m_moved_def)
  next
    case (Cons w ws)
    have w: "w < PHI_N" "w \<noteq> i" "w \<notin> set ws" using q Cons i(2) by auto
    have pw: "pm_pc t w = MWaitTake \<or> pm_pc t w = MWaitPut" using loc [OF w(1,2)] q(1) Cons by (simp add: m_loc_def)
    have e: "t' = pm_goto i c (pm_goto w (pm_granted (pm_pc t w)) (t\<lparr>pm_mutex := (0, ws)\<rparr>))"
      using q(1) Cons by (simp add: t'_def l pm_up_mutex_def sem_up_def pm_wake_def)
    have "m_local (Held w) t' j" if j: "j < PHI_N" for j
    proof -
      consider "j = i" | "j = w" | "j \<noteq> i" "j \<noteq> w" by blast
      then show ?thesis
      proof cases
        case 1
        then show ?thesis using c p w i(2) q(1) Cons by (simp add: e m_loc_free)
      next
        case 2
        then show ?thesis using loc [OF w(1,2)] pw w
          by (elim disjE) (simp_all add: e m_loc_free, simp_all add: m_loc_def m_active_def m_signalling_def)
      next
        case 3
        then show ?thesis using loc [OF j 3(1)] m_loc_other [of "Held i" j "Held w"] q(1) Cons by (simp add: e)
      qed
    qed
    moreover have "m_mutex (Held w) (pm_mutex t')" using q Cons by (simp add: e m_mutex_def)
    moreover have "m_next (Held w) (pm_pc t') (pm_next t') (pm_next_count t')" using n w pw by (auto simp: e m_next_def)
    moreover have "m_moved i (pm_pc t) (pm_pc t')" using pw by (auto simp: e m_moved_def)
    ultimately show ?thesis by (intro exI [of _ "Held w"]) (auto simp: e)
  qed
qed

lemma untested_moved:
  assumes "m_moved i pc pc'" "m_untested pc j" "LEFT j \<noteq> i"
  shows "m_untested pc' j"
  using assms unfolding m_moved_def m_untested_def by (elim allE [of _ "LEFT j"]) auto

lemma m_heldD:
  assumes "m_inv M t" "i < PHI_N" "m_active (pm_pc t i)"
  shows "M = Held i"
  using m_invD(1) [OF assms(1,2)] assms(3) by (simp add: m_loc_def)

text \<open>Leaving from \<open>MLeaveTake\<close>, \<open>MLeavePut\<close> and, with the count of the condition raised, \<open>MCondWait\<close>.\<close>

lemma m_leave_good:
  assumes inv: "m_inv M t" and i: "i < PHI_N"
    and pc: "pm_pc t i = MLeaveTake \<or> pm_pc t i = MLeavePut \<or> pm_pc t i = MCondWait"
    and u: "u = t\<lparr>pm_cv_count := (pm_cv_count t)(i := n)\<rparr>"
    and c: "c = MEating \<or> c = MDownCv \<or> c = MThinking \<or> c = MQuit" "m_place False c i (pm_state t i) n (pm_cv_sem t i)"
    and iter: "if c = MQuit then k = TIMES else k < TIMES"
    and work: "(if c = MQuit then 0 else (TIMES - k - 1) * 22 + m_rank c) < m_work (pm_pc t) (pm_iter t) i"
  shows "m_good i t ((pm_goto i c (pm_leave u))\<lparr>pm_iter := (pm_iter t)(i := k)\<rparr>)" (is "m_good i t ?t")
proof -
  have M: "M = Held i" using m_heldD [OF inv i] pc by (auto simp: m_active_def)
  note d = m_invD [OF inv i]
  have "\<exists>M. (\<forall>j < PHI_N. m_local M (pm_goto i c (pm_leave u)) j) \<and> m_mutex M (pm_mutex (pm_goto i c (pm_leave u))) \<and>
      m_next M (pm_pc (pm_goto i c (pm_leave u))) (pm_next (pm_goto i c (pm_leave u))) (pm_next_count (pm_goto i c (pm_leave u))) \<and>
      pm_state (pm_goto i c (pm_leave u)) = pm_state u \<and> pm_iter (pm_goto i c (pm_leave u)) = pm_iter u \<and>
      m_moved i (pm_pc u) (pm_pc (pm_goto i c (pm_leave u))) \<and> pm_pc (pm_goto i c (pm_leave u)) i = c"
  proof (rule m_leave_mutex)
    show "m_local (Held i) u j" if "j < PHI_N" "j \<noteq> i" for j using m_invD(1) [OF inv that(1)] that(2) M by (simp add: u)
    show "m_mutex (Held i) (pm_mutex u)" using d(2) M by (simp add: u)
    show "i \<notin> set (snd (pm_mutex u))" using d(1) pc by (auto simp: u m_loc_def)
    show "pm_next u = (0, [])" "pm_next_count u = 0" using d(3) M pc by (auto simp: u m_next_def)
    show "m_place False c i (pm_state u i) (pm_cv_count u i) (pm_cv_sem u i)" using c(2) by (simp add: u)
  qed (use c(1) i in \<open>auto simp: m_active_def m_signalling_def\<close>)
  then obtain M' where M': "\<forall>j < PHI_N. m_local M' ?t j" "m_mutex M' (pm_mutex ?t)" "m_next M' (pm_pc ?t) (pm_next ?t) (pm_next_count ?t)"
      "pm_state ?t = pm_state t" "m_moved i (pm_pc t) (pm_pc ?t)" "pm_pc ?t i = c"
    by (auto simp: u)
  have "m_forks ?t"
  proof (rule m_forks_same [OF d(4) M'(4)])
    fix j assume "j < PHI_N" "m_untested (pm_pc t) j"
    moreover have "LEFT j \<noteq> i" using calculation(2) pc by (auto simp: m_untested_def)
    ultimately show "m_untested (pm_pc ?t) j" using untested_moved [OF M'(5)] by blast
  qed
  then show ?thesis using pc M'(6) iter work
    by (intro m_goodI [OF inv M'(1-3) _ i _ M'(5)]) (auto simp: m_work_def)
qed

lemma m_waits:
  assumes "m_inv M t" "i < PHI_N"
  shows "m_place (\<exists>p. M = Signal p i) (pm_pc t i) i (pm_state t i) (pm_cv_count t i) (pm_cv_sem t i)"
  using m_invD(1) [OF assms] by (simp add: m_loc_def)

text \<open>The own test.\<close>

lemma m_take_good:
  assumes inv: "m_inv M t" and i: "i < PHI_N" "pm_pc t i = MInTake"
  shows "m_good i t (phi_test_condvar i i MDownNextT MTested (pm_set_state i HUNGRY t))" (is "m_good i t ?t")
proof -
  have M: "M = Held i" using m_heldD [OF inv i(1)] i(2) by (simp add: m_active_def)
  note d = m_invD [OF inv i(1)]
  have p: "pm_state t i = THINKING" "pm_cv_count t i = 0" "pm_cv_sem t i = (0, [])" using m_waits [OF inv i(1)] i(2) by simp_all
  obtain v where v: "?t = pm_goto i MTested (pm_set_state i v t)" "v = HUNGRY \<or> v = EATING"
      "(pm_state t)(i := v) = test_states i ((pm_state t)(i := HUNGRY))"
  proof (cases "starving ((pm_state t)(i := HUNGRY)) i")
    case True
    then have "?t = pm_goto i MTested (pm_set_state i EATING (pm_set_state i HUNGRY t))"
      using p(2) by (simp add: phi_test_condvar_def starving_def Let_def)
    then show thesis using True by (intro that [of EATING]) (simp_all add: pm_set_state_def test_states_def)
  next
    case False
    then have "?t = pm_goto i MTested (pm_set_state i HUNGRY t)" by (auto simp: phi_test_condvar_def starving_def)
    then show thesis using False by (intro that [of HUNGRY]) (simp_all add: test_states_def)
  qed
  have "\<forall>j < PHI_N. m_local (Held i) ?t j"
  proof (intro allI impI)
    fix j assume j: "j < PHI_N"
    show "m_local (Held i) ?t j"
    proof (cases "j = i")
      case True
      then show ?thesis using d(1) v(2) p i(2) M by (auto simp: v(1) m_loc_def m_active_def m_signalling_def)
    next
      case False
      then show ?thesis using m_invD(1) [OF inv j] M by (simp add: v(1))
    qed
  qed
  moreover have "m_mutex (Held i) (pm_mutex ?t)" using d(2) M by (simp add: v(1))
  moreover have "m_next (Held i) (pm_pc ?t) (pm_next ?t) (pm_next_count ?t)" using d(3) M i by (simp add: v(1) m_next_def)
  moreover have "m_forks ?t"
  proof -
    have nu: "\<not> m_untested (pm_pc t) j" if "j < PHI_N" for j
      using m_invD(1) [OF inv neighbours(1) [OF that]] M i(2)
      by (cases "LEFT j = i") (auto simp: m_untested_def m_loc_free m_active_def m_signalling_def)
    then have "forks_ok (pm_state t)" using d(4) by (auto simp: m_forks_def forks_ok_def)
    then have "forks_ok (pm_state ?t)" using forks_take [of "pm_state t" i] i(1) p(1) by (simp add: v(1,3))
    then show ?thesis by (simp add: m_forks_def forks_ok_def)
  qed
  ultimately show ?thesis using i d(5)
    by (intro m_goodI [OF inv, of "Held i" _ i "pm_iter t i"] m_workI) (auto simp: v(1) m_moved_def)
qed

text \<open>Steps that change only the place of one philosopher inside the monitor.\<close>

lemma m_step_inside:
  assumes inv: "m_inv (Held i) t" and i: "i < PHI_N" "m_active (pm_pc t i)" "m_active c"
    and p: "m_place False c i (pm_state t i) (pm_cv_count t i) (pm_cv_sem t i)"
    and n: "n = (if c = MBackL \<or> c = MBackR then 1 else 0)"
    and r: "m_rank c < m_rank (pm_pc t i)"
    and unt: "pm_pc t i \<in> {MDownNextL, MWaitNextL, MBackL, MTestRight} \<Longrightarrow> c \<in> {MDownNextL, MWaitNextL, MBackL, MTestRight}"
  shows "m_good i t (pm_goto i c (t\<lparr>pm_next_count := n\<rparr>))" (is "m_good i t ?t")
proof -
  note d = m_invD [OF inv i(1)]
  have q: "pm_pc t i \<noteq> MQuit" "c \<noteq> MQuit" "i \<notin> set (snd (pm_mutex t))" using i d(1) by (auto simp: m_active_def m_loc_def)
  have "\<forall>j < PHI_N. m_local (Held i) ?t j"
  proof (intro allI impI)
    fix j assume j: "j < PHI_N"
    show "m_local (Held i) ?t j"
      using m_invD(1) [OF inv j] i(3) p q(3) by (cases "j = i") (auto simp: m_loc_def m_active_def m_signalling_def)
  qed
  moreover have "m_next (Held i) (pm_pc ?t) (pm_next ?t) (pm_next_count ?t)" using d(3) n by (simp add: m_next_def)
  moreover have "m_forks ?t" using unt by (intro m_forks_same [OF d(4)]) (auto simp: m_untested_def)
  ultimately show ?thesis using q d(2,5) r
    by (intro m_goodI [OF inv, of "Held i" _ i "pm_iter t i"] m_workI) (auto simp: i m_moved_def)
qed

text \<open>\<open>down\<close> on the semaphore of the condition: the philosopher waits, or has been signalled meanwhile.\<close>

lemma m_down_cv_good:
  assumes inv: "m_inv M t" and i: "i < PHI_N" "pm_pc t i = MDownCv"
  shows "\<exists>t'. phi_take_forks_condvar i t = Some t' \<and> m_good i t t'"
proof -
  note d = m_invD [OF inv i(1)]
  have qi: "i \<notin> set (snd (pm_mutex t))" using d(1) i(2) by (simp add: m_loc_def)
  have nh: "M \<noteq> Held i" "M \<noteq> Back i" "\<And>k. M \<noteq> Signal i k" using d(1) i(2) by (auto simp: m_loc_def m_active_def m_signalling_def)
  let ?g = "\<exists>p. M = Signal p i"
  define c m where "c = (if ?g then MResume else MWaitCv)" and "m = (if ?g then (0, []) else (0 :: int, [i]))"
  have e: "phi_take_forks_condvar i t = Some (pm_goto i c (t\<lparr>pm_cv_sem := (pm_cv_sem t)(i := m)\<rparr>))"
    using m_waits [OF inv i(1)] i(2) by (auto simp: phi_take_forks_condvar_def sem_down_def c_def m_def split: if_splits)
  let ?t = "pm_goto i c (t\<lparr>pm_cv_sem := (pm_cv_sem t)(i := m)\<rparr>)"
  have "\<forall>j < PHI_N. m_local M ?t j"
  proof (intro allI impI)
    fix j assume j: "j < PHI_N"
    show "m_local M ?t j"
    proof (cases "j = i")
      case True
      have "m_place ?g c i (pm_state t i) (pm_cv_count t i) m" using m_waits [OF inv i(1)] i(2) by (auto simp: c_def m_def)
      then show ?thesis using True nh qi by (auto simp: m_loc_def c_def m_active_def m_signalling_def)
    next
      case False
      then show ?thesis using m_invD(1) [OF inv j] by simp
    qed
  qed
  moreover have "m_next M (pm_pc ?t) (pm_next ?t) (pm_next_count ?t)" using d(3) nh by (cases M) (auto simp: m_next_def)
  moreover have "m_forks ?t" using i(2) by (intro m_forks_same [OF d(4)]) (auto simp: m_untested_def)
  ultimately have "m_good i t ?t" using i d(2,5)
    by (intro m_goodI [OF inv, of M _ i "pm_iter t i"] m_workI) (auto simp: m_moved_def c_def)
  then show ?thesis using e by blast
qed

text \<open>Who was signalled leaves to the one that signalled.\<close>

lemma m_resume_good:
  assumes inv: "m_inv M t" and i: "i < PHI_N" "pm_pc t i = MResume"
  shows "m_good i t (pm_goto i MEating (pm_leave (t\<lparr>pm_cv_count := (pm_cv_count t)(i := pm_cv_count t i - 1)\<rparr>)))" (is "m_good i t ?t")
proof -
  note d = m_invD [OF inv i(1)]
  obtain p where M: "M = Signal p i" using d(1) i(2) by (auto simp: m_loc_def)
  have p: "p < PHI_N" "p \<noteq> i" "pm_next_count t = 1" "pm_next t = (0, if pm_pc t p = MWaitNextL \<or> pm_pc t p = MWaitNextR then [p] else [])"
    using d(3) M by (simp_all add: m_next_def)
  have si: "pm_cv_count t i = 1" "pm_state t i = EATING" "pm_cv_sem t i = (0, [])" using m_waits [OF inv i(1)] i(2) by simp_all
  have sp: "m_signalling (pm_pc t p)" using m_invD(1) [OF inv p(1)] M by (simp add: m_loc_def)
  have qi: "i \<notin> set (snd (pm_mutex t))" using d(1) i(2) by (simp add: m_loc_def)
  define c where "c = (if pm_pc t p = MWaitNextL \<or> pm_pc t p = MWaitNextR then pm_granted (pm_pc t p) else pm_pc t p)"
  define M' where "M' = (if pm_pc t p = MWaitNextL \<or> pm_pc t p = MWaitNextR then Held p else Back p)"
  define m where "m = (if pm_pc t p = MWaitNextL \<or> pm_pc t p = MWaitNextR then 0 else 1 :: int, [] :: nat list)"
  have e: "?t = pm_goto i MEating (pm_goto p c (t\<lparr>pm_cv_count := (pm_cv_count t)(i := 0), pm_next := m\<rparr>))"
    using p si by (auto simp: pm_leave_def pm_up_next_def sem_up_def pm_wake_def c_def m_def)
  have c: "pm_pc t p = MWaitNextL \<and> c = MBackL \<and> M' = Held p \<and> m = (0, []) \<or> pm_pc t p = MWaitNextR \<and> c = MBackR \<and> M' = Held p \<and> m = (0, []) \<or>
      pm_pc t p = MDownNextL \<and> c = MDownNextL \<and> M' = Back p \<and> m = (1, []) \<or> pm_pc t p = MDownNextR \<and> c = MDownNextR \<and> M' = Back p \<and> m = (1, [])"
    using sp by (auto simp: m_signalling_def c_def M'_def m_def)
  have "\<forall>j < PHI_N. m_local M' ?t j"
  proof (intro allI impI)
    fix j assume j: "j < PHI_N"
    consider "j = i" | "j = p" | "j \<noteq> i" "j \<noteq> p" by blast
    then show "m_local M' ?t j"
    proof cases
      case 1
      then show ?thesis unfolding e using si p(2) qi c by (auto simp: m_loc_def m_active_def m_signalling_def)
    next
      case 2
      then show ?thesis using m_invD(1) [OF inv p(1)] M p(2) c by (auto simp: e m_loc_def m_active_def m_signalling_def)
    next
      case 3
      then show ?thesis using m_invD(1) [OF inv j] m_loc_other [of M j M'] M c by (auto simp: e)
    qed
  qed
  moreover have "m_mutex M' (pm_mutex ?t)" using d(2) M c by (auto simp: e m_mutex_def)
  moreover have "m_next M' (pm_pc ?t) (pm_next ?t) (pm_next_count ?t)" using p c by (auto simp: e m_next_def)
  moreover have mv: "m_moved i (pm_pc t) (pm_pc ?t)" using c by (auto simp: e m_moved_def)
  moreover have "m_forks ?t"
  proof (rule m_forks_same [OF d(4)])
    show "m_untested (pm_pc ?t) j" if "j < PHI_N" "m_untested (pm_pc t) j" for j
      using untested_moved [OF mv that(2)] that(2) i(2) by (auto simp: m_untested_def)
  qed (simp add: e)
  ultimately show ?thesis using i d(5) p(2)
    by (intro m_goodI [OF inv, of M' _ i "pm_iter t i"] m_workI) (auto simp: e)
qed

text \<open>The signaller waits, or goes on when the other has left.\<close>

lemma m_down_next_good:
  assumes inv: "m_inv M t" and i: "i < PHI_N"
    and c: "pm_pc t i = MDownNextL \<and> got = MBackL \<and> blocked = MWaitNextL \<or> pm_pc t i = MDownNextR \<and> got = MBackR \<and> blocked = MWaitNextR"
  shows "m_good i t (pm_down_next i got blocked t)" (is "m_good i t ?t")
proof -
  note d = m_invD [OF inv i]
  have qi: "i \<notin> set (snd (pm_mutex t))" using d(1) c by (auto simp: m_loc_def)
  have "m_signalling (pm_pc t i)" using c by (auto simp: m_signalling_def)
  then consider "M = Back i" | j where "M = Signal i j" using d(1) by (auto simp: m_loc_def)
  then show ?thesis
  proof cases
    case 1
    then have n: "pm_next t = (1, [])" "pm_next_count t = 1" using d(3) by (simp_all add: m_next_def)
    have e: "?t = pm_goto i got (t\<lparr>pm_next := (0, [])\<rparr>)" using n by (simp add: pm_down_next_def sem_down_def)
    have "\<forall>j < PHI_N. m_local (Held i) ?t j"
    proof (intro allI impI)
      fix j assume j: "j < PHI_N"
      show "m_local (Held i) ?t j"
        using m_invD(1) [OF inv j] m_loc_other [of M j "Held i"] 1 c qi
        by (cases "j = i") (auto simp: e m_loc_def m_active_def m_signalling_def)
    qed
    moreover have "m_mutex (Held i) (pm_mutex ?t)" using d(2) 1 by (simp add: e m_mutex_def)
    moreover have "m_next (Held i) (pm_pc ?t) (pm_next ?t) (pm_next_count ?t)" using n i c by (auto simp: e m_next_def)
    moreover have "m_forks ?t" using c by (intro m_forks_same [OF d(4)]) (auto simp: e m_untested_def)
    ultimately show ?thesis using c d(5)
      by (intro m_goodI [OF inv, of "Held i" _ i "pm_iter t i"] m_workI) (auto simp: e i m_moved_def)
  next
    case (2 k)
    then have n: "pm_next t = (0, [])" "pm_next_count t = 1" "k < PHI_N" "k \<noteq> i" using d(3) c by (auto simp: m_next_def)
    have e: "?t = pm_goto i blocked (t\<lparr>pm_next := (0, [i])\<rparr>)" using n by (simp add: pm_down_next_def sem_down_def)
    have "\<forall>j < PHI_N. m_local M ?t j"
    proof (intro allI impI)
      fix j assume j: "j < PHI_N"
      show "m_local M ?t j"
        using m_invD(1) [OF inv j] 2 c qi by (cases "j = i") (auto simp: e m_loc_def m_active_def m_signalling_def)
    qed
    moreover have "m_next M (pm_pc ?t) (pm_next ?t) (pm_next_count ?t)" using n i c 2 by (auto simp: e m_next_def)
    moreover have "m_forks ?t" using c by (intro m_forks_same [OF d(4)]) (auto simp: e m_untested_def)
    ultimately show ?thesis using c d(2,5)
      by (intro m_goodI [OF inv, of M _ i "pm_iter t i"] m_workI) (auto simp: e i m_moved_def)
  qed
qed

text \<open>A test of a neighbour: it is signalled exactly when it waits for the condition.\<close>

lemma m_test_spec:
  assumes loc: "\<And>j. j < PHI_N \<Longrightarrow> j \<noteq> i \<Longrightarrow> m_local (Held i) u j" and m: "m_mutex (Held i) (pm_mutex u)"
    and i: "i < PHI_N" "i \<notin> set (snd (pm_mutex u))" "pm_state u i = THINKING" "pm_cv_count u i = 0" "pm_cv_sem u i = (0, [])"
    and n: "pm_next u = (0, [])" "pm_next_count u = 0" and k: "k < PHI_N" "k \<noteq> i"
    and s: "sig = MDownNextL \<and> cont = MTestRight \<or> sig = MDownNextR \<and> cont = MLeavePut"
  defines "t' \<equiv> phi_test_condvar i k sig cont u"
  shows "\<exists>M. (\<forall>j < PHI_N. m_local M t' j) \<and> m_mutex M (pm_mutex t') \<and> m_next M (pm_pc t') (pm_next t') (pm_next_count t') \<and>
    pm_state t' = test_states k (pm_state u) \<and> pm_iter t' = pm_iter u \<and> m_moved i (pm_pc u) (pm_pc t') \<and> (pm_pc t' i = sig \<or> pm_pc t' i = cont)"
proof (cases "starving (pm_state u) k")
  case False
  then have e: "t' = pm_goto i cont u" by (auto simp: t'_def phi_test_condvar_def starving_def)
  have "m_local (Held i) t' j" if "j < PHI_N" for j
    using loc [OF that] i s by (cases "j = i") (auto simp: e m_loc_def m_active_def m_signalling_def)
  moreover have "m_next (Held i) (pm_pc t') (pm_next t') (pm_next_count t')" using n i(1) s by (auto simp: e m_next_def)
  ultimately show ?thesis using m False by (intro exI [of _ "Held i"]) (auto simp: e test_states_def m_moved_def)
next
  case True
  have h: "pm_state u k = HUNGRY" using True by (simp add: starving_def)
  have pl: "\<not> m_active (pm_pc u k)" "m_place False (pm_pc u k) k HUNGRY (pm_cv_count u k) (pm_cv_sem u k)" "\<not> m_signalling (pm_pc u k)"
      "pm_pc u k \<noteq> MResume" "k \<in> set (snd (pm_mutex u)) \<longleftrightarrow> pm_pc u k = MWaitTake \<or> pm_pc u k = MWaitPut"
    using loc [OF k] k(2) h by (simp_all add: m_loc_free)
  then have w: "pm_pc u k = MDownCv \<and> pm_cv_sem u k = (0, []) \<and> pm_cv_count u k = 1 \<or> pm_pc u k = MWaitCv \<and> pm_cv_sem u k = (0, [k]) \<and> pm_cv_count u k = 1"
    by (cases "pm_pc u k") (simp_all add: m_active_def)
  define c m' where "c = (if pm_pc u k = MWaitCv then MResume else MDownCv)" and "m' = (if pm_pc u k = MWaitCv then (0, []) else (1 :: int, [] :: nat list))"
  have e: "t' = pm_goto i sig (pm_goto k c ((pm_set_state k EATING u)\<lparr>pm_next_count := 1, pm_cv_sem := (pm_cv_sem u)(k := m')\<rparr>))"
    using True w n by (auto simp: t'_def phi_test_condvar_def starving_def Let_def pm_up_cv_def sem_up_def pm_wake_def c_def m'_def)
      (simp add: pm_goto_def pm_set_state_def fun_upd_idem)
  have "m_local (Signal i k) t' j" if j: "j < PHI_N" for j
  proof -
    consider "j = i" | "j = k" | "j \<noteq> i" "j \<noteq> k" by blast
    then show ?thesis
    proof cases
      case 1
      then show ?thesis using i k(2) s by (auto simp: e m_loc_def m_active_def m_signalling_def)
    next
      case 2
      then show ?thesis using w pl(5) k(2) by (auto simp: e m_loc_def m_active_def m_signalling_def c_def m'_def)
    next
      case 3
      then show ?thesis using loc [OF j 3(1)] m_loc_other [of "Held i" j "Signal i k"] by (simp add: e)
    qed
  qed
  moreover have "m_mutex (Signal i k) (pm_mutex t')" using m by (simp add: e m_mutex_def)
  moreover have "m_next (Signal i k) (pm_pc t') (pm_next t') (pm_next_count t')" using n i(1) k s by (auto simp: e m_next_def)
  moreover have "m_moved i (pm_pc u) (pm_pc t')" using w by (auto simp: e m_moved_def c_def)
  ultimately show ?thesis using True by (intro exI [of _ "Signal i k"]) (simp add: e test_states_def)
qed

lemma m_put_left_good:
  assumes inv: "m_inv M t" and i: "i < PHI_N" "pm_pc t i = MInPut"
  shows "m_good i t (phi_test_condvar i (LEFT i) MDownNextL MTestRight (pm_set_state i THINKING t))" (is "m_good i t ?t")
proof -
  have M: "M = Held i" using m_heldD [OF inv i(1)] i(2) by (simp add: m_active_def)
  note d = m_invD [OF inv i(1)] and nb = neighbours [OF i(1)]
  have q: "i \<notin> set (snd (pm_mutex t))" using d(1) i(2) by (simp add: m_loc_def)
  have p: "pm_state t i = EATING" "pm_cv_count t i = 0" "pm_cv_sem t i = (0, [])" using m_waits [OF inv i(1)] i(2) by simp_all
  let ?u = "pm_set_state i THINKING t"
  have "m_local (Held i) ?u j" if "j < PHI_N" "j \<noteq> i" for j using m_invD(1) [OF inv that(1)] that(2) M by simp
  moreover have "m_mutex (Held i) (pm_mutex ?u)" "pm_next ?u = (0, [])" "pm_next_count ?u = 0" using d(2,3) M i(2) by (simp_all add: m_next_def)
  ultimately obtain M' where M': "\<forall>j < PHI_N. m_local M' ?t j" "m_mutex M' (pm_mutex ?t)" "m_next M' (pm_pc ?t) (pm_next ?t) (pm_next_count ?t)"
      "pm_state ?t = test_states (LEFT i) (pm_state ?u)" "pm_iter ?t = pm_iter ?u" "m_moved i (pm_pc t) (pm_pc ?t)"
      "pm_pc ?t i = MDownNextL \<or> pm_pc ?t i = MTestRight"
    using m_test_spec [of i ?u "LEFT i" MDownNextL MTestRight] i(1) q p nb(1,3) by auto
  have "m_forks ?t" unfolding m_forks_def
  proof (intro conjI allI impI)
    have "no_shared_fork (pm_state ?u)" using d(4) by (auto simp: m_forks_def no_shared_fork_def)
    then show "no_shared_fork (pm_state ?t)" unfolding M'(4) by (rule test_no_shared) (rule nb(1))
    fix j assume j: "j < PHI_N" "starving (pm_state ?t) j"
    then have s: "starving (pm_state ?u) j" "j \<noteq> LEFT i" unfolding M'(4) by (auto dest: test_starving)
    have "j = RIGHT i"
    proof (rule ccontr)
      assume "j \<noteq> RIGHT i"
      then have "LEFT j \<noteq> i" "RIGHT j \<noteq> i" using neighbours(6,7) [OF j(1)] s(2) by auto
      then have "starving (pm_state t) j" using s(1) by (auto simp: starving_def split: if_splits)
      then have "m_untested (pm_pc t) j" using d(4) j(1) by (simp add: m_forks_def)
      then show False using m_invD(1) [OF inv neighbours(1) [OF j(1)]] M \<open>LEFT j \<noteq> i\<close>
        by (auto simp: m_untested_def m_loc_free m_active_def m_signalling_def)
    qed
    then show "m_untested (pm_pc ?t) j" using M'(7) nb(7) by (auto simp: m_untested_def)
  qed
  then show ?thesis using i M'(5,7) d(5)
    by (intro m_goodI [OF inv M'(1-3) _ i(1) _ M'(6), of "pm_iter t i"] m_workI) auto
qed

lemma m_put_right_good:
  assumes inv: "m_inv M t" and i: "i < PHI_N" "pm_pc t i = MTestRight"
  shows "m_good i t (phi_test_condvar i (RIGHT i) MDownNextR MLeavePut t)" (is "m_good i t ?t")
proof -
  have M: "M = Held i" using m_heldD [OF inv i(1)] i(2) by (simp add: m_active_def)
  note d = m_invD [OF inv i(1)] and nb = neighbours [OF i(1)]
  have q: "i \<notin> set (snd (pm_mutex t))" using d(1) i(2) by (simp add: m_loc_def)
  have p: "pm_state t i = THINKING" "pm_cv_count t i = 0" "pm_cv_sem t i = (0, [])" using m_waits [OF inv i(1)] i(2) by simp_all
  have "m_local (Held i) t j" if "j < PHI_N" for j using m_invD(1) [OF inv that] M by simp
  moreover have "m_mutex (Held i) (pm_mutex t)" "pm_next t = (0, [])" "pm_next_count t = 0" using d(2,3) M i(2) by (simp_all add: m_next_def)
  ultimately obtain M' where M': "\<forall>j < PHI_N. m_local M' ?t j" "m_mutex M' (pm_mutex ?t)" "m_next M' (pm_pc ?t) (pm_next ?t) (pm_next_count ?t)"
      "pm_state ?t = test_states (RIGHT i) (pm_state t)" "pm_iter ?t = pm_iter t" "m_moved i (pm_pc t) (pm_pc ?t)"
      "pm_pc ?t i = MDownNextR \<or> pm_pc ?t i = MLeavePut"
    using m_test_spec [of i t "RIGHT i" MDownNextR MLeavePut] i(1) q p nb(2,4) by auto
  have "m_forks ?t" unfolding m_forks_def
  proof (intro conjI allI impI)
    have "no_shared_fork (pm_state t)" using d(4) by (simp add: m_forks_def)
    then show "no_shared_fork (pm_state ?t)" unfolding M'(4) by (rule test_no_shared) (rule nb(2))
    fix j assume j: "j < PHI_N" "starving (pm_state ?t) j"
    then have s: "starving (pm_state t) j" "j \<noteq> RIGHT i" unfolding M'(4) by (auto dest: test_starving)
    then have "m_untested (pm_pc t) j" using d(4) j(1) by (simp add: m_forks_def)
    moreover have "LEFT j \<noteq> i" using neighbours(6) [OF j(1)] s(2) by auto
    ultimately show "m_untested (pm_pc ?t) j" by (intro untested_moved [OF M'(6)])
  qed
  then show ?thesis using i M'(5,7) d(5)
    by (intro m_goodI [OF inv M'(1-3) _ i(1) _ M'(6), of "pm_iter t i"] m_workI) auto
qed

definition m_blocked :: "mpc \<Rightarrow> bool" where
  "m_blocked c \<longleftrightarrow> c \<in> {MWaitTake, MWaitCv, MWaitPut, MWaitNextL, MWaitNextR, MQuit}"

lemma condvar_step_good:
  assumes inv: "m_inv M t" and i: "i < PHI_N"
  shows "if m_blocked (pm_pc t i) then philosopher_using_condvar i t = None
    else \<exists>t'. philosopher_using_condvar i t = Some t' \<and> m_good i t t'"
proof -
  note p = m_waits [OF inv i] and it = m_invD(5) [OF inv i]
  note d = philosopher_using_condvar_def phi_take_forks_condvar_def phi_put_forks_condvar_def m_blocked_def
  have act: "m_active (pm_pc t i) \<Longrightarrow> m_inv (Held i) t" using m_heldD [OF inv i] inv by simp
  have ns: "m_active (pm_pc t i) \<Longrightarrow> m_place False (pm_pc t i) i (pm_state t i) (pm_cv_count t i) (pm_cv_sem t i)"
    using m_heldD [OF inv i] p by simp
  have nc: "m_active (pm_pc t i) \<Longrightarrow> pm_next_count t = (if pm_pc t i = MBackL \<or> pm_pc t i = MBackR then 1 else 0)"
    using m_invD(3) [OF inv i] m_heldD [OF inv i] by (simp add: m_next_def)
  have iter_id: "(pm_goto i c (pm_leave u))\<lparr>pm_iter := pm_iter t\<rparr> = pm_goto i c (pm_leave u)" if "pm_iter u = pm_iter t" for c u
  proof -
    have "pm_iter (pm_leave u) = pm_iter t"
      using that by (simp add: pm_leave_def pm_up_next_def pm_up_mutex_def pm_wake_def split: prod.splits option.splits)
    then show ?thesis by (cases "pm_goto i c (pm_leave u)") (metis pm_goto_sel(8) pmon.select_convs(8) pmon.update_convs(8))
  qed
  have cv_id: "u\<lparr>pm_cv_count := (pm_cv_count u)(i := pm_cv_count u i)\<rparr> = u" for u by simp
  show ?thesis
  proof (cases "pm_pc t i")
    case MThinking
    then show ?thesis using m_down_mutex_good [OF inv i, of MInTake MWaitTake] by (simp add: d)
  next
    case MInTake
    then show ?thesis using m_take_good [OF inv i] by (simp add: d)
  next
    case MTested
    then have "m_good i t (pm_goto i (if pm_state t i \<noteq> EATING then MCondWait else MLeaveTake) (t\<lparr>pm_next_count := 0\<rparr>))"
      using act ns i by (intro m_step_inside) (auto simp: m_active_def)
    moreover have "t\<lparr>pm_next_count := 0\<rparr> = t" using nc MTested by (simp add: m_active_def)
    ultimately show ?thesis using MTested by (simp add: d)
  next
    case MLeaveTake
    then have "m_good i t ((pm_goto i MEating (pm_leave t))\<lparr>pm_iter := (pm_iter t)(i := pm_iter t i)\<rparr>)"
      using ns it by (intro m_leave_good [OF inv i _ cv_id [of t, symmetric]]) (auto simp: m_active_def m_work_def)
    then show ?thesis using MLeaveTake by (simp add: d iter_id)
  next
    case MCondWait
    let ?u = "t\<lparr>pm_cv_count := (pm_cv_count t)(i := pm_cv_count t i + 1)\<rparr>"
    have "m_good i t ((pm_goto i MDownCv (pm_leave ?u))\<lparr>pm_iter := (pm_iter t)(i := pm_iter t i)\<rparr>)"
      using MCondWait ns it by (intro m_leave_good [OF inv i _ refl]) (auto simp: m_active_def m_work_def)
    then show ?thesis using MCondWait by (simp add: d iter_id)
  next
    case MDownCv
    then show ?thesis using m_down_cv_good [OF inv i] by (simp add: philosopher_using_condvar_def m_blocked_def)
  next
    case MResume
    then show ?thesis using m_resume_good [OF inv i] by (simp add: d)
  next
    case MEating
    then show ?thesis using m_down_mutex_good [OF inv i, of MInPut MWaitPut] by (simp add: d)
  next
    case MInPut
    then show ?thesis using m_put_left_good [OF inv i] by (simp add: d)
  next
    case MDownNextL
    then show ?thesis using m_down_next_good [OF inv i, of MBackL MWaitNextL] by (simp add: d)
  next
    case MBackL
    then have "m_good i t (pm_goto i MTestRight (t\<lparr>pm_next_count := 0\<rparr>))"
      using act ns i by (intro m_step_inside) (auto simp: m_active_def)
    then show ?thesis using MBackL nc by (simp add: d m_active_def)
  next
    case MTestRight
    then show ?thesis using m_put_right_good [OF inv i] by (simp add: d)
  next
    case MDownNextR
    then show ?thesis using m_down_next_good [OF inv i, of MBackR MWaitNextR] by (simp add: d)
  next
    case MBackR
    then have "m_good i t (pm_goto i MLeavePut (t\<lparr>pm_next_count := 0\<rparr>))"
      using act ns i by (intro m_step_inside) (auto simp: m_active_def)
    then show ?thesis using MBackR nc by (simp add: d m_active_def)
  next
    case MLeavePut
    let ?c = "if pm_iter t i + 1 < TIMES then MThinking else MQuit"
    have "m_good i t ((pm_goto i ?c (pm_leave t))\<lparr>pm_iter := (pm_iter t)(i := pm_iter t i + 1)\<rparr>)"
      using MLeavePut ns it by (intro m_leave_good [OF inv i _ cv_id [of t, symmetric]]) (auto simp: m_active_def m_work_def)
    moreover have "pm_iter (pm_goto i ?c (pm_leave t)) = pm_iter t"
      by (simp add: pm_leave_def pm_up_next_def pm_up_mutex_def pm_wake_def split: prod.splits option.splits)
    ultimately show ?thesis using MLeavePut by (simp add: d split del: if_split)
  qed (use p in \<open>simp_all add: d\<close>)
qed

lemma condvar_start: "m_inv Free check_sync_condvar" "(\<Sum>i < PHI_N. m_work (pm_pc check_sync_condvar) (pm_iter check_sync_condvar) i) = 440"
  by (auto simp: m_inv_def m_loc_def m_active_def m_signalling_def m_mutex_def m_next_def m_forks_def no_shared_fork_def starving_def m_iters_def
      check_sync_condvar_def TIMES_def m_work_def PHI_N_def)

lemma condvar_run_inv: "condvar_run n t \<Longrightarrow> (\<exists>M. m_inv M t) \<and> n + (\<Sum>i < PHI_N. m_work (pm_pc t) (pm_iter t) i) \<le> 440"
proof (induction rule: condvar_run.induct)
  case start
  show ?case using condvar_start by auto
next
  case (step n t i t')
  then obtain M where "m_inv M t" by blast
  then have g: "m_good i t t'" using condvar_step_good [of M t i] step.hyps by (auto split: if_splits)
  then have "(\<Sum>j < PHI_N. m_work (pm_pc t') (pm_iter t') j) < (\<Sum>j < PHI_N. m_work (pm_pc t) (pm_iter t) j)"
    using step.hyps(2) by (intro sum_strict_mono_ex1) (auto simp: m_good_def)
  then show ?case using step.IH g by (auto simp: m_good_def)
qed

lemma condvar_no_deadlock:
  assumes inv: "m_inv M t" and stuck: "\<forall>i < PHI_N. philosopher_using_condvar i t = None" and i: "i < PHI_N"
  shows "pm_pc t i = MQuit \<and> pm_iter t i = TIMES"
proof -
  have b: "m_blocked (pm_pc t j)" if "j < PHI_N" for j
    using condvar_step_good [OF inv that] stuck that by (auto split: if_splits)
  have "M = Free"
  proof (cases M)
    case (Held k)
    then have "m_active (pm_pc t k)" "k < PHI_N" using m_invD(1,3) [OF inv, of k] inv by (auto simp: m_inv_def m_next_def m_loc_def)
    with b [of k] show ?thesis by (auto simp: m_active_def m_blocked_def)
  next
    case (Signal p k)
    then have "k < PHI_N" using inv by (auto simp: m_inv_def m_next_def)
    then show ?thesis using m_invD(1) [OF inv, of k] b [of k] Signal by (auto simp: m_loc_def m_blocked_def)
  next
    case (Back p)
    then have "p < PHI_N" using inv by (auto simp: m_inv_def m_next_def)
    then show ?thesis using m_invD(1) [OF inv, of p] b [of p] Back by (auto simp: m_loc_def m_blocked_def)
  qed
  then have pc: "pm_pc t j = MWaitCv \<or> pm_pc t j = MQuit" if "j < PHI_N" for j
    using m_invD(1,2) [OF inv that] b [OF that] by (auto simp: m_loc_free m_mutex_def m_blocked_def m_signalling_def)
  have ne: "pm_state t j \<noteq> EATING" if "j < PHI_N" for j using m_waits [OF inv that] pc [OF that] by auto
  have "\<not> m_untested (pm_pc t) i" using pc [OF neighbours(1) [OF i]] by (auto simp: m_untested_def)
  then have "\<not> starving (pm_state t) i" using m_invD(4) [OF inv i] i by (auto simp: m_forks_def)
  then have "pm_state t i \<noteq> HUNGRY" using ne neighbours(1,2) [OF i] by (auto simp: starving_def)
  then have "pm_pc t i = MQuit" using m_waits [OF inv i] pc [OF i] by auto
  then show ?thesis using inv i by (auto simp: m_inv_def m_iters_def)
qed

text \<open>C14. The philosophers with the monitor: however their steps interleave, two neighbours never eat at the same time, at most one philosopher runs
  inside the monitor (a signaller waits until the one it signalled has left), no run is longer than 440 steps, and when nobody can take a step any more
  everybody has eaten four times and quit: \<^verbatim>\<open>cond_wait\<close> and \<^verbatim>\<open>cond_signal\<close> lose no signal and do not deadlock.\<close>

theorem philosophers_with_monitor:
  assumes "condvar_run n t"
  shows "n \<le> 440 \<and>
    (\<forall>i < PHI_N. pm_pc t i \<in> {MEating, MWaitPut, MInPut} \<longrightarrow> pm_pc t (RIGHT i) \<notin> {MEating, MWaitPut, MInPut}) \<and>
    (\<forall>i < PHI_N. \<forall>j < PHI_N. (m_active (pm_pc t i) \<or> pm_pc t i = MResume) \<and> (m_active (pm_pc t j) \<or> pm_pc t j = MResume) \<longrightarrow> i = j) \<and>
    ((\<forall>i < PHI_N. philosopher_using_condvar i t = None) \<longrightarrow> (\<forall>i < PHI_N. pm_pc t i = MQuit \<and> pm_iter t i = TIMES))"
proof -
  obtain M where inv: "m_inv M t" and n: "n \<le> 440" using condvar_run_inv [OF assms] by auto
  have e: "pm_state t j = EATING" if "j < PHI_N" "pm_pc t j \<in> {MEating, MWaitPut, MInPut}" for j using m_waits [OF inv that(1)] that(2) by auto
  have nf: "no_shared_fork (pm_state t)" using inv by (simp add: m_inv_def m_forks_def)
  have "pm_pc t (RIGHT i) \<notin> {MEating, MWaitPut, MInPut}" if "i < PHI_N" "pm_pc t i \<in> {MEating, MWaitPut, MInPut}" for i
    using nf e [OF that] e [OF neighbours(2) [OF that(1)]] that(1) unfolding no_shared_fork_def by blast
  moreover have "M = Held j \<or> (\<exists>p. M = Signal p j)" if "j < PHI_N" "m_active (pm_pc t j) \<or> pm_pc t j = MResume" for j
    using m_invD(1) [OF inv that(1)] that(2) by (auto simp: m_loc_def)
  then have "i = j" if "i < PHI_N" "j < PHI_N" "m_active (pm_pc t i) \<or> pm_pc t i = MResume" "m_active (pm_pc t j) \<or> pm_pc t j = MResume" for i j
    using that by blast
  ultimately show ?thesis using n condvar_no_deadlock [OF inv] by simp
qed

theorem philosophers_with_monitor_witness:
  "\<exists>t. condvar_run 1 t \<and> pm_pc t 0 = MInTake \<and> pm_pc t 1 \<noteq> MInTake"
proof -
  have "\<exists>t. philosopher_using_condvar 0 check_sync_condvar = Some t \<and> pm_pc t 0 = MInTake"
    by (simp add: philosopher_using_condvar_def phi_take_forks_condvar_def check_sync_condvar_def pm_down_mutex_def sem_down_def)
  then obtain t where t: "philosopher_using_condvar 0 check_sync_condvar = Some t" "pm_pc t 0 = MInTake" by blast
  have r: "condvar_run (Suc 0) t" by (rule condvar_run.step [OF condvar_run.start _ t(1)]) (simp add: PHI_N_def)
  have a: "m_active MInTake" by (simp add: m_active_def)
  have "pm_pc t 1 \<noteq> MInTake"
  proof
    assume "pm_pc t 1 = MInTake"
    then have "(0 :: nat) = 1" using philosophers_with_monitor [OF r] t(2) a by (metis PHI_N_def zero_less_numeral one_less_numeral_iff semiring_norm(77))
    then show False by simp
  qed
  with r t(2) show ?thesis by auto
qed

end
