(* ===== verification/Proc.thy ===== *)
theory Proc
  imports Sync IntArith
begin

text \<open>
  \<^verbatim>\<open>kern/process/proc.c\<close>: the process table. Process identifiers (\<open>get_pid\<close>), the hash table
  that finds a process by its identifier, the family relations (\<open>cptr\<close>, \<open>yptr\<close>, \<open>optr\<close>),
  and the operations \<open>do_exit\<close>, \<open>do_wait\<close>, \<open>do_kill\<close>, \<open>do_sleep\<close>, \<open>do_yield\<close> as far as they work on this table: what they do
  to the address space and the open files of the process is not part of this theory.
\<close>

section \<open>Fields, names and lists\<close>

definition PROC_NAME_LEN :: nat where "PROC_NAME_LEN = 50"

text \<open>\<open>alloc_proc\<close> after its \<open>kmalloc\<close> gave the memory of process \<open>p\<close>; \<open>fs\<close> is the result of
  \<open>files_create\<close>.\<close>

definition proc_zero :: "u32 \<Rightarrow> nat option \<Rightarrow> proc_struct" where
  "proc_zero boot_pgdir fs = \<lparr>
     pr_state = PROC_UNINIT, pr_pid = 0, pr_runs = 0, pr_kstack = 0, pr_need_resched = False,
     pr_parent = None, pr_mm = None, pr_context = \<lparr>ctx_ra = 0, ctx_sp = 0\<rparr>,
     pr_tf = \<lparr>tf_regs = (\<lambda>_. 0), tf_Status = 0, tf_Cause = 0, tf_EPC = 0, tf_BadVAddr = 0, tf_LO = 0, tf_HI = 0\<rparr>,
     pr_pgdir = boot_pgdir, pr_flags = 0, pr_name = replicate (PROC_NAME_LEN + 1) 0, pr_exit_code = 0,
     pr_wait_state = 0, pr_cptr = None, pr_yptr = None, pr_optr = None, pr_in_rq = False,
     pr_time_slice = 0, pr_lab6_priority = 0, pr_filesp = fs\<rparr>"

definition alloc_proc :: "nat \<Rightarrow> u32 \<Rightarrow> nat option \<Rightarrow> kstate \<Rightarrow> kstate" where
  "alloc_proc p boot_pgdir fs s =
     (upd_proc p (\<lambda>_. proc_zero boot_pgdir fs) s)\<lparr>k_links := list_init (RunLink p) (k_links s)\<rparr>"

text \<open>\<open>set_proc_name\<close> copies \<open>PROC_NAME_LEN\<close> bytes of \<open>name\<close> whatever its length is; the last
  byte of the field stays 0.\<close>

definition set_proc_name :: "nat \<Rightarrow> (nat \<Rightarrow> u8) \<Rightarrow> kstate \<Rightarrow> kstate" where
  "set_proc_name p name s =
     upd_proc p (pr_name_update (\<lambda>_. map name [0..<PROC_NAME_LEN] @ [0])) s"

definition get_proc_name :: "nat \<Rightarrow> kstate \<Rightarrow> u8 list" where
  "get_proc_name p s = take PROC_NAME_LEN (pr_name (k_procs s p)) @ [0]"

text \<open>\<open>proc->parent->cptr\<close> with a NULL parent is a NULL dereference.\<close>

definition set_links :: "nat \<Rightarrow> kstate \<Rightarrow> kstate option" where
  "set_links p s = do {
     let s = s\<lparr>k_links := list_add ProcList (ListLink p) (k_links s)\<rparr>;
     let s = upd_proc p (pr_yptr_update (\<lambda>_. None)) s;
     q \<leftarrow> pr_parent (k_procs s p);
     let s = upd_proc p (pr_optr_update (\<lambda>_. pr_cptr (k_procs s q))) s;
     let s = (case pr_optr (k_procs s p) of
                Some o' \<Rightarrow> upd_proc o' (pr_yptr_update (\<lambda>_. Some p)) s | None \<Rightarrow> s);
     let s = upd_proc q (pr_cptr_update (\<lambda>_. Some p)) s;
     Some (s\<lparr>k_nr_process := k_nr_process s + 1\<rparr>) }"

definition remove_links :: "nat \<Rightarrow> kstate \<Rightarrow> kstate option" where
  "remove_links p s = do {
     let s = s\<lparr>k_links := list_del (ListLink p) (k_links s)\<rparr>;
     let s = (case pr_optr (k_procs s p) of
                Some o' \<Rightarrow> upd_proc o' (pr_yptr_update (\<lambda>_. pr_yptr (k_procs s p))) s | None \<Rightarrow> s);
     s \<leftarrow> (case pr_yptr (k_procs s p) of
             Some y \<Rightarrow> Some (upd_proc y (pr_optr_update (\<lambda>_. pr_optr (k_procs s p))) s)
           | None \<Rightarrow> do {
               q \<leftarrow> pr_parent (k_procs s p);
               Some (upd_proc q (pr_cptr_update (\<lambda>_. pr_optr (k_procs s p))) s) });
     Some (s\<lparr>k_nr_process := k_nr_process s - 1\<rparr>) }"

section \<open>Process identifiers\<close>

text \<open>The loop of \<open>get_pid\<close> behind \<open>repeat\<close>, at list position \<open>le\<close>, with \<open>last_pid\<close> and
  \<open>next_safe\<close> as arguments.\<close>

partial_function (option) get_pid_scan :: "klink \<Rightarrow> int \<Rightarrow> int \<Rightarrow> kstate \<Rightarrow> (int \<times> int) option" where
  "get_pid_scan le last_pid next_safe s =
     (case list_next le (k_links s) of
        ListLink p \<Rightarrow>
          let pid = pr_pid (k_procs s p) in
          if pid = last_pid then
            let last_pid = last_pid + 1 in
            if last_pid \<ge> next_safe then
              get_pid_scan ProcList (if last_pid \<ge> MAX_PID then 1 else last_pid) MAX_PID s
            else get_pid_scan (ListLink p) last_pid next_safe s
          else get_pid_scan (ListLink p) last_pid
                 (if pid > last_pid \<and> next_safe > pid then pid else next_safe) s
      | _ \<Rightarrow> Some (last_pid, next_safe))"

definition get_pid :: "kstate \<Rightarrow> (int \<times> kstate) option" where
  "get_pid s = do {
     let last_pid = k_last_pid s + 1;
     (last_pid, next_safe) \<leftarrow>
       (if last_pid \<ge> MAX_PID then get_pid_scan ProcList 1 MAX_PID s
        else if last_pid \<ge> k_next_safe s then get_pid_scan ProcList last_pid MAX_PID s
        else Some (last_pid, k_next_safe s));
     Some (last_pid, s\<lparr>k_last_pid := last_pid, k_next_safe := next_safe\<rparr>) }"

definition HASH_SHIFT :: nat where "HASH_SHIFT = 10"

definition pid_hashfn :: "int \<Rightarrow> nat" where
  "pid_hashfn x = unat (hash32 (of_int x) HASH_SHIFT)"

definition hash_proc :: "nat \<Rightarrow> kstate \<Rightarrow> kstate" where
  "hash_proc p s =
     s\<lparr>k_links := list_add (HashList (pid_hashfn (pr_pid (k_procs s p)))) (HashLink p) (k_links s)\<rparr>"

definition unhash_proc :: "nat \<Rightarrow> kstate \<Rightarrow> kstate" where
  "unhash_proc p s = s\<lparr>k_links := list_del (HashLink p) (k_links s)\<rparr>"

partial_function (option) find_proc_loop :: "klink \<Rightarrow> int \<Rightarrow> kstate \<Rightarrow> nat option option" where
  "find_proc_loop le pid s =
     (case list_next le (k_links s) of
        HashLink p \<Rightarrow>
          if pr_pid (k_procs s p) = pid then Some (Some p) else find_proc_loop (HashLink p) pid s
      | _ \<Rightarrow> Some None)"

definition find_proc :: "int \<Rightarrow> kstate \<Rightarrow> nat option option" where
  "find_proc pid s =
     (if 0 < pid \<and> pid < MAX_PID then find_proc_loop (HashList (pid_hashfn pid)) pid s else Some None)"

section \<open>Operations on the current process\<close>

definition do_yield :: "kstate \<Rightarrow> int \<times> kstate" where
  "do_yield s = (0, upd_proc (k_current s) (pr_need_resched_update (\<lambda>_. True)) s)"

definition lab6_set_priority :: "u32 \<Rightarrow> kstate \<Rightarrow> kstate" where
  "lab6_set_priority prio s =
     upd_proc (k_current s) (pr_lab6_priority_update (\<lambda>_. if prio = 0 then 1 else prio)) s"

definition do_kill :: "int \<Rightarrow> kstate \<Rightarrow> (int \<times> kstate) option" where
  "do_kill pid s = do {
     found \<leftarrow> find_proc pid s;
     (case found of
        Some p \<Rightarrow>
          if pr_flags (k_procs s p) AND PF_EXITING = 0 then do {
            let s = upd_proc p (pr_flags_update (\<lambda>f. f OR PF_EXITING)) s;
            s \<leftarrow> (if pr_wait_state (k_procs s p) AND WT_INTERRUPTED \<noteq> 0 then wakeup_proc p s else Some s);
            Some (0, s) }
          else Some (- E_KILLED, s)
      | None \<Rightarrow> Some (- E_INVAL, s)) }"

text \<open>\<open>do_sleep\<close> up to \<open>schedule\<close>, and whole; \<open>t\<close> is the timer on the stack of the caller.\<close>

definition sleep_enter :: "nat \<Rightarrow> u32 \<Rightarrow> kstate \<Rightarrow> kstate option" where
  "sleep_enter t time s = do {
     let s = timer_init t (k_current s) time s;
     let s = upd_proc (k_current s) (pr_state_update (\<lambda>_. PROC_SLEEPING)) s;
     let s = upd_proc (k_current s) (pr_wait_state_update (\<lambda>_. WT_TIMER)) s;
     add_timer t s }"

definition do_sleep :: "(kstate \<Rightarrow> kstate option) \<Rightarrow> nat \<Rightarrow> u32 \<Rightarrow> kstate \<Rightarrow> (int \<times> kstate) option" where
  "do_sleep others t time s =
     (if time = 0 then Some (0, s)
      else do {
        s \<leftarrow> sleep_enter t time s;
        s \<leftarrow> schedule s;
        s \<leftarrow> others s;
        Some (0, del_timer t s) })"

section \<open>Exit and wait\<close>

text \<open>One round of the loop of \<open>do_exit\<close> that gives child \<open>p\<close> to \<open>initproc\<close>, and the loop.\<close>

definition reparent_child :: "nat \<Rightarrow> kstate \<Rightarrow> kstate option" where
  "reparent_child p s = do {
     let s = upd_proc (k_current s) (pr_cptr_update (\<lambda>_. pr_optr (k_procs s p))) s;
     let s = upd_proc p (pr_yptr_update (\<lambda>_. None)) s;
     let s = upd_proc p (pr_optr_update (\<lambda>_. pr_cptr (k_procs s (k_initproc s)))) s;
     let s = (case pr_cptr (k_procs s (k_initproc s)) of
                Some c \<Rightarrow> upd_proc c (pr_yptr_update (\<lambda>_. Some p)) s | None \<Rightarrow> s);
     let s = upd_proc p (pr_parent_update (\<lambda>_. Some (k_initproc s))) s;
     let s = upd_proc (k_initproc s) (pr_cptr_update (\<lambda>_. Some p)) s;
     if pr_state (k_procs s p) = PROC_ZOMBIE \<and> pr_wait_state (k_procs s (k_initproc s)) = WT_CHILD
     then wakeup_proc (k_initproc s) s else Some s }"

partial_function (option) reparent_children :: "kstate \<Rightarrow> kstate option" where
  "reparent_children s =
     (case pr_cptr (k_procs s (k_current s)) of
        None \<Rightarrow> Some s
      | Some p \<Rightarrow> do { s \<leftarrow> reparent_child p s; reparent_children s })"

text \<open>\<open>do_exit\<close> from the point where address space and files are gone, up to \<open>schedule\<close>.\<close>

definition exit_notify :: "int \<Rightarrow> kstate \<Rightarrow> kstate option" where
  "exit_notify error_code s = do {
     kassert (k_current s \<noteq> k_idleproc s);
     kassert (k_current s \<noteq> k_initproc s);
     let s = upd_proc (k_current s) (pr_state_update (\<lambda>_. PROC_ZOMBIE)) s;
     let s = upd_proc (k_current s) (pr_exit_code_update (\<lambda>_. error_code)) s;
     q \<leftarrow> pr_parent (k_procs s (k_current s));
     s \<leftarrow> (if pr_wait_state (k_procs s q) = WT_CHILD then wakeup_proc q s else Some s);
     reparent_children s }"

text \<open>The search of \<open>do_wait\<close>: \<open>(haskid, Some p)\<close> is the jump to \<open>found\<close> with process \<open>p\<close>.\<close>

partial_function (option) wait_any :: "nat option \<Rightarrow> bool \<Rightarrow> kstate \<Rightarrow> (bool \<times> nat option) option" where
  "wait_any proc haskid s =
     (case proc of
        None \<Rightarrow> Some (haskid, None)
      | Some p \<Rightarrow>
          if pr_state (k_procs s p) = PROC_ZOMBIE then Some (True, Some p)
          else wait_any (pr_optr (k_procs s p)) True s)"

definition wait_search :: "int \<Rightarrow> kstate \<Rightarrow> (bool \<times> nat option) option" where
  "wait_search pid s =
     (if pid \<noteq> 0 then do {
        found \<leftarrow> find_proc pid s;
        Some (case found of
                Some p \<Rightarrow>
                  if pr_parent (k_procs s p) = Some (k_current s)
                  then (True, if pr_state (k_procs s p) = PROC_ZOMBIE then Some p else None)
                  else (False, None)
              | None \<Rightarrow> (False, None)) }
      else wait_any (pr_cptr (k_procs s (k_current s))) False s)"

definition wait_reap :: "nat \<Rightarrow> kstate \<Rightarrow> (int \<times> kstate) option" where
  "wait_reap p s = do {
     kassert (p \<noteq> k_idleproc s \<and> p \<noteq> k_initproc s);
     let code = pr_exit_code (k_procs s p);
     let s = unhash_proc p s;
     s \<leftarrow> remove_links p s;
     Some (code, s) }"

text \<open>The loop of \<open>do_wait\<close>; the results are the return value and the exit code stored. A process that is killed
  while it waits ends in \<open>do_exit(-E_KILLED)\<close>, which does not return.\<close>

partial_function (option) do_wait ::
  "(kstate \<Rightarrow> kstate option) \<Rightarrow> int \<Rightarrow> kstate \<Rightarrow> (int \<times> int option \<times> kstate) option" where
  "do_wait others pid s = do {
     (haskid, found) \<leftarrow> wait_search pid s;
     (case found of
        Some p \<Rightarrow> do {
          (code, s) \<leftarrow> wait_reap p s;
          Some (0, Some code, s) }
      | None \<Rightarrow>
          if haskid then do {
            let s = upd_proc (k_current s) (pr_state_update (\<lambda>_. PROC_SLEEPING)) s;
            let s = upd_proc (k_current s) (pr_wait_state_update (\<lambda>_. WT_CHILD)) s;
            s \<leftarrow> schedule s;
            s \<leftarrow> others s;
            kassert (pr_flags (k_procs s (k_current s)) AND PF_EXITING = 0);
            do_wait others pid s }
          else Some (- E_BAD_PROC, None, s)) }"

section \<open>get_pid gives an unused identifier\<close>

definition proc_list_inv :: "kstate \<Rightarrow> nat list \<Rightarrow> bool" where
  "proc_list_inv s ps \<longleftrightarrow> ring (k_links s) ProcList (map ListLink ps)"

text \<open>No process has an identifier strictly between \<open>last_pid\<close> and \<open>next_safe\<close>.\<close>

definition pid_window :: "int \<Rightarrow> int \<Rightarrow> int set \<Rightarrow> bool" where
  "pid_window last_pid next_safe used \<longleftrightarrow>
     1 \<le> last_pid \<and> last_pid \<le> MAX_PID \<and> next_safe \<le> MAX_PID \<and>
     (\<forall>i \<in> used. \<not> (last_pid < i \<and> i < next_safe))"

definition pids :: "kstate \<Rightarrow> nat list \<Rightarrow> int set" where
  "pids s ps = (\<lambda>p. pr_pid (k_procs s p)) ` set ps"

text \<open>The number of identifiers from \<open>last_pid\<close> on, around, to the free one \<open>f\<close>.\<close>

definition pid_dist :: "int \<Rightarrow> int \<Rightarrow> nat" where
  "pid_dist f l = nat (if l \<le> f then f - l else f - l + MAX_PID)"

lemma MAX_PID_eq [simp]: "MAX_PID = 8192"
  by (simp add: MAX_PID_def MAX_PROCESS_def)

lemma get_pid_scan_spec:
  assumes "proc_list_inv s (xs @ ys)" "1 \<le> l" "l < ns" "ns \<le> MAX_PID" "1 \<le> f" "f < MAX_PID"
    "f \<notin> pids s (xs @ ys)" "\<forall>i \<in> pids s xs. \<not> (l \<le> i \<and> i < ns)"
  shows "\<exists>l' ns'. get_pid_scan (last (ProcList # map ListLink xs)) l ns s = Some (l', ns') \<and>
    1 \<le> l' \<and> l' < ns' \<and> ns' \<le> MAX_PID \<and> (\<forall>i \<in> pids s (xs @ ys). \<not> (l' \<le> i \<and> i < ns'))"
  using assms
proof (induction "(pid_dist f l, length ys)" arbitrary: l ns xs ys
    rule: wf_induct_rule [OF wf_lex_prod [OF wf_less_than wf_less_than], case_names less])
  case less
  have r: "ring (k_links s) ProcList (map ListLink xs @ map ListLink ys)"
    using less.prems(1) by (simp add: proc_list_inv_def)
  note nx = ring_next_last [OF r]
  show ?case
  proof (cases ys)
    case Nil
    with less.prems nx show ?thesis
      by (subst get_pid_scan.simps, subst nx) auto
  next
    case (Cons y zs)
    let ?pid = "pr_pid (k_procs s y)"
    have st: "get_pid_scan (last (ProcList # map ListLink xs)) l ns s =
        (if ?pid = l then
           if l + 1 \<ge> ns then get_pid_scan ProcList (if l + 1 \<ge> MAX_PID then 1 else l + 1) MAX_PID s
           else get_pid_scan (last (ProcList # map ListLink (xs @ [y]))) (l + 1) ns s
         else get_pid_scan (last (ProcList # map ListLink (xs @ [y]))) l
                (if ?pid > l \<and> ns > ?pid then ?pid else ns) s)"
      using Cons by (subst get_pid_scan.simps, subst nx) (auto simp: Let_def)
    have eq: "(xs @ [y]) @ zs = xs @ ys" using Cons by simp
    have pid_f: "?pid \<noteq> f" using less.prems(7) Cons by (auto simp: pids_def)
    show ?thesis
    proof (cases "?pid = l")
      case pl: True
      with pid_f have lf: "l \<noteq> f" by simp
      show ?thesis
      proof (cases "l + 1 \<ge> ns")
        case True
        let ?l = "if l + 1 \<ge> MAX_PID then 1 else l + 1 :: int"
        have d: "pid_dist f ?l < pid_dist f l"
          using less.prems(2-6) lf by (auto simp: pid_dist_def)
        have "\<exists>l' ns'. get_pid_scan (last (ProcList # map ListLink [])) ?l MAX_PID s = Some (l', ns') \<and>
            1 \<le> l' \<and> l' < ns' \<and> ns' \<le> MAX_PID \<and> (\<forall>i \<in> pids s ([] @ (xs @ ys)). \<not> (l' \<le> i \<and> i < ns'))"
          by (rule less.hyps) (use less.prems d in \<open>auto simp: pids_def\<close>)
        then show ?thesis using st pl True by simp
      next
        case False
        have d: "pid_dist f (l + 1) < pid_dist f l"
          using less.prems(2-6) lf False by (auto simp: pid_dist_def)
        have "\<exists>l' ns'. get_pid_scan (last (ProcList # map ListLink (xs @ [y]))) (l + 1) ns s = Some (l', ns') \<and>
            1 \<le> l' \<and> l' < ns' \<and> ns' \<le> MAX_PID \<and> (\<forall>i \<in> pids s ((xs @ [y]) @ zs). \<not> (l' \<le> i \<and> i < ns'))"
          by (rule less.hyps) (use less.prems d False pl Cons in \<open>auto simp: pids_def\<close>)
        then show ?thesis using st pl False eq by simp
      qed
    next
      case pl: False
      let ?ns = "if ?pid > l \<and> ns > ?pid then ?pid else ns"
      have "\<exists>l' ns'. get_pid_scan (last (ProcList # map ListLink (xs @ [y]))) l ?ns s = Some (l', ns') \<and>
          1 \<le> l' \<and> l' < ns' \<and> ns' \<le> MAX_PID \<and> (\<forall>i \<in> pids s ((xs @ [y]) @ zs). \<not> (l' \<le> i \<and> i < ns'))"
        by (rule less.hyps) (use less.prems pl Cons in \<open>auto simp: pids_def\<close>)
      then show ?thesis using st pl eq by simp
    qed
  qed
qed

lemma free_pid_exists:
  assumes "length ps < nat (MAX_PID - 1)"
  obtains f where "1 \<le> f" "f < MAX_PID" "f \<notin> pids s ps"
proof -
  have "card (pids s ps) \<le> length ps"
    unfolding pids_def using card_image_le [of "set ps"] card_length [of ps] by (meson finite_set le_trans)
  moreover have "card {1 ..< MAX_PID} = nat (MAX_PID - 1)" by simp
  ultimately have "\<not> {1 ..< MAX_PID} \<subseteq> pids s ps"
    using assms card_mono [of "pids s ps" "{1 ..< MAX_PID}"] by (force simp: pids_def)
  then obtain f where "f \<in> {1 ..< MAX_PID}" "f \<notin> pids s ps" by blast
  then show thesis using that [of f] by simp
qed

lemma get_pid_spec:
  assumes inv: "proc_list_inv s ps" and win: "pid_window (k_last_pid s) (k_next_safe s) (pids s ps)"
    and len: "length ps < nat (MAX_PID - 1)"
  shows "\<exists>pid s'. get_pid s = Some (pid, s') \<and> 1 \<le> pid \<and> pid < MAX_PID \<and> pid \<notin> pids s ps \<and>
    pid_window (k_last_pid s') (k_next_safe s') (insert pid (pids s ps)) \<and>
    k_links s' = k_links s \<and> k_procs s' = k_procs s"
proof -
  obtain f where f: "1 \<le> f" "f < MAX_PID" "f \<notin> pids s ps" using free_pid_exists [OF len] by blast
  have scan: "\<exists>l' ns'. get_pid_scan ProcList l MAX_PID s = Some (l', ns') \<and> 1 \<le> l' \<and> l' < ns' \<and> ns' \<le> MAX_PID \<and>
      (\<forall>i \<in> pids s ps. \<not> (l' \<le> i \<and> i < ns'))" if "1 \<le> l" "l < MAX_PID" for l
    using get_pid_scan_spec [of s "[]" ps l MAX_PID f] inv that f by (simp add: pids_def)
  let ?l = "k_last_pid s + 1"
  have res: "\<exists>l' ns'. (if ?l \<ge> MAX_PID then get_pid_scan ProcList 1 MAX_PID s
        else if ?l \<ge> k_next_safe s then get_pid_scan ProcList ?l MAX_PID s
        else Some (?l, k_next_safe s)) = Some (l', ns') \<and> 1 \<le> l' \<and> l' < ns' \<and> ns' \<le> MAX_PID \<and>
      (\<forall>i \<in> pids s ps. \<not> (l' \<le> i \<and> i < ns'))"
    using scan [of 1] scan [of ?l] win by (auto simp: pid_window_def)
  then obtain l' ns' where r: "get_pid s = Some (l', s\<lparr>k_last_pid := l', k_next_safe := ns'\<rparr>)"
    "1 \<le> l'" "l' < ns'" "ns' \<le> MAX_PID" "\<forall>i \<in> pids s ps. \<not> (l' \<le> i \<and> i < ns')"
    by (auto simp: get_pid_def Let_def)
  then have "l' \<notin> pids s ps" "pid_window l' ns' (insert l' (pids s ps))" by (auto simp: pid_window_def)
  with r show ?thesis by auto
qed

section \<open>The children of a process\<close>

text \<open>\<open>sib_chain f y cs e\<close>: between the younger neighbour \<open>y\<close> and the older neighbour \<open>e\<close>
  the sibling links run through \<open>cs\<close>.\<close>

definition first_of :: "nat list \<Rightarrow> nat option \<Rightarrow> nat option" where
  "first_of cs e = (case cs of [] \<Rightarrow> e | c # _ \<Rightarrow> Some c)"

definition last_of :: "nat option \<Rightarrow> nat list \<Rightarrow> nat option" where
  "last_of y cs = (if cs = [] then y else Some (last cs))"

lemma first_last_of [simp]:
  "first_of [] e = e" "first_of (c # cs) e = Some c" "last_of y [] = y" "last_of y (cs @ [c]) = Some c"
  "last_of y (c # cs) = last_of (Some c) cs" "first_of (as @ bs) e = first_of as (first_of bs e)"
  by (auto simp: first_of_def last_of_def split: list.splits)

fun sib_chain :: "(nat \<Rightarrow> proc_struct) \<Rightarrow> nat option \<Rightarrow> nat list \<Rightarrow> nat option \<Rightarrow> bool" where
  "sib_chain f y [] e \<longleftrightarrow> True"
| "sib_chain f y (c # cs) e \<longleftrightarrow> pr_yptr (f c) = y \<and> pr_optr (f c) = first_of cs e \<and> sib_chain f (Some c) cs e"

definition children :: "kstate \<Rightarrow> nat \<Rightarrow> nat list \<Rightarrow> bool" where
  "children s q cs \<longleftrightarrow> pr_cptr (k_procs s q) = first_of cs None \<and>
     sib_chain (k_procs s) None cs None \<and> distinct cs \<and> (\<forall>c \<in> set cs. pr_parent (k_procs s c) = Some q)"

lemma sib_chain_cong:
  "(\<And>c. c \<in> set cs \<Longrightarrow> pr_yptr (f c) = pr_yptr (g c) \<and> pr_optr (f c) = pr_optr (g c)) \<Longrightarrow>
   sib_chain f y cs e = sib_chain g y cs e"
  by (induction cs arbitrary: y) auto

lemma sib_chain_append:
  "sib_chain f y (as @ bs) e \<longleftrightarrow> sib_chain f y as (first_of bs e) \<and> sib_chain f (last_of y as) bs e"
  by (induction as arbitrary: y) auto

text \<open>Changing the links at the two ends of a chain.\<close>

lemma sib_chain_end:
  assumes "sib_chain f y cs e" "distinct cs"
    and "\<And>c. c \<in> set cs \<Longrightarrow> pr_yptr (g c) = pr_yptr (f c)"
    and "\<And>c. c \<in> set cs \<Longrightarrow> last_of None cs \<noteq> Some c \<Longrightarrow> pr_optr (g c) = pr_optr (f c)"
    and "\<And>c. last_of None cs = Some c \<Longrightarrow> pr_optr (g c) = e'"
  shows "sib_chain g y cs e'"
proof (cases cs rule: rev_cases)
  case (snoc ds d)
  with assms have "sib_chain f y ds (Some d)" by (simp add: sib_chain_append)
  moreover have "sib_chain g y ds (Some d) = sib_chain f y ds (Some d)"
    using snoc assms(2-4) by (intro sib_chain_cong) auto
  ultimately show ?thesis using snoc assms by (simp add: sib_chain_append)
qed simp

lemma sib_chain_start:
  assumes "sib_chain f y cs e" "distinct cs"
    and "\<And>c. c \<in> set cs \<Longrightarrow> pr_optr (g c) = pr_optr (f c)"
    and "\<And>c. c \<in> set cs \<Longrightarrow> first_of cs None \<noteq> Some c \<Longrightarrow> pr_yptr (g c) = pr_yptr (f c)"
    and "\<And>c. first_of cs None = Some c \<Longrightarrow> pr_yptr (g c) = y'"
  shows "sib_chain g y' cs e"
proof (cases cs)
  case (Cons d ds)
  have "sib_chain g (Some d) ds e = sib_chain f (Some d) ds e"
    using Cons assms(2-4) by (intro sib_chain_cong) auto
  then show ?thesis using Cons assms by simp
qed simp

lemma set_links_children:
  assumes ch: "children s q cs" and p: "pr_parent (k_procs s p) = Some q" "p \<notin> set cs" "p \<noteq> q" "q \<notin> set cs"
  shows "\<exists>s'. set_links p s = Some s' \<and> children s' q (p # cs) \<and> k_nr_process s' = k_nr_process s + 1"
proof -
  let ?s = "s\<lparr>k_links := list_add ProcList (ListLink p) (k_links s)\<rparr>"
  let ?s1 = "upd_proc p (pr_optr_update (\<lambda>_. first_of cs None)) (upd_proc p (pr_yptr_update (\<lambda>_. None)) ?s)"
  let ?s2 = "case first_of cs None of Some o' \<Rightarrow> upd_proc o' (pr_yptr_update (\<lambda>_. Some p)) ?s1 | None \<Rightarrow> ?s1"
  let ?s3 = "upd_proc q (pr_cptr_update (\<lambda>_. Some p)) ?s2"
  have e: "set_links p s = Some (?s3\<lparr>k_nr_process := k_nr_process ?s3 + 1\<rparr>)"
    using ch p by (simp add: set_links_def Let_def children_def split: option.splits)
  have chain: "sib_chain (k_procs s) None cs None" "distinct cs" using ch by (simp_all add: children_def)
  have "sib_chain (k_procs ?s3) (Some p) cs None"
    by (rule sib_chain_start [OF chain])
      (use p in \<open>auto simp: first_of_def split: list.splits option.splits\<close>)
  then have "children (?s3\<lparr>k_nr_process := k_nr_process ?s3 + 1\<rparr>) q (p # cs)"
    using ch p unfolding children_def by (auto simp: first_of_def split: list.splits option.splits)
  moreover have "k_nr_process ?s3 = k_nr_process s" by (simp split: option.splits)
  ultimately show ?thesis using e by simp
qed

lemma remove_links_children:
  assumes ch: "children s q (as @ p # bs)" and q: "q \<notin> set (as @ p # bs)"
  shows "\<exists>s'. remove_links p s = Some s' \<and> children s' q (as @ bs) \<and> k_nr_process s' = k_nr_process s - 1"
proof -
  let ?s0 = "s\<lparr>k_links := list_del (ListLink p) (k_links s)\<rparr>"
  have chain: "sib_chain (k_procs s) None as (Some p)" "sib_chain (k_procs s) (Some p) bs None"
    "pr_yptr (k_procs s p) = last_of None as" "pr_optr (k_procs s p) = first_of bs None"
    and dist: "distinct (as @ p # bs)" and par: "\<forall>c \<in> set (as @ p # bs). pr_parent (k_procs s c) = Some q"
    and cq: "pr_cptr (k_procs s q) = first_of as (Some p)"
    using ch by (auto simp: children_def sib_chain_append)
  let ?s1 = "case first_of bs None of
      Some o' \<Rightarrow> upd_proc o' (pr_yptr_update (\<lambda>_. last_of None as)) ?s0 | None \<Rightarrow> ?s0"
  let ?s2 = "case last_of None as of
      Some y \<Rightarrow> upd_proc y (pr_optr_update (\<lambda>_. first_of bs None)) ?s1
    | None \<Rightarrow> upd_proc q (pr_cptr_update (\<lambda>_. first_of bs None)) ?s1"
  have o': "first_of bs None = Some b \<Longrightarrow> b \<in> set bs" for b by (cases bs) auto
  have y': "last_of None as = Some a \<Longrightarrow> a \<in> set as" for a by (auto simp: last_of_def split: if_splits)
  have e: "remove_links p s = Some (?s2\<lparr>k_nr_process := k_nr_process ?s2 - 1\<rparr>)"
    using chain par dist o' by (auto simp: remove_links_def Let_def split: option.splits)
  have "sib_chain (k_procs ?s2) None as (first_of bs None)"
    by (rule sib_chain_end [OF chain(1)])
      (use dist q o' in \<open>auto split: option.splits\<close>)
  moreover have "sib_chain (k_procs ?s2) (last_of None as) bs None"
    by (rule sib_chain_start [OF chain(2)])
      (use dist q y' in \<open>auto split: option.splits\<close>)
  moreover have "pr_cptr (k_procs ?s2 q) = first_of as (first_of bs None)"
    using cq q o' y' by (auto simp: last_of_def first_of_def split: option.splits list.splits)
  moreover have "pr_parent (k_procs ?s2 c) = pr_parent (k_procs s c)" for c by (auto split: option.splits)
  ultimately have "children (?s2\<lparr>k_nr_process := k_nr_process ?s2 - 1\<rparr>) q (as @ bs)"
    using dist par by (auto simp: children_def sib_chain_append)
  moreover have "k_nr_process ?s2 = k_nr_process s" by (simp split: option.splits)
  ultimately show ?thesis using e by simp
qed

lemma set_links_proc_list:
  assumes "proc_list_inv s ps" "p \<notin> set ps" "set_links p s = Some s'"
  shows "proc_list_inv s' (p # ps)"
proof -
  have "ring (list_add ProcList (ListLink p) (k_links s)) ProcList (ListLink p # map ListLink ps)"
    unfolding list_add_def using assms(1,2) by (intro ring_add_after_head) (auto simp: proc_list_inv_def)
  moreover have "k_links s' = list_add ProcList (ListLink p) (k_links s)"
    using assms(3) by (auto simp: set_links_def Let_def bind_eq_Some_conv split: option.splits)
  ultimately show ?thesis by (simp add: proc_list_inv_def)
qed


section \<open>The hash table is a map from identifiers to processes\<close>

text \<open>The contract of the table: \<open>inv s m\<close> says that the table of state \<open>s\<close> is the map \<open>m\<close>.\<close>

locale pid_table =
  fixes inv :: "'s \<Rightarrow> (int \<Rightarrow> nat option) \<Rightarrow> bool"
    and pid_of :: "'s \<Rightarrow> nat \<Rightarrow> int"
    and lookup :: "int \<Rightarrow> 's \<Rightarrow> nat option option"
    and insert_proc :: "nat \<Rightarrow> 's \<Rightarrow> 's"
    and remove_proc :: "nat \<Rightarrow> 's \<Rightarrow> 's"
  assumes lookup_eq: "inv s m \<Longrightarrow> 0 < i \<Longrightarrow> i < MAX_PID \<Longrightarrow> lookup i s = Some (m i)"
    and lookup_range: "\<not> (0 < i \<and> i < MAX_PID) \<Longrightarrow> lookup i s = Some None"
    and insert_ok: "inv s m \<Longrightarrow> p \<notin> ran m \<Longrightarrow> m (pid_of s p) = None \<Longrightarrow>
      inv (insert_proc p s) (m(pid_of s p \<mapsto> p)) \<and> pid_of (insert_proc p s) = pid_of s"
    and remove_ok: "inv s m \<Longrightarrow> m i = Some p \<Longrightarrow> inv (remove_proc p s) (m(i := None))"
    and pid_of_map: "inv s m \<Longrightarrow> m i = Some p \<Longrightarrow> pid_of s p = i"
begin

lemma lookup_total: "inv s m \<Longrightarrow> lookup i s \<noteq> None"
  using lookup_eq lookup_range by (metis option.distinct(1))

lemma lookup_sound: "inv s m \<Longrightarrow> lookup i s = Some (Some p) \<Longrightarrow> pid_of s p = i \<and> m i = Some p"
  using lookup_eq lookup_range pid_of_map by (metis option.distinct(1) option.inject)

lemma insert_then_lookup:
  "inv s m \<Longrightarrow> p \<notin> ran m \<Longrightarrow> m (pid_of s p) = None \<Longrightarrow> 0 < i \<Longrightarrow> i < MAX_PID \<Longrightarrow>
   lookup i (insert_proc p s) = (if i = pid_of s p then Some (Some p) else lookup i s)"
  using insert_ok [of s m p] lookup_eq [of "insert_proc p s" "m(pid_of s p \<mapsto> p)" i] lookup_eq [of s m i]
  by simp

lemma insert_remove:
  "inv s m \<Longrightarrow> p \<notin> ran m \<Longrightarrow> m (pid_of s p) = None \<Longrightarrow> inv (remove_proc p (insert_proc p s)) m"
proof -
  assume a: "inv s m" "p \<notin> ran m" "m (pid_of s p) = None"
  from insert_ok [OF a] remove_ok [of "insert_proc p s" "m(pid_of s p \<mapsto> p)" "pid_of s p" p]
  have "inv (remove_proc p (insert_proc p s)) ((m(pid_of s p \<mapsto> p))(pid_of s p := None))" by simp
  moreover have "(m(pid_of s p \<mapsto> p))(pid_of s p := None) = m" using a(3) by auto
  ultimately show ?thesis by simp
qed

end

definition hash_lists :: "kstate \<Rightarrow> (nat \<Rightarrow> nat list) \<Rightarrow> bool" where
  "hash_lists s hs \<longleftrightarrow> (\<forall>b < 2 ^ HASH_SHIFT. ring (k_links s) (HashList b) (map HashLink (hs b)) \<and>
     (\<forall>p \<in> set (hs b). pid_hashfn (pr_pid (k_procs s p)) = b))"

definition hash_inv :: "kstate \<Rightarrow> (int \<Rightarrow> nat option) \<Rightarrow> bool" where
  "hash_inv s m \<longleftrightarrow> (\<exists>hs. hash_lists s hs \<and>
     (\<forall>i p. m i = Some p \<longleftrightarrow> p \<in> set (hs (pid_hashfn i)) \<and> pr_pid (k_procs s p) = i))"

lemma pid_hashfn_lt: "pid_hashfn i < 2 ^ HASH_SHIFT"
  unfolding pid_hashfn_def by (rule hash32_bound) (simp add: HASH_SHIFT_def)

lemma find_proc_loop_eq:
  assumes "ring (k_links s) (HashList b) (map HashLink (xs @ ys))"
  shows "find_proc_loop (last (HashList b # map HashLink xs)) i s =
    Some (find (\<lambda>p. pr_pid (k_procs s p) = i) ys)"
  using assms
proof (induction ys arbitrary: xs)
  case Nil
  from ring_next_last [of "k_links s" "HashList b" "map HashLink xs" "[]"] Nil
  show ?case by (subst find_proc_loop.simps) simp
next
  case (Cons y ys)
  have nx: "list_next (last (HashList b # map HashLink xs)) (k_links s) = HashLink y"
    using Cons.prems ring_next_last [of "k_links s" "HashList b" "map HashLink xs" "map HashLink (y # ys)"]
    by simp
  have "find_proc_loop (last (HashList b # map HashLink (xs @ [y]))) i s =
      Some (find (\<lambda>p. pr_pid (k_procs s p) = i) ys)"
    using Cons.prems by (intro Cons.IH) simp
  then show ?case by (subst find_proc_loop.simps, subst nx) simp
qed

lemma find_proc_eq:
  assumes "hash_lists s hs" "0 < i" "i < MAX_PID"
  shows "find_proc i s = Some (find (\<lambda>p. pr_pid (k_procs s p) = i) (hs (pid_hashfn i)))"
  using find_proc_loop_eq [of s "pid_hashfn i" "[]" "hs (pid_hashfn i)" i] assms pid_hashfn_lt [of i]
  by (simp add: find_proc_def hash_lists_def)

lemma hash_proc_lists:
  assumes hl: "hash_lists s hs" and p: "\<forall>b < 2 ^ HASH_SHIFT. p \<notin> set (hs b)"
  shows "hash_lists (hash_proc p s) (\<lambda>b. if b = pid_hashfn (pr_pid (k_procs s p)) then p # hs b else hs b)"
proof -
  let ?b = "pid_hashfn (pr_pid (k_procs s p))"
  have lt: "?b < 2 ^ HASH_SHIFT" by (rule pid_hashfn_lt)
  have r: "ring (k_links s) (HashList ?b) (map HashLink (hs ?b))" using hl lt by (simp add: hash_lists_def)
  have new: "ring (list_add (HashList ?b) (HashLink p) (k_links s)) (HashList ?b) (HashLink p # map HashLink (hs ?b))"
    unfolding list_add_def using p lt by (intro ring_add_after_head [OF r]) auto
  have old: "ring (list_add (HashList ?b) (HashLink p) (k_links s)) (HashList b) (map HashLink (hs b))"
    if "b < 2 ^ HASH_SHIFT" "b \<noteq> ?b" for b
  proof (rule ring_frame)
    show "ring (k_links s) (HashList b) (map HashLink (hs b))" using hl that by (simp add: hash_lists_def)
    have dis: "set (hs b) \<inter> set (hs ?b) = {}"
      using hl that lt unfolding hash_lists_def by (metis disjoint_iff)
    show "list_add (HashList ?b) (HashLink p) (k_links s) x = k_links s x"
      if x: "x \<in> set (HashList b # map HashLink (hs b))" for x
      unfolding list_add_def
      by (rule list_add_after_frame [OF r]) (use x p \<open>b < _\<close> \<open>b \<noteq> _\<close> dis in auto)
  qed
  show ?thesis
    using hl new old by (auto simp: hash_lists_def hash_proc_def)
qed

lemma unhash_proc_lists:
  assumes hl: "hash_lists s hs" and p: "p \<in> set (hs b)" "b < 2 ^ HASH_SHIFT"
  shows "hash_lists (unhash_proc p s) (hs(b := remove1 p (hs b)))"
proof -
  have r: "ring (k_links s) (HashList b) (map HashLink (hs b))" using hl p by (simp add: hash_lists_def)
  then have "distinct (map HashLink (hs b))" using ring_distinct by force
  then have dist: "distinct (hs b)" by (simp add: distinct_map)
  obtain as bs where sp: "hs b = as @ p # bs" using p(1) by (auto dest: split_list)
  then have r1: "remove1 p (hs b) = as @ bs" using dist by (simp add: remove1_append)
  have new: "ring (list_del (HashLink p) (k_links s)) (HashList b) (map HashLink (remove1 p (hs b)))"
    unfolding r1 using ring_del [of "k_links s" "HashList b" "map HashLink as" "HashLink p" "map HashLink bs"] r sp
    by simp
  have old: "ring (list_del (HashLink p) (k_links s)) (HashList c) (map HashLink (hs c))"
    if "c < 2 ^ HASH_SHIFT" "c \<noteq> b" for c
  proof (rule ring_frame)
    show "ring (k_links s) (HashList c) (map HashLink (hs c))" using hl that by (simp add: hash_lists_def)
    have dis: "set (hs c) \<inter> set (hs b) = {}"
      using hl that p(2) unfolding hash_lists_def by (metis disjoint_iff)
    show "list_del (HashLink p) (k_links s) x = k_links s x"
      if x: "x \<in> set (HashList c # map HashLink (hs c))" for x
      by (rule list_del_frame [OF r]) (use x p \<open>c \<noteq> _\<close> dis in auto)
  qed
  show ?thesis using hl new old dist by (auto simp: hash_lists_def unhash_proc_def)
qed

lemma hash_lists_other_bucket:
  "hash_lists s hs \<Longrightarrow> p \<in> set (hs b) \<Longrightarrow> b < 2 ^ HASH_SHIFT \<Longrightarrow> b = pid_hashfn (pr_pid (k_procs s p))"
  by (auto simp: hash_lists_def)

interpretation pidtab: pid_table hash_inv "\<lambda>s p. pr_pid (k_procs s p)" find_proc hash_proc unhash_proc
proof
  fix s m i p
  show "\<not> (0 < i \<and> i < MAX_PID) \<Longrightarrow> find_proc i s = Some None" by (auto simp: find_proc_def)
  show "hash_inv s m \<Longrightarrow> m i = Some p \<Longrightarrow> pr_pid (k_procs s p) = i" by (auto simp: hash_inv_def)
  show "find_proc i s = Some (m i)" if a: "hash_inv s m" "0 < i" "i < MAX_PID"
  proof -
    obtain hs where hs: "hash_lists s hs"
        "\<forall>i p. m i = Some p \<longleftrightarrow> p \<in> set (hs (pid_hashfn i)) \<and> pr_pid (k_procs s p) = i"
      using a(1) unfolding hash_inv_def by blast
    have "find (\<lambda>p. pr_pid (k_procs s p) = i) (hs (pid_hashfn i)) = m i"
    proof (cases "m i")
      case None
      then have "\<forall>q \<in> set (hs (pid_hashfn i)). pr_pid (k_procs s q) \<noteq> i" using hs(2) by (metis option.distinct(1))
      then show ?thesis using None by (simp add: find_None_iff)
    next
      case (Some q)
      then obtain r where r: "find (\<lambda>p. pr_pid (k_procs s p) = i) (hs (pid_hashfn i)) = Some r"
        using hs(2) by (cases "find (\<lambda>p. pr_pid (k_procs s p) = i) (hs (pid_hashfn i))") (auto simp: find_None_iff)
      then have "r \<in> set (hs (pid_hashfn i)) \<and> pr_pid (k_procs s r) = i"
        by (auto simp: find_Some_iff)
      with hs(2) r show ?thesis by metis
    qed
    then show ?thesis using find_proc_eq [OF hs(1) a(2,3)] by simp
  qed
  show "hash_inv (hash_proc p s) (m(pr_pid (k_procs s p) \<mapsto> p)) \<and>
      (\<lambda>q. pr_pid (k_procs (hash_proc p s) q)) = (\<lambda>q. pr_pid (k_procs s q))"
    if a: "hash_inv s m" "p \<notin> ran m" "m (pr_pid (k_procs s p)) = None"
  proof -
    obtain hs where hs: "hash_lists s hs"
        "\<forall>i p. m i = Some p \<longleftrightarrow> p \<in> set (hs (pid_hashfn i)) \<and> pr_pid (k_procs s p) = i"
      using a(1) unfolding hash_inv_def by blast
    have "\<forall>b < 2 ^ HASH_SHIFT. p \<notin> set (hs b)"
    proof (intro allI impI notI)
      fix b assume b: "b < 2 ^ HASH_SHIFT" "p \<in> set (hs b)"
      with hash_lists_other_bucket [OF hs(1)] have "p \<in> set (hs (pid_hashfn (pr_pid (k_procs s p))))" by metis
      with hs(2) have "m (pr_pid (k_procs s p)) = Some p" by blast
      with a(3) show False by simp
    qed
    note hl = hash_proc_lists [OF hs(1) this]
    let ?i = "pr_pid (k_procs s p)"
    let ?hs = "\<lambda>b. if b = pid_hashfn ?i then p # hs b else hs b"
    have "(m(?i \<mapsto> p)) j = Some q \<longleftrightarrow> q \<in> set (?hs (pid_hashfn j)) \<and> pr_pid (k_procs s q) = j" for j q
    proof (cases "j = ?i")
      case True
      have "\<not> (q \<in> set (hs (pid_hashfn ?i)) \<and> pr_pid (k_procs s q) = ?i)" using hs(2) a(3) by (metis option.distinct(1))
      with True show ?thesis by auto
    next
      case False
      then have "q \<in> set (?hs (pid_hashfn j)) \<and> pr_pid (k_procs s q) = j \<longleftrightarrow>
          q \<in> set (hs (pid_hashfn j)) \<and> pr_pid (k_procs s q) = j" by auto
      with False hs(2) show ?thesis by simp
    qed
    moreover have "k_procs (hash_proc p s) = k_procs s" by (simp add: hash_proc_def)
    ultimately show ?thesis using hl unfolding hash_inv_def by auto
  qed
  show "hash_inv (unhash_proc p s) (m(i := None))" if a: "hash_inv s m" "m i = Some p"
  proof -
    obtain hs where hs: "hash_lists s hs"
        "\<forall>i p. m i = Some p \<longleftrightarrow> p \<in> set (hs (pid_hashfn i)) \<and> pr_pid (k_procs s p) = i"
      using a(1) unfolding hash_inv_def by blast
    have pin: "p \<in> set (hs (pid_hashfn i))" "pr_pid (k_procs s p) = i" using hs(2) a(2) by auto
    have "ring (k_links s) (HashList (pid_hashfn i)) (map HashLink (hs (pid_hashfn i)))"
      using hs(1) pid_hashfn_lt by (simp add: hash_lists_def)
    from ring_distinct [OF this] have "distinct (hs (pid_hashfn i))" by (simp add: distinct_map)
    then have rem: "set (remove1 p (hs (pid_hashfn i))) = set (hs (pid_hashfn i)) - {p}" by simp
    let ?hs = "hs(pid_hashfn i := remove1 p (hs (pid_hashfn i)))"
    have uq: "q \<in> set (hs (pid_hashfn i)) \<Longrightarrow> pr_pid (k_procs s q) = i \<Longrightarrow> q = p" for q
      using hs(2) a(2) by (metis option.inject)
    have "(m(i := None)) j = Some q \<longleftrightarrow> q \<in> set (?hs (pid_hashfn j)) \<and> pr_pid (k_procs s q) = j" for j q
    proof (cases "j = i")
      case True
      then show ?thesis using rem uq by auto
    next
      case False
      then have "q \<in> set (?hs (pid_hashfn j)) \<and> pr_pid (k_procs s q) = j \<longleftrightarrow>
          q \<in> set (hs (pid_hashfn j)) \<and> pr_pid (k_procs s q) = j"
        using rem pin(2) by auto
      with False hs(2) show ?thesis by simp
    qed
    moreover have "k_procs (unhash_proc p s) = k_procs s" by (simp add: unhash_proc_def)
    ultimately show ?thesis
      using unhash_proc_lists [OF hs(1) pin(1) pid_hashfn_lt] unfolding hash_inv_def by auto
  qed
qed

section \<open>Properties\<close>

text \<open>C22. \<^verbatim>\<open>get_pid\<close> always returns, and gives an identifier in range that no process of the list has, as
  long as there are fewer processes than identifiers; the window it keeps stays valid.\<close>

theorem get_pid_fresh:
  assumes "proc_list_inv s ps" "pid_window (k_last_pid s) (k_next_safe s) (pids s ps)" "length ps < nat (MAX_PID - 1)"
  shows "\<exists>pid s'. get_pid s = Some (pid, s') \<and> 1 \<le> pid \<and> pid < MAX_PID \<and> pid \<notin> pids s ps \<and>
    pid_window (k_last_pid s') (k_next_safe s') (insert pid (pids s ps)) \<and>
    k_links s' = k_links s \<and> k_procs s' = k_procs s"
  by (rule get_pid_spec [OF assms])

theorem get_pid_fresh_witness: "\<exists>pid s'. get_pid example_kstate = Some (pid, s') \<and> 1 \<le> pid \<and> pid < 8192"
  using get_pid_fresh [of example_kstate "[]"] example_kstate_links(4)
  by (auto simp: proc_list_inv_def pid_window_def pids_def)

text \<open>The family links: \<^verbatim>\<open>set_links\<close> makes a process the youngest child of its parent, and
  \<^verbatim>\<open>remove_links\<close> takes it out of the chain of siblings wherever it stands; the count of processes
  follows.\<close>

theorem family_links:
  assumes "children s q cs" "pr_parent (k_procs s p) = Some q" "p \<notin> set cs" "p \<noteq> q" "q \<notin> set cs"
  shows "\<exists>s'. set_links p s = Some s' \<and> children s' q (p # cs) \<and> k_nr_process s' = k_nr_process s + 1 \<and>
    (\<exists>s''. remove_links p s' = Some s'' \<and> children s'' q cs \<and> k_nr_process s'' = k_nr_process s)"
proof -
  obtain s' where s': "set_links p s = Some s'" "children s' q (p # cs)" "k_nr_process s' = k_nr_process s + 1"
    using set_links_children [OF assms] by blast
  have "children s' q ([] @ p # cs)" "q \<notin> set ([] @ p # cs)" using s'(2) assms(4,5) by simp_all
  from remove_links_children [OF this] obtain s'' where
    "remove_links p s' = Some s''" "children s'' q cs" "k_nr_process s'' = k_nr_process s' - 1" by auto
  with s' show ?thesis by auto
qed

definition example_family :: kstate where
  "example_family = upd_proc 4 (pr_parent_update (\<lambda>_. Some 1)) example_kstate"

theorem family_links_witness: "\<exists>s'. set_links 4 example_family = Some s' \<and> children s' 1 [4]"
  using family_links [of example_family 1 "[]" 4] by (auto simp: example_family_def children_def)

text \<open>The hash table of processes is a map from identifiers: after a process with a new identifier is
  entered, its identifier finds it and every other identifier finds what it found before; removing
  it again restores the table.\<close>

theorem pid_table_lookup:
  assumes "hash_inv s m" "p \<notin> ran m" "m (pr_pid (k_procs s p)) = None" "0 < i" "i < MAX_PID"
  shows "find_proc i (hash_proc p s) = (if i = pr_pid (k_procs s p) then Some (Some p) else find_proc i s) \<and>
    hash_inv (unhash_proc p (hash_proc p s)) m"
  using pidtab.insert_then_lookup [OF assms] pidtab.insert_remove [OF assms(1-3)] by blast

theorem pid_table_lookup_witness: "find_proc 4 (hash_proc 4 example_kstate) = Some (Some 4)"
proof -
  have "hash_lists example_kstate (\<lambda>_. [])" using example_kstate_links(5) by (simp add: hash_lists_def)
  then have "hash_inv example_kstate (\<lambda>_. None)" unfolding hash_inv_def by (intro exI [of _ "\<lambda>_. []"]) simp
  from pid_table_lookup [OF this, of 4 4] show ?thesis by simp
qed

end
