(* ===== verification/Mmu.thy ===== *)
theory Mmu
  imports DefaultPmm
begin

text \<open>
  The memory-management state and the address arithmetic of \<^verbatim>\<open>kern/mm/mmu.h\<close>, \<^verbatim>\<open>memlayout.h\<close>,
  \<^verbatim>\<open>pmm.h\<close> and \<^verbatim>\<open>tlb.h\<close>. Page tables are read and written as words of the kernel's view of
  physical memory (\<open>v_words\<close>, indexed by kernel virtual address; kseg0 maps it one to one). The
  TLB is the array of 16 entries that \<^verbatim>\<open>tlbwi\<close> writes. A \<open>struct Page *\<close>, \<open>mm_struct *\<close> or
  \<open>vma_struct *\<close> is a number. \<open>None\<close> is a panic, a failed assertion or a NULL dereference.
\<close>

unbundle bit_operations_syntax

section \<open>Constants and address arithmetic\<close>

definition PGSIZE :: u32 where "PGSIZE = 4096"
definition PTSIZE :: u32 where "PTSIZE = 4194304"
definition KERNBASE :: u32 where "KERNBASE = 0x80000000"
definition KMEMSIZE :: u32 where "KMEMSIZE = 0x00800000"
definition KERNTOP :: u32 where "KERNTOP = KERNBASE + KMEMSIZE"
definition VPT :: u32 where "VPT = 0xFAC00000"
definition USERTOP :: u32 where "USERTOP = 0x80000000"
definition USERBASE :: u32 where "USERBASE = 0x00200000"

definition USER_ACCESS :: "u32 \<Rightarrow> u32 \<Rightarrow> bool" where
  "USER_ACCESS start end \<longleftrightarrow> USERBASE \<le> start \<and> start < end \<and> end \<le> USERTOP"

definition KERN_ACCESS :: "u32 \<Rightarrow> u32 \<Rightarrow> bool" where
  "KERN_ACCESS start end \<longleftrightarrow> KERNBASE \<le> start \<and> start < end \<and> end \<le> KERNTOP"

definition PDX :: "u32 \<Rightarrow> u32" where "PDX la = drop_bit 22 la AND 0x3FF"
definition PTX :: "u32 \<Rightarrow> u32" where "PTX la = drop_bit 12 la AND 0x3FF"
definition PPN :: "u32 \<Rightarrow> u32" where "PPN la = drop_bit 12 la"
definition PGOFF :: "u32 \<Rightarrow> u32" where "PGOFF la = la AND 0xFFF"
definition PGADDR :: "u32 \<Rightarrow> u32 \<Rightarrow> u32 \<Rightarrow> u32" where
  "PGADDR d t o' = push_bit 22 d OR push_bit 12 t OR o'"
definition PTE_ADDR :: "u32 \<Rightarrow> u32" where "PTE_ADDR pte = pte AND NOT 0xFFF"
definition PDE_ADDR :: "u32 \<Rightarrow> u32" where "PDE_ADDR pde = PTE_ADDR pde"

definition PTE_P :: u32 where "PTE_P = 1"
definition PTE_W :: u32 where "PTE_W = 2"
definition PTE_U :: u32 where "PTE_U = 4"
definition PTE_USER :: u32 where "PTE_USER = PTE_U OR PTE_W OR PTE_P"

definition TLBN :: nat where "TLBN = 16"
definition TLB_P :: u32 where "TLB_P = 0x80"
definition TLBIDX :: "u32 \<Rightarrow> u32" where "TLBIDX pte = drop_bit 8 pte AND 0xf"
definition TLBPAIR :: "u32 \<Rightarrow> u32" where "TLBPAIR la = la XOR 0x1000"
definition TLBLO :: "u32 \<Rightarrow> u32" where "TLBLO la = PPN la AND 1"
definition ENTRYLO :: "u32 \<Rightarrow> u32" where
  "ENTRYLO pte = push_bit 6 (PPN pte) OR push_bit 3 2 OR push_bit 2 (drop_bit 1 pte AND 1) OR 3"
definition ENTRYLO_INVALID :: u32 where "ENTRYLO_INVALID = 0"
definition ENTRYHI_INVALID :: u32 where "ENTRYHI_INVALID = 0x80000000"

section \<open>State\<close>

datatype vlink = MmapList nat | VmaLink nat

datatype pralink = PraHead | PraLink nat

record vma_struct =
  vm_mm :: "nat option"
  vm_start :: u32
  vm_end :: u32
  vm_flags :: u32

text \<open>\<open>sm_priv\<close> is NULL or points to the one list head \<open>pra_list_head\<close>: \<open>mm_sm_priv\<close> says which. The
  semaphore \<open>mm_sem\<close> is one of the kernel state, named by its address in the structure.\<close>

record mm_struct =
  mmap_cache :: "nat option"
  mm_pgdir :: u32
  map_count :: int
  mm_sm_priv :: bool
  mm_count :: int
  locked_by :: int

record tlb_entry =
  te_hi :: u32
  te_lo0 :: u32
  te_lo1 :: u32

record vmstate =
  v_pmm :: pmm
  v_npage :: u32
  v_words :: "u32 \<Rightarrow> u32"
  v_tlb :: "nat \<Rightarrow> tlb_entry"
  v_cur_pgdir :: u32
  v_algo_empty :: "u8 list"
  v_algo_n :: u8
  v_algo_hi :: "u32 list"
  v_algo_ptr :: u8
  v_swap_init_ok :: bool
  v_pra_links :: "pralink lheap"
  v_pra_vaddr :: "nat \<Rightarrow> u32"
  v_clean_block :: u32
  v_check_mm :: "nat option"
  v_mms :: "nat \<Rightarrow> mm_struct"
  v_vmas :: "nat \<Rightarrow> vma_struct"
  v_vlinks :: "vlink lheap"
  v_pgfault_num :: u32
  v_slobfree :: u32
  v_bigblocks :: u32
  v_boot_pgdir :: u32

definition store_word :: "u32 \<Rightarrow> u32 \<Rightarrow> vmstate \<Rightarrow> vmstate" where
  "store_word a w v = v\<lparr>v_words := (v_words v)(a := w)\<rparr>"

definition upd_pmm :: "(pmm \<Rightarrow> pmm) \<Rightarrow> vmstate \<Rightarrow> vmstate" where
  "upd_pmm f v = v\<lparr>v_pmm := f (v_pmm v)\<rparr>"

definition upd_mm :: "nat \<Rightarrow> (mm_struct \<Rightarrow> mm_struct) \<Rightarrow> vmstate \<Rightarrow> vmstate" where
  "upd_mm m f v = v\<lparr>v_mms := (v_mms v)(m := f (v_mms v m))\<rparr>"

text \<open>A whole page of words: cleared (\<open>memset\<close>) or copied (\<open>memcpy\<close>), at page-aligned addresses.\<close>

definition in_page :: "u32 \<Rightarrow> u32 \<Rightarrow> bool" where
  "in_page kva a \<longleftrightarrow> a - kva < PGSIZE"

definition clear_page :: "u32 \<Rightarrow> vmstate \<Rightarrow> vmstate" where
  "clear_page kva v = v\<lparr>v_words := (\<lambda>a. if in_page kva a then 0 else v_words v a)\<rparr>"

definition copy_page :: "u32 \<Rightarrow> u32 \<Rightarrow> vmstate \<Rightarrow> vmstate" where
  "copy_page dst src v = v\<lparr>v_words := (\<lambda>a. if in_page dst a then v_words v (src + (a - dst)) else v_words v a)\<rparr>"

section \<open>Pages and addresses (pmm.h)\<close>

definition PADDR :: "u32 \<Rightarrow> u32 option" where
  "PADDR kva = (if kva < KERNBASE then None else Some (kva - KERNBASE))"

definition KADDR :: "vmstate \<Rightarrow> u32 \<Rightarrow> u32 option" where
  "KADDR v pa = (if PPN pa \<ge> v_npage v then None else Some (pa + KERNBASE))"

definition page2ppn :: "nat \<Rightarrow> u32" where "page2ppn p = of_nat p"
definition page2pa :: "nat \<Rightarrow> u32" where "page2pa p = push_bit 12 (page2ppn p)"

definition pa2page :: "vmstate \<Rightarrow> u32 \<Rightarrow> nat option" where
  "pa2page v pa = (if PPN pa \<ge> v_npage v then None else Some (unat (PPN pa)))"

definition page2kva :: "vmstate \<Rightarrow> nat \<Rightarrow> u32 option" where
  "page2kva v p = KADDR v (page2pa p)"

definition kva2page :: "vmstate \<Rightarrow> u32 \<Rightarrow> nat option" where
  "kva2page v kva = do { pa \<leftarrow> PADDR kva; pa2page v pa }"

definition pte2page :: "vmstate \<Rightarrow> u32 \<Rightarrow> nat option" where
  "pte2page v pte = (if pte AND PTE_P = 0 then None else pa2page v (PTE_ADDR pte))"

definition pde2page :: "vmstate \<Rightarrow> u32 \<Rightarrow> nat option" where
  "pde2page v pde = pa2page v (PDE_ADDR pde)"

definition page_ref :: "vmstate \<Rightarrow> nat \<Rightarrow> int" where
  "page_ref v p = pg_ref (pm_pages (v_pmm v) p)"

definition page_ref_inc :: "nat \<Rightarrow> vmstate \<Rightarrow> vmstate" where
  "page_ref_inc p = upd_pmm (upd_page p (pg_ref_update (\<lambda>r. r + 1)))"

definition page_ref_dec :: "nat \<Rightarrow> vmstate \<Rightarrow> vmstate" where
  "page_ref_dec p = upd_pmm (upd_page p (pg_ref_update (\<lambda>r. r - 1)))"

section \<open>Walking a page table\<close>

text \<open>\<open>get_pte\<close> with \<open>create = 0\<close>: it changes nothing. The address of entry \<open>la\<close> of the page table at
  physical address \<open>pde AND 0xfffff000\<close>.\<close>

definition pte_at :: "vmstate \<Rightarrow> u32 \<Rightarrow> u32 \<Rightarrow> u32 option" where
  "pte_at v pde la = do {
     pt \<leftarrow> KADDR v (pde AND 0xfffff000);
     Some (pt + 4 * drop_bit 12 (la AND 0x003ff000)) }"

definition pde_addr :: "u32 \<Rightarrow> u32 \<Rightarrow> u32" where
  "pde_addr pgdir la = pgdir + 4 * PDX la"

definition find_pte :: "vmstate \<Rightarrow> u32 \<Rightarrow> u32 \<Rightarrow> u32 option option" where
  "find_pte v pgdir la =
     (let pde = v_words v (pde_addr pgdir la)
      in if pde AND PTE_P = 0 then Some None else map_option Some (pte_at v pde la))"

section \<open>Arithmetic of pages\<close>

lemma PGSIZE_pos [simp]: "PGSIZE \<noteq> 0" "unat PGSIZE = 4096" "unat PTSIZE = 4194304"
  by (simp_all add: PGSIZE_def PTSIZE_def)

lemma PPN_lt: "unat (PPN a) < 2 ^ 20"
proof -
  have "unat (PPN a) = unat a div 2 ^ 12" by (simp add: PPN_def unat_drop)
  moreover have "unat a < 2 ^ 32" using unat_lt_u32 [of a] by simp
  ultimately show ?thesis by (simp add: less_mult_imp_div_less)
qed

lemma page2pa_PPN: "p < 2 ^ 20 \<Longrightarrow> PPN (page2pa p) = of_nat p"
proof (rule bit_word_eqI)
  fix n assume p: "p < 2 ^ 20" and n: "n < LENGTH(32)"
  show "bit (PPN (page2pa p)) n = bit (of_nat p :: u32) n"
  proof (cases "n < 20")
    case True
    then show ?thesis by (simp add: PPN_def page2pa_def page2ppn_def bit_simps)
  next
    case False
    have "\<not> bit p n"
    proof -
      have "p < 2 ^ n" using p False power_increasing [of 20 n "2::nat"] by linarith
      then show ?thesis by (simp add: bit_iff_odd)
    qed
    then show ?thesis using False n by (simp add: PPN_def page2pa_def page2ppn_def bit_simps)
  qed
qed

lemma pa2page_page2pa: "p < 2 ^ 20 \<Longrightarrow> p < unat (v_npage v) \<Longrightarrow> pa2page v (page2pa p) = Some p"
  by (simp add: pa2page_def page2pa_PPN word_le_nat_alt unat_of_nat_small del: of_nat_unat)

lemma mask_consts:
  "(0xFFF :: u32) = mask 12" "(0x3FF :: u32) = mask 10" "(0xf :: u32) = mask 4"
  by (simp_all add: mask_eq_exp_minus_1)

lemma page_flags_low: "page2pa p AND 0xFFF = 0"
  by (rule bit_word_eqI) (simp add: mask_consts page2pa_def bit_simps)

lemma page_bits_high: "n < 12 \<Longrightarrow> \<not> bit (page2pa p) n"
  by (simp add: page2pa_def bit_simps)

text \<open>Flag bits below bit 12 do not disturb the frame number of an entry.\<close>

lemma PPN_or_flags: "f AND 0xFFF = f \<Longrightarrow> PPN (page2pa p OR f) = PPN (page2pa p)"
proof (rule bit_word_eqI)
  fix n assume f: "f AND 0xFFF = f" and n: "n < LENGTH(32)"
  have "\<not> bit (f AND mask 12) (n + 12)" by (simp add: bit_simps)
  then have "\<not> bit f (n + 12)" using f by (simp add: mask_consts)
  then show "bit (PPN (page2pa p OR f)) n = bit (PPN (page2pa p)) n"
    by (simp add: PPN_def bit_simps add.commute)
qed

lemma PPN_PTE_ADDR: "PPN (PTE_ADDR a) = PPN a"
proof (rule bit_word_eqI)
  fix n assume n: "n < LENGTH(32)"
  show "bit (PPN (PTE_ADDR a)) n = bit (PPN a) n"
    by (auto simp: PPN_def PTE_ADDR_def mask_consts bit_simps dest: bit_imp_le_length)
qed

lemma pte2page_entry:
  assumes "p < 2 ^ 20" "p < unat (v_npage v)" "f AND 0xFFF = f" "f AND PTE_P \<noteq> 0"
  shows "pte2page v (page2pa p OR f) = Some p"
proof -
  have "(page2pa p OR f) AND PTE_P = (page2pa p AND PTE_P) OR (f AND PTE_P)"
    by (simp add: bit.conj_disj_distrib2)
  moreover have "page2pa p AND PTE_P = 0"
    by (rule bit_word_eqI) (auto simp: PTE_P_def page2pa_def bit_simps)
  ultimately have "(page2pa p OR f) AND PTE_P \<noteq> 0" using assms(4) by simp
  moreover have "pa2page v (PTE_ADDR (page2pa p OR f)) = pa2page v (page2pa p)"
    by (simp add: pa2page_def PPN_PTE_ADDR PPN_or_flags [OF assms(3)])
  ultimately show ?thesis
    using pa2page_page2pa [OF assms(1,2)] by (simp add: pte2page_def)
qed

end
