(* ===== verification/Tlb.thy ===== *)
theory Tlb
  imports Mmu
begin

text \<open>
  \<^verbatim>\<open>kern/mm/tlb.c\<close>: the software-managed TLB. A page-table entry records in bit 7 (\<open>TLB_P\<close>) that it
  is in the TLB and in bits 8..11 the slot; a slot holds the two pages of a pair. The invariant
  \<open>tlb_inv\<close> says that the flags and the slots agree for the page directory in use; the refill and
  the invalidation keep it, and a refilled address is then translated as its entry says.
\<close>

unbundle bit_operations_syntax

section \<open>The operations\<close>

definition tlb_write :: "u8 \<Rightarrow> u32 \<Rightarrow> u32 \<Rightarrow> u32 \<Rightarrow> vmstate \<Rightarrow> vmstate" where
  "tlb_write idx hi lo0 lo1 v =
     v\<lparr>v_tlb := (v_tlb v)(unat idx := \<lparr>te_hi = hi, te_lo0 = lo0, te_lo1 = lo1\<rparr>)\<rparr>"

definition tlb_init_callback :: "vmstate \<Rightarrow> vmstate" where
  "tlb_init_callback v = v\<lparr>v_algo_empty := map of_nat [0 ..< TLBN], v_algo_n := of_nat TLBN\<rparr>"

definition tlb_init :: "vmstate \<Rightarrow> vmstate" where
  "tlb_init v = tlb_init_callback
     (fold (\<lambda>i. tlb_write (of_nat i) ENTRYHI_INVALID ENTRYLO_INVALID ENTRYLO_INVALID) [0 ..< TLBN] v)"

definition load_pgdir :: "u32 \<Rightarrow> vmstate \<Rightarrow> vmstate" where
  "load_pgdir pgdir v = tlb_init (v\<lparr>v_cur_pgdir := pgdir\<rparr>)"

text \<open>\<open>if (ptep != NULL) *ptep &= ~TLB_P\<close> in \<open>tlb_get_empty\<close>.\<close>

definition clear_tlb_p :: "u32 \<Rightarrow> vmstate \<Rightarrow> vmstate option" where
  "clear_tlb_p la v = do {
     ptep \<leftarrow> find_pte v (v_cur_pgdir v) la;
     Some (case ptep of None \<Rightarrow> v | Some a \<Rightarrow> store_word a (v_words v a AND NOT TLB_P) v) }"

text \<open>The arrays have \<open>TLBN\<close> entries; an access beyond them has no defined result.\<close>

definition tlb_get_empty :: "u32 \<Rightarrow> vmstate \<Rightarrow> (u8 \<times> vmstate) option" where
  "tlb_get_empty hi v = do {
     (idx, v) \<leftarrow>
       (if v_algo_n v > 0 then do {
          let n = v_algo_n v - 1;
          kassert (unat n < TLBN);
          Some (v_algo_empty v ! unat n, v\<lparr>v_algo_n := n\<rparr>) }
        else do {
          let idx = v_algo_ptr v;
          kassert (unat idx < TLBN);
          let v = v\<lparr>v_algo_ptr := (v_algo_ptr v + 1) mod of_nat TLBN\<rparr>;
          let hi0 = v_algo_hi v ! unat idx;
          v \<leftarrow> clear_tlb_p hi0 v;
          v \<leftarrow> clear_tlb_p (TLBPAIR hi0) v;
          Some (idx, v) });
     Some (idx, v\<lparr>v_algo_hi := (v_algo_hi v)[unat idx := hi]\<rparr>) }"

definition tlb_del_callback :: "u8 \<Rightarrow> vmstate \<Rightarrow> vmstate option" where
  "tlb_del_callback idx v = do {
     kassert (unat (v_algo_n v) < TLBN);
     Some (v\<lparr>v_algo_empty := (v_algo_empty v)[unat (v_algo_n v) := idx], v_algo_n := v_algo_n v + 1\<rparr>) }"

text \<open>The array \<open>lo[2]\<close> with entry \<open>TLBLO(la)\<close> set to \<open>x\<close> and the other one to \<open>y\<close>.\<close>

definition lo_pair :: "u32 \<Rightarrow> u32 \<Rightarrow> u32 \<Rightarrow> u32 \<times> u32" where
  "lo_pair la x y = (if TLBLO la = 0 then (x, y) else (y, x))"

definition tlb_invalidate :: "u32 \<Rightarrow> u32 \<Rightarrow> vmstate \<Rightarrow> vmstate option" where
  "tlb_invalidate pgdir la v =
     (if pgdir \<noteq> v_cur_pgdir v then Some v
      else do {
        ptep \<leftarrow> find_pte v pgdir la;
        (case ptep of
           None \<Rightarrow> Some v
         | Some a \<Rightarrow>
             if v_words v a AND TLB_P = 0 then Some v
             else do {
               let idx = (ucast (TLBIDX (v_words v a)) :: u8);
               ptep2 \<leftarrow> find_pte v pgdir (TLBPAIR la);
               (lo, hi, v) \<leftarrow>
                 (case ptep2 of
                    Some b \<Rightarrow>
                      if v_words v b AND TLB_P \<noteq> 0
                      then Some (ENTRYLO (v_words v b), la AND 0xffffe000, v)
                      else map_option (\<lambda>v. (ENTRYLO_INVALID, ENTRYHI_INVALID, v)) (tlb_del_callback idx v)
                  | None \<Rightarrow> map_option (\<lambda>v. (ENTRYLO_INVALID, ENTRYHI_INVALID, v)) (tlb_del_callback idx v));
               let (lo0, lo1) = lo_pair la ENTRYLO_INVALID lo;
               let v = tlb_write idx hi lo0 lo1 v;
               Some (store_word a (v_words v a AND NOT TLB_P) v) }) })"

text \<open>The end of \<open>tlb_miss_handler\<close>, once the entry at \<open>a\<close> is there.\<close>

definition tlb_refill :: "u32 \<Rightarrow> u32 \<Rightarrow> vmstate \<Rightarrow> vmstate option" where
  "tlb_refill la a v = do {
     ptep2 \<leftarrow> find_pte v (v_cur_pgdir v) (TLBPAIR la);
     let mine = ENTRYLO (v_words v a);
     (other, idx, v) \<leftarrow>
       (case ptep2 of
          Some b \<Rightarrow>
            if v_words v b AND TLB_P \<noteq> 0
            then Some (ENTRYLO (v_words v b), (ucast (TLBIDX (v_words v b)) :: u8), v)
            else map_option (\<lambda>(idx, v). (ENTRYLO_INVALID, idx, v)) (tlb_get_empty (la AND 0xffffe000) v)
        | None \<Rightarrow> map_option (\<lambda>(idx, v). (ENTRYLO_INVALID, idx, v)) (tlb_get_empty (la AND 0xffffe000) v));
     let (lo0, lo1) = lo_pair la mine other;
     let v = tlb_write idx (la AND 0xffffe000) lo0 lo1 v;
     Some (store_word a ((v_words v a AND 0xfffff0ff) OR push_bit 8 (ucast idx) OR TLB_P) v) }"

section \<open>Bits of an entry\<close>

lemma tlb_bits:
  "TLB_P = bit_mask 7" "(0xfffff0ff :: u32) = NOT (push_bit 8 (mask 4))" "(0xffffe000 :: u32) = NOT (mask 13)"
  "(0x1000 :: u32) = bit_mask 12"
  by (simp_all add: TLB_P_def bit_mask_def mask_eq_exp_minus_1)

lemma tlb_p_bit: "w AND TLB_P = 0 \<longleftrightarrow> \<not> bit w 7"
  by (simp add: tlb_bits and_bit_mask_eq_0)

lemma ENTRYLO_cong:
  assumes "\<And>n. n = 1 \<or> 12 \<le> n \<Longrightarrow> n < 32 \<Longrightarrow> bit w n = bit w' n"
  shows "ENTRYLO w = ENTRYLO w'"
proof -
  have "PPN w = PPN w'"
  proof (rule bit_word_eqI)
    fix n show "bit (PPN w) n = bit (PPN w') n"
      using assms [of "12 + n"] bit_imp_le_length [of w "12 + n"] bit_imp_le_length [of w' "12 + n"]
      by (cases "12 + n < 32") (auto simp: PPN_def bit_simps)
  qed
  moreover have "drop_bit 1 w AND 1 = drop_bit 1 w' AND (1 :: u32)"
    by (rule bit_word_eqI) (auto simp: bit_simps assms)
  ultimately show ?thesis by (simp add: ENTRYLO_def)
qed

lemma TLBIDX_cong:
  "(\<And>n. 8 \<le> n \<Longrightarrow> n < 12 \<Longrightarrow> bit w n = bit w' n) \<Longrightarrow> TLBIDX w = TLBIDX w'"
  by (rule bit_word_eqI) (auto simp: TLBIDX_def mask_consts bit_simps)

lemma TLBIDX_lt: "unat (TLBIDX w) < 16"
proof -
  have "TLBIDX w < 2 ^ 4"
    unfolding TLBIDX_def mask_consts by (rule and_mask_less') simp
  then show ?thesis by (simp add: word_less_nat_alt)
qed

lemma ucast_TLBIDX: "unat (ucast (TLBIDX w) :: u8) = unat (TLBIDX w)"
  using TLBIDX_lt [of w] by (simp add: unat_ucast_mod del: of_nat_unat)

definition tlb_tag :: "u32 \<Rightarrow> u8 \<Rightarrow> u32" where
  "tlb_tag w idx = (w AND 0xfffff0ff) OR push_bit 8 (ucast idx) OR TLB_P"

lemma bit_tlb_tag:
  "n < 32 \<Longrightarrow> bit (tlb_tag w idx) n =
     (n = 7 \<or> (if 8 \<le> n \<and> n < 12 then bit idx (n - 8) else bit w n \<or> (12 \<le> n \<and> bit idx (n - 8))))"
  by (auto simp: tlb_tag_def tlb_bits bit_simps bit_bit_mask dest: bit_imp_le_length)

lemma small_idx_bit: "unat (idx :: u8) < 16 \<Longrightarrow> 4 \<le> n \<Longrightarrow> \<not> bit idx n"
proof
  assume i: "unat idx < 16" and n: "4 \<le> n" and b: "bit idx n"
  have "bit (unat idx) n" using b by (simp add: bit_unsigned_iff)
  moreover have "(2::nat) ^ 4 \<le> 2 ^ n" using n by (rule power_increasing) simp
  then have "unat idx < 2 ^ n" using i by (simp del: of_nat_unat)
  ultimately show False by (simp add: bit_iff_odd)
qed

lemma tlb_tag_facts:
  assumes "unat idx < 16"
  shows "bit (tlb_tag w idx) 7" "ENTRYLO (tlb_tag w idx) = ENTRYLO w" "TLBIDX (tlb_tag w idx) = ucast idx"
    "tlb_tag w idx AND PTE_P = w AND PTE_P"
proof -
  show "bit (tlb_tag w idx) 7" by (simp add: bit_tlb_tag)
  show "ENTRYLO (tlb_tag w idx) = ENTRYLO w"
    using small_idx_bit [OF assms] by (intro ENTRYLO_cong) (auto simp: bit_tlb_tag)
  show "TLBIDX (tlb_tag w idx) = ucast idx"
  proof (rule bit_word_eqI)
    fix n assume "n < LENGTH(32)"
    then show "bit (TLBIDX (tlb_tag w idx)) n = bit (ucast idx :: u32) n"
      using small_idx_bit [OF assms, of n] by (cases "n < 4") (auto simp: TLBIDX_def mask_consts bit_simps bit_tlb_tag)
  qed
  show "tlb_tag w idx AND PTE_P = w AND PTE_P"
    by (rule bit_word_eqI) (auto simp: PTE_P_def bit_simps bit_tlb_tag)
qed

lemma clear_tlb_p_facts:
  "\<not> bit (w AND NOT TLB_P) 7" "ENTRYLO (w AND NOT TLB_P) = ENTRYLO w" "TLBIDX (w AND NOT TLB_P) = TLBIDX w"
  "(w AND NOT TLB_P) AND PTE_P = w AND PTE_P"
proof -
  have b: "bit (w AND NOT TLB_P) n = (bit w n \<and> n \<noteq> 7)" for n
    by (auto simp: tlb_bits bit_simps bit_bit_mask dest: bit_imp_le_length)
  show "\<not> bit (w AND NOT TLB_P) 7" by (simp add: b)
  show "ENTRYLO (w AND NOT TLB_P) = ENTRYLO w" by (rule ENTRYLO_cong) (auto simp: b)
  show "TLBIDX (w AND NOT TLB_P) = TLBIDX w" by (rule TLBIDX_cong) (auto simp: b)
  show "(w AND NOT TLB_P) AND PTE_P = w AND PTE_P"
    by (rule bit_word_eqI) (auto simp: PTE_P_def TLB_P_def bit_simps)
qed

section \<open>Pairs of pages\<close>

definition VPN2 :: "u32 \<Rightarrow> u32" where "VPN2 la = la AND 0xffffe000"

definition tlb_half :: "tlb_entry \<Rightarrow> u32 \<Rightarrow> u32" where
  "tlb_half t la = (if TLBLO la = 0 then te_lo0 t else te_lo1 t)"

lemma bit_PPN: "bit (PPN la) n = bit la (n + 12)"
  by (simp add: PPN_def bit_simps add.commute)

lemma PPN_eq_iff: "PPN a = PPN b \<longleftrightarrow> (\<forall>n \<ge> 12. bit a n = bit b n)"
proof
  assume "PPN a = PPN b"
  then have "bit a (m + 12) = bit b (m + 12)" for m using bit_PPN by metis
  then show "\<forall>n \<ge> 12. bit a n = bit b n" by (metis add.commute le_add_diff_inverse)
next
  assume "\<forall>n \<ge> 12. bit a n = bit b n"
  then show "PPN a = PPN b" by (intro bit_word_eqI) (simp add: bit_PPN)
qed

lemma VPN2_eq_iff: "VPN2 a = VPN2 b \<longleftrightarrow> (\<forall>n \<ge> 13. bit a n = bit b n)"
proof
  assume e: "VPN2 a = VPN2 b"
  show "\<forall>n \<ge> 13. bit a n = bit b n"
  proof (intro allI impI)
    fix n :: nat assume "13 \<le> n"
    moreover have "bit (VPN2 a) n = bit (VPN2 b) n" using e by simp
    ultimately show "bit a n = bit b n"
      by (cases "n < 32") (auto simp: VPN2_def tlb_bits bit_simps dest: bit_imp_le_length)
  qed
next
  assume "\<forall>n \<ge> 13. bit a n = bit b n"
  then show "VPN2 a = VPN2 b"
    by (intro bit_word_eqI) (auto simp: VPN2_def tlb_bits bit_simps)
qed

lemma bit_TLBPAIR: "bit (TLBPAIR la) n = (bit la n \<noteq> (n = 12))"
  by (auto simp: TLBPAIR_def tlb_bits bit_simps bit_bit_mask dest: bit_imp_le_length)

lemma TLBLO_eq: "TLBLO la = 0 \<longleftrightarrow> \<not> bit la 12"
proof -
  have "TLBLO la = PPN la AND bit_mask 0" by (simp add: TLBLO_def bit_mask_def)
  then show ?thesis by (simp add: and_bit_mask_eq_0 bit_PPN)
qed

lemma VPN2_split: "VPN2 a = VPN2 b \<longleftrightarrow> PPN a = PPN b \<or> PPN a = PPN (TLBPAIR b)"
proof -
  have le: "12 \<le> n \<longleftrightarrow> n = 12 \<or> 13 \<le> n" for n :: nat by auto
  have "(\<forall>n \<ge> 12. bit a n = P n) \<longleftrightarrow> bit a 12 = P 12 \<and> (\<forall>n \<ge> 13. bit a n = P n)" for P
    unfolding le by blast
  then show ?thesis by (auto simp: VPN2_eq_iff PPN_eq_iff bit_TLBPAIR)
qed

lemma pair_facts:
  "VPN2 (TLBPAIR la) = VPN2 la" "PPN (TLBPAIR la) \<noteq> PPN la" "TLBLO (TLBPAIR la) = 0 \<longleftrightarrow> TLBLO la \<noteq> 0"
  "PPN a = PPN b \<Longrightarrow> tlb_half t a = tlb_half t b" "PPN a = PPN b \<Longrightarrow> VPN2 a = VPN2 b"
  "TLBPAIR (TLBPAIR la) = la" "PPN (TLBPAIR a) = PPN (TLBPAIR b) \<longleftrightarrow> PPN a = PPN b"
  "VPN2 (VPN2 la) = VPN2 la"
proof -
  show "VPN2 (TLBPAIR la) = VPN2 la" by (simp add: VPN2_split)
  show "PPN (TLBPAIR la) \<noteq> PPN la" by (auto simp: PPN_eq_iff bit_TLBPAIR)
  show "TLBLO (TLBPAIR la) = 0 \<longleftrightarrow> TLBLO la \<noteq> 0" by (simp add: TLBLO_eq bit_TLBPAIR)
  show "PPN a = PPN b \<Longrightarrow> tlb_half t a = tlb_half t b" by (simp add: tlb_half_def TLBLO_def)
  show "PPN a = PPN b \<Longrightarrow> VPN2 a = VPN2 b" by (simp add: VPN2_split)
  show "TLBPAIR (TLBPAIR la) = la" by (rule bit_word_eqI) (auto simp: bit_TLBPAIR)
  show "PPN (TLBPAIR a) = PPN (TLBPAIR b) \<longleftrightarrow> PPN a = PPN b" by (auto simp: PPN_eq_iff bit_TLBPAIR)
  show "VPN2 (VPN2 la) = VPN2 la" by (simp add: VPN2_def and.assoc)
qed

section \<open>The invariant\<close>

text \<open>\<open>entry v la\<close>: the page-table entry of \<open>la\<close> in the directory in use.\<close>

definition entry :: "vmstate \<Rightarrow> u32 \<Rightarrow> u32 option" where
  "entry v la = (case find_pte v (v_cur_pgdir v) la of Some (Some a) \<Rightarrow> Some (v_words v a) | _ \<Rightarrow> None)"

text \<open>The page tables of the directory in use are where they should be: the walk never panics, the
  entries of different pages are different words, and none of them is a directory entry.\<close>

definition pt_ok :: "vmstate \<Rightarrow> bool" where
  "pt_ok v \<longleftrightarrow> (\<forall>la. find_pte v (v_cur_pgdir v) la \<noteq> None) \<and>
     (\<forall>la a. find_pte v (v_cur_pgdir v) la = Some (Some a) \<longrightarrow>
        (\<forall>la'. a \<noteq> pde_addr (v_cur_pgdir v) la') \<and>
        (\<forall>la'. find_pte v (v_cur_pgdir v) la' = Some (Some a) \<longrightarrow> PPN la = PPN la'))"

text \<open>The flags in the entries \<open>ent\<close>, the slots \<open>tlb\<close>, the pages \<open>hi\<close> that own them and the set \<open>E\<close>
  of unused slots agree; \<open>slots_ok i\<close> says so for all slots but \<open>i\<close>, which is being filled.\<close>

definition flags_ok :: "(u32 \<Rightarrow> u32 option) \<Rightarrow> (nat \<Rightarrow> tlb_entry) \<Rightarrow> u32 list \<Rightarrow> nat set \<Rightarrow> bool" where
  "flags_ok ent tlb hi E \<longleftrightarrow>
     (\<forall>la w. ent la = Some w \<and> bit w 7 \<longrightarrow>
        unat (TLBIDX w) \<notin> E \<and> hi ! unat (TLBIDX w) = VPN2 la \<and> te_hi (tlb (unat (TLBIDX w))) = VPN2 la \<and>
        tlb_half (tlb (unat (TLBIDX w))) la = ENTRYLO w \<and>
        (\<forall>w'. ent (TLBPAIR la) = Some w' \<and> bit w' 7 \<longrightarrow> TLBIDX w' = TLBIDX w))"

definition in_slot :: "(u32 \<Rightarrow> u32 option) \<Rightarrow> u32 \<Rightarrow> nat \<Rightarrow> bool" where
  "in_slot ent la i \<longleftrightarrow> (\<exists>w. ent la = Some w \<and> bit w 7 \<and> unat (TLBIDX w) = i)"

definition slot_ok :: "(u32 \<Rightarrow> u32 option) \<Rightarrow> (nat \<Rightarrow> tlb_entry) \<Rightarrow> nat set \<Rightarrow> nat \<Rightarrow> bool" where
  "slot_ok ent tlb E i \<longleftrightarrow>
     (\<forall>la. te_hi (tlb i) = VPN2 la \<and> tlb_half (tlb i) la \<noteq> ENTRYLO_INVALID \<longrightarrow> in_slot ent la i) \<and>
     (i \<notin> E \<longrightarrow> (\<exists>la. in_slot ent la i))"

definition empty_slots :: "vmstate \<Rightarrow> nat set" where
  "empty_slots v = unat ` set (take (unat (v_algo_n v)) (v_algo_empty v))"

definition tlb_arrays :: "vmstate \<Rightarrow> bool" where
  "tlb_arrays v \<longleftrightarrow> length (v_algo_empty v) = TLBN \<and> length (v_algo_hi v) = TLBN \<and> unat (v_algo_n v) \<le> TLBN \<and>
     distinct (take (unat (v_algo_n v)) (v_algo_empty v)) \<and> empty_slots v \<subseteq> {..< TLBN} \<and> unat (v_algo_ptr v) < TLBN"

definition tlb_inv :: "vmstate \<Rightarrow> bool" where
  "tlb_inv v \<longleftrightarrow> pt_ok v \<and> tlb_arrays v \<and> flags_ok (entry v) (v_tlb v) (v_algo_hi v) (empty_slots v) \<and>
     (\<forall>i < TLBN. slot_ok (entry v) (v_tlb v) (empty_slots v) i)"

text \<open>What the processor finds for \<open>la\<close>: the half of a slot with this pair of pages and the valid bit.\<close>

definition tlb_hit :: "vmstate \<Rightarrow> u32 \<Rightarrow> u32 \<Rightarrow> bool" where
  "tlb_hit v la lo \<longleftrightarrow> (\<exists>i < TLBN. te_hi (v_tlb v i) = VPN2 la \<and> tlb_half (v_tlb v i) la = lo \<and> lo AND 2 \<noteq> 0)"

subsection \<open>The flags under the changes of a slot\<close>

definition page_upd :: "u32 \<Rightarrow> u32 \<Rightarrow> (u32 \<Rightarrow> u32 option) \<Rightarrow> u32 \<Rightarrow> u32 option" where
  "page_upd la w ent = (\<lambda>la'. if PPN la' = PPN la then Some w else ent la')"

definition unflag_pair :: "u32 \<Rightarrow> (u32 \<Rightarrow> u32 option) \<Rightarrow> u32 \<Rightarrow> u32 option" where
  "unflag_pair h ent = (\<lambda>la. if VPN2 la = h then map_option (\<lambda>w. w AND NOT TLB_P) (ent la) else ent la)"

definition page_wise :: "(u32 \<Rightarrow> u32 option) \<Rightarrow> bool" where
  "page_wise ent \<longleftrightarrow> (\<forall>a b. PPN a = PPN b \<longrightarrow> ent a = ent b)"

text \<open>No entry is in slot \<open>i\<close>, and all other slots are in order.\<close>

definition vacant :: "(u32 \<Rightarrow> u32 option) \<Rightarrow> (nat \<Rightarrow> tlb_entry) \<Rightarrow> u32 list \<Rightarrow> nat set \<Rightarrow> nat \<Rightarrow> bool" where
  "vacant ent tlb hi E i \<longleftrightarrow> flags_ok ent tlb hi E \<and> i \<notin> E \<and> (\<forall>j < TLBN. j \<noteq> i \<longrightarrow> slot_ok ent tlb E j) \<and>
     (\<forall>la w. ent la = Some w \<and> bit w 7 \<longrightarrow> unat (TLBIDX w) \<noteq> i)"

lemma vacant_pop:
  assumes "flags_ok ent tlb hi E" "\<forall>j < TLBN. slot_ok ent tlb E j" "i \<in> E"
  shows "vacant ent tlb hi (E - {i}) i"
  using assms by (fastforce simp: vacant_def flags_ok_def slot_ok_def)

lemma flags_okD:
  assumes "flags_ok ent tlb hi E" "ent la = Some w" "bit w 7"
  shows "unat (TLBIDX w) \<notin> E" "hi ! unat (TLBIDX w) = VPN2 la" "te_hi (tlb (unat (TLBIDX w))) = VPN2 la"
    "tlb_half (tlb (unat (TLBIDX w))) la = ENTRYLO w"
    "ent (TLBPAIR la) = Some w' \<Longrightarrow> bit w' 7 \<Longrightarrow> TLBIDX w' = TLBIDX w"
  using assms unfolding flags_ok_def by blast+

text \<open>Two pages of one pair that are in the TLB are in one slot.\<close>

lemma same_slot:
  assumes f: "flags_ok ent tlb hi E" and p: "page_wise ent" and s: "in_slot ent a i" "in_slot ent b j"
    and v: "VPN2 a = VPN2 b"
  shows "i = j"
proof -
  from s obtain w w' where w: "ent a = Some w" "bit w 7" "unat (TLBIDX w) = i"
      "ent b = Some w'" "bit w' 7" "unat (TLBIDX w') = j"
    by (auto simp: in_slot_def)
  from v have "PPN a = PPN b \<or> PPN a = PPN (TLBPAIR b)" by (simp add: VPN2_split)
  then show ?thesis
  proof
    assume "PPN a = PPN b"
    then have "ent a = ent b" using p unfolding page_wise_def by blast
    then have "w = w'" using w(1,4) by simp
    then show ?thesis using w(3,6) by blast
  next
    assume "PPN a = PPN (TLBPAIR b)"
    then have "ent a = ent (TLBPAIR b)" using p unfolding page_wise_def by blast
    then have "ent (TLBPAIR b) = Some w" using w(1) by simp
    from flags_okD(5) [OF f w(4,5) this w(2)] w(3,6) show ?thesis by metis
  qed
qed

lemma vacant_evict:
  assumes f: "flags_ok ent tlb hi E" and s: "\<forall>j < TLBN. slot_ok ent tlb E j" and p: "page_wise ent"
    and i: "i \<notin> E" "i < TLBN"
  shows "vacant (unflag_pair (hi ! i) ent) tlb hi E i"
proof -
  let ?e = "unflag_pair (hi ! i) ent"
  have fl: "ent la = Some w \<and> VPN2 la \<noteq> hi ! i" if "?e la = Some w" "bit w 7" for la w
    using that clear_tlb_p_facts(1) by (auto simp: unflag_pair_def split: if_splits)
  have "flags_ok ?e tlb hi E"
    unfolding flags_ok_def
  proof (intro allI impI, elim conjE)
    fix la w assume "?e la = Some w" "bit w 7"
    note e = fl [OF this, THEN conjunct1] this(2)
    show "unat (TLBIDX w) \<notin> E \<and> hi ! unat (TLBIDX w) = VPN2 la \<and> te_hi (tlb (unat (TLBIDX w))) = VPN2 la \<and>
        tlb_half (tlb (unat (TLBIDX w))) la = ENTRYLO w \<and>
        (\<forall>w'. ?e (TLBPAIR la) = Some w' \<and> bit w' 7 \<longrightarrow> TLBIDX w' = TLBIDX w)"
      using flags_okD [OF f e] fl [of "TLBPAIR la"] by simp
  qed
  moreover have keep: "in_slot ?e la j" if "in_slot ent la j" "j \<noteq> i" for la j
  proof -
    obtain la' where la': "in_slot ent la' i" using s i by (auto simp: slot_ok_def)
    then have "hi ! i = VPN2 la'" using flags_okD(2) [OF f] by (auto simp: in_slot_def)
    moreover have "VPN2 la \<noteq> VPN2 la'" using same_slot [OF f p that(1) la'] that(2) by blast
    ultimately show ?thesis using that(1) by (auto simp: in_slot_def unflag_pair_def)
  qed
  have "slot_ok ?e tlb E j" if "j < TLBN" "j \<noteq> i" for j
    using s that keep unfolding slot_ok_def by metis
  moreover have "unat (TLBIDX w) \<noteq> i" if "?e la = Some w" "bit w 7" for la w
    using fl [OF that] that(2) flags_okD(2) [OF f, of la w] by auto
  ultimately show ?thesis using i by (auto simp: vacant_def)
qed

lemma page_upd_same: "PPN b = PPN la \<Longrightarrow> page_upd la w ent b = Some w"
  by (simp add: page_upd_def)

lemma page_upd_other: "PPN b \<noteq> PPN la \<Longrightarrow> page_upd la w ent b = ent b"
  by (simp add: page_upd_def)

lemma in_slot_upd_other: "PPN b \<noteq> PPN la \<Longrightarrow> in_slot (page_upd la w ent) b j = in_slot ent b j"
  by (simp add: in_slot_def page_upd_other)

text \<open>Writing slot \<open>i\<close> for page \<open>la\<close>, whose entry gets the flag: the slot was vacant, or holds the
  other page of the pair.\<close>

lemma slot_write:
  assumes f: "flags_ok ent tlb hi E" and pw: "page_wise ent" and i: "i \<notin> E" "i < TLBN" "length hi = TLBN"
    and others: "\<forall>j < TLBN. j \<noteq> i \<longrightarrow> slot_ok ent tlb E j"
    and off: "\<And>w0. ent la = Some w0 \<Longrightarrow> \<not> bit w0 7"
    and users: "\<And>b. in_slot ent b i \<Longrightarrow> PPN b = PPN (TLBPAIR la)"
    and pair: "\<And>wb. ent (TLBPAIR la) = Some wb \<Longrightarrow> bit wb 7 \<Longrightarrow>
      unat (TLBIDX wb) = i \<and> tlb_half t (TLBPAIR la) = ENTRYLO wb"
    and half: "tlb_half t (TLBPAIR la) \<noteq> ENTRYLO_INVALID \<Longrightarrow> in_slot ent (TLBPAIR la) i"
    and w: "bit w 7" "unat (TLBIDX w) = i" "te_hi t = VPN2 la" "tlb_half t la = ENTRYLO w"
  shows "flags_ok (page_upd la w ent) (tlb(i := t)) (hi[i := VPN2 la]) E \<and>
    (\<forall>j < TLBN. slot_ok (page_upd la w ent) (tlb(i := t)) E j)"
proof -
  let ?e = "page_upd la w ent"
  have la: "in_slot ?e la i" using w by (simp add: in_slot_def page_upd_same)
  have notla: "PPN b \<noteq> PPN la" if "in_slot ent b j" for b j
    using that off pw unfolding in_slot_def page_wise_def by metis
  have eq: "in_slot ?e b j = in_slot ent b j" if "PPN b \<noteq> PPN la" for b j
    using that by (rule in_slot_upd_other)
  have keep: "in_slot ?e b j" if "in_slot ent b j" for b j
    using eq notla that by blast
  have idx: "TLBIDX w' = TLBIDX w" if "?e (TLBPAIR la) = Some w'" "bit w' 7" for w'
  proof -
    have "ent (TLBPAIR la) = Some w'" using that(1) by (simp add: page_upd_other pair_facts)
    from pair [OF this that(2)] w(2) show ?thesis by (metis word_unat_eq_iff)
  qed
  have flags: "flags_ok ?e (tlb(i := t)) (hi[i := VPN2 la]) E"
    unfolding flags_ok_def
  proof (intro allI impI, elim conjE)
    fix b wb assume b: "?e b = Some wb" "bit wb 7"
    let ?k = "unat (TLBIDX wb)"
    show "?k \<notin> E \<and> hi[i := VPN2 la] ! ?k = VPN2 b \<and> te_hi ((tlb(i := t)) ?k) = VPN2 b \<and>
        tlb_half ((tlb(i := t)) ?k) b = ENTRYLO wb \<and>
        (\<forall>w'. ?e (TLBPAIR b) = Some w' \<and> bit w' 7 \<longrightarrow> TLBIDX w' = TLBIDX wb)"
    proof (cases "PPN b = PPN la")
      case True
      then have e: "wb = w" using b(1) by (simp add: page_upd_same)
      have "?e (TLBPAIR b) = ?e (TLBPAIR la)"
        using True pw pair_facts(2) pair_facts(7) by (metis page_upd_other page_wise_def)
      then show ?thesis
        using e w i idx pair_facts(4,5) [OF True] by (simp del: of_nat_unat)
    next
      case False
      then have eb: "ent b = Some wb" using b(1) by (simp add: page_upd_other)
      note fb = flags_okD [OF f eb b(2)]
      show ?thesis
      proof (cases "?k = i")
        case True
        then have p: "PPN b = PPN (TLBPAIR la)" using users eb b(2) by (auto simp: in_slot_def)
        then have "ent (TLBPAIR la) = Some wb" using eb pw by (metis page_wise_def)
        from pair [OF this b(2)] p have "tlb_half t b = ENTRYLO wb" using pair_facts(4) by metis
        moreover have "VPN2 b = VPN2 la" using p by (simp add: VPN2_split)
        moreover have "?e (TLBPAIR b) = Some w"
          using p by (intro page_upd_same) (metis pair_facts(6,7))
        moreover have "TLBIDX w = TLBIDX wb" using True w(2) by (metis word_unat_eq_iff)
        ultimately show ?thesis using True fb i w(3) by (simp del: of_nat_unat)
      next
        case k: False
        have "PPN (TLBPAIR b) \<noteq> PPN la"
        proof
          assume "PPN (TLBPAIR b) = PPN la"
          then have "PPN b = PPN (TLBPAIR la)" by (metis pair_facts(6,7))
          then have "ent (TLBPAIR la) = Some wb" using eb pw by (metis page_wise_def)
          from pair [OF this b(2)] k show False by blast
        qed
        then show ?thesis using k fb by (simp add: page_upd_other del: of_nat_unat)
      qed
    qed
  qed
  have "\<forall>j < TLBN. slot_ok ?e (tlb(i := t)) E j"
  proof (intro allI impI)
    fix j assume j: "j < TLBN"
    show "slot_ok ?e (tlb(i := t)) E j"
    proof (cases "j = i")
      case True
      have "in_slot ?e b i" if "te_hi t = VPN2 b" "tlb_half t b \<noteq> ENTRYLO_INVALID" for b
      proof -
        from that(1) w(3) have "PPN b = PPN la \<or> PPN b = PPN (TLBPAIR la)" by (metis VPN2_split)
        then show ?thesis
        proof
          assume "PPN b = PPN la"
          then show ?thesis using w by (simp add: in_slot_def page_upd_same)
        next
          assume p: "PPN b = PPN (TLBPAIR la)"
          then have "in_slot ent (TLBPAIR la) i" using half that(2) pair_facts(4) by metis
          then have "in_slot ent b i" using p pw by (metis in_slot_def page_wise_def)
          then show ?thesis by (rule keep)
        qed
      qed
      then show ?thesis using True la by (auto simp: slot_ok_def)
    next
      case False
      then show ?thesis using others j keep unfolding slot_ok_def by (metis fun_upd_other)
    qed
  qed
  with flags show ?thesis by blast
qed

text \<open>The entry of \<open>la\<close> loses its flag and its half of slot \<open>i\<close>; the slot is given up when the other
  half is not in use either.\<close>

lemma slot_clear:
  assumes f: "flags_ok ent tlb hi E" and pw: "page_wise ent" and s: "\<forall>j < TLBN. slot_ok ent tlb E j"
    and la: "in_slot ent la i" and w: "\<not> bit w 7" and E': "E' = E \<or> E' = insert i E"
    and keep: "E' = E \<Longrightarrow> in_slot ent (TLBPAIR la) i \<and> te_hi t = VPN2 la \<and>
      tlb_half t (TLBPAIR la) = tlb_half (tlb i) (TLBPAIR la) \<and> tlb_half t la = ENTRYLO_INVALID"
    and free: "E' \<noteq> E \<Longrightarrow> \<not> in_slot ent (TLBPAIR la) i \<and> (\<forall>b. tlb_half t b = ENTRYLO_INVALID)"
  shows "flags_ok (page_upd la w ent) (tlb(i := t)) hi E'"
    and "\<forall>j < TLBN. slot_ok (page_upd la w ent) (tlb(i := t)) E' j"
proof -
  let ?e = "page_upd la w ent"
  have old: "PPN b \<noteq> PPN la \<and> ent b = Some wb" if "?e b = Some wb" "bit wb 7" for b wb
    using that w by (auto simp: page_upd_def split: if_splits)
  have iE: "i \<notin> E" using la flags_okD(1) [OF f] by (auto simp: in_slot_def)
  have users: "PPN b = PPN (TLBPAIR la)" if "in_slot ent b i" "PPN b \<noteq> PPN la" for b
  proof -
    have "hi ! i = VPN2 b" "hi ! i = VPN2 la"
      using that(1) la flags_okD(2) [OF f] unfolding in_slot_def by metis+
    then show ?thesis using that(2) VPN2_split by metis
  qed
  show "flags_ok ?e (tlb(i := t)) hi E'"
    unfolding flags_ok_def
  proof (intro allI impI, elim conjE)
    fix b wb assume b: "?e b = Some wb" "bit wb 7"
    let ?k = "unat (TLBIDX wb)"
    note o = old [OF b]
    note fb = flags_okD [OF f conjunct2 [OF o] b(2)]
    have pr: "\<forall>w'. ?e (TLBPAIR b) = Some w' \<and> bit w' 7 \<longrightarrow> TLBIDX w' = TLBIDX wb"
      using old fb(5) by blast
    show "?k \<notin> E' \<and> hi ! ?k = VPN2 b \<and> te_hi ((tlb(i := t)) ?k) = VPN2 b \<and>
        tlb_half ((tlb(i := t)) ?k) b = ENTRYLO wb \<and>
        (\<forall>w'. ?e (TLBPAIR b) = Some w' \<and> bit w' 7 \<longrightarrow> TLBIDX w' = TLBIDX wb)"
    proof (cases "?k = i")
      case True
      then have bi: "in_slot ent b i" using o b(2) by (simp add: in_slot_def)
      then have p: "PPN b = PPN (TLBPAIR la)" using users o by blast
      then have "in_slot ent (TLBPAIR la) i" using bi pw by (metis in_slot_def page_wise_def)
      then have ee: "E' = E" using free by blast
      have "VPN2 b = VPN2 la" using p by (simp add: VPN2_split)
      moreover have "tlb_half t b = ENTRYLO wb"
        using keep [OF ee] fb(4) True pair_facts(4) [OF p] by simp
      ultimately show ?thesis using keep [OF ee] ee fb(1,2) True pr by simp
    next
      case False
      then show ?thesis using fb(1-4) pr E' by auto
    qed
  qed
  have stay: "in_slot ?e b j" if "in_slot ent b j" "PPN b \<noteq> PPN la" for b j
    using that by (simp add: in_slot_upd_other)
  have la_only: "j = i" if "in_slot ent b j" "PPN b = PPN la" for b j
    using that la pw unfolding in_slot_def page_wise_def by (metis option.inject)
  show "\<forall>j < TLBN. slot_ok ?e (tlb(i := t)) E' j"
  proof (intro allI impI)
    fix j assume j: "j < TLBN"
    show "slot_ok ?e (tlb(i := t)) E' j"
    proof (cases "j = i")
      case False
      have "in_slot ?e b j" if "in_slot ent b j" for b
        using stay la_only that False by blast
      then show ?thesis using s j False E' unfolding slot_ok_def by (metis fun_upd_other insertI2)
    next
      case True
      show ?thesis
      proof (cases "E' = E")
        case k: True
        have p: "in_slot ?e (TLBPAIR la) i" using keep [OF k] stay pair_facts(2) by blast
        have "in_slot ?e b i" if "te_hi t = VPN2 b" "tlb_half t b \<noteq> ENTRYLO_INVALID" for b
        proof -
          have "PPN b \<noteq> PPN la" using that(2) keep [OF k] pair_facts(4) by metis
          moreover have "VPN2 b = VPN2 la" using that(1) keep [OF k] by simp
          ultimately have "PPN b = PPN (TLBPAIR la)" using VPN2_split by blast
          then have "ent b = ent (TLBPAIR la)" using pw unfolding page_wise_def by blast
          then have "in_slot ent b i" using keep [OF k] by (simp add: in_slot_def)
          then show ?thesis using stay \<open>PPN b \<noteq> PPN la\<close> by blast
        qed
        then show ?thesis using True p by (auto simp: slot_ok_def)
      next
        case False
        then show ?thesis using True free E' by (auto simp: slot_ok_def)
      qed
    qed
  qed
qed

section \<open>Writing page-table entries\<close>

lemma find_pte_page: "PPN a = PPN b \<Longrightarrow> find_pte v pgdir a = find_pte v pgdir b"
proof -
  assume "PPN a = PPN b"
  then have e: "bit a n = bit b n" if "12 \<le> n" for n using that by (simp add: PPN_eq_iff)
  have "PDX a = PDX b" by (rule bit_word_eqI) (simp add: PDX_def bit_simps e)
  moreover have m: "(0x003ff000 :: u32) = push_bit 12 (mask 10)" by (simp add: mask_eq_exp_minus_1)
  have "drop_bit 12 (a AND 0x003ff000) = drop_bit 12 (b AND 0x003ff000)"
    unfolding m by (rule bit_word_eqI) (simp add: bit_simps e)
  ultimately show ?thesis by (simp only: find_pte_def pde_addr_def pte_at_def)
qed

lemma page_wise_entry: "page_wise (entry v)"
  by (auto simp: page_wise_def entry_def dest: find_pte_page [where v = v and pgdir = "v_cur_pgdir v"])

lemma store_word_sel [simp]:
  "v_cur_pgdir (store_word a w v) = v_cur_pgdir v" "v_npage (store_word a w v) = v_npage v"
  "v_tlb (store_word a w v) = v_tlb v" "v_algo_empty (store_word a w v) = v_algo_empty v"
  "v_algo_n (store_word a w v) = v_algo_n v" "v_algo_hi (store_word a w v) = v_algo_hi v"
  "v_algo_ptr (store_word a w v) = v_algo_ptr v"
  "v_words (store_word a w v) = (v_words v)(a := w)"
  by (simp_all add: store_word_def)

lemma find_pte_cong:
  assumes "v_words v' (pde_addr pgdir la) = v_words v (pde_addr pgdir la)" "v_npage v' = v_npage v"
  shows "find_pte v' pgdir la = find_pte v pgdir la"
  unfolding find_pte_def pte_at_def KADDR_def assms ..

lemma find_pte_frame: "v_words v' = v_words v \<Longrightarrow> v_npage v' = v_npage v \<Longrightarrow> find_pte v' pgdir la = find_pte v pgdir la"
  by (rule find_pte_cong) simp_all

lemma entry_frame:
  "v_words v' = v_words v \<Longrightarrow> v_npage v' = v_npage v \<Longrightarrow> v_cur_pgdir v' = v_cur_pgdir v \<Longrightarrow> entry v' = entry v"
  by (rule ext) (simp add: entry_def find_pte_frame [of v' v] split: option.split)

lemma pt_ok_frame:
  assumes "v_words v' = v_words v" "v_npage v' = v_npage v" "v_cur_pgdir v' = v_cur_pgdir v" "pt_ok v"
  shows "pt_ok v'"
  using assms(4) unfolding pt_ok_def assms(3) find_pte_frame [OF assms(1,2)] .

lemma store_entry:
  assumes ok: "pt_ok v" and a: "find_pte v (v_cur_pgdir v) la = Some (Some a)"
  shows "find_pte (store_word a w v) (v_cur_pgdir v) b = find_pte v (v_cur_pgdir v) b"
    and "pt_ok (store_word a w v)" and "entry (store_word a w v) = page_upd la w (entry v)"
proof -
  have e: "find_pte (store_word a w v) (v_cur_pgdir v) b = find_pte v (v_cur_pgdir v) b" for b
  proof (rule find_pte_cong)
    have "a \<noteq> pde_addr (v_cur_pgdir v) b" using ok a unfolding pt_ok_def by blast
    then show "v_words (store_word a w v) (pde_addr (v_cur_pgdir v) b) = v_words v (pde_addr (v_cur_pgdir v) b)"
      by simp
  qed simp
  then show "find_pte (store_word a w v) (v_cur_pgdir v) b = find_pte v (v_cur_pgdir v) b" .
  show "pt_ok (store_word a w v)" using ok unfolding pt_ok_def store_word_sel e .
  show "entry (store_word a w v) = page_upd la w (entry v)"
  proof
    fix b
    show "entry (store_word a w v) b = page_upd la w (entry v) b"
    proof (cases "PPN b = PPN la")
      case True
      then show ?thesis using a find_pte_page [OF True, of v "v_cur_pgdir v"] by (simp add: entry_def e page_upd_def)
    next
      case False
      have "find_pte v (v_cur_pgdir v) b \<noteq> Some (Some a)" using ok a False unfolding pt_ok_def by metis
      then show ?thesis using False
        by (auto simp: entry_def e page_upd_def split: option.splits)
    qed
  qed
qed

section \<open>The operations keep the invariant\<close>

lemma clear_tlb_p_eq:
  assumes ok: "pt_ok v"
  shows "\<exists>v'. clear_tlb_p la v = Some v' \<and> pt_ok v' \<and> (\<exists>f. v' = v\<lparr>v_words := f\<rparr>) \<and>
    (\<forall>b. find_pte v' (v_cur_pgdir v) b = find_pte v (v_cur_pgdir v) b) \<and>
    entry v' = (\<lambda>b. if PPN b = PPN la then map_option (\<lambda>w. w AND NOT TLB_P) (entry v b) else entry v b)"
proof -
  have "find_pte v (v_cur_pgdir v) la \<noteq> None" using ok unfolding pt_ok_def by blast
  then obtain r where r: "find_pte v (v_cur_pgdir v) la = Some r" by blast
  show ?thesis
  proof (cases r)
    case None
    have "entry v b = None" if "PPN b = PPN la" for b
      using find_pte_page [OF that, of v "v_cur_pgdir v"] r None by (simp add: entry_def)
    then have "entry v = (\<lambda>b. if PPN b = PPN la then map_option (\<lambda>w. w AND NOT TLB_P) (entry v b) else entry v b)"
      by (intro ext) simp
    moreover have "clear_tlb_p la v = Some v" using r None by (simp add: clear_tlb_p_def)
    moreover have "v = v\<lparr>v_words := v_words v\<rparr>" by simp
    ultimately show ?thesis using ok by blast
  next
    case (Some a)
    let ?v = "store_word a (v_words v a AND NOT TLB_P) v"
    note st = store_entry [OF ok r [unfolded Some]]
    have "entry v b = Some (v_words v a)" if "PPN b = PPN la" for b
      using find_pte_page [OF that, of v "v_cur_pgdir v"] r Some by (simp add: entry_def)
    then have "entry ?v = (\<lambda>b. if PPN b = PPN la then map_option (\<lambda>w. w AND NOT TLB_P) (entry v b) else entry v b)"
      by (intro ext) (simp add: st(3) page_upd_def)
    moreover have "clear_tlb_p la v = Some ?v" using r Some by (simp add: clear_tlb_p_def)
    moreover have "?v = v\<lparr>v_words := (v_words v)(a := v_words v a AND NOT TLB_P)\<rparr>" by (simp add: store_word_def)
    ultimately show ?thesis using st(1,2) by blast
  qed
qed

lemma evict_eq:
  assumes ok: "pt_ok v" and h: "VPN2 h = h"
  shows "\<exists>v1 v'. clear_tlb_p h v = Some v1 \<and> clear_tlb_p (TLBPAIR h) v1 = Some v' \<and> pt_ok v' \<and>
    (\<exists>f. v' = v\<lparr>v_words := f\<rparr>) \<and>
    (\<forall>b. find_pte v' (v_cur_pgdir v) b = find_pte v (v_cur_pgdir v) b) \<and> entry v' = unflag_pair h (entry v)"
proof -
  obtain v1 f1 where 1: "clear_tlb_p h v = Some v1" "pt_ok v1" "v1 = v\<lparr>v_words := f1\<rparr>"
      "\<forall>b. find_pte v1 (v_cur_pgdir v) b = find_pte v (v_cur_pgdir v) b"
      "entry v1 = (\<lambda>b. if PPN b = PPN h then map_option (\<lambda>w. w AND NOT TLB_P) (entry v b) else entry v b)"
    using clear_tlb_p_eq [OF ok, of h] by blast
  obtain v2 f2 where 2: "clear_tlb_p (TLBPAIR h) v1 = Some v2" "pt_ok v2" "v2 = v1\<lparr>v_words := f2\<rparr>"
      "\<forall>b. find_pte v2 (v_cur_pgdir v1) b = find_pte v1 (v_cur_pgdir v1) b"
      "entry v2 = (\<lambda>b. if PPN b = PPN (TLBPAIR h) then map_option (\<lambda>w. w AND NOT TLB_P) (entry v1 b) else entry v1 b)"
    using clear_tlb_p_eq [OF 1(2), of "TLBPAIR h"] by blast
  have cur: "v_cur_pgdir v1 = v_cur_pgdir v" using 1(3) by simp
  have "entry v2 = unflag_pair h (entry v)"
  proof
    fix b
    have V: "VPN2 b = h \<longleftrightarrow> PPN b = PPN h \<or> PPN b = PPN (TLBPAIR h)"
      using VPN2_split [of b h] unfolding h .
    show "entry v2 b = unflag_pair h (entry v) b"
      unfolding 2(5) 1(5) unflag_pair_def V
      by (cases "PPN b = PPN h"; cases "PPN b = PPN (TLBPAIR h)")
        (use pair_facts(2) [of h] in \<open>simp_all only: simp_thms if_True if_False\<close>)
  qed
  moreover have "v2 = v\<lparr>v_words := f2\<rparr>" using 1(3) 2(3) by simp
  moreover have "\<forall>b. find_pte v2 (v_cur_pgdir v) b = find_pte v (v_cur_pgdir v) b"
    using 1(4) 2(4) unfolding cur by simp
  ultimately show ?thesis using 1(1) 2(1,2) by blast
qed

lemma in_slot_unflag: "in_slot (unflag_pair h ent) la i \<Longrightarrow> in_slot ent la i"
  using clear_tlb_p_facts(1) by (auto simp: in_slot_def unflag_pair_def split: if_splits)

text \<open>\<open>tlb_get_empty\<close> makes a slot vacant; entries without the flag are not touched.\<close>

lemma tlb_get_empty_spec:
  assumes inv: "tlb_inv v"
  shows "\<exists>idx v'. tlb_get_empty h v = Some (idx, v') \<and> unat idx < TLBN \<and> pt_ok v' \<and> tlb_arrays v' \<and>
    v_cur_pgdir v' = v_cur_pgdir v \<and> v_tlb v' = v_tlb v \<and>
    (\<forall>b. find_pte v' (v_cur_pgdir v) b = find_pte v (v_cur_pgdir v) b) \<and>
    v_algo_hi v' = (v_algo_hi v)[unat idx := h] \<and>
    vacant (entry v') (v_tlb v) (v_algo_hi v) (empty_slots v') (unat idx) \<and>
    (\<forall>b w. entry v b = Some w \<and> \<not> bit w 7 \<longrightarrow> entry v' b = Some w)"
proof -
  have ok: "pt_ok v" "tlb_arrays v" and fl: "flags_ok (entry v) (v_tlb v) (v_algo_hi v) (empty_slots v)"
      "\<forall>i < TLBN. slot_ok (entry v) (v_tlb v) (empty_slots v) i"
    using inv unfolding tlb_inv_def by blast+
  show ?thesis
  proof (cases "v_algo_n v > 0")
    case True
    define n where "n = unat (v_algo_n v - 1)"
    have un: "unat (v_algo_n v) = Suc n"
    proof -
      have z: "v_algo_n v \<noteq> 0" using True by (simp add: word_greater_zero_iff)
      then have "0 < unat (v_algo_n v)" by (simp add: unat_gt_0)
      with unat_minus_one [OF z] show ?thesis by (simp only: n_def)
    qed
    have nl: "n < TLBN" using ok(2) un by (simp add: tlb_arrays_def)
    let ?idx = "v_algo_empty v ! n"
    let ?v = "v\<lparr>v_algo_n := v_algo_n v - 1, v_algo_hi := (v_algo_hi v)[unat ?idx := h]\<rparr>"
    have tk: "take (Suc n) (v_algo_empty v) = take n (v_algo_empty v) @ [?idx]"
      using ok(2) nl by (intro take_Suc_conv_app_nth) (simp add: tlb_arrays_def)
    have dist: "distinct (take n (v_algo_empty v) @ [?idx])"
      using ok(2) unfolding tlb_arrays_def un tk by blast
    have es: "empty_slots v = insert (unat ?idx) (empty_slots ?v)"
      by (simp add: empty_slots_def un tk n_def [symmetric] del: of_nat_unat)
    have nin: "unat ?idx \<notin> empty_slots ?v"
      using dist by (auto simp: empty_slots_def n_def [symmetric] word_unat_eq_iff [symmetric] simp del: of_nat_unat)
    have il: "unat ?idx < TLBN" using es ok(2) by (auto simp: tlb_arrays_def)
    have e: "entry ?v = entry v" "\<And>b. find_pte ?v (v_cur_pgdir v) b = find_pte v (v_cur_pgdir v) b"
      by (rule entry_frame, simp_all) (rule find_pte_frame, simp_all)
    have "vacant (entry v) (v_tlb v) (v_algo_hi v) (empty_slots v - {unat ?idx}) (unat ?idx)"
      using fl es by (intro vacant_pop) simp_all
    moreover have "empty_slots v - {unat ?idx} = empty_slots ?v" using es nin by simp
    moreover have "tlb_arrays ?v"
      using ok(2) dist es nl by (auto simp: tlb_arrays_def n_def [symmetric])
    moreover have "pt_ok ?v" by (rule pt_ok_frame [OF _ _ _ ok(1)]) simp_all
    moreover have "tlb_get_empty h v = Some (?idx, ?v)"
      using True nl by (simp add: tlb_get_empty_def Let_def n_def del: of_nat_unat)
    ultimately show ?thesis using e il by (intro exI [of _ ?idx] exI [of _ ?v]) simp
  next
    case False
    then have n0: "v_algo_n v = 0" by (simp add: word_greater_zero_iff)
    have es: "empty_slots v = {}" by (simp add: empty_slots_def n0)
    let ?i = "unat (v_algo_ptr v)"
    let ?h0 = "v_algo_hi v ! ?i"
    let ?v0 = "v\<lparr>v_algo_ptr := (v_algo_ptr v + 1) mod of_nat TLBN\<rparr>"
    have il: "?i < TLBN" using ok(2) by (simp add: tlb_arrays_def)
    have ptr: "unat ((v_algo_ptr v + 1) mod of_nat TLBN) < TLBN"
    proof -
      have "unat ((v_algo_ptr v + 1) mod (of_nat TLBN :: u8)) = unat (v_algo_ptr v + 1) mod 16"
        by (simp only: unat_word_mod) (simp add: TLBN_def)
      also have "\<dots> < 16" by (rule mod_less_divisor) simp
      finally show ?thesis by (simp only: TLBN_def)
    qed
    have e0: "entry ?v0 = entry v" "\<And>b. find_pte ?v0 (v_cur_pgdir v) b = find_pte v (v_cur_pgdir v) b"
      by (rule entry_frame, simp_all) (rule find_pte_frame, simp_all)
    have ok0: "pt_ok ?v0" by (rule pt_ok_frame [OF _ _ _ ok(1)]) simp_all
    obtain la where "in_slot (entry v) la ?i" using fl(2) il es by (auto simp: slot_ok_def)
    then have hv: "?h0 = VPN2 la" using flags_okD(2) [OF fl(1)] unfolding in_slot_def by metis
    then have "VPN2 ?h0 = ?h0" by (simp only: pair_facts(8))
    from evict_eq [OF ok0 this] obtain v1 v2 f where v2: "clear_tlb_p ?h0 ?v0 = Some v1"
        "clear_tlb_p (TLBPAIR ?h0) v1 = Some v2" "pt_ok v2" "v2 = ?v0\<lparr>v_words := f\<rparr>"
        "\<forall>b. find_pte v2 (v_cur_pgdir v) b = find_pte ?v0 (v_cur_pgdir v) b"
        "entry v2 = unflag_pair ?h0 (entry v)"
      unfolding e0(1) by auto
    let ?v = "v2\<lparr>v_algo_hi := (v_algo_hi v2)[?i := h]\<rparr>"
    have e: "entry ?v = entry v2" "\<And>b. find_pte ?v (v_cur_pgdir v) b = find_pte v2 (v_cur_pgdir v) b"
      by (rule entry_frame, simp_all) (rule find_pte_frame, simp_all)
    have sel: "v_cur_pgdir ?v = v_cur_pgdir v" "v_algo_hi v2 = v_algo_hi v" "v_tlb ?v = v_tlb v"
        "empty_slots ?v = empty_slots v"
      using v2(4) by (simp_all add: empty_slots_def)
    have "tlb_get_empty h v = Some (v_algo_ptr v, ?v)"
      using False il v2(1,2) by (simp add: tlb_get_empty_def Let_def)
    moreover have "pt_ok ?v" by (rule pt_ok_frame [OF _ _ _ v2(3)]) simp_all
    moreover have "tlb_arrays ?v"
      using ok(2) ptr v2(4) by (simp add: tlb_arrays_def empty_slots_def)
    moreover have "vacant (entry v2) (v_tlb v) (v_algo_hi v) (empty_slots v) ?i"
      unfolding v2(6) using fl page_wise_entry il es by (intro vacant_evict) simp_all
    moreover have "entry v2 b = Some w" if "entry v b = Some w" "\<not> bit w 7" for b w
    proof -
      have "w AND NOT TLB_P = w"
        using that(2) by (intro bit_word_eqI) (auto simp: tlb_bits bit_simps bit_bit_mask)
      then show ?thesis using that by (simp add: v2(6) unflag_pair_def)
    qed
    ultimately show ?thesis
      using il e sel v2(5) e0(2) by (intro exI [of _ "v_algo_ptr v"] exI [of _ ?v]) simp
  qed
qed

definition slot_of :: "u32 \<Rightarrow> u32 \<Rightarrow> u32 \<Rightarrow> u32 \<Rightarrow> tlb_entry" where
  "slot_of hi la x y = (case lo_pair la x y of (lo0, lo1) \<Rightarrow> \<lparr>te_hi = hi, te_lo0 = lo0, te_lo1 = lo1\<rparr>)"

lemma slot_of_halves:
  "te_hi (slot_of hi la x y) = hi" "tlb_half (slot_of hi la x y) la = x"
  "tlb_half (slot_of hi la x y) (TLBPAIR la) = y" "tlb_half (slot_of hi la x x) b = x"
  using pair_facts(3) [of la] by (simp_all add: slot_of_def lo_pair_def tlb_half_def)

lemma tlb_write_slot_of:
  "(case lo_pair la x y of (lo0, lo1) \<Rightarrow> tlb_write idx hi lo0 lo1 v) =
   v\<lparr>v_tlb := (v_tlb v)(unat idx := slot_of hi la x y)\<rparr>"
  by (simp add: tlb_write_def slot_of_def split: prod.split)

lemma ENTRYLO_valid: "ENTRYLO w AND 2 \<noteq> 0" "ENTRYLO w \<noteq> ENTRYLO_INVALID"
proof -
  have "bit (ENTRYLO w) 1" by (simp add: ENTRYLO_def bit_simps)
  moreover have "(2 :: u32) = bit_mask 1" by (simp add: bit_mask_def)
  ultimately show "ENTRYLO w AND 2 \<noteq> 0" by (simp only: and_bit_mask_eq_0 simp_thms)
  then show "ENTRYLO w \<noteq> ENTRYLO_INVALID" by (auto simp: ENTRYLO_INVALID_def)
qed

lemma tlb_hit_sound:
  assumes "tlb_inv v" "tlb_hit v la lo"
  shows "\<exists>w. entry v la = Some w \<and> bit w 7 \<and> lo = ENTRYLO w"
proof -
  from assms(2) obtain i where i: "i < TLBN" "te_hi (v_tlb v i) = VPN2 la" "tlb_half (v_tlb v i) la = lo" "lo AND 2 \<noteq> 0"
    by (auto simp: tlb_hit_def)
  have "lo \<noteq> ENTRYLO_INVALID" using i(4) by (auto simp: ENTRYLO_INVALID_def)
  then have "in_slot (entry v) la i"
    using assms(1) i unfolding tlb_inv_def slot_ok_def by blast
  then obtain w where w: "entry v la = Some w" "bit w 7" "unat (TLBIDX w) = i" by (auto simp: in_slot_def)
  have "flags_ok (entry v) (v_tlb v) (v_algo_hi v) (empty_slots v)" using assms(1) by (simp only: tlb_inv_def)
  from flags_okD(4) [OF this w(1,2)] w i(3) show ?thesis by auto
qed

lemma tlb_hit_flagged:
  assumes "tlb_inv v" "entry v la = Some w" "bit w 7"
  shows "tlb_hit v la (ENTRYLO w)"
proof -
  have "flags_ok (entry v) (v_tlb v) (v_algo_hi v) (empty_slots v)" using assms(1) by (simp only: tlb_inv_def)
  from flags_okD [OF this assms(2,3)] show ?thesis
    using TLBIDX_lt [of w] ENTRYLO_valid(1) [of w] unfolding tlb_hit_def TLBN_def by blast
qed

text \<open>So the TLB answers exactly for the flagged entries, with what the entry says.\<close>

lemma tlb_hit_iff:
  "tlb_inv v \<Longrightarrow> tlb_hit v la lo \<longleftrightarrow> (\<exists>w. entry v la = Some w \<and> bit w 7 \<and> lo = ENTRYLO w)"
  using tlb_hit_sound tlb_hit_flagged by blast

lemma ucast_idx: "unat idx = i \<Longrightarrow> i < TLBN \<Longrightarrow> unat (ucast (idx :: u8) :: u32) = i"
  by (simp add: unat_ucast_mod TLBN_def del: of_nat_unat)

lemma tlb_refill_spec:
  assumes inv: "tlb_inv v" and a: "find_pte v (v_cur_pgdir v) la = Some (Some a)" and off: "\<not> bit (v_words v a) 7"
  shows "\<exists>v' w. tlb_refill la a v = Some v' \<and> tlb_inv v' \<and> entry v' la = Some w \<and> bit w 7 \<and>
    ENTRYLO w = ENTRYLO (v_words v a) \<and> w AND PTE_P = v_words v a AND PTE_P \<and> v_cur_pgdir v' = v_cur_pgdir v"
proof -
  let ?p = "v_words v a" and ?q = "TLBPAIR la"
  have ok: "pt_ok v" "tlb_arrays v" and fl: "flags_ok (entry v) (v_tlb v) (v_algo_hi v) (empty_slots v)"
      "\<forall>i < TLBN. slot_ok (entry v) (v_tlb v) (empty_slots v) i"
    using inv unfolding tlb_inv_def by blast+
  have ea: "entry v la = Some ?p" using a by (simp add: entry_def)
  have hl: "length (v_algo_hi v) = TLBN" using ok(2) by (simp add: tlb_arrays_def)
  have VM: "la AND 0xffffe000 = VPN2 la" by (simp only: VPN2_def)
  have "find_pte v (v_cur_pgdir v) ?q \<noteq> None" using ok(1) unfolding pt_ok_def by blast
  then obtain r where r: "find_pte v (v_cur_pgdir v) ?q = Some r" by blast
  let ?shared = "\<exists>b. r = Some b \<and> bit (v_words v b) 7"
  show ?thesis
  proof (cases ?shared)
    case True
    then obtain b where b: "r = Some b" "bit (v_words v b) 7" by blast
    let ?pq = "v_words v b"
    have eq: "entry v ?q = Some ?pq" using r b(1) by (simp add: entry_def)
    define i where "i = unat (TLBIDX ?pq)"
    let ?idx = "ucast (TLBIDX ?pq) :: u8"
    have il: "i < TLBN" using TLBIDX_lt by (simp add: i_def TLBN_def)
    have ui: "unat ?idx = i" by (simp only: ucast_TLBIDX i_def)
    let ?t = "slot_of (VPN2 la) la (ENTRYLO ?p) (ENTRYLO ?pq)"
    let ?w = "tlb_tag ?p ?idx"
    let ?v1 = "v\<lparr>v_tlb := (v_tlb v)(i := ?t)\<rparr>"
    note fq = flags_okD [OF fl(1) eq b(2)]
    have hi: "v_algo_hi v ! i = VPN2 la" using fq(2) by (simp only: i_def pair_facts(1))
    note tag = tlb_tag_facts [of ?idx ?p, unfolded ui, OF il [unfolded TLBN_def]]
    have tw: "unat (TLBIDX ?w) = i" using tag(3) ucast_idx [OF ui il] by (simp only:)
    have ok1: "pt_ok ?v1" by (rule pt_ok_frame [OF _ _ _ ok(1)]) simp_all
    have a1: "find_pte ?v1 (v_cur_pgdir ?v1) la = Some (Some a)"
      using a by (simp add: find_pte_frame [of ?v1 v])
    have e1: "entry ?v1 = entry v" by (rule entry_frame) simp_all
    note st = store_entry [OF ok1 a1, of ?w, unfolded e1]
    have users: "PPN b = PPN ?q" if "in_slot (entry v) b i" for b
    proof -
      have "v_algo_hi v ! i = VPN2 b" using that flags_okD(2) [OF fl(1)] unfolding in_slot_def by metis
      then have "VPN2 b = VPN2 la" using hi by simp
      moreover have "PPN b \<noteq> PPN la"
        using that ea off page_wise_entry unfolding in_slot_def page_wise_def by (metis option.inject)
      ultimately show ?thesis using VPN2_split by blast
    qed
    have "flags_ok (page_upd la ?w (entry v)) ((v_tlb v)(i := ?t)) ((v_algo_hi v)[i := VPN2 la]) (empty_slots v) \<and>
        (\<forall>j < TLBN. slot_ok (page_upd la ?w (entry v)) ((v_tlb v)(i := ?t)) (empty_slots v) j)"
    proof (rule slot_write [OF fl(1) page_wise_entry _ il hl])
      show "i \<notin> empty_slots v" unfolding i_def by (rule fq(1))
      show "\<forall>j < TLBN. j \<noteq> i \<longrightarrow> slot_ok (entry v) (v_tlb v) (empty_slots v) j" using fl(2) by blast
      show "\<not> bit w0 7" if "entry v la = Some w0" for w0 using that ea off by simp
      show "unat (TLBIDX wb) = i \<and> tlb_half ?t ?q = ENTRYLO wb" if "entry v ?q = Some wb" "bit wb 7" for wb
        using that eq by (simp add: i_def slot_of_halves)
      show "in_slot (entry v) ?q i" using eq b(2) by (simp add: in_slot_def i_def)
      show "bit ?w 7" by (rule tag(1))
      show "tlb_half ?t la = ENTRYLO ?w" using tag(2) by (simp only: slot_of_halves)
    qed (use users tw in \<open>simp_all only: slot_of_halves\<close>)
    then have "tlb_inv (store_word a ?w ?v1)"
      using st ok(2) hi list_update_id [of "v_algo_hi v" i]
      by (simp add: tlb_inv_def tlb_arrays_def empty_slots_def)
    moreover have "tlb_refill la a v = Some (store_word a ?w ?v1)"
      using r b il unfolding tlb_refill_def tlb_tag_def [symmetric] VM
      by (simp add: tlb_p_bit ui Let_def slot_of_def tlb_write_def split: prod.split)
    ultimately show ?thesis using tag st(3)
      by (intro exI [of _ "store_word a ?w ?v1"] exI [of _ ?w]) (simp add: page_upd_same)
  next
    case False
    obtain idx v2 where g: "tlb_get_empty (VPN2 la) v = Some (idx, v2)" "unat idx < TLBN" "pt_ok v2" "tlb_arrays v2"
        "v_cur_pgdir v2 = v_cur_pgdir v" "v_tlb v2 = v_tlb v"
        "\<forall>b. find_pte v2 (v_cur_pgdir v) b = find_pte v (v_cur_pgdir v) b"
        "v_algo_hi v2 = (v_algo_hi v)[unat idx := VPN2 la]"
        "vacant (entry v2) (v_tlb v) (v_algo_hi v) (empty_slots v2) (unat idx)"
        "\<forall>b w. entry v b = Some w \<and> \<not> bit w 7 \<longrightarrow> entry v2 b = Some w"
      using tlb_get_empty_spec [OF inv] by blast
    define i where "i = unat idx"
    have il: "i < TLBN" using g(2) by (simp only: i_def)
    have e2: "entry v2 la = Some ?p" using g(10) ea off by blast
    have a2: "find_pte v2 (v_cur_pgdir v2) la = Some (Some a)" using a g(5,7) by simp
    then have p2: "v_words v2 a = ?p" using e2 by (simp add: entry_def)
    have q2: "\<not> bit wb 7" if "entry v2 ?q = Some wb" for wb
    proof -
      have "entry v ?q \<noteq> None" using that g(5,7) by (auto simp: entry_def split: option.splits)
      then obtain wq where wq: "entry v ?q = Some wq" by blast
      then have "\<not> bit wq 7" using False r by (auto simp: entry_def split: option.splits)
      then show ?thesis using g(10) wq that by auto
    qed
    let ?t = "slot_of (VPN2 la) la (ENTRYLO ?p) ENTRYLO_INVALID"
    let ?w = "tlb_tag ?p idx"
    let ?v1 = "v2\<lparr>v_tlb := (v_tlb v)(i := ?t)\<rparr>"
    note tag = tlb_tag_facts [of idx ?p, OF g(2) [unfolded TLBN_def]]
    have tw: "unat (TLBIDX ?w) = i" using tag(3) ucast_idx [OF i_def [symmetric] il] by (simp only:)
    have ok1: "pt_ok ?v1" by (rule pt_ok_frame [OF _ _ _ g(3)]) simp_all
    have a1: "find_pte ?v1 (v_cur_pgdir ?v1) la = Some (Some a)"
      using a2 by (simp add: find_pte_frame [of ?v1 v2])
    have e1: "entry ?v1 = entry v2" by (rule entry_frame) simp_all
    note st = store_entry [OF ok1 a1, of ?w, unfolded e1]
    note vac = g(9) [folded i_def, unfolded vacant_def]
    have "flags_ok (page_upd la ?w (entry v2)) ((v_tlb v)(i := ?t)) ((v_algo_hi v)[i := VPN2 la]) (empty_slots v2) \<and>
        (\<forall>j < TLBN. slot_ok (page_upd la ?w (entry v2)) ((v_tlb v)(i := ?t)) (empty_slots v2) j)"
    proof (rule slot_write [OF _ page_wise_entry _ il hl])
      show "flags_ok (entry v2) (v_tlb v) (v_algo_hi v) (empty_slots v2)" "i \<notin> empty_slots v2"
        "\<forall>j < TLBN. j \<noteq> i \<longrightarrow> slot_ok (entry v2) (v_tlb v) (empty_slots v2) j"
        using vac by blast+
      show "\<not> bit w0 7" if "entry v2 la = Some w0" for w0 using that e2 off by simp
      show "PPN b = PPN ?q" if "in_slot (entry v2) b i" for b using that vac unfolding in_slot_def by blast
      show "unat (TLBIDX wb) = i \<and> tlb_half ?t ?q = ENTRYLO wb" if "entry v2 ?q = Some wb" "bit wb 7" for wb
        using q2 that by blast
      show "in_slot (entry v2) ?q i" if "tlb_half ?t ?q \<noteq> ENTRYLO_INVALID"
        using that by (simp only: slot_of_halves simp_thms)
      show "bit ?w 7" by (rule tag(1))
      show "tlb_half ?t la = ENTRYLO ?w" using tag(2) by (simp only: slot_of_halves)
    qed (use tw in \<open>simp_all only: slot_of_halves\<close>)
    then have "tlb_inv (store_word a ?w ?v1)"
      using st g(4,8) by (simp add: tlb_inv_def tlb_arrays_def empty_slots_def i_def)
    moreover have "tlb_refill la a v = Some (store_word a ?w ?v1)"
    proof -
      have "(case r of Some b \<Rightarrow> if v_words v b AND TLB_P \<noteq> 0
              then Some (ENTRYLO (v_words v b), ucast (TLBIDX (v_words v b)) :: u8, v)
              else map_option (\<lambda>(idx, v). (ENTRYLO_INVALID, idx, v)) (tlb_get_empty (VPN2 la) v)
            | None \<Rightarrow> map_option (\<lambda>(idx, v). (ENTRYLO_INVALID, idx, v)) (tlb_get_empty (VPN2 la) v)) =
          Some (ENTRYLO_INVALID, idx, v2)"
        using False g(1) by (auto simp: tlb_p_bit split: option.split)
      then show ?thesis
        using r g(6) p2 unfolding tlb_refill_def tlb_tag_def [symmetric] VM
        by (simp add: i_def Let_def slot_of_def tlb_write_def split: prod.split)
    qed
    ultimately show ?thesis using tag st(3) g(5)
      by (intro exI [of _ "store_word a ?w ?v1"] exI [of _ ?w]) (simp add: page_upd_same)
  qed
qed

lemma in_slot_iff: "ent la = Some w \<Longrightarrow> in_slot ent la i \<longleftrightarrow> bit w 7 \<and> unat (TLBIDX w) = i"
  by (simp add: in_slot_def)

text \<open>Taking a slot back: there is room for it in the list of unused slots.\<close>

lemma tlb_del_callback_spec:
  assumes arr: "tlb_arrays v" and i: "unat idx < TLBN" "unat idx \<notin> empty_slots v"
  shows "\<exists>v'. tlb_del_callback idx v = Some v' \<and> tlb_arrays v' \<and> empty_slots v' = insert (unat idx) (empty_slots v) \<and>
    (\<exists>e n. v' = v\<lparr>v_algo_empty := e, v_algo_n := n\<rparr>)"
proof -
  let ?n = "unat (v_algo_n v)"
  let ?e = "(v_algo_empty v)[?n := idx]"
  have d: "distinct (take ?n (v_algo_empty v))" and l: "length (v_algo_empty v) = TLBN" "?n \<le> TLBN"
    using arr unfolding tlb_arrays_def by blast+
  have c: "card (empty_slots v) = ?n"
  proof -
    have "inj_on unat (set (take ?n (v_algo_empty v)))" by (rule inj_onI) (simp add: word_unat_eq_iff)
    then have "card (empty_slots v) = card (set (take ?n (v_algo_empty v)))" unfolding empty_slots_def by (rule card_image)
    also have "\<dots> = ?n" using d l by (simp add: distinct_card)
    finally show ?thesis .
  qed
  have n: "?n < TLBN"
  proof -
    have "insert (unat idx) (empty_slots v) \<subseteq> {..< TLBN}" using arr i by (auto simp: tlb_arrays_def)
    then have "card (insert (unat idx) (empty_slots v)) \<le> TLBN"
      using card_mono [of "{..< TLBN}"] by simp
    moreover have "finite (empty_slots v)" by (simp add: empty_slots_def)
    ultimately show ?thesis using c i(2) by simp
  qed
  have un: "unat (v_algo_n v + 1) = Suc ?n"
    using n by (subst unat_add_no_wrap) (simp_all add: TLBN_def)
  have tk: "take (Suc ?n) ?e = take ?n (v_algo_empty v) @ [idx]"
    using n l by (simp add: take_Suc_conv_app_nth)
  let ?v = "v\<lparr>v_algo_empty := ?e, v_algo_n := v_algo_n v + 1\<rparr>"
  have es: "empty_slots ?v = insert (unat idx) (empty_slots v)"
    unfolding empty_slots_def by (simp add: un tk del: of_nat_unat)
  have "idx \<notin> set (take ?n (v_algo_empty v))" using i(2) by (auto simp: empty_slots_def)
  then have "distinct (take (Suc ?n) ?e)" unfolding tk using d by simp
  then have "tlb_arrays ?v"
    using arr n i(1) es unfolding tlb_arrays_def by (simp add: un del: of_nat_unat)
  moreover have "tlb_del_callback idx v = Some ?v" using n by (simp add: tlb_del_callback_def)
  ultimately show ?thesis using es by blast
qed

lemma tlb_invalidate_spec:
  assumes inv: "tlb_inv v"
  shows "\<exists>v'. tlb_invalidate (v_cur_pgdir v) la v = Some v' \<and> tlb_inv v' \<and> (\<forall>lo. \<not> tlb_hit v' la lo) \<and>
    (\<forall>b. PPN b \<noteq> PPN la \<longrightarrow> entry v' b = entry v b) \<and>
    (\<forall>b. find_pte v' (v_cur_pgdir v) b = find_pte v (v_cur_pgdir v) b) \<and>
    v_cur_pgdir v' = v_cur_pgdir v \<and> v_npage v' = v_npage v \<and> v_pmm v' = v_pmm v"
proof -
  let ?q = "TLBPAIR la"
  have ok: "pt_ok v" "tlb_arrays v" and fl: "flags_ok (entry v) (v_tlb v) (v_algo_hi v) (empty_slots v)"
      "\<forall>i < TLBN. slot_ok (entry v) (v_tlb v) (empty_slots v) i"
    using inv unfolding tlb_inv_def by blast+
  have "find_pte v (v_cur_pgdir v) la \<noteq> None" "find_pte v (v_cur_pgdir v) ?q \<noteq> None"
    using ok(1) unfolding pt_ok_def by blast+
  then obtain p q where pq: "find_pte v (v_cur_pgdir v) la = Some p" "find_pte v (v_cur_pgdir v) ?q = Some q" by blast
  have quiet: "?thesis" if "tlb_invalidate (v_cur_pgdir v) la v = Some v" "\<And>w. entry v la = Some w \<Longrightarrow> \<not> bit w 7"
    using that inv tlb_hit_sound [OF inv, of la] by blast
  show ?thesis
  proof (cases "\<exists>a. p = Some a \<and> bit (v_words v a) 7")
    case False
    show ?thesis
    proof (rule quiet)
      show "tlb_invalidate (v_cur_pgdir v) la v = Some v"
        using False pq by (cases p) (auto simp: tlb_invalidate_def tlb_p_bit)
      show "\<And>w. entry v la = Some w \<Longrightarrow> \<not> bit w 7" using False pq by (cases p) (auto simp: entry_def)
    qed
  next
    case True
    then obtain a where a: "p = Some a" "bit (v_words v a) 7" by blast
    let ?w = "v_words v a"
    have ea: "entry v la = Some ?w" using pq a(1) by (simp add: entry_def)
    define i where "i = unat (TLBIDX ?w)"
    let ?idx = "ucast (TLBIDX ?w) :: u8"
    have il: "i < TLBN" using TLBIDX_lt by (simp add: i_def TLBN_def)
    have ui: "unat ?idx = i" by (simp only: ucast_TLBIDX i_def)
    have lai: "in_slot (entry v) la i" using ea a(2) by (simp add: in_slot_def i_def)
    have iE: "i \<notin> empty_slots v" using flags_okD(1) [OF fl(1) ea a(2)] by (simp only: i_def not_False_eq_True)
    let ?c = "?w AND NOT TLB_P"
    have nobit: "\<not> bit ?c 7" by (rule clear_tlb_p_facts(1))
    have VM: "la AND 0xffffe000 = VPN2 la" by (simp only: VPN2_def)
    have finish: ?thesis
      if r: "tlb_invalidate (v_cur_pgdir v) la v = Some (store_word a ?c v1)" and
        v1: "v1 = v2\<lparr>v_tlb := (v_tlb v)(i := t)\<rparr>" "tlb_arrays v2" "v2 = v\<lparr>v_algo_empty := e, v_algo_n := n\<rparr>"
        and E: "empty_slots v2 = empty_slots v \<or> empty_slots v2 = insert i (empty_slots v)"
        and keep: "empty_slots v2 = empty_slots v \<Longrightarrow> in_slot (entry v) ?q i \<and> te_hi t = VPN2 la \<and>
          tlb_half t ?q = tlb_half (v_tlb v i) ?q \<and> tlb_half t la = ENTRYLO_INVALID"
        and free: "empty_slots v2 \<noteq> empty_slots v \<Longrightarrow> \<not> in_slot (entry v) ?q i \<and> (\<forall>b. tlb_half t b = ENTRYLO_INVALID)"
      for v1 v2 e n t
    proof -
      have ok1: "pt_ok v1" by (rule pt_ok_frame [OF _ _ _ ok(1)]) (simp_all add: v1(1,3))
      have a1: "find_pte v1 (v_cur_pgdir v1) la = Some (Some a)"
        using pq(1) a(1) find_pte_frame [of v1 v] v1(1,3) by simp
      have e1: "entry v1 = entry v" by (rule entry_frame) (simp_all add: v1(1,3))
      note st = store_entry [OF ok1 a1, of ?c, unfolded e1]
      note sc = slot_clear [OF fl(1) page_wise_entry fl(2) lai nobit E keep free]
      have inv': "tlb_inv (store_word a ?c v1)"
        using st sc v1(2) by (simp add: tlb_inv_def tlb_arrays_def empty_slots_def v1(1,3))
      moreover have "\<not> tlb_hit (store_word a ?c v1) la lo" for lo
      proof
        assume "tlb_hit (store_word a ?c v1) la lo"
        from tlb_hit_sound [OF inv' this] st(3) nobit show False by (auto simp: page_upd_same)
      qed
      moreover have "v_cur_pgdir (store_word a ?c v1) = v_cur_pgdir v" "v_npage (store_word a ?c v1) = v_npage v"
        "v_pmm (store_word a ?c v1) = v_pmm v"
        by (simp_all add: v1(1,3) store_word_def)
      moreover have "find_pte (store_word a ?c v1) (v_cur_pgdir v) b = find_pte v (v_cur_pgdir v) b" for b
        using st(1) [of b] find_pte_frame [of v1 v] by (simp add: v1(1,3))
      moreover have "\<forall>b. PPN b \<noteq> PPN la \<longrightarrow> entry (store_word a ?c v1) b = entry v b"
        unfolding st(3) using page_upd_other by blast
      ultimately show ?thesis using r by blast
    qed
    show ?thesis
    proof (cases "\<exists>b. q = Some b \<and> bit (v_words v b) 7")
      case True
      then obtain b where b: "q = Some b" "bit (v_words v b) 7" by blast
      have eq: "entry v ?q = Some (v_words v b)" using pq b(1) by (simp add: entry_def)
      have same: "TLBIDX (v_words v b) = TLBIDX ?w" by (rule flags_okD(5) [OF fl(1) ea a(2) eq b(2)])
      note fq = flags_okD [OF fl(1) eq b(2), unfolded same, folded i_def]
      let ?t = "slot_of (VPN2 la) la ENTRYLO_INVALID (ENTRYLO (v_words v b))"
      show ?thesis
      proof (rule finish [OF _ refl ok(2), where t = ?t and e = "v_algo_empty v" and n = "v_algo_n v"])
        show "tlb_invalidate (v_cur_pgdir v) la v = Some (store_word a ?c (v\<lparr>v_tlb := (v_tlb v)(i := ?t)\<rparr>))"
          using pq a b ui unfolding tlb_invalidate_def VM
          by (simp add: tlb_p_bit Let_def slot_of_def tlb_write_def split: prod.split)
        show "in_slot (entry v) ?q i \<and> te_hi ?t = VPN2 la \<and> tlb_half ?t ?q = tlb_half (v_tlb v i) ?q \<and>
            tlb_half ?t la = ENTRYLO_INVALID"
          using fq(4) eq b(2) same by (simp add: slot_of_halves in_slot_def i_def)
      qed (use ok in simp_all)
    next
      case False
      obtain v2 e n where d: "tlb_del_callback ?idx v = Some v2" "tlb_arrays v2"
          "empty_slots v2 = insert i (empty_slots v)" "v2 = v\<lparr>v_algo_empty := e, v_algo_n := n\<rparr>"
        using tlb_del_callback_spec [OF ok(2), of ?idx] il iE unfolding ui by blast
      let ?t = "slot_of ENTRYHI_INVALID la ENTRYLO_INVALID ENTRYLO_INVALID"
      show ?thesis
      proof (rule finish [OF _ refl d(2,4)])
        have "(case q of Some b \<Rightarrow> if v_words v b AND TLB_P \<noteq> 0
                then Some (ENTRYLO (v_words v b), VPN2 la, v)
                else map_option (\<lambda>v. (ENTRYLO_INVALID, ENTRYHI_INVALID, v)) (tlb_del_callback ?idx v)
              | None \<Rightarrow> map_option (\<lambda>v. (ENTRYLO_INVALID, ENTRYHI_INVALID, v)) (tlb_del_callback ?idx v)) =
            Some (ENTRYLO_INVALID, ENTRYHI_INVALID, v2)"
          using False d(1) by (auto simp: tlb_p_bit split: option.split)
        then show "tlb_invalidate (v_cur_pgdir v) la v = Some (store_word a ?c (v2\<lparr>v_tlb := (v_tlb v)(i := ?t)\<rparr>))"
          using pq a ui d(4) unfolding tlb_invalidate_def VM
          by (simp add: tlb_p_bit Let_def slot_of_def tlb_write_def split: prod.split)
        show "\<not> in_slot (entry v) ?q i \<and> (\<forall>b. tlb_half ?t b = ENTRYLO_INVALID)"
          using False pq by (cases q) (auto simp: slot_of_halves in_slot_def entry_def)
      qed (use d(3) iE in auto)
    qed
  qed
qed

text \<open>An entry that is not in the TLB may be changed freely.\<close>

lemma tlb_inv_store:
  assumes inv: "tlb_inv v" and a: "find_pte v (v_cur_pgdir v) la = Some (Some a)"
    and off: "\<not> bit (v_words v a) 7" "\<not> bit w 7"
  shows "tlb_inv (store_word a w v)" and "entry (store_word a w v) = page_upd la w (entry v)"
proof -
  have ok: "pt_ok v" "tlb_arrays v" and fl: "flags_ok (entry v) (v_tlb v) (v_algo_hi v) (empty_slots v)"
      "\<forall>i < TLBN. slot_ok (entry v) (v_tlb v) (empty_slots v) i"
    using inv unfolding tlb_inv_def by blast+
  note st = store_entry [OF ok(1) a, of w]
  show "entry (store_word a w v) = page_upd la w (entry v)" by (rule st(3))
  let ?e = "page_upd la w (entry v)"
  have ea: "entry v la = Some (v_words v a)" using a by (simp add: entry_def)
  have fe: "?e b = Some wb \<and> bit wb 7 \<longleftrightarrow> entry v b = Some wb \<and> bit wb 7" for b wb
  proof (cases "PPN b = PPN la")
    case True
    then have "entry v b = Some (v_words v a)" using ea page_wise_entry unfolding page_wise_def by metis
    then show ?thesis using off page_upd_same [OF True, of w "entry v"] by auto
  qed (simp add: page_upd_other)
  have "flags_ok ?e (v_tlb v) (v_algo_hi v) (empty_slots v)"
    using fl(1) unfolding flags_ok_def fe .
  moreover have "in_slot ?e b i = in_slot (entry v) b i" for b i
    unfolding in_slot_def using fe by metis
  then have "\<forall>i < TLBN. slot_ok ?e (v_tlb v) (empty_slots v) i" using fl(2) by (simp add: slot_ok_def)
  ultimately show "tlb_inv (store_word a w v)"
    using st(2) ok(2) by (simp add: tlb_inv_def st(3) tlb_arrays_def empty_slots_def)
qed

lemma tlb_inv_pmm: "tlb_inv (v\<lparr>v_pmm := p\<rparr>) = tlb_inv v"
proof -
  have "pt_ok (v\<lparr>v_pmm := p\<rparr>) = pt_ok v"
    using pt_ok_frame [of "v\<lparr>v_pmm := p\<rparr>" v] pt_ok_frame [of v "v\<lparr>v_pmm := p\<rparr>"] by auto
  moreover have "entry (v\<lparr>v_pmm := p\<rparr>) = entry v" by (rule entry_frame) simp_all
  ultimately show ?thesis by (simp add: tlb_inv_def tlb_arrays_def empty_slots_def)
qed

section \<open>Switching the page directory\<close>

text \<open>\<open>load_pgdir\<close> empties the TLB. It leaves the flags in the new directory as they are; the invariant
  holds after it when none is set there.\<close>

lemma fold_tlb_write:
  "n \<le> 16 \<Longrightarrow> fold (\<lambda>i. tlb_write (of_nat i) hi lo0 lo1) [0 ..< n] v =
     v\<lparr>v_tlb := (\<lambda>i. if i < n then \<lparr>te_hi = hi, te_lo0 = lo0, te_lo1 = lo1\<rparr> else v_tlb v i)\<rparr>"
proof (induction n)
  case 0
  then show ?case by simp
next
  case (Suc n)
  then have "unat (of_nat n :: u8) = n" by (intro unat_of_nat_small) simp
  with Suc show ?case by (auto simp: tlb_write_def fun_eq_iff less_Suc_eq)
qed

lemma load_pgdir_sel:
  "v_cur_pgdir (load_pgdir pgdir v) = pgdir" "v_words (load_pgdir pgdir v) = v_words v"
  "v_npage (load_pgdir pgdir v) = v_npage v"
  by (simp_all add: load_pgdir_def tlb_init_def tlb_init_callback_def fold_tlb_write TLBN_def)

lemma load_pgdir_no_hit: "\<not> tlb_hit (load_pgdir pgdir v) la lo"
  by (auto simp: tlb_hit_def load_pgdir_def tlb_init_def tlb_init_callback_def fold_tlb_write TLBN_def
      tlb_half_def ENTRYLO_INVALID_def split: if_splits)

lemma load_pgdir_inv:
  assumes ok: "pt_ok (v\<lparr>v_cur_pgdir := pgdir\<rparr>)" and hi: "length (v_algo_hi v) = TLBN" "unat (v_algo_ptr v) < TLBN"
    and off: "\<And>la w. entry (v\<lparr>v_cur_pgdir := pgdir\<rparr>) la = Some w \<Longrightarrow> \<not> bit w 7"
  shows "tlb_inv (load_pgdir pgdir v)"
proof -
  let ?v = "load_pgdir pgdir v"
  have pt: "pt_ok ?v" by (rule pt_ok_frame [OF _ _ _ ok]) (simp_all add: load_pgdir_sel)
  have e: "entry ?v = entry (v\<lparr>v_cur_pgdir := pgdir\<rparr>)" by (rule entry_frame) (simp_all add: load_pgdir_sel)
  have emp: "v_algo_empty ?v = map of_nat [0 ..< 16]" "v_algo_n ?v = 16" "v_algo_hi ?v = v_algo_hi v"
    "v_algo_ptr ?v = v_algo_ptr v"
    by (simp_all add: load_pgdir_def tlb_init_def tlb_init_callback_def fold_tlb_write TLBN_def)
  have es: "empty_slots ?v = {..< 16}"
  proof -
    have "unat ` (of_nat :: nat \<Rightarrow> u8) ` {0 ..< 16} = {0 ..< 16}"
      by (force simp: image_image unat_of_nat_small intro!: image_eqI simp del: of_nat_unat)
    then show ?thesis by (simp add: empty_slots_def emp atLeast0LessThan)
  qed
  have "inj_on (of_nat :: nat \<Rightarrow> u8) {0 ..< 16}"
    by (rule inj_on_inverseI [where g = unat]) (simp add: unat_of_nat_small del: of_nat_unat)
  then have "tlb_arrays ?v" using hi by (simp add: tlb_arrays_def es emp TLBN_def distinct_map)
  moreover have "flags_ok (entry ?v) (v_tlb ?v) (v_algo_hi ?v) (empty_slots ?v)"
    using off by (auto simp: flags_ok_def e)
  moreover have "slot_ok (entry ?v) (v_tlb ?v) (empty_slots ?v) i" if "i < TLBN" for i
    using that es
    by (auto simp: slot_ok_def load_pgdir_def tlb_init_def tlb_init_callback_def fold_tlb_write TLBN_def tlb_half_def)
  ultimately show ?thesis using pt unfolding tlb_inv_def by blast
qed

section \<open>A concrete page table\<close>

text \<open>The directory at \<open>0x80001000\<close> has one page table, at \<open>0x80002000\<close>, which maps \<open>0x3000\<close> to page 5.\<close>

definition example_words :: "u32 \<Rightarrow> u32" where
  "example_words a = (if a = 0x80001000 then 0x2007 else if a = 0x8000200C then 0x5007 else 0)"

lemma idx_lt: "unat (PDX la) < 1024" "unat (PTX la) < 1024"
proof -
  have "w AND 0x3FF < 2 ^ 10" for w :: u32 unfolding mask_consts by (rule and_mask_less') simp
  then show "unat (PDX la) < 1024" "unat (PTX la) < 1024"
    by (simp_all add: PDX_def PTX_def word_less_nat_alt)
qed

lemma PPN_of_indices: "PDX a = PDX b \<Longrightarrow> PTX a = PTX b \<Longrightarrow> PPN a = PPN b"
proof -
  assume d: "PDX a = PDX b" and t: "PTX a = PTX b"
  have D: "bit (PDX x) n = (bit x (n + 22) \<and> n < 10)" for x n
    by (auto simp: PDX_def mask_consts bit_simps add.commute)
  have T: "bit (PTX x) n = (bit x (n + 12) \<and> n < 10)" for x n
    by (auto simp: PTX_def mask_consts bit_simps add.commute)
  have "bit a n = bit b n" if n: "12 \<le> n" for n
  proof (cases "n < 22")
    case True
    have m: "n - 12 + 12 = n" "n - 12 < 10" using n True by arith+
    have "bit a n = bit (PTX a) (n - 12)" unfolding T m(1) using m(2) by blast
    also have "\<dots> = bit (PTX b) (n - 12)" unfolding t ..
    also have "\<dots> = bit b n" unfolding T m(1) using m(2) by blast
    finally show ?thesis .
  next
    case False
    then show ?thesis using D [of a "n - 22"] D [of b "n - 22"] d bit_imp_le_length [of a n] bit_imp_le_length [of b n]
      by (cases "n < 32") auto
  qed
  then show ?thesis by (simp add: PPN_eq_iff)
qed

lemma pte_index: "drop_bit 12 (la AND 0x003ff000) = PTX la"
proof -
  have m: "(0x003ff000 :: u32) = push_bit 12 (mask 10)" by (simp add: mask_eq_exp_minus_1)
  show ?thesis unfolding m PTX_def mask_consts by (rule bit_word_eqI) (auto simp: bit_simps)
qed

lemma unat_index4:
  assumes "unat b + 4096 \<le> 2 ^ 32" "unat x < 1024"
  shows "unat (b + 4 * x :: u32) = unat b + 4 * unat x"
proof -
  have "unat (4 * x) = 4 * unat x" using assms(2) by (simp add: unat_word_ariths del: of_nat_unat)
  then show ?thesis using assms by (subst unat_add_no_wrap) (simp_all del: of_nat_unat)
qed

lemma example_find_pte:
  assumes "v_words v = example_words" "v_npage v = 2048"
  shows "find_pte v 0x80001000 la = Some (if PDX la = 0 then Some (0x80002000 + 4 * PTX la) else None)"
proof -
  have u: "unat (pde_addr 0x80001000 la) = 0x80001000 + 4 * unat (PDX la)"
    unfolding pde_addr_def using idx_lt(1) by (subst unat_index4) simp_all
  have z: "pde_addr 0x80001000 la = 0x80001000 \<longleftrightarrow> PDX la = 0"
    using u by (simp add: word_unat_eq_iff del: of_nat_unat)
  have n: "pde_addr 0x80001000 la \<noteq> 0x8000200C"
    using u idx_lt(1) [of la] by (simp add: word_unat_eq_iff del: of_nat_unat)
  show ?thesis
    using z n unfolding find_pte_def pte_at_def pte_index
    by (auto simp: assms example_words_def PTE_P_def KADDR_def PPN_def KERNBASE_def)
qed

lemma example_pt_ok:
  assumes "v_words v = example_words" "v_npage v = 2048" "v_cur_pgdir v = 0x80001000"
  shows "pt_ok v"
proof -
  note f = example_find_pte [OF assms(1,2)]
  have t: "unat (0x80002000 + 4 * PTX la) = 0x80002000 + 4 * unat (PTX la)" for la
    using idx_lt(2) by (subst unat_index4) simp_all
  have d: "unat (pde_addr 0x80001000 la) = 0x80001000 + 4 * unat (PDX la)" for la
    unfolding pde_addr_def using idx_lt(1) by (subst unat_index4) simp_all
  have "0x80002000 + 4 * PTX la \<noteq> pde_addr 0x80001000 la'" for la la'
    using t [of la] d [of la'] idx_lt(1) [of la'] by (simp add: word_unat_eq_iff del: of_nat_unat)
  then have A: "\<And>la la'. 0x80002000 + 4 * PTX la \<noteq> pde_addr 0x80001000 la'" .
  have B: "PPN la = PPN la'" if "PDX la = 0" "PDX la' = 0" "0x80002000 + 4 * PTX la = 0x80002000 + 4 * PTX la'" for la la'
  proof (rule PPN_of_indices)
    show "PDX la = PDX la'" using that by simp
    have "4 * unat (PTX la) = 4 * unat (PTX la')" using t [of la] t [of la'] that(3) by simp
    then show "PTX la = PTX la'" by (simp add: word_unat_eq_iff)
  qed
  have E: "PDX la = 0 \<and> a = 0x80002000 + 4 * PTX la" if "find_pte v 0x80001000 la = Some (Some a)" for la a
    using that unfolding f by (cases "PDX la = 0") auto
  show ?thesis unfolding pt_ok_def assms(3)
  proof (intro conjI allI impI)
    show "find_pte v 0x80001000 la \<noteq> None" for la unfolding f by blast
  next
    fix la a la'
    assume "find_pte v 0x80001000 la = Some (Some a)"
    from E [OF this] have "a = 0x80002000 + 4 * PTX la" ..
    then show "a \<noteq> pde_addr 0x80001000 la'" using A [of la la'] by simp
  next
    fix la a la'
    assume "find_pte v 0x80001000 la = Some (Some a)" "find_pte v 0x80001000 la' = Some (Some a)"
    from E [OF this(1)] E [OF this(2)] show "PPN la = PPN la'" using B [of la la'] by (metis (no_types))
  qed
qed

definition example_vm :: vmstate where
  "example_vm = \<lparr>v_pmm = example_pmm, v_npage = 2048, v_words = (\<lambda>_. 0), v_tlb = (\<lambda>_. \<lparr>te_hi = 0, te_lo0 = 0, te_lo1 = 0\<rparr>),
     v_cur_pgdir = 0x80001000, v_algo_empty = replicate 16 0, v_algo_n = 0, v_algo_hi = replicate 16 0, v_algo_ptr = 0,
     v_swap_init_ok = False, v_pra_links = list_add_before PraHead (PraLink 3) (list_init PraHead (\<lambda>l. \<lparr>le_prev = l, le_next = l\<rparr>)),
     v_pra_vaddr = (\<lambda>_. 0), v_clean_block = 0xbe400000, v_check_mm = None,
     v_mms = (\<lambda>_. \<lparr>mmap_cache = None, mm_pgdir = 0x80001000, map_count = 0, mm_sm_priv = True, mm_count = 0, locked_by = 0\<rparr>),
     v_vmas = (\<lambda>_. \<lparr>vm_mm = None, vm_start = 0, vm_end = 0, vm_flags = 0\<rparr>),
     v_vlinks = (\<lambda>l. \<lparr>le_prev = l, le_next = l\<rparr>), v_pgfault_num = 0,
     v_slobfree = 0, v_bigblocks = 0, v_boot_pgdir = 0x80001000\<rparr>"

definition example_tlb :: "vmstate \<Rightarrow> vmstate" where
  "example_tlb v = load_pgdir 0x80001000 (v\<lparr>v_words := example_words, v_npage := 2048,
     v_algo_hi := replicate 16 0, v_algo_ptr := 0\<rparr>)"

lemma example_tlb_pte:
  "find_pte (example_tlb v) (v_cur_pgdir (example_tlb v)) 0x3000 = Some (Some 0x8000200C)"
  "v_words (example_tlb v) = example_words" "v_npage (example_tlb v) = 2048"
proof -
  show w: "v_words (example_tlb v) = example_words" "v_npage (example_tlb v) = 2048"
    by (simp_all add: example_tlb_def load_pgdir_sel)
  have "PDX 0x3000 = 0" "PTX 0x3000 = 3" by (simp_all add: PDX_def PTX_def)
  then show "find_pte (example_tlb v) (v_cur_pgdir (example_tlb v)) 0x3000 = Some (Some 0x8000200C)"
    using example_find_pte [OF w, of "0x3000"] by (simp add: example_tlb_def load_pgdir_sel)
qed

section \<open>Properties\<close>

text \<open>The states the TLB code gets into: a directory is loaded; an address is refilled after a miss; an
  address is invalidated; the entry of an address that is not in the TLB is rewritten (what
  \<^verbatim>\<open>page_insert\<close> and \<^verbatim>\<open>page_remove_pte\<close> do after \<^verbatim>\<open>tlb_invalidate\<close>). \<^verbatim>\<open>load_pgdir\<close> empties the TLB
  but leaves the bits \<open>TLB_P\<close> of the directory it loads as they are: the flag of \<open>tlb_reach\<close> says
  whether the directory in use was loaded without such bits (\<open>unmarked\<close>).\<close>

definition unmarked :: "vmstate \<Rightarrow> bool" where
  "unmarked v \<longleftrightarrow> (\<forall>la w. entry v la = Some w \<longrightarrow> \<not> bit w 7)"

inductive tlb_reach :: "bool \<Rightarrow> vmstate \<Rightarrow> bool" where
  load: "pt_ok (v\<lparr>v_cur_pgdir := pgdir\<rparr>) \<Longrightarrow> length (v_algo_hi v) = TLBN \<Longrightarrow> unat (v_algo_ptr v) < TLBN \<Longrightarrow>
    tlb_reach (unmarked (v\<lparr>v_cur_pgdir := pgdir\<rparr>)) (load_pgdir pgdir v)"
| refill: "tlb_reach c v \<Longrightarrow> find_pte v (v_cur_pgdir v) la = Some (Some a) \<Longrightarrow> (\<And>lo. \<not> tlb_hit v la lo) \<Longrightarrow>
    tlb_refill la a v = Some v' \<Longrightarrow> tlb_reach c v'"
| invalidate: "tlb_reach c v \<Longrightarrow> tlb_invalidate pgdir la v = Some v' \<Longrightarrow> tlb_reach c v'"
| rewrite: "tlb_reach c v \<Longrightarrow> find_pte v (v_cur_pgdir v) la = Some (Some a) \<Longrightarrow> (\<And>lo. \<not> tlb_hit v la lo) \<Longrightarrow>
    \<not> bit w 7 \<Longrightarrow> tlb_reach c (store_word a w v)"

lemma tlb_miss_unflagged:
  assumes "tlb_inv v" "find_pte v (v_cur_pgdir v) la = Some (Some a)" "\<And>lo. \<not> tlb_hit v la lo"
  shows "\<not> bit (v_words v a) 7"
  using assms(3) [of "ENTRYLO (v_words v a)"] unfolding tlb_hit_iff [OF assms(1)] by (simp add: entry_def assms(2))

lemma tlb_reach_inv: "tlb_reach c v \<Longrightarrow> c \<Longrightarrow> tlb_inv v"
proof (induction rule: tlb_reach.induct)
  case (load v pgdir)
  then show ?case by (intro load_pgdir_inv) (auto simp: unmarked_def)
next
  case (refill c v la a v')
  note inv = refill(5) [OF refill(6)]
  from tlb_refill_spec [OF inv refill(2) tlb_miss_unflagged [OF inv refill(2,3)]] refill(4) show ?case by auto
next
  case (invalidate c v pgdir la v')
  then show ?case
    using tlb_invalidate_spec [OF invalidate(3) [OF invalidate(4)], of la]
    by (cases "pgdir = v_cur_pgdir v") (auto simp: tlb_invalidate_def)
next
  case (rewrite c v la a w)
  note inv = rewrite(5) [OF rewrite(6)]
  from tlb_inv_store(1) [OF inv rewrite(2) tlb_miss_unflagged [OF inv rewrite(2,3)] rewrite(4)] show ?case .
qed

lemma example_tlb_reach: "tlb_reach True (example_tlb v)"
proof -
  let ?v = "v\<lparr>v_words := example_words, v_npage := 2048, v_algo_hi := replicate 16 0, v_algo_ptr := 0\<rparr>"
  have pt: "pt_ok (?v\<lparr>v_cur_pgdir := 0x80001000\<rparr>)" by (rule example_pt_ok) simp_all
  have "\<not> bit (example_words a) 7" for a by (simp add: example_words_def)
  then have um: "unmarked (?v\<lparr>v_cur_pgdir := 0x80001000\<rparr>) = True"
    by (auto simp: unmarked_def entry_def split: option.splits)
  have "tlb_reach (unmarked (?v\<lparr>v_cur_pgdir := 0x80001000\<rparr>)) (load_pgdir 0x80001000 ?v)"
    using pt by (rule tlb_reach.load) (simp_all add: TLBN_def)
  then show ?thesis unfolding um example_tlb_def .
qed

lemma example_tlb_inv: "tlb_inv (example_tlb v)"
  by (rule tlb_reach_inv [OF example_tlb_reach TrueI])

lemma entry_load_pgdir: "entry (load_pgdir (v_cur_pgdir v) v) = entry v"
  by (rule entry_frame) (simp_all add: load_pgdir_sel)

text \<open>C1. From the loading of a page directory none of whose entries carries \<open>TLB_P\<close> until the next one is
  loaded, however refills, invalidations and updates of entries of absent addresses follow each other,
  the TLB does not answer stale: the processor finds a translation for an address exactly when its
  page-table entry is marked as loaded, and then with the frame and the write permission of that entry.
  The condition is needed: \<^verbatim>\<open>load_pgdir\<close> empties the TLB and leaves the marks of the directory it loads,
  so that after it the TLB and the entries agree if and only if there were none, and a directory that
  is loaded again after its pages were used does have them. The page tables are apart (\<open>pt_ok\<close>).\<close>

theorem tlb_agrees_with_tables:
  assumes "tlb_reach clean v"
  shows "(clean \<longrightarrow> (\<forall>la lo. tlb_hit v la lo \<longleftrightarrow> (\<exists>w. entry v la = Some w \<and> bit w 7 \<and> lo = ENTRYLO w))) \<and>
    (let v' = load_pgdir pgdir v in
       (\<forall>la lo. tlb_hit v' la lo \<longleftrightarrow> (\<exists>w. entry v' la = Some w \<and> bit w 7 \<and> lo = ENTRYLO w)) \<longleftrightarrow> unmarked v')"
proof -
  have "tlb_hit v la lo \<longleftrightarrow> (\<exists>w. entry v la = Some w \<and> bit w 7 \<and> lo = ENTRYLO w)" if clean for la lo
    by (rule tlb_hit_iff [OF tlb_reach_inv [OF assms that]])
  then show ?thesis using load_pgdir_no_hit [of pgdir v] unfolding Let_def unmarked_def by blast
qed

theorem tlb_agrees_with_tables_witness:
  "\<exists>v la lo. tlb_reach True v \<and> tlb_hit v la lo \<and> (\<exists>w. entry v la = Some w \<and> bit w 7 \<and> lo = ENTRYLO w) \<and>
     \<not> (\<forall>la lo. tlb_hit (load_pgdir (v_cur_pgdir v) v) la lo \<longleftrightarrow>
          (\<exists>w. entry (load_pgdir (v_cur_pgdir v) v) la = Some w \<and> bit w 7 \<and> lo = ENTRYLO w))"
proof -
  let ?v = "example_tlb example_vm"
  have u: "\<not> bit (v_words ?v 0x8000200C) 7" by (simp add: example_tlb_pte(2) example_words_def)
  obtain v' w where v': "tlb_refill 0x3000 0x8000200C ?v = Some v'" "entry v' 0x3000 = Some w" "bit w 7"
    using tlb_refill_spec [OF example_tlb_inv example_tlb_pte(1) u] by blast
  have miss: "\<not> tlb_hit ?v 0x3000 lo" for lo by (simp add: example_tlb_def load_pgdir_no_hit)
  note r = tlb_reach.refill [OF example_tlb_reach example_tlb_pte(1) miss v'(1)]
  note agree = tlb_agrees_with_tables [OF r, of "v_cur_pgdir v'", unfolded Let_def]
  have "tlb_hit v' 0x3000 (ENTRYLO w)" using agree v'(2,3) by blast
  moreover have "\<not> unmarked (load_pgdir (v_cur_pgdir v') v')"
    using v'(2,3) by (auto simp: unmarked_def entry_load_pgdir)
  ultimately show ?thesis using r v'(2,3) agree by blast
qed

text \<open>C23. The refill at the end of \<^verbatim>\<open>tlb_miss_handler\<close> never runs out of slots, keeps the invariant, and
  makes the processor find exactly the translation of the entry, evicting another pair if it must.\<close>

theorem tlb_refill_loads:
  assumes "tlb_inv v" "find_pte v (v_cur_pgdir v) la = Some (Some a)" "\<not> bit (v_words v a) 7"
  shows "\<exists>v'. tlb_refill la a v = Some v' \<and> tlb_inv v' \<and> (\<forall>lo. tlb_hit v' la lo \<longleftrightarrow> lo = ENTRYLO (v_words v a))"
proof -
  obtain v' w where v': "tlb_refill la a v = Some v'" "tlb_inv v'" "entry v' la = Some w" "bit w 7"
      "ENTRYLO w = ENTRYLO (v_words v a)"
    using tlb_refill_spec [OF assms] by blast
  with tlb_hit_iff [OF v'(2), of la] show ?thesis by auto
qed

theorem tlb_refill_loads_witness:
  "\<exists>v'. tlb_refill 0x3000 0x8000200C (example_tlb example_vm) = Some v' \<and> tlb_hit v' 0x3000 (ENTRYLO 0x5007)"
  using tlb_refill_loads [OF example_tlb_inv example_tlb_pte(1), of example_vm]
  by (auto simp: example_tlb_pte(2) example_words_def)

text \<open>C24. \<^verbatim>\<open>tlb_invalidate\<close> always returns (its list of unused slots never overflows), keeps the invariant,
  removes the address from the TLB, and leaves the entries of all other pages as they were.\<close>

theorem tlb_invalidate_removes:
  assumes "tlb_inv v"
  shows "\<exists>v'. tlb_invalidate (v_cur_pgdir v) la v = Some v' \<and> tlb_inv v' \<and> (\<forall>lo. \<not> tlb_hit v' la lo) \<and>
    (\<forall>b. PPN b \<noteq> PPN la \<longrightarrow> entry v' b = entry v b)"
  using tlb_invalidate_spec [OF assms, of la] by blast

theorem tlb_invalidate_removes_witness:
  "\<exists>v'. tlb_invalidate (v_cur_pgdir (example_tlb example_vm)) 0x3000 (example_tlb example_vm) = Some v' \<and> (\<forall>lo. \<not> tlb_hit v' 0x3000 lo)"
  using tlb_invalidate_removes [OF example_tlb_inv, of example_vm "0x3000"] by blast

end
