(* ===== verification/Swap.thy ===== *)
theory Swap
  imports Tlb
begin

text \<open>
  \<^verbatim>\<open>kern/mm/swap.c\<close>, \<^verbatim>\<open>swap_fifo.c\<close> and \<^verbatim>\<open>kern/fs/swap/swapfs.c\<close>: the page-replacement framework, its
  FIFO policy and the flash back end, with the physical-page calls of \<^verbatim>\<open>pmm.c\<close> that fall back on it.
  The copies to and from flash are commented out in \<^verbatim>\<open>swapfs.c\<close>, and the model has none. The
  self-tests (\<^verbatim>\<open>check_swap\<close>, \<^verbatim>\<open>_fifo_check_swap\<close>) are not modelled.
\<close>

unbundle bit_operations_syntax

section \<open>swapfs.c\<close>

definition SWAPFS_BASE :: u32 where "SWAPFS_BASE = 0xbe400000"
definition SWAPFS_SIZE :: u32 where "SWAPFS_SIZE = 0x00400000"
definition BLOCKBASE :: "u32 \<Rightarrow> u32" where "BLOCKBASE addr = addr AND 0xff7e0000"
definition BLOCKOFF :: "u32 \<Rightarrow> u32" where "BLOCKOFF addr = addr AND 0x0001f000"
definition swap_FLAGS :: "u32 \<Rightarrow> u32" where "swap_FLAGS e = e AND 0x6"

definition swapfs_clean :: "u32 \<Rightarrow> vmstate \<Rightarrow> vmstate option" where
  "swapfs_clean base v = do { kassert (BLOCKBASE base = base); Some v }"

text \<open>Returns \<open>max_swap_offset\<close>.\<close>

definition swapfs_init :: "vmstate \<Rightarrow> (u32 \<times> vmstate) option" where
  "swapfs_init v = do {
     let max_swap_offset = SWAPFS_SIZE div PGSIZE;
     v \<leftarrow> swapfs_clean (v_clean_block v) v;
     Some (max_swap_offset, v) }"

definition swapfs_read :: "u32 \<Rightarrow> nat \<Rightarrow> vmstate \<Rightarrow> int \<times> vmstate" where
  "swapfs_read e page v = (0, v)"

text \<open>Returns the new value of \<open>*entry\<close>.\<close>

definition swapfs_write :: "u32 \<Rightarrow> nat \<Rightarrow> vmstate \<Rightarrow> (int \<times> u32 \<times> vmstate) option" where
  "swapfs_write e page v = do {
     let empty = 0xbe421000;
     let e = v_clean_block v OR BLOCKOFF empty OR swap_FLAGS e;
     v \<leftarrow> swapfs_clean (BLOCKBASE empty) v;
     let v = v\<lparr>v_clean_block := BLOCKBASE empty\<rparr>;
     Some (0, e, v) }"

section \<open>swap_fifo.c\<close>

definition fifo_init :: int where "fifo_init = 0"

definition fifo_init_mm :: "nat \<Rightarrow> vmstate \<Rightarrow> int \<times> vmstate" where
  "fifo_init_mm mm v =
     (0, upd_mm mm (mm_sm_priv_update (\<lambda>_. True)) (v\<lparr>v_pra_links := list_init PraHead (v_pra_links v)\<rparr>))"

definition fifo_map_swappable :: "nat \<Rightarrow> u32 \<Rightarrow> nat \<Rightarrow> int \<Rightarrow> vmstate \<Rightarrow> (int \<times> vmstate) option" where
  "fifo_map_swappable mm addr page swap_in v = do {
     kassert (mm_sm_priv (v_mms v mm));
     Some (0, v\<lparr>v_pra_links := list_add_before PraHead (PraLink page) (v_pra_links v)\<rparr>) }"

text \<open>With an empty list the victim would be the list head read as a page: no defined result.\<close>

definition fifo_swap_out_victim :: "nat \<Rightarrow> int \<Rightarrow> vmstate \<Rightarrow> (int \<times> nat \<times> vmstate) option" where
  "fifo_swap_out_victim mm in_tick v = do {
     kassert (mm_sm_priv (v_mms v mm));
     kassert (in_tick = 0);
     let victim = list_next PraHead (v_pra_links v);
     let v = v\<lparr>v_pra_links := list_del victim (v_pra_links v)\<rparr>;
     (case victim of PraLink page \<Rightarrow> Some (0, page, v) | PraHead \<Rightarrow> None) }"

definition fifo_set_unswappable :: "nat \<Rightarrow> u32 \<Rightarrow> vmstate \<Rightarrow> int \<times> vmstate" where
  "fifo_set_unswappable mm addr v = (0, v)"

definition fifo_tick_event :: "nat \<Rightarrow> vmstate \<Rightarrow> int \<times> vmstate" where
  "fifo_tick_event mm v = (0, v)"

section \<open>swap.c\<close>

definition MAX_SWAP_OFFSET_LIMIT :: u32 where "MAX_SWAP_OFFSET_LIMIT = 2 ^ 24"

text \<open>\<open>swap_init\<close> up to its self-test.\<close>

definition swap_init :: "vmstate \<Rightarrow> (int \<times> vmstate) option" where
  "swap_init v = do {
     (max_swap_offset, v) \<leftarrow> swapfs_init v;
     kassert (1024 \<le> max_swap_offset \<and> max_swap_offset < MAX_SWAP_OFFSET_LIMIT);
     let r = fifo_init;
     Some (r, if r = 0 then v\<lparr>v_swap_init_ok := True\<rparr> else v) }"

definition swap_init_mm :: "nat \<Rightarrow> vmstate \<Rightarrow> int \<times> vmstate" where
  "swap_init_mm mm v = fifo_init_mm mm v"

definition swap_tick_event :: "nat \<Rightarrow> vmstate \<Rightarrow> int \<times> vmstate" where
  "swap_tick_event mm v = fifo_tick_event mm v"

definition swap_map_swappable :: "nat \<Rightarrow> u32 \<Rightarrow> nat \<Rightarrow> int \<Rightarrow> vmstate \<Rightarrow> (int \<times> vmstate) option" where
  "swap_map_swappable mm addr page swap_in v = fifo_map_swappable mm addr page swap_in v"

definition swap_set_unswappable :: "nat \<Rightarrow> u32 \<Rightarrow> vmstate \<Rightarrow> int \<times> vmstate" where
  "swap_set_unswappable mm addr v = fifo_set_unswappable mm addr v"

definition free_pages :: "nat \<Rightarrow> u32 \<Rightarrow> vmstate \<Rightarrow> vmstate option" where
  "free_pages base n v = do { p \<leftarrow> default_free_pages base n (v_pmm v); Some (v\<lparr>v_pmm := p\<rparr>) }"

definition nr_free_pages :: "vmstate \<Rightarrow> u32" where
  "nr_free_pages v = default_nr_free_pages (v_pmm v)"

text \<open>The loop of \<open>swap_out\<close>: \<open>k\<close> rounds are left and \<open>i\<close> are done. \<open>mm = None\<close> is NULL.\<close>

fun swap_out_loop :: "nat option \<Rightarrow> int \<Rightarrow> nat \<Rightarrow> int \<Rightarrow> vmstate \<Rightarrow> (int \<times> vmstate) option" where
  "swap_out_loop mm in_tick 0 i v = Some (i, v)"
| "swap_out_loop mm in_tick (Suc k) i v = do {
     mm' \<leftarrow> mm;
     (r, page, v) \<leftarrow> fifo_swap_out_victim mm' in_tick v;
     if r \<noteq> 0 then Some (i, v)
     else do {
       let la = v_pra_vaddr v page;
       ptep \<leftarrow> find_pte v (mm_pgdir (v_mms v mm')) la;
       a \<leftarrow> ptep;
       kassert (v_words v a AND PTE_P \<noteq> 0);
       (w, ptep_new, v) \<leftarrow> swapfs_write (v_words v a) page v;
       if w \<noteq> 0 then do {
         (_, v) \<leftarrow> fifo_map_swappable mm' la page 0 v;
         swap_out_loop mm in_tick k (i + 1) v }
       else do {
         v \<leftarrow> tlb_invalidate (mm_pgdir (v_mms v mm')) la v;
         let v = store_word a ptep_new v;
         v \<leftarrow> free_pages page 1 v;
         swap_out_loop mm in_tick k (i + 1) v } } }"

definition swap_out :: "nat option \<Rightarrow> u32 \<Rightarrow> int \<Rightarrow> vmstate \<Rightarrow> (int \<times> vmstate) option" where
  "swap_out mm n in_tick v = swap_out_loop mm in_tick (unat n) 0 v"

text \<open>\<open>alloc_pages\<close> (\<^verbatim>\<open>pmm.c\<close>): a single page is retried after a swap-out, once swapping is on.\<close>

partial_function (option) alloc_pages_loop :: "vmstate \<Rightarrow> u32 \<Rightarrow> (nat option \<times> vmstate) option" where
  "alloc_pages_loop v n = do {
     (page, p) \<leftarrow> default_alloc_pages n (v_pmm v);
     let v = v\<lparr>v_pmm := p\<rparr>;
     if page \<noteq> None \<or> n > 1 \<or> \<not> v_swap_init_ok v then Some (page, v)
     else do {
       (_, v) \<leftarrow> swap_out (v_check_mm v) n 0 v;
       alloc_pages_loop v n } }"

definition alloc_pages :: "u32 \<Rightarrow> vmstate \<Rightarrow> (nat option \<times> vmstate) option" where
  "alloc_pages n v = alloc_pages_loop v n"

definition swap_in :: "nat \<Rightarrow> u32 \<Rightarrow> vmstate \<Rightarrow> (int \<times> nat \<times> vmstate) option" where
  "swap_in mm addr v = do {
     (result, v) \<leftarrow> alloc_pages 1 v;
     page \<leftarrow> result;
     ptep \<leftarrow> find_pte v (mm_pgdir (v_mms v mm)) addr;
     a \<leftarrow> ptep;
     let (r, v) = swapfs_read (v_words v a) page v;
     Some (0, page, v) }"

section \<open>The FIFO policy\<close>

text \<open>\<open>pra_inv v ps\<close>: the list of swappable pages holds \<open>ps\<close>, the oldest first.\<close>

definition pra_inv :: "vmstate \<Rightarrow> nat list \<Rightarrow> bool" where
  "pra_inv v ps \<longleftrightarrow> ring (v_pra_links v) PraHead (map PraLink ps)"

lemma fifo_map_swappable_spec:
  assumes "pra_inv v ps" "mm_sm_priv (v_mms v mm)" "page \<notin> set ps"
  shows "\<exists>v'. fifo_map_swappable mm addr page k v = Some (0, v') \<and> pra_inv v' (ps @ [page]) \<and> v_mms v' = v_mms v"
proof -
  have "ring (list_add_before PraHead (PraLink page) (v_pra_links v)) PraHead (map PraLink ps @ [PraLink page])"
    using assms by (intro ring_add_before_head) (auto simp: pra_inv_def)
  with assms show ?thesis by (simp add: fifo_map_swappable_def pra_inv_def)
qed

lemma fifo_victim_spec:
  assumes "pra_inv v (p # ps)" "mm_sm_priv (v_mms v mm)"
  shows "\<exists>v'. fifo_swap_out_victim mm 0 v = Some (0, p, v') \<and> pra_inv v' ps \<and> v_mms v' = v_mms v"
proof -
  have r: "ring (v_pra_links v) PraHead ([] @ PraLink p # map PraLink ps)" using assms(1) by (simp add: pra_inv_def)
  from ring_del [OF r] ring_next_head [OF r] assms show ?thesis
    by (simp add: fifo_swap_out_victim_def pra_inv_def)
qed

text \<open>Out of memory with swapping on and no self-test running: \<open>swap_out\<close> is called with a NULL
  \<open>mm_struct\<close>, so the request for one page never gets the NULL answer its callers test for.\<close>

lemma alloc_page_exhausted:
  assumes "v_swap_init_ok v" "v_check_mm v = None" "default_alloc_pages 1 (v_pmm v) = Some (None, p)"
  shows "alloc_pages 1 v = None"
  unfolding alloc_pages_def using assms by (subst alloc_pages_loop.simps) (simp add: swap_out_def)

lemma alloc_pages_some:
  assumes "default_alloc_pages n (v_pmm v) = Some (Some page, p)"
  shows "alloc_pages n v = Some (Some page, v\<lparr>v_pmm := p\<rparr>)"
  unfolding alloc_pages_def using assms by (subst alloc_pages_loop.simps) simp

lemma alloc_pages_fail:
  assumes "default_alloc_pages n (v_pmm v) = Some (None, p)" "\<not> v_swap_init_ok v \<or> n > 1"
  shows "alloc_pages n v = Some (None, v\<lparr>v_pmm := p\<rparr>)"
  unfolding alloc_pages_def using assms by (subst alloc_pages_loop.simps) auto

section \<open>Properties\<close>

text \<open>Page replacement is first-in first-out: a page made swappable goes to the end of the list, and
  the victim is the page that has been on it longest.\<close>

theorem swap_victim_is_oldest:
  assumes "pra_inv v (p # ps)" "mm_sm_priv (v_mms v mm)" "page \<notin> set (p # ps)"
  shows "\<exists>v1 v2. swap_map_swappable mm addr page k v = Some (0, v1) \<and>
    fifo_swap_out_victim mm 0 v1 = Some (0, p, v2) \<and> pra_inv v2 (ps @ [page])"
proof -
  obtain v1 where v1: "fifo_map_swappable mm addr page k v = Some (0, v1)" "pra_inv v1 (p # ps @ [page])" "v_mms v1 = v_mms v"
    using fifo_map_swappable_spec [OF assms] by auto
  from fifo_victim_spec [OF v1(2)] v1 assms(2) show ?thesis by (auto simp: swap_map_swappable_def)
qed

theorem swap_victim_is_oldest_witness:
  "\<exists>v1 v2. swap_map_swappable 0 0 8 0 example_vm = Some (0, v1) \<and> fifo_swap_out_victim 0 0 v1 = Some (0, 3, v2)"
proof -
  have "pra_inv example_vm [3]"
    by (simp add: pra_inv_def example_vm_def ring_def list_init_def list_add_before_def list_add_raw_def)
  moreover have "mm_sm_priv (v_mms example_vm 0)" by (simp add: example_vm_def)
  ultimately have "\<exists>v1 v2. swap_map_swappable 0 0 8 0 example_vm = Some (0, v1) \<and>
      fifo_swap_out_victim 0 0 v1 = Some (0, 3, v2) \<and> pra_inv v2 ([] @ [8])"
    by (rule swap_victim_is_oldest) simp
  then show ?thesis by blast
qed

text \<open>Once swapping is on and no self-test runs, a request for one page when none is free does not
  return NULL to its caller: \<^verbatim>\<open>alloc_pages\<close> calls \<^verbatim>\<open>swap_out\<close> with a NULL \<open>mm_struct\<close>, which it
  dereferences.\<close>

theorem alloc_page_out_of_memory:
  assumes "v_swap_init_ok v" "v_check_mm v = None" "default_alloc_pages 1 (v_pmm v) = Some (None, p)"
  shows "alloc_pages 1 v = None"
  by (rule alloc_page_exhausted [OF assms])

theorem alloc_page_out_of_memory_witness:
  "alloc_pages 1 (example_vm\<lparr>v_swap_init_ok := True, v_pmm := example_pmm\<lparr>pm_nr_free := 0\<rparr>\<rparr>) = None"
  by (rule alloc_page_out_of_memory) (simp_all add: example_vm_def default_alloc_pages_def)

end
