(* ===== verification/Pmm.thy ===== *)
theory Pmm
  imports Swap
begin

text \<open>
  \<^verbatim>\<open>kern/mm/pmm.c\<close>: page tables. Insertion and removal of mappings with the reference counts of the
  pages, over the physical allocator and the TLB. A NULL page-table entry or page that the code
  dereferences is \<open>None\<close>.
\<close>

unbundle bit_operations_syntax

section \<open>Start-up\<close>

definition init_memmap :: "nat \<Rightarrow> u32 \<Rightarrow> vmstate \<Rightarrow> vmstate option" where
  "init_memmap base n v = do { p \<leftarrow> default_init_memmap base n (v_pmm v); Some (v\<lparr>v_pmm := p\<rparr>) }"

text \<open>\<open>page_init\<close>: \<open>pages_kva\<close> is the address of the page descriptors, the end of the kernel image
  rounded up to a page by the caller's \<open>kend\<close>; a descriptor has 32 bytes.\<close>

definition page_init :: "u32 \<Rightarrow> vmstate \<Rightarrow> vmstate option" where
  "page_init kend v = do {
     let maxpa = KMEMSIZE;
     let v = v\<lparr>v_npage := maxpa div PGSIZE\<rparr>;
     let pages_kva = ROUNDUP kend PGSIZE;
     let v = upd_pmm (fold SetPageReserved [0 ..< unat (v_npage v)]) v;
     freemem \<leftarrow> PADDR (pages_kva + 32 * v_npage v);
     let begin' = ROUNDUP freemem PGSIZE;
     let end' = ROUNDDOWN KMEMSIZE PGSIZE;
     if begin' < end' then do {
       base \<leftarrow> pa2page v begin';
       init_memmap base ((end' - begin') div PGSIZE) v }
     else Some v }"

section \<open>Page-table entries\<close>

definition get_pte :: "u32 \<Rightarrow> u32 \<Rightarrow> bool \<Rightarrow> vmstate \<Rightarrow> (u32 option \<times> vmstate) option" where
  "get_pte pgdir la create v = do {
     let pdep = pde_addr pgdir la;
     if v_words v pdep AND PTE_P = 0 \<and> \<not> create then Some (None, v)
     else do {
       v \<leftarrow> (if v_words v pdep AND PTE_P = 0 then do {
               (page, v) \<leftarrow> alloc_pages 1 v;
               p \<leftarrow> page;
               let v = upd_pmm (set_page_ref p 1) v;
               let v = store_word pdep (page2pa p OR PTE_P OR PTE_W OR PTE_U) v;
               kva \<leftarrow> KADDR v (page2pa p);
               Some (clear_page kva v) }
             else Some v);
       res \<leftarrow> pte_at v (v_words v pdep) la;
       Some (Some res, v) } }"

lemma get_pte_find: "get_pte pgdir la False v = map_option (\<lambda>r. (r, v)) (find_pte v pgdir la)"
  by (simp add: get_pte_def find_pte_def Let_def split: option.split bind_split)

definition get_page :: "u32 \<Rightarrow> u32 \<Rightarrow> vmstate \<Rightarrow> (nat option \<times> u32 option) option" where
  "get_page pgdir la v = do {
     (ptep, _) \<leftarrow> get_pte pgdir la False v;
     (case ptep of
        Some a \<Rightarrow> if v_words v a AND PTE_P \<noteq> 0
                  then do { p \<leftarrow> pa2page v (v_words v a); Some (Some p, ptep) }
                  else Some (None, ptep)
      | None \<Rightarrow> Some (None, ptep)) }"

definition page_remove_pte :: "u32 \<Rightarrow> u32 \<Rightarrow> u32 \<Rightarrow> vmstate \<Rightarrow> vmstate option" where
  "page_remove_pte pgdir la ptep v =
     (if v_words v ptep AND PTE_P > 0 then do {
        page \<leftarrow> pte2page v (v_words v ptep);
        let v = page_ref_dec page v;
        v \<leftarrow> (if page_ref v page = 0 then free_pages page 1 v else Some v);
        v \<leftarrow> tlb_invalidate pgdir la v;
        Some (store_word ptep 0 v) }
      else Some v)"

definition page_remove :: "u32 \<Rightarrow> u32 \<Rightarrow> vmstate \<Rightarrow> vmstate option" where
  "page_remove pgdir la v = do {
     (ptep, v) \<leftarrow> get_pte pgdir la False v;
     (case ptep of Some a \<Rightarrow> page_remove_pte pgdir la a v | None \<Rightarrow> Some v) }"

definition page_insert :: "u32 \<Rightarrow> nat \<Rightarrow> u32 \<Rightarrow> u32 \<Rightarrow> vmstate \<Rightarrow> (int \<times> vmstate) option" where
  "page_insert pgdir page la perm v = do {
     (ptep, v) \<leftarrow> get_pte pgdir la True v;
     (case ptep of
        None \<Rightarrow> Some (- E_NO_MEM, v)
      | Some a \<Rightarrow> do {
          let v = page_ref_inc page v;
          v \<leftarrow> (if v_words v a AND PTE_P \<noteq> 0 then do {
                  p \<leftarrow> pte2page v (v_words v a);
                  if p = page then Some (page_ref_dec page v)
                  else page_remove_pte pgdir la a v }
                else Some v);
          v \<leftarrow> tlb_invalidate pgdir la v;
          Some (0, store_word a (page2pa page OR PTE_P OR perm) v) }) }"

definition pgdir_alloc_page :: "u32 \<Rightarrow> u32 \<Rightarrow> u32 \<Rightarrow> vmstate \<Rightarrow> (nat option \<times> vmstate) option" where
  "pgdir_alloc_page pgdir la perm v = do {
     (page, v) \<leftarrow> alloc_pages 1 v;
     (case page of
        None \<Rightarrow> Some (None, v)
      | Some p \<Rightarrow> do {
          (r, v) \<leftarrow> page_insert pgdir p la perm v;
          if r \<noteq> 0 then do { v \<leftarrow> free_pages p 1 v; Some (None, v) }
          else (case (v_swap_init_ok v, v_check_mm v) of
                  (True, Some mm) \<Rightarrow> do {
                    (_, v) \<leftarrow> swap_map_swappable mm la p 0 v;
                    let v = v\<lparr>v_pra_vaddr := (v_pra_vaddr v)(p := la)\<rparr>;
                    kassert (page_ref v p = 1);
                    Some (Some p, v) }
                | _ \<Rightarrow> Some (Some p, v)) }) }"

section \<open>Ranges\<close>

partial_function (option) unmap_range_loop :: "u32 \<Rightarrow> vmstate \<Rightarrow> u32 \<Rightarrow> u32 \<Rightarrow> vmstate option" where
  "unmap_range_loop pgdir v start end = do {
     ptep \<leftarrow> find_pte v pgdir start;
     (start, v) \<leftarrow>
       (case ptep of
          None \<Rightarrow> Some (ROUNDDOWN (start + PTSIZE) PTSIZE, v)
        | Some a \<Rightarrow> do {
            v \<leftarrow> (if v_words v a \<noteq> 0 then page_remove_pte pgdir start a v else Some v);
            Some (start + PGSIZE, v) });
     if start \<noteq> 0 \<and> start < end then unmap_range_loop pgdir v start end else Some v }"

definition range_ok :: "u32 \<Rightarrow> u32 \<Rightarrow> unit option" where
  "range_ok start end = do {
     kassert (start mod PGSIZE = 0 \<and> end mod PGSIZE = 0);
     kassert (USER_ACCESS start end) }"

definition unmap_range :: "u32 \<Rightarrow> u32 \<Rightarrow> u32 \<Rightarrow> vmstate \<Rightarrow> vmstate option" where
  "unmap_range pgdir start end v = do {
     range_ok start end;
     unmap_range_loop pgdir v start end }"

partial_function (option) exit_range_loop :: "u32 \<Rightarrow> vmstate \<Rightarrow> u32 \<Rightarrow> u32 \<Rightarrow> vmstate option" where
  "exit_range_loop pgdir v start end = do {
     let pde = v_words v (pde_addr pgdir start);
     v \<leftarrow> (if pde AND PTE_P \<noteq> 0 then do {
             p \<leftarrow> pde2page v pde;
             v \<leftarrow> free_pages p 1 v;
             Some (store_word (pde_addr pgdir start) 0 v) }
           else Some v);
     let start = start + PTSIZE;
     if start \<noteq> 0 \<and> start < end then exit_range_loop pgdir v start end else Some v }"

definition exit_range :: "u32 \<Rightarrow> u32 \<Rightarrow> u32 \<Rightarrow> vmstate \<Rightarrow> vmstate option" where
  "exit_range pgdir start end v = do {
     range_ok start end;
     exit_range_loop pgdir v (ROUNDDOWN start PTSIZE) end }"

text \<open>One page of \<open>copy_range\<close>: the entry at \<open>a\<close> is present.\<close>

definition copy_range_page :: "u32 \<Rightarrow> u32 \<Rightarrow> u32 \<Rightarrow> vmstate \<Rightarrow> (int \<times> vmstate) option" where
  "copy_range_page to start a v = do {
     (nptep, v) \<leftarrow> get_pte to start True v;
     (case nptep of
        None \<Rightarrow> Some (- E_NO_MEM, v)
      | Some _ \<Rightarrow> do {
          let perm = v_words v a AND PTE_USER;
          page \<leftarrow> pte2page v (v_words v a);
          (npage, v) \<leftarrow> alloc_pages 1 v;
          np \<leftarrow> npage;
          dst \<leftarrow> page2kva v np;
          src \<leftarrow> page2kva v page;
          let v = copy_page dst src v;
          (_, v) \<leftarrow> page_insert to np start perm v;
          Some (0, v) }) }"

partial_function (option) copy_range_loop ::
  "u32 \<Rightarrow> u32 \<Rightarrow> vmstate \<Rightarrow> u32 \<Rightarrow> u32 \<Rightarrow> (int \<times> vmstate) option" where
  "copy_range_loop to from' v start end = do {
     ptep \<leftarrow> find_pte v from' start;
     (r, start, v) \<leftarrow>
       (case ptep of
          None \<Rightarrow> Some (0, ROUNDDOWN (start + PTSIZE) PTSIZE, v)
        | Some a \<Rightarrow> do {
            (r, v) \<leftarrow> (if v_words v a AND PTE_P \<noteq> 0 then copy_range_page to start a v else Some (0, v));
            Some (r, start + PGSIZE, v) });
     if r \<noteq> 0 then Some (r, v)
     else if start \<noteq> 0 \<and> start < end then copy_range_loop to from' v start end else Some (0, v) }"

definition copy_range :: "u32 \<Rightarrow> u32 \<Rightarrow> u32 \<Rightarrow> u32 \<Rightarrow> vmstate \<Rightarrow> (int \<times> vmstate) option" where
  "copy_range to from' start end v = do {
     range_ok start end;
     copy_range_loop to from' v start end }"

text \<open>\<open>boot_map_segment\<close>: the loop for \<open>n\<close> pages.\<close>

fun boot_map_loop :: "u32 \<Rightarrow> u32 \<Rightarrow> nat \<Rightarrow> u32 \<Rightarrow> u32 \<Rightarrow> vmstate \<Rightarrow> vmstate option" where
  "boot_map_loop pgdir la 0 pa perm v = Some v"
| "boot_map_loop pgdir la (Suc n) pa perm v = do {
     (ptep, v) \<leftarrow> get_pte pgdir la True v;
     a \<leftarrow> ptep;
     boot_map_loop pgdir (la + PGSIZE) n (pa + PGSIZE) perm (store_word a (pa OR PTE_P OR perm) v) }"

definition boot_map_segment :: "u32 \<Rightarrow> u32 \<Rightarrow> u32 \<Rightarrow> u32 \<Rightarrow> u32 \<Rightarrow> vmstate \<Rightarrow> vmstate option" where
  "boot_map_segment pgdir la size' pa perm v = do {
     kassert (PGOFF la = PGOFF pa);
     let n = ROUNDUP (size' + PGOFF la) PGSIZE div PGSIZE;
     boot_map_loop pgdir (ROUNDDOWN la PGSIZE) (unat n) (ROUNDDOWN pa PGSIZE) perm v }"

definition boot_alloc_page :: "vmstate \<Rightarrow> (u32 \<times> vmstate) option" where
  "boot_alloc_page v = do {
     (p, v) \<leftarrow> alloc_pages 1 v;
     p \<leftarrow> p;
     kva \<leftarrow> page2kva v p;
     Some (kva, v) }"

section \<open>Listing a page table\<close>

definition perm2str :: "u32 \<Rightarrow> string" where
  "perm2str perm =
     [if perm AND PTE_U \<noteq> 0 then CHR ''u'' else CHR ''-'', CHR ''r'',
      if perm AND PTE_W \<noteq> 0 then CHR ''w'' else CHR ''-'']"

text \<open>The two scans of \<open>get_pgtable_items\<close> over a table of words; the result is the permission and,
  when it is not 0, the range found.\<close>

function pgtable_skip :: "(nat \<Rightarrow> u32) \<Rightarrow> nat \<Rightarrow> nat \<Rightarrow> nat" where
  "pgtable_skip table right start =
     (if start < right \<and> table start AND PTE_P = 0 then pgtable_skip table right (start + 1) else start)"
  by auto
termination by (relation "measure (\<lambda>(table, right, start). right - start)") auto

function pgtable_run :: "(nat \<Rightarrow> u32) \<Rightarrow> u32 \<Rightarrow> nat \<Rightarrow> nat \<Rightarrow> nat" where
  "pgtable_run table perm right start =
     (if start < right \<and> table start AND PTE_USER = perm then pgtable_run table perm right (start + 1) else start)"
  by auto
termination by (relation "measure (\<lambda>(table, perm, right, start). right - start)") auto

declare pgtable_skip.simps [simp del] pgtable_run.simps [simp del]

definition get_pgtable_items :: "nat \<Rightarrow> nat \<Rightarrow> (nat \<Rightarrow> u32) \<Rightarrow> u32 \<times> (nat \<times> nat) option" where
  "get_pgtable_items right start table =
     (if start \<ge> right then (0, None)
      else let start = pgtable_skip table right start in
        if start < right then
          let left_store = start; perm = table start AND PTE_USER; start = pgtable_run table perm right (start + 1)
          in (perm, Some (left_store, start))
        else (0, None))"

section \<open>Mapping and unmapping a page of the directory in use\<close>

lemma pmm_frame:
  "find_pte (v\<lparr>v_pmm := p\<rparr>) pgdir la = find_pte v pgdir la" "entry (v\<lparr>v_pmm := p\<rparr>) = entry v"
  "pte2page (v\<lparr>v_pmm := p\<rparr>) e = pte2page v e"
  using find_pte_frame [of "v\<lparr>v_pmm := p\<rparr>" v] entry_frame [of "v\<lparr>v_pmm := p\<rparr>" v]
  by (simp_all add: pte2page_def pa2page_def)

lemma page_ref_upds:
  "page_ref_inc p v = v\<lparr>v_pmm := upd_page p (pg_ref_update (\<lambda>r. r + 1)) (v_pmm v)\<rparr>"
  "page_ref_dec p v = v\<lparr>v_pmm := upd_page p (pg_ref_update (\<lambda>r. r - 1)) (v_pmm v)\<rparr>"
  by (simp_all add: page_ref_inc_def page_ref_dec_def upd_pmm_def)

text \<open>\<open>droppable v q\<close>: giving up one reference to \<open>q\<close> ends without a panic.\<close>

definition droppable :: "vmstate \<Rightarrow> nat \<Rightarrow> bool" where
  "droppable v q \<longleftrightarrow> (page_ref v q = 1 \<longrightarrow> free_pages q 1 (page_ref_dec q v) \<noteq> None)"

lemma present_pos: "(w :: u32) AND PTE_P > 0 \<longleftrightarrow> w AND PTE_P \<noteq> 0"
  by (simp add: word_greater_zero_iff)

lemma page_remove_pte_spec:
  assumes inv: "tlb_inv v" and a: "find_pte v (v_cur_pgdir v) la = Some (Some a)"
    and pres: "v_words v a AND PTE_P \<noteq> 0" "pte2page v (v_words v a) = Some q" "droppable v q"
  shows "\<exists>v'. page_remove_pte (v_cur_pgdir v) la a v = Some v' \<and> tlb_inv v' \<and>
    entry v' = page_upd la 0 (entry v) \<and> v_cur_pgdir v' = v_cur_pgdir v \<and> v_npage v' = v_npage v \<and>
    (\<forall>b. find_pte v' (v_cur_pgdir v) b = find_pte v (v_cur_pgdir v) b) \<and>
    page_ref (v'\<lparr>v_pmm := v_pmm v\<rparr>) q = page_ref v q"
proof -
  have "\<exists>p. (if page_ref (page_ref_dec q v) q = 0 then free_pages q 1 (page_ref_dec q v)
      else Some (page_ref_dec q v)) = Some (v\<lparr>v_pmm := p\<rparr>)"
    using pres(3)
    by (auto simp: droppable_def page_ref_upds page_ref_def upd_page_def free_pages_def split: option.splits bind_splits)
  then obtain p where p: "(if page_ref (page_ref_dec q v) q = 0 then free_pages q 1 (page_ref_dec q v)
      else Some (page_ref_dec q v)) = Some (v\<lparr>v_pmm := p\<rparr>)" by blast
  let ?v = "v\<lparr>v_pmm := p\<rparr>"
  have inv1: "tlb_inv ?v" using inv by (simp only: tlb_inv_pmm)
  obtain v' where v': "tlb_invalidate (v_cur_pgdir ?v) la ?v = Some v'" "tlb_inv v'" "\<forall>lo. \<not> tlb_hit v' la lo"
      "\<forall>b. PPN b \<noteq> PPN la \<longrightarrow> entry v' b = entry ?v b"
      "\<forall>b. find_pte v' (v_cur_pgdir ?v) b = find_pte ?v (v_cur_pgdir ?v) b"
      "v_cur_pgdir v' = v_cur_pgdir ?v" "v_npage v' = v_npage ?v" "v_pmm v' = v_pmm ?v"
    using tlb_invalidate_spec [OF inv1, of la] by blast
  have a': "find_pte v' (v_cur_pgdir v') la = Some (Some a)" using v'(5,6) a by (simp add: pmm_frame)
  have "\<not> bit (v_words v' a) 7"
    using tlb_hit_flagged [OF v'(2), of la "v_words v' a"] v'(3) a' by (auto simp: entry_def)
  note st = tlb_inv_store [OF v'(2) a' this, of 0, simplified]
  have "page_upd la 0 (entry v') = page_upd la 0 (entry v)"
    using v'(4) by (intro ext) (auto simp: page_upd_def pmm_frame)
  moreover have "find_pte (store_word a 0 v') (v_cur_pgdir v) b = find_pte v (v_cur_pgdir v) b" for b
  proof -
    have "pt_ok v'" using v'(2) unfolding tlb_inv_def by blast
    from store_entry(1) [OF this a', of 0 b] v'(5,6) show ?thesis by (simp add: pmm_frame)
  qed
  moreover have "page_remove_pte (v_cur_pgdir v) la a v = Some (store_word a 0 v')"
    using pres(1,2) p v'(1) by (simp add: page_remove_pte_def present_pos)
  ultimately show ?thesis using st v'(6,7) by (simp add: page_ref_def)
qed

text \<open>After \<open>page_insert\<close> the page is mapped at \<open>la\<close>, no other mapping has changed, and the TLB holds
  nothing for \<open>la\<close> and agrees with the tables.\<close>

lemma perm_bits:
  assumes "perm AND PTE_USER = perm"
  shows "\<not> bit (page2pa p OR PTE_P OR perm) 7" "(PTE_P OR perm) AND 0xFFF = PTE_P OR perm"
    "(PTE_P OR perm) AND PTE_P \<noteq> 0"
proof -
  have u: "PTE_USER = mask 3" by (simp add: PTE_USER_def PTE_U_def PTE_W_def PTE_P_def mask_eq_exp_minus_1)
  have b: "\<not> bit perm n" if "3 \<le> n" for n
  proof -
    have "\<not> bit (perm AND mask 3) n" using that by (simp add: bit_simps)
    then show ?thesis using assms unfolding u by simp
  qed
  have P: "PTE_P = bit_mask 0" by (simp add: PTE_P_def bit_mask_def)
  show "\<not> bit (page2pa p OR PTE_P OR perm) 7"
    by (simp add: bit_simps b P bit_bit_mask page_bits_high)
  show "(PTE_P OR perm) AND 0xFFF = PTE_P OR perm"
  proof (rule bit_word_eqI)
    fix n
    show "bit ((PTE_P OR perm) AND 0xFFF) n = bit (PTE_P OR perm) n"
      using b [of n] by (cases "n < 12") (auto simp: P mask_consts bit_simps bit_bit_mask)
  qed
  show "(PTE_P OR perm) AND PTE_P \<noteq> 0" by (simp add: P bit_mask_def)
qed

lemma page_insert_spec:
  assumes inv: "tlb_inv v" and a: "find_pte v (v_cur_pgdir v) la = Some (Some a)" and perm: "perm AND PTE_USER = perm"
    and old: "v_words v a AND PTE_P \<noteq> 0 \<Longrightarrow> \<exists>q. pte2page v (v_words v a) = Some q \<and>
      (q \<noteq> page \<longrightarrow> droppable (page_ref_inc page v) q)"
  shows "\<exists>v'. page_insert (v_cur_pgdir v) page la perm v = Some (0, v') \<and> tlb_inv v' \<and>
    entry v' = page_upd la (page2pa page OR PTE_P OR perm) (entry v) \<and> (\<forall>lo. \<not> tlb_hit v' la lo) \<and>
    v_cur_pgdir v' = v_cur_pgdir v \<and> v_npage v' = v_npage v \<and>
    (\<forall>b. find_pte v' (v_cur_pgdir v) b = find_pte v (v_cur_pgdir v) b)"
proof -
  let ?C = "v_cur_pgdir v" and ?w = "page2pa page OR PTE_P OR perm"
  let ?v1 = "page_ref_inc page v"
  have gp: "get_pte ?C la True v = Some (Some a, v)"
    using a by (auto simp: get_pte_def find_pte_def Let_def split: if_splits bind_splits)
  have same1: "v_words ?v1 = v_words v" "v_cur_pgdir ?v1 = ?C" "v_npage ?v1 = v_npage v" "entry ?v1 = entry v"
      "\<And>b. find_pte ?v1 ?C b = find_pte v ?C b" "\<And>e. pte2page ?v1 e = pte2page v e" "tlb_inv ?v1"
    using inv by (simp_all add: page_ref_upds pmm_frame tlb_inv_pmm)
  have "\<exists>v2. (if v_words ?v1 a AND PTE_P \<noteq> 0 then do {
                  p \<leftarrow> pte2page ?v1 (v_words ?v1 a);
                  if p = page then Some (page_ref_dec page ?v1)
                  else page_remove_pte ?C la a ?v1 }
                else Some ?v1) = Some v2 \<and> tlb_inv v2 \<and> v_cur_pgdir v2 = ?C \<and> v_npage v2 = v_npage v \<and>
      (\<forall>b. PPN b \<noteq> PPN la \<longrightarrow> entry v2 b = entry v b) \<and> (\<forall>b. find_pte v2 ?C b = find_pte v ?C b)"
  proof (cases "v_words v a AND PTE_P \<noteq> 0")
    case False
    then show ?thesis using same1 by simp
  next
    case True
    then obtain q where q: "pte2page v (v_words v a) = Some q" "q \<noteq> page \<longrightarrow> droppable ?v1 q" using old by blast
    show ?thesis
    proof (cases "q = page")
      case t: True
      have "tlb_inv (page_ref_dec page ?v1)" "v_cur_pgdir (page_ref_dec page ?v1) = ?C"
        "v_npage (page_ref_dec page ?v1) = v_npage v" "entry (page_ref_dec page ?v1) = entry v"
        "\<And>b. find_pte (page_ref_dec page ?v1) ?C b = find_pte v ?C b"
        using inv by (simp_all add: page_ref_upds pmm_frame tlb_inv_pmm)
      then show ?thesis using True t q same1 by simp
    next
      case f: False
      have a1: "find_pte ?v1 (v_cur_pgdir ?v1) la = Some (Some a)" using a same1 by simp
      have pr: "v_words ?v1 a AND PTE_P \<noteq> 0" "pte2page ?v1 (v_words ?v1 a) = Some q" "droppable ?v1 q"
        using True q f same1(1,6) by simp_all
      obtain v2 where v2: "page_remove_pte ?C la a ?v1 = Some v2" "tlb_inv v2" "entry v2 = page_upd la 0 (entry v)"
          "v_cur_pgdir v2 = ?C" "v_npage v2 = v_npage v" "\<forall>b. find_pte v2 ?C b = find_pte v ?C b"
        using page_remove_pte_spec [OF same1(7) a1 pr] unfolding same1(2-5) by blast
      then show ?thesis using pr(2) f True same1(1,6) q(1) by (simp add: page_upd_other)
    qed
  qed
  then obtain v2 where v2: "(if v_words ?v1 a AND PTE_P \<noteq> 0 then do {
                  p \<leftarrow> pte2page ?v1 (v_words ?v1 a);
                  if p = page then Some (page_ref_dec page ?v1)
                  else page_remove_pte ?C la a ?v1 }
                else Some ?v1) = Some v2" "tlb_inv v2" "v_cur_pgdir v2 = ?C" "v_npage v2 = v_npage v"
      "\<forall>b. PPN b \<noteq> PPN la \<longrightarrow> entry v2 b = entry v b" "\<forall>b. find_pte v2 ?C b = find_pte v ?C b" by blast
  obtain v3 where v3: "tlb_invalidate (v_cur_pgdir v2) la v2 = Some v3" "tlb_inv v3" "\<forall>lo. \<not> tlb_hit v3 la lo"
      "\<forall>b. PPN b \<noteq> PPN la \<longrightarrow> entry v3 b = entry v2 b"
      "\<forall>b. find_pte v3 (v_cur_pgdir v2) b = find_pte v2 (v_cur_pgdir v2) b"
      "v_cur_pgdir v3 = v_cur_pgdir v2" "v_npage v3 = v_npage v2"
    using tlb_invalidate_spec [OF v2(2), of la] by blast
  have a3: "find_pte v3 (v_cur_pgdir v3) la = Some (Some a)" using v3(5,6) v2(3,6) a by simp
  have "\<not> bit (v_words v3 a) 7"
    using tlb_hit_flagged [OF v3(2), of la "v_words v3 a"] v3(3) a3 by (auto simp: entry_def)
  note st = tlb_inv_store [OF v3(2) a3 this perm_bits(1) [OF perm, of page]]
  have e: "entry (store_word a ?w v3) = page_upd la ?w (entry v)"
    unfolding st(2) using v3(4) v2(5) by (intro ext) (auto simp: page_upd_def)
  have "\<not> tlb_hit (store_word a ?w v3) la lo" for lo
    using tlb_hit_sound [OF st(1), of la lo] perm_bits(1) [OF perm, of page] by (auto simp: e page_upd_same)
  moreover have "page_insert ?C page la perm v = Some (0, store_word a ?w v3)"
    using gp v2(1) v3(1) v2(3) by (simp add: page_insert_def Let_def)
  moreover have "find_pte (store_word a ?w v3) ?C b = find_pte v ?C b" for b
  proof -
    have "pt_ok v3" using v3(2) unfolding tlb_inv_def by blast
    from store_entry(1) [OF this a3, of ?w b] v3(5,6) v2(3,6) show ?thesis by simp
  qed
  ultimately show ?thesis using st(1) e v3(6,7) v2(3,4) by (simp add: exI [of _ "store_word a ?w v3"])
qed

section \<open>A missing page table\<close>

lemma PPN_page_add:
  assumes "k AND 0xFFF = 0" "o' < 0x1000"
  shows "PPN (k + o') = PPN k"
proof -
  have o: "\<not> bit o' n" if "12 \<le> n" for n
  proof -
    have "(2::nat) ^ 12 \<le> 2 ^ n" using that by (rule power_increasing) simp
    then have "unat o' < 2 ^ n" using assms(2) by (simp add: word_less_nat_alt del: of_nat_unat)
    then have "\<not> bit (unat o') n" by (simp add: bit_iff_odd)
    then show ?thesis by (simp add: bit_unsigned_iff)
  qed
  have k: "\<not> bit k n" if "n < 12" for n
  proof -
    have "\<not> bit (k AND mask 12) n" using assms(1) by (simp add: mask_consts)
    then show ?thesis using that by (simp add: bit_simps)
  qed
  have "k AND o' = 0"
  proof (rule bit_word_eqI)
    fix n show "bit (k AND o') n = bit (0 :: u32) n" using o [of n] k [of n] by (cases "n < 12") (auto simp: bit_simps)
  qed
  then have "k + o' = k OR o'" using word_plus_and_or [of k o'] by simp
  then show ?thesis using o by (intro bit_word_eqI) (simp add: PPN_def bit_simps)
qed

lemma in_page_PPN: "in_page kva a \<Longrightarrow> kva AND 0xFFF = 0 \<Longrightarrow> PPN a = PPN kva"
  using PPN_page_add [of kva "a - kva"] by (simp add: in_page_def PGSIZE_def)

lemma in_page_index: "unat x < 1024 \<Longrightarrow> in_page kva (kva + 4 * x)"
proof -
  assume x: "unat x < 1024"
  then have "unat (4 * x) = 4 * unat x" by (simp add: unat_word_ariths del: of_nat_unat)
  with x show ?thesis by (simp add: in_page_def PGSIZE_def word_less_nat_alt del: of_nat_unat)
qed

lemma index_inj: "unat x < 1024 \<Longrightarrow> unat y < 1024 \<Longrightarrow> k + 4 * x = k + 4 * (y :: u32) \<longleftrightarrow> x = y"
proof
  assume x: "unat x < 1024" "unat y < 1024" and e: "k + 4 * x = k + 4 * y"
  have "unat (4 * x) = 4 * unat x" "unat (4 * y) = 4 * unat y"
    using x by (simp_all add: unat_word_ariths del: of_nat_unat)
  moreover have "4 * x = 4 * y" using e by simp
  ultimately have "4 * unat x = 4 * unat y" by simp
  then show "x = y" by (simp add: word_unat_eq_iff)
qed simp

lemma aligned_KERNBASE: "pa AND 0xFFF = 0 \<Longrightarrow> (pa + KERNBASE) AND 0xFFF = 0"
proof -
  assume a: "pa AND 0xFFF = 0"
  have "KERNBASE = bit_mask 31" by (simp add: KERNBASE_def bit_mask_def)
  then have "take_bit 12 KERNBASE = 0" by (simp add: bit_mask_def take_bit_push_bit KERNBASE_def)
  moreover have "take_bit 12 pa = 0" using a by (simp add: mask_consts take_bit_eq_mask)
  ultimately have "4096 dvd unat pa" "4096 dvd unat KERNBASE"
    by (simp_all add: KERNBASE_def take_bit_eq_mod unat_eq_0 [symmetric] unat_mod dvd_eq_mod_eq_0 del: unat_eq_0 of_nat_unat)
  then have "4096 dvd (unat pa + unat KERNBASE) mod 2 ^ 32"
    by (intro dvd_mod) simp_all
  then have "unat (pa + KERNBASE) mod 2 ^ 12 = 0" by (simp add: unat_word_ariths dvd_eq_mod_eq_0 del: of_nat_unat)
  then have "unat (take_bit 12 (pa + KERNBASE)) = 0" by (simp add: take_bit_eq_mod unat_mod del: of_nat_unat)
  then have "take_bit 12 (pa + KERNBASE) = 0" by (simp add: word_unat_eq_iff)
  then show ?thesis by (simp add: mask_consts take_bit_eq_mask)
qed

lemma aligned_PPN_eq: "a AND 0xFFF = 0 \<Longrightarrow> b AND 0xFFF = 0 \<Longrightarrow> PPN a = PPN b \<Longrightarrow> a = b"
proof (rule bit_word_eqI)
  fix n assume a: "a AND 0xFFF = 0" and b: "b AND 0xFFF = 0" and e: "PPN a = PPN b"
  have "\<not> bit a n" "\<not> bit b n" if "n < 12"
  proof -
    have "\<not> bit (a AND mask 12) n" "\<not> bit (b AND mask 12) n" using a b by (simp_all add: mask_consts)
    then show "\<not> bit a n" "\<not> bit b n" using that by (simp_all add: bit_simps)
  qed
  then show "bit a n = bit b n" using e by (cases "n < 12") (auto simp: PPN_eq_iff)
qed

text \<open>The free pages hold neither the directory in use nor one of its page tables.\<close>

definition tables_apart :: "vmstate \<Rightarrow> nat set \<Rightarrow> bool" where
  "tables_apart v F \<longleftrightarrow> F \<subseteq> {..< unat (v_npage v)} \<and> F \<subseteq> {..< 2 ^ 20} \<and>
     (\<forall>t \<in> F. \<forall>la. \<not> in_page (page2pa t + KERNBASE) (pde_addr (v_cur_pgdir v) la)) \<and>
     (\<forall>la. v_words v (pde_addr (v_cur_pgdir v) la) AND PTE_P \<noteq> 0 \<longrightarrow>
        unat (PPN (v_words v (pde_addr (v_cur_pgdir v) la))) \<notin> F)"

lemma tlb_inv_same_marks:
  assumes "tlb_inv v" "pt_ok v'" "v_tlb v' = v_tlb v" "v_algo_hi v' = v_algo_hi v" "v_algo_empty v' = v_algo_empty v"
    "v_algo_n v' = v_algo_n v" "v_algo_ptr v' = v_algo_ptr v"
    and fe: "\<And>b w. entry v' b = Some w \<and> bit w 7 \<longleftrightarrow> entry v b = Some w \<and> bit w 7"
  shows "tlb_inv v'"
proof -
  have ok: "tlb_arrays v" and fl: "flags_ok (entry v) (v_tlb v) (v_algo_hi v) (empty_slots v)"
      "\<forall>i < TLBN. slot_ok (entry v) (v_tlb v) (empty_slots v) i"
    using assms(1) unfolding tlb_inv_def by blast+
  have "flags_ok (entry v') (v_tlb v) (v_algo_hi v) (empty_slots v)"
    using fl(1) unfolding flags_ok_def fe .
  moreover have "in_slot (entry v') b i = in_slot (entry v) b i" for b i
    unfolding in_slot_def using fe by metis
  then have "\<forall>i < TLBN. slot_ok (entry v') (v_tlb v) (empty_slots v) i" using fl(2) by (simp add: slot_ok_def)
  moreover have "empty_slots v' = empty_slots v" "tlb_arrays v'"
    using ok assms(3-7) by (simp_all add: tlb_arrays_def empty_slots_def)
  ultimately show ?thesis using assms(2,3,4) by (simp add: tlb_inv_def)
qed

lemma PPN_masked: "PPN (pde AND 0xfffff000) = PPN pde"
proof -
  have "(0xfffff000 :: u32) = NOT 0xFFF" by simp
  then show ?thesis using PPN_PTE_ADDR [of pde] unfolding PTE_ADDR_def by (simp only:)
qed

lemma pte_at_present: "pte_at v pde la = (if PPN pde \<ge> v_npage v then None else Some ((pde AND 0xfffff000) + KERNBASE + 4 * PTX la))"
  unfolding pte_at_def KADDR_def pte_index PPN_masked by simp

text \<open>\<open>get_pte\<close> with a missing page table: it makes one from a free page, all of whose entries are 0.\<close>

lemma get_pte_creates:
  assumes inv: "tlb_inv v" and none: "find_pte v (v_cur_pgdir v) la = Some None"
    and F: "default_inv (v_pmm v) F" "F \<noteq> {}" "tables_apart v F"
  shows "\<exists>a v1. get_pte (v_cur_pgdir v) la True v = Some (Some a, v1) \<and> tlb_inv v1 \<and>
    find_pte v1 (v_cur_pgdir v) la = Some (Some a) \<and> v_words v1 a = 0 \<and>
    v_cur_pgdir v1 = v_cur_pgdir v \<and> v_npage v1 = v_npage v \<and>
    (\<forall>b. entry v1 b = (if PDX b = PDX la then Some 0 else entry v b)) \<and> (\<forall>b. PDX b = PDX la \<longrightarrow> entry v b = None)"
proof -
  let ?C = "v_cur_pgdir v" and ?pdep = "pde_addr (v_cur_pgdir v) la"
  obtain q where "{q ..< q + unat (1 :: u32)} \<subseteq> F" using F(2) by force
  then obtain t pm where t: "default_alloc_pages 1 (v_pmm v) = Some (Some t, pm)"
    using default.alloc_succeeds_iff [OF F(1), of 1] by auto
  have tF: "t \<in> F" using default.alloc_ok [OF F(1) _ t] by simp
  have al: "alloc_pages 1 v = Some (Some t, v\<lparr>v_pmm := pm\<rparr>)" by (rule alloc_pages_some [OF t])
  let ?f = "PTE_P OR (PTE_W OR PTE_U)" and ?kva = "page2pa t + KERNBASE"
  let ?d = "page2pa t OR ?f"
  let ?v1 = "clear_page ?kva (store_word ?pdep ?d (v\<lparr>v_pmm := set_page_ref t 1 pm\<rparr>))"
  have tb: "t < unat (v_npage v)" "t < 2 ^ 20" using F(3) tF by (auto simp: tables_apart_def)
  have np: "\<not> v_npage v \<le> PPN (page2pa t)"
    using tb by (simp add: page2pa_PPN word_le_nat_alt unat_of_nat_small del: of_nat_unat)
  have fl: "?f AND 0xFFF = ?f" "?f AND PTE_P \<noteq> 0" by (simp_all add: PTE_P_def PTE_W_def PTE_U_def)
  have pd: "PPN ?d = PPN (page2pa t)" by (rule PPN_or_flags [OF fl(1)])
  have dm: "?d AND 0xfffff000 = page2pa t"
  proof -
    have m: "(0xfffff000 :: u32) = NOT (mask 12)" by (simp add: mask_eq_exp_minus_1)
    show ?thesis
    proof (rule bit_word_eqI)
      fix n assume "n < LENGTH(32)"
      have "\<not> bit (?f AND mask 12) n" if "12 \<le> n" using that by (simp add: bit_simps)
      then have "\<not> bit ?f n" if "12 \<le> n" using that fl(1) by (simp add: mask_consts)
      then show "bit (?d AND 0xfffff000) n = bit (page2pa t) n"
        unfolding m by (cases "n < 12") (auto simp: bit_simps page_bits_high dest: bit_imp_le_length)
    qed
  qed
  have al4: "page2pa t AND 0xFFF = 0" by (rule page_flags_low)
  have kal: "?kva AND 0xFFF = 0" by (rule aligned_KERNBASE [OF al4])
  have nin: "\<not> in_page ?kva (pde_addr ?C b)" for b using F(3) tF by (auto simp: tables_apart_def)
  have pe: "pde_addr ?C b = ?pdep \<longleftrightarrow> PDX b = PDX la" for b
    unfolding pde_addr_def by (rule index_inj [OF idx_lt(1) idx_lt(1), THEN trans]) simp
  have w1: "v_words ?v1 (pde_addr ?C b) = (if PDX b = PDX la then ?d else v_words v (pde_addr ?C b))" for b
    using nin [of b] by (simp add: clear_page_def pe)
  have dP: "?d AND PTE_P \<noteq> 0" using pte2page_entry [OF tb(2,1) fl] by (auto simp: pte2page_def)
  have fp: "find_pte ?v1 ?C b = (if PDX b = PDX la then Some (Some (?kva + 4 * PTX b)) else find_pte v ?C b)" for b
  proof (cases "PDX b = PDX la")
    case True
    have "v_npage ?v1 = v_npage v" by (simp add: clear_page_def)
    then have "pte_at ?v1 ?d b = Some (?kva + 4 * PTX b)"
      unfolding pte_at_present pd dm using np by simp
    then show ?thesis using True dP unfolding find_pte_def Let_def w1 by simp
  next
    case False
    then have "v_words ?v1 (pde_addr ?C b) = v_words v (pde_addr ?C b)" by (simp only: w1 if_False)
    then show ?thesis using False find_pte_cong [of ?v1 ?C b v] by (simp add: clear_page_def)
  qed
  have none': "find_pte v ?C b = Some None" if "PDX b = PDX la" for b
  proof -
    have "v_words v ?pdep AND PTE_P = 0"
      using none by (auto simp: find_pte_def Let_def split: if_splits)
    then show ?thesis using pe [of b] that by (simp add: find_pte_def Let_def)
  qed
  have pok: "pt_ok v" using inv unfolding tlb_inv_def by blast
  have old: "\<not> in_page ?kva a \<and> (\<forall>l. a \<noteq> pde_addr ?C l)" if a: "find_pte v ?C b = Some (Some a)" for a b
  proof -
    let ?e = "v_words v (pde_addr ?C b)"
    have e: "?e AND PTE_P \<noteq> 0" "pte_at v ?e b = Some a"
      using a by (auto simp: find_pte_def Let_def split: if_splits)
    have a': "a = (?e AND 0xfffff000) + KERNBASE + 4 * PTX b"
      using e(2) unfolding pte_at_present by (simp split: if_splits)
    have z: "(?e AND 0xfffff000) AND 0xFFF = 0" by (simp add: and.assoc)
    have "\<not> in_page ?kva a"
    proof
      assume i: "in_page ?kva a"
      have "PPN a = PPN ((?e AND 0xfffff000) + KERNBASE)"
        by (rule in_page_PPN [OF _ aligned_KERNBASE [OF z]]) (use in_page_index [OF idx_lt(2)] a' in simp)
      with in_page_PPN [OF i kal] have "?kva = (?e AND 0xfffff000) + KERNBASE"
        using aligned_PPN_eq [OF kal aligned_KERNBASE [OF z]] by simp
      then have "page2pa t = ?e AND 0xfffff000" by simp
      then have "PPN (page2pa t) = PPN ?e" by (simp add: PPN_masked)
      then have "unat (PPN ?e) = unat (of_nat t :: u32)" using page2pa_PPN [OF tb(2)] by simp
      then have "unat (PPN ?e) = t" using tb(2) by (simp add: unat_of_nat_small del: of_nat_unat)
      then show False using F(3) tF e(1) unfolding tables_apart_def by blast
    qed
    then show ?thesis using pok a unfolding pt_ok_def by blast
  qed
  have new: "in_page ?kva (?kva + 4 * PTX b)" for b by (rule in_page_index [OF idx_lt(2)])
  have C1: "v_cur_pgdir ?v1 = ?C" by (simp add: clear_page_def)
  have pt1: "pt_ok ?v1" unfolding pt_ok_def C1
  proof (intro conjI allI impI)
    show "find_pte ?v1 ?C b \<noteq> None" for b using pok unfolding fp pt_ok_def by simp
  next
    fix b a l assume a: "find_pte ?v1 ?C b = Some (Some a)"
    show "a \<noteq> pde_addr ?C l"
    proof (cases "PDX b = PDX la")
      case True
      then have "a = ?kva + 4 * PTX b" using a unfolding fp by simp
      then show ?thesis using new [of b] nin [of l] by auto
    next
      case False
      then show ?thesis using a old [of b a] unfolding fp by simp
    qed
  next
    fix b a b' assume a: "find_pte ?v1 ?C b = Some (Some a)" "find_pte ?v1 ?C b' = Some (Some a)"
    show "PPN b = PPN b'"
    proof (cases "PDX b = PDX la"; cases "PDX b' = PDX la")
      assume d: "PDX b = PDX la" "PDX b' = PDX la"
      then have "?kva + 4 * PTX b = ?kva + 4 * PTX b'" using a unfolding fp by simp
      then have "PTX b = PTX b'" unfolding index_inj [OF idx_lt(2) idx_lt(2)] .
      with d show ?thesis by (simp add: PPN_of_indices)
    next
      assume d: "PDX b = PDX la" "PDX b' \<noteq> PDX la"
      then have "a = ?kva + 4 * PTX b" "find_pte v ?C b' = Some (Some a)" using a unfolding fp by simp_all
      then show ?thesis using old new [of b] by blast
    next
      assume d: "PDX b \<noteq> PDX la" "PDX b' = PDX la"
      then have "a = ?kva + 4 * PTX b'" "find_pte v ?C b = Some (Some a)" using a unfolding fp by simp_all
      then show ?thesis using old new [of b'] by blast
    next
      assume "PDX b \<noteq> PDX la" "PDX b' \<noteq> PDX la"
      then have "find_pte v ?C b = Some (Some a)" "find_pte v ?C b' = Some (Some a)" using a unfolding fp by simp_all
      then show ?thesis using pok unfolding pt_ok_def by blast
    qed
  qed
  have wold: "v_words ?v1 a = v_words v a" if "find_pte v ?C b = Some (Some a)" for a b
    using old [OF that] by (simp add: clear_page_def)
  have en: "entry ?v1 b = (if PDX b = PDX la then Some 0 else entry v b)" for b
  proof (cases "PDX b = PDX la")
    case True
    then show ?thesis using new [of b] unfolding entry_def C1 fp by (simp add: clear_page_def)
  next
    case False
    then show ?thesis using wold [of b] unfolding entry_def C1 fp by (simp split: option.splits)
  qed
  have ev: "entry v b = None" if "PDX b = PDX la" for b using none' [OF that] by (simp add: entry_def)
  have "entry ?v1 b = Some w \<and> bit w 7 \<longleftrightarrow> entry v b = Some w \<and> bit w 7" for b w
    unfolding en using ev [of b] by auto
  then have "tlb_inv ?v1"
    by (intro tlb_inv_same_marks [OF inv pt1]) (simp_all add: clear_page_def store_word_def)
  moreover have "get_pte ?C la True v = Some (Some (?kva + 4 * PTX la), ?v1)"
  proof -
    have z: "v_words v ?pdep AND PTE_P = 0" using none' [of la] none by (auto simp: find_pte_def Let_def split: if_splits)
    have u: "store_word ?pdep (page2pa t OR PTE_P OR PTE_W OR PTE_U) (upd_pmm (set_page_ref t 1) (v\<lparr>v_pmm := pm\<rparr>)) =
        store_word ?pdep ?d (v\<lparr>v_pmm := set_page_ref t 1 pm\<rparr>)"
      by (simp add: upd_pmm_def or.assoc)
    have k: "KADDR (store_word ?pdep ?d (v\<lparr>v_pmm := set_page_ref t 1 pm\<rparr>)) (page2pa t) = Some ?kva"
      using np by (simp add: KADDR_def)
    have p: "pte_at ?v1 (v_words ?v1 ?pdep) la = Some (?kva + 4 * PTX la)"
      using fp [of la] dP w1 [of la] by (simp add: find_pte_def Let_def)
    show ?thesis unfolding get_pte_def Let_def using z al u k p by simp
  qed
  moreover have "find_pte ?v1 ?C la = Some (Some (?kva + 4 * PTX la))" using fp [of la] by simp
  moreover have "v_words ?v1 (?kva + 4 * PTX la) = 0" using new [of la] by (simp add: clear_page_def)
  moreover have "v_npage ?v1 = v_npage v" by (simp add: clear_page_def)
  ultimately show ?thesis using C1 en ev by blast
qed

section \<open>Properties\<close>

lemma page_insert_spec_get:
  assumes inv: "tlb_inv v" and a: "find_pte v (v_cur_pgdir v) la = Some (Some a)" and perm: "perm AND PTE_USER = perm"
    and old: "v_words v a AND PTE_P \<noteq> 0 \<Longrightarrow> \<exists>q. pte2page v (v_words v a) = Some q \<and>
      (q \<noteq> page \<longrightarrow> droppable (page_ref_inc page v) q)"
    and page: "page < 2 ^ 20" "page < unat (v_npage v)"
  shows "\<exists>v'. page_insert (v_cur_pgdir v) page la perm v = Some (0, v') \<and> tlb_inv v' \<and>
    get_page (v_cur_pgdir v) la v' = Some (Some page, Some a) \<and> (\<forall>lo. \<not> tlb_hit v' la lo) \<and>
    (\<forall>b. PPN b \<noteq> PPN la \<longrightarrow> entry v' b = entry v b)"
proof -
  let ?w = "page2pa page OR PTE_P OR perm"
  obtain v' where v': "page_insert (v_cur_pgdir v) page la perm v = Some (0, v')" "tlb_inv v'"
      "entry v' = page_upd la ?w (entry v)" "\<forall>lo. \<not> tlb_hit v' la lo" "v_cur_pgdir v' = v_cur_pgdir v"
      "v_npage v' = v_npage v" "\<forall>b. find_pte v' (v_cur_pgdir v) b = find_pte v (v_cur_pgdir v) b"
    using page_insert_spec [OF assms(1-3) old] by blast
  have f: "find_pte v' (v_cur_pgdir v) la = Some (Some a)" using v'(7) assms(2) by simp
  have "entry v' la = Some ?w" using v'(3) by (simp add: page_upd_same)
  then have w: "v_words v' a = ?w" using f v'(5) by (simp add: entry_def)
  note pb = perm_bits(2,3) [OF assms(3)]
  have "?w AND PTE_P \<noteq> 0"
  proof -
    have "bit ?w 0" by (simp add: bit_simps PTE_P_def)
    then show ?thesis by (auto simp: PTE_P_def and_one_eq even_iff_mod_2_eq_zero bit_0)
  qed
  moreover have "pa2page v' ?w = Some page"
  proof -
    have "pa2page v' (page2pa page) = Some page"
      using pa2page_page2pa [OF page(1), of v'] page(2) v'(6) by simp
    then show ?thesis unfolding pa2page_def PPN_or_flags [OF pb(1), of page] .
  qed
  ultimately have "get_page (v_cur_pgdir v) la v' = Some (Some page, Some a)"
    using f w by (simp add: get_page_def get_pte_find)
  then show ?thesis using v' by (auto simp: page_upd_other)
qed

lemma page_insert_get_pte:
  assumes "get_pte pgdir la True v = Some (r, v1)" "get_pte pgdir la True v1 = Some (r, v1)"
  shows "page_insert pgdir page la perm v = page_insert pgdir page la perm v1"
  using assms by (simp add: page_insert_def)

lemma get_pte_found: "find_pte v pgdir la = Some (Some a) \<Longrightarrow> get_pte pgdir la create v = Some (Some a, v)"
  by (auto simp: get_pte_def find_pte_def Let_def split: if_splits bind_splits)

lemma entry_None_iff: "pt_ok v \<Longrightarrow> PDX b = PDX la \<Longrightarrow> find_pte v (v_cur_pgdir v) la = Some (Some a) \<Longrightarrow> entry v b \<noteq> None"
proof -
  assume ok: "pt_ok v" and e: "PDX b = PDX la" and a: "find_pte v (v_cur_pgdir v) la = Some (Some a)"
  have "v_words v (pde_addr (v_cur_pgdir v) b) AND PTE_P \<noteq> 0"
    using a e by (auto simp: find_pte_def pde_addr_def Let_def split: if_splits)
  moreover have "find_pte v (v_cur_pgdir v) b \<noteq> None" using ok unfolding pt_ok_def by blast
  ultimately show ?thesis by (auto simp: entry_def find_pte_def Let_def split: if_splits option.splits)
qed

lemma example_tables_apart: "tables_apart (example_tlb example_vm) {4 ..< 10}"
proof -
  let ?v = "example_tlb example_vm"
  have C: "v_cur_pgdir ?v = 0x80001000" by (simp add: example_tlb_def load_pgdir_sel)
  have d: "PPN (pde_addr 0x80001000 la) = 0x80001" for la
  proof -
    have "PPN (pde_addr 0x80001000 la) = PPN 0x80001000"
      unfolding pde_addr_def by (rule in_page_PPN [OF in_page_index [OF idx_lt(1)]]) simp
    then show ?thesis by (simp add: PPN_def)
  qed
  have "\<not> in_page (page2pa t + KERNBASE) (pde_addr 0x80001000 la)" if "t \<in> {4 ..< 10}" for t la
  proof
    assume "in_page (page2pa t + KERNBASE) (pde_addr 0x80001000 la)"
    from in_page_PPN [OF this aligned_KERNBASE [OF page_flags_low]]
    have e: "PPN (page2pa t + KERNBASE) = 0x80001" by (simp add: d)
    have "t = 4 \<or> t = 5 \<or> t = 6 \<or> t = 7 \<or> t = 8 \<or> t = 9" using that by auto
    then show False using e by (elim disjE) (simp_all add: page2pa_def page2ppn_def KERNBASE_def PPN_def)
  qed
  moreover have "unat (PPN (example_words (pde_addr 0x80001000 la))) \<notin> {4 ..< 10}"
      if "example_words (pde_addr 0x80001000 la) AND PTE_P \<noteq> 0" for la
    using that d [of la] by (auto simp: example_words_def PPN_def split: if_splits)
  ultimately show ?thesis
    by (auto simp: tables_apart_def C example_tlb_pte(2,3))
qed

text \<open>C4. \<^verbatim>\<open>page_insert\<close> into the directory in use maps the page, whether the page table of the address is
  there or has to be made: it returns 0, \<^verbatim>\<open>get_page\<close> then finds the page at the address, no other
  mapping of the directory changes (in a new page table all other entries are 0), and the TLB holds
  nothing for the address and still agrees with the tables. It is shown for a directory whose TLB marks
  are right (\<open>tlb_inv\<close>); if a page is mapped at the address already, it is in memory and giving up its
  reference is possible; if the page table is missing, there is a free page, and the free pages
  hold neither the directory nor its tables.\<close>

theorem page_insert_maps:
  assumes inv: "tlb_inv v" and perm: "perm AND PTE_USER = perm"
    and old: "\<And>a. find_pte v (v_cur_pgdir v) la = Some (Some a) \<Longrightarrow> v_words v a AND PTE_P \<noteq> 0 \<Longrightarrow>
      \<exists>q. pte2page v (v_words v a) = Some q \<and> (q \<noteq> page \<longrightarrow> droppable (page_ref_inc page v) q)"
    and new: "find_pte v (v_cur_pgdir v) la = Some None \<Longrightarrow>
      \<exists>F. default_inv (v_pmm v) F \<and> F \<noteq> {} \<and> tables_apart v F"
    and page: "page < 2 ^ 20" "page < unat (v_npage v)"
  shows "\<exists>a v'. page_insert (v_cur_pgdir v) page la perm v = Some (0, v') \<and> tlb_inv v' \<and>
    get_page (v_cur_pgdir v) la v' = Some (Some page, Some a) \<and> (\<forall>lo. \<not> tlb_hit v' la lo) \<and>
    (\<forall>b. PPN b \<noteq> PPN la \<longrightarrow> entry v' b = (if PDX b = PDX la \<and> entry v b = None then Some 0 else entry v b))"
proof -
  have ok: "pt_ok v" using inv unfolding tlb_inv_def by blast
  then consider (there) a where "find_pte v (v_cur_pgdir v) la = Some (Some a)"
    | (missing) "find_pte v (v_cur_pgdir v) la = Some None"
    unfolding pt_ok_def by (metis option.exhaust)
  then show ?thesis
  proof cases
    case there
    from page_insert_spec_get [OF inv there perm old [OF there] page] entry_None_iff [OF ok _ there]
    show ?thesis by (metis (no_types, lifting))
  next
    case missing
    then obtain F where F: "default_inv (v_pmm v) F" "F \<noteq> {}" "tables_apart v F" using new by blast
    obtain a v1 where v1: "get_pte (v_cur_pgdir v) la True v = Some (Some a, v1)" "tlb_inv v1"
        "find_pte v1 (v_cur_pgdir v) la = Some (Some a)" "v_words v1 a = 0" "v_cur_pgdir v1 = v_cur_pgdir v"
        "v_npage v1 = v_npage v" "\<forall>b. entry v1 b = (if PDX b = PDX la then Some 0 else entry v b)"
        "\<forall>b. PDX b = PDX la \<longrightarrow> entry v b = None"
      using get_pte_creates [OF inv missing F] by blast
    have same: "page_insert (v_cur_pgdir v) page la perm v = page_insert (v_cur_pgdir v1) page la perm v1"
      unfolding v1(5) by (rule page_insert_get_pte [OF v1(1) get_pte_found [OF v1(3)]])
    have "\<exists>v'. page_insert (v_cur_pgdir v1) page la perm v1 = Some (0, v') \<and> tlb_inv v' \<and>
        get_page (v_cur_pgdir v1) la v' = Some (Some page, Some a) \<and> (\<forall>lo. \<not> tlb_hit v' la lo) \<and>
        (\<forall>b. PPN b \<noteq> PPN la \<longrightarrow> entry v' b = entry v1 b)"
      by (rule page_insert_spec_get) (use v1 perm page in auto)
    then show ?thesis unfolding same v1(5) using v1(7,8) by (metis (no_types, lifting))
  qed
qed

theorem page_insert_maps_witness:
  "(\<exists>a v'. page_insert 0x80001000 3 0x4000 PTE_W (example_tlb example_vm) = Some (0, v') \<and>
     get_page 0x80001000 0x4000 v' = Some (Some 3, Some a)) \<and>
   find_pte (example_tlb example_vm) 0x80001000 0x400000 = Some None \<and>
   (\<exists>a v'. page_insert 0x80001000 3 0x400000 PTE_W (example_tlb example_vm) = Some (0, v') \<and>
     get_page 0x80001000 0x400000 v' = Some (Some 3, Some a))"
proof -
  let ?v = "example_tlb example_vm"
  have C: "v_cur_pgdir ?v = 0x80001000" by (simp add: example_tlb_def load_pgdir_sel)
  note fp = example_find_pte [OF example_tlb_pte(2,3), of example_vm]
  have pm: "v_pmm ?v = example_pmm"
    by (simp add: example_tlb_def load_pgdir_def tlb_init_def tlb_init_callback_def fold_tlb_write TLBN_def example_vm_def)
  have W: "PTE_W AND PTE_USER = PTE_W" by (simp add: PTE_W_def PTE_USER_def PTE_U_def PTE_P_def)
  have p3: "3 < (2::nat) ^ 20" "3 < unat (v_npage ?v)" by (simp_all add: example_tlb_pte(3))
  have new: "\<exists>F. default_inv (v_pmm ?v) F \<and> F \<noteq> {} \<and> tables_apart ?v F"
    unfolding pm using example_pmm_inv example_tables_apart by (intro exI [of _ "{4 ..< 10}"]) simp
  have i: "PDX 0x4000 = 0" "PTX 0x4000 = 4" "PDX 0x400000 = 1" by (simp_all add: PDX_def PTX_def)
  have z: "v_words ?v 0x80002010 = 0" by (simp add: example_tlb_pte(2) example_words_def)
  have old1: "\<exists>q. pte2page ?v (v_words ?v a) = Some q \<and> (q \<noteq> 3 \<longrightarrow> droppable (page_ref_inc 3 ?v) q)"
    if "find_pte ?v (v_cur_pgdir ?v) 0x4000 = Some (Some a)" "v_words ?v a AND PTE_P \<noteq> 0" for a
    using that z fp [of "0x4000"] by (simp add: C i)
  have f2: "find_pte ?v 0x80001000 0x400000 = Some None" using fp [of "0x400000"] by (simp add: i)
  have old2: "\<exists>q. pte2page ?v (v_words ?v a) = Some q \<and> (q \<noteq> 3 \<longrightarrow> droppable (page_ref_inc 3 ?v) q)"
    if "find_pte ?v (v_cur_pgdir ?v) 0x400000 = Some (Some a)" for a
    using that f2 by (simp add: C)
  from page_insert_maps [OF example_tlb_inv W old1 new p3] page_insert_maps [OF example_tlb_inv W old2 new p3] f2
  show ?thesis unfolding C by blast
qed

end
