(* ===== verification/Kmalloc.thy ===== *)
theory Kmalloc
  imports Swap
begin

text \<open>
  \<^verbatim>\<open>kern/mm/kmalloc.c\<close>: the SLOB heap. A free block is two words of memory, its length in units of
  8 bytes and the address of the next free block; the free blocks form a ring in address order, and
  \<open>v_slobfree\<close> points into it. An allocated block keeps its length in the unit before the pointer that
  \<open>kmalloc\<close> returns. A NULL pointer is 0; a search that would go round for ever, a failed assertion
  and a NULL dereference are \<open>None\<close>. The lock macros only disable interrupts.
\<close>

unbundle bit_operations_syntax

section \<open>The operations\<close>

definition SLOB_UNIT :: u32 where "SLOB_UNIT = 8"

definition SLOB_UNITS :: "u32 \<Rightarrow> u32" where
  "SLOB_UNITS sz = (sz + SLOB_UNIT - 1) div SLOB_UNIT"

definition ALIGN :: "u32 \<Rightarrow> u32 \<Rightarrow> u32" where
  "ALIGN addr sz = (addr + sz - 1) AND NOT (sz - 1)"

text \<open>The fields of \<open>slob_t\<close> and \<open>bigblock_t\<close> at an address.\<close>

definition slob_units :: "vmstate \<Rightarrow> u32 \<Rightarrow> u32" where "slob_units v b = v_words v b"
definition slob_next :: "vmstate \<Rightarrow> u32 \<Rightarrow> u32" where "slob_next v b = v_words v (b + 4)"
definition set_slob_units :: "u32 \<Rightarrow> u32 \<Rightarrow> vmstate \<Rightarrow> vmstate" where "set_slob_units b w = store_word b w"
definition set_slob_next :: "u32 \<Rightarrow> u32 \<Rightarrow> vmstate \<Rightarrow> vmstate" where "set_slob_next b w = store_word (b + 4) w"

definition bb_order :: "vmstate \<Rightarrow> u32 \<Rightarrow> u32" where "bb_order v b = v_words v b"
definition bb_pages :: "vmstate \<Rightarrow> u32 \<Rightarrow> u32" where "bb_pages v b = v_words v (b + 4)"
definition bb_next :: "vmstate \<Rightarrow> u32 \<Rightarrow> u32" where "bb_next v b = v_words v (b + 8)"
definition BIGBLOCK_SIZE :: u32 where "BIGBLOCK_SIZE = 12"

definition slob_get_free_pages :: "nat \<Rightarrow> vmstate \<Rightarrow> (u32 \<times> vmstate) option" where
  "slob_get_free_pages order v = do {
     (page, v) \<leftarrow> alloc_pages (push_bit order 1) v;
     (case page of
        None \<Rightarrow> Some (0, v)
      | Some p \<Rightarrow> do { kva \<leftarrow> page2kva v p; Some (kva, v) }) }"

definition slob_free_pages :: "u32 \<Rightarrow> nat \<Rightarrow> vmstate \<Rightarrow> vmstate option" where
  "slob_free_pages kva order v = do {
     p \<leftarrow> kva2page v kva;
     free_pages p (push_bit order 1) v }"

text \<open>The search of \<open>slob_free\<close> for the free block after which \<open>b\<close> belongs.\<close>

partial_function (option) slob_find :: "vmstate \<Rightarrow> u32 \<Rightarrow> u32 \<Rightarrow> u32 option" where
  "slob_find v b cur =
     (if b > cur \<and> b < slob_next v cur then Some cur
      else if cur \<ge> slob_next v cur \<and> (b > cur \<or> b < slob_next v cur) then Some cur
      else slob_find v b (slob_next v cur))"

text \<open>The insertion of \<open>b\<close> after \<open>cur\<close>, merged with its neighbours.\<close>

definition slob_link :: "u32 \<Rightarrow> u32 \<Rightarrow> vmstate \<Rightarrow> vmstate" where
  "slob_link b cur v =
     (let nx = slob_next v cur;
          v = (if b + 8 * slob_units v b = nx
               then let v = set_slob_units b (slob_units v b + slob_units v nx) v
                    in set_slob_next b (slob_next v nx) v
               else set_slob_next b nx v);
          v = (if cur + 8 * slob_units v cur = b
               then let v = set_slob_units cur (slob_units v cur + slob_units v b) v
                    in set_slob_next cur (slob_next v b) v
               else set_slob_next cur b v)
      in v\<lparr>v_slobfree := cur\<rparr>)"

definition slob_free :: "u32 \<Rightarrow> u32 \<Rightarrow> vmstate \<Rightarrow> vmstate option" where
  "slob_free b sz v =
     (if b = 0 then Some v
      else do {
        let v = (if sz \<noteq> 0 then set_slob_units b (SLOB_UNITS sz) v else v);
        cur \<leftarrow> slob_find v b (v_slobfree v);
        Some (slob_link b cur v) })"

text \<open>Taking \<open>units\<close> units from the block \<open>cur\<close> behind \<open>prev\<close>, when there is room enough.\<close>

definition slob_take :: "u32 \<Rightarrow> u32 \<Rightarrow> u32 \<Rightarrow> vmstate \<Rightarrow> u32 \<times> vmstate" where
  "slob_take prev cur units v =
     (let v = (if slob_units v cur = units then set_slob_next prev (slob_next v cur) v
               else let v = set_slob_next prev (cur + 8 * units) v;
                        v = set_slob_units (slob_next v prev) (slob_units v cur - units) v;
                        v = set_slob_next (slob_next v prev) (slob_next v cur) v
                    in set_slob_units cur units v)
      in (cur, v\<lparr>v_slobfree := prev\<rparr>))"

partial_function (option) slob_alloc_loop ::
  "vmstate \<Rightarrow> u32 \<Rightarrow> u32 \<Rightarrow> u32 \<Rightarrow> u32 \<Rightarrow> (u32 \<times> vmstate) option" where
  "slob_alloc_loop v prev cur sz align = do {
     let units = SLOB_UNITS sz;
     let aligned = (if align \<noteq> 0 then ALIGN cur align else 0);
     let delta = (if align \<noteq> 0 then (aligned - cur) div 8 else 0);
     if sint (slob_units v cur) \<ge> sint (units + delta) then
       if delta \<noteq> 0 then
         let v = set_slob_units aligned (slob_units v cur - delta) v;
             v = set_slob_next aligned (slob_next v cur) v;
             v = set_slob_next cur aligned v;
             v = set_slob_units cur delta v
         in Some (slob_take cur aligned units v)
       else Some (slob_take prev cur units v)
     else if cur = v_slobfree v then
       if sz = PGSIZE then Some (0, v)
       else do {
         (page, v) \<leftarrow> slob_get_free_pages 0 v;
         if page = 0 then Some (0, v)
         else do {
           v \<leftarrow> slob_free page PGSIZE v;
           let cur = v_slobfree v;
           slob_alloc_loop v cur (slob_next v cur) sz align } }
     else slob_alloc_loop v cur (slob_next v cur) sz align }"

definition slob_alloc :: "u32 \<Rightarrow> u32 \<Rightarrow> vmstate \<Rightarrow> (u32 \<times> vmstate) option" where
  "slob_alloc sz align v = do {
     kassert (sz + SLOB_UNIT < PGSIZE);
     let prev = v_slobfree v;
     slob_alloc_loop v prev (slob_next v prev) sz align }"

text \<open>\<open>find_order\<close> halves a signed \<open>int\<close>.\<close>

function find_order :: "int \<Rightarrow> nat" where
  "find_order sz = (if sz > 4096 then Suc (find_order (sz div 2)) else 0)"
  by auto
termination by (relation "measure nat") auto

declare find_order.simps [simp del]

definition kmalloc :: "u32 \<Rightarrow> vmstate \<Rightarrow> (u32 \<times> vmstate) option" where
  "kmalloc sz v =
     (if sz < PGSIZE - SLOB_UNIT then do {
        (m, v) \<leftarrow> slob_alloc (sz + SLOB_UNIT) 0 v;
        Some (if m \<noteq> 0 then m + 8 else 0, v) }
      else do {
        (bb, v) \<leftarrow> slob_alloc BIGBLOCK_SIZE 0 v;
        if bb = 0 then Some (0, v)
        else do {
          let order = find_order (sint sz);
          let v = store_word bb (of_nat order) v;
          (pages, v) \<leftarrow> slob_get_free_pages order v;
          let v = store_word (bb + 4) pages v;
          if pages \<noteq> 0 then
            let v = store_word (bb + 8) (v_bigblocks v) v
            in Some (pages, v\<lparr>v_bigblocks := bb\<rparr>)
          else do { v \<leftarrow> slob_free bb BIGBLOCK_SIZE v; Some (0, v) } } })"

text \<open>\<open>find_bigblock\<close> is the loop over the list of big blocks: the block found and the address of the
  \<open>next\<close> field that leads to it, \<open>None\<close> for the variable \<open>bigblocks\<close>.\<close>

partial_function (option) find_bigblock ::
  "vmstate \<Rightarrow> u32 \<Rightarrow> u32 option \<Rightarrow> u32 \<Rightarrow> (u32 option \<times> u32) option" where
  "find_bigblock v block lnk bb =
     (if bb = 0 then Some (lnk, 0)
      else if bb_pages v bb = block then Some (lnk, bb)
      else find_bigblock v block (Some (bb + 8)) (bb_next v bb))"

definition kfree :: "u32 \<Rightarrow> vmstate \<Rightarrow> vmstate option" where
  "kfree block v =
     (if block = 0 then Some v
      else do {
        (lnk, bb) \<leftarrow>
          (if block AND (PGSIZE - 1) = 0 then find_bigblock v block None (v_bigblocks v) else Some (None, 0));
        if bb \<noteq> 0 then do {
          let v = (case lnk of None \<Rightarrow> v\<lparr>v_bigblocks := bb_next v bb\<rparr> | Some a \<Rightarrow> store_word a (bb_next v bb) v);
          v \<leftarrow> slob_free_pages block (unat (bb_order v bb)) v;
          slob_free bb BIGBLOCK_SIZE v }
        else slob_free (block - 8) 0 v })"

definition ksize :: "u32 \<Rightarrow> vmstate \<Rightarrow> u32 option" where
  "ksize block v =
     (if block = 0 then Some 0
      else do {
        (lnk, bb) \<leftarrow>
          (if block AND (PGSIZE - 1) = 0 then find_bigblock v block None (v_bigblocks v) else Some (None, 0));
        Some (if bb \<noteq> 0 then push_bit (unat (bb_order v bb)) PGSIZE else slob_units v (block - 8) * SLOB_UNIT) })"

section \<open>Allocation leaves the address spaces alone\<close>

definition vm_same :: "vmstate \<Rightarrow> vmstate \<Rightarrow> bool" where
  "vm_same v v' \<longleftrightarrow> v_mms v' = v_mms v \<and> v_vmas v' = v_vmas v \<and> v_vlinks v' = v_vlinks v"

lemma vm_same_refl [simp]: "vm_same v v" by (simp add: vm_same_def)
lemma vm_same_trans [trans]: "vm_same v v' \<Longrightarrow> vm_same v' v'' \<Longrightarrow> vm_same v v''" by (simp add: vm_same_def)

named_theorems vm_frame \<open>operations that keep the address spaces\<close>

lemma vm_same_upd [simp]:
  "vm_same (v\<lparr>v_pmm := p\<rparr>) v' = vm_same v v'" "vm_same (store_word a w v) v' = vm_same v v'"
  "vm_same (v\<lparr>v_pra_links := l\<rparr>) v' = vm_same v v'" "vm_same (v\<lparr>v_slobfree := w\<rparr>) v' = vm_same v v'"
  "vm_same (v\<lparr>v_bigblocks := w\<rparr>) v' = vm_same v v'" "vm_same (v\<lparr>v_clean_block := w\<rparr>) v' = vm_same v v'"
  "vm_same (v\<lparr>v_algo_n := n\<rparr>) v' = vm_same v v'" "vm_same (v\<lparr>v_algo_empty := es\<rparr>) v' = vm_same v v'"
  "vm_same (tlb_write i h l0 l1 v) v' = vm_same v v'"
  by (simp_all add: vm_same_def store_word_def tlb_write_def)

lemma vm_same_upd_right [simp]:
  "vm_same v (v'\<lparr>v_pmm := p\<rparr>) = vm_same v v'" "vm_same v (store_word a w v') = vm_same v v'"
  "vm_same v (v'\<lparr>v_pra_links := l\<rparr>) = vm_same v v'" "vm_same v (v'\<lparr>v_slobfree := w\<rparr>) = vm_same v v'"
  "vm_same v (v'\<lparr>v_bigblocks := w\<rparr>) = vm_same v v'" "vm_same v (v'\<lparr>v_clean_block := w\<rparr>) = vm_same v v'"
  "vm_same v (v'\<lparr>v_algo_n := n\<rparr>) = vm_same v v'" "vm_same v (v'\<lparr>v_algo_empty := es\<rparr>) = vm_same v v'"
  "vm_same v (tlb_write i h l0 l1 v') = vm_same v v'"
  by (simp_all add: vm_same_def store_word_def tlb_write_def)

lemma free_pages_same [vm_frame]: "free_pages p n v = Some v' \<Longrightarrow> vm_same v v'"
  by (auto simp: free_pages_def split: bind_splits)

lemma tlb_invalidate_same [vm_frame]: "tlb_invalidate pgdir la v = Some v' \<Longrightarrow> vm_same v v'"
  by (auto simp: tlb_invalidate_def tlb_del_callback_def Let_def lo_pair_def
      split: if_splits option.splits bind_splits prod.splits)

lemma fifo_same:
  "fifo_swap_out_victim mm t v = Some (r, p, v') \<Longrightarrow> vm_same v v'"
  "fifo_map_swappable mm la p i v = Some (r, v') \<Longrightarrow> vm_same v v'"
  by (auto simp: fifo_swap_out_victim_def fifo_map_swappable_def Let_def split: pralink.splits bind_splits)

lemma swapfs_write_same [vm_frame]: "swapfs_write e p v = Some (r, w, v') \<Longrightarrow> vm_same v v'"
  by (auto simp: swapfs_write_def swapfs_clean_def Let_def split: bind_splits)



lemmas vm_same_dests1 = fifo_same [THEN vm_same_def [THEN iffD1]] swapfs_write_same [THEN vm_same_def [THEN iffD1]]
  tlb_invalidate_same [THEN vm_same_def [THEN iffD1]] free_pages_same [THEN vm_same_def [THEN iffD1]]

lemma store_word_same: "v_mms (store_word a w v) = v_mms v" "v_vmas (store_word a w v) = v_vmas v" "v_vlinks (store_word a w v) = v_vlinks v"
  by (simp_all add: store_word_def)

lemma swap_out_loop_same: "swap_out_loop mm t k i v = Some r \<Longrightarrow> vm_same v (snd r)"
proof (induction k arbitrary: mm i v)
  case (Suc k)
  note IH = Suc.IH [THEN vm_same_def [THEN iffD1]]
  from Suc.prems show ?case
    by (auto simp: bind_eq_Some_conv Let_def vm_same_def store_word_same dest!: vm_same_dests1 IH split: if_splits)
qed auto

lemma alloc_pages_loop_same: "alloc_pages_loop v n = Some r \<Longrightarrow> vm_same v (snd r)"
proof (erule alloc_pages_loop.raw_induct [where P = "\<lambda>v n r. vm_same v (snd r)", rotated], goal_cases)
  case (1 loop v n r)
  note IH = 1(1) [THEN vm_same_def [THEN iffD1]] and so = swap_out_loop_same [THEN vm_same_def [THEN iffD1]]
  from 1(2) show ?case
    by (auto simp: bind_eq_Some_conv Let_def vm_same_def swap_out_def dest!: IH so split: if_splits)
qed

lemma alloc_pages_same [vm_frame]: "alloc_pages n v = Some (r, v') \<Longrightarrow> vm_same v v'"
  unfolding alloc_pages_def by (drule alloc_pages_loop_same) simp

lemma slob_set_same:
  "v_mms (set_slob_units b w v) = v_mms v" "v_vmas (set_slob_units b w v) = v_vmas v"
  "v_vlinks (set_slob_units b w v) = v_vlinks v" "v_mms (set_slob_next b w v) = v_mms v"
  "v_vmas (set_slob_next b w v) = v_vmas v" "v_vlinks (set_slob_next b w v) = v_vlinks v"
  by (simp_all add: set_slob_units_def set_slob_next_def store_word_same)

lemma slob_link_same: "vm_same v (slob_link b cur v)"
  by (simp add: slob_link_def Let_def vm_same_def slob_set_same)

lemma slob_take_same: "vm_same v (snd (slob_take prv cur n v))"
  by (simp add: slob_take_def Let_def vm_same_def slob_set_same)

lemma slob_free_same [vm_frame]: "slob_free b sz v = Some v' \<Longrightarrow> vm_same v v'"
  using slob_link_same [of "set_slob_units b (SLOB_UNITS sz) v"] slob_link_same [of v]
  by (auto simp: slob_free_def bind_eq_Some_conv Let_def vm_same_def slob_set_same split: if_splits)

lemma slob_pages_same [vm_frame]:
  "slob_get_free_pages k v = Some (p, v') \<Longrightarrow> vm_same v v'" "slob_free_pages kva k v = Some v' \<Longrightarrow> vm_same v v'"
  by (auto simp: slob_get_free_pages_def slob_free_pages_def bind_eq_Some_conv split: option.splits
      dest: alloc_pages_same free_pages_same)

lemma slob_alloc_loop_same: "slob_alloc_loop v prv cur sz al = Some r \<Longrightarrow> vm_same v (snd r)"
proof (erule slob_alloc_loop.raw_induct [where P = "\<lambda>v prv cur sz al r. vm_same v (snd r)", rotated], goal_cases)
  case (1 loop v prv cur sz al r)
  note IH = 1(1) [THEN vm_same_def [THEN iffD1]] and tk = slob_take_same [unfolded vm_same_def]
    and d = slob_free_same [THEN vm_same_def [THEN iffD1]] slob_pages_same(1) [THEN vm_same_def [THEN iffD1]]
  from 1(2) show ?case
    by (auto simp: bind_eq_Some_conv Let_def vm_same_def slob_set_same tk dest!: IH d split: if_splits)
qed

lemma slob_alloc_same [vm_frame]: "slob_alloc sz al v = Some (p, v') \<Longrightarrow> vm_same v v'"
  by (auto simp: slob_alloc_def bind_eq_Some_conv Let_def dest: slob_alloc_loop_same)

lemmas vm_same_dests = vm_frame [THEN vm_same_def [THEN iffD1]]

lemma kmalloc_same [vm_frame]: "kmalloc sz v = Some (p, v') \<Longrightarrow> vm_same v v'"
  by (auto simp: kmalloc_def bind_eq_Some_conv Let_def vm_same_def store_word_same dest!: vm_same_dests split: if_splits)

lemma kfree_same [vm_frame]: "kfree p v = Some v' \<Longrightarrow> vm_same v v'"
  by (auto simp: kfree_def bind_eq_Some_conv Let_def vm_same_def store_word_same dest!: vm_same_dests
      split: if_splits option.splits)

end
