(* ===== verification/Vmm.thy ===== *)
theory Vmm
  imports Pmm Kmalloc CString Sync
begin

text \<open>
  \<^verbatim>\<open>kern/mm/vmm.c\<close> and \<^verbatim>\<open>vmm.h\<close>: address spaces. An \<open>mm_struct\<close> or \<open>vma_struct\<close> is named by its address;
  the areas of an address space hang in the circular list \<open>MmapList mm\<close> in address order. NULL is
  \<open>None\<close> for a pointer argument. The user memory that \<^verbatim>\<open>copy_from_user\<close> and its relatives move is the
  current view of memory, an argument of type \<open>mem\<close>. The self-tests \<^verbatim>\<open>check_vmm\<close>,
  \<^verbatim>\<open>check_vma_struct\<close> and \<^verbatim>\<open>check_pgfault\<close> are not modelled.
\<close>

unbundle bit_operations_syntax

section \<open>The operations\<close>

definition VM_READ :: u32 where "VM_READ = 0x00000001"
definition VM_WRITE :: u32 where "VM_WRITE = 0x00000002"
definition VM_EXEC :: u32 where "VM_EXEC = 0x00000004"
definition VM_STACK :: u32 where "VM_STACK = 0x00000008"

definition upd_vma :: "nat \<Rightarrow> (vma_struct \<Rightarrow> vma_struct) \<Rightarrow> vmstate \<Rightarrow> vmstate" where
  "upd_vma a f v = v\<lparr>v_vmas := (v_vmas v)(a := f (v_vmas v a))\<rparr>"

definition mm_count_inc :: "nat \<Rightarrow> vmstate \<Rightarrow> int \<times> vmstate" where
  "mm_count_inc mm v = (let v = upd_mm mm (mm_count_update (\<lambda>n. n + 1)) v in (mm_count (v_mms v mm), v))"

definition mm_count_dec :: "nat \<Rightarrow> vmstate \<Rightarrow> int \<times> vmstate" where
  "mm_count_dec mm v = (let v = upd_mm mm (mm_count_update (\<lambda>n. n - 1)) v in (mm_count (v_mms v mm), v))"

definition set_mm_count :: "nat \<Rightarrow> int \<Rightarrow> vmstate \<Rightarrow> vmstate" where
  "set_mm_count mm val = upd_mm mm (mm_count_update (\<lambda>_. val))"

text \<open>The semaphore \<open>mm_sem\<close> lies 28 bytes into the structure. \<open>lock_mm\<close> may sleep in \<open>down\<close>.\<close>

definition mm_sem :: "nat \<Rightarrow> nat" where "mm_sem mm = mm + 28"

definition lock_mm :: "(kstate \<Rightarrow> kstate option) \<Rightarrow> nat option \<Rightarrow> nat \<Rightarrow> kstate \<Rightarrow> vmstate \<Rightarrow> (kstate \<times> vmstate) option" where
  "lock_mm others mm w s v =
     (case mm of
        None \<Rightarrow> Some (s, v)
      | Some m \<Rightarrow> do {
          s \<leftarrow> down others (mm_sem m) w s;
          Some (s, upd_mm m (locked_by_update (\<lambda>_. pr_pid (k_procs s (k_current s)))) v) })"

definition unlock_mm :: "nat option \<Rightarrow> kstate \<Rightarrow> vmstate \<Rightarrow> (kstate \<times> vmstate) option" where
  "unlock_mm mm s v =
     (case mm of
        None \<Rightarrow> Some (s, v)
      | Some m \<Rightarrow> do {
          s \<leftarrow> up (mm_sem m) s;
          Some (s, upd_mm m (locked_by_update (\<lambda>_. 0)) v) })"

definition mm_create :: "kstate \<Rightarrow> vmstate \<Rightarrow> (nat option \<times> kstate \<times> vmstate) option" where
  "mm_create s v = do {
     (p, v) \<leftarrow> kmalloc 44 v;
     if p = 0 then Some (None, s, v)
     else do {
       let mm = unat p;
       let v = v\<lparr>v_vlinks := list_init (MmapList mm) (v_vlinks v)\<rparr>;
       let v = upd_mm mm (mmap_cache_update (\<lambda>_. None)) v;
       let v = upd_mm mm (mm_pgdir_update (\<lambda>_. 0)) v;
       let v = upd_mm mm (map_count_update (\<lambda>_. 0)) v;
       let v = (if v_swap_init_ok v then snd (swap_init_mm mm v)
                else upd_mm mm (mm_sm_priv_update (\<lambda>_. False)) v);
       let v = set_mm_count mm 0 v;
       Some (Some mm, sem_init (mm_sem mm) 1 s, v) } }"

definition vma_create :: "u32 \<Rightarrow> u32 \<Rightarrow> u32 \<Rightarrow> vmstate \<Rightarrow> (nat option \<times> vmstate) option" where
  "vma_create start end flags v = do {
     (p, v) \<leftarrow> kmalloc 24 v;
     Some (if p = 0 then (None, v)
           else let vma = unat p
                in (Some vma, upd_vma vma (\<lambda>r. r\<lparr>vm_start := start, vm_end := end, vm_flags := flags\<rparr>) v)) }"

definition vma_has :: "vmstate \<Rightarrow> u32 \<Rightarrow> nat \<Rightarrow> bool" where
  "vma_has v addr a \<longleftrightarrow> vm_start (v_vmas v a) \<le> addr \<and> addr < vm_end (v_vmas v a)"

partial_function (option) find_vma_loop :: "vmstate \<Rightarrow> u32 \<Rightarrow> vlink \<Rightarrow> nat option option" where
  "find_vma_loop v addr le =
     (case list_next le (v_vlinks v) of
        MmapList _ \<Rightarrow> Some None
      | VmaLink a \<Rightarrow> if vma_has v addr a then Some (Some a) else find_vma_loop v addr (VmaLink a))"

definition find_vma :: "nat option \<Rightarrow> u32 \<Rightarrow> vmstate \<Rightarrow> (nat option \<times> vmstate) option" where
  "find_vma mm addr v =
     (case mm of
        None \<Rightarrow> Some (None, v)
      | Some m \<Rightarrow> do {
          vma \<leftarrow> (case mmap_cache (v_mms v m) of
                    Some a \<Rightarrow> if vma_has v addr a then Some (Some a) else find_vma_loop v addr (MmapList m)
                  | None \<Rightarrow> find_vma_loop v addr (MmapList m));
          Some (vma, if vma \<noteq> None then upd_mm m (mmap_cache_update (\<lambda>_. vma)) v else v) })"

definition check_vma_overlap :: "nat \<Rightarrow> nat \<Rightarrow> vmstate \<Rightarrow> unit option" where
  "check_vma_overlap prv nxt v = do {
     kassert (vm_start (v_vmas v prv) < vm_end (v_vmas v prv));
     kassert (vm_end (v_vmas v prv) \<le> vm_start (v_vmas v nxt));
     kassert (vm_start (v_vmas v nxt) < vm_end (v_vmas v nxt)) }"

partial_function (option) insert_vma_find :: "vmstate \<Rightarrow> u32 \<Rightarrow> vlink \<Rightarrow> vlink option" where
  "insert_vma_find v start lprv =
     (case list_next lprv (v_vlinks v) of
        MmapList _ \<Rightarrow> Some lprv
      | VmaLink a \<Rightarrow> if vm_start (v_vmas v a) > start then Some lprv else insert_vma_find v start (VmaLink a))"

definition insert_vma_struct :: "nat \<Rightarrow> nat \<Rightarrow> vmstate \<Rightarrow> vmstate option" where
  "insert_vma_struct mm vma v = do {
     kassert (vm_start (v_vmas v vma) < vm_end (v_vmas v vma));
     lprv \<leftarrow> insert_vma_find v (vm_start (v_vmas v vma)) (MmapList mm);
     let lnxt = list_next lprv (v_vlinks v);
     (case lprv of VmaLink a \<Rightarrow> check_vma_overlap a vma v | MmapList _ \<Rightarrow> Some ());
     (case lnxt of VmaLink a \<Rightarrow> check_vma_overlap vma a v | MmapList _ \<Rightarrow> Some ());
     let v = upd_vma vma (vm_mm_update (\<lambda>_. Some mm)) v;
     let v = v\<lparr>v_vlinks := list_add_after lprv (VmaLink vma) (v_vlinks v)\<rparr>;
     Some (upd_mm mm (map_count_update (\<lambda>n. n + 1)) v) }"

partial_function (option) mm_destroy_loop :: "nat \<Rightarrow> vmstate \<Rightarrow> vmstate option" where
  "mm_destroy_loop mm v =
     (case list_next (MmapList mm) (v_vlinks v) of
        MmapList _ \<Rightarrow> Some v
      | VmaLink a \<Rightarrow> do {
          let v = v\<lparr>v_vlinks := list_del (VmaLink a) (v_vlinks v)\<rparr>;
          v \<leftarrow> kfree (of_nat a) v;
          mm_destroy_loop mm v })"

definition mm_destroy :: "nat \<Rightarrow> vmstate \<Rightarrow> vmstate option" where
  "mm_destroy mm v = do {
     kassert (mm_count (v_mms v mm) = 0);
     v \<leftarrow> mm_destroy_loop mm v;
     kfree (of_nat mm) v }"

text \<open>The results of \<open>mm_map\<close> are its return value and the area stored in \<open>vma_store\<close>.\<close>

definition mm_map :: "nat option \<Rightarrow> u32 \<Rightarrow> u32 \<Rightarrow> u32 \<Rightarrow> vmstate \<Rightarrow> (int \<times> nat option \<times> vmstate) option" where
  "mm_map mm addr len flags v =
     (let start = ROUNDDOWN addr PGSIZE; end = ROUNDUP (addr + len) PGSIZE in
      if \<not> USER_ACCESS start end then Some (- E_INVAL, None, v)
      else do {
        m \<leftarrow> mm;
        (vma, v) \<leftarrow> find_vma mm start v;
        if (case vma of Some a \<Rightarrow> end > vm_start (v_vmas v a) | None \<Rightarrow> False) then Some (- E_INVAL, None, v)
        else do {
          (vma, v) \<leftarrow> vma_create start end flags v;
          (case vma of
             None \<Rightarrow> Some (- E_NO_MEM, None, v)
           | Some a \<Rightarrow> do { v \<leftarrow> insert_vma_struct m a v; Some (0, Some a, v) }) } })"

partial_function (option) dup_mmap_loop :: "nat \<Rightarrow> nat \<Rightarrow> vmstate \<Rightarrow> vlink \<Rightarrow> (int \<times> vmstate) option" where
  "dup_mmap_loop to from' v le =
     (case list_prev le (v_vlinks v) of
        MmapList _ \<Rightarrow> Some (0, v)
      | VmaLink a \<Rightarrow> do {
          let vma = v_vmas v a;
          (nvma, v) \<leftarrow> vma_create (vm_start vma) (vm_end vma) (vm_flags vma) v;
          (case nvma of
             None \<Rightarrow> Some (- E_NO_MEM, v)
           | Some b \<Rightarrow> do {
               v \<leftarrow> insert_vma_struct to b v;
               (r, v) \<leftarrow> copy_range (mm_pgdir (v_mms v to)) (mm_pgdir (v_mms v from'))
                           (vm_start (v_vmas v a)) (vm_end (v_vmas v a)) v;
               if r \<noteq> 0 then Some (- E_NO_MEM, v)
               else dup_mmap_loop to from' v (VmaLink a) }) })"

definition dup_mmap :: "nat \<Rightarrow> nat \<Rightarrow> vmstate \<Rightarrow> (int \<times> vmstate) option" where
  "dup_mmap to from' v = dup_mmap_loop to from' v (MmapList from')"

text \<open>Both loops of \<open>exit_mmap\<close>: \<open>f\<close> is \<open>unmap_range\<close> or \<open>exit_range\<close>.\<close>

partial_function (option) exit_mmap_loop ::
  "(u32 \<Rightarrow> u32 \<Rightarrow> u32 \<Rightarrow> vmstate \<Rightarrow> vmstate option) \<Rightarrow> u32 \<Rightarrow> vmstate \<Rightarrow> vlink \<Rightarrow> vmstate option" where
  "exit_mmap_loop f pgdir v le =
     (case list_next le (v_vlinks v) of
        MmapList _ \<Rightarrow> Some v
      | VmaLink a \<Rightarrow> do {
          v \<leftarrow> f pgdir (vm_start (v_vmas v a)) (vm_end (v_vmas v a)) v;
          exit_mmap_loop f pgdir v (VmaLink a) })"

definition exit_mmap :: "nat \<Rightarrow> vmstate \<Rightarrow> vmstate option" where
  "exit_mmap mm v = do {
     kassert (mm_count (v_mms v mm) = 0);
     let pgdir = mm_pgdir (v_mms v mm);
     v \<leftarrow> exit_mmap_loop unmap_range pgdir v (MmapList mm);
     exit_mmap_loop exit_range pgdir v (MmapList mm) }"

definition do_pgfault :: "nat option \<Rightarrow> u32 \<Rightarrow> u32 \<Rightarrow> vmstate \<Rightarrow> (int \<times> vmstate) option" where
  "do_pgfault mm error_code addr v = do {
     (vma, v) \<leftarrow> find_vma mm addr v;
     let v = v\<lparr>v_pgfault_num := v_pgfault_num v + 1\<rparr>;
     (case vma of
        None \<Rightarrow> Some (- E_INVAL, v)
      | Some a \<Rightarrow>
          let flags = vm_flags (v_vmas v a); code = error_code AND 3 in
          if vm_start (v_vmas v a) > addr then Some (- E_INVAL, v)
          else if code = 1 \<or> code = 0 \<and> flags AND (VM_READ OR VM_EXEC) = 0 \<or>
                  code \<noteq> 1 \<and> code \<noteq> 0 \<and> flags AND VM_WRITE = 0 then Some (- E_INVAL, v)
          else do {
            m \<leftarrow> mm;
            let perm = (if flags AND VM_WRITE \<noteq> 0 then PTE_U OR PTE_W else PTE_U);
            let addr = ROUNDDOWN addr PGSIZE;
            (ptep, v) \<leftarrow> get_pte (mm_pgdir (v_mms v m)) addr True v;
            ptep \<leftarrow> ptep;
            if v_words v ptep = 0 then do {
              (_, v) \<leftarrow> pgdir_alloc_page (mm_pgdir (v_mms v m)) addr perm v;
              Some (0, v) }
            else if v_swap_init_ok v then do {
              (_, page, v) \<leftarrow> swap_in m addr v;
              (_, v) \<leftarrow> page_insert (mm_pgdir (v_mms v m)) page addr perm v;
              (_, v) \<leftarrow> swap_map_swappable m addr page 23 v;
              Some (0, v) }
            else Some (- E_NO_MEM, v) }) }"

partial_function (option) user_mem_loop ::
  "nat \<Rightarrow> bool \<Rightarrow> u32 \<Rightarrow> vmstate \<Rightarrow> u32 \<Rightarrow> (bool \<times> vmstate) option" where
  "user_mem_loop m write end v start =
     (if start < end then do {
        (vma, v) \<leftarrow> find_vma (Some m) start v;
        (case vma of
           None \<Rightarrow> Some (False, v)
         | Some a \<Rightarrow>
             let r = v_vmas v a in
             if start < vm_start r then Some (False, v)
             else if vm_flags r AND (if write then VM_WRITE else VM_READ) = 0 then Some (False, v)
             else if write \<and> vm_flags r AND VM_STACK \<noteq> 0 \<and> start < vm_start r + PGSIZE then Some (False, v)
             else user_mem_loop m write end v (vm_end r)) }
      else Some (True, v))"

definition user_mem_check :: "nat option \<Rightarrow> u32 \<Rightarrow> u32 \<Rightarrow> bool \<Rightarrow> vmstate \<Rightarrow> (bool \<times> vmstate) option" where
  "user_mem_check mm addr len write v =
     (case mm of
        Some m \<Rightarrow>
          if \<not> USER_ACCESS addr (addr + len) then Some (False, v)
          else user_mem_loop m write (addr + len) v addr
      | None \<Rightarrow> Some (KERN_ACCESS addr (addr + len), v))"

definition copy_from_user ::
  "nat option \<Rightarrow> u32 \<Rightarrow> u32 \<Rightarrow> u32 \<Rightarrow> bool \<Rightarrow> mem \<Rightarrow> vmstate \<Rightarrow> (bool \<times> mem \<times> vmstate) option" where
  "copy_from_user mm dst src len writable m v = do {
     (ok, v) \<leftarrow> user_mem_check mm src len writable v;
     Some (if ok then (True, memcpy m dst src len, v) else (False, m, v)) }"

definition copy_to_user :: "nat option \<Rightarrow> u32 \<Rightarrow> u32 \<Rightarrow> u32 \<Rightarrow> mem \<Rightarrow> vmstate \<Rightarrow> (bool \<times> mem \<times> vmstate) option" where
  "copy_to_user mm dst src len m v = do {
     (ok, v) \<leftarrow> user_mem_check mm dst len True v;
     Some (if ok then (True, memcpy m dst src len, v) else (False, m, v)) }"

partial_function (option) copy_string_loop ::
  "nat option \<Rightarrow> mem \<Rightarrow> vmstate \<Rightarrow> u32 \<Rightarrow> u32 \<Rightarrow> u32 \<Rightarrow> u32 \<Rightarrow> (bool \<times> mem \<times> vmstate) option" where
  "copy_string_loop mm m v dst src maxn part = do {
     let part = (if part > maxn then maxn else part);
     (ok, v) \<leftarrow> user_mem_check mm src part False v;
     if \<not> ok then Some (False, m, v)
     else do {
       let alen = strnlen m src part;
       if alen < part then Some (True, memcpy m dst src (alen + 1), v)
       else if part = maxn then Some (False, m, v)
       else copy_string_loop mm (memcpy m dst src part) v (dst + part) (src + part) (maxn - part) PGSIZE } }"

definition copy_string :: "nat option \<Rightarrow> u32 \<Rightarrow> u32 \<Rightarrow> u32 \<Rightarrow> mem \<Rightarrow> vmstate \<Rightarrow> (bool \<times> mem \<times> vmstate) option" where
  "copy_string mm dst src maxn m v =
     copy_string_loop mm m v dst src maxn (ROUNDDOWN (src + PGSIZE) PGSIZE - src)"

section \<open>The areas of an address space\<close>

text \<open>\<open>areas_ok v as\<close>: the areas are not empty, in address order and disjoint; \<open>vma_inv v m as\<close>: the list of
  \<open>m\<close> holds them, and the cache is one of them.\<close>

definition areas_ok :: "vmstate \<Rightarrow> nat list \<Rightarrow> bool" where
  "areas_ok v as \<longleftrightarrow> (\<forall>a \<in> set as. vm_start (v_vmas v a) < vm_end (v_vmas v a)) \<and>
     sorted_wrt (\<lambda>a b. vm_end (v_vmas v a) \<le> vm_start (v_vmas v b)) as"

definition vma_inv :: "vmstate \<Rightarrow> nat \<Rightarrow> nat list \<Rightarrow> bool" where
  "vma_inv v m as \<longleftrightarrow> ring (v_vlinks v) (MmapList m) (map VmaLink as) \<and> areas_ok v as \<and>
     set_option (mmap_cache (v_mms v m)) \<subseteq> set as"

lemma upd_mm_sel [simp]:
  "v_vmas (upd_mm m f v) = v_vmas v" "v_vlinks (upd_mm m f v) = v_vlinks v" "v_words (upd_mm m f v) = v_words v"
  "v_mms (upd_mm m f v) k = (if k = m then f (v_mms v m) else v_mms v k)" "v_pmm (upd_mm m f v) = v_pmm v"
  by (simp_all add: upd_mm_def)

lemma upd_vma_sel [simp]:
  "v_mms (upd_vma a f v) = v_mms v" "v_vlinks (upd_vma a f v) = v_vlinks v"
  "v_vmas (upd_vma a f v) b = (if b = a then f (v_vmas v a) else v_vmas v b)"
  by (simp_all add: upd_vma_def)

lemma sorted_wrt_cong': "(\<And>a b. a \<in> set xs \<Longrightarrow> b \<in> set xs \<Longrightarrow> P a b = Q a b) \<Longrightarrow> sorted_wrt P xs = sorted_wrt Q xs"
  by (induction xs) auto

lemma areas_ok_cong: "(\<And>a. a \<in> set as \<Longrightarrow> v_vmas v' a = v_vmas v a) \<Longrightarrow> areas_ok v' as = areas_ok v as"
  unfolding areas_ok_def by (intro arg_cong2 [where f = "(\<and>)"] ball_cong sorted_wrt_cong') simp_all

lemma areas_disjoint:
  assumes "areas_ok v as" "a \<in> set as" "b \<in> set as" "vma_has v x a" "vma_has v x b"
  shows "a = b"
proof -
  have "vma_has v x a \<Longrightarrow> vma_has v x b \<Longrightarrow> sorted_wrt (\<lambda>a b. vm_end (v_vmas v a) \<le> vm_start (v_vmas v b)) as
      \<Longrightarrow> a \<in> set as \<Longrightarrow> b \<in> set as \<Longrightarrow> a = b"
    by (induction as) (auto simp: vma_has_def)
  then show ?thesis using assms by (simp add: areas_ok_def)
qed

lemma vlinks_next:
  "ring (v_vlinks v) (MmapList m) (map VmaLink (as @ bs)) \<Longrightarrow>
   list_next (last (MmapList m # map VmaLink as)) (v_vlinks v) = (case bs of [] \<Rightarrow> MmapList m | b # _ \<Rightarrow> VmaLink b)"
  using ring_next_last [of "v_vlinks v" "MmapList m" "map VmaLink as" "map VmaLink bs"] by (cases bs) simp_all

lemma find_vma_loop_eq:
  "ring (v_vlinks v) (MmapList m) (map VmaLink (as @ bs)) \<Longrightarrow>
   find_vma_loop v addr (last (MmapList m # map VmaLink as)) = Some (find (vma_has v addr) bs)"
proof (induction bs arbitrary: as)
  case Nil
  show ?case using vlinks_next [OF Nil] by (subst find_vma_loop.simps) simp
next
  case (Cons b bs)
  have "find_vma_loop v addr (VmaLink b) = Some (find (vma_has v addr) bs)"
    using Cons.IH [of "as @ [b]"] Cons.prems by simp
  then show ?case using vlinks_next [OF Cons.prems] by (subst find_vma_loop.simps) simp
qed

lemma find_unique:
  assumes "areas_ok v as" "a \<in> set as" "vma_has v x a"
  shows "find (vma_has v x) as = Some a"
proof (cases "find (vma_has v x) as")
  case None
  then show ?thesis using assms by (auto simp: find_None_iff)
next
  case (Some b)
  then have "b \<in> set as" "vma_has v x b" by (auto simp: find_Some_iff)
  then show ?thesis using areas_disjoint [OF assms(1,2) _ assms(3)] Some by simp
qed

lemma find_vma_eq:
  assumes inv: "vma_inv v m as"
  shows "find_vma (Some m) addr v = Some (find (vma_has v addr) as,
    if find (vma_has v addr) as \<noteq> None then upd_mm m (mmap_cache_update (\<lambda>_. find (vma_has v addr) as)) v else v)"
proof -
  have r: "find_vma_loop v addr (MmapList m) = Some (find (vma_has v addr) as)"
    using find_vma_loop_eq [of v m "[]" as addr] inv by (simp add: vma_inv_def)
  show ?thesis
  proof (cases "mmap_cache (v_mms v m)")
    case None
    then show ?thesis using r by (simp add: find_vma_def)
  next
    case (Some a)
    then have "a \<in> set as" "areas_ok v as" using inv by (auto simp: vma_inv_def)
    then show ?thesis using Some r find_unique [of v as a addr] by (simp add: find_vma_def)
  qed
qed

lemma vma_inv_cache:
  assumes "vma_inv v m as"
  shows "vma_inv (upd_mm m (mmap_cache_update (\<lambda>_. find (vma_has v addr) as)) v) m as"
proof -
  have "set_option (find (vma_has v addr) as) \<subseteq> set as" by (auto simp: find_Some_iff)
  moreover have "areas_ok (upd_mm m f v) as = areas_ok v as" for f by (rule areas_ok_cong) simp
  ultimately show ?thesis using assms by (simp add: vma_inv_def)
qed

lemma find_vma_spec:
  assumes "vma_inv v m as"
  shows "\<exists>v'. find_vma (Some m) addr v = Some (find (vma_has v addr) as, v') \<and> vma_inv v' m as \<and>
    v_vmas v' = v_vmas v \<and> v_vlinks v' = v_vlinks v \<and> v_pmm v' = v_pmm v \<and> v_words v' = v_words v"
  using find_vma_eq [OF assms, of addr] vma_inv_cache [OF assms, of addr] assms by (auto split: if_splits)

section \<open>Inserting an area\<close>

lemma insert_vma_find_eq:
  "ring (v_vlinks v) (MmapList m) (map VmaLink (as @ bs)) \<Longrightarrow>
   insert_vma_find v s (last (MmapList m # map VmaLink as)) =
     Some (last (MmapList m # map VmaLink (as @ takeWhile (\<lambda>b. vm_start (v_vmas v b) \<le> s) bs)))"
proof (induction bs arbitrary: as)
  case Nil
  show ?case using vlinks_next [OF Nil] by (subst insert_vma_find.simps) simp
next
  case (Cons b bs)
  have "insert_vma_find v s (VmaLink b) =
      Some (last (MmapList m # map VmaLink ((as @ [b]) @ takeWhile (\<lambda>b. vm_start (v_vmas v b) \<le> s) bs)))"
    using Cons.IH [of "as @ [b]"] Cons.prems by simp
  then show ?case using vlinks_next [OF Cons.prems] by (subst insert_vma_find.simps) (cases "vm_start (v_vmas v b) \<le> s"; auto simp: not_le)
qed

definition area_insert :: "vmstate \<Rightarrow> nat \<Rightarrow> nat list \<Rightarrow> nat list" where
  "area_insert v a as =
     takeWhile (\<lambda>b. vm_start (v_vmas v b) \<le> vm_start (v_vmas v a)) as @
     a # dropWhile (\<lambda>b. vm_start (v_vmas v b) \<le> vm_start (v_vmas v a)) as"

text \<open>Two areas that do not overlap.\<close>

definition apart :: "vmstate \<Rightarrow> nat \<Rightarrow> nat \<Rightarrow> bool" where
  "apart v a b \<longleftrightarrow> vm_end (v_vmas v b) \<le> vm_start (v_vmas v a) \<or> vm_end (v_vmas v a) \<le> vm_start (v_vmas v b)"

lemma areas_ok_append:
  "areas_ok v (as @ bs) \<longleftrightarrow> areas_ok v as \<and> areas_ok v bs \<and>
     (\<forall>a \<in> set as. \<forall>b \<in> set bs. vm_end (v_vmas v a) \<le> vm_start (v_vmas v b))"
  by (auto simp: areas_ok_def sorted_wrt_append)

lemma areas_ok_Cons:
  "areas_ok v (a # as) \<longleftrightarrow> vm_start (v_vmas v a) < vm_end (v_vmas v a) \<and> areas_ok v as \<and>
     (\<forall>b \<in> set as. vm_end (v_vmas v a) \<le> vm_start (v_vmas v b))"
  by (auto simp: areas_ok_def)

text \<open>Comparing with the two neighbours is enough to know that no area of the list is overlapped.\<close>

lemma last_before:
  assumes "areas_ok v as" "as \<noteq> []" "vm_start (v_vmas v (last as)) \<le> s" "s < e"
  shows "vm_end (v_vmas v (last as)) \<le> s \<longleftrightarrow> (\<forall>a \<in> set as. vm_end (v_vmas v a) \<le> s \<or> e \<le> vm_start (v_vmas v a))"
proof (cases as rule: rev_cases)
  case (snoc xs x)
  have x: "vm_start (v_vmas v x) < vm_end (v_vmas v x)" "\<And>a. a \<in> set xs \<Longrightarrow> vm_end (v_vmas v a) \<le> vm_start (v_vmas v x)"
    using assms(1) snoc by (auto simp: areas_ok_append areas_ok_Cons)
  have "vm_end (v_vmas v x) \<le> s \<or> e \<le> vm_start (v_vmas v x) \<longleftrightarrow> vm_end (v_vmas v x) \<le> s"
    using assms(3,4) snoc by auto
  moreover have "vm_end (v_vmas v a) \<le> s" if "a \<in> set xs" "vm_end (v_vmas v x) \<le> s" for a
    using x(1) x(2) [OF that(1)] that(2) by (meson order.trans less_imp_le)
  ultimately show ?thesis using snoc by auto
qed (use assms in simp)

lemma first_after:
  assumes "areas_ok v (b # bs)" "s < vm_start (v_vmas v b)"
  shows "e \<le> vm_start (v_vmas v b) \<longleftrightarrow> (\<forall>a \<in> set (b # bs). vm_end (v_vmas v a) \<le> s \<or> e \<le> vm_start (v_vmas v a))"
proof -
  have b: "vm_start (v_vmas v b) < vm_end (v_vmas v b)" "\<And>a. a \<in> set bs \<Longrightarrow> vm_end (v_vmas v b) \<le> vm_start (v_vmas v a)"
    using assms(1) by (auto simp: areas_ok_Cons)
  have "\<not> vm_end (v_vmas v b) \<le> s" using b(1) assms(2) by simp
  moreover have "e \<le> vm_start (v_vmas v a)" if "a \<in> set bs" "e \<le> vm_start (v_vmas v b)" for a
    using b(1) b(2) [OF that(1)] that(2) by (meson order.trans less_imp_le)
  ultimately show ?thesis by auto
qed

lemma area_insert_ok:
  assumes ok: "areas_ok v as" and a: "vm_start (v_vmas v a) < vm_end (v_vmas v a)" "\<forall>b \<in> set as. apart v a b"
  shows "areas_ok v (area_insert v a as)"
proof -
  let ?P = "\<lambda>b. vm_start (v_vmas v b) \<le> vm_start (v_vmas v a)"
  have split: "areas_ok v (takeWhile ?P as)" "areas_ok v (dropWhile ?P as)"
    "\<forall>b \<in> set (takeWhile ?P as). \<forall>c \<in> set (dropWhile ?P as). vm_end (v_vmas v b) \<le> vm_start (v_vmas v c)"
    using ok areas_ok_append [of v "takeWhile ?P as" "dropWhile ?P as"] by simp_all
  have l: "vm_end (v_vmas v b) \<le> vm_start (v_vmas v a)" if "b \<in> set (takeWhile ?P as)" for b
  proof -
    have b: "b \<in> set as" "?P b" using that set_takeWhileD by fastforce+
    then show ?thesis using a b(2) by (force simp: apart_def)
  qed
  have r: "vm_end (v_vmas v a) \<le> vm_start (v_vmas v b)" if "b \<in> set (dropWhile ?P as)" for b
  proof (cases "dropWhile ?P as")
    case (Cons c cs)
    then have c: "\<not> ?P c" "c \<in> set as" using hd_dropWhile [of ?P as] set_dropWhileD [of c ?P as] by auto
    have "vm_start (v_vmas v c) < vm_end (v_vmas v c)" using c(2) ok by (simp add: areas_ok_def)
    then have e: "vm_end (v_vmas v a) \<le> vm_start (v_vmas v c)" using c a(2) by (force simp: apart_def)
    show ?thesis
    proof (cases "b = c")
      case False
      then have "vm_end (v_vmas v c) \<le> vm_start (v_vmas v b)" using split(2) that Cons by (auto simp: areas_ok_Cons)
      then show ?thesis using e \<open>vm_start (v_vmas v c) < vm_end (v_vmas v c)\<close> by (meson order.trans less_imp_le)
    qed (use e in simp)
  next
    case Nil
    show ?thesis using that unfolding Nil by simp
  qed
  show ?thesis using split l r a(1) by (auto simp: area_insert_def areas_ok_append areas_ok_Cons)
qed

lemma insert_vma_struct_spec:
  assumes inv: "vma_inv v m as" and a: "a \<notin> set as"
  defines "ok \<equiv> vm_start (v_vmas v a) < vm_end (v_vmas v a) \<and> (\<forall>b \<in> set as. apart v a b)"
  shows "\<not> ok \<Longrightarrow> insert_vma_struct m a v = None"
    and "ok \<Longrightarrow> \<exists>v'. insert_vma_struct m a v = Some v' \<and> vma_inv v' m (area_insert v a as) \<and>
      (\<forall>x b. vma_has v' x b = vma_has v x b) \<and> v_words v' = v_words v \<and> v_pmm v' = v_pmm v"
proof -
  let ?s = "vm_start (v_vmas v a)" and ?e = "vm_end (v_vmas v a)"
  let ?P = "\<lambda>b. vm_start (v_vmas v b) \<le> ?s"
  define pre post where pp: "pre = takeWhile ?P as" "post = dropWhile ?P as"
  have ins: "area_insert v a as = pre @ a # post" by (simp add: area_insert_def pp)
  have asp: "as = pre @ post" by (simp add: pp)
  have r: "ring (v_vlinks v) (MmapList m) (map VmaLink (pre @ post))" and ao: "areas_ok v (pre @ post)"
    using inv asp by (simp_all add: vma_inv_def)
  have f: "insert_vma_find v ?s (MmapList m) = Some (last (MmapList m # map VmaLink pre))"
    using insert_vma_find_eq [of v m "[]" as ?s] inv by (simp add: vma_inv_def pp)
  note nx = vlinks_next [OF r]
  have lp: "last (MmapList m # map VmaLink pre) = (if pre = [] then MmapList m else VmaLink (last pre))"
    by (simp add: last_map)
  have prec: "(\<forall>b \<in> set pre. apart v a b) \<longleftrightarrow> (pre \<noteq> [] \<longrightarrow> ?s < ?e \<longrightarrow> vm_end (v_vmas v (last pre)) \<le> ?s)" if se: "?s < ?e"
  proof (cases "pre = []")
    case False
    have "?P (last pre)" using False unfolding pp by (meson last_in_set set_takeWhileD)
    from last_before [OF _ False this se] ao False se show ?thesis unfolding areas_ok_append apart_def by blast
  qed (simp add: se)
  have postc: "(\<forall>b \<in> set post. apart v a b) \<longleftrightarrow> (\<forall>b bs. post = b # bs \<longrightarrow> ?e \<le> vm_start (v_vmas v b))" if se: "?s < ?e"
  proof (cases "post")
    case (Cons b bs)
    have "\<not> ?P b" using hd_dropWhile [of ?P as] Cons unfolding pp by auto
    then have "?s < vm_start (v_vmas v b)" by simp
    from first_after [OF _ this, of bs ?e] ao Cons show ?thesis unfolding areas_ok_append apart_def by auto
  next
    case Nil
    show ?thesis unfolding Nil by simp
  qed
  have as: "set as = set pre \<union> set post" by (simp add: asp)
  have st: "vm_start (v_vmas v b) < vm_end (v_vmas v b)" if "b \<in> set as" for b using inv that by (simp add: vma_inv_def areas_ok_def)

  have pres: "pre \<noteq> [] \<Longrightarrow> vm_start (v_vmas v (last pre)) < vm_end (v_vmas v (last pre))"
    using st as by (metis UnCI last_in_set)
  define v1 where "v1 = upd_vma a (vm_mm_update (\<lambda>_. Some m)) v"
  define v2 where "v2 = v1\<lparr>v_vlinks := list_add_after (last (MmapList m # map VmaLink pre)) (VmaLink a) (v_vlinks v1)\<rparr>"
  have step: "insert_vma_struct m a v = (if ok then Some (upd_mm m (map_count_update (\<lambda>n. n + 1)) v2) else None)"
  proof (cases "?s < ?e")
    case False
    then show ?thesis by (simp add: insert_vma_struct_def ok_def)
  next
    case se: True
    have c: "ok \<longleftrightarrow> (pre \<noteq> [] \<longrightarrow> vm_end (v_vmas v (last pre)) \<le> ?s) \<and> (\<forall>b bs. post = b # bs \<longrightarrow> ?e \<le> vm_start (v_vmas v b))"
      unfolding ok_def as ball_Un prec [OF se] postc [OF se] using se by blast
    show ?thesis
    proof (cases post)
      case Nil
      then show ?thesis using f nx se pres c unfolding lp
        by (cases "pre = []") (simp_all add: insert_vma_struct_def check_vma_overlap_def v1_def v2_def last_map kassert_def)
    next
      case (Cons b bs)
      then have "vm_start (v_vmas v b) < vm_end (v_vmas v b)" using st as by simp
      then show ?thesis using f nx se pres c Cons unfolding lp
        by (cases "pre = []") (simp_all add: insert_vma_struct_def check_vma_overlap_def v1_def v2_def last_map kassert_def)
    qed
  qed
  then show "\<not> ok \<Longrightarrow> insert_vma_struct m a v = None" by simp
  assume ok: ok
  have "ring (v_vlinks v2) (MmapList m) (map VmaLink (area_insert v a as))"
    using ring_add_after_last [of "v_vlinks v" "MmapList m" "map VmaLink pre" "map VmaLink post" "VmaLink a"] r a
    by (auto simp: v2_def v1_def list_add_def ins as image_iff)
  moreover have "vm_start (v_vmas v2 b) = vm_start (v_vmas v b)" "vm_end (v_vmas v2 b) = vm_end (v_vmas v b)" for b
    by (simp_all add: v2_def v1_def)
  then have e: "areas_ok (upd_mm m f v2) as' = areas_ok v as'" "vma_has (upd_mm m f v2) x' b = vma_has v x' b" for f as' x' b
    by (simp_all add: areas_ok_def vma_has_def)
  moreover have "areas_ok v (area_insert v a as)"
    using area_insert_ok [of v as a] inv ok by (simp add: ok_def vma_inv_def)
  moreover have "set (area_insert v a as) = insert a (set as)" unfolding ins as by auto
  moreover have "v_mms v2 = v_mms v" "v_words v2 = v_words v" "v_pmm v2 = v_pmm v"
    by (simp_all add: v2_def v1_def upd_vma_def)
  ultimately show "\<exists>v'. insert_vma_struct m a v = Some v' \<and> vma_inv v' m (area_insert v a as) \<and>
      (\<forall>x b. vma_has v' x b = vma_has v x b) \<and> v_words v' = v_words v \<and> v_pmm v' = v_pmm v"
    using step ok inv by (intro exI [of _ "upd_mm m (map_count_update (\<lambda>n. n + 1)) v2"]) (auto simp: vma_inv_def e)
qed

section \<open>Checking user memory\<close>

text \<open>An address that the current process may read or write: some area holds it, with the flag, and not in
  the guard page at the bottom of a stack.\<close>

definition user_ok :: "vmstate \<Rightarrow> nat list \<Rightarrow> bool \<Rightarrow> u32 \<Rightarrow> bool" where
  "user_ok v as write x \<longleftrightarrow> (\<exists>a \<in> set as. vma_has v x a \<and>
     vm_flags (v_vmas v a) AND (if write then VM_WRITE else VM_READ) \<noteq> 0 \<and>
     (write \<and> vm_flags (v_vmas v a) AND VM_STACK \<noteq> 0 \<longrightarrow> vm_start (v_vmas v a) + PGSIZE \<le> x))"

lemma user_ok_cong: "v_vmas v' = v_vmas v \<Longrightarrow> user_ok v' as write x = user_ok v as write x"
  by (simp add: user_ok_def vma_has_def)

lemma user_ok_unique:
  assumes "areas_ok v as" "a \<in> set as" "vma_has v x a"
  shows "user_ok v as write x \<longleftrightarrow> vm_flags (v_vmas v a) AND (if write then VM_WRITE else VM_READ) \<noteq> 0 \<and>
    (write \<and> vm_flags (v_vmas v a) AND VM_STACK \<noteq> 0 \<longrightarrow> vm_start (v_vmas v a) + PGSIZE \<le> x)"
  using assms areas_disjoint [OF assms(1,2) _ assms(3)] unfolding user_ok_def by blast

lemma user_mem_loop_eq:
  "vma_inv v m as \<Longrightarrow>
   \<exists>v'. user_mem_loop m write end v start = Some (\<forall>x. start \<le> x \<and> x < end \<longrightarrow> user_ok v as write x, v') \<and>
     vma_inv v' m as \<and> v_vmas v' = v_vmas v"
proof (induction "unat end - unat start" arbitrary: v start rule: less_induct)
  case less
  show ?case
  proof (cases "start < end")
    case False
    then have "\<not> (start \<le> x \<and> x < end)" for x by (meson le_less_trans)
    then have "\<forall>x. start \<le> x \<and> x < end \<longrightarrow> user_ok v as write x" by blast
    with False less.prems show ?thesis by (subst user_mem_loop.simps) simp
  next
    case True
    from find_vma_spec [OF less.prems, of start] obtain v1 where
      v1: "find_vma (Some m) start v = Some (find (vma_has v start) as, v1)" "vma_inv v1 m as" "v_vmas v1 = v_vmas v"
      by blast
    show ?thesis
    proof (cases "find (vma_has v start) as")
      case None
      then have "\<not> user_ok v as write start" by (auto simp: user_ok_def find_None_iff)
      with True have no: "\<not> (\<forall>x. start \<le> x \<and> x < end \<longrightarrow> user_ok v as write x)" by blast
      show ?thesis using no v1 None True by (subst user_mem_loop.simps) auto
    next
      case (Some a)
      then have a: "a \<in> set as" "vma_has v start a" by (auto simp: find_Some_iff)
      have ao: "areas_ok v as" using less.prems by (simp add: vma_inv_def)
      note uo = user_ok_unique [OF ao a(1)]
      show ?thesis
      proof (cases "user_ok v as write start")
        case False
        with True have no: "\<not> (\<forall>x. start \<le> x \<and> x < end \<longrightarrow> user_ok v as write x)" by blast
        show ?thesis using no False v1 Some True a uo [OF a(2)]
          by (subst user_mem_loop.simps) (auto simp: vma_has_def not_le Let_def)
      next
        case ok: True
        let ?e = "vm_end (v_vmas v a)"
        have e: "vm_start (v_vmas v a) \<le> start" "start < ?e" using a(2) by (simp_all add: vma_has_def)
        have "unat end - unat ?e < unat end - unat start"
          using True e(2) by (auto simp: word_less_nat_alt simp del: of_nat_unat)
        from less.hyps [OF this v1(2)] obtain v2 where v2:
          "user_mem_loop m write end v1 ?e = Some (\<forall>x. ?e \<le> x \<and> x < end \<longrightarrow> user_ok v1 as write x, v2)"
          "vma_inv v2 m as" "v_vmas v2 = v_vmas v1" by blast
        have fst: "user_ok v as write x" if "start \<le> x" "x < ?e" for x
        proof -
          have "vma_has v x a" using that e(1) by (auto simp: vma_has_def)
          then show ?thesis using uo [of x] uo [OF a(2)] ok that(1) by (meson order.trans)
        qed
        have eq: "(\<forall>x. ?e \<le> x \<and> x < end \<longrightarrow> user_ok v1 as write x) \<longleftrightarrow> (\<forall>x. start \<le> x \<and> x < end \<longrightarrow> user_ok v as write x)"
          unfolding user_ok_cong [OF v1(3)] using fst e(2) by (meson le_less_trans less_imp_le not_le)
        have "user_mem_loop m write end v start = user_mem_loop m write end v1 ?e"
        proof -
          have f: "vm_flags (v_vmas v a) AND (if write then VM_WRITE else VM_READ) \<noteq> 0"
            "\<not> (write \<and> vm_flags (v_vmas v a) AND VM_STACK \<noteq> 0 \<and> start < vm_start (v_vmas v a) + PGSIZE)"
            using ok uo [OF a(2)] by (auto simp: not_less)
          have g: "\<not> start < vm_start (v_vmas v a)" using e(1) by simp
          show ?thesis using True v1(1,3) Some f g by (subst user_mem_loop.simps) (simp only: Let_def option_bind_Some
              if_True if_False prod.case option.case)
        qed
        then show ?thesis using v2 v1(3) eq by simp
      qed
    qed
  qed
qed

lemma vma_inv_frame:
  "vma_inv v m as \<Longrightarrow> vm_same v v' \<Longrightarrow> vma_inv v' m as"
  by (simp add: vma_inv_def vm_same_def areas_ok_def)

text \<open>A new area \<open>a\<close> with the range \<open>start \<dots> end\<close>, as \<^verbatim>\<open>vma_create\<close> leaves it.\<close>

lemma vma_create_spec:
  assumes inv: "vma_inv v m as" and k: "kmalloc 24 v = Some (p, w)" and p: "p \<noteq> 0" "unat p \<notin> set as"
  shows "\<exists>v'. vma_create start end flags v = Some (Some (unat p), v') \<and> vma_inv v' m as \<and>
    vm_start (v_vmas v' (unat p)) = start \<and> vm_end (v_vmas v' (unat p)) = end \<and> vm_flags (v_vmas v' (unat p)) = flags \<and>
    (\<forall>b. b \<noteq> unat p \<longrightarrow> v_vmas v' b = v_vmas v b)"
proof -
  let ?v = "upd_vma (unat p) (\<lambda>r. r\<lparr>vm_start := start, vm_end := end, vm_flags := flags\<rparr>) w"
  have w: "vma_inv w m as" "vm_same v w" using vma_inv_frame [OF inv] kmalloc_same [OF k] by simp_all
  have "areas_ok ?v as = areas_ok w as" by (rule areas_ok_cong) (use p(2) in auto)
  then have "vma_inv ?v m as" using w(1) by (simp add: vma_inv_def)
  then show ?thesis using k p(1) w(2) by (simp add: vma_create_def vm_same_def Let_def)
qed

text \<open>C39. \<^verbatim>\<open>mm_map\<close> on a free range of user addresses adds an area with exactly the pages of the request, and
  every other address belongs to the areas it belonged to before.\<close>

theorem mm_map_adds_area:
  assumes inv: "vma_inv v m as" and k: "kmalloc 24 v = Some (p, w)" "p \<noteq> 0" "unat p \<notin> set as"
    and range: "start = ROUNDDOWN addr PGSIZE" "end = ROUNDUP (addr + len) PGSIZE" "USER_ACCESS start end"
    and free: "\<And>b. b \<in> set as \<Longrightarrow> vm_end (v_vmas v b) \<le> start \<or> end \<le> vm_start (v_vmas v b)"
  shows "\<exists>v' as'. mm_map (Some m) addr len flags v = Some (0, Some (unat p), v') \<and> vma_inv v' m as' \<and>
    set as' = insert (unat p) (set as) \<and> (\<forall>x. vma_has v' x (unat p) \<longleftrightarrow> start \<le> x \<and> x < end) \<and>
    (\<forall>x. \<forall>b \<in> set as. vma_has v' x b \<longleftrightarrow> vma_has v x b)"
proof -
  have se: "start < end" using range(3) by (simp add: USER_ACCESS_def)
  have "\<not> vma_has v start b" if "b \<in> set as" for b using free [OF that] se by (auto simp: vma_has_def)
  then have f: "find (vma_has v start) as = None" by (auto simp: find_None_iff)
  obtain v1 where v1: "vma_create start end flags v = Some (Some (unat p), v1)" "vma_inv v1 m as"
      "vm_start (v_vmas v1 (unat p)) = start" "vm_end (v_vmas v1 (unat p)) = end"
      "\<forall>b. b \<noteq> unat p \<longrightarrow> v_vmas v1 b = v_vmas v b"
    using vma_create_spec [OF inv k] by blast
  have old: "v_vmas v1 b = v_vmas v b" if "b \<in> set as" for b using v1(5) k(3) that by metis
  have "\<forall>b \<in> set as. apart v1 (unat p) b" using free old v1(3,4) by (auto simp: apart_def)
  with insert_vma_struct_spec(2) [OF v1(2) k(3)] se v1(3,4) obtain v2 where
    v2: "insert_vma_struct m (unat p) v1 = Some v2" "vma_inv v2 m (area_insert v1 (unat p) as)"
      "\<forall>x b. vma_has v2 x b = vma_has v1 x b" by auto
  have "set (area_insert v1 (unat p) as) = insert (unat p) (set as)"
    unfolding area_insert_def by simp (metis set_append takeWhile_dropWhile_id)
  moreover have "vma_has v1 x b = vma_has v x b" if "b \<in> set as" for x b
    using old [OF that] by (simp add: vma_has_def)
  moreover have "mm_map (Some m) addr len flags v = Some (0, Some (unat p), v2)"
    using find_vma_eq [OF inv, of start] f v1(1) v2(1) range(3) by (simp add: mm_map_def Let_def flip: range(1,2))
  ultimately show ?thesis using v2 v1(3,4) by (auto simp: vma_has_def)
qed

text \<open>A request whose first page is free but whose range runs into a later area stops the kernel:
  \<^verbatim>\<open>mm_map\<close> tests only the first address for an overlap, and \<^verbatim>\<open>insert_vma_struct\<close> then fails its
  assertion; it does not return an error.\<close>

theorem mm_map_overlap_panics:
  assumes inv: "vma_inv v m as" and k: "kmalloc 24 v = Some (p, w)" "p \<noteq> 0" "unat p \<notin> set as"
    and range: "start = ROUNDDOWN addr PGSIZE" "end = ROUNDUP (addr + len) PGSIZE" "USER_ACCESS start end"
    and b: "b \<in> set as" "start < vm_start (v_vmas v b)" "vm_start (v_vmas v b) < end"
    and free: "\<And>c. c \<in> set as \<Longrightarrow> \<not> vma_has v start c"
  shows "mm_map (Some m) addr len flags v = None"
proof -
  have f: "find (vma_has v start) as = None" using free by (auto simp: find_None_iff)
  obtain v1 where v1: "vma_create start end flags v = Some (Some (unat p), v1)" "vma_inv v1 m as"
      "vm_start (v_vmas v1 (unat p)) = start" "vm_end (v_vmas v1 (unat p)) = end"
      "\<forall>b. b \<noteq> unat p \<longrightarrow> v_vmas v1 b = v_vmas v b"
    using vma_create_spec [OF inv k] by blast
  have "v_vmas v1 b = v_vmas v b" using v1(5) k(3) b(1) by metis
  moreover have "vm_start (v_vmas v b) < vm_end (v_vmas v b)" using inv b(1) by (simp add: vma_inv_def areas_ok_def)
  ultimately have "\<not> apart v1 (unat p) b" using b(2,3) v1(3,4) by (auto simp: apart_def)
  with insert_vma_struct_spec(1) [OF v1(2) k(3)] b(1) have "insert_vma_struct m (unat p) v1 = None" by blast
  then show ?thesis
    using find_vma_eq [OF inv, of start] f v1(1) range(3) by (simp add: mm_map_def Let_def flip: range(1,2))
qed

text \<open>C38. \<^verbatim>\<open>user_mem_check\<close> returns, and accepts a range exactly when it is a range of user addresses every
  one of which the process may access: it lies in an area with the right flag, and a write does not
  touch the guard page of a stack.\<close>

theorem user_mem_check_iff:
  assumes "vma_inv v m as"
  shows "\<exists>v'. user_mem_check (Some m) addr len write v =
      Some (USER_ACCESS addr (addr + len) \<and> (\<forall>x. addr \<le> x \<and> x < addr + len \<longrightarrow> user_ok v as write x), v') \<and>
    vma_inv v' m as"
proof (cases "USER_ACCESS addr (addr + len)")
  case True
  obtain v' where "user_mem_loop m write (addr + len) v addr =
      Some (\<forall>x. addr \<le> x \<and> x < addr + len \<longrightarrow> user_ok v as write x, v') \<and> vma_inv v' m as"
    using user_mem_loop_eq [OF assms] by blast
  then show ?thesis using True by (simp add: user_mem_check_def)
next
  case False
  with assms show ?thesis by (simp add: user_mem_check_def)
qed

text \<open>\<^verbatim>\<open>find_vma\<close> returns the one area that holds the address, or NULL when there is none, whatever the
  cache of the address space points to, and the cache stays valid.\<close>

theorem find_vma_finds:
  assumes "vma_inv v m as"
  shows "\<exists>r v'. find_vma (Some m) addr v = Some (r, v') \<and> vma_inv v' m as \<and> v_vmas v' = v_vmas v \<and>
    (case r of Some a \<Rightarrow> a \<in> set as \<and> (\<forall>b \<in> set as. vma_has v addr b \<longleftrightarrow> b = a) | None \<Rightarrow> \<forall>b \<in> set as. \<not> vma_has v addr b)"
proof -
  obtain v' where v': "find_vma (Some m) addr v = Some (find (vma_has v addr) as, v')" "vma_inv v' m as" "v_vmas v' = v_vmas v"
    using find_vma_spec [OF assms] by blast
  have ao: "areas_ok v as" using assms by (simp add: vma_inv_def)
  show ?thesis
  proof (cases "find (vma_has v addr) as")
    case None
    then have "\<forall>b \<in> set as. \<not> vma_has v addr b" by (auto simp: find_None_iff)
    then show ?thesis using v' None by auto
  next
    case (Some a)
    then have "a \<in> set as" "vma_has v addr a" by (auto simp: find_Some_iff)
    then show ?thesis using v' Some areas_disjoint [OF ao] by auto
  qed
qed

text \<open>A page fault that the areas do not allow (no area at the address, a write to a read-only area, a
  read of an unreadable one, or a read of a page that is present) is refused with \<open>-E_INVAL\<close>, and
  neither the page tables nor the physical pages change.\<close>

theorem do_pgfault_refuses:
  assumes inv: "vma_inv v m as"
    and bad: "\<And>a. a \<in> set as \<Longrightarrow> vma_has v addr a \<Longrightarrow> error_code AND 3 = 1 \<or>
      vm_flags (v_vmas v a) AND (if error_code AND 3 = 0 then VM_READ OR VM_EXEC else VM_WRITE) = 0"
  shows "\<exists>v'. do_pgfault (Some m) error_code addr v = Some (- E_INVAL, v') \<and> v_words v' = v_words v \<and> v_pmm v' = v_pmm v"
proof -
  obtain v' where v': "find_vma (Some m) addr v = Some (find (vma_has v addr) as, v')" "v_vmas v' = v_vmas v"
      "v_words v' = v_words v" "v_pmm v' = v_pmm v"
    using find_vma_spec [OF inv] by blast
  show ?thesis
  proof (cases "find (vma_has v addr) as")
    case None
    then show ?thesis using v' by (simp add: do_pgfault_def)
  next
    case (Some a)
    then have "a \<in> set as" "vma_has v addr a" by (auto simp: find_Some_iff)
    with bad have "error_code AND 3 = 1 \<or>
      vm_flags (v_vmas v a) AND (if error_code AND 3 = 0 then VM_READ OR VM_EXEC else VM_WRITE) = 0" by blast
    then show ?thesis using v' Some by (auto simp: do_pgfault_def Let_def split: if_splits)
  qed
qed

section \<open>A concrete address space\<close>

text \<open>Address space 100 has one area, 200, of two pages at \<open>0x400000\<close>; the heap has one free block of a page.\<close>

definition example_space :: vmstate where
  "example_space = example_vm\<lparr>v_words := (\<lambda>a. if a = 0x80010000 then 1 else if a = 0x80010004 then 0x80003000
       else if a = 0x80003000 then 512 else if a = 0x80003004 then 0x80010000 else 0),
     v_slobfree := 0x80010000,
     v_vlinks := list_add_after (MmapList 100) (VmaLink 200) (list_init (MmapList 100) (\<lambda>l. \<lparr>le_prev = l, le_next = l\<rparr>)),
     v_vmas := (\<lambda>_. \<lparr>vm_mm = Some 100, vm_start = 0x400000, vm_end = 0x402000, vm_flags = VM_READ\<rparr>)\<rparr>"

lemma example_space_sel:
  "v_vmas example_space = (\<lambda>_. \<lparr>vm_mm = Some 100, vm_start = 0x400000, vm_end = 0x402000, vm_flags = VM_READ\<rparr>)"
  "mmap_cache (v_mms example_space k) = None"
  by (simp_all add: example_space_def example_vm_def)

lemma example_space_inv: "vma_inv example_space 100 [200]"
proof -
  have "ring (v_vlinks example_space) (MmapList 100) (map VmaLink [200])"
    by (simp add: example_space_def ring_def list_init_def list_add_after_def list_add_raw_def)
  then show ?thesis by (simp add: vma_inv_def areas_ok_def example_space_sel)
qed

lemma example_kmalloc: "\<exists>w. kmalloc 24 example_space = Some (0x80003008, w)"
proof -
  have "slob_next example_space 0x80010000 = 0x80003000" "slob_units example_space 0x80003000 = 512"
    "v_slobfree example_space = 0x80010000"
    by (simp_all add: example_space_def slob_next_def slob_units_def)
  then have "\<exists>w. slob_alloc 32 0 example_space = Some (0x80003000, w)"
    by (simp add: slob_alloc_def slob_alloc_loop.simps SLOB_UNIT_def SLOB_UNITS_def PGSIZE_def slob_take_def Let_def)
  then show ?thesis by (auto simp: kmalloc_def PGSIZE_def SLOB_UNIT_def)
qed

theorem mm_map_adds_area_witness:
  "\<exists>v' as'. mm_map (Some 100) 0x500123 0x1000 VM_READ example_space = Some (0, Some 0x80003008, v') \<and> vma_inv v' 100 as' \<and>
     (\<forall>x. vma_has v' x 0x80003008 \<longleftrightarrow> 0x500000 \<le> x \<and> x < 0x502000)"
proof -
  obtain w where w: "kmalloc 24 example_space = Some (0x80003008, w)" using example_kmalloc by blast
  have "ROUNDDOWN 0x500123 PGSIZE = 0x500000" "ROUNDUP (0x500123 + 0x1000) PGSIZE = 0x502000"
    by (simp_all add: ROUNDDOWN_def ROUNDUP_def PGSIZE_def)
  then show ?thesis
    using mm_map_adds_area [OF example_space_inv w, of "0x500000" "0x500123" "0x502000" "0x1000" VM_READ]
    by (auto simp: USER_ACCESS_def USERBASE_def USERTOP_def example_space_sel)
qed

theorem mm_map_overlap_panics_witness: "mm_map (Some 100) 0x3FF000 0x2000 VM_READ example_space = None"
proof -
  obtain w where w: "kmalloc 24 example_space = Some (0x80003008, w)" using example_kmalloc by blast
  have "ROUNDDOWN 0x3FF000 PGSIZE = 0x3FF000" "ROUNDUP (0x3FF000 + 0x2000) PGSIZE = 0x401000"
    by (simp_all add: ROUNDDOWN_def ROUNDUP_def PGSIZE_def)
  then show ?thesis
    using mm_map_overlap_panics [OF example_space_inv w, of "0x3FF000" "0x3FF000" "0x401000" "0x2000" 200 VM_READ]
    by (simp add: USER_ACCESS_def USERBASE_def USERTOP_def example_space_sel vma_has_def)
qed

theorem user_mem_check_iff_witness:
  "\<exists>v'. user_mem_check (Some 100) 0x400FF0 0x20 True example_space = Some (False, v') \<and> vma_inv v' 100 [200]"
proof -
  have "\<not> user_ok example_space [200] True 0x400FF0"
    by (simp add: user_ok_def example_space_sel VM_READ_def VM_WRITE_def)
  moreover have "0x400FF0 \<le> (0x400FF0 :: u32) \<and> 0x400FF0 < (0x400FF0 + 0x20 :: u32)" by simp
  ultimately have "\<not> (\<forall>x. 0x400FF0 \<le> x \<and> x < 0x400FF0 + 0x20 \<longrightarrow> user_ok example_space [200] True x)" by blast
  with user_mem_check_iff [OF example_space_inv, of "0x400FF0" "0x20" True] show ?thesis by (simp only: simp_thms)
qed

theorem find_vma_finds_witness: "\<exists>v'. find_vma (Some 100) 0x401FFF example_space = Some (Some 200, v')"
proof -
  from find_vma_finds [OF example_space_inv, of "0x401FFF"] obtain r v' where
    "find_vma (Some 100) 0x401FFF example_space = Some (r, v')"
    "case r of Some a \<Rightarrow> a \<in> set [200] \<and> (\<forall>b \<in> set [200]. vma_has example_space 0x401FFF b \<longleftrightarrow> b = a)
      | None \<Rightarrow> \<forall>b \<in> set [200]. \<not> vma_has example_space 0x401FFF b" by blast
  moreover have "vma_has example_space 0x401FFF 200" by (simp add: vma_has_def example_space_sel)
  ultimately show ?thesis by (cases r) auto
qed

theorem do_pgfault_refuses_witness: "\<exists>v'. do_pgfault (Some 100) 2 0x400000 example_space = Some (- E_INVAL, v')"
proof -
  have "\<exists>v'. do_pgfault (Some 100) 2 0x400000 example_space = Some (- E_INVAL, v') \<and>
      v_words v' = v_words example_space \<and> v_pmm v' = v_pmm example_space"
    by (rule do_pgfault_refuses [OF example_space_inv]) (simp add: example_space_sel VM_READ_def VM_WRITE_def)
  then show ?thesis by blast
qed

end
