(* ===== verification/Inode.thy ===== *)
theory Inode
  imports Vmm Bitmap Iobuf
begin

text \<open>
  The state of the file system and the parts below it: devices (\<^verbatim>\<open>kern/fs/devs/dev.h\<close>, \<^verbatim>\<open>dev_disk0.c\<close>),
  in-memory inodes (\<^verbatim>\<open>kern/fs/vfs/inode.h\<close>, \<^verbatim>\<open>inode.c\<close>) and the structures of SFS (\<^verbatim>\<open>sfs.h\<close>).
  A \<open>struct inode *\<close> is the address of the structure as a number, and \<open>info2node\<close> and \<open>vop_info\<close>
  identify an inode with the device or SFS inode inside it. There is one mounted SFS, the one on
  \<open>disk0\<close>. A buffer that is passed to a block device is the list of its bytes.

  The locks are counters: the model follows the process that gets every lock at once (a process that
  finds a lock taken sleeps in \<open>down\<close>, see \<^verbatim>\<open>Sync\<close>), so \<open>None\<close> at a lock means that a process would
  wait for itself.
\<close>

unbundle bit_operations_syntax

section \<open>Devices\<close>

type_synonym blocks = "u32 \<Rightarrow> u8 list"

text \<open>The function pointers of a device are those of one of the three drivers.\<close>

datatype dev_ops = Disk0Ops | StdinOps | StdoutOps

record device =
  d_blocks :: u32
  d_blocksize :: u32
  d_ops :: dev_ops

definition DISK0_BLKSIZE :: u32 where "DISK0_BLKSIZE = PGSIZE"
definition DISK0_DEVSIZE :: u32 where "DISK0_DEVSIZE = 0x400000"

definition disk0_read_blks_nolock :: "u32 \<Rightarrow> nat \<Rightarrow> blocks \<Rightarrow> u8 list" where
  "disk0_read_blks_nolock blkno nblks disk = concat (map (\<lambda>i. disk (blkno + of_nat i)) [0 ..< nblks])"

text \<open>The body only prints a warning.\<close>

definition disk0_write_blks_nolock :: "u32 \<Rightarrow> nat \<Rightarrow> u8 list \<Rightarrow> blocks \<Rightarrow> blocks" where
  "disk0_write_blks_nolock blkno nblks data disk = disk"

text \<open>The transfer loop: \<open>n\<close> blocks are left, at most four at a time pass through the buffer.\<close>

function disk0_io_loop :: "bool \<Rightarrow> u32 \<Rightarrow> nat \<Rightarrow> u8 list \<Rightarrow> blocks \<Rightarrow> u8 list \<times> blocks" where
  "disk0_io_loop write blkno n data disk =
     (if n = 0 then ([], disk)
      else let k = min 4 n in
        if write then
          let disk = disk0_write_blks_nolock blkno k (take (4096 * k) data) disk
          in disk0_io_loop write (blkno + of_nat k) (n - k) (drop (4096 * k) data) disk
        else
          let out = disk0_read_blks_nolock blkno k disk;
              (rest, disk) = disk0_io_loop write (blkno + of_nat k) (n - k) data disk
          in (out @ rest, disk))"
  by auto
termination by (relation "measure (\<lambda>(write, blkno, n, data, disk). n)") auto

declare disk0_io_loop.simps [simp del]

definition disk0_io :: "u32 \<Rightarrow> u32 \<Rightarrow> u32 \<Rightarrow> bool \<Rightarrow> u8 list \<Rightarrow> blocks \<Rightarrow> int \<times> u8 list \<times> blocks" where
  "disk0_io dblocks offset resid write data disk =
     (let blkno = offset div DISK0_BLKSIZE; nblks = resid div DISK0_BLKSIZE in
      if offset mod DISK0_BLKSIZE \<noteq> 0 \<or> resid mod DISK0_BLKSIZE \<noteq> 0 then (- E_INVAL, [], disk)
      else if blkno + nblks > dblocks then (- E_INVAL, [], disk)
      else if nblks = 0 then (0, [], disk)
      else let (out, disk) = disk0_io_loop write blkno (unat nblks) data disk in (0, out, disk))"

text \<open>The driver's four-block buffer is memory outside the model.\<close>

definition disk0_device_init :: device where
  "disk0_device_init = \<lparr>d_blocks = DISK0_DEVSIZE div DISK0_BLKSIZE, d_blocksize = DISK0_BLKSIZE, d_ops = Disk0Ops\<rparr>"

text \<open>\<open>dop_io\<close> on a block device gets the offset, length and direction of the request and the bytes to
  write; it returns the bytes read. SFS is only ever mounted on a device with blocks of 4096 bytes,
  which the terminal devices have not.\<close>

definition block_io :: "device \<Rightarrow> u32 \<Rightarrow> u32 \<Rightarrow> bool \<Rightarrow> u8 list \<Rightarrow> blocks \<Rightarrow> (int \<times> u8 list \<times> blocks) option" where
  "block_io dev offset resid write data disk =
     (case d_ops dev of Disk0Ops \<Rightarrow> Some (disk0_io (d_blocks dev) offset resid write data disk) | _ \<Rightarrow> None)"

section \<open>The structures of SFS\<close>

definition SFS_MAGIC :: u32 where "SFS_MAGIC = 0x2f8dbe2a"
definition SFS_BLKSIZE :: u32 where "SFS_BLKSIZE = PGSIZE"
definition SFS_NDIRECT :: u32 where "SFS_NDIRECT = 12"
definition SFS_MAX_FNAME_LEN :: u32 where "SFS_MAX_FNAME_LEN = 255"
definition SFS_MAX_FILE_SIZE :: u32 where "SFS_MAX_FILE_SIZE = 1024 * 1024 * 128"
definition SFS_BLKN_SUPER :: u32 where "SFS_BLKN_SUPER = 0"
definition SFS_BLKN_ROOT :: u32 where "SFS_BLKN_ROOT = 1"
definition SFS_BLKN_FREEMAP :: u32 where "SFS_BLKN_FREEMAP = 2"
definition SFS_BLKBITS :: u32 where "SFS_BLKBITS = SFS_BLKSIZE * 8"
definition SFS_BLK_NENTRY :: u32 where "SFS_BLK_NENTRY = SFS_BLKSIZE div 4"
definition SFS_TYPE_FILE :: u16 where "SFS_TYPE_FILE = 1"
definition SFS_TYPE_DIR :: u16 where "SFS_TYPE_DIR = 2"
definition SFS_TYPE_LINK :: u16 where "SFS_TYPE_LINK = 3"

record sfs_super =
  su_magic :: u32
  su_blocks :: u32
  su_unused_blocks :: u32
  su_info :: "u8 list"

record sfs_disk_inode =
  di_size :: u32
  di_type :: u16
  di_nlinks :: u16
  di_blocks :: u32
  di_direct :: "u32 list"
  di_indirect :: u32

record sfs_disk_entry =
  de_ino :: u32
  de_name :: "u8 list"

record sfs_inode =
  si_din :: sfs_disk_inode
  si_din_ptr :: u32
  si_ino :: u32
  si_dirty :: bool
  si_reclaim_count :: int
  si_sem :: int

record sfs_fs =
  sf_super :: sfs_super
  sf_dev :: device
  sf_freemap :: bitmap
  sf_freemap_ptr :: u32
  sf_freemap_data :: u32
  sf_super_dirty :: bool
  sf_buffer :: u32
  sf_fs_sem :: int
  sf_io_sem :: int
  sf_mutex_sem :: int
  sf_hash_list :: u32

datatype sfslink = InodeList | HashHead nat | InodeLink nat | HashEntry nat

section \<open>Inodes\<close>

datatype in_info = DeviceInfo device | SfsInfo sfs_inode

datatype in_ops = DevNodeOps | SfsDirOps | SfsFileOps

text \<open>\<open>in_fs\<close> says whether the field is the one mounted file system or NULL.\<close>

record inode =
  in_info :: in_info
  in_ref_count :: int
  in_open_count :: int
  in_fs :: bool
  in_ops :: "in_ops option"

section \<open>Devices by name, open files\<close>

text \<open>A string is the list of its bytes before the NUL.\<close>

record vfs_dev =
  vd_devname :: "u8 list"
  vd_devnode :: "nat option"
  vd_fs :: bool
  vd_mountable :: bool

datatype vdevlink = VdevList | VdevLink nat

datatype fd_status = FD_NONE | FD_INIT | FD_OPENED | FD_CLOSED

record open_file =
  fl_status :: fd_status
  fl_readable :: bool
  fl_writable :: bool
  fl_fd :: int
  fl_pos :: u32
  fl_node :: "nat option"
  fl_open_count :: int

record files_struct =
  fs_pwd :: "nat option"
  fs_array :: "open_file list"
  fs_count :: int
  fs_sem :: int

text \<open>\<open>f_fs\<close> is the address of the mounted \<open>struct fs\<close>, \<open>f_mem\<close> the memory of buffers, \<open>f_stdin\<close>, \<open>f_rpos\<close>
  and \<open>f_wpos\<close> the ring of keyboard input, \<open>f_console\<close> what was printed. The last four fields are
  \<open>current->filesp\<close>, \<open>current->mm\<close>, the semaphore of that address space and \<open>current->pid\<close>.\<close>

record fstate =
  f_vm :: vmstate
  f_mem :: mem
  f_disk :: blocks
  f_sfs :: sfs_fs
  f_fs :: u32
  f_inodes :: "nat \<Rightarrow> inode"
  f_links :: "sfslink lheap"
  f_vdevs :: "nat \<Rightarrow> vfs_dev"
  f_vdev_links :: "vdevlink lheap"
  f_vdev_sem :: int
  f_bootfs_node :: "nat option"
  f_bootfs_sem :: int
  f_files :: "nat \<Rightarrow> files_struct"
  f_stdin :: "u8 list"
  f_rpos :: u32
  f_wpos :: u32
  f_console :: "u8 list"
  f_filesp :: "nat option"
  f_mm :: "nat option"
  f_mm_sem :: int
  f_pid :: int

definition upd_inode :: "nat \<Rightarrow> (inode \<Rightarrow> inode) \<Rightarrow> fstate \<Rightarrow> fstate" where
  "upd_inode n f s = s\<lparr>f_inodes := (f_inodes s)(n := f (f_inodes s n))\<rparr>"

definition upd_sfs :: "(sfs_fs \<Rightarrow> sfs_fs) \<Rightarrow> fstate \<Rightarrow> fstate" where
  "upd_sfs f s = s\<lparr>f_sfs := f (f_sfs s)\<rparr>"

text \<open>\<open>vop_info(node, sfs_inode)\<close> and \<open>vop_info(node, device)\<close>, with their assertion on the type.\<close>

definition sin :: "nat \<Rightarrow> fstate \<Rightarrow> sfs_inode option" where
  "sin n s = (case in_info (f_inodes s n) of SfsInfo i \<Rightarrow> Some i | DeviceInfo _ \<Rightarrow> None)"

definition dev_info :: "nat \<Rightarrow> fstate \<Rightarrow> device option" where
  "dev_info n s = (case in_info (f_inodes s n) of DeviceInfo d \<Rightarrow> Some d | SfsInfo _ \<Rightarrow> None)"

definition upd_sin :: "nat \<Rightarrow> (sfs_inode \<Rightarrow> sfs_inode) \<Rightarrow> fstate \<Rightarrow> fstate" where
  "upd_sin n f = upd_inode n (in_info_update (\<lambda>i. case i of SfsInfo x \<Rightarrow> SfsInfo (f x) | DeviceInfo d \<Rightarrow> DeviceInfo d))"

definition kalloc :: "u32 \<Rightarrow> fstate \<Rightarrow> (u32 \<times> fstate) option" where
  "kalloc sz s = do { (p, v) \<leftarrow> kmalloc sz (f_vm s); Some (p, s\<lparr>f_vm := v\<rparr>) }"

definition kfree_fs :: "u32 \<Rightarrow> fstate \<Rightarrow> fstate option" where
  "kfree_fs p s = do { v \<leftarrow> kfree p (f_vm s); Some (s\<lparr>f_vm := v\<rparr>) }"

definition MAX_INODE_COUNT :: int where "MAX_INODE_COUNT = 0x10000"

definition inode_ref_inc :: "nat \<Rightarrow> fstate \<Rightarrow> int \<times> fstate" where
  "inode_ref_inc n s = (let s = upd_inode n (in_ref_count_update (\<lambda>c. c + 1)) s in (in_ref_count (f_inodes s n), s))"

definition inode_open_inc :: "nat \<Rightarrow> fstate \<Rightarrow> int \<times> fstate" where
  "inode_open_inc n s = (let s = upd_inode n (in_open_count_update (\<lambda>c. c + 1)) s in (in_open_count (f_inodes s n), s))"

definition inode_init :: "nat \<Rightarrow> in_ops \<Rightarrow> bool \<Rightarrow> fstate \<Rightarrow> fstate" where
  "inode_init n ops fs s =
     snd (inode_ref_inc n (upd_inode n (\<lambda>i. i\<lparr>in_ref_count := 0, in_open_count := 0, in_ops := Some ops, in_fs := fs\<rparr>) s))"

text \<open>The size of \<open>struct inode\<close> is 64 bytes: the union takes 44, the other fields 20. The new node
  carries no information but its type.\<close>

definition alloc_inode :: "in_info \<Rightarrow> fstate \<Rightarrow> (nat option \<times> fstate) option" where
  "alloc_inode i s = do {
     (p, s) \<leftarrow> kalloc 64 s;
     if p \<noteq> 0 then Some (Some (unat p), upd_inode (unat p) (in_info_update (\<lambda>_. i)) s)
     else Some (None, s) }"

definition inode_kill :: "nat \<Rightarrow> fstate \<Rightarrow> fstate option" where
  "inode_kill n s = do {
     kassert (in_ref_count (f_inodes s n) = 0);
     kassert (in_open_count (f_inodes s n) = 0);
     kfree_fs (of_nat n) s }"

definition inode_check :: "nat \<Rightarrow> fstate \<Rightarrow> unit option" where
  "inode_check n s = do {
     let ref_count = in_ref_count (f_inodes s n);
     let open_count = in_open_count (f_inodes s n);
     kassert (in_ops (f_inodes s n) \<noteq> None);
     kassert (ref_count \<ge> open_count \<and> open_count \<ge> 0);
     kassert (ref_count < MAX_INODE_COUNT \<and> open_count < MAX_INODE_COUNT) }"

end
