(* ===== verification/Sfs.thy ===== *)
theory Sfs
  imports Inode ListH IntArith
begin

text \<open>
  \<^verbatim>\<open>kern/fs/sfs/sfs_io.c\<close>, \<^verbatim>\<open>sfs_lock.c\<close> and the block map of \<^verbatim>\<open>sfs_inode.c\<close>: block I/O with the
  one-block buffer, allocation and release of disk blocks, and the map from the blocks of a file to
  the blocks of the disk, with 12 direct entries and one indirect block. An error of the device is the
  code's error value; a failed assertion or a panic is \<open>None\<close>.
\<close>

unbundle bit_operations_syntax

section \<open>sfs_lock.c\<close>

definition lock_sfs_fs :: "fstate \<Rightarrow> fstate option" where
  "lock_sfs_fs s = do { kassert (sf_fs_sem (f_sfs s) > 0); Some (upd_sfs (sf_fs_sem_update (\<lambda>n. n - 1)) s) }"

definition unlock_sfs_fs :: "fstate \<Rightarrow> fstate" where
  "unlock_sfs_fs = upd_sfs (sf_fs_sem_update (\<lambda>n. n + 1))"

definition lock_sfs_io :: "fstate \<Rightarrow> fstate option" where
  "lock_sfs_io s = do { kassert (sf_io_sem (f_sfs s) > 0); Some (upd_sfs (sf_io_sem_update (\<lambda>n. n - 1)) s) }"

definition unlock_sfs_io :: "fstate \<Rightarrow> fstate" where
  "unlock_sfs_io = upd_sfs (sf_io_sem_update (\<lambda>n. n + 1))"

section \<open>sfs_io.c\<close>

text \<open>One block to or from the device: return value, bytes read, state.\<close>

definition sfs_rwblock_nolock :: "u8 list \<Rightarrow> u32 \<Rightarrow> bool \<Rightarrow> bool \<Rightarrow> fstate \<Rightarrow> (int \<times> u8 list \<times> fstate) option" where
  "sfs_rwblock_nolock data blkno write check s = do {
     kassert ((blkno \<noteq> 0 \<or> \<not> check) \<and> blkno < su_blocks (sf_super (f_sfs s)));
     (r, out, disk) \<leftarrow> block_io (sf_dev (f_sfs s)) (blkno * SFS_BLKSIZE) SFS_BLKSIZE write data (f_disk s);
     Some (r, out, s\<lparr>f_disk := disk\<rparr>) }"

fun sfs_rwblock_loop :: "u8 list \<Rightarrow> u32 \<Rightarrow> nat \<Rightarrow> bool \<Rightarrow> fstate \<Rightarrow> (int \<times> u8 list \<times> fstate) option" where
  "sfs_rwblock_loop data blkno 0 write s = Some (0, [], s)"
| "sfs_rwblock_loop data blkno (Suc n) write s = do {
     (r, out, s) \<leftarrow> sfs_rwblock_nolock (take 4096 data) blkno write True s;
     if r \<noteq> 0 then Some (r, out, s)
     else do {
       (r, rest, s) \<leftarrow> sfs_rwblock_loop (drop 4096 data) (blkno + 1) n write s;
       Some (r, out @ rest, s) } }"

definition sfs_rwblock :: "u8 list \<Rightarrow> u32 \<Rightarrow> u32 \<Rightarrow> bool \<Rightarrow> fstate \<Rightarrow> (int \<times> u8 list \<times> fstate) option" where
  "sfs_rwblock data blkno nblks write s = do {
     s \<leftarrow> lock_sfs_io s;
     (r, out, s) \<leftarrow> sfs_rwblock_loop data blkno (unat nblks) write s;
     Some (r, out, unlock_sfs_io s) }"

definition sfs_rblock :: "u32 \<Rightarrow> u32 \<Rightarrow> fstate \<Rightarrow> (int \<times> u8 list \<times> fstate) option" where
  "sfs_rblock blkno nblks s = sfs_rwblock [] blkno nblks False s"

definition sfs_wblock :: "u8 list \<Rightarrow> u32 \<Rightarrow> u32 \<Rightarrow> fstate \<Rightarrow> (int \<times> fstate) option" where
  "sfs_wblock data blkno nblks s = map_option (\<lambda>(r, _, s). (r, s)) (sfs_rwblock data blkno nblks True s)"

definition sfs_rbuf :: "u32 \<Rightarrow> u32 \<Rightarrow> u32 \<Rightarrow> fstate \<Rightarrow> (int \<times> u8 list \<times> fstate) option" where
  "sfs_rbuf len blkno offset s = do {
     kassert (offset < SFS_BLKSIZE \<and> offset + len \<le> SFS_BLKSIZE);
     s \<leftarrow> lock_sfs_io s;
     (r, buf, s) \<leftarrow> sfs_rwblock_nolock [] blkno False True s;
     let out = (if r = 0 then take (unat len) (drop (unat offset) buf) else []);
     Some (r, out, unlock_sfs_io s) }"

text \<open>\<open>patch buf k data\<close> is \<open>memcpy(buf + k, data, length data)\<close>.\<close>

definition patch :: "u8 list \<Rightarrow> nat \<Rightarrow> u8 list \<Rightarrow> u8 list" where
  "patch buf k data = take k buf @ data @ drop (k + length data) buf"

definition sfs_wbuf :: "u8 list \<Rightarrow> u32 \<Rightarrow> u32 \<Rightarrow> fstate \<Rightarrow> (int \<times> fstate) option" where
  "sfs_wbuf data blkno offset s = do {
     kassert (offset < SFS_BLKSIZE \<and> offset + of_nat (length data) \<le> SFS_BLKSIZE);
     s \<leftarrow> lock_sfs_io s;
     (r, buf, s) \<leftarrow> sfs_rwblock_nolock [] blkno False True s;
     (r, s) \<leftarrow>
       (if r = 0 then do {
          (r, _, s) \<leftarrow> sfs_rwblock_nolock (patch buf (unat offset) data) blkno True True s;
          Some (r, s) }
        else Some (r, s));
     Some (r, unlock_sfs_io s) }"

text \<open>The words of the structures on disk, least significant byte first.\<close>

definition le16 :: "u16 \<Rightarrow> u8 list" where "le16 w = [ucast w, ucast (drop_bit 8 w)]"
definition le32 :: "u32 \<Rightarrow> u8 list" where
  "le32 w = [ucast w, ucast (drop_bit 8 w), ucast (drop_bit 16 w), ucast (drop_bit 24 w)]"
definition rd16 :: "u8 list \<Rightarrow> nat \<Rightarrow> u16" where
  "rd16 bs k = ucast (bs ! k) OR push_bit 8 (ucast (bs ! (k + 1)))"
definition rd32 :: "u8 list \<Rightarrow> nat \<Rightarrow> u32" where
  "rd32 bs k = ucast (bs ! k) OR push_bit 8 (ucast (bs ! (k + 1))) OR push_bit 16 (ucast (bs ! (k + 2))) OR
     push_bit 24 (ucast (bs ! (k + 3)))"

text \<open>The code reads and writes the structures through pointers into the block; \<open>put_disk_inode\<close>, \<open>put_super\<close> and
  the \<open>get\<close> functions are the layout of these structures in memory.\<close>

definition put_disk_inode :: "sfs_disk_inode \<Rightarrow> u8 list" where
  "put_disk_inode d = le32 (di_size d) @ le16 (di_type d) @ le16 (di_nlinks d) @ le32 (di_blocks d) @
     concat (map le32 (di_direct d)) @ le32 (di_indirect d)"

definition get_disk_inode :: "u8 list \<Rightarrow> sfs_disk_inode" where
  "get_disk_inode bs = \<lparr>di_size = rd32 bs 0, di_type = rd16 bs 4, di_nlinks = rd16 bs 6, di_blocks = rd32 bs 8,
     di_direct = map (\<lambda>i. rd32 bs (12 + 4 * i)) [0 ..< 12], di_indirect = rd32 bs 60\<rparr>"

definition put_super :: "sfs_super \<Rightarrow> u8 list" where
  "put_super su = le32 (su_magic su) @ le32 (su_blocks su) @ le32 (su_unused_blocks su) @ su_info su"

definition get_super :: "u8 list \<Rightarrow> sfs_super" where
  "get_super bs = \<lparr>su_magic = rd32 bs 0, su_blocks = rd32 bs 4, su_unused_blocks = rd32 bs 8,
     su_info = take 32 (drop 12 bs)\<rparr>"

definition get_disk_entry :: "u8 list \<Rightarrow> sfs_disk_entry" where
  "get_disk_entry bs = \<lparr>de_ino = rd32 bs 0, de_name = take 256 (drop 4 bs)\<rparr>"

definition sfs_sync_super :: "fstate \<Rightarrow> (int \<times> fstate) option" where
  "sfs_sync_super s = do {
     s \<leftarrow> lock_sfs_io s;
     let buf = patch (replicate 4096 0) 0 (put_super (sf_super (f_sfs s)));
     (r, _, s) \<leftarrow> sfs_rwblock_nolock buf SFS_BLKN_SUPER True False s;
     Some (r, unlock_sfs_io s) }"

definition sfs_freemap_blocks :: "u32 \<Rightarrow> u32" where
  "sfs_freemap_blocks blocks = ROUNDUP_DIV blocks SFS_BLKBITS"

definition sfs_freemap_bits :: "u32 \<Rightarrow> u32" where
  "sfs_freemap_bits blocks = ROUNDUP blocks SFS_BLKBITS"

definition sfs_sync_freemap :: "fstate \<Rightarrow> (int \<times> fstate) option" where
  "sfs_sync_freemap s =
     sfs_wblock (concat (map le32 (fst (bitmap_getdata (sf_freemap (f_sfs s)))))) SFS_BLKN_FREEMAP
       (sfs_freemap_blocks (su_blocks (sf_super (f_sfs s)))) s"

fun sfs_clear_loop :: "u32 \<Rightarrow> nat \<Rightarrow> fstate \<Rightarrow> (int \<times> fstate) option" where
  "sfs_clear_loop blkno 0 s = Some (0, s)"
| "sfs_clear_loop blkno (Suc n) s = do {
     (r, _, s) \<leftarrow> sfs_rwblock_nolock (replicate 4096 0) blkno True True s;
     if r \<noteq> 0 then Some (r, s) else sfs_clear_loop (blkno + 1) n s }"

text \<open>With \<open>nblks = 0\<close> the code returns an uninitialised variable; no caller does that.\<close>

definition sfs_clear_block :: "u32 \<Rightarrow> u32 \<Rightarrow> fstate \<Rightarrow> (int \<times> fstate) option" where
  "sfs_clear_block blkno nblks s = do {
     s \<leftarrow> lock_sfs_io s;
     kassert (nblks \<noteq> 0);
     (r, s) \<leftarrow> sfs_clear_loop blkno (unat nblks) s;
     Some (r, unlock_sfs_io s) }"

section \<open>Disk blocks\<close>

definition sfs_block_inuse :: "u32 \<Rightarrow> fstate \<Rightarrow> bool option" where
  "sfs_block_inuse ino s = do {
     kassert (ino \<noteq> 0 \<and> ino < su_blocks (sf_super (f_sfs s)));
     t \<leftarrow> bitmap_test (sf_freemap (f_sfs s)) ino;
     Some (\<not> t) }"

definition assert_inuse :: "u32 \<Rightarrow> fstate \<Rightarrow> unit option" where
  "assert_inuse ino s = do { u \<leftarrow> sfs_block_inuse ino s; kassert u }"

text \<open>The results are the return value and \<open>*ino_store\<close> (0 when nothing was stored).\<close>

definition sfs_block_alloc :: "fstate \<Rightarrow> (int \<times> u32 \<times> fstate) option" where
  "sfs_block_alloc s = do {
     (r, ino, fm) \<leftarrow> bitmap_alloc (sf_freemap (f_sfs s));
     let s = upd_sfs (sf_freemap_update (\<lambda>_. fm)) s;
     (case ino of
        None \<Rightarrow> Some (r, 0, s)
      | Some ino \<Rightarrow> do {
          kassert (su_unused_blocks (sf_super (f_sfs s)) > 0);
          let s = upd_sfs (\<lambda>f. f\<lparr>sf_super := (sf_super f)\<lparr>su_unused_blocks := su_unused_blocks (sf_super f) - 1\<rparr>,
                               sf_super_dirty := True\<rparr>) s;
          assert_inuse ino s;
          (r, s) \<leftarrow> sfs_clear_block ino 1 s;
          Some (r, ino, s) }) }"

definition sfs_block_free :: "u32 \<Rightarrow> fstate \<Rightarrow> fstate option" where
  "sfs_block_free ino s = do {
     assert_inuse ino s;
     fm \<leftarrow> bitmap_free (sf_freemap (f_sfs s)) ino;
     Some (upd_sfs (\<lambda>f. f\<lparr>sf_freemap := fm,
        sf_super := (sf_super f)\<lparr>su_unused_blocks := su_unused_blocks (sf_super f) + 1\<rparr>, sf_super_dirty := True\<rparr>) s) }"

section \<open>The block map of a file\<close>

definition upd_din :: "nat \<Rightarrow> (sfs_disk_inode \<Rightarrow> sfs_disk_inode) \<Rightarrow> fstate \<Rightarrow> fstate" where
  "upd_din n f = upd_sin n (si_din_update f)"

definition set_dirty :: "nat \<Rightarrow> fstate \<Rightarrow> fstate" where
  "set_dirty n = upd_sin n (si_dirty_update (\<lambda>_. True))"

text \<open>\<open>sfs_bmap_get_sub_nolock\<close> returns its value, the new \<open>*entp\<close> and \<open>*ino_store\<close>.\<close>

definition sfs_bmap_get_sub_nolock :: "u32 \<Rightarrow> u32 \<Rightarrow> bool \<Rightarrow> fstate \<Rightarrow> (int \<times> u32 \<times> u32 \<times> fstate) option" where
  "sfs_bmap_get_sub_nolock entp index create s = do {
     kassert (index < SFS_BLK_NENTRY);
     let offset = index * 4;
     (r, ino, s) \<leftarrow>
       (if entp \<noteq> 0 then do {
          (r, bs, s) \<leftarrow> sfs_rbuf 4 entp offset s;
          Some (r, if r = 0 then rd32 bs 0 else 0, s) }
        else Some (0, 0, s));
     if r \<noteq> 0 then Some (r, entp, 0, s)
     else if (entp \<noteq> 0 \<and> ino \<noteq> 0) \<or> \<not> create then Some (0, entp, ino, s)
     else do {
       (r, ent, s) \<leftarrow> (if entp = 0 then sfs_block_alloc s else Some (0, entp, s));
       if r \<noteq> 0 then Some (r, entp, 0, s)
       else do {
         (r, ino, s) \<leftarrow> sfs_block_alloc s;
         (r, s) \<leftarrow>
           (if r \<noteq> 0 then Some (r, s)
            else do {
              (r, s) \<leftarrow> sfs_wbuf (le32 ino) ent offset s;
              if r \<noteq> 0 then do { s \<leftarrow> sfs_block_free ino s; Some (r, s) } else Some (0, s) });
         if r \<noteq> 0 then do {
           s \<leftarrow> (if ent \<noteq> entp then sfs_block_free ent s else Some s);
           Some (r, entp, 0, s) }
         else Some (0, ent, ino, s) } } }"

definition sfs_bmap_get_nolock :: "nat \<Rightarrow> u32 \<Rightarrow> bool \<Rightarrow> fstate \<Rightarrow> (int \<times> u32 \<times> fstate) option" where
  "sfs_bmap_get_nolock n index create s = do {
     i \<leftarrow> sin n s;
     let din = si_din i;
     (r, ino, s) \<leftarrow>
       (if index < SFS_NDIRECT then
          let ino = di_direct din ! unat index in
          if ino = 0 \<and> create then do {
            (r, ino, s) \<leftarrow> sfs_block_alloc s;
            if r \<noteq> 0 then Some (r, 0, s)
            else Some (0, ino, set_dirty n (upd_din n (di_direct_update (\<lambda>d. d[unat index := ino])) s)) }
          else Some (0, ino, s)
        else do {
          let index = index - SFS_NDIRECT;
          kassert (index < SFS_BLK_NENTRY);
          (r, ent, ino, s) \<leftarrow> sfs_bmap_get_sub_nolock (di_indirect din) index create s;
          if r \<noteq> 0 then Some (r, 0, s)
          else if ent \<noteq> di_indirect din then do {
            kassert (di_indirect din = 0);
            Some (0, ino, set_dirty n (upd_din n (di_indirect_update (\<lambda>_. ent)) s)) }
          else Some (0, ino, s) });
     if r \<noteq> 0 then Some (r, 0, s)
     else do {
       (if ino = 0 then Some () else assert_inuse ino s);
       Some (0, ino, s) } }"

definition sfs_bmap_free_sub_nolock :: "u32 \<Rightarrow> u32 \<Rightarrow> fstate \<Rightarrow> (int \<times> fstate) option" where
  "sfs_bmap_free_sub_nolock ent index s = do {
     assert_inuse ent s;
     kassert (index < SFS_BLK_NENTRY);
     let offset = index * 4;
     (r, bs, s) \<leftarrow> sfs_rbuf 4 ent offset s;
     if r \<noteq> 0 then Some (r, s)
     else
       let ino = rd32 bs 0 in
       if ino \<noteq> 0 then do {
         (r, s) \<leftarrow> sfs_wbuf (le32 0) ent offset s;
         if r \<noteq> 0 then Some (r, s)
         else do { s \<leftarrow> sfs_block_free ino s; Some (0, s) } }
       else Some (0, s) }"

definition sfs_bmap_free_nolock :: "nat \<Rightarrow> u32 \<Rightarrow> fstate \<Rightarrow> (int \<times> fstate) option" where
  "sfs_bmap_free_nolock n index s = do {
     i \<leftarrow> sin n s;
     let din = si_din i;
     if index < SFS_NDIRECT then
       let ino = di_direct din ! unat index in
       if ino \<noteq> 0 then do {
         s \<leftarrow> sfs_block_free ino s;
         Some (0, set_dirty n (upd_din n (di_direct_update (\<lambda>d. d[unat index := 0])) s)) }
       else Some (0, s)
     else
       let index = index - SFS_NDIRECT in
       if index < SFS_BLK_NENTRY \<and> di_indirect din \<noteq> 0
       then sfs_bmap_free_sub_nolock (di_indirect din) index s
       else Some (0, s) }"

definition sfs_bmap_load_nolock :: "nat \<Rightarrow> u32 \<Rightarrow> fstate \<Rightarrow> (int \<times> u32 \<times> fstate) option" where
  "sfs_bmap_load_nolock n index s = do {
     i \<leftarrow> sin n s;
     let blocks = di_blocks (si_din i);
     kassert (index \<le> blocks);
     let create = (index = blocks);
     (r, ino, s) \<leftarrow> sfs_bmap_get_nolock n index create s;
     if r \<noteq> 0 then Some (r, 0, s)
     else do {
       assert_inuse ino s;
       Some (0, ino, if create then upd_din n (di_blocks_update (\<lambda>b. b + 1)) s else s) } }"

definition sfs_bmap_truncate_nolock :: "nat \<Rightarrow> fstate \<Rightarrow> (int \<times> fstate) option" where
  "sfs_bmap_truncate_nolock n s = do {
     i \<leftarrow> sin n s;
     kassert (di_blocks (si_din i) \<noteq> 0);
     (r, s) \<leftarrow> sfs_bmap_free_nolock n (di_blocks (si_din i) - 1) s;
     if r \<noteq> 0 then Some (r, s)
     else Some (0, set_dirty n (upd_din n (di_blocks_update (\<lambda>b. b - 1)) s)) }"

section \<open>The structures on disk are read back as they are written\<close>

lemma length_le [simp]: "length (le16 v) = 2" "length (le32 w) = 4"
  by (simp_all add: le16_def le32_def)

lemma rd16_le16 [simp]: "rd16 (le16 w @ bs) 0 = w"
  by (rule bit_word_eqI) (auto simp: rd16_def le16_def bit_simps less_Suc_eq_le)

lemma rd32_le32 [simp]: "rd32 (le32 w @ bs) 0 = w"
proof (rule bit_word_eqI)
  fix n assume "n < LENGTH(32)"
  then show "bit (rd32 (le32 w @ bs) 0) n = bit w n"
    by (cases "n < 8"; cases "n < 16"; cases "n < 24")
       (auto simp: rd32_def le32_def bit_simps not_less dest: le_add_diff_inverse)
qed

text \<open>Reading at an offset is reading after dropping that many bytes.\<close>

lemma rd_append:
  "rd16 (xs @ ys) (length xs + k) = rd16 ys k" "rd32 (xs @ ys) (length xs + k) = rd32 ys k"
  by (simp_all add: rd16_def rd32_def nth_append)

lemma rd_skip:
  "length xs = n \<Longrightarrow> n \<le> k \<Longrightarrow> rd16 (xs @ ys) k = rd16 ys (k - n)"
  "length xs = n \<Longrightarrow> n \<le> k \<Longrightarrow> rd32 (xs @ ys) k = rd32 ys (k - n)"
  using rd_append [of xs ys "k - n"] by simp_all

lemma length_concat_le32 [simp]: "length (concat (map le32 ws)) = 4 * length ws"
  by (induction ws) simp_all

lemma rd32_concat:
  "i < length ws \<Longrightarrow> rd32 (concat (map le32 ws) @ bs) (4 * i) = ws ! i"
proof (induction ws arbitrary: i)
  case (Cons w ws)
  then show ?case by (cases i) (simp_all add: rd_skip)
qed simp


lemma get_put_disk_inode:
  assumes "length (di_direct d) = 12"
  shows "get_disk_inode (put_disk_inode d @ bs) = d"
proof -
  have "map (\<lambda>i. rd32 (put_disk_inode d @ bs) (12 + 4 * i)) [0 ..< 12] = di_direct d"
    by (rule nth_equalityI) (simp_all add: assms put_disk_inode_def rd_skip rd32_concat)
  then show ?thesis by (simp add: get_disk_inode_def, simp add: put_disk_inode_def rd_skip assms)
qed

lemma get_put_super: "length (su_info u) = 32 \<Longrightarrow> get_super (put_super u @ bs) = u"
  by (simp add: get_super_def put_super_def rd_skip)

end
