(* ===== verification/SfsNode.thy ===== *)
theory SfsNode
  imports Sfs
begin

text \<open>
  The rest of \<^verbatim>\<open>kern/fs/sfs/sfs_inode.c\<close>: loading inodes, directory entries, reading and writing
  files, and the entries of the tables \<open>sfs_node_dirops\<close> and \<open>sfs_node_fileops\<close>; with them the parts of
  \<^verbatim>\<open>inode.c\<close> that call back into the file system when a count reaches zero.
\<close>

unbundle bit_operations_syntax

section \<open>Inodes in memory\<close>

definition lock_sin :: "nat \<Rightarrow> fstate \<Rightarrow> fstate option" where
  "lock_sin n s = do {
     i \<leftarrow> sin n s;
     kassert (si_sem i > 0);
     Some (upd_sin n (si_sem_update (\<lambda>k. k - 1)) s) }"

definition unlock_sin :: "nat \<Rightarrow> fstate \<Rightarrow> fstate" where
  "unlock_sin n = upd_sin n (si_sem_update (\<lambda>k. k + 1))"

definition sfs_get_ops :: "u16 \<Rightarrow> in_ops option" where
  "sfs_get_ops type =
     (if type = SFS_TYPE_DIR then Some SfsDirOps else if type = SFS_TYPE_FILE then Some SfsFileOps else None)"

definition sfs_hash_list :: "u32 \<Rightarrow> sfslink" where
  "sfs_hash_list ino = HashHead (unat (hash32 ino 10))"

definition sfs_set_links :: "nat \<Rightarrow> fstate \<Rightarrow> fstate option" where
  "sfs_set_links n s = do {
     i \<leftarrow> sin n s;
     let l = list_add InodeList (InodeLink n) (f_links s);
     let l = list_add (sfs_hash_list (si_ino i)) (HashEntry n) l;
     Some (s\<lparr>f_links := l\<rparr>) }"

definition sfs_remove_links :: "nat \<Rightarrow> fstate \<Rightarrow> fstate" where
  "sfs_remove_links n s = s\<lparr>f_links := list_del (HashEntry n) (list_del (InodeLink n) (f_links s))\<rparr>"

text \<open>\<open>*node_store\<close> is the second result. \<open>sem_init\<close> sets the semaphore to 1.\<close>

definition sfs_create_inode :: "sfs_disk_inode \<Rightarrow> u32 \<Rightarrow> u32 \<Rightarrow> fstate \<Rightarrow> (int \<times> nat option \<times> fstate) option" where
  "sfs_create_inode din din_ptr ino s = do {
     (node, s) \<leftarrow> alloc_inode (SfsInfo \<lparr>si_din = din, si_din_ptr = din_ptr, si_ino = ino, si_dirty = False,
                                   si_reclaim_count = 1, si_sem = 1\<rparr>) s;
     (case node of
        Some n \<Rightarrow> do {
          ops \<leftarrow> sfs_get_ops (di_type din);
          Some (0, Some n, inode_init n ops True s) }
      | None \<Rightarrow> Some (- E_NO_MEM, None, s)) }"

partial_function (option) lookup_sfs_loop ::
  "sfslink \<Rightarrow> u32 \<Rightarrow> fstate \<Rightarrow> sfslink \<Rightarrow> (nat option \<times> fstate) option" where
  "lookup_sfs_loop lst ino s le =
     (let le = list_next le (f_links s) in
      if le = lst then Some (None, s)
      else case le of
        HashEntry n \<Rightarrow> do {
          i \<leftarrow> sin n s;
          if si_ino i = ino then
            let (c, s) = inode_ref_inc n s
            in Some (Some n, if c = 1 then upd_sin n (si_reclaim_count_update (\<lambda>k. k + 1)) s else s)
          else lookup_sfs_loop lst ino s (HashEntry n) }
      | _ \<Rightarrow> None)"

definition lookup_sfs_nolock :: "u32 \<Rightarrow> fstate \<Rightarrow> (nat option \<times> fstate) option" where
  "lookup_sfs_nolock ino s = lookup_sfs_loop (sfs_hash_list ino) ino s (sfs_hash_list ino)"

definition sfs_load_inode :: "u32 \<Rightarrow> fstate \<Rightarrow> (int \<times> nat option \<times> fstate) option" where
  "sfs_load_inode ino s = do {
     s \<leftarrow> lock_sfs_fs s;
     (node, s) \<leftarrow> lookup_sfs_nolock ino s;
     if node \<noteq> None then Some (0, node, unlock_sfs_fs s)
     else do {
       (p, s) \<leftarrow> kalloc 64 s;
       if p = 0 then Some (- E_NO_MEM, None, unlock_sfs_fs s)
       else do {
         assert_inuse ino s;
         (r, bs, s) \<leftarrow> sfs_rbuf 64 ino 0 s;
         if r \<noteq> 0 then do { s \<leftarrow> kfree_fs p s; Some (r, None, unlock_sfs_fs s) }
         else do {
           let din = get_disk_inode bs;
           kassert (di_nlinks din \<noteq> 0);
           (r, node, s) \<leftarrow> sfs_create_inode din p ino s;
           if r \<noteq> 0 then do { s \<leftarrow> kfree_fs p s; Some (r, None, unlock_sfs_fs s) }
           else do {
             n \<leftarrow> node;
             s \<leftarrow> sfs_set_links n s;
             Some (0, Some n, unlock_sfs_fs s) } } } } }"

section \<open>Directory entries\<close>

text \<open>An entry occupies a block. Its name ends at the first NUL; the code puts one at the end of the field.\<close>

definition entry_name :: "sfs_disk_entry \<Rightarrow> u8 list" where
  "entry_name e = takeWhile (\<lambda>c. c \<noteq> 0) (de_name e)"

definition sfs_dirent_read_nolock :: "nat \<Rightarrow> nat \<Rightarrow> fstate \<Rightarrow> (int \<times> sfs_disk_entry \<times> fstate) option" where
  "sfs_dirent_read_nolock n slot s = do {
     i \<leftarrow> sin n s;
     kassert (di_type (si_din i) = SFS_TYPE_DIR \<and> of_nat slot < di_blocks (si_din i));
     (r, ino, s) \<leftarrow> sfs_bmap_load_nolock n (of_nat slot) s;
     if r \<noteq> 0 then Some (r, \<lparr>de_ino = 0, de_name = []\<rparr>, s)
     else do {
       assert_inuse ino s;
       (r, bs, s) \<leftarrow> sfs_rbuf 260 ino 0 s;
       if r \<noteq> 0 then Some (r, \<lparr>de_ino = 0, de_name = []\<rparr>, s)
       else Some (0, de_name_update (\<lambda>nm. nm[255 := 0]) (get_disk_entry bs), s) } }"

text \<open>\<open>nslots\<close> is a signed integer. The loop gets the slot and how many are left; the results are the
  return value, \<open>*ino_store\<close>, \<open>*slot\<close> and \<open>*empty_slot\<close>.\<close>

definition nslots :: "sfs_inode \<Rightarrow> nat" where
  "nslots i = nat (sint (di_blocks (si_din i)))"

fun sfs_dirent_search_loop ::
  "nat \<Rightarrow> u8 list \<Rightarrow> nat \<Rightarrow> nat \<Rightarrow> nat \<Rightarrow> fstate \<Rightarrow> (int \<times> u32 \<times> nat \<times> nat \<times> fstate) option" where
  "sfs_dirent_search_loop n name i 0 free s = Some (- E_NOENT, 0, 0, free, s)"
| "sfs_dirent_search_loop n name i (Suc k) free s = do {
     (r, e, s) \<leftarrow> sfs_dirent_read_nolock n i s;
     if r \<noteq> 0 then Some (r, 0, 0, free, s)
     else if de_ino e = 0 then sfs_dirent_search_loop n name (i + 1) k i s
     else if name = entry_name e then Some (0, de_ino e, i, free, s)
     else sfs_dirent_search_loop n name (i + 1) k free s }"

definition sfs_dirent_search_nolock ::
  "nat \<Rightarrow> u8 list \<Rightarrow> fstate \<Rightarrow> (int \<times> u32 \<times> nat \<times> nat \<times> fstate) option" where
  "sfs_dirent_search_nolock n name s = do {
     i \<leftarrow> sin n s;
     kassert (of_nat (length name) \<le> SFS_MAX_FNAME_LEN);
     (p, s) \<leftarrow> kalloc 260 s;
     if p = 0 then Some (- E_NO_MEM, 0, 0, 0, s)
     else do {
       (r, ino, slot, free, s) \<leftarrow> sfs_dirent_search_loop n name 0 (nslots i) (nslots i) s;
       s \<leftarrow> kfree_fs p s;
       Some (r, ino, slot, free, s) } }"

fun sfs_dirent_findino_loop :: "nat \<Rightarrow> u32 \<Rightarrow> nat \<Rightarrow> nat \<Rightarrow> fstate \<Rightarrow> (int \<times> sfs_disk_entry \<times> fstate) option" where
  "sfs_dirent_findino_loop n ino i 0 s = Some (- E_NOENT, \<lparr>de_ino = 0, de_name = []\<rparr>, s)"
| "sfs_dirent_findino_loop n ino i (Suc k) s = do {
     (r, e, s) \<leftarrow> sfs_dirent_read_nolock n i s;
     if r \<noteq> 0 then Some (r, e, s)
     else if de_ino e = ino then Some (0, e, s)
     else sfs_dirent_findino_loop n ino (i + 1) k s }"

definition sfs_dirent_findino_nolock :: "nat \<Rightarrow> u32 \<Rightarrow> fstate \<Rightarrow> (int \<times> sfs_disk_entry \<times> fstate) option" where
  "sfs_dirent_findino_nolock n ino s = do {
     i \<leftarrow> sin n s;
     sfs_dirent_findino_loop n ino 0 (nslots i) s }"

definition sfs_lookup_once :: "nat \<Rightarrow> u8 list \<Rightarrow> fstate \<Rightarrow> (int \<times> nat option \<times> fstate) option" where
  "sfs_lookup_once n name s = do {
     s \<leftarrow> lock_sin n s;
     (r, ino, _, _, s) \<leftarrow> sfs_dirent_search_nolock n name s;
     let s = unlock_sin n s;
     if r = 0 then sfs_load_inode ino s else Some (r, None, s) }"

section \<open>Opening\<close>

definition O_ACCMODE :: u32 where "O_ACCMODE = 3"
definition O_RDONLY :: u32 where "O_RDONLY = 0"
definition O_WRONLY :: u32 where "O_WRONLY = 1"
definition O_RDWR :: u32 where "O_RDWR = 2"
definition O_CREAT :: u32 where "O_CREAT = 0x00000004"
definition O_EXCL :: u32 where "O_EXCL = 0x00000008"
definition O_TRUNC :: u32 where "O_TRUNC = 0x00000010"
definition O_APPEND :: u32 where "O_APPEND = 0x00000020"

definition sfs_opendir :: "u32 \<Rightarrow> int" where
  "sfs_opendir open_flags =
     (if open_flags AND O_ACCMODE \<noteq> O_RDONLY then - E_ISDIR
      else if open_flags AND O_APPEND \<noteq> 0 then - E_ISDIR else 0)"

definition sfs_openfile :: "u32 \<Rightarrow> int" where
  "sfs_openfile open_flags = 0"

section \<open>Reading and writing\<close>

text \<open>\<open>sfs_buf_op\<close> and \<open>sfs_block_op\<close> inside their assertions; the bytes read are the result.\<close>

definition io_buf :: "bool \<Rightarrow> u8 list \<Rightarrow> u32 \<Rightarrow> u32 \<Rightarrow> u32 \<Rightarrow> fstate \<Rightarrow> (u8 list \<times> fstate) option" where
  "io_buf write data len blkno offset s =
     (if write then do {
        (r, s) \<leftarrow> sfs_wbuf (take (unat len) data) blkno offset s;
        kassert (r = 0);
        Some ([], s) }
      else do {
        (r, out, s) \<leftarrow> sfs_rbuf len blkno offset s;
        kassert (r = 0);
        Some (out, s) })"

definition io_blocks :: "bool \<Rightarrow> u8 list \<Rightarrow> u32 \<Rightarrow> u32 \<Rightarrow> fstate \<Rightarrow> (u8 list \<times> fstate) option" where
  "io_blocks write data blkno nblks s =
     (if write then do {
        (r, s) \<leftarrow> sfs_wblock data blkno nblks s;
        kassert (r = 0);
        Some ([], s) }
      else do {
        (r, out, s) \<leftarrow> sfs_rblock blkno nblks s;
        kassert (r = 0);
        Some (out, s) })"

definition bmap_load_ok :: "nat \<Rightarrow> u32 \<Rightarrow> fstate \<Rightarrow> (u32 \<times> fstate) option" where
  "bmap_load_ok n index s = do {
     (r, ino, s) \<leftarrow> sfs_bmap_load_nolock n index s;
     kassert (r = 0);
     Some (ino, s) }"

text \<open>The three parts of a transfer, up to \<open>alen\<close>: \<open>pos\<close> is \<open>bufptr - buf\<close>. The middle part looks up only
  its first block and then moves \<open>nblks\<close> consecutive blocks of the disk.\<close>

definition sfs_io_parts :: "nat \<Rightarrow> u8 list \<Rightarrow> u32 \<Rightarrow> u32 \<Rightarrow> bool \<Rightarrow> fstate \<Rightarrow> (u32 \<times> u8 list \<times> fstate) option" where
  "sfs_io_parts n data offset endpos write s = do {
     let blkno = offset div SFS_BLKSIZE;
     let nblks = endpos div SFS_BLKSIZE - blkno;
     let blkoff = offset mod SFS_BLKSIZE;
     let blkend = endpos mod SFS_BLKSIZE;
     (pos, blkno, nblks, single, out1, s) \<leftarrow>
       (if blkoff > 0 then do {
          let blklen = (if nblks > 0 then SFS_BLKSIZE - blkoff else endpos - offset);
          (ino, s) \<leftarrow> bmap_load_ok n blkno s;
          (out, s) \<leftarrow> io_buf write data blklen ino blkoff s;
          Some (blklen, blkno + 1, if nblks > 0 then nblks - 1 else nblks, \<not> nblks > 0, out, s) }
        else Some (0, blkno, nblks, False, [], s));
     (pos, out2, s) \<leftarrow>
       (if nblks > 0 then do {
          (ino, s) \<leftarrow> bmap_load_ok n blkno s;
          (out, s) \<leftarrow> io_blocks write (drop (unat pos) data) ino nblks s;
          Some (pos + nblks * SFS_BLKSIZE, out, s) }
        else Some (pos, [], s));
     (pos, out3, s) \<leftarrow>
       (if \<not> single \<and> blkend > 0 then do {
          (ino, s) \<leftarrow> bmap_load_ok n (endpos div SFS_BLKSIZE) s;
          (out, s) \<leftarrow> io_buf write (drop (unat pos) data) blkend ino 0 s;
          Some (pos + blkend, out, s) }
        else Some (pos, [], s));
     Some (pos, out1 @ out2 @ out3, s) }"

text \<open>The results are the return value, \<open>*alenp\<close>, the bytes read and the state. File offsets are signed.\<close>

definition sfs_io_nolock :: "nat \<Rightarrow> u8 list \<Rightarrow> u32 \<Rightarrow> u32 \<Rightarrow> bool \<Rightarrow> fstate \<Rightarrow> (int \<times> u32 \<times> u8 list \<times> fstate) option" where
  "sfs_io_nolock n data offset alen write s = do {
     i \<leftarrow> sin n s;
     let din = si_din i;
     kassert (di_type din \<noteq> SFS_TYPE_DIR);
     let endpos = offset + alen;
     if sint offset < 0 \<or> offset \<ge> SFS_MAX_FILE_SIZE \<or> sint offset > sint endpos then Some (- E_INVAL, 0, [], s)
     else if offset = endpos then Some (0, 0, [], s)
     else do {
       let endpos = (if endpos > SFS_MAX_FILE_SIZE then SFS_MAX_FILE_SIZE else endpos);
       if \<not> write \<and> offset \<ge> di_size din then Some (0, 0, [], s)
       else do {
         let endpos = (if \<not> write \<and> endpos > di_size din then di_size din else endpos);
         (alen, out, s) \<leftarrow> sfs_io_parts n data offset endpos write s;
         i \<leftarrow> sin n s;
         Some (0, alen, out,
           if offset + alen > di_size (si_din i)
           then set_dirty n (upd_din n (di_size_update (\<lambda>_. offset + alen)) s) else s) } } }"

text \<open>\<open>put_bytes p bs m\<close>: the bytes \<open>bs\<close> are stored at \<open>p\<close>.\<close>

fun put_bytes :: "u32 \<Rightarrow> u8 list \<Rightarrow> mem \<Rightarrow> mem" where
  "put_bytes p [] m = m"
| "put_bytes p (b # bs) m = put_bytes (p + 1) bs (m(p := b))"

definition sfs_io :: "nat \<Rightarrow> iobuf \<Rightarrow> bool \<Rightarrow> fstate \<Rightarrow> (int \<times> iobuf \<times> fstate) option" where
  "sfs_io n iob write s = do {
     s \<leftarrow> lock_sin n s;
     let data = (if write then bytes_at (f_mem s) (io_base iob) (unat (io_resid iob)) else []);
     (r, alen, out, s) \<leftarrow> sfs_io_nolock n data (io_offset iob) (io_resid iob) write s;
     let s = s\<lparr>f_mem := put_bytes (io_base iob) out (f_mem s)\<rparr>;
     iob \<leftarrow> (if alen \<noteq> 0 then iobuf_skip iob alen else Some iob);
     Some (r, iob, unlock_sin n s) }"

definition sfs_read :: "nat \<Rightarrow> iobuf \<Rightarrow> fstate \<Rightarrow> (int \<times> iobuf \<times> fstate) option" where
  "sfs_read n iob s = sfs_io n iob False s"

definition sfs_write :: "nat \<Rightarrow> iobuf \<Rightarrow> fstate \<Rightarrow> (int \<times> iobuf \<times> fstate) option" where
  "sfs_write n iob s = sfs_io n iob True s"

section \<open>Attributes\<close>

definition S_IFMT :: u32 where "S_IFMT = 0x7000"
definition S_IFREG :: u32 where "S_IFREG = 0x1000"
definition S_IFDIR :: u32 where "S_IFDIR = 0x2000"
definition S_IFLNK :: u32 where "S_IFLNK = 0x3000"
definition S_IFCHR :: u32 where "S_IFCHR = 0x4000"
definition S_IFBLK :: u32 where "S_IFBLK = 0x5000"

definition S_ISDIR :: "u32 \<Rightarrow> bool" where "S_ISDIR mode \<longleftrightarrow> mode AND S_IFMT = S_IFDIR"

record stat =
  st_mode :: u32
  st_nlinks :: u32
  st_blocks :: u32
  st_size :: u32

definition sfs_gettype :: "nat \<Rightarrow> fstate \<Rightarrow> (int \<times> u32) option" where
  "sfs_gettype n s = do {
     i \<leftarrow> sin n s;
     let t = di_type (si_din i);
     if t = SFS_TYPE_DIR then Some (0, S_IFDIR)
     else if t = SFS_TYPE_FILE then Some (0, S_IFREG)
     else if t = SFS_TYPE_LINK then Some (0, S_IFLNK)
     else None }"

definition dev_gettype :: "nat \<Rightarrow> fstate \<Rightarrow> (int \<times> u32) option" where
  "dev_gettype n s = do { d \<leftarrow> dev_info n s; Some (0, if d_blocks d > 0 then S_IFBLK else S_IFCHR) }"

text \<open>\<open>__vop_op\<close>: the check before a call through the table of a node.\<close>

definition vop_table :: "nat \<Rightarrow> fstate \<Rightarrow> in_ops option" where
  "vop_table n s = do { inode_check n s; in_ops (f_inodes s n) }"

definition vop_gettype :: "nat \<Rightarrow> fstate \<Rightarrow> (int \<times> u32) option" where
  "vop_gettype n s = do {
     t \<leftarrow> vop_table n s;
     (case t of DevNodeOps \<Rightarrow> dev_gettype n s | _ \<Rightarrow> sfs_gettype n s) }"

definition stat_zero :: stat where
  "stat_zero = \<lparr>st_mode = 0, st_nlinks = 0, st_blocks = 0, st_size = 0\<rparr>"

definition sfs_fstat :: "nat \<Rightarrow> fstate \<Rightarrow> (int \<times> stat) option" where
  "sfs_fstat n s = do {
     (r, mode) \<leftarrow> vop_gettype n s;
     if r \<noteq> 0 then Some (r, stat_zero\<lparr>st_mode := mode\<rparr>)
     else do {
       i \<leftarrow> sin n s;
       let din = si_din i;
       Some (0, \<lparr>st_mode = mode, st_nlinks = ucast (di_nlinks din), st_blocks = di_blocks din, st_size = di_size din\<rparr>) } }"

section \<open>Synchronising, resizing and releasing\<close>

definition sfs_fsync :: "nat \<Rightarrow> fstate \<Rightarrow> (int \<times> fstate) option" where
  "sfs_fsync n s = do {
     i \<leftarrow> sin n s;
     if si_dirty i then do {
       s \<leftarrow> lock_sin n s;
       let s = upd_sin n (si_dirty_update (\<lambda>_. False)) s;
       (r, s) \<leftarrow> sfs_wbuf (put_disk_inode (si_din i)) (si_ino i) 0 s;
       let s = (if r \<noteq> 0 then set_dirty n s else s);
       Some (r, unlock_sin n s) }
     else Some (0, s) }"

definition vop_fsync :: "nat \<Rightarrow> fstate \<Rightarrow> (int \<times> fstate) option" where
  "vop_fsync n s = do {
     t \<leftarrow> vop_table n s;
     (case t of DevNodeOps \<Rightarrow> None | _ \<Rightarrow> sfs_fsync n s) }"

definition sfs_close :: "nat \<Rightarrow> fstate \<Rightarrow> (int \<times> fstate) option" where
  "sfs_close n s = vop_fsync n s"

fun trunc_grow :: "nat \<Rightarrow> u32 \<Rightarrow> nat \<Rightarrow> fstate \<Rightarrow> (int \<times> fstate) option" where
  "trunc_grow n nblks 0 s = Some (0, s)"
| "trunc_grow n nblks (Suc k) s = do {
     (r, _, s) \<leftarrow> sfs_bmap_load_nolock n nblks s;
     if r \<noteq> 0 then Some (r, s) else trunc_grow n (nblks + 1) k s }"

fun trunc_shrink :: "nat \<Rightarrow> nat \<Rightarrow> fstate \<Rightarrow> (int \<times> fstate) option" where
  "trunc_shrink n 0 s = Some (0, s)"
| "trunc_shrink n (Suc k) s = do {
     (r, s) \<leftarrow> sfs_bmap_truncate_nolock n s;
     if r \<noteq> 0 then Some (r, s) else trunc_shrink n k s }"

definition sfs_truncfile :: "nat \<Rightarrow> u32 \<Rightarrow> fstate \<Rightarrow> (int \<times> fstate) option" where
  "sfs_truncfile n len s =
     (if sint len < 0 \<or> len > SFS_MAX_FILE_SIZE then Some (- E_INVAL, s)
      else do {
        i \<leftarrow> sin n s;
        let din = si_din i;
        let tblks = ROUNDUP_DIV len SFS_BLKSIZE;
        if di_size din = len then do { kassert (tblks = di_blocks din); Some (0, s) }
        else do {
          s \<leftarrow> lock_sin n s;
          let nblks = di_blocks din;
          (r, s) \<leftarrow>
            (if nblks < tblks then trunc_grow n nblks (unat (tblks - nblks)) s
             else trunc_shrink n (unat (nblks - tblks)) s);
          if r \<noteq> 0 then Some (r, unlock_sin n s)
          else do {
            i \<leftarrow> sin n s;
            kassert (di_blocks (si_din i) = tblks);
            Some (0, unlock_sin n (set_dirty n (upd_din n (di_size_update (\<lambda>_. len)) s))) } } })"

definition vop_truncate :: "nat \<Rightarrow> u32 \<Rightarrow> fstate \<Rightarrow> (int \<times> fstate) option" where
  "vop_truncate n len s = do {
     t \<leftarrow> vop_table n s;
     (case t of SfsFileOps \<Rightarrow> sfs_truncfile n len s | _ \<Rightarrow> None) }"

definition sfs_tryseek :: "nat \<Rightarrow> u32 \<Rightarrow> fstate \<Rightarrow> (int \<times> fstate) option" where
  "sfs_tryseek n pos s =
     (if sint pos < 0 \<or> pos \<ge> SFS_MAX_FILE_SIZE then Some (- E_INVAL, s)
      else do {
        i \<leftarrow> sin n s;
        if pos > di_size (si_din i) then vop_truncate n pos s else Some (0, s) })"

definition sfs_reclaim :: "nat \<Rightarrow> fstate \<Rightarrow> (int \<times> fstate) option" where
  "sfs_reclaim n s = do {
     s \<leftarrow> lock_sfs_fs s;
     i \<leftarrow> sin n s;
     kassert (si_reclaim_count i > 0);
     let s = upd_sin n (si_reclaim_count_update (\<lambda>k. k - 1)) s;
     if si_reclaim_count i - 1 \<noteq> 0 \<or> in_ref_count (f_inodes s n) \<noteq> 0 then Some (- E_BUSY, unlock_sfs_fs s)
     else do {
       (r, s) \<leftarrow> (if di_nlinks (si_din i) = 0 then vop_truncate n 0 s else Some (0, s));
       if r \<noteq> 0 then Some (r, unlock_sfs_fs s)
       else do {
         i \<leftarrow> sin n s;
         (r, s) \<leftarrow> (if si_dirty i then vop_fsync n s else Some (0, s));
         if r \<noteq> 0 then Some (r, unlock_sfs_fs s)
         else do {
           let s = unlock_sfs_fs (sfs_remove_links n s);
           s \<leftarrow>
             (if di_nlinks (si_din i) = 0 then do {
                s \<leftarrow> sfs_block_free (si_ino i) s;
                if di_indirect (si_din i) \<noteq> 0 then sfs_block_free (di_indirect (si_din i)) s else Some s }
              else Some s);
           s \<leftarrow> kfree_fs (si_din_ptr i) s;
           s \<leftarrow> inode_kill n s;
           Some (0, s) } } } }"

definition vop_reclaim :: "nat \<Rightarrow> fstate \<Rightarrow> (int \<times> fstate) option" where
  "vop_reclaim n s = do {
     t \<leftarrow> vop_table n s;
     (case t of DevNodeOps \<Rightarrow> None | _ \<Rightarrow> sfs_reclaim n s) }"

text \<open>\<open>inode_ref_dec\<close> only prints a warning when \<open>vop_reclaim\<close> fails.\<close>

definition inode_ref_dec :: "nat \<Rightarrow> fstate \<Rightarrow> (int \<times> fstate) option" where
  "inode_ref_dec n s = do {
     kassert (in_ref_count (f_inodes s n) > 0);
     let s = upd_inode n (in_ref_count_update (\<lambda>c. c - 1)) s;
     let ref_count = in_ref_count (f_inodes s n);
     if ref_count = 0 then do { (_, s) \<leftarrow> vop_reclaim n s; Some (ref_count, s) }
     else Some (ref_count, s) }"

section \<open>Names and listings\<close>

text \<open>\<open>sfs_lookup\<close> looks the whole path up as one name.\<close>

definition sfs_lookup :: "nat \<Rightarrow> u8 list \<Rightarrow> fstate \<Rightarrow> (int \<times> nat option \<times> fstate) option" where
  "sfs_lookup n path s = do {
     kassert (path \<noteq> [] \<and> hd path \<noteq> 0x2F);
     let s = snd (inode_ref_inc n s);
     i \<leftarrow> sin n s;
     if di_type (si_din i) \<noteq> SFS_TYPE_DIR then do { (_, s) \<leftarrow> inode_ref_dec n s; Some (- E_NOTDIR, None, s) }
     else do {
       (r, sub, s) \<leftarrow> sfs_lookup_once n path s;
       (_, s) \<leftarrow> inode_ref_dec n s;
       Some (r, if r \<noteq> 0 then None else sub, s) } }"

text \<open>The loop of \<open>sfs_namefile\<close> climbs to the root, writing names before \<open>ptr\<close>. It returns the error, the
  node to release, \<open>ptr\<close> and \<open>resid\<close>; with no error both references are already released.\<close>

partial_function (option) sfs_namefile_loop ::
  "nat \<Rightarrow> u32 \<Rightarrow> u32 \<Rightarrow> fstate \<Rightarrow> (int \<times> nat \<times> u32 \<times> u32 \<times> fstate) option" where
  "sfs_namefile_loop n ptr resid s = do {
     i \<leftarrow> sin n s;
     (r, parent, s) \<leftarrow> sfs_lookup_once n [0x2E, 0x2E] s;
     if r \<noteq> 0 then Some (r, n, ptr, resid, s)
     else do {
       par \<leftarrow> parent;
       (_, s) \<leftarrow> inode_ref_dec n s;
       if n = par then do { (_, s) \<leftarrow> inode_ref_dec n s; Some (0, n, ptr, resid, s) }
       else do {
         j \<leftarrow> sin par s;
         kassert (si_ino i \<noteq> si_ino j \<and> di_type (si_din j) = SFS_TYPE_DIR);
         s \<leftarrow> lock_sin par s;
         (r, e, s) \<leftarrow> sfs_dirent_findino_nolock par (si_ino i) s;
         let s = unlock_sin par s;
         if r \<noteq> 0 then Some (r, par, ptr, resid, s)
         else do {
           let alen = of_nat (length (entry_name e)) + 1;
           if alen > resid then Some (- E_NO_MEM, par, ptr, resid, s)
           else sfs_namefile_loop par (ptr - alen) (resid - alen)
                  (s\<lparr>f_mem := put_bytes (ptr - alen) (entry_name e @ [0x2F]) (f_mem s)\<rparr>) } } } }"

definition sfs_namefile :: "nat \<Rightarrow> iobuf \<Rightarrow> fstate \<Rightarrow> (int \<times> iobuf \<times> fstate) option" where
  "sfs_namefile n iob s =
     (if io_resid iob \<le> 2 then Some (- E_NO_MEM, iob, s)
      else do {
        (p, s) \<leftarrow> kalloc 260 s;
        if p = 0 then Some (- E_NO_MEM, iob, s)
        else do {
          let s = snd (inode_ref_inc n s);
          (r, m, ptr, resid, s) \<leftarrow> sfs_namefile_loop n (io_base iob + io_resid iob) (io_resid iob - 2) s;
          if r \<noteq> 0 then do { (_, s) \<leftarrow> inode_ref_dec m s; s \<leftarrow> kfree_fs p s; Some (r, iob, s) }
          else do {
            let alen = io_resid iob - resid - 2;
            let base = io_base iob;
            let mm = memmove (f_mem s) (base + 1) ptr alen;
            iob \<leftarrow> iobuf_skip iob alen;
            s \<leftarrow> kfree_fs p (s\<lparr>f_mem := mm(base := 0x2F, base + 1 + alen := 0)\<rparr>);
            Some (0, iob, s) } } })"

text \<open>The entry number \<open>slot\<close> among the used ones, from slot \<open>i\<close> with \<open>k\<close> left.\<close>

fun sfs_getdirentry_loop :: "nat \<Rightarrow> nat \<Rightarrow> nat \<Rightarrow> nat \<Rightarrow> fstate \<Rightarrow> (int \<times> sfs_disk_entry \<times> fstate) option" where
  "sfs_getdirentry_loop n slot i 0 s = Some (- E_NOENT, \<lparr>de_ino = 0, de_name = []\<rparr>, s)"
| "sfs_getdirentry_loop n slot i (Suc k) s = do {
     (r, e, s) \<leftarrow> sfs_dirent_read_nolock n i s;
     if r \<noteq> 0 then Some (r, e, s)
     else if de_ino e \<noteq> 0 then
       (if slot = 0 then Some (0, e, s) else sfs_getdirentry_loop n (slot - 1) (i + 1) k s)
     else sfs_getdirentry_loop n slot (i + 1) k s }"

definition sfs_getdirentry_sub_nolock :: "nat \<Rightarrow> nat \<Rightarrow> fstate \<Rightarrow> (int \<times> sfs_disk_entry \<times> fstate) option" where
  "sfs_getdirentry_sub_nolock n slot s = do { i \<leftarrow> sin n s; sfs_getdirentry_loop n slot 0 (nslots i) s }"

definition sfs_dentry_size :: u32 where "sfs_dentry_size = 256"

text \<open>The entry is read into the buffer at \<open>p\<close>, whose name field starts at \<open>p + 4\<close>.\<close>

definition sfs_getdirentry :: "nat \<Rightarrow> iobuf \<Rightarrow> fstate \<Rightarrow> (int \<times> iobuf \<times> fstate) option" where
  "sfs_getdirentry n iob s = do {
     (p, s) \<leftarrow> kalloc 260 s;
     if p = 0 then Some (- E_NO_MEM, iob, s)
     else do {
       i \<leftarrow> sin n s;
       let offset = io_offset iob;
       if sint offset < 0 \<or> offset mod sfs_dentry_size \<noteq> 0 then do { s \<leftarrow> kfree_fs p s; Some (- E_INVAL, iob, s) }
       else if offset div sfs_dentry_size > di_blocks (si_din i) then do { s \<leftarrow> kfree_fs p s; Some (- E_NOENT, iob, s) }
       else do {
         s \<leftarrow> lock_sin n s;
         (r, e, s) \<leftarrow> sfs_getdirentry_sub_nolock n (unat (offset div sfs_dentry_size)) s;
         let s = unlock_sin n s;
         if r \<noteq> 0 then do { s \<leftarrow> kfree_fs p s; Some (r, iob, s) }
         else do {
           (r, _, iob, m) \<leftarrow>
             iobuf_move iob (put_bytes p (le32 (de_ino e) @ de_name e) (f_mem s)) (p + 4) sfs_dentry_size True;
           s \<leftarrow> kfree_fs p (s\<lparr>f_mem := m\<rparr>);
           Some (r, iob, s) } } } }"

end
