(* ===== verification/SfsFs.thy ===== *)
theory SfsFs
  imports SfsNode
begin

text \<open>
  \<^verbatim>\<open>kern/fs/sfs/sfs_fs.c\<close>: mounting, synchronising and unmounting SFS. The file system that is being
  mounted is the component \<open>f_sfs\<close> of the state; its address is \<open>f_fs\<close>.
\<close>

unbundle bit_operations_syntax

partial_function (option) sfs_sync_loop :: "sfslink \<Rightarrow> fstate \<Rightarrow> fstate option" where
  "sfs_sync_loop le s =
     (let le = list_next le (f_links s) in
      if le = InodeList then Some s
      else case le of
        InodeLink n \<Rightarrow> do { (_, s) \<leftarrow> vop_fsync n s; sfs_sync_loop (InodeLink n) s }
      | _ \<Rightarrow> None)"

definition set_super_dirty :: "bool \<Rightarrow> fstate \<Rightarrow> fstate" where
  "set_super_dirty b = upd_sfs (sf_super_dirty_update (\<lambda>_. b))"

definition sfs_sync :: "fstate \<Rightarrow> (int \<times> fstate) option" where
  "sfs_sync s = do {
     s \<leftarrow> lock_sfs_fs s;
     s \<leftarrow> sfs_sync_loop InodeList s;
     let s = unlock_sfs_fs s;
     if sf_super_dirty (f_sfs s) then do {
       let s = set_super_dirty False s;
       (r, s) \<leftarrow> sfs_sync_super s;
       if r \<noteq> 0 then Some (r, set_super_dirty True s)
       else do {
         (r, s) \<leftarrow> sfs_sync_freemap s;
         if r \<noteq> 0 then Some (r, set_super_dirty True s) else Some (0, s) } }
     else Some (0, s) }"

definition sfs_get_root :: "fstate \<Rightarrow> (nat \<times> fstate) option" where
  "sfs_get_root s = do {
     (r, node, s) \<leftarrow> sfs_load_inode SFS_BLKN_ROOT s;
     kassert (r = 0);
     n \<leftarrow> node;
     Some (n, s) }"

fun kfree_all :: "u32 list \<Rightarrow> fstate \<Rightarrow> fstate option" where
  "kfree_all [] s = Some s"
| "kfree_all (p # ps) s = do { s \<leftarrow> kfree_fs p s; kfree_all ps s }"

definition sfs_unmount :: "fstate \<Rightarrow> (int \<times> fstate) option" where
  "sfs_unmount s =
     (if \<not> list_empty InodeList (f_links s) then Some (- E_BUSY, s)
      else do {
        let f = f_sfs s;
        kassert (\<not> sf_super_dirty f);
        s \<leftarrow> kfree_all [sf_freemap_data f, sf_freemap_ptr f, sf_buffer f, sf_hash_list f, f_fs s] s;
        Some (0, s) })"

text \<open>The file system is synchronised at most 32 times.\<close>

fun sfs_cleanup_loop :: "nat \<Rightarrow> fstate \<Rightarrow> fstate option" where
  "sfs_cleanup_loop 0 s = Some s"
| "sfs_cleanup_loop (Suc k) s = do { (r, s) \<leftarrow> sfs_sync s; if r = 0 then Some s else sfs_cleanup_loop k s }"

definition sfs_cleanup :: "fstate \<Rightarrow> fstate option" where
  "sfs_cleanup s = sfs_cleanup_loop 32 s"

definition sfs_init_read :: "device \<Rightarrow> u32 \<Rightarrow> fstate \<Rightarrow> (int \<times> u8 list \<times> fstate) option" where
  "sfs_init_read dev blkno s = do {
     (r, out, disk) \<leftarrow> block_io dev (blkno * SFS_BLKSIZE) SFS_BLKSIZE False [] (f_disk s);
     Some (r, out, s\<lparr>f_disk := disk\<rparr>) }"

fun sfs_init_freemap_loop :: "device \<Rightarrow> u32 \<Rightarrow> nat \<Rightarrow> fstate \<Rightarrow> (int \<times> u8 list \<times> fstate) option" where
  "sfs_init_freemap_loop dev blkno 0 s = Some (0, [], s)"
| "sfs_init_freemap_loop dev blkno (Suc k) s = do {
     (r, out, s) \<leftarrow> sfs_init_read dev blkno s;
     if r \<noteq> 0 then Some (r, out, s)
     else do {
       (r, rest, s) \<leftarrow> sfs_init_freemap_loop dev (blkno + 1) k s;
       Some (r, out @ rest, s) } }"

definition sfs_init_freemap :: "device \<Rightarrow> bitmap \<Rightarrow> u32 \<Rightarrow> u32 \<Rightarrow> fstate \<Rightarrow> (int \<times> bitmap \<times> fstate) option" where
  "sfs_init_freemap dev freemap blkno nblks s = do {
     kassert (snd (bitmap_getdata freemap) = nblks * SFS_BLKSIZE);
     (r, bs, s) \<leftarrow> sfs_init_freemap_loop dev blkno (unat nblks) s;
     Some (r, bm_map_update (\<lambda>_. map (\<lambda>i. rd32 bs (4 * i)) [0 ..< length bs div 4]) freemap, s) }"

text \<open>The loop of \<open>sfs_do_mount\<close> that counts the free blocks: \<open>k\<close> indices from \<open>i\<close>.\<close>

fun count_unused :: "bitmap \<Rightarrow> u32 \<Rightarrow> nat \<Rightarrow> u32 option" where
  "count_unused fm i 0 = Some 0"
| "count_unused fm i (Suc k) = do {
     t \<leftarrow> bitmap_test fm i;
     c \<leftarrow> count_unused fm (i + 1) k;
     Some (if t then c + 1 else c) }"

definition hash_lists_init :: "fstate \<Rightarrow> fstate" where
  "hash_lists_init s = s\<lparr>f_links := foldl (\<lambda>h i. list_init (HashHead i) h) (f_links s) [0 ..< 1024]\<rparr>"

text \<open>The part of \<open>sfs_do_mount\<close> after the superblock is read into \<open>sfs_buffer\<close>: the hash lists and the
  freemap. \<open>cleanup\<close> holds what has to be freed when it fails.\<close>

definition sfs_do_mount_map ::
  "device \<Rightarrow> sfs_super \<Rightarrow> u32 \<Rightarrow> u32 \<Rightarrow> fstate \<Rightarrow> (int \<times> fstate) option" where
  "sfs_do_mount_map dev super fs buf s = do {
     (hash, s) \<leftarrow> kalloc (8 * 1024) s;
     if hash = 0 then do { s \<leftarrow> kfree_all [buf, fs] s; Some (- E_NO_MEM, s) }
     else do {
       let s = hash_lists_init s;
       let bits = sfs_freemap_bits (su_blocks super);
       (p, s) \<leftarrow> kalloc 12 s;
       (q, s) \<leftarrow> (if p = 0 then Some (0, s) else kalloc (4 * ROUNDUP_DIV bits WORD_BITS) s);
       bm \<leftarrow> bitmap_create (p \<noteq> 0) (q \<noteq> 0) bits;
       (case bm of
          None \<Rightarrow> do {
            s \<leftarrow> (if p \<noteq> 0 then kfree_fs p s else Some s);
            s \<leftarrow> kfree_all [hash, buf, fs] s;
            Some (- E_NO_MEM, s) }
        | Some freemap \<Rightarrow> do {
            (r, freemap, s) \<leftarrow> sfs_init_freemap dev freemap SFS_BLKN_FREEMAP (sfs_freemap_blocks (su_blocks super)) s;
            if r \<noteq> 0 then do { s \<leftarrow> kfree_all [q, p, hash, buf, fs] s; Some (r, s) }
            else do {
              unused \<leftarrow> count_unused freemap 0 (unat bits);
              kassert (unused = su_unused_blocks super);
              let s = s\<lparr>f_links := list_init InodeList (f_links s), f_fs := fs, f_sfs :=
                \<lparr>sf_super = super, sf_dev = dev, sf_freemap = freemap, sf_freemap_ptr = p, sf_freemap_data = q,
                 sf_super_dirty = False, sf_buffer = buf, sf_fs_sem = 1, sf_io_sem = 1, sf_mutex_sem = 1,
                 sf_hash_list = hash\<rparr>\<rparr>;
              Some (0, s) } }) } }"

text \<open>\<open>struct fs\<close> has 128 bytes: 108 of \<open>struct sfs_fs\<close>, the type and four function pointers.\<close>

definition sfs_do_mount :: "device \<Rightarrow> fstate \<Rightarrow> (int \<times> fstate) option" where
  "sfs_do_mount dev s =
     (if d_blocksize dev \<noteq> SFS_BLKSIZE then Some (- E_NA_DEV, s)
      else do {
        (fs, s) \<leftarrow> kalloc 128 s;
        if fs = 0 then Some (- E_NO_MEM, s)
        else do {
          (buf, s) \<leftarrow> kalloc SFS_BLKSIZE s;
          if buf = 0 then do { s \<leftarrow> kfree_fs fs s; Some (- E_NO_MEM, s) }
          else do {
            (r, bs, s) \<leftarrow> sfs_init_read dev SFS_BLKN_SUPER s;
            if r \<noteq> 0 then do { s \<leftarrow> kfree_all [buf, fs] s; Some (r, s) }
            else do {
              let super = get_super bs;
              if su_magic super \<noteq> SFS_MAGIC \<or> su_blocks super > d_blocks dev
              then do { s \<leftarrow> kfree_all [buf, fs] s; Some (- E_INVAL, s) }
              else sfs_do_mount_map dev (su_info_update (\<lambda>i. i[31 := 0]) super) fs buf s } } } })"

end
