(* ===== verification/Vfs.thy ===== *)
theory Vfs
  imports SfsFs Sync "HOL-Library.Signed_Division"
begin

text \<open>
  The layer between files and file systems: device nodes (\<^verbatim>\<open>devs/dev.c\<close>, \<^verbatim>\<open>dev_stdin.c\<close>,
  \<^verbatim>\<open>dev_stdout.c\<close>), calls through the table of a node (\<^verbatim>\<open>inode.h\<close>), and names: devices
  (\<^verbatim>\<open>vfsdev.c\<close>), the boot file system (\<^verbatim>\<open>vfs.c\<close>), the current directory (\<^verbatim>\<open>vfspath.c\<close>), paths
  (\<^verbatim>\<open>vfslookup.c\<close>) and opening (\<^verbatim>\<open>vfsfile.c\<close>). A call through a pointer that the table of the node
  does not have fails its assertion: \<open>None\<close>.
\<close>

unbundle bit_operations_syntax

section \<open>The keyboard\<close>

definition STDIN_BUFSIZE :: u32 where "STDIN_BUFSIZE = 4096"

text \<open>\<open>pos % STDIN_BUFSIZE\<close> as an index of the ring: \<open>off_t\<close> is signed, and so is the remainder. A negative
  one is outside the ring.\<close>

definition stdin_index :: "u32 \<Rightarrow> nat option" where
  "stdin_index pos = (let i = sint pos smod sint STDIN_BUFSIZE in if i < 0 then None else Some (nat i))"

lemma stdin_index_pos: "unat pos < 2 ^ 31 \<Longrightarrow> stdin_index pos = Some (unat pos mod 4096)"
proof -
  assume p: "unat pos < 2 ^ 31"
  have "sint STDIN_BUFSIZE = 4096" by (simp add: STDIN_BUFSIZE_def)
  moreover have "int (unat pos) smod 4096 = int (unat pos mod 4096)"
    by (simp add: signed_modulo_int_def signed_divide_int_def sgn_if minus_div_mult_eq_mod zmod_int del: of_nat_unat)
  moreover have "sint pos = int (unat pos)" using p by (rule sint_u32_small)
  ultimately show ?thesis unfolding stdin_index_def Let_def by (simp only:) simp
qed

text \<open>The interrupt side: \<open>q\<close> is the wait queue of the device. When the ring is full the character still
  goes into it.\<close>

definition dev_stdin_write :: "nat \<Rightarrow> u8 \<Rightarrow> kstate \<Rightarrow> fstate \<Rightarrow> (kstate \<times> fstate) option" where
  "dev_stdin_write q c k s =
     (if c = 0 then Some (k, s)
      else do {
        i \<leftarrow> stdin_index (f_wpos s);
        let s = s\<lparr>f_stdin := (f_stdin s)[i := c]\<rparr>;
        let s = (if sint (f_wpos s - f_rpos s) < 4096 then s\<lparr>f_wpos := f_wpos s + 1\<rparr> else s);
        k \<leftarrow> (if wait_queue_empty q k then Some k else wakeup_queue q WT_KBD True k);
        Some (k, s) })"

text \<open>The reader: \<open>sleep\<close> is the part between the two tests of the ring when it is empty, in which the
  process waits (\<open>wait_current_set\<close>, \<open>schedule\<close>, \<open>wait_current_del\<close>); it yields the flags it was
  woken with and what the others did to the state. \<open>n\<close> bytes are missing, \<open>acc\<close> is read.\<close>

type_synonym sleeper = "fstate \<Rightarrow> (u32 \<times> fstate) option"

partial_function (option) stdin_read_loop :: "sleeper \<Rightarrow> nat \<Rightarrow> u8 list \<Rightarrow> fstate \<Rightarrow> (u8 list \<times> fstate) option" where
  "stdin_read_loop sleep n acc s =
     (if n = 0 then Some (acc, s)
      else if sint (f_rpos s) < sint (f_wpos s) then do {
        i \<leftarrow> stdin_index (f_rpos s);
        stdin_read_loop sleep (n - 1) (acc @ [f_stdin s ! i])
          (s\<lparr>f_rpos := f_rpos s + 1\<rparr>) }
      else do {
        (flags, s) \<leftarrow> sleep s;
        if flags = WT_KBD then stdin_read_loop sleep n acc s else Some (acc, s) })"

definition dev_stdin_read :: "sleeper \<Rightarrow> u32 \<Rightarrow> fstate \<Rightarrow> (u8 list \<times> fstate) option" where
  "dev_stdin_read sleep len s = stdin_read_loop sleep (unat len) [] s"

definition stdin_open :: "u32 \<Rightarrow> int" where
  "stdin_open open_flags = (if open_flags \<noteq> O_RDONLY then - E_INVAL else 0)"

definition stdin_io :: "sleeper \<Rightarrow> iobuf \<Rightarrow> bool \<Rightarrow> fstate \<Rightarrow> (int \<times> iobuf \<times> fstate) option" where
  "stdin_io sleep iob write s =
     (if \<not> write then do {
        (out, s) \<leftarrow> dev_stdin_read sleep (io_resid iob) s;
        let s = s\<lparr>f_mem := put_bytes (io_base iob) out (f_mem s)\<rparr>;
        let ret = sint (of_nat (length out) :: u32);
        Some (ret, if ret > 0 then iob\<lparr>io_resid := io_resid iob - of_int ret\<rparr> else iob, s) }
      else Some (- E_INVAL, iob, s))"

definition stdin_device_init :: "fstate \<Rightarrow> device \<times> fstate" where
  "stdin_device_init s = (\<lparr>d_blocks = 0, d_blocksize = 1, d_ops = StdinOps\<rparr>, s\<lparr>f_rpos := 0, f_wpos := 0\<rparr>)"

section \<open>The screen\<close>

definition stdout_open :: "u32 \<Rightarrow> int" where
  "stdout_open open_flags = (if open_flags \<noteq> O_WRONLY then - E_INVAL else 0)"

definition stdout_io :: "iobuf \<Rightarrow> bool \<Rightarrow> fstate \<Rightarrow> int \<times> iobuf \<times> fstate" where
  "stdout_io iob write s =
     (if write then (0, iob\<lparr>io_resid := 0\<rparr>,
        s\<lparr>f_console := f_console s @ bytes_at (f_mem s) (io_base iob) (unat (io_resid iob))\<rparr>)
      else (- E_INVAL, iob, s))"

definition stdout_device_init :: device where
  "stdout_device_init = \<lparr>d_blocks = 0, d_blocksize = 1, d_ops = StdoutOps\<rparr>"

section \<open>Device nodes\<close>

definition dop_open :: "device \<Rightarrow> u32 \<Rightarrow> int" where
  "dop_open dev open_flags =
     (case d_ops dev of Disk0Ops \<Rightarrow> 0 | StdinOps \<Rightarrow> stdin_open open_flags | StdoutOps \<Rightarrow> stdout_open open_flags)"

definition dop_close :: "device \<Rightarrow> int" where "dop_close dev = 0"

definition dop_ioctl :: "device \<Rightarrow> int" where
  "dop_ioctl dev = (case d_ops dev of Disk0Ops \<Rightarrow> - E_UNIMP | _ \<Rightarrow> - E_INVAL)"

text \<open>On the disk every transfer that succeeds uses up the whole request.\<close>

definition dop_io :: "sleeper \<Rightarrow> device \<Rightarrow> iobuf \<Rightarrow> bool \<Rightarrow> fstate \<Rightarrow> (int \<times> iobuf \<times> fstate) option" where
  "dop_io sleep dev iob write s =
     (case d_ops dev of
        Disk0Ops \<Rightarrow> do {
          let data = (if write then bytes_at (f_mem s) (io_base iob) (unat (io_resid iob)) else []);
          let (r, out, disk) = disk0_io (d_blocks dev) (io_offset iob) (io_resid iob) write data (f_disk s);
          let s = s\<lparr>f_disk := disk, f_mem := put_bytes (io_base iob) out (f_mem s)\<rparr>;
          if r \<noteq> 0 then Some (r, iob, s)
          else do { iob \<leftarrow> iobuf_skip iob (io_resid iob); Some (r, iob, s) } }
      | StdinOps \<Rightarrow> stdin_io sleep iob write s
      | StdoutOps \<Rightarrow> Some (stdout_io iob write s))"

definition dev_open :: "nat \<Rightarrow> u32 \<Rightarrow> fstate \<Rightarrow> int option" where
  "dev_open n open_flags s =
     (if open_flags AND (O_CREAT OR O_TRUNC OR O_EXCL OR O_APPEND) \<noteq> 0 then Some (- E_INVAL)
      else do { d \<leftarrow> dev_info n s; Some (dop_open d open_flags) })"

definition dev_close :: "nat \<Rightarrow> fstate \<Rightarrow> int option" where
  "dev_close n s = do { d \<leftarrow> dev_info n s; Some (dop_close d) }"

definition dev_read :: "sleeper \<Rightarrow> nat \<Rightarrow> iobuf \<Rightarrow> fstate \<Rightarrow> (int \<times> iobuf \<times> fstate) option" where
  "dev_read sleep n iob s = do { d \<leftarrow> dev_info n s; dop_io sleep d iob False s }"

definition dev_write :: "sleeper \<Rightarrow> nat \<Rightarrow> iobuf \<Rightarrow> fstate \<Rightarrow> (int \<times> iobuf \<times> fstate) option" where
  "dev_write sleep n iob s = do { d \<leftarrow> dev_info n s; dop_io sleep d iob True s }"

definition dev_ioctl :: "nat \<Rightarrow> fstate \<Rightarrow> int option" where
  "dev_ioctl n s = do { d \<leftarrow> dev_info n s; Some (dop_ioctl d) }"

definition dev_fstat :: "nat \<Rightarrow> fstate \<Rightarrow> (int \<times> stat) option" where
  "dev_fstat n s = do {
     (r, mode) \<leftarrow> vop_gettype n s;
     if r \<noteq> 0 then Some (r, stat_zero\<lparr>st_mode := mode\<rparr>)
     else do {
       d \<leftarrow> dev_info n s;
       Some (0, \<lparr>st_mode = mode, st_nlinks = 1, st_blocks = d_blocks d, st_size = d_blocks d * d_blocksize d\<rparr>) } }"

definition dev_tryseek :: "nat \<Rightarrow> u32 \<Rightarrow> fstate \<Rightarrow> int option" where
  "dev_tryseek n pos s = do {
     d \<leftarrow> dev_info n s;
     if d_blocks d > 0 then do {
       kassert (d_blocksize d = 4096);
       Some (if pos AND 0xfff = 0 \<and> sint pos \<ge> 0 \<and> pos < d_blocks d * d_blocksize d then 0 else - E_INVAL) }
     else Some (- E_INVAL) }"

definition dev_lookup :: "nat \<Rightarrow> u8 list \<Rightarrow> fstate \<Rightarrow> int \<times> nat option \<times> fstate" where
  "dev_lookup n path s =
     (if path \<noteq> [] then (- E_NOENT, None, s) else (0, Some n, snd (inode_ref_inc n s)))"

definition dev_create_inode :: "device \<Rightarrow> fstate \<Rightarrow> (nat option \<times> fstate) option" where
  "dev_create_inode d s = do {
     (node, s) \<leftarrow> alloc_inode (DeviceInfo d) s;
     Some (node, case node of Some n \<Rightarrow> inode_init n DevNodeOps False s | None \<Rightarrow> s) }"

section \<open>Calls through the table of a node\<close>

definition vop_open :: "nat \<Rightarrow> u32 \<Rightarrow> fstate \<Rightarrow> int option" where
  "vop_open n open_flags s = do {
     t \<leftarrow> vop_table n s;
     (case t of DevNodeOps \<Rightarrow> dev_open n open_flags s | SfsDirOps \<Rightarrow> Some (sfs_opendir open_flags)
      | SfsFileOps \<Rightarrow> Some (sfs_openfile open_flags)) }"

definition vop_close :: "nat \<Rightarrow> fstate \<Rightarrow> (int \<times> fstate) option" where
  "vop_close n s = do {
     t \<leftarrow> vop_table n s;
     (case t of DevNodeOps \<Rightarrow> do { r \<leftarrow> dev_close n s; Some (r, s) } | _ \<Rightarrow> sfs_close n s) }"

definition vop_read :: "sleeper \<Rightarrow> nat \<Rightarrow> iobuf \<Rightarrow> fstate \<Rightarrow> (int \<times> iobuf \<times> fstate) option" where
  "vop_read sleep n iob s = do {
     t \<leftarrow> vop_table n s;
     (case t of DevNodeOps \<Rightarrow> dev_read sleep n iob s | SfsDirOps \<Rightarrow> None | SfsFileOps \<Rightarrow> sfs_read n iob s) }"

definition vop_write :: "sleeper \<Rightarrow> nat \<Rightarrow> iobuf \<Rightarrow> fstate \<Rightarrow> (int \<times> iobuf \<times> fstate) option" where
  "vop_write sleep n iob s = do {
     t \<leftarrow> vop_table n s;
     (case t of DevNodeOps \<Rightarrow> dev_write sleep n iob s | SfsDirOps \<Rightarrow> None | SfsFileOps \<Rightarrow> sfs_write n iob s) }"

definition vop_fstat :: "nat \<Rightarrow> fstate \<Rightarrow> (int \<times> stat) option" where
  "vop_fstat n s = do { t \<leftarrow> vop_table n s; (case t of DevNodeOps \<Rightarrow> dev_fstat n s | _ \<Rightarrow> sfs_fstat n s) }"

definition vop_namefile :: "nat \<Rightarrow> iobuf \<Rightarrow> fstate \<Rightarrow> (int \<times> iobuf \<times> fstate) option" where
  "vop_namefile n iob s = do { t \<leftarrow> vop_table n s; (case t of SfsDirOps \<Rightarrow> sfs_namefile n iob s | _ \<Rightarrow> None) }"

definition vop_getdirentry :: "nat \<Rightarrow> iobuf \<Rightarrow> fstate \<Rightarrow> (int \<times> iobuf \<times> fstate) option" where
  "vop_getdirentry n iob s = do { t \<leftarrow> vop_table n s; (case t of SfsDirOps \<Rightarrow> sfs_getdirentry n iob s | _ \<Rightarrow> None) }"

definition vop_tryseek :: "nat \<Rightarrow> u32 \<Rightarrow> fstate \<Rightarrow> (int \<times> fstate) option" where
  "vop_tryseek n pos s = do {
     t \<leftarrow> vop_table n s;
     (case t of DevNodeOps \<Rightarrow> do { r \<leftarrow> dev_tryseek n pos s; Some (r, s) } | SfsDirOps \<Rightarrow> None
      | SfsFileOps \<Rightarrow> sfs_tryseek n pos s) }"

definition vop_lookup :: "nat \<Rightarrow> u8 list \<Rightarrow> fstate \<Rightarrow> (int \<times> nat option \<times> fstate) option" where
  "vop_lookup n path s = do {
     t \<leftarrow> vop_table n s;
     (case t of DevNodeOps \<Rightarrow> Some (dev_lookup n path s) | SfsDirOps \<Rightarrow> sfs_lookup n path s | SfsFileOps \<Rightarrow> None) }"

text \<open>No table has \<open>vop_create\<close>.\<close>

definition vop_create :: "nat \<Rightarrow> fstate \<Rightarrow> (int \<times> nat option \<times> fstate) option" where
  "vop_create n s = None"

definition inode_open_dec :: "nat \<Rightarrow> fstate \<Rightarrow> (int \<times> fstate) option" where
  "inode_open_dec n s = do {
     kassert (in_open_count (f_inodes s n) > 0);
     let s = upd_inode n (in_open_count_update (\<lambda>c. c - 1)) s;
     let open_count = in_open_count (f_inodes s n);
     if open_count = 0 then do { (_, s) \<leftarrow> vop_close n s; Some (open_count, s) }
     else Some (open_count, s) }"

section \<open>Devices by name (vfsdev.c)\<close>

definition lock_vdev_list :: "fstate \<Rightarrow> fstate option" where
  "lock_vdev_list s = do { kassert (f_vdev_sem s > 0); Some (s\<lparr>f_vdev_sem := f_vdev_sem s - 1\<rparr>) }"

definition unlock_vdev_list :: "fstate \<Rightarrow> fstate" where
  "unlock_vdev_list s = s\<lparr>f_vdev_sem := f_vdev_sem s + 1\<rparr>"

definition vfs_devlist_init :: "fstate \<Rightarrow> fstate" where
  "vfs_devlist_init s = s\<lparr>f_vdev_links := list_init VdevList (f_vdev_links s), f_vdev_sem := 1\<rparr>"

text \<open>The loops over the list look for the first device with a property; \<open>None\<close> inside means there is none.\<close>

partial_function (option) find_vdev :: "(vfs_dev \<Rightarrow> bool) \<Rightarrow> fstate \<Rightarrow> vdevlink \<Rightarrow> nat option option" where
  "find_vdev p s le =
     (case list_next le (f_vdev_links s) of
        VdevList \<Rightarrow> Some None
      | VdevLink d \<Rightarrow> if p (f_vdevs s d) then Some (Some d) else find_vdev p s (VdevLink d))"

partial_function (option) vfs_cleanup_loop :: "vdevlink \<Rightarrow> fstate \<Rightarrow> fstate option" where
  "vfs_cleanup_loop le s =
     (case list_next le (f_vdev_links s) of
        VdevList \<Rightarrow> Some s
      | VdevLink d \<Rightarrow> do {
          s \<leftarrow> (if vd_fs (f_vdevs s d) then sfs_cleanup s else Some s);
          vfs_cleanup_loop (VdevLink d) s })"

definition vfs_cleanup :: "fstate \<Rightarrow> fstate option" where
  "vfs_cleanup s =
     (if list_empty VdevList (f_vdev_links s) then Some s
      else do {
        s \<leftarrow> lock_vdev_list s;
        s \<leftarrow> vfs_cleanup_loop VdevList s;
        Some (unlock_vdev_list s) })"

definition vfs_get_root :: "u8 list \<Rightarrow> fstate \<Rightarrow> (int \<times> nat option \<times> fstate) option" where
  "vfs_get_root devname s =
     (if list_empty VdevList (f_vdev_links s) then Some (- E_NO_DEV, None, s)
      else do {
        s \<leftarrow> lock_vdev_list s;
        d \<leftarrow> find_vdev (\<lambda>v. vd_devname v = devname) s VdevList;
        (r, node, s) \<leftarrow>
          (case d of
             None \<Rightarrow> Some (- E_NO_DEV, None, s)
           | Some d \<Rightarrow>
               if vd_fs (f_vdevs s d) then do { (n, s) \<leftarrow> sfs_get_root s; Some (0, Some n, s) }
               else if \<not> vd_mountable (f_vdevs s d) then do {
                 n \<leftarrow> vd_devnode (f_vdevs s d);
                 Some (0, Some n, snd (inode_ref_inc n s)) }
               else Some (- E_NA_DEV, None, s));
        Some (r, node, unlock_vdev_list s) })"

definition vfs_get_devname :: "fstate \<Rightarrow> u8 list option option" where
  "vfs_get_devname s = do {
     d \<leftarrow> find_vdev vd_fs s VdevList;
     Some (map_option (\<lambda>d. vd_devname (f_vdevs s d)) d) }"

definition check_devname_conflict :: "u8 list \<Rightarrow> fstate \<Rightarrow> bool option" where
  "check_devname_conflict devname s = do {
     d \<leftarrow> find_vdev (\<lambda>v. vd_devname v = devname) s VdevList;
     Some (d = None) }"

definition FS_MAX_DNAME_LEN :: u32 where "FS_MAX_DNAME_LEN = 31"

definition vfs_do_add :: "u8 list \<Rightarrow> nat option \<Rightarrow> bool \<Rightarrow> bool \<Rightarrow> fstate \<Rightarrow> (int \<times> fstate) option" where
  "vfs_do_add devname devnode fs mountable s = do {
     (case devnode of
        None \<Rightarrow> kassert (\<not> mountable)
      | Some n \<Rightarrow> do { _ \<leftarrow> dev_info n s; Some () });
     if of_nat (length devname) > FS_MAX_DNAME_LEN then Some (- E_TOO_BIG, s)
     else do {
       (nm, s) \<leftarrow> kalloc (of_nat (length devname) + 1) s;
       if nm = 0 then Some (- E_NO_MEM, s)
       else do {
         (vd, s) \<leftarrow> kalloc 24 s;
         if vd = 0 then do { s \<leftarrow> kfree_fs nm s; Some (- E_NO_MEM, s) }
         else do {
           s \<leftarrow> lock_vdev_list s;
           fresh \<leftarrow> check_devname_conflict devname s;
           if \<not> fresh then do { s \<leftarrow> kfree_all [vd, nm] (unlock_vdev_list s); Some (- E_EXISTS, s) }
           else do {
             let d = unat vd;
             let s = s\<lparr>f_vdevs := (f_vdevs s)(d := \<lparr>vd_devname = devname, vd_devnode = devnode, vd_fs = fs,
                                                vd_mountable = mountable\<rparr>),
                       f_vdev_links := list_add VdevList (VdevLink d) (f_vdev_links s)\<rparr>;
             Some (0, unlock_vdev_list s) } } } } }"

definition vfs_add_fs :: "u8 list \<Rightarrow> bool \<Rightarrow> fstate \<Rightarrow> (int \<times> fstate) option" where
  "vfs_add_fs devname fs s = vfs_do_add devname None fs False s"

definition vfs_add_dev :: "u8 list \<Rightarrow> nat \<Rightarrow> bool \<Rightarrow> fstate \<Rightarrow> (int \<times> fstate) option" where
  "vfs_add_dev devname devnode mountable s = vfs_do_add devname (Some devnode) False mountable s"

definition find_mount :: "u8 list \<Rightarrow> fstate \<Rightarrow> (int \<times> nat option) option" where
  "find_mount devname s = do {
     d \<leftarrow> find_vdev (\<lambda>v. vd_mountable v \<and> vd_devname v = devname) s VdevList;
     Some (if d = None then - E_NO_DEV else 0, d) }"

definition set_vd_fs :: "nat \<Rightarrow> bool \<Rightarrow> fstate \<Rightarrow> fstate" where
  "set_vd_fs d b s = s\<lparr>f_vdevs := (f_vdevs s)(d := (f_vdevs s d)\<lparr>vd_fs := b\<rparr>)\<rparr>"

definition vfs_mount :: "u8 list \<Rightarrow> (device \<Rightarrow> fstate \<Rightarrow> (int \<times> fstate) option) \<Rightarrow> fstate \<Rightarrow> (int \<times> fstate) option" where
  "vfs_mount devname mountfunc s = do {
     s \<leftarrow> lock_vdev_list s;
     (r, vdev) \<leftarrow> find_mount devname s;
     if r \<noteq> 0 then Some (r, unlock_vdev_list s)
     else do {
       d \<leftarrow> vdev;
       if vd_fs (f_vdevs s d) then Some (- E_BUSY, unlock_vdev_list s)
       else do {
         n \<leftarrow> vd_devnode (f_vdevs s d);
         dev \<leftarrow> dev_info n s;
         (r, s) \<leftarrow> mountfunc dev s;
         Some (r, unlock_vdev_list (if r = 0 then set_vd_fs d True s else s)) } } }"

definition sfs_mount :: "u8 list \<Rightarrow> fstate \<Rightarrow> (int \<times> fstate) option" where
  "sfs_mount devname s = vfs_mount devname sfs_do_mount s"

text \<open>\<open>sfs_init\<close> mounts \<open>disk0\<close> and panics if that fails.\<close>

definition sfs_init :: "fstate \<Rightarrow> fstate option" where
  "sfs_init s = do { (r, s) \<leftarrow> sfs_mount [0x64, 0x69, 0x73, 0x6B, 0x30] s; kassert (r = 0); Some s }"

definition vfs_unmount :: "u8 list \<Rightarrow> fstate \<Rightarrow> (int \<times> fstate) option" where
  "vfs_unmount devname s = do {
     s \<leftarrow> lock_vdev_list s;
     (r, vdev) \<leftarrow> find_mount devname s;
     if r \<noteq> 0 then Some (r, unlock_vdev_list s)
     else do {
       d \<leftarrow> vdev;
       if \<not> vd_fs (f_vdevs s d) then Some (- E_INVAL, unlock_vdev_list s)
       else do {
         (r, s) \<leftarrow> sfs_sync s;
         if r \<noteq> 0 then Some (r, unlock_vdev_list s)
         else do {
           (r, s) \<leftarrow> sfs_unmount s;
           Some (r, unlock_vdev_list (if r = 0 then set_vd_fs d False s else s)) } } } }"

partial_function (option) vfs_unmount_loop :: "vdevlink \<Rightarrow> fstate \<Rightarrow> fstate option" where
  "vfs_unmount_loop le s =
     (case list_next le (f_vdev_links s) of
        VdevList \<Rightarrow> Some s
      | VdevLink d \<Rightarrow> do {
          s \<leftarrow>
            (if vd_mountable (f_vdevs s d) \<and> vd_fs (f_vdevs s d) then do {
               (r, s) \<leftarrow> sfs_sync s;
               if r \<noteq> 0 then Some s
               else do {
                 (r, s) \<leftarrow> sfs_unmount s;
                 Some (if r \<noteq> 0 then s else set_vd_fs d False s) } }
             else Some s);
          vfs_unmount_loop (VdevLink d) s })"

definition vfs_unmount_all :: "fstate \<Rightarrow> (int \<times> fstate) option" where
  "vfs_unmount_all s =
     (if list_empty VdevList (f_vdev_links s) then Some (0, s)
      else do {
        s \<leftarrow> lock_vdev_list s;
        s \<leftarrow> vfs_unmount_loop VdevList s;
        Some (0, unlock_vdev_list s) })"

text \<open>\<open>dev_init_disk0\<close> and its relatives: create the node, initialise the device, add it under its name.\<close>

definition dev_init_node :: "u8 list \<Rightarrow> device \<Rightarrow> bool \<Rightarrow> fstate \<Rightarrow> fstate option" where
  "dev_init_node name d mountable s = do {
     (node, s) \<leftarrow> dev_create_inode d s;
     n \<leftarrow> node;
     (r, s) \<leftarrow> vfs_add_dev name n mountable s;
     kassert (r = 0);
     Some s }"

definition dev_init_stdin :: "fstate \<Rightarrow> fstate option" where
  "dev_init_stdin s = (let (d, s) = stdin_device_init s in dev_init_node [0x73, 0x74, 0x64, 0x69, 0x6E] d False s)"

definition dev_init_stdout :: "fstate \<Rightarrow> fstate option" where
  "dev_init_stdout s = dev_init_node [0x73, 0x74, 0x64, 0x6F, 0x75, 0x74] stdout_device_init False s"

text \<open>\<open>disk0\<close> also allocates its buffer of four blocks.\<close>

definition dev_init_disk0 :: "fstate \<Rightarrow> fstate option" where
  "dev_init_disk0 s = do {
     (node, s) \<leftarrow> dev_create_inode disk0_device_init s;
     n \<leftarrow> node;
     (buf, s) \<leftarrow> kalloc (4 * DISK0_BLKSIZE) s;
     kassert (buf \<noteq> 0);
     (r, s) \<leftarrow> vfs_add_dev [0x64, 0x69, 0x73, 0x6B, 0x30] n True s;
     kassert (r = 0);
     Some s }"

definition dev_init :: "fstate \<Rightarrow> fstate option" where
  "dev_init s = do { s \<leftarrow> dev_init_stdin s; s \<leftarrow> dev_init_stdout s; dev_init_disk0 s }"

section \<open>Boot file system and current directory (vfs.c, vfspath.c)\<close>

definition vfs_init :: "fstate \<Rightarrow> fstate" where
  "vfs_init s = vfs_devlist_init (s\<lparr>f_bootfs_sem := 1\<rparr>)"

definition fs_init :: "fstate \<Rightarrow> fstate option" where
  "fs_init s = do { s \<leftarrow> dev_init (vfs_init s); sfs_init s }"

definition lock_bootfs :: "fstate \<Rightarrow> fstate option" where
  "lock_bootfs s = do { kassert (f_bootfs_sem s > 0); Some (s\<lparr>f_bootfs_sem := f_bootfs_sem s - 1\<rparr>) }"

definition unlock_bootfs :: "fstate \<Rightarrow> fstate" where
  "unlock_bootfs s = s\<lparr>f_bootfs_sem := f_bootfs_sem s + 1\<rparr>"

definition change_bootfs :: "nat option \<Rightarrow> fstate \<Rightarrow> fstate option" where
  "change_bootfs node s = do {
     s \<leftarrow> lock_bootfs s;
     let old = f_bootfs_node s;
     let s = unlock_bootfs (s\<lparr>f_bootfs_node := node\<rparr>);
     (case old of Some n \<Rightarrow> map_option snd (inode_ref_dec n s) | None \<Rightarrow> Some s) }"

definition vfs_get_bootfs :: "fstate \<Rightarrow> (int \<times> nat option \<times> fstate) option" where
  "vfs_get_bootfs s =
     (case f_bootfs_node s of
        Some n \<Rightarrow> do {
          s \<leftarrow> lock_bootfs s;
          Some (0, Some n, unlock_bootfs (snd (inode_ref_inc n s))) }
      | None \<Rightarrow> Some (- E_NOENT, None, s))"

definition cur_files :: "fstate \<Rightarrow> files_struct option" where
  "cur_files s = map_option (f_files s) (f_filesp s)"

definition upd_files :: "nat \<Rightarrow> (files_struct \<Rightarrow> files_struct) \<Rightarrow> fstate \<Rightarrow> fstate" where
  "upd_files p f s = s\<lparr>f_files := (f_files s)(p := f (f_files s p))\<rparr>"

definition get_cwd_nolock :: "fstate \<Rightarrow> nat option option" where
  "get_cwd_nolock s = do { f \<leftarrow> cur_files s; Some (fs_pwd f) }"

definition set_cwd_nolock :: "nat option \<Rightarrow> fstate \<Rightarrow> fstate option" where
  "set_cwd_nolock pwd s = do { p \<leftarrow> f_filesp s; Some (upd_files p (fs_pwd_update (\<lambda>_. pwd)) s) }"

definition lock_files :: "nat \<Rightarrow> fstate \<Rightarrow> fstate option" where
  "lock_files p s = do { kassert (fs_sem (f_files s p) > 0); Some (upd_files p (fs_sem_update (\<lambda>k. k - 1)) s) }"

definition unlock_files :: "nat \<Rightarrow> fstate \<Rightarrow> fstate" where
  "unlock_files p = upd_files p (fs_sem_update (\<lambda>k. k + 1))"

definition lock_cfs :: "fstate \<Rightarrow> fstate option" where
  "lock_cfs s = do { p \<leftarrow> f_filesp s; lock_files p s }"

definition unlock_cfs :: "fstate \<Rightarrow> fstate option" where
  "unlock_cfs s = do { p \<leftarrow> f_filesp s; Some (unlock_files p s) }"

definition vfs_get_curdir :: "fstate \<Rightarrow> (int \<times> nat option \<times> fstate) option" where
  "vfs_get_curdir s = do {
     pwd \<leftarrow> get_cwd_nolock s;
     Some (case pwd of Some n \<Rightarrow> (0, Some n, snd (inode_ref_inc n s)) | None \<Rightarrow> (- E_NOENT, None, s)) }"

definition vfs_set_curdir :: "nat option \<Rightarrow> fstate \<Rightarrow> (int \<times> fstate) option" where
  "vfs_set_curdir dir s = do {
     s \<leftarrow> lock_cfs s;
     old_dir \<leftarrow> get_cwd_nolock s;
     (r, s) \<leftarrow>
       (if old_dir = dir then Some (0, s)
        else do {
          (r, s) \<leftarrow>
            (case dir of
               None \<Rightarrow> Some (0, s)
             | Some n \<Rightarrow> do {
                 (r, type) \<leftarrow> vop_gettype n s;
                 if r \<noteq> 0 then Some (r, s)
                 else if \<not> S_ISDIR type then Some (- E_NOTDIR, s)
                 else Some (0, snd (inode_ref_inc n s)) });
          if r \<noteq> 0 then Some (r, s)
          else do {
            s \<leftarrow> set_cwd_nolock dir s;
            (case old_dir of
               Some o' \<Rightarrow> do { (_, s) \<leftarrow> inode_ref_dec o' s; Some (0, s) }
             | None \<Rightarrow> Some (0, s)) } });
     s \<leftarrow> unlock_cfs s;
     Some (r, s) }"

section \<open>Paths (vfslookup.c)\<close>

text \<open>The results are the return value, \<open>*subpath\<close>, \<open>*node_store\<close> and the state. 0x3A is the colon,
  0x2F the slash.\<close>

definition get_device :: "u8 list \<Rightarrow> fstate \<Rightarrow> (int \<times> u8 list \<times> nat option \<times> fstate) option" where
  "get_device path s = do {
     let i = length (takeWhile (\<lambda>c. c \<noteq> 0x3A \<and> c \<noteq> 0x2F) path);
     let colon = (i < length path \<and> path ! i = 0x3A);
     let slash = (i < length path \<and> path ! i = 0x2F);
     if \<not> colon \<and> \<not> (slash \<and> i = 0) then do {
       (r, node, s) \<leftarrow> vfs_get_curdir s;
       Some (r, path, node, s) }
     else if colon \<and> i > 0 then do {
       (r, node, s) \<leftarrow> vfs_get_root (take i path) s;
       Some (r, dropWhile (\<lambda>c. c = 0x2F) (drop (i + 1) path), node, s) }
     else do {
       (r, node, s) \<leftarrow>
         (if slash then vfs_get_bootfs s
          else do {
            (r, node, s) \<leftarrow> vfs_get_curdir s;
            if r \<noteq> 0 then Some (r, None, s)
            else do {
              n \<leftarrow> node;
              kassert (in_fs (f_inodes s n));
              (root, s) \<leftarrow> sfs_get_root s;
              (_, s) \<leftarrow> inode_ref_dec n s;
              Some (0, Some root, s) } });
       if r \<noteq> 0 then Some (r, [], None, s)
       else Some (0, dropWhile (\<lambda>c. c = 0x2F) (tl path), node, s) } }"

definition vfs_lookup :: "u8 list \<Rightarrow> fstate \<Rightarrow> (int \<times> nat option \<times> fstate) option" where
  "vfs_lookup path s = do {
     (r, path, node, s) \<leftarrow> get_device path s;
     if r \<noteq> 0 then Some (r, None, s)
     else do {
       n \<leftarrow> node;
       if path \<noteq> [] then do {
         (r, found, s) \<leftarrow> vop_lookup n path s;
         (_, s) \<leftarrow> inode_ref_dec n s;
         Some (r, found, s) }
       else Some (0, Some n, s) } }"

definition vfs_lookup_parent :: "u8 list \<Rightarrow> fstate \<Rightarrow> (int \<times> nat option \<times> u8 list \<times> fstate) option" where
  "vfs_lookup_parent path s = do {
     (r, path, node, s) \<leftarrow> get_device path s;
     if r \<noteq> 0 then Some (r, None, [], s) else Some (0, node, path, s) }"

definition vfs_chdir :: "u8 list \<Rightarrow> fstate \<Rightarrow> (int \<times> fstate) option" where
  "vfs_chdir path s = do {
     (r, node, s) \<leftarrow> vfs_lookup path s;
     if r = 0 then do {
       n \<leftarrow> node;
       (r, s) \<leftarrow> vfs_set_curdir (Some n) s;
       (_, s) \<leftarrow> inode_ref_dec n s;
       Some (r, s) }
     else Some (r, s) }"

text \<open>\<open>fsname\<close> has to end in its only colon; NULL is \<open>None\<close>.\<close>

definition vfs_set_bootfs :: "u8 list option \<Rightarrow> fstate \<Rightarrow> (int \<times> fstate) option" where
  "vfs_set_bootfs fsname s = do {
     (r, node, s) \<leftarrow>
       (case fsname of
          None \<Rightarrow> Some (0, None, s)
        | Some name \<Rightarrow>
            if drop (length (takeWhile (\<lambda>c. c \<noteq> 0x3A) name)) name \<noteq> [0x3A] then Some (- E_INVAL, None, s)
            else do {
              (r, s) \<leftarrow> vfs_chdir name s;
              if r \<noteq> 0 then Some (r, None, s) else vfs_get_curdir s });
     if r \<noteq> 0 then Some (r, s)
     else do { s \<leftarrow> change_bootfs node s; Some (0, s) } }"

text \<open>\<open>iobuf_move\<close> copies the name of the device and the colon out of kernel memory at \<open>p\<close>; the code
  passes the address of the stored name and of a local variable.\<close>

definition vfs_getcwd :: "u32 \<Rightarrow> iobuf \<Rightarrow> fstate \<Rightarrow> (int \<times> iobuf \<times> fstate) option" where
  "vfs_getcwd p iob s = do {
     (r, node, s) \<leftarrow> vfs_get_curdir s;
     if r \<noteq> 0 then Some (r, iob, s)
     else do {
       n \<leftarrow> node;
       kassert (in_fs (f_inodes s n));
       name \<leftarrow> vfs_get_devname s;
       name \<leftarrow> name;
       (r, _, iob, m) \<leftarrow> iobuf_move iob (put_bytes p (name @ [0x3A]) (f_mem s)) p (of_nat (length name)) True;
       let s = s\<lparr>f_mem := m\<rparr>;
       (r, iob, s) \<leftarrow>
         (if r \<noteq> 0 then Some (r, iob, s)
          else do {
            (r, _, iob, m) \<leftarrow> iobuf_move iob (f_mem s) (p + of_nat (length name)) 1 True;
            let s = s\<lparr>f_mem := m\<rparr>;
            if r \<noteq> 0 then Some (r, iob, s) else vop_namefile n iob s });
       (_, s) \<leftarrow> inode_ref_dec n s;
       Some (r, iob, s) } }"

section \<open>Opening and closing (vfsfile.c)\<close>

definition vfs_open :: "u8 list \<Rightarrow> u32 \<Rightarrow> fstate \<Rightarrow> (int \<times> nat option \<times> fstate) option" where
  "vfs_open path open_flags s = do {
     let acc = open_flags AND O_ACCMODE;
     let can_write = (acc = O_WRONLY \<or> acc = O_RDWR);
     if \<not> (acc = O_RDONLY \<or> can_write) then Some (- E_INVAL, None, s)
     else if open_flags AND O_TRUNC \<noteq> 0 \<and> \<not> can_write then Some (- E_INVAL, None, s)
     else do {
       let excl = (open_flags AND O_EXCL \<noteq> 0);
       let create = (open_flags AND O_CREAT \<noteq> 0);
       (r, node, s) \<leftarrow> vfs_lookup path s;
       (ret, node, s) \<leftarrow>
         (if r \<noteq> 0 then
            if r = - 16 \<and> create then do {
              (r, dir, name, s) \<leftarrow> vfs_lookup_parent path s;
              if r \<noteq> 0 then Some (Some r, None, s)
              else do { d \<leftarrow> dir; (_, node, s) \<leftarrow> vop_create d s; Some (None, node, s) } }
            else Some (Some r, None, s)
          else if excl \<and> create then Some (Some (- E_EXISTS), None, s)
          else Some (None, node, s));
       (case ret of
          Some r \<Rightarrow> Some (r, None, s)
        | None \<Rightarrow> do {
            n \<leftarrow> node;
            r \<leftarrow> vop_open n open_flags s;
            if r \<noteq> 0 then do { (_, s) \<leftarrow> inode_ref_dec n s; Some (r, None, s) }
            else do {
              let s = snd (inode_open_inc n s);
              (r, s) \<leftarrow> (if open_flags AND O_TRUNC \<noteq> 0 \<or> create then vop_truncate n 0 s else Some (0, s));
              if r \<noteq> 0 then do {
                (_, s) \<leftarrow> inode_open_dec n s;
                (_, s) \<leftarrow> inode_ref_dec n s;
                Some (r, None, s) }
              else Some (0, Some n, s) } }) } }"

definition vfs_close :: "nat \<Rightarrow> fstate \<Rightarrow> fstate option" where
  "vfs_close n s = do {
     (_, s) \<leftarrow> inode_open_dec n s;
     (_, s) \<leftarrow> inode_ref_dec n s;
     Some s }"

text \<open>Not implemented in the kernel.\<close>

definition vfs_unlink :: "u8 list \<Rightarrow> int" where "vfs_unlink path = - E_UNIMP"
definition vfs_rename :: "u8 list \<Rightarrow> u8 list \<Rightarrow> int" where "vfs_rename old_path new_path = - E_UNIMP"
definition vfs_link :: "u8 list \<Rightarrow> u8 list \<Rightarrow> int" where "vfs_link old_path new_path = - E_UNIMP"

end
