(* ===== verification/File.thy ===== *)
theory File
  imports Vfs
begin

text \<open>
  The open files of a process: \<^verbatim>\<open>kern/fs/file.c\<close>, \<^verbatim>\<open>fs.c\<close> and the system calls of \<^verbatim>\<open>sysfile.c\<close>. A
  \<open>struct file *\<close> is the pair of the address of the \<open>files_struct\<close> and the index in its array, which has
  145 entries of 28 bytes in the rest of a page.
\<close>

unbundle bit_operations_syntax

section \<open>The table of open files (file.c)\<close>

definition FILES_STRUCT_BUFSIZE :: u32 where "FILES_STRUCT_BUFSIZE = PGSIZE - 24"
definition FILES_STRUCT_NENTRY :: u32 where "FILES_STRUCT_NENTRY = FILES_STRUCT_BUFSIZE div 28"
definition NO_FD :: int where "NO_FD = - 0x9527"

definition testfd :: "int \<Rightarrow> bool" where
  "testfd fd \<longleftrightarrow> fd \<ge> 0 \<and> fd < uint FILES_STRUCT_NENTRY"

type_synonym fileref = "nat \<times> nat"

definition get_file :: "fileref \<Rightarrow> fstate \<Rightarrow> open_file" where
  "get_file = (\<lambda>(p, i) s. fs_array (f_files s p) ! i)"

definition upd_file :: "fileref \<Rightarrow> (open_file \<Rightarrow> open_file) \<Rightarrow> fstate \<Rightarrow> fstate" where
  "upd_file = (\<lambda>(p, i) f. upd_files p (fs_array_update (\<lambda>a. a[i := f (a ! i)])))"

definition get_fd_array :: "fstate \<Rightarrow> nat option" where
  "get_fd_array s = do { p \<leftarrow> f_filesp s; kassert (fs_count (f_files s p) > 0); Some p }"

definition fd_array_init :: "open_file list \<Rightarrow> open_file list" where
  "fd_array_init a = map (\<lambda>(fd, f). f\<lparr>fl_open_count := 0, fl_status := FD_NONE, fl_fd := int fd\<rparr>) (enumerate 0 a)"

text \<open>The first free entry.\<close>

fun fd_array_find :: "open_file list \<Rightarrow> nat option" where
  "fd_array_find [] = None"
| "fd_array_find (f # fs) = (if fl_status f = FD_NONE then Some 0 else map_option Suc (fd_array_find fs))"

definition fd_array_alloc :: "int \<Rightarrow> fstate \<Rightarrow> (int \<times> fileref \<times> fstate) option" where
  "fd_array_alloc fd s = do {
     p \<leftarrow> get_fd_array s;
     let a = fs_array (f_files s p);
     let found =
       (if fd = NO_FD then (case fd_array_find a of Some i \<Rightarrow> (0, i) | None \<Rightarrow> (- E_MAX_OPEN, 0))
        else if testfd fd then (if fl_status (a ! nat fd) = FD_NONE then (0, nat fd) else (- E_BUSY, 0))
        else (- E_INVAL, 0));
     if fst found \<noteq> 0 then Some (fst found, (p, 0), s)
     else do {
       let i = snd found;
       kassert (fl_open_count (a ! i) = 0);
       Some (0, (p, i), upd_file (p, i) (\<lambda>f. f\<lparr>fl_status := FD_INIT, fl_node := None\<rparr>) s) } }"

definition fd_array_free :: "fileref \<Rightarrow> fstate \<Rightarrow> fstate option" where
  "fd_array_free r s = do {
     let f = get_file r s;
     kassert (fl_status f = FD_INIT \<or> fl_status f = FD_CLOSED);
     kassert (fl_open_count f = 0);
     s \<leftarrow> (if fl_status f = FD_CLOSED then do { n \<leftarrow> fl_node f; vfs_close n s } else Some s);
     Some (upd_file r (fl_status_update (\<lambda>_. FD_NONE)) s) }"

definition fd_array_acquire :: "fileref \<Rightarrow> fstate \<Rightarrow> fstate option" where
  "fd_array_acquire r s = do {
     kassert (fl_status (get_file r s) = FD_OPENED);
     Some (upd_file r (fl_open_count_update (\<lambda>c. c + 1)) s) }"

definition fd_array_release :: "fileref \<Rightarrow> fstate \<Rightarrow> fstate option" where
  "fd_array_release r s = do {
     let f = get_file r s;
     kassert (fl_status f = FD_OPENED \<or> fl_status f = FD_CLOSED);
     kassert (fl_open_count f > 0);
     let s = upd_file r (fl_open_count_update (\<lambda>c. c - 1)) s;
     if fl_open_count f - 1 = 0 then fd_array_free r s else Some s }"

definition fd_array_open :: "fileref \<Rightarrow> fstate \<Rightarrow> fstate option" where
  "fd_array_open r s = do {
     kassert (fl_status (get_file r s) = FD_INIT \<and> fl_node (get_file r s) \<noteq> None);
     Some (upd_file r (\<lambda>f. f\<lparr>fl_status := FD_OPENED, fl_open_count := fl_open_count f + 1\<rparr>) s) }"

definition fd_array_close :: "fileref \<Rightarrow> fstate \<Rightarrow> fstate option" where
  "fd_array_close r s = do {
     let f = get_file r s;
     kassert (fl_status f = FD_OPENED);
     kassert (fl_open_count f > 0);
     let s = upd_file r (\<lambda>f. f\<lparr>fl_status := FD_CLOSED, fl_open_count := fl_open_count f - 1\<rparr>) s;
     if fl_open_count f - 1 = 0 then fd_array_free r s else Some s }"

definition fd_array_dup :: "fileref \<Rightarrow> fileref \<Rightarrow> fstate \<Rightarrow> fstate option" where
  "fd_array_dup dst src s = do {
     let f = get_file src s;
     kassert (fl_status (get_file dst s) = FD_INIT \<and> fl_status f = FD_OPENED);
     n \<leftarrow> fl_node f;
     let s = upd_file dst (\<lambda>g. g\<lparr>fl_pos := fl_pos f, fl_readable := fl_readable f, fl_writable := fl_writable f\<rparr>) s;
     let s = snd (inode_open_inc n (snd (inode_ref_inc n s)));
     fd_array_open dst (upd_file dst (fl_node_update (\<lambda>_. Some n)) s) }"

definition fd2file :: "int \<Rightarrow> fstate \<Rightarrow> (int \<times> fileref) option" where
  "fd2file fd s =
     (if testfd fd then do {
        p \<leftarrow> get_fd_array s;
        let f = get_file (p, nat fd) s;
        Some (if fl_status f = FD_OPENED \<and> fl_fd f = fd then 0 else - E_INVAL, (p, nat fd)) }
      else Some (- E_INVAL, (0, 0)))"

definition file_testfd :: "int \<Rightarrow> bool \<Rightarrow> bool \<Rightarrow> fstate \<Rightarrow> bool option" where
  "file_testfd fd readable writable s = do {
     (r, fr) \<leftarrow> fd2file fd s;
     let f = get_file fr s;
     Some (r = 0 \<and> (readable \<longrightarrow> fl_readable f) \<and> (writable \<longrightarrow> fl_writable f)) }"

definition file_open :: "u8 list \<Rightarrow> u32 \<Rightarrow> fstate \<Rightarrow> (int \<times> fstate) option" where
  "file_open path open_flags s = do {
     let acc = open_flags AND O_ACCMODE;
     let readable = (acc = O_RDONLY \<or> acc = O_RDWR);
     let writable = (acc = O_WRONLY \<or> acc = O_RDWR);
     if \<not> readable \<and> \<not> writable then Some (- E_INVAL, s)
     else do {
       (r, fr, s) \<leftarrow> fd_array_alloc NO_FD s;
       if r \<noteq> 0 then Some (r, s)
       else do {
         (r, node, s) \<leftarrow> vfs_open path open_flags s;
         if r \<noteq> 0 then do { s \<leftarrow> fd_array_free fr s; Some (r, s) }
         else do {
           n \<leftarrow> node;
           let s = upd_file fr (fl_pos_update (\<lambda>_. 0)) s;
           (r, stat) \<leftarrow> (if open_flags AND O_APPEND \<noteq> 0 then vop_fstat n s else Some (0, stat_zero));
           if r \<noteq> 0 then do { s \<leftarrow> vfs_close n s; s \<leftarrow> fd_array_free fr s; Some (r, s) }
           else do {
             let s = upd_file fr (\<lambda>f. f\<lparr>fl_pos := (if open_flags AND O_APPEND \<noteq> 0 then st_size stat else fl_pos f),
                       fl_node := Some n, fl_readable := readable, fl_writable := writable\<rparr>) s;
             s \<leftarrow> fd_array_open fr s;
             Some (fl_fd (get_file fr s), s) } } } } }"

definition file_close :: "int \<Rightarrow> fstate \<Rightarrow> (int \<times> fstate) option" where
  "file_close fd s = do {
     (r, fr) \<leftarrow> fd2file fd s;
     if r \<noteq> 0 then Some (r, s) else do { s \<leftarrow> fd_array_close fr s; Some (0, s) } }"

text \<open>After a transfer: the position of an open file moves on by what was copied.\<close>

definition file_advance :: "fileref \<Rightarrow> u32 \<Rightarrow> fstate \<Rightarrow> fstate option" where
  "file_advance fr copied s =
     fd_array_release fr
       (if fl_status (get_file fr s) = FD_OPENED then upd_file fr (fl_pos_update (\<lambda>p. p + copied)) s else s)"

text \<open>The results are the return value, \<open>*copied_store\<close> and the state.\<close>

definition file_read :: "sleeper \<Rightarrow> int \<Rightarrow> u32 \<Rightarrow> u32 \<Rightarrow> fstate \<Rightarrow> (int \<times> u32 \<times> fstate) option" where
  "file_read sleep fd base len s = do {
     (r, fr) \<leftarrow> fd2file fd s;
     if r \<noteq> 0 then Some (r, 0, s)
     else if \<not> fl_readable (get_file fr s) then Some (- E_INVAL, 0, s)
     else do {
       s \<leftarrow> fd_array_acquire fr s;
       n \<leftarrow> fl_node (get_file fr s);
       (r, iob, s) \<leftarrow> vop_read sleep n (iobuf_init base len (fl_pos (get_file fr s))) s;
       s \<leftarrow> file_advance fr (iobuf_used iob) s;
       Some (r, iobuf_used iob, s) } }"

definition file_write :: "sleeper \<Rightarrow> int \<Rightarrow> u32 \<Rightarrow> u32 \<Rightarrow> fstate \<Rightarrow> (int \<times> u32 \<times> fstate) option" where
  "file_write sleep fd base len s = do {
     (r, fr) \<leftarrow> fd2file fd s;
     if r \<noteq> 0 then Some (r, 0, s)
     else if \<not> fl_writable (get_file fr s) then Some (- E_INVAL, 0, s)
     else do {
       s \<leftarrow> fd_array_acquire fr s;
       n \<leftarrow> fl_node (get_file fr s);
       (r, iob, s) \<leftarrow> vop_write sleep n (iobuf_init base len (fl_pos (get_file fr s))) s;
       s \<leftarrow> file_advance fr (iobuf_used iob) s;
       Some (r, iobuf_used iob, s) } }"

definition LSEEK_SET :: int where "LSEEK_SET = 0"
definition LSEEK_CUR :: int where "LSEEK_CUR = 1"
definition LSEEK_END :: int where "LSEEK_END = 2"

definition file_seek :: "int \<Rightarrow> u32 \<Rightarrow> int \<Rightarrow> fstate \<Rightarrow> (int \<times> fstate) option" where
  "file_seek fd pos whence s = do {
     (r, fr) \<leftarrow> fd2file fd s;
     if r \<noteq> 0 then Some (r, s)
     else do {
       s \<leftarrow> fd_array_acquire fr s;
       n \<leftarrow> fl_node (get_file fr s);
       (r, pos) \<leftarrow>
         (if whence = LSEEK_SET then Some (0, pos)
          else if whence = LSEEK_CUR then Some (0, pos + fl_pos (get_file fr s))
          else if whence = LSEEK_END then do {
            (r, stat) \<leftarrow> vop_fstat n s;
            Some (r, if r = 0 then pos + st_size stat else pos) }
          else Some (- E_INVAL, pos));
       (r, s) \<leftarrow>
         (if r = 0 then do {
            (r, s) \<leftarrow> vop_tryseek n pos s;
            Some (r, if r = 0 then upd_file fr (fl_pos_update (\<lambda>_. pos)) s else s) }
          else Some (r, s));
       s \<leftarrow> fd_array_release fr s;
       Some (r, s) } }"

definition file_fstat :: "int \<Rightarrow> fstate \<Rightarrow> (int \<times> stat \<times> fstate) option" where
  "file_fstat fd s = do {
     (r, fr) \<leftarrow> fd2file fd s;
     if r \<noteq> 0 then Some (r, stat_zero, s)
     else do {
       s \<leftarrow> fd_array_acquire fr s;
       n \<leftarrow> fl_node (get_file fr s);
       (r, stat) \<leftarrow> vop_fstat n s;
       s \<leftarrow> fd_array_release fr s;
       Some (r, stat, s) } }"

definition file_fsync :: "int \<Rightarrow> fstate \<Rightarrow> (int \<times> fstate) option" where
  "file_fsync fd s = do {
     (r, fr) \<leftarrow> fd2file fd s;
     if r \<noteq> 0 then Some (r, s)
     else do {
       s \<leftarrow> fd_array_acquire fr s;
       n \<leftarrow> fl_node (get_file fr s);
       (r, s) \<leftarrow> vop_fsync n s;
       s \<leftarrow> fd_array_release fr s;
       Some (r, s) } }"

text \<open>\<open>direntp\<close> is the kernel address of a \<open>struct dirent\<close>: the offset, and the name 4 bytes on.\<close>

definition rd_mem32 :: "u32 \<Rightarrow> fstate \<Rightarrow> u32" where
  "rd_mem32 p s = rd32 (bytes_at (f_mem s) p 4) 0"

definition file_getdirentry :: "int \<Rightarrow> u32 \<Rightarrow> fstate \<Rightarrow> (int \<times> fstate) option" where
  "file_getdirentry fd direntp s = do {
     (r, fr) \<leftarrow> fd2file fd s;
     if r \<noteq> 0 then Some (r, s)
     else do {
       s \<leftarrow> fd_array_acquire fr s;
       n \<leftarrow> fl_node (get_file fr s);
       (r, iob, s) \<leftarrow> vop_getdirentry n (iobuf_init (direntp + 4) 256 (rd_mem32 direntp s)) s;
       let s = (if r = 0 then s\<lparr>f_mem := put_bytes direntp (le32 (rd_mem32 direntp s + iobuf_used iob)) (f_mem s)\<rparr> else s);
       s \<leftarrow> fd_array_release fr s;
       Some (r, s) } }"

definition file_dup :: "int \<Rightarrow> int \<Rightarrow> fstate \<Rightarrow> (int \<times> fstate) option" where
  "file_dup fd1 fd2 s = do {
     (r, file1) \<leftarrow> fd2file fd1 s;
     if r \<noteq> 0 then Some (r, s)
     else do {
       (r, file2, s) \<leftarrow> fd_array_alloc fd2 s;
       if r \<noteq> 0 then Some (r, s)
       else do {
         s \<leftarrow> fd_array_dup file2 file1 s;
         Some (fl_fd (get_file file2 s), s) } } }"

section \<open>The files of a process (fs.c)\<close>

text \<open>The other fields of a new table are whatever \<open>kmalloc\<close> left there: \<open>junk\<close>.\<close>

definition files_create :: "open_file list \<Rightarrow> fstate \<Rightarrow> (nat option \<times> fstate) option" where
  "files_create junk s = do {
     (p, s) \<leftarrow> kalloc (24 + FILES_STRUCT_BUFSIZE) s;
     if p = 0 then Some (None, s)
     else Some (Some (unat p), upd_files (unat p) (\<lambda>_. \<lparr>fs_pwd = None, fs_array = fd_array_init junk,
                                 fs_count = 0, fs_sem = 1\<rparr>) s) }"

text \<open>The loops over the entries \<open>i, \<dots>, i + k - 1\<close>.\<close>

fun files_destroy_loop :: "nat \<Rightarrow> nat \<Rightarrow> nat \<Rightarrow> fstate \<Rightarrow> fstate option" where
  "files_destroy_loop p i 0 s = Some s"
| "files_destroy_loop p i (Suc k) s = do {
     s \<leftarrow> (if fl_status (get_file (p, i) s) = FD_OPENED then fd_array_close (p, i) s else Some s);
     kassert (fl_status (get_file (p, i) s) = FD_NONE);
     files_destroy_loop p (i + 1) k s }"

definition files_destroy :: "nat \<Rightarrow> fstate \<Rightarrow> fstate option" where
  "files_destroy p s = do {
     kassert (fs_count (f_files s p) = 0);
     s \<leftarrow> (case fs_pwd (f_files s p) of Some n \<Rightarrow> map_option snd (inode_ref_dec n s) | None \<Rightarrow> Some s);
     s \<leftarrow> files_destroy_loop p 0 (unat FILES_STRUCT_NENTRY) s;
     kfree_fs (of_nat p) s }"

fun files_closeall_loop :: "nat \<Rightarrow> nat \<Rightarrow> nat \<Rightarrow> fstate \<Rightarrow> fstate option" where
  "files_closeall_loop p i 0 s = Some s"
| "files_closeall_loop p i (Suc k) s = do {
     s \<leftarrow> (if fl_status (get_file (p, i) s) = FD_OPENED then fd_array_close (p, i) s else Some s);
     files_closeall_loop p (i + 1) k s }"

definition files_closeall :: "nat \<Rightarrow> fstate \<Rightarrow> fstate option" where
  "files_closeall p s = do {
     kassert (fs_count (f_files s p) > 0);
     files_closeall_loop p 2 (unat FILES_STRUCT_NENTRY - 2) s }"

fun dup_files_loop :: "nat \<Rightarrow> nat \<Rightarrow> nat \<Rightarrow> nat \<Rightarrow> fstate \<Rightarrow> fstate option" where
  "dup_files_loop dst src i 0 s = Some s"
| "dup_files_loop dst src i (Suc k) s = do {
     s \<leftarrow> (if fl_status (get_file (src, i) s) = FD_OPENED
            then fd_array_dup (dst, i) (src, i) (upd_file (dst, i) (fl_status_update (\<lambda>_. FD_INIT)) s)
            else Some s);
     dup_files_loop dst src (i + 1) k s }"

definition dup_files :: "nat \<Rightarrow> nat \<Rightarrow> fstate \<Rightarrow> (int \<times> fstate) option" where
  "dup_files dst src s = do {
     kassert (fs_count (f_files s dst) = 0 \<and> fs_count (f_files s src) > 0);
     let pwd = fs_pwd (f_files s src);
     let s = upd_files dst (fs_pwd_update (\<lambda>_. pwd)) s;
     let s = (case pwd of Some n \<Rightarrow> snd (inode_ref_inc n s) | None \<Rightarrow> s);
     s \<leftarrow> dup_files_loop dst src 0 (unat FILES_STRUCT_NENTRY) s;
     Some (0, s) }"

section \<open>The system calls (sysfile.c)\<close>

definition lock_cur_mm :: "fstate \<Rightarrow> fstate option" where
  "lock_cur_mm s =
     (case f_mm s of
        None \<Rightarrow> Some s
      | Some m \<Rightarrow> do {
          kassert (f_mm_sem s > 0);
          Some (s\<lparr>f_mm_sem := f_mm_sem s - 1, f_vm := upd_mm m (locked_by_update (\<lambda>_. f_pid s)) (f_vm s)\<rparr>) })"

definition unlock_cur_mm :: "fstate \<Rightarrow> fstate" where
  "unlock_cur_mm s =
     (case f_mm s of
        None \<Rightarrow> s
      | Some m \<Rightarrow> s\<lparr>f_mm_sem := f_mm_sem s + 1, f_vm := upd_mm m (locked_by_update (\<lambda>_. 0)) (f_vm s)\<rparr>)"

definition copy_in :: "u32 \<Rightarrow> u32 \<Rightarrow> u32 \<Rightarrow> bool \<Rightarrow> fstate \<Rightarrow> (bool \<times> fstate) option" where
  "copy_in dst src len writable s = do {
     (ok, m, v) \<leftarrow> copy_from_user (f_mm s) dst src len writable (f_mem s) (f_vm s);
     Some (ok, s\<lparr>f_mem := m, f_vm := v\<rparr>) }"

definition copy_out :: "u32 \<Rightarrow> u32 \<Rightarrow> u32 \<Rightarrow> fstate \<Rightarrow> (bool \<times> fstate) option" where
  "copy_out dst src len s = do {
     (ok, m, v) \<leftarrow> copy_to_user (f_mm s) dst src len (f_mem s) (f_vm s);
     Some (ok, s\<lparr>f_mem := m, f_vm := v\<rparr>) }"

definition FS_MAX_FPATH_LEN :: u32 where "FS_MAX_FPATH_LEN = 4095"

text \<open>The results are the return value, the kernel copy of the path and the state; \<open>path_at\<close> is the
  string at an address.\<close>

definition copy_path :: "u32 \<Rightarrow> fstate \<Rightarrow> (int \<times> u32 \<times> fstate) option" where
  "copy_path from' s = do {
     (buffer, s) \<leftarrow> kalloc (FS_MAX_FPATH_LEN + 1) s;
     if buffer = 0 then Some (- E_NO_MEM, 0, s)
     else do {
       s \<leftarrow> lock_cur_mm s;
       (ok, m, v) \<leftarrow> copy_string (f_mm s) buffer from' (FS_MAX_FPATH_LEN + 1) (f_mem s) (f_vm s);
       let s = unlock_cur_mm (s\<lparr>f_mem := m, f_vm := v\<rparr>);
       if ok then Some (0, buffer, s)
       else do { s \<leftarrow> kfree_fs buffer s; Some (- E_INVAL, 0, s) } } }"

definition path_at :: "u32 \<Rightarrow> fstate \<Rightarrow> u8 list option" where
  "path_at p s = do { n \<leftarrow> strlen (f_mem s) p; Some (bytes_at (f_mem s) p (unat n)) }"

definition sysfile_open :: "u32 \<Rightarrow> u32 \<Rightarrow> fstate \<Rightarrow> (int \<times> fstate) option" where
  "sysfile_open upath open_flags s = do {
     (r, p, s) \<leftarrow> copy_path upath s;
     if r \<noteq> 0 then Some (r, s)
     else do {
       path \<leftarrow> path_at p s;
       (r, s) \<leftarrow> file_open path open_flags s;
       s \<leftarrow> kfree_fs p s;
       Some (r, s) } }"

definition sysfile_close :: "int \<Rightarrow> fstate \<Rightarrow> (int \<times> fstate) option" where
  "sysfile_close fd s = file_close fd s"

definition IOBUF_SIZE :: u32 where "IOBUF_SIZE = 4096"

text \<open>The loops of \<open>sysfile_read\<close> and \<open>sysfile_write\<close>: \<open>copied\<close> bytes are done, \<open>len\<close> are left. They return
  the last error, the number of bytes copied and the state.\<close>

partial_function (option) sysfile_read_loop ::
  "sleeper \<Rightarrow> int \<Rightarrow> u32 \<Rightarrow> u32 \<Rightarrow> u32 \<Rightarrow> u32 \<Rightarrow> int \<Rightarrow> fstate \<Rightarrow> (int \<times> u32 \<times> fstate) option" where
  "sysfile_read_loop sleep fd buffer base len copied ret s =
     (if len = 0 then Some (ret, copied, s)
      else do {
        let alen = (if IOBUF_SIZE > len then len else IOBUF_SIZE);
        (ret, alen, s) \<leftarrow> file_read sleep fd buffer alen s;
        (ret, base, len, copied, s) \<leftarrow>
          (if alen \<noteq> 0 then do {
             s \<leftarrow> lock_cur_mm s;
             (ok, s) \<leftarrow> copy_out base buffer alen s;
             (if ok then do {
                kassert (len \<ge> alen);
                Some (ret, base + alen, len - alen, copied + alen, unlock_cur_mm s) }
              else Some (if ret = 0 then - E_INVAL else ret, base, len, copied, unlock_cur_mm s)) }
           else Some (ret, base, len, copied, s));
        if ret \<noteq> 0 \<or> alen = 0 then Some (ret, copied, s)
        else sysfile_read_loop sleep fd buffer base len copied ret s })"

definition sysfile_read :: "sleeper \<Rightarrow> int \<Rightarrow> u32 \<Rightarrow> u32 \<Rightarrow> fstate \<Rightarrow> (int \<times> fstate) option" where
  "sysfile_read sleep fd base len s =
     (if len = 0 then Some (0, s)
      else do {
        ok \<leftarrow> file_testfd fd True False s;
        if \<not> ok then Some (- E_INVAL, s)
        else do {
          (buffer, s) \<leftarrow> kalloc IOBUF_SIZE s;
          if buffer = 0 then Some (- E_NO_MEM, s)
          else do {
            (ret, copied, s) \<leftarrow> sysfile_read_loop sleep fd buffer base len 0 0 s;
            s \<leftarrow> kfree_fs buffer s;
            Some (if copied \<noteq> 0 then sint copied else ret, s) } } })"

partial_function (option) sysfile_write_loop ::
  "sleeper \<Rightarrow> int \<Rightarrow> u32 \<Rightarrow> u32 \<Rightarrow> u32 \<Rightarrow> u32 \<Rightarrow> int \<Rightarrow> fstate \<Rightarrow> (int \<times> u32 \<times> fstate) option" where
  "sysfile_write_loop sleep fd buffer base len copied ret s =
     (if len = 0 then Some (ret, copied, s)
      else do {
        let alen = (if IOBUF_SIZE > len then len else IOBUF_SIZE);
        s \<leftarrow> lock_cur_mm s;
        (ok, s) \<leftarrow> copy_in buffer base alen False s;
        let s = unlock_cur_mm s;
        let ret = (if ok then ret else - E_INVAL);
        (ret, alen, base, len, copied, s) \<leftarrow>
          (if ret = 0 then do {
             (ret, alen, s) \<leftarrow> file_write sleep fd buffer alen s;
             if alen \<noteq> 0 then do {
               kassert (len \<ge> alen);
               Some (ret, alen, base + alen, len - alen, copied + alen, s) }
             else Some (ret, alen, base, len, copied, s) }
           else Some (ret, alen, base, len, copied, s));
        if ret \<noteq> 0 \<or> alen = 0 then Some (ret, copied, s)
        else sysfile_write_loop sleep fd buffer base len copied ret s })"

definition sysfile_write :: "sleeper \<Rightarrow> int \<Rightarrow> u32 \<Rightarrow> u32 \<Rightarrow> fstate \<Rightarrow> (int \<times> fstate) option" where
  "sysfile_write sleep fd base len s =
     (if len = 0 then Some (0, s)
      else do {
        ok \<leftarrow> file_testfd fd False True s;
        if \<not> ok then Some (- E_INVAL, s)
        else do {
          (buffer, s) \<leftarrow> kalloc IOBUF_SIZE s;
          if buffer = 0 then Some (- E_NO_MEM, s)
          else do {
            (ret, copied, s) \<leftarrow> sysfile_write_loop sleep fd buffer base len 0 0 s;
            s \<leftarrow> kfree_fs buffer s;
            Some (if copied \<noteq> 0 then sint copied else ret, s) } } })"

definition sysfile_seek :: "int \<Rightarrow> u32 \<Rightarrow> int \<Rightarrow> fstate \<Rightarrow> (int \<times> fstate) option" where
  "sysfile_seek fd pos whence s = file_seek fd pos whence s"

text \<open>The four words of a \<open>struct stat\<close>; \<open>p\<close> is the address of the local one.\<close>

definition put_stat :: "stat \<Rightarrow> u8 list" where
  "put_stat st = le32 (st_mode st) @ le32 (st_nlinks st) @ le32 (st_blocks st) @ le32 (st_size st)"

definition sysfile_fstat :: "u32 \<Rightarrow> int \<Rightarrow> u32 \<Rightarrow> fstate \<Rightarrow> (int \<times> fstate) option" where
  "sysfile_fstat p fd ustat s = do {
     (r, stat, s) \<leftarrow> file_fstat fd s;
     if r \<noteq> 0 then Some (r, s)
     else do {
       s \<leftarrow> lock_cur_mm (s\<lparr>f_mem := put_bytes p (put_stat stat) (f_mem s)\<rparr>);
       (ok, s) \<leftarrow> copy_out ustat p 16 s;
       Some (if ok then 0 else - E_INVAL, unlock_cur_mm s) } }"

definition sysfile_fsync :: "int \<Rightarrow> fstate \<Rightarrow> (int \<times> fstate) option" where
  "sysfile_fsync fd s = file_fsync fd s"

definition sysfile_chdir :: "u32 \<Rightarrow> fstate \<Rightarrow> (int \<times> fstate) option" where
  "sysfile_chdir upath s = do {
     (r, p, s) \<leftarrow> copy_path upath s;
     if r \<noteq> 0 then Some (r, s)
     else do {
       path \<leftarrow> path_at p s;
       (r, s) \<leftarrow> vfs_chdir path s;
       s \<leftarrow> kfree_fs p s;
       Some (r, s) } }"

text \<open>\<open>sysfile_link\<close> and \<open>sysfile_rename\<close> differ in the operation they call.\<close>

definition sysfile_two_paths :: "(u8 list \<Rightarrow> u8 list \<Rightarrow> int) \<Rightarrow> u32 \<Rightarrow> u32 \<Rightarrow> fstate \<Rightarrow> (int \<times> fstate) option" where
  "sysfile_two_paths f upath1 upath2 s = do {
     (r, p, s) \<leftarrow> copy_path upath1 s;
     if r \<noteq> 0 then Some (r, s)
     else do {
       (r, q, s) \<leftarrow> copy_path upath2 s;
       if r \<noteq> 0 then do { s \<leftarrow> kfree_fs p s; Some (r, s) }
       else do {
         old_path \<leftarrow> path_at p s;
         new_path \<leftarrow> path_at q s;
         s \<leftarrow> kfree_all [p, q] s;
         Some (f old_path new_path, s) } } }"

definition sysfile_link :: "u32 \<Rightarrow> u32 \<Rightarrow> fstate \<Rightarrow> (int \<times> fstate) option" where
  "sysfile_link = sysfile_two_paths vfs_link"

definition sysfile_rename :: "u32 \<Rightarrow> u32 \<Rightarrow> fstate \<Rightarrow> (int \<times> fstate) option" where
  "sysfile_rename = sysfile_two_paths vfs_rename"

definition sysfile_unlink :: "u32 \<Rightarrow> fstate \<Rightarrow> (int \<times> fstate) option" where
  "sysfile_unlink upath s = do {
     (r, p, s) \<leftarrow> copy_path upath s;
     if r \<noteq> 0 then Some (r, s)
     else do {
       path \<leftarrow> path_at p s;
       s \<leftarrow> kfree_fs p s;
       Some (vfs_unlink path, s) } }"

definition sysfile_getcwd :: "u32 \<Rightarrow> u32 \<Rightarrow> u32 \<Rightarrow> fstate \<Rightarrow> (int \<times> fstate) option" where
  "sysfile_getcwd p buf len s =
     (if len = 0 then Some (- E_INVAL, s)
      else do {
        s \<leftarrow> lock_cur_mm s;
        (ok, v) \<leftarrow> user_mem_check (f_mm s) buf len True (f_vm s);
        let s = s\<lparr>f_vm := v\<rparr>;
        (r, s) \<leftarrow>
          (if ok then do { (r, _, s) \<leftarrow> vfs_getcwd p (iobuf_init buf len 0) s; Some (r, s) }
           else Some (- E_INVAL, s));
        Some (r, unlock_cur_mm s) })"

text \<open>\<open>struct dirent\<close> has 260 bytes, the offset first.\<close>

definition sysfile_getdirentry :: "int \<Rightarrow> u32 \<Rightarrow> fstate \<Rightarrow> (int \<times> fstate) option" where
  "sysfile_getdirentry fd udirentp s = do {
     (direntp, s) \<leftarrow> kalloc 260 s;
     if direntp = 0 then Some (- E_NO_MEM, s)
     else do {
       s \<leftarrow> lock_cur_mm s;
       (ok, s) \<leftarrow> copy_in direntp udirentp 4 True s;
       let s = unlock_cur_mm s;
       (r, s) \<leftarrow> (if ok then file_getdirentry fd direntp s else Some (- E_INVAL, s));
       if r \<noteq> 0 then do { s \<leftarrow> kfree_fs direntp s; Some (r, s) }
       else do {
         s \<leftarrow> lock_cur_mm s;
         (ok, s) \<leftarrow> copy_out udirentp direntp 260 s;
         s \<leftarrow> kfree_fs direntp (unlock_cur_mm s);
         Some (if ok then 0 else - E_INVAL, s) } } }"

definition sysfile_dup :: "int \<Rightarrow> int \<Rightarrow> fstate \<Rightarrow> (int \<times> fstate) option" where
  "sysfile_dup fd1 fd2 s = file_dup fd1 fd2 s"

definition sysfile_pipe :: int where "sysfile_pipe = - E_UNIMP"
definition sysfile_mkfifo :: int where "sysfile_mkfifo = - E_UNIMP"

end
