(* ===== verification/SfsSpace.thy ===== *)
theory SfsSpace
  imports SfsNode
begin

text \<open>
  What SFS keeps of its disk: block I/O on a mounted file system, the free blocks and the superblock's
  counter, resizing a file, and reading one. The invariant is \<open>space_ok\<close>; a file is described by
  \<open>small_file\<close>, which holds as long as it needs no indirect block (12 blocks). Larger files are not
  described: what the code writes into an indirect block is lost.
\<close>

unbundle bit_operations_syntax

section \<open>Block I/O on the disk\<close>

text \<open>\<open>sfs_dev_ok s\<close>: the file system lies on the disk driver and its blocks exist there; \<open>sfs_ready s\<close>: also,
  nobody holds the I/O lock.\<close>

definition sfs_dev_ok :: "fstate \<Rightarrow> bool" where
  "sfs_dev_ok s \<longleftrightarrow> d_ops (sf_dev (f_sfs s)) = Disk0Ops \<and>
     su_blocks (sf_super (f_sfs s)) \<le> d_blocks (sf_dev (f_sfs s)) \<and> d_blocks (sf_dev (f_sfs s)) < 0x100000"

definition sfs_ready :: "fstate \<Rightarrow> bool" where
  "sfs_ready s \<longleftrightarrow> sfs_dev_ok s \<and> sf_io_sem (f_sfs s) > 0"

definition sfs_blkno :: "fstate \<Rightarrow> u32 \<Rightarrow> bool" where
  "sfs_blkno s b \<longleftrightarrow> 0 < b \<and> b < su_blocks (sf_super (f_sfs s))"

lemma block_offset:
  "(b :: u32) < 0x100000 \<Longrightarrow> b * 4096 div 4096 = b" "(b :: u32) < 0x100000 \<Longrightarrow> b * 4096 mod 4096 = 0"
proof -
  assume b: "b < 0x100000"
  then have u: "unat (b * 4096) = unat b * 4096"
    by (subst unat_mult_lem [THEN iffD1]) (simp_all add: word_less_nat_alt)
  show "b * 4096 div 4096 = b" "b * 4096 mod 4096 = 0"
    by (simp_all add: word_unat_eq_iff unat_word_div unat_word_mod u)
qed

lemma block_no_wrap: "(b :: u32) < n \<Longrightarrow> n < 0x100000 \<Longrightarrow> \<not> b + 1 > n"
proof -
  assume a: "b < n" "n < 0x100000"
  then have "unat (b + 1) = unat b + 1"
    by (subst unat_add_lem [THEN iffD1]) (simp_all add: word_less_nat_alt)
  with a show ?thesis by (simp add: word_less_nat_alt)
qed

lemma disk0_io_block:
  assumes "b < n" "n < 0x100000"
  shows "disk0_io n (b * SFS_BLKSIZE) SFS_BLKSIZE write data disk = (0, if write then [] else disk b, disk)"
  using block_offset [of b] block_no_wrap [OF assms] assms
  by (simp add: disk0_io_def SFS_BLKSIZE_def DISK0_BLKSIZE_def PGSIZE_def disk0_io_loop.simps
      disk0_write_blks_nolock_def disk0_read_blks_nolock_def)

lemma rwblock_ok:
  assumes "sfs_dev_ok s" "b < su_blocks (sf_super (f_sfs s))" "check \<longrightarrow> b \<noteq> 0"
  shows "sfs_rwblock_nolock data b write check s = Some (0, if write then [] else f_disk s b, s)"
proof -
  have b: "b < d_blocks (sf_dev (f_sfs s))" "d_blocks (sf_dev (f_sfs s)) < 0x100000" "d_ops (sf_dev (f_sfs s)) = Disk0Ops"
    using assms by (auto simp: sfs_dev_ok_def)
  show ?thesis
    using assms by (auto simp: sfs_rwblock_nolock_def block_io_def b disk0_io_block [OF b(1,2)] kassert_def)
qed

text \<open>The I/O lock and its release cancel.\<close>

definition io_locked :: "fstate \<Rightarrow> fstate" where
  "io_locked = upd_sfs (sf_io_sem_update (\<lambda>n. n - 1))"

lemma io_lock [simp]:
  "sfs_ready s \<Longrightarrow> lock_sfs_io s = Some (io_locked s)" "unlock_sfs_io (io_locked s) = s"
  "sfs_dev_ok (io_locked s) = sfs_dev_ok s" "f_disk (io_locked s) = f_disk s"
  "sf_super (f_sfs (io_locked s)) = sf_super (f_sfs s)"
  by (simp_all add: lock_sfs_io_def sfs_ready_def unlock_sfs_io_def io_locked_def upd_sfs_def kassert_def sfs_dev_ok_def)

lemma ready_dev [simp]: "sfs_ready s \<Longrightarrow> sfs_dev_ok s"
  by (simp add: sfs_ready_def)

lemma blkno_simps [simp]: "sfs_blkno (io_locked s) b = sfs_blkno s b"
  by (simp add: sfs_blkno_def)

lemma rwblock_blkno [simp]:
  "sfs_dev_ok s \<Longrightarrow> sfs_blkno s b \<Longrightarrow>
   sfs_rwblock_nolock data b write True s = Some (0, if write then [] else f_disk s b, s)"
  by (simp add: rwblock_ok sfs_blkno_def word_gt_0)

text \<open>Reading part of a block gives the bytes on the disk; writing one, clearing one, and writing whole blocks
  report success and change nothing: the driver drops what it is given.\<close>

lemma sfs_rbuf_ready [simp]:
  "sfs_ready s \<Longrightarrow> sfs_blkno s b \<Longrightarrow> off < 4096 \<Longrightarrow> off + len \<le> 4096 \<Longrightarrow>
   sfs_rbuf len b off s = Some (0, take (unat len) (drop (unat off) (f_disk s b)), s)"
  by (simp add: sfs_rbuf_def kassert_def SFS_BLKSIZE_def PGSIZE_def)

lemma sfs_wbuf_ready [simp]:
  "sfs_ready s \<Longrightarrow> sfs_blkno s b \<Longrightarrow> off < 4096 \<Longrightarrow> off + of_nat (length data) \<le> 4096 \<Longrightarrow>
   sfs_wbuf data b off s = Some (0, s)"
  by (simp add: sfs_wbuf_def kassert_def SFS_BLKSIZE_def PGSIZE_def)

lemma sfs_clear_block_ready [simp]: "sfs_ready s \<Longrightarrow> sfs_blkno s b \<Longrightarrow> sfs_clear_block b 1 s = Some (0, s)"
  by (simp add: sfs_clear_block_def kassert_def)

lemma rwblock_loop_ready:
  assumes "sfs_dev_ok s"
  shows "(\<forall>i < n. sfs_blkno s (b + of_nat i)) \<Longrightarrow>
    sfs_rwblock_loop data b n write s =
      Some (0, if write then [] else concat (map (\<lambda>i. f_disk s (b + of_nat i)) [0 ..< n]), s)"
proof (induction n arbitrary: b data)
  case (Suc n)
  have "sfs_blkno s b" using Suc.prems [rule_format, of 0] by simp
  moreover have "sfs_blkno s ((b + 1) + of_nat i)" if "i < n" for i
    using Suc.prems [rule_format, of "Suc i"] that by (simp add: add.assoc)
  ultimately show ?case
    using assms by (simp add: Suc.IH map_upt_Suc add.assoc del: upt_Suc)
qed simp
section \<open>Free blocks\<close>

text \<open>\<open>disk_free s\<close>: the blocks that the map says are free; \<open>space_ok s\<close>: they are blocks of the file system other
  than the superblock, and the superblock counts them.\<close>

definition disk_free :: "fstate \<Rightarrow> nat set" where
  "disk_free s = bm_free (sf_freemap (f_sfs s))"

definition space_ok :: "fstate \<Rightarrow> bool" where
  "space_ok s \<longleftrightarrow> sfs_ready s \<and> bitmap_ok (sf_freemap (f_sfs s)) \<and>
     disk_free s \<subseteq> {0 <..< unat (su_blocks (sf_super (f_sfs s)))} \<and>
     unat (su_blocks (sf_super (f_sfs s))) \<le> unat (nbits (sf_freemap (f_sfs s))) \<and>
     unat (su_unused_blocks (sf_super (f_sfs s))) = card (disk_free s)"

text \<open>\<open>space_step s s'\<close>: only the map of free blocks and the superblock's counter and flag changed.\<close>

definition space_step :: "fstate \<Rightarrow> fstate \<Rightarrow> bool" where
  "space_step s s' \<longleftrightarrow> (\<exists>fm su d. su_blocks su = su_blocks (sf_super (f_sfs s)) \<and>
     s' = upd_sfs (\<lambda>f. f\<lparr>sf_freemap := fm, sf_super := su, sf_super_dirty := d\<rparr>) s)"

lemma space_stepD:
  assumes "space_step s s'"
  shows "f_inodes s' = f_inodes s" "f_disk s' = f_disk s" "sfs_blkno s' = sfs_blkno s" "sin n s' = sin n s"
    "f_vm s' = f_vm s" "f_links s' = f_links s" "sf_fs_sem (f_sfs s') = sf_fs_sem (f_sfs s)"
  using assms by (auto simp: space_step_def upd_sfs_def sfs_blkno_def sin_def fun_eq_iff)

lemma space_okD:
  assumes "space_ok s"
  shows "sfs_ready s" "bitmap_ok (sf_freemap (f_sfs s))" "finite (disk_free s)"
    "i \<in> disk_free s \<Longrightarrow> 0 < i \<and> i < unat (su_blocks (sf_super (f_sfs s)))"
    "unat (su_unused_blocks (sf_super (f_sfs s))) = card (disk_free s)"
  using assms by (auto simp: space_ok_def disk_free_def)

lemma block_inuse:
  assumes "space_ok s"
  shows "assert_inuse b s = (if sfs_blkno s b \<and> unat b \<notin> disk_free s then Some () else None)"
proof -
  have "unat b < unat (nbits (sf_freemap (f_sfs s)))" if "sfs_blkno s b"
    using that assms by (auto simp: sfs_blkno_def space_ok_def word_less_nat_alt)
  then show ?thesis
    by (auto simp: assert_inuse_def sfs_block_inuse_def bitmap_test_spec disk_free_def sfs_blkno_def kassert_def word_gt_0)
qed

text \<open>The state after an allocation or a release: the map \<open>fm\<close>, and \<open>n\<close> unused blocks.\<close>

definition set_space :: "bitmap \<Rightarrow> u32 \<Rightarrow> fstate \<Rightarrow> fstate" where
  "set_space fm n = upd_sfs (\<lambda>f. f\<lparr>sf_freemap := fm, sf_super := (sf_super f)\<lparr>su_unused_blocks := n\<rparr>, sf_super_dirty := True\<rparr>)"

lemma set_space_step: "space_step s (set_space fm n s)"
  unfolding space_step_def set_space_def upd_sfs_def
  by (intro exI [of _ fm] exI [of _ "(sf_super (f_sfs s))\<lparr>su_unused_blocks := n\<rparr>"] exI [of _ True]) simp

lemma set_space_free [simp]: "disk_free (set_space fm n s) = bm_free fm"
  by (simp add: disk_free_def set_space_def upd_sfs_def)

lemma set_space_ok:
  assumes "space_ok s" "bitmap_ok fm" "nbits fm = nbits (sf_freemap (f_sfs s))"
    "bm_free fm \<subseteq> {0 <..< unat (su_blocks (sf_super (f_sfs s)))}" "unat n = card (bm_free fm)"
  shows "space_ok (set_space fm n s)"
  using assms by (simp add: space_ok_def disk_free_def set_space_def upd_sfs_def sfs_ready_def sfs_dev_ok_def)

text \<open>Allocation takes the least free block; it fails exactly when there is none, and then changes nothing.\<close>

lemma sfs_block_alloc_full:
  assumes "space_ok s" "disk_free s = {}"
  shows "sfs_block_alloc s = Some (- E_NO_MEM, 0, s)"
proof -
  have "upd_sfs (sf_freemap_update (\<lambda>_. sf_freemap (f_sfs s))) s = s" by (simp add: upd_sfs_def)
  with bitmap_alloc_spec [OF space_okD(2) [OF assms(1)]] assms(2) show ?thesis
    by (simp add: sfs_block_alloc_def disk_free_def)
qed

lemma sfs_block_alloc_some:
  assumes ok: "space_ok s" and ne: "disk_free s \<noteq> {}"
  obtains b s' where "sfs_block_alloc s = Some (0, b, s')" "unat b = Min (disk_free s)" "sfs_blkno s b"
    "disk_free s' = disk_free s - {unat b}" "space_ok s'" "space_step s s'"
proof -
  obtain b fm where al: "bitmap_alloc (sf_freemap (f_sfs s)) = Some (0, Some b, fm)"
      and b: "unat b = Min (disk_free s)" and fm: "bm_free fm = disk_free s - {unat b}" "bitmap_ok fm"
        "nbits fm = nbits (sf_freemap (f_sfs s))"
    using bitmap_alloc_spec [OF space_okD(2) [OF ok]] ne unfolding disk_free_def by (auto simp del: of_nat_unat)
  define s' where "s' = set_space fm (su_unused_blocks (sf_super (f_sfs s)) - 1) s"
  have in_free: "unat b \<in> disk_free s" using b ne space_okD(3) [OF ok] by simp
  have blk: "sfs_blkno s b" using space_okD(4) [OF ok in_free] by (simp add: sfs_blkno_def word_less_nat_alt)
  have pos: "0 < su_unused_blocks (sf_super (f_sfs s))"
    using space_okD(3,5) [OF ok] in_free by (metis card_gt_0_iff empty_iff word_less_nat_alt unat_0)
  have ok': "space_ok s'" unfolding s'_def
    using pos in_free space_okD(3,5) [OF ok] space_okD(4) [OF ok]
    by (intro set_space_ok ok fm) (auto simp: fm unat_minus_one word_gt_0)
  have free': "disk_free s' = disk_free s - {unat b}" by (simp add: s'_def fm)
  have step: "space_step s s'" unfolding s'_def by (rule set_space_step)
  have "assert_inuse b s' = Some ()" "sfs_clear_block b 1 s' = Some (0, s')"
    using block_inuse [OF ok', of b] space_okD(1) [OF ok'] blk free' space_stepD(3) [OF step] by simp_all
  then have "sfs_block_alloc s = Some (0, b, s')"
    using pos by (simp add: sfs_block_alloc_def al upd_sfs_def s'_def set_space_def kassert_def)
  with b blk free' ok' step show thesis by (intro that)
qed

text \<open>Releasing a block that is in use gives it back; releasing any other stops the kernel.\<close>

lemma sfs_block_free_some:
  assumes ok: "space_ok s" and b: "sfs_blkno s b" "unat b \<notin> disk_free s"
  obtains s' where "sfs_block_free b s = Some s'" "disk_free s' = insert (unat b) (disk_free s)" "space_ok s'"
    "space_step s s'"
proof -
  have bound: "unat b < unat (su_blocks (sf_super (f_sfs s)))" "0 < unat b"
    using b by (auto simp: sfs_blkno_def word_less_nat_alt word_gt_0 unat_gt_0)
  then obtain fm where fr: "bitmap_free (sf_freemap (f_sfs s)) b = Some fm" and
      fm: "bm_free fm = insert (unat b) (disk_free s)" "bitmap_ok fm" "nbits fm = nbits (sf_freemap (f_sfs s))"
    using bitmap_free_spec [OF space_okD(2) [OF ok], of b] ok b(2) by (auto simp: disk_free_def space_ok_def)
  define s' where "s' = set_space fm (su_unused_blocks (sf_super (f_sfs s)) + 1) s"
  have sub: "insert (unat b) (disk_free s) \<subseteq> {0 <..< unat (su_blocks (sf_super (f_sfs s)))}"
    using bound space_okD(4) [OF ok] by auto
  have "card (insert (unat b) (disk_free s)) \<le> card {0 <..< unat (su_blocks (sf_super (f_sfs s)))}"
    using sub by (intro card_mono) auto
  then have "Suc (card (disk_free s)) < 2 ^ 32"
    using b(2) space_okD(3) [OF ok] unat_lt_u32 [of "su_blocks (sf_super (f_sfs s))"] by (simp add: card_insert_if)
  then have inc: "unat (su_unused_blocks (sf_super (f_sfs s)) + 1) = Suc (card (disk_free s))"
    by (subst unat_add_lem [THEN iffD1]) (simp_all add: space_okD(5) [OF ok])
  have ok': "space_ok s'" unfolding s'_def
    using b(2) space_okD(3) [OF ok] sub inc by (intro set_space_ok ok fm) (simp_all add: fm)
  have "sfs_block_free b s = Some s'"
    using block_inuse [OF ok, of b] b by (simp add: sfs_block_free_def fr s'_def set_space_def upd_sfs_def)
  then show thesis
    using ok' set_space_step [of s fm] by (intro that) (simp_all add: s'_def fm)
qed

section \<open>Resizing a file\<close>

lemma sin_upd_sin [simp]: "sin m (upd_sin n f s) = (if m = n then map_option f (sin n s) else sin m s)"
  by (simp add: sin_def upd_sin_def upd_inode_def split: in_info.splits)

lemma upd_sin_frame [simp]:
  "space_ok (upd_sin n f s) = space_ok s" "disk_free (upd_sin n f s) = disk_free s"
  "sfs_blkno (upd_sin n f s) = sfs_blkno s"
  by (simp_all add: space_ok_def disk_free_def sfs_ready_def sfs_dev_ok_def upd_sin_def upd_inode_def sfs_blkno_def fun_eq_iff)

lemma assert_inuse_upd_sin [simp]: "assert_inuse b (upd_sin n f s) = assert_inuse b s"
  by (simp add: assert_inuse_def sfs_block_inuse_def upd_sin_def upd_inode_def)

text \<open>\<open>small_file n i s\<close>: the node \<open>n\<close> holds the inode \<open>i\<close> of a file without an indirect block, whose blocks are
  distinct and in use. \<open>fblocks i\<close> are the blocks.\<close>

definition fblocks :: "sfs_inode \<Rightarrow> u32 list" where
  "fblocks i = take (unat (di_blocks (si_din i))) (di_direct (si_din i))"

definition small_file :: "nat \<Rightarrow> sfs_inode \<Rightarrow> fstate \<Rightarrow> bool" where
  "small_file n i s \<longleftrightarrow> sin n s = Some i \<and> length (di_direct (si_din i)) = 12 \<and> di_blocks (si_din i) \<le> 12 \<and>
     distinct (fblocks i) \<and> (\<forall>b \<in> set (fblocks i). sfs_blkno s b \<and> unat b \<notin> disk_free s) \<and>
     (\<forall>j < 12. unat (di_blocks (si_din i)) \<le> j \<longrightarrow> di_direct (si_din i) ! j = 0)"

definition owned :: "sfs_inode \<Rightarrow> nat set" where
  "owned i = unat ` set (fblocks i)"

text \<open>The inode with one block more, and with its last block removed.\<close>

definition grow_inode :: "u32 \<Rightarrow> sfs_inode \<Rightarrow> sfs_inode" where
  "grow_inode b i = i\<lparr>si_dirty := True, si_din := (si_din i)\<lparr>
     di_direct := (di_direct (si_din i))[unat (di_blocks (si_din i)) := b], di_blocks := di_blocks (si_din i) + 1\<rparr>\<rparr>"

definition shrink_inode :: "sfs_inode \<Rightarrow> sfs_inode" where
  "shrink_inode i = i\<lparr>si_dirty := True, si_din := (si_din i)\<lparr>
     di_direct := (di_direct (si_din i))[unat (di_blocks (si_din i)) - 1 := 0], di_blocks := di_blocks (si_din i) - 1\<rparr>\<rparr>"

lemma blocks_nat: "(k :: u32) \<le> 12 \<Longrightarrow> unat k \<le> 12" "(k :: u32) < 12 \<Longrightarrow> unat k < 12" "(k :: u32) < 12 \<Longrightarrow> unat (k + 1) = Suc (unat k)"
proof -
  show "(k :: u32) \<le> 12 \<Longrightarrow> unat k \<le> 12" "(k :: u32) < 12 \<Longrightarrow> unat k < 12" by (simp_all add: word_le_nat_alt word_less_nat_alt)
  show "(k :: u32) < 12 \<Longrightarrow> unat (k + 1) = Suc (unat k)"
    by (subst unat_add_lem [THEN iffD1]) (simp_all add: word_less_nat_alt)
qed

lemma small_file_grow:
  assumes f: "small_file n i s" and k: "di_blocks (si_din i) < 12" and b: "sfs_blkno s b" "unat b \<in> disk_free s"
    and free': "disk_free s' = disk_free s - {unat b}" and blk: "sfs_blkno s' = sfs_blkno s"
    and i': "sin n s' = Some (grow_inode b i)"
  shows "small_file n (grow_inode b i) s'" "fblocks (grow_inode b i) = fblocks i @ [b]"
proof -
  have u: "unat (di_blocks (si_din i) + 1) = Suc (unat (di_blocks (si_din i)))" "unat (di_blocks (si_din i)) < 12"
    using k by (simp_all add: blocks_nat)
  have len: "length (di_direct (si_din i)) = 12" using f by (simp add: small_file_def)
  show fb: "fblocks (grow_inode b i) = fblocks i @ [b]"
    using u len by (simp add: fblocks_def grow_inode_def take_Suc_conv_app_nth)
  have "b \<notin> set (fblocks i)" using f b(2) by (auto simp: small_file_def)
  moreover have "di_blocks (si_din i) + 1 \<le> 12" using u by (simp add: word_le_nat_alt)
  ultimately show "small_file n (grow_inode b i) s'"
    using f u b i' len unfolding small_file_def fb free' blk by (auto simp: grow_inode_def nth_list_update)
qed

lemma fblocks_last:
  assumes f: "small_file n i s" and k: "0 < di_blocks (si_din i)"
  shows "fblocks i \<noteq> []" "di_direct (si_din i) ! (unat (di_blocks (si_din i)) - 1) = last (fblocks i)"
    "unat (di_blocks (si_din i) - 1) = unat (di_blocks (si_din i)) - 1" "0 < unat (di_blocks (si_din i))"
    "unat (di_blocks (si_din i)) \<le> 12"
proof -
  show k': "0 < unat (di_blocks (si_din i))" "unat (di_blocks (si_din i)) \<le> 12"
    using k f by (simp_all add: small_file_def blocks_nat word_less_nat_alt)
  have "di_blocks (si_din i) \<noteq> 0" using k by (simp add: word_gt_0)
  then show "unat (di_blocks (si_din i) - 1) = unat (di_blocks (si_din i)) - 1" by (rule unat_minus_one)
  have len: "length (di_direct (si_din i)) = 12" using f by (simp add: small_file_def)
  show ne: "fblocks i \<noteq> []" using k' len by (auto simp: fblocks_def)
  show "di_direct (si_din i) ! (unat (di_blocks (si_din i)) - 1) = last (fblocks i)"
    using k' len ne by (simp add: last_conv_nth fblocks_def)
qed

lemma small_file_shrink:
  assumes f: "small_file n i s" and k: "0 < di_blocks (si_din i)"
    and free': "disk_free s' = insert (unat (last (fblocks i))) (disk_free s)" and blk: "sfs_blkno s' = sfs_blkno s"
    and i': "sin n s' = Some (shrink_inode i)"
  shows "small_file n (shrink_inode i) s'" "fblocks (shrink_inode i) = butlast (fblocks i)"
proof -
  note l = fblocks_last [OF f k]
  have len: "length (di_direct (si_din i)) = 12" using f by (simp add: small_file_def)
  show fb: "fblocks (shrink_inode i) = butlast (fblocks i)"
    using l(3-5) len by (simp add: fblocks_def shrink_inode_def butlast_take)
  have "unat b \<noteq> unat (last (fblocks i))" if "b \<in> set (butlast (fblocks i))" for b
    using that f l(1) unfolding small_file_def
    by (metis append_butlast_last_id distinct_butlast in_set_conv_decomp not_distinct_conv_prefix word_unat_eq_iff)
  moreover have "di_blocks (si_din i) - 1 \<le> 12" using l(3,5) by (simp add: word_le_nat_alt)
  ultimately show "small_file n (shrink_inode i) s'"
    using f l(3-5) i' len unfolding small_file_def fb free' blk
    by (auto simp: shrink_inode_def nth_list_update distinct_butlast dest: in_set_butlastD)
qed

text \<open>One step of growing: a free block becomes the last block of the file, or nothing happens.\<close>

lemma upd_sin_comp: "upd_sin n f (upd_sin n g s) = upd_sin n (f \<circ> g) s"
  by (simp add: upd_sin_def upd_inode_def fun_eq_iff split: in_info.splits)

lemma upd_sin_cong: "sin n s = Some i \<Longrightarrow> f i = g i \<Longrightarrow> upd_sin n f s = upd_sin n g s"
  by (cases "f_inodes s n") (simp add: sin_def upd_sin_def upd_inode_def split: in_info.splits)

definition others_same :: "nat \<Rightarrow> fstate \<Rightarrow> fstate \<Rightarrow> bool" where
  "others_same n s s' \<longleftrightarrow> (\<forall>m. m \<noteq> n \<longrightarrow> f_inodes s' m = f_inodes s m) \<and> f_disk s' = f_disk s"

lemma others_same_refl [simp]: "others_same n s s"
  by (simp add: others_same_def)

lemma others_same_chain: "others_same n s s1 \<Longrightarrow> others_same n s1 s2 \<Longrightarrow> others_same n s s2"
  by (simp add: others_same_def)

lemma others_same_step: "space_step s s' \<Longrightarrow> others_same n s (upd_sin n f s')"
  by (auto simp: others_same_def upd_sin_def upd_inode_def dest: space_stepD)

lemma bmap_load_grow:
  assumes ok: "space_ok s" and f: "small_file n i s" and k: "di_blocks (si_din i) < 12"
  shows "disk_free s = {} \<Longrightarrow> sfs_bmap_load_nolock n (di_blocks (si_din i)) s = Some (- E_NO_MEM, 0, s)"
    "disk_free s \<noteq> {} \<Longrightarrow> \<exists>b s'. sfs_bmap_load_nolock n (di_blocks (si_din i)) s = Some (0, b, s') \<and>
       unat b \<in> disk_free s \<and> disk_free s' = disk_free s - {unat b} \<and> space_ok s' \<and>
       small_file n (grow_inode b i) s' \<and> fblocks (grow_inode b i) = fblocks i @ [b] \<and> others_same n s s'"
proof -
  have i: "sin n s = Some i" and hole: "di_direct (si_din i) ! unat (di_blocks (si_din i)) = 0"
    using f k by (simp_all add: small_file_def blocks_nat)
  show "sfs_bmap_load_nolock n (di_blocks (si_din i)) s = Some (- E_NO_MEM, 0, s)" if "disk_free s = {}"
    using k by (simp add: sfs_bmap_load_nolock_def sfs_bmap_get_nolock_def i hole kassert_def SFS_NDIRECT_def
        sfs_block_alloc_full [OF ok that] E_NO_MEM_def)
  assume ne: "disk_free s \<noteq> {}"
  obtain b s1 where al: "sfs_block_alloc s = Some (0, b, s1)" and b: "unat b = Min (disk_free s)" "sfs_blkno s b"
    and s1: "disk_free s1 = disk_free s - {unat b}" "space_ok s1" "space_step s s1"
    using sfs_block_alloc_some [OF ok ne] by blast
  note fr = space_stepD [OF s1(3)]
  have in_free: "unat b \<in> disk_free s" using b ne space_okD(3) [OF ok] by simp
  have i1: "sin n s1 = Some i" using i fr(4) by simp
  define s' where "s' = upd_sin n (grow_inode b) s1"
  have s': "sin n s' = Some (grow_inode b i)" "space_ok s'" "disk_free s' = disk_free s - {unat b}" "sfs_blkno s' = sfs_blkno s"
    using i1 s1 fr(3) by (simp_all add: s'_def)
  have "assert_inuse b s1 = Some ()" using block_inuse [OF s1(2), of b] b(2) s1(1) fr(3) by simp
  moreover have b0: "b \<noteq> 0" using b(2) by (auto simp: sfs_blkno_def)
  moreover have "upd_din n (di_blocks_update (\<lambda>k. k + 1)) (set_dirty n (upd_din n
      (di_direct_update (\<lambda>d. d[unat (di_blocks (si_din i)) := b])) s1)) = s'"
    unfolding s'_def upd_din_def set_dirty_def upd_sin_comp by (rule upd_sin_cong [OF i1]) (simp add: grow_inode_def)
  ultimately have "sfs_bmap_load_nolock n (di_blocks (si_din i)) s = Some (0, b, s')"
    using k by (simp add: sfs_bmap_load_nolock_def sfs_bmap_get_nolock_def i hole kassert_def SFS_NDIRECT_def al
        set_dirty_def upd_din_def)
  then show "\<exists>b s'. sfs_bmap_load_nolock n (di_blocks (si_din i)) s = Some (0, b, s') \<and>
       unat b \<in> disk_free s \<and> disk_free s' = disk_free s - {unat b} \<and> space_ok s' \<and>
       small_file n (grow_inode b i) s' \<and> fblocks (grow_inode b i) = fblocks i @ [b] \<and> others_same n s s'"
    using s' small_file_grow [OF f k b(2) in_free s'(3,4,1)] in_free others_same_step [OF s1(3)]
    unfolding s'_def by blast
qed

text \<open>Growing by \<open>m\<close> blocks takes \<open>m\<close> free blocks, or all there are.\<close>

lemma trunc_grow_spec:
  assumes "space_ok s" "small_file n i s" "unat (di_blocks (si_din i)) + m \<le> 12"
  shows "\<exists>r i' s'. trunc_grow n (di_blocks (si_din i)) m s = Some (r, s') \<and> space_ok s' \<and> small_file n i' s' \<and>
    disk_free s' \<union> owned i' = disk_free s \<union> owned i \<and> others_same n s s' \<and>
    si_sem i' = si_sem i \<and> di_size (si_din i') = di_size (si_din i) \<and>
    (\<exists>bs. fblocks i' = fblocks i @ bs \<and> length bs = min m (card (disk_free s))) \<and>
    card (disk_free s') = card (disk_free s) - min m (card (disk_free s)) \<and>
    (r = (if m \<le> card (disk_free s) then 0 else - E_NO_MEM))"
  using assms
proof (induction m arbitrary: s i)
  case 0
  then show ?case by auto
next
  case (Suc m)
  have k: "di_blocks (si_din i) < 12" using Suc.prems(3) by (simp add: word_less_nat_alt)
  note ld = bmap_load_grow [OF Suc.prems(1,2) k]
  have fin: "finite (disk_free s)" by (rule space_okD(3) [OF Suc.prems(1)])
  show ?case
  proof (cases "disk_free s = {}")
    case True
    with ld(1) Suc.prems show ?thesis by (auto simp: E_NO_MEM_def)
  next
    case False
    obtain b s1 where b: "sfs_bmap_load_nolock n (di_blocks (si_din i)) s = Some (0, b, s1)" "unat b \<in> disk_free s"
      "disk_free s1 = disk_free s - {unat b}" "space_ok s1" "small_file n (grow_inode b i) s1"
      "fblocks (grow_inode b i) = fblocks i @ [b]" "others_same n s s1"
      using ld(2) [OF False] by blast
    have g: "di_blocks (si_din (grow_inode b i)) = di_blocks (si_din i) + 1" "si_sem (grow_inode b i) = si_sem i"
      "di_size (si_din (grow_inode b i)) = di_size (si_din i)" by (simp_all add: grow_inode_def)
    have "unat (di_blocks (si_din (grow_inode b i))) + m \<le> 12" using Suc.prems(3) k by (simp add: g blocks_nat)
    note IH = Suc.IH [OF b(4,5) this, unfolded g]
    obtain r i' s' bs where r: "trunc_grow n (di_blocks (si_din i) + 1) m s1 = Some (r, s')" "space_ok s'" "small_file n i' s'"
      "disk_free s' \<union> owned i' = disk_free s1 \<union> owned (grow_inode b i)" "others_same n s1 s'" "si_sem i' = si_sem i"
      "di_size (si_din i') = di_size (si_din i)" "fblocks i' = fblocks (grow_inode b i) @ bs"
      "length bs = min m (card (disk_free s1))" "card (disk_free s') = card (disk_free s1) - min m (card (disk_free s1))"
      "r = (if m \<le> card (disk_free s1) then 0 else - E_NO_MEM)"
      using IH by blast
    have c: "card (disk_free s) = Suc (card (disk_free s1))" using card.remove [OF fin b(2)] b(3) by simp
    have "disk_free s1 \<union> owned (grow_inode b i) = disk_free s \<union> owned i"
      using b(2,3) by (auto simp: owned_def b(6))
    then show ?thesis
      using r b(1,6) c others_same_chain [OF b(7) r(5)] by (auto simp: min_def)
  qed
qed

text \<open>One step of shrinking gives the last block back.\<close>

lemma bmap_truncate_step:
  assumes ok: "space_ok s" and f: "small_file n i s" and k: "0 < di_blocks (si_din i)"
  obtains s' where "sfs_bmap_truncate_nolock n s = Some (0, s')"
    "disk_free s' = insert (unat (last (fblocks i))) (disk_free s)" "space_ok s'"
    "small_file n (shrink_inode i) s'" "fblocks (shrink_inode i) = butlast (fblocks i)" "fblocks i \<noteq> []" "others_same n s s'"
proof -
  have i: "sin n s = Some i" and le: "di_blocks (si_din i) \<le> 12" using f by (simp_all add: small_file_def)
  note sh = small_file_shrink [OF f k] and l = fblocks_last [OF f k]
  have k': "di_blocks (si_din i) - 1 < 12" using l(3-5) by (simp add: word_less_nat_alt)
  define b where "b = last (fblocks i)"
  have b: "sfs_blkno s b" "unat b \<notin> disk_free s" using f l(1) by (auto simp: small_file_def b_def)
  obtain s1 where s1: "sfs_block_free b s = Some s1" "disk_free s1 = insert (unat b) (disk_free s)" "space_ok s1" "space_step s s1"
    using sfs_block_free_some [OF ok b] by blast
  have i1: "sin n s1 = Some i" using i space_stepD(4) [OF s1(4)] by simp
  define s' where "s' = upd_sin n shrink_inode s1"
  have s': "sin n s' = Some (shrink_inode i)" "space_ok s'" "disk_free s' = insert (unat (last (fblocks i))) (disk_free s)"
    "sfs_blkno s' = sfs_blkno s"
    using i1 s1 space_stepD(3) [OF s1(4)] by (simp_all add: s'_def b_def)
  have "set_dirty n (upd_din n (di_blocks_update (\<lambda>k. k - 1)) (set_dirty n (upd_din n
      (di_direct_update (\<lambda>d. d[unat (di_blocks (si_din i)) - 1 := 0])) s1))) = s'"
    unfolding s'_def upd_din_def set_dirty_def upd_sin_comp by (rule upd_sin_cong [OF i1]) (simp add: shrink_inode_def)
  moreover have "b \<noteq> 0" using b(1) by (auto simp: sfs_blkno_def)
  ultimately have "sfs_bmap_truncate_nolock n s = Some (0, s')"
    using k k' l(2,3) s1(1) by (simp add: sfs_bmap_truncate_nolock_def sfs_bmap_free_nolock_def i kassert_def SFS_NDIRECT_def b_def word_gt_0)
  then show thesis
    using s' sh(1,2) [OF s'(3,4,1)] l(1) others_same_step [OF s1(4)] unfolding s'_def by (intro that) auto
qed

lemma trunc_shrink_spec:
  assumes "space_ok s" "small_file n i s" "m \<le> length (fblocks i)"
  shows "\<exists>i' s'. trunc_shrink n m s = Some (0, s') \<and> space_ok s' \<and> small_file n i' s' \<and>
    disk_free s' \<union> owned i' = disk_free s \<union> owned i \<and> others_same n s s' \<and>
    si_sem i' = si_sem i \<and> di_size (si_din i') = di_size (si_din i) \<and>
    fblocks i' = take (length (fblocks i) - m) (fblocks i)"
  using assms
proof (induction m arbitrary: s i)
  case 0
  then show ?case by auto
next
  case (Suc m)
  have k: "0 < di_blocks (si_din i)" using Suc.prems(3) by (auto simp: fblocks_def word_gt_0)
  obtain s1 where s1: "sfs_bmap_truncate_nolock n s = Some (0, s1)"
    "disk_free s1 = insert (unat (last (fblocks i))) (disk_free s)" "space_ok s1" "small_file n (shrink_inode i) s1"
    "fblocks (shrink_inode i) = butlast (fblocks i)" "fblocks i \<noteq> []" "others_same n s s1"
    by (rule bmap_truncate_step [OF Suc.prems(1,2) k])
  have "m \<le> length (fblocks (shrink_inode i))" using Suc.prems(3) s1(5) by simp
  note IH = Suc.IH [OF s1(3,4) this]
  have "owned i = insert (unat (last (fblocks i))) (owned (shrink_inode i))"
    using s1(6) by (simp add: owned_def s1(5) flip: image_insert) (metis append_butlast_last_id insert_is_Un list.set(2)
        set_append set_simps(1) sup_commute)
  then have "disk_free s1 \<union> owned (shrink_inode i) = disk_free s \<union> owned i" using s1(2) by auto
  moreover have "take (length (butlast (fblocks i)) - m) (butlast (fblocks i)) = take (length (fblocks i) - Suc m) (fblocks i)"
    by (simp add: butlast_conv_take)
  moreover have "si_sem (shrink_inode i) = si_sem i" "di_size (si_din (shrink_inode i)) = di_size (si_din i)"
    by (simp_all add: shrink_inode_def)
  ultimately show ?case
    using IH s1(1,5) others_same_chain [OF s1(7)] by simp metis
qed

lemma small_file_upd:
  assumes "small_file n i s" "si_din (f i) = si_din i \<lparr>di_size := sz\<rparr>"
  shows "small_file n (f i) (upd_sin n f s)" "fblocks (f i) = fblocks i" "owned (f i) = owned i"
  using assms by (simp_all add: small_file_def fblocks_def owned_def)

lemma others_same_upd [simp]:
  "others_same n (upd_sin n f s) s' = others_same n s s'" "others_same n s (upd_sin n f s') = others_same n s s'"
  by (simp_all add: others_same_def upd_sin_def upd_inode_def)

lemma length_fblocks: "small_file n i s \<Longrightarrow> length (fblocks i) = unat (di_blocks (si_din i))"
  by (auto simp: small_file_def fblocks_def dest: blocks_nat)

lemma tblks_le: "len \<le> 0xC000 \<Longrightarrow> unat (ROUNDUP_DIV len SFS_BLKSIZE) \<le> 12"
proof -
  assume "len \<le> 0xC000"
  then have l: "unat len \<le> 49152" by (simp add: word_le_nat_alt)
  then have "unat (len + 4095) = unat len + 4095" by (subst unat_add_lem [THEN iffD1]) simp_all
  then have "unat (ROUNDUP_DIV len SFS_BLKSIZE) = (unat len + 4095) div 4096"
    by (simp add: ROUNDUP_DIV_def SFS_BLKSIZE_def PGSIZE_def unat_word_div add_diff_eq [symmetric])
  with l show ?thesis by linarith
qed

lemma len_range: "(len :: u32) \<le> 0xC000 \<Longrightarrow> \<not> sint len < 0" "len \<le> 0xC000 \<Longrightarrow> \<not> len > SFS_MAX_FILE_SIZE"
proof -
  assume "len \<le> 0xC000"
  then have "unat len \<le> 49152" by (simp add: word_le_nat_alt)
  then show "\<not> sint len < 0" "\<not> len > SFS_MAX_FILE_SIZE"
    by (simp_all add: sint_u32_small SFS_MAX_FILE_SIZE_def word_less_nat_alt del: of_nat_unat)
qed

text \<open>The loops of \<open>sfs_truncfile\<close> together: \<open>want\<close> blocks are asked for.\<close>

lemma trunc_loops:
  assumes ok: "space_ok s" and f: "small_file n i s" and w: "unat want \<le> 12"
  defines "nb \<equiv> di_blocks (si_din i)"
  shows "\<exists>r i' s'. (if nb < want then trunc_grow n nb (unat (want - nb)) s else trunc_shrink n (unat (nb - want)) s) =
      Some (r, s') \<and> space_ok s' \<and> small_file n i' s' \<and>
    disk_free s' \<union> owned i' = disk_free s \<union> owned i \<and> others_same n s s' \<and> si_sem i' = si_sem i \<and>
    di_size (si_din i') = di_size (si_din i) \<and>
    (if unat want \<le> length (fblocks i) + card (disk_free s)
     then r = 0 \<and> length (fblocks i') = unat want \<and> take (unat want) (fblocks i) = take (length (fblocks i)) (fblocks i')
     else r = - E_NO_MEM \<and> disk_free s' = {})"
proof (cases "nb < want")
  case True
  then have m: "unat (want - nb) = unat want - unat nb" "unat nb < unat want"
    by (simp_all add: unat_sub word_less_nat_alt word_le_nat_alt)
  have "unat (di_blocks (si_din i)) + (unat want - unat nb) \<le> 12" using m w by (simp add: nb_def)
  from trunc_grow_spec [OF ok f this] obtain r i' s' bs where
    r: "trunc_grow n nb (unat want - unat nb) s = Some (r, s')" "space_ok s'" "small_file n i' s'"
      "disk_free s' \<union> owned i' = disk_free s \<union> owned i" "others_same n s s'" "si_sem i' = si_sem i"
      "di_size (si_din i') = di_size (si_din i)" "fblocks i' = fblocks i @ bs"
      "length bs = min (unat want - unat nb) (card (disk_free s))"
      "card (disk_free s') = card (disk_free s) - min (unat want - unat nb) (card (disk_free s))"
      "r = (if unat want - unat nb \<le> card (disk_free s) then 0 else - E_NO_MEM)"
    unfolding nb_def by blast
  have len: "length (fblocks i) = unat nb" using length_fblocks [OF f] by (simp add: nb_def)
  have "disk_free s' = {}" if "\<not> unat want \<le> unat nb + card (disk_free s)"
    using r(10) that space_okD(3) [OF r(2)] by (simp add: min_def split: if_splits)
  then show ?thesis
    using True r m len by (intro exI [of _ r] exI [of _ i'] exI [of _ s']) (auto simp: min_def)
next
  case False
  then have m: "unat (nb - want) = unat nb - unat want" "unat want \<le> unat nb"
    by (simp_all add: unat_sub word_le_nat_alt not_less)
  have len: "length (fblocks i) = unat nb" using length_fblocks [OF f] by (simp add: nb_def)
  have "unat nb - unat want \<le> length (fblocks i)" using len by simp
  from trunc_shrink_spec [OF ok f this] obtain i' s' where
    "trunc_shrink n (unat nb - unat want) s = Some (0, s')" "space_ok s'" "small_file n i' s'"
      "disk_free s' \<union> owned i' = disk_free s \<union> owned i" "others_same n s s'" "si_sem i' = si_sem i"
      "di_size (si_din i') = di_size (si_din i)"
      "fblocks i' = take (length (fblocks i) - (unat nb - unat want)) (fblocks i)"
    by blast
  then show ?thesis
    using False m len by (intro exI [of _ 0] exI [of _ i'] exI [of _ s']) (auto simp: min_def)
qed

text \<open>C5. Resizing a file of at most twelve blocks to at most twelve blocks (48 KB, what the direct blocks hold; beyond that an indirect
  block would be allocated, which is not covered) neither loses nor duplicates a disk block: the free blocks and those of the file are
  together the same as before, the file's blocks stay distinct and in use, the superblock still counts the free ones, and no other
  node changes. The call succeeds exactly when enough blocks are free; then the file has the size and the number of blocks asked for
  and keeps its first blocks. When there are not enough it returns \<open>- E_NO_MEM\<close> with the size unchanged, but the file keeps every
  block it got: the disk is full afterwards. The semaphore of the node is free, and before the call the file has the
  blocks that its size needs.\<close>

theorem truncate_conserves_blocks:
  assumes ok: "space_ok s" and f: "small_file n i s" and sem: "si_sem i > 0" and len: "len \<le> 0xC000"
    and size: "di_blocks (si_din i) = ROUNDUP_DIV (di_size (si_din i)) SFS_BLKSIZE"
  shows "\<exists>r i' s'. sfs_truncfile n len s = Some (r, s') \<and> space_ok s' \<and> small_file n i' s' \<and>
    disk_free s' \<union> owned i' = disk_free s \<union> owned i \<and> others_same n s s' \<and> si_sem i' = si_sem i \<and>
    (let want = unat (ROUNDUP_DIV len SFS_BLKSIZE) in
     if want \<le> length (fblocks i) + card (disk_free s)
     then r = 0 \<and> di_size (si_din i') = len \<and> length (fblocks i') = want \<and>
       take want (fblocks i) = take (length (fblocks i)) (fblocks i')
     else r = - E_NO_MEM \<and> di_size (si_din i') = di_size (si_din i) \<and> disk_free s' = {})"
proof (cases "di_size (si_din i) = len")
  case True
  have i: "sin n s = Some i" using f by (simp add: small_file_def)
  have "sfs_truncfile n len s = Some (0, s)" using True size len_range [OF len] by (simp add: sfs_truncfile_def i kassert_def)
  then show ?thesis using ok f True size length_fblocks [OF f] by (auto simp: Let_def)
next
  case False
  have i: "sin n s = Some i" using f by (simp add: small_file_def)
  note rng = len_range [OF len]
  define down :: "sfs_inode \<Rightarrow> sfs_inode" where "down = si_sem_update (\<lambda>k. k - 1)"
  define s0 where "s0 = upd_sin n down s"
  have s0: "space_ok s0" "small_file n (down i) s0" "fblocks (down i) = fblocks i" "owned (down i) = owned i"
    using small_file_upd [OF f, of down "di_size (si_din i)"] ok by (simp_all add: s0_def down_def)
  have d: "si_din (down i) = si_din i" "si_sem (down i) = si_sem i - 1" "disk_free s0 = disk_free s"
    "others_same n s0 = others_same n s"
    by (simp_all add: down_def s0_def fun_eq_iff)
  have lock: "lock_sin n s = Some s0" using sem i by (simp add: lock_sin_def kassert_def s0_def down_def)
  obtain r i1 s1 where loops:
      "(if di_blocks (si_din i) < ROUNDUP_DIV len SFS_BLKSIZE
        then trunc_grow n (di_blocks (si_din i)) (unat (ROUNDUP_DIV len SFS_BLKSIZE - di_blocks (si_din i))) s0
        else trunc_shrink n (unat (di_blocks (si_din i) - ROUNDUP_DIV len SFS_BLKSIZE)) s0) = Some (r, s1)"
    and r: "space_ok s1" "small_file n i1 s1" "disk_free s1 \<union> owned i1 = disk_free s \<union> owned i" "others_same n s s1"
      "si_sem i1 = si_sem i - 1" "di_size (si_din i1) = di_size (si_din i)"
      "if unat (ROUNDUP_DIV len SFS_BLKSIZE) \<le> length (fblocks i) + card (disk_free s)
       then r = 0 \<and> length (fblocks i1) = unat (ROUNDUP_DIV len SFS_BLKSIZE) \<and>
         take (unat (ROUNDUP_DIV len SFS_BLKSIZE)) (fblocks i) = take (length (fblocks i)) (fblocks i1)
       else r = - E_NO_MEM \<and> disk_free s1 = {}"
    using trunc_loops [OF s0(1,2) tblks_le [OF len]] unfolding d s0(3,4) by blast
  have i1: "sin n s1 = Some i1" using r(2) by (simp add: small_file_def)
  show ?thesis
  proof (cases "unat (ROUNDUP_DIV len SFS_BLKSIZE) \<le> length (fblocks i) + card (disk_free s)")
    case True
    define f :: "sfs_inode \<Rightarrow> sfs_inode" where "f = (\<lambda>i. i\<lparr>si_sem := si_sem i + 1, si_dirty := True, si_din := (si_din i)\<lparr>di_size := len\<rparr>\<rparr>)"
    have fi: "small_file n (f i1) (upd_sin n f s1)" "fblocks (f i1) = fblocks i1" "owned (f i1) = owned i1"
      using small_file_upd [OF r(2), of f len] by (simp_all add: f_def)
    have "unlock_sin n (set_dirty n (upd_din n (di_size_update (\<lambda>_. len)) s1)) = upd_sin n f s1"
      unfolding unlock_sin_def set_dirty_def upd_din_def upd_sin_comp by (rule upd_sin_cong [OF i1]) (simp add: f_def)
    moreover have "di_blocks (si_din i1) = ROUNDUP_DIV len SFS_BLKSIZE"
      using True r(7) length_fblocks [OF r(2)] by (simp add: word_unat_eq_iff)
    ultimately have "sfs_truncfile n len s = Some (0, upd_sin n f s1)"
      using True r(7) rng \<open>di_size (si_din i) \<noteq> len\<close> loops by (simp add: sfs_truncfile_def i lock i1 kassert_def Let_def)
    then show ?thesis
      using True r fi by (intro exI [of _ 0] exI [of _ "f i1"] exI [of _ "upd_sin n f s1"]) (simp add: f_def Let_def)
  next
    case nomem: False
    define f :: "sfs_inode \<Rightarrow> sfs_inode" where "f = si_sem_update (\<lambda>k. k + 1)"
    have fi: "small_file n (f i1) (upd_sin n f s1)" "fblocks (f i1) = fblocks i1" "owned (f i1) = owned i1"
      using small_file_upd [OF r(2), of f "di_size (si_din i1)"] by (simp_all add: f_def)
    have "sfs_truncfile n len s = Some (- E_NO_MEM, upd_sin n f s1)"
      using nomem r(7) rng False loops by (simp add: sfs_truncfile_def i lock Let_def E_NO_MEM_def unlock_sin_def f_def)
    then show ?thesis
      using nomem r fi by (intro exI [of _ "- E_NO_MEM"] exI [of _ "f i1"] exI [of _ "upd_sin n f s1"])
        (simp add: f_def Let_def)
  qed
qed

section \<open>Reading a file whose blocks are consecutive\<close>

text \<open>\<open>seg xs a b\<close>: the elements from index \<open>a\<close> up to \<open>b\<close>.\<close>

definition seg :: "'a list \<Rightarrow> nat \<Rightarrow> nat \<Rightarrow> 'a list" where
  "seg xs a b = take (b - a) (drop a xs)"

lemma seg_append: "a \<le> b \<Longrightarrow> b \<le> c \<Longrightarrow> seg xs a b @ seg xs b c = seg xs a c"
proof -
  assume a: "a \<le> b" "b \<le> c"
  then have "c - a = (b - a) + (c - b)" "drop b xs = drop (b - a) (drop a xs)" by simp_all
  then show ?thesis unfolding seg_def by (simp only: take_add)
qed

lemma seg_empty [simp]: "seg xs a a = []"
  by (simp add: seg_def)

text \<open>Segments of blocks of \<open>k\<close> elements each.\<close>

lemma drop_blocks: "\<forall>b \<in> set bs. length b = k \<Longrightarrow> drop (j * k) (concat bs) = concat (drop j bs)"
proof (induction bs arbitrary: j)
  case (Cons b bs)
  then show ?case by (cases j) (simp_all add: ac_simps)
qed simp

lemma take_blocks: "\<forall>b \<in> set bs. length b = k \<Longrightarrow> take (j * k) (concat bs) = concat (take j bs)"
proof (induction bs arbitrary: j)
  case (Cons b bs)
  then show ?case by (cases j) (simp_all add: ac_simps)
qed simp

lemma seg_in_block:
  assumes "\<forall>b \<in> set bs. length b = k" "j < length bs" "a \<le> b" "b \<le> k"
  shows "seg (concat bs) (j * k + a) (j * k + b) = seg (bs ! j) a b"
proof -
  have "length (bs ! j) = k" using assms by simp
  moreover have "drop (j * k) (concat bs) = bs ! j @ concat (drop (Suc j) bs)"
    using assms by (simp add: drop_blocks Cons_nth_drop_Suc [symmetric])
  moreover have "drop (j * k + a) (concat bs) = drop a (drop (j * k) (concat bs))" by (simp add: add.commute)
  ultimately show ?thesis
    using assms(3,4) by (simp add: seg_def)
qed

lemma seg_of_blocks:
  assumes "\<forall>b \<in> set bs. length b = k" "j + m \<le> length bs"
  shows "seg (concat bs) (j * k) ((j + m) * k) = concat (map (\<lambda>i. bs ! (j + i)) [0 ..< m])"
proof -
  have "seg (concat bs) (j * k) ((j + m) * k) = take (m * k) (concat (drop j bs))"
    using assms by (simp add: seg_def drop_blocks algebra_simps)
  also have "\<dots> = concat (take m (drop j bs))"
    using assms by (intro take_blocks) (auto dest: in_set_dropD)
  also have "take m (drop j bs) = map (\<lambda>i. bs ! (j + i)) [0 ..< m]"
    using assms by (intro nth_equalityI) auto
  finally show ?thesis .
qed

text \<open>\<open>contiguous n i s\<close>: the blocks of the file follow each other on the disk; \<open>file_blocks\<close> are their contents.\<close>

definition contiguous :: "sfs_inode \<Rightarrow> bool" where
  "contiguous i \<longleftrightarrow> (\<forall>j < length (fblocks i). fblocks i ! j = hd (fblocks i) + of_nat j)"

definition file_blocks :: "sfs_inode \<Rightarrow> fstate \<Rightarrow> u8 list list" where
  "file_blocks i s = map (f_disk s) (fblocks i)"

lemma bmap_load_found:
  assumes ok: "space_ok s" and f: "small_file n i s" and k: "unat index < length (fblocks i)"
  shows "bmap_load_ok n index s = Some (fblocks i ! unat index, s)"
proof -
  have i: "sin n s = Some i" using f by (simp add: small_file_def)
  have lt: "index < di_blocks (si_din i)" using k length_fblocks [OF f] by (simp add: word_less_nat_alt)
  moreover have "di_blocks (si_din i) \<le> 12" using f by (simp add: small_file_def)
  ultimately have l12: "index < 12" by (rule less_le_trans)
  have at: "di_direct (si_din i) ! unat index = fblocks i ! unat index" using k by (simp add: fblocks_def)
  have "fblocks i ! unat index \<in> set (fblocks i)" using k by simp
  then have b: "sfs_blkno s (fblocks i ! unat index)" "unat (fblocks i ! unat index) \<notin> disk_free s"
    using f by (auto simp: small_file_def)
  then have "fblocks i ! unat index \<noteq> 0" by (auto simp: sfs_blkno_def)
  moreover have "index \<le> di_blocks (si_din i)" "index \<noteq> di_blocks (si_din i)" using lt by simp_all
  ultimately show ?thesis
    using l12 b block_inuse [OF ok, of "fblocks i ! unat index"]
    by (simp add: bmap_load_ok_def sfs_bmap_load_nolock_def sfs_bmap_get_nolock_def i kassert_def SFS_NDIRECT_def at Let_def)
qed

lemma io_buf_read:
  assumes ok: "space_ok s" and f: "small_file n i s" and k: "unat index < length (fblocks i)"
    and len: "\<forall>b \<in> set (file_blocks i s). length b = 4096" and r: "unat off < 4096" "unat off + unat m \<le> 4096"
  shows "io_buf False data m (fblocks i ! unat index) off s =
    Some (seg (concat (file_blocks i s)) (unat index * 4096 + unat off) (unat index * 4096 + unat off + unat m), s)"
proof -
  have "sfs_blkno s (fblocks i ! unat index)" using f k by (simp add: small_file_def)
  moreover have "off < 4096" "off + m \<le> 4096"
  proof -
    have "unat (off + m) = unat off + unat m" using r by (subst unat_add_lem [THEN iffD1]) simp_all
    with r show "off < 4096" "off + m \<le> 4096" by (simp_all add: word_less_nat_alt word_le_nat_alt)
  qed
  moreover have "seg (concat (file_blocks i s)) (unat index * 4096 + unat off) (unat index * 4096 + (unat off + unat m)) =
      seg (file_blocks i s ! unat index) (unat off) (unat off + unat m)"
    using k r by (intro seg_in_block len) (simp_all add: file_blocks_def)
  ultimately show ?thesis
    using space_okD(1) [OF ok] k by (simp add: io_buf_def kassert_def seg_def file_blocks_def add.assoc)
qed

lemma io_blocks_read:
  assumes ok: "space_ok s" and f: "small_file n i s" and c: "contiguous i" and k: "unat index + unat m \<le> length (fblocks i)"
    "0 < unat m" and len: "\<forall>b \<in> set (file_blocks i s). length b = 4096"
  shows "io_blocks False data (fblocks i ! unat index) m s =
    Some (seg (concat (file_blocks i s)) (unat index * 4096) ((unat index + unat m) * 4096), s)"
proof -
  have at: "fblocks i ! unat index + of_nat j = fblocks i ! (unat index + j)" if "j < unat m" for j
    using c that k unfolding contiguous_def by (simp add: add.assoc)
  then have "\<forall>j < unat m. sfs_blkno s (fblocks i ! unat index + of_nat j)"
    using f k by (auto simp: small_file_def)
  then have loop: "sfs_rwblock_loop [] (fblocks i ! unat index) (unat m) False (io_locked s) =
      Some (0, concat (map (\<lambda>j. f_disk s (fblocks i ! unat index + of_nat j)) [0 ..< unat m]), io_locked s)"
    using space_okD(1) [OF ok] by (simp add: rwblock_loop_ready)
  have "map (\<lambda>j. f_disk s (fblocks i ! unat index + of_nat j)) [0 ..< unat m] =
      map (\<lambda>j. file_blocks i s ! (unat index + j)) [0 ..< unat m]"
    using at k(1) by (simp add: file_blocks_def)
  with loop show ?thesis
    using seg_of_blocks [OF len, of "unat index" "unat m"] k(1) space_okD(1) [OF ok]
    by (simp add: io_blocks_def sfs_rblock_def sfs_rwblock_def kassert_def file_blocks_def)
qed

text \<open>The three parts put together give the bytes from the offset to the end position.\<close>

lemma io_parts_read:
  assumes ok: "space_ok s" and f: "small_file n i s" and c: "contiguous i"
    and len: "\<forall>b \<in> set (file_blocks i s). length b = 4096"
    and e: "offset < endpos" "unat endpos \<le> 4096 * length (fblocks i)"
  shows "sfs_io_parts n data offset endpos False s =
    Some (endpos - offset, seg (concat (file_blocks i s)) (unat offset) (unat endpos), s)"
proof -
  define q p b d where "q = offset div SFS_BLKSIZE" and "p = offset mod SFS_BLKSIZE"
    and "b = endpos div SFS_BLKSIZE" and "d = endpos mod SFS_BLKSIZE"
  have u: "unat q = unat offset div 4096" "unat p = unat offset mod 4096" "unat b = unat endpos div 4096"
    "unat d = unat endpos mod 4096"
    by (simp_all add: q_def p_def b_def d_def unat_word_div unat_word_mod SFS_BLKSIZE_def PGSIZE_def)
  have split: "unat offset = unat q * 4096 + unat p" "unat endpos = unat b * 4096 + unat d" "unat p < 4096" "unat d < 4096"
    using u by simp_all
  have w: "offset = q * 4096 + p" "endpos = b * 4096 + d"
    using div_mult_mod_eq [of offset "0x1000 :: u32"] div_mult_mod_eq [of endpos "0x1000 :: u32"]
    by (simp_all add: q_def p_def b_def d_def SFS_BLKSIZE_def PGSIZE_def)
  have lt: "unat offset < unat endpos" using e(1) by (simp add: word_less_nat_alt)
  have qb: "unat q \<le> unat b" using lt u by (simp add: div_le_mono)
  have nb: "unat (b - q) = unat b - unat q" using qb by (simp add: unat_sub word_le_nat_alt)
  have gt: "m > 0 \<longleftrightarrow> 0 < unat m" for m :: u32 by (simp add: word_less_nat_alt)
  define X where "X = concat (file_blocks i s)"
  note ld = bmap_load_found [OF ok f] and bufr = io_buf_read [OF ok f _ len, folded X_def]
    and blkr = io_blocks_read [OF ok f c _ _ len, folded X_def]
  have mid: "(if m > 0 then do {
          (ino, s) \<leftarrow> bmap_load_ok n j s;
          (out, s) \<leftarrow> io_blocks False (drop (unat pos) data) ino m s;
          Some (pos + m * SFS_BLKSIZE, out, s) }
        else Some (pos, [], s)) = Some (pos + m * 4096, seg X (unat j * 4096) ((unat j + unat m) * 4096), s)"
    if "unat j + unat m \<le> unat b" for m j pos
  proof (cases "m > 0")
    case True
    then show ?thesis
      using that split(2) e(2) by (simp add: ld blkr gt SFS_BLKSIZE_def PGSIZE_def)
  qed (simp add: word_gt_0)
  have fin: "(if d > 0 then do {
          (ino, s) \<leftarrow> bmap_load_ok n b s;
          (out, s) \<leftarrow> io_buf False (drop (unat pos) data) d ino 0 s;
          Some (pos + d, out, s) }
        else Some (pos, [], s)) = Some (pos + d, seg X (unat b * 4096) (unat endpos), s)" for pos
  proof (cases "d > 0")
    case True
    then show ?thesis
      using split e(2) by (simp add: ld bufr gt)
  next
    case False
    then show ?thesis by (simp add: split(2) word_gt_0)
  qed
  have parts: "sfs_io_parts n data offset endpos False s = do {
     (pos, j, m, single, out1, s) \<leftarrow>
       (if p > 0 then do {
          let blklen = (if b - q > 0 then SFS_BLKSIZE - p else endpos - offset);
          (ino, s) \<leftarrow> bmap_load_ok n q s;
          (out, s) \<leftarrow> io_buf False data blklen ino p s;
          Some (blklen, q + 1, if b - q > 0 then b - q - 1 else b - q, \<not> b - q > 0, out, s) }
        else Some (0, q, b - q, False, [], s));
     (pos, out2, s) \<leftarrow>
       (if m > 0 then do {
          (ino, s) \<leftarrow> bmap_load_ok n j s;
          (out, s) \<leftarrow> io_blocks False (drop (unat pos) data) ino m s;
          Some (pos + m * SFS_BLKSIZE, out, s) }
        else Some (pos, [], s));
     (pos, out3, s) \<leftarrow>
       (if \<not> single \<and> d > 0 then do {
          (ino, s) \<leftarrow> bmap_load_ok n b s;
          (out, s) \<leftarrow> io_buf False (drop (unat pos) data) d ino 0 s;
          Some (pos + d, out, s) }
        else Some (pos, [], s));
     Some (pos, out1 @ out2 @ out3, s) }"
    by (simp only: sfs_io_parts_def Let_def q_def p_def b_def d_def)
  have total: "endpos - offset = (b - q) * 4096 + d - p" by (simp add: w algebra_simps)
  show ?thesis
  proof (cases "p > 0")
    case False
    then have p0: "p = 0" by (simp add: word_gt_0)
    have "seg X (unat q * 4096) (unat b * 4096) @ seg X (unat b * 4096) (unat endpos) = seg X (unat offset) (unat endpos)"
      using split qb p0 by (simp add: seg_append)
    then show ?thesis
      using qb nb p0 total by (simp add: parts mid [of q "b - q"] fin flip: X_def)
  next
    case True
    show ?thesis
    proof (cases "unat b = unat q")
      case same: True
      then have bq: "b = q" by (simp add: word_unat_eq_iff)
      have len': "unat (endpos - offset) = unat d - unat p" using lt same split by (simp add: unat_sub word_le_nat_alt)
      have pd: "unat p < unat d" using lt same split by simp
      have "io_buf False data (endpos - offset) (fblocks i ! unat q) p s = Some (seg X (unat offset) (unat endpos), s)"
        using bufr [of q p "endpos - offset" data] len' pd split e(2) same by simp
      moreover have "unat q < length (fblocks i)" using split e(2) pd same by simp
      ultimately show ?thesis
        using True bq by (simp add: parts ld flip: X_def)
    next
      case False
      then have lt': "unat q < unat b" using qb by simp
      then have m: "b - q > 0" using nb by (simp add: gt)
      then have "b - q \<noteq> 0" by (simp add: word_gt_0)
      then have m1: "unat (b - q - 1) = unat b - unat q - 1" using nb by (simp add: unat_minus_one)
      have q1: "unat (q + 1) = unat q + 1"
        using lt' unat_lt_u32 [of b] by (subst unat_add_lem [THEN iffD1]) simp_all
      have p4: "unat (0x1000 - p) = 4096 - unat p" using split(3) by (simp add: unat_sub word_le_nat_alt)
      have first: "io_buf False data (SFS_BLKSIZE - p) (fblocks i ! unat q) p s =
          Some (seg X (unat offset) ((unat q + 1) * 4096), s)"
        using bufr [of q p "0x1000 - p" data] split p4 lt' e(2) by (simp add: SFS_BLKSIZE_def PGSIZE_def algebra_simps)
      have "unat q < length (fblocks i)" using lt' split e(2) by simp
      moreover have "unat (q + 1) + unat (b - q - 1) = unat b" using q1 m1 lt' by simp
      moreover have "seg X (unat offset) ((unat q + 1) * 4096) @ seg X ((unat q + 1) * 4096) (unat b * 4096) @
          seg X (unat b * 4096) (unat endpos) = seg X (unat offset) (unat endpos)"
        using split lt' by (simp add: seg_append)
      ultimately show ?thesis
        using True m m1 q1 total by (simp add: parts ld first mid [of "q + 1" "b - q - 1"] fin flip: X_def)
          (simp add: SFS_BLKSIZE_def PGSIZE_def algebra_simps)
    qed
  qed
qed

text \<open>C7. Reading: from a file without an indirect block whose blocks follow each other on the disk,
  \<^verbatim>\<open>sfs_io_nolock\<close> returns exactly the bytes of the file from the offset on, as many as were asked for and
  the file has, across block boundaries and at the end of the file, and changes nothing. (The code looks up only the
  first whole block of a transfer and takes the following ones from the disk, so the order of the blocks matters.)\<close>

theorem sfs_read_contiguous:
  assumes ok: "space_ok s" and f: "small_file n i s" and c: "contiguous i"
    and len: "\<forall>b \<in> set (file_blocks i s). length b = 4096" and reg: "di_type (si_din i) \<noteq> SFS_TYPE_DIR"
    and size: "unat (di_size (si_din i)) \<le> 4096 * length (fblocks i)"
    and rng: "offset < SFS_MAX_FILE_SIZE" "unat offset + unat alen < 2 ^ 31"
  shows "let out = seg (concat (file_blocks i s)) (unat offset) (min (unat offset + unat alen) (unat (di_size (si_din i))))
    in sfs_io_nolock n data offset alen False s = Some (0, of_nat (length out), out, s)"
proof -
  have i: "sin n s = Some i" using f by (simp add: small_file_def)
  have u: "unat (offset + alen) = unat offset + unat alen" using rng(2) by (subst unat_add_lem [THEN iffD1]) simp_all
  have sgn: "\<not> sint offset < 0" "\<not> sint offset > sint (offset + alen)"
    using rng(2) by (simp_all add: sint_u32_small u del: of_nat_unat)
  have small: "unat (di_size (si_din i)) \<le> 49152"
    using size length_fblocks [OF f] f by (simp add: small_file_def word_le_nat_alt)
  define endpos where "endpos = (let e = (if offset + alen > SFS_MAX_FILE_SIZE then SFS_MAX_FILE_SIZE else offset + alen)
    in if e > di_size (si_din i) then di_size (si_din i) else e)"
  have e: "unat endpos = min (unat offset + unat alen) (unat (di_size (si_din i)))"
    using small by (auto simp: endpos_def word_less_nat_alt SFS_MAX_FILE_SIZE_def u min_def Let_def)
  define X where "X = concat (file_blocks i s)"
  have lenX: "length X = 4096 * length (fblocks i)"
    using len by (simp add: X_def file_blocks_def length_concat o_def sum_list_triv cong: map_cong)
  show ?thesis
  proof (cases "alen = 0 \<or> offset \<ge> di_size (si_din i)")
    case True
    then have "unat alen = 0 \<or> unat (di_size (si_din i)) \<le> unat offset" by (auto simp: word_le_nat_alt)
    then have "min (unat offset + unat alen) (unat (di_size (si_din i))) \<le> unat offset" by auto
    then have "seg X (unat offset) (min (unat offset + unat alen) (unat (di_size (si_din i)))) = []" by (simp add: seg_def)
    then show ?thesis
      using True rng(1) sgn reg by (auto simp: sfs_io_nolock_def i kassert_def Let_def X_def not_le)
  next
    case False
    then have ne: "alen \<noteq> 0" "offset < di_size (si_din i)" by auto
    then have "0 < unat alen" "unat offset < unat (di_size (si_din i))" by (simp_all add: word_less_nat_alt unat_gt_0)
    then have lt: "offset < endpos" "unat offset < unat endpos" using e by (simp_all add: word_less_nat_alt)
    have le: "unat endpos \<le> 4096 * length (fblocks i)" using e size by simp
    have sz: "unat endpos \<le> unat (di_size (si_din i))" using e by simp
    have "sfs_io_parts n data offset endpos False s = Some (endpos - offset, seg X (unat offset) (unat endpos), s)"
      using io_parts_read [OF ok f c len lt(1) le] by (simp add: X_def)
    moreover have "\<not> offset + (endpos - offset) > di_size (si_din i)" using sz by (simp add: word_less_nat_alt)
    moreover have "length (seg X (unat offset) (unat endpos)) = unat endpos - unat offset"
      using le by (simp add: seg_def lenX min_absorb2 diff_le_mono)
    then have "of_nat (length (seg X (unat offset) (unat endpos))) = endpos - offset"
      using lt(2) by (simp add: of_nat_diff)
    ultimately show ?thesis
      using ne rng(1) ne(2) [folded not_le] rng(1) [folded not_le] sgn reg by (simp add: sfs_io_nolock_def i kassert_def e [symmetric] X_def [symmetric] endpos_def [unfolded Let_def, symmetric] Let_def)
  qed
qed

section \<open>A small concrete file system\<close>

text \<open>Eight blocks, of which 5, 6 and 7 are free; node 1 is a file of 5000 bytes in the blocks 3 and 4.\<close>

definition example_inode :: sfs_inode where
  "example_inode = \<lparr>si_din = \<lparr>di_size = 5000, di_type = SFS_TYPE_FILE, di_nlinks = 1, di_blocks = 2,
      di_direct = [3, 4] @ replicate 10 0, di_indirect = 0\<rparr>,
    si_din_ptr = 0, si_ino = 2, si_dirty = False, si_reclaim_count = 1, si_sem = 1\<rparr>"

definition example_freemap :: bitmap where
  "example_freemap = \<lparr>nbits = 8, nwords = 1, bm_map = [0xE0]\<rparr>"

definition example_sfs :: sfs_fs where
  "example_sfs = \<lparr>sf_super = \<lparr>su_magic = SFS_MAGIC, su_blocks = 8, su_unused_blocks = 3, su_info = replicate 32 0\<rparr>,
    sf_dev = disk0_device_init, sf_freemap = example_freemap, sf_freemap_ptr = 0, sf_freemap_data = 0, sf_super_dirty = False,
    sf_buffer = 0, sf_fs_sem = 1, sf_io_sem = 1, sf_mutex_sem = 1, sf_hash_list = 0\<rparr>"

definition example_fs :: fstate where
  "example_fs = \<lparr>f_vm = example_vm, f_mem = (\<lambda>_. 0), f_disk = (\<lambda>b. replicate 4096 (ucast b)), f_sfs = example_sfs,
    f_fs = 0, f_inodes = (\<lambda>_. \<lparr>in_info = SfsInfo example_inode, in_ref_count = 1, in_open_count = 1, in_fs = True,
                              in_ops = Some SfsFileOps\<rparr>),
    f_links = (\<lambda>l. \<lparr>le_prev = l, le_next = l\<rparr>),
    f_vdevs = (\<lambda>_. \<lparr>vd_devname = [], vd_devnode = None, vd_fs = False, vd_mountable = False\<rparr>),
    f_vdev_links = (\<lambda>l. \<lparr>le_prev = l, le_next = l\<rparr>), f_vdev_sem = 1, f_bootfs_node = None, f_bootfs_sem = 1,
    f_files = (\<lambda>_. \<lparr>fs_pwd = None, fs_array = [], fs_count = 1, fs_sem = 1\<rparr>), f_stdin = replicate 4096 0,
    f_rpos = 0, f_wpos = 0, f_console = [], f_filesp = Some 0, f_mm = None, f_mm_sem = 1, f_pid = 1\<rparr>"

lemma example_free: "bm_free example_freemap = {5, 6, 7}"
proof -
  have "bm_free example_freemap = set (filter (bm_bit [0xE0]) [0 ..< 8])"
    by (auto simp: bm_free_def example_freemap_def)
  also have "\<dots> = {5, 6, 7}" by (simp add: bm_bit_def upt_rec) (simp add: eval_nat_numeral)
  finally show ?thesis .
qed

lemma example_freemap_ok: "bitmap_ok example_freemap"
proof -
  have "\<not> bm_bit [0xE0] i" if "8 \<le> i" "i < 32" for i
  proof -
    have "(0xE0 :: u32) = take_bit 8 0xE0" by (simp add: take_bit_eq_mod)
    then have "bit (0xE0 :: u32) i \<Longrightarrow> i < 8" by (metis bit_take_bit_iff)
    with that show ?thesis by (auto simp: bm_bit_def)
  qed
  then show ?thesis by (auto simp: bitmap_ok_def example_freemap_def not_less [symmetric])
qed

lemma example_space: "space_ok example_fs"
  by (simp add: space_ok_def sfs_ready_def sfs_dev_ok_def disk_free_def example_fs_def example_sfs_def example_free
      example_freemap_ok disk0_device_init_def DISK0_DEVSIZE_def DISK0_BLKSIZE_def PGSIZE_def)
    (simp add: example_freemap_def)

lemma example_small_file: "small_file n example_inode example_fs" "disk_free example_fs = {5, 6, 7}"
  "fblocks example_inode = [3, 4]" "0 < si_sem example_inode"
  "di_blocks (si_din example_inode) = ROUNDUP_DIV (di_size (si_din example_inode)) SFS_BLKSIZE"
  "di_type (si_din example_inode) \<noteq> SFS_TYPE_DIR" "di_size (si_din example_inode) = 5000" "contiguous example_inode"
proof -
  show fb: "fblocks example_inode = [3, 4]" by (simp add: fblocks_def example_inode_def)
  show fr: "disk_free example_fs = {5, 6, 7}" by (simp add: disk_free_def example_fs_def example_sfs_def example_free)
  have "sin n example_fs = Some example_inode" by (simp add: sin_def example_fs_def)
  then show "small_file n example_inode example_fs"
    unfolding small_file_def fb fr by (simp add: sfs_blkno_def example_fs_def example_sfs_def)
      (simp add: example_inode_def nth_append)
  show "0 < si_sem example_inode" "di_type (si_din example_inode) \<noteq> SFS_TYPE_DIR" "di_size (si_din example_inode) = 5000"
    "di_blocks (si_din example_inode) = ROUNDUP_DIV (di_size (si_din example_inode)) SFS_BLKSIZE"
    by (simp_all add: example_inode_def SFS_TYPE_FILE_def SFS_TYPE_DIR_def ROUNDUP_DIV_def SFS_BLKSIZE_def PGSIZE_def)
  show "contiguous example_inode" unfolding contiguous_def fb by (auto simp: less_Suc_eq)
qed

lemma example_file_blocks: "file_blocks example_inode example_fs = [replicate 4096 3, replicate 4096 4]"
  by (simp add: file_blocks_def example_small_file(3)) (simp add: example_fs_def)

theorem truncate_conserves_blocks_witness:
  "(\<exists>i' s'. sfs_truncfile 1 0x3000 example_fs = Some (0, s') \<and> length (fblocks i') = 3 \<and>
     disk_free s' \<union> owned i' = {3, 4, 5, 6, 7}) \<and>
   (\<exists>s'. sfs_truncfile 1 0x6000 example_fs = Some (- E_NO_MEM, s') \<and> disk_free s' = {})"
proof -
  note ex = truncate_conserves_blocks [OF example_space example_small_file(1,4) _ example_small_file(5), where n = 1]
  have want: "unat (ROUNDUP_DIV 0x3000 SFS_BLKSIZE) = 3" "unat (ROUNDUP_DIV 0x6000 SFS_BLKSIZE) = 6"
    by (simp_all add: ROUNDUP_DIV_def SFS_BLKSIZE_def PGSIZE_def)
  have ow: "owned example_inode = {3, 4}" by (simp add: example_small_file(3) owned_def)
  obtain r i' s' where "sfs_truncfile 1 0x3000 example_fs = Some (r, s')" "r = 0" "length (fblocks i') = 3"
      "disk_free s' \<union> owned i' = {5, 6, 7} \<union> {3, 4}"
    using ex [of "0x3000"] unfolding want ow Let_def example_small_file(2,3) by auto
  moreover obtain r s' where "sfs_truncfile 1 0x6000 example_fs = Some (r, s')" "r = - E_NO_MEM" "disk_free s' = {}"
    using ex [of "0x6000"] unfolding want ow Let_def example_small_file(2,3) by auto
  moreover have "{5, 6, 7} \<union> {3, 4} = {3, 4, 5, 6, 7 :: nat}" by auto
  ultimately show ?thesis by metis
qed

theorem sfs_read_contiguous_witness:
  "sfs_io_nolock 1 [] 4090 20 False example_fs = Some (0, 20, replicate 6 3 @ replicate 14 4, example_fs)"
proof -
  have "seg (replicate 4096 3 @ replicate 4096 (4 :: u8)) 4090 4110 = replicate 6 3 @ replicate 14 4"
    by (simp add: seg_def)
  then show ?thesis
    using sfs_read_contiguous [OF example_space example_small_file(1,8), where n = 1 and offset = 4090 and alen = 20 and data = "[]"]
      example_small_file(6,7) by (simp add: example_file_blocks example_small_file(3) SFS_MAX_FILE_SIZE_def)
qed

section \<open>Properties of the disk\<close>

text \<open>C35. Writing through SFS changes nothing: \<^verbatim>\<open>sfs_wbuf\<close> on any block of a mounted file system reports success,
  and the state is the one before, so a later read returns the old bytes. The cause is \<^verbatim>\<open>disk0_write_blks_nolock\<close>,
  which only prints a warning.\<close>

theorem disk_writes_are_lost:
  assumes "sfs_ready s" "sfs_blkno s b" "off < 4096" "off + of_nat (length data) \<le> 4096"
  shows "sfs_wbuf data b off s = Some (0, s) \<and>
    sfs_rbuf (of_nat (length data)) b off s =
      Some (0, take (unat (of_nat (length data) :: u32)) (drop (unat off) (f_disk s b)), s)"
  using assms by simp

theorem disk_writes_are_lost_witness:
  "sfs_wbuf [1, 2, 3] 3 10 example_fs = Some (0, example_fs) \<and> sfs_rbuf 3 3 10 example_fs = Some (0, [3, 3, 3], example_fs)"
proof -
  have "sfs_blkno example_fs 3" by (simp add: sfs_blkno_def example_fs_def example_sfs_def)
  moreover have "take 3 (drop 10 (f_disk example_fs 3)) = [3, 3, 3]" by (simp add: example_fs_def) (simp add: numeral_3_eq_3)
  ultimately show ?thesis
    using disk_writes_are_lost [OF space_okD(1) [OF example_space], of 3 10 "[1, 2, 3]"] by simp
qed

end
