(* ===== verification/FileProps.thy ===== *)
theory FileProps
  imports File SfsSpace
begin

text \<open>
  What holds of the open files of a process: the keyboard ring is a queue whose writer wakes all
  readers, duplicating a descriptor and closing the copy gives the table and the nodes back, and a system call that reaches an operation its node lacks stops the kernel.
\<close>

unbundle bit_operations_syntax

section \<open>The keyboard ring is a queue\<close>

text \<open>\<open>stdin_queue s\<close>: the characters that are written and not read, oldest first.\<close>

definition stdin_ok :: "fstate \<Rightarrow> bool" where
  "stdin_ok s \<longleftrightarrow> length (f_stdin s) = 4096 \<and> unat (f_rpos s) \<le> unat (f_wpos s) \<and>
     unat (f_wpos s) \<le> unat (f_rpos s) + 4096 \<and> unat (f_wpos s) < 2 ^ 31"

definition stdin_queue :: "fstate \<Rightarrow> u8 list" where
  "stdin_queue s = map (\<lambda>k. f_stdin s ! (k mod 4096)) [unat (f_rpos s) ..< unat (f_wpos s)]"

lemma stdin_pos:
  assumes "stdin_ok s"
  shows "sint (f_rpos s) = int (unat (f_rpos s))" "sint (f_wpos s) = int (unat (f_wpos s))"
    "sint (f_wpos s - f_rpos s) = int (unat (f_wpos s) - unat (f_rpos s))"
proof -
  have l: "unat (f_rpos s) \<le> unat (f_wpos s)" "unat (f_wpos s) < 2 ^ 31" using assms by (simp_all add: stdin_ok_def)
  then show "sint (f_rpos s) = int (unat (f_rpos s))" "sint (f_wpos s) = int (unat (f_wpos s))"
    by (simp_all add: sint_u32_small del: of_nat_unat)
  have "unat (f_wpos s - f_rpos s) = unat (f_wpos s) - unat (f_rpos s)" using l by (simp add: unat_sub word_le_nat_alt)
  with l show "sint (f_wpos s - f_rpos s) = int (unat (f_wpos s) - unat (f_rpos s))"
    by (simp add: sint_u32_small del: of_nat_unat)
qed

text \<open>Two positions of the ring that are less than its size apart are different.\<close>

lemma mod_4096_eq: "(a :: nat) mod 4096 = b mod 4096 \<Longrightarrow> a \<le> b \<Longrightarrow> b < a + 4096 \<Longrightarrow> a = b"
proof -
  assume a: "a mod 4096 = b mod 4096" "a \<le> b" "b < a + 4096"
  then have "4096 dvd b - a" by (metis mod_eq_dvd_iff_nat)
  moreover have "b - a < 4096" using a by simp
  ultimately show "a = b" using a(2) by (auto dest: nat_dvd_not_less)
qed

lemma stdin_write:
  assumes ok: "stdin_ok s" and c: "c \<noteq> 0" and w: "unat (f_wpos s) < 2 ^ 31 - 1"
    and q: "(if wait_queue_empty q k then Some k else wakeup_queue q WT_KBD True k) = Some k'"
  obtains s' where "dev_stdin_write q c k s = Some (k', s')" "stdin_ok s'" "unat (f_wpos s') \<le> Suc (unat (f_wpos s))"
    "stdin_queue s' = (if length (stdin_queue s) < 4096 then stdin_queue s @ [c] else (stdin_queue s)[0 := c])"
proof -
  define r w' where "r = unat (f_rpos s)" and "w' = unat (f_wpos s)"
  have l: "r \<le> w'" "w' \<le> r + 4096" "length (f_stdin s) = 4096" using ok by (simp_all add: stdin_ok_def r_def w'_def)
  have ix: "stdin_index (f_wpos s) = Some (w' mod 4096)"
    using w by (simp add: stdin_index_pos w'_def)
  have inc: "unat (f_wpos s + 1) = Suc w'" using w by (subst unat_add_lem [THEN iffD1]) (simp_all add: w'_def)
  define st where "st = (f_stdin s)[w' mod 4096 := c]"
  have st: "st ! (k mod 4096) = (if k mod 4096 = w' mod 4096 then c else f_stdin s ! (k mod 4096))" for k
    using l(3) by (simp add: st_def nth_list_update)
  have len: "length (stdin_queue s) = w' - r" by (simp add: stdin_queue_def r_def w'_def)
  define s1 where "s1 = s\<lparr>f_stdin := st\<rparr>"
  define s' where "s' = (if w' - r < 4096 then s1\<lparr>f_wpos := f_wpos s + 1\<rparr> else s1)"
  have run: "dev_stdin_write q c k s = Some (k', s')"
    using c q stdin_pos(3) [OF ok] by (simp add: dev_stdin_write_def ix s'_def s1_def st_def r_def w'_def Let_def)
  have pos: "unat (f_wpos s') \<le> Suc (unat (f_wpos s))"
    using inc by (simp add: s'_def s1_def w'_def)
  have ok': "stdin_ok s'"
    using l w inc by (auto simp: stdin_ok_def s'_def s1_def st_def r_def w'_def)
  have "stdin_queue s' = (if w' - r < 4096 then stdin_queue s @ [c] else (stdin_queue s)[0 := c])"
  proof (cases "w' - r < 4096")
    case True
    have "st ! (k mod 4096) = f_stdin s ! (k mod 4096)" if "r \<le> k" "k < w'" for k
    proof -
      have "w' < k + 4096" using that True l(1) by linarith
      then show ?thesis using mod_4096_eq [of k w'] that by (auto simp: st)
    qed
    then show ?thesis
      using True l inc by (simp add: stdin_queue_def s'_def s1_def r_def [symmetric] w'_def [symmetric] st)
  next
    case False
    then have full: "w' = r + 4096" using l by simp
    have "stdin_queue s' = map (\<lambda>k. st ! (k mod 4096)) [r ..< w']"
      using False by (simp add: stdin_queue_def s'_def s1_def r_def w'_def)
    also have "\<dots> = (stdin_queue s)[0 := c]"
    proof (rule nth_equalityI)
      fix i assume "i < length (map (\<lambda>k. st ! (k mod 4096)) [r ..< w'])"
      then have i: "i < 4096" using full by simp
      then have "(r + i) mod 4096 = w' mod 4096 \<longleftrightarrow> i = 0" using mod_4096_eq [of r "r + i"] full by auto
      then show "map (\<lambda>k. st ! (k mod 4096)) [r ..< w'] ! i = (stdin_queue s)[0 := c] ! i"
        using i full by (simp add: st stdin_queue_def r_def w'_def nth_list_update)
    qed (simp add: len)
    finally show ?thesis using False by simp
  qed
  with run ok' pos len show thesis by (intro that) simp_all
qed

lemma stdin_step:
  assumes ok: "stdin_ok s" and q: "stdin_queue s = c # cs" and n: "0 < n"
  shows "\<exists>s1. stdin_ok s1 \<and> stdin_queue s1 = cs \<and>
    stdin_read_loop sleep n acc s = stdin_read_loop sleep (n - 1) (acc @ [c]) s1"
proof -
  have lt: "unat (f_rpos s) < unat (f_wpos s)" using q by (auto simp: stdin_queue_def upt_rec split: if_splits)
  have sg: "sint (f_rpos s) < sint (f_wpos s)"
    unfolding stdin_pos [OF ok] using lt by (simp_all del: of_nat_unat)
  have ix: "stdin_index (f_rpos s) = Some (unat (f_rpos s) mod 4096)"
    using ok lt by (intro stdin_index_pos) (simp add: stdin_ok_def)
  have inc: "unat (f_rpos s + 1) = Suc (unat (f_rpos s))"
    using lt unat_lt_u32 [of "f_wpos s"] by (subst unat_add_lem [THEN iffD1]) simp_all
  define s1 where "s1 = s\<lparr>f_rpos := f_rpos s + 1\<rparr>"
  have "stdin_queue s = f_stdin s ! (unat (f_rpos s) mod 4096) # stdin_queue s1"
    using lt inc by (simp add: stdin_queue_def s1_def upt_conv_Cons)
  then have c: "c = f_stdin s ! (unat (f_rpos s) mod 4096)" "stdin_queue s1 = cs" using q by simp_all
  have "stdin_ok s1" using ok lt inc by (simp add: stdin_ok_def s1_def)
  moreover have "stdin_read_loop sleep n acc s = stdin_read_loop sleep (n - 1) (acc @ [c]) s1"
    using sg ix n by (subst stdin_read_loop.simps) (simp add: s1_def c)
  ultimately show ?thesis using c(2) by blast
qed

lemma stdin_read:
  "stdin_ok s \<Longrightarrow> n \<le> length (stdin_queue s) \<Longrightarrow>
   \<exists>s'. stdin_read_loop sleep n acc s = Some (acc @ take n (stdin_queue s), s') \<and> stdin_ok s' \<and>
     stdin_queue s' = drop n (stdin_queue s)"
proof (induction n arbitrary: acc s)
  case 0
  then show ?case by (simp add: stdin_read_loop.simps)
next
  case (Suc n)
  then obtain c cs where q: "stdin_queue s = c # cs" by (cases "stdin_queue s") auto
  obtain s1 where s1: "stdin_ok s1" "stdin_queue s1 = cs"
    "stdin_read_loop sleep (Suc n) acc s = stdin_read_loop sleep n (acc @ [c]) s1"
    using stdin_step [OF Suc.prems(1) q, of "Suc n" sleep acc] by auto
  then show ?case using Suc.IH [OF s1(1), of "acc @ [c]"] Suc.prems(2) q by simp
qed

text \<open>A reader that wants more than there is takes it all and then waits.\<close>

lemma stdin_read_more:
  "stdin_ok s \<Longrightarrow> length (stdin_queue s) < n \<Longrightarrow>
   \<exists>s'. stdin_ok s' \<and> stdin_queue s' = [] \<and> stdin_read_loop sleep n acc s =
     (case sleep s' of None \<Rightarrow> None
      | Some (flags, s2) \<Rightarrow>
          if flags = WT_KBD then stdin_read_loop sleep (n - length (stdin_queue s)) (acc @ stdin_queue s) s2
          else Some (acc @ stdin_queue s, s2))"
proof (induction "stdin_queue s" arbitrary: n acc s)
  case Nil
  have "\<not> unat (f_rpos s) < unat (f_wpos s)" using Nil(1) by (auto simp: stdin_queue_def)
  then have "\<not> sint (f_rpos s) < sint (f_wpos s)" unfolding stdin_pos [OF Nil(2)] by (simp del: of_nat_unat)
  then show ?case using Nil
    by (subst stdin_read_loop.simps) (auto simp: Nil(1) [symmetric] split: option.splits intro!: exI [of _ s])
next
  case (Cons c cs)
  have "\<exists>s1. stdin_ok s1 \<and> stdin_queue s1 = cs \<and> stdin_read_loop sleep n acc s = stdin_read_loop sleep (n - 1) (acc @ [c]) s1"
    using stdin_step [OF Cons(3) Cons(2) [symmetric], of n] Cons(4) by (cases n) auto
  then obtain s1 where s1: "stdin_ok s1" "stdin_queue s1 = cs"
    "stdin_read_loop sleep n acc s = stdin_read_loop sleep (n - 1) (acc @ [c]) s1" by blast
  have "length (stdin_queue s1) < n - 1" using Cons(4) s1(2) Cons(2) [symmetric] by simp
  note IH = Cons(1) [OF s1(2) [symmetric] s1(1) this, of "acc @ [c]"]
  have e: "n - 1 - length (stdin_queue s1) = n - length (stdin_queue s)" "(acc @ [c]) @ stdin_queue s1 = acc @ stdin_queue s"
    by (simp_all add: s1(2) Cons(2) [symmetric])
  from IH show ?case unfolding s1(3) e .
qed

text \<open>A character wakes everyone who waits for one.\<close>

lemma stdin_write_wakes:
  assumes ok: "stdin_ok s" and c: "c \<noteq> 0" and w: "unat (f_wpos s) < 2 ^ 31 - 1" and q: "waiting q ws rs k"
  obtains k' s' where "dev_stdin_write q c k s = Some (k', s')" "stdin_ok s'" "unat (f_wpos s') \<le> Suc (unat (f_wpos s))"
    "stdin_queue s' = (if length (stdin_queue s) < 4096 then stdin_queue s @ [c] else (stdin_queue s)[0 := c])"
    "woken q ws rs WT_KBD k k'" "ws = [] \<longrightarrow> k' = k"
proof -
  have wq: "wq_inv q k ws" using q by (simp add: waiting_def)
  obtain k1 where k1: "wakeup_queue q WT_KBD True k = Some k1" "woken q ws rs WT_KBD k k1"
    using wakeup_queue_all [OF q] by blast
  have k0: "woken q [] rs WT_KBD k k" if "ws = []" using q that by (simp add: woken_def waiting_def)
  have "\<exists>k'. (if wait_queue_empty q k then Some k else wakeup_queue q WT_KBD True k) = Some k' \<and> woken q ws rs WT_KBD k k' \<and>
      (ws = [] \<longrightarrow> k' = k)"
    using wait_queue_empty_eq [OF wq] k0 k1 by (cases "ws = []") auto
  then obtain k' where k': "(if wait_queue_empty q k then Some k else wakeup_queue q WT_KBD True k) = Some k'"
    "woken q ws rs WT_KBD k k'" "ws = [] \<longrightarrow> k' = k" by blast
  from stdin_write [OF ok c w k'(1)] obtain s' where "dev_stdin_write q c k s = Some (k', s')" "stdin_ok s'"
    "unat (f_wpos s') \<le> Suc (unat (f_wpos s))"
    "stdin_queue s' = (if length (stdin_queue s) < 4096 then stdin_queue s @ [c] else (stdin_queue s)[0 := c])" by blast
  from that [OF this k'(2,3)] show thesis .
qed

text \<open>C33. The keyboard ring is a queue of 4096 characters, as long as fewer than \<open>2 ^ 31 - 1\<close> characters were ever written
  (then the position would turn negative). A character other than NUL that arrives while it has room is appended, and
  all readers that wait (sleeping processes, or the running one that is about to give up the processor) leave the
  wait queue and become ready to run in their order, with the reason \<^verbatim>\<open>WT_KBD\<close>. When the ring is full the new
  character is not dropped but replaces the oldest one that is not read. A read that asks for no more than is
  there returns the oldest characters in order, removes them, and does not sleep; one that asks for more takes them all
  and sleeps, and goes on for the rest if it is woken for the keyboard and returns what it has if not.\<close>

theorem keyboard_ring_is_queue:
  assumes ok: "stdin_ok s"
  shows "(c \<noteq> 0 \<and> unat (f_wpos s) < 2 ^ 31 - 1 \<and> waiting q ws rs k \<longrightarrow>
      (\<exists>k' s'. dev_stdin_write q c k s = Some (k', s') \<and> stdin_ok s' \<and> woken q ws rs WT_KBD k k' \<and>
        stdin_queue s' = (if length (stdin_queue s) < 4096 then stdin_queue s @ [c] else (stdin_queue s)[0 := c]))) \<and>
    (if unat len \<le> length (stdin_queue s)
     then \<exists>s'. dev_stdin_read sleep len s = Some (take (unat len) (stdin_queue s), s') \<and> stdin_ok s' \<and>
        stdin_queue s' = drop (unat len) (stdin_queue s)
     else \<exists>s'. stdin_ok s' \<and> stdin_queue s' = [] \<and> dev_stdin_read sleep len s =
        (case sleep s' of None \<Rightarrow> None
         | Some (flags, s2) \<Rightarrow>
             if flags = WT_KBD then stdin_read_loop sleep (unat len - length (stdin_queue s)) (stdin_queue s) s2
             else Some (stdin_queue s, s2)))"
proof (intro conjI impI)
  assume a: "c \<noteq> 0 \<and> unat (f_wpos s) < 2 ^ 31 - 1 \<and> waiting q ws rs k"
  then have c: "c \<noteq> 0" "unat (f_wpos s) < 2 ^ 31 - 1" "waiting q ws rs k" by blast+
  show "\<exists>k' s'. dev_stdin_write q c k s = Some (k', s') \<and> stdin_ok s' \<and> woken q ws rs WT_KBD k k' \<and>
      stdin_queue s' = (if length (stdin_queue s) < 4096 then stdin_queue s @ [c] else (stdin_queue s)[0 := c])"
    by (rule stdin_write_wakes [OF ok c]) blast
qed (use stdin_read [OF ok, of "unat len" sleep "[]", unfolded append_Nil]
    stdin_read_more [OF ok, of "unat len" sleep "[]", unfolded append_Nil] in
    \<open>(simp only: dev_stdin_read_def not_le split: if_split), blast\<close>)

definition example_keys :: fstate where
  "example_keys = example_fs\<lparr>f_stdin := 104 # 105 # replicate 4094 0, f_rpos := 0, f_wpos := 2\<rparr>"

lemma example_keys_ok: "stdin_ok example_keys" "stdin_queue example_keys = [104, 105]" "f_wpos example_keys = 2"
  by (simp_all add: stdin_ok_def stdin_queue_def example_keys_def upt_conv_Cons)

text \<open>Process 4 waits for a key in queue 9; processes 2 and 3 are ready to run.\<close>

definition example_reader :: kstate where
  "example_reader = example_kstate\<lparr>
     k_links := list_add_before (WaitHead 9) (WaitLink 6) (list_init (WaitHead 9) (k_links example_kstate)),
     k_procs := (\<lambda>p. if p = 4 then (example_proc PROC_SLEEPING 4 False)\<lparr>pr_wait_state := WT_KBD\<rparr> else k_procs example_kstate p),
     k_waits := (\<lambda>w. \<lparr>w_proc = Some 4, w_wakeup_flags = 0, w_queue = Some 9\<rparr>)\<rparr>"

lemma example_reader_waits: "waiting 9 [6] [2, 3] example_reader"
proof -
  have "wq_inv 9 example_reader [6]" "rq_inv example_reader [2, 3]" "rq_idle example_reader 4"
    by (simp_all add: wq_inv_def rq_inv_def rq_idle_def example_reader_def example_kstate_def ring_def list_init_def
        list_add_before_def list_add_raw_def unlinked_def example_proc_def)
  moreover have "owner example_reader 6 = 4" "pr_state (k_procs example_reader 4) = PROC_SLEEPING"
    "k_idleproc example_reader = 0"
    by (simp_all add: owner_def example_reader_def example_kstate_def example_proc_def)
  ultimately show ?thesis by (simp add: waiting_def)
qed

theorem keyboard_ring_is_queue_witness:
  "(\<exists>k' s'. dev_stdin_write 9 33 example_reader example_keys = Some (k', s') \<and> stdin_queue s' = [104, 105, 33] \<and>
     rq_inv k' [2, 3, 4] \<and> wq_inv 9 k' []) \<and>
   (\<exists>s'. dev_stdin_read (\<lambda>_. None) 2 example_keys = Some ([104, 105], s') \<and> stdin_queue s' = []) \<and>
   (\<exists>s'. dev_stdin_read (\<lambda>s. Some (WT_KBD + 1, s)) 5 example_keys = Some ([104, 105], s'))"
proof -
  note ring = keyboard_ring_is_queue [OF example_keys_ok(1)]
  have c: "owner example_reader 6 = 4" "k_current example_reader = 1"
    by (simp_all add: owner_def example_reader_def example_kstate_def)
  obtain k' s' where "dev_stdin_write 9 33 example_reader example_keys = Some (k', s')" "woken 9 [6] [2, 3] WT_KBD example_reader k'"
    "stdin_queue s' = [104, 105, 33]"
    using ring [THEN conjunct1, of 33 9 "[6]" "[2, 3]" example_reader] example_reader_waits example_keys_ok by auto
  moreover from this(2) have "rq_inv k' [2, 3, 4]" "wq_inv 9 k' []" by (simp_all add: woken_def c)
  moreover have "\<exists>s'. dev_stdin_read (\<lambda>_. None) 2 example_keys = Some ([104, 105], s') \<and> stdin_queue s' = []"
    using ring [THEN conjunct2, of 2 "\<lambda>_. None"] by (auto simp: example_keys_ok)
  moreover have "\<exists>s'. dev_stdin_read (\<lambda>s. Some (WT_KBD + 1, s)) 5 example_keys = Some ([104, 105], s')"
    using ring [THEN conjunct2, of 5 "\<lambda>s. Some (WT_KBD + 1, s)"] by (auto simp: example_keys_ok)
  ultimately show ?thesis by blast
qed

section \<open>The table of open files\<close>

text \<open>\<open>fd_table p s\<close>: the table \<open>p\<close> of the running process is in use, entry \<open>i\<close> carries the number \<open>i\<close>, free entries have
  no openings, and an open entry has one and a node that is referenced and opened.\<close>

definition fd_table :: "nat \<Rightarrow> fstate \<Rightarrow> bool" where
  "fd_table p s \<longleftrightarrow> f_filesp s = Some p \<and> fs_count (f_files s p) > 0 \<and> length (fs_array (f_files s p)) = 145 \<and>
     (\<forall>i < 145. let f = fs_array (f_files s p) ! i in fl_fd f = int i \<and>
        (fl_status f = FD_NONE \<longrightarrow> fl_open_count f = 0) \<and>
        (fl_status f = FD_OPENED \<longrightarrow> fl_open_count f = 1 \<and> (\<exists>n. fl_node f = Some n \<and>
           in_ref_count (f_inodes s n) > 0 \<and> in_open_count (f_inodes s n) > 0)))"

lemma NENTRY: "unat FILES_STRUCT_NENTRY = 145" "uint FILES_STRUCT_NENTRY = 145"
  by (simp_all add: FILES_STRUCT_NENTRY_def FILES_STRUCT_BUFSIZE_def PGSIZE_def)

lemma testfd_nat [simp]: "testfd (int i) \<longleftrightarrow> i < 145"
  by (simp add: testfd_def NENTRY)

lemma get_upd_file:
  "i < length (fs_array (f_files s p)) \<Longrightarrow>
   get_file (p, j) (upd_file (p, i) f s) = (if j = i then f (get_file (p, i) s) else get_file (p, j) s)"
  by (simp add: get_file_def upd_file_def upd_files_def nth_list_update)

lemma upd_file_sel [simp]:
  "f_inodes (upd_file r f s) = f_inodes s" "f_filesp (upd_file r f s) = f_filesp s"
  "fs_count (f_files (upd_file r f s) p) = fs_count (f_files s p)"
  "length (fs_array (f_files (upd_file r f s) p)) = length (fs_array (f_files s p))"
  by (cases r; simp add: upd_file_def upd_files_def)+

lemma get_file_inodes [simp]: "get_file r (upd_inode n g s) = get_file r s"
  by (simp add: get_file_def upd_inode_def split: prod.splits)

lemma upd_inode_sel [simp]:
  "f_inodes (upd_inode n g s) = (f_inodes s)(n := g (f_inodes s n))" "f_files (upd_inode n g s) = f_files s"
  "f_filesp (upd_inode n g s) = f_filesp s"
  by (simp_all add: upd_inode_def)

lemma fd_array_find_Some:
  "fd_array_find a = Some j \<Longrightarrow> j < length a \<and> fl_status (a ! j) = FD_NONE \<and> (\<forall>i < j. fl_status (a ! i) \<noteq> FD_NONE)"
proof (induction a arbitrary: j)
  case (Cons f a)
  then show ?case by (auto simp: less_Suc_eq_0_disj split: if_splits)
qed simp

lemma fd2file_open:
  assumes "fd_table p s" "i < 145" "fl_status (get_file (p, i) s) = FD_OPENED"
  shows "fd2file (int i) s = Some (0, (p, i))"
  using assms by (simp add: fd2file_def get_fd_array_def fd_table_def kassert_def Let_def get_file_def)

text \<open>The counts of a node that is opened and referenced more than once are only decremented by \<open>vfs_close\<close>.\<close>

lemma vfs_close_again:
  assumes "in_open_count (f_inodes s n) > 1" "in_ref_count (f_inodes s n) > 1"
  shows "vfs_close n s = Some (upd_inode n (\<lambda>i. i\<lparr>in_ref_count := in_ref_count i - 1, in_open_count := in_open_count i - 1\<rparr>) s)"
  using assms by (cases "f_inodes s n") (simp add: vfs_close_def inode_open_dec_def inode_ref_dec_def kassert_def Let_def upd_inode_def)

lemma upd_inode_upd_file: "upd_inode n g (upd_file r f s) = upd_file r f (upd_inode n g s)"
  by (simp add: upd_inode_def upd_file_def upd_files_def split: prod.splits)

lemma upd_file_upd_file: "snd r < length (fs_array (f_files s (fst r))) \<Longrightarrow> upd_file r f (upd_file r g s) = upd_file r (f \<circ> g) s"
  by (cases r, cases "f_files s (fst r)") (simp add: upd_file_def upd_files_def o_def)

lemma upd_file_cong:
  "snd r < length (fs_array (f_files s (fst r))) \<Longrightarrow> f (get_file r s) = g (get_file r s) \<Longrightarrow> upd_file r f s = upd_file r g s"
  by (cases r, cases "f_files s (fst r)") (simp add: upd_file_def upd_files_def get_file_def)

lemma upd_inode_id: "g (f_inodes s n) = f_inodes s n \<Longrightarrow> upd_inode n g s = s"
  by (simp add: upd_inode_def fun_upd_idem)

lemma upd_inode_upd_inode: "upd_inode n f (upd_inode n g s) = upd_inode n (f \<circ> g) s"
  by (simp add: upd_inode_def)

text \<open>C8. Duplicating a descriptor and closing the copy: \<^verbatim>\<open>file_dup\<close> takes the lowest free entry and gives it the
  node, position and permissions of the original, with one reference and one opening more on the node; closing the copy
  gives the entry free and restores every node, and no other entry of the table changes.\<close>

theorem dup_then_close:
  assumes tab: "fd_table p s" and i: "i < 145" "fl_status (get_file (p, i) s) = FD_OPENED" "fl_node (get_file (p, i) s) = Some n"
    and j: "fd_array_find (fs_array (f_files s p)) = Some j"
  shows "\<exists>s1 s2. file_dup (int i) NO_FD s = Some (int j, s1) \<and>
    fl_status (get_file (p, j) s1) = FD_OPENED \<and> fl_node (get_file (p, j) s1) = Some n \<and>
    fl_pos (get_file (p, j) s1) = fl_pos (get_file (p, i) s) \<and>
    fl_readable (get_file (p, j) s1) = fl_readable (get_file (p, i) s) \<and>
    fl_writable (get_file (p, j) s1) = fl_writable (get_file (p, i) s) \<and>
    in_ref_count (f_inodes s1 n) = in_ref_count (f_inodes s n) + 1 \<and>
    in_open_count (f_inodes s1 n) = in_open_count (f_inodes s n) + 1 \<and>
    file_close (int j) s1 = Some (0, s2) \<and> f_inodes s2 = f_inodes s \<and>
    fl_status (get_file (p, j) s2) = FD_NONE \<and> (\<forall>k. k \<noteq> j \<longrightarrow> get_file (p, k) s2 = get_file (p, k) s)"
proof -
  have len: "length (fs_array (f_files s p)) = 145" using tab by (simp add: fd_table_def)
  have j': "j < 145" "fl_status (get_file (p, j) s) = FD_NONE" using fd_array_find_Some [OF j] len by (simp_all add: get_file_def)
  have e: "fl_fd (get_file (p, j) s) = int j" "fl_open_count (get_file (p, j) s) = 0"
    "in_ref_count (f_inodes s n) > 0" "in_open_count (f_inodes s n) > 0" "f_filesp s = Some p" "fs_count (f_files s p) > 0"
    using tab i j' by (auto simp: fd_table_def get_file_def Let_def)
  define F where "F = get_file (p, i) s"
  define G where "G = (get_file (p, j) s)\<lparr>fl_status := FD_OPENED, fl_node := Some n, fl_pos := fl_pos F,
    fl_readable := fl_readable F, fl_writable := fl_writable F, fl_open_count := 1\<rparr>"
  define up :: "inode \<Rightarrow> inode"
    where "up = (\<lambda>i. i\<lparr>in_ref_count := in_ref_count i + 1, in_open_count := in_open_count i + 1\<rparr>)"
  define s1 where "s1 = upd_file (p, j) (\<lambda>_. G) (upd_inode n up s)"
  have "j \<noteq> i" using i j' by auto
  have oc: "fl_open_count (fs_array (f_files s p) ! j) = 0" using e(2) by (simp add: get_file_def)
  have up: "upd_inode n (in_open_count_update (\<lambda>c. c + 1)) (upd_inode n (in_ref_count_update (\<lambda>c. c + 1)) s) = upd_inode n up s"
    by (cases "f_inodes s n") (simp add: upd_inode_def up_def)
  have dup: "file_dup (int i) NO_FD s = Some (int j, s1)"
    using j \<open>j \<noteq> i\<close> e i j' len oc
    by (simp add: file_dup_def fd2file_open [OF tab i(1,2)] fd_array_alloc_def get_fd_array_def kassert_def
      fd_array_dup_def fd_array_open_def get_upd_file inode_ref_inc_def inode_open_inc_def Let_def upd_inode_upd_file
      upd_file_upd_file up s1_def, intro upd_file_cong) (simp_all add: F_def G_def)
  have g1: "get_file (p, k) s1 = (if k = j then G else get_file (p, k) s)" for k
    using j' len by (simp add: s1_def get_upd_file)
  have n1: "f_inodes s1 n = up (f_inodes s n)" by (simp add: s1_def)
  define s2 where "s2 = upd_file (p, j) (\<lambda>_. G\<lparr>fl_open_count := 0, fl_status := FD_NONE\<rparr>) s"
  have "upd_inode n ((\<lambda>i. i\<lparr>in_ref_count := in_ref_count i - 1, in_open_count := in_open_count i - 1\<rparr>) \<circ> up) s = s"
    by (rule upd_inode_id) (simp add: up_def)
  then have vc: "vfs_close n (upd_file (p, j) f s1) = Some (upd_file (p, j) f (upd_file (p, j) (\<lambda>_. G) s))" for f
    using e(3,4) n1 by (subst vfs_close_again) (simp_all add: upd_inode_upd_file upd_inode_upd_inode s1_def up_def)
  have "f_filesp s1 = Some p" "fs_count (f_files s1 p) > 0" using e(5,6) by (simp_all add: s1_def)
  then have "fd2file (int j) s1 = Some (0, (p, j))"
    using e j' by (simp add: fd2file_def get_fd_array_def kassert_def Let_def g1 G_def)
  moreover have "length (fs_array (f_files s1 p)) = 145" "fl_status G = FD_OPENED" "fl_open_count G = 1" "fl_node G = Some n"
    using len by (simp_all add: s1_def G_def)
  ultimately have close: "file_close (int j) s1 = Some (0, s2)"
    using j' len
    by (simp add: file_close_def fd_array_close_def fd_array_free_def kassert_def Let_def g1 get_upd_file vc)
      (simp add: s2_def upd_file_upd_file o_def)
  have "f_inodes s2 = f_inodes s" "get_file (p, k) s2 = (if k = j then G\<lparr>fl_open_count := 0, fl_status := FD_NONE\<rparr> else get_file (p, k) s)" for k
    using j' len by (simp_all add: s2_def get_upd_file)
  with dup close show ?thesis
    using n1 by (intro exI [of _ s1] exI [of _ s2]) (simp add: g1 G_def F_def up_def)
qed

definition example_files :: fstate where
  "example_files = example_fs\<lparr>f_filesp := Some 1, f_files := (\<lambda>_. \<lparr>fs_pwd = None,
     fs_array = map (\<lambda>i. \<lparr>fl_status = (if i < 2 then FD_OPENED else FD_NONE),
       fl_readable = True, fl_writable = True, fl_fd = int i, fl_pos = 0,
       fl_node = Some i, fl_open_count = (if i < 2 then 1 else 0)\<rparr>) [0 ..< 145],
     fs_count = 1, fs_sem = 1\<rparr>),
     f_inodes := (\<lambda>n. (f_inodes example_fs n)\<lparr>in_ops := Some (if n = 0 then DevNodeOps else SfsDirOps)\<rparr>)\<rparr>"

lemma example_fd_table: "fd_table 1 example_files"
  by (auto simp: fd_table_def example_files_def Let_def) (simp_all add: example_fs_def)

lemma example_files_entry:
  "i < 145 \<Longrightarrow> get_file (1, i) example_files = \<lparr>fl_status = (if i < 2 then FD_OPENED else FD_NONE), fl_readable = True,
     fl_writable = True, fl_fd = int i, fl_pos = 0, fl_node = Some i, fl_open_count = (if i < 2 then 1 else 0)\<rparr>"
  by (simp add: get_file_def example_files_def)

theorem dup_then_close_witness:
  "\<exists>s1 s2. file_dup 1 NO_FD example_files = Some (2, s1) \<and> file_close 2 s1 = Some (0, s2) \<and> f_inodes s2 = f_inodes example_files"
proof -
  have "fd_array_find (fs_array (f_files example_files 1)) = Some 2"
    by (simp add: example_files_def upt_conv_Cons numeral_2_eq_2)
  from dup_then_close [OF example_fd_table _ _ _ this, of 1 1] obtain s1 s2
    where "file_dup 1 NO_FD example_files = Some (2, s1)" "file_close 2 s1 = Some (0, s2)" "f_inodes s2 = f_inodes example_files"
    by (auto simp: example_files_entry [of 1, simplified])
  then show ?thesis by blast
qed

section \<open>Operations that the tables lack\<close>

lemma vop_table_ops:
  assumes "in_ops (f_inodes s n) = Some t"
  obtains "vop_table n s = None" | "vop_table n s = Some t"
  using assms by (cases "inode_check n s") (simp_all add: vop_table_def)

lemma upd_file_node [simp]: "fl_node (get_file r (upd_file r (fl_open_count_update f) s)) = fl_node (get_file r s)"
  by (cases r, cases "snd r < length (fs_array (f_files s (fst r)))")
    (simp_all add: get_file_def upd_file_def upd_files_def list_update_beyond)

text \<open>C34. An operation that the table of the node does not have stops the kernel, and each of these system calls reaches one on a
  descriptor that a user program can have: reading an open directory, listing what is not a directory, \<^verbatim>\<open>fsync\<close> of a device, and a
  seek in a directory.\<close>

theorem missing_operations_stop_kernel:
  assumes fd: "fd2file fd s = Some (0, fr)" and n: "fl_node (get_file fr s) = Some n"
    and t: "in_ops (f_inodes s n) = Some t"
  shows "(t = SfsDirOps \<and> fl_readable (get_file fr s) \<longrightarrow> file_read sleep fd base len s = None) \<and>
    (t \<noteq> SfsDirOps \<longrightarrow> file_getdirentry fd direntp s = None) \<and>
    (t = DevNodeOps \<longrightarrow> file_fsync fd s = None) \<and>
    (t = SfsDirOps \<longrightarrow> file_seek fd pos LSEEK_SET s = None)"
proof -
  define s1 where "s1 = upd_file fr (fl_open_count_update (\<lambda>c. c + 1)) s"
  have acq: "fd_array_acquire fr s = None \<or> fd_array_acquire fr s = Some s1"
    by (simp add: fd_array_acquire_def kassert_def s1_def)
  have s1: "fl_node (get_file fr s1) = Some n" "in_ops (f_inodes s1 n) = Some t" using n t by (simp_all add: s1_def)
  from s1(2) have v: "vop_table n s1 = None \<or> vop_table n s1 = Some t" by (auto elim: vop_table_ops)
  have "t = SfsDirOps \<Longrightarrow> vop_read sleep n iob s1 = None" "t \<noteq> SfsDirOps \<Longrightarrow> vop_getdirentry n iob s1 = None"
    "t = SfsDirOps \<Longrightarrow> vop_tryseek n pos s1 = None" for iob
    using v by (auto simp: vop_read_def vop_getdirentry_def vop_tryseek_def split: in_ops.splits)
  moreover have "t = DevNodeOps \<Longrightarrow> vop_fsync n s1 = None"
    using v by (auto simp: vop_fsync_def)
  ultimately show ?thesis
    using fd acq s1(1)
    by (auto simp: file_read_def file_getdirentry_def file_fsync_def file_seek_def LSEEK_SET_def Let_def)
qed

theorem missing_operations_stop_kernel_witness:
  "file_read (\<lambda>_. None) 1 0x1000 16 example_files = None \<and> file_getdirentry 0 0x1000 example_files = None \<and>
   file_fsync 0 example_files = None \<and> file_seek 1 0 LSEEK_SET example_files = None"
proof -
  have "fd2file 0 example_files = Some (0, (1, 0))" "fd2file 1 example_files = Some (0, (1, 1))"
    using fd2file_open [OF example_fd_table, of 0] fd2file_open [OF example_fd_table, of 1]
    by (simp_all add: example_files_entry [of 0, simplified] example_files_entry [of 1, simplified])
  moreover have "in_ops (f_inodes example_files 0) = Some DevNodeOps" "in_ops (f_inodes example_files 1) = Some SfsDirOps"
    by (simp_all add: example_files_def)
  ultimately show ?thesis
    using missing_operations_stop_kernel [of 0 example_files "(1, 0)" 0 DevNodeOps]
      missing_operations_stop_kernel [of 1 example_files "(1, 1)" 1 SfsDirOps]
    by (simp add: example_files_entry [of 0, simplified] example_files_entry [of 1, simplified])
qed

end
