(* ===== verification/Life.thy ===== *)
theory Life
  imports Proc File Printfmt
begin

text \<open>
  The life of a process: \<^verbatim>\<open>kern/process/proc.c\<close> where it joins the process table (\<^verbatim>\<open>Proc\<close>), the memory of the
  process (\<^verbatim>\<open>Vmm\<close>) and its open files (\<^verbatim>\<open>File\<close>): fork, exec, exit and wait, and the first two threads. A process is named by
  the address of its descriptor, its trap frame is a field of it.
\<close>

unbundle bit_operations_syntax

section \<open>The state of the kernel\<close>

text \<open>\<open>cur_f\<close>: what the file system sees of the running process. The semaphore of its address space is one of the
  process state.\<close>

record sys =
  sy_k :: kstate
  sy_f :: fstate

definition cur :: "sys \<Rightarrow> proc_struct" where "cur s = k_procs (sy_k s) (k_current (sy_k s))"

definition cur_f :: "sys \<Rightarrow> fstate" where
  "cur_f s = (sy_f s)\<lparr>f_filesp := pr_filesp (cur s), f_mm := pr_mm (cur s), f_pid := pr_pid (cur s),
     f_mm_sem := (case pr_mm (cur s) of Some m \<Rightarrow> k_sems (sy_k s) (mm_sem m) | None \<Rightarrow> 1)\<rparr>"

definition sy_vm :: "sys \<Rightarrow> vmstate" where "sy_vm s = f_vm (sy_f s)"

definition set_k :: "kstate \<Rightarrow> sys \<Rightarrow> sys" where "set_k k s = s\<lparr>sy_k := k\<rparr>"
definition set_f :: "fstate \<Rightarrow> sys \<Rightarrow> sys" where "set_f f s = s\<lparr>sy_f := f\<rparr>"
definition set_vm :: "vmstate \<Rightarrow> sys \<Rightarrow> sys" where "set_vm v s = s\<lparr>sy_f := (sy_f s)\<lparr>f_vm := v\<rparr>\<rparr>"
definition set_mem :: "mem \<Rightarrow> sys \<Rightarrow> sys" where "set_mem m s = s\<lparr>sy_f := (sy_f s)\<lparr>f_mem := m\<rparr>\<rparr>"

definition upd_cur :: "(proc_struct \<Rightarrow> proc_struct) \<Rightarrow> sys \<Rightarrow> sys" where
  "upd_cur f s = set_k (upd_proc (k_current (sy_k s)) f (sy_k s)) s"

definition upd_pr :: "nat \<Rightarrow> (proc_struct \<Rightarrow> proc_struct) \<Rightarrow> sys \<Rightarrow> sys" where
  "upd_pr p f s = set_k (upd_proc p f (sy_k s)) s"

text \<open>The addresses that the linker gives to the code a new thread starts in, and the register \<open>gp\<close>.\<close>

record kaddrs =
  ka_forkret :: u32
  ka_kernel_thread_entry :: u32
  ka_init_main :: u32
  ka_user_main :: u32
  ka_bootstack :: u32
  ka_gp :: u32

text \<open>\<open>proc_run\<close> loads the page directory of the process it switches to.\<close>

definition schedule_sys :: "sys \<Rightarrow> sys option" where
  "schedule_sys s = do {
     k \<leftarrow> schedule (sy_k s);
     let n = k_current k;
     Some (if n \<noteq> k_current (sy_k s) then set_vm (load_pgdir (pr_pgdir (k_procs k n)) (sy_vm s)) (set_k k s)
           else set_k k s) }"

section \<open>Parts of a new process\<close>

text \<open>\<open>sizeof(struct proc_struct)\<close> is 216. The table of files that \<open>alloc_proc\<close> creates starts as \<open>junk\<close>.\<close>

definition alloc_proc_sys :: "open_file list \<Rightarrow> sys \<Rightarrow> (nat option \<times> sys) option" where
  "alloc_proc_sys junk s = do {
     (a, v) \<leftarrow> kmalloc 216 (sy_vm s);
     let s = set_vm v s;
     if a = 0 then Some (None, s)
     else do {
       (fs, f) \<leftarrow> files_create junk (sy_f s);
       let p = unat a;
       Some (Some p, set_k (alloc_proc p (v_boot_pgdir v) fs (sy_k s)) (set_f f s)) } }"

definition KSTACKPAGE :: u32 where "KSTACKPAGE = 2"
definition KSTACKSIZE :: u32 where "KSTACKSIZE = KSTACKPAGE * PGSIZE"

definition setup_kstack :: "nat \<Rightarrow> sys \<Rightarrow> (int \<times> sys) option" where
  "setup_kstack p s = do {
     (page, v) \<leftarrow> alloc_pages KSTACKPAGE (sy_vm s);
     let s = set_vm v s;
     (case page of
        Some pg \<Rightarrow> do { a \<leftarrow> page2kva v pg; Some (0, upd_pr p (pr_kstack_update (\<lambda>_. a)) s) }
      | None \<Rightarrow> Some (- E_NO_MEM, s)) }"

definition put_kstack :: "nat \<Rightarrow> sys \<Rightarrow> sys option" where
  "put_kstack p s = do {
     pg \<leftarrow> kva2page (sy_vm s) (pr_kstack (k_procs (sy_k s) p));
     v \<leftarrow> free_pages pg KSTACKPAGE (sy_vm s);
     Some (set_vm v s) }"

definition setup_pgdir :: "nat \<Rightarrow> vmstate \<Rightarrow> (int \<times> vmstate) option" where
  "setup_pgdir mm v = do {
     (page, v) \<leftarrow> alloc_pages 1 v;
     (case page of
        None \<Rightarrow> Some (- E_NO_MEM, v)
      | Some pg \<Rightarrow> do {
          pgdir \<leftarrow> page2kva v pg;
          let v = copy_page pgdir (v_boot_pgdir v) v;
          pa \<leftarrow> PADDR pgdir;
          let v = store_word (pgdir + 4 * PDX VPT) (pa OR PTE_P OR PTE_W) v;
          Some (0, upd_mm mm (mm_pgdir_update (\<lambda>_. pgdir)) v) }) }"

definition put_pgdir :: "nat \<Rightarrow> vmstate \<Rightarrow> vmstate option" where
  "put_pgdir mm v = do { pg \<leftarrow> kva2page v (mm_pgdir (v_mms v mm)); free_pages pg 1 v }"

text \<open>The label \<open>good_mm\<close> of \<open>copy_mm\<close>.\<close>

definition share_mm :: "nat \<Rightarrow> nat \<Rightarrow> sys \<Rightarrow> sys" where
  "share_mm p mm s =
     (let s = set_vm (snd (mm_count_inc mm (sy_vm s))) s
      in upd_pr p (\<lambda>r. r\<lparr>pr_mm := Some mm, pr_pgdir := mm_pgdir (v_mms (sy_vm s) mm)\<rparr>) s)"

definition CLONE_VM :: u32 where "CLONE_VM = 0x00000100"
definition CLONE_THREAD :: u32 where "CLONE_THREAD = 0x00000200"
definition CLONE_FS :: u32 where "CLONE_FS = 0x00000800"

text \<open>\<open>others\<close> is what the other processes do while this one waits for the lock, with its wait entry \<open>w\<close>.\<close>

definition copy_mm :: "(kstate \<Rightarrow> kstate option) \<Rightarrow> nat \<Rightarrow> u32 \<Rightarrow> nat \<Rightarrow> sys \<Rightarrow> (int \<times> sys) option" where
  "copy_mm others w clone_flags p s =
     (case pr_mm (cur s) of
        None \<Rightarrow> Some (0, s)
      | Some oldmm \<Rightarrow>
          if clone_flags AND CLONE_VM \<noteq> 0 then Some (0, share_mm p oldmm s)
          else do {
            (mm, k, v) \<leftarrow> mm_create (sy_k s) (sy_vm s);
            (case mm of
               None \<Rightarrow> Some (- E_NO_MEM, set_vm v (set_k k s))
             | Some mm \<Rightarrow> do {
                 (r, v) \<leftarrow> setup_pgdir mm v;
                 if r \<noteq> 0 then do { v \<leftarrow> mm_destroy mm v; Some (- E_NO_MEM, set_vm v (set_k k s)) }
                 else do {
                   (k, v) \<leftarrow> lock_mm others (Some oldmm) w k v;
                   (r, v) \<leftarrow> dup_mmap mm oldmm v;
                   (k, v) \<leftarrow> unlock_mm (Some oldmm) k v;
                   if r \<noteq> 0 then do {
                     v \<leftarrow> exit_mmap mm v;
                     v \<leftarrow> put_pgdir mm v;
                     v \<leftarrow> mm_destroy mm v;
                     Some (r, set_vm v (set_k k s)) }
                   else Some (0, share_mm p mm (set_vm v (set_k k s))) } }) })"

text \<open>\<open>sizeof(struct trapframe)\<close> is 152.\<close>

definition copy_thread :: "kaddrs \<Rightarrow> nat \<Rightarrow> u32 \<Rightarrow> trapframe \<Rightarrow> sys \<Rightarrow> sys" where
  "copy_thread ka p esp tf s = upd_pr p (\<lambda>r. r\<lparr>
     pr_tf := tf\<lparr>tf_regs := (tf_regs tf)(R_v0 := 0, R_sp := esp), tf_Status := tf_Status tf OR 0x3\<rparr>,
     pr_context := \<lparr>ctx_ra = ka_forkret ka, ctx_sp = pr_kstack r + KSTACKSIZE - 152\<rparr>\<rparr>) s"

definition files_count_inc :: "nat \<Rightarrow> fstate \<Rightarrow> int \<times> fstate" where
  "files_count_inc p s = (let s = upd_files p (fs_count_update (\<lambda>c. c + 1)) s in (fs_count (f_files s p), s))"

definition files_count_dec :: "nat \<Rightarrow> fstate \<Rightarrow> int \<times> fstate" where
  "files_count_dec p s = (let s = upd_files p (fs_count_update (\<lambda>c. c - 1)) s in (fs_count (f_files s p), s))"

definition copy_files :: "open_file list \<Rightarrow> u32 \<Rightarrow> nat \<Rightarrow> sys \<Rightarrow> (int \<times> sys) option" where
  "copy_files junk clone_flags p s = do {
     old \<leftarrow> pr_filesp (cur s);
     (r, filesp, f) \<leftarrow>
       (if clone_flags AND CLONE_FS \<noteq> 0 then Some (0, Some old, sy_f s)
        else do {
          (filesp, f) \<leftarrow> files_create junk (sy_f s);
          (case filesp of
             None \<Rightarrow> Some (- E_NO_MEM, None, f)
           | Some q \<Rightarrow> do {
               (r, f) \<leftarrow> dup_files q old f;
               if r \<noteq> 0 then do { f \<leftarrow> files_destroy q f; Some (r, None, f) }
               else Some (0, Some q, f) }) });
     (case filesp of
        None \<Rightarrow> Some (r, set_f f s)
      | Some q \<Rightarrow> Some (0, upd_pr p (pr_filesp_update (\<lambda>_. Some q)) (set_f (snd (files_count_inc q f)) s))) }"

definition put_files :: "nat \<Rightarrow> sys \<Rightarrow> sys option" where
  "put_files p s =
     (case pr_filesp (k_procs (sy_k s) p) of
        None \<Rightarrow> Some s
      | Some q \<Rightarrow> do {
          let (c, f) = files_count_dec q (sy_f s);
          f \<leftarrow> (if c = 0 then files_destroy q f else Some f);
          Some (set_f f s) })"

section \<open>Fork\<close>

text \<open>\<open>junk\<close> is what the memory of the two tables of files holds that \<open>alloc_proc\<close> and \<open>copy_files\<close> create.\<close>

definition kfree_sys :: "u32 \<Rightarrow> sys \<Rightarrow> sys option" where
  "kfree_sys p s = do { v \<leftarrow> kfree p (sy_vm s); Some (set_vm v s) }"

text \<open>The labels at the end of \<open>do_fork\<close>, and its last steps.\<close>

definition fork_cleanup_kstack :: "nat \<Rightarrow> sys \<Rightarrow> (int \<times> sys) option" where
  "fork_cleanup_kstack p s = do { s \<leftarrow> put_kstack p s; s \<leftarrow> kfree_sys (of_nat p) s; Some (- E_NO_MEM, s) }"

definition fork_publish :: "nat \<Rightarrow> sys \<Rightarrow> (int \<times> sys) option" where
  "fork_publish p s = do {
     (pid, k) \<leftarrow> get_pid (sy_k s);
     let k = upd_proc p (pr_pid_update (\<lambda>_. pid)) k;
     let k = hash_proc p k;
     k \<leftarrow> set_links p k;
     k \<leftarrow> wakeup_proc p k;
     Some (pr_pid (k_procs k p), set_k k s) }"

definition do_fork ::
  "kaddrs \<Rightarrow> (kstate \<Rightarrow> kstate option) \<Rightarrow> nat \<Rightarrow> open_file list \<times> open_file list \<Rightarrow> u32 \<Rightarrow> u32 \<Rightarrow> trapframe \<Rightarrow> sys \<Rightarrow> (int \<times> sys) option" where
  "do_fork ka others w junk clone_flags stack tf s =
     (if k_nr_process (sy_k s) \<ge> MAX_PROCESS then Some (- E_NO_FREE_PROC, s)
      else do {
        (p, s) \<leftarrow> alloc_proc_sys (fst junk) s;
        kassert (pr_wait_state (cur s) = 0);
        p \<leftarrow> p;
        let s = upd_pr p (pr_parent_update (\<lambda>_. Some (k_current (sy_k s)))) s;
        (r, s) \<leftarrow> setup_kstack p s;
        if r \<noteq> 0 then do { s \<leftarrow> kfree_sys (of_nat p) s; Some (- E_NO_MEM, s) }
        else do {
          (r, s) \<leftarrow> copy_mm others w clone_flags p s;
          if r \<noteq> 0 then fork_cleanup_kstack p s
          else do {
            (r, s) \<leftarrow> copy_files (snd junk) clone_flags p s;
            if r \<noteq> 0 then do { s \<leftarrow> put_files p s; fork_cleanup_kstack p s }
            else fork_publish p (copy_thread ka p stack tf s) } } })"

definition tf_zero :: trapframe where
  "tf_zero = \<lparr>tf_regs = (\<lambda>_. 0), tf_Status = 0, tf_Cause = 0, tf_EPC = 0, tf_BadVAddr = 0, tf_LO = 0, tf_HI = 0\<rparr>"

definition kernel_thread ::
  "kaddrs \<Rightarrow> (kstate \<Rightarrow> kstate option) \<Rightarrow> nat \<Rightarrow> open_file list \<times> open_file list \<Rightarrow> u32 \<Rightarrow> u32 \<Rightarrow> u32 \<Rightarrow> sys \<Rightarrow> (int \<times> sys) option" where
  "kernel_thread ka others w junk fn arg clone_flags s =
     do_fork ka others w junk (clone_flags OR CLONE_VM) 0
       (tf_zero\<lparr>tf_regs := (\<lambda>_. 0)(R_a1 := fn, R_a0 := arg, R_gp := ka_gp ka),
                tf_EPC := ka_kernel_thread_entry ka, tf_Status := 0\<rparr>) s"

section \<open>Exit and wait\<close>

text \<open>A call that ends in \<open>do_exit\<close> does not return: \<open>Inl s\<close> is the state in which another process goes on. A
  return is \<open>Inr (r, s)\<close>.\<close>

type_synonym outcome = "sys + (int \<times> sys)"

text \<open>The release of an address space in \<open>do_exit\<close> and \<open>do_execve\<close>.\<close>

definition drop_mm :: "sys \<Rightarrow> sys option" where
  "drop_mm s =
     (case pr_mm (cur s) of
        None \<Rightarrow> Some s
      | Some mm \<Rightarrow> do {
          let v = load_pgdir (v_boot_pgdir (sy_vm s)) (sy_vm s);
          let (c, v) = mm_count_dec mm v;
          v \<leftarrow> (if c = 0 then do { v \<leftarrow> exit_mmap mm v; v \<leftarrow> put_pgdir mm v; mm_destroy mm v } else Some v);
          Some (upd_cur (pr_mm_update (\<lambda>_. None)) (set_vm v s)) })"

definition do_exit :: "int \<Rightarrow> sys \<Rightarrow> sys option" where
  "do_exit error_code s = do {
     kassert (k_current (sy_k s) \<noteq> k_idleproc (sy_k s));
     kassert (k_current (sy_k s) \<noteq> k_initproc (sy_k s));
     s \<leftarrow> drop_mm s;
     s \<leftarrow> put_files (k_current (sy_k s)) s;
     k \<leftarrow> exit_notify error_code (sy_k s);
     schedule_sys (set_k k s) }"

text \<open>\<open>code_store = 0\<close> is NULL. \<open>others\<close> is what the other processes do while this one sleeps.\<close>

definition wait_found :: "u32 \<Rightarrow> nat \<Rightarrow> sys \<Rightarrow> (int \<times> sys) option" where
  "wait_found code_store p s = do {
     (code, k) \<leftarrow> wait_reap p (sy_k s);
     let s = (if code_store \<noteq> 0 then set_mem (put_bytes code_store (le32 (word_of_int code)) (f_mem (sy_f s))) s else s);
     s \<leftarrow> put_kstack p (set_k k s);
     s \<leftarrow> kfree_sys (of_nat p) s;
     Some (0, s) }"

partial_function (option) do_wait_loop :: "(sys \<Rightarrow> sys option) \<Rightarrow> int \<Rightarrow> u32 \<Rightarrow> sys \<Rightarrow> outcome option" where
  "do_wait_loop others pid code_store s = do {
     (haskid, found) \<leftarrow> wait_search pid (sy_k s);
     (case found of
        Some p \<Rightarrow> map_option Inr (wait_found code_store p s)
      | None \<Rightarrow>
          if haskid then do {
            let s = upd_cur (\<lambda>r. r\<lparr>pr_state := PROC_SLEEPING, pr_wait_state := WT_CHILD\<rparr>) s;
            s \<leftarrow> schedule_sys s;
            s \<leftarrow> others s;
            if pr_flags (cur s) AND PF_EXITING \<noteq> 0 then map_option Inl (do_exit (- E_KILLED) s)
            else do_wait_loop others pid code_store s }
          else Some (Inr (- E_BAD_PROC, s))) }"

definition do_wait_sys :: "(sys \<Rightarrow> sys option) \<Rightarrow> int \<Rightarrow> u32 \<Rightarrow> sys \<Rightarrow> outcome option" where
  "do_wait_sys others pid code_store s = do {
     (ok, v) \<leftarrow> (if code_store \<noteq> 0 then user_mem_check (pr_mm (cur s)) code_store 4 True (sy_vm s) else Some (True, sy_vm s));
     let s = set_vm v s;
     if ok then do_wait_loop others pid code_store s else Some (Inr (- E_INVAL, s)) }"

section \<open>Programs\<close>

text \<open>Operations of the file system on behalf of the running process.\<close>

definition on_files :: "(fstate \<Rightarrow> ('a \<times> fstate) option) \<Rightarrow> sys \<Rightarrow> ('a \<times> sys) option" where
  "on_files op s = do { (r, f) \<leftarrow> op (cur_f s); Some (r, set_f f s) }"

definition load_icode_read :: "sleeper \<Rightarrow> int \<Rightarrow> u32 \<Rightarrow> u32 \<Rightarrow> u32 \<Rightarrow> sys \<Rightarrow> (int \<times> sys) option" where
  "load_icode_read sleep fd buf len offset s = do {
     (r, s) \<leftarrow> on_files (sysfile_seek fd offset LSEEK_SET) s;
     if r \<noteq> 0 then Some (r, s)
     else do {
       (r, s) \<leftarrow> on_files (sysfile_read sleep fd buf len) s;
       Some (if word_of_int r \<noteq> len then (if r < 0 then r else - 1) else 0, s) } }"

text \<open>\<open>assert(load_icode_read(...) == 0)\<close> and \<open>assert((page = pgdir_alloc_page(...)) != NULL)\<close>.\<close>

definition must_read :: "sleeper \<Rightarrow> int \<Rightarrow> u32 \<Rightarrow> u32 \<Rightarrow> u32 \<Rightarrow> sys \<Rightarrow> sys option" where
  "must_read sleep fd buf len offset s = do {
     (r, s) \<leftarrow> load_icode_read sleep fd buf len offset s;
     kassert (r = 0);
     Some s }"

definition must_page :: "nat \<Rightarrow> u32 \<Rightarrow> u32 \<Rightarrow> sys \<Rightarrow> (nat \<times> sys) option" where
  "must_page mm la perm s = do {
     (page, v) \<leftarrow> pgdir_alloc_page (mm_pgdir (v_mms (sy_vm s) mm)) la perm (sy_vm s);
     pg \<leftarrow> page;
     Some (pg, set_vm v s) }"

text \<open>The offsets of the fields of \<open>struct elfhdr\<close> (52 bytes) and \<open>struct proghdr\<close> (32 bytes) that are read.\<close>

definition mem_at :: "sys \<Rightarrow> u32 \<Rightarrow> u32" where "mem_at s a = rd_mem32 a (sy_f s)"
definition mem16_at :: "sys \<Rightarrow> u32 \<Rightarrow> u16" where "mem16_at s a = rd16 (bytes_at (f_mem (sy_f s)) a 2) 0"

definition e_entry :: "sys \<Rightarrow> u32 \<Rightarrow> u32" where "e_entry s h = mem_at s (h + 24)"
definition e_phoff :: "sys \<Rightarrow> u32 \<Rightarrow> u32" where "e_phoff s h = mem_at s (h + 28)"
definition e_phnum :: "sys \<Rightarrow> u32 \<Rightarrow> u16" where "e_phnum s h = mem16_at s (h + 44)"

record proghdr =
  p_type :: u32
  p_offset :: u32
  p_va :: u32
  p_filesz :: u32
  p_memsz :: u32
  p_flags :: u32

definition proghdr_at :: "sys \<Rightarrow> u32 \<Rightarrow> proghdr" where
  "proghdr_at s ph = \<lparr>p_type = mem_at s ph, p_offset = mem_at s (ph + 4), p_va = mem_at s (ph + 8),
     p_filesz = mem_at s (ph + 16), p_memsz = mem_at s (ph + 20), p_flags = mem_at s (ph + 24)\<rparr>"

definition ELF_PT_LOAD :: u32 where "ELF_PT_LOAD = 1"
definition ELF_PF_X :: u32 where "ELF_PF_X = 1"
definition ELF_PF_W :: u32 where "ELF_PF_W = 2"
definition ELF_PF_R :: u32 where "ELF_PF_R = 4"

text \<open>The parts of the loop over the segments: the first partial page, the whole pages, the last partial page
  and the zeroes. They carry \<open>la\<close>, \<open>offset\<close> and \<open>page\<close>.\<close>

definition load_first_page ::
  "sleeper \<Rightarrow> int \<Rightarrow> nat \<Rightarrow> u32 \<Rightarrow> u32 \<Rightarrow> u32 \<Rightarrow> u32 \<Rightarrow> sys \<Rightarrow> (u32 \<times> u32 \<times> nat option \<times> sys) option" where
  "load_first_page sleep fd mm perm filesz la offset s =
     (if la mod PGSIZE > 0 then do {
        (pg, s) \<leftarrow> must_page mm la perm s;
        let len = (if la div PGSIZE = (la + filesz) div PGSIZE then filesz else PGSIZE - la mod PGSIZE);
        kva \<leftarrow> page2kva (sy_vm s) pg;
        s \<leftarrow> must_read sleep fd (kva + la mod PGSIZE) len offset s;
        Some (la + len, offset + len, Some pg, s) }
      else Some (la, offset, None, s))"

partial_function (option) load_whole_pages ::
  "sleeper \<Rightarrow> int \<Rightarrow> nat \<Rightarrow> u32 \<Rightarrow> u32 \<Rightarrow> u32 \<Rightarrow> u32 \<Rightarrow> nat option \<Rightarrow> sys \<Rightarrow> (u32 \<times> u32 \<times> nat option \<times> sys) option" where
  "load_whole_pages sleep fd mm perm limit la offset page s =
     (if la < limit then do {
        (pg, s) \<leftarrow> must_page mm la perm s;
        kva \<leftarrow> page2kva (sy_vm s) pg;
        s \<leftarrow> must_read sleep fd kva PGSIZE offset s;
        load_whole_pages sleep fd mm perm limit (la + PGSIZE) (offset + PGSIZE) (Some pg) s }
      else Some (la, offset, page, s))"

definition load_last_page ::
  "sleeper \<Rightarrow> int \<Rightarrow> nat \<Rightarrow> u32 \<Rightarrow> u32 \<Rightarrow> u32 \<Rightarrow> u32 \<Rightarrow> nat option \<Rightarrow> sys \<Rightarrow> (u32 \<times> nat option \<times> sys) option" where
  "load_last_page sleep fd mm perm file_end la offset page s =
     (if la < file_end then do {
        (pg, s) \<leftarrow> must_page mm la perm s;
        let len = file_end mod PGSIZE;
        kva \<leftarrow> page2kva (sy_vm s) pg;
        s \<leftarrow> must_read sleep fd kva len offset s;
        Some (la + len, Some pg, s) }
      else Some (la, page, s))"

partial_function (option) load_bss :: "nat \<Rightarrow> u32 \<Rightarrow> u32 \<Rightarrow> u32 \<Rightarrow> nat option \<Rightarrow> sys \<Rightarrow> sys option" where
  "load_bss mm perm mem_end la page s =
     (if la < mem_end then do {
        (pg, s) \<leftarrow> (if la mod PGSIZE = 0 then must_page mm la perm s
                     else do { pg \<leftarrow> page; Some (pg, s) });
        let len = (if la mod PGSIZE = 0 then PGSIZE else PGSIZE - la mod PGSIZE);
        let len = (if la div PGSIZE = mem_end div PGSIZE then len - (PGSIZE - mem_end mod PGSIZE) else len);
        kva \<leftarrow> page2kva (sy_vm s) pg;
        let s = set_mem (memset (f_mem (sy_f s)) (kva + la mod PGSIZE) 0 len) s;
        load_bss mm perm mem_end (la + len) (Some pg) s }
      else Some s)"

definition load_segment :: "sleeper \<Rightarrow> int \<Rightarrow> nat \<Rightarrow> proghdr \<Rightarrow> sys \<Rightarrow> sys option" where
  "load_segment sleep fd mm ph s = do {
     let flags = (if p_flags ph AND ELF_PF_R \<noteq> 0 then VM_READ else 0) OR
                 (if p_flags ph AND ELF_PF_W \<noteq> 0 then VM_WRITE else 0) OR
                 (if p_flags ph AND ELF_PF_X \<noteq> 0 then VM_EXEC else 0);
     let perm = PTE_U OR (if p_flags ph AND ELF_PF_W \<noteq> 0 then PTE_W else 0);
     (r, _, v) \<leftarrow> mm_map (Some mm) (p_va ph) (p_memsz ph) flags (sy_vm s);
     kassert (r = 0);
     kassert (p_memsz ph \<ge> p_filesz ph);
     let file_end = p_va ph + p_filesz ph;
     (la, offset, page, s) \<leftarrow> load_first_page sleep fd mm perm (p_filesz ph) (p_va ph) (p_offset ph) (set_vm v s);
     (la, offset, page, s) \<leftarrow> load_whole_pages sleep fd mm perm (file_end div PGSIZE * PGSIZE) la offset page s;
     (la, page, s) \<leftarrow> load_last_page sleep fd mm perm file_end la offset page s;
     load_bss mm perm (p_va ph + p_memsz ph) la page s }"

text \<open>\<open>h\<close> and \<open>ph\<close> are the addresses of the two headers on the kernel stack; the headers are read from
  the last to the first.\<close>

fun load_segments :: "sleeper \<Rightarrow> int \<Rightarrow> nat \<Rightarrow> u32 \<Rightarrow> u32 \<Rightarrow> nat \<Rightarrow> sys \<Rightarrow> sys option" where
  "load_segments sleep fd mm h ph 0 s = Some s"
| "load_segments sleep fd mm h ph (Suc n) s = do {
     s \<leftarrow> must_read sleep fd ph 32 (e_phoff s h + 32 * of_nat n) s;
     s \<leftarrow> (if p_type (proghdr_at s ph) \<noteq> ELF_PT_LOAD then Some s
            else load_segment sleep fd mm (proghdr_at s ph) s);
     load_segments sleep fd mm h ph n s }"

definition USTACKSIZE :: u32 where "USTACKSIZE = 256 * PGSIZE"
definition USTACKTOP :: u32 where "USTACKTOP = USERTOP"

fun load_stack_pages :: "nat \<Rightarrow> nat \<Rightarrow> nat \<Rightarrow> sys \<Rightarrow> sys option" where
  "load_stack_pages mm i 0 s = Some s"
| "load_stack_pages mm i (Suc k) s = do {
     (_, s) \<leftarrow> must_page mm (USTACKTOP - of_nat i * PGSIZE) PTE_USER s;
     load_stack_pages mm (i + 1) k s }"

text \<open>The arguments are copied below the top of the user stack; the results are \<open>u_esp\<close> and \<open>u_argv\<close>.\<close>

fun push_args :: "u32 list \<Rightarrow> u32 \<Rightarrow> mem \<Rightarrow> (u32 \<times> u32 list \<times> mem) option" where
  "push_args [] esp m = Some (esp, [], m)"
| "push_args (a # as) esp m = do {
     n \<leftarrow> strlen m a;
     let esp = esp - 4 * ((n + 1 + 3) div 4);
     m \<leftarrow> strcpy m esp a;
     (esp', us, m) \<leftarrow> push_args as esp m;
     Some (esp', esp # us, m) }"

definition push_argv :: "u32 list \<Rightarrow> mem \<Rightarrow> (u32 \<times> mem) option" where
  "push_argv kargv m = do {
     (esp, us, m) \<leftarrow> push_args kargv USTACKTOP m;
     let esp = esp - 4 * of_nat (length kargv);
     let m = put_bytes esp (concat (map le32 us)) m;
     let esp = esp - 4;
     Some (esp, put_bytes esp (le32 (of_nat (length kargv))) m) }"

text \<open>The accesses of \<open>load_icode\<close> to the user stack go through the new page directory; \<open>f_mem\<close> is then the view of memory
  that it gives.\<close>

definition load_icode :: "sleeper \<Rightarrow> u32 \<Rightarrow> u32 \<Rightarrow> int \<Rightarrow> u32 list \<Rightarrow> sys \<Rightarrow> (int \<times> sys) option" where
  "load_icode sleep h ph fd kargv s = do {
     (mm, k, v) \<leftarrow> mm_create (sy_k s) (sy_vm s);
     mm \<leftarrow> mm;
     (r, v) \<leftarrow> setup_pgdir mm v;
     kassert (r = 0);
     s \<leftarrow> must_read sleep fd h 52 0 (set_vm v (set_k k s));
     s \<leftarrow> load_segments sleep fd mm h ph (unat (e_phnum s h)) s;
     (r, _, v) \<leftarrow> mm_map (Some mm) (USTACKTOP - USTACKSIZE) USTACKSIZE (VM_READ OR VM_WRITE OR VM_STACK) (sy_vm s);
     kassert (r = 0);
     s \<leftarrow> load_stack_pages mm 1 4 (set_vm v s);
     let s = share_mm (k_current (sy_k s)) mm s;
     let s = set_vm (load_pgdir (pr_pgdir (cur s)) (sy_vm s)) s;
     (esp, m) \<leftarrow> push_argv kargv (f_mem (sy_f s));
     let s = set_mem m s;
     let tf = tf_zero\<lparr>tf_regs := (\<lambda>_. 0)(R_a0 := of_nat (length kargv), R_a1 := esp + 4, R_sp := esp),
                      tf_EPC := e_entry s h, tf_Status := 0x13\<rparr>;
     Some (0, upd_cur (pr_tf_update (\<lambda>_. tf)) s) }"

definition EXEC_MAX_ARG_NUM :: int where "EXEC_MAX_ARG_NUM = 32"
definition EXEC_MAX_ARG_LEN :: u32 where "EXEC_MAX_ARG_LEN = 4095"

text \<open>\<open>put_kargv\<close> frees from the last argument on.\<close>

fun put_kargv_rev :: "u32 list \<Rightarrow> sys \<Rightarrow> sys option" where
  "put_kargv_rev [] s = Some s"
| "put_kargv_rev (a # as) s = do { s \<leftarrow> kfree_sys a s; put_kargv_rev as s }"

definition put_kargv :: "u32 list \<Rightarrow> sys \<Rightarrow> sys option" where
  "put_kargv as s = put_kargv_rev (rev as) s"

text \<open>The loop of \<open>copy_kargv\<close>: \<open>acc\<close> has the arguments that are copied, the next user pointer is at \<open>argv\<close>.\<close>

fun copy_kargv_loop :: "nat option \<Rightarrow> nat \<Rightarrow> u32 \<Rightarrow> u32 list \<Rightarrow> sys \<Rightarrow> (int \<times> u32 list \<times> sys) option" where
  "copy_kargv_loop mm 0 argv acc s = Some (0, acc, s)"
| "copy_kargv_loop mm (Suc k) argv acc s = do {
     (buffer, v) \<leftarrow> kmalloc (EXEC_MAX_ARG_LEN + 1) (sy_vm s);
     let s = set_vm v s;
     if buffer = 0 then do { s \<leftarrow> put_kargv acc s; Some (- E_NO_MEM, [], s) }
     else do {
       (ok, m, v) \<leftarrow> copy_string mm buffer (mem_at s argv) (EXEC_MAX_ARG_LEN + 1) (f_mem (sy_f s)) (sy_vm s);
       let s = set_vm v (set_mem m s);
       if \<not> ok then do { s \<leftarrow> kfree_sys buffer s; s \<leftarrow> put_kargv acc s; Some (- E_INVAL, [], s) }
       else copy_kargv_loop mm k (argv + 4) (acc @ [buffer]) s } }"

definition copy_kargv :: "nat option \<Rightarrow> int \<Rightarrow> u32 \<Rightarrow> sys \<Rightarrow> (int \<times> u32 list \<times> sys) option" where
  "copy_kargv mm argc argv s = do {
     (ok, v) \<leftarrow> user_mem_check mm argv (4 * word_of_int argc) False (sy_vm s);
     let s = set_vm v s;
     if \<not> ok then Some (- E_INVAL, [], s) else copy_kargv_loop mm (nat argc) argv [] s }"

definition lock_mm_sys :: "(kstate \<Rightarrow> kstate option) \<Rightarrow> nat option \<Rightarrow> nat \<Rightarrow> sys \<Rightarrow> sys option" where
  "lock_mm_sys others mm w s = do { (k, v) \<leftarrow> lock_mm others mm w (sy_k s) (sy_vm s); Some (set_vm v (set_k k s)) }"

definition unlock_mm_sys :: "nat option \<Rightarrow> sys \<Rightarrow> sys option" where
  "unlock_mm_sys mm s = do { (k, v) \<leftarrow> unlock_mm mm (sy_k s) (sy_vm s); Some (set_vm v (set_k k s)) }"

text \<open>The addresses of the local variables of \<open>do_execve\<close> and \<open>load_icode\<close> on the kernel stack.\<close>

record exec_locals =
  el_name :: u32
  el_elfhdr :: u32
  el_proghdr :: u32

definition exec_name :: "nat option \<Rightarrow> u32 \<Rightarrow> u32 \<Rightarrow> sys \<Rightarrow> (bool \<times> sys) option" where
  "exec_name mm buf name s = do {
     let m = memset (f_mem (sy_f s)) buf 0 51;
     if name = 0 then do {
       (_, m) \<leftarrow> snprintf m buf 51 (CLit (chars ''<null> %d'') 0) [VWord (word_of_int (pr_pid (cur s)))];
       Some (True, set_mem m s) }
     else do {
       (ok, m, v) \<leftarrow> copy_string mm buf name 51 m (sy_vm s);
       Some (ok, set_vm v (set_mem m s)) } }"

definition do_execve ::
  "sleeper \<Rightarrow> (kstate \<Rightarrow> kstate option) \<Rightarrow> nat \<Rightarrow> exec_locals \<Rightarrow> u32 \<Rightarrow> int \<Rightarrow> u32 \<Rightarrow> sys \<Rightarrow> outcome option" where
  "do_execve sleep others w el name argc argv s =
     (let mm = pr_mm (cur s) in
      if \<not> (argc \<ge> 1 \<and> argc \<le> EXEC_MAX_ARG_NUM) then Some (Inr (- E_INVAL, s))
      else do {
        s \<leftarrow> lock_mm_sys others mm w s;
        (ok, s) \<leftarrow> exec_name mm (el_name el) name s;
        if \<not> ok then do { s \<leftarrow> unlock_mm_sys mm s; Some (Inr (- E_INVAL, s)) }
        else do {
          (r, kargv, s) \<leftarrow> copy_kargv mm argc argv s;
          if r \<noteq> 0 then do { s \<leftarrow> unlock_mm_sys mm s; Some (Inr (r, s)) }
          else do {
            let path = mem_at s argv;
            s \<leftarrow> unlock_mm_sys mm s;
            q \<leftarrow> pr_filesp (cur s);
            f \<leftarrow> files_closeall q (cur_f s);
            (fd, s) \<leftarrow> on_files (sysfile_open path O_RDONLY) (set_f f s);
            if fd < 0 then do { s \<leftarrow> put_kargv kargv s; map_option Inl (do_exit fd s) }
            else do {
              s \<leftarrow> drop_mm s;
              (r, s) \<leftarrow> load_icode sleep (el_elfhdr el) (el_proghdr el) fd kargv s;
              if r \<noteq> 0 then do { s \<leftarrow> put_kargv kargv s; map_option Inl (do_exit r s) }
              else do {
                s \<leftarrow> put_kargv kargv s;
                let name = (\<lambda>i. f_mem (sy_f s) (el_name el + of_nat i));
                Some (Inr (0, set_k (set_proc_name (k_current (sy_k s)) name (sy_k s)) s)) } } } } })"

section \<open>The first processes\<close>

definition files_inc_sys :: "nat \<Rightarrow> sys \<Rightarrow> sys" where
  "files_inc_sys q s = set_f (snd (files_count_inc q (sy_f s))) s"

definition str_name :: "string \<Rightarrow> nat \<Rightarrow> u8" where
  "str_name cs i = (if i < length cs then chars cs ! i else 0)"

text \<open>\<open>proc_init\<close>; \<open>list_init\<close> of the hash table runs over its \<open>2 ^ HASH_SHIFT\<close> lists. The bytes of a name after the end
  of the literal are taken as 0.\<close>

definition proc_init :: "kaddrs \<Rightarrow> (kstate \<Rightarrow> kstate option) \<Rightarrow> nat \<Rightarrow> open_file list \<times> open_file list \<Rightarrow> open_file list \<times> open_file list \<Rightarrow> sys \<Rightarrow> sys option" where
  "proc_init ka others w junk0 junk s = do {
     let s = set_k ((sy_k s)\<lparr>k_links := fold (\<lambda>i. list_init (HashList i)) [0 ..< 2 ^ HASH_SHIFT]
                                  (list_init ProcList (k_links (sy_k s)))\<rparr>) s;
     (p, s) \<leftarrow> alloc_proc_sys (fst junk0) s;
     idle \<leftarrow> p;
     let s = set_k ((sy_k s)\<lparr>k_idleproc := idle\<rparr>) s;
     let s = upd_pr idle (\<lambda>r. r\<lparr>pr_pid := 0, pr_state := PROC_RUNNABLE, pr_kstack := ka_bootstack ka, pr_need_resched := True\<rparr>) s;
     (q, f) \<leftarrow> files_create (snd junk0) (sy_f s);
     q \<leftarrow> q;
     let s = files_inc_sys q (upd_pr idle (pr_filesp_update (\<lambda>_. Some q)) (set_f f s));
     let s = set_k (set_proc_name idle (str_name ''idle'') (sy_k s)) s;
     let s = set_k ((sy_k s)\<lparr>k_nr_process := k_nr_process (sy_k s) + 1, k_current := idle\<rparr>) s;
     (pid, s) \<leftarrow> kernel_thread ka others w junk (ka_init_main ka) 0 0 s;
     kassert (pid > 0);
     initp \<leftarrow> find_proc pid (sy_k s);
     initp \<leftarrow> initp;
     let s = set_k (set_proc_name initp (str_name ''init'') ((sy_k s)\<lparr>k_initproc := initp\<rparr>)) s;
     kassert (pr_pid (k_procs (sy_k s) idle) = 0);
     kassert (pr_pid (k_procs (sy_k s) initp) = 1);
     Some s }"

text \<open>The loop of \<open>init_main\<close> and the thread as a whole; \<open>Inl s\<close> cannot happen to \<open>initproc\<close>, for which \<open>do_exit\<close> panics.\<close>

partial_function (option) init_reap :: "(sys \<Rightarrow> sys option) \<Rightarrow> sys \<Rightarrow> sys option" where
  "init_reap others s = do {
     out \<leftarrow> do_wait_sys others 0 0 s;
     (case out of
        Inl s \<Rightarrow> Some s
      | Inr (r, s) \<Rightarrow>
          if r = 0 then do { s \<leftarrow> schedule_sys s; s \<leftarrow> others s; init_reap others s } else Some s) }"

definition init_main ::
  "kaddrs \<Rightarrow> (sys \<Rightarrow> sys option) \<Rightarrow> (kstate \<Rightarrow> kstate option) \<Rightarrow> nat \<Rightarrow> open_file list \<times> open_file list \<Rightarrow> sys \<Rightarrow> (int \<times> sys) option" where
  "init_main ka others kothers w junk s = do {
     (r, s) \<leftarrow> on_files (vfs_set_bootfs (Some (chars ''disk0:''))) s;
     kassert (r = 0);
     (pid, s) \<leftarrow> kernel_thread ka kothers w junk (ka_user_main ka) 0 0 s;
     kassert (pid > 0);
     s \<leftarrow> init_reap others s;
     f \<leftarrow> vfs_cleanup (cur_f s);
     let s = set_f f s;
     let k = sy_k s;
     let ip = k_initproc k;
     kassert (pr_cptr (k_procs k ip) = None \<and> pr_yptr (k_procs k ip) = None \<and> pr_optr (k_procs k ip) = None);
     kassert (k_nr_process k = 2);
     kassert (list_next ProcList (k_links k) = ListLink ip);
     kassert (list_prev ProcList (k_links k) = ListLink ip);
     Some (0, s) }"

end
