(* ===== verification/LifeProps.thy ===== *)
theory LifeProps
  imports Life SfsSpace
begin

text \<open>
  What fork does to the process table: the table as a whole has the invariant \<open>procs_inv\<close>, and \<^verbatim>\<open>do_fork\<close> either adds
  one process to it or leaves it alone.
\<close>

unbundle bit_operations_syntax

section \<open>The process table as a whole\<close>

text \<open>\<open>procs_inv k ps m rs\<close>: the list of processes is \<open>ps\<close>, identifiers find them by the map \<open>m\<close>, \<open>rs\<close> is the run queue; the idle process is in
  none of them. \<open>outside_table p\<close>: the descriptor \<open>p\<close> is none of these.\<close>

definition procs_inv :: "kstate \<Rightarrow> nat list \<Rightarrow> (int \<Rightarrow> nat option) \<Rightarrow> nat list \<Rightarrow> bool" where
  "procs_inv k ps m rs \<longleftrightarrow> proc_list_inv k ps \<and> pid_window (k_last_pid k) (k_next_safe k) (pids k ps) \<and>
     k_nr_process k = int (length ps) + 1 \<and> hash_inv k m \<and> dom m \<subseteq> pids k ps \<and> ran m \<subseteq> set ps \<and> rq_inv k rs \<and> set rs \<subseteq> set ps"

definition outside_table :: "nat \<Rightarrow> kstate \<Rightarrow> nat list \<Rightarrow> nat list \<Rightarrow> bool" where
  "outside_table p k ps cs \<longleftrightarrow> p \<notin> set ps \<and> p \<notin> set cs \<and> p \<noteq> k_current k \<and> p \<noteq> k_idleproc k"

text \<open>What each part of the table reads.\<close>

lemma proc_list_inv_frame:
  "proc_list_inv k ps \<Longrightarrow> (\<And>x. x \<in> insert ProcList (range ListLink) \<Longrightarrow> k_links k' x = k_links k x) \<Longrightarrow> proc_list_inv k' ps"
  unfolding proc_list_inv_def by (erule ring_frame) auto

lemma rq_inv_frame:
  assumes "rq_inv k rs" "\<And>x. x \<in> insert RunList (RunLink ` set rs) \<Longrightarrow> k_links k' x = k_links k x"
    "\<And>x. x \<in> set rs \<Longrightarrow> pr_in_rq (k_procs k' x) = pr_in_rq (k_procs k x)" "k_proc_num k' = k_proc_num k"
  shows "rq_inv k' rs"
proof -
  have "ring (k_links k') RunList (map RunLink rs)"
    by (rule ring_frame [of "k_links k"]) (use assms(1,2) in \<open>auto simp: rq_inv_def\<close>)
  then show ?thesis using assms(1,3,4) by (simp add: rq_inv_def)
qed

lemma hash_inv_frame:
  assumes inv: "hash_inv k m" and links: "\<And>x. x \<in> range HashList \<union> range HashLink \<Longrightarrow> k_links k' x = k_links k x"
    and pid: "\<And>q. q \<noteq> p \<Longrightarrow> pr_pid (k_procs k' q) = pr_pid (k_procs k q)" and p: "p \<notin> ran m"
  shows "hash_inv k' m"
proof -
  obtain hs where hs: "hash_lists k hs" "\<And>i q. m i = Some q \<longleftrightarrow> q \<in> set (hs (pid_hashfn i)) \<and> pr_pid (k_procs k q) = i"
    using inv unfolding hash_inv_def by blast
  have np: "p \<notin> set (hs b)" if "b < 2 ^ HASH_SHIFT" for b
  proof
    assume a: "p \<in> set (hs b)"
    then have "b = pid_hashfn (pr_pid (k_procs k p))" using hash_lists_other_bucket [OF hs(1)] that by blast
    with a hs(2) have "m (pr_pid (k_procs k p)) = Some p" by simp
    with p show False by (auto simp: ran_def)
  qed
  have "ring (k_links k') (HashList b) (map HashLink (hs b))" if "b < 2 ^ HASH_SHIFT" for b
    by (rule ring_frame [of "k_links k"]) (use hs(1) links that in \<open>auto simp: hash_lists_def\<close>)
  moreover have "q \<in> set (hs b) \<Longrightarrow> b < 2 ^ HASH_SHIFT \<Longrightarrow> pr_pid (k_procs k' q) = pr_pid (k_procs k q)" for q b
    using np pid by metis
  ultimately have "hash_lists k' hs" using hs(1) by (simp add: hash_lists_def)
  moreover have "m i = Some q \<longleftrightarrow> q \<in> set (hs (pid_hashfn i)) \<and> pr_pid (k_procs k' q) = i" for i q
    using hs(2) np [OF pid_hashfn_lt] pid by metis
  ultimately show ?thesis unfolding hash_inv_def by blast
qed

lemma hash_inv_links:
  assumes inv: "hash_inv k m" and links: "\<And>x. x \<in> range HashList \<union> range HashLink \<Longrightarrow> k_links k' x = k_links k x"
    and pid: "\<And>q. pr_pid (k_procs k' q) = pr_pid (k_procs k q)"
  shows "hash_inv k' m"
proof -
  obtain hs where hs: "hash_lists k hs" "\<forall>i q. m i = Some q \<longleftrightarrow> q \<in> set (hs (pid_hashfn i)) \<and> pr_pid (k_procs k q) = i"
    using inv unfolding hash_inv_def by blast
  have "ring (k_links k') (HashList b) (map HashLink (hs b))" if "b < 2 ^ HASH_SHIFT" for b
    by (rule ring_frame [of "k_links k"]) (use hs(1) links that in \<open>auto simp: hash_lists_def\<close>)
  then show ?thesis using hs unfolding hash_inv_def by (intro exI [of _ hs]) (simp add: hash_lists_def pid)
qed

lemma children_frame:
  assumes "children k q cs"
    "\<And>c. pr_cptr (k_procs k' c) = pr_cptr (k_procs k c) \<and> pr_yptr (k_procs k' c) = pr_yptr (k_procs k c) \<and>
      pr_optr (k_procs k' c) = pr_optr (k_procs k c) \<and> pr_parent (k_procs k' c) = pr_parent (k_procs k c)"
  shows "children k' q cs"
  using assms sib_chain_cong [of cs "k_procs k'" "k_procs k"] by (simp add: children_def)

lemma procs_inv_frame:
  assumes inv: "procs_inv k ps m rs" and p: "p \<notin> set ps"
    and links: "\<And>x. x \<noteq> RunLink p \<Longrightarrow> x \<notin> range WaitHead \<Longrightarrow> k_links k' x = k_links k x"
    and procs: "\<And>q. q \<noteq> p \<Longrightarrow> k_procs k' q = k_procs k q"
    and rest: "k_nr_process k' = k_nr_process k" "k_last_pid k' = k_last_pid k" "k_next_safe k' = k_next_safe k"
      "k_proc_num k' = k_proc_num k"
  shows "procs_inv k' ps m rs"
proof -
  have i: "proc_list_inv k ps" "hash_inv k m" "ran m \<subseteq> set ps" "rq_inv k rs" "set rs \<subseteq> set ps"
    using inv by (simp_all add: procs_inv_def)
  have "proc_list_inv k' ps" by (rule proc_list_inv_frame [OF i(1)]) (use links in auto)
  moreover have "hash_inv k' m" by (rule hash_inv_frame [OF i(2), of _ p]) (use links procs i(3) p in auto)
  moreover have "rq_inv k' rs"
  proof (rule rq_inv_frame [OF i(4)])
    have np: "x \<in> set rs \<Longrightarrow> x \<noteq> p" for x using i(5) p by blast
    show "x \<in> insert RunList (RunLink ` set rs) \<Longrightarrow> k_links k' x = k_links k x" for x using links np by auto
    show "x \<in> set rs \<Longrightarrow> pr_in_rq (k_procs k' x) = pr_in_rq (k_procs k x)" for x using procs np by simp
  qed (rule rest)
  moreover have "pids k' ps = pids k ps"
  proof -
    have "x \<in> set ps \<Longrightarrow> k_procs k' x = k_procs k x" for x using procs p by metis
    then show ?thesis unfolding pids_def by (intro image_cong) simp_all
  qed
  ultimately show ?thesis using inv rest by (simp add: procs_inv_def)
qed

text \<open>\<open>set_links\<close> changes the list of processes and the links of the family.\<close>

lemma set_links_frame:
  assumes pl: "proc_list_inv k ps" and s: "set_links p k = Some k'"
  shows "\<And>x. x \<notin> insert ProcList (range ListLink) \<Longrightarrow> k_links k' x = k_links k x"
    "pr_pid (k_procs k' c) = pr_pid (k_procs k c)" "pr_in_rq (k_procs k' c) = pr_in_rq (k_procs k c)"
    "pr_state (k_procs k' c) = pr_state (k_procs k c)" "k_proc_num k' = k_proc_num k" "k_current k' = k_current k"
    "k_idleproc k' = k_idleproc k" "k_last_pid k' = k_last_pid k" "k_next_safe k' = k_next_safe k"
    "pr_tf (k_procs k' c) = pr_tf (k_procs k c)" "pr_mm (k_procs k' c) = pr_mm (k_procs k c)"
proof -
  have l: "k_links k' = list_add ProcList (ListLink p) (k_links k)"
    using s by (auto simp: set_links_def Let_def bind_eq_Some_conv split: option.splits)
  show "k_links k' x = k_links k x" if "x \<notin> insert ProcList (range ListLink)" for x
    unfolding l list_add_def by (rule list_add_after_frame [of _ _ "map ListLink ps"])
      (use pl that in \<open>auto simp: proc_list_inv_def\<close>)
qed (use s in \<open>auto simp: set_links_def Let_def bind_eq_Some_conv split: option.splits if_splits\<close>)

lemma hash_proc_frame:
  assumes "hash_inv k m" "x \<notin> range HashList \<union> range HashLink"
  shows "k_links (hash_proc p k) x = k_links k x"
proof -
  let ?b = "pid_hashfn (pr_pid (k_procs k p))"
  obtain hs where "hash_lists k hs" using assms(1) unfolding hash_inv_def by blast
  then have "ring (k_links k) (HashList ?b) (map HashLink (hs ?b))" using pid_hashfn_lt by (simp add: hash_lists_def)
  then have "list_add_after (HashList ?b) (HashLink p) (k_links k) x = k_links k x"
    by (rule list_add_after_frame) (use assms(2) in auto)
  then show ?thesis by (simp add: hash_proc_def list_add_def)
qed

lemma procs_inv_len: "procs_inv k ps m rs \<Longrightarrow> k_nr_process k < MAX_PROCESS \<Longrightarrow> length ps < nat (MAX_PID - 1)"
  by (simp add: procs_inv_def MAX_PROCESS_def)

text \<open>The last steps of \<open>do_fork\<close> on a descriptor that is ready and not yet in the table.\<close>

lemma fork_publish_child:
  assumes inv: "procs_inv k ps m rs" and out: "outside_table p k ps cs" and n: "k_nr_process k < MAX_PROCESS"
    and p: "pr_state (k_procs k p) = PROC_UNINIT" "rq_idle k p" "pr_parent (k_procs k p) = Some q"
    and ch: "children k q cs" "p \<noteq> q" "q \<notin> set cs" and k: "sy_k s = k"
  shows "\<exists>pid k'. fork_publish p s = Some (pid, set_k k' s) \<and> 1 \<le> pid \<and> pid < MAX_PID \<and> pid \<notin> pids k ps \<and>
    procs_inv k' (p # ps) (m(pid \<mapsto> p)) (rs @ [p]) \<and> children k' q (p # cs) \<and>
    pr_pid (k_procs k' p) = pid \<and> pr_state (k_procs k' p) = PROC_RUNNABLE \<and> k_current k' = k_current k \<and>
    pr_tf (k_procs k' p) = pr_tf (k_procs k p) \<and> pr_mm (k_procs k' p) = pr_mm (k_procs k p)"
proof -
  have i: "proc_list_inv k ps" "pid_window (k_last_pid k) (k_next_safe k) (pids k ps)" "hash_inv k m" "dom m \<subseteq> pids k ps"
    "ran m \<subseteq> set ps" "rq_inv k rs" "set rs \<subseteq> set ps" "k_nr_process k = int (length ps) + 1"
    using inv by (simp_all add: procs_inv_def)
  have o: "p \<notin> set ps" "p \<notin> set cs" "p \<noteq> k_current k" "p \<noteq> k_idleproc k" using out by (simp_all add: outside_table_def)
  obtain pid k1 where g: "get_pid k = Some (pid, k1)" "1 \<le> pid" "pid < MAX_PID" "pid \<notin> pids k ps"
      "pid_window (k_last_pid k1) (k_next_safe k1) (insert pid (pids k ps))" "k_links k1 = k_links k" "k_procs k1 = k_procs k"
    using get_pid_spec [OF i(1,2) procs_inv_len [OF inv n]] by blast
  have k1: "k_nr_process k1 = k_nr_process k" "k_proc_num k1 = k_proc_num k" "k_current k1 = k_current k" "k_idleproc k1 = k_idleproc k"
    using g(1) by (auto simp: get_pid_def Let_def bind_eq_Some_conv)
  define k2 where "k2 = upd_proc p (pr_pid_update (\<lambda>_. pid)) k1"
  have k2: "k_links k2 = k_links k" "k_nr_process k2 = k_nr_process k" "k_proc_num k2 = k_proc_num k" "k_current k2 = k_current k"
    "k_idleproc k2 = k_idleproc k" "k_last_pid k2 = k_last_pid k1" "k_next_safe k2 = k_next_safe k1"
    by (simp_all add: k2_def g(6) k1)
  have pr2: "k_procs k2 c = (if c = p then (k_procs k p)\<lparr>pr_pid := pid\<rparr> else k_procs k c)" for c
    by (simp add: k2_def g(7))
  have h2: "hash_inv k2 m" by (rule hash_inv_frame [OF i(3), of _ p]) (use k2 pr2 i(5) o(1) in auto)
  define k3 where "k3 = hash_proc p k2"
  have k3: "k_procs k3 = k_procs k2" "k_nr_process k3 = k_nr_process k" "k_proc_num k3 = k_proc_num k" "k_current k3 = k_current k"
    "k_idleproc k3 = k_idleproc k" "k_last_pid k3 = k_last_pid k1" "k_next_safe k3 = k_next_safe k1"
    by (simp_all add: k3_def hash_proc_def k2)
  have l3: "x \<notin> range HashList \<union> range HashLink \<Longrightarrow> k_links k3 x = k_links k x" for x
    using hash_proc_frame [OF h2, of x p] by (simp add: k3_def k2)
  have "m pid = None" "p \<notin> ran m" using i(4,5) g(4) o(1) by auto
  then have h3: "hash_inv k3 (m(pid \<mapsto> p))"
    using pidtab.insert_ok [OF h2, of p] by (simp add: pr2 k3_def)
  have pl3: "proc_list_inv k3 ps" by (rule proc_list_inv_frame [OF i(1)]) (use l3 in auto)
  have ch3: "children k3 q cs" by (rule children_frame [OF ch(1)]) (simp add: k3 pr2)
  have "pr_parent (k_procs k3 p) = Some q" by (simp add: k3 pr2 p)
  from set_links_children [OF ch3 this o(2) ch(2,3)] obtain k4 where
    s4: "set_links p k3 = Some k4" "children k4 q (p # cs)" "k_nr_process k4 = k_nr_process k3 + 1" by blast
  note f4 = set_links_frame [OF pl3 s4(1)]
  have pl4: "proc_list_inv k4 (p # ps)" by (rule set_links_proc_list [OF pl3 o(1) s4(1)])
  have h4: "hash_inv k4 (m(pid \<mapsto> p))" by (rule hash_inv_links [OF h3]) (use f4(1,2) in auto)
  have l4: "x \<in> insert RunList (range RunLink) \<Longrightarrow> k_links k4 x = k_links k x" for x
    using f4(1) [of x] l3 [of x] by (auto simp: image_iff)
  have "pr_in_rq (k_procs k4 c) = pr_in_rq (k_procs k c)" "k_proc_num k4 = k_proc_num k" for c by (simp_all add: f4 k3 pr2)
  then have rq4: "rq_inv k4 rs" by (intro rq_inv_frame [OF i(6)]) (use l4 in auto)
  have lp4: "k_links k4 (RunLink p) = k_links k (RunLink p)" using l4 by simp
  define k5 where "k5 = upd_proc p (pr_wait_state_update (\<lambda>_. 0)) (upd_proc p (pr_state_update (\<lambda>_. PROC_RUNNABLE)) k4)"
  have w: "wakeup_proc p k4 = Some (rr_enqueued p k5)"
    using p(1,2) o(3,4) f4 k3 pr2 lp4
    by (simp add: wakeup_proc_def Let_def sched_class_enqueue_def RR_enqueue_eq rq_idle_def unlinked_list_empty k5_def list_empty_def unlinked_def)
  have "p \<notin> set rs" using i(7) o(1) by blast
  moreover have rq5: "rq_inv k5 rs" using rq4 by (simp add: k5_def rq_inv_upd_proc)
  ultimately have rq6: "rq_inv (rr_enqueued p k5) (rs @ [p])" by (rule rq_inv_enqueued [rotated])
  have l6: "k_links (rr_enqueued p k5) x = k_links k4 x" if "x \<notin> insert RunList (range RunLink)" for x
  proof -
    have "list_add_before RunList (RunLink p) (k_links k5) x = k_links k5 x"
      by (rule list_add_before_frame [of _ _ "map RunLink rs"]) (use rq5 that in \<open>auto simp: rq_inv_def\<close>)
    then show ?thesis by (simp add: rr_enqueued_def k5_def)
  qed
  have pr6: "pr_pid (k_procs (rr_enqueued p k5) c) = pr_pid (k_procs k4 c)" for c by (simp add: rr_enqueued_def k5_def)
  have pl6: "proc_list_inv (rr_enqueued p k5) (p # ps)" by (rule proc_list_inv_frame [OF pl4]) (rule l6, auto)
  have h6: "hash_inv (rr_enqueued p k5) (m(pid \<mapsto> p))" by (rule hash_inv_links [OF h4]) (use l6 pr6 in auto)
  have ch6: "children (rr_enqueued p k5) q (p # cs)" by (rule children_frame [OF s4(2)]) (simp add: rr_enqueued_def k5_def)
  have pid6: "pr_pid (k_procs k4 c) = (if c = p then pid else pr_pid (k_procs k c))" for c by (simp add: f4 k3 pr2)
  then have "pids (rr_enqueued p k5) (p # ps) = insert pid (pids k ps)"
    using o(1) by (force simp: pids_def pr6)
  moreover have "ran (m(pid \<mapsto> p)) \<subseteq> set (p # ps)" using i(5) by (auto simp: ran_def split: if_splits)
  moreover have "k_last_pid (rr_enqueued p k5) = k_last_pid k1" "k_next_safe (rr_enqueued p k5) = k_next_safe k1"
    "k_nr_process (rr_enqueued p k5) = k_nr_process k + 1"
    using f4 k3 s4(3) by (simp_all add: rr_enqueued_def k5_def)
  ultimately have "procs_inv (rr_enqueued p k5) (p # ps) (m(pid \<mapsto> p)) (rs @ [p])"
    using pl6 h6 rq6 g(5) i(4,7,8) unfolding procs_inv_def by auto
  then show ?thesis
    using g ch6 w s4(1) f4 k3 pr2 pid6 unfolding fork_publish_def k
    by (intro exI [of _ pid] exI [of _ "rr_enqueued p k5"])
      (simp add: k2_def [symmetric] k3_def [symmetric] pr6, simp add: rr_enqueued_def k5_def)
qed

section \<open>Fork\<close>

text \<open>\<open>kept p s s'\<close>: between the two states only the descriptor \<open>p\<close> and the semaphores changed in the process state.\<close>

definition kept :: "nat \<Rightarrow> sys \<Rightarrow> sys \<Rightarrow> bool" where
  "kept p s s' \<longleftrightarrow> (\<forall>x. x \<noteq> RunLink p \<longrightarrow> x \<notin> range WaitHead \<longrightarrow> k_links (sy_k s') x = k_links (sy_k s) x) \<and>
     (\<forall>q. q \<noteq> p \<longrightarrow> k_procs (sy_k s') q = k_procs (sy_k s) q) \<and>
     k_nr_process (sy_k s') = k_nr_process (sy_k s) \<and> k_last_pid (sy_k s') = k_last_pid (sy_k s) \<and>
     k_next_safe (sy_k s') = k_next_safe (sy_k s) \<and> k_proc_num (sy_k s') = k_proc_num (sy_k s) \<and>
     k_current (sy_k s') = k_current (sy_k s) \<and> k_idleproc (sy_k s') = k_idleproc (sy_k s)"

lemma kept_refl [simp]: "kept p s s"
  by (simp add: kept_def)

lemma kept_trans [trans]: "kept p s t \<Longrightarrow> kept p t u \<Longrightarrow> kept p s u"
  by (simp add: kept_def)

lemma kept_set [simp]:
  "kept p s (set_vm v t) = kept p s t" "kept p s (set_f f t) = kept p s t"
  "kept p s (upd_pr p g t) = kept p s t"
  by (auto simp: kept_def set_vm_def set_f_def upd_pr_def set_k_def)

text \<open>The new descriptor: what \<open>do_fork\<close> has set in it when it starts to publish it.\<close>

definition ready :: "nat \<Rightarrow> nat \<Rightarrow> sys \<Rightarrow> bool" where
  "ready p q s \<longleftrightarrow> pr_state (k_procs (sy_k s) p) = PROC_UNINIT \<and> rq_idle (sy_k s) p \<and> pr_parent (k_procs (sy_k s) p) = Some q"

lemma ready_set [simp]:
  "ready p q (set_vm v s) = ready p q s" "ready p q (set_f f s) = ready p q s"
  by (simp_all add: ready_def set_vm_def set_f_def)

lemma ready_upd_pr:
  "(\<And>r. pr_state (g r) = pr_state r \<and> pr_parent (g r) = pr_parent r) \<Longrightarrow> ready p q (upd_pr p g s) = ready p q s"
  by (simp add: ready_def upd_pr_def set_k_def rq_idle_def)

lemma cur_kept: "kept p s s' \<Longrightarrow> k_current (sy_k s) \<noteq> p \<Longrightarrow> cur s' = cur s"
  by (simp add: kept_def cur_def)

lemma bind_SomeE:
  assumes "Option.bind x f = Some y"
  obtains a where "x = Some a" "f a = Some y"
  using assms by (cases x) simp_all

lemma alloc_proc_sys_kept:
  assumes "alloc_proc_sys junk s = Some (r, s')"
  shows "case r of None \<Rightarrow> sy_k s' = sy_k s
    | Some p \<Rightarrow> (\<exists>a v. kmalloc 216 (sy_vm s) = Some (a, v) \<and> p = unat a) \<and> kept p s s' \<and>
        pr_state (k_procs (sy_k s') p) = PROC_UNINIT \<and> rq_idle (sy_k s') p"
  using assms
  by (auto simp: alloc_proc_sys_def bind_eq_Some_conv Let_def alloc_proc_def kept_def set_k_def set_f_def set_vm_def list_init_def
      proc_zero_def rq_idle_def unlinked_def split: if_splits)

lemma setup_kstack_kept:
  assumes "setup_kstack p s = Some (r, s')"
  shows "kept p s s' \<and> (ready p q s \<longrightarrow> ready p q s')"
  using assms by (auto simp: setup_kstack_def bind_eq_Some_conv Let_def ready_upd_pr split: option.splits)

lemma put_kstack_kept: "put_kstack p s = Some s' \<Longrightarrow> sy_k s' = sy_k s"
  by (auto simp: put_kstack_def bind_eq_Some_conv set_vm_def)

lemma kfree_sys_kept: "kfree_sys a s = Some s' \<Longrightarrow> sy_k s' = sy_k s"
  by (auto simp: kfree_sys_def bind_eq_Some_conv set_vm_def)

lemma put_files_kept: "put_files p s = Some s' \<Longrightarrow> sy_k s' = sy_k s"
  by (auto simp: put_files_def bind_eq_Some_conv set_f_def Let_def split: option.splits prod.splits)

lemma fork_cleanup_kept: "fork_cleanup_kstack p s = Some (r, s') \<Longrightarrow> r = - E_NO_MEM \<and> sy_k s' = sy_k s"
  by (auto simp: fork_cleanup_kstack_def bind_eq_Some_conv dest!: put_kstack_kept kfree_sys_kept)

lemma copy_files_kept:
  assumes "copy_files junk fl p s = Some (r, s')"
  shows "kept p s s' \<and> (ready p q s \<longrightarrow> ready p q s')"
proof -
  have "(\<exists>f. s' = set_f f s) \<or> (\<exists>n f. s' = upd_pr p (pr_filesp_update (\<lambda>_. Some n)) (set_f f s))"
    using assms unfolding copy_files_def by (elim bind_SomeE, auto split: option.split_asm) blast+
  then show ?thesis by (auto simp: ready_upd_pr)
qed

text \<open>The lock of the address space that is copied is free: \<open>lock_mm\<close> does not sleep and \<open>unlock_mm\<close> wakes nobody.\<close>

definition mm_unlocked :: "sys \<Rightarrow> bool" where
  "mm_unlocked s \<longleftrightarrow> (\<forall>mm. pr_mm (cur s) = Some mm \<longrightarrow>
     k_sems (sy_k s) (mm_sem mm) > 0 \<and> ring (k_links (sy_k s)) (WaitHead (mm_sem mm)) [])"

lemma lock_mm_free:
  assumes "k_sems k (mm_sem m) > 0"
  shows "lock_mm others (Some m) w k v = Some (upd_sem (mm_sem m) (\<lambda>c. c - 1) k,
    upd_mm m (locked_by_update (\<lambda>_. pr_pid (k_procs k (k_current k)))) v)"
  using assms by (simp add: lock_mm_def down_def down_sem_def down_enter_def)

lemma unlock_mm_free:
  assumes "list_empty (WaitHead (mm_sem m)) (k_links k)"
  shows "unlock_mm (Some m) k v = Some (upd_sem (mm_sem m) (\<lambda>c. c + 1) k, upd_mm m (locked_by_update (\<lambda>_. 0)) v)"
proof -
  have "wait_queue_first (mm_sem m) k = None" using assms by (simp add: wait_queue_first_def list_empty_def list_next_def)
  then show ?thesis by (simp add: unlock_mm_def up_def up_sem_def)
qed

text \<open>\<open>only_sems k k'\<close>: only values of semaphores changed, and wait queues were emptied.\<close>

definition only_sems :: "kstate \<Rightarrow> kstate \<Rightarrow> bool" where
  "only_sems k k' \<longleftrightarrow> (\<forall>x. x \<notin> range WaitHead \<longrightarrow> k_links k' x = k_links k x) \<and>
     k_procs k' = k_procs k \<and> k_nr_process k' = k_nr_process k \<and> k_last_pid k' = k_last_pid k \<and>
     k_next_safe k' = k_next_safe k \<and> k_proc_num k' = k_proc_num k \<and>
     k_current k' = k_current k \<and> k_idleproc k' = k_idleproc k"

lemma only_sems_upd [simp]:
  "only_sems k (upd_sem i g k') = only_sems k k'" "only_sems k (sem_init i c k') = only_sems k k'" "only_sems k k"
  by (auto simp: only_sems_def upd_sem_def sem_init_def wait_queue_init_def list_init_def image_iff)

lemma only_sems_kept: "only_sems (sy_k s) k \<Longrightarrow> kept p s (set_k k s) \<and> (ready p q s \<longrightarrow> ready p q (set_k k s))"
  by (auto simp: only_sems_def kept_def set_k_def ready_def rq_idle_def unlinked_def image_iff)

lemma mm_create_only_sems:
  assumes "mm_create k v = Some (r, k', v')"
  shows "k' = k \<or> (\<exists>m. r = Some m \<and> k' = sem_init (mm_sem m) 1 k)"
  using assms by (auto simp: mm_create_def bind_eq_Some_conv Let_def split: if_splits)

lemma copy_mm_kept:
  assumes r: "copy_mm others w fl p s = Some (r, s')" and free: "mm_unlocked s"
  shows "kept p s s' \<and> (ready p q s \<longrightarrow> ready p q s')"
proof -
  have share: "kept p s (share_mm p m u) = kept p s u" "ready p q (share_mm p m u) = ready p q u" for m u
    by (simp_all add: share_mm_def Let_def ready_upd_pr)
  show ?thesis
  proof (cases "\<exists>old. pr_mm (cur s) = Some old \<and> fl AND CLONE_VM = 0")
    case False
    then show ?thesis using r by (auto simp: copy_mm_def share split: option.splits if_splits)
  next
    case True
    then obtain old where old: "pr_mm (cur s) = Some old" "fl AND CLONE_VM = 0" by blast
    then obtain m k v where m: "mm_create (sy_k s) (sy_vm s) = Some (m, k, v)"
      using r by (auto simp: copy_mm_def elim: bind_SomeE)
    have k: "only_sems (sy_k s) k" using mm_create_only_sems [OF m] by auto
    have lock: "k_sems k (mm_sem old) > 0" "list_empty (WaitHead (mm_sem old)) (k_links k)"
      using mm_create_only_sems [OF m] free old(1)
      by (auto simp: mm_unlocked_def sem_init_def wait_queue_init_def upd_sem_def list_init_def list_empty_def
          dest!: ring_list_empty)
    define k' where "k' = upd_sem (mm_sem old) (\<lambda>c. c + 1) (upd_sem (mm_sem old) (\<lambda>c. c - 1) k)"
    have k': "only_sems (sy_k s) k'" using k by (simp add: k'_def)
    have unlock: "unlock_mm (Some old) (upd_sem (mm_sem old) (\<lambda>c. c - 1) k) v =
        Some (k', upd_mm old (locked_by_update (\<lambda>_. 0)) v)" for v
      using unlock_mm_free [of old "upd_sem (mm_sem old) (\<lambda>c. c - 1) k" v] lock(2) by (simp add: k'_def upd_sem_def)
    have "\<exists>k'' v u. (k'' = k \<or> k'' = k') \<and> u = set_vm v (set_k k'' s) \<and> (s' = u \<or> (\<exists>m. s' = share_mm p m u))"
    proof (cases m)
      case None
      then show ?thesis using r old m by (auto simp: copy_mm_def)
    next
      case (Some mm)
      then show ?thesis
        using r old m lock(1) by (auto simp: copy_mm_def lock_mm_free unlock split: if_split_asm elim!: bind_SomeE) blast+
    qed
    then have "\<exists>k'' v u. only_sems (sy_k s) k'' \<and> u = set_vm v (set_k k'' s) \<and> (s' = u \<or> (\<exists>m. s' = share_mm p m u))"
      using k k' by metis
    then show ?thesis using only_sems_kept [of s _ p q] by (auto simp: share)
  qed
qed

definition same_waits :: "sys \<Rightarrow> sys \<Rightarrow> bool" where
  "same_waits s s' \<longleftrightarrow> k_sems (sy_k s') = k_sems (sy_k s) \<and> (\<forall>i. k_links (sy_k s') (WaitHead i) = k_links (sy_k s) (WaitHead i))"

lemma mm_unlocked_same:
  assumes "mm_unlocked s" "same_waits s s'" "kept p s s'" "k_current (sy_k s) \<noteq> p"
  shows "mm_unlocked s'"
  using assms cur_kept [OF assms(3,4)] ring_frame [of "k_links (sy_k s)" _ "[]" "k_links (sy_k s')"]
  by (auto simp: mm_unlocked_def same_waits_def)

lemma alloc_proc_sys_waits: "alloc_proc_sys junk s = Some (r, s') \<Longrightarrow> same_waits s s'"
  by (auto simp: alloc_proc_sys_def bind_eq_Some_conv Let_def alloc_proc_def same_waits_def set_k_def set_f_def set_vm_def list_init_def
      split: if_splits)

lemma upd_pr_waits: "same_waits s (upd_pr p g s') = same_waits s s'" "same_waits s (set_vm v s') = same_waits s s'"
  by (auto simp: same_waits_def upd_pr_def set_k_def set_vm_def)

lemma setup_kstack_waits: "setup_kstack p s = Some (r, s') \<Longrightarrow> same_waits t s' = same_waits t s"
  by (auto simp: setup_kstack_def bind_eq_Some_conv Let_def upd_pr_waits split: option.splits)

text \<open>The ways \<open>do_fork\<close> ends.\<close>

lemma do_fork_cases:
  assumes r: "do_fork ka others w junk fl stack tf s = Some (r, s')" and free: "mm_unlocked s"
    and fresh: "\<And>a v. kmalloc 216 (sy_vm s) = Some (a, v) \<Longrightarrow> unat a \<noteq> k_current (sy_k s)"
  obtains "r = - E_NO_FREE_PROC" "s' = s" "k_nr_process (sy_k s) \<ge> MAX_PROCESS"
  | a v where "kmalloc 216 (sy_vm s) = Some (a, v)" "r = - E_NO_MEM" "kept (unat a) s s'"
      "k_nr_process (sy_k s) < MAX_PROCESS"
  | a v u t where "kmalloc 216 (sy_vm s) = Some (a, v)" "kept (unat a) s t" "ready (unat a) (k_current (sy_k s)) t"
      "t = copy_thread ka (unat a) stack tf u" "fork_publish (unat a) t = Some (r, s')" "k_nr_process (sy_k s) < MAX_PROCESS"
proof (cases "k_nr_process (sy_k s) \<ge> MAX_PROCESS")
  case True
  then show thesis using r that(1) by (simp add: do_fork_def)
next
  case False
  let ?q = "k_current (sy_k s)"
  obtain p0 s1 where a1: "alloc_proc_sys (fst junk) s = Some (p0, s1)" using r False by (auto simp: do_fork_def elim: bind_SomeE)
  then obtain p where p0: "p0 = Some p" using r False by (cases p0) (auto simp: do_fork_def elim!: bind_SomeE)
  with alloc_proc_sys_kept [OF a1] obtain a v where p: "kmalloc 216 (sy_vm s) = Some (a, v)" "p = unat a"
    and s1: "kept p s s1" "pr_state (k_procs (sy_k s1) p) = PROC_UNINIT" "rq_idle (sy_k s1) p" by auto
  have ne: "?q \<noteq> p" using fresh [OF p(1)] p(2) by simp
  have cq: "k_current (sy_k s1) = ?q" using s1(1) by (simp add: kept_def)
  define s2 where "s2 = upd_pr p (pr_parent_update (\<lambda>_. Some (k_current (sy_k s1)))) s1"
  have s2: "kept p s s2" "ready p ?q s2"
    using s1 cq by (simp_all add: s2_def) (simp add: ready_def upd_pr_def set_k_def rq_idle_def)
  obtain r3 s3 where a3: "setup_kstack p s2 = Some (r3, s3)"
    using r False a1 p0 by (auto simp: do_fork_def s2_def Let_def elim!: bind_SomeE split: if_split_asm)
  have s3: "kept p s s3" "ready p ?q s3" using setup_kstack_kept [OF a3] s2 kept_trans by blast+
  have "same_waits s s3"
    using alloc_proc_sys_waits [OF a1] setup_kstack_waits [OF a3] by (simp add: s2_def upd_pr_waits)
  then have un: "mm_unlocked s3" using mm_unlocked_same [OF free _ s3(1) ne] by blast
  show thesis
  proof (cases "r3 = 0")
    case n3: False
    then have "r = - E_NO_MEM" "kept p s s'"
      using r False a1 p0 a3 kfree_sys_kept [of _ s3 s'] s3
      by (auto simp: do_fork_def s2_def [symmetric] Let_def kept_def elim!: bind_SomeE)
    then show thesis using that(2) [OF p(1)] p(2) False by simp
  next
    case True
    then obtain r4 s4 where a4: "copy_mm others w fl p s3 = Some (r4, s4)"
      using r False a1 p0 a3 by (auto simp: do_fork_def s2_def [symmetric] Let_def elim!: bind_SomeE split: if_split_asm)
    have s4: "kept p s s4" "ready p ?q s4" using copy_mm_kept [OF a4 un] s3 kept_trans by blast+
    show thesis
    proof (cases "r4 = 0")
      case n4: False
      then have "fork_cleanup_kstack p s4 = Some (r, s')"
        using r False a1 p0 a3 True a4 by (auto simp: do_fork_def s2_def [symmetric] Let_def elim!: bind_SomeE)
      then have "r = - E_NO_MEM" "kept p s s'" using fork_cleanup_kept [of p s4 r s'] s4(1) by (simp_all add: kept_def)
      then show thesis using that(2) [OF p(1)] p(2) False by simp
    next
      case t4: True
      then obtain r5 s5 where a5: "copy_files (snd junk) fl p s4 = Some (r5, s5)"
        using r False a1 p0 a3 True a4 by (auto simp: do_fork_def s2_def [symmetric] Let_def elim!: bind_SomeE split: if_split_asm)
      have s5: "kept p s s5" "ready p ?q s5" using copy_files_kept [OF a5] s4 kept_trans by blast+
      show thesis
      proof (cases "r5 = 0")
        case n5: False
        then obtain s6 where "put_files p s5 = Some s6" "fork_cleanup_kstack p s6 = Some (r, s')"
          using r False a1 p0 a3 True a4 t4 a5 by (auto simp: do_fork_def s2_def [symmetric] Let_def elim!: bind_SomeE)
        then have "r = - E_NO_MEM" "kept p s s'"
          using fork_cleanup_kept [of p s6 r s'] put_files_kept [of p s5 s6] s5(1) by (simp_all add: kept_def)
        then show thesis using that(2) [OF p(1)] p(2) False by simp
      next
        case t5: True
        have "fork_publish p (copy_thread ka p stack tf s5) = Some (r, s')"
          using r False a1 p0 a3 True a4 t4 a5 t5 by (auto simp: do_fork_def s2_def [symmetric] Let_def elim!: bind_SomeE)
        moreover have "kept p s (copy_thread ka p stack tf s5)" "ready p ?q (copy_thread ka p stack tf s5)"
          using s5 by (simp_all add: copy_thread_def ready_upd_pr)
        ultimately show thesis using that(3) [OF p(1)] p(2) False by simp
      qed
    qed
  qed
qed

lemma kept_table:
  assumes k: "kept p s s'" and inv: "procs_inv (sy_k s) ps m rs" "children (sy_k s) q cs" and out: "outside_table p (sy_k s) ps cs"
    and q: "q = k_current (sy_k s)"
  shows "procs_inv (sy_k s') ps m rs" "children (sy_k s') q cs" "pids (sy_k s') ps = pids (sy_k s) ps"
proof -
  have o: "p \<notin> set ps" "p \<notin> set cs" "q \<noteq> p" using out q by (auto simp: outside_table_def)
  show "procs_inv (sy_k s') ps m rs"
    by (rule procs_inv_frame [OF inv(1) o(1)]) (use k in \<open>auto simp: kept_def\<close>)
  have pr: "k_procs (sy_k s') c = k_procs (sy_k s) c" if "c \<noteq> p" for c using k that by (simp add: kept_def)
  have "c \<in> set cs \<Longrightarrow> c \<noteq> p" for c using o(2) by blast
  with pr have "sib_chain (k_procs (sy_k s')) None cs None = sib_chain (k_procs (sy_k s)) None cs None"
    by (intro sib_chain_cong) simp
  moreover have "\<forall>c \<in> set cs. k_procs (sy_k s') c = k_procs (sy_k s) c" using pr o(2) by metis
  ultimately show "children (sy_k s') q cs" using inv(2) pr [OF o(3)] by (simp add: children_def)
  have "c \<in> set ps \<Longrightarrow> k_procs (sy_k s') c = k_procs (sy_k s) c" for c using pr o(1) by metis
  then show "pids (sy_k s') ps = pids (sy_k s) ps" unfolding pids_def by (intro image_cong) simp_all
qed

section \<open>Properties\<close>

text \<open>C6. Fork is all or nothing. When it fails, with no free process or no memory, the process table, the run queue and the children
  of the caller are as before. When it succeeds the result is an identifier that no process had; the child is in the list of processes, is found by
  that identifier, is the youngest child of the caller and the last in the run queue, and it starts where the caller is, on the given stack and with the
  result 0.\<close>

theorem fork_all_or_nothing:
  assumes run: "do_fork ka others w junk fl stack tf s = Some (r, s')"
    and inv: "procs_inv (sy_k s) ps m rs" "children (sy_k s) (k_current (sy_k s)) cs" "k_current (sy_k s) \<notin> set cs"
    and heap: "\<And>a v. kmalloc 216 (sy_vm s) = Some (a, v) \<Longrightarrow> outside_table (unat a) (sy_k s) ps cs"
    and lock: "mm_unlocked s"
  shows "(r = - E_NO_FREE_PROC \<and> s' = s \<or>
      r = - E_NO_MEM \<and> procs_inv (sy_k s') ps m rs \<and> children (sy_k s') (k_current (sy_k s)) cs) \<or>
    (1 \<le> r \<and> r < MAX_PID \<and> r \<notin> pids (sy_k s) ps \<and> (\<exists>p.
      procs_inv (sy_k s') (p # ps) (m(r \<mapsto> p)) (rs @ [p]) \<and> children (sy_k s') (k_current (sy_k s)) (p # cs) \<and>
      find_proc r (sy_k s') = Some (Some p) \<and> pr_state (k_procs (sy_k s') p) = PROC_RUNNABLE \<and>
      tf_EPC (pr_tf (k_procs (sy_k s') p)) = tf_EPC tf \<and> tf_regs (pr_tf (k_procs (sy_k s') p)) R_v0 = 0 \<and>
      tf_regs (pr_tf (k_procs (sy_k s') p)) R_sp = stack))"
proof -
  let ?q = "k_current (sy_k s)"
  have ne: "unat a \<noteq> ?q" if "kmalloc 216 (sy_vm s) = Some (a, v)" for a v using heap [OF that] by (simp add: outside_table_def)
  show ?thesis
  proof (rule do_fork_cases [OF run lock], goal_cases)
    case (1 a v)
    then show ?case by (rule ne)
  next
    case 2
    then show ?case by simp
  next
    case (3 a v)
    have "procs_inv (sy_k s') ps m rs" "children (sy_k s') ?q cs"
      using kept_table [OF 3(3) inv(1,2)] heap [OF 3(1)] by simp_all
    with 3 show ?case by simp
  next
    case (4 a v u t)
    have t: "procs_inv (sy_k t) ps m rs" "children (sy_k t) ?q cs" "outside_table (unat a) (sy_k t) ps cs" "pids (sy_k t) ps = pids (sy_k s) ps"
      "k_nr_process (sy_k t) < MAX_PROCESS"
      using kept_table [OF 4(2) inv(1,2)] heap [OF 4(1)] 4(2,6) by (simp_all add: kept_def outside_table_def)
    have "unat a \<noteq> ?q" using heap [OF 4(1)] by (simp add: outside_table_def)
    with fork_publish_child [OF t(1,3,5) _ _ _ t(2), of t] 4(3) inv(3) obtain k' where
      k': "s' = set_k k' t" "1 \<le> r" "r < MAX_PID" "r \<notin> pids (sy_k t) ps" "procs_inv k' (unat a # ps) (m(r \<mapsto> unat a)) (rs @ [unat a])"
        "children k' ?q (unat a # cs)" "pr_state (k_procs k' (unat a)) = PROC_RUNNABLE"
        "pr_tf (k_procs k' (unat a)) = pr_tf (k_procs (sy_k t) (unat a))"
      using 4(5) by (auto simp: ready_def)
    have "find_proc r k' = Some (Some (unat a))"
      using k'(2,3,5) pidtab.lookup_eq [of k' "m(r \<mapsto> unat a)" r] by (simp add: procs_inv_def)
    moreover have "tf_EPC (pr_tf (k_procs k' (unat a))) = tf_EPC tf" "tf_regs (pr_tf (k_procs k' (unat a))) R_v0 = 0"
      "tf_regs (pr_tf (k_procs k' (unat a))) R_sp = stack"
      by (simp_all add: k'(8) 4(4) copy_thread_def upd_pr_def set_k_def)
    ultimately show ?case using k' t(4) by (auto simp: set_k_def)
  qed
qed

subsection \<open>A concrete fork\<close>

text \<open>Process 1 is the only one besides the idle process; it is a kernel thread. The heap and the free pages are those of
  \<open>example_space\<close>.\<close>

definition example_sys :: sys where
  "example_sys = \<lparr>sy_k = example_kstate\<lparr>k_links := (\<lambda>l. \<lparr>le_prev = l, le_next = l\<rparr>), k_proc_num := 0, k_nr_process := 1,
       k_procs := (\<lambda>p. (example_proc PROC_RUNNABLE (int p) False)\<lparr>pr_filesp := Some 7\<rparr>)\<rparr>,
     sy_f = example_fs\<lparr>f_vm := example_space\<rparr>\<rparr>"

definition pages_ok :: "nat set \<Rightarrow> vmstate \<Rightarrow> bool" where
  "pages_ok F v \<longleftrightarrow> default_inv (v_pmm v) F \<and> F \<subseteq> {..< 2048} \<and> v_npage v = 2048 \<and> \<not> v_swap_init_ok v"

lemma alloc_pages_ok:
  assumes "pages_ok F v" "0 < n" "{p ..< p + unat n} \<subseteq> F"
  shows "\<exists>q w. alloc_pages n v = Some (Some q, w) \<and> q \<in> F \<and> {q ..< q + unat n} \<subseteq> F \<and> pages_ok (F - {q ..< q + unat n}) w"
proof -
  have i: "default_inv (v_pmm v) F" using assms(1) by (simp add: pages_ok_def)
  obtain q s' where a: "default_alloc_pages n (v_pmm v) = Some (Some q, s')"
    using default.alloc_succeeds_iff [OF i assms(2)] assms(3) by blast
  have "q \<in> F" using default.alloc_ok [OF i assms(2) a] assms(2) by (auto simp: word_less_nat_alt)
  then show ?thesis
    using default.alloc_ok [OF i assms(2) a] a assms(1)
    by (auto simp: alloc_pages_def alloc_pages_loop.simps pages_ok_def)
qed

lemma page2kva_ok:
  assumes "v_npage v = 2048" "q < 2048"
  obtains a where "page2kva v q = Some a" "a \<noteq> 0"
proof -
  have "\<not> v_npage v \<le> (of_nat q :: u32)" using assms by (simp add: word_le_nat_alt unat_of_nat_small del: of_nat_unat)
  then have k: "page2kva v q = Some (page2pa q + KERNBASE)" using assms(2) by (simp add: page2kva_def KADDR_def page2pa_PPN)
  have "page2pa q + KERNBASE \<noteq> 0"
  proof
    assume "page2pa q + KERNBASE = 0"
    then have "page2pa q = - KERNBASE" by (simp add: eq_neg_iff_add_eq_0)
    then have "PPN (page2pa q) = 0x80000" by (simp add: KERNBASE_def PPN_def)
    then have "of_nat q = (0x80000 :: u32)" using assms(2) by (simp add: page2pa_PPN)
    then have "unat (of_nat q :: u32) = 0x80000" by simp
    then show False using assms(2) by (simp add: unat_of_nat_small)
  qed
  with k show thesis by (rule that)
qed

text \<open>The free list of the heap is one block of \<open>n\<close> units at \<open>b\<close> besides its empty head.\<close>

definition one_block :: "u32 \<Rightarrow> u32 \<Rightarrow> vmstate \<Rightarrow> bool" where
  "one_block b n v \<longleftrightarrow> v_slobfree v = 0x80010000 \<and> v_words v 0x80010004 = b \<and> v_words v 0x80010000 = 1 \<and>
     v_words v b = n \<and> v_words v (b + 4) = 0x80010000"

lemma example_alloc_proc:
  "\<exists>w. kmalloc 216 example_space = Some (0x80003008, w) \<and> one_block 0x800030E0 484 w \<and> pages_ok {4 ..< 10} w"
proof -
  have "slob_next example_space 0x80010000 = 0x80003000" "slob_units example_space 0x80003000 = 512"
    "v_slobfree example_space = 0x80010000" "slob_next example_space 0x80003000 = 0x80010000" "slob_units example_space 0x80010000 = 1"
    by (simp_all add: example_space_def slob_next_def slob_units_def)
  moreover have "pages_ok {4 ..< 10} example_space"
    using example_pmm_inv by (auto simp: pages_ok_def example_space_def example_vm_def)
  ultimately have "\<exists>w. slob_alloc 224 0 example_space = Some (0x80003000, w) \<and> one_block 0x800030E0 484 w \<and> pages_ok {4 ..< 10} w"
    by (simp add: slob_alloc_def slob_alloc_loop.simps SLOB_UNIT_def SLOB_UNITS_def PGSIZE_def slob_take_def Let_def one_block_def pages_ok_def
       slob_next_def slob_units_def set_slob_next_def set_slob_units_def store_word_def)
  then show ?thesis by (auto simp: kmalloc_def PGSIZE_def SLOB_UNIT_def)
qed

lemma example_files_create:
  assumes b: "one_block 0x800030E0 484 (f_vm f)" and pg: "pages_ok {4 ..< 10} (f_vm f)"
  shows "\<exists>q f' i. files_create junk f = Some (q, f') \<and> 4 \<le> i \<and> i < 10 \<and> pages_ok ({4 ..< 10} - {i}) (f_vm f')"
proof -
  have "\<exists>w. slob_alloc 12 0 (f_vm f) = Some (0x800030E0, w) \<and> pages_ok {4 ..< 10} w"
    using b pg by (simp add: slob_alloc_def slob_alloc_loop.simps SLOB_UNIT_def SLOB_UNITS_def PGSIZE_def slob_take_def Let_def one_block_def
       pages_ok_def slob_next_def slob_units_def set_slob_next_def set_slob_units_def store_word_def)
  then obtain w where w: "slob_alloc 12 0 (f_vm f) = Some (0x800030E0, w)" "pages_ok {4 ..< 10} w" by blast
  then have w': "pages_ok {4 ..< 10} (store_word a c w)" for a c by (simp add: pages_ok_def store_word_def)
  obtain i u where u: "alloc_pages 1 (store_word 0x800030E0 0 w) = Some (Some i, u)" "i \<in> {4 ..< 10}" "pages_ok ({4 ..< 10} - {i}) u"
    using alloc_pages_ok [OF w' [of "0x800030E0" 0], of 1 4] by auto
  obtain a where a: "page2kva u i = Some a" "a \<noteq> 0"
    using page2kva_ok [of u i] u(2,3) by (auto simp: pages_ok_def)
  have sg: "slob_get_free_pages 0 (store_word 0x800030E0 0 w) = Some (a, u)" using u(1) a by (simp add: slob_get_free_pages_def)
  have "find_order 4096 = 0" by (simp add: find_order.simps)
  then have "\<exists>w'. kmalloc 4096 (f_vm f) = Some (a, w') \<and> pages_ok ({4 ..< 10} - {i}) w'"
    using w(1) sg u(3) a(2)
    by (simp add: kmalloc_def PGSIZE_def SLOB_UNIT_def BIGBLOCK_SIZE_def Let_def) (simp add: pages_ok_def store_word_def)
  then obtain w' where "kmalloc 4096 (f_vm f) = Some (a, w')" "pages_ok ({4 ..< 10} - {i}) w'" by blast
  then show ?thesis
    using a(2) u(2) by (intro exI [of _ "Some (unat a)"] exI [of _ "snd (the (files_create junk f))"] exI [of _ i])
      (simp add: files_create_def kalloc_def FILES_STRUCT_BUFSIZE_def PGSIZE_def upd_files_def)
qed

lemma example_sys_sel:
  "sy_vm example_sys = example_space" "k_current (sy_k example_sys) = 1" "pr_mm (cur example_sys) = None"
  "pr_filesp (cur example_sys) = Some 7" "k_idleproc (sy_k example_sys) = 0" "pr_wait_state (cur example_sys) = 0"
  "k_nr_process (sy_k example_sys) = 1"
  by (simp_all add: example_sys_def sy_vm_def cur_def example_proc_def)

lemma example_sys_inv:
  "procs_inv (sy_k example_sys) [] Map.empty []" "children (sy_k example_sys) 1 []" "mm_unlocked example_sys"
proof -
  have "hash_lists (sy_k example_sys) (\<lambda>_. [])" by (simp add: hash_lists_def example_sys_def ring_def)
  then have "hash_inv (sy_k example_sys) Map.empty" unfolding hash_inv_def by (intro exI [of _ "\<lambda>_. []"]) simp
  moreover have "proc_list_inv (sy_k example_sys) []" "rq_inv (sy_k example_sys) []"
    by (simp_all add: proc_list_inv_def rq_inv_def example_sys_def ring_def)
  ultimately show "procs_inv (sy_k example_sys) [] Map.empty []"
    by (simp add: procs_inv_def pids_def pid_window_def example_sys_sel) (simp add: example_sys_def)
qed (simp_all add: children_def example_sys_def example_proc_def mm_unlocked_def cur_def)

text \<open>Up to the publication, the fork of a thread that shares everything goes through.\<close>

lemma example_fork: "\<exists>r s'. do_fork ka others w junk (CLONE_VM OR CLONE_FS) 0x7FFF0000 tf example_sys = Some (r, s') \<and> 0 < r"
proof -
  obtain v1 where v1: "kmalloc 216 example_space = Some (0x80003008, v1)" "one_block 0x800030E0 484 v1" "pages_ok {4 ..< 10} v1"
    using example_alloc_proc by blast
  have "one_block 0x800030E0 484 (f_vm (sy_f (set_vm v1 example_sys)))" "pages_ok {4 ..< 10} (f_vm (sy_f (set_vm v1 example_sys)))"
    using v1 by (simp_all add: set_vm_def)
  from example_files_create [OF this] obtain q f i where f: "files_create (fst junk) (sy_f (set_vm v1 example_sys)) = Some (q, f)"
    "4 \<le> i" "i < 10" "pages_ok ({4 ..< 10} - {i}) (f_vm f)" by blast
  obtain s1 where a1: "alloc_proc_sys (fst junk) example_sys = Some (Some 0x80003008, s1)" "sy_f s1 = f"
    using v1(1) f(1) by (simp add: alloc_proc_sys_def example_sys_sel set_k_def set_f_def Let_def)
  let ?p = "0x80003008 :: nat"
  have s1: "kept ?p example_sys s1" "pr_state (k_procs (sy_k s1) ?p) = PROC_UNINIT" "rq_idle (sy_k s1) ?p"
    using alloc_proc_sys_kept [OF a1(1)] by simp_all
  have c1: "cur s1 = cur example_sys" "k_current (sy_k s1) = 1" using s1(1) by (auto simp: kept_def cur_def example_sys_sel)
  define s2 where "s2 = upd_pr ?p (pr_parent_update (\<lambda>_. Some 1)) s1"
  have v2: "pages_ok ({4 ..< 10} - {i}) (sy_vm s2)" using f(4) a1(2) by (simp add: s2_def sy_vm_def upd_pr_def set_k_def)
  have "\<exists>n. {n ..< n + unat (2 :: u32)} \<subseteq> {4 ..< 10} - {i}"
    using f(2,3) by (cases "i < 6") (force intro: exI [of _ 6], force intro: exI [of _ 4])
  then obtain n where "{n ..< n + unat (2 :: u32)} \<subseteq> {4 ..< 10} - {i}" ..
  from alloc_pages_ok [OF v2 _ this] obtain pg v3 where v3: "alloc_pages 2 (sy_vm s2) = Some (Some pg, v3)" "pg \<in> {4 ..< 10} - {i}" "v_npage v3 = 2048"
    by (auto simp: pages_ok_def)
  obtain a where a: "page2kva v3 pg = Some a" using page2kva_ok [of v3 pg] v3 by auto
  define s3 where "s3 = upd_pr ?p (pr_kstack_update (\<lambda>_. a)) (set_vm v3 s2)"
  have a3: "setup_kstack ?p s2 = Some (0, s3)" using v3(1) a by (simp add: setup_kstack_def KSTACKPAGE_def s3_def)
  have s3: "kept ?p example_sys s3" "ready ?p 1 s3"
    using s1 by (simp_all add: s3_def s2_def ready_upd_pr) (simp add: ready_def upd_pr_def set_k_def rq_idle_def)
  then have c3: "cur s3 = cur example_sys" by (auto simp: kept_def cur_def example_sys_sel)
  have a4: "copy_mm others w (CLONE_VM OR CLONE_FS) ?p s3 = Some (0, s3)" by (simp add: copy_mm_def c3 example_sys_sel)
  have "(CLONE_VM OR CLONE_FS) AND CLONE_FS \<noteq> 0" by (simp add: CLONE_VM_def CLONE_FS_def)
  then obtain s5 where a5: "copy_files (snd junk) (CLONE_VM OR CLONE_FS) ?p s3 = Some (0, s5)"
    by (simp add: copy_files_def c3 example_sys_sel)
  have s5: "kept ?p example_sys s5" "ready ?p 1 s5" using copy_files_kept [OF a5] s3 kept_trans by blast+
  define s6 where "s6 = copy_thread ka ?p 0x7FFF0000 tf s5"
  have s6: "kept ?p example_sys s6" "ready ?p 1 s6" using s5 by (simp_all add: s6_def copy_thread_def ready_upd_pr)
  have out: "outside_table ?p (sy_k example_sys) [] []" by (simp add: outside_table_def example_sys_sel)
  note t6 = kept_table [OF s6(1) example_sys_inv(1,2) out]
  have "outside_table ?p (sy_k s6) [] []" "k_nr_process (sy_k s6) < MAX_PROCESS"
    using s6(1) by (simp_all add: outside_table_def kept_def example_sys_sel MAX_PROCESS_def)
  then obtain r s' where "fork_publish ?p s6 = Some (r, s')" "1 \<le> r"
    using fork_publish_child [OF t6(1), of ?p "[]" 1 s6] t6(2) s6(2) by (auto simp: ready_def example_sys_sel)
  then show ?thesis
    using a1(1) a3 [unfolded s2_def] a4 a5 c1
    by (simp add: do_fork_def example_sys_sel MAX_PROCESS_def s6_def [symmetric])
qed

definition example_kaddrs :: kaddrs where
  "example_kaddrs = \<lparr>ka_forkret = 0x80020000, ka_kernel_thread_entry = 0x80020100, ka_init_main = 0x80020200,
     ka_user_main = 0x80020300, ka_bootstack = 0x80030000, ka_gp = 0x80040000\<rparr>"

theorem fork_all_or_nothing_witness:
  "\<exists>pid s'. do_fork example_kaddrs (\<lambda>_. None) 0 ([], []) (CLONE_VM OR CLONE_FS) 0x7FFF0000 tf_zero example_sys = Some (pid, s') \<and> 1 \<le> pid \<and>
     (\<exists>p. find_proc pid (sy_k s') = Some (Some p) \<and> children (sy_k s') 1 [p])"
proof -
  obtain r s' where run: "do_fork example_kaddrs (\<lambda>_. None) 0 ([], []) (CLONE_VM OR CLONE_FS) 0x7FFF0000 tf_zero example_sys = Some (r, s')" "0 < r"
    using example_fork by blast
  have "outside_table (unat a) (sy_k example_sys) [] []" if "kmalloc 216 (sy_vm example_sys) = Some (a, v)" for a v
    using that example_alloc_proc by (auto simp: outside_table_def example_sys_sel)
  from fork_all_or_nothing [OF run(1) example_sys_inv(1) _ _ _ example_sys_inv(3), of "[]"] this run
  show ?thesis using example_sys_inv(2) by (auto simp: example_sys_sel E_NO_MEM_def E_NO_FREE_PROC_def)
qed

end
