(* ===== verification/Trap.thy ===== *)
theory Trap
  imports Life
begin

text \<open>
  Traps and system calls: \<^verbatim>\<open>kern/trap/trap.c\<close>, \<^verbatim>\<open>ri.h\<close>, \<^verbatim>\<open>kern/syscall/syscall.c\<close>, \<^verbatim>\<open>tlb_miss_handler\<close> of \<^verbatim>\<open>tlb.c\<close> and the input
  buffer of \<^verbatim>\<open>kern/driver/console.c\<close>. The trap frame that is handled is the field \<open>pr_tf\<close> of the running process. The
  traps before there is a process are not modelled: none is enabled then.
\<close>

unbundle bit_operations_syntax

section \<open>The console buffer (console.c)\<close>

definition CONSBUFSIZE :: u32 where "CONSBUFSIZE = 512"

record cons =
  cons_buf :: "u8 list"
  cons_rpos :: u32
  cons_wpos :: u32

text \<open>\<open>serial_proc_data\<close> on the words that have arrived at the serial port: the word, or -1 when there is none, and the rest.\<close>

definition serial_proc_data :: "u32 list \<Rightarrow> u32 \<times> u32 list" where
  "serial_proc_data ser =
     (case ser of [] \<Rightarrow> (- 1, []) | c # ser \<Rightarrow> (if c = 127 then 8 else c, ser))"

definition cons_put :: "u32 \<Rightarrow> cons \<Rightarrow> cons" where
  "cons_put c b =
     (if c \<noteq> 0 then
        let b = b\<lparr>cons_buf := (cons_buf b)[unat (cons_wpos b) := ucast c], cons_wpos := cons_wpos b + 1\<rparr>
        in if cons_wpos b = CONSBUFSIZE then b\<lparr>cons_wpos := 0\<rparr> else b
      else b)"

function cons_intr :: "u32 list \<Rightarrow> cons \<Rightarrow> u32 list \<times> cons" where
  "cons_intr ser b =
     (case ser of
        [] \<Rightarrow> ([], b)
      | x # xs \<Rightarrow>
          let (c, ser) = serial_proc_data ser
          in if c \<noteq> - 1 then cons_intr ser (cons_put c b) else (ser, b))"
  by auto
termination by (relation "measure (length \<circ> fst)") (auto simp: serial_proc_data_def)

declare cons_intr.simps [simp del]

text \<open>\<open>serial_exists\<close> is set by \<open>cons_init\<close> before any interrupt.\<close>

definition cons_getc :: "u32 list \<Rightarrow> cons \<Rightarrow> u8 \<times> u32 list \<times> cons" where
  "cons_getc ser b =
     (let (ser, b) = cons_intr ser b
      in if cons_rpos b \<noteq> cons_wpos b then
           let c = cons_buf b ! unat (cons_rpos b);
               b = b\<lparr>cons_rpos := cons_rpos b + 1\<rparr>;
               b = (if cons_rpos b = CONSBUFSIZE then b\<lparr>cons_rpos := 0\<rparr> else b)
           in (c, ser, b)
         else (0, ser, b))"

section \<open>The division that the CPU lacks (ri.h)\<close>

text \<open>The registers in the order of \<open>struct pushregs\<close>.\<close>

definition pushregs :: "reg list" where
  "pushregs = [R_zero, R_at, R_v0, R_v1, R_a0, R_a1, R_a2, R_a3, R_t0, R_t1, R_t2, R_t3, R_t4, R_t5, R_t6, R_t7,
     R_s0, R_s1, R_s2, R_s3, R_s4, R_s5, R_s6, R_s7, R_t8, R_t9, R_k0, R_k1, R_gp, R_sp, R_fp, R_ra]"

definition EXC_INT :: u32 where "EXC_INT = 0"
definition EXC_TLBL :: u32 where "EXC_TLBL = 2"
definition EXC_TLBS :: u32 where "EXC_TLBS = 3"
definition EXC_SYS :: u32 where "EXC_SYS = 8"
definition EXC_RI :: u32 where "EXC_RI = 10"
definition IRQ_TIMER :: nat where "IRQ_TIMER = 7"
definition IRQ_COM1 :: nat where "IRQ_COM1 = 2"

definition exc_code :: "trapframe \<Rightarrow> u32" where
  "exc_code tf = drop_bit 2 (tf_Cause tf AND 0x7c)"

text \<open>\<open>inst\<close> is the word at the program counter; the results are the return value and the trap frame.\<close>

definition ri_handler :: "u32 \<Rightarrow> trapframe \<Rightarrow> (int \<times> trapframe) option" where
  "ri_handler inst tf = do {
     kassert (drop_bit 2 (tf_Cause tf) AND 0x1f = EXC_RI);
     Some (if inst AND 0xfc00ffff = 0x0000001a then
             let reg1 = unat (drop_bit 21 inst AND 0x1f);
                 reg2 = unat (drop_bit 16 inst AND 0x1f)
             in (case divmod (tf_regs tf (pushregs ! reg1)) (tf_regs tf (pushregs ! reg2)) of
                   Inl _ \<Rightarrow> (- 1, tf)
                 | Inr (q, r) \<Rightarrow> (0, tf\<lparr>tf_LO := q, tf_HI := r, tf_EPC := tf_EPC tf + 4\<rparr>))
           else (- 1, tf)) }"

definition trap_in_kernel :: "trapframe \<Rightarrow> bool" where
  "trap_in_kernel tf \<longleftrightarrow> tf_Status tf AND 0x00000010 = 0"

section \<open>TLB misses (tlb.c)\<close>

definition tlb_refill_sys :: "sys \<Rightarrow> u32 \<Rightarrow> outcome option" where
  "tlb_refill_sys s la = do {
     ptep \<leftarrow> find_pte (sy_vm s) (v_cur_pgdir (sy_vm s)) la;
     a \<leftarrow> ptep;
     v \<leftarrow> tlb_refill la a (sy_vm s);
     Some (Inr (0, set_vm v s)) }"

definition tlb_miss_handler :: "trapframe \<Rightarrow> sys \<Rightarrow> outcome option" where
  "tlb_miss_handler tf s = do {
     let la = tf_BadVAddr tf;
     let v = sy_vm s;
     kassert (v_cur_pgdir v \<noteq> 0);
     ptep \<leftarrow> find_pte v (v_cur_pgdir v) la;
     if (case ptep of None \<Rightarrow> True | Some a \<Rightarrow> v_words v a AND PTE_P = 0) then do {
       mm \<leftarrow> (case v_check_mm v of
                Some m \<Rightarrow> do { kassert (k_current (sy_k s) = k_idleproc (sy_k s)); Some m }
              | None \<Rightarrow> pr_mm (cur s));
       kassert (mm_pgdir (v_mms v mm) = v_cur_pgdir v);
       let error_code = (if drop_bit 2 (tf_Cause tf) AND 0x1f = EXC_TLBS then 2 else 0);
       (r, v) \<leftarrow> do_pgfault (Some mm) error_code la v;
       let s = set_vm v s;
       if r \<noteq> 0 then do {
         kassert (\<not> trap_in_kernel tf);
         map_option Inl (do_exit (- E_KILLED) s) }
       else tlb_refill_sys s la }
     else tlb_refill_sys s la }"

section \<open>System calls (syscall.c)\<close>

text \<open>What the model cannot see during a call: the input device, the other processes, the addresses of local variables and of
  linked code, and the contents of fresh tables of files.\<close>

record kenv =
  ke_addrs :: kaddrs
  ke_sleep :: sleeper
  ke_others :: "sys \<Rightarrow> sys option"
  ke_kothers :: "kstate \<Rightarrow> kstate option"
  ke_wait :: nat
  ke_timer :: nat
  ke_exec :: exec_locals
  ke_stat :: u32
  ke_path :: u32
  ke_stdin :: nat
  ke_junk :: "open_file list \<times> open_file list"

definition returns :: "(int \<times> sys) option \<Rightarrow> outcome option" where
  "returns = map_option Inr"

definition on_procs :: "(kstate \<Rightarrow> (int \<times> kstate) option) \<Rightarrow> sys \<Rightarrow> (int \<times> sys) option" where
  "on_procs op s = do { (r, k) \<leftarrow> op (sy_k s); Some (r, set_k k s) }"

definition sys_exit :: "u32 list \<Rightarrow> sys \<Rightarrow> outcome option" where
  "sys_exit arg s = map_option Inl (do_exit (sint (arg ! 0)) s)"

definition sys_fork :: "kenv \<Rightarrow> u32 list \<Rightarrow> sys \<Rightarrow> outcome option" where
  "sys_fork e arg s = returns (do_fork (ke_addrs e) (ke_kothers e) (ke_wait e) (ke_junk e) 0
     (tf_regs (pr_tf (cur s)) R_sp) (pr_tf (cur s)) s)"

definition sys_wait :: "kenv \<Rightarrow> u32 list \<Rightarrow> sys \<Rightarrow> outcome option" where
  "sys_wait e arg s = do_wait_sys (ke_others e) (sint (arg ! 0)) (arg ! 1) s"

definition sys_exec :: "kenv \<Rightarrow> u32 list \<Rightarrow> sys \<Rightarrow> outcome option" where
  "sys_exec e arg s = do_execve (ke_sleep e) (ke_kothers e) (ke_wait e) (ke_exec e) (arg ! 0) (sint (arg ! 1)) (arg ! 2) s"

definition sys_yield :: "u32 list \<Rightarrow> sys \<Rightarrow> outcome option" where
  "sys_yield arg s = returns (on_procs (Some \<circ> do_yield) s)"

definition sys_kill :: "u32 list \<Rightarrow> sys \<Rightarrow> outcome option" where
  "sys_kill arg s = returns (on_procs (do_kill (sint (arg ! 0))) s)"

definition sys_getpid :: "u32 list \<Rightarrow> sys \<Rightarrow> outcome option" where
  "sys_getpid arg s = Some (Inr (pr_pid (cur s), s))"

definition sys_putc :: "u32 list \<Rightarrow> sys \<Rightarrow> outcome option" where
  "sys_putc arg s = Some (Inr (0, set_f ((sy_f s)\<lparr>f_console := f_console (sy_f s) @ [ucast (arg ! 0)]\<rparr>) s))"

text \<open>\<open>print_pgdir\<close> only prints.\<close>

definition sys_pgdir :: "u32 list \<Rightarrow> sys \<Rightarrow> outcome option" where
  "sys_pgdir arg s = Some (Inr (0, s))"

definition sys_gettime :: "u32 \<Rightarrow> u32 list \<Rightarrow> sys \<Rightarrow> outcome option" where
  "sys_gettime ticks arg s = Some (Inr (sint ticks, s))"

definition sys_lab6_set_priority :: "u32 list \<Rightarrow> sys \<Rightarrow> outcome option" where
  "sys_lab6_set_priority arg s = Some (Inr (0, set_k (lab6_set_priority (arg ! 0) (sy_k s)) s))"

definition sys_sleep :: "kenv \<Rightarrow> u32 list \<Rightarrow> sys \<Rightarrow> outcome option" where
  "sys_sleep e arg s = returns (on_procs (do_sleep (ke_kothers e) (ke_timer e) (arg ! 0)) s)"

definition sys_open :: "u32 list \<Rightarrow> sys \<Rightarrow> outcome option" where
  "sys_open arg s = returns (on_files (sysfile_open (arg ! 0) (arg ! 1)) s)"

definition sys_close :: "u32 list \<Rightarrow> sys \<Rightarrow> outcome option" where
  "sys_close arg s = returns (on_files (sysfile_close (sint (arg ! 0))) s)"

definition sys_read :: "kenv \<Rightarrow> u32 list \<Rightarrow> sys \<Rightarrow> outcome option" where
  "sys_read e arg s = returns (on_files (sysfile_read (ke_sleep e) (sint (arg ! 0)) (arg ! 1) (arg ! 2)) s)"

definition sys_write :: "kenv \<Rightarrow> u32 list \<Rightarrow> sys \<Rightarrow> outcome option" where
  "sys_write e arg s = returns (on_files (sysfile_write (ke_sleep e) (sint (arg ! 0)) (arg ! 1) (arg ! 2)) s)"

definition sys_seek :: "u32 list \<Rightarrow> sys \<Rightarrow> outcome option" where
  "sys_seek arg s = returns (on_files (sysfile_seek (sint (arg ! 0)) (arg ! 1) (sint (arg ! 2))) s)"

definition sys_fstat :: "kenv \<Rightarrow> u32 list \<Rightarrow> sys \<Rightarrow> outcome option" where
  "sys_fstat e arg s = returns (on_files (sysfile_fstat (ke_stat e) (sint (arg ! 0)) (arg ! 1)) s)"

definition sys_fsync :: "u32 list \<Rightarrow> sys \<Rightarrow> outcome option" where
  "sys_fsync arg s = returns (on_files (sysfile_fsync (sint (arg ! 0))) s)"

definition sys_getcwd :: "kenv \<Rightarrow> u32 list \<Rightarrow> sys \<Rightarrow> outcome option" where
  "sys_getcwd e arg s = returns (on_files (sysfile_getcwd (ke_path e) (arg ! 0) (arg ! 1)) s)"

definition sys_getdirentry :: "u32 list \<Rightarrow> sys \<Rightarrow> outcome option" where
  "sys_getdirentry arg s = returns (on_files (sysfile_getdirentry (sint (arg ! 0)) (arg ! 1)) s)"

definition sys_dup :: "u32 list \<Rightarrow> sys \<Rightarrow> outcome option" where
  "sys_dup arg s = returns (on_files (sysfile_dup (sint (arg ! 0)) (sint (arg ! 1))) s)"

text \<open>The table; \<open>None\<close> is a NULL entry or a number outside of it.\<close>

definition syscalls :: "kenv \<Rightarrow> u32 \<Rightarrow> (int \<times> (u32 list \<Rightarrow> sys \<Rightarrow> outcome option)) list" where
  "syscalls e ticks = [(1, sys_exit), (2, sys_fork e), (3, sys_wait e), (4, sys_exec e), (10, sys_yield),
     (12, sys_kill), (18, sys_getpid), (30, sys_putc), (31, sys_pgdir), (17, sys_gettime ticks),
     (255, sys_lab6_set_priority), (11, sys_sleep e), (100, sys_open), (101, sys_close), (102, sys_read e),
     (103, sys_write e), (104, sys_seek), (110, sys_fstat e), (111, sys_fsync), (121, sys_getcwd e),
     (128, sys_getdirentry), (130, sys_dup)]"

definition NUM_SYSCALLS :: int where "NUM_SYSCALLS = 256"

text \<open>The result goes into \<open>v0\<close> of the process that made the call, in whose trap frame the program counter has been moved
  behind the call.\<close>

definition syscall :: "kenv \<Rightarrow> u32 \<Rightarrow> sys \<Rightarrow> (sys + sys) option" where
  "syscall e ticks s = do {
     let p = k_current (sy_k s);
     let regs = tf_regs (pr_tf (cur s));
     let num = sint (regs R_v0);
     call \<leftarrow> (if num \<ge> 0 \<and> num < NUM_SYSCALLS then map_of (syscalls e ticks) num else None);
     let arg = [regs R_a0, regs R_a1, regs R_a2, regs R_a3, regs R_v1];
     out \<leftarrow> call arg (upd_pr p (pr_tf_update (\<lambda>tf. tf\<lparr>tf_EPC := tf_EPC tf + 4\<rparr>)) s);
     Some (case out of
             Inl s \<Rightarrow> Inl s
           | Inr (r, s) \<Rightarrow> Inr (upd_pr p (pr_tf_update (\<lambda>tf. tf\<lparr>tf_regs := (tf_regs tf)(R_v0 := word_of_int r)\<rparr>)) s)) }"

section \<open>Dispatch (trap.c)\<close>

record machine =
  m_sys :: sys
  m_ticks :: u32
  m_cons :: cons
  m_serial :: "u32 list"

definition set_sys :: "sys \<Rightarrow> machine \<Rightarrow> machine" where "set_sys s m = m\<lparr>m_sys := s\<rparr>"

text \<open>A trap after which the process is gone leaves \<open>Inl\<close>.\<close>

type_synonym handled = "machine + machine"

definition handled_of :: "machine \<Rightarrow> sys + sys \<Rightarrow> handled" where
  "handled_of m out = (case out of Inl s \<Rightarrow> Inl (set_sys s m) | Inr s \<Rightarrow> Inr (set_sys s m))"

definition TICK_NUM :: u32 where "TICK_NUM = 128"

definition timer_trap :: "machine \<Rightarrow> machine option" where
  "timer_trap m = do {
     let m = m\<lparr>m_ticks := m_ticks m + 1\<rparr>;
     let s = (if m_ticks m mod TICK_NUM = 0 then upd_cur (pr_need_resched_update (\<lambda>_. True)) (m_sys m) else m_sys m);
     k \<leftarrow> run_timer_list (sy_k s);
     Some (set_sys (set_k k s) m) }"

text \<open>The loop that moves the input from the console to the keyboard device.\<close>

partial_function (option) serial_trap :: "nat \<Rightarrow> machine \<Rightarrow> machine option" where
  "serial_trap q m = do {
     let (c, ser, b) = cons_getc (m_serial m) (m_cons m);
     let m = m\<lparr>m_serial := ser, m_cons := b\<rparr>;
     if c \<noteq> 0 then do {
       (k, f) \<leftarrow> dev_stdin_write q c (sy_k (m_sys m)) (sy_f (m_sys m));
       serial_trap q (set_sys (set_f f (set_k k (m_sys m))) m) }
     else Some m }"

definition int_dispatch :: "kenv \<Rightarrow> trapframe \<Rightarrow> machine \<Rightarrow> machine option" where
  "int_dispatch e tf m =
     (let irq = drop_bit 8 (tf_Cause tf AND tf_Status tf AND 0x0000ff00)
      in if irq = push_bit IRQ_TIMER 1 then timer_trap m
         else if irq = push_bit IRQ_COM1 1 then serial_trap (ke_stdin e) m
         else None)"

definition exits :: "machine \<Rightarrow> handled option" where
  "exits m = do { s \<leftarrow> do_exit (- E_KILLED) (m_sys m); Some (Inl (set_sys s m)) }"

definition trap_dispatch :: "kenv \<Rightarrow> machine \<Rightarrow> handled option" where
  "trap_dispatch e m =
     (let s = m_sys m; tf = pr_tf (cur s); code = exc_code tf
      in if code = EXC_TLBL \<or> code = EXC_TLBS then do {
           out \<leftarrow> tlb_miss_handler tf s;
           (case out of
              Inl s \<Rightarrow> Some (Inl (set_sys s m))
            | Inr (r, s) \<Rightarrow> do { kassert (r = 0); Some (Inr (set_sys s m)) }) }
         else if code = EXC_SYS then map_option (handled_of m) (syscall e (m_ticks m) s)
         else if code = EXC_INT then map_option Inr (int_dispatch e tf m)
         else if code = EXC_RI then do {
           (r, tf) \<leftarrow> ri_handler (mem_at s (tf_EPC tf)) tf;
           let m = set_sys (upd_cur (pr_tf_update (\<lambda>_. tf)) s) m;
           if r \<noteq> 0 then exits m else Some (Inr m) }
         else exits m)"

text \<open>\<open>trap\<close> for the frame \<open>tf\<close>: when the process goes on, the result is the frame it goes on with. Before it does so
  the others may have run.\<close>

definition trap :: "kenv \<Rightarrow> trapframe \<Rightarrow> machine \<Rightarrow> (machine + trapframe \<times> machine) option" where
  "trap e tf m = do {
     let otf = pr_tf (cur (m_sys m));
     let in_kernel = trap_in_kernel tf;
     out \<leftarrow> trap_dispatch e (set_sys (upd_cur (pr_tf_update (\<lambda>_. tf)) (m_sys m)) m);
     (case out of
        Inl m \<Rightarrow> Some (Inl m)
      | Inr m \<Rightarrow> do {
          let tf = pr_tf (cur (m_sys m));
          let m = set_sys (upd_cur (pr_tf_update (\<lambda>_. otf)) (m_sys m)) m;
          if in_kernel then Some (Inr (tf, m))
          else if pr_flags (cur (m_sys m)) AND PF_EXITING \<noteq> 0 then do {
            s \<leftarrow> do_exit (- E_KILLED) (m_sys m);
            Some (Inl (set_sys s m)) }
          else if pr_need_resched (cur (m_sys m)) then do {
            s \<leftarrow> schedule_sys (m_sys m);
            s \<leftarrow> ke_others e s;
            Some (Inr (tf, set_sys s m)) }
          else Some (Inr (tf, m)) }) }"

end
