(* ===== verification/TrapProps.thy ===== *)
theory TrapProps
  imports Trap FileProps
begin

text \<open>
  What holds of the traps: the emulated division is C's, two pending interrupts stop the kernel, and the characters
  that are typed arrive, in order, at the keyboard device.
\<close>

unbundle bit_operations_syntax

section \<open>The emulated division\<close>

definition div_inst :: "nat \<Rightarrow> nat \<Rightarrow> u32" where
  "div_inst rs rt = push_bit 21 (of_nat rs) OR push_bit 16 (of_nat rt) OR 0x1a"

lemma div_inst_fields:
  assumes "rs < 32" "rt < 32"
  shows "div_inst rs rt AND 0xfc00ffff = 0x1a" "unat (drop_bit 21 (div_inst rs rt) AND 0x1f) = rs"
    "unat (drop_bit 16 (div_inst rs rt) AND 0x1f) = rt"
proof -
  have c: "(0xfc00ffff :: u32) = NOT (push_bit 16 (mask 10))" "(0x1f :: u32) = mask 5" by (simp_all add: mask_eq_exp_minus_1)
  have small: "bit (of_nat k :: u32) n \<Longrightarrow> k < 32 \<Longrightarrow> n < 5" for k n
  proof -
    assume a: "bit (of_nat k :: u32) n" "k < 32"
    then have "take_bit 5 (of_nat k :: u32) = of_nat k"
      by (simp add: take_bit_of_nat take_bit_nat_eq_self)
    then show "n < 5" using a(1) by (metis bit_take_bit_iff)
  qed
  have op: "bit (0x1a :: u32) n \<Longrightarrow> n < 5" for n
  proof -
    have "take_bit 5 (0x1a :: u32) = 0x1a" by simp
    then show "bit (0x1a :: u32) n \<Longrightarrow> n < 5" by (metis bit_take_bit_iff)
  qed
  show "div_inst rs rt AND 0xfc00ffff = 0x1a"
  proof (rule bit_word_eqI)
    fix n assume "n < LENGTH(32)"
    then show "bit (div_inst rs rt AND 0xfc00ffff) n = bit (0x1a :: u32) n"
      using small [of rs "n - 21"] small [of rt "n - 16"] assms op [of n]
      unfolding c div_inst_def by (auto simp: bit_simps)
  qed
  have "drop_bit 21 (div_inst rs rt) AND 0x1f = (of_nat rs :: u32)"
  proof (rule bit_word_eqI)
    fix n assume "n < LENGTH(32)"
    then show "bit (drop_bit 21 (div_inst rs rt) AND 0x1f) n = bit (of_nat rs :: u32) n"
      using small [of rs n] small [of rt "21 + n - 16"] assms op [of "21 + n"] bit_imp_le_length [of "of_nat rs :: u32" n]
      unfolding c div_inst_def by (auto simp: bit_simps)
  qed
  then show "unat (drop_bit 21 (div_inst rs rt) AND 0x1f) = rs" using assms(1) by (simp add: unat_of_nat_small)
  have "drop_bit 16 (div_inst rs rt) AND 0x1f = (of_nat rt :: u32)"
  proof (rule bit_word_eqI)
    fix n assume "n < LENGTH(32)"
    then show "bit (drop_bit 16 (div_inst rs rt) AND 0x1f) n = bit (of_nat rt :: u32) n"
      using small [of rt n] assms op [of "16 + n"] bit_imp_le_length [of "of_nat rt :: u32" n]
      unfolding c div_inst_def by (auto simp: bit_simps)
  qed
  then show "unat (drop_bit 16 (div_inst rs rt) AND 0x1f) = rt" using assms(2) by (simp add: unat_of_nat_small)
qed

text \<open>C27. The instruction \<^verbatim>\<open>DIV rs, rt\<close>, which the CPU lacks, is emulated: the trap leaves C's quotient in \<^verbatim>\<open>LO\<close> and the remainder in \<^verbatim>\<open>HI\<close>,
  moves behind the instruction and changes nothing else, for all operands but the smallest integer; a division by zero
  and every other reserved instruction are refused with the frame unchanged.\<close>

theorem ri_handler_divides:
  assumes tf: "exc_code tf = EXC_RI" and r: "rs < 32" "rt < 32"
    and a: "a = tf_regs tf (pushregs ! rs)" "b = tf_regs tf (pushregs ! rt)" "sint a \<noteq> - (2 ^ 31)" "sint b \<noteq> - (2 ^ 31)"
  shows "(if b = 0 then ri_handler (div_inst rs rt) tf = Some (- 1, tf)
     else \<exists>q m. ri_handler (div_inst rs rt) tf = Some (0, tf\<lparr>tf_LO := q, tf_HI := m, tf_EPC := tf_EPC tf + 4\<rparr>) \<and>
       sint q = sint a sdiv sint b \<and> sint m = sint a smod sint b) \<and>
    (inst AND 0xfc00ffff \<noteq> 0x1a \<longrightarrow> ri_handler inst tf = Some (- 1, tf))"
proof -
  have "drop_bit 2 (tf_Cause tf) AND 0x1f = drop_bit 2 (tf_Cause tf AND 0x7c)"
  proof (rule bit_word_eqI)
    fix n
    have "(0x1f :: u32) = mask 5" "(0x7c :: u32) = push_bit 2 (mask 5)" by (simp_all add: mask_eq_exp_minus_1)
    then show "bit (drop_bit 2 (tf_Cause tf) AND 0x1f) n = bit (drop_bit 2 (tf_Cause tf AND 0x7c)) n"
      by (auto simp: bit_simps)
  qed
  then have ri: "drop_bit 2 (tf_Cause tf) AND 0x1f = EXC_RI" using tf by (simp add: exc_code_def)
  show ?thesis
  proof (cases "b = 0")
    case True
    then have "divmod a b = Inl (- 1)" by (simp add: divmod_def)
    then show ?thesis using ri div_inst_fields [OF r] a(1,2) True by (simp add: ri_handler_def kassert_def)
  next
    case False
    with divmod_correct [OF a(3) False a(4)] obtain q m where "divmod a b = Inr (q, m)" "sint q = sint a sdiv sint b" "sint m = sint a smod sint b"
      by auto
    then show ?thesis using ri div_inst_fields [OF r] a(1,2) False
      by (intro conjI) (auto simp: ri_handler_def kassert_def)
  qed
qed

theorem ri_handler_divides_witness:
  "\<exists>q m. ri_handler (div_inst 4 5) (tf_zero\<lparr>tf_regs := (\<lambda>_. 7)(R_a1 := - 2), tf_Cause := 40\<rparr>) =
      Some (0, tf_zero\<lparr>tf_regs := (\<lambda>_. 7)(R_a1 := - 2), tf_Cause := 40, tf_LO := q, tf_HI := m, tf_EPC := 4\<rparr>) \<and> sint q = - 3 \<and> sint m = 1"
proof -
  let ?tf = "tf_zero\<lparr>tf_regs := (\<lambda>_. 7)(R_a1 := - 2), tf_Cause := 40\<rparr>"
  have "exc_code ?tf = EXC_RI" by (simp add: exc_code_def EXC_RI_def)
  moreover have "tf_regs ?tf (pushregs ! 4) = 7" "tf_regs ?tf (pushregs ! 5) = - 2" by (simp_all add: pushregs_def)
  ultimately show ?thesis using ri_handler_divides [of ?tf 4 5 7 "- 2" 0] by (simp add: tf_zero_def)
qed

section \<open>Interrupts\<close>

text \<open>The interrupt dispatch serves one pending interrupt, the timer or the serial port.\<close>

lemma pending_interrupt_stops:
  assumes "i < 8" "bit (tf_Cause tf) (8 + i)" "bit (tf_Status tf) (8 + i)"
    and "i \<noteq> IRQ_TIMER \<and> i \<noteq> IRQ_COM1 \<or> j < 8 \<and> j \<noteq> i \<and> bit (tf_Cause tf) (8 + j) \<and> bit (tf_Status tf) (8 + j)"
  shows "int_dispatch e tf m = None"
proof -
  let ?irq = "drop_bit 8 (tf_Cause tf AND tf_Status tf AND 0x0000ff00)"
  have c: "(0xff00 :: u32) = push_bit 8 (mask 8)" by (simp add: mask_eq_exp_minus_1)
  have b: "bit ?irq k \<longleftrightarrow> bit (tf_Cause tf) (8 + k) \<and> bit (tf_Status tf) (8 + k)" if "k < 8" for k
    using that unfolding c by (auto simp: bit_simps)
  have p: "bit (push_bit n 1 :: u32) k \<longleftrightarrow> k = n" if "n < 8" for n k using that by (auto simp: bit_simps)
  have "?irq \<noteq> push_bit n 1" if "n = IRQ_TIMER \<or> n = IRQ_COM1" for n
  proof
    assume "?irq = push_bit n 1"
    then have "bit ?irq k \<longleftrightarrow> k = n" for k using p [of n k] that by (auto simp: IRQ_TIMER_def IRQ_COM1_def)
    then show False using b [of i] b [of j] assms that by metis
  qed
  then show ?thesis by (simp add: int_dispatch_def)
qed

section \<open>From the serial port to the keyboard\<close>

text \<open>\<open>cons_queue b\<close>: the characters in the ring of the console that are not read.\<close>

definition cons_ok :: "cons \<Rightarrow> bool" where
  "cons_ok b \<longleftrightarrow> length (cons_buf b) = 512 \<and> unat (cons_rpos b) < 512 \<and> unat (cons_wpos b) < 512"

definition cons_len :: "cons \<Rightarrow> nat" where
  "cons_len b = (unat (cons_wpos b) + 512 - unat (cons_rpos b)) mod 512"

definition cons_queue :: "cons \<Rightarrow> u8 list" where
  "cons_queue b = map (\<lambda>i. cons_buf b ! ((unat (cons_rpos b) + i) mod 512)) [0 ..< cons_len b]"

lemma ring_step:
  assumes "unat (w :: u32) < 512"
  shows "unat (if w + 1 = 512 then 0 else w + 1) = (unat w + 1) mod 512" "(w + 1 = 512) = (unat w = 511)"
proof -
  have "unat (w + 1) = unat w + 1" using assms by (subst unat_add_lem [THEN iffD1]) simp_all
  then have "(w + 1 = 512) = (unat w = 511)" by (simp add: word_unat_eq_iff del: of_nat_unat)
  then show "(w + 1 = 512) = (unat w = 511)" "unat (if w + 1 = 512 then 0 else w + 1) = (unat w + 1) mod 512"
    using \<open>unat (w + 1) = unat w + 1\<close> assms by auto
qed

lemma mod_512: "x < 1024 \<Longrightarrow> x mod 512 = (if x < 512 then x else x - 512 :: nat)"
  by (simp add: le_mod_geq)

lemma ring_len: "r < 512 \<Longrightarrow> w < 512 \<Longrightarrow> (w + 512 - r) mod 512 = (if r \<le> w then w - r else w + 512 - r :: nat)"
  by (subst mod_512) auto

lemma ring_index:
  assumes "(r :: nat) < 512" "w < 512"
  shows "i < (w + 512 - r) mod 512 \<Longrightarrow> (r + i) mod 512 \<noteq> w" "(r + (w + 512 - r) mod 512) mod 512 = w"
    "(w + 512 - r) mod 512 < 511 \<Longrightarrow> ((w + 1) mod 512 + 512 - r) mod 512 = Suc ((w + 512 - r) mod 512)"
    "r \<noteq> w \<Longrightarrow> (w + 512 - r) mod 512 = Suc ((w + 512 - (r + 1) mod 512) mod 512)"
proof -
  note l = ring_len [OF assms]
  show "(r + i) mod 512 \<noteq> w" if "i < (w + 512 - r) mod 512"
    using that assms unfolding l by (subst mod_512) (auto split: if_splits)
  show "(r + (w + 512 - r) mod 512) mod 512 = w"
    using assms unfolding l by (subst mod_512) auto
  have w1: "(w + 1) mod 512 = (if w = 511 then 0 else w + 1)" "(r + 1) mod 512 = (if r = 511 then 0 else r + 1)"
    using assms by (auto simp: mod_512)
  show "((w + 1) mod 512 + 512 - r) mod 512 = Suc ((w + 512 - r) mod 512)" if "(w + 512 - r) mod 512 < 511"
    using that assms unfolding l w1 by (subst ring_len) (auto split: if_splits)
  show "(w + 512 - r) mod 512 = Suc ((w + 512 - (r + 1) mod 512) mod 512)" if "r \<noteq> w"
    using that assms unfolding l w1 by (subst ring_len) (auto split: if_splits)
qed

lemma cons_put_queue:
  assumes b: "cons_ok b" and c: "c \<noteq> 0" and l: "cons_len b < 511"
  shows "cons_ok (cons_put c b) \<and> cons_queue (cons_put c b) = cons_queue b @ [ucast c] \<and> cons_len (cons_put c b) = Suc (cons_len b)"
proof -
  define r w where "r = unat (cons_rpos b)" and "w = unat (cons_wpos b)"
  have rw: "r < 512" "w < 512" "length (cons_buf b) = 512" using b by (simp_all add: cons_ok_def r_def w_def)
  let ?b = "cons_put c b"
  have e: "cons_buf ?b = (cons_buf b)[w := ucast c]" "cons_rpos ?b = cons_rpos b" "unat (cons_wpos ?b) = (w + 1) mod 512"
    using c ring_step(1) [of "cons_wpos b"] rw(2)
    by (simp_all add: cons_put_def CONSBUFSIZE_def Let_def w_def if_distrib [of unat] if_distrib [of cons_wpos] cong: if_cong)
  have l': "cons_len b = (w + 512 - r) mod 512" by (simp add: cons_len_def r_def w_def)
  have n: "cons_len ?b = Suc (cons_len b)" using ring_index(3) [OF rw(1,2)] l by (simp add: cons_len_def e l' r_def [symmetric] w_def [symmetric])
  have "cons_buf ?b ! ((r + i) mod 512) = cons_buf b ! ((r + i) mod 512)" if "i < cons_len b" for i
    using ring_index(1) [OF rw(1,2), of i] that by (simp add: e l')
  moreover have "cons_buf ?b ! ((r + cons_len b) mod 512) = ucast c"
    using ring_index(2) [OF rw(1,2)] rw by (simp add: e l')
  ultimately have "cons_queue ?b = cons_queue b @ [ucast c]" by (simp add: cons_queue_def n e r_def [symmetric])
  then show ?thesis using n rw e by (simp add: cons_ok_def r_def)
qed

lemma cons_len_queue: "length (cons_queue b) = cons_len b"
  by (simp add: cons_queue_def)

text \<open>The character that a received word becomes, and the words that are characters.\<close>

definition key_of :: "u32 \<Rightarrow> u8" where "key_of x = (if x = 127 then 8 else ucast x)"
definition is_key :: "u32 \<Rightarrow> bool" where "is_key x \<longleftrightarrow> 0 < x \<and> x < 256"

lemma cons_intr_queue:
  "cons_ok b \<Longrightarrow> \<forall>x \<in> set xs. is_key x \<Longrightarrow> cons_len b + length xs < 512 \<Longrightarrow>
   \<exists>b'. cons_intr xs b = ([], b') \<and> cons_ok b' \<and> cons_queue b' = cons_queue b @ map key_of xs"
proof (induction xs arbitrary: b)
  case Nil
  then show ?case by (simp add: cons_intr.simps)
next
  case (Cons x xs)
  let ?c = "if x = 127 then 8 else x"
  have x: "?c \<noteq> 0" "?c \<noteq> - 1" "ucast ?c = key_of x" using Cons.prems(2) by (auto simp: is_key_def key_of_def)
  have "cons_intr (x # xs) b = cons_intr xs (cons_put ?c b)"
    using x(2) by (subst cons_intr.simps) (simp add: serial_proc_data_def)
  moreover have p: "cons_ok (cons_put ?c b)" "cons_queue (cons_put ?c b) = cons_queue b @ [key_of x]" "cons_len (cons_put ?c b) = Suc (cons_len b)"
    using cons_put_queue [OF Cons.prems(1) x(1)] x(3) Cons.prems(3) by simp_all
  moreover obtain b' where "cons_intr xs (cons_put ?c b) = ([], b')" "cons_ok b'" "cons_queue b' = cons_queue (cons_put ?c b) @ map key_of xs"
    using Cons.IH [OF p(1)] Cons.prems(2,3) p(3) by auto
  ultimately show ?case by simp
qed

lemma cons_getc_queue:
  assumes b: "cons_intr ser b = ([], b1)" "cons_ok b1"
  shows "\<exists>b'. cons_getc ser b = (case cons_queue b1 of [] \<Rightarrow> 0 | c # _ \<Rightarrow> c, [], b') \<and> cons_ok b' \<and> cons_queue b' = tl (cons_queue b1)"
proof -
  define r w where "r = unat (cons_rpos b1)" and "w = unat (cons_wpos b1)"
  have rw: "r < 512" "w < 512" using b(2) by (simp_all add: cons_ok_def r_def w_def)
  have l: "cons_len b1 = (w + 512 - r) mod 512" by (simp add: cons_len_def r_def w_def)
  have e: "cons_rpos b1 = cons_wpos b1 \<longleftrightarrow> r = w" by (simp add: word_unat_eq_iff r_def w_def del: of_nat_unat)
  show ?thesis
  proof (cases "r = w")
    case True
    then have "cons_queue b1 = []" using rw by (simp add: cons_queue_def l)
    then show ?thesis using b True e by (simp add: cons_getc_def)
  next
    case False
    define b2 where "b2 = b1\<lparr>cons_rpos := if cons_rpos b1 + 1 = 512 then 0 else cons_rpos b1 + 1\<rparr>"
    have n: "cons_len b1 = Suc ((w + 512 - (r + 1) mod 512) mod 512)" using ring_index(4) [OF rw False] l by simp
    have r': "unat (cons_rpos b2) = (r + 1) mod 512" using ring_step(1) [of "cons_rpos b1"] rw by (simp add: r_def b2_def)
    then have n': "cons_len b2 = (w + 512 - (r + 1) mod 512) mod 512" by (simp add: cons_len_def w_def r') (simp add: b2_def)
    have "cons_queue b1 = cons_buf b1 ! r # map (\<lambda>i. cons_buf b1 ! ((r + Suc i) mod 512)) [0 ..< cons_len b2]"
      using rw(1) unfolding cons_queue_def n n' by (subst upt_conv_Cons) (simp_all add: r_def [symmetric] map_Suc_upt [symmetric] del: upt_Suc)
    moreover have "cons_queue b2 = map (\<lambda>i. cons_buf b1 ! ((r + Suc i) mod 512)) [0 ..< cons_len b2]"
      by (simp add: cons_queue_def r' mod_Suc_eq mod_add_left_eq) (simp add: b2_def)
    moreover have "cons_ok b2" using b(2) r' by (simp add: cons_ok_def) (simp add: b2_def)
    moreover have "cons_getc ser b = (cons_buf b1 ! r, [], b2)"
      using b(1) False e by (simp add: cons_getc_def CONSBUFSIZE_def Let_def r_def b2_def)
    ultimately show ?thesis by simp
  qed
qed

lemma serial_trap_drains:
  "cons_intr (m_serial m) (m_cons m) = ([], b) \<Longrightarrow> cons_ok b \<Longrightarrow> 0 \<notin> set (cons_queue b) \<Longrightarrow>
   stdin_ok (sy_f (m_sys m)) \<Longrightarrow> length (stdin_queue (sy_f (m_sys m))) + length (cons_queue b) \<le> 4096 \<Longrightarrow>
   unat (f_wpos (sy_f (m_sys m))) + length (cons_queue b) < 2 ^ 31 \<Longrightarrow> waiting q ws rs (sy_k (m_sys m)) \<Longrightarrow>
   \<exists>m'. serial_trap q m = Some m' \<and> m_serial m' = [] \<and> cons_queue (m_cons m') = [] \<and>
     stdin_queue (sy_f (m_sys m')) = stdin_queue (sy_f (m_sys m)) @ cons_queue b \<and>
     (if cons_queue b = [] \<or> ws = [] then sy_k (m_sys m') = sy_k (m_sys m)
      else woken q ws rs WT_KBD (sy_k (m_sys m)) (sy_k (m_sys m')))"
proof (induction "cons_queue b" arbitrary: m b ws rs)
  case Nil
  from cons_getc_queue [OF Nil(2,3)] Nil(1) show ?case by (subst serial_trap.simps) (auto simp: Nil(1) [symmetric])
next
  case (Cons c cs)
  note q = Cons(2)
  from cons_getc_queue [OF Cons(3,4)] obtain b' where
    g: "cons_getc (m_serial m) (m_cons m) = (c, [], b')" "cons_ok b'" "cons_queue b' = cs" by (auto simp: q [symmetric])
  from Cons.prems have c: "c \<noteq> 0" "unat (f_wpos (sy_f (m_sys m))) < 2 ^ 31 - 1" "length (stdin_queue (sy_f (m_sys m))) < 4096"
    by (auto simp: q [symmetric])
  obtain k f where
    f: "dev_stdin_write q c (sy_k (m_sys m)) (sy_f (m_sys m)) = Some (k, f)" "stdin_ok f"
      "unat (f_wpos f) \<le> Suc (unat (f_wpos (sy_f (m_sys m))))" "stdin_queue f = stdin_queue (sy_f (m_sys m)) @ [c]"
      "woken q ws rs WT_KBD (sy_k (m_sys m)) k" "ws = [] \<longrightarrow> k = sy_k (m_sys m)"
    by (rule stdin_write_wakes [OF Cons(6) c(1,2) Cons(9)]) (use c(3) in simp)
  let ?rs = "rs @ filter (\<lambda>p. p \<noteq> k_current (sy_k (m_sys m))) (map (owner (sy_k (m_sys m))) ws)"
  let ?n = "set_sys (set_f f (set_k k (m_sys m))) (m\<lparr>m_serial := [], m_cons := b'\<rparr>)"
  have n: "m_serial ?n = []" "m_cons ?n = b'" "sy_f (m_sys ?n) = f" "sy_k (m_sys ?n) = k" by (simp_all add: set_sys_def set_f_def set_k_def)
  have step: "serial_trap q m = serial_trap q ?n" by (subst serial_trap.simps) (simp add: g(1) c(1) f(1))
  have "\<exists>m'. serial_trap q ?n = Some m' \<and> m_serial m' = [] \<and> cons_queue (m_cons m') = [] \<and>
     stdin_queue (sy_f (m_sys m')) = stdin_queue (sy_f (m_sys ?n)) @ cons_queue b' \<and>
     (if cons_queue b' = [] \<or> ([] :: nat list) = [] then sy_k (m_sys m') = sy_k (m_sys ?n)
      else woken q [] ?rs WT_KBD (sy_k (m_sys ?n)) (sy_k (m_sys m')))"
  proof (rule Cons(1))
    show "cs = cons_queue b'" "cons_ok b'" "stdin_ok (sy_f (m_sys ?n))" "cons_intr (m_serial ?n) (m_cons ?n) = ([], b')"
      using g f by (simp_all add: n cons_intr.simps)
    show "waiting q [] ?rs (sy_k (m_sys ?n))" using f(5) unfolding n by (simp add: waiting_def woken_def)
    show "0 \<notin> set (cons_queue b')" using Cons(5) g(3) by (simp add: q [symmetric])
    show "length (stdin_queue (sy_f (m_sys ?n))) + length (cons_queue b') \<le> 4096"
      using Cons(7) g(3) f(4) by (simp add: n q [symmetric])
    show "unat (f_wpos (sy_f (m_sys ?n))) + length (cons_queue b') < 2 ^ 31"
      using Cons(8) g(3) f(3) by (simp add: n q [symmetric])
  qed
  then obtain m' where m': "serial_trap q m = Some m'" "m_serial m' = []" "cons_queue (m_cons m') = []"
     "stdin_queue (sy_f (m_sys m')) = stdin_queue f @ cs" "sy_k (m_sys m') = k"
    unfolding step n g(3) by auto
  then show ?case using f(4,5,6) by (intro exI [of _ m']) (simp add: q [symmetric])
qed

text \<open>C26. The characters that have reached the serial port arrive at the keyboard device: the interrupt handler returns, and then
  the queue of the keyboard has grown by the characters that the console held back and then the new ones, in order and with
  DEL as backspace, the serial port and the console are empty, and if there was a character, all readers that waited for
  the keyboard are ready to run, in their order and with the reason \<^verbatim>\<open>WT_KBD\<close>. The words of the serial port
  are characters (not NUL, below 256), both rings have room for them, and fewer than \<open>2 ^ 31\<close> characters have been typed
  since the start; each reader is a sleeping process, or the running one that is about to give up the processor.\<close>

theorem typed_characters_arrive:
  assumes "cons_ok (m_cons m)" "0 \<notin> set (cons_queue (m_cons m))" "\<forall>x \<in> set (m_serial m). is_key x"
    and new: "new = cons_queue (m_cons m) @ map key_of (m_serial m)" "length new < 512"
    and "stdin_ok (sy_f (m_sys m))" "length (stdin_queue (sy_f (m_sys m))) + length new \<le> 4096"
    and "unat (f_wpos (sy_f (m_sys m))) + length new < 2 ^ 31" "waiting q ws rs (sy_k (m_sys m))"
  shows "\<exists>m'. serial_trap q m = Some m' \<and> m_serial m' = [] \<and> cons_queue (m_cons m') = [] \<and>
    stdin_queue (sy_f (m_sys m')) = stdin_queue (sy_f (m_sys m)) @ new \<and>
    (if new = [] \<or> ws = [] then sy_k (m_sys m') = sy_k (m_sys m)
     else woken q ws rs WT_KBD (sy_k (m_sys m)) (sy_k (m_sys m')))"
proof -
  have key: "key_of x \<noteq> 0" if "is_key x" for x
  proof -
    from that have "unat x < 2 ^ 8" "x \<noteq> 0" by (auto simp: is_key_def word_less_nat_alt)
    then have "unat (ucast x :: u8) \<noteq> 0" by (simp add: unsigned_ucast_eq take_bit_eq_mod unat_eq_0 del: of_nat_unat)
    then show ?thesis by (auto simp: key_of_def)
  qed
  from cons_intr_queue [OF assms(1,3)] new obtain b where
    b: "cons_intr (m_serial m) (m_cons m) = ([], b)" "cons_ok b" "cons_queue b = new" by (auto simp: cons_len_queue [symmetric])
  have "0 \<notin> set (cons_queue b)" using b(3) assms(2,3) new(1) key by fastforce
  from serial_trap_drains [OF b(1,2) this assms(6), of q ws rs] show ?thesis using assms(7-9) b(3) by blast
qed

definition example_machine :: machine where
  "example_machine = \<lparr>m_sys = \<lparr>sy_k = example_reader, sy_f = example_keys\<rparr>, m_ticks = 0,
     m_cons = \<lparr>cons_buf = replicate 511 0 @ [97], cons_rpos = 511, cons_wpos = 0\<rparr>, m_serial = [98, 127]\<rparr>"

theorem typed_characters_arrive_witness:
  "\<exists>m'. serial_trap 9 example_machine = Some m' \<and> stdin_queue (sy_f (m_sys m')) = [104, 105, 97, 98, 8] \<and>
     rq_inv (sy_k (m_sys m')) [2, 3, 4] \<and> pr_state (k_procs (sy_k (m_sys m')) 4) = PROC_RUNNABLE"
proof -
  have "cons_ok (m_cons example_machine)" "cons_queue (m_cons example_machine) = [97]"
    by (simp_all add: example_machine_def cons_ok_def cons_queue_def cons_len_def nth_append)
  moreover have s: "sy_k (m_sys example_machine) = example_reader" "sy_f (m_sys example_machine) = example_keys"
    "m_serial example_machine = [98, 127]"
    by (simp_all add: example_machine_def)
  moreover have o: "owner example_reader 6 = 4" "k_current example_reader = 1"
    by (simp_all add: owner_def example_reader_def example_kstate_def)
  ultimately show ?thesis
    using typed_characters_arrive [of example_machine "[97, 98, 8]" 9 "[6]" "[2, 3]"] example_reader_waits example_keys_ok
    by (auto simp: is_key_def key_of_def woken_def)
qed

end
