(* ===== verification/Intr.thy ===== *)
theory Intr
  imports Prelude
begin

text \<open>
  The interrupt mask (\<^verbatim>\<open>kern/driver/picirq.c\<close>), the interrupt enable bit (\<^verbatim>\<open>kern/driver/intr.c\<close>, \<^verbatim>\<open>kern/sync/sync.h\<close>) and the
  start of the clock (\<^verbatim>\<open>kern/driver/clock.c\<close>). The status register of coprocessor 0 is a field of the state.
\<close>

unbundle bit_operations_syntax

record cp0 =
  cp0_status :: u32
  cp0_compare :: u32
  irq_mask :: u8
  did_init :: bool
  ticks :: u32

definition pic_setmask :: "u8 \<Rightarrow> cp0 \<Rightarrow> cp0" where
  "pic_setmask m c =
     (let c = c\<lparr>irq_mask := m\<rparr>
      in if did_init c then c\<lparr>cp0_status := (cp0_status c AND 0xffff00ff) OR push_bit 8 (ucast m)\<rparr> else c)"

definition IRQ_ETH :: nat where "IRQ_ETH = 1"

definition pic_enable :: "nat \<Rightarrow> cp0 \<Rightarrow> cp0" where
  "pic_enable irq c = pic_setmask (irq_mask c OR push_bit irq 1) c"

definition pic_init :: "cp0 \<Rightarrow> cp0" where
  "pic_init c =
     (let c = c\<lparr>did_init := True, cp0_status := 0x00000000\<rparr>
      in if irq_mask c \<noteq> 0x00 then pic_setmask (irq_mask c) c else c)"

definition intr_enable :: "cp0 \<Rightarrow> cp0" where
  "intr_enable c = c\<lparr>cp0_status := cp0_status c OR 0x00000001\<rparr>"

definition intr_disable :: "cp0 \<Rightarrow> cp0" where
  "intr_disable c = c\<lparr>cp0_status := cp0_status c AND 0xfffffffe\<rparr>"

definition intr_save :: "cp0 \<Rightarrow> bool \<times> cp0" where
  "intr_save c = (if cp0_status c AND 0x00000001 \<noteq> 0 then (True, intr_disable c) else (False, c))"

definition intr_restore :: "bool \<Rightarrow> cp0 \<Rightarrow> cp0" where
  "intr_restore flag c = (if flag then intr_enable c else c)"

definition clock_init :: "cp0 \<Rightarrow> cp0" where
  "clock_init c = pic_enable 7 (c\<lparr>ticks := 0\<rparr>)"

definition clock_intr :: "cp0 \<Rightarrow> cp0" where
  "clock_intr c = c\<lparr>cp0_compare := 0x00020000\<rparr>"

end
