(* ===== verification/Net.thy ===== *)
theory Net
  imports Intr
begin

text \<open>
  The network driver: the Ethernet controller, ARP, IP, ICMP and TCP (\<^verbatim>\<open>kern/driver/\<close>: \<^verbatim>\<open>utils.c\<close>, \<^verbatim>\<open>ethernet.c\<close>,
  \<^verbatim>\<open>arp.c\<close>, \<^verbatim>\<open>ip.c\<close>, \<^verbatim>\<open>icmp.c\<close>, \<^verbatim>\<open>tcp.c\<close>). The code keeps every byte in an \<open>int\<close> of an array. An array is a list of words,
  a pointer into it an index; an access outside of the array has no result (\<open>None\<close>). The words that the
  controller puts on its data port, in the order in which they are read, are the function \<open>port\<close>; what the code writes to its two
  ports is logged.
\<close>

unbundle bit_operations_syntax

section \<open>Arrays (utils.c)\<close>

definition get_at :: "u32 list \<Rightarrow> nat \<Rightarrow> u32 option" where
  "get_at xs i = (if i < length xs then Some (xs ! i) else None)"

definition put_at :: "nat \<Rightarrow> u32 \<Rightarrow> u32 list \<Rightarrow> u32 list option" where
  "put_at i x xs = (if i < length xs then Some (xs[i := x]) else None)"

text \<open>A sequence of assignments to elements.\<close>

fun stores :: "(nat \<times> u32) list \<Rightarrow> u32 list \<Rightarrow> u32 list option" where
  "stores [] xs = Some xs"
| "stores ((i, x) # ws) xs = do { xs \<leftarrow> put_at i x xs; stores ws xs }"

definition LSB :: "u32 \<Rightarrow> u32" where "LSB x = x AND 0xFF"
definition MSB :: "u32 \<Rightarrow> u32" where "MSB x = signed_drop_bit 8 x AND 0xFF"

text \<open>The first argument counts the iterations that are left.\<close>

fun eth_memcmp :: "nat \<Rightarrow> u32 list \<Rightarrow> nat \<Rightarrow> u32 list \<Rightarrow> nat \<Rightarrow> int option" where
  "eth_memcmp 0 xs a ys b = Some 0"
| "eth_memcmp (Suc n) xs a ys b = do {
     x \<leftarrow> get_at xs a;
     y \<leftarrow> get_at ys b;
     if x \<noteq> y then Some (- 1) else eth_memcmp n xs (a + 1) ys (b + 1) }"

fun eth_memcpy :: "nat \<Rightarrow> u32 list \<Rightarrow> nat \<Rightarrow> u32 list \<Rightarrow> nat \<Rightarrow> u32 list option" where
  "eth_memcpy 0 dst d src s = Some dst"
| "eth_memcpy (Suc n) dst d src s = do {
     x \<leftarrow> get_at src s;
     dst \<leftarrow> put_at d (LSB x) dst;
     eth_memcpy n dst (d + 1) src (s + 1) }"

fun mem2int_loop :: "nat \<Rightarrow> u32 \<Rightarrow> u32 list \<Rightarrow> nat \<Rightarrow> u32 option" where
  "mem2int_loop 0 ret data d = Some ret"
| "mem2int_loop (Suc n) ret data d = do {
     x \<leftarrow> get_at data d;
     mem2int_loop n (push_bit 8 ret OR LSB x) data (d + 1) }"

definition mem2int :: "u32 list \<Rightarrow> nat \<Rightarrow> nat \<Rightarrow> u32 option" where
  "mem2int data d n = mem2int_loop n 0 data d"

text \<open>The bytes are stored from the last to the first.\<close>

fun int2mem :: "u32 list \<Rightarrow> nat \<Rightarrow> nat \<Rightarrow> u32 \<Rightarrow> u32 list option" where
  "int2mem data d 0 val = Some data"
| "int2mem data d (Suc n) val = do {
     data \<leftarrow> put_at (d + n) (LSB val) data;
     int2mem data d n (signed_drop_bit 8 val) }"

section \<open>State\<close>

text \<open>The writes to the index port and to the data port of the controller.\<close>

datatype bus = Addr u32 | Data u32

record net =
  ethernet_rx_data :: "u32 list"
  ethernet_rx_len :: int
  ethernet_tx_data :: "u32 list"
  ethernet_tx_len :: int
  tcp_inited :: bool
  MYDATA :: "u32 list"
  send_pos :: int
  tcp_timeout :: int
  tcp_src_port :: u32
  tcp_dst_port :: u32
  tcp_src_addr :: "u32 list"
  tcp_dst_addr :: "u32 list"
  tcp_ack :: u32
  tcp_seq :: u32
  tcp_state :: int
  bus_reads :: nat
  bus_log :: "bus list"

definition MAC_ADDR :: "u32 list" where "MAC_ADDR = [0xf0, 0xde, 0xf1, 0x44, 0x55, 0x66]"
definition IP_ADDR :: "u32 list" where "IP_ADDR = [192, 168, 1, 233]"

section \<open>The Ethernet controller (ethernet.c)\<close>

definition write_addr :: "u32 \<Rightarrow> net \<Rightarrow> net" where
  "write_addr a s = s\<lparr>bus_log := bus_log s @ [Addr a]\<rparr>"

definition write_data :: "u32 \<Rightarrow> net \<Rightarrow> net" where
  "write_data x s = s\<lparr>bus_log := bus_log s @ [Data x]\<rparr>"

definition read_data :: "(nat \<Rightarrow> u32) \<Rightarrow> net \<Rightarrow> u32 \<times> net" where
  "read_data port s = (port (bus_reads s), s\<lparr>bus_reads := bus_reads s + 1\<rparr>)"

definition ethernet_read :: "(nat \<Rightarrow> u32) \<Rightarrow> u32 \<Rightarrow> net \<Rightarrow> u32 \<times> net" where
  "ethernet_read port addr s = read_data port (write_addr addr s)"

definition ethernet_write :: "u32 \<Rightarrow> u32 \<Rightarrow> net \<Rightarrow> net" where
  "ethernet_write addr data s = write_data data (write_addr addr s)"

definition ETHERNET_DST_MAC :: nat where "ETHERNET_DST_MAC = 0"
definition ETHERNET_SRC_MAC :: nat where "ETHERNET_SRC_MAC = 6"
definition ETHERNET_HDR_LEN :: nat where "ETHERNET_HDR_LEN = 14"

definition DM9000_REG_NCR :: u32 where "DM9000_REG_NCR = 0x00"
definition DM9000_REG_NSR :: u32 where "DM9000_REG_NSR = 0x01"
definition DM9000_REG_TCR :: u32 where "DM9000_REG_TCR = 0x02"
definition DM9000_REG_RCR :: u32 where "DM9000_REG_RCR = 0x05"
definition DM9000_REG_EPCR :: u32 where "DM9000_REG_EPCR = 0x0B"
definition DM9000_REG_EPAR :: u32 where "DM9000_REG_EPAR = 0x0C"
definition DM9000_REG_EPDRL :: u32 where "DM9000_REG_EPDRL = 0x0D"
definition DM9000_REG_EPDRH :: u32 where "DM9000_REG_EPDRH = 0x0E"
definition DM9000_REG_PAR0 :: u32 where "DM9000_REG_PAR0 = 0x10"
definition DM9000_REG_MAR0 :: u32 where "DM9000_REG_MAR0 = 0x16"
definition DM9000_REG_MAR7 :: u32 where "DM9000_REG_MAR7 = 0x1D"
definition DM9000_REG_GPR :: u32 where "DM9000_REG_GPR = 0x1F"
definition DM9000_REG_TCSCR :: u32 where "DM9000_REG_TCSCR = 0x31"
definition DM9000_REG_MRCMDX :: u32 where "DM9000_REG_MRCMDX = 0xF0"
definition DM9000_REG_MRCMDX1 :: u32 where "DM9000_REG_MRCMDX1 = 0xF1"
definition DM9000_REG_MRCMD :: u32 where "DM9000_REG_MRCMD = 0xF2"
definition DM9000_REG_MWCMDX :: u32 where "DM9000_REG_MWCMDX = 0xF6"
definition DM9000_REG_MWCMD :: u32 where "DM9000_REG_MWCMD = 0xF8"
definition DM9000_REG_TXPLL :: u32 where "DM9000_REG_TXPLL = 0xFC"
definition DM9000_REG_TXPLH :: u32 where "DM9000_REG_TXPLH = 0xFD"
definition DM9000_REG_ISR :: u32 where "DM9000_REG_ISR = 0xFE"
definition DM9000_REG_IMR :: u32 where "DM9000_REG_IMR = 0xFF"
definition DM9000_PHY_REG_BMCR :: u32 where "DM9000_PHY_REG_BMCR = 0x00"

text \<open>The bits of the registers are written as their values, in the order in which the code combines them.\<close>

definition ethernet_check_iomode :: "(nat \<Rightarrow> u32) \<Rightarrow> net \<Rightarrow> int \<times> net" where
  "ethernet_check_iomode port s =
     (let (v, s) = ethernet_read port DM9000_REG_ISR s in (if v AND 0x80 \<noteq> 0 then 8 else 16, s))"

definition ethernet_check_link :: "(nat \<Rightarrow> u32) \<Rightarrow> net \<Rightarrow> u32 \<times> net" where
  "ethernet_check_link port s = (let (v, s) = ethernet_read port 0x01 s in (drop_bit 6 (v AND 0x40), s))"

definition ethernet_check_speed :: "(nat \<Rightarrow> u32) \<Rightarrow> net \<Rightarrow> int \<times> net" where
  "ethernet_check_speed port s = (let (v, s) = ethernet_read port 0x01 s in (if v AND 0x80 = 0 then 100 else 10, s))"

definition ethernet_check_duplex :: "(nat \<Rightarrow> u32) \<Rightarrow> net \<Rightarrow> u32 \<times> net" where
  "ethernet_check_duplex port s = (let (v, s) = ethernet_read port 0x00 s in (drop_bit 3 (v AND 0x08), s))"

text \<open>The loop that reads a register until \<open>bits\<close> are clear.\<close>

partial_function (option) poll_clear :: "(nat \<Rightarrow> u32) \<Rightarrow> u32 \<Rightarrow> u32 \<Rightarrow> net \<Rightarrow> net option" where
  "poll_clear port addr bits s =
     (let (v, s) = ethernet_read port addr s in if v AND bits \<noteq> 0 then poll_clear port addr bits s else Some s)"

definition ethernet_phy_write :: "(nat \<Rightarrow> u32) \<Rightarrow> u32 \<Rightarrow> u32 \<Rightarrow> net \<Rightarrow> net option" where
  "ethernet_phy_write port offset value s = do {
     let s = ethernet_write DM9000_REG_EPAR (offset OR 0x40) s;
     let s = ethernet_write DM9000_REG_EPDRH (MSB value) s;
     let s = ethernet_write DM9000_REG_EPDRL (LSB value) s;
     let s = ethernet_write DM9000_REG_EPCR (8 OR 2) s;
     s \<leftarrow> poll_clear port DM9000_REG_EPCR 1 s;
     Some (ethernet_write DM9000_REG_EPCR 8 s) }"

definition ethernet_phy_read :: "(nat \<Rightarrow> u32) \<Rightarrow> u32 \<Rightarrow> net \<Rightarrow> (u32 \<times> net) option" where
  "ethernet_phy_read port offset s = do {
     let s = ethernet_write DM9000_REG_EPAR (offset OR 0x40) s;
     let s = ethernet_write DM9000_REG_EPCR (8 OR 4) s;
     s \<leftarrow> poll_clear port DM9000_REG_EPCR 1 s;
     let s = ethernet_write DM9000_REG_EPCR 8 s;
     let (h, s) = ethernet_read port DM9000_REG_EPDRH s;
     let (l, s) = ethernet_read port DM9000_REG_EPDRL s;
     Some (push_bit 8 h OR l, s) }"

definition ethernet_powerup :: "net \<Rightarrow> net" where
  "ethernet_powerup s = ethernet_write DM9000_REG_GPR 0x00 s"

definition ethernet_reset :: "(nat \<Rightarrow> u32) \<Rightarrow> net \<Rightarrow> net option" where
  "ethernet_reset port s = poll_clear port DM9000_REG_NCR 1 (ethernet_write DM9000_REG_NCR 1 s)"

partial_function (option) phy_poll :: "(nat \<Rightarrow> u32) \<Rightarrow> net \<Rightarrow> net option" where
  "phy_poll port s = do {
     (v, s) \<leftarrow> ethernet_phy_read port DM9000_PHY_REG_BMCR s;
     if v AND 0x8000 \<noteq> 0 then phy_poll port s else Some s }"

definition ethernet_phy_reset :: "(nat \<Rightarrow> u32) \<Rightarrow> net \<Rightarrow> net option" where
  "ethernet_phy_reset port s = do {
     s \<leftarrow> ethernet_phy_write port DM9000_PHY_REG_BMCR 0x8000 s;
     phy_poll port s }"

text \<open>The registers \<open>reg\<close>, \<open>reg + 1\<close>, \dots\ get the bytes.\<close>

definition write_regs :: "u32 \<Rightarrow> u32 list \<Rightarrow> net \<Rightarrow> net" where
  "write_regs reg xs s = fold (\<lambda>i. ethernet_write (reg + of_nat i) (xs ! i)) [0 ..< length xs] s"

definition ethernet_init :: "(nat \<Rightarrow> u32) \<Rightarrow> cp0 \<times> net \<Rightarrow> (cp0 \<times> net) option" where
  "ethernet_init port = (\<lambda>(c, s). do {
     let s = ethernet_powerup s;
     s \<leftarrow> ethernet_reset port s;
     s \<leftarrow> ethernet_phy_reset port s;
     let s = write_regs DM9000_REG_PAR0 MAC_ADDR s;
     let s = write_regs DM9000_REG_MAR0 (replicate 8 0x00) s;
     let s = ethernet_write DM9000_REG_MAR7 0x80 s;
     let s = ethernet_write DM9000_REG_IMR 0x80 s;
     let s = ethernet_write DM9000_REG_NSR (0x20 OR 0x08 OR 0x04) s;
     let s = ethernet_write DM9000_REG_ISR (0x10 OR 0x08 OR 0x04 OR 0x02 OR 0x01) s;
     let s = ethernet_write DM9000_REG_IMR (0x80 OR 0x01) s;
     let s = ethernet_write DM9000_REG_RCR (0x20 OR 0x10 OR 0x01) s;
     let s = ethernet_write DM9000_REG_TCSCR 0x01 s;
     Some (pic_enable IRQ_ETH c, s) })"

function send_loop :: "int \<Rightarrow> net \<Rightarrow> net option" where
  "send_loop i s =
     (if i < ethernet_tx_len s then do {
        val \<leftarrow> get_at (ethernet_tx_data s) (nat i);
        val \<leftarrow> (if i + 1 \<noteq> ethernet_tx_len s then do {
                  x \<leftarrow> get_at (ethernet_tx_data s) (nat (i + 1));
                  Some (val OR push_bit 8 x) }
                else Some val);
        send_loop (i + 2) (write_data val s) }
      else Some s)"
  by auto
termination by (relation "measure (\<lambda>(i, s). nat (ethernet_tx_len s - i))") (auto simp: write_data_def)

declare send_loop.simps [simp del]

definition ethernet_send :: "net \<Rightarrow> net option" where
  "ethernet_send s = do {
     let s = ethernet_write DM9000_REG_MWCMDX 0 s;
     let s = write_addr DM9000_REG_MWCMD s;
     s \<leftarrow> send_loop 0 s;
     let s = ethernet_write DM9000_REG_TXPLH (MSB (word_of_int (ethernet_tx_len s))) s;
     let s = ethernet_write DM9000_REG_TXPLL (LSB (word_of_int (ethernet_tx_len s))) s;
     let s = ethernet_write DM9000_REG_ISR 2 s;
     Some (ethernet_write DM9000_REG_TCR 1 s) }"

function recv_loop :: "(nat \<Rightarrow> u32) \<Rightarrow> int \<Rightarrow> net \<Rightarrow> net option" where
  "recv_loop port i s =
     (if i < ethernet_rx_len s then
        let (x, s) = read_data port s
        in (case stores [(nat i, LSB x), (nat (i + 1), MSB x)] (ethernet_rx_data s) of
              None \<Rightarrow> None
            | Some d \<Rightarrow> recv_loop port (i + 2) (s\<lparr>ethernet_rx_data := d\<rparr>))
      else Some s)"
  by auto
termination by (relation "measure (\<lambda>(port, i, s). nat (ethernet_rx_len s - i))") (auto simp: read_data_def)

declare recv_loop.simps [simp del]

text \<open>The mask of the second status is the bits for late collision, watchdog, physical layer, alignment, CRC and overflow errors.\<close>

definition ethernet_recv :: "(nat \<Rightarrow> u32) \<Rightarrow> net \<Rightarrow> net option" where
  "ethernet_recv port s =
     (let (_, s) = ethernet_read port DM9000_REG_MRCMDX s;
          s = write_addr DM9000_REG_MRCMDX1 s;
          (x, s) = read_data port s;
          status = LSB x
      in if status \<noteq> 0x01 then Some (s\<lparr>ethernet_rx_len := - 1\<rparr>)
         else
           let s = write_addr DM9000_REG_MRCMD s;
               (x, s) = read_data port s;
               status = MSB x;
               (len, s) = read_data port s;
               s = s\<lparr>ethernet_rx_len := sint len\<rparr>
           in if status AND (0x20 OR 0x10 OR 0x08 OR 0x04 OR 0x02 OR 0x01) \<noteq> 0 then Some (s\<lparr>ethernet_rx_len := - 1\<rparr>)
              else do {
                s \<leftarrow> recv_loop port 0 s;
                Some (ethernet_write DM9000_REG_ISR 1 s) })"

definition ethernet_rx_type :: "net \<Rightarrow> u32 option" where
  "ethernet_rx_type s = do {
     h \<leftarrow> get_at (ethernet_rx_data s) 12;
     l \<leftarrow> get_at (ethernet_rx_data s) 13;
     Some (push_bit 8 h OR l) }"

definition upd_tx :: "(u32 list \<Rightarrow> u32 list option) \<Rightarrow> net \<Rightarrow> net option" where
  "upd_tx f s = do { d \<leftarrow> f (ethernet_tx_data s); Some (s\<lparr>ethernet_tx_data := d\<rparr>) }"

text \<open>The destination is always the sender of the packet that is answered, at index \<open>dst\<close> of \<open>src\<close>.\<close>

definition ethernet_set_tx :: "u32 list \<Rightarrow> nat \<Rightarrow> u32 \<Rightarrow> net \<Rightarrow> net option" where
  "ethernet_set_tx src dst type = upd_tx (\<lambda>d. do {
     d \<leftarrow> eth_memcpy 6 d ETHERNET_DST_MAC src dst;
     d \<leftarrow> eth_memcpy 6 d ETHERNET_SRC_MAC MAC_ADDR 0;
     stores [(12, MSB type), (13, LSB type)] d })"

section \<open>ARP (arp.c)\<close>

definition ETHERNET_TYPE_ARP :: u32 where "ETHERNET_TYPE_ARP = 0x0806"
definition ARP_TYPE :: nat where "ARP_TYPE = 7"
definition ARP_TYPE_REQUEST :: u32 where "ARP_TYPE_REQUEST = 0x1"
definition ARP_TYPE_REPLY :: u32 where "ARP_TYPE_REPLY = 0x2"
definition ARP_SENDER_MAC :: nat where "ARP_SENDER_MAC = 8"
definition ARP_SENDER_IP :: nat where "ARP_SENDER_IP = ARP_SENDER_MAC + 6"
definition ARP_TARGET_MAC :: nat where "ARP_TARGET_MAC = ARP_SENDER_IP + 4"
definition ARP_TARGET_IP :: nat where "ARP_TARGET_IP = ARP_TARGET_MAC + 6"
definition ARP_BODY_LEN :: nat where "ARP_BODY_LEN = ARP_TARGET_IP + 4"
definition ARP_FIX_HDR :: "u32 list" where "ARP_FIX_HDR = [0x00, 0x01, 0x08, 0x00, 0x06, 0x04, 0x00]"

definition arp_handle :: "net \<Rightarrow> net option" where
  "arp_handle s = do {
     let rx = ethernet_rx_data s;
     let data = ETHERNET_HDR_LEN;
     t \<leftarrow> get_at rx (data + ARP_TYPE);
     if t = ARP_TYPE_REQUEST then do {
       r \<leftarrow> eth_memcmp 4 rx (data + ARP_TARGET_IP) IP_ADDR 0;
       if r \<noteq> 0 then Some s
       else do {
         let s = s\<lparr>ethernet_tx_len := int (ETHERNET_HDR_LEN + ARP_BODY_LEN)\<rparr>;
         s \<leftarrow> ethernet_set_tx rx ETHERNET_SRC_MAC ETHERNET_TYPE_ARP s;
         let buf = ETHERNET_HDR_LEN;
         s \<leftarrow> upd_tx (\<lambda>d. do {
           d \<leftarrow> eth_memcpy (6 + 1) d buf ARP_FIX_HDR 0;
           d \<leftarrow> put_at (buf + ARP_TYPE) ARP_TYPE_REPLY d;
           d \<leftarrow> eth_memcpy 6 d (buf + ARP_SENDER_MAC) MAC_ADDR 0;
           d \<leftarrow> eth_memcpy 4 d (buf + ARP_SENDER_IP) IP_ADDR 0;
           d \<leftarrow> eth_memcpy 6 d (buf + ARP_TARGET_MAC) rx (data + ARP_SENDER_MAC);
           eth_memcpy 4 d (buf + ARP_TARGET_IP) rx (data + ARP_SENDER_IP) }) s;
         ethernet_send s } }
     else Some s }"

section \<open>IP and ICMP (ip.c, icmp.c)\<close>

definition ETHERNET_TYPE_IP :: u32 where "ETHERNET_TYPE_IP = 0x0800"
definition IP_VERSION :: nat where "IP_VERSION = 0"
definition IP_VERSION_VAL :: u32 where "IP_VERSION_VAL = 0x45"
definition IP_TOTAL_LEN :: nat where "IP_TOTAL_LEN = 2"
definition IP_FLAGS :: nat where "IP_FLAGS = 6"
definition IP_TTL :: nat where "IP_TTL = 8"
definition IP_PROTOCAL :: nat where "IP_PROTOCAL = 9"
definition IP_SRC :: nat where "IP_SRC = 12"
definition IP_DST :: nat where "IP_DST = 16"
definition IP_HDR_LEN :: nat where "IP_HDR_LEN = 20"
definition IP_PROTOCAL_ICMP :: u32 where "IP_PROTOCAL_ICMP = 0x01"
definition IP_PROTOCAL_TCP :: u32 where "IP_PROTOCAL_TCP = 0x06"

definition ip_make_reply :: "u32 \<Rightarrow> int \<Rightarrow> net \<Rightarrow> net option" where
  "ip_make_reply proto len s = do {
     let len = len + 20;
     s \<leftarrow> ethernet_set_tx (ethernet_rx_data s) ETHERNET_SRC_MAC ETHERNET_TYPE_IP s;
     let data = ETHERNET_HDR_LEN;
     upd_tx (\<lambda>d. do {
       d \<leftarrow> stores [(data + IP_VERSION, IP_VERSION_VAL), (data + IP_TOTAL_LEN, MSB (word_of_int len)),
         (data + IP_TOTAL_LEN + 1, LSB (word_of_int len)), (data + IP_FLAGS, 0), (data + IP_FLAGS + 1, 0),
         (data + IP_TTL, 64), (data + IP_PROTOCAL, proto)] d;
       d \<leftarrow> eth_memcpy 4 d (data + IP_SRC) IP_ADDR 0;
       eth_memcpy 4 d (data + IP_DST) (ethernet_rx_data s) (ETHERNET_HDR_LEN + IP_SRC) }) s }"

definition ICMP_TYPE :: nat where "ICMP_TYPE = 0"
definition ICMP_CODE :: nat where "ICMP_CODE = 1"
definition ICMP_CHECKSUM :: nat where "ICMP_CHECKSUM = 2"
definition ICMP_ID_SEQ :: nat where "ICMP_ID_SEQ = 4"
definition ICMP_TYPE_ECHO_REQUEST :: u32 where "ICMP_TYPE_ECHO_REQUEST = 0x08"
definition ICMP_TYPE_ECHO_REPLY :: u32 where "ICMP_TYPE_ECHO_REPLY = 0x00"

text \<open>The sum of the big-endian half words from index \<open>a\<close>; \<open>f\<close> is applied to every element.\<close>

function sum_loop :: "(u32 \<Rightarrow> u32) \<Rightarrow> u32 list \<Rightarrow> nat \<Rightarrow> int \<Rightarrow> int \<Rightarrow> u32 \<Rightarrow> u32 option" where
  "sum_loop f xs a i len acc =
     (if i < len then do {
        x \<leftarrow> get_at xs (a + nat i);
        val \<leftarrow> (if i + 1 \<noteq> len then do {
                  y \<leftarrow> get_at xs (a + nat (i + 1));
                  Some (push_bit 8 (f x) OR f y) }
                else Some (push_bit 8 (f x)));
        sum_loop f xs a (i + 2) len (acc + val) }
      else Some acc)"
  by auto
termination by (relation "measure (\<lambda>(f, xs, a, i, len, acc). nat (len - i))") auto

declare sum_loop.simps [simp del]

text \<open>\<open>acc\<close>, in the code \<open>sum\<close>, is an \<open>int\<close>: its shift keeps the sign.\<close>

definition fold_sum :: "u32 \<Rightarrow> u32" where
  "fold_sum acc =
     (let acc = signed_drop_bit 16 acc + (acc AND 0xffff);
          acc = signed_drop_bit 16 acc + (acc AND 0xffff)
      in NOT acc)"

definition icmp_checksum :: "nat \<Rightarrow> int \<Rightarrow> u32 list \<Rightarrow> u32 list option" where
  "icmp_checksum data len d = do {
     d \<leftarrow> stores [(data + ICMP_CHECKSUM, 0), (data + ICMP_CHECKSUM + 1, 0)] d;
     acc \<leftarrow> sum_loop LSB d data 0 len 0;
     let acc = fold_sum acc;
     stores [(data + ICMP_CHECKSUM, MSB acc), (data + ICMP_CHECKSUM + 1, LSB acc)] d }"

definition icmp_handle :: "int \<Rightarrow> net \<Rightarrow> net option" where
  "icmp_handle len s = do {
     let rx = ethernet_rx_data s;
     let data = ETHERNET_HDR_LEN + IP_HDR_LEN;
     t \<leftarrow> get_at rx (data + ICMP_TYPE);
     if t \<noteq> ICMP_TYPE_ECHO_REQUEST then Some s
     else do {
       let buf = ETHERNET_HDR_LEN + IP_HDR_LEN;
       s \<leftarrow> upd_tx (\<lambda>d. do {
         d \<leftarrow> stores [(buf + ICMP_TYPE, ICMP_TYPE_ECHO_REPLY), (buf + ICMP_CODE, 0)] d;
         d \<leftarrow> eth_memcpy (nat (len - 4)) d (buf + ICMP_ID_SEQ) rx (data + ICMP_ID_SEQ);
         icmp_checksum buf len d }) s;
       s \<leftarrow> ip_make_reply IP_PROTOCAL_ICMP len s;
       ethernet_send (s\<lparr>ethernet_tx_len := int (ETHERNET_HDR_LEN + IP_HDR_LEN) + len\<rparr>) } }"

section \<open>TCP (tcp.c)\<close>

definition TCP_CLOSED :: int where "TCP_CLOSED = 1"
definition TCP_SYNC_RECVED :: int where "TCP_SYNC_RECVED = 2"
definition TCP_ESTABLISHED :: int where "TCP_ESTABLISHED = 3"
definition TCP_FIN_SENT :: int where "TCP_FIN_SENT = 4"

definition TCP_SRC_PORT :: nat where "TCP_SRC_PORT = 0"
definition TCP_DST_PORT :: nat where "TCP_DST_PORT = 2"
definition TCP_SEQ :: nat where "TCP_SEQ = 4"
definition TCP_ACK :: nat where "TCP_ACK = 8"
definition TCP_DATA_OFFSET :: nat where "TCP_DATA_OFFSET = 12"
definition TCP_FLAGS :: nat where "TCP_FLAGS = 13"
definition TCP_WINDOW :: nat where "TCP_WINDOW = 14"
definition TCP_CHECKSUM :: nat where "TCP_CHECKSUM = 16"
definition TCP_URGEN :: nat where "TCP_URGEN = 18"
definition TCP_DATA :: nat where "TCP_DATA = 20"
definition TCP_HDR_LEN :: nat where "TCP_HDR_LEN = 20"

definition TCP_FLAG_ACK :: u32 where "TCP_FLAG_ACK = 0x10"
definition TCP_FLAG_PSH :: u32 where "TCP_FLAG_PSH = 0x08"
definition TCP_FLAG_RST :: u32 where "TCP_FLAG_RST = 0x04"
definition TCP_FLAG_SYN :: u32 where "TCP_FLAG_SYN = 0x02"
definition TCP_FLAG_FIN :: u32 where "TCP_FLAG_FIN = 0x01"

definition INIT_SEQ :: int where "INIT_SEQ = 1001"
definition TIMEOUT :: int where "TIMEOUT = 30"
definition MYDATA_LENGTH :: int where "MYDATA_LENGTH = 724 div 4"
definition CHUNK_LEN :: int where "CHUNK_LEN = 1000"
definition LAST_CHUNK_POS :: int where "LAST_CHUNK_POS = (MYDATA_LENGTH div CHUNK_LEN) * CHUNK_LEN"

text \<open>The data are \<open>len\<close> elements of \<open>src\<close> from index \<open>pos\<close>; a negative index with something to copy is outside of it.\<close>

definition tcp_send_packet :: "u32 \<Rightarrow> u32 list \<Rightarrow> int \<Rightarrow> int \<Rightarrow> net \<Rightarrow> net option" where
  "tcp_send_packet flags src pos len s = do {
     let packet = ETHERNET_HDR_LEN + IP_HDR_LEN;
     s \<leftarrow> upd_tx (\<lambda>d. do {
       d \<leftarrow> int2mem d (packet + TCP_SRC_PORT) 2 (tcp_dst_port s);
       d \<leftarrow> int2mem d (packet + TCP_DST_PORT) 2 (tcp_src_port s);
       d \<leftarrow> int2mem d (packet + TCP_SEQ) 4 (tcp_seq s);
       d \<leftarrow> int2mem d (packet + TCP_ACK) 4 (tcp_ack s);
       d \<leftarrow> stores [(packet + TCP_DATA_OFFSET, 0x50), (packet + TCP_FLAGS, flags), (packet + TCP_URGEN, 0),
         (packet + TCP_URGEN + 1, 0), (packet + TCP_CHECKSUM, 0), (packet + TCP_CHECKSUM + 1, 0)] d;
       d \<leftarrow> int2mem d (packet + TCP_WINDOW) 2 1000;
       if pos < 0 \<and> len > 0 then None else eth_memcpy (nat len) d (packet + TCP_DATA) src (nat pos) }) s;
     s1 \<leftarrow> mem2int (tcp_src_addr s) 0 2;
     s2 \<leftarrow> mem2int (tcp_src_addr s) 2 2;
     d1 \<leftarrow> mem2int (tcp_dst_addr s) 0 2;
     d2 \<leftarrow> mem2int (tcp_dst_addr s) 2 2;
     let len = len + int TCP_HDR_LEN;
     s \<leftarrow> upd_tx (\<lambda>d. do {
       acc \<leftarrow> sum_loop (\<lambda>x. x) d packet 0 len (s1 + s2 + (d1 + d2) + IP_PROTOCAL_TCP + word_of_int len);
       let acc = fold_sum acc;
       stores [(packet + TCP_CHECKSUM, MSB acc), (packet + TCP_CHECKSUM + 1, LSB acc)] d }) s;
     s \<leftarrow> ip_make_reply IP_PROTOCAL_TCP len s;
     ethernet_send (s\<lparr>ethernet_tx_len := int (ETHERNET_HDR_LEN + IP_HDR_LEN) + len\<rparr>) }"

text \<open>\<open>page\<close>: the bytes of memory from the string \<open>pagedata\<close> on; the string fills the first 32.\<close>

definition tcp_init_data :: "(nat \<Rightarrow> u8) \<Rightarrow> net \<Rightarrow> net" where
  "tcp_init_data page s =
     (if \<not> tcp_inited s then
        s\<lparr>tcp_inited := True,
          MYDATA := map (\<lambda>i. scast (page i)) [0 ..< nat MYDATA_LENGTH] @ drop (nat MYDATA_LENGTH) (MYDATA s)\<rparr>
      else s)"

definition tcp_tick :: "net \<Rightarrow> net" where
  "tcp_tick s =
     (let s = (if tcp_state s \<noteq> TCP_CLOSED then s\<lparr>tcp_timeout := tcp_timeout s + 1\<rparr> else s\<lparr>tcp_timeout := 0\<rparr>)
      in if tcp_timeout s = TIMEOUT then s\<lparr>tcp_timeout := 0, tcp_state := TCP_CLOSED\<rparr> else s)"

definition tcp_accept :: "net \<Rightarrow> net option" where
  "tcp_accept s = do {
     let rx = ethernet_rx_data s;
     let ip = ETHERNET_HDR_LEN;
     let data = ip + IP_HDR_LEN;
     sp \<leftarrow> mem2int rx (data + TCP_SRC_PORT) 2;
     dp \<leftarrow> mem2int rx (data + TCP_DST_PORT) 2;
     sa \<leftarrow> eth_memcpy 4 (tcp_src_addr s) 0 rx (ip + IP_SRC);
     da \<leftarrow> eth_memcpy 4 (tcp_dst_addr s) 0 rx (ip + IP_DST);
     q \<leftarrow> mem2int rx (data + TCP_SEQ) 4;
     tcp_send_packet (TCP_FLAG_SYN OR TCP_FLAG_ACK) [] 0 0
       (s\<lparr>tcp_src_port := sp, tcp_dst_port := dp, tcp_src_addr := sa, tcp_dst_addr := da, tcp_ack := q + 1,
          tcp_seq := word_of_int INIT_SEQ, tcp_state := TCP_SYNC_RECVED, send_pos := 0\<rparr>) }"

text \<open>Whether the packet belongs to the connection. The code stops at the first difference; all it reads is in the array.\<close>

definition tcp_matches :: "net \<Rightarrow> bool option" where
  "tcp_matches s = do {
     let rx = ethernet_rx_data s;
     let ip = ETHERNET_HDR_LEN;
     let data = ip + IP_HDR_LEN;
     sp \<leftarrow> mem2int rx (data + TCP_SRC_PORT) 2;
     dp \<leftarrow> mem2int rx (data + TCP_DST_PORT) 2;
     c1 \<leftarrow> eth_memcmp 4 rx (ip + IP_DST) (tcp_dst_addr s) 0;
     c2 \<leftarrow> eth_memcmp 4 rx (ip + IP_SRC) (tcp_src_addr s) 0;
     Some (\<not> (tcp_src_port s \<noteq> sp \<or> tcp_dst_port s \<noteq> dp \<or> c1 \<noteq> 0 \<or> c2 \<noteq> 0)) }"

text \<open>The answer in the state \<open>TCP_ESTABLISHED\<close>, to a packet with the numbers \<open>q\<close> and \<open>a\<close>.\<close>

definition tcp_established :: "int \<Rightarrow> u32 \<Rightarrow> u32 \<Rightarrow> net \<Rightarrow> net option" where
  "tcp_established len q a s =
     (let s = s\<lparr>tcp_ack := q + word_of_int (len - int TCP_HDR_LEN), tcp_seq := a\<rparr>;
          pos = sint (tcp_seq s - word_of_int (INIT_SEQ + 1))
      in if pos = 0 \<and> len = int TCP_HDR_LEN then Some s
         else if pos = MYDATA_LENGTH then do {
           s \<leftarrow> tcp_send_packet (TCP_FLAG_FIN OR TCP_FLAG_ACK) [] 0 0 s;
           Some (s\<lparr>tcp_state := TCP_FIN_SENT\<rparr>) }
         else
           let chunk = (if pos = LAST_CHUNK_POS then MYDATA_LENGTH - pos else CHUNK_LEN);
               flag = (if pos \<noteq> 0 then TCP_FLAG_ACK OR TCP_FLAG_PSH else TCP_FLAG_ACK)
           in tcp_send_packet flag (MYDATA s) pos chunk s)"

definition tcp_handle :: "(nat \<Rightarrow> u8) \<Rightarrow> int \<Rightarrow> net \<Rightarrow> net option" where
  "tcp_handle page len s = do {
     let s = tcp_tick (tcp_init_data page s);
     let rx = ethernet_rx_data s;
     let data = ETHERNET_HDR_LEN + IP_HDR_LEN;
     flags \<leftarrow> get_at rx (data + TCP_FLAGS);
     if flags AND TCP_FLAG_SYN \<noteq> 0 \<and> (tcp_state s = TCP_CLOSED \<or> tcp_state s = 0) then tcp_accept s
     else do {
       mine \<leftarrow> tcp_matches s;
       if \<not> mine then Some s
       else if flags AND TCP_FLAG_RST \<noteq> 0 then Some (s\<lparr>tcp_state := TCP_CLOSED\<rparr>)
       else do {
         q \<leftarrow> mem2int rx (data + TCP_SEQ) 4;
         a \<leftarrow> mem2int rx (data + TCP_ACK) 4;
         if tcp_state s = TCP_FIN_SENT then do {
           s \<leftarrow> tcp_send_packet TCP_FLAG_RST [] 0 0 (s\<lparr>tcp_seq := a\<rparr>);
           Some (s\<lparr>tcp_state := TCP_CLOSED\<rparr>) }
         else if tcp_state s = TCP_SYNC_RECVED \<and> flags AND TCP_FLAG_ACK \<noteq> 0 then
           Some (s\<lparr>tcp_seq := a, tcp_ack := q + 1, tcp_state := TCP_ESTABLISHED\<rparr>)
         else if tcp_state s = TCP_ESTABLISHED then tcp_established len q a s
         else Some s } } }"

section \<open>Dispatch (ip.c, ethernet.c)\<close>

definition ip_handle :: "(nat \<Rightarrow> u8) \<Rightarrow> net \<Rightarrow> net option" where
  "ip_handle page s = do {
     let rx = ethernet_rx_data s;
     let data = ETHERNET_HDR_LEN;
     v \<leftarrow> get_at rx (data + IP_VERSION);
     if v \<noteq> IP_VERSION_VAL then Some s
     else do {
       h \<leftarrow> get_at rx (data + IP_TOTAL_LEN);
       l \<leftarrow> get_at rx (data + IP_TOTAL_LEN + 1);
       let len = sint (push_bit 8 h OR l) - 20;
       proto \<leftarrow> get_at rx (data + IP_PROTOCAL);
       s \<leftarrow> (if proto = IP_PROTOCAL_ICMP then icmp_handle len s else Some s);
       if proto = IP_PROTOCAL_TCP then tcp_handle page len s else Some s } }"

partial_function (option) ethernet_intr :: "(nat \<Rightarrow> u32) \<Rightarrow> (nat \<Rightarrow> u8) \<Rightarrow> net \<Rightarrow> net option" where
  "ethernet_intr port page s = do {
     s \<leftarrow> ethernet_recv port s;
     if ethernet_rx_len s = - 1 then Some s
     else do {
       t \<leftarrow> ethernet_rx_type s;
       s \<leftarrow> (if t = ETHERNET_TYPE_ARP then arp_handle s else Some s);
       s \<leftarrow> (if t = ETHERNET_TYPE_IP then ip_handle page s else Some s);
       ethernet_intr port page s } }"

end
