(* ===== verification/NetProps.thy ===== *)
theory NetProps
  imports Net
begin

text \<open>
  What holds of the network driver: what is sent on the wire is a frame that can be read back; echo and address requests
  are answered correctly and with checksums that verify; the TCP server hands its page to a client that follows the protocol, ignores packets that
  are not from its peer, and reads outside of its page for a client that acknowledges a part of it.
\<close>

unbundle bit_operations_syntax

section \<open>Arrays\<close>

text \<open>\<open>patch d ys xs\<close>: \<open>xs\<close> with \<open>ys\<close> from index \<open>d\<close> on; \<open>seg xs a n\<close>: \<open>n\<close> elements from index \<open>a\<close> on.\<close>

definition patch :: "nat \<Rightarrow> 'a list \<Rightarrow> 'a list \<Rightarrow> 'a list" where
  "patch d ys xs = take d xs @ ys @ drop (d + length ys) xs"

definition part :: "'a list \<Rightarrow> nat \<Rightarrow> nat \<Rightarrow> 'a list" where
  "part xs a n = take n (drop a xs)"

definition bytes :: "u32 list \<Rightarrow> bool" where
  "bytes xs \<longleftrightarrow> (\<forall>x \<in> set xs. LSB x = x)"

lemma length_patch [simp]: "d + length ys \<le> length xs \<Longrightarrow> length (patch d ys xs) = length xs"
  by (simp add: patch_def)

lemma length_part [simp]: "a + n \<le> length xs \<Longrightarrow> length (part xs a n) = n"
  by (simp add: part_def)

lemma part_0 [simp]: "part xs a 0 = []"
  by (simp add: part_def)

lemma nth_part [simp]: "i < n \<Longrightarrow> a + n \<le> length xs \<Longrightarrow> part xs a n ! i = xs ! (a + i)"
  by (simp add: part_def)

lemma nth_patch:
  "d + length ys \<le> length xs \<Longrightarrow> patch d ys xs ! i = (if d \<le> i \<and> i < d + length ys then ys ! (i - d) else xs ! i)"
  by (auto simp: patch_def nth_append)

lemma part_patch_same: "d + length ys \<le> length xs \<Longrightarrow> part (patch d ys xs) d (length ys) = ys"
  by (simp add: patch_def part_def)

lemma part_patch_other:
  "d + length ys \<le> length xs \<Longrightarrow> a + n \<le> length xs \<Longrightarrow> a + n \<le> d \<or> d + length ys \<le> a \<Longrightarrow>
   part (patch d ys xs) a n = part xs a n"
  by (rule nth_equalityI) (auto simp: nth_patch)

lemma part_split: "part xs a (m + n) = part xs a m @ part xs (a + m) n"
  by (simp add: part_def take_add add.commute)

lemma list_update_patch: "i < length xs \<Longrightarrow> xs[i := x] = patch i [x] xs"
  by (simp add: patch_def upd_conv_take_nth_drop)

lemma patch_append:
  "d + length ys + length zs \<le> length xs \<Longrightarrow> patch (d + length ys) zs (patch d ys xs) = patch d (ys @ zs) xs"
  by (simp add: patch_def add.assoc add.commute [of "length zs"])

lemma put_at_patch: "i < length xs \<Longrightarrow> put_at i x xs = Some (patch i [x] xs)"
  by (simp add: put_at_def list_update_patch)

lemma eth_memcpy_patch:
  "d + n \<le> length dst \<Longrightarrow> s + n \<le> length src \<Longrightarrow>
   eth_memcpy n dst d src s = Some (patch d (map LSB (part src s n)) dst)"
proof (induction n arbitrary: dst d s)
  case 0
  then show ?case by (simp add: patch_def part_def)
next
  case (Suc n)
  have "part src s (Suc n) = src ! s # part src (s + 1) n"
    using Suc.prems(2) by (simp add: part_def take_Suc_conv_app_nth Cons_nth_drop_Suc [symmetric])
  then show ?case
    using Suc patch_append [of d "[LSB (src ! s)]" "map LSB (part src (s + 1) n)" dst]
    by (simp add: get_at_def put_at_patch)
qed

lemma eth_memcpy_outside:
  "0 < n \<Longrightarrow> length dst < d + n \<or> length src < s + n \<Longrightarrow> eth_memcpy n dst d src s = None"
proof (induction n arbitrary: dst d s)
  case (Suc n)
  show ?case
  proof (cases "s < length src \<and> d < length dst")
    case True
    with Suc.prems have "n \<noteq> 0" by auto
    with True Suc show ?thesis by (auto simp: get_at_def put_at_def)
  qed (auto simp: get_at_def put_at_def)
qed simp

lemma LSB_idem [simp]: "LSB (LSB x) = LSB x"
  by (simp add: LSB_def and.assoc)

lemma unat_LSB: "unat (LSB x) = unat x mod 256"
proof -
  have "LSB x = take_bit 8 x" by (simp add: LSB_def take_bit_eq_mask mask_eq_exp_minus_1)
  then have "unat (LSB x) = take_bit 8 (unat x)" by (simp add: unsigned_take_bit_eq)
  then show ?thesis by (simp add: take_bit_eq_mod)
qed

lemma MSB_eq: "MSB x = drop_bit 8 (take_bit 16 x)"
proof (rule bit_word_eqI)
  fix n assume "n < LENGTH(32)"
  have m: "(0xFF :: u32) = mask 8" by (simp add: mask_eq_exp_minus_1)
  show "bit (MSB x) n = bit (drop_bit 8 (take_bit 16 x)) n"
    unfolding MSB_def m by (auto simp: bit_simps)
qed

lemma unat_MSB: "unat (MSB x) = unat x div 256 mod 256"
proof -
  have "unat (MSB x) = take_bit 16 (unat x) div 256"
    by (simp add: MSB_eq unat_drop unsigned_take_bit_eq)
  also have "\<dots> = unat x mod 65536 div 256" by (simp add: take_bit_eq_mod)
  also have "\<dots> = unat x div 256 mod 256" using mod_mult2_eq [of "unat x" 256 256] by simp
  finally show ?thesis .
qed

lemma LSB_small: "LSB x = x \<longleftrightarrow> unat x < 256"
  by (simp add: word_unat_eq_iff unat_LSB del: of_nat_unat) (metis mod_less mod_less_divisor zero_less_numeral)

lemma LSB_MSB [simp]: "LSB (MSB x) = MSB x"
  by (simp add: LSB_small unat_MSB)

lemma map_LSB [simp]: "bytes xs \<Longrightarrow> map LSB xs = xs"
  by (simp add: bytes_def map_idI)

lemma bytes_part: "bytes xs \<Longrightarrow> bytes (part xs a n)"
  by (auto simp: bytes_def part_def dest: in_set_takeD in_set_dropD)

section \<open>Big-endian numbers\<close>

lemma eth_memcmp_eq:
  "a + n \<le> length xs \<Longrightarrow> b + n \<le> length ys \<Longrightarrow>
   eth_memcmp n xs a ys b = Some (if part xs a n = part ys b n then 0 else - 1)"
proof (induction n arbitrary: a b)
  case 0
  then show ?case by (simp add: part_def)
next
  case (Suc n)
  then have "part xs a (Suc n) = xs ! a # part xs (a + 1) n" "part ys b (Suc n) = ys ! b # part ys (b + 1) n"
    by (simp_all add: part_def take_Suc_conv_app_nth Cons_nth_drop_Suc [symmetric])
  then show ?case using Suc by (simp add: get_at_def)
qed

definition be_word :: "u32 list \<Rightarrow> u32" where
  "be_word xs = foldl (\<lambda>r x. push_bit 8 r OR LSB x) 0 xs"

fun be_bytes :: "nat \<Rightarrow> u32 \<Rightarrow> u32 list" where
  "be_bytes 0 v = []"
| "be_bytes (Suc n) v = be_bytes n (signed_drop_bit 8 v) @ [LSB v]"

lemma length_be_bytes [simp]: "length (be_bytes n v) = n"
  by (induction n arbitrary: v) auto

lemma bytes_be [simp]: "bytes (be_bytes n v)"
  by (induction n arbitrary: v) (auto simp: bytes_def)

lemma mem2int_eq:
  assumes "d + n \<le> length xs"
  shows "mem2int xs d n = Some (be_word (part xs d n))"
proof -
  have "d + n \<le> length xs \<Longrightarrow>
      mem2int_loop n r xs d = Some (foldl (\<lambda>r x. push_bit 8 r OR LSB x) r (part xs d n))" for r
  proof (induction n arbitrary: d r)
    case (Suc n)
    then have "part xs d (Suc n) = xs ! d # part xs (d + 1) n"
      by (simp add: part_def take_Suc_conv_app_nth Cons_nth_drop_Suc [symmetric])
    then show ?case using Suc by (simp add: get_at_def)
  qed (simp add: part_def)
  with assms show ?thesis by (simp add: mem2int_def be_word_def)
qed

lemma int2mem_patch:
  "d + n \<le> length xs \<Longrightarrow> int2mem xs d n v = Some (patch d (be_bytes n v) xs)"
proof (induction n arbitrary: xs v)
  case 0
  then show ?case by (simp add: patch_def)
next
  case (Suc n)
  have "patch d (be_bytes n w) (patch (d + n) [x] xs) = patch d (be_bytes n w @ [x]) xs" for w x
    using Suc.prems by (intro nth_equalityI) (auto simp: nth_patch nth_append)
  then show ?case using Suc by (simp add: put_at_patch)
qed

lemma LSB_bit: "bit (LSB x) n \<longleftrightarrow> n < 8 \<and> bit x n"
proof -
  have m: "(0xFF :: u32) = mask 8" by (simp add: mask_eq_exp_minus_1)
  show ?thesis unfolding LSB_def m by (auto simp: bit_simps)
qed

lemma be_word_bytes: "n \<le> 4 \<Longrightarrow> be_word (be_bytes n v) = take_bit (8 * n) v"
proof (induction n arbitrary: v)
  case 0
  then show ?case by (simp add: be_word_def)
next
  case (Suc n)
  have "be_word (be_bytes (Suc n) v) = push_bit 8 (take_bit (8 * n) (signed_drop_bit 8 v)) OR LSB v"
    using Suc.IH [of "signed_drop_bit 8 v"] Suc.prems by (simp add: be_word_def)
  also have "\<dots> = take_bit (8 * Suc n) v"
    using Suc.prems by (intro bit_word_eqI) (auto simp: bit_simps LSB_bit)
  finally show ?case .
qed

lemma be_bytes_cong:
  "n \<le> 4 \<Longrightarrow> (\<And>m. m < 8 * n \<Longrightarrow> bit v m = bit w m) \<Longrightarrow> be_bytes n v = be_bytes n w"
proof (induction n arbitrary: v w)
  case (Suc n)
  have "LSB v = LSB w" using Suc.prems(2) by (intro bit_word_eqI) (auto simp: LSB_bit)
  moreover have "be_bytes n (signed_drop_bit 8 v) = be_bytes n (signed_drop_bit 8 w)"
    using Suc.prems by (intro Suc.IH) (auto simp: bit_simps)
  ultimately show ?case by simp
qed simp

lemma be_bytes_word: "bytes xs \<Longrightarrow> length xs \<le> 4 \<Longrightarrow> be_bytes (length xs) (be_word xs) = xs"
proof (induction xs rule: rev_induct)
  case (snoc x xs)
  let ?v = "push_bit 8 (be_word xs) OR LSB x"
  have "be_bytes (length xs) (signed_drop_bit 8 ?v) = be_bytes (length xs) (be_word xs)"
    using snoc.prems(2) by (intro be_bytes_cong) (auto simp: bit_simps LSB_bit)
  moreover have "LSB ?v = x"
  proof -
    have "LSB ?v = LSB x" by (intro bit_word_eqI) (auto simp: LSB_bit bit_simps)
    then show ?thesis using snoc.prems(1) by (simp add: bytes_def)
  qed
  ultimately show ?case using snoc by (simp add: be_word_def bytes_def)
qed simp

section \<open>The Internet checksum\<close>

text \<open>The sum of the 16-bit big-endian numbers of a list of bytes; an odd byte at the end counts as the high one.\<close>

fun inet_sum :: "u32 list \<Rightarrow> nat" where
  "inet_sum [] = 0"
| "inet_sum [x] = 256 * unat x"
| "inet_sum (x # y # zs) = 256 * unat x + unat y + inet_sum zs"

lemma inet_sum_bound: "bytes xs \<Longrightarrow> inet_sum xs \<le> 65535 * ((length xs + 1) div 2)"
  by (induction xs rule: inet_sum.induct) (auto simp: bytes_def LSB_small)

lemma inet_sum_update:
  "2 * k + 1 < length xs \<Longrightarrow>
   inet_sum (xs[2 * k := a, 2 * k + 1 := b]) + (256 * unat (xs ! (2 * k)) + unat (xs ! (2 * k + 1))) =
     inet_sum xs + (256 * unat a + unat b)"
proof (induction xs arbitrary: k rule: inet_sum.induct)
  case (3 x y zs)
  show ?case
  proof (cases k)
    case (Suc j)
    then show ?thesis using 3 by simp
  qed simp
qed auto

lemma half_word:
  assumes "LSB x = x" "LSB y = y"
  shows "unat (push_bit 8 x OR y) = 256 * unat x + unat y"
proof -
  have b: "bit y n \<Longrightarrow> n < 8" for n using LSB_bit [of y n] assms(2) by simp
  then have "push_bit 8 x AND y = 0" by (intro bit_word_eqI) (auto simp: bit_simps dest: b)
  then have "push_bit 8 x OR y = push_bit 8 x + y" by (simp add: disjunctive_add_eq_or)
  moreover have "unat (push_bit 8 x) = 256 * unat x"
    using assms(1) by (simp add: LSB_small push_bit_eq_mult unat_word_ariths)
  ultimately show ?thesis using assms by (simp add: LSB_small unat_word_ariths)
qed

lemma sum_loop_eq:
  "a + n \<le> length xs \<Longrightarrow> i \<le> n \<Longrightarrow> \<forall>x \<in> set (part xs (a + i) (n - i)). LSB (f x) = f x \<Longrightarrow>
   sum_loop f xs a (int i) (int n) acc = Some (acc + of_nat (inet_sum (map f (part xs (a + i) (n - i)))))"
proof (induction "part xs (a + i) (n - i)" arbitrary: i acc rule: inet_sum.induct)
  case 1
  have "n = i" using length_part [of "a + i" "n - i" xs] 1(2,3) by (simp add: 1(1) [symmetric])
  then show ?case by (simp add: sum_loop.simps 1(1) [symmetric])
next
  case (2 x)
  then have n: "n = i + 1" using length_part [of "a + i" "n - i" xs] by (simp add: 2(1) [symmetric])
  have "part xs (a + i) (n - i) ! 0 = xs ! (a + i)" using 2(2) n by simp
  then have x: "x = xs ! (a + i)" unfolding 2(1) [symmetric] by simp
  have "unat (push_bit 8 (f x)) = 256 * unat (f x)"
    using half_word [of "f x" 0] 2 by (simp add: 2(1) [symmetric] LSB_def)
  then have w: "push_bit 8 (f x) = of_nat (256 * unat (f x))" by (metis of_nat_unat ucast_id)
  have "sum_loop f xs a (int i) (int n) acc = Some (acc + push_bit 8 (f x))"
    using 2(2) n x by (subst sum_loop.simps) (simp add: get_at_def sum_loop.simps)
  then show ?case unfolding 2(1) [symmetric] w by simp
next
  case (3 x y zs)
  have l: "n - i = Suc (Suc (length zs))" using length_part [of "a + i" "n - i" xs] 3(3,4) by (simp add: 3(2) [symmetric])
  then have n: "n - (i + 2) = length zs" "i + 2 \<le> n" "a + i + 1 < length xs" using 3(3,4) by auto
  have p: "part xs (a + i) (n - i) = [xs ! (a + i), xs ! (a + i + 1)] @ part xs (a + (i + 2)) (n - (i + 2))"
    using n(3) unfolding l n(1) by (simp add: part_def Cons_nth_drop_Suc [symmetric])
  then have xy: "x = xs ! (a + i)" "y = xs ! (a + i + 1)" "zs = part xs (a + (i + 2)) (n - (i + 2))"
    using 3(2) by simp_all
  have "unat (push_bit 8 (f x) OR f y) = 256 * unat (f x) + unat (f y)"
    using 3(5) by (intro half_word) (auto simp: 3(2) [symmetric])
  then have w: "push_bit 8 (f x) OR f y = of_nat (256 * unat (f x) + unat (f y))" by (metis of_nat_unat ucast_id)
  have IH: "sum_loop f xs a (int (i + 2)) (int n) (acc + (push_bit 8 (f x) OR f y)) =
      Some (acc + (push_bit 8 (f x) OR f y) + of_nat (inet_sum (map f zs)))"
    unfolding xy(3) using 3(3,5) n(2) xy(3) by (intro 3(1)) (auto simp: 3(2) [symmetric])
  have "sum_loop f xs a (int i) (int n) acc = sum_loop f xs a (int (i + 2)) (int n) (acc + (push_bit 8 (f x) OR f y))"
    using n by (subst sum_loop.simps) (auto simp: get_at_def nat_add_distrib xy add.commute [of 2])
  also note IH
  finally show ?case unfolding w by (simp add: 3(2) [symmetric])
qed

text \<open>Two foldings bring a sum below \<open>2 ^ 31\<close> to 16 bits without changing it modulo \<open>2 ^ 16 - 1\<close>.\<close>

lemma unat_signed_shift:
  assumes "unat (x :: u32) < 2 ^ 31"
  shows "unat (signed_drop_bit 16 x) = unat x div 65536"
proof -
  have "take_bit 31 x = x" using assms
    by (simp add: word_unat_eq_iff unsigned_take_bit_eq take_bit_nat_eq_self del: of_nat_unat)
  then have "\<not> bit x 31" by (metis bit_take_bit_iff less_irrefl)
  then have "signed_drop_bit 16 x = drop_bit 16 x" by (intro bit_word_eqI) (auto simp: bit_simps dest: bit_imp_le_length)
  then show ?thesis by (simp add: unat_drop)
qed

lemma fold_once:
  assumes "unat (x :: u32) < 2 ^ 31"
  shows "unat (signed_drop_bit 16 x + (x AND 0xffff)) = unat x div 65536 + unat x mod 65536"
proof -
  have m: "(0xffff :: u32) = mask 16" by (simp add: mask_eq_exp_minus_1)
  have "unat (x AND 0xffff) = unat x mod 65536"
    unfolding m take_bit_eq_mask [symmetric] by (simp add: unsigned_take_bit_eq) (simp add: take_bit_eq_mod)
  moreover have "unat x div 65536 < 2 ^ 15" using assms by (simp add: less_mult_imp_div_less)
  moreover have "unat x mod 65536 < 65536" by simp
  ultimately show ?thesis using unat_signed_shift [OF assms] by (simp add: unat_word_ariths)
qed

lemma fold_sum_spec:
  assumes "unat S < 2 ^ 31"
  shows "(256 * unat (MSB (fold_sum S)) + unat (LSB (fold_sum S)) + unat S) mod 65535 = 0"
proof -
  define s1 where "s1 = signed_drop_bit 16 S + (S AND 0xffff)"
  define s2 where "s2 = signed_drop_bit 16 s1 + (s1 AND 0xffff)"
  have u1: "unat s1 = unat S div 65536 + unat S mod 65536" unfolding s1_def by (rule fold_once [OF assms])
  have d: "unat S div 65536 < 32768" "unat S mod 65536 < 65536" using assms by (simp_all add: less_mult_imp_div_less)
  then have b1: "unat s1 < 2 ^ 31" using u1 by simp
  have u2: "unat s2 = unat s1 div 65536 + unat s1 mod 65536" unfolding s2_def by (rule fold_once [OF b1])
  have step: "(a div 65536 + a mod 65536) mod 65535 = a mod 65535" for a :: nat
  proof -
    have "a = 65535 * (a div 65536) + (a div 65536 + a mod 65536)" using div_mult_mod_eq [of a 65536] by linarith
    then show ?thesis by (metis mod_mult_self4)
  qed
  have t: "t div 65536 = 1" "t mod 65536 = t - 65536" if "65536 \<le> t" "t < 131072" for t :: nat
    using that by (simp_all add: div_nat_eqI le_mod_geq)
  have small: "unat s2 < 65536"
  proof (cases "unat s1 < 65536")
    case False
    moreover from u1 d have "unat s1 < 98304" by (simp del: of_nat_unat)
    ultimately show ?thesis using u2 t [of "unat s1"] by linarith
  qed (simp add: u2)
  have "fold_sum S = NOT s2" by (simp add: fold_sum_def s1_def s2_def Let_def)
  moreover have "256 * unat (MSB x) + unat (LSB x) = unat x mod 65536" for x :: u32
    unfolding unat_MSB unat_LSB using mod_mult2_eq [of "unat x" 256 256] by simp
  moreover have "unat (NOT s2) mod 65536 = 65535 - unat s2"
  proof -
    have "NOT s2 = - 1 - s2" by (simp add: not_eq_complement)
    then have "unat (NOT s2) = unat (- 1 :: u32) - unat s2" by (simp only:) (rule unat_sub, simp)
    also have "unat (- 1 :: u32) = 2 ^ 32 - 1" by (simp add: unsigned_minus_1_eq_mask mask_eq_exp_minus_1)
    finally have "unat (NOT s2) = 2 ^ 32 - 1 - unat s2" .
    also have "\<dots> = 65535 - unat s2 + 65535 * 65536" using small by simp
    finally have "unat (NOT s2) mod 65536 = (65535 - unat s2 + 65535 * 65536) mod 65536" by (rule arg_cong)
    also have "\<dots> = (65535 - unat s2) mod 65536" by (rule mod_mult_self1)
    finally show ?thesis by simp
  qed
  ultimately have "256 * unat (MSB (fold_sum S)) + unat (LSB (fold_sum S)) = 65535 - unat s2" by simp
  moreover have "unat s2 mod 65535 = unat S mod 65535" using step [of "unat s1"] step [of "unat S"] u1 u2 by simp
  then have "(65535 - unat s2 + unat S) mod 65535 = (65535 - unat s2 + unat s2) mod 65535" by (metis mod_add_right_eq)
  ultimately show ?thesis using small by simp
qed

lemma part_update:
  "a + n \<le> length xs \<Longrightarrow> k + length ys \<le> n \<Longrightarrow> part (patch (a + k) ys xs) a n = patch k ys (part xs a n)"
  by (intro nth_equalityI) (auto simp: nth_patch)

lemma patch_two: "k + 1 < length xs \<Longrightarrow> patch k [a, b] xs = xs[k := a, k + 1 := b]"
  by (intro nth_equalityI) (auto simp: nth_patch nth_list_update)

text \<open>Storing the folded sum of a segment where it has zeros, at an even index, makes its sum vanish modulo \<open>2 ^ 16 - 1\<close>.\<close>

lemma checksum_stored:
  assumes "a + n \<le> length xs" "2 * k + 1 < n" "xs ! (a + 2 * k) = 0" "xs ! (a + 2 * k + 1) = 0"
    and "S = base + inet_sum (part xs a n)" "S < 2 ^ 31" "c = fold_sum (of_nat S)"
  shows "(base + inet_sum (part (patch (a + 2 * k) [MSB c, LSB c] xs) a n)) mod 65535 = 0"
proof -
  let ?p = "part xs a n"
  have "?p ! (2 * k) = 0" "?p ! (2 * k + 1) = 0" using assms(1-4) by simp_all
  then have "inet_sum (patch (2 * k) [MSB c, LSB c] ?p) = inet_sum ?p + (256 * unat (MSB c) + unat (LSB c))"
    using inet_sum_update [of k ?p "MSB c" "LSB c"] assms(1,2) by (simp add: patch_two)
  moreover have "unat (of_nat S :: u32) = S" using assms(6) by (simp add: unat_of_nat_small)
  then have "(256 * unat (MSB c) + unat (LSB c) + S) mod 65535 = 0"
    using fold_sum_spec [of "of_nat S"] assms(6,7) by simp
  ultimately show ?thesis using assms(1,2,5) part_update [of a n xs "2 * k" "[MSB c, LSB c]"] by (simp add: ac_simps)
qed

section \<open>Frames\<close>

text \<open>What the controller is told to send a frame: its bytes in pairs, between the commands.\<close>

fun pair_words :: "u32 list \<Rightarrow> u32 list" where
  "pair_words [] = []"
| "pair_words [x] = [x]"
| "pair_words (x # y # zs) = (x OR push_bit 8 y) # pair_words zs"

definition frame_log :: "u32 list \<Rightarrow> bus list" where
  "frame_log f = [Addr DM9000_REG_MWCMDX, Data 0, Addr DM9000_REG_MWCMD] @ map Data (pair_words f) @
     [Addr DM9000_REG_TXPLH, Data (MSB (of_nat (length f))), Addr DM9000_REG_TXPLL, Data (LSB (of_nat (length f))),
      Addr DM9000_REG_ISR, Data 2, Addr DM9000_REG_TCR, Data 1]"

lemma pair_words_inj:
  "bytes f \<Longrightarrow> bytes g \<Longrightarrow> length f = length g \<Longrightarrow> pair_words f = pair_words g \<Longrightarrow> f = g"
proof (induction f arbitrary: g rule: pair_words.induct)
  case (3 x y zs)
  from 3(4) obtain x' y' zs' where g: "g = x' # y' # zs'" by (cases g; cases "tl g") auto
  have b: "LSB v = v \<Longrightarrow> bit v n \<Longrightarrow> n < 8" for v :: u32 and n using LSB_bit [of v n] by simp
  have s: "LSB u = u \<Longrightarrow> LSB v = v \<Longrightarrow> LSB (u OR push_bit 8 v) = u \<and> LSB (drop_bit 8 (u OR push_bit 8 v)) = v" for u v :: u32
    by (intro conjI bit_word_eqI) (auto simp: LSB_bit bit_simps dest: b)
  have "x OR push_bit 8 y = x' OR push_bit 8 y'" and z: "pair_words zs = pair_words zs'" using 3(5) g by simp_all
  moreover have "LSB x = x" "LSB y = y" "LSB x' = x'" "LSB y' = y'" "bytes zs" "bytes zs'"
    using 3(2,3) g by (simp_all add: bytes_def)
  ultimately have "x = x'" "y = y'" using s [of x y] s [of x' y'] by metis+
  moreover have "zs = zs'" using 3(1) [OF \<open>bytes zs\<close> \<open>bytes zs'\<close>] 3(4) z g by simp
  ultimately show ?case by (simp add: g)
next
  case (2 x)
  then show ?case by (cases g) auto
qed simp

text \<open>A frame can be read off the log.\<close>

lemma frame_log_inj:
  assumes "bytes f" "bytes g" "length f < 65536" "length g < 65536" "frame_log f = frame_log g"
  shows "f = g"
proof -
  have l: "length (frame_log h) = 11 + length (pair_words h)" for h by (simp add: frame_log_def)
  then have "length (pair_words f) = length (pair_words g)" using arg_cong [OF assms(5), of length] by simp
  then have e: "pair_words f = pair_words g" "MSB (of_nat (length f)) = MSB (of_nat (length g))"
    "LSB (of_nat (length f)) = LSB (of_nat (length g))"
    using assms(5) by (auto simp: frame_log_def inj_map_eq_map inj_def)
  have "n = 256 * unat (MSB (of_nat n)) + unat (LSB (of_nat n))" if "n < 65536" for n
    using that by (simp add: unat_MSB unat_LSB unat_of_nat_small)
  with e(2,3) assms(3,4) have "length f = length g" by metis
  with pair_words_inj [OF assms(1,2)] e(1) show ?thesis by simp
qed

lemma send_loop_eq:
  "i \<le> n \<Longrightarrow> n \<le> length (ethernet_tx_data s) \<Longrightarrow> ethernet_tx_len s = int n \<Longrightarrow>
   send_loop (int i) s = Some (s\<lparr>bus_log := bus_log s @ map Data (pair_words (part (ethernet_tx_data s) i (n - i)))\<rparr>)"
proof (induction "n - i" arbitrary: i s rule: less_induct)
  case less
  let ?d = "ethernet_tx_data s"
  consider "n = i" | "n = i + 1" | "i + 2 \<le> n" using less.prems(1) by linarith
  then show ?case
  proof cases
    case 1
    then show ?thesis using less.prems by (simp add: send_loop.simps)
  next
    case 2
    then have "part ?d i (n - i) = [?d ! i]"
      using less.prems by (simp add: part_def take_Suc_conv_app_nth Cons_nth_drop_Suc [symmetric])
    then show ?thesis using less.prems 2
      by (subst send_loop.simps) (simp add: get_at_def send_loop.simps write_data_def)
  next
    case 3
    let ?t = "write_data (?d ! i OR push_bit 8 (?d ! (i + 1))) s"
    have p: "part ?d i (n - i) = ?d ! i # ?d ! (i + 1) # part ?d (i + 2) (n - (i + 2))"
    proof -
      have "n - i = Suc (Suc (n - (i + 2)))" using 3 by simp
      then show ?thesis using less.prems 3 by (simp add: part_def Cons_nth_drop_Suc [symmetric])
    qed
    have "send_loop (int i) s = send_loop (int (i + 2)) ?t"
      using less.prems 3 by (subst send_loop.simps) (auto simp: get_at_def nat_add_distrib add.commute [of 2])
    also have "\<dots> = Some (?t\<lparr>bus_log := bus_log ?t @ map Data (pair_words (part (ethernet_tx_data ?t) (i + 2) (n - (i + 2))))\<rparr>)"
      using less.prems 3 by (intro less.hyps) (auto simp: write_data_def)
    finally show ?thesis by (simp add: p write_data_def)
  qed
qed

lemma ethernet_send_eq:
  assumes "ethernet_tx_len s = int n" "n \<le> length (ethernet_tx_data s)"
  shows "ethernet_send s = Some (s\<lparr>bus_log := bus_log s @ frame_log (part (ethernet_tx_data s) 0 n)\<rparr>)"
proof -
  let ?s = "write_addr DM9000_REG_MWCMD (ethernet_write DM9000_REG_MWCMDX 0 s)"
  have "ethernet_tx_len ?s = int n" "ethernet_tx_data ?s = ethernet_tx_data s"
    using assms by (simp_all add: write_addr_def ethernet_write_def write_data_def)
  with send_loop_eq [of 0 n ?s] assms show ?thesis
    by (simp add: ethernet_send_def Let_def frame_log_def write_addr_def ethernet_write_def write_data_def)
qed

lemma part_patch: "n = length ys \<Longrightarrow> d + n \<le> length xs \<Longrightarrow> part (patch d ys xs) d n = ys"
  by (simp add: part_patch_same)

lemmas net_offsets = ETHERNET_HDR_LEN_def ETHERNET_SRC_MAC_def ETHERNET_DST_MAC_def ARP_TYPE_def ARP_SENDER_MAC_def
  ARP_SENDER_IP_def ARP_TARGET_MAC_def ARP_TARGET_IP_def ARP_BODY_LEN_def IP_VERSION_def IP_TOTAL_LEN_def IP_FLAGS_def
  IP_TTL_def IP_PROTOCAL_def IP_SRC_def IP_DST_def IP_HDR_LEN_def ICMP_TYPE_def ICMP_CODE_def ICMP_CHECKSUM_def
  ICMP_ID_SEQ_def TCP_SRC_PORT_def TCP_DST_PORT_def TCP_SEQ_def TCP_ACK_def TCP_DATA_OFFSET_def TCP_FLAGS_def
  TCP_WINDOW_def TCP_CHECKSUM_def TCP_URGEN_def TCP_DATA_def TCP_HDR_LEN_def

lemma len_addr [simp]: "length MAC_ADDR = 6" "length IP_ADDR = 4" "length ARP_FIX_HDR = 7"
  by (simp_all add: MAC_ADDR_def IP_ADDR_def ARP_FIX_HDR_def)

lemma bytes_addr [simp]: "bytes MAC_ADDR" "bytes IP_ADDR" "bytes ARP_FIX_HDR"
  by (simp_all add: MAC_ADDR_def IP_ADDR_def ARP_FIX_HDR_def bytes_def LSB_def)

lemma part_all [simp]: "part xs 0 (length xs) = xs" "length MAC_ADDR = n \<Longrightarrow> part MAC_ADDR 0 n = MAC_ADDR"
  by (auto simp: part_def)

lemma ethernet_set_tx_eq:
  assumes "length src = 2048" "bytes src" "length (ethernet_tx_data s) = 2048"
  shows "ethernet_set_tx src 6 t s =
    Some (s\<lparr>ethernet_tx_data := patch 0 (part src 6 6 @ MAC_ADDR @ [MSB t, LSB t]) (ethernet_tx_data s)\<rparr>)"
proof -
  have "part MAC_ADDR 0 6 = MAC_ADDR" "length (part src 6 6) = 6" using assms by (simp_all add: MAC_ADDR_def part_def)
  then show ?thesis
    using assms patch_append [of 0 "part src 6 6" MAC_ADDR "ethernet_tx_data s"]
      patch_append [of 0 "part src 6 6 @ MAC_ADDR" "[MSB t]" "ethernet_tx_data s"]
      patch_append [of 0 "part src 6 6 @ MAC_ADDR @ [MSB t]" "[LSB t]" "ethernet_tx_data s"]
    by (simp add: ethernet_set_tx_def upd_tx_def net_offsets eth_memcpy_patch bytes_part put_at_patch)
qed

definition arp_reply :: "u32 list \<Rightarrow> u32 list" where
  "arp_reply rx = part rx 6 6 @ MAC_ADDR @ [0x08, 0x06] @ [0, 1, 8, 0, 6, 4, 0, 2] @ MAC_ADDR @ IP_ADDR @ part rx 22 6 @ part rx 28 4"

lemma arp_handle_request:
  assumes "length (ethernet_rx_data s) = 2048" "bytes (ethernet_rx_data s)" "length (ethernet_tx_data s) = 2048"
    and "ethernet_rx_data s ! 21 = ARP_TYPE_REQUEST" "part (ethernet_rx_data s) 38 4 = IP_ADDR"
  shows "\<exists>s'. arp_handle s = Some s' \<and> bus_log s' = bus_log s @ frame_log (arp_reply (ethernet_rx_data s))"
proof -
  let ?rx = "ethernet_rx_data s"
  let ?f = "arp_reply ?rx"
  have p: "part IP_ADDR 0 4 = IP_ADDR" "part MAC_ADDR 0 6 = MAC_ADDR" "part ARP_FIX_HDR 0 7 = ARP_FIX_HDR"
    by (simp_all add: MAC_ADDR_def IP_ADDR_def ARP_FIX_HDR_def part_def)
  have b: "bytes (part ?rx a n)" for a n using assms(2) by (rule bytes_part)
  have t: "MSB ETHERNET_TYPE_ARP = 0x08" "LSB ETHERNET_TYPE_ARP = 0x06"
    by (simp_all add: word_unat_eq_iff unat_MSB unat_LSB ETHERNET_TYPE_ARP_def del: of_nat_unat)
  let ?h = "part ?rx 6 6 @ MAC_ADDR @ [0x08, 0x06]"
  have l: "length (part ?rx 6 6) = 6" "length (part ?rx 22 6) = 6" "length (part ?rx 28 4) = 4" using assms(1) by simp_all
  have "patch 38 (part ?rx 28 4) (patch 32 (part ?rx 22 6) (patch 28 IP_ADDR (patch 22 MAC_ADDR (patch 21 [2] (patch 14 ARP_FIX_HDR (patch 0 ?h d)))))) =
    patch 0 ?f d" if "length d = 2048" for d
    using that l patch_append [of 0 ?h ARP_FIX_HDR d] patch_append [of 0 "?h @ ARP_FIX_HDR" "[2]" d]
      patch_append [of 0 "?h @ ARP_FIX_HDR @ [2]" MAC_ADDR d] patch_append [of 0 "?h @ ARP_FIX_HDR @ [2] @ MAC_ADDR" IP_ADDR d]
      patch_append [of 0 "?h @ ARP_FIX_HDR @ [2] @ MAC_ADDR @ IP_ADDR" "part ?rx 22 6" d]
      patch_append [of 0 "?h @ ARP_FIX_HDR @ [2] @ MAC_ADDR @ IP_ADDR @ part ?rx 22 6" "part ?rx 28 4" d]
    by (simp add: arp_reply_def ARP_FIX_HDR_def)
  then have "arp_handle s = ethernet_send (s\<lparr>ethernet_tx_len := 42, ethernet_tx_data := patch 0 ?f (ethernet_tx_data s)\<rparr>)"
    using assms by (simp add: arp_handle_def net_offsets get_at_def eth_memcmp_eq p ethernet_set_tx_eq upd_tx_def eth_memcpy_patch b put_at_patch t
        ARP_TYPE_REPLY_def)
  moreover have "length ?f = 42" using l by (simp add: arp_reply_def)
  ultimately show ?thesis
    using assms(3) ethernet_send_eq [of "s\<lparr>ethernet_tx_len := 42, ethernet_tx_data := patch 0 ?f (ethernet_tx_data s)\<rparr>" 42]
    by (simp add: part_patch)
qed

section \<open>ICMP\<close>

text \<open>The IP header that answers the packet in \<open>rx\<close> with \<open>len\<close> bytes of payload; \<open>d\<close> is the frame sent before: the bytes that are
  not written (type of service, identification, header checksum) are its.\<close>

definition ip_header :: "u32 list \<Rightarrow> u32 list \<Rightarrow> u32 \<Rightarrow> nat \<Rightarrow> u32 list" where
  "ip_header rx d proto len = part rx 6 6 @ MAC_ADDR @ [0x08, 0x00] @
     [0x45, d ! 15, MSB (of_nat (len + 20)), LSB (of_nat (len + 20)), d ! 18, d ! 19, 0, 0, 64, proto, d ! 24, d ! 25] @
     IP_ADDR @ part rx 26 4"

lemma length_ip_header [simp]: "length rx = 2048 \<Longrightarrow> length (ip_header rx d proto len) = 34"
  by (simp add: ip_header_def)

lemma patch_Cons: "d + length (x # ys) \<le> length xs \<Longrightarrow> patch (Suc d) ys (patch d [x] xs) = patch d (x # ys) xs"
  using patch_append [of d "[x]" ys xs] by simp

lemma nth_ip_header:
  assumes "length rx = 2048"
  shows "part (ip_header rx d proto len) 0 14 = part rx 6 6 @ MAC_ADDR @ [0x08, 0x00]"
    "part (ip_header rx d proto len) 26 8 = IP_ADDR @ part rx 26 4"
  using assms by (simp_all add: ip_header_def part_def MAC_ADDR_def)

lemma ip_make_reply_eq:
  assumes "length (ethernet_rx_data s) = 2048" "bytes (ethernet_rx_data s)" "length (ethernet_tx_data s) = 2048"
  shows "ip_make_reply proto (int len) s =
    Some (s\<lparr>ethernet_tx_data := patch 0 (ip_header (ethernet_rx_data s) (ethernet_tx_data s) proto len) (ethernet_tx_data s)\<rparr>)"
proof -
  let ?rx = "ethernet_rx_data s"
  let ?d = "ethernet_tx_data s"
  let ?h = "part ?rx 6 6 @ MAC_ADDR @ [0x08, 0x00]"
  have p: "part IP_ADDR 0 4 = IP_ADDR" by (simp add: IP_ADDR_def part_def)
  have l: "length ?h = 14" "length (part ?rx 6 6) = 6" "length (part ?rx 26 4) = 4" using assms(1) by simp_all
  have t: "MSB ETHERNET_TYPE_IP = 0x08" "LSB ETHERNET_TYPE_IP = 0x00"
    by (simp_all add: word_unat_eq_iff unat_MSB unat_LSB ETHERNET_TYPE_IP_def del: of_nat_unat)
  let ?m = "MSB (of_nat (len + 20))" and ?n = "LSB (of_nat (len + 20))"
  have "patch 30 (part ?rx 26 4) (patch 26 IP_ADDR (patch 23 [proto] (patch 22 [64] (patch 21 [0] (patch 20 [0]
      (patch 17 [?n] (patch 16 [?m] (patch 14 [0x45] (patch 0 ?h ?d))))))))) = patch 0 (ip_header ?rx ?d proto len) ?d"
    (is "?l = ?r")
  proof (rule nth_equalityI)
    show "length ?l = length ?r" using assms l by simp
    fix i assume "i < length ?l"
    have h: "length (part ?rx 6 6 @ MAC_ADDR) = 12" using l by simp
    consider "i < 12" | "i \<in> {12 ..< 34}" | "34 \<le> i" by fastforce
    then show "?l ! i = ?r ! i"
    proof cases
      case 1
      then show ?thesis using assms l h by (auto simp: nth_patch ip_header_def nth_append)
    next
      case 2
      then have "i = 12 \<or> i = 13 \<or> i = 14 \<or> i = 15 \<or> i = 16 \<or> i = 17 \<or> i = 18 \<or> i = 19 \<or> i = 20 \<or> i = 21 \<or> i = 22 \<or>
          i = 23 \<or> i = 24 \<or> i = 25 \<or> i = 26 \<or> i = 27 \<or> i = 28 \<or> i = 29 \<or> i = 30 \<or> i = 31 \<or> i = 32 \<or> i = 33"
        by (simp, presburger)
      then show ?thesis using assms l h by (elim disjE) (simp_all add: nth_patch ip_header_def nth_append)
    next
      case 3
      then show ?thesis using assms l by (simp add: nth_patch)
    qed
  qed
  then show ?thesis
    using assms by (simp add: ip_make_reply_def net_offsets ethernet_set_tx_eq t upd_tx_def put_at_patch eth_memcpy_patch p bytes_part
        IP_VERSION_VAL_def)
qed

definition icmp_reply :: "u32 list \<Rightarrow> u32 list \<Rightarrow> nat \<Rightarrow> u32 list" where
  "icmp_reply rx c len = [0, 0] @ c @ part rx 38 (len - 4)"

lemma icmp_checksum_eq:
  assumes "a + n \<le> length d" "4 \<le> n" "bytes (part (patch (a + 2) [0, 0] d) a n)" "n < 65536"
  obtains c where "length c = 2" "bytes c" "icmp_checksum a (int n) d = Some (patch (a + 2) c d)"
    "inet_sum (part (patch (a + 2) c d) a n) mod 65535 = 0"
proof -
  let ?d = "patch (a + 2) [0, 0] d"
  define S where "S = inet_sum (part ?d a n)"
  define c where "c = fold_sum (of_nat S)"
  have b: "map LSB (part ?d a n) = part ?d a n" "S \<le> 65535 * ((n + 1) div 2)"
    using inet_sum_bound [of "part ?d a n"] assms(1-3) by (simp_all add: S_def)
  have S: "S < 2 ^ 31" using b(2) assms(4) by simp
  have two: "stores [(k, x), (Suc k, y)] e = Some (patch k [x, y] e)" if "k + 2 \<le> length e" for k x y e
    using that patch_append [of k "[x]" "[y]" e] by (simp add: put_at_patch)
  have "sum_loop LSB ?d a 0 (int n) 0 = Some (of_nat S)"
    using assms(1,2) sum_loop_eq [of a n ?d 0 LSB 0] b(1) by (simp add: S_def)
  moreover have o: "patch (a + 2) [MSB c, LSB c] ?d = patch (a + 2) [MSB c, LSB c] d"
    using assms(1,2) by (intro nth_equalityI) (auto simp: nth_patch)
  ultimately have "icmp_checksum a (int n) d = Some (patch (a + 2) [MSB c, LSB c] d)"
    using assms(1,2) unfolding icmp_checksum_def by (simp add: net_offsets two c_def Let_def del: stores.simps)
  moreover have "(0 + inet_sum (part (patch (a + 2) [MSB c, LSB c] ?d) a n)) mod 65535 = 0"
    using assms(1,2) S checksum_stored [of a n ?d 1 S 0 c] by (simp add: S_def c_def nth_patch)
  ultimately show thesis unfolding o by (intro that [of "[MSB c, LSB c]"]) (simp_all add: bytes_def)
qed

text \<open>C16. An echo request is answered by the same identifier, sequence number and data, addressed to the sender, with a checksum that verifies:
  the ones' complement sum of the message is zero. This holds for messages of at most 2014 bytes; a request whose IP header
  announces more makes the handler write behind the transmit buffer.\<close>

theorem icmp_echo_reply:
  assumes rx: "length (ethernet_rx_data s) = 2048" "bytes (ethernet_rx_data s)" "length (ethernet_tx_data s) = 2048"
    and req: "ethernet_rx_data s ! 34 = ICMP_TYPE_ECHO_REQUEST" and len: "4 \<le> len"
  shows "if len \<le> 2014 then
      \<exists>s' c. icmp_handle (int len) s = Some s' \<and> length c = 2 \<and> inet_sum (icmp_reply (ethernet_rx_data s) c len) mod 65535 = 0 \<and>
        bus_log s' = bus_log s @ frame_log (ip_header (ethernet_rx_data s) (ethernet_tx_data s) IP_PROTOCAL_ICMP len @
          icmp_reply (ethernet_rx_data s) c len)
    else icmp_handle (int len) s = None"
proof (cases "len \<le> 2014")
  case True
  let ?rx = "ethernet_rx_data s" and ?tx = "ethernet_tx_data s"
  let ?p = "part ?rx 38 (len - 4)"
  let ?d = "patch 38 ?p (patch 34 [0, 0] ?tx)"
  have l: "length ?p = len - 4" "length ?d = 2048" using rx len True by simp_all
  have b: "bytes ?p" using rx(2) by (rule bytes_part)
  have l4: "2 + (2 + (len - 4)) = len" using len by simp
  have sp: "part e 34 len = part e 34 2 @ part e 36 2 @ part e 38 (len - 4)" for e :: "u32 list"
    using part_split [of e 34 2 "2 + (len - 4)", unfolded l4] part_split [of e 36 2 "len - 4"] by simp
  have "bytes (part (patch 36 [0, 0] ?d) 34 len)"
    using b rx len True l by (simp add: sp part_patch part_patch_other) (simp add: bytes_def LSB_def)
  then obtain c where c: "length c = 2" "bytes c" "icmp_checksum 34 (int len) ?d = Some (patch 36 c ?d)"
    "inet_sum (part (patch 36 c ?d) 34 len) mod 65535 = 0"
    using icmp_checksum_eq [of 34 len ?d] len True l by auto
  let ?e = "patch 36 c ?d"
  have e: "part ?e 34 len = icmp_reply ?rx c len"
    using rx len True l c(1) by (simp add: sp part_patch part_patch_other icmp_reply_def)
  have "patch 35 [0] (patch 34 [0] ?tx) = patch 34 [0, 0] ?tx" using patch_append [of 34 "[0]" "[0]" ?tx] rx(3) by simp
  moreover have "ip_header ?rx ?e IP_PROTOCAL_ICMP len = ip_header ?rx ?tx IP_PROTOCAL_ICMP len"
    using l c(1) rx True len by (simp add: ip_header_def nth_patch)
  ultimately have "icmp_handle (int len) s = ethernet_send (s\<lparr>ethernet_tx_data := patch 0 (ip_header ?rx ?tx IP_PROTOCAL_ICMP len) ?e,
      ethernet_tx_len := 34 + int len\<rparr>)"
    using rx req len True l c b ip_make_reply_eq [of "s\<lparr>ethernet_tx_data := ?e\<rparr>"]
    by (simp add: icmp_handle_def net_offsets get_at_def upd_tx_def put_at_patch eth_memcpy_patch nat_diff_distrib
        ICMP_TYPE_ECHO_REPLY_def Let_def)
  moreover have "part (patch 0 (ip_header ?rx ?tx IP_PROTOCAL_ICMP len) ?e) 0 (34 + len) =
      ip_header ?rx ?tx IP_PROTOCAL_ICMP len @ icmp_reply ?rx c len"
    unfolding part_split using rx l c(1) e len True by (simp add: part_patch part_patch_other)
  ultimately show ?thesis
    using True c e ethernet_send_eq [of "s\<lparr>ethernet_tx_data := patch 0 (ip_header ?rx ?tx IP_PROTOCAL_ICMP len) ?e,
      ethernet_tx_len := 34 + int len\<rparr>" "34 + len"] rx l
    by auto
next
  case False
  then have "eth_memcpy (nat (int len - 4)) d 38 (ethernet_rx_data s) 38 = None" if "length d = 2048" for d
    using that by (intro eth_memcpy_outside) auto
  then show ?thesis
    using rx req False by (simp add: icmp_handle_def net_offsets get_at_def upd_tx_def put_at_patch)
qed

section \<open>TCP segments\<close>

definition tcp_segment :: "net \<Rightarrow> u32 \<Rightarrow> u32 list \<Rightarrow> u32 list \<Rightarrow> u32 list" where
  "tcp_segment s flags c data = be_bytes 2 (tcp_dst_port s) @ be_bytes 2 (tcp_src_port s) @ be_bytes 4 (tcp_seq s) @
     be_bytes 4 (tcp_ack s) @ [0x50, flags, 0x03, 0xE8] @ c @ [0, 0] @ data"

text \<open>The sum that the checksum of TCP covers: the addresses, the protocol, the length and the segment.\<close>

definition tcp_sum :: "net \<Rightarrow> u32 list \<Rightarrow> nat" where
  "tcp_sum s f = inet_sum (tcp_src_addr s @ tcp_dst_addr s) + 6 + length f + inet_sum f"

definition net_ok :: "net \<Rightarrow> bool" where
  "net_ok s \<longleftrightarrow> length (ethernet_rx_data s) = 2048 \<and> bytes (ethernet_rx_data s) \<and> length (ethernet_tx_data s) = 2048 \<and>
     length (tcp_src_addr s) = 4 \<and> bytes (tcp_src_addr s) \<and> length (tcp_dst_addr s) = 4 \<and> bytes (tcp_dst_addr s)"

lemma length_tcp_segment [simp]: "length c = 2 \<Longrightarrow> length (tcp_segment s flags c data) = 20 + length data"
  by (simp add: tcp_segment_def)

lemma nth_part_iff: "a + n \<le> length xs \<Longrightarrow> i < n \<Longrightarrow> part xs a n ! i = xs ! (a + i)"
  by simp

lemma be_window: "be_bytes 2 1000 = [0x03, 0xE8]"
proof -
  have "LSB (signed_drop_bit 8 1000) = 0x03" "LSB 1000 = 0xE8"
    using unat_MSB [of 1000] unat_LSB [of 1000] by (simp_all add: MSB_def LSB_def word_unat_eq_iff and.assoc del: of_nat_unat)
  then show ?thesis by (simp add: numeral_2_eq_2)
qed

lemma patch_prepend:
  "d + length ys + length zs \<le> length xs \<Longrightarrow> patch d ys (patch (d + length ys) zs xs) = patch d (ys @ zs) xs"
  by (rule nth_equalityI) (auto simp: nth_patch nth_append)

lemma tcp_build:
  assumes "length d = 2048" "length data \<le> 1000"
  shows "patch 54 data (patch 48 [0x03, 0xE8] (patch 51 [0] (patch 50 [0] (patch 53 [0] (patch 52 [0] (patch 47 [flags] (patch 46 [0x50]
      (patch 42 (be_bytes 4 (tcp_ack s)) (patch 38 (be_bytes 4 (tcp_seq s)) (patch 36 (be_bytes 2 (tcp_src_port s))
        (patch 34 (be_bytes 2 (tcp_dst_port s)) d))))))))))) = patch 34 (tcp_segment s flags [0, 0] data) d"
proof -
  define A where "A = be_bytes 2 (tcp_dst_port s) @ be_bytes 2 (tcp_src_port s) @ be_bytes 4 (tcp_seq s) @ be_bytes 4 (tcp_ack s) @ [0x50, flags]"
  let ?x = "patch 34 A d"
  note app = patch_append [of 34 _ _ d, unfolded assms(1)]
  have x: "patch 47 [flags] (patch 46 [0x50] (patch 42 (be_bytes 4 (tcp_ack s)) (patch 38 (be_bytes 4 (tcp_seq s))
      (patch 36 (be_bytes 2 (tcp_src_port s)) (patch 34 (be_bytes 2 (tcp_dst_port s)) d))))) = ?x"
    using app [of "be_bytes 2 (tcp_dst_port s)" "be_bytes 2 (tcp_src_port s)"]
      app [of "be_bytes 2 (tcp_dst_port s) @ be_bytes 2 (tcp_src_port s)" "be_bytes 4 (tcp_seq s)"]
      app [of "be_bytes 2 (tcp_dst_port s) @ be_bytes 2 (tcp_src_port s) @ be_bytes 4 (tcp_seq s)" "be_bytes 4 (tcp_ack s)"]
      app [of "be_bytes 2 (tcp_dst_port s) @ be_bytes 2 (tcp_src_port s) @ be_bytes 4 (tcp_seq s) @ be_bytes 4 (tcp_ack s)" "[0x50]"]
      app [of "be_bytes 2 (tcp_dst_port s) @ be_bytes 2 (tcp_src_port s) @ be_bytes 4 (tcp_seq s) @ be_bytes 4 (tcp_ack s) @ [0x50]" "[flags]"]
    by (simp add: A_def)
  have l: "length A = 14" "length ?x = 2048" using assms by (simp_all add: A_def)
  have "patch 48 [0x03, 0xE8] (patch 51 [0] (patch 50 [0] (patch 53 [0] (patch 52 [0] ?x)))) = patch 48 [0x03, 0xE8, 0, 0, 0, 0] ?x"
    using patch_append [of 52 "[0]" "[0]" ?x] patch_append [of 50 "[0]" "[0]" "patch 52 [0, 0] ?x"] l
      patch_prepend [of 50 "[0, 0]" "[0, 0]" ?x] patch_prepend [of 48 "[0x03, 0xE8]" "[0, 0, 0, 0]" ?x] by simp
  moreover have "patch 54 data (patch 48 [0x03, 0xE8, 0, 0, 0, 0] ?x) = patch 34 (tcp_segment s flags [0, 0] data) d"
    using app [of A "[0x03, 0xE8, 0, 0, 0, 0]"] app [of "A @ [0x03, 0xE8, 0, 0, 0, 0]" data] l assms(2)
    by (simp add: tcp_segment_def A_def)
  ultimately show ?thesis unfolding x by simp
qed

lemma pair_sum:
  assumes "length xs = 4" "bytes xs"
  shows "be_word (part xs 0 2) + be_word (part xs 2 2) = of_nat (inet_sum xs)"
proof -
  obtain p q r t where x: "xs = [p, q, r, t]" using assms(1) by (auto simp: numeral_eq_Suc length_Suc_conv)
  have h: "push_bit 8 a OR b = of_nat (256 * unat a + unat b)" if "LSB a = a" "LSB b = b" for a b :: u32
    using half_word [OF that] by (metis of_nat_unat ucast_id)
  have "be_word [a, b] = of_nat (256 * unat a + unat b)" if "LSB a = a" "LSB b = b" for a b
    using h [OF that] that by (simp add: be_word_def)
  then show ?thesis using assms(2) by (simp add: x part_def bytes_def)
qed

lemma bytes_segment:
  "LSB flags = flags \<Longrightarrow> bytes c \<Longrightarrow> bytes data \<Longrightarrow> bytes (tcp_segment s flags c data)"
  using bytes_be [of 2 "tcp_dst_port s"] bytes_be [of 2 "tcp_src_port s"] bytes_be [of 4 "tcp_seq s"] bytes_be [of 4 "tcp_ack s"]
  by (auto simp: tcp_segment_def bytes_def LSB_small simp del: be_bytes.simps bytes_be)

lemma tcp_checksum:
  assumes ok: "net_ok s" and b: "LSB flags = flags" "bytes data" "length data \<le> 1000"
    and c: "c = fold_sum (of_nat (tcp_sum s (tcp_segment s flags [0, 0] data)))" and d: "length d = 2048"
  shows "tcp_sum s (tcp_segment s flags [MSB c, LSB c] data) mod 65535 = 0"
    "sum_loop (\<lambda>x. x) (patch 34 (tcp_segment s flags [0, 0] data) d) 34 0 (int (20 + length data))
       (of_nat (inet_sum (tcp_src_addr s @ tcp_dst_addr s) + 6 + (20 + length data))) =
       Some (of_nat (tcp_sum s (tcp_segment s flags [0, 0] data)))"
proof -
  let ?f = "tcp_segment s flags [0, 0] data"
  let ?d = "patch 34 ?f (replicate 2048 0)"
  let ?b = "inet_sum (tcp_src_addr s @ tcp_dst_addr s) + 6 + (20 + length data)"
  have l: "length ?f = 20 + length data" "length ?d = 2048" using b(3) by simp_all
  have bf: "bytes ?f" using b by (intro bytes_segment) (simp_all add: bytes_def LSB_def)
  have p: "part (patch 34 ?f e) 34 (20 + length data) = ?f" if "length e = 2048" for e using b(3) l that by (simp add: part_patch)
  have "inet_sum (tcp_src_addr s @ tcp_dst_addr s) \<le> 65535 * 4"
    using inet_sum_bound [of "tcp_src_addr s @ tcp_dst_addr s"] ok by (auto simp: net_ok_def bytes_def)
  moreover have "(length ?f + 1) div 2 \<le> 1000" using l b(3) by simp
  then have "inet_sum ?f \<le> 65535 * 1000" using inet_sum_bound [OF bf] by (meson le_trans mult_le_mono2)
  ultimately have S: "tcp_sum s ?f < 2 ^ 31" using l b(3) by (simp add: tcp_sum_def)
  have "(?b + inet_sum (part (patch (34 + 2 * 8) [MSB c, LSB c] ?d) 34 (20 + length data))) mod 65535 = 0"
    using b(3) l S c p [of "replicate 2048 0"]
    by (intro checksum_stored [where S = "tcp_sum s ?f"]) (simp_all add: nth_patch tcp_segment_def nth_append tcp_sum_def)
  moreover have "part (patch (34 + 2 * 8) [MSB c, LSB c] ?d) 34 (20 + length data) = patch (2 * 8) [MSB c, LSB c] ?f"
    using b(3) l p [of "replicate 2048 0"] by (subst part_update) simp_all
  moreover have "patch (2 * 8) [x, y] ?f = tcp_segment s flags [x, y] data" for x y
    by (simp add: patch_def tcp_segment_def)
  ultimately show "tcp_sum s (tcp_segment s flags [MSB c, LSB c] data) mod 65535 = 0" by (simp add: tcp_sum_def)
  show "sum_loop (\<lambda>x. x) (patch 34 ?f d) 34 0 (int (20 + length data)) (of_nat ?b) = Some (of_nat (tcp_sum s ?f))"
    using sum_loop_eq [of 34 "20 + length data" "patch 34 ?f d" 0 "\<lambda>x. x" "of_nat ?b"] p [OF d] bf b(3) l d
    by (simp add: bytes_def tcp_sum_def)
qed

lemma tcp_send_packet_eq:
  assumes ok: "net_ok s" and f: "LSB flags = flags" and data: "pos + len \<le> length src" "len \<le> 1000"
  obtains c d where "length c = 2" "tcp_sum s (tcp_segment s flags c (map LSB (part src pos len))) mod 65535 = 0" "length d = 2048"
    "tcp_send_packet flags src (int pos) (int len) s = Some (s\<lparr>ethernet_tx_data := d, ethernet_tx_len := int (54 + len),
       bus_log := bus_log s @ frame_log (ip_header (ethernet_rx_data s) (ethernet_tx_data s) IP_PROTOCAL_TCP (len + 20) @
         tcp_segment s flags c (map LSB (part src pos len)))\<rparr>)"
proof -
  let ?rx = "ethernet_rx_data s" and ?tx = "ethernet_tx_data s"
  define data where "data = map LSB (part src pos len)"
  define c where "c = fold_sum (of_nat (tcp_sum s (tcp_segment s flags [0, 0] data)))"
  let ?g = "tcp_segment s flags [MSB c, LSB c] data"
  let ?d1 = "patch 34 (tcp_segment s flags [0, 0] data) ?tx" and ?d2 = "patch 34 ?g ?tx"
  have ld: "length data = len" "bytes data" using data by (simp_all add: data_def bytes_def)
  have l: "length ?rx = 2048" "bytes ?rx" "length ?tx = 2048" using ok by (simp_all add: net_ok_def)
  note ck = tcp_checksum [OF ok f ld(2) _ c_def, unfolded ld(1), OF data(2), of ?tx, OF l(3)]
  have sums: "be_word (part (tcp_src_addr s) 0 2) + be_word (part (tcp_src_addr s) 2 2) +
      (be_word (part (tcp_dst_addr s) 0 2) + be_word (part (tcp_dst_addr s) 2 2)) =
      of_nat (inet_sum (tcp_src_addr s @ tcp_dst_addr s))"
  proof -
    have four: "\<exists>p q r t. xs = [p, q, r, t]" if "length xs = 4" for xs :: "u32 list"
      using that by (auto simp: numeral_eq_Suc length_Suc_conv)
    have "length (tcp_src_addr s) = 4" "length (tcp_dst_addr s) = 4" using ok by (simp_all add: net_ok_def)
    with four [of "tcp_src_addr s"] four [of "tcp_dst_addr s"]
    have "inet_sum (tcp_src_addr s @ tcp_dst_addr s) = inet_sum (tcp_src_addr s) + inet_sum (tcp_dst_addr s)" by auto
    moreover have "be_word (part (tcp_src_addr s) 0 2) + be_word (part (tcp_src_addr s) 2 2) = of_nat (inet_sum (tcp_src_addr s))"
      "be_word (part (tcp_dst_addr s) 0 2) + be_word (part (tcp_dst_addr s) 2 2) = of_nat (inet_sum (tcp_dst_addr s))"
      using ok by (simp_all add: pair_sum net_ok_def)
    ultimately show ?thesis by simp
  qed
  have d2: "patch (Suc 50) [LSB c] (patch 50 [MSB c] ?d1) = ?d2"
  proof -
    have "patch (Suc 50) [LSB c] (patch 50 [MSB c] ?d1) = patch 50 [MSB c, LSB c] ?d1"
      using patch_append [of 50 "[MSB c]" "[LSB c]" ?d1] l ld data by simp
    also have "\<dots> = patch 34 (patch 16 [MSB c, LSB c] (tcp_segment s flags [0, 0] data)) ?tx"
      using l ld data by (intro nth_equalityI) (auto simp: nth_patch)
    also have "patch 16 [MSB c, LSB c] (tcp_segment s flags [0, 0] data) = ?g" by (simp add: patch_def tcp_segment_def)
    finally show ?thesis .
  qed
  have h: "ip_header ?rx ?d2 IP_PROTOCAL_TCP (len + 20) = ip_header ?rx ?tx IP_PROTOCAL_TCP (len + 20)"
    using l ld data by (simp add: ip_header_def nth_patch)
  have sl: "sum_loop (\<lambda>x. x) ?d1 34 0 (int len + 20) (of_nat (inet_sum (tcp_src_addr s @ tcp_dst_addr s)) + IP_PROTOCAL_TCP +
      (of_nat len + 20)) = Some (of_nat (tcp_sum s (tcp_segment s flags [0, 0] data)))"
    using ck(2) by (simp add: IP_PROTOCAL_TCP_def ac_simps)
  let ?h = "ip_header ?rx ?tx IP_PROTOCAL_TCP (len + 20)"
  let ?s = "s\<lparr>ethernet_tx_data := patch 0 ?h ?d2, ethernet_tx_len := int (54 + len)\<rparr>"
  have "tcp_send_packet flags src (int pos) (int len) s = ethernet_send ?s"
    using l ld data sl sums d2 h tcp_build [of ?tx data flags s] ok
      ip_make_reply_eq [of "s\<lparr>ethernet_tx_data := ?d2\<rparr>" IP_PROTOCAL_TCP "len + 20"]
    by (simp add: tcp_send_packet_def net_offsets upd_tx_def int2mem_patch put_at_patch eth_memcpy_patch data_def [symmetric] Let_def
        mem2int_eq net_ok_def be_window c_def [symmetric])
  moreover have "part (patch 0 ?h ?d2) 0 (54 + len) = ?h @ ?g"
    using part_split [of "patch 0 ?h ?d2" 0 34 "20 + len"] l ld data by (simp add: part_patch part_patch_other)
  ultimately show thesis
    using ethernet_send_eq [of ?s "54 + len"] l ld data ck(1)
    by (intro that [of "[MSB c, LSB c]" "patch 0 ?h ?d2"]) (simp_all add: data_def)
qed

section \<open>The TCP server\<close>

text \<open>A connection: the ports and the addresses of the client and of the server. The segments of a connection.\<close>

type_synonym conn = "u32 \<times> u32 \<times> u32 list \<times> u32 list"

definition conn_of :: "net \<Rightarrow> conn" where
  "conn_of s = (tcp_src_port s, tcp_dst_port s, tcp_src_addr s, tcp_dst_addr s)"

definition packet_conn :: "u32 list \<Rightarrow> conn" where
  "packet_conn rx = (be_word (part rx 34 2), be_word (part rx 36 2), part rx 26 4, part rx 30 4)"

definition segment :: "conn \<Rightarrow> u32 \<Rightarrow> u32 \<Rightarrow> u32 \<Rightarrow> u32 list \<Rightarrow> u32 list \<Rightarrow> u32 list" where
  "segment k sq ak flags c data = (case k of (sp, dp, _, _) \<Rightarrow>
     be_bytes 2 dp @ be_bytes 2 sp @ be_bytes 4 sq @ be_bytes 4 ak @ [0x50, flags, 0x03, 0xE8] @ c @ [0, 0] @ data)"

definition segment_sum :: "conn \<Rightarrow> u32 list \<Rightarrow> nat" where
  "segment_sum k f = (case k of (_, _, sa, da) \<Rightarrow> inet_sum (sa @ da) + 6 + length f + inet_sum f)"

text \<open>\<open>answer rx k sq ak flags data f\<close>: the frame \<open>f\<close> carries, to the sender of \<open>rx\<close>, a segment of the connection with these fields
  and a checksum that verifies.\<close>

definition answer :: "u32 list \<Rightarrow> conn \<Rightarrow> u32 \<Rightarrow> u32 \<Rightarrow> u32 \<Rightarrow> u32 list \<Rightarrow> u32 list \<Rightarrow> bool" where
  "answer rx k sq ak flags data f \<longleftrightarrow> (\<exists>d c. length c = 2 \<and> segment_sum k (segment k sq ak flags c data) mod 65535 = 0 \<and>
     f = ip_header rx d IP_PROTOCAL_TCP (length data + 20) @ segment k sq ak flags c data)"

definition packet_ok :: "u32 list \<Rightarrow> bool" where
  "packet_ok rx \<longleftrightarrow> length rx = 2048 \<and> bytes rx"

definition page_words :: "(nat \<Rightarrow> u8) \<Rightarrow> u32 list" where
  "page_words page = map (\<lambda>i. scast (page i)) [0 ..< 181]"

definition page_ok :: "(nat \<Rightarrow> u8) \<Rightarrow> net \<Rightarrow> bool" where
  "page_ok page s \<longleftrightarrow> length (MYDATA s) = 724 \<and> (tcp_inited s \<longrightarrow> part (MYDATA s) 0 181 = page_words page)"

lemma net_okD: "net_ok s \<Longrightarrow> packet_ok (ethernet_rx_data s)"
  by (simp add: net_ok_def packet_ok_def)

lemma mydata_length: "MYDATA_LENGTH = 181" "LAST_CHUNK_POS = 0"
  by (simp_all add: MYDATA_LENGTH_def LAST_CHUNK_POS_def CHUNK_LEN_def)

lemma tcp_init_data_ok:
  assumes "page_ok page s"
  shows "page_ok page (tcp_init_data page s)" "tcp_inited (tcp_init_data page s)"
    "part (MYDATA (tcp_init_data page s)) 0 181 = page_words page" "length (MYDATA (tcp_init_data page s)) = 724"
  using assms by (auto simp: page_ok_def tcp_init_data_def mydata_length page_words_def part_def)

lemma tcp_matches_eq:
  assumes "net_ok s"
  shows "tcp_matches s = Some (packet_conn (ethernet_rx_data s) = conn_of s)"
proof -
  have "part (tcp_src_addr s) 0 4 = tcp_src_addr s" "part (tcp_dst_addr s) 0 4 = tcp_dst_addr s"
    using assms by (simp_all add: net_ok_def part_def)
  then show ?thesis
    using assms by (auto simp: tcp_matches_def net_offsets mem2int_eq eth_memcmp_eq net_ok_def packet_conn_def conn_of_def Let_def)
qed

lemma tcp_send_answer:
  assumes ok: "net_ok s" and f: "LSB flags = flags" and data: "pos + len \<le> length src" "len \<le> 1000"
  obtains f d where "answer (ethernet_rx_data s) (conn_of s) (tcp_seq s) (tcp_ack s) flags (map LSB (part src pos len)) f"
    "length d = 2048" "tcp_send_packet flags src (int pos) (int len) s =
      Some (s\<lparr>ethernet_tx_data := d, ethernet_tx_len := int (54 + len), bus_log := bus_log s @ frame_log f\<rparr>)"
proof -
  have e: "tcp_segment s flags c x = segment (conn_of s) (tcp_seq s) (tcp_ack s) flags c x" for c x
    by (simp add: tcp_segment_def segment_def conn_of_def)
  have e': "tcp_sum s = segment_sum (conn_of s)" by (simp add: fun_eq_iff tcp_sum_def segment_sum_def conn_of_def)
  obtain c d where c: "length c = 2" "length d = 2048" "tcp_sum s (tcp_segment s flags c (map LSB (part src pos len))) mod 65535 = 0"
    "tcp_send_packet flags src (int pos) (int len) s = Some (s\<lparr>ethernet_tx_data := d, ethernet_tx_len := int (54 + len),
       bus_log := bus_log s @ frame_log (ip_header (ethernet_rx_data s) (ethernet_tx_data s) IP_PROTOCAL_TCP (len + 20) @
         tcp_segment s flags c (map LSB (part src pos len)))\<rparr>)"
    using tcp_send_packet_eq [OF assms] by metis
  have "length (map LSB (part src pos len)) = len" using data by simp
  then have "answer (ethernet_rx_data s) (conn_of s) (tcp_seq s) (tcp_ack s) flags (map LSB (part src pos len))
      (ip_header (ethernet_rx_data s) (ethernet_tx_data s) IP_PROTOCAL_TCP (len + 20) @ tcp_segment s flags c (map LSB (part src pos len)))"
    unfolding answer_def using c(1,3) e e' by (intro exI [of _ "ethernet_tx_data s"] exI [of _ c]) simp
  with c(2,4) show thesis by (rule that [rotated])
qed

text \<open>The state after the timer and the first call's initialisation.\<close>

definition tcp_start :: "(nat \<Rightarrow> u8) \<Rightarrow> net \<Rightarrow> net" where
  "tcp_start page s = tcp_tick (tcp_init_data page s)"

lemma tcp_start_sel [simp]:
  "ethernet_rx_data (tcp_start page s) = ethernet_rx_data s" "net_ok (tcp_start page s) = net_ok s"
  "conn_of (tcp_start page s) = conn_of s" "bus_log (tcp_start page s) = bus_log s" "tcp_ack (tcp_start page s) = tcp_ack s"
  "tcp_seq (tcp_start page s) = tcp_seq s" "MYDATA (tcp_start page s) = MYDATA (tcp_init_data page s)"
  by (simp_all add: tcp_start_def tcp_tick_def tcp_init_data_def net_ok_def conn_of_def Let_def)

lemma tcp_start_state:
  "tcp_state s = TCP_CLOSED \<Longrightarrow> tcp_state (tcp_start page s) = TCP_CLOSED \<and> tcp_timeout (tcp_start page s) = 0"
  "tcp_state s \<noteq> TCP_CLOSED \<Longrightarrow> tcp_timeout s < 29 \<Longrightarrow>
   tcp_state (tcp_start page s) = tcp_state s \<and> tcp_timeout (tcp_start page s) = tcp_timeout s + 1"
  by (auto simp: tcp_start_def tcp_tick_def tcp_init_data_def TIMEOUT_def Let_def)

lemma tcp_states [simp]:
  "TCP_CLOSED = 1" "TCP_SYNC_RECVED = 2" "TCP_ESTABLISHED = 3" "TCP_FIN_SENT = 4"
  by (simp_all add: TCP_CLOSED_def TCP_SYNC_RECVED_def TCP_ESTABLISHED_def TCP_FIN_SENT_def)

lemma tcp_flags [simp]:
  "LSB (TCP_FLAG_SYN OR TCP_FLAG_ACK) = TCP_FLAG_SYN OR TCP_FLAG_ACK" "LSB TCP_FLAG_ACK = TCP_FLAG_ACK"
  "LSB (TCP_FLAG_ACK OR TCP_FLAG_PSH) = TCP_FLAG_ACK OR TCP_FLAG_PSH" "LSB (TCP_FLAG_FIN OR TCP_FLAG_ACK) = TCP_FLAG_FIN OR TCP_FLAG_ACK"
  "LSB TCP_FLAG_RST = TCP_FLAG_RST"
  by (simp_all add: LSB_def TCP_FLAG_SYN_def TCP_FLAG_ACK_def TCP_FLAG_PSH_def TCP_FLAG_FIN_def TCP_FLAG_RST_def)

lemma tcp_handle_eq:
  assumes "net_ok s"
  shows "tcp_handle page len s =
    (let t = tcp_start page s; rx = ethernet_rx_data s; flags = rx ! 47; q = be_word (part rx 38 4); a = be_word (part rx 42 4)
     in if flags AND TCP_FLAG_SYN \<noteq> 0 \<and> (tcp_state t = TCP_CLOSED \<or> tcp_state t = 0) then tcp_accept t
        else if packet_conn rx \<noteq> conn_of s then Some t
        else if flags AND TCP_FLAG_RST \<noteq> 0 then Some (t\<lparr>tcp_state := TCP_CLOSED\<rparr>)
        else if tcp_state t = TCP_FIN_SENT then
          map_option (\<lambda>t. t\<lparr>tcp_state := TCP_CLOSED\<rparr>) (tcp_send_packet TCP_FLAG_RST [] 0 0 (t\<lparr>tcp_seq := a\<rparr>))
        else if tcp_state t = TCP_SYNC_RECVED \<and> flags AND TCP_FLAG_ACK \<noteq> 0 then
          Some (t\<lparr>tcp_seq := a, tcp_ack := q + 1, tcp_state := TCP_ESTABLISHED\<rparr>)
        else if tcp_state t = TCP_ESTABLISHED then tcp_established len q a t
        else Some t)"
proof -
  have "tcp_matches (tcp_start page s) = Some (packet_conn (ethernet_rx_data s) = conn_of s)"
    using tcp_matches_eq [of "tcp_start page s"] assms by simp
  moreover have "length (ethernet_rx_data s) = 2048" using assms by (simp add: net_ok_def)
  ultimately show ?thesis
    unfolding tcp_handle_def tcp_start_def [symmetric]
    by (simp add: Let_def get_at_def net_offsets mem2int_eq map_option_case del: tcp_states split: option.split)
qed

definition served :: "net \<Rightarrow> bus list \<Rightarrow> net \<Rightarrow> bool" where
  "served t log u \<longleftrightarrow> net_ok u \<and> MYDATA u = MYDATA t \<and> tcp_inited u = tcp_inited t \<and> tcp_timeout u = tcp_timeout t \<and>
     bus_log u = bus_log t @ log"

lemma tcp_accept_answer:
  assumes "net_ok t"
  obtains f u where "tcp_accept t = Some u" "served t (frame_log f) u" "conn_of u = packet_conn (ethernet_rx_data t)" "tcp_state u = 2"
    "answer (ethernet_rx_data t) (packet_conn (ethernet_rx_data t)) 1001 (be_word (part (ethernet_rx_data t) 38 4) + 1)
       (TCP_FLAG_SYN OR TCP_FLAG_ACK) [] f"
proof -
  let ?rx = "ethernet_rx_data t"
  define v where "v = t\<lparr>tcp_src_port := be_word (part ?rx 34 2), tcp_dst_port := be_word (part ?rx 36 2), tcp_src_addr := part ?rx 26 4,
    tcp_dst_addr := part ?rx 30 4, tcp_ack := be_word (part ?rx 38 4) + 1, tcp_seq := 1001, tcp_state := 2, send_pos := 0\<rparr>"
  have ok: "net_ok v" "conn_of v = packet_conn ?rx" "ethernet_rx_data v = ?rx" "tcp_seq v = 1001" "tcp_ack v = be_word (part ?rx 38 4) + 1"
    using assms by (simp_all add: v_def net_ok_def conn_of_def packet_conn_def bytes_part)
  obtain f d where f: "answer ?rx (packet_conn ?rx) 1001 (be_word (part ?rx 38 4) + 1) (TCP_FLAG_SYN OR TCP_FLAG_ACK) [] f"
    "length d = 2048" "tcp_send_packet (TCP_FLAG_SYN OR TCP_FLAG_ACK) [] 0 0 v =
      Some (v\<lparr>ethernet_tx_data := d, ethernet_tx_len := 54, bus_log := bus_log v @ frame_log f\<rparr>)"
    using tcp_send_answer [OF ok(1) tcp_flags(1), of 0 0 "[]"] by (auto simp: ok)
  have "patch 0 (part ?rx a 4) x = part ?rx a 4" if "length x = 4" "a + 4 \<le> 2048" for a x
    using that assms by (simp add: patch_def net_ok_def)
  then have "tcp_accept t = tcp_send_packet (TCP_FLAG_SYN OR TCP_FLAG_ACK) [] 0 0 v"
    using assms by (simp add: tcp_accept_def net_offsets mem2int_eq eth_memcpy_patch bytes_part net_ok_def v_def INIT_SEQ_def Let_def)
  with f ok(1,2) show thesis
    by (intro that [of "v\<lparr>ethernet_tx_data := d, ethernet_tx_len := 54, bus_log := bus_log v @ frame_log f\<rparr>" f]) (auto simp: served_def net_ok_def conn_of_def, auto simp: v_def)
qed

lemma tcp_established_page:
  assumes "net_ok t" "length (MYDATA t) = 724" "len \<noteq> 20"
  obtains f u where "tcp_established len q 1002 t = Some u" "served t (frame_log f) u" "conn_of u = conn_of t" "tcp_state u = tcp_state t"
    "answer (ethernet_rx_data t) (conn_of t) 1002 (q + word_of_int (len - 20)) TCP_FLAG_ACK (map LSB (part (MYDATA t) 0 181)) f"
proof -
  define v where "v = t\<lparr>tcp_ack := q + word_of_int (len - 20), tcp_seq := 1002\<rparr>"
  have ok: "net_ok v" "conn_of v = conn_of t" "ethernet_rx_data v = ethernet_rx_data t" "tcp_seq v = 1002"
    "tcp_ack v = q + word_of_int (len - 20)" "MYDATA v = MYDATA t" "bus_log v = bus_log t"
    using assms(1) by (simp_all add: v_def net_ok_def conn_of_def)
  obtain f d where f: "answer (ethernet_rx_data t) (conn_of t) 1002 (q + word_of_int (len - 20)) TCP_FLAG_ACK (map LSB (part (MYDATA t) 0 181)) f"
    "length d = 2048" "tcp_send_packet TCP_FLAG_ACK (MYDATA t) 0 181 v =
      Some (v\<lparr>ethernet_tx_data := d, ethernet_tx_len := 235, bus_log := bus_log t @ frame_log f\<rparr>)"
    using tcp_send_answer [OF ok(1) tcp_flags(2), of 0 181 "MYDATA t"] assms(2) by (auto simp: ok)
  have "tcp_established len q 1002 t = tcp_send_packet TCP_FLAG_ACK (MYDATA t) 0 181 v"
    using assms(3) by (simp add: tcp_established_def net_offsets INIT_SEQ_def mydata_length v_def)
  with f ok(1) show thesis
    by (intro that [of "v\<lparr>ethernet_tx_data := d, ethernet_tx_len := 235, bus_log := bus_log t @ frame_log f\<rparr>" f]) (auto simp: served_def net_ok_def conn_of_def, auto simp: v_def)
qed

lemma tcp_established_fin:
  assumes "net_ok t"
  obtains f u where "tcp_established len q 1183 t = Some u" "served t (frame_log f) u" "conn_of u = conn_of t" "tcp_state u = 4"
    "tcp_ack u = q + word_of_int (len - 20)"
    "answer (ethernet_rx_data t) (conn_of t) 1183 (q + word_of_int (len - 20)) (TCP_FLAG_FIN OR TCP_FLAG_ACK) [] f"
proof -
  define v where "v = t\<lparr>tcp_ack := q + word_of_int (len - 20), tcp_seq := 1183\<rparr>"
  have ok: "net_ok v" "conn_of v = conn_of t" "ethernet_rx_data v = ethernet_rx_data t" "tcp_seq v = 1183"
    "tcp_ack v = q + word_of_int (len - 20)" "bus_log v = bus_log t"
    using assms(1) by (simp_all add: v_def net_ok_def conn_of_def)
  obtain f d where f: "answer (ethernet_rx_data t) (conn_of t) 1183 (q + word_of_int (len - 20)) (TCP_FLAG_FIN OR TCP_FLAG_ACK) [] f"
    "length d = 2048" "tcp_send_packet (TCP_FLAG_FIN OR TCP_FLAG_ACK) [] 0 0 v =
      Some (v\<lparr>ethernet_tx_data := d, ethernet_tx_len := 54, bus_log := bus_log t @ frame_log f\<rparr>)"
    using tcp_send_answer [OF ok(1) tcp_flags(4), of 0 0 "[]"] by (auto simp: ok)
  have "tcp_established len q 1183 t =
      map_option (\<lambda>s. s\<lparr>tcp_state := 4\<rparr>) (tcp_send_packet (TCP_FLAG_FIN OR TCP_FLAG_ACK) [] 0 0 v)"
    by (simp add: tcp_established_def net_offsets INIT_SEQ_def mydata_length v_def map_option_case split: option.split)
  with f ok(1) show thesis
    by (intro that [of "v\<lparr>ethernet_tx_data := d, ethernet_tx_len := 54, bus_log := bus_log t @ frame_log f, tcp_state := 4\<rparr>" f]) (auto simp: served_def net_ok_def conn_of_def, auto simp: v_def)
qed

lemma tcp_reset:
  assumes "net_ok t"
  obtains f u where "tcp_send_packet TCP_FLAG_RST [] 0 0 (t\<lparr>tcp_seq := a\<rparr>) = Some u" "served t (frame_log f) u"
    "answer (ethernet_rx_data t) (conn_of t) a (tcp_ack t) TCP_FLAG_RST [] f"
proof -
  define v where "v = t\<lparr>tcp_seq := a\<rparr>"
  have ok: "net_ok v" "conn_of v = conn_of t" "ethernet_rx_data v = ethernet_rx_data t" "tcp_seq v = a" "tcp_ack v = tcp_ack t"
    "bus_log v = bus_log t"
    using assms(1) by (simp_all add: v_def net_ok_def conn_of_def)
  obtain f d where f: "answer (ethernet_rx_data t) (conn_of t) a (tcp_ack t) TCP_FLAG_RST [] f" "length d = 2048"
    "tcp_send_packet TCP_FLAG_RST [] 0 0 v = Some (v\<lparr>ethernet_tx_data := d, ethernet_tx_len := 54, bus_log := bus_log t @ frame_log f\<rparr>)"
    using tcp_send_answer [OF ok(1) tcp_flags(5), of 0 0 "[]"] by (auto simp: ok)
  with ok(1) show thesis
    by (intro that [of "v\<lparr>ethernet_tx_data := d, ethernet_tx_len := 54, bus_log := bus_log t @ frame_log f\<rparr>" f]) (auto simp: served_def net_ok_def, auto simp: v_def)
qed

lemma tcp_send_outside:
  assumes "net_ok s" "0 < len" "pos < 0 \<or> int (length src) < pos + len"
  shows "tcp_send_packet flags src pos len s = None"
proof -
  have "eth_memcpy (nat len) d 54 src (nat pos) = None" if "0 \<le> pos" for d
    using assms(2,3) that by (intro eth_memcpy_outside) auto
  then show ?thesis
    using assms by (auto simp: tcp_send_packet_def net_offsets upd_tx_def int2mem_patch put_at_patch net_ok_def Let_def be_window)
qed

text \<open>A packet arrives in the receive buffer.\<close>

definition receive :: "u32 list \<Rightarrow> net \<Rightarrow> net" where
  "receive rx s = s\<lparr>ethernet_rx_data := rx\<rparr>"

fun tcp_session :: "(nat \<Rightarrow> u8) \<Rightarrow> (u32 list \<times> int) list \<Rightarrow> net \<Rightarrow> net option" where
  "tcp_session page [] s = Some s"
| "tcp_session page ((rx, len) # ps) s = do { s \<leftarrow> tcp_handle page len (receive rx s); tcp_session page ps s }"

definition in_state :: "(nat \<Rightarrow> u8) \<Rightarrow> conn \<Rightarrow> int \<Rightarrow> int \<Rightarrow> net \<Rightarrow> bool" where
  "in_state page k st n s \<longleftrightarrow> net_ok s \<and> conn_of s = k \<and> tcp_state s = st \<and> tcp_timeout s = n \<and> tcp_inited s \<and>
     length (MYDATA s) = 724 \<and> part (MYDATA s) 0 181 = page_words page"

lemma receive_sel [simp]:
  "ethernet_rx_data (receive rx s) = rx" "tcp_state (receive rx s) = tcp_state s" "tcp_timeout (receive rx s) = tcp_timeout s"
  "bus_log (receive rx s) = bus_log s" "tcp_ack (receive rx s) = tcp_ack s" "conn_of (receive rx s) = conn_of s"
  "page_ok page (receive rx s) = page_ok page s" "net_ok s \<Longrightarrow> packet_ok rx \<Longrightarrow> net_ok (receive rx s)"
  by (simp_all add: receive_def conn_of_def page_ok_def net_ok_def packet_ok_def)

lemma in_state_served:
  assumes "served t log u" "tcp_inited t" "length (MYDATA t) = 724" "part (MYDATA t) 0 181 = page_words page"
  shows "in_state page (conn_of u) (tcp_state u) (tcp_timeout t) u \<and> bus_log u = bus_log t @ log"
  using assms by (simp add: served_def in_state_def)

lemma tcp_start_inited [simp]: "tcp_inited (tcp_start page s)" "tcp_inited s \<Longrightarrow> MYDATA (tcp_start page s) = MYDATA s"
  by (simp_all add: tcp_start_def tcp_tick_def tcp_init_data_def Let_def)

lemma handle_syn:
  assumes "net_ok s" "tcp_state s = TCP_CLOSED" "page_ok page s" "packet_ok rx" "rx ! 47 AND TCP_FLAG_SYN \<noteq> 0"
  obtains f u where "tcp_handle page len (receive rx s) = Some u" "in_state page (packet_conn rx) 2 0 u" "bus_log u = bus_log s @ frame_log f"
    "answer rx (packet_conn rx) 1001 (be_word (part rx 38 4) + 1) (TCP_FLAG_SYN OR TCP_FLAG_ACK) [] f"
proof -
  let ?s = "receive rx s"
  let ?t = "tcp_start page ?s"
  have t: "net_ok ?t" "tcp_state ?t = TCP_CLOSED" "tcp_timeout ?t = 0"
    using assms tcp_start_state(1) [of ?s page] by (simp_all del: tcp_states)
  obtain f u where u: "tcp_accept ?t = Some u" "served ?t (frame_log f) u" "conn_of u = packet_conn rx" "tcp_state u = 2"
    "answer rx (packet_conn rx) 1001 (be_word (part rx 38 4) + 1) (TCP_FLAG_SYN OR TCP_FLAG_ACK) [] f"
    using tcp_accept_answer [OF t(1)] unfolding tcp_start_sel receive_sel by blast
  have "tcp_handle page len ?s = Some u" using tcp_handle_eq [of ?s] assms t u(1) by (simp add: Let_def del: tcp_states)
  moreover have "in_state page (packet_conn rx) 2 0 u \<and> bus_log u = bus_log s @ frame_log f"
    using in_state_served [OF u(2), of page] tcp_init_data_ok [of page ?s] assms(3) u(3,4) t(3) by simp
  ultimately show thesis using that u(5) by blast
qed

text \<open>A packet of the connection that is not a reset, in another state.\<close>

lemma handle_next:
  assumes "in_state page k st n s" "st \<noteq> 1" "st \<noteq> 0" "n < 29" "packet_ok rx" "packet_conn rx = k" "rx ! 47 AND TCP_FLAG_RST = 0"
  obtains t where "in_state page k st (n + 1) t" "ethernet_rx_data t = rx" "bus_log t = bus_log s" "tcp_ack t = tcp_ack s"
    "tcp_handle page len (receive rx s) =
      (if st = 4 then map_option (\<lambda>t. t\<lparr>tcp_state := TCP_CLOSED\<rparr>) (tcp_send_packet TCP_FLAG_RST [] 0 0 (t\<lparr>tcp_seq := be_word (part rx 42 4)\<rparr>))
       else if st = 2 \<and> rx ! 47 AND TCP_FLAG_ACK \<noteq> 0 then
         Some (t\<lparr>tcp_seq := be_word (part rx 42 4), tcp_ack := be_word (part rx 38 4) + 1, tcp_state := TCP_ESTABLISHED\<rparr>)
       else if st = 3 then tcp_established len (be_word (part rx 38 4)) (be_word (part rx 42 4)) t
       else Some t)"
proof -
  let ?s = "receive rx s"
  let ?t = "tcp_start page ?s"
  have s: "net_ok ?s" "tcp_state ?s = st" "tcp_timeout ?s = n" "conn_of ?s = k" "tcp_inited ?s" "MYDATA ?s = MYDATA s"
    using assms(1,5) by (simp_all add: in_state_def) (simp_all add: receive_def)
  then have t: "tcp_state ?t = st" "tcp_timeout ?t = n + 1" using tcp_start_state(2) [of ?s page] assms(2-4) by auto
  have i: "in_state page k st (n + 1) ?t"
    using s t assms(1) tcp_start_inited(2) [of ?s page] by (simp add: in_state_def del: tcp_start_sel(7))
  have h: "tcp_handle page len ?s =
      (if st = 4 then map_option (\<lambda>t. t\<lparr>tcp_state := TCP_CLOSED\<rparr>) (tcp_send_packet TCP_FLAG_RST [] 0 0 (?t\<lparr>tcp_seq := be_word (part rx 42 4)\<rparr>))
       else if st = 2 \<and> rx ! 47 AND TCP_FLAG_ACK \<noteq> 0 then
         Some (?t\<lparr>tcp_seq := be_word (part rx 42 4), tcp_ack := be_word (part rx 38 4) + 1, tcp_state := TCP_ESTABLISHED\<rparr>)
       else if st = 3 then tcp_established len (be_word (part rx 38 4)) (be_word (part rx 42 4)) ?t
       else Some ?t)"
    using assms(2,3) unfolding tcp_handle_eq [OF s(1)] Let_def receive_sel tcp_start_sel t s(4) [unfolded receive_sel] assms(6,7) tcp_states
    by (simp only: if_False HOL.simp_thms)
  show thesis by (rule that [OF i _ _ _ h]) simp_all
qed

lemma handle_ack:
  assumes "in_state page k 2 n s" "n < 29" "packet_ok rx" "packet_conn rx = k" "rx ! 47 AND TCP_FLAG_RST = 0" "rx ! 47 AND TCP_FLAG_ACK \<noteq> 0"
  obtains u where "tcp_handle page len (receive rx s) = Some u" "in_state page k 3 (n + 1) u" "bus_log u = bus_log s"
proof (rule handle_next [OF assms(1) _ _ assms(2-5)])
  fix t
  assume t: "in_state page k 2 (n + 1) t" "bus_log t = bus_log s" "tcp_handle page len (receive rx s) =
      (if (2 :: int) = 4 then map_option (\<lambda>t. t\<lparr>tcp_state := TCP_CLOSED\<rparr>) (tcp_send_packet TCP_FLAG_RST [] 0 0 (t\<lparr>tcp_seq := be_word (part rx 42 4)\<rparr>))
       else if (2 :: int) = 2 \<and> rx ! 47 AND TCP_FLAG_ACK \<noteq> 0 then
         Some (t\<lparr>tcp_seq := be_word (part rx 42 4), tcp_ack := be_word (part rx 38 4) + 1, tcp_state := TCP_ESTABLISHED\<rparr>)
       else if (2 :: int) = 3 then tcp_established len (be_word (part rx 38 4)) (be_word (part rx 42 4)) t
       else Some t)"
  then show thesis
    using assms(6) by (intro that [of "t\<lparr>tcp_seq := be_word (part rx 42 4), tcp_ack := be_word (part rx 38 4) + 1, tcp_state := TCP_ESTABLISHED\<rparr>"])
      (auto simp: in_state_def net_ok_def conn_of_def)
qed simp_all

lemma handle_established:
  assumes "in_state page k 3 n s" "n < 29" "packet_ok rx" "packet_conn rx = k" "rx ! 47 AND TCP_FLAG_RST = 0"
  obtains t where "in_state page k 3 (n + 1) t" "ethernet_rx_data t = rx" "bus_log t = bus_log s"
    "tcp_handle page len (receive rx s) = tcp_established len (be_word (part rx 38 4)) (be_word (part rx 42 4)) t"
  by (rule handle_next [OF assms(1) _ _ assms(2-5), where len = len]) (use that in simp_all)

lemma handle_last:
  assumes "in_state page k 4 n s" "n < 29" "packet_ok rx" "packet_conn rx = k" "rx ! 47 AND TCP_FLAG_RST = 0"
  obtains t where "in_state page k 4 (n + 1) t" "ethernet_rx_data t = rx" "bus_log t = bus_log s" "tcp_ack t = tcp_ack s"
    "tcp_handle page len (receive rx s) =
      map_option (\<lambda>t. t\<lparr>tcp_state := TCP_CLOSED\<rparr>) (tcp_send_packet TCP_FLAG_RST [] 0 0 (t\<lparr>tcp_seq := be_word (part rx 42 4)\<rparr>))"
  by (rule handle_next [OF assms(1) _ _ assms(2-5), where len = len]) (use that in simp_all)


text \<open>C10. The TCP server serves its page. To a client that opens a connection, acknowledges, asks with a packet that carries data and acknowledges
  the 181 bytes, it sends a \<^verbatim>\<open>SYN\<close>, the whole page in one segment, a \<^verbatim>\<open>FIN\<close> and, after the last packet, a reset; the
  numbers are those of the client, every checksum verifies, and the server is ready for the next connection.\<close>

theorem tcp_serves_page:
  assumes s: "net_ok s" "tcp_state s = TCP_CLOSED" "page_ok page s"
    and rx: "\<forall>rx \<in> {syn, ack, get, fin, rst}. packet_ok rx \<and> packet_conn rx = k"
    and flags: "syn ! 47 AND TCP_FLAG_SYN \<noteq> 0" "ack ! 47 AND TCP_FLAG_ACK \<noteq> 0"
      "\<forall>rx \<in> {ack, get, fin, rst}. rx ! 47 AND TCP_FLAG_RST = 0"
    and nums: "be_word (part get 42 4) = 1002" "be_word (part fin 42 4) = 1183" "l3 \<noteq> 20"
  shows "\<exists>s' f1 f2 f3 f4. tcp_session page [(syn, l1), (ack, l2), (get, l3), (fin, l4), (rst, l5)] s = Some s' \<and>
    bus_log s' = bus_log s @ frame_log f1 @ frame_log f2 @ frame_log f3 @ frame_log f4 \<and> tcp_state s' = TCP_CLOSED \<and>
    answer syn k 1001 (be_word (part syn 38 4) + 1) (TCP_FLAG_SYN OR TCP_FLAG_ACK) [] f1 \<and>
    answer get k 1002 (be_word (part get 38 4) + word_of_int (l3 - 20)) TCP_FLAG_ACK (map LSB (page_words page)) f2 \<and>
    answer fin k 1183 (be_word (part fin 38 4) + word_of_int (l4 - 20)) (TCP_FLAG_FIN OR TCP_FLAG_ACK) [] f3 \<and>
    answer rst k (be_word (part rst 42 4)) (be_word (part fin 38 4) + word_of_int (l4 - 20)) TCP_FLAG_RST [] f4"
proof -
  have p: "packet_ok syn" "packet_ok ack" "packet_ok get" "packet_ok fin" "packet_ok rst" using rx by simp_all
  have k: "packet_conn syn = k" "packet_conn ack = k" "packet_conn get = k" "packet_conn fin = k" "packet_conn rst = k" using rx by simp_all
  have nr: "ack ! 47 AND TCP_FLAG_RST = 0" "get ! 47 AND TCP_FLAG_RST = 0" "fin ! 47 AND TCP_FLAG_RST = 0" "rst ! 47 AND TCP_FLAG_RST = 0"
    using flags(3) by simp_all
  obtain f1 s1 where s1: "tcp_handle page l1 (receive syn s) = Some s1" "in_state page k 2 0 s1" "bus_log s1 = bus_log s @ frame_log f1"
    "answer syn k 1001 (be_word (part syn 38 4) + 1) (TCP_FLAG_SYN OR TCP_FLAG_ACK) [] f1"
    by (rule handle_syn [OF s p(1) flags(1), where len = l1, unfolded k(1)])
  obtain s2 where s2: "tcp_handle page l2 (receive ack s1) = Some s2" "in_state page k 3 1 s2" "bus_log s2 = bus_log s1"
    by (rule handle_ack [OF s1(2) _ p(2) k(2) nr(1) flags(2), where len = l2]) simp_all
  obtain t where t: "in_state page k 3 2 t" "ethernet_rx_data t = get" "bus_log t = bus_log s2"
    "tcp_handle page l3 (receive get s2) = tcp_established l3 (be_word (part get 38 4)) 1002 t"
    by (rule handle_established [OF s2(2) _ p(3) k(3) nr(2), where len = l3, unfolded nums(1)]) simp_all
  from t(1) have t': "net_ok t" "length (MYDATA t) = 724" "tcp_inited t" "part (MYDATA t) 0 181 = page_words page" "conn_of t = k"
    "tcp_timeout t = 2" "tcp_state t = 3" by (simp_all add: in_state_def)
  obtain f2 s3 where s3: "tcp_established l3 (be_word (part get 38 4)) 1002 t = Some s3" "served t (frame_log f2) s3" "conn_of s3 = k" "tcp_state s3 = 3"
    "answer get k 1002 (be_word (part get 38 4) + word_of_int (l3 - 20)) TCP_FLAG_ACK (map LSB (page_words page)) f2"
    using tcp_established_page [OF t'(1,2) nums(3)] unfolding t' t(2) by metis
  have i3: "in_state page k 3 2 s3" "bus_log s3 = bus_log s2 @ frame_log f2"
    using in_state_served [OF s3(2) t'(3,2,4)] s3(3,4) t' t(3) by simp_all
  obtain v where v: "in_state page k 3 3 v" "ethernet_rx_data v = fin" "bus_log v = bus_log s3"
    "tcp_handle page l4 (receive fin s3) = tcp_established l4 (be_word (part fin 38 4)) 1183 v"
    by (rule handle_established [OF i3(1) _ p(4) k(4) nr(3), where len = l4, unfolded nums(2)]) simp_all
  from v(1) have v': "net_ok v" "length (MYDATA v) = 724" "tcp_inited v" "part (MYDATA v) 0 181 = page_words page" "conn_of v = k"
    "tcp_timeout v = 3" by (simp_all add: in_state_def)
  obtain f3 s4 where s4: "tcp_established l4 (be_word (part fin 38 4)) 1183 v = Some s4" "served v (frame_log f3) s4" "conn_of s4 = k" "tcp_state s4 = 4"
    "tcp_ack s4 = be_word (part fin 38 4) + word_of_int (l4 - 20)"
    "answer fin k 1183 (be_word (part fin 38 4) + word_of_int (l4 - 20)) (TCP_FLAG_FIN OR TCP_FLAG_ACK) [] f3"
    using tcp_established_fin [OF v'(1)] unfolding v'(5) v(2) by metis
  have i4: "in_state page k 4 3 s4" "bus_log s4 = bus_log s3 @ frame_log f3"
    using in_state_served [OF s4(2) v'(3,2,4)] s4(3,4) v' v(3) by simp_all
  obtain w where w: "in_state page k 4 4 w" "ethernet_rx_data w = rst" "bus_log w = bus_log s4" "tcp_ack w = tcp_ack s4"
    "tcp_handle page l5 (receive rst s4) =
      map_option (\<lambda>t. t\<lparr>tcp_state := TCP_CLOSED\<rparr>) (tcp_send_packet TCP_FLAG_RST [] 0 0 (w\<lparr>tcp_seq := be_word (part rst 42 4)\<rparr>))"
    by (rule handle_last [OF i4(1) _ p(5) k(5) nr(4), where len = l5]) simp_all
  have w': "net_ok w" "conn_of w = k" using w(1) by (simp_all add: in_state_def)
  obtain f4 s5 where s5: "tcp_send_packet TCP_FLAG_RST [] 0 0 (w\<lparr>tcp_seq := be_word (part rst 42 4)\<rparr>) = Some s5" "served w (frame_log f4) s5"
    "answer rst k (be_word (part rst 42 4)) (tcp_ack w) TCP_FLAG_RST [] f4"
    using tcp_reset [OF w'(1)] unfolding w'(2) w(2) by metis
  have "tcp_session page [(syn, l1), (ack, l2), (get, l3), (fin, l4), (rst, l5)] s = Some (s5\<lparr>tcp_state := TCP_CLOSED\<rparr>)"
    using s1(1) s2(1) t(4) s3(1) v(4) s4(1) w(5) s5(1) by simp
  moreover have "bus_log s5 = bus_log s @ frame_log f1 @ frame_log f2 @ frame_log f3 @ frame_log f4"
    using s5(2) s1(3) s2(3) i3(2) i4(2) w(3) by (simp add: served_def)
  ultimately show ?thesis using s1(4) s3(5) s4(5,6) s5(3) w(4) by (intro exI [of _ "s5\<lparr>tcp_state := TCP_CLOSED\<rparr>"] exI [of _ f1] exI [of _ f2] exI [of _ f3] exI [of _ f4]) simp
qed

text \<open>C15. A client that acknowledges a part of the page makes the server read outside of it: in an open connection only the
  acknowledgement numbers 1002 (nothing received) and 1183 (all of it) are handled; for every other one, which the client chooses, the
  server would send 1000 words from that position of memory.\<close>

theorem tcp_partial_ack_reads_outside:
  assumes "in_state page k 3 n s" "n < 29" "packet_ok rx" "packet_conn rx = k" "rx ! 47 AND TCP_FLAG_RST = 0"
    and a: "be_word (part rx 42 4) \<notin> {1002, 1183}"
  shows "tcp_handle page len (receive rx s) = None"
proof (rule handle_established [OF assms(1-5), where len = len])
  fix t
  let ?a = "be_word (part rx 42 4)"
  assume t: "in_state page k 3 (n + 1) t"
    "tcp_handle page len (receive rx s) = tcp_established len (be_word (part rx 38 4)) ?a t"
  define v where "v = t\<lparr>tcp_ack := be_word (part rx 38 4) + word_of_int (len - 20), tcp_seq := ?a\<rparr>"
  have v: "net_ok v" "length (MYDATA v) = 724" using t(1) by (simp_all add: v_def in_state_def net_ok_def)
  have "sint (?a - 1002) \<noteq> 0" "sint (?a - 1002) \<noteq> 181"
  proof -
    show "sint (?a - 1002) \<noteq> 0" using a by (auto simp: sint_eq_0_iff)
    show "sint (?a - 1002) \<noteq> 181"
    proof
      assume "sint (?a - 1002) = 181"
      moreover have "?a - 1002 = of_int (sint (?a - 1002))" by simp
      ultimately have "?a - 1002 = 181" by simp
      then have "?a = 181 + 1002" by (simp only: diff_eq_eq)
      then show False using a by simp
    qed
  qed
  moreover have "tcp_send_packet f (MYDATA v) pos 1000 v = None" for f pos
    using v by (intro tcp_send_outside) auto
  ultimately show ?thesis
    unfolding t(2) by (simp add: tcp_established_def INIT_SEQ_def mydata_length net_offsets CHUNK_LEN_def v_def Let_def)
qed

text \<open>C28. While a connection is open, a packet that is not of it changes nothing but the timer and is not answered, as long as the timer has not
  run out. The timer counts packets: the packet of a stranger that comes as the thirtieth closes the connection, and if it asks
  for a connection itself (SYN) it is answered and takes the connection over.\<close>

theorem tcp_ignores_strangers:
  assumes "net_ok s" "tcp_inited s" "tcp_state s \<noteq> TCP_CLOSED" "tcp_state s \<noteq> 0" "packet_ok rx" "packet_conn rx \<noteq> conn_of s"
  shows "if tcp_timeout s \<noteq> 29 then
      tcp_handle page len (receive rx s) = Some (receive rx s\<lparr>tcp_timeout := tcp_timeout s + 1\<rparr>)
    else if rx ! 47 AND TCP_FLAG_SYN = 0 then
      tcp_handle page len (receive rx s) = Some (receive rx s\<lparr>tcp_timeout := 0, tcp_state := TCP_CLOSED\<rparr>)
    else \<exists>f u. tcp_handle page len (receive rx s) = Some u \<and> bus_log u = bus_log s @ frame_log f \<and>
      conn_of u = packet_conn rx \<and> tcp_state u = TCP_SYNC_RECVED \<and>
      answer rx (packet_conn rx) 1001 (be_word (part rx 38 4) + 1) (TCP_FLAG_SYN OR TCP_FLAG_ACK) [] f"
proof -
  let ?s = "receive rx s"
  let ?t = "?s\<lparr>tcp_timeout := 0, tcp_state := TCP_CLOSED\<rparr>"
  have ok: "net_ok ?s" "packet_conn (ethernet_rx_data ?s) \<noteq> conn_of ?s" using assms by simp_all
  have i: "tcp_inited ?s" using assms(2) by (simp add: receive_def)
  have st: "tcp_start page ?s = (if tcp_timeout s \<noteq> 29 then ?s\<lparr>tcp_timeout := tcp_timeout s + 1\<rparr> else ?t)"
    using i assms(3) by (simp add: tcp_start_def tcp_init_data_def tcp_tick_def TIMEOUT_def Let_def)
  have rx: "ethernet_rx_data ?t = rx" "bus_log ?t = bus_log s" by (simp_all add: receive_def)
  have "\<exists>f u. tcp_handle page len ?s = Some u \<and> bus_log u = bus_log s @ frame_log f \<and>
      conn_of u = packet_conn rx \<and> tcp_state u = TCP_SYNC_RECVED \<and>
      answer rx (packet_conn rx) 1001 (be_word (part rx 38 4) + 1) (TCP_FLAG_SYN OR TCP_FLAG_ACK) [] f"
    if c: "tcp_timeout s = 29" "rx ! 47 AND TCP_FLAG_SYN \<noteq> 0"
  proof -
    have "net_ok ?t" using ok(1) by (simp add: net_ok_def)
    from tcp_accept_answer [OF this] obtain f u where u: "tcp_accept ?t = Some u" "served ?t (frame_log f) u"
      "conn_of u = packet_conn rx" "tcp_state u = 2"
      "answer rx (packet_conn rx) 1001 (be_word (part rx 38 4) + 1) (TCP_FLAG_SYN OR TCP_FLAG_ACK) [] f" unfolding rx by blast
    have "tcp_handle page len ?s = tcp_accept ?t"
      unfolding tcp_handle_eq [OF ok(1)] st using c by (simp add: Let_def receive_def)
    then show ?thesis using u by (intro exI [of _ f] exI [of _ u]) (simp add: served_def receive_def)
  qed
  moreover have "tcp_handle page len ?s = Some (?s\<lparr>tcp_timeout := tcp_timeout s + 1\<rparr>)" if "tcp_timeout s \<noteq> 29"
    using that st assms(3,4,6) unfolding tcp_handle_eq [OF ok(1)] by (simp add: Let_def conn_of_def receive_def)
  moreover have "tcp_handle page len ?s = Some ?t" if "tcp_timeout s = 29" "rx ! 47 AND TCP_FLAG_SYN = 0"
    using that st assms(3,4,6) unfolding tcp_handle_eq [OF ok(1)] by (simp add: Let_def conn_of_def receive_def)
  ultimately show ?thesis by (simp only: split: if_split) blast
qed

section \<open>ARP\<close>

text \<open>C40. The driver answers ARP requests for its address (a packet whose type has the low byte 1, the code does not look at the
  high byte, and whose target is the address of the kernel), and nothing else: one frame is sent, the reply of RFC 826 to the
  sender, with the addresses of the kernel as the sender's and those of the sender as the target's.\<close>

theorem arp_answers:
  assumes "length (ethernet_rx_data s) = 2048" "bytes (ethernet_rx_data s)" "length (ethernet_tx_data s) = 2048"
  shows "if ethernet_rx_data s ! 21 = ARP_TYPE_REQUEST \<and> part (ethernet_rx_data s) 38 4 = IP_ADDR then
      \<exists>s'. arp_handle s = Some s' \<and> bus_log s' = bus_log s @ frame_log (arp_reply (ethernet_rx_data s))
    else arp_handle s = Some s"
proof -
  have "part IP_ADDR 0 4 = IP_ADDR" by (simp add: IP_ADDR_def part_def)
  then show ?thesis
    using arp_handle_request [OF assms] assms by (auto simp: arp_handle_def net_offsets get_at_def eth_memcmp_eq Let_def)
qed

section \<open>An example\<close>

definition example_packet :: "u32 \<Rightarrow> u32 \<Rightarrow> u32 list" where
  "example_packet flags ackno =
     [0xf0, 0xde, 0xf1, 0x44, 0x55, 0x66, 2, 0, 0, 0, 0, 1, 0x08, 0x00, 0x45, 0, 0, 60, 0, 0, 0, 0, 64, 6, 0, 0, 10, 0, 0, 7, 192, 168, 1, 233,
      0x12, 0x34, 0, 80, 0, 0, 1, 0] @ be_bytes 4 ackno @ [0x50, flags] @ replicate 2000 0"

definition example_echo :: "u32 list" where
  "example_echo = (example_packet 0 0)[34 := 8]"

definition example_arp :: "u32 list" where
  "example_arp = (example_packet 0 0) [21 := 1, 38 := 192, 39 := 168, 40 := 1, 41 := 233]"

definition example_net :: "u32 list \<Rightarrow> net" where
  "example_net rx = \<lparr>ethernet_rx_data = rx, ethernet_rx_len = 60, ethernet_tx_data = replicate 2048 0, ethernet_tx_len = 0,
     tcp_inited = False, MYDATA = replicate 724 0, send_pos = 0, tcp_timeout = 0, tcp_src_port = 0, tcp_dst_port = 0,
     tcp_src_addr = replicate 4 0, tcp_dst_addr = replicate 4 0, tcp_ack = 0, tcp_seq = 1001, tcp_state = TCP_CLOSED,
     bus_reads = 0, bus_log = []\<rparr>"

lemma example_packet_ok:
  assumes "LSB flags = flags"
  shows "length (example_packet flags a) = 2048" "bytes (example_packet flags a)" "example_packet flags a ! 47 = flags"
    "packet_conn (example_packet flags a) = packet_conn (example_packet 0 0)" "be_word (part (example_packet flags a) 42 4) = a"
proof -
  show "length (example_packet flags a) = 2048" "example_packet flags a ! 47 = flags"
    by (simp_all add: example_packet_def nth_append)
  show "bytes (example_packet flags a)"
    using bytes_be [of 4 a] assms by (simp add: example_packet_def bytes_def LSB_def del: be_bytes.simps bytes_be)
  have "part (example_packet flags a) 42 4 = be_bytes 4 a" by (simp add: example_packet_def part_def)
  then show "be_word (part (example_packet flags a) 42 4) = a" using take_bit_length_eq [of a] by (simp add: be_word_bytes)
  show "packet_conn (example_packet flags a) = packet_conn (example_packet 0 0)"
    by (simp add: example_packet_def packet_conn_def part_def)
qed

lemma bytes_update: "bytes xs \<Longrightarrow> LSB x = x \<Longrightarrow> bytes (xs[i := x])"
  by (auto simp: bytes_def dest: set_update_subset_insert [THEN subsetD])

theorem arp_answers_witness:
  "\<exists>s'. arp_handle (example_net example_arp) = Some s' \<and> bus_log s' = frame_log (arp_reply example_arp)"
proof -
  have "length example_arp = 2048" "bytes example_arp" "example_arp ! 21 = ARP_TYPE_REQUEST"
    using example_packet_ok [of 0 0] by (simp_all add: example_arp_def bytes_update LSB_def ARP_TYPE_REQUEST_def)
  moreover have "part example_arp 38 4 = IP_ADDR"
    by (simp add: example_arp_def IP_ADDR_def example_packet_def part_def)
  ultimately show ?thesis using arp_answers [of "example_net example_arp"] by (simp add: example_net_def)
qed

theorem icmp_echo_reply_witness:
  "(\<exists>s' c. icmp_handle 40 (example_net example_echo) = Some s' \<and> inet_sum (icmp_reply example_echo c 40) mod 65535 = 0) \<and>
   icmp_handle 3000 (example_net example_echo) = None"
proof -
  have "length example_echo = 2048" "bytes example_echo" "example_echo ! 34 = ICMP_TYPE_ECHO_REQUEST"
    using example_packet_ok [of 0 0] by (simp_all add: example_echo_def bytes_update LSB_def ICMP_TYPE_ECHO_REQUEST_def)
  then show ?thesis
    using icmp_echo_reply [of "example_net example_echo" 40] icmp_echo_reply [of "example_net example_echo" 3000]
    by (simp add: example_net_def) metis
qed

lemma example_net_ok: "net_ok (example_net (example_packet 0 0))" "page_ok page (example_net (example_packet 0 0))"
  using example_packet_ok [of 0 0] by (simp_all add: example_net_def net_ok_def page_ok_def bytes_def LSB_def set_replicate_conv_if)

lemma example_flags:
  "LSB 0x02 = 0x02" "LSB 0x10 = 0x10" "(0x02 :: u32) AND TCP_FLAG_SYN \<noteq> 0" "(0x10 :: u32) AND TCP_FLAG_ACK \<noteq> 0"
  "(0x10 :: u32) AND TCP_FLAG_RST = 0" "(0x10 :: u32) AND TCP_FLAG_SYN = 0"
  by (simp_all add: LSB_def TCP_FLAG_SYN_def TCP_FLAG_ACK_def TCP_FLAG_RST_def)

theorem tcp_serves_page_witness:
  "\<exists>s' f1 f2 f3 f4. tcp_session (\<lambda>_. 65) [(example_packet 0x02 0, 20), (example_packet 0x10 1002, 20), (example_packet 0x10 1002, 38),
      (example_packet 0x10 1183, 20), (example_packet 0x10 1184, 20)] (example_net (example_packet 0 0)) = Some s' \<and>
    bus_log s' = frame_log f1 @ frame_log f2 @ frame_log f3 @ frame_log f4 \<and>
    answer (example_packet 0x10 1002) (packet_conn (example_packet 0 0)) 1002
      (be_word (part (example_packet 0x10 1002) 38 4) + 18) TCP_FLAG_ACK (replicate 181 65) f2"
proof -
  note ok = example_packet_ok [OF example_flags(1)] example_packet_ok [OF example_flags(2)]
  have "map LSB (page_words (\<lambda>_. 65)) = replicate 181 65"
    by (simp add: page_words_def LSB_def map_replicate_const)
  then show ?thesis
    using tcp_serves_page [OF example_net_ok(1) _ example_net_ok(2), of "example_packet 0x02 0" "example_packet 0x10 1002" "example_packet 0x10 1002"
      "example_packet 0x10 1183" "example_packet 0x10 1184" "packet_conn (example_packet 0 0)" 38 "\<lambda>_. 65" 20 20 20 20]
    by (simp add: packet_ok_def ok example_flags example_net_def) blast
qed

text \<open>A connection of the client of \<open>example_packet\<close> that is open.\<close>

definition example_open :: net where
  "example_open = (example_net (example_packet 0 0))\<lparr>tcp_inited := True, MYDATA := replicate 724 65, tcp_src_port := 0x1234, tcp_dst_port := 80,
     tcp_src_addr := [10, 0, 0, 7], tcp_dst_addr := IP_ADDR, tcp_state := TCP_ESTABLISHED\<rparr>"

lemma example_open_state: "in_state (\<lambda>_. 65) (packet_conn (example_packet 0 0)) 3 0 example_open"
proof -
  have "packet_conn (example_packet 0 0) = (0x1234, 80, [10, 0, 0, 7], IP_ADDR)"
    by (simp add: packet_conn_def example_packet_def part_def be_word_def LSB_def IP_ADDR_def)
  then show ?thesis
    using example_net_ok(1) by (simp add: in_state_def example_open_def net_ok_def example_net_def conn_of_def page_words_def part_def map_replicate_const)
      (simp add: bytes_def LSB_def)
qed

theorem tcp_partial_ack_reads_outside_witness:
  "tcp_handle (\<lambda>_. 65) 38 (receive (example_packet 0x10 1100) example_open) = None"
  using tcp_partial_ack_reads_outside [OF example_open_state, of "example_packet 0x10 1100" 38]
  by (simp add: packet_ok_def example_packet_ok [OF example_flags(2)] example_flags)

theorem tcp_ignores_strangers_witness:
  "tcp_handle (\<lambda>_. 65) 38 (receive ((example_packet 0x10 1002)[34 := 1]) example_open) =
     Some (receive ((example_packet 0x10 1002)[34 := 1]) example_open\<lparr>tcp_timeout := 1\<rparr>)"
proof -
  have "packet_conn ((example_packet 0x10 1002)[34 := 1]) \<noteq> packet_conn (example_packet 0 0)"
    by (simp add: packet_conn_def example_packet_def part_def be_word_def LSB_def)
  moreover have "net_ok example_open" "conn_of example_open = packet_conn (example_packet 0 0)" "tcp_inited example_open"
    "tcp_state example_open = 3" "tcp_timeout example_open = 0"
    using example_open_state by (simp_all add: in_state_def)
  moreover have "packet_ok ((example_packet 0x10 1002)[34 := 1])"
    using example_packet_ok [OF example_flags(2), of 1002] by (simp add: packet_ok_def bytes_update LSB_def)
  ultimately show ?thesis using tcp_ignores_strangers [of example_open "(example_packet 0x10 1002)[34 := 1]" "\<lambda>_. 65" 38] by simp
qed

end
