(* ===== verification/NetTypes.thy ===== *)
theory NetTypes
  imports NetProps
begin

text \<open>
  The handlers of the network keep its state well-formed as long as no access leaves an array: what each of them may change, and the
  invariant of the interrupt handler, by induction over its loop. What \<^verbatim>\<open>ethernet_recv\<close> stores of a packet.
\<close>

unbundle bit_operations_syntax

section \<open>The handlers keep the state well-formed\<close>

text \<open>\<open>net_wf\<close>: the arrays have their sizes, the received bytes and the addresses are bytes, and the state of TCP is one of its four.\<close>

definition net_wf :: "net \<Rightarrow> bool" where
  "net_wf s \<longleftrightarrow> net_ok s \<and> length (MYDATA s) = 724 \<and> tcp_state s \<in> {TCP_CLOSED, TCP_SYNC_RECVED, TCP_ESTABLISHED, TCP_FIN_SENT}"

lemma put_at_length: "put_at i x xs = Some ys \<Longrightarrow> length ys = length xs"
  by (auto simp: put_at_def split: if_splits)

lemma stores_length: "stores ws xs = Some ys \<Longrightarrow> length ys = length xs"
  by (induction ws xs arbitrary: ys rule: stores.induct) (auto simp: bind_eq_Some_conv dest: put_at_length)

lemma eth_memcpy_length: "eth_memcpy n xs d src a = Some ys \<Longrightarrow> length ys = length xs"
  by (induction n arbitrary: xs d a) (fastforce simp: bind_eq_Some_conv dest: put_at_length)+

lemma int2mem_length: "int2mem xs d n v = Some ys \<Longrightarrow> length ys = length xs"
  by (induction n arbitrary: xs v) (fastforce simp: bind_eq_Some_conv dest: put_at_length)+

lemma eth_memcpy_bytes: "eth_memcpy n xs d src a = Some ys \<Longrightarrow> bytes xs \<Longrightarrow> bytes ys"
proof (induction n arbitrary: xs d a)
  case (Suc n)
  then obtain x zs where "put_at d (LSB x) xs = Some zs" "eth_memcpy n zs (d + 1) src (a + 1) = Some ys"
    by (auto simp: bind_eq_Some_conv)
  moreover from this(1) Suc.prems(2) have "bytes zs" by (auto simp: put_at_def bytes_update split: if_splits)
  ultimately show ?case by (intro Suc.IH)
qed simp

lemmas array_lengths = put_at_length stores_length eth_memcpy_length int2mem_length

text \<open>\<open>tx_only s s'\<close>: only the transmit buffer, its length and the log differ.\<close>

definition erase_tx :: "net \<Rightarrow> net" where
  "erase_tx s = s\<lparr>ethernet_tx_data := [], ethernet_tx_len := 0, bus_log := []\<rparr>"

definition tx_only :: "net \<Rightarrow> net \<Rightarrow> bool" where
  "tx_only s s' \<longleftrightarrow> erase_tx s' = erase_tx s \<and> length (ethernet_tx_data s') = length (ethernet_tx_data s)"

lemma tx_only_refl: "tx_only s s"
  by (simp add: tx_only_def)

lemma tx_only_trans: "tx_only s t \<Longrightarrow> tx_only t u \<Longrightarrow> tx_only s u"
  by (simp add: tx_only_def)

lemma tx_only_sel:
  assumes "tx_only s s'"
  shows "ethernet_rx_data s' = ethernet_rx_data s" "tcp_src_addr s' = tcp_src_addr s" "tcp_dst_addr s' = tcp_dst_addr s"
    "tcp_state s' = tcp_state s" "MYDATA s' = MYDATA s" "length (ethernet_tx_data s') = length (ethernet_tx_data s)"
  using assms by (cases s, cases s', auto simp: tx_only_def erase_tx_def)+

lemma tx_only_wf: "tx_only s s' \<Longrightarrow> net_wf s \<Longrightarrow> net_wf s'"
  by (simp add: net_wf_def net_ok_def tx_only_sel)

lemma upd_tx_only:
  "upd_tx f s = Some s' \<Longrightarrow> (\<And>d d'. f d = Some d' \<Longrightarrow> length d' = length d) \<Longrightarrow> tx_only s s'"
  by (auto simp: upd_tx_def tx_only_def erase_tx_def bind_eq_Some_conv)

lemma tx_only_upds:
  "tx_only s (s\<lparr>ethernet_tx_len := n\<rparr>)" "tx_only s (write_addr a s)" "tx_only s (write_data x s)" "tx_only s (ethernet_write a x s)"
  by (simp_all add: tx_only_def erase_tx_def write_addr_def write_data_def ethernet_write_def)

lemma send_loop_only: "send_loop i s = Some s' \<Longrightarrow> tx_only s s'"
proof (induction i s arbitrary: s' rule: send_loop.induct)
  case (1 i s)
  show ?case
  proof (cases "i < ethernet_tx_len s")
    case True
    then obtain x v where "send_loop (i + 2) (write_data v s) = Some s'" "get_at (ethernet_tx_data s) (nat i) = Some x"
      "(if i + 1 \<noteq> ethernet_tx_len s then get_at (ethernet_tx_data s) (nat (i + 1)) \<bind> (\<lambda>y. Some (x OR push_bit 8 y)) else Some x) = Some v"
      using "1.prems" by (subst (asm) send_loop.simps) (auto simp: bind_eq_Some_conv)
    then have "tx_only (write_data v s) s'" using 1 True by metis
    then show ?thesis by (rule tx_only_trans [OF tx_only_upds(3)])
  next
    case False
    then show ?thesis using "1.prems" by (simp add: send_loop.simps tx_only_refl)
  qed
qed

lemma ethernet_send_only:
  assumes "ethernet_send s = Some s'"
  shows "tx_only s s'"
proof -
  let ?s = "write_addr DM9000_REG_MWCMD (ethernet_write DM9000_REG_MWCMDX 0 s)"
  from assms obtain t where t: "send_loop 0 ?s = Some t" and s': "s' = ethernet_write DM9000_REG_TCR 1 (ethernet_write DM9000_REG_ISR 2
      (ethernet_write DM9000_REG_TXPLL (LSB (word_of_int (ethernet_tx_len t)))
        (ethernet_write DM9000_REG_TXPLH (MSB (word_of_int (ethernet_tx_len t))) t)))"
    by (auto simp: ethernet_send_def Let_def bind_eq_Some_conv) (simp add: ethernet_write_def write_addr_def write_data_def)
  have "tx_only s t" using tx_only_trans [OF tx_only_trans [OF tx_only_upds(4) tx_only_upds(2)] send_loop_only [OF t]] .
  then show ?thesis unfolding s' by (intro tx_only_trans [OF _ tx_only_upds(4)])
qed

text \<open>\<open>keeps_len f\<close>: \<open>f\<close> keeps the length of an array. \<open>keeps m s\<close>: what \<open>m\<close> returns differs from \<open>s\<close> in the transmit side only.\<close>

definition keeps_len :: "(u32 list \<Rightarrow> u32 list option) \<Rightarrow> bool" where
  "keeps_len f \<longleftrightarrow> (\<forall>d d'. f d = Some d' \<longrightarrow> length d' = length d)"

definition keeps :: "net option \<Rightarrow> net \<Rightarrow> bool" where
  "keeps m s \<longleftrightarrow> (\<forall>s'. m = Some s' \<longrightarrow> tx_only s s')"

lemma keeps_len_bind: "keeps_len f \<Longrightarrow> keeps_len g \<Longrightarrow> keeps_len (\<lambda>d. f d \<bind> g)"
  by (fastforce simp: keeps_len_def bind_eq_Some_conv)

lemma keeps_len_get: "(\<And>x. keeps_len (g x)) \<Longrightarrow> keeps_len (\<lambda>d. h d \<bind> (\<lambda>x. g x d))"
  by (fastforce simp: keeps_len_def bind_eq_Some_conv)

lemma keeps_len_arrays:
  "keeps_len (put_at i x)" "keeps_len (stores ws)" "keeps_len (\<lambda>d. eth_memcpy n d a src b)" "keeps_len (\<lambda>d. int2mem d a n v)"
  "keeps_len (\<lambda>_. None)"
  by (auto simp: keeps_len_def dest: array_lengths)

lemma keeps_len_if: "keeps_len f \<Longrightarrow> keeps_len g \<Longrightarrow> keeps_len (\<lambda>d. if c then f d else g d)"
  by (simp add: keeps_len_def)

lemmas keeps_len_intros = keeps_len_bind keeps_len_arrays keeps_len_if

lemma keeps_bind: "keeps m s \<Longrightarrow> (\<And>t. tx_only s t \<Longrightarrow> keeps (f t) t) \<Longrightarrow> keeps (m \<bind> f) s"
  by (fastforce simp: keeps_def bind_eq_Some_conv intro: tx_only_trans)

lemma keeps_get: "(\<And>x. m = Some x \<Longrightarrow> keeps (f x) s) \<Longrightarrow> keeps (m \<bind> f) s"
  by (fastforce simp: keeps_def bind_eq_Some_conv)

lemma keeps_if: "keeps m s \<Longrightarrow> keeps n s \<Longrightarrow> keeps (if c then m else n) s"
  by simp

lemma keeps_basic: "keeps (Some s) s" "keeps None s" "keeps_len f \<Longrightarrow> keeps (upd_tx f s) s" "keeps (ethernet_send s) s"
  "keeps m (s\<lparr>ethernet_tx_len := n\<rparr>) \<Longrightarrow> keeps m s"
  by (auto simp: keeps_def keeps_len_def tx_only_refl ethernet_send_only intro: upd_tx_only tx_only_trans [OF tx_only_upds(1)])

lemma keeps_set_tx: "keeps (ethernet_set_tx src a t s) s"
  unfolding ethernet_set_tx_def by (intro keeps_basic keeps_len_intros)

lemma keeps_ip_make_reply: "keeps (ip_make_reply proto len s) s"
  unfolding ip_make_reply_def Let_def by (intro keeps_bind keeps_set_tx keeps_basic(3) keeps_len_intros)

lemma keeps_len_checksum: "keeps_len (icmp_checksum a n)"
  unfolding icmp_checksum_def Let_def by (intro keeps_len_bind keeps_len_get keeps_len_arrays)

lemma keeps_arp: "keeps (arp_handle s) s"
  unfolding arp_handle_def Let_def
  by (intro keeps_if keeps_basic(1,2,4) keeps_basic(5) [OF keeps_bind [OF keeps_set_tx]] keeps_bind [OF keeps_basic(3)] keeps_get keeps_len_intros)

lemma keeps_icmp: "keeps (icmp_handle len s) s"
  unfolding icmp_handle_def Let_def
  by (intro keeps_if keeps_basic(1,2) keeps_bind [OF keeps_basic(3)] keeps_bind [OF keeps_ip_make_reply] keeps_get
      keeps_basic(5) [OF keeps_basic(4)] keeps_len_checksum keeps_len_intros)

lemma keeps_tcp_send: "keeps (tcp_send_packet flags src pos len s) s"
  unfolding tcp_send_packet_def Let_def
  by (intro keeps_bind [OF keeps_basic(3)] keeps_bind [OF keeps_ip_make_reply] keeps_get keeps_basic(5) [OF keeps_basic(4)]
      keeps_len_get keeps_len_intros)

lemma keeps_wf: "keeps m s \<Longrightarrow> m = Some s' \<Longrightarrow> net_wf s \<Longrightarrow> net_wf s'"
  by (auto simp: keeps_def intro: tx_only_wf)

lemma stores_bytes: "stores ws xs = Some ys \<Longrightarrow> bytes xs \<Longrightarrow> \<forall>(i, x) \<in> set ws. LSB x = x \<Longrightarrow> bytes ys"
  by (induction ws xs arbitrary: ys rule: stores.induct)
    (auto simp: bind_eq_Some_conv put_at_def bytes_update split: if_splits)

lemma recv_loop_wf: "recv_loop port i s = Some s' \<Longrightarrow> net_wf s \<Longrightarrow> net_wf s'"
proof (induction port i s arbitrary: s' rule: recv_loop.induct)
  case (1 port i s)
  show ?case
  proof (cases "i < ethernet_rx_len s")
    case True
    obtain x t where r: "read_data port s = (x, t)" by fastforce
    then have t: "net_wf t" "ethernet_rx_data t = ethernet_rx_data s" using "1.prems"(2) by (auto simp: read_data_def net_wf_def net_ok_def)
    from "1.prems"(1) True r obtain d where
      d: "stores [(nat i, LSB x), (nat (i + 1), MSB x)] (ethernet_rx_data t) = Some d" and
      n: "recv_loop port (i + 2) (t\<lparr>ethernet_rx_data := d\<rparr>) = Some s'"
      by (subst (asm) recv_loop.simps) (auto simp del: stores.simps split: option.splits)
    have "length d = 2048" "bytes d"
      using stores_length [OF d] stores_bytes [OF d] t(1) by (auto simp: net_wf_def net_ok_def)
    then have "net_wf (t\<lparr>ethernet_rx_data := d\<rparr>)" using t(1) by (simp add: net_wf_def net_ok_def)
    with "1.IH" [OF True r [symmetric] refl d] n show ?thesis by simp
  next
    case False
    then show ?thesis using "1.prems" by (simp add: recv_loop.simps)
  qed
qed

lemma net_wf_upds:
  "net_wf s \<Longrightarrow> net_wf (s\<lparr>ethernet_rx_len := n\<rparr>)" "net_wf s \<Longrightarrow> net_wf (write_addr a s)" "net_wf s \<Longrightarrow> net_wf (write_data x s)"
  "net_wf s \<Longrightarrow> net_wf (snd (read_data port s))" "net_wf s \<Longrightarrow> net_wf (ethernet_write a x s)"
  by (simp_all add: net_wf_def net_ok_def write_addr_def write_data_def read_data_def ethernet_write_def)

lemma ethernet_recv_wf:
  assumes "ethernet_recv port s = Some s'" "net_wf s"
  shows "net_wf s'"
proof -
  note w = net_wf_upds
  define s1 where "s1 = snd (read_data port (write_addr DM9000_REG_MRCMDX1 (snd (ethernet_read port DM9000_REG_MRCMDX s))))"
  define s2 where "s2 = snd (read_data port (write_addr DM9000_REG_MRCMD s1))"
  define s3 where "s3 = snd (read_data port s2)"
  have ok: "net_wf s1" "net_wf s3" unfolding s1_def s2_def s3_def ethernet_read_def by (intro w assms(2))+
  obtain n where "s' = s1\<lparr>ethernet_rx_len := n\<rparr> \<or> s' = s3\<lparr>ethernet_rx_len := n\<rparr> \<or>
      (\<exists>t. recv_loop port 0 (s3\<lparr>ethernet_rx_len := n\<rparr>) = Some t \<and> s' = ethernet_write DM9000_REG_ISR 1 t)"
    using assms(1) by (auto simp: ethernet_recv_def Let_def split_def s1_def s2_def s3_def bind_eq_Some_conv split: if_splits)
  then show ?thesis using ok recv_loop_wf w by metis
qed

lemma tcp_start_wf: "net_wf s \<Longrightarrow> net_wf (tcp_tick (tcp_init_data page s))"
  by (auto simp: net_wf_def net_ok_def tcp_tick_def tcp_init_data_def mydata_length Let_def)

lemma tcp_accept_wf:
  assumes "tcp_accept s = Some s'" "net_wf s"
  shows "net_wf s'"
proof -
  obtain sp dp sa da q where "eth_memcpy 4 (tcp_src_addr s) 0 (ethernet_rx_data s) (ETHERNET_HDR_LEN + IP_SRC) = Some sa"
    "eth_memcpy 4 (tcp_dst_addr s) 0 (ethernet_rx_data s) (ETHERNET_HDR_LEN + IP_DST) = Some da" and
    send: "tcp_send_packet (TCP_FLAG_SYN OR TCP_FLAG_ACK) [] 0 0 (s\<lparr>tcp_src_port := sp, tcp_dst_port := dp, tcp_src_addr := sa,
      tcp_dst_addr := da, tcp_ack := q + 1, tcp_seq := word_of_int INIT_SEQ, tcp_state := TCP_SYNC_RECVED, send_pos := 0\<rparr>) = Some s'"
    using assms(1) by (auto simp: tcp_accept_def Let_def bind_eq_Some_conv)
  then have "length sa = 4" "length da = 4" "bytes sa" "bytes da"
    using assms(2) eth_memcpy_length eth_memcpy_bytes by (auto simp: net_wf_def net_ok_def)
  then have "net_wf (s\<lparr>tcp_src_port := sp, tcp_dst_port := dp, tcp_src_addr := sa,
      tcp_dst_addr := da, tcp_ack := q + 1, tcp_seq := word_of_int INIT_SEQ, tcp_state := TCP_SYNC_RECVED, send_pos := 0\<rparr>)"
    using assms(2) by (simp add: net_wf_def net_ok_def)
  with keeps_wf [OF keeps_tcp_send send] show ?thesis by simp
qed

lemma tcp_established_wf:
  assumes "tcp_established len q a s = Some s'" "net_wf s"
  shows "net_wf s'"
proof -
  let ?s = "s\<lparr>tcp_ack := q + word_of_int (len - int TCP_HDR_LEN), tcp_seq := a\<rparr>"
  have ok: "net_wf ?s" using assms(2) by (simp add: net_wf_def net_ok_def)
  have "net_wf t \<Longrightarrow> net_wf (t\<lparr>tcp_state := 4\<rparr>)" for t by (simp add: net_wf_def net_ok_def)
  then show ?thesis
    using assms(1) ok unfolding tcp_established_def Let_def
    by (auto simp: bind_eq_Some_conv dest: keeps_wf [OF keeps_tcp_send] split: if_splits)
qed

lemma tcp_handle_wf:
  assumes "tcp_handle page len s = Some s'" "net_wf s"
  shows "net_wf s'"
proof -
  let ?t = "tcp_start page s"
  have ok: "net_wf ?t" using tcp_start_wf [OF assms(2)] by (simp add: tcp_start_def)
  have s: "net_ok s" using assms(2) by (simp add: net_wf_def)
  have upd: "net_wf t \<Longrightarrow> net_wf (t\<lparr>tcp_state := TCP_CLOSED\<rparr>)" "net_wf t \<Longrightarrow> net_wf (t\<lparr>tcp_seq := a\<rparr>)"
    "net_wf t \<Longrightarrow> net_wf (t\<lparr>tcp_seq := a, tcp_ack := b, tcp_state := TCP_ESTABLISHED\<rparr>)" for t a b
    by (simp_all add: net_wf_def net_ok_def)
  have send: "tcp_send_packet f src pos n (?t\<lparr>tcp_seq := a\<rparr>) = Some u \<Longrightarrow> net_wf (u\<lparr>tcp_state := TCP_CLOSED\<rparr>)" for f src pos n a u
    using keeps_wf [OF keeps_tcp_send, of f src pos n "?t\<lparr>tcp_seq := a\<rparr>" u] upd ok by blast
  show ?thesis
    using assms(1) ok upd unfolding tcp_handle_eq [OF s] Let_def
    by (auto simp del: tcp_states split: if_splits dest: tcp_accept_wf tcp_established_wf send)
qed

lemma ip_handle_wf: "ip_handle page s = Some s' \<Longrightarrow> net_wf s \<Longrightarrow> net_wf s'"
  unfolding ip_handle_def Let_def
  by (auto simp: bind_eq_Some_conv split: if_splits intro: tcp_handle_wf keeps_wf [OF keeps_icmp])

text \<open>The interrupt handler of the network keeps its state well-formed as long as no store leaves an array (then it has
  no result): the buffers have their sizes and hold bytes, the addresses are four bytes and TCP is in one of its states.\<close>

lemma network_keeps_types:
  assumes "ethernet_intr port page s = Some s'" "net_wf s"
  shows "net_wf s'"
proof -
  have "net_wf s \<longrightarrow> net_wf s'"
  proof (rule ethernet_intr.raw_induct [where P = "\<lambda>port page s s'. net_wf s \<longrightarrow> net_wf s'", OF _ assms(1)])
    fix f port page s s'
    assume IH: "\<And>port page s s'. f port page s = Some s' \<Longrightarrow> net_wf s \<longrightarrow> net_wf s'"
      and eq: "do {
        s \<leftarrow> ethernet_recv port s;
        if ethernet_rx_len s = - 1 then Some s
        else do {
          t \<leftarrow> ethernet_rx_type s;
          s \<leftarrow> (if t = ETHERNET_TYPE_ARP then arp_handle s else Some s);
          s \<leftarrow> (if t = ETHERNET_TYPE_IP then ip_handle page s else Some s);
          f port page s } } = Some s'"
    from eq show "net_wf s \<longrightarrow> net_wf s'"
      by (auto simp: bind_eq_Some_conv split: if_splits
          dest!: IH dest: ethernet_recv_wf keeps_wf [OF keeps_arp] ip_handle_wf)
  qed
  with assms(2) show ?thesis by simp
qed

section \<open>Receiving a packet\<close>

text \<open>The bytes of \<open>m\<close> words from read \<open>b\<close> of the data port, the low byte of each first.\<close>

definition rx_bytes :: "(nat \<Rightarrow> u32) \<Rightarrow> nat \<Rightarrow> nat \<Rightarrow> u32 list" where
  "rx_bytes port b m = concat (map (\<lambda>k. [LSB (port k), MSB (port k)]) [b ..< b + m])"

lemma rx_bytes_simps [simp]:
  "rx_bytes port b 0 = []" "rx_bytes port b (Suc m) = [LSB (port b), MSB (port b)] @ rx_bytes port (Suc b) m"
  "length (rx_bytes port b m) = 2 * m"
proof -
  show S: "rx_bytes port b (Suc m) = [LSB (port b), MSB (port b)] @ rx_bytes port (Suc b) m" for b m
    by (simp add: rx_bytes_def upt_conv_Cons del: upt_Suc)
  show "rx_bytes port b 0 = []" by (simp add: rx_bytes_def)
  show "length (rx_bytes port b m) = 2 * m"
    by (induction m arbitrary: b) (simp_all add: S, simp add: rx_bytes_def)
qed

lemma stores_pair: "stores [(i, x), (Suc i, y)] xs = (if Suc i < length xs then Some (xs[i := x, Suc i := y]) else None)"
  by (simp add: put_at_def)

lemma take_update_pair: "Suc i < length xs \<Longrightarrow>
  take (Suc (Suc i)) (xs[i := x, Suc i := y]) = take i xs @ [x, y] \<and>
  drop (Suc (Suc i) + k) (xs[i := x, Suc i := y]) = drop (Suc (Suc i) + k) xs"
  by (simp add: take_Suc_conv_app_nth)

text \<open>The loop with \<open>m\<close> words to go: it fills the buffer, or a store leaves it.\<close>

lemma recv_loop_words:
  assumes "ethernet_rx_len s \<le> int i + 2 * int m" "int i + 2 * int m \<le> ethernet_rx_len s + 1"
  shows "recv_loop port (int i) s =
    (if i + 2 * m \<le> length (ethernet_rx_data s) \<or> m = 0
     then Some (s\<lparr>ethernet_rx_data := take i (ethernet_rx_data s) @ rx_bytes port (bus_reads s) m @
                  drop (i + 2 * m) (ethernet_rx_data s), bus_reads := bus_reads s + m\<rparr>)
     else None)"
  using assms
proof (induction m arbitrary: i s)
  case 0
  then show ?case by (subst recv_loop.simps) simp
next
  case (Suc m)
  let ?x = "port (bus_reads s)" and ?d = "ethernet_rx_data s"
  have lt: "int i < ethernet_rx_len s" using Suc.prems(2) by simp
  have ix: "nat (int i) = i" "nat (int i + 1) = Suc i" "int i + 2 = int (Suc (Suc i))" by simp_all
  show ?case
  proof (cases "Suc i < length ?d")
    case False
    then show ?thesis using lt
      by (subst recv_loop.simps) (simp add: read_data_def ix stores_pair del: stores.simps of_nat_Suc)
  next
    case True
    let ?d1 = "?d[i := LSB ?x, Suc i := MSB ?x]"
    let ?s1 = "s\<lparr>bus_reads := bus_reads s + 1, ethernet_rx_data := ?d1\<rparr>"
    have st: "recv_loop port (int i) s = recv_loop port (int (Suc (Suc i))) ?s1"
      using lt True
      by (subst recv_loop.simps) (simp add: read_data_def ix stores_pair del: stores.simps of_nat_Suc)
    note tu = take_update_pair [OF True, of "LSB ?x" "MSB ?x"]
    have b: "ethernet_rx_len ?s1 \<le> int (Suc (Suc i)) + 2 * int m"
      "int (Suc (Suc i)) + 2 * int m \<le> ethernet_rx_len ?s1 + 1" using Suc.prems by simp_all
    show ?thesis unfolding st Suc.IH [OF b] using tu [of "2 * m"] tu [of 0] True by (auto simp del: take_Suc)
  qed
qed

text \<open>C17. \<^verbatim>\<open>ethernet_recv\<close>, whatever the controller delivers: without a packet, or when the status reports
  an error, the length becomes - 1 and the buffer stays as it was; a packet whose length \<open>n\<close> fits the
  buffer of 2048 bytes is stored in its first bytes in the order of the wire (two to a word, the byte
  after an odd length included), the rest of the buffer stays, and exactly these words are read;
  a longer one is stored beyond the end of the buffer (the model has no result for it), since the length
  that the controller reports is not checked.\<close>

theorem packet_received:
  assumes "length (ethernet_rx_data s) = 2048"
  shows "let r = bus_reads s; n = sint (port (r + 3)); m = nat ((n + 1) div 2) in
    if LSB (port (r + 1)) \<noteq> 1 \<or> MSB (port (r + 2)) AND 0x3F \<noteq> 0
    then \<exists>s'. ethernet_recv port s = Some s' \<and> ethernet_rx_len s' = - 1 \<and> ethernet_rx_data s' = ethernet_rx_data s
    else if n \<le> 2048
    then \<exists>s'. ethernet_recv port s = Some s' \<and> ethernet_rx_len s' = n \<and>
      ethernet_rx_data s' = rx_bytes port (r + 4) m @ drop (2 * m) (ethernet_rx_data s) \<and> bus_reads s' = r + 4 + m
    else ethernet_recv port s = None"
proof -
  let ?r = "bus_reads s" and ?n = "sint (port (bus_reads s + 3))"
  let ?m = "nat ((?n + 1) div 2)"
  define t where "t = s\<lparr>bus_log := bus_log s @ [Addr DM9000_REG_MRCMDX, Addr DM9000_REG_MRCMDX1, Addr DM9000_REG_MRCMD],
    bus_reads := ?r + 4, ethernet_rx_len := ?n\<rparr>"
  have m: "(0x20 OR 0x10 OR 0x08 OR 0x04 OR 0x02 OR 0x01 :: u32) = 0x3F" by simp
  have e: "?r + 1 = Suc ?r" "?r + 2 = Suc (Suc ?r)" "?r + 3 = Suc (Suc (Suc ?r))" "?r + 4 = Suc (Suc (Suc (Suc ?r)))" by simp_all
  have unf: "ethernet_recv port s =
      (if LSB (port (?r + 1)) \<noteq> 1 then Some (s\<lparr>bus_log := bus_log s @ [Addr DM9000_REG_MRCMDX, Addr DM9000_REG_MRCMDX1],
           bus_reads := ?r + 2, ethernet_rx_len := - 1\<rparr>)
       else if MSB (port (?r + 2)) AND 0x3F \<noteq> 0 then Some (t\<lparr>ethernet_rx_len := - 1\<rparr>)
       else map_option (ethernet_write DM9000_REG_ISR 1) (recv_loop port 0 t))"
    unfolding ethernet_recv_def m t_def e
    by (simp add: ethernet_read_def write_addr_def read_data_def Let_def map_option_case split: option.splits bind_split)
  have loop: "recv_loop port 0 t = (if ?n \<le> 2048
      then Some (t\<lparr>ethernet_rx_data := rx_bytes port (?r + 4) ?m @ drop (2 * ?m) (ethernet_rx_data s), bus_reads := ?r + 4 + ?m\<rparr>)
      else None)"
  proof (cases "?n \<le> 0")
    case True
    then have "?m = 0" by simp
    then show ?thesis using True by (subst recv_loop.simps) (simp add: t_def)
  next
    case False
    then have b: "ethernet_rx_len t \<le> int 0 + 2 * int ?m" "int 0 + 2 * int ?m \<le> ethernet_rx_len t + 1" "?m \<noteq> 0"
      by (simp_all add: t_def)
    have "2 * nat ((n + 1) div 2) \<le> 2048 \<longleftrightarrow> n \<le> 2048" if "\<not> n \<le> 0" for n :: int
    proof -
      have "2 * nat k \<le> 2048 \<longleftrightarrow> k \<le> 1024" for k :: int by linarith
      moreover have "(n + 1) div 2 \<le> 1024 \<longleftrightarrow> n \<le> 2048" by presburger
      ultimately show ?thesis by simp
    qed
    from this [OF False] have "2 * ?m \<le> 2048 \<longleftrightarrow> ?n \<le> 2048" .
    then show ?thesis using recv_loop_words [OF b(1,2), of port] b(3) assms by (simp add: t_def)
  qed
  show ?thesis unfolding Let_def unf loop
    by (simp add: t_def ethernet_write_def write_addr_def write_data_def)
qed

text \<open>A packet of three bytes, and one of 3000 bytes.\<close>

theorem packet_received_witness:
  "(let s = example_net (example_packet 0 0); port = (\<lambda>k. if k = 1 then 1 else if k = 3 then 3 else if k = 2 then 0 else of_nat k + 0x4100) in
     \<exists>s'. ethernet_recv port s = Some s' \<and> ethernet_rx_len s' = 3 \<and> take 4 (ethernet_rx_data s') = [4, 0x41, 5, 0x41]) \<and>
   (let s = example_net (example_packet 0 0); port = (\<lambda>k. if k = 1 then 1 else if k = 3 then 3000 else 0) in
     ethernet_recv port s = None)"
proof -
  let ?s = "example_net (example_packet 0 0)"
  have l: "length (ethernet_rx_data ?s) = 2048" using example_net_ok(1) by (simp add: net_ok_def)
  have r: "bus_reads ?s = 0" by (simp add: example_net_def)
  show ?thesis
    using packet_received [OF l, of "\<lambda>k. if k = 1 then 1 else if k = 3 then 3 else if k = 2 then 0 else of_nat k + 0x4100"]
      packet_received [OF l, of "\<lambda>k. if k = 1 then 1 else if k = 3 then 3000 else 0"]
    unfolding Let_def r by (auto simp: LSB_def MSB_def rx_bytes_def)
qed

end
