(* ===== verification/Boot.thy ===== *)
theory Boot
  imports TrapProps Net
begin

text \<open>
  The interrupts that \<open>kern_init\<close> (\<^verbatim>\<open>kern/init/init.c\<close>) enables, and what the kernel does when one of them comes.
\<close>

unbundle bit_operations_syntax

text \<open>The calls of \<open>kern_init\<close> that set the mask of interrupts, in their order: \<open>cons_init\<close> enables the serial port before the controller is
  initialised. The others do not touch it.\<close>

definition serial_init :: "cp0 \<Rightarrow> cp0" where
  "serial_init c = pic_enable IRQ_COM1 c"

definition kern_init_interrupts :: "(nat \<Rightarrow> u32) \<Rightarrow> cp0 \<times> net \<Rightarrow> (cp0 \<times> net) option" where
  "kern_init_interrupts port = (\<lambda>(c, s).
     let c = serial_init c;
         c = pic_init c;
         c = clock_init c;
         c = intr_enable c
     in ethernet_init port (c, s))"

lemma enabled_interrupts:
  assumes "kern_init_interrupts port (c, s) = Some (c', s')" "irq_mask c = 0"
  shows "cp0_status c' = 0x8601"
proof -
  have "c' = pic_enable IRQ_ETH (intr_enable (clock_init (pic_init (serial_init c))))"
    using assms(1) by (auto simp: kern_init_interrupts_def ethernet_init_def Let_def bind_eq_Some_conv)
  then show ?thesis
    using assms(2) by (simp add: pic_enable_def pic_setmask_def pic_init_def clock_init_def intr_enable_def serial_init_def IRQ_COM1_def IRQ_ETH_def Let_def)
qed

text \<open>C29. The kernel enables the interrupt of the Ethernet controller at the end of its start and then stops when it comes: with the mask
  that \<open>kern_init\<close> leaves, an interrupt of the controller has no case in the dispatch, alone or with others. So does every
  pair of enabled interrupts that are pending at once, as the timer and the serial port.\<close>

theorem received_packet_stops_kernel:
  assumes "kern_init_interrupts port (c, s) = Some (c', s')" "irq_mask c = 0" "tf_Status tf AND 0xff00 = cp0_status c' AND 0xff00"
    and "bit (tf_Cause tf) (8 + IRQ_ETH) \<or> bit (tf_Cause tf) (8 + IRQ_TIMER) \<and> bit (tf_Cause tf) (8 + IRQ_COM1)"
  shows "int_dispatch e tf m = None"
proof -
  have m: "(0xff00 :: u32) = push_bit 8 (mask 8)" by (simp add: mask_eq_exp_minus_1)
  have st: "bit (tf_Status tf) k = bit (0x8601 :: u32) k" if "8 \<le> k" "k < 16" for k
  proof -
    have "bit (tf_Status tf AND 0xff00) k = bit (0x8601 AND 0xff00 :: u32) k"
      using assms(3) unfolding enabled_interrupts [OF assms(1,2)] by simp
    then show ?thesis using that unfolding m by (auto simp: bit_simps)
  qed
  have b: "bit (0x8601 :: u32) 9" "bit (0x8601 :: u32) 10" "bit (0x8601 :: u32) 15" by simp_all
  consider "bit (tf_Cause tf) 9" | "bit (tf_Cause tf) 15" "bit (tf_Cause tf) 10"
    using assms(4) by (auto simp: IRQ_ETH_def IRQ_TIMER_def IRQ_COM1_def)
  then show ?thesis
  proof cases
    case 1
    then show ?thesis using st [of 9] b pending_interrupt_stops [of 1 tf] by (simp add: IRQ_TIMER_def IRQ_COM1_def)
  next
    case 2
    then show ?thesis using st [of 15] st [of 10] b pending_interrupt_stops [of 7 tf 2] by (simp add: IRQ_TIMER_def IRQ_COM1_def)
  qed
qed

theorem received_packet_stops_kernel_witness:
  "\<forall>s e m. (\<exists>c' s'. kern_init_interrupts (\<lambda>_. 0) (\<lparr>cp0_status = 0x400000, cp0_compare = 0, irq_mask = 0, did_init = False, ticks = 0\<rparr>, s) = Some (c', s')) \<and>
     int_dispatch e (tf_zero\<lparr>tf_Cause := 0x200, tf_Status := 0x8603\<rparr>) m = None"
proof (intro allI)
  fix s e m
  let ?c = "\<lparr>cp0_status = 0x400000, cp0_compare = 0, irq_mask = 0, did_init = False, ticks = 0\<rparr> :: cp0"
  have poll: "poll_clear (\<lambda>_. 0) a b t = Some (snd (ethernet_read (\<lambda>_. 0) a t))" for a b t
    by (subst poll_clear.simps) (simp add: ethernet_read_def read_data_def split_def)
  have phy: "\<exists>u. phy_poll (\<lambda>_. 0) t = Some u" for t
    by (subst phy_poll.simps) (simp add: ethernet_phy_read_def poll ethernet_read_def read_data_def split_def Let_def)
  then obtain g where g: "phy_poll (\<lambda>_. 0) t = Some (g t)" for t by metis
  have "\<exists>c' s'. kern_init_interrupts (\<lambda>_. 0) (?c, s) = Some (c', s')"
    by (simp add: kern_init_interrupts_def ethernet_init_def ethernet_reset_def ethernet_phy_reset_def ethernet_phy_write_def poll g Let_def)
  then obtain c' s' where i: "kern_init_interrupts (\<lambda>_. 0) (?c, s) = Some (c', s')" by blast
  then have "cp0_status c' = 0x8601" by (rule enabled_interrupts) simp
  then have "int_dispatch e (tf_zero\<lparr>tf_Cause := 0x200, tf_Status := 0x8603\<rparr>) m = None"
    by (intro received_packet_stops_kernel [OF i]) (simp_all add: IRQ_ETH_def)
  with i show "(\<exists>c' s'. kern_init_interrupts (\<lambda>_. 0) (?c, s) = Some (c', s')) \<and>
     int_dispatch e (tf_zero\<lparr>tf_Cause := 0x200, tf_Status := 0x8603\<rparr>) m = None" by blast
qed

end
