(* ===== verification/MkSfs.thy ===== *)
theory MkSfs
  imports Sfs
begin

text \<open>
  The host tool \<^verbatim>\<open>tools/mksfs.c\<close>, which writes the disk image from which the kernel mounts its file
  system. The directory that it copies is a value of type \<open>hdir\<close>: what \<open>readdir\<close>, \<open>lstat\<close>, \<open>open\<close>,
  \<open>read\<close> and \<open>readlink\<close> return for each name. The image file is a map from block numbers to the bytes of the
  block. A cached block or inode is named by its place in the order of allocation. The tool exits on every error
  (\<open>bug\<close>, \<open>open_bug\<close>, \<open>assert\<close>): that is \<open>None\<close>. Messages and the freeing of memory are left out, \<open>malloc\<close>
  and \<open>pwrite\<close> succeed.
\<close>

unbundle bit_operations_syntax

section \<open>Constants and structures\<close>

definition MK_HASH_SHIFT :: nat where "MK_HASH_SHIFT = 10"

text \<open>The product is computed in 64 bits and kept in 32.\<close>

definition mk_hash32 :: "u32 \<Rightarrow> u32" where
  "mk_hash32 val = drop_bit (32 - MK_HASH_SHIFT) (val * 0x9e370001)"

definition hash64 :: "u64 \<Rightarrow> u32" where
  "hash64 val = drop_bit (32 - MK_HASH_SHIFT) (ucast val * 0x9e370001)"

definition MK_MAGIC :: u32 where "MK_MAGIC = 0x2f8dbe2a"
definition MK_NDIRECT :: u32 where "MK_NDIRECT = 12"
definition MK_BLKSIZE :: nat where "MK_BLKSIZE = 4096"
definition MK_MAX_NBLKS :: u32 where "MK_MAX_NBLKS = 1024 * 512"
definition MK_MAX_INFO_LEN :: nat where "MK_MAX_INFO_LEN = 31"
definition MK_MAX_FNAME_LEN :: nat where "MK_MAX_FNAME_LEN = 255"
definition MK_BLKBITS :: u32 where "MK_BLKBITS = 4096 * 8"
definition MK_TYPE_FILE :: u16 where "MK_TYPE_FILE = 1"
definition MK_TYPE_DIR :: u16 where "MK_TYPE_DIR = 2"
definition MK_TYPE_LINK :: u16 where "MK_TYPE_LINK = 3"
definition MK_BLKN_SUPER :: u32 where "MK_BLKN_SUPER = 0"
definition MK_BLKN_ROOT :: u32 where "MK_BLKN_ROOT = 1"
definition MK_BLKN_FREEMAP :: u32 where "MK_BLKN_FREEMAP = 2"
definition MK_BLK_NENTRY :: u32 where "MK_BLK_NENTRY = 1024"
definition MK_L0_NBLKS :: u32 where "MK_L0_NBLKS = MK_NDIRECT"
definition MK_L1_NBLKS :: u32 where "MK_L1_NBLKS = MK_BLK_NENTRY + MK_L0_NBLKS"
definition MK_L2_NBLKS :: u32 where "MK_L2_NBLKS = MK_BLK_NENTRY * MK_BLK_NENTRY + MK_L1_NBLKS"
definition MK_LN_NBLKS :: u32 where "MK_LN_NBLKS = 1024 * 1024 * 128 div 4096"

text \<open>The cache of a block is used as an array of block numbers.\<close>

record cache_block =
  cb_ino :: u32
  cb_cache :: "u32 list"

record mk_inode =
  mi_size :: u32
  mi_type :: u16
  mi_nlinks :: u16
  mi_blocks :: u32
  mi_direct :: "u32 list"
  mi_indirect :: u32
  mi_db_indirect :: u32

record cache_inode =
  ci_inode :: mk_inode
  ci_real :: u64
  ci_ino :: u32
  ci_nblks :: u32
  ci_l1 :: "nat option"
  ci_l2 :: "nat option"

text \<open>\<open>mk_inodes\<close> and \<open>mk_blocks\<close> are the hash lists, \<open>mk_subpath\<close> the list of path components, first the
  innermost. \<open>mk_entry\<close> is the name in the static entry of \<^verbatim>\<open>add_entry\<close>.\<close>

record mk_fs =
  mk_magic :: u32
  mk_nblocks :: u32
  mk_unused :: u32
  mk_info :: "u8 list"
  mk_subpath :: "u8 list list"
  mk_ninos :: u32
  mk_next_ino :: u32
  mk_root :: nat
  mk_inodes :: "nat \<Rightarrow> nat list"
  mk_blocks :: "nat \<Rightarrow> nat list"
  mk_cinodes :: "cache_inode list"
  mk_cblocks :: "cache_block list"
  mk_entry :: "u8 list"
  mk_img :: "u32 \<Rightarrow> u8 list"

definition upd_ci :: "nat \<Rightarrow> (cache_inode \<Rightarrow> cache_inode) \<Rightarrow> mk_fs \<Rightarrow> mk_fs" where
  "upd_ci f g s = s\<lparr>mk_cinodes := (mk_cinodes s)[f := g (mk_cinodes s ! f)]\<rparr>"

definition upd_cb :: "nat \<Rightarrow> (cache_block \<Rightarrow> cache_block) \<Rightarrow> mk_fs \<Rightarrow> mk_fs" where
  "upd_cb p g s = s\<lparr>mk_cblocks := (mk_cblocks s)[p := g (mk_cblocks s ! p)]\<rparr>"

section \<open>Allocation\<close>

definition sfs_alloc_ino :: "mk_fs \<Rightarrow> (u32 \<times> mk_fs) option" where
  "sfs_alloc_ino s =
     (if mk_next_ino s < mk_ninos s
      then Some (mk_next_ino s, s\<lparr>mk_unused := mk_unused s - 1, mk_next_ino := mk_next_ino s + 1\<rparr>) else None)"

text \<open>The block is entered under the hash of the argument, which is 0 when the number is allocated here.\<close>

definition alloc_cache_block :: "mk_fs \<Rightarrow> u32 \<Rightarrow> (nat \<times> mk_fs) option" where
  "alloc_cache_block s ino = do {
     (n, s) \<leftarrow> (if ino \<noteq> 0 then Some (ino, s) else sfs_alloc_ino s);
     let p = length (mk_cblocks s);
     let h = unat (mk_hash32 ino);
     Some (p, s\<lparr>mk_cblocks := mk_cblocks s @ [\<lparr>cb_ino = n, cb_cache = replicate 1024 0\<rparr>],
                mk_blocks := (mk_blocks s)(h := p # mk_blocks s h)\<rparr>) }"

definition search_cache_block :: "mk_fs \<Rightarrow> u32 \<Rightarrow> nat option" where
  "search_cache_block s ino = find (\<lambda>p. cb_ino (mk_cblocks s ! p) = ino) (mk_blocks s (unat (mk_hash32 ino)))"

definition alloc_cache_inode :: "mk_fs \<Rightarrow> u64 \<Rightarrow> u32 \<Rightarrow> u16 \<Rightarrow> (nat \<times> mk_fs) option" where
  "alloc_cache_inode s real ino type = do {
     (n, s) \<leftarrow> (if ino \<noteq> 0 then Some (ino, s) else sfs_alloc_ino s);
     let p = length (mk_cinodes s);
     let h = unat (hash64 real);
     let inode = \<lparr>mi_size = 0, mi_type = type, mi_nlinks = 0, mi_blocks = 0, mi_direct = replicate 12 0, mi_indirect = 0, mi_db_indirect = 0\<rparr>;
     Some (p, s\<lparr>mk_cinodes := mk_cinodes s @
                  [\<lparr>ci_inode = inode, ci_real = real, ci_ino = n, ci_nblks = 0, ci_l1 = None, ci_l2 = None\<rparr>],
                mk_inodes := (mk_inodes s)(h := p # mk_inodes s h)\<rparr>) }"

definition search_cache_inode :: "mk_fs \<Rightarrow> u64 \<Rightarrow> nat option" where
  "search_cache_inode s real = find (\<lambda>p. ci_real (mk_cinodes s ! p) = real) (mk_inodes s (unat (hash64 real)))"

text \<open>\<open>"simple file system"\<close>; what follows it in the field is the fresh memory \<open>junk\<close>.\<close>

definition mk_label :: "u8 list" where
  "mk_label = [115, 105, 109, 112, 108, 101, 32, 102, 105, 108, 101, 32, 115, 121, 115, 116, 101, 109]"

definition create_sfs :: "u64 \<Rightarrow> u8 list \<Rightarrow> (u32 \<Rightarrow> u8 list) \<Rightarrow> mk_fs option" where
  "create_sfs imgsize junk img = do {
     let ninos = ucast (imgsize div 4096);
     let ninos = (if ninos > MK_MAX_NBLKS then MK_MAX_NBLKS else ninos);
     let next_ino = MK_BLKN_FREEMAP + (ninos + MK_BLKBITS - 1) div MK_BLKBITS;
     kassert (\<not> next_ino \<ge> ninos);
     let s = \<lparr>mk_magic = MK_MAGIC, mk_nblocks = ninos, mk_unused = ninos - next_ino,
              mk_info = take (MK_MAX_INFO_LEN + 1) (mk_label @ [0] @ junk), mk_subpath = [],
              mk_ninos = ninos, mk_next_ino = next_ino, mk_root = 0, mk_inodes = (\<lambda>_. []), mk_blocks = (\<lambda>_. []),
              mk_cinodes = [], mk_cblocks = [], mk_entry = replicate 256 0, mk_img = img\<rparr>;
     (root, s) \<leftarrow> alloc_cache_inode s 0 MK_BLKN_ROOT MK_TYPE_DIR;
     Some (s\<lparr>mk_root := root\<rparr>) }"

definition subpath_push :: "mk_fs \<Rightarrow> u8 list \<Rightarrow> mk_fs" where
  "subpath_push s subname = s\<lparr>mk_subpath := subname # mk_subpath s\<rparr>"

definition subpath_pop :: "mk_fs \<Rightarrow> mk_fs option" where
  "subpath_pop s = do { kassert (mk_subpath s \<noteq> []); Some (s\<lparr>mk_subpath := tl (mk_subpath s)\<rparr>) }"

section \<open>Writing blocks\<close>

definition write_block :: "mk_fs \<Rightarrow> u8 list \<Rightarrow> u32 \<Rightarrow> mk_fs option" where
  "write_block s data ino = do {
     kassert (length data \<le> MK_BLKSIZE \<and> ino < mk_ninos s);
     let data = (if length data \<noteq> MK_BLKSIZE then data @ replicate (MK_BLKSIZE - length data) 0 else data);
     Some (s\<lparr>mk_img := (mk_img s)(ino := data)\<rparr>) }"

definition put_mk_inode :: "mk_inode \<Rightarrow> u8 list" where
  "put_mk_inode d = le32 (mi_size d) @ le16 (mi_type d) @ le16 (mi_nlinks d) @ le32 (mi_blocks d) @
     concat (map le32 (mi_direct d)) @ le32 (mi_indirect d) @ le32 (mi_db_indirect d)"

definition put_mk_super :: "mk_fs \<Rightarrow> u8 list" where
  "put_mk_super s = le32 (mk_magic s) @ le32 (mk_nblocks s) @ le32 (mk_unused s) @ mk_info s"

definition flush_cache_block :: "mk_fs \<Rightarrow> nat \<Rightarrow> mk_fs option" where
  "flush_cache_block s p = write_block s (concat (map le32 (cb_cache (mk_cblocks s ! p)))) (cb_ino (mk_cblocks s ! p))"

definition flush_cache_inode :: "mk_fs \<Rightarrow> nat \<Rightarrow> mk_fs option" where
  "flush_cache_inode s p = write_block s (put_mk_inode (ci_inode (mk_cinodes s ! p))) (ci_ino (mk_cinodes s ! p))"

text \<open>The words of the map for \<open>k\<close> indices from \<open>j\<close>.\<close>

fun mk_set_bits :: "u32 list \<Rightarrow> u32 \<Rightarrow> nat \<Rightarrow> u32 list" where
  "mk_set_bits data j 0 = data"
| "mk_set_bits data j (Suc k) =
     mk_set_bits (data[unat (j div 32) := data ! unat (j div 32) OR bit_mask (unat (j mod 32))]) (j + 1) k"

definition mk_freemap_block :: "u32 \<Rightarrow> u32 \<Rightarrow> u32 \<Rightarrow> u32 list" where
  "mk_freemap_block ninos next_ino i =
     (if i + MK_BLKBITS > next_ino then
        let start = (if i < next_ino then next_ino - i else 0);
            end = (if i + MK_BLKBITS > ninos then ninos - i else MK_BLKBITS)
        in mk_set_bits (replicate 1024 0) start (unat end - unat start)
      else replicate 1024 0)"

partial_function (option) close_freemap :: "mk_fs \<Rightarrow> u32 \<Rightarrow> u32 \<Rightarrow> mk_fs option" where
  "close_freemap s ino i =
     (if i < mk_ninos s then do {
        s \<leftarrow> write_block s (concat (map le32 (mk_freemap_block (mk_ninos s) (mk_next_ino s) i))) ino;
        close_freemap s (ino + 1) (i + MK_BLKBITS) }
      else Some s)"

fun flush_all :: "(mk_fs \<Rightarrow> nat \<Rightarrow> mk_fs option) \<Rightarrow> nat list \<Rightarrow> mk_fs \<Rightarrow> mk_fs option" where
  "flush_all fl [] s = Some s"
| "flush_all fl (p # ps) s = do { s \<leftarrow> fl s p; flush_all fl ps s }"

fun close_flush :: "nat list \<Rightarrow> mk_fs \<Rightarrow> mk_fs option" where
  "close_flush [] s = Some s"
| "close_flush (i # is) s = do {
     s \<leftarrow> flush_all flush_cache_block (mk_blocks s i) s;
     s \<leftarrow> flush_all flush_cache_inode (mk_inodes s i) s;
     close_flush is s }"

definition close_sfs :: "mk_fs \<Rightarrow> mk_fs option" where
  "close_sfs s = do {
     s \<leftarrow> close_freemap s MK_BLKN_FREEMAP 0;
     s \<leftarrow> write_block s (put_mk_super s) MK_BLKN_SUPER;
     close_flush [0 ..< 2 ^ MK_HASH_SHIFT] s }"

section \<open>Blocks of a file\<close>

text \<open>The results are \<open>*cbp\<close>, \<open>*inop\<close> and the state.\<close>

definition update_cache :: "mk_fs \<Rightarrow> nat option \<Rightarrow> u32 \<Rightarrow> (nat \<times> u32 \<times> mk_fs) option" where
  "update_cache s cbp ino =
     (if ino = 0 then do {
        (p, s) \<leftarrow> alloc_cache_block s 0;
        Some (p, cb_ino (mk_cblocks s ! p), s) }
      else
        (case cbp of
           Some p \<Rightarrow>
             if cb_ino (mk_cblocks s ! p) = ino then Some (p, ino, s)
             else do { p \<leftarrow> search_cache_block s ino; Some (p, ino, s) }
         | None \<Rightarrow> do { p \<leftarrow> search_cache_block s ino; Some (p, ino, s) }))"

definition append_block :: "mk_fs \<Rightarrow> nat \<Rightarrow> nat \<Rightarrow> u32 \<Rightarrow> mk_fs option" where
  "append_block s f sz ino = do {
     kassert (sz \<le> MK_BLKSIZE);
     let nblks = ci_nblks (mk_cinodes s ! f);
     kassert (\<not> nblks \<ge> MK_LN_NBLKS);
     s \<leftarrow>
       (if nblks < MK_L0_NBLKS then
          Some (upd_ci f (ci_inode_update (mi_direct_update (\<lambda>d. d[unat nblks := ino]))) s)
        else if nblks < MK_L1_NBLKS then do {
          let nblks = nblks - MK_L0_NBLKS;
          (p, n, s) \<leftarrow> update_cache s (ci_l1 (mk_cinodes s ! f)) (mi_indirect (ci_inode (mk_cinodes s ! f)));
          let s = upd_ci f (\<lambda>c. c\<lparr>ci_l1 := Some p, ci_inode := (ci_inode c)\<lparr>mi_indirect := n\<rparr>\<rparr>) s;
          Some (upd_cb p (cb_cache_update (\<lambda>c. c[unat nblks := ino])) s) }
        else if nblks < MK_L2_NBLKS then do {
          let nblks = nblks - MK_L1_NBLKS;
          let k = unat (nblks div MK_BLK_NENTRY);
          (q, n, s) \<leftarrow> update_cache s (ci_l2 (mk_cinodes s ! f)) (mi_db_indirect (ci_inode (mk_cinodes s ! f)));
          let s = upd_ci f (\<lambda>c. c\<lparr>ci_l2 := Some q, ci_inode := (ci_inode c)\<lparr>mi_db_indirect := n\<rparr>\<rparr>) s;
          (p, n, s) \<leftarrow> update_cache s (ci_l1 (mk_cinodes s ! f)) (cb_cache (mk_cblocks s ! q) ! k);
          let s = upd_ci f (\<lambda>c. c\<lparr>ci_l1 := Some p\<rparr>) (upd_cb q (cb_cache_update (\<lambda>c. c[k := n])) s);
          Some (upd_cb p (cb_cache_update (\<lambda>c. c[unat (nblks mod MK_BLK_NENTRY) := ino])) s) }
        else Some s);
     Some (upd_ci f (\<lambda>c. c\<lparr>ci_nblks := ci_nblks c + 1, ci_inode := (ci_inode c)
       \<lparr>mi_size := mi_size (ci_inode c) + of_nat sz, mi_blocks := mi_blocks (ci_inode c) + 1\<rparr>\<rparr>) s) }"

text \<open>\<open>strcpy\<close> into the static name leaves what follows the NUL. The 256 bytes that are written hold the number and
  the first 252 bytes of the name.\<close>

definition add_entry :: "mk_fs \<Rightarrow> nat \<Rightarrow> nat \<Rightarrow> u8 list \<Rightarrow> mk_fs option" where
  "add_entry s current file name = do {
     kassert (mi_type (ci_inode (mk_cinodes s ! current)) = MK_TYPE_DIR \<and> length name \<le> MK_MAX_FNAME_LEN);
     let s = s\<lparr>mk_entry := name @ [0] @ drop (length name + 1) (mk_entry s)\<rparr>;
     let entry = le32 (ci_ino (mk_cinodes s ! file)) @ mk_entry s;
     (entry_ino, s) \<leftarrow> sfs_alloc_ino s;
     s \<leftarrow> write_block s (take 256 entry) entry_ino;
     s \<leftarrow> append_block s current 256 entry_ino;
     Some (upd_ci file (ci_inode_update (mi_nlinks_update (\<lambda>n. n + 1))) s) }"

section \<open>The directory on the host\<close>

text \<open>\<open>HLink\<close>: the target, or a \<open>readlink\<close> that fails; \<open>HDir\<close>: whether \<open>opendir\<close> succeeds; \<open>HFile\<close>: what the calls of \<open>read\<close>
  return, and whether the last one returns 0 and not an error; \<open>HOther\<close>: another kind of file; \<open>HClosed\<close>: \<open>open\<close> fails. The first
  argument is \<open>st_ino\<close>.\<close>

datatype hnode = HLink u64 "u8 list option" | HDir u64 bool hdir | HFile u64 "u8 list list" bool | HOther | HClosed
  and hdir = DirEnd | DirEntry "u8 list" hnode hdir

fun open_file_loop :: "mk_fs \<Rightarrow> nat \<Rightarrow> u8 list list \<Rightarrow> nat \<Rightarrow> mk_fs option" where
  "open_file_loop s file [] prev = Some s"
| "open_file_loop s file (buffer # chunks) prev = do {
     kassert (prev = MK_BLKSIZE);
     (ino, s) \<leftarrow> sfs_alloc_ino s;
     s \<leftarrow> write_block s buffer ino;
     s \<leftarrow> append_block s file (length buffer) ino;
     open_file_loop s file chunks (length buffer) }"

text \<open>A \<open>read\<close> that fails enters the loop with the length \<open>- 1\<close> and fails the assertion of \<open>write_block\<close>.\<close>

definition open_file_img :: "mk_fs \<Rightarrow> nat \<Rightarrow> u8 list list \<Rightarrow> bool \<Rightarrow> mk_fs option" where
  "open_file_img s file chunks ok = do {
     s \<leftarrow> open_file_loop s file chunks MK_BLKSIZE;
     kassert ok;
     Some s }"

definition open_link :: "mk_fs \<Rightarrow> nat \<Rightarrow> u8 list option \<Rightarrow> mk_fs option" where
  "open_link s file target = do {
     (ino, s) \<leftarrow> sfs_alloc_ino s;
     buffer \<leftarrow> target;
     kassert (length buffer < MK_BLKSIZE);
     s \<leftarrow> write_block s buffer ino;
     append_block s file (length buffer) ino }"

definition add_file :: "mk_fs \<Rightarrow> nat \<Rightarrow> u8 list \<Rightarrow> u8 list list \<Rightarrow> bool \<Rightarrow> u64 \<Rightarrow> mk_fs option" where
  "add_file s current filename chunks ok real = do {
     (file, s) \<leftarrow>
       (case search_cache_inode s real of
          Some file \<Rightarrow> Some (file, s)
        | None \<Rightarrow> do {
            (file, s) \<leftarrow> alloc_cache_inode s real 0 MK_TYPE_FILE;
            s \<leftarrow> open_file_img s file chunks ok;
            Some (file, s) });
     add_entry s current file filename }"

definition add_link :: "mk_fs \<Rightarrow> nat \<Rightarrow> u8 list \<Rightarrow> u8 list option \<Rightarrow> u64 \<Rightarrow> mk_fs option" where
  "add_link s current filename target real = do {
     (file, s) \<leftarrow> alloc_cache_inode s real 0 MK_TYPE_LINK;
     s \<leftarrow> open_link s file target;
     add_entry s current file filename }"

text \<open>\<open>open_dir\<close> and \<open>add_dir\<close> call each other: \<open>body\<close> is the loop over the entries.\<close>

definition open_dir :: "mk_fs \<Rightarrow> nat \<Rightarrow> nat \<Rightarrow> bool \<Rightarrow> (nat \<Rightarrow> mk_fs \<Rightarrow> mk_fs option) \<Rightarrow> mk_fs option" where
  "open_dir s current parent ok body = do {
     kassert ok;
     s \<leftarrow> add_entry s current current [46];
     s \<leftarrow> add_entry s current parent [46, 46];
     body current s }"

definition add_dir :: "mk_fs \<Rightarrow> nat \<Rightarrow> u8 list \<Rightarrow> bool \<Rightarrow> (nat \<Rightarrow> mk_fs \<Rightarrow> mk_fs option) \<Rightarrow> u64 \<Rightarrow> mk_fs option" where
  "add_dir s parent dirname ok body real = do {
     kassert (search_cache_inode s real = None);
     (current, s) \<leftarrow> alloc_cache_inode s real 0 MK_TYPE_DIR;
     let s = subpath_push s dirname;
     s \<leftarrow> open_dir s current parent ok body;
     s \<leftarrow> subpath_pop s;
     add_entry s parent current dirname }"

fun open_entry :: "hnode \<Rightarrow> u8 list \<Rightarrow> nat \<Rightarrow> mk_fs \<Rightarrow> mk_fs option"
  and open_dir_loop :: "hdir \<Rightarrow> nat \<Rightarrow> mk_fs \<Rightarrow> mk_fs option" where
  "open_entry (HLink real target) name current s = add_link s current name target real"
| "open_entry (HDir real ok entries) name current s = add_dir s current name ok (open_dir_loop entries) real"
| "open_entry (HFile real chunks ok) name current s = add_file s current name chunks ok real"
| "open_entry HOther name current s = Some s"
| "open_entry HClosed name current s = None"
| "open_dir_loop DirEnd current s = Some s"
| "open_dir_loop (DirEntry name node rest) current s =
     (if take 1 name = [46] then open_dir_loop rest current s
      else do {
        kassert (length name \<le> MK_MAX_FNAME_LEN);
        s \<leftarrow> open_entry node name current s;
        open_dir_loop rest current s })"

text \<open>\<open>open_img\<close> and \<open>create_img\<close> on an image of \<open>imgsize\<close> bytes with the contents \<open>img\<close>: the home directory opens, and
  \<open>ok\<close> is whether \<open>opendir\<close> succeeds. The name of the image has to end in \<open>.img\<close>.\<close>

definition open_img :: "u8 list \<Rightarrow> u64 \<Rightarrow> u8 list \<Rightarrow> (u32 \<Rightarrow> u8 list) \<Rightarrow> mk_fs option" where
  "open_img imgname imgsize junk img = do {
     kassert (length imgname > 4 \<and> drop (length imgname - 4) imgname = [46, 105, 109, 103]);
     create_sfs imgsize junk img }"

definition create_img :: "mk_fs \<Rightarrow> bool \<Rightarrow> hdir \<Rightarrow> mk_fs option" where
  "create_img s ok home = do {
     s \<leftarrow> open_dir s (mk_root s) (mk_root s) ok (open_dir_loop home);
     close_sfs s }"

end
