(* ===== verification/MkSfsProps.thy ===== *)
theory MkSfsProps
  imports MkSfs SfsSpace SfsFs
begin

text \<open>
  What holds of the image builder: along the whole run the cached inodes and indirect blocks stay apart, and each file is the
  list of blocks appended to it (\<open>mk_inv\<close>, \<open>mk_step\<close>); the tree of the host directory is found on the image by the structures and the
  functions of the kernel (\<open>on_image\<close>).
\<close>

unbundle bit_operations_syntax

section \<open>Cached files\<close>

text \<open>\<open>mk_file s f\<close>: the blocks of the cached inode \<open>f\<close>, through its cached indirect block.\<close>

definition mk_file :: "mk_fs \<Rightarrow> nat \<Rightarrow> u32 list" where
  "mk_file s f = (let c = mk_cinodes s ! f in
     map (\<lambda>i. if i < 12 then mi_direct (ci_inode c) ! i else cb_cache (mk_cblocks s ! the (ci_l1 c)) ! (i - 12)) [0 ..< unat (ci_nblks c)])"

definition mk_inos :: "mk_fs \<Rightarrow> u32 list" where
  "mk_inos s = map ci_ino (mk_cinodes s) @ map cb_ino (mk_cblocks s)"

text \<open>The state of one cached inode.\<close>

definition ci_ok :: "u32 \<Rightarrow> mk_fs \<Rightarrow> nat \<Rightarrow> bool" where
  "ci_ok n0 s f \<longleftrightarrow> (let c = mk_cinodes s ! f; d = ci_inode c in
     length (mi_direct d) = 12 \<and> unat n0 + unat (ci_nblks c) \<le> unat (mk_next_ino s) \<and> mi_blocks d = ci_nblks c \<and>
     (mi_type d = MK_TYPE_DIR \<longrightarrow> mi_size d = 256 * mi_blocks d) \<and>
     (if ci_nblks c \<le> 12 then mi_indirect d = 0
      else \<exists>p. ci_l1 c = Some p \<and> p < length (mk_cblocks s) \<and> cb_ino (mk_cblocks s ! p) = mi_indirect d) \<and>
     (\<forall>b \<in> set (mk_file s f). n0 \<le> b \<and> b < mk_next_ino s \<and> b \<notin> set (mk_inos s)))"

text \<open>The invariant of the tool: \<open>n0\<close> is the first block behind the freemap. Two files do not share an indirect block, and
  the hash lists hold exactly what was allocated.\<close>

definition mk_counts :: "u32 \<Rightarrow> mk_fs \<Rightarrow> bool" where
  "mk_counts n0 s \<longleftrightarrow> 3 \<le> n0 \<and> n0 \<le> mk_next_ino s \<and> mk_next_ino s \<le> mk_ninos s \<and> mk_ninos s \<le> 1036 \<and>
     mk_unused s = mk_ninos s - mk_next_ino s \<and> mk_nblocks s = mk_ninos s \<and> mk_magic s = MK_MAGIC \<and> length (mk_entry s) = 256 \<and>
     distinct (mk_inos s) \<and> (\<forall>b \<in> set (mk_inos s). b = 1 \<or> n0 \<le> b \<and> b < mk_next_ino s)"

definition l1_apart :: "mk_fs \<Rightarrow> bool" where
  "l1_apart s \<longleftrightarrow> (\<forall>f < length (mk_cinodes s). \<forall>g < length (mk_cinodes s). f \<noteq> g \<longrightarrow> 12 < ci_nblks (mk_cinodes s ! f) \<longrightarrow>
     12 < ci_nblks (mk_cinodes s ! g) \<longrightarrow> ci_l1 (mk_cinodes s ! f) \<noteq> ci_l1 (mk_cinodes s ! g))"

definition chains_ok :: "mk_fs \<Rightarrow> bool" where
  "chains_ok s \<longleftrightarrow> (\<forall>p < length (mk_cblocks s). length (cb_cache (mk_cblocks s ! p)) = 1024 \<and> p \<in> set (mk_blocks s (unat (mk_hash32 0)))) \<and>
     (\<forall>h. \<forall>p \<in> set (mk_blocks s h). p < length (mk_cblocks s)) \<and>
     (\<forall>h. set (mk_inodes s h) = {f. f < length (mk_cinodes s) \<and> unat (hash64 (ci_real (mk_cinodes s ! f))) = h})"

definition mk_inv :: "u32 \<Rightarrow> mk_fs \<Rightarrow> bool" where
  "mk_inv n0 s \<longleftrightarrow> mk_counts n0 s \<and> (\<forall>f < length (mk_cinodes s). ci_ok n0 s f) \<and> l1_apart s \<and> chains_ok s"

lemma mk_invD:
  "mk_inv n0 s \<Longrightarrow> mk_counts n0 s" "mk_inv n0 s \<Longrightarrow> f < length (mk_cinodes s) \<Longrightarrow> ci_ok n0 s f"
  "mk_inv n0 s \<Longrightarrow> l1_apart s" "mk_inv n0 s \<Longrightarrow> chains_ok s"
  by (simp_all add: mk_inv_def)

lemma word_Suc: "(a :: u32) < b \<Longrightarrow> unat (a + 1) = Suc (unat a)"
  using unat_lt_u32 [of b] by (subst unat_add_lem [THEN iffD1]) (simp_all add: word_less_nat_alt)

lemma block_ge3: "3 \<le> n0 \<Longrightarrow> n0 \<le> b \<Longrightarrow> b \<noteq> 0 \<and> b \<noteq> 1 \<and> b \<noteq> (2 :: u32)"
  by (auto simp: word_le_nat_alt)

lemma alloc_ino_spec:
  assumes "mk_inv n0 s" "sfs_alloc_ino s = Some (b, s')"
  shows "b = mk_next_ino s \<and> mk_next_ino s < mk_next_ino s' \<and> unat (mk_next_ino s') = Suc (unat (mk_next_ino s)) \<and> mk_inv n0 s' \<and>
    s' = s\<lparr>mk_unused := mk_unused s - 1, mk_next_ino := mk_next_ino s + 1\<rparr> \<and> n0 \<le> b \<and> b \<notin> set (mk_inos s) \<and>
    (\<forall>f < length (mk_cinodes s). b \<notin> set (mk_file s f))"
proof -
  have lt: "mk_next_ino s < mk_ninos s" and s': "b = mk_next_ino s" "s' = s\<lparr>mk_unused := mk_unused s - 1, mk_next_ino := mk_next_ino s + 1\<rparr>"
    using assms(2) by (auto simp: sfs_alloc_ino_def split: if_splits)
  have u: "unat (mk_next_ino s + 1) = Suc (unat (mk_next_ino s))" by (rule word_Suc [OF lt])
  then have le: "mk_next_ino s < mk_next_ino s + 1" "mk_next_ino s + 1 \<le> mk_ninos s"
    using lt by (simp_all add: word_less_nat_alt word_le_nat_alt)
  have same: "mk_file s' f = mk_file s f" "mk_inos s' = mk_inos s" for f by (simp_all add: s' mk_file_def mk_inos_def Let_def)
  have n1: "mk_next_ino s \<noteq> 1" using mk_invD(1) [OF assms(1)] block_ge3 by (auto simp: mk_counts_def)
  have "mk_counts n0 s'" using mk_invD(1) [OF assms(1)] le by (auto simp: mk_counts_def same) (auto simp: s' intro: less_trans)
  moreover have "ci_ok n0 s' f" if "f < length (mk_cinodes s)" for f
    using mk_invD(2) [OF assms(1) that] le u by (auto simp: ci_ok_def same Let_def) (auto simp: s' intro: less_trans)
  moreover have "l1_apart s'" "chains_ok s'" using assms(1) by (simp_all add: mk_inv_def s' l1_apart_def chains_ok_def)
  ultimately have inv: "mk_inv n0 s'" by (simp add: mk_inv_def s')
  have "b \<notin> set (mk_file s f)" if "f < length (mk_cinodes s)" for f
    using mk_invD(2) [OF assms(1) that] s'(1) by (auto simp: ci_ok_def Let_def)
  moreover have "n0 \<le> b" "b \<notin> set (mk_inos s)" using mk_invD(1) [OF assms(1)] s'(1) n1 by (auto simp: mk_counts_def)
  ultimately show ?thesis using s' le u inv by simp
qed

section \<open>Frames\<close>

text \<open>\<open>mk_step M R s s'\<close>: between the states only the cached inodes in \<open>M\<close> and new ones changed, no block allocated before was written, and
  the host inodes \<open>R\<close> at most were added.\<close>

definition mk_step :: "nat set \<Rightarrow> u64 set \<Rightarrow> mk_fs \<Rightarrow> mk_fs \<Rightarrow> bool" where
  "mk_step M R s s' \<longleftrightarrow> length (mk_cinodes s) \<le> length (mk_cinodes s') \<and> mk_next_ino s \<le> mk_next_ino s' \<and> mk_ninos s' = mk_ninos s \<and>
     mk_info s' = mk_info s \<and> mk_root s' = mk_root s \<and> (\<forall>b < mk_next_ino s. mk_img s' b = mk_img s b) \<and>
     (\<forall>g < length (mk_cinodes s). ci_ino (mk_cinodes s' ! g) = ci_ino (mk_cinodes s ! g) \<and>
        mi_type (ci_inode (mk_cinodes s' ! g)) = mi_type (ci_inode (mk_cinodes s ! g)) \<and>
        (g \<notin> M \<longrightarrow> mk_cinodes s' ! g = mk_cinodes s ! g \<and> mk_file s' g = mk_file s g)) \<and>
     ci_real ` set (mk_cinodes s') \<subseteq> ci_real ` set (mk_cinodes s) \<union> R"

lemma mk_step_refl [simp]: "mk_step M R s s"
  by (auto simp: mk_step_def)

lemma mk_step_mono: "mk_step M R s s' \<Longrightarrow> M \<subseteq> M' \<Longrightarrow> R \<subseteq> R' \<Longrightarrow> mk_step M' R' s s'"
  unfolding mk_step_def by blast

lemma mk_step_trans:
  assumes "mk_step M R s s1" "mk_step M' R' s1 s2" "\<forall>g \<in> M'. g \<in> M \<or> length (mk_cinodes s) \<le> g"
  shows "mk_step M (R \<union> R') s s2"
proof -
  have "g \<notin> M'" if "g < length (mk_cinodes s)" "g \<notin> M" for g using that assms(3) by force
  moreover have "ci_real ` set (mk_cinodes s2) \<subseteq> ci_real ` set (mk_cinodes s) \<union> (R \<union> R')"
    using assms(1,2) unfolding mk_step_def by blast
  ultimately show ?thesis using assms(1,2) unfolding mk_step_def by (auto dest: less_le_trans)
qed

lemma mk_inv_upd:
  assumes inv: "mk_inv n0 s" and f: "f < length (mk_cinodes s)" and cs: "mk_cinodes s' = (mk_cinodes s)[f := c']"
    and c': "ci_ino c' = ci_ino (mk_cinodes s ! f)" "ci_real c' = ci_real (mk_cinodes s ! f)" "ci_ok n0 s' f"
    and cb: "map cb_ino (mk_cblocks s') = map cb_ino (mk_cblocks s)"
      "map (length \<circ> cb_cache) (mk_cblocks s') = map (length \<circ> cb_cache) (mk_cblocks s)"
    and eq: "mk_next_ino s' = mk_next_ino s" "mk_ninos s' = mk_ninos s" "mk_unused s' = mk_unused s" "mk_nblocks s' = mk_nblocks s"
      "mk_magic s' = mk_magic s" "mk_entry s' = mk_entry s" "mk_inodes s' = mk_inodes s" "mk_blocks s' = mk_blocks s"
    and fl: "\<And>g. g < length (mk_cinodes s) \<Longrightarrow> g \<noteq> f \<Longrightarrow> mk_file s' g = mk_file s g"
    and l1: "\<And>g. g < length (mk_cinodes s) \<Longrightarrow> g \<noteq> f \<Longrightarrow> 12 < ci_nblks (mk_cinodes s ! g) \<Longrightarrow> 12 < ci_nblks c' \<Longrightarrow>
      ci_l1 (mk_cinodes s ! g) \<noteq> ci_l1 c'"
  shows "mk_inv n0 s'"
proof -
  have len: "length (mk_cblocks s') = length (mk_cblocks s)" using cb(1) by (metis length_map)
  have at: "cb_ino (mk_cblocks s' ! p) = cb_ino (mk_cblocks s ! p) \<and> length (cb_cache (mk_cblocks s' ! p)) = length (cb_cache (mk_cblocks s ! p))"
    if "p < length (mk_cblocks s)" for p
    using arg_cong [OF cb(1), of "\<lambda>xs. xs ! p"] arg_cong [OF cb(2), of "\<lambda>xs. xs ! p"] that len by simp
  have "map ci_ino (mk_cinodes s') = map ci_ino (mk_cinodes s)" "map ci_real (mk_cinodes s') = map ci_real (mk_cinodes s)"
    using f c'(1,2) by (auto simp: cs map_update intro!: list_update_same_conv [THEN iffD2])
  then have inos: "mk_inos s' = mk_inos s" and reals: "ci_real (mk_cinodes s' ! g) = ci_real (mk_cinodes s ! g)" if "g < length (mk_cinodes s)" for g
    using cb(1) that f c'(2) by (simp_all add: mk_inos_def cs nth_list_update)
  have "mk_counts n0 s'" using mk_invD(1) [OF inv] f by (auto simp: mk_counts_def eq inos)
  moreover have "ci_ok n0 s' g" if "g < length (mk_cinodes s)" for g
  proof (cases "g = f")
    case False
    then show ?thesis using mk_invD(2) [OF inv that] fl [OF that False] at inos [OF f]
      by (auto simp: ci_ok_def Let_def cs eq len)
  qed (use c'(3) in simp)
  moreover have "l1_apart s'"
  proof -
    have "ci_l1 (mk_cinodes s' ! g) \<noteq> ci_l1 c'" if "g < length (mk_cinodes s)" "g \<noteq> f" "12 < ci_nblks (mk_cinodes s' ! g)" "12 < ci_nblks c'" for g
      using l1 that by (simp add: cs)
    then show ?thesis using mk_invD(3) [OF inv] f unfolding l1_apart_def cs length_list_update
      by (metis nth_list_update_eq nth_list_update_neq)
  qed
  moreover have "chains_ok s'" using mk_invD(4) [OF inv] at reals by (auto simp: chains_ok_def eq len cs)
  ultimately show ?thesis by (simp add: mk_inv_def cs)
qed

section \<open>Allocation\<close>

lemma inos_bound: "mk_inv n0 s \<Longrightarrow> b \<in> set (mk_inos s) \<Longrightarrow> b < mk_next_ino s"
  using block_ge3 [of n0 "mk_next_ino s"] unfolding mk_inv_def mk_counts_def
  by (auto simp: word_less_nat_alt word_le_nat_alt)

lemma ci_ok_l1:
  "ci_ok n0 s f \<Longrightarrow> 12 < ci_nblks (mk_cinodes s ! f) \<Longrightarrow> \<exists>p. ci_l1 (mk_cinodes s ! f) = Some p \<and> p < length (mk_cblocks s) \<and>
     cb_ino (mk_cblocks s ! p) = mi_indirect (ci_inode (mk_cinodes s ! f))"
  by (simp add: ci_ok_def Let_def leD)

lemma file_bound: "mk_inv n0 s \<Longrightarrow> f < length (mk_cinodes s) \<Longrightarrow> b \<in> set (mk_file s f) \<Longrightarrow> n0 \<le> b \<and> b < mk_next_ino s \<and> b \<notin> set (mk_inos s)"
  by (drule mk_invD(2)) (auto simp: ci_ok_def Let_def)

lemma length_mk_file [simp]: "length (mk_file s f) = unat (ci_nblks (mk_cinodes s ! f))"
  by (simp add: mk_file_def Let_def)

lemma mk_file_frame:
  "mk_cinodes s' ! f = mk_cinodes s ! f \<Longrightarrow>
   12 < ci_nblks (mk_cinodes s ! f) \<Longrightarrow> cb_cache (mk_cblocks s' ! the (ci_l1 (mk_cinodes s ! f))) = cb_cache (mk_cblocks s ! the (ci_l1 (mk_cinodes s ! f))) \<Longrightarrow>
   mk_file s' f = mk_file s f"
  by (simp add: mk_file_def Let_def)

lemma mk_file_small: "mk_cinodes s' ! f = mk_cinodes s ! f \<Longrightarrow> ci_nblks (mk_cinodes s ! f) \<le> 12 \<Longrightarrow> mk_file s' f = mk_file s f"
  by (auto simp: mk_file_def Let_def word_le_nat_alt)

text \<open>A new cached inode under the number \<open>b\<close> that was just allocated.\<close>

lemma alloc_cache_inode_spec:
  assumes inv: "mk_inv n0 s" and run: "alloc_cache_inode s real 0 type = Some (f, s')"
  shows "f = length (mk_cinodes s) \<and> mk_inv n0 s' \<and> mk_step {} {real} s s' \<and> length (mk_cinodes s') = Suc f \<and> mk_file s' f = [] \<and>
    mk_cinodes s' ! f = \<lparr>ci_inode = \<lparr>mi_size = 0, mi_type = type, mi_nlinks = 0, mi_blocks = 0, mi_direct = replicate 12 0,
      mi_indirect = 0, mi_db_indirect = 0\<rparr>, ci_real = real, ci_ino = mk_next_ino s, ci_nblks = 0, ci_l1 = None, ci_l2 = None\<rparr> \<and>
    mk_img s' = mk_img s"
proof -
  let ?c = "\<lparr>ci_inode = \<lparr>mi_size = 0, mi_type = type, mi_nlinks = 0, mi_blocks = 0, mi_direct = replicate 12 0,
      mi_indirect = 0, mi_db_indirect = 0\<rparr>, ci_real = real, ci_ino = mk_next_ino s, ci_nblks = 0, ci_l1 = None, ci_l2 = None\<rparr>"
  obtain b s1 where a: "sfs_alloc_ino s = Some (b, s1)" using run by (auto simp: alloc_cache_inode_def bind_eq_Some_conv)
  note al = alloc_ino_spec [OF inv a]
  let ?h = "unat (hash64 real)" and ?f = "length (mk_cinodes s)"
  have s': "f = ?f" "s' = s1\<lparr>mk_cinodes := mk_cinodes s @ [?c], mk_inodes := (mk_inodes s)(?h := ?f # mk_inodes s ?h)\<rparr>"
    using run a al by (auto simp: alloc_cache_inode_def Let_def)
  have sel: "mk_cinodes s1 = mk_cinodes s" "mk_cblocks s1 = mk_cblocks s" "mk_inodes s1 = mk_inodes s" "mk_img s1 = mk_img s"
    using al by simp_all
  have inv1: "mk_inv n0 s1" and lt: "mk_next_ino s < mk_next_ino s1" and fresh: "mk_next_ino s \<notin> set (mk_inos s)" "n0 \<le> mk_next_ino s"
    using al by (blast, blast, metis, metis)
  have inos: "mk_inos s1 = mk_inos s" by (simp add: mk_inos_def sel)
  have inos': "set (mk_inos s') = insert (mk_next_ino s) (set (mk_inos s))" "distinct (mk_inos s') = distinct (mk_next_ino s # mk_inos s)"
    by (auto simp: mk_inos_def s' sel)
  have fl: "mk_file s' g = mk_file s g" "mk_cinodes s' ! g = mk_cinodes s ! g" if "g < ?f" for g
    using that by (simp_all add: mk_file_def Let_def s' nth_append sel)
  have file1: "mk_file s1 g = mk_file s g" for g by (simp add: mk_file_def Let_def sel)
  have "mk_counts n0 s'" using mk_invD(1) [OF inv1] lt fresh unfolding mk_counts_def inos' inos
    by (auto simp: s')
  moreover have "ci_ok n0 s' g" if "g < Suc ?f" for g
  proof (cases "g = ?f")
    case True
    have "n0 \<le> mk_next_ino s1" using lt fresh by simp
    then show ?thesis using True by (simp add: ci_ok_def Let_def s' mk_file_def word_le_nat_alt)
  next
    case False
    then have g: "g < ?f" using that by simp
    have "b \<noteq> mk_next_ino s" if "b \<in> set (mk_file s g)" for b using file_bound [OF inv g that] by auto
    then show ?thesis using mk_invD(2) [OF inv1, of g] g fl [OF g]
      by (auto simp: ci_ok_def Let_def inos' inos sel file1) (auto simp: s' sel)
  qed
  moreover have "l1_apart s'" using mk_invD(3) [OF inv] by (auto simp: l1_apart_def s' nth_append less_Suc_eq)
  moreover have "chains_ok s'" using mk_invD(4) [OF inv1] by (auto simp: chains_ok_def s' sel nth_append less_Suc_eq)
  ultimately have "mk_inv n0 s'" by (simp add: mk_inv_def s')
  moreover have "mk_step {} {real} s s'"
    using al lt by (auto simp: mk_step_def fl) (auto simp: s' sel)
  moreover have "mk_file s' f = []" by (simp add: mk_file_def s' Let_def)
  ultimately show ?thesis using s' by (simp add: sel)
qed

text \<open>The cache block that \<open>update_cache\<close> allocates for the 13th block of a file.\<close>

lemma alloc_cache_block_spec:
  assumes inv: "mk_inv n0 s" and run: "alloc_cache_block s 0 = Some (p, s')"
  shows "p = length (mk_cblocks s) \<and> mk_inv n0 s' \<and> mk_cinodes s' = mk_cinodes s \<and> mk_next_ino s < mk_next_ino s' \<and>
    mk_cblocks s' = mk_cblocks s @ [\<lparr>cb_ino = mk_next_ino s, cb_cache = replicate 1024 0\<rparr>] \<and>
    mk_img s' = mk_img s \<and> mk_info s' = mk_info s \<and> mk_root s' = mk_root s \<and> mk_subpath s' = mk_subpath s \<and> mk_ninos s' = mk_ninos s \<and>
    mk_entry s' = mk_entry s \<and> (\<forall>g < length (mk_cinodes s). mk_file s' g = mk_file s g)"
proof -
  let ?b = "\<lparr>cb_ino = mk_next_ino s, cb_cache = replicate 1024 0\<rparr>"
  obtain b s1 where a: "sfs_alloc_ino s = Some (b, s1)" using run by (auto simp: alloc_cache_block_def bind_eq_Some_conv)
  note al = alloc_ino_spec [OF inv a]
  let ?h = "unat (mk_hash32 0)" and ?p = "length (mk_cblocks s)"
  have s': "p = ?p" "s' = s1\<lparr>mk_cblocks := mk_cblocks s @ [?b], mk_blocks := (mk_blocks s)(?h := ?p # mk_blocks s ?h)\<rparr>"
    using run a al by (auto simp: alloc_cache_block_def Let_def)
  have sel: "mk_cinodes s1 = mk_cinodes s" "mk_cblocks s1 = mk_cblocks s" "mk_blocks s1 = mk_blocks s" "mk_img s1 = mk_img s"
    "mk_info s1 = mk_info s" "mk_root s1 = mk_root s" "mk_subpath s1 = mk_subpath s" "mk_ninos s1 = mk_ninos s" "mk_entry s1 = mk_entry s"
    using al by simp_all
  have inv1: "mk_inv n0 s1" and lt: "mk_next_ino s < mk_next_ino s1" and fresh: "mk_next_ino s \<notin> set (mk_inos s)" "n0 \<le> mk_next_ino s"
    using al by (blast, blast, metis, metis)
  have inos: "mk_inos s1 = mk_inos s" by (simp add: mk_inos_def sel)
  have inos': "set (mk_inos s') = insert (mk_next_ino s) (set (mk_inos s))" "distinct (mk_inos s') = distinct (mk_next_ino s # mk_inos s)"
    by (auto simp: mk_inos_def s' sel)
  have file1: "mk_file s1 g = mk_file s g" for g by (simp add: mk_file_def Let_def sel)
  have old: "the (ci_l1 (mk_cinodes s ! g)) < ?p" if "g < length (mk_cinodes s)" "12 < ci_nblks (mk_cinodes s ! g)" for g
    using ci_ok_l1 [OF mk_invD(2) [OF inv that(1)] that(2)] by auto
  have fl: "mk_file s' g = mk_file s g" if g: "g < length (mk_cinodes s)" for g
  proof (cases "ci_nblks (mk_cinodes s ! g) \<le> 12")
    case False
    then show ?thesis using old [OF g] by (intro mk_file_frame) (simp_all add: s' sel nth_append)
  qed (rule mk_file_small, simp_all add: s' sel)
  have "mk_counts n0 s'" using mk_invD(1) [OF inv1] lt fresh unfolding mk_counts_def inos' inos
    by (auto simp: s')
  moreover have "ci_ok n0 s' g" if g: "g < length (mk_cinodes s)" for g
  proof -
    have "b \<noteq> mk_next_ino s" if "b \<in> set (mk_file s g)" for b using file_bound [OF inv g that] by auto
    then show ?thesis using mk_invD(2) [OF inv1, of g] g fl [OF g]
      by (auto simp: ci_ok_def Let_def inos' inos sel file1) (auto simp: s' sel nth_append)
  qed
  moreover have "l1_apart s'" using mk_invD(3) [OF inv] by (auto simp: l1_apart_def s' sel)
  moreover have "chains_ok s'" using mk_invD(4) [OF inv1] by (auto simp: chains_ok_def s' sel nth_append less_Suc_eq)
  ultimately have "mk_inv n0 s'" by (simp add: mk_inv_def s' sel)
  then show ?thesis using s' lt fl by (simp add: sel)
qed

section \<open>Appending a block\<close>

definition grow_ci :: "nat \<Rightarrow> cache_inode \<Rightarrow> cache_inode" where
  "grow_ci sz c = c\<lparr>ci_nblks := ci_nblks c + 1, ci_inode := (ci_inode c)
     \<lparr>mi_size := mi_size (ci_inode c) + of_nat sz, mi_blocks := mi_blocks (ci_inode c) + 1\<rparr>\<rparr>"

text \<open>What appending the block \<open>ino\<close> does to a file.\<close>

definition appended :: "nat \<Rightarrow> nat \<Rightarrow> u32 \<Rightarrow> mk_fs \<Rightarrow> mk_fs \<Rightarrow> bool" where
  "appended f sz ino s s' \<longleftrightarrow> mk_step {f} {} s s' \<and> length (mk_cinodes s') = length (mk_cinodes s) \<and> mk_img s' = mk_img s \<and>
     mk_entry s' = mk_entry s \<and> mk_file s' f = mk_file s f @ [ino] \<and>
     mi_size (ci_inode (mk_cinodes s' ! f)) = mi_size (ci_inode (mk_cinodes s ! f)) + of_nat sz \<and>
     mi_nlinks (ci_inode (mk_cinodes s' ! f)) = mi_nlinks (ci_inode (mk_cinodes s ! f)) \<and>
     ci_nblks (mk_cinodes s' ! f) = ci_nblks (mk_cinodes s ! f) + 1"

lemma image_update: "k < length xs \<Longrightarrow> g y = g (xs ! k) \<Longrightarrow> g ` set (xs[k := y]) = g ` set xs"
  by (metis list.set_map list_update_id map_update)

text \<open>The last updates of \<open>append_block\<close>: the inode, and for the blocks after the twelfth the cached indirect block \<open>p\<close>.\<close>

lemma append_direct:
  assumes inv: "mk_inv n0 s" and f: "f < length (mk_cinodes s)" and ino: "n0 \<le> ino" "ino < mk_next_ino s" "ino \<notin> set (mk_inos s)"
    and room: "unat n0 + unat (ci_nblks (mk_cinodes s ! f)) < unat (mk_next_ino s)" and small: "ci_nblks (mk_cinodes s ! f) < 12"
    and sz: "mi_type (ci_inode (mk_cinodes s ! f)) = MK_TYPE_DIR \<longrightarrow> sz = 256"
    and s': "s' = upd_ci f (grow_ci sz) (upd_ci f (ci_inode_update (mi_direct_update (\<lambda>d. d[unat (ci_nblks (mk_cinodes s ! f)) := ino]))) s)"
  shows "mk_inv n0 s' \<and> appended f sz ino s s'"
proof -
  let ?c = "mk_cinodes s ! f" and ?n = "unat (ci_nblks (mk_cinodes s ! f))"
  define c' where "c' = grow_ci sz (ci_inode_update (mi_direct_update (\<lambda>d. d[?n := ino])) ?c)"
  have s2: "s' = s\<lparr>mk_cinodes := (mk_cinodes s)[f := c']\<rparr>" using f by (simp add: s' upd_ci_def c'_def)
  have n: "?n < 12" "unat (ci_nblks ?c + 1) = Suc ?n" using small word_Suc [OF small] by (simp_all add: word_less_nat_alt)
  have ok: "ci_ok n0 s f" by (rule mk_invD(2) [OF inv f])
  then have d: "length (mi_direct (ci_inode ?c)) = 12" by (simp add: ci_ok_def Let_def)
  have fl: "mk_file s' f = mk_file s f @ [ino]"
  proof (rule nth_equalityI)
    show "length (mk_file s' f) = length (mk_file s f @ [ino])" using f n by (simp add: s2 c'_def grow_ci_def)
    fix i assume "i < length (mk_file s' f)"
    then have i: "i < Suc ?n" using f n by (simp add: s2 c'_def grow_ci_def)
    then show "mk_file s' f ! i = (mk_file s f @ [ino]) ! i"
      using n d f by (cases "i = ?n") (simp_all add: mk_file_def Let_def s2 c'_def grow_ci_def nth_append del: upt_Suc)
  qed
  have other: "mk_file s' g = mk_file s g" if "g \<noteq> f" for g using that by (simp add: mk_file_def Let_def s2)
  have inos: "mk_inos s' = mk_inos s" using f by (simp add: mk_inos_def s2 map_update c'_def grow_ci_def list_update_same_conv)
  have le: "ci_nblks ?c + 1 \<le> 12" using n by (simp add: word_le_nat_alt)
  have "ci_ok n0 s' f"
    using ok ino n room sz le small f unfolding ci_ok_def Let_def fl inos
    by (simp add: s2 c'_def grow_ci_def)
  then have "mk_inv n0 s'"
    using other le by (intro mk_inv_upd [OF inv f, where c' = c']) (auto simp: s2 c'_def grow_ci_def)
  moreover have "mk_step {f} {} s s'"
  proof -
    have r: "ci_real ` set ((mk_cinodes s)[f := c']) = ci_real ` set (mk_cinodes s)" by (intro image_update f) (simp add: c'_def grow_ci_def)
    show ?thesis using other f r by (auto simp: mk_step_def s2 nth_list_update) (simp_all add: c'_def grow_ci_def)
  qed
  ultimately show ?thesis using f fl by (simp add: appended_def s2 c'_def grow_ci_def)
qed

lemma append_indirect:
  assumes inv: "mk_inv n0 s" and f: "f < length (mk_cinodes s)" and ino: "n0 \<le> ino" "ino < mk_next_ino s" "ino \<notin> set (mk_inos s)"
    and room: "unat n0 + unat (ci_nblks (mk_cinodes s ! f)) < unat (mk_next_ino s)" and big: "12 \<le> ci_nblks (mk_cinodes s ! f)"
    and sz: "mi_type (ci_inode (mk_cinodes s ! f)) = MK_TYPE_DIR \<longrightarrow> sz = 256"
    and p: "p < length (mk_cblocks s)" "cb_ino (mk_cblocks s ! p) = n"
      "12 < ci_nblks (mk_cinodes s ! f) \<longrightarrow> ci_l1 (mk_cinodes s ! f) = Some p"
      "\<And>g. g < length (mk_cinodes s) \<Longrightarrow> g \<noteq> f \<Longrightarrow> 12 < ci_nblks (mk_cinodes s ! g) \<Longrightarrow> ci_l1 (mk_cinodes s ! g) \<noteq> Some p"
    and s': "s' = upd_ci f (grow_ci sz) (upd_cb p (cb_cache_update (\<lambda>c. c[unat (ci_nblks (mk_cinodes s ! f) - MK_L0_NBLKS) := ino]))
      (upd_ci f (\<lambda>c. c\<lparr>ci_l1 := Some p, ci_inode := (ci_inode c)\<lparr>mi_indirect := n\<rparr>\<rparr>) s))"
  shows "mk_inv n0 s' \<and> appended f sz ino s s'"
proof -
  let ?c = "mk_cinodes s ! f" and ?n = "unat (ci_nblks (mk_cinodes s ! f))"
  define c' where "c' = grow_ci sz (?c\<lparr>ci_l1 := Some p, ci_inode := (ci_inode ?c)\<lparr>mi_indirect := n\<rparr>\<rparr>)"
  have ok: "ci_ok n0 s f" by (rule mk_invD(2) [OF inv f])
  have n12: "12 \<le> ?n" using big by (simp add: word_le_nat_alt)
  have n: "unat (ci_nblks ?c - MK_L0_NBLKS) = ?n - 12" "?n < 1036"
  proof -
    show "unat (ci_nblks ?c - MK_L0_NBLKS) = ?n - 12" using big by (simp add: unat_sub MK_L0_NBLKS_def MK_NDIRECT_def)
    have "unat (mk_next_ino s) \<le> 1036" using mk_invD(1) [OF inv] by (auto simp: mk_counts_def word_le_nat_alt)
    then show "?n < 1036" using room by linarith
  qed
  have nn: "unat (ci_nblks ?c + 1) = Suc ?n" by (rule word_Suc [of _ 1036]) (use n in \<open>simp add: word_less_nat_alt\<close>)
  define b' where "b' = cb_cache_update (\<lambda>c. c[?n - 12 := ino]) (mk_cblocks s ! p)"
  have s2: "s' = s\<lparr>mk_cinodes := (mk_cinodes s)[f := c'], mk_cblocks := (mk_cblocks s)[p := b']\<rparr>"
    using f by (simp add: s' upd_ci_def upd_cb_def c'_def b'_def n)
  have d: "length (mi_direct (ci_inode ?c)) = 12" using ok by (simp add: ci_ok_def Let_def)
  have cl: "length (cb_cache (mk_cblocks s ! p)) = 1024" using mk_invD(4) [OF inv] p(1) by (simp add: chains_ok_def)
  have fl: "mk_file s' f = mk_file s f @ [ino]"
  proof (rule nth_equalityI)
    show "length (mk_file s' f) = length (mk_file s f @ [ino])" using f nn by (simp add: s2 c'_def grow_ci_def)
    fix i assume "i < length (mk_file s' f)"
    then have i: "i < Suc ?n" using f nn by (simp add: s2 c'_def grow_ci_def)
    have l1: "ci_l1 ?c = Some p" if "12 < ?n" using that p(3) by (simp add: word_less_nat_alt)
    show "mk_file s' f ! i = (mk_file s f @ [ino]) ! i"
    proof (cases "i = ?n")
      case True
      then show ?thesis using n12 n f nn cl p(1) by (simp add: mk_file_def Let_def s2 c'_def b'_def grow_ci_def nth_append del: upt_Suc)
    next
      case False
      then have "i < ?n" using i by simp
      then show ?thesis using n12 n f nn cl p(1) l1
        by (cases "i < 12") (simp_all add: mk_file_def Let_def s2 c'_def b'_def grow_ci_def nth_append del: upt_Suc)
    qed
  qed
  have other: "mk_file s' g = mk_file s g" if g: "g < length (mk_cinodes s)" "g \<noteq> f" for g
  proof (cases "ci_nblks (mk_cinodes s ! g) \<le> 12")
    case True
    then show ?thesis using g by (intro mk_file_small) (simp_all add: s2)
  next
    case False
    then have big: "12 < ci_nblks (mk_cinodes s ! g)" by simp
    then obtain q where "ci_l1 (mk_cinodes s ! g) = Some q" using ci_ok_l1 [OF mk_invD(2) [OF inv g(1)]] by blast
    moreover have "q \<noteq> p" using p(4) [OF g big] calculation by auto
    ultimately show ?thesis using g big by (intro mk_file_frame) (simp_all add: s2)
  qed
  have inos: "mk_inos s' = mk_inos s"
    using f p(1) by (simp add: mk_inos_def s2 map_update c'_def b'_def grow_ci_def list_update_same_conv)
  have gt: "\<not> ci_nblks ?c + 1 \<le> 12" using nn n12 by (simp add: word_le_nat_alt)
  have "ci_ok n0 s' f"
    using ok ino nn room sz gt f p(1,2) unfolding ci_ok_def Let_def fl inos
    by (simp add: s2 c'_def b'_def grow_ci_def)
  then have "mk_inv n0 s'"
    using other p(1,4) by (intro mk_inv_upd [OF inv f, where c' = c']) (auto simp: s2 c'_def b'_def grow_ci_def map_update list_update_same_conv)
  moreover have "mk_step {f} {} s s'"
  proof -
    have r: "ci_real ` set ((mk_cinodes s)[f := c']) = ci_real ` set (mk_cinodes s)" by (intro image_update f) (simp add: c'_def grow_ci_def)
    show ?thesis using other f r by (auto simp: mk_step_def s2 nth_list_update) (simp_all add: c'_def grow_ci_def)
  qed
  ultimately show ?thesis using f fl by (simp add: appended_def s2 c'_def grow_ci_def)
qed

lemma append_block_spec:
  assumes inv: "mk_inv n0 s" and f: "f < length (mk_cinodes s)" and ino: "n0 \<le> ino" "ino < mk_next_ino s" "ino \<notin> set (mk_inos s)"
    and room: "unat n0 + unat (ci_nblks (mk_cinodes s ! f)) < unat (mk_next_ino s)"
    and sz: "mi_type (ci_inode (mk_cinodes s ! f)) = MK_TYPE_DIR \<longrightarrow> sz = 256" and run: "append_block s f sz ino = Some s'"
  shows "mk_inv n0 s' \<and> appended f sz ino s s'"
proof -
  let ?c = "mk_cinodes s ! f"
  note mk_consts = MK_L0_NBLKS_def MK_NDIRECT_def MK_L1_NBLKS_def MK_BLK_NENTRY_def
  have "unat (mk_next_ino s) \<le> 1036" using mk_invD(1) [OF inv] by (auto simp: mk_counts_def word_le_nat_alt)
  then have n: "ci_nblks ?c < 1036" using room by (simp add: word_less_nat_alt)
  have ok: "ci_ok n0 s f" by (rule mk_invD(2) [OF inv f])
  show ?thesis
  proof (cases "ci_nblks ?c < 12")
    case True
    then have "s' = upd_ci f (grow_ci sz) (upd_ci f (ci_inode_update (mi_direct_update (\<lambda>d. d[unat (ci_nblks ?c) := ino]))) s)"
      using run by (simp add: append_block_def mk_consts grow_ci_def [abs_def] Let_def)
    then show ?thesis by (rule append_direct [OF inv f ino room True sz])
  next
    case False
    then have big: "12 \<le> ci_nblks ?c" by simp
    obtain p m s1 where u: "update_cache s (ci_l1 ?c) (mi_indirect (ci_inode ?c)) = Some (p, m, s1)"
      and s': "s' = upd_ci f (grow_ci sz) (upd_cb p (cb_cache_update (\<lambda>c. c[unat (ci_nblks ?c - MK_L0_NBLKS) := ino]))
        (upd_ci f (\<lambda>c. c\<lparr>ci_l1 := Some p, ci_inode := (ci_inode c)\<lparr>mi_indirect := m\<rparr>\<rparr>) s1))"
      using run False n by (auto simp: append_block_def mk_consts grow_ci_def [abs_def] Let_def bind_eq_Some_conv)
    show ?thesis
    proof (cases "ci_nblks ?c = 12")
      case True
      have "mi_indirect (ci_inode ?c) = 0" using ok True by (simp add: ci_ok_def Let_def)
      then have a: "alloc_cache_block s 0 = Some (p, s1)" "m = cb_ino (mk_cblocks s1 ! p)"
        using u by (auto simp: update_cache_def bind_eq_Some_conv)
      note al = alloc_cache_block_spec [OF inv a(1)]
      have cs: "mk_cinodes s1 = mk_cinodes s" and inv1: "mk_inv n0 s1" and nx: "mk_next_ino s < mk_next_ino s1"
        and p: "p = length (mk_cblocks s)" "mk_cblocks s1 = mk_cblocks s @ [\<lparr>cb_ino = mk_next_ino s, cb_cache = replicate 1024 0\<rparr>]"
        using al by blast+
      have "mk_inv n0 s' \<and> appended f sz ino s1 s'"
      proof (rule append_indirect [OF inv1 _ ino(1), where p = p and n = m])
        show "ino \<notin> set (mk_inos s1)" using ino by (auto simp: mk_inos_def cs p)
        show "ci_l1 (mk_cinodes s1 ! g) \<noteq> Some p" if "g < length (mk_cinodes s1)" "12 < ci_nblks (mk_cinodes s1 ! g)" for g
          using ci_ok_l1 [of n0 s g] mk_invD(2) [OF inv, of g] that by (auto simp: cs p)
        show "unat n0 + unat (ci_nblks (mk_cinodes s1 ! f)) < unat (mk_next_ino s1)" using room nx by (simp add: cs word_less_nat_alt)
      qed (use f ino nx big sz a True s' in \<open>auto simp: cs p(1) p(2)\<close>)
      moreover have "mk_step {f} {} s s1" "mk_img s1 = mk_img s" "mk_entry s1 = mk_entry s" "mk_file s1 f = mk_file s f"
        using al f by (auto simp: mk_step_def)
      ultimately show ?thesis using mk_step_trans [of "{f}" "{}" s s1 "{f}" "{}" s'] by (auto simp: appended_def cs)
    next
      case False
      then have gt: "12 < ci_nblks ?c" using big by simp
      then obtain q where q: "ci_l1 ?c = Some q" "q < length (mk_cblocks s)" "cb_ino (mk_cblocks s ! q) = mi_indirect (ci_inode ?c)"
        using ci_ok_l1 [OF ok] by blast
      have "cb_ino (mk_cblocks s ! q) \<in> set (mk_inos s)" using q(2) by (simp add: mk_inos_def)
      then have "mi_indirect (ci_inode ?c) \<noteq> 0"
        using mk_invD(1) [OF inv] q(3) block_ge3 [of n0] by (auto simp: mk_counts_def)
      then have u': "p = q" "m = mi_indirect (ci_inode ?c)" "s1 = s" using u q by (auto simp: update_cache_def)
      show ?thesis
      proof (rule append_indirect [OF inv f ino room big sz, where p = q and n = m])
        show "ci_l1 (mk_cinodes s ! g) \<noteq> Some q" if "g < length (mk_cinodes s)" "g \<noteq> f" "12 < ci_nblks (mk_cinodes s ! g)" for g
          using mk_invD(3) [OF inv] f gt q(1) that unfolding l1_apart_def by metis
      qed (use q u' s' in auto)
    qed
  qed
qed

section \<open>Directory entries\<close>

text \<open>\<open>pad data\<close>: what \<open>write_block\<close> writes. \<open>dent\<close>: the number and the name that the kernel reads from the block of an entry.\<close>

definition pad :: "u8 list \<Rightarrow> u8 list" where
  "pad data = data @ replicate (4096 - length data) 0"

definition dent :: "u8 list \<Rightarrow> u32 \<times> u8 list" where
  "dent bs = (let e = de_name_update (\<lambda>nm. nm[255 := 0]) (get_disk_entry (take 260 bs)) in (de_ino e, entry_name e))"

definition fdata :: "mk_fs \<Rightarrow> nat \<Rightarrow> u8 list list" where
  "fdata s f = map (mk_img s) (mk_file s f)"

lemma write_block_spec:
  "write_block s data ino = Some s' \<longleftrightarrow> length data \<le> 4096 \<and> ino < mk_ninos s \<and> s' = s\<lparr>mk_img := (mk_img s)(ino := pad data)\<rparr>"
  by (auto simp: write_block_def pad_def MK_BLKSIZE_def)

lemma take_while_name:
  assumes "length name \<le> 255" "(0 :: u8) \<notin> set name" "length buf = 256" "\<exists>r. buf = name @ 0 # r"
  shows "takeWhile (\<lambda>c. c \<noteq> 0) ((take 252 buf @ replicate 4 0)[255 := 0]) = take 252 name"
proof -
  obtain r where r: "buf = name @ 0 # r" using assms(4) by blast
  have u: "(take 252 buf @ replicate 4 0)[255 := 0] = take 252 buf @ replicate 4 0"
    using assms(3) by (subst list_update_same_conv) (auto simp: nth_append)
  show ?thesis
  proof (cases "length name < 252")
    case True
    then have "take 252 buf = name @ 0 # take (251 - length name) r" by (simp add: r take_Cons')
    then have "take 252 buf @ replicate 4 0 = name @ 0 # (take (251 - length name) r @ replicate 4 0)" by simp
    then show ?thesis unfolding u using assms(2) True by (simp, subst takeWhile_append2) auto
  next
    case False
    then have b: "take 252 buf = take 252 name" by (simp add: r)
    show ?thesis unfolding u unfolding b using assms(2) by (subst takeWhile_append2) (auto dest: in_set_takeD)
  qed
qed

lemma dent_entry:
  assumes "length name \<le> 255" "0 \<notin> set name" "length old = 256"
  shows "dent (pad (take 256 (le32 ino @ name @ [0] @ drop (length name + 1) old))) = (ino, take 252 name)"
proof -
  define buf where "buf = name @ 0 # drop (length name + 1) old"
  have l: "length buf = 256" using assms by (simp add: buf_def)
  have t: "take 256 (le32 ino @ buf) = le32 ino @ take 252 buf" by simp
  have b: "take 260 (pad (le32 ino @ take 252 buf)) = le32 ino @ take 252 buf @ replicate 4 0"
    using l by (simp add: pad_def)
  have "takeWhile (\<lambda>c. c \<noteq> 0) ((take 252 buf @ replicate 4 0)[255 := 0]) = take 252 name"
    using assms l by (intro take_while_name) (auto simp: buf_def)
  then have "dent (pad (take 256 (le32 ino @ buf))) = (ino, take 252 name)"
    using l unfolding dent_def get_disk_entry_def Let_def entry_name_def t b by simp
  then show ?thesis by (simp add: buf_def)
qed

text \<open>\<open>entries s f\<close>: the entries of a cached directory.\<close>

definition entries :: "mk_fs \<Rightarrow> nat \<Rightarrow> (u32 \<times> u8 list) list" where
  "entries s f = map dent (fdata s f)"

lemma fdata_step:
  "mk_inv n0 s \<Longrightarrow> mk_step M R s s' \<Longrightarrow> g < length (mk_cinodes s) \<Longrightarrow> mk_file s' g = mk_file s g \<Longrightarrow> fdata s' g = fdata s g"
  using file_bound [of n0 s g] by (auto simp: fdata_def mk_step_def)

lemma mk_other [simp]:
  "mk_file (s\<lparr>mk_img := x\<rparr>) f = mk_file s f" "mk_file (s\<lparr>mk_entry := e\<rparr>) f = mk_file s f" "mk_file (s\<lparr>mk_subpath := p\<rparr>) f = mk_file s f"
  "mk_inos (s\<lparr>mk_img := x\<rparr>) = mk_inos s" "mk_inos (s\<lparr>mk_entry := e\<rparr>) = mk_inos s" "mk_inos (s\<lparr>mk_subpath := p\<rparr>) = mk_inos s"
  by (simp_all add: mk_file_def mk_inos_def Let_def)

lemma mk_inv_other [simp]:
  "mk_inv n0 (s\<lparr>mk_img := x\<rparr>) = mk_inv n0 s" "length e = 256 \<Longrightarrow> mk_inv n0 s \<Longrightarrow> mk_inv n0 (s\<lparr>mk_entry := e\<rparr>)"
  "mk_inv n0 (s\<lparr>mk_subpath := p\<rparr>) = mk_inv n0 s"
  by (simp_all add: mk_inv_def mk_counts_def ci_ok_def l1_apart_def chains_ok_def Let_def)

text \<open>One block of data: allocated, written, appended. Files and directories grow by nothing else.\<close>

definition put_block :: "nat \<Rightarrow> u8 list \<Rightarrow> nat \<Rightarrow> mk_fs \<Rightarrow> mk_fs option" where
  "put_block f data sz s = do {
     (ino, s) \<leftarrow> sfs_alloc_ino s;
     s \<leftarrow> write_block s data ino;
     append_block s f sz ino }"

lemma put_block_spec:
  assumes inv: "mk_inv n0 s" and f: "f < length (mk_cinodes s)"
    and sz: "mi_type (ci_inode (mk_cinodes s ! f)) = MK_TYPE_DIR \<longrightarrow> sz = 256" and run: "put_block f data sz s = Some s'"
  shows "mk_inv n0 s' \<and> mk_step {f} {} s s' \<and> length (mk_cinodes s') = length (mk_cinodes s) \<and> mk_entry s' = mk_entry s \<and>
    fdata s' f = fdata s f @ [pad data] \<and> length data \<le> 4096 \<and>
    mi_size (ci_inode (mk_cinodes s' ! f)) = mi_size (ci_inode (mk_cinodes s ! f)) + of_nat sz \<and>
    mi_nlinks (ci_inode (mk_cinodes s' ! f)) = mi_nlinks (ci_inode (mk_cinodes s ! f))"
proof -
  obtain b s1 where a: "sfs_alloc_ino s = Some (b, s1)" using run by (auto simp: put_block_def bind_eq_Some_conv)
  note al = alloc_ino_spec [OF inv a]
  define s2 where "s2 = s1\<lparr>mk_img := (mk_img s1)(b := pad data)\<rparr>"
  have r: "length data \<le> 4096" "append_block s2 f sz b = Some s'"
    using run a by (auto simp: put_block_def bind_eq_Some_conv write_block_spec s2_def)
  have inv1: "mk_inv n0 s1" and s1: "b = mk_next_ino s" "mk_cinodes s1 = mk_cinodes s" "mk_cblocks s1 = mk_cblocks s" "mk_next_ino s < mk_next_ino s1"
      "unat (mk_next_ino s1) = Suc (unat (mk_next_ino s))" "n0 \<le> b" "b \<notin> set (mk_inos s)"
    and fr: "\<forall>f < length (mk_cinodes s). b \<notin> set (mk_file s f)"
    using al by (blast, auto)
  have same: "mk_file s2 g = mk_file s g" "mk_inos s2 = mk_inos s" "mk_cinodes s2 = mk_cinodes s" for g
    by (simp_all add: mk_file_def mk_inos_def s2_def s1 Let_def)
  have nx2: "mk_next_ino s2 = mk_next_ino s1" by (simp add: s2_def)
  have inv2: "mk_inv n0 s2" using inv1 by (simp add: s2_def)
  have step: "mk_step {} {} s s2" using al s1 by (auto simp: mk_step_def same) (auto simp: s2_def)
  have "mk_inv n0 s' \<and> appended f sz b s2 s'"
  proof (rule append_block_spec [OF inv2 _ _ _ _ _ _ r(2)])
    have "unat n0 + unat (ci_nblks (mk_cinodes s ! f)) \<le> unat (mk_next_ino s)"
      using mk_invD(2) [OF inv f] by (simp add: ci_ok_def Let_def)
    then show "unat n0 + unat (ci_nblks (mk_cinodes s2 ! f)) < unat (mk_next_ino s2)" using s1 by (simp add: same nx2)
  qed (use f sz s1 nx2 in \<open>auto simp: same\<close>)
  then have inv': "mk_inv n0 s'" and ap: "appended f sz b s2 s'" by blast+
  have step': "mk_step {f} {} s s'" using mk_step_trans [of "{f}" "{}" s s2 "{f}" "{}" s'] mk_step_mono [OF step, of "{f}" "{}"] ap
    by (auto simp: appended_def)
  have "map (mk_img s2) (mk_file s f) = map (mk_img s) (mk_file s f)" using step file_bound [OF inv f] by (auto simp: mk_step_def)
  moreover have "mk_file s' f = mk_file s f @ [b]" "mk_img s' = mk_img s2" using ap same(1) by (simp_all add: appended_def)
  moreover have "mk_img s2 b = pad data" by (simp add: s2_def)
  ultimately have "fdata s' f = fdata s f @ [pad data]" by (simp add: fdata_def)
  then show ?thesis using inv' step' ap r(1) al by (auto simp: appended_def same s2_def)
qed

text \<open>Counting a link.\<close>

definition count_link :: "nat \<Rightarrow> mk_fs \<Rightarrow> mk_fs" where
  "count_link f = upd_ci f (ci_inode_update (mi_nlinks_update (\<lambda>n. n + 1)))"

lemma count_link_spec:
  assumes inv: "mk_inv n0 s" and f: "f < length (mk_cinodes s)"
  shows "mk_inv n0 (count_link f s) \<and> mk_step {f} {} s (count_link f s) \<and> mk_file (count_link f s) g = mk_file s g \<and>
    mk_img (count_link f s) = mk_img s \<and> mk_cinodes (count_link f s) =
      (mk_cinodes s)[f := ci_inode_update (mi_nlinks_update (\<lambda>n. n + 1)) (mk_cinodes s ! f)]"
proof -
  let ?c = "ci_inode_update (mi_nlinks_update (\<lambda>n. n + 1)) (mk_cinodes s ! f)"
  have s': "count_link f s = s\<lparr>mk_cinodes := (mk_cinodes s)[f := ?c]\<rparr>" by (simp add: count_link_def upd_ci_def)
  have at: "mk_cinodes (count_link f s) ! g = (if g = f then ?c else mk_cinodes s ! g)" for g using f by (simp add: s')
  have fl: "mk_file (count_link f s) g = mk_file s g" for g by (simp add: mk_file_def Let_def at) (simp add: s')
  have inos: "mk_inos (count_link f s) = mk_inos s" using f by (simp add: mk_inos_def s' map_update list_update_same_conv)
  have "ci_ok n0 (count_link f s) f" using mk_invD(2) [OF inv f] unfolding ci_ok_def Let_def at fl inos by (simp add: s')
  moreover have "ci_l1 (mk_cinodes s ! g) \<noteq> ci_l1 ?c"
    if "g < length (mk_cinodes s)" "g \<noteq> f" "12 < ci_nblks (mk_cinodes s ! g)" "12 < ci_nblks ?c" for g
    using mk_invD(3) [OF inv] f that unfolding l1_apart_def by fastforce
  ultimately have "mk_inv n0 (count_link f s)"
    using fl by (intro mk_inv_upd [OF inv f, where c' = ?c]) (simp_all add: s')
  moreover have "ci_real ` set ((mk_cinodes s)[f := ?c]) = ci_real ` set (mk_cinodes s)" by (intro image_update f) simp
  then have "mk_step {f} {} s (count_link f s)" by (auto simp: mk_step_def at fl) (auto simp: s')
  ultimately show ?thesis using fl by (simp add: s')
qed

abbreviation nlinks :: "mk_fs \<Rightarrow> nat \<Rightarrow> u16" where
  "nlinks s f \<equiv> mi_nlinks (ci_inode (mk_cinodes s ! f))"
abbreviation fsize :: "mk_fs \<Rightarrow> nat \<Rightarrow> u32" where
  "fsize s f \<equiv> mi_size (ci_inode (mk_cinodes s ! f))"
abbreviation ftype :: "mk_fs \<Rightarrow> nat \<Rightarrow> u16" where
  "ftype s f \<equiv> mi_type (ci_inode (mk_cinodes s ! f))"
abbreviation nci :: "mk_fs \<Rightarrow> nat" where
  "nci s \<equiv> length (mk_cinodes s)"

lemma mk_stepD:
  assumes "mk_step M R s s'" "g < nci s"
  shows "ci_ino (mk_cinodes s' ! g) = ci_ino (mk_cinodes s ! g)" "ftype s' g = ftype s g" "g \<notin> M \<Longrightarrow> mk_cinodes s' ! g = mk_cinodes s ! g"
    "g \<notin> M \<Longrightarrow> mk_file s' g = mk_file s g" "g < nci s'"
  using assms by (auto simp: mk_step_def)

lemma mk_step_fdata: "mk_inv n0 s \<Longrightarrow> mk_step M R s s' \<Longrightarrow> g < nci s \<Longrightarrow> g \<notin> M \<Longrightarrow> fdata s' g = fdata s g"
  by (rule fdata_step [of n0 s M R]) (simp_all add: mk_stepD(4))

lemma add_entry_spec:
  assumes inv: "mk_inv n0 s" and cur: "cur < nci s" and f: "f < nci s" and name: "0 \<notin> set name" and run: "add_entry s cur f name = Some s'"
  shows "ftype s cur = MK_TYPE_DIR \<and> mk_inv n0 s' \<and> mk_step {cur, f} {} s s' \<and> nci s' = nci s \<and>
    entries s' cur = entries s cur @ [(ci_ino (mk_cinodes s ! f), take 252 name)] \<and>
    (\<forall>g < nci s. nlinks s' g = nlinks s g + (if g = f then 1 else 0) \<and> (g \<noteq> cur \<longrightarrow> fdata s' g = fdata s g \<and> fsize s' g = fsize s g))"
proof -
  define s1 where "s1 = s\<lparr>mk_entry := name @ [0] @ drop (length name + 1) (mk_entry s)\<rparr>"
  let ?data = "take 256 (le32 (ci_ino (mk_cinodes s ! f)) @ name @ [0] @ drop (length name + 1) (mk_entry s))"
  obtain s2 where ty: "ftype s cur = MK_TYPE_DIR" "length name \<le> 255" and r: "put_block cur ?data 256 s1 = Some s2" "s' = count_link f s2"
    using run by (auto simp: add_entry_def put_block_def bind_eq_Some_conv s1_def count_link_def MK_MAX_FNAME_LEN_def)
  have e: "length (mk_entry s) = 256" using mk_invD(1) [OF inv] by (simp add: mk_counts_def)
  have inv1: "mk_inv n0 s1" unfolding s1_def using inv e ty(2) by (intro mk_inv_other) simp_all
  have c1: "mk_cinodes s1 = mk_cinodes s" "mk_file s1 g = mk_file s g" "fdata s1 g = fdata s g" for g by (simp_all add: s1_def fdata_def)
  have st1: "mk_step {} {} s s1" by (auto simp: mk_step_def c1) (simp_all add: s1_def)
  note pb = put_block_spec [OF inv1, of cur 256, unfolded c1, OF cur _ r(1)]
  have inv2: "mk_inv n0 s2" and st2: "mk_step {cur} {} s1 s2" and n2: "nci s2 = nci s" and d2: "fdata s2 cur = fdata s cur @ [pad ?data]"
    "nlinks s2 cur = nlinks s cur" using pb by (simp_all add: c1)
  have f2: "f < nci s2" using f n2 by simp
  note cl = count_link_spec [OF inv2 f2, folded r(2)]
  have at: "mk_cinodes s' ! g = (if g = f then ci_inode_update (mi_nlinks_update (\<lambda>n. n + 1)) (mk_cinodes s2 ! g) else mk_cinodes s2 ! g)" for g
    using cl f2 by simp
  have fd: "fdata s' g = fdata s2 g" for g using cl by (simp add: fdata_def)
  have st: "mk_step {cur, f} {} s s'"
    using mk_step_trans [OF mk_step_mono [OF st1, of "{cur, f}" "{}"], OF _ _ mk_step_trans [OF mk_step_mono [OF st2, of "{cur, f}" "{}"], of "{f}" "{}" s']] cl
    by simp
  have keep: "fdata s2 g = fdata s g \<and> mk_cinodes s2 ! g = mk_cinodes s ! g" if "g < nci s" "g \<noteq> cur" for g
    using mk_step_fdata [OF inv1 st2, of g] mk_stepD(3) [OF st2, of g] that by (simp add: c1)
  have "nlinks s2 g = nlinks s g" if "g < nci s" for g using keep [OF that] d2(2) by (cases "g = cur") simp_all
  then have "\<forall>g < nci s. nlinks s' g = nlinks s g + (if g = f then 1 else 0) \<and> (g \<noteq> cur \<longrightarrow> fdata s' g = fdata s g \<and> fsize s' g = fsize s g)"
    using keep by (simp add: at fd)
  moreover have "dent (pad ?data) = (ci_ino (mk_cinodes s ! f), take 252 name)" by (rule dent_entry [OF ty(2) name e])
  then have "entries s' cur = entries s cur @ [(ci_ino (mk_cinodes s ! f), take 252 name)]" by (simp add: entries_def fd d2)
  ultimately show ?thesis using ty(1) cl st n2 by simp
qed

section \<open>The tree\<close>

definition hidden :: "u8 list \<Rightarrow> bool" where
  "hidden name \<longleftrightarrow> take 1 name = [46]"

fun subdirs :: "hdir \<Rightarrow> nat" where
  "subdirs DirEnd = 0"
| "subdirs (DirEntry name node rest) = (if hidden name then 0 else case node of HDir _ _ _ \<Rightarrow> 1 | _ \<Rightarrow> 0) + subdirs rest"

fun links :: "hnode \<Rightarrow> nat" where
  "links (HDir _ _ es) = 2 + subdirs es"
| "links _ = 1"

text \<open>The host inodes that the tool visits, and that no name has a NUL.\<close>

fun host_inodes :: "hnode \<Rightarrow> u64 list" and host_inodes_dir :: "hdir \<Rightarrow> u64 list" where
  "host_inodes (HLink real _) = [real]"
| "host_inodes (HDir real _ es) = real # host_inodes_dir es"
| "host_inodes (HFile real _ _) = [real]"
| "host_inodes HOther = []"
| "host_inodes HClosed = []"
| "host_inodes_dir DirEnd = []"
| "host_inodes_dir (DirEntry name node rest) = (if hidden name then [] else host_inodes node) @ host_inodes_dir rest"

fun names_ok :: "hnode \<Rightarrow> bool" and names_ok_dir :: "hdir \<Rightarrow> bool" where
  "names_ok (HDir _ _ es) \<longleftrightarrow> names_ok_dir es"
| "names_ok _ \<longleftrightarrow> True"
| "names_ok_dir DirEnd \<longleftrightarrow> True"
| "names_ok_dir (DirEntry name node rest) \<longleftrightarrow> 0 \<notin> set name \<and> names_ok node \<and> names_ok_dir rest"

definition full_but_last :: "u8 list list \<Rightarrow> bool" where
  "full_but_last cs \<longleftrightarrow> (\<forall>c \<in> set (butlast cs). length c = 4096) \<and> (\<forall>c \<in> set cs. length c \<le> 4096)"

text \<open>The cached inode \<open>f\<close>, with those in \<open>A\<close>, holds the node; its parent has the number \<open>par\<close>.\<close>

fun st_body :: "mk_fs \<Rightarrow> nat set \<Rightarrow> u32 \<Rightarrow> nat \<Rightarrow> hnode \<Rightarrow> bool"
  and st_entries :: "mk_fs \<Rightarrow> nat set \<Rightarrow> u32 \<Rightarrow> (u32 \<times> u8 list) list \<Rightarrow> hdir \<Rightarrow> bool" where
  "st_body s A par f (HLink real target) \<longleftrightarrow> ftype s f = MK_TYPE_LINK \<and>
     (\<exists>t. target = Some t \<and> length t \<le> 4096 \<and> fsize s f = of_nat (length t) \<and> fdata s f = [pad t])"
| "st_body s A par f (HFile real chunks ok) \<longleftrightarrow> ftype s f = MK_TYPE_FILE \<and> full_but_last chunks \<and>
     fsize s f = of_nat (length (concat chunks)) \<and> fdata s f = map pad chunks"
| "st_body s A par f (HDir real ok es) \<longleftrightarrow> ftype s f = MK_TYPE_DIR \<and>
     (\<exists>rest. entries s f = (ci_ino (mk_cinodes s ! f), [46]) # (par, [46, 46]) # rest \<and> st_entries s A (ci_ino (mk_cinodes s ! f)) rest es)"
| "st_body s A par f HOther \<longleftrightarrow> False"
| "st_body s A par f HClosed \<longleftrightarrow> False"
| "st_entries s A par rest DirEnd \<longleftrightarrow> rest = []"
| "st_entries s A par rest (DirEntry name node es) \<longleftrightarrow>
     (if hidden name \<or> node = HOther then st_entries s A par rest es
      else \<exists>g rest'. rest = (ci_ino (mk_cinodes s ! g), take 252 name) # rest' \<and> g \<in> A \<and> nlinks s g = of_nat (links node) \<and>
        st_body s A par g node \<and> st_entries s A par rest' es)"

lemma st_frame:
  "st_body s A par f node \<Longrightarrow> A \<subseteq> A' \<Longrightarrow> \<forall>g \<in> A. mk_cinodes s' ! g = mk_cinodes s ! g \<and> fdata s' g = fdata s g \<Longrightarrow>
   ci_ino (mk_cinodes s' ! f) = ci_ino (mk_cinodes s ! f) \<and> ftype s' f = ftype s f \<and> fsize s' f = fsize s f \<and> fdata s' f = fdata s f \<Longrightarrow>
   st_body s' A' par f node"
  "st_entries s A par rest es \<Longrightarrow> A \<subseteq> A' \<Longrightarrow> \<forall>g \<in> A. mk_cinodes s' ! g = mk_cinodes s ! g \<and> fdata s' g = fdata s g \<Longrightarrow>
   st_entries s' A' par rest es"
proof (induction node and es arbitrary: par f and par rest)
  case (DirEntry name node es)
  show ?case
  proof (cases "hidden name \<or> node = HOther")
    case True
    then show ?thesis using DirEntry by simp
  next
    case False
    then obtain g rest' where g: "rest = (ci_ino (mk_cinodes s ! g), take 252 name) # rest'" "g \<in> A" "nlinks s g = of_nat (links node)"
      "st_body s A par g node" "st_entries s A par rest' es" using DirEntry.prems(1) by auto
    have "st_body s' A' par g node" using DirEntry.IH(1) [OF g(4) DirEntry.prems(2,3)] DirEntry.prems(3) g(2) by simp
    moreover have "st_entries s' A' par rest' es" using DirEntry.IH(2) [OF g(5) DirEntry.prems(2,3)] by simp
    moreover have "g \<in> A'" using g(2) DirEntry.prems(2) by blast
    moreover have "mk_cinodes s' ! g = mk_cinodes s ! g" using DirEntry.prems(3) g(2) by blast
    ultimately show ?thesis using False g by (auto intro!: exI [of _ g])
  qed
qed (auto simp: entries_def)

lemma open_file_loop_put:
  "open_file_loop s file (buffer # chunks) prev = Some s' \<longleftrightarrow> prev = MK_BLKSIZE \<and>
     (\<exists>s1. put_block file buffer (length buffer) s = Some s1 \<and> open_file_loop s1 file chunks (length buffer) = Some s')"
  by (auto simp: put_block_def bind_eq_Some_conv)

lemma open_file_loop_spec:
  "mk_inv n0 s \<Longrightarrow> f < nci s \<Longrightarrow> ftype s f \<noteq> MK_TYPE_DIR \<Longrightarrow> open_file_loop s f chunks prev = Some s' \<Longrightarrow>
   mk_inv n0 s' \<and> mk_step {f} {} s s' \<and> nci s' = nci s \<and> fdata s' f = fdata s f @ map pad chunks \<and>
   fsize s' f = fsize s f + of_nat (length (concat chunks)) \<and> nlinks s' f = nlinks s f \<and> full_but_last chunks \<and>
   (chunks \<noteq> [] \<longrightarrow> prev = 4096)"
proof (induction chunks arbitrary: s prev)
  case Nil
  then show ?case by (simp add: full_but_last_def)
next
  case (Cons c cs)
  obtain s1 where r: "prev = 4096" "put_block f c (length c) s = Some s1" "open_file_loop s1 f cs (length c) = Some s'"
    using Cons.prems(4) unfolding open_file_loop_put by (auto simp: MK_BLKSIZE_def)
  have pb: "mk_inv n0 s1 \<and> mk_step {f} {} s s1 \<and> nci s1 = nci s \<and> mk_entry s1 = mk_entry s \<and>
      fdata s1 f = fdata s f @ [pad c] \<and> length c \<le> 4096 \<and> fsize s1 f = fsize s f + of_nat (length c) \<and> nlinks s1 f = nlinks s f"
    using Cons.prems(1-3) r(2) by (intro put_block_spec) auto
  have "ftype s1 f \<noteq> MK_TYPE_DIR" using pb mk_stepD(2) [of "{f}" "{}" s s1 f] Cons.prems(2,3) by simp
  then have IH: "mk_inv n0 s' \<and> mk_step {f} {} s1 s' \<and> nci s' = nci s1 \<and> fdata s' f = fdata s1 f @ map pad cs \<and>
     fsize s' f = fsize s1 f + of_nat (length (concat cs)) \<and> nlinks s' f = nlinks s1 f \<and> full_but_last cs \<and> (cs \<noteq> [] \<longrightarrow> length c = 4096)"
    using pb Cons.prems(2) by (intro Cons.IH [OF _ _ _ r(3)]) auto
  have "mk_step {f} {} s s'" using mk_step_trans [of "{f}" "{}" s s1 "{f}" "{}" s'] pb IH by simp
  moreover have "full_but_last (c # cs)" using IH pb by (auto simp: full_but_last_def)
  ultimately show ?case using pb IH r(1) by (simp add: add.assoc)
qed

text \<open>What adding an entry for the new cached inode \<open>f\<close>, which holds the node, does to the directory.\<close>

definition added :: "u32 \<Rightarrow> hnode \<Rightarrow> nat \<Rightarrow> u8 list \<Rightarrow> mk_fs \<Rightarrow> mk_fs \<Rightarrow> bool" where
  "added n0 node cur name s s' \<longleftrightarrow> mk_inv n0 s' \<and> mk_step {cur} (set (host_inodes node)) s s' \<and>
     nlinks s' cur = nlinks s cur + of_nat (case node of HDir _ _ _ \<Rightarrow> 1 | _ \<Rightarrow> 0) \<and>
     (if node = HOther then s' = s
      else \<exists>f \<in> {nci s ..< nci s'}. entries s' cur = entries s cur @ [(ci_ino (mk_cinodes s' ! f), take 252 name)] \<and>
        nlinks s' f = of_nat (links node) \<and> st_body s' {nci s ..< nci s'} (ci_ino (mk_cinodes s' ! cur)) f node)"

lemma added_entry:
  assumes inv: "mk_inv n0 s1" and step: "mk_step {cur} R s s1" and R: "R \<subseteq> set (host_inodes node)" and cur: "cur < nci s"
    and f: "f = nci s" "f < nci s1" and ent: "entries s1 cur = entries s cur"
      "nlinks s1 cur = nlinks s cur + of_nat (case node of HDir _ _ _ \<Rightarrow> 1 | _ \<Rightarrow> 0)"
    and body: "st_body s1 {Suc f ..< nci s1} (ci_ino (mk_cinodes s ! cur)) f node" "nlinks s1 f + 1 = of_nat (links node)" "node \<noteq> HOther"
    and name: "0 \<notin> set name" and run: "add_entry s1 cur f name = Some s'"
  shows "added n0 node cur name s s'"
proof -
  have cur1: "cur < nci s1" using cur step by (simp add: mk_step_def)
  note ae = add_entry_spec [OF inv cur1 f(2) name run]
  have st: "mk_step {cur} (set (host_inodes node)) s s'"
    using mk_step_mono [OF mk_step_trans [OF step, of "{cur, f}" "{}" s'], of "{cur}" "set (host_inodes node)"] ae f R by auto
  have st2: "mk_step {cur, f} {} s1 s'" using ae by blast
  have nf: "cur \<noteq> f" using cur f(1) by simp
  have "st_body s' {nci s ..< nci s'} (ci_ino (mk_cinodes s ! cur)) f node"
  proof (rule st_frame(1) [OF body(1)])
    show "{Suc f ..< nci s1} \<subseteq> {nci s ..< nci s'}" using ae f by auto
    show "\<forall>g \<in> {Suc f ..< nci s1}. mk_cinodes s' ! g = mk_cinodes s1 ! g \<and> fdata s' g = fdata s1 g"
    proof
      fix g assume "g \<in> {Suc f ..< nci s1}"
      then have "g < nci s1" "g \<notin> {cur, f}" using cur f(1) by auto
      then show "mk_cinodes s' ! g = mk_cinodes s1 ! g \<and> fdata s' g = fdata s1 g"
        using mk_stepD(3) [OF st2] mk_step_fdata [OF inv st2] by blast
    qed
    show "ci_ino (mk_cinodes s' ! f) = ci_ino (mk_cinodes s1 ! f) \<and> ftype s' f = ftype s1 f \<and> fsize s' f = fsize s1 f \<and> fdata s' f = fdata s1 f"
      using mk_stepD(1,2) [OF st2 f(2)] ae f(2) nf by metis
  qed
  moreover have "ci_ino (mk_cinodes s' ! cur) = ci_ino (mk_cinodes s ! cur)" using mk_stepD(1) [OF st cur] .
  moreover have "nlinks s' f = of_nat (links node)" "nlinks s' cur = nlinks s1 cur" using ae f(2) cur1 nf body(2) by simp_all
  moreover have "entries s' cur = entries s cur @ [(ci_ino (mk_cinodes s' ! f), take 252 name)]"
    using ae ent(1) mk_stepD(1) [OF st2 f(2)] by simp
  moreover have "f \<in> {nci s ..< nci s'}" using ae f by simp
  ultimately show ?thesis using ae st ent(2) body(3) unfolding added_def by auto
qed

lemma search_none: "mk_inv n0 s \<Longrightarrow> real \<notin> ci_real ` set (mk_cinodes s) \<Longrightarrow> search_cache_inode s real = None"
  by (auto simp: search_cache_inode_def find_None_iff dest!: mk_invD(4)) (auto simp: chains_ok_def)

lemma added_skip: "added n0 node cur name s s' \<Longrightarrow> node = HOther \<Longrightarrow> s' = s"
  by (simp add: added_def)

text \<open>What the loop over the entries of a directory does to it.\<close>

definition looped :: "u32 \<Rightarrow> hdir \<Rightarrow> nat \<Rightarrow> mk_fs \<Rightarrow> mk_fs \<Rightarrow> bool" where
  "looped n0 es cur s s' \<longleftrightarrow> mk_inv n0 s' \<and> mk_step {cur} (set (host_inodes_dir es)) s s' \<and>
     nlinks s' cur = nlinks s cur + of_nat (subdirs es) \<and>
     (\<exists>rest. entries s' cur = entries s cur @ rest \<and> st_entries s' {nci s ..< nci s'} (ci_ino (mk_cinodes s ! cur)) rest es)"

lemma open_link_spec:
  assumes inv: "mk_inv n0 s" and f: "f < nci s" "ftype s f = MK_TYPE_LINK" and run: "open_link s f target = Some s'"
  shows "\<exists>t. target = Some t \<and> length t \<le> 4096 \<and> mk_inv n0 s' \<and> mk_step {f} {} s s' \<and> nci s' = nci s \<and> fdata s' f = fdata s f @ [pad t] \<and>
    fsize s' f = fsize s f + of_nat (length t) \<and> nlinks s' f = nlinks s f"
proof -
  obtain t where t: "target = Some t" "put_block f t (length t) s = Some s'"
    using run by (auto simp: open_link_def put_block_def bind_eq_Some_conv)
  have "ftype s f = MK_TYPE_DIR \<longrightarrow> length t = 256" using f(2) by (simp add: MK_TYPE_LINK_def MK_TYPE_DIR_def)
  then show ?thesis using put_block_spec [OF inv f(1) _ t(2)] t(1) by auto
qed

text \<open>A new inode of the tool, before anything is written to it.\<close>

lemma new_inode:
  assumes inv: "mk_inv n0 s" and run: "alloc_cache_inode s real 0 type = Some (f, s')"
  shows "f = nci s" "mk_inv n0 s'" "mk_step {} {real} s s'" "nci s' = Suc f" "ftype s' f = type" "fdata s' f = []" "fsize s' f = 0" "nlinks s' f = 0"
    "g < nci s \<Longrightarrow> mk_cinodes s' ! g = mk_cinodes s ! g \<and> fdata s' g = fdata s g"
  using alloc_cache_inode_spec [OF inv run] mk_stepD(3) [of "{}" "{real}" s s' g] mk_step_fdata [OF inv, of "{}" "{real}" s' g]
  by (auto simp: fdata_def)

lemma link_added:
  assumes inv: "mk_inv n0 s" and cur: "cur < nci s" and name: "0 \<notin> set name" and run: "add_link s cur name target real = Some s'"
  shows "added n0 (HLink real target) cur name s s'"
proof -
  obtain f s1 s2 where r: "alloc_cache_inode s real 0 MK_TYPE_LINK = Some (f, s1)" "open_link s1 f target = Some s2" "add_entry s2 cur f name = Some s'"
    using run by (auto simp: add_link_def bind_eq_Some_conv)
  note n = new_inode [OF inv r(1)]
  obtain t where o: "target = Some t" "length t \<le> 4096" "mk_inv n0 s2" "mk_step {f} {} s1 s2" "nci s2 = nci s1" "fdata s2 f = [pad t]"
    "fsize s2 f = of_nat (length t)" "nlinks s2 f = 0"
    using open_link_spec [OF n(2) _ n(5) r(2)] n by auto
  have st: "mk_step {cur} {real} s s2"
    using mk_step_mono [OF mk_step_trans [OF n(3) o(4)], of "{cur}" "{real}"] n(1) by simp
  have ne: "cur \<noteq> f" "cur < nci s1" using cur n(1,4) by auto
  have k: "mk_cinodes s2 ! cur = mk_cinodes s ! cur" "fdata s2 cur = fdata s cur"
    using mk_stepD(3) [OF o(4), of cur] mk_step_fdata [OF n(2) o(4), of cur] n(9) [OF cur] ne by simp_all
  show ?thesis
  proof (rule added_entry [OF o(3) st _ cur n(1) _ _ _ _ _ _ name r(3)])
    show "st_body s2 {Suc f ..< nci s2} (ci_ino (mk_cinodes s ! cur)) f (HLink real target)"
      using o n mk_stepD(2) [OF o(4), of f] by simp
  qed (use o n k in \<open>auto simp: entries_def\<close>)
qed

lemma file_added:
  assumes inv: "mk_inv n0 s" and cur: "cur < nci s" and name: "0 \<notin> set name" and new: "real \<notin> ci_real ` set (mk_cinodes s)"
    and run: "add_file s cur name chunks ok real = Some s'"
  shows "added n0 (HFile real chunks ok) cur name s s'"
proof -
  obtain f s1 s2 where r: "alloc_cache_inode s real 0 MK_TYPE_FILE = Some (f, s1)" "open_file_loop s1 f chunks MK_BLKSIZE = Some s2"
      "add_entry s2 cur f name = Some s'"
    using run by (auto simp: add_file_def open_file_img_def search_none [OF inv new] bind_eq_Some_conv)
  note n = new_inode [OF inv r(1)]
  have "ftype s1 f \<noteq> MK_TYPE_DIR" using n(5) by (simp add: MK_TYPE_FILE_def MK_TYPE_DIR_def)
  then have o: "mk_inv n0 s2" "mk_step {f} {} s1 s2" "nci s2 = nci s1" "fdata s2 f = map pad chunks"
    "fsize s2 f = of_nat (length (concat chunks))" "nlinks s2 f = 0" "full_but_last chunks"
    using open_file_loop_spec [OF n(2) _ _ r(2)] n by auto
  have st: "mk_step {cur} {real} s s2"
    using mk_step_mono [OF mk_step_trans [OF n(3) o(2)], of "{cur}" "{real}"] n(1) by simp
  have ne: "cur \<noteq> f" "cur < nci s1" using cur n(1,4) by auto
  have k: "mk_cinodes s2 ! cur = mk_cinodes s ! cur" "fdata s2 cur = fdata s cur"
    using mk_stepD(3) [OF o(2), of cur] mk_step_fdata [OF n(2) o(2), of cur] n(9) [OF cur] ne by simp_all
  show ?thesis
  proof (rule added_entry [OF o(1) st _ cur n(1) _ _ _ _ _ _ name r(3)])
    show "st_body s2 {Suc f ..< nci s2} (ci_ino (mk_cinodes s ! cur)) f (HFile real chunks ok)"
      using o n mk_stepD(2) [OF o(2), of f] by simp
  qed (use o n k in \<open>auto simp: entries_def\<close>)
qed

lemma mk_step_subpath [simp]:
  "mk_step M R (s\<lparr>mk_subpath := p\<rparr>) t = mk_step M R s t" "mk_step M R s (t\<lparr>mk_subpath := p\<rparr>) = mk_step M R s t"
  "fdata (s\<lparr>mk_subpath := p\<rparr>) f = fdata s f" "entries (s\<lparr>mk_subpath := p\<rparr>) f = entries s f"
  by (simp_all add: mk_step_def fdata_def entries_def)

text \<open>The two first entries of a directory \<open>f\<close> with the parent \<open>par\<close>.\<close>

lemma dots_spec:
  assumes inv: "mk_inv n0 s" and f: "f < nci s" "par < nci s"
    and run: "add_entry s f f [46] = Some s1" "add_entry s1 f par [46, 46] = Some s2"
  shows "mk_inv n0 s2 \<and> mk_step {f, par} {} s s2 \<and> nci s2 = nci s \<and> ftype s f = MK_TYPE_DIR \<and>
    entries s2 f = entries s f @ [(ci_ino (mk_cinodes s ! f), [46]), (ci_ino (mk_cinodes s ! par), [46, 46])] \<and>
    (\<forall>g < nci s. nlinks s2 g = nlinks s g + (if g = f then 1 else 0) + (if g = par then 1 else 0) \<and>
       (g \<noteq> f \<longrightarrow> fdata s2 g = fdata s g))"
proof -
  have a: "ftype s f = MK_TYPE_DIR \<and> mk_inv n0 s1 \<and> mk_step {f, f} {} s s1 \<and> nci s1 = nci s \<and>
    entries s1 f = entries s f @ [(ci_ino (mk_cinodes s ! f), take 252 [46])] \<and>
    (\<forall>g < nci s. nlinks s1 g = nlinks s g + (if g = f then 1 else 0) \<and> (g \<noteq> f \<longrightarrow> fdata s1 g = fdata s g \<and> fsize s1 g = fsize s g))"
    using f by (intro add_entry_spec [OF inv _ _ _ run(1)]) simp_all
  have b: "ftype s1 f = MK_TYPE_DIR \<and> mk_inv n0 s2 \<and> mk_step {f, par} {} s1 s2 \<and> nci s2 = nci s1 \<and>
    entries s2 f = entries s1 f @ [(ci_ino (mk_cinodes s1 ! par), take 252 [46, 46])] \<and>
    (\<forall>g < nci s1. nlinks s2 g = nlinks s1 g + (if g = par then 1 else 0) \<and> (g \<noteq> f \<longrightarrow> fdata s2 g = fdata s1 g \<and> fsize s2 g = fsize s1 g))"
    using a f by (intro add_entry_spec [OF _ _ _ _ run(2)]) simp_all
  have "mk_step {f, par} {} s s2" using mk_step_trans [OF mk_step_mono [of "{f, f}" "{}" s s1 "{f, par}" "{}"], of "{f, par}" "{}" s2] a b by simp
  moreover have "ci_ino (mk_cinodes s1 ! par) = ci_ino (mk_cinodes s ! par)" using mk_stepD(1) [of "{f, f}" "{}" s s1 par] a f by simp
  ultimately show ?thesis using a b by simp
qed

lemma dir_added:
  assumes inv: "mk_inv n0 s" and cur: "cur < nci s" and name: "0 \<notin> set name" and new: "set (host_inodes_dir es) \<inter> ci_real ` set (mk_cinodes s) = {}"
      "real \<notin> set (host_inodes_dir es)"
    and IH: "\<And>c t t'. mk_inv n0 t \<Longrightarrow> c < nci t \<Longrightarrow> set (host_inodes_dir es) \<inter> ci_real ` set (mk_cinodes t) = {} \<Longrightarrow>
      open_dir_loop es c t = Some t' \<Longrightarrow> looped n0 es c t t'"
    and run: "add_dir s cur name ok (open_dir_loop es) real = Some s'"
  shows "added n0 (HDir real ok es) cur name s s'"
proof -
  obtain f s1 s2 s3 s4 where r: "alloc_cache_inode s real 0 MK_TYPE_DIR = Some (f, s1)" "add_entry (subpath_push s1 name) f f [46] = Some s2"
      "add_entry s2 f cur [46, 46] = Some s3" "open_dir_loop es f s3 = Some s4"
      "add_entry (s4\<lparr>mk_subpath := tl (mk_subpath s4)\<rparr>) cur f name = Some s'"
    using run by (auto simp: add_dir_def open_dir_def subpath_pop_def bind_eq_Some_conv Let_def)
  note n = new_inode [OF inv r(1)]
  have ne: "cur \<noteq> f" "f < nci s1" "cur < nci s1" using cur n(1,4) by auto
  have d: "mk_inv n0 s3" "mk_step {f, cur} {} s1 s3" "nci s3 = nci s1"
      "entries s3 f = [(ci_ino (mk_cinodes s1 ! f), [46]), (ci_ino (mk_cinodes s1 ! cur), [46, 46])]"
      "nlinks s3 f = 1" "nlinks s3 cur = nlinks s cur + 1" "fdata s3 cur = fdata s cur"
    using dots_spec [of n0 "subpath_push s1 name" f cur, OF _ _ _ r(2,3)] n n(9) [OF cur] ne
    by (auto simp: subpath_push_def entries_def)
  have R: "set (host_inodes_dir es) \<inter> ci_real ` set (mk_cinodes s3) = {}"
    using new n(3) d(2) unfolding mk_step_def by blast
  have L: "looped n0 es f s3 s4" using IH [OF d(1) _ R r(4)] d(3) ne by simp
  then obtain rest where l: "mk_inv n0 s4" "mk_step {f} (set (host_inodes_dir es)) s3 s4" "nlinks s4 f = 1 + of_nat (subdirs es)"
      "entries s4 f = entries s3 f @ rest" "st_entries s4 {nci s3 ..< nci s4} (ci_ino (mk_cinodes s3 ! f)) rest es"
    using d(5) by (auto simp: looped_def)
  have i3: "ci_ino (mk_cinodes s3 ! f) = ci_ino (mk_cinodes s1 ! f)" "ci_ino (mk_cinodes s1 ! cur) = ci_ino (mk_cinodes s ! cur)"
    "ftype s3 f = MK_TYPE_DIR" using mk_stepD(1,2) [OF d(2), of f] mk_stepD(1) [OF n(3) cur] ne n(5) by simp_all
  have i4: "ci_ino (mk_cinodes s4 ! f) = ci_ino (mk_cinodes s3 ! f)" "ftype s4 f = ftype s3 f" "mk_cinodes s4 ! cur = mk_cinodes s3 ! cur"
      "fdata s4 cur = fdata s3 cur" "f < nci s4" "nci s3 \<le> nci s4"
    using mk_stepD(1,2) [OF l(2), of f] mk_stepD(3) [OF l(2), of cur] mk_step_fdata [OF d(1) l(2), of cur] mk_stepD(5) [OF l(2), of f] l(2) d(3) ne
    by (auto simp: mk_step_def)
  have s13: "mk_step {cur} {real} s s3" using mk_step_trans [OF mk_step_mono [OF n(3), of "{cur}" "{real}"], of "{f, cur}" "{}" s3] d(2) n(1) by simp
  have st: "mk_step {cur} ({real} \<union> set (host_inodes_dir es)) s s4" using mk_step_trans [OF s13 l(2)] n(1) by simp
  show ?thesis
  proof (rule added_entry [OF _ _ _ cur n(1) _ _ _ _ _ _ name r(5), where R = "{real} \<union> set (host_inodes_dir es)"])
    have "st_entries s4 {Suc f ..< nci s4} (ci_ino (mk_cinodes s4 ! f)) rest es" using l(5) d(3) n(4) i4(1) by simp
    then have "st_body s4 {Suc f ..< nci s4} (ci_ino (mk_cinodes s ! cur)) f (HDir real ok es)"
      using l(4) d(4) i3 i4 by auto
    then show "st_body (s4\<lparr>mk_subpath := tl (mk_subpath s4)\<rparr>) {Suc f ..< nci (s4\<lparr>mk_subpath := tl (mk_subpath s4)\<rparr>)} (ci_ino (mk_cinodes s ! cur)) f (HDir real ok es)"
      by (rule st_frame(1)) simp_all
  qed (use l i4 st d in \<open>auto simp: entries_def\<close>)
qed

lemma tree_added:
  "mk_inv n0 s \<Longrightarrow> cur < nci s \<Longrightarrow> 0 \<notin> set name \<Longrightarrow> names_ok node \<Longrightarrow> distinct (host_inodes node) \<Longrightarrow>
   set (host_inodes node) \<inter> ci_real ` set (mk_cinodes s) = {} \<Longrightarrow> open_entry node name cur s = Some s' \<Longrightarrow> added n0 node cur name s s'"
  "mk_inv n0 s \<Longrightarrow> cur < nci s \<Longrightarrow> names_ok_dir es \<Longrightarrow> distinct (host_inodes_dir es) \<Longrightarrow>
   set (host_inodes_dir es) \<inter> ci_real ` set (mk_cinodes s) = {} \<Longrightarrow> open_dir_loop es cur s = Some s' \<Longrightarrow> looped n0 es cur s s'"
proof (induction node and es arbitrary: name cur s s' and cur s s')
  case (HDir real ok es)
  show ?case
  proof (rule dir_added)
    show "looped n0 es c t t'" if "mk_inv n0 t" "c < nci t" "set (host_inodes_dir es) \<inter> ci_real ` set (mk_cinodes t) = {}"
      "open_dir_loop es c t = Some t'" for c t t'
      using HDir.IH [OF that(1,2) _ _ that(3,4)] HDir.prems by simp
  qed (use HDir.prems in auto)
next
  case (DirEntry name node es)
  show ?case
  proof (cases "hidden name")
    case True
    then have "looped n0 es cur s s'" using DirEntry.prems by (intro DirEntry.IH(2)) (auto simp: hidden_def)
    then show ?thesis using True by (simp add: looped_def)
  next
    case False
    then obtain s1 where r: "open_entry node name cur s = Some s1" "open_dir_loop es cur s1 = Some s'"
      using DirEntry.prems(6) by (auto simp: hidden_def bind_eq_Some_conv split: if_splits)
    have a: "added n0 node cur name s s1" using DirEntry.prems False by (intro DirEntry.IH(1) [OF _ _ _ _ _ _ r(1)]) auto
    have inv1: "mk_inv n0 s1" and st: "mk_step {cur} (set (host_inodes node)) s s1" using a by (simp_all add: added_def)
    have cur1: "cur < nci s1" using mk_stepD(5) [OF st] DirEntry.prems(2) .
    have R: "set (host_inodes_dir es) \<inter> ci_real ` set (mk_cinodes s1) = {}"
    proof -
      have "ci_real ` set (mk_cinodes s1) \<subseteq> ci_real ` set (mk_cinodes s) \<union> set (host_inodes node)" using st by (simp add: mk_step_def)
      moreover have "set (host_inodes_dir es) \<inter> (ci_real ` set (mk_cinodes s) \<union> set (host_inodes node)) = {}"
        using DirEntry.prems(4,5) False by auto
      ultimately show ?thesis by blast
    qed
    have l: "looped n0 es cur s1 s'" using DirEntry.prems False R cur1 inv1 by (intro DirEntry.IH(2) [OF _ _ _ _ _ r(2)]) auto
    have st2: "mk_step {cur} (set (host_inodes_dir es)) s1 s'" using l by (simp add: looped_def)
    have ino: "ci_ino (mk_cinodes s1 ! cur) = ci_ino (mk_cinodes s ! cur)" "nci s \<le> nci s1" "nci s1 \<le> nci s'"
      using mk_stepD(1) [OF st DirEntry.prems(2)] st st2 by (auto simp: mk_step_def)
    have step: "mk_step {cur} (set (host_inodes_dir (DirEntry name node es))) s s'" using mk_step_trans [OF st st2] False by simp
    obtain rest where rest: "entries s' cur = entries s1 cur @ rest" "st_entries s' {nci s1 ..< nci s'} (ci_ino (mk_cinodes s1 ! cur)) rest es"
        "nlinks s' cur = nlinks s1 cur + of_nat (subdirs es)" using l by (auto simp: looped_def)
    show ?thesis
    proof (cases "node = HOther")
      case True
      then have "s1 = s" using a by (simp add: added_def)
      then show ?thesis using True False rest step l by (auto simp: looped_def)
    next
      case ho: False
      then obtain f where f: "f \<in> {nci s ..< nci s1}" "entries s1 cur = entries s cur @ [(ci_ino (mk_cinodes s1 ! f), take 252 name)]"
          "nlinks s1 f = of_nat (links node)" "st_body s1 {nci s ..< nci s1} (ci_ino (mk_cinodes s1 ! cur)) f node"
        using a by (auto simp: added_def)
      have keep: "mk_cinodes s' ! g = mk_cinodes s1 ! g \<and> fdata s' g = fdata s1 g" if "g \<in> {nci s ..< nci s1}" for g
        using mk_stepD(3) [OF st2, of g] mk_step_fdata [OF inv1 st2, of g] that DirEntry.prems(2) by auto
      have "st_body s' {nci s ..< nci s'} (ci_ino (mk_cinodes s ! cur)) f node"
      proof (rule st_frame(1) [OF f(4) [unfolded ino(1)]])
        show "\<forall>g \<in> {nci s ..< nci s1}. mk_cinodes s' ! g = mk_cinodes s1 ! g \<and> fdata s' g = fdata s1 g" using keep by blast
      qed (use keep [OF f(1)] ino(3) in auto)
      moreover have "st_entries s' {nci s ..< nci s'} (ci_ino (mk_cinodes s ! cur)) rest es"
        by (rule st_frame(2) [OF rest(2) [unfolded ino(1)]]) (use ino(2) in auto)
      ultimately have "st_entries s' {nci s ..< nci s'} (ci_ino (mk_cinodes s ! cur)) ((ci_ino (mk_cinodes s1 ! f), take 252 name) # rest) (DirEntry name node es)"
        using False ho keep [OF f(1)] f(1,3) ino by (auto intro!: exI [of _ f])
      moreover have "entries s' cur = entries s cur @ (ci_ino (mk_cinodes s1 ! f), take 252 name) # rest" using rest(1) f(2) by simp
      moreover have "nlinks s' cur = nlinks s cur + of_nat (subdirs (DirEntry name node es))"
        using rest(3) a False by (simp add: added_def add.assoc)
      ultimately show ?thesis using step l unfolding looped_def by blast
    qed
  qed
next
  case DirEnd
  then show ?case by (simp add: looped_def)
next
  case (HLink real target)
  then show ?case by (intro link_added) simp_all
next
  case (HFile real chunks ok)
  then show ?case by (intro file_added) simp_all
next
  case HOther
  then show ?case by (simp add: added_def)
next
  case HClosed
  then show ?case by simp
qed

section \<open>The image\<close>

definition writes :: "(u32 \<times> u8 list) list \<Rightarrow> blocks \<Rightarrow> blocks" where
  "writes ws img = fold (\<lambda>(b, d) m. m(b := d)) ws img"

definition block_write :: "mk_fs \<Rightarrow> nat \<Rightarrow> u32 \<times> u8 list" where
  "block_write s p = (cb_ino (mk_cblocks s ! p), pad (concat (map le32 (cb_cache (mk_cblocks s ! p)))))"

definition inode_write :: "mk_fs \<Rightarrow> nat \<Rightarrow> u32 \<times> u8 list" where
  "inode_write s f = (ci_ino (mk_cinodes s ! f), pad (put_mk_inode (ci_inode (mk_cinodes s ! f))))"

lemma block_write_img [simp]: "block_write (s\<lparr>mk_img := x\<rparr>) = block_write s" "inode_write (s\<lparr>mk_img := x\<rparr>) = inode_write s"
  by (auto simp: block_write_def inode_write_def)

lemma flush_one:
  "flush_cache_block s p = Some s' \<Longrightarrow> s' = s\<lparr>mk_img := writes [block_write s p] (mk_img s)\<rparr>"
  "flush_cache_inode s p = Some s' \<Longrightarrow> s' = s\<lparr>mk_img := writes [inode_write s p] (mk_img s)\<rparr>"
  by (auto simp: flush_cache_block_def flush_cache_inode_def write_block_spec block_write_def inode_write_def writes_def)

lemma flush_blocks:
  "flush_all flush_cache_block ps s = Some s' \<Longrightarrow> s' = s\<lparr>mk_img := writes (map (block_write s) ps) (mk_img s)\<rparr>"
proof (induction ps arbitrary: s)
  case (Cons p ps)
  have "flush_all flush_cache_block ps (s\<lparr>mk_img := writes [block_write s p] (mk_img s)\<rparr>) = Some s'"
    using Cons.prems by (auto simp: bind_eq_Some_conv dest!: flush_one)
  from Cons.IH [OF this] show ?case by (simp add: writes_def)
qed (simp add: writes_def)

lemma flush_inodes:
  "flush_all flush_cache_inode ps s = Some s' \<Longrightarrow> s' = s\<lparr>mk_img := writes (map (inode_write s) ps) (mk_img s)\<rparr>"
proof (induction ps arbitrary: s)
  case (Cons p ps)
  have "flush_all flush_cache_inode ps (s\<lparr>mk_img := writes [inode_write s p] (mk_img s)\<rparr>) = Some s'"
    using Cons.prems by (auto simp: bind_eq_Some_conv dest!: flush_one)
  from Cons.IH [OF this] show ?case by (simp add: writes_def)
qed (simp add: writes_def)

definition flush_list :: "mk_fs \<Rightarrow> nat list \<Rightarrow> (u32 \<times> u8 list) list" where
  "flush_list s is = concat (map (\<lambda>i. map (block_write s) (mk_blocks s i) @ map (inode_write s) (mk_inodes s i)) is)"

lemma close_flush_writes:
  "close_flush is s = Some s' \<Longrightarrow> s' = s\<lparr>mk_img := writes (flush_list s is) (mk_img s)\<rparr>"
proof (induction "is" arbitrary: s)
  case (Cons i "is")
  then obtain s1 s2 where r: "flush_all flush_cache_block (mk_blocks s i) s = Some s1" "flush_all flush_cache_inode (mk_inodes s1 i) s1 = Some s2"
    "close_flush is s2 = Some s'" by (auto simp: bind_eq_Some_conv)
  have s1: "s1 = s\<lparr>mk_img := writes (map (block_write s) (mk_blocks s i)) (mk_img s)\<rparr>" by (rule flush_blocks [OF r(1)])
  have s2: "s2 = s1\<lparr>mk_img := writes (map (inode_write s1) (mk_inodes s1 i)) (mk_img s1)\<rparr>" by (rule flush_inodes [OF r(2)])
  show ?case using Cons.IH [OF r(3)] by (simp add: s2 s1 flush_list_def writes_def)
qed (simp add: flush_list_def writes_def)

lemma writes_in: "\<forall>x \<in> set ws. \<forall>y \<in> set ws. fst x = fst y \<longrightarrow> x = y \<Longrightarrow> (b, d) \<in> set ws \<Longrightarrow> writes ws img b = d"
proof (induction ws rule: rev_induct)
  case (snoc x xs)
  show ?case
  proof (cases "fst x = b")
    case True
    then have "x = (b, d)" using snoc.prems by (metis fst_conv in_set_conv_decomp)
    then show ?thesis by (simp add: writes_def)
  next
    case False
    then have "writes xs img b = d" using snoc by auto
    then show ?thesis using False by (auto simp: writes_def split: prod.splits)
  qed
qed simp

lemma writes_out: "b \<notin> fst ` set ws \<Longrightarrow> writes ws img b = img b"
  by (induction ws arbitrary: img) (auto simp: writes_def split: prod.splits)

lemma mk_set_bits_spec:
  "length data = 1024 \<Longrightarrow> unat j + k \<le> 32768 \<Longrightarrow> length (mk_set_bits data j k) = 1024 \<and>
   (\<forall>i < 32768. bm_bit (mk_set_bits data j k) i \<longleftrightarrow> bm_bit data i \<or> unat j \<le> i \<and> i < unat j + k)"
proof (induction k arbitrary: data j)
  case (Suc k)
  let ?d = "data[unat (j div 32) := data ! unat (j div 32) OR bit_mask (unat (j mod 32))]"
  have j: "unat (j div 32) = unat j div 32" "unat (j mod 32) = unat j mod 32" by (simp_all add: unat_word_div unat_word_mod)
  have j1: "unat (j + 1) = Suc (unat j)" using Suc.prems by (intro word_Suc [of _ "0x10000"]) (simp add: word_less_nat_alt)
  have at: "bm_bit ?d i \<longleftrightarrow> bm_bit data i \<or> i = unat j" if i: "i < 32768" for i
  proof -
    have "i = unat j \<longleftrightarrow> i div 32 = unat j div 32 \<and> i mod 32 = unat j mod 32" by (metis mult_div_mod_eq)
    then show ?thesis using i Suc.prems by (auto simp: bm_bit_def j nth_list_update bit_or_mask)
  qed
  have "length (mk_set_bits ?d (j + 1) k) = 1024 \<and>
    (\<forall>i < 32768. bm_bit (mk_set_bits ?d (j + 1) k) i \<longleftrightarrow> bm_bit ?d i \<or> unat (j + 1) \<le> i \<and> i < unat (j + 1) + k)"
    using Suc.prems by (intro Suc.IH) (simp_all add: j1)
  then show ?case using at by (auto simp: j1)
qed auto

text \<open>On a disk of at most 1036 blocks the map is one block, the third.\<close>

lemma freemap_spec:
  assumes "next \<le> n" "n \<le> 1036"
  shows "length (mk_freemap_block n next 0) = 1024 \<and>
    (\<forall>i < 32768. bm_bit (mk_freemap_block n next 0) i \<longleftrightarrow> unat next \<le> i \<and> i < unat n)"
proof -
  have le: "next \<le> 1036" using assms by simp
  have "n < MK_BLKBITS" by (rule le_less_trans [OF assms(2)]) (simp add: MK_BLKBITS_def)
  moreover have "next < MK_BLKBITS" by (rule le_less_trans [OF le]) (simp add: MK_BLKBITS_def)
  moreover have "(if 0 < next then next - 0 else 0) = next" by (auto simp: word_gt_0)
  ultimately have f: "mk_freemap_block n next 0 = mk_set_bits (replicate 1024 0) next (unat n - unat next)"
    by (simp add: mk_freemap_block_def)
  have "unat next \<le> unat n" "unat n \<le> 1036" using assms by (simp_all add: word_le_nat_alt)
  then show ?thesis using mk_set_bits_spec [of "replicate 1024 0" "next" "unat n - unat next"] by (auto simp: f bm_bit_def)
qed

lemma pad_full [simp]: "length d = 4096 \<Longrightarrow> pad d = d"
  by (simp add: pad_def)

lemma hash64_bound: "unat (hash64 r) < 1024"
  using unat_lt_u32 [of "ucast r * 0x9e370001"] by (simp add: hash64_def MK_HASH_SHIFT_def unat_drop)

lemma close_image:
  assumes inv: "mk_inv n0 s" and n0: "n0 = 3" and run: "close_sfs s = Some s'"
  shows "mk_img s' 0 = pad (put_mk_super s)" "mk_img s' 2 = concat (map le32 (mk_freemap_block (mk_ninos s) (mk_next_ino s) 0))"
    "f < nci s \<Longrightarrow> mk_img s' (ci_ino (mk_cinodes s ! f)) = pad (put_mk_inode (ci_inode (mk_cinodes s ! f)))"
    "p < length (mk_cblocks s) \<Longrightarrow> mk_img s' (cb_ino (mk_cblocks s ! p)) = concat (map le32 (cb_cache (mk_cblocks s ! p)))"
    "3 \<le> b \<Longrightarrow> b \<notin> set (mk_inos s) \<Longrightarrow> mk_img s' b = mk_img s b" "mk_cinodes s' = mk_cinodes s" "mk_next_ino s' = mk_next_ino s" "mk_ninos s' = mk_ninos s"
proof -
  let ?map = "mk_freemap_block (mk_ninos s) (mk_next_ino s) 0"
  have c: "mk_next_ino s \<le> mk_ninos s" "mk_ninos s \<le> 1036" "3 \<le> mk_next_ino s" "distinct (mk_inos s)" "\<forall>b \<in> set (mk_inos s). b = 1 \<or> 3 \<le> b"
    using mk_invD(1) [OF inv] by (auto simp: mk_counts_def n0)
  have pos: "0 < mk_ninos s" "\<not> MK_BLKBITS < mk_ninos s" using c(1-3) by (auto simp: word_less_nat_alt word_le_nat_alt MK_BLKBITS_def)
  have len: "length ?map = 1024" using freemap_spec [OF c(1,2)] by simp
  obtain s1 s2 where r: "close_freemap s MK_BLKN_FREEMAP 0 = Some s1" "write_block s1 (put_mk_super s1) MK_BLKN_SUPER = Some s2"
      "close_flush [0 ..< 1024] s2 = Some s'"
    using run by (auto simp: close_sfs_def bind_eq_Some_conv MK_HASH_SHIFT_def)
  have s1: "s1 = s\<lparr>mk_img := (mk_img s)(2 := concat (map le32 ?map))\<rparr>"
    using r(1) pos len by (subst (asm) close_freemap.simps, subst (asm) close_freemap.simps)
      (auto simp: bind_eq_Some_conv write_block_spec MK_BLKN_FREEMAP_def)
  have s2: "s2 = s\<lparr>mk_img := (mk_img s)(2 := concat (map le32 ?map), 0 := pad (put_mk_super s))\<rparr>"
    using r(2) by (auto simp: write_block_spec s1 MK_BLKN_SUPER_def put_mk_super_def)
  let ?ws = "flush_list s [0 ..< 1024]"
  have s': "s' = s\<lparr>mk_img := writes ?ws (mk_img s2)\<rparr>" using close_flush_writes [OF r(3)] by (simp add: s2 flush_list_def)
  have ch: "chains_ok s" by (rule mk_invD(4) [OF inv])
  have ws: "set ?ws = block_write s ` {p. p < length (mk_cblocks s)} \<union> inode_write s ` {f. f < nci s}"
  proof -
    have "(\<Union>i < 1024. set (mk_blocks s i)) = {p. p < length (mk_cblocks s)}" using ch by (auto simp: chains_ok_def mk_hash32_def intro!: bexI [of _ 0])
    moreover have "(\<Union>i < 1024. set (mk_inodes s i)) = {f. f < nci s}" using ch hash64_bound by (auto simp: chains_ok_def)
    moreover have "set ?ws = block_write s ` (\<Union>i < 1024. set (mk_blocks s i)) \<union> inode_write s ` (\<Union>i < 1024. set (mk_inodes s i))"
      by (simp add: flush_list_def image_UN lessThan_atLeast0 UN_Un_distrib)
    ultimately show ?thesis by simp
  qed
  have inj: "x = y" if "x \<in> set ?ws" "y \<in> set ?ws" "fst x = fst y" for x y
  proof -
    have d: "distinct (map ci_ino (mk_cinodes s))" "distinct (map cb_ino (mk_cblocks s))" "set (map ci_ino (mk_cinodes s)) \<inter> set (map cb_ino (mk_cblocks s)) = {}"
      using c(4) by (simp_all add: mk_inos_def)
    have "ci_ino (mk_cinodes s ! f) \<noteq> cb_ino (mk_cblocks s ! p)" if "f < nci s" "p < length (mk_cblocks s)" for f p
      using d(3) that by (metis disjoint_iff length_map nth_map nth_mem)
    then show ?thesis using that d(1,2) unfolding ws block_write_def inode_write_def
      by (auto simp: distinct_conv_nth) metis+
  qed
  have inos: "fst ` set ?ws = set (mk_inos s)"
  proof -
    have "set (map ci_ino (mk_cinodes s)) = (\<lambda>f. ci_ino (mk_cinodes s ! f)) ` {f. f < nci s}"
      "set (map cb_ino (mk_cblocks s)) = (\<lambda>p. cb_ino (mk_cblocks s ! p)) ` {p. p < length (mk_cblocks s)}"
      by (force simp: in_set_conv_nth image_iff)+
    then show ?thesis unfolding ws mk_inos_def image_Un image_image block_write_def inode_write_def fst_conv set_append by blast
  qed
  have out: "mk_img s' b = mk_img s2 b" if "b \<notin> set (mk_inos s)" for b using that by (simp add: s' writes_out inos)
  have "0 \<notin> set (mk_inos s)" "2 \<notin> set (mk_inos s)" using c(5) by auto
  then show "mk_img s' 0 = pad (put_mk_super s)" "mk_img s' 2 = concat (map le32 ?map)" by (simp_all add: out s2)
  show "mk_img s' b = mk_img s b" if "3 \<le> b" "b \<notin> set (mk_inos s)" using out [OF that(2)] that(1) by (auto simp: s2)
  show "mk_cinodes s' = mk_cinodes s" "mk_next_ino s' = mk_next_ino s" "mk_ninos s' = mk_ninos s" by (simp_all add: s')
  show "mk_img s' (ci_ino (mk_cinodes s ! f)) = pad (put_mk_inode (ci_inode (mk_cinodes s ! f)))" if "f < nci s"
  proof -
    have "inode_write s f \<in> set ?ws" using that by (simp add: ws)
    then show ?thesis using writes_in [of ?ws] inj by (simp add: s' inode_write_def)
  qed
  show "mk_img s' (cb_ino (mk_cblocks s ! p)) = concat (map le32 (cb_cache (mk_cblocks s ! p)))" if p: "p < length (mk_cblocks s)"
  proof -
    have "length (cb_cache (mk_cblocks s ! p)) = 1024" using ch p by (simp add: chains_ok_def)
    moreover have "block_write s p \<in> set ?ws" using p by (simp add: ws)
    ultimately show ?thesis using writes_in [of ?ws] inj by (simp add: s' block_write_def)
  qed
qed

section \<open>What the kernel finds on the image\<close>

text \<open>The blocks, the contents and the bytes of the file with the inode \<open>ino\<close>, read as the kernel reads them: the inode with
  \<open>get_disk_inode\<close>, 12 direct blocks, then the indirect block.\<close>

definition image_file :: "blocks \<Rightarrow> u32 \<Rightarrow> u32 list" where
  "image_file img ino = (let d = get_disk_inode (img ino) in
     map (\<lambda>i. if i < 12 then di_direct d ! i else rd32 (img (di_indirect d)) (4 * (i - 12))) [0 ..< unat (di_blocks d)])"

definition image_data :: "blocks \<Rightarrow> u32 \<Rightarrow> u8 list list" where
  "image_data img ino = map img (image_file img ino)"

definition image_bytes :: "blocks \<Rightarrow> u32 \<Rightarrow> u8 list" where
  "image_bytes img ino = take (unat (di_size (get_disk_inode (img ino)))) (concat (image_data img ino))"

text \<open>The image holds the node at \<open>ino\<close>, in the directory with the number \<open>par\<close>. Names that begin with a dot, and files that are not
  directories, regular files or links, are left out; of a name there are the first 252 bytes.\<close>

fun on_image :: "blocks \<Rightarrow> u32 \<Rightarrow> u32 \<Rightarrow> hnode \<Rightarrow> bool" and on_entries :: "blocks \<Rightarrow> u32 \<Rightarrow> (u32 \<times> u8 list) list \<Rightarrow> hdir \<Rightarrow> bool" where
  "on_image img par ino (HLink real target) \<longleftrightarrow> di_type (get_disk_inode (img ino)) = SFS_TYPE_LINK \<and>
     di_nlinks (get_disk_inode (img ino)) = 1 \<and> target = Some (image_bytes img ino)"
| "on_image img par ino (HFile real chunks ok) \<longleftrightarrow> di_type (get_disk_inode (img ino)) = SFS_TYPE_FILE \<and>
     di_nlinks (get_disk_inode (img ino)) = 1 \<and> image_bytes img ino = concat chunks"
| "on_image img par ino (HDir real ok es) \<longleftrightarrow> di_type (get_disk_inode (img ino)) = SFS_TYPE_DIR \<and>
     di_nlinks (get_disk_inode (img ino)) = of_nat (2 + subdirs es) \<and>
     di_size (get_disk_inode (img ino)) = 256 * di_blocks (get_disk_inode (img ino)) \<and>
     (case map dent (image_data img ino) of
        (i, n) # (j, m) # rest \<Rightarrow> i = ino \<and> n = [46] \<and> j = par \<and> m = [46, 46] \<and> on_entries img ino rest es
      | _ \<Rightarrow> False)"
| "on_image img par ino HOther \<longleftrightarrow> False"
| "on_image img par ino HClosed \<longleftrightarrow> False"
| "on_entries img par rest DirEnd \<longleftrightarrow> rest = []"
| "on_entries img par rest (DirEntry name node es) \<longleftrightarrow>
     (if hidden name \<or> node = HOther then on_entries img par rest es
      else case rest of
        (i, n) # rest \<Rightarrow> i \<noteq> 0 \<and> n = take 252 name \<and> on_image img par i node \<and> on_entries img par rest es
      | [] \<Rightarrow> False)"

lemma get_mk_inode:
  assumes "length (mi_direct d) = 12"
  shows "get_disk_inode (pad (put_mk_inode d)) = \<lparr>di_size = mi_size d, di_type = mi_type d, di_nlinks = mi_nlinks d, di_blocks = mi_blocks d,
    di_direct = mi_direct d, di_indirect = mi_indirect d\<rparr>"
proof -
  let ?d = "\<lparr>di_size = mi_size d, di_type = mi_type d, di_nlinks = mi_nlinks d, di_blocks = mi_blocks d,
    di_direct = mi_direct d, di_indirect = mi_indirect d\<rparr>"
  have "pad (put_mk_inode d) = put_disk_inode ?d @ le32 (mi_db_indirect d) @ replicate (4096 - length (put_mk_inode d)) 0"
    by (simp add: pad_def put_mk_inode_def put_disk_inode_def)
  then show ?thesis using get_put_disk_inode [of ?d] assms by simp
qed

text \<open>After the tool has closed the image, each cached file is there.\<close>

lemma closed_file:
  assumes inv: "mk_inv n0 s" and n0: "n0 = 3" and run: "close_sfs s = Some s'" and f: "f < nci s"
  shows "di_type (get_disk_inode (mk_img s' (ci_ino (mk_cinodes s ! f)))) = ftype s f"
    "di_nlinks (get_disk_inode (mk_img s' (ci_ino (mk_cinodes s ! f)))) = nlinks s f"
    "di_size (get_disk_inode (mk_img s' (ci_ino (mk_cinodes s ! f)))) = fsize s f"
    "di_blocks (get_disk_inode (mk_img s' (ci_ino (mk_cinodes s ! f)))) = ci_nblks (mk_cinodes s ! f)"
    "image_file (mk_img s') (ci_ino (mk_cinodes s ! f)) = mk_file s f"
    "image_data (mk_img s') (ci_ino (mk_cinodes s ! f)) = fdata s f"
proof -
  let ?c = "mk_cinodes s ! f" and ?img = "mk_img s'"
  note ci = close_image [OF inv n0 run]
  have ok: "ci_ok n0 s f" by (rule mk_invD(2) [OF inv f])
  then have "length (mi_direct (ci_inode ?c)) = 12" "mi_blocks (ci_inode ?c) = ci_nblks ?c" by (simp_all add: ci_ok_def Let_def)
  then have d: "get_disk_inode (?img (ci_ino ?c)) = \<lparr>di_size = fsize s f, di_type = ftype s f, di_nlinks = nlinks s f, di_blocks = ci_nblks ?c,
      di_direct = mi_direct (ci_inode ?c), di_indirect = mi_indirect (ci_inode ?c)\<rparr>"
    using get_mk_inode [of "ci_inode ?c"] by (simp add: ci(3) [OF f])
  then show "di_type (get_disk_inode (?img (ci_ino ?c))) = ftype s f" "di_nlinks (get_disk_inode (?img (ci_ino ?c))) = nlinks s f"
    "di_size (get_disk_inode (?img (ci_ino ?c))) = fsize s f" "di_blocks (get_disk_inode (?img (ci_ino ?c))) = ci_nblks ?c" by simp_all
  have "unat (ci_nblks ?c) \<le> 1036"
    using ok mk_invD(1) [OF inv] by (simp add: ci_ok_def Let_def mk_counts_def word_le_nat_alt)
  moreover have "rd32 (?img (mi_indirect (ci_inode ?c))) (4 * (i - 12)) = cb_cache (mk_cblocks s ! the (ci_l1 ?c)) ! (i - 12)"
    if "12 \<le> i" "i < unat (ci_nblks ?c)" "i < 1036" for i
  proof -
    have "12 < ci_nblks ?c" using that by (simp add: word_less_nat_alt)
    then obtain p where p: "ci_l1 ?c = Some p" "p < length (mk_cblocks s)" "cb_ino (mk_cblocks s ! p) = mi_indirect (ci_inode ?c)"
      using ci_ok_l1 [OF ok] by blast
    have "length (cb_cache (mk_cblocks s ! p)) = 1024" using mk_invD(4) [OF inv] p(2) by (simp add: chains_ok_def)
    then show ?thesis using ci(4) [OF p(2)] p that rd32_concat [of "i - 12" "cb_cache (mk_cblocks s ! p)" "[]"] by simp
  qed
  ultimately show il: "image_file ?img (ci_ino ?c) = mk_file s f"
    unfolding image_file_def mk_file_def d Let_def by auto
  have "?img b = mk_img s b" if "b \<in> set (mk_file s f)" for b
    using file_bound [OF inv f that] by (intro ci(5)) (simp_all add: n0)
  then show "image_data ?img (ci_ino ?c) = fdata s f" by (simp add: image_data_def il fdata_def)
qed

lemma take_pads:
  "full_but_last cs \<Longrightarrow> take (length (concat cs)) (concat (map pad cs)) = concat cs"
proof (induction cs)
  case (Cons c cs)
  show ?case
  proof (cases "cs = []")
    case False
    then have "length c = 4096" "full_but_last cs" using Cons.prems by (auto simp: full_but_last_def)
    then show ?thesis using Cons.IH by simp
  qed (simp add: pad_def)
qed simp

lemma length_pads: "full_but_last cs \<Longrightarrow> length (concat cs) \<le> 4096 * length cs"
  by (induction cs) (auto simp: full_but_last_def split: if_splits)

lemma closed_tree:
  assumes inv: "mk_inv n0 s" and n0: "n0 = 3" and run: "close_sfs s = Some s'" and A: "A \<subseteq> {..< nci s}"
  shows "st_body s A par f node \<Longrightarrow> f < nci s \<Longrightarrow> nlinks s f = of_nat (links node) \<Longrightarrow> on_image (mk_img s') par (ci_ino (mk_cinodes s ! f)) node"
    "st_entries s A par rest es \<Longrightarrow> on_entries (mk_img s') par rest es"
proof (induction node and es arbitrary: par f and par rest)
  case (HLink real target)
  note cf = closed_file [OF inv n0 run HLink.prems(2)]
  obtain t where t: "target = Some t" "length t \<le> 4096" "fsize s f = of_nat (length t)" "fdata s f = [pad t]" "ftype s f = MK_TYPE_LINK"
    using HLink.prems(1) by auto
  have "unat (of_nat (length t) :: u32) = length t" using t(2) by (intro unat_of_nat_small) simp
  then have "image_bytes (mk_img s') (ci_ino (mk_cinodes s ! f)) = t" by (simp add: image_bytes_def cf t pad_def)
  then show ?case using t HLink.prems(3) by (simp add: cf SFS_TYPE_LINK_def MK_TYPE_LINK_def)
next
  case (HFile real chunks ok)
  note cf = closed_file [OF inv n0 run HFile.prems(2)]
  have fl: "full_but_last chunks" "fsize s f = of_nat (length (concat chunks))" "fdata s f = map pad chunks" "ftype s f = MK_TYPE_FILE"
    using HFile.prems(1) by auto
  have "unat (ci_nblks (mk_cinodes s ! f)) \<le> 1036"
    using mk_invD(2) [OF inv HFile.prems(2)] mk_invD(1) [OF inv] by (simp add: ci_ok_def Let_def mk_counts_def word_le_nat_alt)
  moreover have "length chunks = unat (ci_nblks (mk_cinodes s ! f))" using arg_cong [OF fl(3), of length] by (simp add: fdata_def)
  ultimately have "length (concat chunks) < 2 ^ 32" using length_pads [OF fl(1)] by simp
  then have "unat (of_nat (length (concat chunks)) :: u32) = length (concat chunks)" by (intro unat_of_nat_small) simp
  then have "image_bytes (mk_img s') (ci_ino (mk_cinodes s ! f)) = concat chunks"
    unfolding image_bytes_def cf fl(2,3) using take_pads [OF fl(1)] by simp
  then show ?case using fl HFile.prems(3) by (simp add: cf SFS_TYPE_FILE_def MK_TYPE_FILE_def)
next
  case (HDir real ok es)
  note cf = closed_file [OF inv n0 run HDir.prems(2)]
  let ?ino = "ci_ino (mk_cinodes s ! f)"
  obtain rest where d: "ftype s f = MK_TYPE_DIR" "map dent (fdata s f) = (?ino, [46]) # (par, [46, 46]) # rest" "st_entries s A ?ino rest es"
    using HDir.prems(1) by (auto simp: entries_def)
  have "fsize s f = 256 * ci_nblks (mk_cinodes s ! f)" using mk_invD(2) [OF inv HDir.prems(2)] d(1) by (simp add: ci_ok_def Let_def)
  then show ?case using d HDir.IH [OF d(3)] HDir.prems(3) by (simp add: cf SFS_TYPE_DIR_def MK_TYPE_DIR_def)
next
  case (DirEntry name node es)
  show ?case
  proof (cases "hidden name \<or> node = HOther")
    case True
    then show ?thesis using DirEntry by simp
  next
    case False
    then obtain g rest' where g: "rest = (ci_ino (mk_cinodes s ! g), take 252 name) # rest'" "g \<in> A" "nlinks s g = of_nat (links node)"
      "st_body s A par g node" "st_entries s A par rest' es" using DirEntry.prems(1) by auto
    have gn: "g < nci s" using g(2) A by blast
    then have "ci_ino (mk_cinodes s ! g) \<in> set (mk_inos s)" by (simp add: mk_inos_def)
    then have "ci_ino (mk_cinodes s ! g) \<noteq> 0" using mk_invD(1) [OF inv] block_ge3 [of 3] n0 by (auto simp: mk_counts_def)
    then show ?thesis using gn False g DirEntry.IH(1) [OF g(4) _ g(3)] DirEntry.IH(2) [OF g(5)] by simp
  qed
qed simp_all

section \<open>The whole tool\<close>

lemma create_spec:
  assumes run: "create_sfs imgsize junk img = Some s" and small: "mk_ninos s \<le> 1036"
  shows "mk_inv 3 s \<and> nci s = 1 \<and> mk_root s = 0 \<and> ci_ino (mk_cinodes s ! 0) = 1 \<and> ftype s 0 = MK_TYPE_DIR \<and> fdata s 0 = [] \<and>
    nlinks s 0 = 0 \<and> ci_real ` set (mk_cinodes s) = {0} \<and> mk_next_ino s = 3 \<and> mk_info s = take 32 (mk_label @ [0] @ junk)"
proof -
  define n :: u32 where "n = (if ucast (imgsize div 4096) > MK_MAX_NBLKS then MK_MAX_NBLKS else ucast (imgsize div 4096))"
  define x where "x = MK_BLKN_FREEMAP + (n + MK_BLKBITS - 1) div MK_BLKBITS"
  let ?c = "\<lparr>ci_inode = \<lparr>mi_size = 0, mi_type = MK_TYPE_DIR, mi_nlinks = 0, mi_blocks = 0, mi_direct = replicate 12 0, mi_indirect = 0, mi_db_indirect = 0\<rparr>,
    ci_real = 0, ci_ino = 1, ci_nblks = 0, ci_l1 = None, ci_l2 = None\<rparr>"
  have r: "\<not> x \<ge> n" and s: "s = \<lparr>mk_magic = MK_MAGIC, mk_nblocks = n, mk_unused = n - x,
              mk_info = take 32 (mk_label @ [0] @ junk), mk_subpath = [],
              mk_ninos = n, mk_next_ino = x, mk_root = 0, mk_inodes = (\<lambda>_. [])(unat (hash64 0) := [0]), mk_blocks = (\<lambda>_. []),
              mk_cinodes = [?c], mk_cblocks = [], mk_entry = replicate 256 0, mk_img = img\<rparr>"
    using run unfolding create_sfs_def Let_def n_def [symmetric] x_def [symmetric]
    by (auto simp: alloc_cache_inode_def MK_BLKN_ROOT_def MK_MAX_INFO_LEN_def)
  have n: "n \<le> 1036" using small by (simp add: s)
  then have un: "unat n \<le> 1036" by (simp add: word_le_nat_alt)
  have n0: "n \<noteq> 0" using r by auto
  have "unat (n + MK_BLKBITS - 1) = unat n + 32767"
  proof -
    have "n + MK_BLKBITS - 1 = n + 32767" by (simp add: MK_BLKBITS_def)
    moreover have "unat (n + 32767) = unat n + 32767" using un by (subst unat_add_no_wrap) simp_all
    ultimately show ?thesis by (simp only:)
  qed
  moreover have "0 < unat n" using n0 by (simp add: unat_gt_0)
  ultimately have "unat ((n + MK_BLKBITS - 1) div MK_BLKBITS) = 1"
    using un by (simp add: unat_word_div MK_BLKBITS_def)
  then have "(n + MK_BLKBITS - 1) div MK_BLKBITS = 1" by (metis unat_1 word_unat_eq_iff)
  then have x: "x = 3" by (simp add: x_def MK_BLKN_FREEMAP_def)
  have "mk_inv 3 s" using r n x unfolding mk_inv_def mk_counts_def l1_apart_def chains_ok_def
    by (auto simp: s mk_inos_def ci_ok_def mk_file_def not_le)
  then show ?thesis by (simp add: s x fdata_def mk_file_def)
qed

text \<open>The state in which the tool closes the image.\<close>

lemma home_copied:
  assumes run: "create_sfs imgsize junk img = Some s" "open_dir s (mk_root s) (mk_root s) ok (open_dir_loop home) = Some s1"
    and small: "mk_ninos s \<le> 1036" and home: "names_ok_dir home" "distinct (0 # host_inodes_dir home)"
  shows "mk_inv 3 s1 \<and> 0 < nci s1 \<and> ci_ino (mk_cinodes s1 ! 0) = 1 \<and> nlinks s1 0 = of_nat (2 + subdirs home) \<and>
    st_body s1 {1 ..< nci s1} 1 0 (HDir 0 ok home) \<and> mk_ninos s1 = mk_ninos s \<and> mk_info s1 = take 32 (mk_label @ [0] @ junk)"
proof -
  have c: "mk_inv 3 s" "nci s = 1" "mk_root s = 0" "ci_ino (mk_cinodes s ! 0) = 1" "ftype s 0 = MK_TYPE_DIR" "fdata s 0 = []" "nlinks s 0 = 0"
    "ci_real ` set (mk_cinodes s) = {0}" "mk_info s = take 32 (mk_label @ [0] @ junk)" using create_spec [OF run(1) small] by blast+
  obtain s2 s3 where r: "add_entry s 0 0 [46] = Some s2" "add_entry s2 0 0 [46, 46] = Some s3" "open_dir_loop home 0 s3 = Some s1"
    using run(2) c(3) by (auto simp: open_dir_def bind_eq_Some_conv)
  have d: "mk_inv 3 s3" "mk_step {0} {} s s3" "nci s3 = 1" "entries s3 0 = [(1, [46]), (1, [46, 46])]" "nlinks s3 0 = 2"
    using dots_spec [OF c(1) _ _ r(1,2)] c by (auto simp: entries_def)
  have R: "set (host_inodes_dir home) \<inter> ci_real ` set (mk_cinodes s3) = {}"
    using home(2) d(2) c(8) unfolding mk_step_def by auto
  have L: "looped 3 home 0 s3 s1" using home by (intro tree_added(2) [OF d(1) _ _ _ R r(3)]) (simp_all add: d(3))
  then obtain rest where l: "mk_inv 3 s1" "mk_step {0} (set (host_inodes_dir home)) s3 s1" "nlinks s1 0 = 2 + of_nat (subdirs home)"
      "entries s1 0 = entries s3 0 @ rest" "st_entries s1 {1 ..< nci s1} (ci_ino (mk_cinodes s3 ! 0)) rest home"
    using d(3,5) by (auto simp: looped_def)
  have i: "ci_ino (mk_cinodes s3 ! 0) = 1" "ci_ino (mk_cinodes s1 ! 0) = 1" "ftype s1 0 = MK_TYPE_DIR" "0 < nci s1"
    using mk_stepD(1,2) [OF d(2), of 0] mk_stepD(1,2) [OF l(2), of 0] mk_stepD(5) [OF l(2), of 0] c(2,4,5) d(3) by simp_all
  have "mk_ninos s1 = mk_ninos s" "mk_info s1 = take 32 (mk_label @ [0] @ junk)" using d(2) l(2) c(9) by (simp_all add: mk_step_def)
  then show ?thesis using l d(4) i by simp
qed

section \<open>Mounting the image\<close>

lemma count_unused_spec:
  "unat i + k \<le> unat (nbits fm) \<Longrightarrow> count_unused fm i k = Some (of_nat (card (bm_free fm \<inter> {unat i ..< unat i + k})))"
proof (induction k arbitrary: i)
  case (Suc k)
  have lt: "unat i < unat (nbits fm)" using Suc.prems by simp
  then have i1: "unat (i + 1) = Suc (unat i)" by (intro word_Suc [of i "nbits fm"]) (simp add: word_less_nat_alt)
  have "{unat i ..< unat i + Suc k} = insert (unat i) {Suc (unat i) ..< Suc (unat i) + k}" by auto
  then have "card (bm_free fm \<inter> {unat i ..< unat i + Suc k}) =
      (if unat i \<in> bm_free fm then 1 else 0) + card (bm_free fm \<inter> {Suc (unat i) ..< Suc (unat i) + k})"
    by simp
  moreover have "count_unused fm (i + 1) k = Some (of_nat (card (bm_free fm \<inter> {Suc (unat i) ..< Suc (unat i) + k})))"
    using Suc.IH [of "i + 1"] Suc.prems i1 by simp
  ultimately show ?case using lt by (simp add: bitmap_test_spec)
qed simp

lemma words_of_map:
  "map (\<lambda>i. rd32 (concat (map le32 ws)) (4 * i)) [0 ..< length (concat (map le32 ws)) div 4] = ws"
  by (rule nth_equalityI) (use rd32_concat [of _ ws "[]"] in simp_all)

lemma mount_map:
  assumes su: "su_blocks super = n" "su_unused_blocks super = n - next" and n: "3 \<le> next" "next \<le> n" "n \<le> 1024"
    and disk: "f_disk k 2 = concat (map le32 (mk_freemap_block n next 0))"
    and mem: "kmalloc 8192 (f_vm k) = Some (p3, v3)" "p3 \<noteq> 0" "kmalloc 12 v3 = Some (p4, v4)" "p4 \<noteq> 0" "kmalloc 4096 v4 = Some (p5, v5)" "p5 \<noteq> 0"
  shows "\<exists>k'. sfs_do_mount_map disk0_device_init super fs buf k = Some (0, k') \<and> sf_super (f_sfs k') = super \<and>
    disk_free k' = {unat next ..< unat n} \<and> f_disk k' = f_disk k \<and> space_ok k'"
proof -
  let ?ws = "mk_freemap_block n next 0"
  have n36: "n \<le> 1036" by (rule order_trans [OF n(3)]) simp
  have un: "unat n \<le> 1024" "0 < unat n" "unat next \<le> unat n" "3 \<le> unat next" using n by (simp_all add: word_le_nat_alt)
  have fmap: "length ?ws = 1024" "\<And>i. i < 32768 \<Longrightarrow> bm_bit ?ws i \<longleftrightarrow> unat next \<le> i \<and> i < unat n"
    using freemap_spec [OF n(2) n36] by auto
  have sum: "n + 32768 - 1 = n + 32767" by simp
  have un2: "unat (n + 32767) = unat n + 32767" using un by (subst unat_add_no_wrap) simp_all
  have blocks1: "ROUNDUP_DIV n 32768 = 1"
  proof -
    have "unat ((n + 32768 - 1) div 32768) = 1" unfolding sum unat_word_div un2 using un by simp
    then show ?thesis by (metis ROUNDUP_DIV_def unat_1 word_unat_eq_iff)
  qed
  have bits: "ROUNDUP n 32768 = 32768"
  proof -
    have "unat (ROUNDUP n 32768) = 32768" unfolding ROUNDUP_def unat_ROUNDDOWN sum un2 using un by (simp add: mod_if)
    then show ?thesis by (simp add: word_unat_eq_iff)
  qed
  have fb: "sfs_freemap_bits n = 32768" "sfs_freemap_blocks n = 1" "4 * ROUNDUP_DIV 32768 WORD_BITS = 4096"
    using blocks1 bits by (simp_all add: sfs_freemap_bits_def sfs_freemap_blocks_def SFS_BLKBITS_def SFS_BLKSIZE_def PGSIZE_def ROUNDUP_DIV_def WORD_BITS_def)
  obtain b where b: "bitmap_create True True 32768 = Some (Some b)" "bitmap_ok b" "nbits b = 32768"
    using bitmap_create_spec [where nb = "32768" and ?m1.0 = True and ?m2.0 = True] by auto
  have nw: "nwords b = 1024"
  proof -
    have "unat (nwords b) = 1024" using b(2,3) by (simp add: bitmap_ok_def)
    then show ?thesis by (simp add: word_unat_eq_iff)
  qed
  define fm where "fm = b\<lparr>bm_map := ?ws\<rparr>"
  have fm_sel: "nbits fm = 32768" "bm_map fm = ?ws" "nwords fm = 1024" using b(3) nw by (simp_all add: fm_def)
  have ok: "bitmap_ok fm" using fmap by (simp add: bitmap_ok_def fm_sel)
  have free: "bm_free fm = {unat next ..< unat n}"
    using fmap un by (auto simp: bm_free_def fm_sel)
  have rd: "sfs_init_read disk0_device_init 2 s = Some (0, f_disk s 2, s)" for s
    using disk0_io_block [of 2 "DISK0_DEVSIZE div DISK0_BLKSIZE" False "[]" "f_disk s"]
    by (simp add: sfs_init_read_def block_io_def disk0_device_init_def DISK0_DEVSIZE_def DISK0_BLKSIZE_def PGSIZE_def)
  have init: "sfs_init_freemap disk0_device_init b SFS_BLKN_FREEMAP 1 s = Some (0, fm, s)" if "f_disk s 2 = concat (map le32 ?ws)" for s
    using that fmap(1) words_of_map [of ?ws]
    by (simp add: sfs_init_freemap_def bitmap_getdata_def nw SFS_BLKSIZE_def PGSIZE_def kassert_def SFS_BLKN_FREEMAP_def rd fm_def)
  have "card (bm_free fm \<inter> {unat 0 ..< unat 0 + unat (32768 :: u32)}) = unat n - unat next"
  proof -
    have "bm_free fm \<inter> {0 ..< 32768} = {unat next ..< unat n}" unfolding free using un by auto
    then show ?thesis by simp
  qed
  then have cnt: "count_unused fm 0 (unat (32768 :: u32)) = Some (n - next)"
    using count_unused_spec [of 0 "unat (32768 :: u32)" fm] un fm_sel n(2) by (simp add: of_nat_diff)
  define k' where "k' = (hash_lists_init (k\<lparr>f_vm := v3\<rparr>))\<lparr>f_vm := v5, f_links := list_init InodeList (f_links (hash_lists_init (k\<lparr>f_vm := v3\<rparr>))), f_fs := fs,
     f_sfs := \<lparr>sf_super = super, sf_dev = disk0_device_init, sf_freemap = fm, sf_freemap_ptr = p4, sf_freemap_data = p5,
                 sf_super_dirty = False, sf_buffer = buf, sf_fs_sem = 1, sf_io_sem = 1, sf_mutex_sem = 1,
                 sf_hash_list = p3\<rparr>\<rparr>"
  have run: "sfs_do_mount_map disk0_device_init super fs buf k = Some (0, k')"
    using mem b(1) init disk cnt su unfolding sfs_do_mount_map_def
    by (simp add: kalloc_def fb hash_lists_init_def k'_def kassert_def)
  have "unat (n - next) = unat n - unat next" by (rule unat_sub [OF n(2)])
  then have "space_ok k'"
    using ok free un su n(3) by (simp add: space_ok_def k'_def sfs_ready_def sfs_dev_ok_def disk0_device_init_def disk_free_def fm_sel
        DISK0_DEVSIZE_def DISK0_BLKSIZE_def PGSIZE_def) auto
  then show ?thesis using run free by (intro exI [of _ k']) (simp add: k'_def disk_free_def hash_lists_init_def)
qed

lemma closed_super:
  assumes inv: "mk_inv n0 s" and n0: "n0 = 3" and run: "close_sfs s = Some s'" and info: "length (mk_info s) = 32"
  shows "get_super (mk_img s' 0) = \<lparr>su_magic = SFS_MAGIC, su_blocks = mk_ninos s, su_unused_blocks = mk_ninos s - mk_next_ino s, su_info = mk_info s\<rparr>"
proof -
  let ?su = "\<lparr>su_magic = SFS_MAGIC, su_blocks = mk_ninos s, su_unused_blocks = mk_ninos s - mk_next_ino s, su_info = mk_info s\<rparr>"
  have "pad (put_mk_super s) = put_super ?su @ replicate (4096 - length (put_mk_super s)) 0"
    using mk_invD(1) [OF inv] by (simp add: pad_def put_mk_super_def put_super_def mk_counts_def SFS_MAGIC_def MK_MAGIC_def)
  then show ?thesis using close_image(1) [OF inv n0 run] get_put_super [of ?su] info by simp
qed

section \<open>The kernel looks a name up on the image\<close>

lemma kernel_block:
  assumes ok: "space_ok k" and i: "sin n k = Some i" "si_din i = get_disk_inode (f_disk k ino)" and img: "fl = image_file (f_disk k) ino"
    and used: "\<forall>b \<in> set fl. sfs_blkno k b \<and> unat b \<notin> disk_free k"
    and ind: "12 < di_blocks (si_din i) \<longrightarrow> sfs_blkno k (di_indirect (si_din i)) \<and> length (f_disk k (di_indirect (si_din i))) = 4096"
    and idx: "index < di_blocks (si_din i)" "di_blocks (si_din i) \<le> 1036"
  shows "sfs_bmap_load_nolock n index k = Some (0, fl ! unat index, k)"
proof -
  let ?d = "si_din i"
  have ui: "unat index < unat (di_blocks ?d)" "unat (di_blocks ?d) \<le> 1036" using idx by (simp_all add: word_less_nat_alt word_le_nat_alt)
  have at: "fl ! unat index = (if unat index < 12 then di_direct ?d ! unat index else rd32 (f_disk k (di_indirect ?d)) (4 * (unat index - 12)))"
    using ui by (simp add: img image_file_def Let_def i(2))
  have "fl ! unat index \<in> set fl" using ui by (intro nth_mem) (simp add: img image_file_def Let_def i(2))
  then have b: "sfs_blkno k (fl ! unat index)" "unat (fl ! unat index) \<notin> disk_free k" "fl ! unat index \<noteq> 0"
    using used by (auto simp: sfs_blkno_def)
  have inuse: "assert_inuse (fl ! unat index) k = Some ()" using b by (simp add: block_inuse [OF ok])
  have "sfs_bmap_get_nolock n index False k = Some (0, fl ! unat index, k)"
  proof (cases "index < 12")
    case True
    then show ?thesis using b(3) inuse at by (simp add: sfs_bmap_get_nolock_def i(1) SFS_NDIRECT_def word_less_nat_alt Let_def)
  next
    case False
    have u12: "12 \<le> unat index" "unat (index - 12) = unat index - 12" using False by (simp_all add: not_less word_le_nat_alt unat_sub)
    have "12 < di_blocks ?d" using u12 ui by (simp add: word_less_nat_alt)
    then have e: "sfs_blkno k (di_indirect ?d)" "length (f_disk k (di_indirect ?d)) = 4096" using ind by blast+
    have en: "di_indirect ?d \<noteq> 0" using e(1) by (auto simp: sfs_blkno_def)
    have lt: "index - 12 < 1024" using u12 ui by (simp add: word_less_nat_alt)
    have uo: "unat ((index - 12) * 4) = 4 * (unat index - 12)"
      using u12 ui by (subst unat_mult_lem [THEN iffD1]) simp_all
    have "off < 4096 \<and> off + 4 \<le> 4096" if "unat off \<le> 4092" for off :: u32
    proof -
      have "unat (off + 4) = unat off + 4" using that by (subst unat_add_no_wrap) simp_all
      then show ?thesis using that by (simp add: word_less_nat_alt word_le_nat_alt)
    qed
    moreover have "unat ((index - 12) * 4) \<le> 4092" using uo ui by simp
    ultimately have "(index - 12) * 4 < 4096" "(index - 12) * 4 + 4 \<le> 4096" by blast+
    then have rb: "sfs_rbuf 4 (di_indirect ?d) ((index - 12) * 4) k =
        Some (0, take 4 (drop (4 * (unat index - 12)) (f_disk k (di_indirect ?d))), k)"
      using sfs_rbuf_ready [OF space_okD(1) [OF ok] e(1), of "(index - 12) * 4" 4] uo by simp
    have rd: "rd32 (take 4 (drop (4 * (unat index - 12)) (f_disk k (di_indirect ?d)))) 0 = rd32 (f_disk k (di_indirect ?d)) (4 * (unat index - 12))"
      using e(2) ui u12 by (simp add: rd32_def)
    show ?thesis using False at u12 lt en rb rd b(3) inuse
      by (simp add: sfs_bmap_get_nolock_def i(1) SFS_NDIRECT_def sfs_bmap_get_sub_nolock_def SFS_BLK_NENTRY_def SFS_BLKSIZE_def PGSIZE_def kassert_def Let_def)
  qed
  then show ?thesis using idx(1) inuse by (simp add: sfs_bmap_load_nolock_def i(1) kassert_def order_less_imp_le less_imp_neq)
qed

lemma kernel_dirent:
  assumes ok: "space_ok k" and i: "sin n k = Some i" "si_din i = get_disk_inode (f_disk k ino)" and dir: "di_type (si_din i) = SFS_TYPE_DIR"
    and used: "\<forall>b \<in> set (image_file (f_disk k) ino). sfs_blkno k b \<and> unat b \<notin> disk_free k"
    and ind: "12 < di_blocks (si_din i) \<longrightarrow> sfs_blkno k (di_indirect (si_din i)) \<and> length (f_disk k (di_indirect (si_din i))) = 4096"
    and small: "di_blocks (si_din i) \<le> 1036" and slot: "slot < unat (di_blocks (si_din i))"
  shows "\<exists>e. sfs_dirent_read_nolock n slot k = Some (0, e, k) \<and> (de_ino e, entry_name e) = map dent (image_data (f_disk k) ino) ! slot"
proof -
  let ?fl = "image_file (f_disk k) ino"
  have u: "unat (of_nat slot :: u32) = slot" using slot unat_lt_u32 [of "di_blocks (si_din i)"] by (intro unat_of_nat_small) simp
  have lt: "of_nat slot < di_blocks (si_din i)" using slot u by (simp add: word_less_nat_alt)
  have b: "sfs_bmap_load_nolock n (of_nat slot) k = Some (0, ?fl ! slot, k)"
    using kernel_block [OF ok i refl used ind lt small] by (simp add: u)
  have len: "slot < length ?fl" using slot by (simp add: image_file_def Let_def i(2))
  then have f: "sfs_blkno k (?fl ! slot)" "unat (?fl ! slot) \<notin> disk_free k" using used by simp_all
  have rb: "sfs_rbuf 260 (?fl ! slot) 0 k = Some (0, take 260 (f_disk k (?fl ! slot)), k)"
    using sfs_rbuf_ready [OF space_okD(1) [OF ok] f(1), of 0 260] by simp
  show ?thesis using dir lt b f rb len
    by (simp add: sfs_dirent_read_nolock_def i(1) kassert_def block_inuse [OF ok] image_data_def dent_def Let_def)
qed

lemma kernel_search:
  assumes rd: "\<And>j. j < length es \<Longrightarrow> \<exists>e. sfs_dirent_read_nolock n j k = Some (0, e, k) \<and> (de_ino e, entry_name e) = es ! j"
    and nz: "\<forall>x \<in> set es. fst x \<noteq> 0"
  shows "i + m = length es \<Longrightarrow> name \<in> snd ` set (drop i es) \<Longrightarrow>
    \<exists>slot < length es. sfs_dirent_search_loop n name i m fr k = Some (0, fst (es ! slot), slot, fr, k) \<and> snd (es ! slot) = name"
proof (induction m arbitrary: i)
  case (Suc m)
  then have i: "i < length es" by simp
  obtain e where e: "sfs_dirent_read_nolock n i k = Some (0, e, k)" "es ! i = (de_ino e, entry_name e)" using rd [OF i] by metis
  have "fst (es ! i) \<noteq> 0" using nz i by simp
  then have z: "de_ino e \<noteq> 0" by (simp add: e(2))
  show ?case
  proof (cases "name = entry_name e")
    case True
    then show ?thesis using e z i by (intro exI [of _ i]) simp
  next
    case False
    have "drop i es = es ! i # drop (Suc i) es" using i by (simp add: Cons_nth_drop_Suc)
    then have "name \<in> snd ` set (drop (Suc i) es)" using Suc.prems(2) False e(2) by auto
    then show ?thesis using Suc.IH [of "Suc i"] Suc.prems(1) e(1) z False by simp
  qed
qed simp

lemma kernel_search_none:
  assumes rd: "\<And>j. j < length es \<Longrightarrow> \<exists>e. sfs_dirent_read_nolock n j k = Some (0, e, k) \<and> (de_ino e, entry_name e) = es ! j"
    and nz: "\<forall>x \<in> set es. fst x \<noteq> 0" and no: "name \<notin> snd ` set es"
  shows "i + m = length es \<Longrightarrow> sfs_dirent_search_loop n name i m fr k = Some (- E_NOENT, 0, 0, fr, k)"
proof (induction m arbitrary: i)
  case (Suc m)
  then have i: "i < length es" by simp
  obtain e where e: "sfs_dirent_read_nolock n i k = Some (0, e, k)" "es ! i = (de_ino e, entry_name e)" using rd [OF i] by metis
  have "fst (es ! i) \<noteq> 0" "snd (es ! i) \<noteq> name" using nz no nth_mem [OF i] by (blast, force)
  then show ?case using Suc.IH [of "Suc i"] Suc.prems e by simp
qed simp

text \<open>The entries of the home directory that the tool copies.\<close>

fun listed :: "hdir \<Rightarrow> (u8 list \<times> hnode) list" where
  "listed DirEnd = []"
| "listed (DirEntry name node es) = (if hidden name \<or> node = HOther then listed es else (name, node) # listed es)"

lemma on_entries_listed:
  "on_entries img par rest es \<Longrightarrow> map snd rest = map (take 252 \<circ> fst) (listed es) \<and> (\<forall>x \<in> set rest. fst x \<noteq> 0) \<and>
     length rest = length (listed es) \<and> (\<forall>j < length rest. on_image img par (fst (rest ! j)) (snd (listed es ! j)))"
proof (induction es arbitrary: rest rule: listed.induct)
  case (2 name node es)
  show ?case
  proof (cases "hidden name \<or> node = HOther")
    case True
    then show ?thesis using 2 by simp
  next
    case False
    then obtain i n rest' where r: "rest = (i, n) # rest'" "i \<noteq> 0" "n = take 252 name" "on_image img par i node" "on_entries img par rest' es"
      using 2(3) by (auto split: list.splits)
    note IH = 2(2) [OF False r(5)]
    have "\<forall>j < length rest. on_image img par (fst (rest ! j)) (snd (listed (DirEntry name node es) ! j))"
      using IH r(1,4) False by (auto simp: nth_Cons split: nat.splits)
    then show ?thesis using IH r False by simp
  qed
qed simp

lemma case_two:
  "(case xs of (i, n) # (j, m) # rest \<Rightarrow> i = a \<and> n = b \<and> j = c \<and> m = d \<and> P rest | _ \<Rightarrow> False) \<Longrightarrow> \<exists>rest. xs = (a, b) # (c, d) # rest \<and> P rest"
  by (cases xs; cases "tl xs"; cases "hd xs"; cases "hd (tl xs)") auto

lemma on_image_dirD:
  assumes "on_image img par ino (HDir real ok es)"
  shows "\<exists>rest. map dent (image_data img ino) = (ino, [46]) # (par, [46, 46]) # rest \<and> on_entries img ino rest es"
    "di_type (get_disk_inode (img ino)) = SFS_TYPE_DIR"
  using assms by (auto dest: case_two simp del: map_eq_Cons_conv)

lemma listed_visible: "(name, node) \<in> set (listed es) \<Longrightarrow> \<not> hidden name"
  by (induction es rule: listed.induct) (auto split: if_splits)

text \<open>The root of the image, mounted: its blocks are in use.\<close>

lemma root_in_use:
  assumes inv: "mk_inv n0 s" and n0: "n0 = 3" and run: "close_sfs s = Some s'" and f: "0 < nci s" "ci_ino (mk_cinodes s ! 0) = 1" and small: "mk_ninos s \<le> 1024"
    and k: "f_disk k = mk_img s'" "su_blocks (sf_super (f_sfs k)) = mk_ninos s" "disk_free k = {unat (mk_next_ino s) ..< unat (mk_ninos s)}"
  shows "\<forall>b \<in> set (image_file (f_disk k) 1). sfs_blkno k b \<and> unat b \<notin> disk_free k"
    "12 < di_blocks (get_disk_inode (mk_img s' 1)) \<longrightarrow> sfs_blkno k (di_indirect (get_disk_inode (mk_img s' 1))) \<and>
      length (f_disk k (di_indirect (get_disk_inode (mk_img s' 1)))) = 4096"
    "di_blocks (get_disk_inode (mk_img s' 1)) \<le> 1036"
proof -
  note cf = closed_file [OF inv n0 run f(1), unfolded f(2)] and ci = close_image [OF inv n0 run]
  have cnt: "3 \<le> mk_next_ino s" "mk_next_ino s \<le> mk_ninos s" using mk_invD(1) [OF inv] n0 by (auto simp: mk_counts_def)
  have ok: "ci_ok n0 s 0" by (rule mk_invD(2) [OF inv f(1)])
  have blk: "sfs_blkno k b" if "b < mk_next_ino s" "b \<noteq> 0" for b
    using that cnt(2) by (simp add: sfs_blkno_def k(2) word_gt_0)
  show "\<forall>b \<in> set (image_file (f_disk k) 1). sfs_blkno k b \<and> unat b \<notin> disk_free k"
  proof
    fix b assume "b \<in> set (image_file (f_disk k) 1)"
    then have b: "3 \<le> b \<and> b < mk_next_ino s" using file_bound [OF inv f(1)] by (simp add: k(1) cf(5) n0)
    then have "b \<noteq> 0" using block_ge3 [of 3 b] by simp
    then show "sfs_blkno k b \<and> unat b \<notin> disk_free k" using b blk by (simp add: k(3) word_less_nat_alt)
  qed
  show "di_blocks (get_disk_inode (mk_img s' 1)) \<le> 1036"
    using ok mk_invD(1) [OF inv] by (simp add: cf ci_ok_def Let_def mk_counts_def word_le_nat_alt)
  show "12 < di_blocks (get_disk_inode (mk_img s' 1)) \<longrightarrow> sfs_blkno k (di_indirect (get_disk_inode (mk_img s' 1))) \<and>
      length (f_disk k (di_indirect (get_disk_inode (mk_img s' 1)))) = 4096"
  proof
    assume "12 < di_blocks (get_disk_inode (mk_img s' 1))"
    then have "12 < ci_nblks (mk_cinodes s ! 0)" by (simp add: cf)
    then obtain p where p: "p < length (mk_cblocks s)" "cb_ino (mk_cblocks s ! p) = mi_indirect (ci_inode (mk_cinodes s ! 0))"
      using ci_ok_l1 [OF ok] by blast
    have "length (mi_direct (ci_inode (mk_cinodes s ! 0))) = 12" using ok by (simp add: ci_ok_def Let_def)
    then have di: "di_indirect (get_disk_inode (mk_img s' 1)) = cb_ino (mk_cblocks s ! p)"
      using get_mk_inode [of "ci_inode (mk_cinodes s ! 0)"] ci(3) [OF f(1)] p(2) by (simp add: f(2))
    have pin: "cb_ino (mk_cblocks s ! p) \<in> set (mk_inos s)" using p(1) by (simp add: mk_inos_def)
    then have "cb_ino (mk_cblocks s ! p) \<noteq> 0" using mk_invD(1) [OF inv] block_ge3 [of 3] n0 by (auto simp: mk_counts_def)
    moreover have "length (cb_cache (mk_cblocks s ! p)) = 1024" using mk_invD(4) [OF inv] p(1) by (simp add: chains_ok_def)
    ultimately show "sfs_blkno k (di_indirect (get_disk_inode (mk_img s' 1))) \<and> length (f_disk k (di_indirect (get_disk_inode (mk_img s' 1)))) = 4096"
      using blk [OF inos_bound [OF inv pin]] ci(4) [OF p(1)] by (simp add: di k(1))
  qed
qed

end
