(* ===== verification/MkSfsFits.thy ===== *)
theory MkSfsFits
  imports MkSfsProps LifeProps
begin

text \<open>
  The properties of the image builder, over the lemmas of \<^verbatim>\<open>MkSfsProps\<close>. The first part shows when the tool
  succeeds: each operation on the image returns when enough blocks are left, and takes exactly the number that
  \<open>block_cost\<close> counts. The second part runs the allocator of the kernel on one free heap block, so that the mount of the
  example image has its memory.
\<close>

unbundle bit_operations_syntax

section \<open>The tool succeeds\<close>

text \<open>\<open>block_cost b m\<close>: how many blocks it takes to append \<open>m\<close> blocks to a file of \<open>b\<close> blocks, with the indirect block that the 13th needs.\<close>

definition block_cost :: "nat \<Rightarrow> nat \<Rightarrow> nat" where
  "block_cost b m = m + (if b \<le> 12 \<and> 12 < b + m then 1 else 0)"

lemma block_cost_Suc: "block_cost b (Suc m) = block_cost b 1 + block_cost (Suc b) m"
  by (auto simp: block_cost_def)

lemma block_cost_0 [simp]: "block_cost b 0 = 0"
  by (simp add: block_cost_def)

lemma length_fdata [simp]: "length (fdata s f) = unat (ci_nblks (mk_cinodes s ! f))"
  by (simp add: fdata_def)

lemma length_entries [simp]: "length (entries s f) = length (fdata s f)"
  by (simp add: entries_def)

lemma alloc_ino_some:
  "unat (mk_next_ino s) < unat (mk_ninos s) \<Longrightarrow>
   sfs_alloc_ino s = Some (mk_next_ino s, s\<lparr>mk_unused := mk_unused s - 1, mk_next_ino := mk_next_ino s + 1\<rparr>) \<and> unat (mk_next_ino s + 1) = Suc (unat (mk_next_ino s))"
  using word_Suc [of "mk_next_ino s" "mk_ninos s"] by (simp add: sfs_alloc_ino_def word_less_nat_alt)

lemma append_block_some:
  assumes inv: "mk_inv n0 s" and f: "f < nci s" and sz: "sz \<le> 4096"
    and room: "unat n0 + unat (ci_nblks (mk_cinodes s ! f)) < unat (mk_next_ino s)"
    and ind: "ci_nblks (mk_cinodes s ! f) = 12 \<Longrightarrow> unat (mk_next_ino s) < unat (mk_ninos s)"
  shows "\<exists>s'. append_block s f sz ino = Some s' \<and> mk_subpath s' = mk_subpath s \<and>
    unat (mk_next_ino s') = unat (mk_next_ino s) + (if ci_nblks (mk_cinodes s ! f) = 12 then 1 else 0)"
proof -
  let ?c = "mk_cinodes s ! f"
  note mk_consts = MK_L0_NBLKS_def MK_NDIRECT_def MK_L1_NBLKS_def MK_BLK_NENTRY_def MK_BLKSIZE_def MK_LN_NBLKS_def
  have "unat (mk_next_ino s) \<le> 1036" using mk_invD(1) [OF inv] by (auto simp: mk_counts_def word_le_nat_alt)
  then have n: "ci_nblks ?c < 1036" "\<not> 32768 \<le> ci_nblks ?c" using room by (simp_all add: word_less_nat_alt word_le_nat_alt)
  have ok: "ci_ok n0 s f" by (rule mk_invD(2) [OF inv f])
  show ?thesis
  proof (cases "ci_nblks ?c < 12")
    case True
    then show ?thesis using n sz by (auto simp: append_block_def mk_consts kassert_def Let_def upd_ci_def not_le)
  next
    case False
    have "\<exists>p m s1. update_cache s (ci_l1 ?c) (mi_indirect (ci_inode ?c)) = Some (p, m, s1) \<and> mk_subpath s1 = mk_subpath s \<and>
      unat (mk_next_ino s1) = unat (mk_next_ino s) + (if ci_nblks ?c = 12 then 1 else 0)"
    proof (cases "ci_nblks ?c = 12")
      case True
      have "mi_indirect (ci_inode ?c) = 0" using ok True by (simp add: ci_ok_def Let_def)
      then show ?thesis using alloc_ino_some [OF ind [OF True]] True by (simp add: update_cache_def alloc_cache_block_def Let_def)
    next
      case gt: False
      then have "12 < ci_nblks ?c" using False by (simp add: not_less order_less_le)
      then obtain q where q: "ci_l1 ?c = Some q" "q < length (mk_cblocks s)" "cb_ino (mk_cblocks s ! q) = mi_indirect (ci_inode ?c)"
        using ci_ok_l1 [OF ok] by blast
      have "cb_ino (mk_cblocks s ! q) \<in> set (mk_inos s)" using q(2) by (simp add: mk_inos_def)
      then have "mi_indirect (ci_inode ?c) \<noteq> 0"
        using mk_invD(1) [OF inv] q(3) block_ge3 [of n0] by (auto simp: mk_counts_def)
      then show ?thesis using q gt by (simp add: update_cache_def)
    qed
    then obtain p m s1 where u: "update_cache s (ci_l1 ?c) (mi_indirect (ci_inode ?c)) = Some (p, m, s1)" "mk_subpath s1 = mk_subpath s"
      "unat (mk_next_ino s1) = unat (mk_next_ino s) + (if ci_nblks ?c = 12 then 1 else 0)" by blast
    then show ?thesis using False n sz by (auto simp: append_block_def mk_consts kassert_def Let_def upd_ci_def upd_cb_def not_le)
  qed
qed

lemma put_block_some:
  assumes inv: "mk_inv n0 s" and f: "f < nci s" and sz: "sz \<le> 4096" and data: "length data \<le> 4096"
    and room: "unat (mk_next_ino s) + block_cost (length (fdata s f)) 1 \<le> unat (mk_ninos s)"
  shows "\<exists>s'. put_block f data sz s = Some s' \<and> mk_subpath s' = mk_subpath s \<and>
    unat (mk_next_ino s') = unat (mk_next_ino s) + block_cost (length (fdata s f)) 1"
proof -
  let ?s1 = "s\<lparr>mk_unused := mk_unused s - 1, mk_next_ino := mk_next_ino s + 1\<rparr>" and ?c = "mk_cinodes s ! f"
  define s2 where "s2 = ?s1\<lparr>mk_img := (mk_img s)(mk_next_ino s := pad data)\<rparr>"
  have lt: "unat (mk_next_ino s) < unat (mk_ninos s)" using room by (simp add: block_cost_def split: if_splits)
  note a = alloc_ino_some [OF lt]
  have inv1: "mk_inv n0 ?s1" using alloc_ino_spec [OF inv conjunct1 [OF a]] by blast
  have inv2: "mk_inv n0 s2" using inv1 by (simp add: s2_def)
  have w: "write_block ?s1 data (mk_next_ino s) = Some s2" using data lt by (simp add: write_block_spec s2_def word_less_nat_alt)
  have c12: "unat (ci_nblks ?c) = 12 \<longleftrightarrow> ci_nblks ?c = 12" by (simp add: word_unat_eq_iff)
  have s2: "mk_cinodes s2 = mk_cinodes s" "mk_ninos s2 = mk_ninos s" "mk_subpath s2 = mk_subpath s" "unat (mk_next_ino s2) = Suc (unat (mk_next_ino s))"
    using a by (simp_all add: s2_def)
  have "\<exists>s'. append_block s2 f sz (mk_next_ino s) = Some s' \<and> mk_subpath s' = mk_subpath s2 \<and>
    unat (mk_next_ino s') = unat (mk_next_ino s2) + (if ci_nblks (mk_cinodes s2 ! f) = 12 then 1 else 0)"
  proof (rule append_block_some [OF inv2 _ sz])
    have "unat n0 + unat (ci_nblks ?c) \<le> unat (mk_next_ino s)" using mk_invD(2) [OF inv f] by (simp add: ci_ok_def Let_def)
    then show "unat n0 + unat (ci_nblks (mk_cinodes s2 ! f)) < unat (mk_next_ino s2)" by (simp add: s2)
    show "unat (mk_next_ino s2) < unat (mk_ninos s2)" if "ci_nblks (mk_cinodes s2 ! f) = 12"
      using room that by (simp add: s2 block_cost_def)
  qed (use f in \<open>simp add: s2\<close>)
  then obtain s' where s': "append_block s2 f sz (mk_next_ino s) = Some s'" "mk_subpath s' = mk_subpath s2"
    "unat (mk_next_ino s') = unat (mk_next_ino s2) + (if ci_nblks (mk_cinodes s2 ! f) = 12 then 1 else 0)" by blast
  have "put_block f data sz s = Some s'" using a w s'(1) by (simp add: put_block_def)
  moreover have "block_cost (length (fdata s f)) 1 = Suc (if ci_nblks ?c = 12 then 1 else 0)" by (auto simp: block_cost_def c12 [symmetric])
  ultimately show ?thesis using s' by (simp add: s2)
qed


lemma add_entry_some:
  assumes inv: "mk_inv n0 s" and dd: "dd < nci s" and f: "f < nci s" and ty: "ftype s dd = MK_TYPE_DIR" "length name \<le> 255"
    and room: "unat (mk_next_ino s) + block_cost (length (fdata s dd)) 1 \<le> unat (mk_ninos s)"
  shows "\<exists>s'. add_entry s dd f name = Some s' \<and> mk_subpath s' = mk_subpath s \<and>
    unat (mk_next_ino s') = unat (mk_next_ino s) + block_cost (length (fdata s dd)) 1"
proof -
  define s1 where "s1 = s\<lparr>mk_entry := name @ [0] @ drop (length name + 1) (mk_entry s)\<rparr>"
  let ?data = "take 256 (le32 (ci_ino (mk_cinodes s ! f)) @ name @ [0] @ drop (length name + 1) (mk_entry s))"
  have e: "length (mk_entry s) = 256" using mk_invD(1) [OF inv] by (simp add: mk_counts_def)
  have inv1: "mk_inv n0 s1" unfolding s1_def using inv e ty(2) by (intro mk_inv_other) simp_all
  have "\<exists>s'. put_block dd ?data 256 s1 = Some s' \<and> mk_subpath s' = mk_subpath s1 \<and>
    unat (mk_next_ino s') = unat (mk_next_ino s1) + block_cost (length (fdata s1 dd)) 1"
    using dd room by (intro put_block_some [OF inv1]) (simp_all add: s1_def fdata_def)
  then obtain s2 where r: "put_block dd ?data 256 s1 = Some s2" "mk_subpath s2 = mk_subpath s1"
    "unat (mk_next_ino s2) = unat (mk_next_ino s1) + block_cost (length (fdata s1 dd)) 1" by blast
  have "add_entry s dd f name = Some (count_link f s2)"
    using ty r(1) unfolding put_block_def s1_def
    by (auto simp: add_entry_def kassert_def count_link_def MK_MAX_FNAME_LEN_def Let_def bind_eq_Some_conv)
  then show ?thesis using r by (simp add: count_link_def upd_ci_def s1_def fdata_def)
qed

lemma full_Cons: "full_but_last (c # cs) \<Longrightarrow> length c \<le> 4096 \<and> full_but_last cs \<and> (cs \<noteq> [] \<longrightarrow> length c = 4096)"
  by (cases cs) (auto simp: full_but_last_def)

lemma open_file_loop_some:
  "mk_inv n0 s \<Longrightarrow> f < nci s \<Longrightarrow> ftype s f \<noteq> MK_TYPE_DIR \<Longrightarrow> full_but_last chunks \<Longrightarrow> (chunks \<noteq> [] \<longrightarrow> prev = 4096) \<Longrightarrow>
   unat (mk_next_ino s) + block_cost (length (fdata s f)) (length chunks) \<le> unat (mk_ninos s) \<Longrightarrow>
   \<exists>s'. open_file_loop s f chunks prev = Some s' \<and> mk_subpath s' = mk_subpath s \<and>
     unat (mk_next_ino s') = unat (mk_next_ino s) + block_cost (length (fdata s f)) (length chunks)"
proof (induction chunks arbitrary: s prev)
  case (Cons c cs)
  let ?b = "length (fdata s f)"
  have c: "length c \<le> 4096" "full_but_last cs" "cs \<noteq> [] \<longrightarrow> length c = 4096"
    using full_Cons [OF Cons.prems(4)] by blast+
  have cost: "block_cost ?b (length (c # cs)) = block_cost ?b 1 + block_cost (Suc ?b) (length cs)" using block_cost_Suc [of ?b "length cs"] by simp
  obtain s1 where r: "put_block f c (length c) s = Some s1" "mk_subpath s1 = mk_subpath s"
      "unat (mk_next_ino s1) = unat (mk_next_ino s) + block_cost ?b 1"
    using put_block_some [OF Cons.prems(1,2) c(1) c(1)] Cons.prems(6) cost by auto
  have pb: "mk_inv n0 s1 \<and> mk_step {f} {} s s1 \<and> nci s1 = nci s \<and> mk_entry s1 = mk_entry s \<and>
      fdata s1 f = fdata s f @ [pad c] \<and> length c \<le> 4096 \<and> fsize s1 f = fsize s f + of_nat (length c) \<and> nlinks s1 f = nlinks s f"
    using Cons.prems(1-3) r(1) by (intro put_block_spec) auto
  have b1: "length (fdata s1 f) = Suc ?b" using pb by (simp del: length_fdata)
  have ni: "mk_ninos s1 = mk_ninos s" using pb by (simp add: mk_step_def)
  have "ftype s1 f \<noteq> MK_TYPE_DIR" using pb mk_stepD(2) [of "{f}" "{}" s s1 f] Cons.prems(2,3) by simp
  then have "\<exists>s'. open_file_loop s1 f cs (length c) = Some s' \<and> mk_subpath s' = mk_subpath s1 \<and>
     unat (mk_next_ino s') = unat (mk_next_ino s1) + block_cost (length (fdata s1 f)) (length cs)"
    using pb Cons.prems(2,6) c(2,3) r(3) cost by (intro Cons.IH) (simp_all add: b1 ni del: length_fdata)
  then obtain s' where s': "open_file_loop s1 f cs (length c) = Some s'" "mk_subpath s' = mk_subpath s1"
     "unat (mk_next_ino s') = unat (mk_next_ino s1) + block_cost (Suc ?b) (length cs)" using b1 by metis
  have "open_file_loop s f (c # cs) prev = Some s'" unfolding open_file_loop_put using Cons.prems(5) r(1) s'(1) by (auto simp: MK_BLKSIZE_def)
  then show ?case using s' r cost by simp
qed simp

section \<open>Size of a tree\<close>

text \<open>The blocks that the tool uses for a node, without its entry, and for the entries of a directory, without the entries themselves.\<close>

fun node_cost :: "hnode \<Rightarrow> nat" and dir_cost :: "hdir \<Rightarrow> nat" and dir_entries :: "hdir \<Rightarrow> nat" where
  "node_cost (HLink real target) = 2"
| "node_cost (HFile real chunks ok) = 1 + block_cost 0 (length chunks)"
| "node_cost (HDir real ok es) = 1 + block_cost 0 (2 + dir_entries es) + dir_cost es"
| "node_cost HOther = 0"
| "node_cost HClosed = 0"
| "dir_cost DirEnd = 0"
| "dir_cost (DirEntry name node es) = (if hidden name then 0 else node_cost node) + dir_cost es"
| "dir_entries DirEnd = 0"
| "dir_entries (DirEntry name node es) = (if hidden name \<or> node = HOther then 0 else 1) + dir_entries es"

text \<open>The host lets the tool read the tree, and the names and links are short enough.\<close>

fun readable :: "hnode \<Rightarrow> bool" and readable_dir :: "hdir \<Rightarrow> bool" where
  "readable (HLink real target) \<longleftrightarrow> (\<exists>t. target = Some t \<and> length t < 4096)"
| "readable (HFile real chunks ok) \<longleftrightarrow> ok \<and> full_but_last chunks"
| "readable (HDir real ok es) \<longleftrightarrow> ok \<and> readable_dir es"
| "readable HOther \<longleftrightarrow> True"
| "readable HClosed \<longleftrightarrow> False"
| "readable_dir DirEnd \<longleftrightarrow> True"
| "readable_dir (DirEntry name node es) \<longleftrightarrow> (hidden name \<or> length name \<le> 255 \<and> readable node) \<and> readable_dir es"

lemma alloc_cache_inode_some:
  assumes "unat (mk_next_ino s) < unat (mk_ninos s)"
  shows "\<exists>s'. alloc_cache_inode s real 0 type = Some (nci s, s') \<and> mk_subpath s' = mk_subpath s \<and> unat (mk_next_ino s') = Suc (unat (mk_next_ino s))"
  using alloc_ino_some [OF assms] by (simp add: alloc_cache_inode_def Let_def)

text \<open>\<open>fits run s k\<close>: the run succeeds from \<open>s\<close> with \<open>k\<close> blocks.\<close>

definition fits :: "mk_fs option \<Rightarrow> mk_fs \<Rightarrow> nat \<Rightarrow> bool" where
  "fits run s k \<longleftrightarrow> (\<exists>s'. run = Some s' \<and> mk_subpath s' = mk_subpath s \<and> unat (mk_next_ino s') = unat (mk_next_ino s) + k)"


lemma link_fits:
  assumes inv: "mk_inv n0 s" and dd: "dd < nci s" "ftype s dd = MK_TYPE_DIR" "length name \<le> 255" and t: "length t < 4096"
    and room: "unat (mk_next_ino s) + (2 + block_cost (length (fdata s dd)) 1) \<le> unat (mk_ninos s)"
  shows "fits (add_link s dd name (Some t) real) s (2 + block_cost (length (fdata s dd)) 1)"
proof -
  obtain s1 where a: "alloc_cache_inode s real 0 MK_TYPE_LINK = Some (nci s, s1)" "mk_subpath s1 = mk_subpath s" "unat (mk_next_ino s1) = Suc (unat (mk_next_ino s))"
    using alloc_cache_inode_some [of s real MK_TYPE_LINK] room by auto
  note n = new_inode [OF inv a(1)]
  have ni: "mk_ninos s1 = mk_ninos s" using n(3) by (simp add: mk_step_def)
  have "\<exists>s2. put_block (nci s) t (length t) s1 = Some s2 \<and> mk_subpath s2 = mk_subpath s1 \<and>
      unat (mk_next_ino s2) = unat (mk_next_ino s1) + block_cost (length (fdata s1 (nci s))) 1"
    using n t room a(3) by (intro put_block_some [OF n(2)]) (auto simp: ni block_cost_def simp del: length_fdata)
  then obtain s2 where p: "put_block (nci s) t (length t) s1 = Some s2" "mk_subpath s2 = mk_subpath s1" "unat (mk_next_ino s2) = Suc (unat (mk_next_ino s1))"
    using n(6) by (auto simp: block_cost_def simp del: length_fdata)
  then have l: "open_link s1 (nci s) (Some t) = Some s2"
    using t by (auto simp: open_link_def put_block_def bind_eq_Some_conv kassert_def MK_BLKSIZE_def)
  have o: "mk_inv n0 s2" "mk_step {nci s} {} s1 s2" "nci s2 = nci s1"
    using open_link_spec [OF n(2) _ n(5) l] n(4) by auto
  have ne: "dd < nci s1" "dd \<noteq> nci s" using dd(1) n(4) by auto
  have k: "fdata s2 dd = fdata s dd" "ftype s2 dd = MK_TYPE_DIR"
    using mk_step_fdata [OF n(2) o(2) ne(1)] mk_stepD(2) [OF o(2) ne(1)] n(9) [OF dd(1)] ne dd(2) by simp_all
  have n2: "mk_ninos s2 = mk_ninos s" using o(2) ni by (simp add: mk_step_def)
  have "\<exists>s'. add_entry s2 dd (nci s) name = Some s' \<and> mk_subpath s' = mk_subpath s2 \<and>
    unat (mk_next_ino s') = unat (mk_next_ino s2) + block_cost (length (fdata s2 dd)) 1"
    using room p a dd ne n(4) o(3) k by (intro add_entry_some [OF o(1)]) (simp_all add: n2 del: length_fdata)
  then show ?thesis using a p l k by (auto simp: fits_def add_link_def simp del: length_fdata)
qed

lemma file_fits:
  assumes inv: "mk_inv n0 s" and dd: "dd < nci s" "ftype s dd = MK_TYPE_DIR" "length name \<le> 255" and fl: "full_but_last chunks"
    and new: "real \<notin> ci_real ` set (mk_cinodes s)"
    and room: "unat (mk_next_ino s) + (1 + block_cost 0 (length chunks) + block_cost (length (fdata s dd)) 1) \<le> unat (mk_ninos s)"
  shows "fits (add_file s dd name chunks True real) s (1 + block_cost 0 (length chunks) + block_cost (length (fdata s dd)) 1)"
proof -
  obtain s1 where a: "alloc_cache_inode s real 0 MK_TYPE_FILE = Some (nci s, s1)" "mk_subpath s1 = mk_subpath s" "unat (mk_next_ino s1) = Suc (unat (mk_next_ino s))"
    using alloc_cache_inode_some [of s real MK_TYPE_FILE] room by auto
  note n = new_inode [OF inv a(1)]
  have ni: "mk_ninos s1 = mk_ninos s" using n(3) by (simp add: mk_step_def)
  have nd: "ftype s1 (nci s) \<noteq> MK_TYPE_DIR" using n(5) by (simp add: MK_TYPE_FILE_def MK_TYPE_DIR_def)
  have "\<exists>s2. open_file_loop s1 (nci s) chunks 4096 = Some s2 \<and> mk_subpath s2 = mk_subpath s1 \<and>
      unat (mk_next_ino s2) = unat (mk_next_ino s1) + block_cost (length (fdata s1 (nci s))) (length chunks)"
    using n fl nd room a(3) by (intro open_file_loop_some [OF n(2)]) (auto simp: ni simp del: length_fdata)
  then obtain s2 where p: "open_file_loop s1 (nci s) chunks 4096 = Some s2" "mk_subpath s2 = mk_subpath s1"
      "unat (mk_next_ino s2) = unat (mk_next_ino s1) + block_cost 0 (length chunks)"
    using n(6) by (auto simp del: length_fdata)
  have o: "mk_inv n0 s2" "mk_step {nci s} {} s1 s2" "nci s2 = nci s1"
    using open_file_loop_spec [OF n(2) _ nd p(1)] n(4) by auto
  have ne: "dd < nci s1" "dd \<noteq> nci s" using dd(1) n(4) by auto
  have k: "fdata s2 dd = fdata s dd" "ftype s2 dd = MK_TYPE_DIR"
    using mk_step_fdata [OF n(2) o(2) ne(1)] mk_stepD(2) [OF o(2) ne(1)] n(9) [OF dd(1)] ne dd(2) by simp_all
  have n2: "mk_ninos s2 = mk_ninos s" using o(2) ni by (simp add: mk_step_def)
  have "\<exists>s'. add_entry s2 dd (nci s) name = Some s' \<and> mk_subpath s' = mk_subpath s2 \<and>
    unat (mk_next_ino s') = unat (mk_next_ino s2) + block_cost (length (fdata s2 dd)) 1"
    using room p a dd ne n(4) o(3) k by (intro add_entry_some [OF o(1)]) (simp_all add: n2 del: length_fdata)
  then show ?thesis using a p k by (auto simp: fits_def add_file_def open_file_img_def search_none [OF inv new] kassert_def MK_BLKSIZE_def simp del: length_fdata)
qed

text \<open>The two first entries of a directory.\<close>

lemma dots_fit:
  assumes inv: "mk_inv n0 s" and f: "f < nci s" "par < nci s" "ftype s f = MK_TYPE_DIR" and e: "fdata s f = []"
    and room: "unat (mk_next_ino s) + 2 \<le> unat (mk_ninos s)"
  shows "\<exists>s1 s2. add_entry s f f [46] = Some s1 \<and> add_entry s1 f par [46, 46] = Some s2 \<and> mk_subpath s2 = mk_subpath s \<and>
    unat (mk_next_ino s2) = unat (mk_next_ino s) + 2"
proof -
  obtain s1 where a: "add_entry s f f [46] = Some s1" "mk_subpath s1 = mk_subpath s" "unat (mk_next_ino s1) = unat (mk_next_ino s) + 1"
    using add_entry_some [OF inv f(1,1,3), of "[46]"] room e by (auto simp: block_cost_def simp del: length_fdata)
  have ae: "ftype s f = MK_TYPE_DIR \<and> mk_inv n0 s1 \<and> mk_step {f, f} {} s s1 \<and> nci s1 = nci s \<and>
    entries s1 f = entries s f @ [(ci_ino (mk_cinodes s ! f), take 252 [46])]"
    using add_entry_spec [OF inv f(1,1) _ a(1)] by auto
  have "length (entries s1 f) = 1" using ae e by (simp add: entries_def del: length_entries length_fdata)
  then have l: "length (fdata s1 f) = 1" by (simp del: length_fdata)
  have t: "ftype s1 f = MK_TYPE_DIR" "mk_ninos s1 = mk_ninos s" using mk_stepD(2) [of "{f, f}" "{}" s s1 f] ae f by (auto simp: mk_step_def)
  have "\<exists>s2. add_entry s1 f par [46, 46] = Some s2 \<and> mk_subpath s2 = mk_subpath s1 \<and> unat (mk_next_ino s2) = unat (mk_next_ino s1) + block_cost (length (fdata s1 f)) 1"
    using ae f room a t l by (intro add_entry_some) (auto simp: block_cost_def simp del: length_fdata)
  then show ?thesis using a l by (auto simp: block_cost_def simp del: length_fdata)
qed


lemma block_cost_2: "block_cost 0 (2 + d) = 2 + block_cost 2 d"
  by (auto simp: block_cost_def)

lemma dir_fits:
  assumes inv: "mk_inv n0 s" and dd: "dd < nci s" "ftype s dd = MK_TYPE_DIR" "length name \<le> 255"
    and new: "set (real # host_inodes_dir es) \<inter> ci_real ` set (mk_cinodes s) = {}" "distinct (real # host_inodes_dir es)"
    and es: "names_ok_dir es"
    and room: "unat (mk_next_ino s) + (node_cost (HDir real True es) + block_cost (length (fdata s dd)) 1) \<le> unat (mk_ninos s)"
    and IH: "\<And>c t. mk_inv n0 t \<Longrightarrow> c < nci t \<Longrightarrow> ftype t c = MK_TYPE_DIR \<Longrightarrow> set (host_inodes_dir es) \<inter> ci_real ` set (mk_cinodes t) = {} \<Longrightarrow>
      unat (mk_next_ino t) + (dir_cost es + block_cost (length (fdata t c)) (dir_entries es)) \<le> unat (mk_ninos t) \<Longrightarrow>
      fits (open_dir_loop es c t) t (dir_cost es + block_cost (length (fdata t c)) (dir_entries es))"
  shows "fits (add_dir s dd name True (open_dir_loop es) real) s (node_cost (HDir real True es) + block_cost (length (fdata s dd)) 1)"
proof -
  let ?f = "nci s" and ?d = "dir_cost es + block_cost 2 (dir_entries es)"
  have cost: "node_cost (HDir real True es) = 3 + ?d" using block_cost_2 [of "dir_entries es"] by simp
  obtain s1 where a: "alloc_cache_inode s real 0 MK_TYPE_DIR = Some (?f, s1)" "mk_subpath s1 = mk_subpath s" "unat (mk_next_ino s1) = Suc (unat (mk_next_ino s))"
    using alloc_cache_inode_some [of s real MK_TYPE_DIR] room cost by auto
  note n = new_inode [OF inv a(1)]
  define p where "p = subpath_push s1 name"
  have p: "mk_inv n0 p" "mk_cinodes p = mk_cinodes s1" "fdata p g = fdata s1 g" "mk_next_ino p = mk_next_ino s1" "mk_subpath p = name # mk_subpath s1"
      "mk_ninos p = mk_ninos s" for g
    using n(2,3) by (simp_all add: p_def subpath_push_def mk_step_def)
  have ne: "dd \<noteq> ?f" "?f < nci p" "dd < nci p" using dd n(4) p(2) by auto
  obtain s2 s3 where d: "add_entry p ?f ?f [46] = Some s2" "add_entry s2 ?f dd [46, 46] = Some s3" "mk_subpath s3 = mk_subpath p"
      "unat (mk_next_ino s3) = unat (mk_next_ino p) + 2"
    using dots_fit [OF p(1) ne(2,3)] n(5,6) room cost a(3) p by auto
  have ds: "mk_inv n0 s3 \<and> mk_step {?f, dd} {} p s3 \<and> nci s3 = nci p \<and> entries s3 ?f = entries p ?f @ [(ci_ino (mk_cinodes p ! ?f), [46]), (ci_ino (mk_cinodes p ! dd), [46, 46])] \<and>
      (\<forall>g < nci p. g \<noteq> ?f \<longrightarrow> fdata s3 g = fdata p g)"
    using dots_spec [OF p(1) ne(2,3) d(1,2)] by blast
  have "length (entries s3 ?f) = 2" using ds n(6) p(3) by (simp add: entries_def del: length_entries length_fdata)
  then have l3: "length (fdata s3 ?f) = 2" by (simp del: length_fdata)
  have R: "set (host_inodes_dir es) \<inter> ci_real ` set (mk_cinodes s3) = {}"
  proof -
    have "ci_real ` set (mk_cinodes s3) \<subseteq> ci_real ` set (mk_cinodes s) \<union> {real}"
    proof -
      have "mk_step {?f, dd} {} p s3" using ds by blast
      then have "ci_real ` set (mk_cinodes s3) \<subseteq> ci_real ` set (mk_cinodes s1)" by (simp add: mk_step_def p(2))
      moreover have "ci_real ` set (mk_cinodes s1) \<subseteq> ci_real ` set (mk_cinodes s) \<union> {real}" using n(3) by (simp add: mk_step_def)
      ultimately show ?thesis by blast
    qed
    then show ?thesis using new by auto
  qed
  have t3: "ftype s3 ?f = MK_TYPE_DIR" "mk_ninos s3 = mk_ninos s"
    using mk_stepD(2) [of "{?f, dd}" "{}" p s3 ?f] ds ne(2) n(5) p(2,6) by (auto simp: mk_step_def)
  have "fits (open_dir_loop es ?f s3) s3 (dir_cost es + block_cost (length (fdata s3 ?f)) (dir_entries es))"
    using ds ne(2) t3 R l3 room cost d(4) p(4) a(3) by (intro IH) (simp_all del: length_fdata)
  then obtain s4 where s4: "open_dir_loop es ?f s3 = Some s4" "mk_subpath s4 = mk_subpath s3" "unat (mk_next_ino s4) = unat (mk_next_ino s3) + ?d"
    by (auto simp: fits_def l3 simp del: length_fdata)
  have L: "looped n0 es ?f s3 s4" using ds ne(2) es new(2) by (intro tree_added(2) [OF _ _ _ _ R s4(1)]) auto
  define s5 where "s5 = s4\<lparr>mk_subpath := tl (mk_subpath s4)\<rparr>"
  have pop: "subpath_pop s4 = Some s5" "mk_subpath s5 = mk_subpath s" using s4(2) d(3) p(5) a(2) by (simp_all add: subpath_pop_def kassert_def s5_def)
  have st: "mk_inv n0 s5" "mk_step {?f} (set (host_inodes_dir es)) s3 s5" "unat (mk_next_ino s5) = unat (mk_next_ino s3) + ?d"
    using L s4(3) by (simp_all add: looped_def s5_def)
  have c3: "dd < nci s3" using ds ne(3) by simp
  have k: "fdata s5 dd = fdata s dd" "ftype s5 dd = MK_TYPE_DIR" "dd < nci s5" "?f < nci s5" "mk_ninos s5 = mk_ninos s"
  proof -
    show "fdata s5 dd = fdata s dd" using mk_step_fdata [OF _ st(2) c3] ds ne p(3) n(9) [OF dd(1)] by auto
    have "mk_cinodes p ! dd = mk_cinodes s ! dd" using n(9) [OF dd(1)] p(2) by simp
    then show "ftype s5 dd = MK_TYPE_DIR" using mk_stepD(2) [OF st(2) c3] mk_stepD(2) [of "{?f, dd}" "{}" p s3 dd] ds ne(3) dd(2) by simp
    show "dd < nci s5" using mk_stepD(5) [OF st(2) c3] .
    show "?f < nci s5" using mk_stepD(5) [OF st(2), of ?f] ds ne(2) by simp
    show "mk_ninos s5 = mk_ninos s" using st(2) t3(2) by (simp add: mk_step_def)
  qed
  have "\<exists>s'. add_entry s5 dd ?f name = Some s' \<and> mk_subpath s' = mk_subpath s5 \<and>
    unat (mk_next_ino s') = unat (mk_next_ino s5) + block_cost (length (fdata s5 dd)) 1"
    using room cost a(3) p(4) d(4) st(3) k dd(3) by (intro add_entry_some [OF st(1)]) (simp_all del: length_fdata)
  then obtain s' where s': "add_entry s5 dd ?f name = Some s'" "mk_subpath s' = mk_subpath s5"
    "unat (mk_next_ino s') = unat (mk_next_ino s5) + block_cost (length (fdata s5 dd)) 1" by blast
  have "search_cache_inode s real = None" using new(1) by (intro search_none [OF inv]) auto
  then have "add_dir s dd name True (open_dir_loop es) real = Some s'"
    using a(1) d(1,2) s4(1) pop(1) s'(1) by (simp add: add_dir_def open_dir_def kassert_def flip: p_def)
  then show ?thesis using s' pop(2) st(3) d(4) p(4) a(3) cost k(1) by (simp add: fits_def del: length_fdata node_cost.simps)
qed

lemma tree_fits:
  "mk_inv n0 s \<Longrightarrow> dd < nci s \<Longrightarrow> ftype s dd = MK_TYPE_DIR \<Longrightarrow> length name \<le> 255 \<Longrightarrow> 0 \<notin> set name \<Longrightarrow> names_ok node \<Longrightarrow> readable node \<Longrightarrow>
   distinct (host_inodes node) \<Longrightarrow> set (host_inodes node) \<inter> ci_real ` set (mk_cinodes s) = {} \<Longrightarrow>
   unat (mk_next_ino s) + (node_cost node + (if node = HOther then 0 else block_cost (length (fdata s dd)) 1)) \<le> unat (mk_ninos s) \<Longrightarrow>
   fits (open_entry node name dd s) s (node_cost node + (if node = HOther then 0 else block_cost (length (fdata s dd)) 1))"
  "mk_inv n0 s \<Longrightarrow> dd < nci s \<Longrightarrow> ftype s dd = MK_TYPE_DIR \<Longrightarrow> names_ok_dir es \<Longrightarrow> readable_dir es \<Longrightarrow> distinct (host_inodes_dir es) \<Longrightarrow>
   set (host_inodes_dir es) \<inter> ci_real ` set (mk_cinodes s) = {} \<Longrightarrow>
   unat (mk_next_ino s) + (dir_cost es + block_cost (length (fdata s dd)) (dir_entries es)) \<le> unat (mk_ninos s) \<Longrightarrow>
   fits (open_dir_loop es dd s) s (dir_cost es + block_cost (length (fdata s dd)) (dir_entries es))"
proof (induction node and es arbitrary: name dd s and dd s)
  case (HLink real target)
  then obtain t where "target = Some t" "length t < 4096" by auto
  then show ?case using link_fits [of n0 s dd name t real] HLink.prems by (simp del: length_fdata)
next
  case (HFile real chunks ok)
  then show ?case using file_fits [of n0 s dd name chunks real] by (simp del: length_fdata)
next
  case (HDir real ok es)
  have "fits (add_dir s dd name True (open_dir_loop es) real) s (node_cost (HDir real True es) + block_cost (length (fdata s dd)) 1)"
  proof (rule dir_fits [OF HDir.prems(1-4)])
    show "fits (open_dir_loop es c t) t (dir_cost es + block_cost (length (fdata t c)) (dir_entries es))"
      if "mk_inv n0 t" "c < nci t" "ftype t c = MK_TYPE_DIR" "set (host_inodes_dir es) \<inter> ci_real ` set (mk_cinodes t) = {}"
        "unat (mk_next_ino t) + (dir_cost es + block_cost (length (fdata t c)) (dir_entries es)) \<le> unat (mk_ninos t)" for c t
      using HDir.IH [OF that(1-3) _ _ _ that(4,5)] HDir.prems by simp
  qed (use HDir.prems in \<open>auto simp del: length_fdata\<close>)
  then show ?case using HDir.prems(7) by (simp del: length_fdata)
next
  case (DirEntry name node es)
  let ?b = "length (fdata s dd)"
  show ?case
  proof (cases "hidden name")
    case True
    then have "fits (open_dir_loop es dd s) s (dir_cost es + block_cost ?b (dir_entries es))"
      using DirEntry.prems by (intro DirEntry.IH(2)) (auto simp del: length_fdata)
    then show ?thesis using True by (simp add: hidden_def fits_def del: length_fdata)
  next
    case False
    let ?m = "if node = HOther then 0 else 1"
    have split: "block_cost ?b (dir_entries (DirEntry name node es)) = (if node = HOther then 0 else block_cost ?b 1) + block_cost (?b + ?m) (dir_entries es)"
      using False block_cost_Suc [of ?b "dir_entries es"] by simp
    have "fits (open_entry node name dd s) s (node_cost node + (if node = HOther then 0 else block_cost ?b 1))"
      using DirEntry.prems False split by (intro DirEntry.IH(1)) (auto simp del: length_fdata)
    then obtain s1 where r: "open_entry node name dd s = Some s1" "mk_subpath s1 = mk_subpath s"
        "unat (mk_next_ino s1) = unat (mk_next_ino s) + (node_cost node + (if node = HOther then 0 else block_cost ?b 1))"
      by (auto simp: fits_def)
    have ad: "added n0 node dd name s s1" using DirEntry.prems False by (intro tree_added(1) [OF _ _ _ _ _ _ r(1)]) auto
    then have inv1: "mk_inv n0 s1" and st: "mk_step {dd} (set (host_inodes node)) s s1" by (simp_all add: added_def)
    have R: "set (host_inodes_dir es) \<inter> ci_real ` set (mk_cinodes s1) = {}"
    proof -
      have "ci_real ` set (mk_cinodes s1) \<subseteq> ci_real ` set (mk_cinodes s) \<union> set (host_inodes node)" using st by (simp add: mk_step_def)
      moreover have "set (host_inodes_dir es) \<inter> (ci_real ` set (mk_cinodes s) \<union> set (host_inodes node)) = {}"
        using DirEntry.prems(6,7) False by auto
      ultimately show ?thesis by blast
    qed
    have "length (entries s1 dd) = length (entries s dd) + ?m"
      using ad by (auto simp: added_def simp del: length_entries split: if_splits)
    then have l1: "length (fdata s1 dd) = ?b + ?m" by (simp del: length_fdata)
    have t1: "ftype s1 dd = MK_TYPE_DIR" "dd < nci s1" "mk_ninos s1 = mk_ninos s"
      using mk_stepD(2,5) [OF st DirEntry.prems(2)] DirEntry.prems(3) st by (simp_all add: mk_step_def)
    have "fits (open_dir_loop es dd s1) s1 (dir_cost es + block_cost (length (fdata s1 dd)) (dir_entries es))"
      using DirEntry.prems False t1 r(3) split l1 R by (intro DirEntry.IH(2) [OF inv1]) (auto simp del: length_fdata)
    then obtain s' where s': "open_dir_loop es dd s1 = Some s'" "mk_subpath s' = mk_subpath s1"
      "unat (mk_next_ino s') = unat (mk_next_ino s1) + (dir_cost es + block_cost (?b + ?m) (dir_entries es))" unfolding fits_def l1 by blast
    have "length name \<le> 255" using DirEntry.prems(5) False by simp
    then have "open_dir_loop (DirEntry name node es) dd s = Some s'"
      using False r(1) s'(1) by (simp add: hidden_def kassert_def MK_MAX_FNAME_LEN_def)
    then show ?thesis using s' r split False unfolding fits_def by (simp del: length_fdata open_dir_loop.simps dir_entries.simps)
  qed
next
  case HOther
  then show ?case by (simp add: fits_def)
next
  case HClosed
  then show ?case by simp
next
  case DirEnd
  then show ?case by (simp add: fits_def)
qed


lemma put_lengths:
  "ci_ok n0 s f \<Longrightarrow> length (put_mk_inode (ci_inode (mk_cinodes s ! f))) = 68"
  by (simp add: ci_ok_def Let_def put_mk_inode_def)

lemma flush_some:
  "\<forall>p \<in> set ps. \<forall>x. \<exists>y. fl (s\<lparr>mk_img := x\<rparr>) p = Some (s\<lparr>mk_img := y\<rparr>) \<Longrightarrow> \<exists>y. flush_all fl ps (s\<lparr>mk_img := x\<rparr>) = Some (s\<lparr>mk_img := y\<rparr>)"
proof (induction ps arbitrary: x)
  case (Cons p ps)
  then obtain y where "fl (s\<lparr>mk_img := x\<rparr>) p = Some (s\<lparr>mk_img := y\<rparr>)" by fastforce
  then show ?case using Cons.IH [of y] Cons.prems by simp
next
  case Nil
  show ?case by (rule exI [of _ x]) simp
qed

lemma close_flush_some:
  assumes "\<And>i p x. p \<in> set (mk_blocks s i) \<Longrightarrow> \<exists>y. flush_cache_block (s\<lparr>mk_img := x\<rparr>) p = Some (s\<lparr>mk_img := y\<rparr>)"
    "\<And>i p x. p \<in> set (mk_inodes s i) \<Longrightarrow> \<exists>y. flush_cache_inode (s\<lparr>mk_img := x\<rparr>) p = Some (s\<lparr>mk_img := y\<rparr>)"
  shows "\<exists>y. close_flush is (s\<lparr>mk_img := x\<rparr>) = Some (s\<lparr>mk_img := y\<rparr>)"
proof (induction "is" arbitrary: x)
  case (Cons i "is")
  obtain y where y: "flush_all flush_cache_block (mk_blocks s i) (s\<lparr>mk_img := x\<rparr>) = Some (s\<lparr>mk_img := y\<rparr>)"
    using flush_some [of "mk_blocks s i" flush_cache_block s x] assms(1) by blast
  obtain z where z: "flush_all flush_cache_inode (mk_inodes s i) (s\<lparr>mk_img := y\<rparr>) = Some (s\<lparr>mk_img := z\<rparr>)"
    using flush_some [of "mk_inodes s i" flush_cache_inode s y] assms(2) by blast
  show ?case using y z Cons.IH [of z] by simp
next
  case Nil
  show ?case by (rule exI [of _ x]) simp
qed

lemma close_some:
  assumes inv: "mk_inv n0 s" and n0: "n0 = 3" and info: "length (mk_info s) \<le> 32"
  shows "\<exists>s'. close_sfs s = Some s'"
proof -
  let ?map = "mk_freemap_block (mk_ninos s) (mk_next_ino s) 0"
  have c: "mk_next_ino s \<le> mk_ninos s" "mk_ninos s \<le> 1036" "3 \<le> mk_next_ino s" "\<forall>b \<in> set (mk_inos s). b = 1 \<or> 3 \<le> b \<and> b < mk_next_ino s"
    using mk_invD(1) [OF inv] by (auto simp: mk_counts_def n0)
  have pos: "0 < mk_ninos s" "1 < mk_ninos s" "2 < mk_ninos s" "\<not> MK_BLKBITS < mk_ninos s"
    using c(1-3) by (auto simp: word_less_nat_alt word_le_nat_alt MK_BLKBITS_def)
  have len: "length ?map = 1024" using freemap_spec [OF c(1,2)] by simp
  have ino: "b < mk_ninos s" if "b \<in> set (mk_inos s)" for b using c(1,4) pos(2) that by (auto intro: less_le_trans)
  define s1 where "s1 = s\<lparr>mk_img := (mk_img s)(2 := concat (map le32 ?map))\<rparr>"
  have a: "close_freemap s MK_BLKN_FREEMAP 0 = Some s1"
  proof -
    have e: "close_freemap s1 (MK_BLKN_FREEMAP + 1) (0 + MK_BLKBITS) = Some s1"
      using pos(4) by (subst close_freemap.simps) (simp add: s1_def)
    have w: "write_block s (concat (map le32 ?map)) MK_BLKN_FREEMAP = Some s1"
      using pos(3) len by (simp add: write_block_spec s1_def MK_BLKN_FREEMAP_def)
    show ?thesis using pos(1) w e by (subst close_freemap.simps) simp
  qed
  define s2 where "s2 = s1\<lparr>mk_img := (mk_img s1)(0 := pad (put_mk_super s1))\<rparr>"
  have b: "write_block s1 (put_mk_super s1) MK_BLKN_SUPER = Some s2"
    using pos(1) info by (simp add: write_block_spec s2_def MK_BLKN_SUPER_def) (simp add: s1_def put_mk_super_def)
  have ch: "chains_ok s" by (rule mk_invD(4) [OF inv])
  have "\<exists>y. close_flush [0 ..< 2 ^ MK_HASH_SHIFT] (s\<lparr>mk_img := mk_img s2\<rparr>) = Some (s\<lparr>mk_img := y\<rparr>)"
  proof (rule close_flush_some)
    fix i p x assume "p \<in> set (mk_blocks s i)"
    then have p: "p < length (mk_cblocks s)" "length (cb_cache (mk_cblocks s ! p)) = 1024" using ch by (auto simp: chains_ok_def)
    then have "cb_ino (mk_cblocks s ! p) < mk_ninos s" by (intro ino) (simp add: mk_inos_def)
    then show "\<exists>y. flush_cache_block (s\<lparr>mk_img := x\<rparr>) p = Some (s\<lparr>mk_img := y\<rparr>)" using p by (simp add: flush_cache_block_def write_block_spec) blast
  next
    fix i p x assume "p \<in> set (mk_inodes s i)"
    then have p: "p < nci s" using ch by (auto simp: chains_ok_def)
    then have "ci_ino (mk_cinodes s ! p) < mk_ninos s" by (intro ino) (simp add: mk_inos_def)
    then show "\<exists>y. flush_cache_inode (s\<lparr>mk_img := x\<rparr>) p = Some (s\<lparr>mk_img := y\<rparr>)"
      using put_lengths [OF mk_invD(2) [OF inv p]] by (simp add: flush_cache_inode_def write_block_spec) blast
  qed
  moreover have "s\<lparr>mk_img := mk_img s2\<rparr> = s2" by (simp add: s2_def s1_def)
  ultimately show ?thesis using a b by (auto simp: close_sfs_def)
qed

lemma create_img_fits:
  assumes "create_sfs imgsize junk img = Some s" "mk_ninos s \<le> 1036"
    and home: "names_ok_dir home" "readable_dir home" "distinct (0 # host_inodes_dir home)"
    and room: "3 + block_cost 0 (2 + dir_entries home) + dir_cost home \<le> unat (mk_ninos s)"
  shows "\<exists>s'. create_img s True home = Some s' \<and> unat (mk_next_ino s') = 3 + block_cost 0 (2 + dir_entries home) + dir_cost home"
proof -
  have c: "mk_inv 3 s" "nci s = 1" "mk_root s = 0" "ftype s 0 = MK_TYPE_DIR" "fdata s 0 = []" "ci_real ` set (mk_cinodes s) = {0}" "mk_next_ino s = 3"
    using create_spec [OF assms(1,2)] by blast+
  obtain s1 s2 where d: "add_entry s 0 0 [46] = Some s1" "add_entry s1 0 0 [46, 46] = Some s2" "unat (mk_next_ino s2) = unat (mk_next_ino s) + 2"
    using dots_fit [OF c(1) _ _ c(4,5), of 0] c(2,7) room block_cost_2 [of "dir_entries home"] by auto
  have ds: "mk_inv 3 s2 \<and> mk_step {0, 0} {} s s2 \<and> nci s2 = nci s \<and> entries s2 0 = entries s 0 @ [(ci_ino (mk_cinodes s ! 0), [46]), (ci_ino (mk_cinodes s ! 0), [46, 46])]"
    using dots_spec [OF c(1) _ _ d(1,2)] c(2) by simp
  have "length (entries s2 0) = 2" using ds c(5) by (simp add: entries_def del: length_entries length_fdata)
  then have l2: "length (fdata s2 0) = 2" by (simp del: length_fdata)
  have t2: "ftype s2 0 = MK_TYPE_DIR" "mk_ninos s2 = mk_ninos s" "ci_real ` set (mk_cinodes s2) \<subseteq> {0}"
    using mk_stepD(2) [of "{0, 0}" "{}" s s2 0] ds c(2,4,6) by (auto simp: mk_step_def)
  have "fits (open_dir_loop home 0 s2) s2 (dir_cost home + block_cost (length (fdata s2 0)) (dir_entries home))"
    using ds c(2,7) t2 home d(3) room l2 block_cost_2 [of "dir_entries home"] by (intro tree_fits(2)) (auto simp del: length_fdata)
  then obtain s3 where s3: "open_dir_loop home 0 s2 = Some s3" "unat (mk_next_ino s3) = 3 + block_cost 0 (2 + dir_entries home) + dir_cost home"
    using d(3) c(7) block_cost_2 [of "dir_entries home"] by (auto simp: fits_def l2 simp del: length_fdata)
  have o: "open_dir s (mk_root s) (mk_root s) True (open_dir_loop home) = Some s3"
    using d(1,2) s3(1) c(3) by (simp add: open_dir_def kassert_def)
  note h = home_copied [OF assms(1) o assms(2) home(1,3)]
  have "mk_inv 3 s3" "length (mk_info s3) \<le> 32" using h by auto
  then obtain s' where s': "close_sfs s3 = Some s'" using close_some [OF _ refl, of s3] by blast
  have "mk_next_ino s' = mk_next_ino s3" using close_image(7) [OF _ refl s'] h by blast
  then show ?thesis using o s' s3(2) by (simp add: create_img_def)
qed

text \<open>C32. The tool succeeds on every tree without hard links (every file and directory has an inode of its own on the host) that the host lets
  it read and that fits into an image of at most 1036 blocks: the blocks it needs are three, and per node the inode, the data, an indirect block
  from the 13th block on, and the entries of a directory with \<^verbatim>\<open>.\<close> and \<^verbatim>\<open>..\<close>, each in a block of its own. It then uses exactly these.\<close>

theorem image_fits:
  assumes "create_sfs imgsize junk img = Some s" "mk_ninos s \<le> 1036"
    and home: "names_ok_dir home" "readable_dir home" "distinct (0 # host_inodes_dir home)"
    and room: "3 + block_cost 0 (2 + dir_entries home) + dir_cost home \<le> unat (mk_ninos s)"
  shows "\<exists>s'. create_img s True home = Some s' \<and> unat (mk_next_ino s') = 3 + block_cost 0 (2 + dir_entries home) + dir_cost home"
  by (rule create_img_fits [OF assms])

text \<open>C20. The disk image that \<^verbatim>\<open>mksfs\<close> builds holds the directory it was given, read with the kernel's own structures: from the root inode on,
  every directory has its entries in order behind \<^verbatim>\<open>.\<close> and \<^verbatim>\<open>..\<close>, with the right numbers, link counts and sizes, every file and link has exactly its
  bytes, through the direct and the indirect blocks. Of a name only the first 252 bytes arrive (the tool writes 256 bytes of an entry of 260). For an image of at most
  1036 blocks, more than the disk of the kernel, and a home directory without hard links.\<close>

theorem image_holds_tree:
  assumes "create_sfs imgsize junk img = Some s" "mk_ninos s \<le> 1036" "create_img s ok home = Some s'"
    and "names_ok_dir home" "distinct (0 # host_inodes_dir home)"
  shows "on_image (mk_img s') 1 1 (HDir 0 ok home)"
proof -
  obtain s1 where r: "open_dir s (mk_root s) (mk_root s) ok (open_dir_loop home) = Some s1" "close_sfs s1 = Some s'"
    using assms(3) by (auto simp: create_img_def bind_eq_Some_conv)
  note h = home_copied [OF assms(1) r(1) assms(2,4,5)]
  have "on_image (mk_img s') 1 (ci_ino (mk_cinodes s1 ! 0)) (HDir 0 ok home)"
    using h by (intro closed_tree(1) [OF _ refl r(2), of "{1 ..< nci s1}"]) auto
  then show ?thesis using h by simp
qed

lemma mount_image:
  assumes "create_sfs imgsize junk img = Some s" "mk_ninos s \<le> 1024" "create_img s ok home = Some s'"
    and "names_ok_dir home" "distinct (0 # host_inodes_dir home)" "length junk = 13"
    and disk: "f_disk k = mk_img s'"
    and mem: "kmalloc 128 (f_vm k) = Some (p1, v1)" "p1 \<noteq> 0" "kmalloc 4096 v1 = Some (p2, v2)" "p2 \<noteq> 0" "kmalloc 8192 v2 = Some (p3, v3)" "p3 \<noteq> 0"
      "kmalloc 12 v3 = Some (p4, v4)" "p4 \<noteq> 0" "kmalloc 4096 v4 = Some (p5, v5)" "p5 \<noteq> 0"
  shows "\<exists>k'. sfs_do_mount disk0_device_init k = Some (0, k') \<and> space_ok k' \<and> f_disk k' = mk_img s' \<and>
    su_blocks (sf_super (f_sfs k')) = mk_ninos s \<and> disk_free k' = {unat (mk_next_ino s') ..< unat (mk_ninos s)} \<and>
    take 18 (su_info (sf_super (f_sfs k'))) = mk_label"
proof -
  obtain s1 where r: "open_dir s (mk_root s) (mk_root s) ok (open_dir_loop home) = Some s1" "close_sfs s1 = Some s'"
    using assms(3) by (auto simp: create_img_def bind_eq_Some_conv)
  have n36: "mk_ninos s \<le> 1036" by (rule order_trans [OF assms(2)]) simp
  note h = home_copied [OF assms(1) r(1) n36 assms(4,5)]
  then have inv: "mk_inv 3 s1" and nn: "mk_ninos s1 = mk_ninos s" and info: "mk_info s1 = take 32 (mk_label @ [0] @ junk)" by blast+
  have li: "length (mk_info s1) = 32" using assms(6) by (simp add: info mk_label_def)
  have c: "3 \<le> mk_next_ino s1" "mk_next_ino s1 \<le> mk_ninos s" using mk_invD(1) [OF inv] by (auto simp: mk_counts_def nn)
  note ci = close_image [OF inv refl r(2)]
  define super where "super = su_info_update (\<lambda>i. i[31 := 0]) (get_super (mk_img s' 0))"
  have su: "su_blocks super = mk_ninos s" "su_unused_blocks super = mk_ninos s - mk_next_ino s1" "su_info super = (mk_info s1)[31 := 0]"
    and magic: "su_magic (get_super (mk_img s' 0)) = SFS_MAGIC" "su_blocks (get_super (mk_img s' 0)) = mk_ninos s"
    using closed_super [OF inv refl r(2) li] by (simp_all add: super_def nn)
  have rd: "sfs_init_read disk0_device_init 0 s = Some (0, f_disk s 0, s)" for s
    using disk0_io_block [of 0 "DISK0_DEVSIZE div DISK0_BLKSIZE" False "[]" "f_disk s"]
    by (simp add: sfs_init_read_def block_io_def disk0_device_init_def DISK0_DEVSIZE_def DISK0_BLKSIZE_def PGSIZE_def)
  have "f_disk (k\<lparr>f_vm := v2\<rparr>) 2 = concat (map le32 (mk_freemap_block (mk_ninos s) (mk_next_ino s1) 0))" using ci(2) by (simp add: disk nn)
  then obtain k' where k': "sfs_do_mount_map disk0_device_init super p1 p2 (k\<lparr>f_vm := v2\<rparr>) = Some (0, k')" "sf_super (f_sfs k') = super"
      "disk_free k' = {unat (mk_next_ino s1) ..< unat (mk_ninos s)}" "f_disk k' = f_disk k" "space_ok k'"
    using mount_map [OF su(1,2) c assms(2), of "k\<lparr>f_vm := v2\<rparr>" p3 v3 p4 v4 p5 v5 p1 p2] mem by auto
  have le: "\<not> mk_ninos s > d_blocks disk0_device_init"
    using assms(2) by (simp add: disk0_device_init_def DISK0_DEVSIZE_def DISK0_BLKSIZE_def PGSIZE_def not_less)
  have "sfs_do_mount disk0_device_init k = Some (0, k')"
    using mem k'(1) magic le disk
    by (simp add: sfs_do_mount_def kalloc_def SFS_BLKSIZE_def PGSIZE_def disk0_device_init_def DISK0_BLKSIZE_def SFS_BLKN_SUPER_def
        rd [unfolded disk0_device_init_def DISK0_BLKSIZE_def PGSIZE_def] super_def [unfolded disk0_device_init_def])
  moreover have "take 18 (su_info super) = mk_label" by (simp add: su info mk_label_def)
  ultimately show ?thesis using k' su(1) ci(7) disk by auto
qed

text \<open>C21. The image mounts: with it on its disk and memory for its structures, the kernel accepts the superblock and the map of free blocks that the
  tool wrote, and counts as many free blocks as the superblock says. The free blocks are exactly those that the tool did not use, and the
  mounted file system satisfies the invariant on which the properties of files rest.\<close>

theorem image_mounts:
  assumes "create_sfs imgsize junk img = Some s" "mk_ninos s \<le> 1024" "create_img s ok home = Some s'"
    and "names_ok_dir home" "distinct (0 # host_inodes_dir home)" "length junk = 13"
    and disk: "f_disk k = mk_img s'"
    and mem: "kmalloc 128 (f_vm k) = Some (p1, v1)" "p1 \<noteq> 0" "kmalloc 4096 v1 = Some (p2, v2)" "p2 \<noteq> 0" "kmalloc 8192 v2 = Some (p3, v3)" "p3 \<noteq> 0"
      "kmalloc 12 v3 = Some (p4, v4)" "p4 \<noteq> 0" "kmalloc 4096 v4 = Some (p5, v5)" "p5 \<noteq> 0"
  shows "\<exists>k'. sfs_do_mount disk0_device_init k = Some (0, k') \<and> space_ok k' \<and> f_disk k' = mk_img s' \<and>
    su_blocks (sf_super (f_sfs k')) = mk_ninos s \<and> disk_free k' = {unat (mk_next_ino s') ..< unat (mk_ninos s)} \<and>
    take 18 (su_info (sf_super (f_sfs k'))) = mk_label"
  by (rule mount_image [OF assms])

text \<open>C31. The kernel finds on the image what the tool put there. On the mounted image, the search of the root directory for the name of an entry
  of the home directory succeeds, if the name has at most 252 bytes, without changing anything, and gives an inode number at which the
  image holds that entry: the bytes of the file or the link, or the whole directory. A longer name (the tool accepts 255 bytes) is not found,
  since the tool stores only its first 252 bytes: the search for these finds the entry. This is for an image of at most 1024
  blocks and a home directory without hard links whose names differ in their first 252 bytes.\<close>

theorem kernel_finds_home:
  assumes tool: "create_sfs imgsize junk img = Some s" "mk_ninos s \<le> 1024" "create_img s ok home = Some s'"
      "names_ok_dir home" "distinct (0 # host_inodes_dir home)"
    and mounted: "space_ok k" "f_disk k = mk_img s'" "su_blocks (sf_super (f_sfs k)) = mk_ninos s"
      "disk_free k = {unat (mk_next_ino s') ..< unat (mk_ninos s)}"
    and root: "sin n k = Some i" "si_din i = get_disk_inode (mk_img s' 1)"
    and names: "distinct (map (take 252 \<circ> fst) (listed home))" "(name, node) \<in> set (listed home)"
  shows "\<exists>ino slot. on_image (mk_img s') 1 ino node \<and>
    sfs_dirent_search_loop n (take 252 name) 0 (nslots i) (nslots i) k = Some (0, ino, slot, nslots i, k) \<and>
    sfs_dirent_search_loop n name 0 (nslots i) (nslots i) k =
      Some (if length name \<le> 252 then (0, ino, slot, nslots i, k) else (- E_NOENT, 0, 0, nslots i, k))"
proof -
  obtain s1 where r: "open_dir s (mk_root s) (mk_root s) ok (open_dir_loop home) = Some s1" "close_sfs s1 = Some s'"
    using tool(3) by (auto simp: create_img_def bind_eq_Some_conv)
  have n36: "mk_ninos s \<le> 1036" by (rule order_trans [OF tool(2)]) simp
  have h: "mk_inv 3 s1" "0 < nci s1" "ci_ino (mk_cinodes s1 ! 0) = 1" "nlinks s1 0 = of_nat (2 + subdirs home)"
    "st_body s1 {1 ..< nci s1} 1 0 (HDir 0 ok home)" "mk_ninos s1 = mk_ninos s" using home_copied [OF tool(1) r(1) n36 tool(4,5)] by blast+
  have "on_image (mk_img s') 1 (ci_ino (mk_cinodes s1 ! 0)) (HDir 0 ok home)"
    using h by (intro closed_tree(1) [OF _ refl r(2), of "{1 ..< nci s1}"]) auto
  then have oi: "on_image (mk_img s') 1 1 (HDir 0 ok home)" by (simp add: h(3))
  obtain rest where es: "map dent (image_data (mk_img s') 1) = (1, [46]) # (1, [46, 46]) # rest" "on_entries (mk_img s') 1 rest home"
      and dir: "di_type (get_disk_inode (mk_img s' 1)) = SFS_TYPE_DIR" using on_image_dirD(1) [OF oi] on_image_dirD(2) [OF oi] by auto
  have nx: "mk_next_ino s' = mk_next_ino s1" by (rule close_image(7) [OF h(1) refl r(2)])
  note use = root_in_use [OF h(1) refl r(2) h(2,3), of k, unfolded h(6), OF tool(2) mounted(2,3) mounted(4) [unfolded nx]]
  let ?es = "map dent (image_data (f_disk k) 1)"
  have len: "length ?es = unat (di_blocks (si_din i))" by (simp add: root(2) image_data_def image_file_def Let_def mounted(2))
  have "unat (di_blocks (si_din i)) \<le> 1036" using use(3) by (simp add: root(2) word_le_nat_alt)
  then have ns: "nslots i = length ?es" using len by (simp add: nslots_def sint_u32_small)
  have rd: "\<exists>e. sfs_dirent_read_nolock n j k = Some (0, e, k) \<and> (de_ino e, entry_name e) = ?es ! j" if "j < length ?es" for j
    using use that root dir len mounted(2) by (intro kernel_dirent [OF mounted(1) root(1)]) simp_all
  note ol = on_entries_listed [OF es(2)]
  have nz: "\<forall>x \<in> set ?es. fst x \<noteq> 0" using ol es(1) by (simp add: mounted(2))
  obtain j where j: "j < length rest" "listed home ! j = (name, node)" using names(2) ol by (auto simp: in_set_conv_nth)
  have rj: "snd (rest ! j) = take 252 name"
  proof -
    have "map snd rest ! j = map (take 252 \<circ> fst) (listed home) ! j" using ol by metis
    moreover have "length rest = length (listed home)" using ol by blast
    ultimately show ?thesis using j by simp
  qed
  have eq: "?es = (1, [46]) # (1, [46, 46]) # rest" using es(1) by (simp add: mounted(2))
  have vis: "\<not> hidden name" by (rule listed_visible [OF names(2)])
  have nd: "take 252 name \<noteq> [46]" "take 252 name \<noteq> [46, 46]"
  proof -
    have t: "take 1 (take 252 name) = take 1 name" by simp
    show "take 252 name \<noteq> [46]"
    proof
      assume "take 252 name = [46]"
      then show False using vis t by (simp only: hidden_def) simp
    qed
    show "take 252 name \<noteq> [46, 46]"
    proof
      assume "take 252 name = [46, 46]"
      then show False using vis t by (simp only: hidden_def) simp
    qed
  qed
  have "take 252 name \<in> snd ` set (drop 0 ?es)" using rj j(1) unfolding eq by (auto simp flip: rj)
  then obtain slot where sl: "slot < length ?es" "snd (?es ! slot) = take 252 name"
      "sfs_dirent_search_loop n (take 252 name) 0 (nslots i) (nslots i) k = Some (0, fst (?es ! slot), slot, nslots i, k)"
    using kernel_search [of ?es n k 0 "nslots i" "take 252 name" "nslots i", OF rd nz] ns by auto
  obtain t where t: "slot = Suc (Suc t)" "t < length rest" "snd (rest ! t) = take 252 name"
    using sl(1,2) nd unfolding eq by (cases slot; cases "slot - 1") auto
  have "t = j"
  proof -
    have "distinct (map snd rest)" using ol names(1) by simp
    then show ?thesis using t(2,3) j(1) rj by (metis length_map nth_eq_iff_index_eq nth_map)
  qed
  moreover have "on_image (mk_img s') 1 (fst (rest ! j)) (snd (listed home ! j))" using ol j(1) by blast
  moreover have "?es ! slot = rest ! t" unfolding eq by (simp add: t(1))
  ultimately have im: "on_image (mk_img s') 1 (fst (?es ! slot)) node" using j(2) by simp
  have noent: "sfs_dirent_search_loop n name 0 (nslots i) (nslots i) k = Some (- E_NOENT, 0, 0, nslots i, k)" if "252 < length name"
  proof (rule kernel_search_none [OF rd nz])
    have sh: "length x \<le> 252" if "x \<in> snd ` set rest" for x
    proof -
      have "x \<in> set (map (take 252 \<circ> fst) (listed home))" using that ol by (metis list.set_map)
      then show ?thesis by auto
    qed
    have "length name \<le> 252" if "name \<in> snd ` set ?es"
    proof -
      have "name = [46] \<or> name = [46, 46] \<or> name \<in> snd ` set rest" using that unfolding eq by simp
      then show ?thesis using sh [of name] by (elim disjE) simp_all
    qed
    then show "name \<notin> snd ` set ?es" using that by linarith
    show "0 + nslots i = length ?es" using ns by simp
  qed
  have "sfs_dirent_search_loop n name 0 (nslots i) (nslots i) k =
      Some (if length name \<le> 252 then (0, fst (?es ! slot), slot, nslots i, k) else (- E_NOENT, 0, 0, nslots i, k))"
  proof (cases "length name \<le> 252")
    case True
    then have "take 252 name = name" by simp
    from sl(3) [unfolded this] True show ?thesis by (simp only: if_True)
  next
    case False
    then have "252 < length name" by simp
    from noent [OF this] False show ?thesis by (simp only: if_False)
  qed
  then show ?thesis using sl(3) im by blast
qed

definition heap_ok :: "vmstate \<Rightarrow> u32 \<Rightarrow> u32 \<Rightarrow> nat \<Rightarrow> bool" where
  "heap_ok v a n m \<longleftrightarrow> one_block a n v \<and> pages_ok {m ..< 10} v"

lemma slob_step:
  assumes "heap_ok v a n m" "SLOB_UNITS sz = u" "sz + SLOB_UNIT < PGSIZE" "sint u \<le> sint n" "n \<noteq> u"
    "distinct [0x80010000, 0x80010004, a, a + 4, a + 8 * u, a + 8 * u + 4]"
  shows "\<exists>v'. slob_alloc sz 0 v = Some (a, v') \<and> heap_ok v' (a + 8 * u) (n - u) m"
  using assms
  by (auto simp: heap_ok_def one_block_def pages_ok_def slob_alloc_def slob_alloc_loop.simps slob_next_def slob_units_def slob_take_def
      Let_def kassert_def set_slob_next_def set_slob_units_def store_word_def)

lemma small_step:
  assumes "heap_ok v a n m" "SLOB_UNITS (sz + 8) = u" "sz < 4000" "sint u \<le> sint n" "n \<noteq> u" "a + 8 \<noteq> 0" "a \<noteq> 0"
    "distinct [0x80010000, 0x80010004, a, a + 4, a + 8 * u, a + 8 * u + 4]"
  shows "\<exists>p v'. kmalloc sz v = Some (p, v') \<and> p \<noteq> 0 \<and> heap_ok v' (a + 8 * u) (n - u) m"
proof -
  have "sz + 8 + SLOB_UNIT < PGSIZE" "sz < PGSIZE - SLOB_UNIT" using assms(3) unfolding SLOB_UNIT_def PGSIZE_def by unat_arith+
  then show ?thesis using slob_step [OF assms(1,2) _ assms(4,5,8)] assms(6,7) by (auto simp: kmalloc_def SLOB_UNIT_def)
qed

lemma pages_step:
  assumes "pages_ok {m ..< 10} v" "0 < c" "m + unat c \<le> 10"
  shows "\<exists>v'. alloc_pages c v = Some (Some m, v') \<and> pages_ok {m + unat c ..< 10} v' \<and> v_words v' = v_words v \<and> v_slobfree v' = v_slobfree v"
proof -
  have i: "default_inv (v_pmm v) {m ..< 10}" using assms(1) by (simp add: pages_ok_def)
  have m: "{m ..< m + unat c} \<subseteq> {m ..< 10}" using assms(3) by auto
  obtain p s' where a: "default_alloc_pages c (v_pmm v) = Some (Some p, s')" using default.alloc_succeeds_iff [OF i assms(2)] m by blast
  have ok: "{p ..< p + unat c} \<subseteq> {m ..< 10}" "\<forall>q < p. \<not> {q ..< q + unat c} \<subseteq> {m ..< 10}" "default_inv s' ({m ..< 10} - {p ..< p + unat c})"
    using default.alloc_ok [OF i assms(2) a] by blast+
  have "0 < unat c" using assms(2) by (simp add: word_less_nat_alt)
  then have "p = m" using ok(1,2) m by (metis atLeastLessThan_iff le_antisym less_add_same_cancel1 linorder_not_le order_refl subsetD)
  moreover have "{m ..< 10} - {m ..< m + unat c} = {m + unat c ..< 10}" by auto
  ultimately show ?thesis using alloc_pages_some [OF a] ok(3) assms(1) by (auto simp: pages_ok_def)
qed

lemma big_step:
  assumes "heap_ok v a n m" "find_order (sint sz) = k" "\<not> sz < PGSIZE - SLOB_UNIT" "2 \<le> sint n" "n \<noteq> 2" "a \<noteq> 0" "k \<le> 1" "m + 2 ^ k \<le> 10" "m < 10"
    "distinct [0x80010000, 0x80010004, a, a + 4, a + 8, a + 16, a + 20]"
  shows "\<exists>p v'. kmalloc sz v = Some (p, v') \<and> p \<noteq> 0 \<and> heap_ok v' (a + 16) (n - 2) (m + 2 ^ k)"
proof -
  have "\<exists>v'. slob_alloc BIGBLOCK_SIZE 0 v = Some (a, v') \<and> heap_ok v' (a + 8 * 2) (n - 2) m"
    using assms(4,5,10) by (intro slob_step [OF assms(1)]) (simp_all add: SLOB_UNITS_def BIGBLOCK_SIZE_def SLOB_UNIT_def PGSIZE_def)
  then obtain v1 where v1: "slob_alloc BIGBLOCK_SIZE 0 v = Some (a, v1)" "heap_ok v1 (a + 16) (n - 2) m" by auto
  let ?v = "store_word a (of_nat k) v1"
  have v: "heap_ok ?v (a + 16) (n - 2) m" using v1(2) assms(10) by (auto simp: heap_ok_def one_block_def pages_ok_def store_word_def)
  have c: "unat (push_bit k 1 :: u32) = 2 ^ k" "(0 :: u32) < push_bit k 1"
    using assms(7) by (cases k; simp)+
  obtain w where w: "alloc_pages (push_bit k 1) ?v = Some (Some m, w)" "pages_ok {m + 2 ^ k ..< 10} w" "v_words w = v_words ?v" "v_slobfree w = v_slobfree ?v"
    using pages_step [OF _ c(2), of m ?v] v assms(8) c(1) by (auto simp: heap_ok_def)
  obtain kva where kva: "page2kva w m = Some kva" "kva \<noteq> 0" using page2kva_ok [of w m] w(2) assms(9) by (auto simp: pages_ok_def)
  have "heap_ok ((store_word (a + 8) b (store_word (a + 4) kva w))\<lparr>v_bigblocks := a\<rparr>) (a + 16) (n - 2) (m + 2 ^ k)" for b
    using v w assms(10) by (auto simp: heap_ok_def one_block_def pages_ok_def store_word_def)
  then show ?thesis using v1(1) w(1) kva assms(2,3,6)
    by (simp add: kmalloc_def slob_get_free_pages_def Let_def)
qed

lemma example_heap:
  "\<exists>p1 v1 p2 v2 p3 v3 p4 v4 p5 v5. kmalloc 128 example_space = Some (p1, v1) \<and> p1 \<noteq> 0 \<and> kmalloc 4096 v1 = Some (p2, v2) \<and> p2 \<noteq> 0 \<and>
     kmalloc 8192 v2 = Some (p3, v3) \<and> p3 \<noteq> 0 \<and> kmalloc 12 v3 = Some (p4, v4) \<and> p4 \<noteq> 0 \<and> kmalloc 4096 v4 = Some (p5, v5) \<and> p5 \<noteq> 0"
proof -
  note c = SLOB_UNITS_def SLOB_UNIT_def PGSIZE_def find_order.simps
  have "heap_ok example_space 0x80003000 512 4"
    using example_pmm_inv by (auto simp: heap_ok_def one_block_def pages_ok_def example_space_def example_vm_def)
  from small_step [OF this, of 128 17] obtain p1 v1 where v1: "kmalloc 128 example_space = Some (p1, v1)" "p1 \<noteq> 0" "heap_ok v1 0x80003088 495 4"
    by (auto simp: c)
  from big_step [OF v1(3), of 4096 0] obtain p2 v2 where v2: "kmalloc 4096 v1 = Some (p2, v2)" "p2 \<noteq> 0" "heap_ok v2 0x80003098 493 5"
    by (auto simp: c)
  from big_step [OF v2(3), of 8192 1] obtain p3 v3 where v3: "kmalloc 8192 v2 = Some (p3, v3)" "p3 \<noteq> 0" "heap_ok v3 0x800030A8 491 7"
    by (auto simp: c)
  from small_step [OF v3(3), of 12 3] obtain p4 v4 where v4: "kmalloc 12 v3 = Some (p4, v4)" "p4 \<noteq> 0" "heap_ok v4 0x800030C0 488 7"
    by (auto simp: c)
  from big_step [OF v4(3), of 4096 0] obtain p5 v5 where v5: "kmalloc 4096 v4 = Some (p5, v5)" "p5 \<noteq> 0"
    by (auto simp: c)
  show ?thesis using v1(1,2) v2(1,2) v3(1,2) v4(1,2) v5 by blast
qed

text \<open>A home directory with a file \<open>a\<close> of three bytes and an empty directory \<open>d\<close>, on an image of 16 blocks.\<close>

definition example_home :: hdir where
  "example_home = DirEntry [97] (HFile 7 [[1, 2, 3]] True) (DirEntry [100] (HDir 8 True DirEnd) DirEnd)"

definition example_mk :: mk_fs where
  "example_mk = the (create_sfs 65536 (replicate 13 0) (\<lambda>_. []))"


lemma example_mk: "create_sfs 65536 (replicate 13 0) (\<lambda>_. []) = Some example_mk" "mk_ninos example_mk = 16"
  unfolding atomize_conj
  by (simp add: example_mk_def create_sfs_def alloc_cache_inode_def kassert_def MK_BLKN_FREEMAP_def MK_MAX_NBLKS_def MK_BLKBITS_def MK_BLKN_ROOT_def Let_def)

lemma example_home:
  "names_ok_dir example_home" "readable_dir example_home" "distinct (0 # host_inodes_dir example_home)"
  "3 + block_cost 0 (2 + dir_entries example_home) + dir_cost example_home = 12"
  by (simp_all add: example_home_def MK_MAX_FNAME_LEN_def block_cost_def full_but_last_def hidden_def)

theorem image_fits_witness:
  "\<exists>s'. create_img example_mk True example_home = Some s' \<and> unat (mk_next_ino s') = 12"
  using image_fits [OF example_mk(1) _ example_home(1-3), unfolded example_home(4) example_mk(2)] by simp

lemma example_image: "\<exists>s'. create_img example_mk True example_home = Some s' \<and> unat (mk_next_ino s') = 12"
  using create_img_fits [OF example_mk(1) _ example_home(1-3), unfolded example_home(4) example_mk(2)] by simp

theorem image_holds_tree_witness:
  "\<exists>s'. create_img example_mk True example_home = Some s' \<and> on_image (mk_img s') 1 1 (HDir 0 True example_home)"
proof -
  obtain s' where s': "create_img example_mk True example_home = Some s'" using example_image by blast
  with image_holds_tree [OF example_mk(1) _ s' example_home(1,3)] show ?thesis by (simp add: example_mk(2))
qed

theorem image_mounts_witness:
  "\<exists>s' k k'. create_img example_mk True example_home = Some s' \<and> f_disk k = mk_img s' \<and> sfs_do_mount disk0_device_init k = Some (0, k') \<and>
     space_ok k' \<and> card (disk_free k') = 4"
proof -
  obtain s' where s': "create_img example_mk True example_home = Some s'" "unat (mk_next_ino s') = 12" using example_image by blast
  obtain p1 v1 p2 v2 p3 v3 p4 v4 p5 v5 where mem: "kmalloc 128 example_space = Some (p1, v1)" "p1 \<noteq> 0" "kmalloc 4096 v1 = Some (p2, v2)" "p2 \<noteq> 0"
      "kmalloc 8192 v2 = Some (p3, v3)" "p3 \<noteq> 0" "kmalloc 12 v3 = Some (p4, v4)" "p4 \<noteq> 0" "kmalloc 4096 v4 = Some (p5, v5)" "p5 \<noteq> 0"
    using example_heap by blast
  let ?k = "example_fs\<lparr>f_vm := example_space, f_disk := mk_img s'\<rparr>"
  have "\<exists>k'. sfs_do_mount disk0_device_init ?k = Some (0, k') \<and> space_ok k' \<and> disk_free k' = {unat (mk_next_ino s') ..< unat (mk_ninos example_mk)}"
    using image_mounts [OF example_mk(1) _ s'(1) example_home(1,3), of ?k] mem by (simp add: example_mk(2)) blast
  then obtain k' where k': "sfs_do_mount disk0_device_init ?k = Some (0, k')" "space_ok k'" "disk_free k' = {12 ..< 16}"
    by (auto simp: s'(2) example_mk(2))
  show ?thesis by (rule exI [of _ s'], rule exI [of _ ?k], rule exI [of _ k']) (use s'(1) k' in simp)
qed

theorem kernel_finds_home_witness:
  "\<exists>s' k i ino slot. create_img example_mk True example_home = Some s' \<and> sin 1 k = Some i \<and> f_disk k = mk_img s' \<and>
     sfs_dirent_search_loop 1 [97] 0 (nslots i) (nslots i) k = Some (0, ino, slot, nslots i, k) \<and> on_image (mk_img s') 1 ino (HFile 7 [[1, 2, 3]] True)"
proof -
  obtain s' where s': "create_img example_mk True example_home = Some s'" "unat (mk_next_ino s') = 12" using example_image by blast
  obtain p1 v1 p2 v2 p3 v3 p4 v4 p5 v5 where mem: "kmalloc 128 example_space = Some (p1, v1)" "p1 \<noteq> 0" "kmalloc 4096 v1 = Some (p2, v2)" "p2 \<noteq> 0"
      "kmalloc 8192 v2 = Some (p3, v3)" "p3 \<noteq> 0" "kmalloc 12 v3 = Some (p4, v4)" "p4 \<noteq> 0" "kmalloc 4096 v4 = Some (p5, v5)" "p5 \<noteq> 0"
    using example_heap by blast
  have "\<exists>k. space_ok k \<and> f_disk k = mk_img s' \<and> su_blocks (sf_super (f_sfs k)) = mk_ninos example_mk \<and>
      disk_free k = {unat (mk_next_ino s') ..< unat (mk_ninos example_mk)}"
    using mount_image [OF example_mk(1) _ s'(1) example_home(1,3), of "example_fs\<lparr>f_vm := example_space, f_disk := mk_img s'\<rparr>"] mem
    by (simp add: example_mk(2)) blast
  then obtain k where k: "space_ok k" "f_disk k = mk_img s'" "su_blocks (sf_super (f_sfs k)) = mk_ninos example_mk"
      "disk_free k = {unat (mk_next_ino s') ..< unat (mk_ninos example_mk)}" by blast
  let ?i = "example_inode\<lparr>si_din := get_disk_inode (mk_img s' 1)\<rparr>"
  let ?k = "k\<lparr>f_inodes := \<lambda>_. (f_inodes example_fs 1)\<lparr>in_info := SfsInfo ?i\<rparr>\<rparr>"
  have "space_ok ?k" "disk_free ?k = disk_free k"
    using k(1) by (simp_all add: space_ok_def sfs_ready_def sfs_dev_ok_def disk_free_def)
  moreover have "sin 1 ?k = Some ?i" by (simp add: sin_def)
  moreover have "distinct (map (take 252 \<circ> fst) (listed example_home))" "([97], HFile 7 [[1, 2, 3]] True) \<in> set (listed example_home)"
    by (simp_all add: example_home_def hidden_def)
  ultimately have "\<exists>ino slot. on_image (mk_img s') 1 ino (HFile 7 [[1, 2, 3]] True) \<and>
      sfs_dirent_search_loop 1 (take 252 [97]) 0 (nslots ?i) (nslots ?i) ?k = Some (0, ino, slot, nslots ?i, ?k) \<and>
      sfs_dirent_search_loop 1 [97] 0 (nslots ?i) (nslots ?i) ?k =
        Some (if length ([97] :: u8 list) \<le> 252 then (0, ino, slot, nslots ?i, ?k) else (- E_NOENT, 0, 0, nslots ?i, ?k))"
    using k s'(1) by (intro kernel_finds_home [OF example_mk(1) _ s'(1) example_home(1,3)]) (simp_all add: example_mk(2))
  then obtain ino slot where "sfs_dirent_search_loop 1 [97] 0 (nslots ?i) (nslots ?i) ?k = Some (0, ino, slot, nslots ?i, ?k)"
      "on_image (mk_img s') 1 ino (HFile 7 [[1, 2, 3]] True)" by auto
  moreover have "f_disk ?k = mk_img s'" using k(2) by simp
  moreover have "sin 1 ?k = Some ?i" by (simp add: sin_def)
  ultimately show ?thesis using s'(1) by blast
qed

end
