(* ===== verification/Spec2Isabelle.thy ===== *)
theory Spec2Isabelle
  imports Prelude ListH SkewHeap IntArith CString Printfmt Bitmap Iobuf DefaultPmm Fifo ProcState Sched Sync Phil PhilMon Proc
    Mmu Tlb Swap Pmm Kmalloc Vmm Inode Sfs SfsNode SfsFs Vfs File SfsSpace FileProps
    Life LifeProps Trap TrapProps Intr Net NetProps NetTypes Boot MkSfs MkSfsProps MkSfsFits
begin

text \<open>
  This development models ucore for MIPS, the operating system under
  \<^verbatim>\<open>src/cspro2014_os/ucore/lab8\<close>: a small Unix kernel with pages and a software-loaded TLB, processes,
  semaphores, swapping and a file system. Its directories \<^verbatim>\<open>lab1\<close> to \<^verbatim>\<open>lab7\<close> are earlier stages of the
  same files; \<^verbatim>\<open>lab8\<close> is the complete kernel. All paths below are relative to it.

  \<^bold>\<open>Parts and theories.\<close>

  \<^item> \<^verbatim>\<open>libs/\<close>: the library every part rests on. \<^verbatim>\<open>Prelude\<close> has word types, error numbers, rounding
    (\<^verbatim>\<open>defs.h\<close>, \<^verbatim>\<open>error.h\<close>) and \<open>assert\<close>; \<^verbatim>\<open>ListH\<close> the linked lists of \<^verbatim>\<open>list.h\<close> on a heap of links and the
    predicate \<open>ring\<close> that says which abstract list a ring of links is; \<^verbatim>\<open>IntArith\<close> division (\<^verbatim>\<open>mips32s.h\<close>,
    \<^verbatim>\<open>divmod.h\<close>), \<^verbatim>\<open>hash.c\<close>, \<^verbatim>\<open>rand.c\<close>; \<^verbatim>\<open>CString\<close> \<^verbatim>\<open>string.c\<close> on a memory of bytes; \<^verbatim>\<open>Printfmt\<close> \<^verbatim>\<open>printfmt.c\<close>;
    \<^verbatim>\<open>SkewHeap\<close> the priority queue of \<^verbatim>\<open>skew_heap.h\<close> on a heap of entries.
  \<^item> \<^verbatim>\<open>kern/mm\<close>: \<^verbatim>\<open>DefaultPmm\<close> is the first-fit allocator of pages (\<^verbatim>\<open>default_pmm.c\<close>); \<^verbatim>\<open>Mmu\<close> the macros and
    the state of memory management, the record \<open>vmstate\<close> (\<^verbatim>\<open>mmu.h\<close>, \<^verbatim>\<open>pmm.h\<close>, \<^verbatim>\<open>tlb.h\<close>, \<^verbatim>\<open>memlayout.h\<close>); \<^verbatim>\<open>Tlb\<close>
    \<^verbatim>\<open>tlb.c\<close>; \<^verbatim>\<open>Fifo\<close> and \<^verbatim>\<open>Swap\<close> page replacement (\<^verbatim>\<open>swap.c\<close>, \<^verbatim>\<open>swap_fifo.c\<close>, \<^verbatim>\<open>swapfs.c\<close>); \<^verbatim>\<open>Pmm\<close> page tables
    (\<^verbatim>\<open>pmm.c\<close>); \<^verbatim>\<open>Kmalloc\<close> the kernel heap (\<^verbatim>\<open>kmalloc.c\<close>); \<^verbatim>\<open>Vmm\<close> areas of virtual memory, page faults and
    access to user memory (\<^verbatim>\<open>vmm.c\<close>).
  \<^item> \<^verbatim>\<open>kern/process\<close>, \<^verbatim>\<open>kern/schedule\<close>, \<^verbatim>\<open>kern/sync\<close>: \<^verbatim>\<open>ProcState\<close> is the process table and the record \<open>kstate\<close>;
    \<^verbatim>\<open>Sched\<close> the run queue and the timers; \<^verbatim>\<open>Sync\<close> wait queues, semaphores and monitors; \<^verbatim>\<open>Phil\<close> and \<^verbatim>\<open>PhilMon\<close> the dining philosophers of
    \<^verbatim>\<open>check_sync.c\<close>; \<^verbatim>\<open>Proc\<close>
    identifiers, the table of processes, sleeping, killing, waiting and the process part of \<open>do_exit\<close>; \<^verbatim>\<open>Life\<close> the rest of
    \<^verbatim>\<open>proc.c\<close>: fork, exec and the loading of programs, exit and wait with the release of memory and files, on the record
    \<open>sys\<close> that puts \<open>kstate\<close> and \<open>fstate\<close> together. \<^verbatim>\<open>LifeProps\<close> holds the properties.
  \<^item> \<^verbatim>\<open>kern/trap\<close>, \<^verbatim>\<open>kern/syscall\<close>, \<^verbatim>\<open>kern/init\<close>: \<^verbatim>\<open>Trap\<close> is the dispatch of exceptions, interrupts and system calls, the
    refill of the TLB on a miss, the emulated division (\<^verbatim>\<open>trap.c\<close>, \<^verbatim>\<open>ri.h\<close>, \<^verbatim>\<open>syscall.c\<close>) and the console ring (\<^verbatim>\<open>console.c\<close>); \<^verbatim>\<open>Intr\<close> the
    interrupt mask and the clock (\<^verbatim>\<open>picirq.c\<close>, \<^verbatim>\<open>intr.c\<close>, \<^verbatim>\<open>clock.c\<close>); \<^verbatim>\<open>Boot\<close> the order in which \<^verbatim>\<open>init.c\<close> enables them.
    \<^verbatim>\<open>TrapProps\<close> holds the properties.
  \<^item> \<^verbatim>\<open>kern/driver\<close>: \<^verbatim>\<open>Net\<close> is the Ethernet controller, ARP, IP, ICMP and the TCP server (\<^verbatim>\<open>ethernet.c\<close>, \<^verbatim>\<open>utils.c\<close>, \<^verbatim>\<open>arp.c\<close>,
    \<^verbatim>\<open>ip.c\<close>, \<^verbatim>\<open>icmp.c\<close>, \<^verbatim>\<open>tcp.c\<close>) on the record \<open>net\<close>; \<^verbatim>\<open>NetProps\<close> and \<^verbatim>\<open>NetTypes\<close> hold the properties.
  \<^item> \<^verbatim>\<open>kern/fs\<close>: \<^verbatim>\<open>Bitmap\<close> is the map of free blocks and \<^verbatim>\<open>Iobuf\<close> the cursor of a transfer; \<^verbatim>\<open>Inode\<close> the state of the
    file system, the record \<open>fstate\<close>, with the disk driver and in-memory inodes; \<^verbatim>\<open>Sfs\<close> block I/O and the block
    map of a file (\<^verbatim>\<open>sfs_io.c\<close>, \<^verbatim>\<open>sfs_lock.c\<close>, part of \<^verbatim>\<open>sfs_inode.c\<close>); \<^verbatim>\<open>SfsNode\<close> the rest of \<^verbatim>\<open>sfs_inode.c\<close>;
    \<^verbatim>\<open>SfsFs\<close> mounting (\<^verbatim>\<open>sfs_fs.c\<close>); \<^verbatim>\<open>Vfs\<close> devices, calls through the tables of nodes, names and opening
    (\<^verbatim>\<open>devs/\<close>, \<^verbatim>\<open>vfs/\<close>); \<^verbatim>\<open>File\<close> open files and the system calls on them (\<^verbatim>\<open>file.c\<close>, \<^verbatim>\<open>fs.c\<close>, \<^verbatim>\<open>sysfile.c\<close>).
    \<^verbatim>\<open>SfsSpace\<close> and \<^verbatim>\<open>FileProps\<close> hold the properties of blocks and files.
  \<^item> \<^verbatim>\<open>tools/mksfs.c\<close>: \<^verbatim>\<open>MkSfs\<close> is the host tool that writes the disk image, on the record \<open>mk_fs\<close>; \<^verbatim>\<open>MkSfsProps\<close> and
    \<^verbatim>\<open>MkSfsFits\<close> relate the image to the file system of the kernel.

  \<^bold>\<open>How they interact.\<close> Traps enter \<^verbatim>\<open>Trap\<close>: a system call goes to \<^verbatim>\<open>Life\<close> or \<^verbatim>\<open>File\<close>, a TLB miss to \<^verbatim>\<open>Tlb\<close> and \<^verbatim>\<open>Vmm\<close>, the timer to
  \<^verbatim>\<open>Sched\<close>, a character from the serial port through the ring to the keyboard of \<^verbatim>\<open>Vfs\<close>. The Ethernet interrupt goes to
  \<^verbatim>\<open>Net\<close>, whose handlers call each other from Ethernet up to TCP. The image that \<^verbatim>\<open>MkSfs\<close> writes is the disk \<open>f_disk\<close> that
  \<^verbatim>\<open>SfsFs\<close> mounts. System calls on files enter \<^verbatim>\<open>File\<close>, which copies between user and kernel memory through
  \<^verbatim>\<open>Vmm\<close> and calls \<^verbatim>\<open>Vfs\<close>, which finds a node and calls \<^verbatim>\<open>SfsNode\<close> or a device through the table of the node. \<^verbatim>\<open>Sfs\<close>
  takes blocks from \<^verbatim>\<open>Bitmap\<close> and moves them through the driver in \<^verbatim>\<open>Inode\<close>. \<^verbatim>\<open>Vmm\<close>, \<^verbatim>\<open>Pmm\<close> and \<^verbatim>\<open>Kmalloc\<close> take
  pages from \<^verbatim>\<open>DefaultPmm\<close>, through \<open>alloc_pages\<close> of \<^verbatim>\<open>Pmm\<close>'s base \<^verbatim>\<open>Swap\<close>, which swaps pages out when there are none;
  changes of page tables keep the TLB in step (\<^verbatim>\<open>Tlb\<close>). \<^verbatim>\<open>Sync\<close> puts processes to sleep and wakes them through
  \<^verbatim>\<open>Sched\<close>.

  \<^bold>\<open>Conventions.\<close> A C integer is a word of its width, signed where the code compares signed (\<open>sint\<close>); counters that
  the code keeps in \<open>int\<close> and bounds are \<open>int\<close>. Structures are records; a pointer to one is a number or an
  address, NULL is \<open>None\<close> or 0. Every operation is a function of the state it reads to the state it leaves. \<open>None\<close>
  as the whole result is a panic, a failed assertion, a NULL that is dereferenced, or a loop that does not end (such
  loops are \<open>partial_function\<close>s); error codes are values (\<open>- E_INVAL\<close>). No fuel is used: the other loops recurse on
  a counter of the code or have a termination proof. What the model cannot see is an argument: the effect of the other
  processes while one sleeps (\<open>others\<close>, \<open>sleep\<close>), the contents of fresh memory (\<open>junk\<close>), what a device delivers (the words of \<open>net\<close>, with a log of what it is told), and
  the memory behind the string of the web page. \<open>local_intr_save\<close> brackets make an operation one step. A call that may not
  return to its caller gives a sum, whose left side says that the process is gone. In \<^verbatim>\<open>Net\<close> an access outside of an array is
  \<open>None\<close>. In \<^verbatim>\<open>MkSfs\<close> the directory on the host is a value of type \<open>hdir\<close>; the theorems bound the image by 1024 or 1036 blocks, which
  covers the disk of the kernel and makes the single indirect block enough.

  \<^bold>\<open>What is shown.\<close> \<^verbatim>\<open>DefaultPmm\<close>: allocation is first fit, release merges with both neighbours, and both together are
  the identity, over the invariant \<open>pmm_inv\<close> that the list is the maximal free blocks in address order; the interface is
  the locale \<open>page_manager\<close>. \<^verbatim>\<open>Tlb\<close>: slots and tables agree from the loading of a directory without TLB marks
  until the next load, and after a load exactly if the directory has no marks (the code does not clear them). \<^verbatim>\<open>Pmm\<close>,
  \<^verbatim>\<open>Vmm\<close>: inserting a page into the directory in use maps it, with a new page table where one is missing; the areas of a process stay disjoint and sorted, look-ups find the area, user
  memory is checked byte for byte. \<^verbatim>\<open>Sched\<close>, \<^verbatim>\<open>Sync\<close>: round robin reaches every process, timers
  keep absolute times, a semaphore of value \<open>n\<close> admits at most \<open>n\<close> holders. \<^verbatim>\<open>Phil\<close>, \<^verbatim>\<open>PhilMon\<close>: semaphores are counters with a queue, the dining
  philosophers are safe and all finish, with semaphores and with the monitor. \<^verbatim>\<open>Proc\<close>: identifiers are fresh, the
  hash table finds processes, family links stay consistent. \<^verbatim>\<open>LifeProps\<close>: fork gives a complete child or changes neither the table nor the
  family. \<^verbatim>\<open>TrapProps\<close>, \<^verbatim>\<open>Boot\<close>: the emulated division, the way of typed characters to the keyboard ring, and that a received
  packet stops the booted kernel. \<^verbatim>\<open>NetProps\<close>, \<^verbatim>\<open>NetTypes\<close>: the server answers ARP and ping, serves its page over a TCP
  connection and ignores strangers, an acknowledgement can make it send memory from outside of the page, and a packet
  is stored byte for byte if it fits the buffer and beyond its end if not. \<^verbatim>\<open>SkewHeap\<close>: the heap is a priority queue, as a refinement to multisets. \<^verbatim>\<open>CString\<close>, \<^verbatim>\<open>Printfmt\<close>, \<^verbatim>\<open>Bitmap\<close>, \<^verbatim>\<open>Iobuf\<close>: the library
  functions meet their documented contracts, and where they do not the theorem says so; the bounded printer leaves exactly the
  first characters of the formatted text and returns the length of all of it. \<^verbatim>\<open>SfsSpace\<close>: resizing a file
  moves blocks between the file and the free map and loses none; a file whose blocks are contiguous is read as written,
  and why the others are not; writes never reach the disk.
  \<^verbatim>\<open>FileProps\<close>: the keyboard ring is a queue whose writer wakes all readers, duplicating and closing a descriptor is the identity, and the system
  calls that stop the kernel. \<^verbatim>\<open>MkSfsFits\<close>: the tool succeeds on every tree without hard links that fits and uses exactly the blocks it needs, the
  image holds the tree, the kernel mounts it with the right free blocks and finds every entry of the home directory whose name
  has at most 252 bytes, and no longer one.

  \<^bold>\<open>Not modelled.\<close> The self-tests (\<^verbatim>\<open>check_*\<close>, \<^verbatim>\<open>basic_check\<close>), printing to the console and the kernel's \<^verbatim>\<open>readline\<close> and \<^verbatim>\<open>stdio\<close>, the
  debugger and monitor (\<^verbatim>\<open>kdebug.c\<close>, \<^verbatim>\<open>kmonitor.c\<close>) and the assembly: they produce output
  or run once and keep no state that another part reads. Busy-wait delays. The user programs and the user library, which run on the kernel and
  are not part of it, and \<^verbatim>\<open>lab1\<close> to \<^verbatim>\<open>lab7\<close>, whose files are earlier versions of the files modelled here.
\<close>

end
